(* ===== verification/Prelude.thy ===== *)
theory Prelude
  imports Main "HOL-Library.Product_Lexorder" "HOL-Library.List_Lexorder"
begin

text \<open>
  Shared vocabulary of the development: C++ exceptions and other abnormal ends as values of
  type \<open>error\<close>, results as sums with the combinator \<open>bindR\<close>, the weakest-precondition
  predicate \<open>wpR\<close> in which the component proofs are carried out, checked vector accesses,
  \<open>size_t\<close> arithmetic, the binary-search loop that several source files repeat, and the
  collections of simplification rules the components extend.
\<close>

section \<open>Abnormal ends\<close>

text \<open>
  The first five constructors are the standard exceptions the sources throw, with their message;
  \<open>Stop_requested\<close> is what the stop callback of a matching budget throws.
  \<open>Out_of_range\<close> is \<open>std::out_of_range\<close> from \<open>at()\<close>, \<open>Undefined_behaviour\<close> is an access
  outside a vector by \<open>operator[]\<close> or a null dereference, and \<open>Out_of_fuel\<close> marks a model
  whose step bound was reached. The last three never occur in a correct program: they are fatal.
\<close>

datatype error =
    Invalid_argument string
  | Runtime_error string
  | Overflow_error string
  | Logic_error string
  | Stop_requested string
  | Out_of_range
  | Undefined_behaviour
  | Out_of_fuel

fun fatal :: "error \<Rightarrow> bool" where
  "fatal Out_of_range = True"
| "fatal Undefined_behaviour = True"
| "fatal Out_of_fuel = True"
| "fatal _ = False"

type_synonym 'a result = "error + 'a"

section \<open>Sequencing of computations that may throw\<close>

definition bindR :: "'e + 'a \<Rightarrow> ('a \<Rightarrow> 'e + 'b) \<Rightarrow> 'e + 'b" where
  "bindR m f = (case m of Inl e \<Rightarrow> Inl e | Inr x \<Rightarrow> f x)"

definition guardR :: "bool \<Rightarrow> 'e \<Rightarrow> 'e + unit" where
  "guardR c e = (if c then Inr () else Inl e)"

definition wpR :: "('e \<Rightarrow> bool) \<Rightarrow> ('a \<Rightarrow> bool) \<Rightarrow> 'e + 'a \<Rightarrow> bool" where
  "wpR E P m = (case m of Inl e \<Rightarrow> E e | Inr x \<Rightarrow> P x)"

text \<open>\<open>safeR P m\<close>: the computation ends normally in \<open>P\<close> or throws an exception that is not fatal.\<close>

abbreviation safeR :: "('a \<Rightarrow> bool) \<Rightarrow> 'a result \<Rightarrow> bool" where
  "safeR \<equiv> wpR (\<lambda>e. \<not> fatal e)"

lemma bindR_simps [simp]:
  "bindR (Inr x) f = f x"
  "bindR (Inl e) f = Inl e"
  by (simp_all add: bindR_def)

lemma bindR_cong [fundef_cong]:
  "m = m' \<Longrightarrow> (\<And>x. m' = Inr x \<Longrightarrow> f x = f' x) \<Longrightarrow> bindR m f = bindR m' f'"
  by (simp add: bindR_def split: sum.splits)

lemma bindR_eq_Inr: "bindR m f = Inr y \<longleftrightarrow> (\<exists>x. m = Inr x \<and> f x = Inr y)"
  by (simp add: bindR_def split: sum.splits)

lemma bindR_eq_Inl: "bindR m f = Inl e \<longleftrightarrow> m = Inl e \<or> (\<exists>x. m = Inr x \<and> f x = Inl e)"
  by (auto simp: bindR_def split: sum.splits)

lemma bindR_InrE:
  assumes "bindR m f = Inr y"
  obtains x where "m = Inr x" and "f x = Inr y"
  using assms by (auto simp: bindR_eq_Inr)

lemma wpR_simps [simp]:
  "wpR E P (Inr x) = P x"
  "wpR E P (Inl e) = E e"
  by (simp_all add: wpR_def)

lemma wpR_bindR [simp]: "wpR E P (bindR m f) = wpR E (\<lambda>x. wpR E P (f x)) m"
  by (simp add: wpR_def bindR_def split: sum.splits)

lemma wpR_guardR [simp]: "wpR E P (guardR c e) = (if c then P () else E e)"
  by (simp add: guardR_def)

lemma wpR_if: "wpR E P (if c then m else m') = (if c then wpR E P m else wpR E P m')"
  by simp

lemma wpR_mono:
  "wpR E P m \<Longrightarrow> (\<And>x. m = Inr x \<Longrightarrow> P x \<Longrightarrow> Q x) \<Longrightarrow> wpR E Q m"
  by (auto simp: wpR_def split: sum.splits)

lemma wpR_mono2:
  "wpR E P m \<Longrightarrow> (\<And>e. E e \<Longrightarrow> E' e) \<Longrightarrow> (\<And>x. P x \<Longrightarrow> Q x) \<Longrightarrow> wpR E' Q m"
  by (auto simp: wpR_def split: sum.splits)

lemma wpR_conj: "wpR E P m \<Longrightarrow> wpR E Q m \<Longrightarrow> wpR E (\<lambda>x. P x \<and> Q x) m"
  by (auto simp: wpR_def split: sum.splits)

lemma wpR_InrD: "wpR E P m \<Longrightarrow> m = Inr x \<Longrightarrow> P x"
  by simp

lemma wpR_InlD: "wpR E P m \<Longrightarrow> m = Inl e \<Longrightarrow> E e"
  by simp

lemma wpRI: "(\<And>e. m = Inl e \<Longrightarrow> E e) \<Longrightarrow> (\<And>x. m = Inr x \<Longrightarrow> P x) \<Longrightarrow> wpR E P m"
  by (cases m) auto

text \<open>The proof rule for a call: what is known of the called computation is used in the rest.\<close>

lemma wpR_bindI:
  "wpR E P m \<Longrightarrow> (\<And>x. m = Inr x \<Longrightarrow> P x \<Longrightarrow> wpR E Q (f x)) \<Longrightarrow> wpR E Q (bindR m f)"
  by (auto simp: wpR_def split: sum.splits)

text \<open>A loop that collects the value of each call, and stops at the first exception.\<close>

fun mapR :: "('a \<Rightarrow> 'e + 'b) \<Rightarrow> 'a list \<Rightarrow> 'e + 'b list" where
  "mapR f [] = Inr []"
| "mapR f (x # xs) = bindR (f x) (\<lambda>y. bindR (mapR f xs) (\<lambda>ys. Inr (y # ys)))"

lemma wpR_mapR:
  assumes "\<And>x. x \<in> set xs \<Longrightarrow> wpR E (P x) (f x)"
  shows "wpR E (\<lambda>ys. list_all2 P xs ys) (mapR f xs)"
  using assms
proof (induction xs)
  case (Cons x xs)
  have "wpR E (P x) (f x)" "wpR E (list_all2 P xs) (mapR f xs)" using Cons by simp_all
  then show ?case by (auto elim!: wpR_mono)
qed simp

section \<open>Vectors and machine sizes\<close>

text \<open>\<open>operator[]\<close> and \<open>at()\<close> of a vector.\<close>

definition nthR :: "'a list \<Rightarrow> nat \<Rightarrow> 'a result" where
  "nthR xs i = (if i < length xs then Inr (xs ! i) else Inl Undefined_behaviour)"

definition atR :: "'a list \<Rightarrow> nat \<Rightarrow> 'a result" where
  "atR xs i = (if i < length xs then Inr (xs ! i) else Inl Out_of_range)"

lemma wpR_nthR [simp]:
  "wpR E P (nthR xs i) = (if i < length xs then P (xs ! i) else E Undefined_behaviour)"
  by (simp add: nthR_def)

lemma wpR_atR [simp]:
  "wpR E P (atR xs i) = (if i < length xs then P (xs ! i) else E Out_of_range)"
  by (simp add: atR_def)

lemma nthR_eq_Inr [simp]: "nthR xs i = Inr x \<longleftrightarrow> i < length xs \<and> x = xs ! i"
  by (auto simp: nthR_def)

text \<open>\<open>std::numeric_limits<uint64_t>::max()\<close>, and subtraction that wraps at 64 bits.\<close>

definition u64_max :: nat where
  "u64_max = 18446744073709551615"

definition usub :: "nat \<Rightarrow> nat \<Rightarrow> nat" where
  "usub a b = (if b \<le> a then a - b else a + (u64_max + 1) - b)"

lemma usub_le [simp]: "b \<le> a \<Longrightarrow> usub a b = a - b"
  by (simp add: usub_def)

section \<open>The binary-search loop\<close>

text \<open>
  The loop \<open>while(first<last){middle=first+(last-first)/2; if(p)first=middle+1; else last=middle;}\<close>
  of the table lookups, over the test \<open>p\<close> at an index.
\<close>

function search_loop :: "(nat \<Rightarrow> bool) \<Rightarrow> nat \<Rightarrow> nat \<Rightarrow> nat" where
  "search_loop p lo hi =
     (if lo < hi
      then (let middle = lo + (hi - lo) div 2
            in if p middle then search_loop p (middle + 1) hi else search_loop p lo middle)
      else lo)"
  by pat_completeness auto
termination
  by (relation "measure (\<lambda>(p, lo, hi). hi - lo)") auto

declare search_loop.simps [simp del]

text \<open>On a predicate that is true up to a point and false from it on, the loop finds that point.\<close>

lemma search_loop_partition:
  assumes "lo \<le> n" "n \<le> hi" "\<And>i. lo \<le> i \<Longrightarrow> i < hi \<Longrightarrow> p i \<longleftrightarrow> i < n"
  shows "search_loop p lo hi = n"
  using assms
proof (induction p lo hi rule: search_loop.induct)
  case (1 p lo hi)
  let ?m = "lo + (hi - lo) div 2"
  show ?case
  proof (cases "lo < hi")
    case True
    then have m: "lo \<le> ?m" "?m < hi" by auto
    with "1.prems"(3) [of ?m] have pm: "p ?m \<longleftrightarrow> ?m < n" by simp
    show ?thesis
    proof (cases "?m < n")
      case lt: True
      have "search_loop p (?m + 1) hi = n"
        by (rule "1.IH"(1) [OF True refl]) (use "1.prems" lt pm m in auto)
      with True lt pm show ?thesis by (subst search_loop.simps) (simp add: Let_def)
    next
      case False
      have "search_loop p lo ?m = n"
        by (rule "1.IH"(2) [OF True refl]) (use "1.prems" False pm m in auto)
      with True False pm show ?thesis by (subst search_loop.simps) (simp add: Let_def)
    qed
  next
    case False
    with "1.prems" show ?thesis by (subst search_loop.simps) simp
  qed
qed

section \<open>Code units\<close>

text \<open>A character literal of the source as the number of its code unit.\<close>

abbreviation ch :: "char \<Rightarrow> nat" where
  "ch c \<equiv> of_char c"

abbreviation units :: "string \<Rightarrow> nat list" where
  "units s \<equiv> map of_char s"

end
