(* ===== verification/GrepWork.thy ===== *)
theory GrepWork
  imports Prelude
begin

text \<open>
  The matching budget of \<open>native/runner/grep_work.h\<close>: a countdown of work units that every
  matcher charges, with a stop callback polled on every 4096-unit boundary of the work charged.
  The callback is supplied by the runner; it is modelled by what it answers at its n-th call
  (\<open>None\<close>: returns, \<open>Some m\<close>: throws), and \<open>polls\<close> counts the calls made. The scratch vectors
  the budget lends to the automaton hold no state between matches and are not part of the record.
\<close>

record grep_work =
  remaining :: nat
  check_stopped :: "(nat \<Rightarrow> string option) option"
  until_poll :: nat
  polls :: nat

type_synonym 'a worked = "error \<times> grep_work + 'a"

definition new_work :: "(nat \<Rightarrow> string option) option \<Rightarrow> grep_work" where
  "new_work check =
     \<lparr>remaining = 64 * 1024 * 1024, check_stopped = check, until_poll = 4096, polls = 0\<rparr>"

definition work_error :: error where
  "work_error = Invalid_argument ''Native grep match work capacity64Mi exceeded''"

definition poll :: "nat \<Rightarrow> grep_work \<Rightarrow> grep_work worked" where
  "poll amount w =
     (case check_stopped w of
        None \<Rightarrow> Inr w
      | Some check \<Rightarrow>
          if until_poll w \<le> amount
          then (let w' = w\<lparr>until_poll := 4096 - (amount - until_poll w) mod 4096, polls := polls w + 1\<rparr>
                in case check (polls w) of
                     None \<Rightarrow> Inr w'
                   | Some m \<Rightarrow> Inl (Stop_requested m, w'))
          else Inr (w\<lparr>until_poll := until_poll w - amount\<rparr>))"

definition Charge :: "nat \<Rightarrow> grep_work \<Rightarrow> grep_work worked" where
  "Charge amount w =
     bindR (poll amount w) (\<lambda>w.
       if remaining w < amount then Inl (work_error, w\<lparr>remaining := 0\<rparr>)
       else Inr (w\<lparr>remaining := remaining w - amount\<rparr>))"

text \<open>A sequence of charges.\<close>

fun Charge_all :: "nat list \<Rightarrow> grep_work \<Rightarrow> grep_work worked" where
  "Charge_all [] w = Inr w"
| "Charge_all (a # as) w = bindR (Charge a w) (Charge_all as)"

section \<open>One charge\<close>

lemma poll_remaining:
  "wpR (\<lambda>(e, w'). remaining w' = remaining w \<and> \<not> fatal e) (\<lambda>w'. remaining w' = remaining w) (poll a w)"
  by (auto simp: poll_def Let_def split: option.splits)

text \<open>A charge that returns took exactly its amount; one that throws took nothing or emptied the budget.\<close>

lemma Charge_cases:
  "wpR (\<lambda>(e, w'). \<not> fatal e \<and> (remaining w' = remaining w \<or> remaining w' = 0))
       (\<lambda>w'. a \<le> remaining w \<and> remaining w' = remaining w - a) (Charge a w)"
proof -
  have "wpR (\<lambda>(e, w'). \<not> fatal e \<and> (remaining w' = remaining w \<or> remaining w' = 0))
       (\<lambda>w'. remaining w' = remaining w) (poll a w)"
    by (rule wpR_mono2 [OF poll_remaining]) auto
  then show ?thesis
    unfolding Charge_def
    by (rule wpR_bindI) (auto simp: work_error_def)
qed

lemma Charge_Inr: "Charge a w = Inr w' \<Longrightarrow> a \<le> remaining w \<and> remaining w' = remaining w - a"
  using Charge_cases [of w a] by simp

lemma Charge_Inl: "Charge a w = Inl (e, w') \<Longrightarrow> \<not> fatal e \<and> remaining w' \<le> remaining w"
  using Charge_cases [of w a] by auto

lemma Charge_wp:
  assumes "\<And>w'. Charge a w = Inr w' \<Longrightarrow> a \<le> remaining w \<Longrightarrow> remaining w' = remaining w - a \<Longrightarrow> wpR E P (f w')"
    and "\<And>e w'. \<not> fatal e \<Longrightarrow> remaining w' \<le> remaining w \<Longrightarrow> E (e, w')"
  shows "wpR E P (bindR (Charge a w) f)"
proof (cases "Charge a w")
  case (Inl x)
  then show ?thesis using assms(2) Charge_Inl [of a w "fst x" "snd x"] by (cases x) simp
next
  case (Inr w')
  then show ?thesis using assms(1) Charge_Inr [of a w w'] by simp
qed

text \<open>A budget that has run out stays so: every later charge of a positive amount throws.\<close>

lemma Charge_exhausted: "remaining w = 0 \<Longrightarrow> 0 < a \<Longrightarrow> \<exists>e w'. Charge a w = Inl (e, w') \<and> remaining w' = 0"
  using Charge_cases [of w a] by (cases "Charge a w") auto

section \<open>Poll cadence\<close>

text \<open>
  \<open>until_poll\<close> is the distance from the work charged so far to the next multiple of 4096:
  \<open>phase c w\<close> says so for a total \<open>c\<close>.
\<close>

definition phase :: "nat \<Rightarrow> grep_work \<Rightarrow> bool" where
  "phase c w \<longleftrightarrow> 1 \<le> until_poll w \<and> until_poll w \<le> 4096 \<and> (c + until_poll w) mod 4096 = 0"

lemma phase_new_work [simp]: "phase 0 (new_work check)"
  by (simp add: phase_def new_work_def)

lemma phaseE:
  assumes "phase c w"
  obtains k where "c + until_poll w = 4096 * Suc k" and "c div 4096 = k"
proof -
  from assms obtain n where n: "c + until_poll w = 4096 * n"
    by (auto simp: phase_def mod_eq_0_iff_dvd elim: dvdE)
  with assms have "0 < n" by (cases n) (auto simp: phase_def)
  then obtain k where k: "n = Suc k" by (cases n) auto
  have "c div 4096 = k"
    by (rule div_nat_eqI) (use n k assms in \<open>auto simp: phase_def\<close>)
  with n k that show thesis by blast
qed

lemma phase_boundary:
  assumes "phase c w"
  shows "until_poll w \<le> a \<longleftrightarrow> c div 4096 < (c + a) div 4096"
proof -
  obtain k where k: "c + until_poll w = 4096 * Suc k" "c div 4096 = k"
    by (rule phaseE [OF assms])
  have "until_poll w \<le> a \<longleftrightarrow> Suc k * 4096 \<le> c + a" using k(1) by linarith
  also have "\<dots> \<longleftrightarrow> Suc k \<le> (c + a) div 4096" by (simp add: less_eq_div_iff_mult_less_eq)
  finally show ?thesis by (simp add: k(2) Suc_le_eq)
qed

lemma next_boundary: "(d::nat) + (4096 - d mod 4096) = 4096 * Suc (d div 4096)"
proof -
  define q r where qr: "q = d div 4096" "r = d mod 4096"
  have "d = 4096 * q + r" "r < 4096" by (simp_all add: qr)
  then have "d + (4096 - r) = 4096 * Suc q" by simp
  then show ?thesis by (simp only: qr)
qed

lemma poll_phase:
  assumes "phase c w" "check_stopped w = Some check" "poll a w = Inr w'"
  shows "phase (c + a) w' \<and> check_stopped w' = Some check \<and>
         polls w' = polls w + (if c div 4096 < (c + a) div 4096 then 1 else 0)"
proof (cases "until_poll w \<le> a")
  case True
  have w': "w' = w\<lparr>until_poll := 4096 - (a - until_poll w) mod 4096, polls := polls w + 1\<rparr>"
    using assms True by (auto simp: poll_def Let_def split: option.splits)
  let ?d = "a - until_poll w"
  obtain k where k: "c + until_poll w = 4096 * Suc k" by (rule phaseE [OF assms(1)])
  have "c + a + (4096 - ?d mod 4096) = (c + until_poll w) + (?d + (4096 - ?d mod 4096))"
    using True by simp
  also have "\<dots> = 4096 * (Suc k + Suc (?d div 4096))"
    by (simp only: k next_boundary distrib_left)
  finally have "(c + a + (4096 - ?d mod 4096)) mod 4096 = 0" by simp
  moreover have "1 \<le> 4096 - ?d mod 4096" by (simp add: Suc_le_eq)
  ultimately show ?thesis
    using w' True phase_boundary [OF assms(1), of a] assms(2) by (simp add: phase_def)
next
  case False
  then have w': "w' = w\<lparr>until_poll := until_poll w - a\<rparr>"
    using assms by (auto simp: poll_def)
  show ?thesis
    using False w' assms phase_boundary [OF assms(1), of a] by (simp add: phase_def) linarith
qed

lemma Charge_phase:
  assumes "phase c w" "check_stopped w = Some check" "Charge a w = Inr w'"
  shows "phase (c + a) w' \<and> check_stopped w' = Some check \<and>
         polls w' = polls w + (if c div 4096 < (c + a) div 4096 then 1 else 0)"
proof -
  from assms(3) obtain v where v: "poll a w = Inr v" and w': "w' = v\<lparr>remaining := remaining v - a\<rparr>"
    by (auto simp: Charge_def bindR_eq_Inr split: if_splits)
  from poll_phase [OF assms(1,2) v] show ?thesis
    unfolding w' by (simp add: phase_def)
qed

lemma Charge_all_phase:
  assumes "phase c w" "check_stopped w = Some check" "Charge_all as w = Inr w'"
  shows "phase (c + sum_list as) w' \<and> polls w \<le> polls w' \<and>
         (c div 4096 < (c + sum_list as) div 4096 \<longrightarrow> polls w < polls w')"
  using assms
proof (induction as arbitrary: c w)
  case Nil
  then show ?case by simp
next
  case (Cons a as)
  then obtain v where v: "Charge a w = Inr v" and rest: "Charge_all as v = Inr w'"
    by (auto simp: bindR_eq_Inr)
  note step = Charge_phase [OF Cons.prems(1,2) v]
  have "phase (c + a + sum_list as) w' \<and> polls v \<le> polls w' \<and>
        ((c + a) div 4096 < (c + a + sum_list as) div 4096 \<longrightarrow> polls v < polls w')"
    using Cons.IH [of "c + a" v] step rest by simp
  with step show ?case by (auto simp: add.assoc split: if_splits)
qed

lemma Charge_all_remaining:
  "Charge_all as w = Inr w' \<Longrightarrow> sum_list as \<le> remaining w \<and> remaining w' = remaining w - sum_list as"
proof (induction as arbitrary: w)
  case (Cons a as)
  then show ?case by (fastforce simp: bindR_eq_Inr dest!: Charge_Inr)
qed simp

section \<open>The interface the matchers rely on\<close>

text \<open>
  A budgeted operation takes a budget and returns a value with the budget that is left. The
  contract: it never ends fatally, and it never gives work back. Sequencing keeps the contract,
  so a client that only composes budgeted operations inherits it.
\<close>

definition spends :: "grep_work \<Rightarrow> ('a \<Rightarrow> grep_work) \<Rightarrow> 'a worked \<Rightarrow> bool" where
  "spends w budget m \<longleftrightarrow>
     wpR (\<lambda>(e, w'). \<not> fatal e \<and> remaining w' \<le> remaining w) (\<lambda>x. remaining (budget x) \<le> remaining w) m"

lemma spends_Inr [simp]: "spends w b (Inr x) \<longleftrightarrow> remaining (b x) \<le> remaining w"
  by (simp add: spends_def)

lemma spends_Inl [simp]: "spends w b (Inl (e, w')) \<longleftrightarrow> \<not> fatal e \<and> remaining w' \<le> remaining w"
  by (simp add: spends_def)

lemma spends_trans: "spends w' b m \<Longrightarrow> remaining w' \<le> remaining w \<Longrightarrow> spends w b m"
  unfolding spends_def by (erule wpR_mono2) auto

lemma spends_bindR:
  "spends w b m \<Longrightarrow> (\<And>x. m = Inr x \<Longrightarrow> spends (b x) b' (f x)) \<Longrightarrow> spends w b' (bindR m f)"
  by (cases m) (auto intro: spends_trans)

lemma spends_Charge: "spends w id (Charge a w)"
  using Charge_Inr [of a w] Charge_Inl [of a w] by (cases "Charge a w") auto

section \<open>Properties\<close>

text \<open>
  The stop callback is polled often enough. From a fresh budget with a callback, any
  successful sequence of charges that totals at least 4096 units has called it, and at every
  moment the next call is due exactly when the total reaches the next multiple of 4096.
\<close>

theorem stop_callback_polled:
  assumes "Charge_all as (new_work (Some check)) = Inr w"
  shows "phase (sum_list as) w \<and> remaining w = 64 * 1024 * 1024 - sum_list as \<and>
         (4096 \<le> sum_list as \<longrightarrow> 0 < polls w)"
proof -
  have "check_stopped (new_work (Some check)) = Some check" by (simp add: new_work_def)
  from Charge_all_phase [OF phase_new_work this assms] Charge_all_remaining [OF assms]
  show ?thesis by (auto simp: new_work_def div_greater_zero_iff)
qed

theorem stop_callback_polled_witness:
  "\<exists>w. Charge_all [4000, 200] (new_work (Some (\<lambda>_. None))) = Inr w \<and> phase 4200 w \<and> 0 < polls w"
proof -
  have h: "\<exists>w. Charge_all [4000, 200] (new_work (Some (\<lambda>_. None))) = Inr w"
    by (simp add: Charge_def poll_def new_work_def Let_def)
  then obtain w where w: "Charge_all [4000, 200] (new_work (Some (\<lambda>_. None))) = Inr w" by blast
  show ?thesis using w stop_callback_polled [OF w] by auto
qed

end
