(* ===== verification/GrepUnicode.thy ===== *)
theory GrepUnicode
  imports Prelude
begin

text \<open>
  The lookups of \<open>native/runner/grep_unicode_data.h\<close> and \<open>grep_unicode_properties.h\<close>: case
  mapping by binary search in a table of pairs, and a property found by its alias. The tables
  themselves are data generated from the Unicode database; they are an argument \<open>unicode_tables\<close>
  of the model, and what the code relies on in them is the predicate \<open>tables_ok\<close>: keys in strictly
  increasing order, no mapping target that is itself mapped, code points and indices in range,
  the ranges of one property in order with gaps, and the aliases the code asks for by name.
\<close>

record property =
  first_range :: nat
  range_count :: nat
  first_string :: nat
  string_count :: nat
  property_strings :: bool

record unicode_tables =
  kLegacyMappings :: "(nat \<times> nat) list"
  kSimpleMappings :: "(nat \<times> nat) list"
  kRanges :: "(nat \<times> nat) list"
  kPoints :: "nat list"
  kStrings :: "(nat \<times> nat) list"
  kProperties :: "property list"
  kAliases :: "(nat list \<times> nat) list"

definition Lookup :: "(nat \<times> nat) list \<Rightarrow> nat \<Rightarrow> nat" where
  "Lookup table code =
     (let first = search_loop (\<lambda>middle. fst (table ! middle) < code) 0 (length table)
      in if first < length table \<and> fst (table ! first) = code then snd (table ! first) else code)"

definition Legacy :: "unicode_tables \<Rightarrow> nat \<Rightarrow> nat" where
  "Legacy t unit =
     (if unit < 128
      then (if ch CHR ''a'' \<le> unit \<and> unit \<le> ch CHR ''z'' then (unit - 32) mod 65536 else unit)
      else Lookup (kLegacyMappings t) unit mod 65536)"

definition Simple :: "unicode_tables \<Rightarrow> nat \<Rightarrow> nat" where
  "Simple t point = Lookup (kSimpleMappings t) point"

text \<open>\<open>Find\<close>: the property of an alias, \<open>None\<close> for the null pointer; an alias that points outside
  the property table is undefined behaviour.\<close>

definition Find :: "unicode_tables \<Rightarrow> nat list \<Rightarrow> property option result" where
  "Find t name =
     (let first = search_loop (\<lambda>middle. fst (kAliases t ! middle) < name) 0 (length (kAliases t))
      in if first < length (kAliases t) \<and> fst (kAliases t ! first) = name
         then bindR (nthR (kProperties t) (snd (kAliases t ! first))) (\<lambda>p. Inr (Some p))
         else Inr None)"

section \<open>What the code relies on in the tables\<close>

abbreviation max_point :: nat where
  "max_point \<equiv> 0x10ffff"

definition mappings_ok :: "nat \<Rightarrow> (nat \<times> nat) list \<Rightarrow> bool" where
  "mappings_ok b m \<longleftrightarrow>
     sorted_wrt (<) (map fst m) \<and> list_all (\<lambda>(from, to). from \<le> b \<and> to \<le> b) m \<and>
     list_all (\<lambda>(_, to). to \<notin> set (map fst m)) m"

definition property_ok :: "unicode_tables \<Rightarrow> property \<Rightarrow> bool" where
  "property_ok t p \<longleftrightarrow>
     first_range p + range_count p \<le> length (kRanges t) \<and>
     first_string p + string_count p \<le> length (kStrings t) \<and>
     sorted_wrt (\<lambda>r s. snd r + 1 < fst s) (take (range_count p) (drop (first_range p) (kRanges t)))"

definition tables_ok :: "unicode_tables \<Rightarrow> bool" where
  "tables_ok t \<longleftrightarrow>
     mappings_ok 65535 (kLegacyMappings t) \<and>
     list_all (\<lambda>u. Lookup (kLegacyMappings t) u =
                 (if ch CHR ''a'' \<le> u \<and> u \<le> ch CHR ''z'' then u - 32 else u)) [0..<128] \<and>
     mappings_ok max_point (kSimpleMappings t) \<and>
     list_all (\<lambda>(a, b). a \<le> b \<and> b \<le> max_point) (kRanges t) \<and>
     list_all (\<lambda>p. p \<le> max_point) (kPoints t) \<and>
     list_all (\<lambda>(first, count). first + count \<le> length (kPoints t)) (kStrings t) \<and>
     list_all (property_ok t) (kProperties t) \<and>
     sorted_wrt (<) (map fst (kAliases t)) \<and>
     list_all (\<lambda>(_, p). p < length (kProperties t)) (kAliases t) \<and>
     units ''ID_Start'' \<in> set (map fst (kAliases t)) \<and>
     units ''ID_Continue'' \<in> set (map fst (kAliases t))"

lemma tables_okD:
  assumes "tables_ok t"
  shows "mappings_ok 65535 (kLegacyMappings t)" "mappings_ok max_point (kSimpleMappings t)"
    "\<And>a b. (a, b) \<in> set (kRanges t) \<Longrightarrow> a \<le> b \<and> b \<le> max_point"
    "\<And>p. p \<in> set (kPoints t) \<Longrightarrow> p \<le> max_point"
    "\<And>s n. (s, n) \<in> set (kStrings t) \<Longrightarrow> s + n \<le> length (kPoints t)"
    "\<And>p. p \<in> set (kProperties t) \<Longrightarrow> property_ok t p"
    "sorted_wrt (<) (map fst (kAliases t))"
    "\<And>n p. (n, p) \<in> set (kAliases t) \<Longrightarrow> p < length (kProperties t)"
    "units ''ID_Start'' \<in> set (map fst (kAliases t))"
    "units ''ID_Continue'' \<in> set (map fst (kAliases t))"
  using assms by (auto simp: tables_ok_def list_all_iff simp del: list.map set_map)

lemma tables_ok_ascii:
  "tables_ok t \<Longrightarrow> u < 128 \<Longrightarrow>
   Lookup (kLegacyMappings t) u = (if ch CHR ''a'' \<le> u \<and> u \<le> ch CHR ''z'' then u - 32 else u)"
  by (simp add: tables_ok_def list_all_iff del: of_char_Char)

section \<open>Binary search in a sorted table\<close>

lemma sorted_partition:
  fixes keys :: "'a::linorder list"
  assumes "sorted_wrt (<) keys" "i < length keys"
  shows "keys ! i < k \<longleftrightarrow> i < length (takeWhile (\<lambda>x. x < k) keys)"
proof
  assume "i < length (takeWhile (\<lambda>x. x < k) keys)"
  then show "keys ! i < k"
    by (metis nth_mem set_takeWhileD takeWhile_nth)
next
  assume lt: "keys ! i < k"
  show "i < length (takeWhile (\<lambda>x. x < k) keys)"
  proof (rule ccontr)
    let ?n = "length (takeWhile (\<lambda>x. x < k) keys)"
    assume "\<not> i < ?n"
    then have le: "?n \<le> i" by simp
    with assms(2) have "?n < length keys" by simp
    then have "\<not> keys ! ?n < k" by (rule nth_length_takeWhile)
    moreover have "keys ! ?n \<le> keys ! i"
      using assms le by (metis le_neq_implies_less order.order_iff_strict sorted_wrt_nth_less)
    ultimately show False using lt by simp
  qed
qed

text \<open>The search loop over the keys of a sorted table returns the position of the first key that
  is not smaller than the one looked up.\<close>

lemma search_loop_sorted:
  fixes keys :: "'a::linorder list"
  assumes "sorted_wrt (<) keys" "length keys = n" "\<And>i. i < n \<Longrightarrow> p i \<longleftrightarrow> keys ! i < k"
  shows "search_loop p 0 n = length (takeWhile (\<lambda>x. x < k) keys)"
  by (rule search_loop_partition)
    (use assms in \<open>auto simp: sorted_partition intro: length_takeWhile_le\<close>)

lemma sorted_first_not_less:
  fixes keys :: "'a::linorder list" and k :: 'a
  assumes "sorted_wrt (<) keys"
  defines "n \<equiv> length (takeWhile (\<lambda>x. x < k) keys)"
  shows "k \<in> set keys \<longleftrightarrow> n < length keys \<and> keys ! n = k"
proof
  assume "k \<in> set keys"
  then obtain i where i: "i < length keys" "keys ! i = k" by (auto simp: in_set_conv_nth)
  have "\<not> i < n" using sorted_partition [OF assms(1) i(1), of k] i by (simp add: n_def)
  moreover have "\<not> n < i"
  proof
    assume "n < i"
    with i assms(1) have "keys ! n < k" by (metis sorted_wrt_nth_less)
    moreover from \<open>n < i\<close> i have "n < length keys" by simp
    ultimately show False using sorted_partition [OF assms(1), of n k] by (simp add: n_def)
  qed
  ultimately have "n = i" by simp
  with i show "n < length keys \<and> keys ! n = k" by simp
qed auto

lemma map_of_nth_sorted:
  fixes table :: "('a::linorder \<times> 'b) list"
  assumes "sorted_wrt (<) (map fst table)" "i < length table"
  shows "map_of table (fst (table ! i)) = Some (snd (table ! i))"
proof -
  have "distinct (map fst table)" using assms(1) by (simp add: strict_sorted_iff)
  then show ?thesis using assms(2) by simp
qed

lemma Lookup_map_of:
  assumes "sorted_wrt (<) (map fst table)"
  shows "Lookup table code = (case map_of table code of Some to \<Rightarrow> to | None \<Rightarrow> code)"
proof -
  let ?n = "length (takeWhile (\<lambda>x. x < code) (map fst table))"
  have s: "search_loop (\<lambda>i. fst (table ! i) < code) 0 (length table) = ?n"
    by (rule search_loop_sorted [OF assms]) auto
  show ?thesis
  proof (cases "?n < length table \<and> fst (table ! ?n) = code")
    case True
    with map_of_nth_sorted [OF assms, of ?n] show ?thesis
      unfolding Lookup_def s by (simp add: Let_def)
  next
    case False
    have n: "length (takeWhile ((\<lambda>x. x < code) \<circ> fst) table) = ?n"
      by (simp add: takeWhile_map)
    have "code \<notin> set (map fst table)"
      using sorted_first_not_less [OF assms, of code] False by (auto simp: n)
    then have "map_of table code = None" by (simp add: map_of_eq_None_iff)
    with False show ?thesis unfolding Lookup_def s by (auto simp: Let_def)
  qed
qed

lemma Lookup_bound: "mappings_ok b m \<Longrightarrow> c \<le> b \<Longrightarrow> Lookup m c \<le> b"
  by (auto simp: mappings_ok_def Lookup_map_of list_all_iff split: option.splits dest!: map_of_SomeD)

lemma Legacy_Lookup:
  assumes "tables_ok t" "u < 65536"
  shows "Legacy t u = Lookup (kLegacyMappings t) u"
proof (cases "u < 128")
  case True
  have "u - 32 < 65536" using assms by simp
  then show ?thesis using True tables_ok_ascii [OF assms(1) True] assms(2)
    by (simp add: Legacy_def del: of_char_Char)
next
  case False
  have "Lookup (kLegacyMappings t) u \<le> 65535"
    using assms by (intro Lookup_bound tables_okD) auto
  with False show ?thesis by (simp add: Legacy_def)
qed

lemma Find_safe:
  assumes "tables_ok t"
  shows "\<exists>p. Find t name = Inr p \<and> (\<forall>q. p = Some q \<longrightarrow> q \<in> set (kProperties t)) \<and>
             (name \<in> set (map fst (kAliases t)) \<longrightarrow> p \<noteq> None)"
proof -
  note sorted = tables_okD(7) [OF assms]
  let ?n = "length (takeWhile (\<lambda>x. x < name) (map fst (kAliases t)))"
  have s: "search_loop (\<lambda>i. fst (kAliases t ! i) < name) 0 (length (kAliases t)) = ?n"
    by (rule search_loop_sorted [OF sorted]) auto
  show ?thesis
  proof (cases "?n < length (kAliases t) \<and> fst (kAliases t ! ?n) = name")
    case True
    then have "kAliases t ! ?n \<in> set (kAliases t)" by simp
    then have "snd (kAliases t ! ?n) < length (kProperties t)"
      by (metis prod.collapse tables_okD(8) [OF assms])
    with True show ?thesis unfolding Find_def s by (simp add: Let_def nthR_def)
  next
    case False
    then have "name \<notin> set (map fst (kAliases t))"
      using sorted_first_not_less [OF sorted, of name] by (metis length_map nth_map)
    with False show ?thesis unfolding Find_def s by (auto simp: Let_def)
  qed
qed

section \<open>The ASCII fragment of the tables\<close>

text \<open>A small instance of the tables, the part of the shipped data that concerns ASCII letters.\<close>

definition ascii_tables :: unicode_tables where
  "ascii_tables = \<lparr>
     kLegacyMappings = map (\<lambda>i. (97 + i, 65 + i)) [0..<26],
     kSimpleMappings = map (\<lambda>i. (65 + i, 97 + i)) [0..<26],
     kRanges = [(65, 90), (97, 122), (48, 57), (65, 90), (95, 95), (97, 122)],
     kPoints = [],
     kStrings = [],
     kProperties = [\<lparr>first_range = 0, range_count = 2, first_string = 0, string_count = 0, property_strings = False\<rparr>,
                    \<lparr>first_range = 2, range_count = 4, first_string = 0, string_count = 0, property_strings = False\<rparr>],
     kAliases = [(units ''ID_Continue'', 1), (units ''ID_Start'', 0)]\<rparr>"

lemma shift_table_sorted: "sorted_wrt (<) (map fst (map (\<lambda>i. (a + i, b + i)) [0..<n]))" for a b n :: nat
  by (simp add: sorted_wrt_map comp_def sorted_wrt_iff_nth_less)

lemma shift_table_map_of:
  "map_of (map (\<lambda>i. (a + i, b + i)) [0..<n]) p = (if a \<le> p \<and> p < a + n then Some (p - a + b) else None)"
  for a b n p :: nat
  by (induction n) (auto simp: map_add_def)

lemma shift_table_ok:
  fixes a b n k :: nat
  assumes "a + n \<le> Suc k" "b + n \<le> Suc k" "a + n \<le> b \<or> b + n \<le> a"
  shows "mappings_ok k (map (\<lambda>i. (a + i, b + i)) [0..<n])"
  using assms shift_table_sorted [of a b n] by (auto simp: mappings_ok_def list_all_iff)

lemma ascii_tables_ok: "tables_ok ascii_tables"
proof -
  have "mappings_ok 65535 (kLegacyMappings ascii_tables)" "mappings_ok max_point (kSimpleMappings ascii_tables)"
    unfolding ascii_tables_def unicode_tables.simps by (rule shift_table_ok; simp)+
  moreover have "list_all (\<lambda>u. Lookup (kLegacyMappings ascii_tables) u =
                 (if ch CHR ''a'' \<le> u \<and> u \<le> ch CHR ''z'' then u - 32 else u)) [0..<128]"
    using shift_table_sorted [of 97 65 26]
    by (auto simp: ascii_tables_def list_all_iff Lookup_map_of shift_table_map_of simp del: upt_rec_numeral)
  moreover have "list_all (property_ok ascii_tables) (kProperties ascii_tables)"
    by (simp add: ascii_tables_def property_ok_def)
  moreover have "sorted_wrt (<) (map fst (kAliases ascii_tables))"
    by (simp add: ascii_tables_def)
  ultimately show ?thesis
    unfolding tables_ok_def by (simp add: ascii_tables_def)
qed

end
