(* ===== verification/GrepRanges.thy ===== *)
theory GrepRanges
  imports GrepWork GrepUnicode
begin

text \<open>
  The character-set arithmetic of \<open>native/runner/grep_vm.h\<close>: flags, canonicalization of a
  code point, and the operations on lists of inclusive ranges (\<open>Normalize\<close>, \<open>Complement\<close>,
  \<open>CanonicalRanges\<close>, \<open>CaseClosure\<close>, \<open>HasPoint\<close>, \<open>Intersect\<close>, \<open>Subtract\<close>). A list of ranges
  stands for the set \<open>points\<close> of its code points; the operations keep lists \<open>separated\<close>
  (ordered, with a gap between neighbours) and compute the set operation their name says.
  Code points are below \<open>0x110000\<close>, so the 32-bit additions of the source never wrap and ranges
  are pairs of naturals.
\<close>

type_synonym ranges = "(nat \<times> nat) list"

record flags =
  insensitive :: bool
  multiline :: bool
  dot_all :: bool
  sticky :: bool
  unicode :: bool
  unicode_sets :: bool

definition Fail :: "string \<Rightarrow> error" where
  "Fail message = Invalid_argument (''Native grep VM: '' @ message)"

definition Unicode :: "flags \<Rightarrow> bool" where
  "Unicode f \<longleftrightarrow> unicode f \<or> unicode_sets f"

definition Line :: "nat \<Rightarrow> bool" where
  "Line point \<longleftrightarrow> point = 10 \<or> point = 13 \<or> point = 0x2028 \<or> point = 0x2029"

definition Canonical :: "unicode_tables \<Rightarrow> flags \<Rightarrow> nat \<Rightarrow> nat" where
  "Canonical t f point =
     (if \<not> insensitive f then point
      else if unicode f \<or> unicode_sets f then Simple t point
      else Legacy t (point mod 65536))"

definition Word :: "unicode_tables \<Rightarrow> flags \<Rightarrow> nat \<Rightarrow> bool" where
  "Word t f point =
     (let point = Canonical t f point
      in (ch CHR ''A'' \<le> point \<and> point \<le> ch CHR ''Z'') \<or> (ch CHR ''a'' \<le> point \<and> point \<le> ch CHR ''z'') \<or>
         (ch CHR ''0'' \<le> point \<and> point \<le> ch CHR ''9'') \<or> point = ch CHR ''_'')"

text \<open>\<open>Normalize\<close>: the accumulator holds the result vector with its back first.\<close>

fun normalize_loop :: "ranges \<Rightarrow> ranges \<Rightarrow> ranges result" where
  "normalize_loop acc [] = Inr (rev acc)"
| "normalize_loop acc ((first, lst) # rs) =
     (if lst < first then Inl (Fail ''reversed character range'')
      else case acc of
             (bfirst, blast) # bs \<Rightarrow>
               if first \<le> blast + 1 then normalize_loop ((bfirst, max lst blast) # bs) rs
               else normalize_loop ((first, lst) # acc) rs
           | [] \<Rightarrow> normalize_loop [(first, lst)] rs)"

definition Normalize :: "ranges \<Rightarrow> ranges result" where
  "Normalize rs = normalize_loop [] (sort rs)"

fun complement_loop :: "nat \<Rightarrow> nat \<Rightarrow> ranges \<Rightarrow> ranges" where
  "complement_loop lst next [] = (if next \<le> lst then [(next, lst)] else [])"
| "complement_loop lst next ((a, b) # rs) =
     (if next < a then [(next, a - 1)] else []) @ complement_loop lst (b + 1) rs"

definition last_point :: "flags \<Rightarrow> nat" where
  "last_point f = (if Unicode f then 0x10ffff else 65535)"

definition Complement :: "flags \<Rightarrow> ranges \<Rightarrow> ranges" where
  "Complement f rs = complement_loop (last_point f) 0 rs"

text \<open>The projection of one range through a sorted mapping table (the lambda \<open>project\<close>):
  \<open>lower_bound\<close> is the first entry whose key is not below the range.\<close>

fun project_loop :: "nat \<Rightarrow> nat \<Rightarrow> (nat \<times> nat) list \<Rightarrow> ranges" where
  "project_loop lst cursor [] = (if cursor \<le> lst then [(cursor, lst)] else [])"
| "project_loop lst cursor ((from, to) # ms) =
     (if from \<le> lst
      then (if cursor < from then [(cursor, from - 1)] else []) @ (to, to) # project_loop lst (from + 1) ms
      else if cursor \<le> lst then [(cursor, lst)] else [])"

definition project :: "(nat \<times> nat) list \<Rightarrow> ranges \<Rightarrow> ranges" where
  "project ms rs =
     concat (map (\<lambda>(first, lst). project_loop lst first (dropWhile (\<lambda>(from, to). from < first) ms)) rs)"

definition CanonicalRanges :: "unicode_tables \<Rightarrow> flags \<Rightarrow> ranges \<Rightarrow> ranges result" where
  "CanonicalRanges t f rs =
     (if \<not> insensitive f then Inr rs
      else Normalize (project (if Unicode f then kSimpleMappings t else kLegacyMappings t) rs))"

text \<open>The two binary searches over ranges, \<open>HasPoint\<close> and the budgeted \<open>Contains\<close>.\<close>

function has_point_loop :: "ranges \<Rightarrow> nat \<Rightarrow> nat \<Rightarrow> nat \<Rightarrow> bool" where
  "has_point_loop rs point lo hi =
     (if lo < hi
      then (let middle = lo + (hi - lo) div 2
            in if point < fst (rs ! middle) then has_point_loop rs point lo middle
               else if snd (rs ! middle) < point then has_point_loop rs point (middle + 1) hi
               else True)
      else False)"
  by pat_completeness auto
termination
  by (relation "measure (\<lambda>(rs, point, lo, hi). hi - lo)") auto

definition HasPoint :: "ranges \<Rightarrow> nat \<Rightarrow> bool" where
  "HasPoint rs point = has_point_loop rs point 0 (length rs)"

function contains_loop :: "ranges \<Rightarrow> nat \<Rightarrow> nat \<Rightarrow> nat \<Rightarrow> grep_work \<Rightarrow> (bool \<times> grep_work) worked" where
  "contains_loop rs point lo hi w =
     (if lo < hi
      then bindR (Charge 1 w) (\<lambda>w.
             let middle = lo + (hi - lo) div 2
             in if point < fst (rs ! middle) then contains_loop rs point lo middle w
                else if snd (rs ! middle) < point then contains_loop rs point (middle + 1) hi w
                else Inr (True, w))
      else Inr (False, w))"
  by pat_completeness auto
termination
  by (relation "measure (\<lambda>(rs, point, lo, hi, w). hi - lo)") auto

definition Contains :: "ranges \<Rightarrow> nat \<Rightarrow> grep_work \<Rightarrow> (bool \<times> grep_work) worked" where
  "Contains rs point w = contains_loop rs point 0 (length rs) w"

definition CaseClosure :: "unicode_tables \<Rightarrow> flags \<Rightarrow> ranges \<Rightarrow> ranges result" where
  "CaseClosure t f rs =
     bindR (Normalize rs) (\<lambda>rs.
     bindR (CanonicalRanges t f rs) (\<lambda>rs.
       if \<not> insensitive f then Inr rs
       else Normalize (rs @ [(from, from). (from, to) \<leftarrow> kSimpleMappings t, HasPoint rs to])))"

fun Intersect :: "ranges \<Rightarrow> ranges \<Rightarrow> ranges" where
  "Intersect ((a, b) # left) ((c, d) # right) =
     (let first = max a c; lst = min b d
      in (if first \<le> lst then [(first, lst)] else []) @
         (if b < d then Intersect left ((c, d) # right) else Intersect ((a, b) # left) right))"
| "Intersect [] right = []"
| "Intersect left [] = []"

fun subtract_loop :: "nat \<Rightarrow> nat \<Rightarrow> ranges \<Rightarrow> ranges" where
  "subtract_loop lst cursor [] = (if cursor \<le> lst then [(cursor, lst)] else [])"
| "subtract_loop lst cursor ((c, d) # right) =
     (if c \<le> lst
      then (if cursor < c then [(cursor, c - 1)] else []) @
           (let cursor = max cursor (d + 1)
            in if lst < cursor then [] else subtract_loop lst cursor right)
      else if cursor \<le> lst then [(cursor, lst)] else [])"

fun Subtract :: "ranges \<Rightarrow> ranges \<Rightarrow> ranges" where
  "Subtract [] right = []"
| "Subtract ((first, lst) # left) right =
     (let right = dropWhile (\<lambda>(c, d). d < first) right
      in subtract_loop lst first right @ Subtract left right)"

definition ComplementCanonical :: "unicode_tables \<Rightarrow> flags \<Rightarrow> ranges \<Rightarrow> ranges result" where
  "ComplementCanonical t f rs =
     (if unicode_sets f then Inr (Complement f rs)
      else bindR (CanonicalRanges t f [(0, last_point f)]) (\<lambda>all. Inr (Subtract all rs)))"

declare has_point_loop.simps [simp del] contains_loop.simps [simp del]

section \<open>Ranges as sets of code points\<close>

definition points :: "ranges \<Rightarrow> nat set" where
  "points rs = (\<Union>(a, b) \<in> set rs. {a..b})"

definition gap :: "nat \<times> nat \<Rightarrow> nat \<times> nat \<Rightarrow> bool" where
  "gap r s \<longleftrightarrow> snd r + 1 < fst s"

definition separated :: "ranges \<Rightarrow> bool" where
  "separated rs \<longleftrightarrow> (\<forall>r \<in> set rs. fst r \<le> snd r) \<and> sorted_wrt gap rs"

definition below :: "nat \<Rightarrow> ranges \<Rightarrow> bool" where
  "below n rs \<longleftrightarrow> (\<forall>r \<in> set rs. snd r \<le> n)"

definition ordered :: "ranges \<Rightarrow> bool" where
  "ordered rs \<longleftrightarrow> (\<forall>r \<in> set rs. fst r \<le> snd r)"

lemma points_Nil [simp]: "points [] = {}"
  by (simp add: points_def)

lemma points_Cons [simp]: "points ((a, b) # rs) = {a..b} \<union> points rs"
  by (simp add: points_def)

lemma points_append [simp]: "points (xs @ ys) = points xs \<union> points ys"
  by (simp add: points_def)

lemma points_cong: "set xs = set ys \<Longrightarrow> points xs = points ys"
  by (simp add: points_def)

lemma points_iff: "p \<in> points rs \<longleftrightarrow> (\<exists>r \<in> set rs. fst r \<le> p \<and> p \<le> snd r)"
  by (force simp: points_def)

lemma points_rev [simp]: "points (rev rs) = points rs"
  by (simp add: points_def)

lemma separated_Nil [simp]: "separated []"
  by (simp add: separated_def)

lemma separated_Cons [simp]:
  "separated ((a, b) # rs) \<longleftrightarrow> a \<le> b \<and> (\<forall>r \<in> set rs. b + 1 < fst r) \<and> separated rs"
  by (auto simp: separated_def gap_def)

lemma separated_append:
  "separated (xs @ ys) \<longleftrightarrow>
   separated xs \<and> separated ys \<and> (\<forall>r \<in> set xs. \<forall>s \<in> set ys. snd r + 1 < fst s)"
  by (auto simp: separated_def sorted_wrt_append gap_def)

lemma below_simps [simp]:
  "below n []" "below n (r # rs) \<longleftrightarrow> snd r \<le> n \<and> below n rs"
  "below n (xs @ ys) \<longleftrightarrow> below n xs \<and> below n ys"
  by (auto simp: below_def)

lemma below_cong: "set xs = set ys \<Longrightarrow> below n xs = below n ys"
  by (simp add: below_def)

lemma below_rev [simp]: "below n (rev rs) = below n rs"
  by (simp add: below_def)

lemma ordered_simps [simp]:
  "ordered []" "ordered (r # rs) \<longleftrightarrow> fst r \<le> snd r \<and> ordered rs"
  "ordered (xs @ ys) \<longleftrightarrow> ordered xs \<and> ordered ys"
  by (auto simp: ordered_def)

lemma separated_ordered: "separated rs \<Longrightarrow> ordered rs"
  by (simp add: separated_def ordered_def)

lemma points_below: "below n rs \<Longrightarrow> p \<in> points rs \<Longrightarrow> p \<le> n"
  by (fastforce simp: below_def points_iff)

lemma separated_gt: "separated ((a, b) # rs) \<Longrightarrow> p \<in> points rs \<Longrightarrow> b + 1 < p"
  by (fastforce simp: points_iff)

section \<open>Normalize\<close>

lemma normalize_loop_ok:
  assumes "sorted rs" "ordered rs" "separated (rev acc)" "below n acc" "below n rs"
    "\<And>r. acc \<noteq> [] \<Longrightarrow> r \<in> set rs \<Longrightarrow> fst (hd acc) \<le> fst r"
  shows "\<exists>r. normalize_loop acc rs = Inr r \<and> separated r \<and> below n r \<and> points r = points acc \<union> points rs"
  using assms
proof (induction acc rs rule: normalize_loop.induct)
  case (1 acc)
  then show ?case by auto
next
  case (2 acc a b rs)
  have ab: "a \<le> b" and le: "\<And>r. r \<in> set rs \<Longrightarrow> a \<le> fst r"
    using "2.prems" by (force simp: less_eq_prod_def)+
  show ?case
  proof (cases acc)
    case Nil
    have "\<exists>r. normalize_loop [(a, b)] rs = Inr r \<and> separated r \<and> below n r \<and>
            points r = points [(a, b)] \<union> points rs"
      by (rule "2.IH"(1)) (use "2.prems" Nil ab le in auto)
    with Nil ab show ?thesis by simp
  next
    case (Cons h bs)
    obtain c d where h: "h = (c, d)" by (cases h)
    have cd: "c \<le> d" and ca: "c \<le> a" and sep: "separated (rev bs)"
      and bs: "\<And>r. r \<in> set bs \<Longrightarrow> snd r + 1 < c"
      using "2.prems"(3) "2.prems"(6) [of "(a, b)"] Cons h by (auto simp: separated_append)
    show ?thesis
    proof (cases "a \<le> d + 1")
      case True
      have "\<exists>r. normalize_loop ((c, max b d) # bs) rs = Inr r \<and> separated r \<and> below n r \<and>
              points r = points ((c, max b d) # bs) \<union> points rs"
        by (rule "2.IH"(2)) (use "2.prems" Cons h ab ca le cd sep bs True in
            \<open>auto simp: separated_append intro: order_trans [OF ca]\<close>)
      moreover have "{c..max b d} = {a..b} \<union> {c..d}" using True ca cd ab by auto
      ultimately show ?thesis using Cons h ab True by auto
    next
      case False
      have "\<exists>r. normalize_loop ((a, b) # acc) rs = Inr r \<and> separated r \<and> below n r \<and>
              points r = points ((a, b) # acc) \<union> points rs"
        by (rule "2.IH"(3)) (use "2.prems" Cons h ab ca le cd sep bs False in
            \<open>fastforce simp: separated_append\<close>)+
      then show ?thesis using Cons h ab False by auto
    qed
  qed
qed

lemma Normalize_ok:
  assumes "ordered rs" "below n rs"
  shows "\<exists>r. Normalize rs = Inr r \<and> separated r \<and> below n r \<and> points r = points rs"
proof -
  have "\<exists>r. normalize_loop [] (sort rs) = Inr r \<and> separated r \<and> below n r \<and>
          points r = points [] \<union> points (sort rs)"
    by (rule normalize_loop_ok) (use assms in \<open>auto simp: ordered_def below_def\<close>)
  moreover have "points (sort rs) = points rs" by (rule points_cong) simp
  ultimately show ?thesis by (simp add: Normalize_def)
qed

lemma normalize_loop_error: "\<not> ordered rs \<Longrightarrow> normalize_loop acc rs = Inl (Fail ''reversed character range'')"
  by (induction acc rs rule: normalize_loop.induct) (auto split: list.splits)

lemma Normalize_error: "\<not> ordered rs \<Longrightarrow> Normalize rs = Inl (Fail ''reversed character range'')"
  unfolding Normalize_def by (rule normalize_loop_error) (simp add: ordered_def)

lemma Fail_not_fatal [simp]: "\<not> fatal (Fail m)"
  by (simp add: Fail_def)

lemma Normalize_wp:
  "below n rs \<Longrightarrow> safeR (\<lambda>r. separated r \<and> below n r \<and> points r = points rs) (Normalize rs)"
  by (cases "ordered rs") (auto simp: Normalize_error dest: Normalize_ok)

section \<open>Complement\<close>

lemma complement_loop_ok:
  assumes "separated rs" "below n rs" "\<And>r. r \<in> set rs \<Longrightarrow> m \<le> fst r"
  shows "separated (complement_loop n m rs) \<and> below n (complement_loop n m rs) \<and>
         (\<forall>r \<in> set (complement_loop n m rs). m \<le> fst r) \<and>
         points (complement_loop n m rs) = {m..n} - points rs"
  using assms
proof (induction n m rs rule: complement_loop.induct)
  case (1 n m)
  then show ?case by auto
next
  case (2 n m a b rs)
  have ab: "a \<le> b" "m \<le> a" "b \<le> n" using "2.prems"(1,2) "2.prems"(3) [of "(a, b)"] by auto
  have IH: "separated (complement_loop n (b + 1) rs) \<and> below n (complement_loop n (b + 1) rs) \<and>
         (\<forall>r \<in> set (complement_loop n (b + 1) rs). b + 1 \<le> fst r) \<and>
         points (complement_loop n (b + 1) rs) = {b + 1..n} - points rs"
    by (rule "2.IH") (use "2.prems" in \<open>auto simp: less_imp_le\<close>)
  have gt: "\<And>p. p \<in> points rs \<Longrightarrow> b + 1 < p" using separated_gt "2.prems"(1) by blast
  have head: "points (if m < a then [(m, a - 1)] else []) = {m..<a}" by auto
  have "{m..<a} \<union> ({b + 1..n} - points rs) = {m..n} - ({a..b} \<union> points rs)"
    using ab gt by fastforce
  with IH have "points (complement_loop n m ((a, b) # rs)) = {m..n} - points ((a, b) # rs)"
    by (simp only: complement_loop.simps points_append points_Cons head)
  moreover have "\<forall>r \<in> set (complement_loop n (b + 1) rs). m \<le> fst r \<and> a < fst r"
    using IH ab by auto
  ultimately show ?case
    using IH ab by (cases "m < a") (auto simp: separated_append)
qed

lemma Complement_ok:
  assumes "separated rs" "below (last_point f) rs"
  shows "separated (Complement f rs)" "below (last_point f) (Complement f rs)"
    "points (Complement f rs) = {..last_point f} - points rs"
  using complement_loop_ok [OF assms, where m = 0] by (simp_all add: Complement_def atMost_atLeast0)

section \<open>Canonical ranges\<close>

definition through :: "(nat \<times> nat) list \<Rightarrow> nat \<Rightarrow> nat" where
  "through ms p = (case map_of ms p of Some to \<Rightarrow> to | None \<Rightarrow> p)"

lemma through_outside: "p \<notin> fst ` set ms \<Longrightarrow> through ms p = p"
  by (simp add: through_def map_of_eq_None_iff option.case_eq_if)

lemma through_Cons [simp]: "through ((from, to) # ms) p = (if p = from then to else through ms p)"
  by (simp add: through_def)

lemma through_id_image: "(\<And>p. p \<in> A \<Longrightarrow> p \<notin> fst ` set ms) \<Longrightarrow> through ms ` A = A"
  by (auto simp: through_outside)

lemma project_loop_points:
  assumes "sorted_wrt (<) (map fst ms)" "\<And>m. m \<in> set ms \<Longrightarrow> cur \<le> fst m"
  shows "points (project_loop n cur ms) = through ms ` {cur..n}"
  using assms
proof (induction n cur ms rule: project_loop.induct)
  case (1 n cur)
  then show ?case by (auto simp: through_def)
next
  case (2 n cur k v ms)
  have cf: "cur \<le> k" using "2.prems"(2) [of "(k, v)"] by simp
  have gt: "\<And>m. m \<in> set ms \<Longrightarrow> k < fst m" using "2.prems"(1) by auto
  show ?case
  proof (cases "k \<le> n")
    case True
    have IH: "points (project_loop n (k + 1) ms) = through ms ` {k + 1..n}"
      by (rule "2.IH") (use "2.prems" True gt in \<open>auto simp: Suc_le_eq\<close>)
    have split: "{cur..n} = {cur..<k} \<union> {k} \<union> {k + 1..n}" using True cf by auto
    have low: "through ((k, v) # ms) ` {cur..<k} = {cur..<k}"
      by (rule through_id_image) (use gt in force)
    have high: "through ((k, v) # ms) ` {k + 1..n} = through ms ` {k + 1..n}"
      by (rule image_cong) auto
    have left: "points (if cur < k then [(cur, k - 1)] else []) = {cur..<k}" by auto
    have "through ((k, v) # ms) ` {cur..n} = {cur..<k} \<union> {v} \<union> through ms ` {k + 1..n}"
      unfolding split image_Un low high by simp
    moreover have "points (project_loop n cur ((k, v) # ms)) =
        {cur..<k} \<union> ({v..v} \<union> points (project_loop n (k + 1) ms))"
      using True left by (simp only: project_loop.simps points_append points_Cons if_True)
    ultimately show ?thesis using IH by simp
  next
    case False
    have "through ((k, v) # ms) ` {cur..n} = {cur..n}"
      by (rule through_id_image) (use False gt in force)
    then show ?thesis using False by auto
  qed
qed

lemma project_loop_ordered:
  assumes "below b (map (\<lambda>m. (snd m, snd m)) ms)" "n \<le> b"
  shows "ordered (project_loop n cur ms) \<and> below b (project_loop n cur ms)"
  using assms by (induction n cur ms rule: project_loop.induct) auto

lemma sorted_dropWhile_keys:
  fixes ms :: "(nat \<times> nat) list" and a :: nat
  assumes "sorted_wrt (<) (map fst ms)"
  defines "ks \<equiv> dropWhile (\<lambda>(from, to). from < a) ms"
  shows "sorted_wrt (<) (map fst ks)" "\<And>m. m \<in> set ks \<Longrightarrow> a \<le> fst m"
    "\<And>p. a \<le> p \<Longrightarrow> through ks p = through ms p"
proof -
  have *: "sorted_wrt (<) (map fst (dropWhile (\<lambda>(from, to). from < a) ms)) \<and>
        (\<forall>m \<in> set (dropWhile (\<lambda>(from, to). from < a) ms). a \<le> fst m) \<and>
        (\<forall>p \<ge> a. through (dropWhile (\<lambda>(from, to). from < a) ms) p = through ms p)"
    using assms(1) by (induction ms) (auto simp: not_less dest: order.strict_implies_order intro: order_trans)
  then show "sorted_wrt (<) (map fst ks)" "\<And>m. m \<in> set ks \<Longrightarrow> a \<le> fst m"
    "\<And>p. a \<le> p \<Longrightarrow> through ks p = through ms p"
    by (auto simp: ks_def)
qed

lemma project_points:
  assumes "sorted_wrt (<) (map fst ms)"
  shows "points (project ms rs) = through ms ` points rs"
proof (induction rs)
  case Nil
  then show ?case by (simp add: project_def)
next
  case (Cons r rs)
  obtain a b where r: "r = (a, b)" by (cases r)
  let ?ks = "dropWhile (\<lambda>(from, to). from < a) ms"
  have "points (project_loop b a ?ks) = through ?ks ` {a..b}"
    by (rule project_loop_points) (use sorted_dropWhile_keys [OF assms, where a = a] in auto)
  also have "\<dots> = through ms ` {a..b}"
    by (rule image_cong) (use sorted_dropWhile_keys(3) [OF assms] in auto)
  finally show ?case using Cons r by (simp add: project_def image_Un)
qed

lemma project_ordered:
  assumes "mappings_ok n ms" "below n rs"
  shows "ordered (project ms rs) \<and> below n (project ms rs)"
  using assms(2)
proof (induction rs)
  case (Cons r rs)
  have "below n (map (\<lambda>m. (snd m, snd m)) (dropWhile (\<lambda>(from, to). from < fst r) ms))"
    using assms(1) by (fastforce simp: mappings_ok_def list_all_iff below_def dest!: set_dropWhileD)
  then have "ordered (project_loop (snd r) (fst r) (dropWhile (\<lambda>(from, to). from < fst r) ms)) \<and>
      below n (project_loop (snd r) (fst r) (dropWhile (\<lambda>(from, to). from < fst r) ms))"
    using Cons.prems by (intro project_loop_ordered) auto
  then show ?case using Cons by (simp add: project_def split_def)
qed (simp add: project_def)

lemma Lookup_through: "sorted_wrt (<) (map fst ms) \<Longrightarrow> Lookup ms p = through ms p"
  by (simp add: Lookup_map_of through_def)

text \<open>The flags select one of the two tables; both satisfy the same contract below \<open>last_point\<close>.\<close>

definition mapping_table :: "unicode_tables \<Rightarrow> flags \<Rightarrow> (nat \<times> nat) list" where
  "mapping_table t f = (if Unicode f then kSimpleMappings t else kLegacyMappings t)"

lemma mapping_table_ok: "tables_ok t \<Longrightarrow> mappings_ok (last_point f) (mapping_table t f)"
  using tables_okD(1,2) [of t] by (simp add: mapping_table_def last_point_def)

lemma Canonical_through:
  assumes "tables_ok t" "insensitive f" "p \<le> last_point f"
  shows "Canonical t f p = through (mapping_table t f) p"
proof -
  have "sorted_wrt (<) (map fst (mapping_table t f))"
    using mapping_table_ok [OF assms(1)] by (simp add: mappings_ok_def)
  then have "through (mapping_table t f) p = Lookup (mapping_table t f) p"
    by (simp add: Lookup_through)
  then show ?thesis
    using assms by (auto simp: Canonical_def Unicode_def Simple_def mapping_table_def last_point_def
        Legacy_Lookup)
qed

lemma Canonical_id [simp]: "\<not> insensitive f \<Longrightarrow> Canonical t f p = p"
  by (simp add: Canonical_def)

lemma Canonical_bound: "tables_ok t \<Longrightarrow> p \<le> last_point f \<Longrightarrow> Canonical t f p \<le> last_point f"
proof (cases "insensitive f")
  case True
  assume a: "tables_ok t" "p \<le> last_point f"
  have "Lookup (mapping_table t f) p \<le> last_point f"
    by (rule Lookup_bound [OF mapping_table_ok [OF a(1)] a(2)])
  then show ?thesis
    using a True mapping_table_ok [OF a(1), of f]
    by (simp add: Canonical_through Lookup_through mappings_ok_def)
qed simp

lemma CanonicalRanges_ok:
  assumes "tables_ok t" "separated rs" "below (last_point f) rs"
  shows "\<exists>r. CanonicalRanges t f rs = Inr r \<and> separated r \<and> below (last_point f) r \<and>
             points r = Canonical t f ` points rs"
proof (cases "insensitive f")
  case True
  have ok: "mappings_ok (last_point f) (mapping_table t f)" by (rule mapping_table_ok [OF assms(1)])
  from project_ordered [OF ok assms(3)] Normalize_ok
  obtain r where r: "Normalize (project (mapping_table t f) rs) = Inr r" "separated r"
    "below (last_point f) r" "points r = points (project (mapping_table t f) rs)"
    by blast
  have "points r = through (mapping_table t f) ` points rs"
    using r ok by (simp add: project_points mappings_ok_def)
  also have "\<dots> = Canonical t f ` points rs"
    by (rule image_cong) (use assms True points_below in \<open>auto simp: Canonical_through\<close>)
  finally show ?thesis using r True by (simp add: CanonicalRanges_def mapping_table_def)
next
  case False
  then show ?thesis using assms by (simp add: CanonicalRanges_def Canonical_def [abs_def])
qed

section \<open>Binary search over separated ranges\<close>

lemma separated_nth:
  assumes "separated rs" "i < j" "j < length rs"
  shows "snd (rs ! i) + 1 < fst (rs ! j)"
  using assms sorted_wrt_nth_less [of gap rs i j] by (simp add: separated_def gap_def)

lemma separated_nth_le: "separated rs \<Longrightarrow> i < length rs \<Longrightarrow> fst (rs ! i) \<le> snd (rs ! i)"
  by (simp add: separated_def)

lemma separated_before:
  assumes "separated rs" "i \<le> j" "j < length rs" "p < fst (rs ! i)"
  shows "p < fst (rs ! j)"
proof (cases "i = j")
  case False
  with assms separated_nth [of rs i j] separated_nth_le [of rs i] show ?thesis by simp
qed (use assms in simp)

lemma separated_after:
  assumes "separated rs" "i \<le> j" "j < length rs" "snd (rs ! j) < p"
  shows "snd (rs ! i) < p"
proof (cases "i = j")
  case False
  with assms separated_nth [of rs i j] separated_nth_le [of rs j] show ?thesis by simp
qed (use assms in simp)

lemma has_point_loop_iff:
  assumes "separated rs" "hi \<le> length rs"
  shows "has_point_loop rs p lo hi \<longleftrightarrow> (\<exists>i. lo \<le> i \<and> i < hi \<and> fst (rs ! i) \<le> p \<and> p \<le> snd (rs ! i))"
  using assms
proof (induction rs p lo hi rule: has_point_loop.induct)
  case (1 rs p lo hi)
  let ?m = "lo + (hi - lo) div 2"
  show ?case
  proof (cases "lo < hi")
    case False
    then show ?thesis by (subst has_point_loop.simps) auto
  next
    case True
    then have m: "lo \<le> ?m" "?m < hi" "?m < length rs" using "1.prems" by auto
    consider "p < fst (rs ! ?m)" | "\<not> p < fst (rs ! ?m)" "snd (rs ! ?m) < p"
      | "fst (rs ! ?m) \<le> p" "p \<le> snd (rs ! ?m)" by linarith
    then show ?thesis
    proof cases
      case 1
      have "has_point_loop rs p lo ?m \<longleftrightarrow> (\<exists>i. lo \<le> i \<and> i < ?m \<and> fst (rs ! i) \<le> p \<and> p \<le> snd (rs ! i))"
        by (rule "1.IH"(1) [OF True refl]) (use 1 m "1.prems" in auto)
      moreover have "i < ?m" if "i < hi" "fst (rs ! i) \<le> p" for i
        using separated_before [OF "1.prems"(1), of ?m i p] that 1 "1.prems"(2) by (cases "?m \<le> i") auto
      then have "(\<exists>i. lo \<le> i \<and> i < hi \<and> fst (rs ! i) \<le> p \<and> p \<le> snd (rs ! i)) \<longleftrightarrow>
          (\<exists>i. lo \<le> i \<and> i < ?m \<and> fst (rs ! i) \<le> p \<and> p \<le> snd (rs ! i))"
        using m(2) by (meson less_trans)
      ultimately show ?thesis using True 1 by (subst has_point_loop.simps) (simp add: Let_def)
    next
      case 2
      have "has_point_loop rs p (?m + 1) hi \<longleftrightarrow>
            (\<exists>i. ?m + 1 \<le> i \<and> i < hi \<and> fst (rs ! i) \<le> p \<and> p \<le> snd (rs ! i))"
        by (rule "1.IH"(2) [OF True refl]) (use 2 m "1.prems" in auto)
      moreover have "?m + 1 \<le> i" if "p \<le> snd (rs ! i)" for i
        using separated_after [OF "1.prems"(1), of i ?m p] that 2 m by (cases "i \<le> ?m") auto
      then have "(\<exists>i. lo \<le> i \<and> i < hi \<and> fst (rs ! i) \<le> p \<and> p \<le> snd (rs ! i)) \<longleftrightarrow>
          (\<exists>i. ?m + 1 \<le> i \<and> i < hi \<and> fst (rs ! i) \<le> p \<and> p \<le> snd (rs ! i))"
        using m(1) by (meson le_add1 le_trans)
      ultimately show ?thesis using True 2 by (subst has_point_loop.simps) (simp add: Let_def)
    next
      case 3
      then have "\<exists>i. lo \<le> i \<and> i < hi \<and> fst (rs ! i) \<le> p \<and> p \<le> snd (rs ! i)" using m by blast
      then show ?thesis using True 3 by (subst has_point_loop.simps) (simp add: Let_def not_less)
    qed
  qed
qed

lemma points_nth: "p \<in> points rs \<longleftrightarrow> (\<exists>i < length rs. fst (rs ! i) \<le> p \<and> p \<le> snd (rs ! i))"
  by (metis points_iff in_set_conv_nth)

lemma HasPoint_points: "separated rs \<Longrightarrow> HasPoint rs p \<longleftrightarrow> p \<in> points rs"
  by (simp add: HasPoint_def has_point_loop_iff points_nth)

text \<open>\<open>Contains\<close> answers as \<open>HasPoint\<close> whenever its budget allows, and only spends.\<close>

lemma contains_loop_ok:
  "spends w snd (contains_loop rs p lo hi w) \<and>
   (\<forall>b w'. contains_loop rs p lo hi w = Inr (b, w') \<longrightarrow> b = has_point_loop rs p lo hi)"
proof (induction rs p lo hi w rule: contains_loop.induct)
  case (1 rs p lo hi w)
  let ?m = "lo + (hi - lo) div 2"
  show ?case
  proof (cases "lo < hi")
    case False
    then show ?thesis by (subst (1 2) contains_loop.simps) (auto simp: has_point_loop.simps)
  next
    case True
    show ?thesis
    proof (cases "Charge 1 w")
      case (Inl x)
      then show ?thesis using True Charge_Inl [of 1 w "fst x" "snd x"]
        by (subst (1 2) contains_loop.simps) (cases x, auto)
    next
      case (Inr v)
      have v: "remaining v \<le> remaining w" using Charge_Inr [OF Inr] by simp
      note IH = "1.IH" [OF True Inr refl]
      show ?thesis
        using True Inr v IH
        by (subst (1 2) contains_loop.simps, subst has_point_loop.simps)
          (auto simp: Let_def intro: spends_trans)
    qed
  qed
qed

lemma Contains_spends: "spends w snd (Contains rs p w)"
  using contains_loop_ok by (simp add: Contains_def)

lemma Contains_value: "Contains rs p w = Inr (b, w') \<Longrightarrow> b = HasPoint rs p"
  using contains_loop_ok [of w rs p 0 "length rs"] by (simp add: Contains_def HasPoint_def)

section \<open>Intersection and difference\<close>

lemma Intersect_starts:
  "r \<in> set (Intersect ls rs) \<Longrightarrow>
   fst r \<le> snd r \<and> fst r \<in> points ls \<and> fst r \<in> points rs \<and> snd r \<in> points ls"
proof (induction ls rs rule: Intersect.induct)
  case (1 a b ls c d rs)
  then show ?case by (auto simp: Let_def split: if_splits)
qed auto

lemma Intersect_head: "points (if max a c \<le> min b d then [(max a c, min b d)] else []) = {a..b} \<inter> {c..d}"
  by auto

lemma Intersect_points:
  "separated ls \<Longrightarrow> separated rs \<Longrightarrow> points (Intersect ls rs) = points ls \<inter> points rs"
proof (induction ls rs rule: Intersect.induct)
  case (1 a b ls c d rs)
  have gl: "\<And>p. p \<in> points ls \<Longrightarrow> b + 1 < p" and gr: "\<And>p. p \<in> points rs \<Longrightarrow> d + 1 < p"
    using separated_gt "1.prems" by blast+
  show ?case
  proof (cases "b < d")
    case True
    have "points (Intersect ls ((c, d) # rs)) = points ls \<inter> ({c..d} \<union> points rs)"
      using "1.IH"(1) [OF refl refl True] "1.prems" by simp
    moreover have "{a..b} \<inter> points rs = {}" using gr True by fastforce
    ultimately have "{a..b} \<inter> {c..d} \<union> points (Intersect ls ((c, d) # rs)) =
        ({a..b} \<union> points ls) \<inter> ({c..d} \<union> points rs)" by blast
    then show ?thesis using True by (simp only: Intersect.simps Let_def points_append Intersect_head points_Cons if_True)
  next
    case False
    have "points (Intersect ((a, b) # ls) rs) = ({a..b} \<union> points ls) \<inter> points rs"
      using "1.IH"(2) [OF refl refl False] "1.prems" by simp
    moreover have "points ls \<inter> {c..d} = {}" using gl False by fastforce
    ultimately have "{a..b} \<inter> {c..d} \<union> points (Intersect ((a, b) # ls) rs) =
        ({a..b} \<union> points ls) \<inter> ({c..d} \<union> points rs)" by blast
    then show ?thesis using False by (simp only: Intersect.simps Let_def points_append Intersect_head points_Cons if_False)
  qed
qed auto

lemma Intersect_separated: "separated ls \<Longrightarrow> separated rs \<Longrightarrow> separated (Intersect ls rs)"
proof (induction ls rs rule: Intersect.induct)
  case (1 a b ls c d rs)
  have gl: "\<And>p. p \<in> points ls \<Longrightarrow> b + 1 < p" and gr: "\<And>p. p \<in> points rs \<Longrightarrow> d + 1 < p"
    using separated_gt "1.prems" by blast+
  show ?case
  proof (cases "b < d")
    case True
    have "\<forall>r \<in> set (Intersect ls ((c, d) # rs)). b + 1 < fst r"
      using Intersect_starts gl by blast
    moreover have "separated (Intersect ls ((c, d) # rs))"
      by (rule "1.IH"(1) [OF refl refl True]) (use "1.prems" in auto)
    ultimately show ?thesis using True by (auto simp: Let_def separated_append)
  next
    case False
    have "\<forall>r \<in> set (Intersect ((a, b) # ls) rs). d + 1 < fst r"
      using Intersect_starts gr by blast
    moreover have "separated (Intersect ((a, b) # ls) rs)"
      by (rule "1.IH"(2) [OF refl refl False]) (use "1.prems" in auto)
    ultimately show ?thesis using False by (auto simp: Let_def separated_append)
  qed
qed auto

lemma subtract_loop_ok:
  assumes "separated rs" "\<And>r. r \<in> set rs \<Longrightarrow> cur \<le> snd r"
  shows "separated (subtract_loop n cur rs) \<and> (\<forall>r \<in> set (subtract_loop n cur rs). cur \<le> fst r \<and> snd r \<le> n) \<and>
         points (subtract_loop n cur rs) = {cur..n} - points rs"
  using assms
proof (induction n cur rs rule: subtract_loop.induct)
  case (1 n cur)
  then show ?case by auto
next
  case (2 n cur c d rs)
  have cd: "c \<le> d" "cur \<le> d" using "2.prems"(1) "2.prems"(2) [of "(c, d)"] by auto
  then have max: "max cur (d + 1) = d + 1" by simp
  have gt: "\<And>p. p \<in> points rs \<Longrightarrow> d + 1 < p" using separated_gt "2.prems"(1) by blast
  show ?case
  proof (cases "c \<le> n \<and> d + 1 \<le> n")
    case True
    have IH: "separated (subtract_loop n (d + 1) rs) \<and>
         (\<forall>r \<in> set (subtract_loop n (d + 1) rs). d + 1 \<le> fst r \<and> snd r \<le> n) \<and>
         points (subtract_loop n (d + 1) rs) = {d + 1..n} - points rs"
    proof -
      have keep: "\<forall>r \<in> set rs. d + 1 \<le> snd r"
        using "2.prems"(1) by (fastforce simp: separated_def gap_def)
      show ?thesis
        by (rule "2.IH" [of "d + 1"]) (use True "2.prems"(1) keep max in auto)
    qed
    have "points (subtract_loop n cur ((c, d) # rs)) = {cur..n} - points ((c, d) # rs)"
      using IH True cd by (auto simp: max Let_def dest: gt)
    then show ?thesis using IH True cd by (fastforce simp: max Let_def separated_append)
  next
    case False
    then show ?thesis using cd by (auto simp: max Let_def not_le dest: gt)
  qed
qed

lemma separated_dropWhile:
  assumes "separated rs"
  shows "separated (dropWhile (\<lambda>(c, d). d < a) rs)"
    "\<And>r. r \<in> set (dropWhile (\<lambda>(c, d). d < a) rs) \<Longrightarrow> a \<le> snd r"
    "\<And>p. a \<le> p \<Longrightarrow> p \<in> points (dropWhile (\<lambda>(c, d). d < a) rs) \<longleftrightarrow> p \<in> points rs"
proof -
  have "separated (dropWhile (\<lambda>(c, d). d < a) rs) \<and>
      (\<forall>r \<in> set (dropWhile (\<lambda>(c, d). d < a) rs). a \<le> snd r) \<and>
      (\<forall>p \<ge> a. p \<in> points (dropWhile (\<lambda>(c, d). d < a) rs) \<longleftrightarrow> p \<in> points rs)"
    using assms
  proof (induction rs)
    case (Cons r rs)
    obtain c d where r: "r = (c, d)" by (cases r)
    show ?case
    proof (cases "d < a")
      case True
      then show ?thesis using Cons r by simp
    next
      case False
      have "\<forall>s \<in> set rs. a \<le> snd s" using Cons.prems r False by (fastforce simp: separated_def gap_def)
      then show ?thesis using Cons.prems r False by simp
    qed
  qed simp
  then show "separated (dropWhile (\<lambda>(c, d). d < a) rs)"
    "\<And>r. r \<in> set (dropWhile (\<lambda>(c, d). d < a) rs) \<Longrightarrow> a \<le> snd r"
    "\<And>p. a \<le> p \<Longrightarrow> p \<in> points (dropWhile (\<lambda>(c, d). d < a) rs) \<longleftrightarrow> p \<in> points rs"
    by blast+
qed

lemma Subtract_ok:
  assumes "separated ls" "separated rs"
  shows "separated (Subtract ls rs) \<and> points (Subtract ls rs) = points ls - points rs \<and>
         (\<forall>r \<in> set (Subtract ls rs). fst r \<in> points ls \<and> snd r \<in> points ls)"
  using assms
proof (induction ls rs rule: Subtract.induct)
  case (1 rs)
  then show ?case by simp
next
  case (2 a b ls rs)
  let ?rs = "dropWhile (\<lambda>(c, d). d < a) rs"
  note drop = separated_dropWhile [OF "2.prems"(2), where a = a]
  have loop: "separated (subtract_loop b a ?rs)"
    "\<forall>r \<in> set (subtract_loop b a ?rs). a \<le> fst r \<and> snd r \<le> b"
    "points (subtract_loop b a ?rs) = {a..b} - points ?rs"
    using subtract_loop_ok [OF drop(1,2), of b] by auto
  have gt: "\<And>p. p \<in> points ls \<Longrightarrow> b + 1 < p" using separated_gt "2.prems"(1) by blast
  have IH: "separated (Subtract ls ?rs)" "points (Subtract ls ?rs) = points ls - points ?rs"
    "\<forall>r \<in> set (Subtract ls ?rs). fst r \<in> points ls \<and> snd r \<in> points ls"
    using "2.IH" [OF refl _ drop(1)] "2.prems"(1) by auto
  have "a \<le> b" using "2.prems"(1) by simp
  have "points (Subtract ((a, b) # ls) rs) = points ((a, b) # ls) - points rs"
    using loop(3) IH(2) drop(3) \<open>a \<le> b\<close> by (auto simp: Let_def dest: gt)
  moreover have "separated (Subtract ((a, b) # ls) rs)"
    using loop(1,2) IH(1,3) gt by (force simp: Let_def separated_append)
  moreover have "\<forall>r \<in> set (Subtract ((a, b) # ls) rs). fst r \<in> points ((a, b) # ls) \<and> snd r \<in> points ((a, b) # ls)"
  proof -
    have "\<forall>r \<in> set (subtract_loop b a ?rs). fst r \<in> {a..b} \<and> snd r \<in> {a..b}"
      using loop(1,2) by (fastforce simp: separated_def)
    then show ?thesis using IH(3) by (auto simp: Let_def)
  qed
  ultimately show ?case by blast
qed

lemma Intersect_below: "below n ls \<Longrightarrow> below n (Intersect ls rs)"
  using Intersect_starts points_below by (fastforce simp: below_def)

lemma Subtract_below: "separated ls \<Longrightarrow> separated rs \<Longrightarrow> below n ls \<Longrightarrow> below n (Subtract ls rs)"
  using Subtract_ok points_below by (fastforce simp: below_def)

section \<open>Case closure\<close>

lemma mapping_idempotent:
  assumes "mappings_ok n ms"
  shows "through ms (through ms p) = through ms p"
proof (cases "map_of ms p")
  case None
  then show ?thesis by (simp add: through_def)
next
  case (Some to)
  then have "(p, to) \<in> set ms" by (rule map_of_SomeD)
  then have "to \<notin> fst ` set ms" using assms by (fastforce simp: mappings_ok_def list_all_iff)
  then have "through ms to = to" by (rule through_outside)
  then show ?thesis using Some by (simp add: through_def)
qed

text \<open>Every point that a mapping sends into a set: the points of the set itself that are fixed, and
  the keys whose target is in it.\<close>

lemma through_preimage:
  assumes "mappings_ok n ms" "A \<subseteq> through ms ` UNIV"
  shows "A \<union> {k. \<exists>v. (k, v) \<in> set ms \<and> v \<in> A} = {p. through ms p \<in> A}"
proof -
  have d: "distinct (map fst ms)" using assms(1) by (simp add: mappings_ok_def strict_sorted_iff)
  have "through ms p \<in> A" if "p \<in> A" for p
    using that assms mapping_idempotent [OF assms(1)] by (metis image_iff subsetD)
  moreover have "through ms k = v" if "(k, v) \<in> set ms" for k v
    using that d by (simp add: through_def)
  moreover have "p \<in> A \<or> (\<exists>v. (p, v) \<in> set ms \<and> v \<in> A)" if "through ms p \<in> A" for p
    using that by (auto simp: through_def split: option.splits dest: map_of_SomeD)
  ultimately show ?thesis by blast
qed

lemma points_singletons: "points (map (\<lambda>m. (fst m, fst m)) ms) = fst ` set ms"
  by (induction ms) (auto simp: points_iff)

lemma mapped_into:
  "[(from, from). (from, to) \<leftarrow> ms, HasPoint r to] = map (\<lambda>m. (fst m, fst m)) (filter (\<lambda>m. HasPoint r (snd m)) ms)"
  by (induction ms) (auto split: prod.splits)

lemma CaseClosure_ok:
  assumes "tables_ok t" "Unicode f" "ordered rs" "below max_point rs"
  shows "\<exists>r. CaseClosure t f rs = Inr r \<and> separated r \<and> below max_point r \<and>
             points r = {p. Canonical t f p \<in> Canonical t f ` points rs \<and> p \<le> max_point}"
proof -
  have lp: "last_point f = max_point" using assms(2) by (simp add: last_point_def)
  from Normalize_ok [OF assms(3,4)] obtain r0 where r0: "Normalize rs = Inr r0" "separated r0"
    "below max_point r0" "points r0 = points rs" by blast
  from CanonicalRanges_ok [OF assms(1) r0(2), of f] r0 lp obtain r1 where
    r1: "CanonicalRanges t f r0 = Inr r1" "separated r1" "below max_point r1"
    "points r1 = Canonical t f ` points rs" by auto
  show ?thesis
  proof (cases "insensitive f")
    case False
    then have "points r1 = {p. p \<in> points rs \<and> p \<le> max_point}"
      using r1 assms(4) points_below by (auto simp: Canonical_def [abs_def])
    then show ?thesis using False r0 r1 by (auto simp: CaseClosure_def)
  next
    case True
    let ?ms = "kSimpleMappings t"
    let ?hit = "filter (\<lambda>m. HasPoint r1 (snd m)) ?ms"
    have ms: "mappings_ok max_point ?ms" by (rule tables_okD(2) [OF assms(1)])
    have canon: "Canonical t f p = through ?ms p" if "p \<le> max_point" for p
      using Canonical_through [OF assms(1) True, of p] that lp assms(2) by (simp add: mapping_table_def)
    have keys: "fst ` set ?hit = {k. \<exists>v. (k, v) \<in> set ?ms \<and> v \<in> points r1}"
      using HasPoint_points [OF r1(2)] by force
    have b: "below max_point (r1 @ map (\<lambda>m. (fst m, fst m)) ?hit)"
      "ordered (r1 @ map (\<lambda>m. (fst m, fst m)) ?hit)"
      using r1(2,3) ms by (auto simp: below_def ordered_def separated_def mappings_ok_def list_all_iff)
    from Normalize_ok [OF b(2,1)] obtain r where r: "Normalize (r1 @ map (\<lambda>m. (fst m, fst m)) ?hit) = Inr r"
      "separated r" "below max_point r" "points r = points (r1 @ map (\<lambda>m. (fst m, fst m)) ?hit)" by blast
    have sub: "points r1 \<subseteq> through ?ms ` UNIV"
      unfolding r1(4) using canon points_below [OF assms(4)] by (simp add: image_subset_iff)
    have "points r = points r1 \<union> fst ` set ?hit"
      by (simp only: r(4) points_append points_singletons)
    also have "\<dots> = {p. through ?ms p \<in> points r1}"
      by (simp only: keys through_preimage [OF ms sub])
    finally have pre: "points r = {p. through ?ms p \<in> points r1}" .
    have "p \<le> max_point \<and> Canonical t f p \<in> points r1 \<longleftrightarrow> through ?ms p \<in> points r1" for p
    proof
      assume "through ?ms p \<in> points r1"
      then have "p \<in> points r" by (simp add: pre)
      then have "p \<le> max_point" by (rule points_below [OF r(3)])
      with canon [of p] \<open>through ?ms p \<in> points r1\<close> show "p \<le> max_point \<and> Canonical t f p \<in> points r1" by simp
    qed (use canon [of p] in simp)
    then have "points r = {p. Canonical t f p \<in> Canonical t f ` points rs \<and> p \<le> max_point}"
      using pre r1(4) by auto
    then show ?thesis using True r0 r1 r by (simp add: CaseClosure_def mapped_into)
  qed
qed

section \<open>The interface of the class parsers\<close>

text \<open>
  The parsers of character classes rely on four operations on range lists only. Two engines
  provide them: the backtracking machine here, over the code points its flags allow, and the
  automaton of \<open>grep_pattern.h\<close> over 16-bit units.
\<close>

locale interval_sets =
  fixes universe :: nat
    and norm :: "ranges \<Rightarrow> ranges result"
    and compl :: "ranges \<Rightarrow> ranges"
    and has :: "ranges \<Rightarrow> nat \<Rightarrow> bool"
  assumes norm_ok: "ordered rs \<Longrightarrow> below universe rs \<Longrightarrow>
      \<exists>r. norm rs = Inr r \<and> separated r \<and> below universe r \<and> points r = points rs"
    and norm_error: "\<not> ordered rs \<Longrightarrow> \<exists>e. norm rs = Inl e \<and> \<not> fatal e"
    and compl_ok: "separated r \<Longrightarrow> below universe r \<Longrightarrow>
      separated (compl r) \<and> below universe (compl r) \<and> points (compl r) = {..universe} - points r"
    and has_ok: "separated r \<Longrightarrow> has r p \<longleftrightarrow> p \<in> points r"
begin

text \<open>A class, negated or not, normalised and then searched, holds exactly the intended units.\<close>

lemma class_has:
  assumes "ordered rs" "below universe rs" "p \<le> universe"
  shows "\<exists>r. norm rs = Inr r \<and> (has (if negative then compl r else r) p \<longleftrightarrow> (p \<in> points rs) \<noteq> negative)"
proof -
  obtain r where r: "norm rs = Inr r" "separated r" "below universe r" "points r = points rs"
    using norm_ok [OF assms(1,2)] by blast
  have "has r p \<longleftrightarrow> p \<in> points rs" using has_ok r by simp
  moreover have "has (compl r) p \<longleftrightarrow> p \<notin> points rs"
    using compl_ok [OF r(2,3)] has_ok r(4) assms(3) by simp
  ultimately show ?thesis using r(1) by (cases negative) auto
qed

lemma compl_compl: "separated r \<Longrightarrow> below universe r \<Longrightarrow> points (compl (compl r)) = points r"
  using compl_ok points_below by blast

lemma norm_safe: "below universe rs \<Longrightarrow> safeR (\<lambda>r. separated r \<and> below universe r) (norm rs)"
  using norm_ok [of rs] norm_error [of rs] by (cases "ordered rs") auto

end

interpretation vm: interval_sets "last_point f" Normalize "Complement f" HasPoint for f
proof unfold_locales
  fix rs r :: ranges and p :: nat
  show "ordered rs \<Longrightarrow> below (last_point f) rs \<Longrightarrow>
      \<exists>r. Normalize rs = Inr r \<and> separated r \<and> below (last_point f) r \<and> points r = points rs"
    by (rule Normalize_ok)
  show "\<not> ordered rs \<Longrightarrow> \<exists>e. Normalize rs = Inl e \<and> \<not> fatal e"
    by (simp add: Normalize_error)
  show "separated r \<Longrightarrow> below (last_point f) r \<Longrightarrow>
      separated (Complement f r) \<and> below (last_point f) (Complement f r) \<and>
      points (Complement f r) = {..last_point f} - points r"
    using Complement_ok by simp
  show "separated r \<Longrightarrow> HasPoint r p \<longleftrightarrow> p \<in> points r"
    by (rule HasPoint_points)
qed

section \<open>Properties\<close>


definition plain_flags :: flags where
  "plain_flags = \<lparr>insensitive = False, multiline = False, dot_all = False, sticky = False,
     unicode = False, unicode_sets = False\<rparr>"

definition fold_flags :: flags where
  "fold_flags = plain_flags\<lparr>insensitive := True, unicode_sets := True\<rparr>"


text \<open>
  Canonicalization of a class commutes with canonicalization of a point: on separated ranges
  \<open>CanonicalRanges\<close> succeeds, keeps them separated and within the alphabet, and its points are the
  image of the class under \<open>Canonical\<close>, so that no range hole or identity span is lost.
\<close>

theorem canonical_ranges_image:
  assumes "tables_ok t" "separated rs" "below (last_point f) rs"
  shows "\<exists>r. CanonicalRanges t f rs = Inr r \<and> separated r \<and> below (last_point f) r \<and>
             points r = Canonical t f ` points rs"
  by (rule CanonicalRanges_ok [OF assms])

theorem canonical_ranges_image_witness:
  "\<exists>r. CanonicalRanges ascii_tables fold_flags [(60, 100)] = Inr r \<and>
       points r = Canonical ascii_tables fold_flags ` points [(60, 100)]"
  using canonical_ranges_image [OF ascii_tables_ok, of "[(60, 100)]" fold_flags]
  by (auto simp: last_point_def Unicode_def fold_flags_def plain_flags_def)

text \<open>
  C4: in Unicode mode \<open>CaseClosure\<close> computes the closure of a class under simple case folding:
  its points are exactly the code points that fold to the same point as some member.
\<close>

theorem case_closure_closed:
  assumes "tables_ok t" "Unicode f" "ordered rs" "below max_point rs"
  shows "\<exists>r. CaseClosure t f rs = Inr r \<and> separated r \<and>
             points r = {p. Canonical t f p \<in> Canonical t f ` points rs \<and> p \<le> max_point}"
  using CaseClosure_ok [OF assms] by blast

theorem case_closure_closed_witness:
  "\<exists>r. CaseClosure ascii_tables fold_flags [(97, 99)] = Inr r \<and> 66 \<in> points r"
proof -
  have h: "Unicode fold_flags" "ordered [(97, 99)]" "below max_point [(97, 99)]"
    by (simp_all add: Unicode_def fold_flags_def)
  have "Canonical ascii_tables fold_flags 66 = 98" "Canonical ascii_tables fold_flags 98 = 98"
    by code_simp+
  then have "Canonical ascii_tables fold_flags 66 \<in> Canonical ascii_tables fold_flags ` points [(97, 99)]"
    by (auto simp: image_iff intro!: bexI [of _ 98])
  with case_closure_closed [OF ascii_tables_ok h] show ?thesis by auto
qed



end
