(* ===== verification/GrepSyntax.thy ===== *)
theory GrepSyntax
  imports GrepRanges
begin

text \<open>
  The state of the expression compiler of \<open>native/runner/grep_vm.h\<close> and its parser. The class
  \<open>GrepVM\<close> is the record \<open>vm\<close>: the pattern as UTF-16 units, the read position \<open>at\<close>, the counters
  the constructor checks, the syntax tree as an arena of nodes, and the code it is compiled to.
  Every member function that reads or changes it is a function on the record that returns its
  value with the new record, or an exception. A parse that throws discards the object.
  Loops that advance the read position through calls take a number of iterations as an argument,
  \<open>steps_left\<close> at the call; running out of it is the error \<open>Out_of_fuel\<close>, which never happens.
\<close>

section \<open>Data\<close>

datatype kind =
  KEmpty | KCharacter | KSequence | KAlternative | KCapture | KAssert | KRepeat | KBegin | KEnd |
  KBoundary | KNonBoundary | KReference

record node =
  kind :: kind
  node_flags :: flags
  children :: "nat list"
  node_ranges :: ranges
  node_strings :: "nat list list"
  capture :: nat
  loop :: nat
  minimum :: nat
  maximum :: nat
  greedy :: bool
  positive :: bool
  behind :: bool
  raw_ranges :: bool
  reference :: "nat list"
  node_captures :: "nat list"

record cset =
  set_ranges :: ranges
  set_strings :: "nat list list"
  may_strings :: bool
  case_ready :: bool

datatype opcode =
  Accept | OpCharacter | Split | SaveStart | SaveEnd | OpAssert | OpReference | OpBegin | OpEnd |
  OpBoundary | OpNonBoundary | LoopInit | LoopDecide | LoopStart | LoopStep | Clear

text \<open>The sentinel \<open>none\<close> of the source, the largest \<open>size_t\<close>, and \<open>infinity\<close>, the same number.\<close>

definition none :: nat where
  "none = u64_max"

definition infinity :: nat where
  "infinity = u64_max"

record instruction =
  i_op :: opcode
  i_next :: nat
  i_other :: nat
  i_node :: nat
  i_group :: nat
  i_direction :: int

record named_capture =
  nc_group :: nat
  nc_branches :: "(nat \<times> nat) list"

record vm =
  source :: "nat list"
  vm_flags :: flags
  advanced :: bool
  has_named :: bool
  at :: nat
  depth :: nat
  total_captures :: nat
  capture_count :: nat
  loop_count :: nat
  start :: nat
  root :: nat
  vm_range_count :: nat
  class_depth :: nat
  ast_payload :: nat
  disjunction_count :: nat
  branch_path :: "(nat \<times> nat) list"
  names :: "(nat list \<times> named_capture list) list"
  nodes :: "node list"
  code :: "instruction list"

type_synonym 'a parse = "vm \<Rightarrow> ('a \<times> vm) result"

definition new_node :: "flags \<Rightarrow> kind \<Rightarrow> node" where
  "new_node f k = \<lparr>kind = k, node_flags = f, children = [], node_ranges = [], node_strings = [],
     capture = 0, loop = 0, minimum = 0, maximum = 0, greedy = True, positive = True, behind = False,
     raw_ranges = False, reference = [], node_captures = []\<rparr>"

definition empty_set :: cset where
  "empty_set = \<lparr>set_ranges = [], set_strings = [], may_strings = False, case_ready = False\<rparr>"

definition new_vm :: "nat list \<Rightarrow> flags \<Rightarrow> vm" where
  "new_vm src f = \<lparr>source = src, vm_flags = f, advanced = False, has_named = False, at = 0, depth = 0,
     total_captures = 0, capture_count = 0, loop_count = 0, start = 0, root = 0, vm_range_count = 0,
     class_depth = 0, ast_payload = 0, disjunction_count = 0, branch_path = [], names = [],
     nodes = [], code = []\<rparr>"

section \<open>Reading units\<close>

text \<open>\<open>source_[i]\<close>: the unit past the end of a \<open>u16string\<close> is the terminating zero, beyond it
  the access is undefined.\<close>

definition unitR :: "vm \<Rightarrow> nat \<Rightarrow> nat result" where
  "unitR s i = (if i < length (source s) then Inr (source s ! i)
                else if i = length (source s) then Inr 0 else Inl Undefined_behaviour)"

text \<open>The guarded test \<open>at_+i<source_.size()&&source_[at_+i]==c\<close> and its generalisation.\<close>

definition sees :: "vm \<Rightarrow> nat \<Rightarrow> (nat \<Rightarrow> bool) \<Rightarrow> bool" where
  "sees s i p \<longleftrightarrow> at s + i < length (source s) \<and> p (source s ! (at s + i))"

abbreviation looking_at :: "vm \<Rightarrow> nat \<Rightarrow> nat \<Rightarrow> bool" where
  "looking_at s i c \<equiv> sees s i (\<lambda>u. u = c)"

definition advance :: "nat \<Rightarrow> vm \<Rightarrow> vm" where
  "advance n s = s\<lparr>at := at s + n\<rparr>"

definition at_end :: "vm \<Rightarrow> bool" where
  "at_end s \<longleftrightarrow> at s = length (source s)"

definition steps_left :: "vm \<Rightarrow> nat" where
  "steps_left s = Suc (length (source s) - at s)"

definition Take :: "nat \<Rightarrow> vm \<Rightarrow> bool \<times> vm" where
  "Take c s = (if looking_at s 0 c then (True, advance 1 s) else (False, s))"

definition is_digit :: "nat \<Rightarrow> bool" where
  "is_digit u \<longleftrightarrow> ch CHR ''0'' \<le> u \<and> u \<le> ch CHR ''9''"

definition is_upper :: "nat \<Rightarrow> bool" where
  "is_upper u \<longleftrightarrow> ch CHR ''A'' \<le> u \<and> u \<le> ch CHR ''Z''"

definition is_lower :: "nat \<Rightarrow> bool" where
  "is_lower u \<longleftrightarrow> ch CHR ''a'' \<le> u \<and> u \<le> ch CHR ''z''"

definition hex_digit :: "nat \<Rightarrow> nat option" where
  "hex_digit c =
     (if is_digit c then Some (c - ch CHR ''0'')
      else if ch CHR ''a'' \<le> c \<and> c \<le> ch CHR ''f'' then Some (c - ch CHR ''a'' + 10)
      else if ch CHR ''A'' \<le> c \<and> c \<le> ch CHR ''F'' then Some (c - ch CHR ''A'' + 10)
      else None)"

definition is_high :: "nat \<Rightarrow> bool" where
  "is_high u \<longleftrightarrow> 0xd800 \<le> u \<and> u \<le> 0xdbff"

definition is_low :: "nat \<Rightarrow> bool" where
  "is_low u \<longleftrightarrow> 0xdc00 \<le> u \<and> u \<le> 0xdfff"

definition pair_point :: "nat \<Rightarrow> nat \<Rightarrow> nat" where
  "pair_point high low = 0x10000 + (high - 0xd800) * 1024 + (low - 0xdc00)"

section \<open>Nodes and captures\<close>

definition Add :: "node \<Rightarrow> nat parse" where
  "Add n s =
     (if 4096 \<le> length (nodes s) then Inl (Fail ''AST capacity4096 exceeded'')
      else let payload = ast_payload s + length (node_ranges n) +
                 sum_list (map (\<lambda>str. length str + 1) (node_strings n))
           in if 262144 < payload then Inl (Fail ''AST range/string payload capacity262144 exceeded'')
              else Inr (length (nodes s),
                        s\<lparr>ast_payload := payload, nodes := nodes s @ [n\<lparr>node_flags := vm_flags s\<rparr>]\<rparr>))"

abbreviation blank :: "vm \<Rightarrow> kind \<Rightarrow> node" where
  "blank s k \<equiv> new_node (vm_flags s) k"

definition Character :: "unicode_tables \<Rightarrow> ranges \<Rightarrow> nat parse" where
  "Character t rs s =
     bindR (if unicode_sets (vm_flags s) then CaseClosure t (vm_flags s) rs
            else bindR (Normalize rs) (CanonicalRanges t (vm_flags s))) (\<lambda>rs.
     Add ((blank s KCharacter)\<lparr>raw_ranges := unicode_sets (vm_flags s), node_ranges := rs\<rparr>) s)"

fun count_loop :: "bool \<Rightarrow> nat list \<Rightarrow> nat \<Rightarrow> nat \<Rightarrow> bool \<Rightarrow> bool \<Rightarrow> (nat \<times> bool) result" where
  "count_loop usets [] count cdepth escaped named = Inr (count, named)"
| "count_loop usets (c # rest) count cdepth escaped named =
     (if escaped then count_loop usets rest count cdepth False named
      else if c = 0x5c then count_loop usets rest count cdepth True named
      else if c = ch CHR ''['' then
        count_loop usets rest count (if usets \<or> cdepth = 0 then cdepth + 1 else cdepth) False named
      else if c = ch CHR '']'' \<and> cdepth \<noteq> 0 then count_loop usets rest count (cdepth - 1) False named
      else if c = ch CHR ''('' \<and> cdepth = 0 \<and>
              (rest = [] \<or> rest ! 0 \<noteq> ch CHR ''?'' \<or>
               (1 < length rest \<and> rest ! 1 = ch CHR ''<'' \<and>
                2 < length rest \<and> rest ! 2 \<noteq> ch CHR ''='' \<and> rest ! 2 \<noteq> ch CHR ''!'')) then
        (let named = (named \<or> (1 < length rest \<and> rest ! 0 = ch CHR ''?'' \<and> rest ! 1 = ch CHR ''<''))
         in if 128 < count + 1 then Inl (Fail ''capture capacity128 exceeded'')
            else count_loop usets rest (count + 1) cdepth False named)
      else count_loop usets rest count cdepth False named)"

definition CountCaptures :: "nat parse" where
  "CountCaptures s =
     bindR (count_loop (unicode_sets (vm_flags s)) (source s) 0 0 False (has_named s)) (\<lambda>(count, named).
     Inr (count, s\<lparr>has_named := named\<rparr>))"

section \<open>Numbers, escapes and names\<close>

definition number_step :: "nat \<Rightarrow> nat \<Rightarrow> nat" where
  "number_step result u =
     (let digit = u - ch CHR ''0''
      in if (infinity - digit) div 10 < result then infinity else result * 10 + digit)"

definition Number :: "nat parse" where
  "Number s =
     (let digits = takeWhile is_digit (drop (at s) (source s))
      in if digits = [] then Inl (Fail ''expected quantifier number'')
         else Inr (foldl number_step 0 digits, advance (length digits) s))"

fun hex_loop :: "nat \<Rightarrow> nat \<Rightarrow> nat parse" where
  "hex_loop 0 value s = Inr (value, s)"
| "hex_loop (Suc n) value s =
     (if at_end s then Inl (Fail ''truncated hexadecimal escape'')
      else bindR (unitR s (at s)) (\<lambda>c.
        case hex_digit c of
          None \<Rightarrow> Inl (Fail ''invalid hexadecimal escape'')
        | Some digit \<Rightarrow> hex_loop n (value * 16 + digit) (advance 1 s)))"

definition Hex :: "nat \<Rightarrow> nat parse" where
  "Hex n s = hex_loop n 0 s"

definition Point :: "nat parse" where
  "Point s =
     bindR (unitR s (at s)) (\<lambda>point.
       let s = advance 1 s
       in if Unicode (vm_flags s) \<and> is_high point \<and> sees s 0 is_low
          then Inr (pair_point point (source s ! at s), advance 1 s)
          else Inr (point, s))"

definition IdentifierPoint :: "unicode_tables \<Rightarrow> nat \<Rightarrow> bool \<Rightarrow> bool result" where
  "IdentifierPoint t point first =
     (if point = ch CHR ''$'' \<or> point = ch CHR ''_'' \<or> (\<not> first \<and> (point = 0x200c \<or> point = 0x200d))
      then Inr True
      else bindR (Find t (if first then units ''ID_Start'' else units ''ID_Continue'')) (\<lambda>property.
        case property of
          None \<Rightarrow> Inl Undefined_behaviour
        | Some p \<Rightarrow>
            if first_range p + range_count p \<le> length (kRanges t)
            then Inr (HasPoint (take (range_count p) (drop (first_range p) (kRanges t))) point)
            else Inl Undefined_behaviour))"

text \<open>The digits of a braced escape in a name: the bound is tested before each digit.\<close>

fun brace_name :: "nat \<Rightarrow> nat list \<Rightarrow> nat result" where
  "brace_name point [] = Inr point"
| "brace_name point (c # cs) =
     (if 0x10ffff div 16 < point then Inl (Fail ''capture name point exceeds maximum'')
      else case hex_digit c of
             None \<Rightarrow> Inl (Fail ''invalid hexadecimal escape'')
           | Some digit \<Rightarrow> brace_name (point * 16 + digit) cs)"

text \<open>In \<open>Escape\<close> it is tested after the digit is read and before it is added.\<close>

fun brace_escape :: "nat \<Rightarrow> nat list \<Rightarrow> nat result" where
  "brace_escape point [] = Inr point"
| "brace_escape point (c # cs) =
     (case hex_digit c of
        None \<Rightarrow> Inl (Fail ''invalid hexadecimal escape'')
      | Some digit \<Rightarrow>
          if 0x10ffff div 16 < point then Inl (Fail ''Unicode escape exceeds maximum point'')
          else brace_escape (point * 16 + digit) cs)"

definition brace_digits :: "vm \<Rightarrow> nat list" where
  "brace_digits s = takeWhile (\<lambda>u. u \<noteq> ch CHR ''}'') (drop (at s) (source s))"

text \<open>After a high surrogate, an immediately following \<open>\u\<close> escape of a low one completes the pair;
  otherwise the position is restored.\<close>

definition low_escape :: "nat \<Rightarrow> nat parse" where
  "low_escape point s =
     (if is_high point \<and> at s + 5 < length (source s) \<and> looking_at s 0 0x5c \<and> looking_at s 1 (ch CHR ''u'')
      then if list_all (\<lambda>u. hex_digit u \<noteq> None) (take 4 (drop (at s + 2) (source s)))
           then bindR (Hex 4 (advance 2 s)) (\<lambda>(low, s').
             if is_low low then Inr (pair_point point low, s') else Inr (point, s))
           else Inr (point, s)
      else Inr (point, s))"

definition NamePoint :: "nat parse" where
  "NamePoint s =
     (case Take 0x5c s of
        (True, s) \<Rightarrow>
          (case Take (ch CHR ''u'') s of
             (False, s) \<Rightarrow> Inl (Fail ''capture name escape must be Unicode'')
           | (True, s) \<Rightarrow>
               (case Take (ch CHR ''{'') s of
                  (True, s) \<Rightarrow>
                    (let digits = brace_digits s
                     in bindR (brace_name 0 digits) (\<lambda>point.
                          case Take (ch CHR ''}'') (advance (length digits) s) of
                            (closed, s) \<Rightarrow>
                              if digits = [] \<or> \<not> closed \<or> 0x10ffff < point
                              then Inl (Fail ''invalid capture name point'')
                              else Inr (point, s)))
                | (False, s) \<Rightarrow> bindR (Hex 4 s) (\<lambda>(point, s). low_escape point s)))
      | (False, s) \<Rightarrow>
          bindR (unitR s (at s)) (\<lambda>point.
            let s = advance 1 s
            in if is_high point \<and> sees s 0 is_low
               then Inr (pair_point point (source s ! at s), advance 1 s)
               else Inr (point, s)))"

definition utf16 :: "nat \<Rightarrow> nat list" where
  "utf16 point =
     (if point \<le> 65535 then [point]
      else [0xd800 + (point - 0x10000) div 1024, 0xdc00 + (point - 0x10000) mod 1024])"

fun name_loop :: "nat \<Rightarrow> unicode_tables \<Rightarrow> nat list \<Rightarrow> (nat list) parse" where
  "name_loop 0 t name s = Inl Out_of_fuel"
| "name_loop (Suc n) t name s =
     (if sees s 0 (\<lambda>u. u \<noteq> ch CHR ''>'')
      then bindR (NamePoint s) (\<lambda>(point, s).
           bindR (IdentifierPoint t point (name = [])) (\<lambda>ok.
             if \<not> ok then Inl (Fail ''invalid Unicode capture identifier'')
             else name_loop n t (name @ utf16 point) s))
      else Inr (name, s))"

definition Name :: "unicode_tables \<Rightarrow> (nat list) parse" where
  "Name t s =
     bindR (name_loop (steps_left s) t [] s) (\<lambda>(name, s).
       case Take (ch CHR ''>'') s of
         (closed, s) \<Rightarrow> if name = [] \<or> \<not> closed then Inl (Fail ''invalid capture name'') else Inr (name, s))"

section \<open>Class sets\<close>

definition NormalizeSet :: "unicode_tables \<Rightarrow> flags \<Rightarrow> cset \<Rightarrow> cset result" where
  "NormalizeSet t f value =
     (let strings = (if insensitive f then map (map (Canonical t f)) (set_strings value) else set_strings value);
          singles = [(hd string, hd string). string \<leftarrow> strings, length string = 1];
          strings = filter (\<lambda>string. length string \<noteq> 1) strings
      in bindR (Normalize (set_ranges value @ singles)) (\<lambda>rs.
         bindR (if case_ready value then Inr rs
                else if unicode_sets f then CaseClosure t f rs else CanonicalRanges t f rs) (\<lambda>rs.
           let strings = remdups_adj (sort strings)
           in if 262144 < sum_list (map length strings) then Inl (Fail ''class string point capacity262144 exceeded'')
              else if 262144 < length rs \<or> 8192 < length strings then Inl (Fail ''class set capacity exceeded'')
              else Inr (value\<lparr>set_ranges := rs, set_strings := strings, case_ready := True\<rparr>))))"

definition Union :: "unicode_tables \<Rightarrow> flags \<Rightarrow> cset \<Rightarrow> cset \<Rightarrow> cset result" where
  "Union t f left right =
     bindR (NormalizeSet t f left) (\<lambda>left.
     bindR (NormalizeSet t f right) (\<lambda>right.
       NormalizeSet t f (left\<lparr>set_ranges := set_ranges left @ set_ranges right,
                              set_strings := set_strings left @ set_strings right,
                              may_strings := may_strings left \<or> may_strings right\<rparr>)))"

text \<open>\<open>std::set_difference\<close> and \<open>std::set_intersection\<close> on sorted sequences.\<close>

fun set_difference :: "'a::linorder list \<Rightarrow> 'a list \<Rightarrow> 'a list" where
  "set_difference [] ys = []"
| "set_difference xs [] = xs"
| "set_difference (x # xs) (y # ys) =
     (if x < y then x # set_difference xs (y # ys)
      else if y < x then set_difference (x # xs) ys
      else set_difference xs ys)"

fun set_intersection :: "'a::linorder list \<Rightarrow> 'a list \<Rightarrow> 'a list" where
  "set_intersection [] ys = []"
| "set_intersection xs [] = []"
| "set_intersection (x # xs) (y # ys) =
     (if x < y then set_intersection xs (y # ys)
      else if y < x then set_intersection (x # xs) ys
      else x # set_intersection xs ys)"

definition Combine :: "unicode_tables \<Rightarrow> flags \<Rightarrow> cset \<Rightarrow> cset \<Rightarrow> bool \<Rightarrow> cset result" where
  "Combine t f left right subtraction =
     bindR (NormalizeSet t f left) (\<lambda>left.
     bindR (NormalizeSet t f right) (\<lambda>right.
       Inr \<lparr>set_ranges = (if subtraction then Subtract (set_ranges left) (set_ranges right)
                          else Intersect (set_ranges left) (set_ranges right)),
            set_strings = (if subtraction then set_difference (set_strings left) (set_strings right)
                           else set_intersection (set_strings left) (set_strings right)),
            may_strings = (if subtraction then may_strings left else may_strings left \<and> may_strings right),
            case_ready = True\<rparr>))"

definition alias_unit :: "nat \<Rightarrow> bool" where
  "alias_unit c \<longleftrightarrow> is_upper c \<or> is_lower c \<or> is_digit c \<or> c = ch CHR ''_'' \<or> c = ch CHR ''=''"

definition property_set :: "unicode_tables \<Rightarrow> property \<Rightarrow> cset result" where
  "property_set t p =
     (if first_range p + range_count p \<le> length (kRanges t) \<and>
         first_string p + string_count p \<le> length (kStrings t) \<and>
         list_all (\<lambda>(first, count). first + count \<le> length (kPoints t))
           (take (string_count p) (drop (first_string p) (kStrings t)))
      then Inr \<lparr>set_ranges = take (range_count p) (drop (first_range p) (kRanges t)),
                set_strings = map (\<lambda>(first, count). take count (drop first (kPoints t)))
                  (take (string_count p) (drop (first_string p) (kStrings t))),
                may_strings = property_strings p, case_ready = False\<rparr>
      else Inl Undefined_behaviour)"

text \<open>The body of \<open>Property\<close> once the alias has been read.\<close>

definition property_value :: "unicode_tables \<Rightarrow> bool \<Rightarrow> nat list \<Rightarrow> flags \<Rightarrow> cset result" where
  "property_value t negative name f =
     bindR (Find t name) (\<lambda>property.
       case property of
         None \<Rightarrow> Inl (Fail ''unknown Unicode property alias'')
       | Some p \<Rightarrow>
           if property_strings p \<and> (\<not> unicode_sets f \<or> negative)
           then Inl (Fail ''invalid Unicode string property mode or complement'')
           else bindR (property_set t p) (\<lambda>result.
             if unicode_sets f
             then bindR (NormalizeSet t f (result\<lparr>case_ready := (name = units ''ASCII'')\<rparr>)) (\<lambda>result.
                  if negative
                  then bindR (ComplementCanonical t f (set_ranges result)) (\<lambda>rs. Inr (result\<lparr>set_ranges := rs\<rparr>))
                  else Inr result)
             else if negative then Inr (result\<lparr>set_ranges := Complement f (set_ranges result)\<rparr>)
             else Inr result))"

definition Property :: "unicode_tables \<Rightarrow> bool \<Rightarrow> cset parse" where
  "Property t negative s =
     (case Take (ch CHR ''{'') s of
        (False, s) \<Rightarrow> Inl (Fail ''missing Unicode property brace'')
      | (True, s) \<Rightarrow>
         (let name = takeWhile (\<lambda>u. u \<noteq> ch CHR ''}'') (drop (at s) (source s))
          in if \<not> list_all alias_unit name then Inl (Fail ''invalid Unicode property alias'')
             else case Take (ch CHR ''}'') (advance (length name) s) of
               (False, s) \<Rightarrow> Inl (Fail ''unterminated Unicode property'')
             | (True, s) \<Rightarrow> bindR (property_value t negative name (vm_flags s)) (\<lambda>v. Inr (v, s))))"

section \<open>Escapes\<close>

definition escape_class :: "flags \<Rightarrow> nat \<Rightarrow> ranges" where
  "escape_class f c =
     (if c = ch CHR ''d'' \<or> c = ch CHR ''D'' then [(ch CHR ''0'', ch CHR ''9'')]
      else if c = ch CHR ''w'' \<or> c = ch CHR ''W'' then
        [(ch CHR ''0'', ch CHR ''9''), (ch CHR ''A'', ch CHR ''Z''), (ch CHR ''_'', ch CHR ''_''),
         (ch CHR ''a'', ch CHR ''z'')] @
        (if Unicode f \<and> insensitive f then [(0x17f, 0x17f), (0x212a, 0x212a)] else [])
      else if c = ch CHR ''s'' \<or> c = ch CHR ''S'' then
        [(9, 13), (32, 32), (160, 160), (0x1680, 0x1680), (0x2000, 0x200a), (0x2028, 0x2029),
         (0x202f, 0x202f), (0x205f, 0x205f), (0x3000, 0x3000), (0xfeff, 0xfeff)]
      else [])"

definition plain_escapes :: "nat list" where
  "plain_escapes = units ''dDsSwWtnrvfbB0xu'' @ [0x5c] @ units ''^$.*+?()[]{}|/-''"

definition syntax_units :: "nat list" where
  "syntax_units = units ''^$'' @ [0x5c] @ units ''.*+?()[]{}|/''"

definition set_punctuators :: "nat list" where
  "set_punctuators = units ''!#%&,:;<=>@'' @ [0x60, 0x7e, 0x22, 0x27]"

definition mark_advanced :: "vm \<Rightarrow> vm" where
  "mark_advanced s = s\<lparr>advanced := True\<rparr>"

definition finish_escape :: "nat \<Rightarrow> nat \<Rightarrow> ranges parse" where
  "finish_escape c point s = Inr ([(point, point)], if c \<in> set plain_escapes then s else mark_advanced s)"

definition control_escape :: "bool \<Rightarrow> nat \<Rightarrow> ranges parse" where
  "control_escape in_class c s =
     (let s = mark_advanced s; f = vm_flags s
      in if sees s 0 (\<lambda>u. is_upper u \<or> is_lower u \<or>
              (in_class \<and> \<not> Unicode f \<and> (u = ch CHR ''_'' \<or> is_digit u)))
         then finish_escape c (source s ! at s mod 32) (advance 1 s)
         else if Unicode f then Inl (Fail ''invalid Unicode control escape'')
         else Inr ([(0x5c, 0x5c), (ch CHR ''c'', ch CHR ''c'')], s))"

definition hex_valid :: "nat \<Rightarrow> vm \<Rightarrow> bool" where
  "hex_valid n s \<longleftrightarrow>
     at s + n \<le> length (source s) \<and> list_all (\<lambda>u. hex_digit u \<noteq> None) (take n (drop (at s) (source s)))"

text \<open>\<open>\xHH\<close> and \<open>\uHHHH\<close>; without valid digits the escape is the letter itself.\<close>

definition fixed_escape :: "nat \<Rightarrow> nat \<Rightarrow> nat parse" where
  "fixed_escape n c s =
     (if hex_valid n s then Hex n s
      else if Unicode (vm_flags s) then Inl (Fail ''invalid Unicode hex escape'')
      else Inr (c, mark_advanced s))"

definition unicode_escape :: "nat \<Rightarrow> ranges parse" where
  "unicode_escape c s =
     bindR (if Unicode (vm_flags s) \<and> looking_at s 0 (ch CHR ''{'')
            then (let s = advance 1 s; digits = brace_digits s
                  in bindR (brace_escape 0 digits) (\<lambda>point.
                       case Take (ch CHR ''}'') (advance (length digits) s) of
                         (closed, s) \<Rightarrow>
                           if digits = [] \<or> \<not> closed \<or> 0x10ffff < point
                           then Inl (Fail ''invalid Unicode point escape'')
                           else Inr (point, s)))
            else fixed_escape 4 c s) (\<lambda>(point, s).
     bindR (if Unicode (vm_flags s) then low_escape point s else Inr (point, s)) (\<lambda>(point, s).
     finish_escape c point s))"

fun octal_loop :: "nat \<Rightarrow> nat \<Rightarrow> vm \<Rightarrow> nat \<times> vm" where
  "octal_loop 0 point s = (point, s)"
| "octal_loop (Suc n) point s =
     (if sees s 0 (\<lambda>u. ch CHR ''0'' \<le> u \<and> u \<le> ch CHR ''7'')
      then octal_loop n (point * 8 + (source s ! at s - ch CHR ''0'')) (advance 1 s)
      else (point, s))"

definition decimal_escape :: "nat \<Rightarrow> ranges parse" where
  "decimal_escape c s =
     (let s = mark_advanced s
      in if Unicode (vm_flags s) then
           if c \<noteq> ch CHR ''0'' \<or> sees s 0 is_digit then Inl (Fail ''invalid Unicode decimal escape'')
           else finish_escape c 0 s
         else if c \<le> ch CHR ''7'' then
           (case octal_loop (if c \<le> ch CHR ''3'' then 2 else 1) (c - ch CHR ''0'') s of
              (point, s) \<Rightarrow> finish_escape c point s)
         else finish_escape c c s)"

text \<open>The part of \<open>Escape\<close> after the unit \<open>c\<close> that follows the backslash has been read.\<close>

definition escape_from :: "unicode_tables \<Rightarrow> bool \<Rightarrow> nat \<Rightarrow> ranges parse" where
  "escape_from t in_class c s =
     (let f = vm_flags s; rs = escape_class f c
        in if rs \<noteq> [] then
             if c = ch CHR ''D'' \<or> c = ch CHR ''W'' \<or> c = ch CHR ''S''
             then bindR (Normalize rs) (\<lambda>rs. Inr (Complement f rs, s))
             else Inr (rs, s)
           else if c = ch CHR ''n'' then finish_escape c 10 s
           else if c = ch CHR ''r'' then finish_escape c 13 s
           else if c = ch CHR ''t'' then finish_escape c 9 s
           else if c = ch CHR ''v'' then finish_escape c 11 s
           else if c = ch CHR ''f'' then finish_escape c 12 s
           else if c = ch CHR ''b'' \<and> in_class then finish_escape c 8 s
           else if c = ch CHR ''c'' then control_escape in_class c s
           else if c = ch CHR ''x'' then bindR (fixed_escape 2 c s) (\<lambda>(point, s). finish_escape c point s)
           else if c = ch CHR ''u'' then unicode_escape c s
           else if is_digit c then decimal_escape c s
           else if c = ch CHR ''p'' \<or> c = ch CHR ''P'' then
             if Unicode f then
               bindR (Property t (c = ch CHR ''P'') (mark_advanced s)) (\<lambda>(set, s).
                 if set_strings set \<noteq> [] then Inl (Fail ''string property requires a Unicode-sets atom'')
                 else Inr (set_ranges set, s))
             else finish_escape c c (mark_advanced s)
           else if Unicode f \<and> \<not> (c \<in> set syntax_units \<or>
                    (in_class \<and> (c = ch CHR ''-'' \<or> (unicode_sets f \<and> c \<in> set set_punctuators))))
           then Inl (Fail ''invalid Unicode identity escape'')
           else finish_escape c c s)"

definition Escape :: "unicode_tables \<Rightarrow> bool \<Rightarrow> ranges parse" where
  "Escape t in_class s =
     (if at_end s then Inl (Fail ''trailing escape'')
      else bindR (unitR s (at s)) (\<lambda>c. escape_from t in_class c (advance 1 s)))"

section \<open>Classes\<close>

definition single :: "ranges \<Rightarrow> bool" where
  "single rs \<longleftrightarrow> (case rs of [(a, b)] \<Rightarrow> a = b | _ \<Rightarrow> False)"

definition class_escapes :: "nat list" where
  "class_escapes = units ''dDsSwW''"

fun class_string_loop :: "nat \<Rightarrow> unicode_tables \<Rightarrow> nat list list \<Rightarrow> nat list \<Rightarrow> (nat list list) parse" where
  "class_string_loop 0 t strings string s = Inl Out_of_fuel"
| "class_string_loop (Suc n) t strings string s =
     (if at_end s then Inl (Fail ''unterminated class string'')
      else case Take (ch CHR ''}'') s of
        (True, s) \<Rightarrow> Inr (strings @ [string], s)
      | (False, s) \<Rightarrow>
        (case Take (ch CHR ''|'') s of
          (True, s) \<Rightarrow> class_string_loop n t (strings @ [string]) [] s
        | (False, s) \<Rightarrow>
          (case Take 0x5c s of
            (True, s) \<Rightarrow>
              if at_end s \<or> sees s 0 (\<lambda>u. u \<in> set (class_escapes @ units ''pP''))
              then Inl (Fail ''class string requires character escapes'')
              else bindR (Escape t True s) (\<lambda>(rs, s).
                if \<not> single rs then Inl (Fail ''class string requires character escapes'')
                else class_string_loop n t strings (string @ [fst (hd rs)]) s)
          | (False, s) \<Rightarrow>
              if sees s 0 (\<lambda>u. u \<in> set (units ''()[]{} /-'') \<and> u \<noteq> ch CHR '' '')
              then Inl (Fail ''unescaped class string syntax'')
              else bindR (Point s) (\<lambda>(point, s). class_string_loop n t strings (string @ [point]) s))))"

definition ClassString :: "unicode_tables \<Rightarrow> cset parse" where
  "ClassString t s =
     (case Take (ch CHR ''{'') s of
        (False, s) \<Rightarrow> Inl (Fail ''missing class string brace'')
      | (True, s) \<Rightarrow>
          bindR (class_string_loop (steps_left s) t [] [] s) (\<lambda>(strings, s).
          bindR (NormalizeSet t (vm_flags s) \<lparr>set_ranges = [], set_strings = strings,
                   may_strings = (\<exists>v \<in> set strings. length v \<noteq> 1), case_ready = True\<rparr>) (\<lambda>result.
          Inr (result, s))))"

text \<open>An operand of a Unicode-sets class; the argument \<open>nested\<close> parses a bracketed class.\<close>

definition UnicodeOperand :: "cset parse \<Rightarrow> unicode_tables \<Rightarrow> (cset \<times> bool) parse" where
  "UnicodeOperand nested t s =
     (if at_end s then Inl (Fail ''unterminated Unicode class'')
      else case Take (ch CHR ''['') s of
        (True, s) \<Rightarrow> bindR (nested s) (\<lambda>(set, s). Inr ((set, False), s))
      | (False, s) \<Rightarrow>
        (case Take 0x5c s of
          (True, s) \<Rightarrow>
            if at_end s then Inl (Fail ''trailing Unicode class escape'')
            else (case Take (ch CHR ''q'') s of
              (True, s) \<Rightarrow> bindR (ClassString t s) (\<lambda>(set, s). Inr ((set, False), s))
            | (False, s) \<Rightarrow>
                bindR (unitR s (at s)) (\<lambda>escape.
                if escape = ch CHR ''p'' \<or> escape = ch CHR ''P''
                then bindR (Property t (escape = ch CHR ''P'') (advance 1 s)) (\<lambda>(set, s). Inr ((set, False), s))
                else bindR (Escape t True s) (\<lambda>(rs, s).
                  Inr ((empty_set\<lparr>set_ranges := rs\<rparr>, escape \<notin> set class_escapes), s))))
        | (False, s) \<Rightarrow>
            bindR (unitR s (at s)) (\<lambda>c.
            if c \<in> set (units ''(){}|/-]'') then Inl (Fail ''unescaped Unicode class syntax'')
            else if looking_at s 1 c \<and> c \<in> set (units ''!#$%&*+,.:;<=>?@^'' @ [0x60, 0x7e])
            then Inl (Fail ''reserved double Unicode class punctuator'')
            else bindR (Point s) (\<lambda>(point, s).
              Inr ((empty_set\<lparr>set_ranges := [(point, point)]\<rparr>, True), s)))))"

record class_state =
  cs_result :: cset
  cs_have :: bool
  cs_union_only :: bool
  cs_range_operand :: bool
  cs_operation :: "nat option"

definition class_operator :: "class_state \<Rightarrow> class_state parse" where
  "class_operator cs s =
     (if cs_have cs \<and> ((looking_at s 0 (ch CHR ''&'') \<and> looking_at s 1 (ch CHR ''&'')) \<or>
                       (looking_at s 0 (ch CHR ''-'') \<and> looking_at s 1 (ch CHR ''-'')))
      then if cs_union_only cs \<or> cs_range_operand cs
           then Inl (Fail ''Unicode set operator requires a single operand'')
           else (let op = source s ! at s
                 in if cs_operation cs \<noteq> None \<and> cs_operation cs \<noteq> Some op
                    then Inl (Fail ''mixed Unicode class set operators'')
                    else let s = advance 2 s
                         in if at_end s \<or> looking_at s 0 (ch CHR '']'')
                            then Inl (Fail ''missing Unicode class operand'')
                            else Inr (cs\<lparr>cs_operation := Some op\<rparr>, s))
      else if cs_have cs \<and> cs_operation cs \<noteq> None then Inl (Fail ''Unicode set operator required'')
      else Inr (cs, s))"

definition range_item :: "unicode_tables \<Rightarrow> flags \<Rightarrow> class_state \<Rightarrow> cset \<Rightarrow> bool \<Rightarrow> cset \<Rightarrow> bool \<Rightarrow> (class_state \<times> cset) result" where
  "range_item t f cs item isingle upper lsingle =
     (if \<not> isingle \<or> \<not> lsingle \<or> \<not> single (set_ranges item) \<or> \<not> single (set_ranges upper)
      then Inl (Fail ''invalid Unicode class range'')
      else let a = fst (hd (set_ranges item)); b = fst (hd (set_ranges upper))
           in if b < a then Inl (Fail ''reversed Unicode class range'')
              else bindR (NormalizeSet t f (empty_set\<lparr>set_ranges := [(a, b)]\<rparr>)) (\<lambda>item.
                Inr (cs\<lparr>cs_range_operand := True\<rparr>, item)))"

definition class_range :: "cset parse \<Rightarrow> unicode_tables \<Rightarrow> class_state \<Rightarrow> cset \<Rightarrow> bool \<Rightarrow> (class_state \<times> cset) parse" where
  "class_range nested t cs item isingle s =
     (if looking_at s 0 (ch CHR ''-'') \<and> \<not> looking_at s 1 (ch CHR ''-'')
      then if cs_operation cs \<noteq> None then Inl (Fail ''range cannot be a Unicode set operator operand'')
           else bindR (UnicodeOperand nested t (advance 1 s)) (\<lambda>((upper, lsingle), s).
                bindR (range_item t (vm_flags s) cs item isingle upper lsingle) (\<lambda>merged. Inr (merged, s)))
      else Inr ((cs, item), s))"

definition class_merge :: "unicode_tables \<Rightarrow> flags \<Rightarrow> class_state \<Rightarrow> cset \<Rightarrow> class_state result" where
  "class_merge t f cs item =
     (if \<not> cs_have cs
      then bindR (NormalizeSet t f item) (\<lambda>result. Inr (cs\<lparr>cs_result := result, cs_have := True\<rparr>))
      else case cs_operation cs of
        Some op \<Rightarrow>
          bindR (Combine t f (cs_result cs) item (op = ch CHR ''-'')) (\<lambda>result. Inr (cs\<lparr>cs_result := result\<rparr>))
      | None \<Rightarrow>
          bindR (Union t f (cs_result cs) item) (\<lambda>result.
            Inr (cs\<lparr>cs_result := result, cs_union_only := True\<rparr>)))"

fun unicode_class_loop :: "nat \<Rightarrow> cset parse \<Rightarrow> unicode_tables \<Rightarrow> class_state \<Rightarrow> class_state parse" where
  "unicode_class_loop 0 nested t cs s = Inl Out_of_fuel"
| "unicode_class_loop (Suc n) nested t cs s =
     (if sees s 0 (\<lambda>u. u \<noteq> ch CHR '']'')
      then bindR (class_operator cs s) (\<lambda>(cs, s).
           bindR (UnicodeOperand nested t s) (\<lambda>((item, isingle), s).
           bindR (class_range nested t cs item isingle s) (\<lambda>((cs, item), s).
           bindR (class_merge t (vm_flags s) cs item) (\<lambda>cs.
           unicode_class_loop n nested t cs s))))
      else Inr (cs, s))"

text \<open>The end of a Unicode-sets class: its bracket, the depth, and the complement.\<close>

definition class_close :: "unicode_tables \<Rightarrow> bool \<Rightarrow> cset \<Rightarrow> cset parse" where
  "class_close t negative result s =
     (case Take (ch CHR '']'') s of
        (False, s) \<Rightarrow> Inl (Fail ''unterminated Unicode class'')
      | (True, s) \<Rightarrow>
          (let s = s\<lparr>class_depth := class_depth s - 1\<rparr>
           in if negative then
                if may_strings result then Inl (Fail ''Unicode class strings cannot be complemented'')
                else bindR (ComplementCanonical t (vm_flags s) (set_ranges result)) (\<lambda>rs.
                       Inr (result\<lparr>set_ranges := rs\<rparr>, s))
              else Inr (result, s)))"

text \<open>Classes nest at most 64 deep; the first argument is what is left of that depth.\<close>

primrec UnicodeClass :: "nat \<Rightarrow> unicode_tables \<Rightarrow> cset parse" where
  "UnicodeClass 0 t s = Inl Out_of_fuel"
| "UnicodeClass (Suc n) t s =
     (let s = (mark_advanced s)\<lparr>class_depth := class_depth s + 1\<rparr>
      in if 64 < class_depth s then Inl (Fail ''Unicode class depth64 exceeded'')
         else case Take (ch CHR ''^'') s of
           (negative, s) \<Rightarrow>
             bindR (unicode_class_loop (steps_left s) (UnicodeClass n t) t
                      \<lparr>cs_result = empty_set, cs_have = False, cs_union_only = False,
                       cs_range_operand = False, cs_operation = None\<rparr> s) (\<lambda>(cs, s).
             class_close t negative (cs_result cs) s))"

definition SetNode :: "unicode_tables \<Rightarrow> cset \<Rightarrow> nat parse" where
  "SetNode t value s =
     bindR (NormalizeSet t (vm_flags s) value) (\<lambda>value.
     Add ((blank s KCharacter)\<lparr>raw_ranges := unicode_sets (vm_flags s), node_ranges := set_ranges value,
            node_strings := sort_key (\<lambda>string. (u64_max - length string, string)) (set_strings value)\<rparr>) s)"

definition ClassItem :: "unicode_tables \<Rightarrow> ranges parse" where
  "ClassItem t s =
     (if at_end s then Inl (Fail ''unterminated character class'')
      else case Take 0x5c s of
        (True, s) \<Rightarrow> Escape t True s
      | (False, s) \<Rightarrow> bindR (Point s) (\<lambda>(point, s). Inr ([(point, point)], s)))"

text \<open>What a pair of items joined by a hyphen adds to a class, and whether it marks the expression.\<close>

definition class_pair :: "flags \<Rightarrow> ranges \<Rightarrow> ranges \<Rightarrow> (ranges \<times> bool) result" where
  "class_pair f item upper =
     (if \<not> single item \<or> \<not> single upper
      then if Unicode f then Inl (Fail ''class escape cannot be a range endpoint'')
           else Inr (item @ [(ch CHR ''-'', ch CHR ''-'')] @ upper, True)
      else if fst (hd upper) < fst (hd item) then Inl (Fail ''reversed character range'')
      else Inr ([(fst (hd item), fst (hd upper))], False))"

fun class_loop :: "nat \<Rightarrow> unicode_tables \<Rightarrow> ranges \<Rightarrow> ranges parse" where
  "class_loop 0 t rs s = Inl Out_of_fuel"
| "class_loop (Suc n) t rs s =
     (if sees s 0 (\<lambda>u. u \<noteq> ch CHR '']'')
      then bindR (ClassItem t s) (\<lambda>(item, s).
           if looking_at s 0 (ch CHR ''-'') \<and> sees s 1 (\<lambda>u. u \<noteq> ch CHR '']'')
           then bindR (ClassItem t (advance 1 s)) (\<lambda>(upper, s).
                bindR (class_pair (vm_flags s) item upper) (\<lambda>(added, mark).
                class_loop n t (rs @ added) (if mark then mark_advanced s else s)))
           else class_loop n t (rs @ item) s)
      else Inr (rs, s))"

definition Class :: "unicode_tables \<Rightarrow> nat parse" where
  "Class t s =
     (case Take (ch CHR ''^'') s of
        (negative, s) \<Rightarrow>
          bindR (class_loop (steps_left s) t [] s) (\<lambda>(rs, s).
          case Take (ch CHR '']'') s of
            (False, s) \<Rightarrow> Inl (Fail ''unterminated character class'')
          | (True, s) \<Rightarrow>
              bindR (Normalize rs) (\<lambda>rs.
              bindR (CanonicalRanges t (vm_flags s) rs) (\<lambda>rs.
              Add ((blank s KCharacter)\<lparr>node_ranges := (if negative then Complement (vm_flags s) rs else rs)\<rparr>) s))))"

section \<open>Expressions\<close>

text \<open>The captures below a node, in the order of a preorder walk of the arena; the walk is bounded by
  the number of nodes, since children precede their parent.\<close>

primrec CollectCaptures :: "nat \<Rightarrow> node list \<Rightarrow> nat \<Rightarrow> (nat list) result" where
  "CollectCaptures 0 ns i = Inl Out_of_fuel"
| "CollectCaptures (Suc n) ns i =
     bindR (nthR ns i) (\<lambda>node.
     bindR (mapR (CollectCaptures n ns) (children node)) (\<lambda>below.
     Inr ((if kind node = KCapture then [capture node] else []) @ concat below)))"

text \<open>The upper bound of a braced quantifier, after its lower bound and a possible comma; \<open>None\<close> where
  the braces turn out to be literal text.\<close>

definition upper_bound :: "nat \<Rightarrow> bool \<Rightarrow> nat option parse" where
  "upper_bound low comma s =
     (if \<not> comma then Inr (Some low, s)
      else if looking_at s 0 (ch CHR ''}'') then Inr (Some infinity, s)
      else if sees s 0 is_digit then bindR (Number s) (\<lambda>(high, s). Inr (Some high, s))
      else if Unicode (vm_flags s) then Inl (Fail ''invalid Unicode quantifier'')
      else Inr (None, s))"

definition quantifier_end :: "nat \<Rightarrow> nat \<Rightarrow> (nat \<times> nat) option parse" where
  "quantifier_end low high s =
     (case Take (ch CHR ''}'') s of
        (False, s) \<Rightarrow> if Unicode (vm_flags s) then Inl (Fail ''unterminated quantifier'') else Inr (None, s)
      | (True, s) \<Rightarrow>
          if high < low then Inl (Fail ''reversed quantifier bounds'')
          else Inr (Some (low, high),
                    if 256 < low \<or> (high \<noteq> infinity \<and> 256 < high) then mark_advanced s else s))"

definition braced_quantifier :: "(nat \<times> nat) option parse" where
  "braced_quantifier s =
     bindR (Number s) (\<lambda>(low, s).
       case Take (ch CHR '','') s of
         (comma, s) \<Rightarrow>
           bindR (upper_bound low comma s) (\<lambda>(high, s).
             case high of
               None \<Rightarrow> Inr (None, s)
             | Some high \<Rightarrow> quantifier_end low high s))"

text \<open>A quantifier: \<open>None\<close> where the source returns the atom alone, with the position restored.\<close>

definition Quantifier :: "(nat \<times> nat) option parse" where
  "Quantifier s =
     (case Take (ch CHR ''*'') s of
        (True, s) \<Rightarrow> Inr (Some (0, infinity), s)
      | (False, s) \<Rightarrow>
     (case Take (ch CHR ''+'') s of
        (True, s) \<Rightarrow> Inr (Some (1, infinity), s)
      | (False, s) \<Rightarrow>
     (case Take (ch CHR ''?'') s of
        (True, s) \<Rightarrow> Inr (Some (0, 1), s)
      | (False, s) \<Rightarrow>
     (case Take (ch CHR ''{'') s of
        (False, s) \<Rightarrow> Inr (None, s)
      | (True, s1) \<Rightarrow>
          if \<not> sees s1 0 is_digit then Inr (None, s)
          else bindR (braced_quantifier s1) (\<lambda>(bounds, s').
            Inr (case bounds of None \<Rightarrow> (None, s) | Some b \<Rightarrow> (Some b, s')))))))"

definition assertion_node :: "flags \<Rightarrow> node \<Rightarrow> bool" where
  "assertion_node f node \<longleftrightarrow>
     kind node \<in> {KBegin, KEnd, KBoundary, KNonBoundary} \<or>
     (kind node = KAssert \<and> (Unicode f \<or> behind node))"

text \<open>\<open>Term\<close>, with the parser of an atom as its argument.\<close>

definition Term :: "nat parse \<Rightarrow> nat parse" where
  "Term atom_parser s =
     bindR (atom_parser s) (\<lambda>(atom, s).
       if at_end s then Inr (atom, s)
       else bindR (Quantifier s) (\<lambda>(quantifier, s).
         case quantifier of
           None \<Rightarrow> Inr (atom, s)
         | Some (low, high) \<Rightarrow>
             bindR (nthR (nodes s) atom) (\<lambda>node.
               if assertion_node (vm_flags s) node then Inl (Fail ''assertion cannot be quantified'')
               else case Take (ch CHR ''?'') s of
                 (lazy, s) \<Rightarrow>
                   (let index = loop_count s; s = s\<lparr>loop_count := loop_count s + 1\<rparr>
                    in bindR (CollectCaptures (length (nodes s)) (nodes s) atom) (\<lambda>captures.
                       Add ((blank s KRepeat)\<lparr>children := [atom], minimum := low, maximum := high,
                              greedy := \<not> lazy, loop := index, node_captures := captures\<rparr>) s)))))"

fun sequence_loop :: "nat \<Rightarrow> nat parse \<Rightarrow> nat list \<Rightarrow> (nat list) parse" where
  "sequence_loop 0 term_parser cs s = Inl Out_of_fuel"
| "sequence_loop (Suc n) term_parser cs s =
     (if sees s 0 (\<lambda>u. u \<noteq> ch CHR '')'' \<and> u \<noteq> ch CHR ''|'')
      then bindR (term_parser s) (\<lambda>(c, s). sequence_loop n term_parser (cs @ [c]) s)
      else Inr (cs, s))"

definition Sequence :: "nat parse \<Rightarrow> nat parse" where
  "Sequence atom_parser s =
     bindR (sequence_loop (steps_left s) (Term atom_parser) [] s) (\<lambda>(cs, s).
       case cs of
         [] \<Rightarrow> Add (blank s KEmpty) s
       | [c] \<Rightarrow> Inr (c, s)
       | _ \<Rightarrow> Add ((blank s KSequence)\<lparr>children := cs\<rparr>) s)"

fun modifier_loop :: "nat list \<Rightarrow> bool \<Rightarrow> nat list \<Rightarrow> nat list \<Rightarrow> flags \<Rightarrow> (bool \<times> nat list \<times> nat list \<times> flags) result" where
  "modifier_loop [] remove added removed f = Inr (remove, added, removed, f)"
| "modifier_loop (flag # rest) remove added removed f =
     (if flag = ch CHR ''-'' \<and> \<not> remove then modifier_loop rest True added removed f
      else if flag \<notin> set (units ''ims'') then Inl (Fail ''invalid scoped modifier'')
      else if flag \<in> set added \<or> flag \<in> set removed then Inl (Fail ''duplicate scoped modifier'')
      else modifier_loop rest remove (if remove then added else flag # added)
             (if remove then flag # removed else removed)
             (if flag = ch CHR ''i'' then f\<lparr>insensitive := \<not> remove\<rparr>
              else if flag = ch CHR ''m'' then f\<lparr>multiline := \<not> remove\<rparr>
              else f\<lparr>dot_all := \<not> remove\<rparr>))"

definition close_group :: "string \<Rightarrow> vm \<Rightarrow> vm result" where
  "close_group message s =
     (case Take (ch CHR '')'') s of (False, s) \<Rightarrow> Inl (Fail message) | (True, s) \<Rightarrow> Inr s)"

definition ScopedModifiers :: "nat parse \<Rightarrow> nat parse" where
  "ScopedModifiers disjunction s =
     (let saved = vm_flags s; units = takeWhile (\<lambda>u. u \<noteq> ch CHR '':'') (drop (at s) (source s))
      in bindR (modifier_loop units False [] [] saved) (\<lambda>(remove, added, removed, f).
           case Take (ch CHR '':'') (advance (length units) s) of
             (colon, s) \<Rightarrow>
               if (added = [] \<and> removed = []) \<or> \<not> colon \<or> (remove \<and> removed = [])
               then Inl (Fail ''invalid scoped modifier group'')
               else bindR (disjunction (s\<lparr>vm_flags := f\<rparr>)) (\<lambda>(body, s).
                    bindR (close_group ''unterminated scoped modifier'' s) (\<lambda>s.
                    Inr (body, s\<lparr>vm_flags := saved\<rparr>)))))"

definition add_capture :: "nat \<Rightarrow> nat \<Rightarrow> nat parse" where
  "add_capture g body s = Add ((blank s KCapture)\<lparr>capture := g, children := [body]\<rparr>) s"

fun names_push :: "nat list \<Rightarrow> named_capture \<Rightarrow> (nat list \<times> named_capture list) list \<Rightarrow> (nat list \<times> named_capture list) list" where
  "names_push name c [] = [(name, [c])]"
| "names_push name c ((n, cs) # rest) =
     (if n = name then (n, cs @ [c]) # rest else (n, cs) # names_push name c rest)"

definition NamedGroup :: "nat parse \<Rightarrow> unicode_tables \<Rightarrow> nat parse" where
  "NamedGroup disjunction t s =
     bindR (Name t s) (\<lambda>(name, s).
       let group = capture_count s + 1;
           s = s\<lparr>capture_count := group,
                 names := names_push name \<lparr>nc_group = group, nc_branches = branch_path s\<rparr> (names s)\<rparr>
       in bindR (disjunction s) (\<lambda>(body, s).
          bindR (close_group ''unterminated capture'' s) (\<lambda>s.
          add_capture group body s)))"

definition Assertion :: "nat parse \<Rightarrow> bool \<Rightarrow> bool \<Rightarrow> nat parse" where
  "Assertion disjunction pos beh s =
     bindR (disjunction s) (\<lambda>(body, s).
     bindR (close_group ''unterminated assertion'' s) (\<lambda>s.
     Add ((blank s KAssert)\<lparr>positive := pos, behind := beh, children := [body]\<rparr>) s))"

text \<open>\<open>(?<\<close> opens a lookbehind or a named capture; \<open>special_group\<close> is every group that starts with
  \<open>(?\<close> and is not \<open>(?:\<close>.\<close>

definition angle_group :: "nat parse \<Rightarrow> unicode_tables \<Rightarrow> nat parse" where
  "angle_group disjunction t s =
     (if looking_at s 0 (ch CHR ''='') then Assertion disjunction True True (advance 1 s)
      else if looking_at s 0 (ch CHR ''!'') then Assertion disjunction False True (advance 1 s)
      else NamedGroup disjunction t s)"

definition special_group :: "nat parse \<Rightarrow> unicode_tables \<Rightarrow> nat parse" where
  "special_group disjunction t s =
     (if looking_at s 0 (ch CHR ''='') then Assertion disjunction True False (advance 1 s)
      else if looking_at s 0 (ch CHR ''!'') then Assertion disjunction False False (advance 1 s)
      else if looking_at s 0 (ch CHR ''<'') then angle_group disjunction t (advance 1 s)
      else ScopedModifiers disjunction s)"

definition capture_group :: "nat parse \<Rightarrow> nat parse" where
  "capture_group disjunction s =
     (let group = capture_count s + 1
      in bindR (disjunction (s\<lparr>capture_count := group\<rparr>)) (\<lambda>(body, s).
         bindR (close_group ''unterminated capture'' s) (\<lambda>s.
         add_capture group body s)))"

definition Group :: "nat parse \<Rightarrow> unicode_tables \<Rightarrow> nat parse" where
  "Group disjunction t s =
     (case Take (ch CHR ''?'') s of
        (True, s) \<Rightarrow>
          (case Take (ch CHR '':'') s of
             (True, s) \<Rightarrow>
               bindR (disjunction s) (\<lambda>(body, s).
               bindR (close_group ''unterminated group'' s) (\<lambda>s. Inr (body, s)))
           | (False, s) \<Rightarrow> special_group disjunction t (mark_advanced s))
      | (False, s) \<Rightarrow> capture_group disjunction s)"

text \<open>What follows a backslash outside a class.\<close>

definition AtomEscape :: "unicode_tables \<Rightarrow> nat parse" where
  "AtomEscape t s =
     (let f = vm_flags s
      in if \<not> Unicode f \<and> looking_at s 0 (ch CHR ''c'') \<and> \<not> sees s 1 (\<lambda>u. is_upper u \<or> is_lower u)
         then Character t [(0x5c, 0x5c)] (mark_advanced s)
         else if has_named s \<and> looking_at s 0 (ch CHR ''k'') \<and> \<not> looking_at s 1 (ch CHR ''<'')
         then Inl (Fail ''invalid named reference'')
         else if Unicode f \<and> sees s 0 (\<lambda>u. u = ch CHR ''p'' \<or> u = ch CHR ''P'')
         then bindR (Property t (source s ! at s = ch CHR ''P'') (advance 1 (mark_advanced s))) (\<lambda>(set, s).
              SetNode t set s)
         else if looking_at s 0 (ch CHR ''b'') then (let s = advance 1 s in Add (blank s KBoundary) s)
         else if looking_at s 0 (ch CHR ''B'') then (let s = advance 1 s in Add (blank s KNonBoundary) s)
         else
           bindR (if sees s 0 (\<lambda>u. ch CHR ''1'' \<le> u \<and> u \<le> ch CHR ''9'')
                  then bindR (Number s) (\<lambda>(number, s').
                    if number \<le> total_captures s' then Inr (Some (number, s'))
                    else if Unicode f then Inl (Fail ''reference exceeds capture count'')
                    else Inr None)
                  else Inr None) (\<lambda>numbered.
           case numbered of
             Some (number, s) \<Rightarrow>
               (let s = mark_advanced s in Add ((blank s KReference)\<lparr>capture := number\<rparr>) s)
           | None \<Rightarrow>
               if (Unicode f \<or> has_named s) \<and> looking_at s 0 (ch CHR ''k'') \<and> looking_at s 1 (ch CHR ''<'')
               then bindR (Name t (advance 2 (mark_advanced s))) (\<lambda>(name, s).
                    Add ((blank s KReference)\<lparr>reference := name\<rparr>) s)
               else bindR (Escape t False s) (\<lambda>(rs, s). Character t rs s)))"

definition Atom :: "nat parse \<Rightarrow> unicode_tables \<Rightarrow> nat parse" where
  "Atom disjunction t s0 =
     (if at_end s0 then Inl (Fail ''expected atom'')
      else bindR (unitR s0 (at s0)) (\<lambda>c.
        let s = advance 1 s0; f = vm_flags s
        in if c = ch CHR ''('' then Group disjunction t s
           else if c = ch CHR ''['' then
             if unicode_sets f then bindR (UnicodeClass 65 t s) (\<lambda>(set, s). SetNode t set s)
             else Class t s
           else if c = ch CHR ''^'' then Add (blank s KBegin) s
           else if c = ch CHR ''$'' then Add (blank s KEnd) s
           else if c = ch CHR ''*'' \<or> c = ch CHR ''+'' \<or> c = ch CHR ''?'' then Inl (Fail ''quantifier without atom'')
           else if (c = ch CHR ''{'' \<or> c = ch CHR ''}'' \<or> c = ch CHR '']'') \<and> Unicode f
           then Inl (Fail ''unescaped Unicode syntax character'')
           else let marked = (c = ch CHR ''{'' \<or> c = ch CHR ''}'' \<or> c = ch CHR '']'');
                    s = (if marked then mark_advanced s else s);
                    s0 = (if marked then mark_advanced s0 else s0)
                in if c = 0x5c then AtomEscape t s
                   else if c = ch CHR ''.'' then
                     Character t (if dot_all f then [(0, last_point f)]
                                  else [(0, 9), (11, 12), (14, 0x2027), (0x202a, last_point f)]) s
                   else bindR (Point s0) (\<lambda>(point, s). Character t [(point, point)] s)))"

text \<open>Alternatives, and the recursion through groups. Groups nest at most 64 deep: the first argument
  of \<open>Disjunction\<close> is what is left of that depth.\<close>

definition next_branch :: "vm \<Rightarrow> vm" where
  "next_branch s = s\<lparr>branch_path := butlast (branch_path s) @
     [(fst (last (branch_path s)), snd (last (branch_path s)) + 1)]\<rparr>"

fun alternative_loop :: "nat \<Rightarrow> nat parse \<Rightarrow> nat list \<Rightarrow> (nat list) parse" where
  "alternative_loop 0 sequence cs s = Inl Out_of_fuel"
| "alternative_loop (Suc n) sequence cs s =
     (case Take (ch CHR ''|'') s of
        (False, s) \<Rightarrow> Inr (cs, s)
      | (True, s) \<Rightarrow> bindR (sequence (next_branch s)) (\<lambda>(c, s). alternative_loop n sequence (cs @ [c]) s))"

primrec Disjunction :: "nat \<Rightarrow> unicode_tables \<Rightarrow> nat parse" where
  "Disjunction 0 t s = Inl Out_of_fuel"
| "Disjunction (Suc n) t s =
     (let s = s\<lparr>depth := depth s + 1\<rparr>
      in if 64 < depth s then Inl (Fail ''group depth64 exceeded'')
         else let s = s\<lparr>branch_path := branch_path s @ [(disjunction_count s, 0)],
                        disjunction_count := disjunction_count s + 1\<rparr>;
                  sequence = Sequence (Atom (Disjunction n t) t)
              in bindR (sequence s) (\<lambda>(c, s).
                 bindR (alternative_loop (steps_left s) sequence [c] s) (\<lambda>(cs, s).
                   let s = s\<lparr>branch_path := butlast (branch_path s), depth := depth s - 1\<rparr>
                   in if length cs = 1 then Inr (hd cs, s)
                      else Add ((blank s KAlternative)\<lparr>children := cs\<rparr>) s)))"

end
