(* ===== verification/GrepScan.thy ===== *)
theory GrepScan
  imports GrepSyntax
begin

text \<open>
  Safety and progress of the reading half of the parser of \<open>native/runner/grep_vm.h\<close>: every
  function that reads escapes, names, properties and classes. The contract \<open>reads\<close> says that
  from a position inside the pattern such a function ends normally or by one of the exceptions
  the source throws (never by an access outside the pattern, a missing table entry or an unbounded
  loop), that it changes the read position and the \<open>advanced\<close> mark only, that the position
  never moves back or past the end, and what the value it returns satisfies.
\<close>

section \<open>The contract\<close>

definition units_ok :: "vm \<Rightarrow> bool" where
  "units_ok s \<longleftrightarrow> (\<forall>u \<in> set (source s). u \<le> 65535)"

definition inside :: "vm \<Rightarrow> bool" where
  "inside s \<longleftrightarrow> units_ok s \<and> at s \<le> length (source s)"

definition reads :: "vm \<Rightarrow> nat \<Rightarrow> ('a \<Rightarrow> bool) \<Rightarrow> ('a \<times> vm) result \<Rightarrow> bool" where
  "reads s least P m \<longleftrightarrow>
     safeR (\<lambda>(x, s'). at s \<le> at s' \<and> least \<le> at s' \<and> at s' \<le> length (source s) \<and>
              s' = s\<lparr>at := at s', advanced := advanced s'\<rparr> \<and> P x) m"

lemma units_ok_update [simp]: "units_ok (s\<lparr>at := a\<rparr>) = units_ok s" "units_ok (s\<lparr>advanced := b\<rparr>) = units_ok s"
  "units_ok (s\<lparr>class_depth := d\<rparr>) = units_ok s"
  by (simp_all add: units_ok_def)

lemma inside_update [simp]:
  "inside (s\<lparr>advanced := b\<rparr>) = inside s"
  "inside (s\<lparr>at := a\<rparr>) = (units_ok s \<and> a \<le> length (source s))"
  by (simp_all add: inside_def units_ok_def)

lemma insideD: "inside s \<Longrightarrow> at s \<le> length (source s)"
  by (simp add: inside_def)

lemma inside_units: "inside s \<Longrightarrow> units_ok s"
  by (simp add: inside_def)

lemma unit_bound: "units_ok s \<Longrightarrow> i < length (source s) \<Longrightarrow> source s ! i \<le> 65535"
  by (simp add: units_ok_def)

lemma unit_last_point: "units_ok s \<Longrightarrow> i < length (source s) \<Longrightarrow> source s ! i \<le> last_point f"
  using unit_bound [of s i] by (simp add: last_point_def)

lemma reads_Inl [simp]: "reads s l P (Inl e) \<longleftrightarrow> \<not> fatal e"
  by (simp add: reads_def)

lemma reads_Inr [simp]:
  "reads s l P (Inr (x, s')) \<longleftrightarrow>
     at s \<le> at s' \<and> l \<le> at s' \<and> at s' \<le> length (source s) \<and> s' = s\<lparr>at := at s', advanced := advanced s'\<rparr> \<and> P x"
  by (simp add: reads_def)

lemma commute_at_advanced [simp]: "s\<lparr>advanced := b, at := a\<rparr> = s\<lparr>at := a, advanced := b\<rparr>"
  by simp

lemma reads_bind:
  assumes "reads s l P m"
    and "\<And>x a b. at s \<le> a \<Longrightarrow> l \<le> a \<Longrightarrow> a \<le> length (source s) \<Longrightarrow> P x \<Longrightarrow>
           reads (s\<lparr>at := a, advanced := b\<rparr>) l' Q (f (x, s\<lparr>at := a, advanced := b\<rparr>))"
  shows "reads s l' Q (bindR m f)"
proof (cases m)
  case (Inl e)
  then show ?thesis using assms(1) by simp
next
  case (Inr y)
  obtain x s' where y: "y = (x, s')" by (cases y)
  from assms(1) Inr y have s': "at s \<le> at s'" "l \<le> at s'" "at s' \<le> length (source s)" "P x"
    "s' = s\<lparr>at := at s', advanced := advanced s'\<rparr>" by (simp_all add: reads_def)
  define a b where ab: "a = at s'" "b = advanced s'"
  have "reads (s\<lparr>at := a, advanced := b\<rparr>) l' Q (f (x, s\<lparr>at := a, advanced := b\<rparr>))"
    by (rule assms(2)) (use s' ab in auto)
  then have "reads s l' Q (f (x, s\<lparr>at := a, advanced := b\<rparr>))"
    using s'(1) ab unfolding reads_def by (elim wpR_mono2) auto
  then show ?thesis using Inr y s'(5) ab by simp
qed

lemma reads_safe: "safeR P m \<Longrightarrow> (\<And>x. m = Inr x \<Longrightarrow> P x \<Longrightarrow> reads s l Q (f x)) \<Longrightarrow> reads s l Q (bindR m f)"
  by (cases m) auto

lemma reads_weaken:
  "reads s l P m \<Longrightarrow> l' \<le> l \<Longrightarrow> (\<And>x. P x \<Longrightarrow> Q x) \<Longrightarrow> reads s l' Q m"
  unfolding reads_def by (elim wpR_mono2) auto

lemma reads_if: "(c \<Longrightarrow> reads s l P m) \<Longrightarrow> (\<not> c \<Longrightarrow> reads s l P m') \<Longrightarrow> reads s l P (if c then m else m')"
  by simp

text \<open>A parser called after the position has moved, with its result handed on.\<close>

lemma reads_later:
  assumes "reads (s\<lparr>at := a, advanced := b\<rparr>) l P m" "at s \<le> a"
  shows "reads s l P m"
  using assms unfolding reads_def by (elim wpR_mono2) auto

lemma reads_later_at:
  assumes "reads (s\<lparr>at := a\<rparr>) l P m" "at s \<le> a"
  shows "reads s l P m"
  using assms unfolding reads_def by (elim wpR_mono2) auto

lemma reads_later_advanced:
  "reads (s\<lparr>advanced := b\<rparr>) l P m \<Longrightarrow> reads s l P m"
  unfolding reads_def by (elim wpR_mono2) auto

lemma Take_split:
  "P (Take c s) \<longleftrightarrow>
     (looking_at s 0 c \<longrightarrow> P (True, s\<lparr>at := at s + 1\<rparr>)) \<and> (\<not> looking_at s 0 c \<longrightarrow> P (False, s))"
  by (simp add: Take_def advance_def)

lemma sees_simps [simp]:
  "sees (s\<lparr>advanced := b\<rparr>) i p = sees s i p"
  by (simp_all add: sees_def)

lemma sees_lt: "sees s i p \<Longrightarrow> at s + i < length (source s)"
  by (simp add: sees_def)

lemma unitR_at [simp]: "i < length (source s) \<Longrightarrow> unitR s i = Inr (source s ! i)"
  by (simp add: unitR_def)

lemmas scan_simps = advance_def mark_advanced_def at_end_def

section \<open>Numbers and points\<close>

lemma takeWhile_drop_length: "a \<le> length xs \<Longrightarrow> a + length (takeWhile p (drop a xs)) \<le> length xs"
  using length_takeWhile_le [of p "drop a xs"] by simp

lemma number_step_le: "r \<le> infinity \<Longrightarrow> is_digit u \<Longrightarrow> number_step r u \<le> infinity"
  by (auto simp: number_step_def Let_def is_digit_def infinity_def u64_max_def)

lemma number_steps_le: "r \<le> infinity \<Longrightarrow> list_all is_digit us \<Longrightarrow> foldl number_step r us \<le> infinity"
  by (induction us arbitrary: r) (auto simp: number_step_le)

lemma Number_reads: "inside s \<Longrightarrow> reads s (at s + 1) (\<lambda>n. n \<le> infinity) (Number s)"
  using takeWhile_drop_length [of "at s" "source s" is_digit]
    number_steps_le [of 0 "takeWhile is_digit (drop (at s) (source s))"]
  by (auto simp: Number_def Let_def advance_def inside_def Suc_le_eq list_all_iff dest: set_takeWhileD)

lemma hex_digit_bound: "hex_digit c = Some d \<Longrightarrow> d < 16"
  by (auto simp: hex_digit_def is_digit_def split: if_splits)

lemma hex_loop_reads:
  assumes "inside s" "v < 16 ^ k"
  shows "reads s (at s + n) (\<lambda>p. p < 16 ^ (n + k)) (hex_loop n v s)"
  using assms
proof (induction n arbitrary: v s k)
  case 0
  then show ?case by (simp add: inside_def)
next
  case (Suc n)
  show ?case
  proof (cases "at s < length (source s)")
    case True
    have step: "reads s (at s + Suc n) (\<lambda>p. p < 16 ^ (Suc n + k)) (hex_loop n (v * 16 + d) (s\<lparr>at := Suc (at s)\<rparr>))"
      if "hex_digit (source s ! at s) = Some d" for d
    proof (rule reads_later_at)
      have "v * 16 + d < 16 ^ Suc k" using Suc.prems(2) hex_digit_bound [OF that] by simp
      from Suc.IH [OF _ this, of "s\<lparr>at := Suc (at s)\<rparr>"] Suc.prems(1) True
      show "reads (s\<lparr>at := Suc (at s)\<rparr>) (at s + Suc n) (\<lambda>p. p < 16 ^ (Suc n + k))
              (hex_loop n (v * 16 + d) (s\<lparr>at := Suc (at s)\<rparr>))"
        by (simp add: inside_def)
    qed simp
    then show ?thesis using True by (auto simp: at_end_def advance_def split: option.splits)
  next
    case False
    then show ?thesis using Suc.prems(1) by (simp add: at_end_def inside_def)
  qed
qed

lemma Hex_reads: "inside s \<Longrightarrow> reads s (at s + n) (\<lambda>p. p < 16 ^ n) (Hex n s)"
  using hex_loop_reads [of s 0 0 n] by (simp add: Hex_def)

lemma pair_point_bound: "is_high u \<Longrightarrow> is_low v \<Longrightarrow> pair_point u v \<le> 0x10ffff"
proof -
  assume "is_high u" "is_low v"
  then have "u - 0xd800 \<le> 1023" "v - 0xdc00 \<le> 1023" by (auto simp: is_high_def is_low_def)
  then show ?thesis unfolding pair_point_def by linarith
qed

lemma Point_reads:
  assumes "inside s" "at s < length (source s)"
  shows "reads s (at s + 1) (\<lambda>p. p \<le> last_point (vm_flags s)) (Point s)"
  using assms unit_last_point [of s "at s"] pair_point_bound [of "source s ! at s" "source s ! Suc (at s)"]
  by (auto simp: Point_def Let_def advance_def sees_def inside_def last_point_def)

text \<open>A braced escape: the digits up to the closing brace.\<close>

lemma brace_digits_length: "inside s \<Longrightarrow> at s + length (brace_digits s) \<le> length (source s)"
  by (simp add: brace_digits_def inside_def takeWhile_drop_length)

lemma brace_name_safe: "safeR (\<lambda>_. True) (brace_name p cs)"
  by (induction p cs rule: brace_name.induct) (auto split: option.splits)

lemma brace_escape_safe: "safeR (\<lambda>_. True) (brace_escape p cs)"
  by (induction p cs rule: brace_escape.induct) (auto split: option.splits)

lemma low_escape_reads:
  assumes "inside s" "point \<le> n" "0x10ffff \<le> n"
  shows "reads s (at s) (\<lambda>p. p \<le> n) (low_escape point s)"
proof -
  have hex: "reads s (at s) (\<lambda>p. p \<le> n)
      (bindR (Hex 4 (s\<lparr>at := at s + 2\<rparr>)) (\<lambda>(low, s'). if is_low low then Inr (pair_point point low, s') else Inr (point, s)))"
    if "is_high point" "at s + 5 < length (source s)"
  proof -
    have "reads (s\<lparr>at := at s + 2\<rparr>) (at s) (\<lambda>p. True) (Hex 4 (s\<lparr>at := at s + 2\<rparr>))"
      by (rule reads_weaken [OF Hex_reads]) (use assms that in \<open>auto simp: inside_def\<close>)
    then show ?thesis
      using assms that order_trans [OF pair_point_bound assms(3)]
      unfolding reads_def by (auto elim!: wpR_mono simp: inside_def)
  qed
  then show ?thesis using assms by (auto simp: low_escape_def scan_simps inside_def)
qed

lemma NamePoint_reads:
  assumes "inside s" "at s < length (source s)"
  shows "reads s (at s + 1) (\<lambda>p. p \<le> 0x10ffff) (NamePoint s)"
proof -
  have hex: "reads s (at s + 1) (\<lambda>p. p \<le> 0x10ffff) (bindR (Hex 4 s') (\<lambda>(point, s). low_escape point s))"
    if "s' = s\<lparr>at := Suc (Suc (at s))\<rparr>" "Suc (Suc (at s)) \<le> length (source s)" for s'
  proof (rule reads_later_at [where a = "Suc (Suc (at s))"])
    show "reads (s\<lparr>at := Suc (Suc (at s))\<rparr>) (at s + 1) (\<lambda>p. p \<le> 0x10ffff) (bindR (Hex 4 s') (\<lambda>(point, s). low_escape point s))"
      unfolding that(1)
      by (rule reads_bind [OF Hex_reads], use assms that in \<open>simp add: inside_def\<close>)
        (auto intro!: reads_weaken [OF low_escape_reads [where n = "0x10ffff"]] simp: assms inside_units [OF assms(1)])
  qed simp
  have brace: "reads s (at s + 1) (\<lambda>p. p \<le> 0x10ffff)
      (bindR (brace_name 0 (brace_digits s')) (\<lambda>point.
         case Take (ch CHR ''}'') (advance (length (brace_digits s')) s') of
           (closed, s) \<Rightarrow> if brace_digits s' = [] \<or> \<not> closed \<or> 0x10ffff < point
             then Inl (Fail ''invalid capture name point'') else Inr (point, s)))"
    if "s' = s\<lparr>at := Suc (Suc (Suc (at s)))\<rparr>" "Suc (Suc (Suc (at s))) \<le> length (source s)" for s'
  proof (rule reads_safe [OF brace_name_safe])
    have "Suc (Suc (Suc (at s))) + length (brace_digits s') \<le> length (source s)"
      using brace_digits_length [of s'] that assms by (simp add: inside_def)
    then show "reads s (at s + 1) (\<lambda>p. p \<le> 0x10ffff)
       (case Take (ch CHR ''}'') (advance (length (brace_digits s')) s') of
           (closed, s) \<Rightarrow> if brace_digits s' = [] \<or> \<not> closed \<or> 0x10ffff < point
             then Inl (Fail ''invalid capture name point'') else Inr (point, s))" for point :: nat
      using that by (auto simp: advance_def sees_def split: Take_split)
  qed
  have plain: "source s ! at s \<le> 0x10ffff" using unit_bound [of s "at s"] assms by (simp add: inside_def)
  show ?thesis
    unfolding NamePoint_def
    using assms plain pair_point_bound [of "source s ! at s" "source s ! Suc (at s)"]
      hex [OF refl] brace [OF refl]
    by (auto simp: advance_def sees_def Let_def inside_def split: Take_split)
qed

section \<open>Names\<close>

lemma IdentifierPoint_safe: "tables_ok t \<Longrightarrow> safeR (\<lambda>_. True) (IdentifierPoint t p first)"
proof -
  assume t: "tables_ok t"
  have "safeR (\<lambda>_. True) (bindR (Find t name) (\<lambda>property.
        case property of
          None \<Rightarrow> Inl Undefined_behaviour
        | Some p \<Rightarrow>
            if first_range p + range_count p \<le> length (kRanges t)
            then Inr (HasPoint (take (range_count p) (drop (first_range p) (kRanges t))) point)
            else Inl Undefined_behaviour))"
    if "name \<in> set (map fst (kAliases t))" for name point
    using Find_safe [OF t, of name] that tables_okD(6) [OF t]
    by (auto simp: property_ok_def split: option.splits)
  from this [of "units ''ID_Start''" p] this [of "units ''ID_Continue''" p] tables_okD(9,10) [OF t]
  show ?thesis by (simp add: IdentifierPoint_def)
qed

lemma name_loop_reads:
  assumes "tables_ok t" "inside s" "length (source s) - at s < n"
  shows "reads s (at s) (\<lambda>_. True) (name_loop n t name s)"
  using assms(2,3)
proof (induction n arbitrary: name s)
  case (Suc n)
  show ?case
  proof (cases "sees s 0 (\<lambda>u. u \<noteq> ch CHR ''>'')")
    case True
    then have lt: "at s < length (source s)" by (simp add: sees_def)
    have rest: "reads (s\<lparr>at := a, advanced := b\<rparr>) (at s) (\<lambda>_. True)
        (name_loop n t name' (s\<lparr>at := a, advanced := b\<rparr>))"
      if "at s + 1 \<le> a" "a \<le> length (source s)" for a b name'
      by (rule reads_weaken [OF Suc.IH]) (use that Suc.prems lt in \<open>auto simp: inside_def\<close>)
    have "reads s (at s) (\<lambda>_. True)
        (bindR (NamePoint s) (\<lambda>(point, s). bindR (IdentifierPoint t point (name = [])) (\<lambda>ok.
             if \<not> ok then Inl (Fail ''invalid Unicode capture identifier'')
             else name_loop n t (name @ utf16 point) s)))"
      by (rule reads_bind [OF NamePoint_reads [OF Suc.prems(1) lt]])
        (use rest in \<open>auto intro!: reads_safe [OF IdentifierPoint_safe [OF assms(1)]]\<close>)
    then show ?thesis using True by simp
  next
    case False
    then show ?thesis using Suc.prems by (auto simp: inside_def)
  qed
qed simp

lemma Name_reads:
  assumes "tables_ok t" "inside s"
  shows "reads s (at s) (\<lambda>_. True) (Name t s)"
  unfolding Name_def
  by (rule reads_bind [OF name_loop_reads [OF assms]])
    (auto simp: steps_left_def sees_def split: Take_split)

section \<open>Class sets\<close>

text \<open>What the parser knows of a class set: all its points are in the alphabet of the flags.\<close>

definition cset_in :: "flags \<Rightarrow> cset \<Rightarrow> bool" where
  "cset_in f v \<longleftrightarrow> below (last_point f) (set_ranges v) \<and>
     (\<forall>str \<in> set (set_strings v). \<forall>p \<in> set str. p \<le> last_point f)"

definition cset_ok :: "flags \<Rightarrow> cset \<Rightarrow> bool" where
  "cset_ok f v \<longleftrightarrow> cset_in f v \<and> separated (set_ranges v)"

lemma cset_ok_in: "cset_ok f v \<Longrightarrow> cset_in f v"
  by (simp add: cset_ok_def)

lemma CanonicalRanges_safe:
  "tables_ok t \<Longrightarrow> separated rs \<Longrightarrow> below (last_point f) rs \<Longrightarrow>
   safeR (\<lambda>r. separated r \<and> below (last_point f) r) (CanonicalRanges t f rs)"
  using CanonicalRanges_ok [of t rs f] by auto

lemma Normalize_safe: "below n rs \<Longrightarrow> safeR (\<lambda>r. separated r \<and> below n r) (Normalize rs)"
  by (rule wpR_mono [OF Normalize_wp]) auto

lemma CaseClosure_safe:
  assumes "tables_ok t" "unicode_sets f" "below (last_point f) rs"
  shows "safeR (\<lambda>r. separated r \<and> below (last_point f) r) (CaseClosure t f rs)"
proof (cases "ordered rs")
  case True
  have "Unicode f" using assms by (simp add: Unicode_def)
  then show ?thesis using CaseClosure_ok [OF assms(1), of f rs] assms True by (auto simp: last_point_def)
next
  case False
  then show ?thesis by (simp add: CaseClosure_def Normalize_error)
qed

lemma NormalizeSet_safe:
  assumes "tables_ok t" "cset_in f v"
  shows "safeR (cset_ok f) (NormalizeSet t f v)"
proof -
  define strings where "strings = (if insensitive f then map (map (Canonical t f)) (set_strings v) else set_strings v)"
  have strings: "\<forall>str \<in> set strings. \<forall>p \<in> set str. p \<le> last_point f"
    using assms by (auto simp: strings_def cset_in_def Canonical_bound)
  define singles where "singles = [(hd string, hd string). string \<leftarrow> strings, length string = 1]"
  have "below (last_point f) (set_ranges v @ singles)"
    using assms(2) strings by (auto simp: cset_in_def singles_def below_def length_Suc_conv)
  then have norm: "safeR (\<lambda>r. separated r \<and> below (last_point f) r) (Normalize (set_ranges v @ singles))"
    by (rule Normalize_safe)
  have close: "safeR (\<lambda>r. separated r \<and> below (last_point f) r)
      (if case_ready v then Inr rs else if unicode_sets f then CaseClosure t f rs else CanonicalRanges t f rs)"
    if "separated rs \<and> below (last_point f) rs" for rs
    using that CaseClosure_safe CanonicalRanges_safe assms by simp
  show ?thesis
    unfolding NormalizeSet_def Let_def
    unfolding strings_def [symmetric] unfolding singles_def [symmetric]
  proof (rule wpR_bindI [OF norm], rule wpR_bindI [OF close], assumption)
    fix rs' assume "separated rs' \<and> below (last_point f) rs'"
    then show "safeR (cset_ok f)
      (if 262144 < sum_list (map length (remdups_adj (sort (filter (\<lambda>string. length string \<noteq> 1) strings))))
       then Inl (Fail ''class string point capacity262144 exceeded'')
       else if 262144 < length rs' \<or> 8192 < length (remdups_adj (sort (filter (\<lambda>string. length string \<noteq> 1) strings)))
       then Inl (Fail ''class set capacity exceeded'')
       else Inr (v\<lparr>set_ranges := rs', set_strings := remdups_adj (sort (filter (\<lambda>string. length string \<noteq> 1) strings)),
                  case_ready := True\<rparr>))"
      using strings by (auto simp: cset_ok_def cset_in_def)
  qed
qed

lemma Union_safe:
  assumes "tables_ok t" "cset_in f l" "cset_in f r"
  shows "safeR (cset_ok f) (Union t f l r)"
  unfolding Union_def
  by (rule wpR_bindI [OF NormalizeSet_safe [OF assms(1,2)]], rule wpR_bindI [OF NormalizeSet_safe [OF assms(1,3)]],
      rule NormalizeSet_safe [OF assms(1)]) (auto simp: cset_ok_def cset_in_def)

lemma set_difference_subset: "set (set_difference xs ys) \<subseteq> set xs"
  by (induction xs ys rule: set_difference.induct) auto

lemma set_intersection_subset: "set (set_intersection xs ys) \<subseteq> set xs"
  by (induction xs ys rule: set_intersection.induct) auto

lemma Combine_safe:
  assumes "tables_ok t" "cset_in f l" "cset_in f r"
  shows "safeR (cset_ok f) (Combine t f l r sub)"
  unfolding Combine_def
proof (rule wpR_bindI [OF NormalizeSet_safe [OF assms(1,2)]], rule wpR_bindI [OF NormalizeSet_safe [OF assms(1,3)]])
  fix l r assume "cset_ok f l" "cset_ok f r"
  then show "safeR (cset_ok f) (Inr \<lparr>set_ranges = (if sub then Subtract (set_ranges l) (set_ranges r)
                          else Intersect (set_ranges l) (set_ranges r)),
            set_strings = (if sub then set_difference (set_strings l) (set_strings r)
                           else set_intersection (set_strings l) (set_strings r)),
            may_strings = (if sub then may_strings l else may_strings l \<and> may_strings r),
            case_ready = True\<rparr>)"
    using set_difference_subset [of "set_strings l" "set_strings r"]
      set_intersection_subset [of "set_strings l" "set_strings r"]
    by (auto simp: cset_ok_def cset_in_def Subtract_below Intersect_below Subtract_ok Intersect_separated)
qed

lemma ComplementCanonical_safe:
  assumes "tables_ok t" "separated rs" "below (last_point f) rs"
  shows "safeR (\<lambda>r. separated r \<and> below (last_point f) r) (ComplementCanonical t f rs)"
proof -
  have "safeR (\<lambda>r. separated r \<and> below (last_point f) r) (CanonicalRanges t f [(0, last_point f)])"
    by (rule CanonicalRanges_safe [OF assms(1)]) auto
  then have "safeR (\<lambda>r. separated (Subtract r rs) \<and> below (last_point f) (Subtract r rs))
      (CanonicalRanges t f [(0, last_point f)])"
    by (rule wpR_mono) (use assms in \<open>auto simp: Subtract_below Subtract_ok\<close>)
  then show ?thesis using Complement_ok [OF assms(2,3)] by (simp add: ComplementCanonical_def)
qed

lemma property_set_safe:
  assumes t: "tables_ok t" and p: "p \<in> set (kProperties t)" and f: "Unicode f"
  shows "safeR (cset_ok f) (property_set t p)"
proof -
  have ok: "property_ok t p" using tables_okD(6) [OF t p] .
  let ?rs = "take (range_count p) (drop (first_range p) (kRanges t))"
  let ?ss = "take (string_count p) (drop (first_string p) (kStrings t))"
  have sub: "set ?rs \<subseteq> set (kRanges t)" "set ?ss \<subseteq> set (kStrings t)"
    using set_take_subset set_drop_subset by (meson order_trans)+
  have "last_point f = max_point" using f by (simp add: last_point_def)
  moreover have "fst r \<le> snd r \<and> snd r \<le> max_point" if "r \<in> set ?rs" for r
    using that sub(1) tables_okD(3) [OF t, of "fst r" "snd r"] by auto
  ultimately have rs: "separated ?rs" "below (last_point f) ?rs"
    using ok by (auto simp: separated_def property_ok_def gap_def [abs_def] below_def case_prod_unfold)
  have "list_all (\<lambda>(a, n). a + n \<le> length (kPoints t)) ?ss"
    using sub(2) tables_okD(5) [OF t] by (auto simp: list_all_iff)
  moreover have "p \<le> last_point f" if "p \<in> set (take n (drop a (kPoints t)))" for p a n
    using that tables_okD(4) [OF t, of p] f set_take_subset [of n "drop a (kPoints t)"] set_drop_subset [of a "kPoints t"]
    by (auto simp: last_point_def)
  ultimately show ?thesis
    using rs ok by (auto simp: property_set_def cset_ok_def cset_in_def property_ok_def)
qed

lemma property_value_safe:
  assumes t: "tables_ok t" and f: "Unicode f"
  shows "safeR (cset_ok f) (property_value t negative name f)"
proof -
  obtain q where q: "Find t name = Inr q" "\<And>p. q = Some p \<Longrightarrow> p \<in> set (kProperties t)"
    using Find_safe [OF t, of name] by blast
  have sets: "safeR (cset_ok f) (bindR (NormalizeSet t f (v\<lparr>case_ready := b\<rparr>)) (\<lambda>result.
        if negative then bindR (ComplementCanonical t f (set_ranges result)) (\<lambda>rs. Inr (result\<lparr>set_ranges := rs\<rparr>))
        else Inr result))" if "cset_ok f v" for v b
  proof (rule wpR_bindI [OF NormalizeSet_safe [OF t]])
    show "cset_in f (v\<lparr>case_ready := b\<rparr>)" using that by (simp add: cset_ok_def cset_in_def)
    fix r assume r: "cset_ok f r"
    then have "safeR (\<lambda>rs. separated rs \<and> below (last_point f) rs) (ComplementCanonical t f (set_ranges r))"
      using ComplementCanonical_safe [OF t] by (simp add: cset_ok_def cset_in_def)
    then have "safeR (\<lambda>rs. cset_ok f (r\<lparr>set_ranges := rs\<rparr>)) (ComplementCanonical t f (set_ranges r))"
      by (rule wpR_mono) (use r in \<open>simp add: cset_ok_def cset_in_def\<close>)
    then show "safeR (cset_ok f)
         (if negative then bindR (ComplementCanonical t f (set_ranges r)) (\<lambda>rs. Inr (r\<lparr>set_ranges := rs\<rparr>)) else Inr r)"
      using r by simp
  qed
  have body: "safeR (cset_ok f) (bindR (property_set t p) (\<lambda>result.
             if unicode_sets f
             then bindR (NormalizeSet t f (result\<lparr>case_ready := (name = units ''ASCII'')\<rparr>)) (\<lambda>result.
                  if negative
                  then bindR (ComplementCanonical t f (set_ranges result)) (\<lambda>rs. Inr (result\<lparr>set_ranges := rs\<rparr>))
                  else Inr result)
             else if negative then Inr (result\<lparr>set_ranges := Complement f (set_ranges result)\<rparr>)
             else Inr result))" if "q = Some p" for p
    by (rule wpR_bindI [OF property_set_safe [OF t q(2) [OF that] f]])
      (use sets Complement_ok in \<open>auto simp: cset_ok_def cset_in_def\<close>)
  then show ?thesis using q(1) by (cases q) (auto simp: property_value_def)
qed

lemma Property_reads:
  assumes t: "tables_ok t" and s: "inside s" "Unicode (vm_flags s)"
  shows "reads s (at s + 1) (cset_ok (vm_flags s)) (Property t negative s)"
proof -
  have "at s + 1 + length (takeWhile (\<lambda>u. u \<noteq> ch CHR ''}'') (drop (at s + 1) (source s))) \<le> length (source s)"
    if "looking_at s 0 (ch CHR ''{'')"
    using that by (intro takeWhile_drop_length) (simp add: sees_def)
  then show ?thesis
    unfolding Property_def Let_def
    by (auto simp: advance_def sees_def s intro!: reads_safe [OF property_value_safe [OF t]] split: Take_split)
qed

section \<open>Escapes\<close>

abbreviation escape_ok :: "vm \<Rightarrow> ranges \<Rightarrow> bool" where
  "escape_ok s rs \<equiv> below (last_point (vm_flags s)) rs"

lemma finish_escape_reads:
  "inside s \<Longrightarrow> p \<le> last_point (vm_flags s) \<Longrightarrow> reads s (at s) (escape_ok s) (finish_escape c p s)"
  by (auto simp: finish_escape_def mark_advanced_def inside_def)

lemma small_last_point [simp]: "p \<le> 65535 \<Longrightarrow> p \<le> last_point f"
  by (simp add: last_point_def)

lemma control_escape_reads:
  assumes s: "inside s"
  shows "reads s (at s) (escape_ok s) (control_escape in_class c s)"
proof -
  let ?p = "source s ! at s mod 32" and ?s = "s\<lparr>at := Suc (at s), advanced := True\<rparr>"
  have p: "?p \<le> 65535" by (rule order_trans [of _ 31]) auto
  have letter: "reads s (at s) (escape_ok s) (finish_escape c ?p ?s)" if "at s < length (source s)"
  proof (rule reads_later)
    show "reads ?s (at s) (escape_ok s) (finish_escape c ?p ?s)"
      using reads_weaken [OF finish_escape_reads [of ?s ?p c], of "at s" "escape_ok s"] s that p by (simp add: inside_def)
  qed simp
  have "at s \<le> length (source s)" using s by (simp add: inside_def)
  with letter show ?thesis
    unfolding control_escape_def Let_def scan_simps
    by (auto dest: sees_lt)
qed

lemma fixed_escape_reads:
  assumes "inside s" "n \<le> 4" "c \<le> 65535"
  shows "reads s (at s) (\<lambda>p. p \<le> last_point (vm_flags s)) (fixed_escape n c s)"
proof -
  have "(16::nat) ^ n \<le> 16 ^ 4" by (rule power_increasing) (use assms in auto)
  then have "reads s (at s) (\<lambda>p. p \<le> last_point (vm_flags s)) (Hex n s)"
    by (intro reads_weaken [OF Hex_reads [OF assms(1)]]) (auto simp: last_point_def)
  then show ?thesis using assms by (auto simp: fixed_escape_def mark_advanced_def inside_def)
qed

lemma unicode_escape_reads:
  assumes "inside s" "c \<le> 65535"
  shows "reads s (at s) (escape_ok s) (unicode_escape c s)"
  unfolding unicode_escape_def
proof (rule reads_bind)
  have brace: "reads s (at s) (\<lambda>p. p \<le> last_point (vm_flags s)) (bindR (brace_escape 0 (brace_digits s')) (\<lambda>point.
         case Take (ch CHR ''}'') (advance (length (brace_digits s')) s') of
           (closed, s) \<Rightarrow> if brace_digits s' = [] \<or> \<not> closed \<or> 0x10ffff < point
             then Inl (Fail ''invalid Unicode point escape'') else Inr (point, s)))"
    if "s' = s\<lparr>at := Suc (at s)\<rparr>" "Suc (at s) \<le> length (source s)" "Unicode (vm_flags s)" for s'
  proof (rule reads_safe [OF brace_escape_safe])
    have "Suc (at s) + length (brace_digits s') \<le> length (source s)"
      using brace_digits_length [of s'] that assms by (simp add: inside_def)
    then show "reads s (at s) (\<lambda>p. p \<le> last_point (vm_flags s))
       (case Take (ch CHR ''}'') (advance (length (brace_digits s')) s') of
           (closed, s) \<Rightarrow> if brace_digits s' = [] \<or> \<not> closed \<or> 0x10ffff < point
             then Inl (Fail ''invalid Unicode point escape'') else Inr (point, s))" for point :: nat
      using that by (auto simp: advance_def sees_def last_point_def split: Take_split)
  qed
  show "reads s (at s) (\<lambda>p. p \<le> last_point (vm_flags s)) (if Unicode (vm_flags s) \<and> looking_at s 0 (ch CHR ''{'')
            then (let s = advance 1 s; digits = brace_digits s
                  in bindR (brace_escape 0 digits) (\<lambda>point.
                       case Take (ch CHR ''}'') (advance (length digits) s) of
                         (closed, s) \<Rightarrow>
                           if digits = [] \<or> \<not> closed \<or> 0x10ffff < point
                           then Inl (Fail ''invalid Unicode point escape'')
                           else Inr (point, s)))
            else fixed_escape 4 c s)"
    using brace fixed_escape_reads [OF assms(1) _ assms(2), of 4] by (auto simp: advance_def Let_def sees_def)
next
  fix point a b assume a: "at s \<le> a" "a \<le> length (source s)" and p: "point \<le> last_point (vm_flags s)"
  let ?s = "s\<lparr>at := a, advanced := b\<rparr>"
  have "reads ?s (at s) (\<lambda>p. p \<le> last_point (vm_flags s))
      (if Unicode (vm_flags ?s) then low_escape point ?s else Inr (point, ?s))"
    using a p assms(1) by (auto intro!: reads_weaken [OF low_escape_reads] simp: last_point_def inside_def)
  then show "reads ?s (at s) (escape_ok s) (case (point, ?s) of (point, s) \<Rightarrow>
     bindR (if Unicode (vm_flags s) then low_escape point s else Inr (point, s)) (\<lambda>(point, s). finish_escape c point s))"
    unfolding prod.case
    by (rule reads_bind) (use assms a in \<open>auto intro!: reads_weaken [OF finish_escape_reads] simp: inside_def\<close>)
qed

lemma octal_loop_scan:
  assumes "inside s" "octal_loop n p s = (q, s')" "p < 8 ^ k"
  shows "at s \<le> at s' \<and> at s' \<le> length (source s) \<and> s' = s\<lparr>at := at s'\<rparr> \<and> q < 8 ^ (k + n)"
  using assms
proof (induction n arbitrary: p s k)
  case 0
  then show ?case by (simp add: inside_def)
next
  case (Suc n)
  show ?case
  proof (cases "sees s 0 (\<lambda>u. ch CHR ''0'' \<le> u \<and> u \<le> ch CHR ''7'')")
    case True
    then have "p * 8 + (source s ! at s - ch CHR ''0'') < 8 ^ Suc k"
      using Suc.prems(3) by (auto simp: sees_def)
    from Suc.IH [of "advance 1 s", OF _ _ this] show ?thesis
      using True Suc.prems by (auto simp: advance_def inside_def sees_def)
  next
    case False
    have "(8::nat) ^ k \<le> 8 ^ (k + Suc n)" by (rule power_increasing) auto
    then show ?thesis using False Suc.prems by (auto simp: inside_def)
  qed
qed

lemma decimal_escape_reads:
  assumes s: "inside s" and c: "is_digit c"
  shows "reads s (at s) (escape_ok s) (decimal_escape c s)"
proof -
  let ?s = "s\<lparr>advanced := True\<rparr>"
  have fin: "reads s (at s) (escape_ok s) (finish_escape c p (s\<lparr>at := a, advanced := True\<rparr>))"
    if "at s \<le> a" "a \<le> length (source s)" "p \<le> 65535" for a p
    by (rule reads_later [where a = a and b = True])
      (use reads_weaken [OF finish_escape_reads [of "s\<lparr>at := a, advanced := True\<rparr>" p c], of "at s" "escape_ok s"] s that in \<open>simp_all add: inside_def\<close>)
  have octal: "reads s (at s) (escape_ok s) (finish_escape c q s')"
    if loop: "octal_loop n (c - ch CHR ''0'') ?s = (q, s')" and n: "n \<le> 2" and "c \<le> ch CHR ''7''" for n q s'
  proof -
    have "c - ch CHR ''0'' < 8 ^ 1" using that(3) by simp
    from octal_loop_scan [OF _ loop this] s
    have s': "at s \<le> at s'" "at s' \<le> length (source s)" "s' = ?s\<lparr>at := at s'\<rparr>" "q < 8 ^ (1 + n)"
      by (auto simp: inside_def)
    have "(8::nat) ^ (1 + n) \<le> 8 ^ 3" by (rule power_increasing) (use n in auto)
    with s'(4) have "q \<le> 65535" by simp
    from fin [OF s'(1,2) this] s'(3) show ?thesis by simp
  qed
  have "at s \<le> length (source s)" "c \<le> 65535" using s c by (simp_all add: inside_def is_digit_def)
  with fin [of "at s"] octal [of 2] octal [of 1] show ?thesis
    unfolding decimal_escape_def Let_def mark_advanced_def
    by (auto split: prod.splits)
qed

lemma escape_class_ok: "separated (escape_class f c) \<and> below (last_point f) (escape_class f c)" if "\<not> Unicode f \<or> \<not> insensitive f"
  using that by (auto simp: escape_class_def last_point_def separated_def gap_def)

lemma escape_class_below: "below (last_point f) (escape_class f c)"
  by (auto simp: escape_class_def last_point_def)

lemma escape_from_reads:
  assumes t: "tables_ok t" and s: "inside s" and c: "c \<le> 65535"
  shows "reads s (at s) (escape_ok s) (escape_from t in_class c s)"
proof -
  let ?f = "vm_flags s" and ?s = "s\<lparr>advanced := True\<rparr>"
  have len: "at s \<le> length (source s)" using s by (rule insideD)
  have fin: "reads s (at s) (escape_ok s) (finish_escape c p s)" if "p \<le> 65535" for p
    using finish_escape_reads [OF s, of p c] that by simp
  have mark: "reads s (at s) (escape_ok s) (finish_escape c c ?s)"
    by (rule reads_later_advanced [where s = s and b = True]) (use finish_escape_reads [of ?s c c] s c in simp)
  have fixed: "reads s (at s) (escape_ok s) (bindR (fixed_escape 2 c s) (\<lambda>(point, s). finish_escape c point s))"
  proof (rule reads_bind [OF fixed_escape_reads [OF s]])
    fix x a b assume "at s \<le> a" "a \<le> length (source s)" "x \<le> last_point ?f"
    then show "reads (s\<lparr>at := a, advanced := b\<rparr>) (at s) (escape_ok s)
        (case (x, s\<lparr>at := a, advanced := b\<rparr>) of (point, s) \<Rightarrow> finish_escape c point s)"
      using reads_weaken [OF finish_escape_reads [of "s\<lparr>at := a, advanced := b\<rparr>" x c], of "at s" "escape_ok s"] s
      by (simp add: inside_def)
  qed (use c in auto)
  have norm: "reads s (at s) (escape_ok s) (bindR (Normalize (escape_class ?f c)) (\<lambda>rs. Inr (Complement ?f rs, s)))"
    by (rule reads_safe [OF Normalize_safe [OF escape_class_below]]) (use len Complement_ok in auto)
  have property: "reads s (at s) (escape_ok s) (bindR (Property t neg ?s) (\<lambda>(set, s).
                 if set_strings set \<noteq> [] then Inl (Fail ''string property requires a Unicode-sets atom'')
                 else Inr (set_ranges set, s)))" if "Unicode ?f" for neg
  proof (rule reads_later_advanced [where s = s and b = True], rule reads_bind [OF Property_reads [OF t]])
    show "inside ?s" "Unicode (vm_flags ?s)" using s that by simp_all
  qed (auto simp: cset_ok_def cset_in_def)
  have plain: "reads s (at s) (escape_ok s) (Inr (escape_class ?f c, s))"
    using len escape_class_below by simp
  show ?thesis
    unfolding escape_from_def Let_def mark_advanced_def
    by (intro reads_if norm plain fin mark fixed property control_escape_reads unicode_escape_reads decimal_escape_reads s c)
      simp_all
qed

lemma Escape_reads:
  assumes t: "tables_ok t" and s: "inside s"
  shows "reads s (at s + 1) (escape_ok s) (Escape t in_class s)"
proof (cases "at s < length (source s)")
  case False
  then show ?thesis using s by (simp add: Escape_def at_end_def inside_def)
next
  case True
  have "reads s (at s + 1) (escape_ok s) (escape_from t in_class (source s ! at s) (s\<lparr>at := Suc (at s)\<rparr>))"
    by (rule reads_later_at [where a = "Suc (at s)"])
      (use escape_from_reads [OF t, of "s\<lparr>at := Suc (at s)\<rparr>" "source s ! at s" in_class] unit_bound [of s "at s"] s True in \<open>simp_all add: inside_def\<close>)
  then show ?thesis using True by (simp add: Escape_def at_end_def advance_def)
qed

section \<open>Classes\<close>

lemma single_hd: "single rs \<Longrightarrow> rs = [(fst (hd rs), fst (hd rs))]"
  by (cases rs rule: list.exhaust; cases "tl rs") (auto simp: single_def)

lemma single_bound: "single rs \<Longrightarrow> below n rs \<Longrightarrow> fst (hd rs) \<le> n"
  by (subst (asm) (2) single_hd) auto

lemma class_string_loop_reads:
  assumes t: "tables_ok t" and "inside s" "length (source s) - at s < n"
    and "\<forall>str \<in> set strings. \<forall>p \<in> set str. p \<le> last_point (vm_flags s)" "\<forall>p \<in> set string. p \<le> last_point (vm_flags s)"
  shows "reads s (at s) (\<lambda>r. \<forall>str \<in> set r. \<forall>p \<in> set str. p \<le> last_point (vm_flags s)) (class_string_loop n t strings string s)"
  using assms(2-)
proof (induction n arbitrary: strings string s)
  case (Suc n)
  let ?P = "\<lambda>s r. \<forall>str \<in> set r. \<forall>p \<in> set str. p \<le> last_point (vm_flags s)"
  have len: "at s \<le> length (source s)" using Suc.prems(1) by (rule insideD)
  have rest: "reads (s\<lparr>at := a, advanced := b\<rparr>) (at s) (?P s) (class_string_loop n t strings' string' (s\<lparr>at := a, advanced := b\<rparr>))"
    if "at s < a" "a \<le> length (source s)" "?P s strings'" "\<forall>p \<in> set string'. p \<le> last_point (vm_flags s)"
    for a b strings' string'
    using reads_weaken [OF Suc.IH [of "s\<lparr>at := a, advanced := b\<rparr>" strings' string'], of "at s" "?P s"] that Suc.prems
    by (simp add: inside_def)
  have bar: "reads s (at s) (?P s) (class_string_loop n t (strings @ [string]) [] (s\<lparr>at := Suc (at s)\<rparr>))"
    if "at s < length (source s)"
    by (rule reads_later [where a = "Suc (at s)" and b = "advanced s"])
      (use rest [of "Suc (at s)" "strings @ [string]" "[]" "advanced s"] that Suc.prems in simp_all)
  have escape: "reads s (at s) (?P s) (bindR (Escape t True (s\<lparr>at := Suc (at s)\<rparr>)) (\<lambda>(rs, s).
                if \<not> single rs then Inl (Fail ''class string requires character escapes'')
                else class_string_loop n t strings (string @ [fst (hd rs)]) s))"
    if "at s < length (source s)"
  proof (rule reads_later_at [where a = "Suc (at s)"], rule reads_bind [OF Escape_reads [OF t]])
    fix rs a b assume "escape_ok (s\<lparr>at := Suc (at s)\<rparr>) rs" "at (s\<lparr>at := Suc (at s)\<rparr>) \<le> a"
      "a \<le> length (source (s\<lparr>at := Suc (at s)\<rparr>))"
    moreover from this have "fst (hd rs) \<le> last_point (vm_flags s)" if "single rs"
      using single_bound [OF that] by simp
    ultimately show "reads (s\<lparr>at := Suc (at s), at := a, advanced := b\<rparr>) (at s) (?P s)
       (case (rs, s\<lparr>at := Suc (at s), at := a, advanced := b\<rparr>) of (rs, s) \<Rightarrow>
          if \<not> single rs then Inl (Fail ''class string requires character escapes'')
          else class_string_loop n t strings (string @ [fst (hd rs)]) s)"
      using rest [of a strings "string @ [fst (hd rs)]" b] Suc.prems by auto
  qed (use that Suc.prems(1) in \<open>simp_all add: inside_def\<close>)
  have point: "reads s (at s) (?P s) (bindR (Point s) (\<lambda>(point, s). class_string_loop n t strings (string @ [point]) s))"
    if "at s < length (source s)"
    by (rule reads_bind [OF Point_reads [OF Suc.prems(1) that]]) (use rest Suc.prems in auto)
  show ?case
    using bar escape point Suc.prems len
    by (auto simp: at_end_def sees_def split: Take_split)
qed simp

lemma ClassString_reads:
  assumes t: "tables_ok t" and s: "inside s"
  shows "reads s (at s) (cset_ok (vm_flags s)) (ClassString t s)"
proof -
  let ?s = "s\<lparr>at := Suc (at s)\<rparr>"
  have "reads ?s (at s) (cset_ok (vm_flags s))
     (bindR (class_string_loop (steps_left ?s) t [] [] ?s) (\<lambda>(strings, s).
          bindR (NormalizeSet t (vm_flags s) \<lparr>set_ranges = [], set_strings = strings,
                   may_strings = (\<exists>v \<in> set strings. length v \<noteq> 1), case_ready = True\<rparr>) (\<lambda>result.
          Inr (result, s))))" if "at s < length (source s)"
    by (rule reads_bind [OF class_string_loop_reads [OF t]])
      (use that s in \<open>auto simp: inside_def steps_left_def cset_in_def intro!: reads_safe [OF NormalizeSet_safe [OF t]]\<close>)
  then show ?thesis
    by (auto simp: ClassString_def sees_def intro!: reads_later_at [where a = "Suc (at s)" and s = s] split: Take_split)
qed

text \<open>The contract of the parser of nested classes, at every later position of the pattern.\<close>

definition nested_reads :: "vm \<Rightarrow> cset parse \<Rightarrow> bool" where
  "nested_reads s nested \<longleftrightarrow>
     (\<forall>a b. a \<le> length (source s) \<longrightarrow>
        reads (s\<lparr>at := a, advanced := b\<rparr>) a (cset_ok (vm_flags s)) (nested (s\<lparr>at := a, advanced := b\<rparr>)))"

lemma nested_reads_update [simp]: "nested_reads (s\<lparr>at := a, advanced := b\<rparr>) nested = nested_reads s nested"
  "nested_reads (s\<lparr>at := a\<rparr>) nested = nested_reads s nested"
  by (auto simp: nested_reads_def)

lemma nested_readsD:
  assumes "nested_reads s nested" "a \<le> length (source s)" "l \<le> a"
  shows "reads (s\<lparr>at := a\<rparr>) l (cset_ok (vm_flags s)) (nested (s\<lparr>at := a\<rparr>))"
proof -
  have "reads (s\<lparr>at := a, advanced := advanced s\<rparr>) a (cset_ok (vm_flags s)) (nested (s\<lparr>at := a, advanced := advanced s\<rparr>))"
    using assms(1,2) unfolding nested_reads_def by blast
  then show ?thesis by (intro reads_weaken [OF _ assms(3)]) simp_all
qed

lemma reads_map:
  "reads s l P m \<Longrightarrow> (\<And>x. P x \<Longrightarrow> Q (g x)) \<Longrightarrow> reads s l Q (bindR m (\<lambda>(x, s). Inr (g x, s)))"
  by (erule reads_bind) auto

lemma reads_pass:
  assumes "reads (s\<lparr>at := a\<rparr>) l Q m" "at s \<le> a" "\<And>x. Q x \<Longrightarrow> P (g x)"
  shows "reads s l P (bindR m (\<lambda>(x, s). Inr (g x, s)))"
  by (rule reads_later_at [OF reads_map [OF assms(1)] assms(2)]) (rule assms(3))

lemma UnicodeOperand_reads:
  assumes t: "tables_ok t" and s: "inside s" and f: "Unicode (vm_flags s)" and nested: "nested_reads s nested"
  shows "reads s (at s + 1) (\<lambda>(v, _). cset_in (vm_flags s) v) (UnicodeOperand nested t s)"
proof (cases "at s < length (source s)")
  case False
  then show ?thesis using s by (simp add: UnicodeOperand_def at_end_def inside_def)
next
  case lt: True
  let ?P = "\<lambda>(v :: cset, _ :: bool). cset_in (vm_flags s) v"
  note pass = reads_pass [where s = s and P = ?P and l = "at s + 1"]
  have n: "reads s (at s + 1) ?P (bindR (nested (s\<lparr>at := Suc (at s)\<rparr>)) (\<lambda>(set, s). Inr ((set, False), s)))"
    using nested_readsD [OF nested, of "Suc (at s)" "at s + 1"] lt by (intro pass [where Q = "cset_ok (vm_flags s)"]) (auto simp: cset_ok_in)
  have q: "reads s (at s + 1) ?P (bindR (ClassString t (s\<lparr>at := Suc (Suc (at s))\<rparr>)) (\<lambda>(set, s). Inr ((set, False), s)))"
    if "Suc (at s) < length (source s)"
    using reads_weaken [OF ClassString_reads [OF t, of "s\<lparr>at := Suc (Suc (at s))\<rparr>"], of "at s + 1" "cset_ok (vm_flags s)"] s that
    by (intro pass [where Q = "cset_ok (vm_flags s)"]) (auto simp: cset_ok_in inside_def)
  have pr: "reads s (at s + 1) ?P (bindR (Property t neg (s\<lparr>at := Suc (Suc (at s))\<rparr>)) (\<lambda>(set, s). Inr ((set, False), s)))"
    if "Suc (at s) < length (source s)" for neg
    using reads_weaken [OF Property_reads [OF t, of "s\<lparr>at := Suc (Suc (at s))\<rparr>"], of "at s + 1" "cset_ok (vm_flags s)"] s that f
    by (intro pass [where Q = "cset_ok (vm_flags s)"]) (auto simp: cset_ok_in inside_def)
  have e: "reads s (at s + 1) ?P (bindR (Escape t True (s\<lparr>at := Suc (at s)\<rparr>)) (\<lambda>(rs, s).
                  Inr ((empty_set\<lparr>set_ranges := rs\<rparr>, h), s)))" for h
    using reads_weaken [OF Escape_reads [OF t, of "s\<lparr>at := Suc (at s)\<rparr>"], of "at s + 1" "escape_ok s"] s lt
    by (intro pass [where Q = "escape_ok s"]) (auto simp: inside_def cset_in_def empty_set_def)
  have pt: "reads s (at s + 1) ?P (bindR (Point s) (\<lambda>(p, s). Inr ((empty_set\<lparr>set_ranges := [(p, p)]\<rparr>, True), s)))"
    using reads_map [OF Point_reads [OF s lt], of ?P "\<lambda>p. (empty_set\<lparr>set_ranges := [(p, p)]\<rparr>, True)"]
    by (simp add: cset_in_def empty_set_def)
  show ?thesis
    unfolding UnicodeOperand_def at_end_def advance_def
    using n q pr e pt lt by (auto simp: sees_def split: Take_split)
qed

lemma class_operator_reads:
  "inside s \<Longrightarrow> reads s (at s) (\<lambda>cs'. cs_result cs' = cs_result cs) (class_operator cs s)"
  by (auto simp: class_operator_def Let_def scan_simps sees_def inside_def)

lemma range_item_safe:
  assumes "tables_ok t" "cset_in f upper"
  shows "safeR (\<lambda>(cs', v). cs_result cs' = cs_result cs \<and> cset_in f v) (range_item t f cs item isingle upper lsingle)"
proof -
  have "safeR (\<lambda>v. cset_in f v) (NormalizeSet t f (empty_set\<lparr>set_ranges := [(i, fst (hd (set_ranges upper)))]\<rparr>))"
    if "single (set_ranges upper)" for i
    by (rule wpR_mono [OF NormalizeSet_safe [OF assms(1)]])
      (use assms(2) that single_bound in \<open>auto simp: cset_ok_def cset_in_def empty_set_def\<close>)
  then show ?thesis by (auto simp: range_item_def Let_def)
qed

lemma class_range_reads:
  assumes t: "tables_ok t" and s: "inside s" and f: "Unicode (vm_flags s)" and nested: "nested_reads s nested"
    and item: "cset_in (vm_flags s) item"
  shows "reads s (at s) (\<lambda>(cs', v). cs_result cs' = cs_result cs \<and> cset_in (vm_flags s) v)
           (class_range nested t cs item isingle s)"
proof -
  let ?P = "\<lambda>(cs', v). cs_result cs' = cs_result cs \<and> cset_in (vm_flags s) v" and ?s = "s\<lparr>at := Suc (at s)\<rparr>"
  have "reads s (at s) ?P (bindR (UnicodeOperand nested t ?s) (\<lambda>((upper, lsingle), s).
                bindR (range_item t (vm_flags s) cs item isingle upper lsingle) (\<lambda>merged. Inr (merged, s))))"
    if "at s < length (source s)"
  proof (rule reads_later_at [where a = "Suc (at s)"], rule reads_bind [OF UnicodeOperand_reads [OF t]])
    show "inside ?s" "Unicode (vm_flags ?s)" "nested_reads ?s nested" using that s f nested by (simp_all add: inside_def)
  qed (auto intro!: reads_safe [OF range_item_safe [OF t]])
  then show ?thesis
    unfolding class_range_def advance_def using item insideD [OF s] by (auto simp: sees_def)
qed

lemma class_merge_safe:
  assumes "tables_ok t" "cset_ok f (cs_result cs)" "cset_in f item"
  shows "safeR (\<lambda>cs'. cset_ok f (cs_result cs')) (class_merge t f cs item)"
  using NormalizeSet_safe [OF assms(1,3)] Combine_safe [OF assms(1) cset_ok_in [OF assms(2)] assms(3)]
    Union_safe [OF assms(1) cset_ok_in [OF assms(2)] assms(3)]
  by (auto simp: class_merge_def split: option.splits)

lemma unicode_class_loop_reads:
  assumes t: "tables_ok t" and "inside s" "Unicode (vm_flags s)" "nested_reads s nested"
    and "length (source s) - at s < n" "cset_ok (vm_flags s) (cs_result cs)"
  shows "reads s (at s) (\<lambda>cs'. cset_ok (vm_flags s) (cs_result cs')) (unicode_class_loop n nested t cs s)"
  using assms(2-)
proof (induction n arbitrary: cs s)
  case (Suc n)
  let ?P = "\<lambda>cs'. cset_ok (vm_flags s) (cs_result cs')" and ?at = "\<lambda>a b. s\<lparr>at := a, advanced := b\<rparr>"
  have rest: "reads (?at a b) (at s) ?P (unicode_class_loop n nested t cs' (?at a b))"
    if "at s < a" "a \<le> length (source s)" "?P cs'" for a b cs'
    using reads_weaken [OF Suc.IH [of "?at a b" cs'], of "at s" ?P] that Suc.prems by (simp add: inside_def)
  have merge: "reads (?at a b) (at s) ?P (bindR (class_merge t (vm_flags s) cs' item) (\<lambda>cs. unicode_class_loop n nested t cs (?at a b)))"
    if "at s < a" "a \<le> length (source s)" "?P cs'" "cset_in (vm_flags s) item" for a b cs' item
    by (rule reads_safe [OF class_merge_safe [OF t that(3,4)]]) (rule rest [OF that(1,2)])
  have ranged: "reads (?at a b) (at s) ?P (bindR (class_range nested t cs' item isingle (?at a b)) (\<lambda>((cs, item), s).
           bindR (class_merge t (vm_flags s) cs item) (\<lambda>cs. unicode_class_loop n nested t cs s)))"
    if a: "at s < a" "a \<le> length (source s)" and cs: "?P cs'" and item: "cset_in (vm_flags s) item" for a b cs' item isingle
  proof (rule reads_bind [OF class_range_reads [OF t]])
    show "inside (?at a b)" "Unicode (vm_flags (?at a b))" "nested_reads (?at a b) nested" "cset_in (vm_flags (?at a b)) item"
      using Suc.prems a item by (simp_all add: inside_def)
  qed (use merge a cs in auto)
  have operand: "reads (?at a b) (at s) ?P (bindR (UnicodeOperand nested t (?at a b)) (\<lambda>((item, isingle), s).
           bindR (class_range nested t cs' item isingle s) (\<lambda>((cs, item), s).
           bindR (class_merge t (vm_flags s) cs item) (\<lambda>cs. unicode_class_loop n nested t cs s))))"
    if a: "at s \<le> a" "a \<le> length (source s)" and cs: "?P cs'" for a b cs'
  proof (rule reads_bind [OF UnicodeOperand_reads [OF t]])
    show "inside (?at a b)" "Unicode (vm_flags (?at a b))" "nested_reads (?at a b) nested"
      using Suc.prems a by (simp_all add: inside_def)
  qed (use ranged a cs in auto)
  have "reads s (at s) ?P (bindR (class_operator cs s) (\<lambda>(cs, s).
           bindR (UnicodeOperand nested t s) (\<lambda>((item, isingle), s).
           bindR (class_range nested t cs item isingle s) (\<lambda>((cs, item), s).
           bindR (class_merge t (vm_flags s) cs item) (\<lambda>cs. unicode_class_loop n nested t cs s)))))"
    by (rule reads_bind [OF class_operator_reads [OF Suc.prems(1)]])
      (use operand Suc.prems(5) in auto)
  then show ?case using Suc.prems insideD [OF Suc.prems(1)] by simp
qed simp

text \<open>Inside a class the depth is one more; closing the class restores it.\<close>

lemma commute_class_depth [simp]:
  "s\<lparr>class_depth := d, at := a\<rparr> = s\<lparr>at := a, class_depth := d\<rparr>"
  "s\<lparr>class_depth := d, advanced := b\<rparr> = s\<lparr>advanced := b, class_depth := d\<rparr>"
  by simp_all

lemma reads_depth_bind:
  assumes "reads (s\<lparr>at := a0, advanced := b0, class_depth := d\<rparr>) l P m" "at s \<le> a0"
    and "\<And>x a b. a0 \<le> a \<Longrightarrow> l \<le> a \<Longrightarrow> a \<le> length (source s) \<Longrightarrow> P x \<Longrightarrow>
           reads s l' Q (f (x, s\<lparr>at := a, advanced := b, class_depth := d\<rparr>))"
  shows "reads s l' Q (bindR m f)"
proof (cases m)
  case (Inl e)
  then show ?thesis using assms(1) by simp
next
  case (Inr y)
  obtain x s' where y: "y = (x, s')" by (cases y)
  from assms(1) Inr y have "a0 \<le> at s'" "l \<le> at s'" "at s' \<le> length (source s)" "P x"
    and eq: "s' = s\<lparr>at := at s', advanced := advanced s', class_depth := d\<rparr>" by (simp_all add: reads_def)
  from assms(3) [OF this(1-4), of "advanced s'"] eq Inr y show ?thesis by simp
qed

lemma class_close_reads:
  assumes t: "tables_ok t" and a: "at s \<le> a" "a \<le> length (source s)" and v: "cset_ok (vm_flags s) v"
  shows "reads s (at s) (cset_ok (vm_flags s))
    (class_close t negative v (s\<lparr>at := a, advanced := b, class_depth := Suc (class_depth s)\<rparr>))"
proof -
  have "safeR (\<lambda>r. separated r \<and> below (last_point (vm_flags s)) r) (ComplementCanonical t (vm_flags s) (set_ranges v))"
    by (rule ComplementCanonical_safe [OF t]) (use v in \<open>simp_all add: cset_ok_def cset_in_def\<close>)
  then show ?thesis
    using a v by (auto simp: class_close_def Let_def sees_def cset_ok_def cset_in_def elim!: reads_safe split: Take_split)
qed

lemma UnicodeClass_reads:
  assumes t: "tables_ok t" and "inside s" "Unicode (vm_flags s)" "class_depth s \<le> 64" "65 \<le> n + class_depth s"
  shows "reads s (at s) (cset_ok (vm_flags s)) (UnicodeClass n t s)"
  using assms(2-)
proof (induction n arbitrary: s)
  case (Suc n)
  let ?f = "vm_flags s" and ?at = "\<lambda>a b. s\<lparr>at := a, advanced := b, class_depth := Suc (class_depth s)\<rparr>"
  let ?cs = "\<lparr>cs_result = empty_set, cs_have = False, cs_union_only = False, cs_range_operand = False, cs_operation = None\<rparr>"
  show ?case
  proof (cases "64 \<le> class_depth s")
    case False
    have nested: "nested_reads (?at a b) (UnicodeClass n t)" for a b
      unfolding nested_reads_def
    proof (intro allI impI)
      fix a' b' assume "a' \<le> length (source (?at a b))"
      then have "reads (?at a' b') a' (cset_ok ?f) (UnicodeClass n t (?at a' b'))"
        using Suc.IH [of "?at a' b'"] Suc.prems False by (simp add: inside_def units_ok_def)
      then show "reads (?at a b\<lparr>at := a', advanced := b'\<rparr>) a' (cset_ok (vm_flags (?at a b)))
          (UnicodeClass n t (?at a b\<lparr>at := a', advanced := b'\<rparr>))" by simp
    qed
    have body: "reads s (at s) (cset_ok ?f) (bindR (unicode_class_loop (steps_left (?at a b)) (UnicodeClass n t) t ?cs (?at a b))
            (\<lambda>(cs, s). class_close t negative (cs_result cs) s))"
      if a: "at s \<le> a" "a \<le> length (source s)" for a b negative
    proof (rule reads_depth_bind [OF unicode_class_loop_reads [OF t _ _ nested]])
      show "inside (?at a b)" "Unicode (vm_flags (?at a b))"
        "length (source (?at a b)) - at (?at a b) < steps_left (?at a b)" "cset_ok (vm_flags (?at a b)) (cs_result ?cs)"
        using a Suc.prems by (simp_all add: inside_def units_ok_def steps_left_def cset_ok_def cset_in_def empty_set_def)
    qed (use a class_close_reads [OF t] in auto)
    have "at s \<le> length (source s)" using Suc.prems(1) by (rule insideD)
    then show ?thesis
      using False body [of "at s" True] body [of "Suc (at s)" True]
      by (auto simp: Let_def mark_advanced_def sees_def split: Take_split)
  next
    case True
    then show ?thesis by (simp add: Let_def mark_advanced_def)
  qed
qed simp

lemma ClassItem_reads:
  assumes t: "tables_ok t" and s: "inside s"
  shows "reads s (at s + 1) (escape_ok s) (ClassItem t s)"
proof (cases "at s < length (source s)")
  case True
  have "reads s (at s + 1) (escape_ok s) (Escape t True (s\<lparr>at := Suc (at s)\<rparr>))"
    by (rule reads_later_at [where a = "Suc (at s)"], rule reads_weaken [OF Escape_reads [OF t]])
      (use s True in \<open>simp_all add: inside_def\<close>)
  moreover have "reads s (at s + 1) (escape_ok s) (bindR (Point s) (\<lambda>(point, s). Inr ([(point, point)], s)))"
    by (rule reads_map [OF Point_reads [OF s True]]) simp
  ultimately show ?thesis by (auto simp: ClassItem_def at_end_def split: Take_split)
next
  case False
  then show ?thesis using s by (simp add: ClassItem_def at_end_def inside_def)
qed

lemma class_pair_safe:
  "below n item \<Longrightarrow> below n upper \<Longrightarrow> 65535 \<le> n \<Longrightarrow> safeR (\<lambda>(added, _). below n added) (class_pair f item upper)"
  using single_bound [of upper n] by (auto simp: class_pair_def)

lemma class_loop_reads:
  assumes t: "tables_ok t" and "inside s" "length (source s) - at s < n" "escape_ok s rs"
  shows "reads s (at s) (escape_ok s) (class_loop n t rs s)"
  using assms(2-)
proof (induction n arbitrary: rs s)
  case (Suc n)
  let ?at = "\<lambda>a b. s\<lparr>at := a, advanced := b\<rparr>"
  have rest: "reads (?at a b) (at s) (escape_ok s) (class_loop n t rs' (?at a b'))"
    if "at s < a" "a \<le> length (source s)" "escape_ok s rs'" for a b b' rs'
  proof (rule reads_later_advanced [where b = b'])
    show "reads ((?at a b)\<lparr>advanced := b'\<rparr>) (at s) (escape_ok s) (class_loop n t rs' (?at a b'))"
      using reads_weaken [OF Suc.IH [of "?at a b'" rs'], of "at s" "escape_ok s"] that Suc.prems by (simp add: inside_def)
  qed
  have pair: "reads (?at a b) (at s) (escape_ok s) (bindR (ClassItem t (?at (Suc a) b)) (\<lambda>(upper, s).
                bindR (class_pair (vm_flags s) item upper) (\<lambda>(added, mark).
                class_loop n t (rs @ added) (if mark then mark_advanced s else s))))"
    if a: "at s < a" "Suc a \<le> length (source s)" and item: "escape_ok s item" for a b item
  proof (rule reads_later_at [where a = "Suc a"])
    have "reads (?at (Suc a) b) (at s) (escape_ok s) (bindR (ClassItem t (?at (Suc a) b)) (\<lambda>(upper, s).
                bindR (class_pair (vm_flags s) item upper) (\<lambda>(added, mark).
                class_loop n t (rs @ added) (if mark then mark_advanced s else s))))"
      by (rule reads_bind [OF ClassItem_reads [OF t]])
        (use a item Suc.prems rest in
          \<open>auto simp: inside_def mark_advanced_def last_point_def intro!: reads_safe [OF class_pair_safe]\<close>)
    then show "reads ((?at a b)\<lparr>at := Suc a\<rparr>) (at s) (escape_ok s) (bindR (ClassItem t (?at (Suc a) b)) (\<lambda>(upper, s).
                bindR (class_pair (vm_flags s) item upper) (\<lambda>(added, mark).
                class_loop n t (rs @ added) (if mark then mark_advanced s else s))))" by simp
  qed simp
  have "reads s (at s) (escape_ok s) (bindR (ClassItem t s) (\<lambda>(item, s).
           if looking_at s 0 (ch CHR ''-'') \<and> sees s 1 (\<lambda>u. u \<noteq> ch CHR '']'')
           then bindR (ClassItem t (advance 1 s)) (\<lambda>(upper, s).
                bindR (class_pair (vm_flags s) item upper) (\<lambda>(added, mark).
                class_loop n t (rs @ added) (if mark then mark_advanced s else s)))
           else class_loop n t (rs @ item) s))"
    by (rule reads_bind [OF ClassItem_reads [OF t Suc.prems(1)]])
      (use pair rest Suc.prems(3) in \<open>auto simp: advance_def sees_def\<close>)
  then show ?case using Suc.prems(3) insideD [OF Suc.prems(1)] by simp
qed simp

section \<open>Quantifiers\<close>

definition bounds_ok :: "(nat \<times> nat) option \<Rightarrow> bool" where
  "bounds_ok q \<longleftrightarrow> (case q of None \<Rightarrow> True | Some (low, high) \<Rightarrow> low \<le> high \<and> high \<le> infinity)"

lemma upper_bound_reads:
  "inside s \<Longrightarrow> low \<le> infinity \<Longrightarrow> reads s (at s) (\<lambda>h. \<forall>n. h = Some n \<longrightarrow> n \<le> infinity) (upper_bound low comma s)"
  using insideD [of s] by (auto simp: upper_bound_def intro!: reads_map [where P = "\<lambda>n. n \<le> infinity"] reads_weaken [OF Number_reads])

lemma quantifier_end_reads:
  "inside s \<Longrightarrow> high \<le> infinity \<Longrightarrow> reads s (at s) bounds_ok (quantifier_end low high s)"
  by (auto simp: quantifier_end_def bounds_ok_def mark_advanced_def inside_def sees_def split: Take_split)

lemma braced_quantifier_reads:
  assumes s: "inside s"
  shows "reads s (at s) bounds_ok (braced_quantifier s)"
  unfolding braced_quantifier_def
proof (rule reads_bind [OF Number_reads [OF s]], unfold prod.case)
  fix low a b assume a: "at s + 1 \<le> a" "a \<le> length (source s)" and low: "low \<le> infinity"
  let ?k = "\<lambda>(high, s). case high of None \<Rightarrow> Inr (None, s) | Some high \<Rightarrow> quantifier_end low high s"
  have upper: "reads (s\<lparr>at := a, advanced := b\<rparr>) (at s) bounds_ok
      (bindR (upper_bound low comma (s\<lparr>at := a', advanced := b\<rparr>)) ?k)"
    if "a \<le> a'" "a' \<le> length (source s)" for a' comma
  proof (rule reads_later_at [where a = a'], simp, rule reads_bind [OF upper_bound_reads [OF _ low]])
    show "inside (s\<lparr>at := a', advanced := b\<rparr>)" using s that by (simp add: inside_def)
    fix high c d assume "at (s\<lparr>at := a', advanced := b\<rparr>) \<le> c" "c \<le> length (source (s\<lparr>at := a', advanced := b\<rparr>))"
      "\<forall>n. high = Some n \<longrightarrow> n \<le> infinity"
    then show "reads (s\<lparr>at := a', advanced := b, at := c, advanced := d\<rparr>) (at s) bounds_ok
        (?k (high, s\<lparr>at := a', advanced := b, at := c, advanced := d\<rparr>))"
      using a s that by (auto simp: bounds_ok_def inside_def intro!: reads_weaken [OF quantifier_end_reads] split: option.splits)
  qed (use that in simp)
  show "reads (s\<lparr>at := a, advanced := b\<rparr>) (at s) bounds_ok
      (case Take (ch CHR '','') (s\<lparr>at := a, advanced := b\<rparr>) of (comma, s) \<Rightarrow> bindR (upper_bound low comma s) ?k)"
    using upper [of a] upper [of "Suc a"] a by (auto simp: sees_def split: Take_split)
qed

lemma Quantifier_reads:
  assumes s: "inside s"
  shows "reads s (at s) bounds_ok (Quantifier s)"
proof -
  have "reads s (at s) bounds_ok (bindR (braced_quantifier (s\<lparr>at := Suc (at s)\<rparr>)) (\<lambda>(bounds, s').
            Inr (case bounds of None \<Rightarrow> (None, s) | Some b \<Rightarrow> (Some b, s'))))" if "at s < length (source s)"
    using braced_quantifier_reads [of "s\<lparr>at := Suc (at s)\<rparr>"] s that
    unfolding reads_def by (auto simp: inside_def bounds_ok_def elim!: wpR_mono split: option.splits)
  then show ?thesis
    using insideD [OF s] by (auto simp: Quantifier_def bounds_ok_def infinity_def u64_max_def sees_def split: Take_split)
qed

end
