(* ===== verification/GrepTree.thy ===== *)
theory GrepTree
  imports GrepScan
begin

text \<open>
  Safety, progress and well-formedness of the tree-building half of the parser of
  \<open>native/runner/grep_vm.h\<close>. The invariant \<open>tree_ok\<close> of the arena: children precede their parents,
  the kinds that have one child have one, class ranges are sorted, separated and inside the alphabet,
  and every capture, reference and loop number is within its counter. The contract \<open>builds\<close> is that of
  \<open>reads\<close> with the arena growing and keeping the invariant. The locale \<open>group_parser\<close> states what the
  parsers of groups and alternatives rely on when they recurse.
\<close>

section \<open>The arena invariant\<close>

definition node_ok :: "nat \<Rightarrow> nat \<Rightarrow> nat \<Rightarrow> bool \<Rightarrow> nat \<Rightarrow> node \<Rightarrow> bool" where
  "node_ok caps tot loops uni i n \<longleftrightarrow>
     (\<forall>c \<in> set (children n). c < i) \<and>
     (kind n \<in> {KCapture, KAssert, KRepeat} \<longrightarrow> length (children n) = 1) \<and>
     (kind n = KAlternative \<longrightarrow> children n \<noteq> []) \<and>
     (kind n = KCapture \<longrightarrow> capture n \<le> caps) \<and>
     (kind n = KReference \<longrightarrow> capture n \<le> tot) \<and>
     (kind n = KRepeat \<longrightarrow> loop n < loops \<and> minimum n \<le> maximum n \<and> maximum n \<le> infinity) \<and>
     (\<forall>g \<in> set (node_captures n). g \<le> caps) \<and>
     Unicode (node_flags n) = uni \<and>
     separated (node_ranges n) \<and> below (last_point (node_flags n)) (node_ranges n) \<and>
     (\<forall>str \<in> set (node_strings n). \<forall>p \<in> set str. p \<le> last_point (node_flags n))"

definition arena_ok :: "vm \<Rightarrow> bool" where
  "arena_ok s \<longleftrightarrow> (\<forall>i < length (nodes s).
     node_ok (capture_count s) (total_captures s) (loop_count s) (Unicode (vm_flags s)) i (nodes s ! i))"

definition names_ok :: "vm \<Rightarrow> bool" where
  "names_ok s \<longleftrightarrow> (\<forall>(name, cs) \<in> set (names s). \<forall>c \<in> set cs. nc_group c \<le> capture_count s)"

definition tree_ok :: "vm \<Rightarrow> bool" where
  "tree_ok s \<longleftrightarrow> inside s \<and> arena_ok s \<and> names_ok s \<and> length (nodes s) \<le> 4096 \<and> class_depth s \<le> 64"

definition grows :: "vm \<Rightarrow> vm \<Rightarrow> bool" where
  "grows s s' \<longleftrightarrow>
     source s' = source s \<and> at s \<le> at s' \<and> vm_flags s' = vm_flags s \<and> total_captures s' = total_captures s \<and>
     depth s' = depth s \<and> class_depth s' = class_depth s \<and> butlast (branch_path s') = butlast (branch_path s) \<and>
     code s' = code s \<and> vm_range_count s' = vm_range_count s \<and>
     capture_count s \<le> capture_count s' \<and> loop_count s \<le> loop_count s' \<and> (\<exists>ns. nodes s' = nodes s @ ns)"

definition builds :: "vm \<Rightarrow> nat \<Rightarrow> ('a \<Rightarrow> vm \<Rightarrow> bool) \<Rightarrow> ('a \<times> vm) result \<Rightarrow> bool" where
  "builds s least P m \<longleftrightarrow> safeR (\<lambda>(x, s'). tree_ok s' \<and> grows s s' \<and> least \<le> at s' \<and> P x s') m"

abbreviation node_of :: "nat \<Rightarrow> vm \<Rightarrow> bool" where
  "node_of i s \<equiv> i < length (nodes s)"

lemma node_ok_mono:
  "node_ok c t l u i n \<Longrightarrow> c \<le> c' \<Longrightarrow> l \<le> l' \<Longrightarrow> node_ok c' t l' u i n"
  unfolding node_ok_def by (meson le_trans less_le_trans)

lemma grows_refl [simp]: "grows s s"
  by (simp add: grows_def)

lemma grows_trans: "grows s s' \<Longrightarrow> grows s' s'' \<Longrightarrow> grows s s''"
  unfolding grows_def by (elim conjE exE, intro conjI exI) (auto intro: le_trans)

lemma growsD:
  assumes "grows s s'"
  shows "source s' = source s" "at s \<le> at s'" "vm_flags s' = vm_flags s" "total_captures s' = total_captures s"
    "depth s' = depth s" "length (nodes s) \<le> length (nodes s')"
  using assms by (auto simp: grows_def)

lemma tree_ok_inside: "tree_ok s \<Longrightarrow> inside s"
  by (simp add: tree_ok_def)

lemma tree_ok_update [simp]:
  "tree_ok (s\<lparr>advanced := b\<rparr>) = tree_ok s"
  "tree_ok (s\<lparr>depth := d\<rparr>) = tree_ok s"
  "tree_ok (s\<lparr>branch_path := p\<rparr>) = tree_ok s"
  "tree_ok (s\<lparr>disjunction_count := d\<rparr>) = tree_ok s"
  by (simp_all add: tree_ok_def arena_ok_def names_ok_def inside_def units_ok_def)

lemma tree_ok_flags: "Unicode f = Unicode (vm_flags s) \<Longrightarrow> tree_ok (s\<lparr>vm_flags := f\<rparr>) = tree_ok s"
  by (simp add: tree_ok_def arena_ok_def names_ok_def inside_def units_ok_def)

lemma tree_ok_at: "tree_ok s \<Longrightarrow> a \<le> length (source s) \<Longrightarrow> tree_ok (s\<lparr>at := a\<rparr>)"
  by (simp add: tree_ok_def arena_ok_def names_ok_def inside_def)

lemma builds_Inl [simp]: "builds s l P (Inl e) \<longleftrightarrow> \<not> fatal e"
  by (simp add: builds_def)

lemma builds_Inr [simp]: "builds s l P (Inr (x, s')) \<longleftrightarrow> tree_ok s' \<and> grows s s' \<and> l \<le> at s' \<and> P x s'"
  by (simp add: builds_def)

lemma builds_from: "builds s' l P m \<Longrightarrow> grows s s' \<Longrightarrow> builds s l P m"
  unfolding builds_def by (elim wpR_mono2) (auto intro: grows_trans)

lemma builds_weaken:
  "builds s l P m \<Longrightarrow> l' \<le> l \<Longrightarrow> (\<And>x s'. grows s s' \<Longrightarrow> P x s' \<Longrightarrow> Q x s') \<Longrightarrow> builds s l' Q m"
  unfolding builds_def by (elim wpR_mono2) auto

lemma builds_bind:
  assumes "builds s l P m"
    and "\<And>x s'. tree_ok s' \<Longrightarrow> grows s s' \<Longrightarrow> l \<le> at s' \<Longrightarrow> P x s' \<Longrightarrow> builds s' l' Q (f (x, s'))"
  shows "builds s l' Q (bindR m f)"
  using assms by (cases m) (auto simp: builds_def intro: builds_from [unfolded builds_def])

lemma builds_post:
  assumes "builds s0 l P m"
    and "\<And>x s'. tree_ok s' \<Longrightarrow> grows s0 s' \<Longrightarrow> l \<le> at s' \<Longrightarrow> P x s' \<Longrightarrow> builds s l' Q (f (x, s'))"
  shows "builds s l' Q (bindR m f)"
  using assms by (cases m) (auto simp: builds_def)

lemma builds_safe:
  "safeR P m \<Longrightarrow> (\<And>x. m = Inr x \<Longrightarrow> P x \<Longrightarrow> builds s l Q (f x)) \<Longrightarrow> builds s l Q (bindR m f)"
  by (cases m) auto

lemma builds_if: "(c \<Longrightarrow> builds s l P m) \<Longrightarrow> (\<not> c \<Longrightarrow> builds s l P m') \<Longrightarrow> builds s l P (if c then m else m')"
  by simp

lemma grows_at: "at s \<le> a \<Longrightarrow> grows s (s\<lparr>at := a\<rparr>)"
  by (simp add: grows_def)

lemma grows_scan: "at s \<le> a \<Longrightarrow> grows s (s\<lparr>at := a, advanced := b\<rparr>)"
  by (simp add: grows_def)

lemma grows_advanced [simp]: "grows s (s\<lparr>advanced := b\<rparr>)"
  by (simp add: grows_def)

text \<open>What only reads also builds.\<close>

lemma reads_builds:
  assumes "reads s l P m" "tree_ok s"
  shows "builds s l (\<lambda>x _. P x) m"
proof -
  have "tree_ok s' \<and> grows s s'"
    if "at s \<le> at s'" "at s' \<le> length (source s)" "s' = s\<lparr>at := at s', advanced := advanced s'\<rparr>" for s'
  proof -
    have "tree_ok (s\<lparr>at := at s', advanced := advanced s'\<rparr>)" using assms(2) that(2) by (simp add: tree_ok_at)
    moreover have "grows s (s\<lparr>at := at s', advanced := advanced s'\<rparr>)" using that(1) by (rule grows_scan)
    ultimately show ?thesis using that(3) by simp
  qed
  then show ?thesis using assms(1) unfolding builds_def reads_def by (elim wpR_mono2) auto
qed

section \<open>Adding nodes\<close>

lemma Add_builds:
  assumes "tree_ok s" "node_ok (capture_count s) (total_captures s) (loop_count s) (Unicode (vm_flags s)) (length (nodes s))
      (n\<lparr>node_flags := vm_flags s\<rparr>)"
  shows "builds s (at s) node_of (Add n s)"
proof -
  have "tree_ok (s\<lparr>ast_payload := p, nodes := nodes s @ [n\<lparr>node_flags := vm_flags s\<rparr>]\<rparr>)"
    if "length (nodes s) < 4096" for p
    using assms that by (auto simp: tree_ok_def arena_ok_def names_ok_def inside_def units_ok_def nth_append less_Suc_eq)
  moreover have "grows s (s\<lparr>ast_payload := p, nodes := nodes s @ [n\<lparr>node_flags := vm_flags s\<rparr>]\<rparr>)" for p
    by (simp add: grows_def)
  ultimately show ?thesis by (simp add: Add_def Let_def)
qed

lemma blank_ok:
  "k \<notin> {KCapture, KAssert, KRepeat, KAlternative} \<Longrightarrow> tree_ok s \<Longrightarrow> builds s (at s) node_of (Add (blank s k) s)"
  by (rule Add_builds) (auto simp: node_ok_def new_node_def)

lemma Character_builds:
  assumes t: "tables_ok t" and s: "tree_ok s" and rs: "escape_ok s rs"
  shows "builds s (at s) node_of (Character t rs s)"
proof -
  let ?f = "vm_flags s" and ?P = "\<lambda>r. separated r \<and> below (last_point (vm_flags s)) r"
  have "safeR ?P (bindR (Normalize rs) (CanonicalRanges t ?f))"
    by (rule wpR_bindI [OF Normalize_safe [OF rs]]) (auto intro: CanonicalRanges_safe [OF t])
  then have "safeR ?P (if unicode_sets ?f then CaseClosure t ?f rs else bindR (Normalize rs) (CanonicalRanges t ?f))"
    using CaseClosure_safe [OF t _ rs] by (simp del: wpR_bindR)
  then show ?thesis
    unfolding Character_def
    by (rule builds_safe) (rule Add_builds [OF s], auto simp: node_ok_def new_node_def)
qed

lemma SetNode_builds:
  assumes t: "tables_ok t" and s: "tree_ok s" and v: "cset_in (vm_flags s) v"
  shows "builds s (at s) node_of (SetNode t v s)"
  unfolding SetNode_def
  by (rule builds_safe [OF NormalizeSet_safe [OF t v]])
    (rule Add_builds [OF s], auto simp: node_ok_def new_node_def cset_ok_def cset_in_def)

text \<open>A continuation after a delimiter has been taken, and one that only looks at the state.\<close>

lemma builds_at:
  "builds (s\<lparr>at := a\<rparr>) l P m \<Longrightarrow> at s \<le> a \<Longrightarrow> builds s l P m"
  by (rule builds_from [OF _ grows_at])

lemma builds_step: "builds (s\<lparr>at := Suc (at s)\<rparr>) (Suc (at s)) P m \<Longrightarrow> builds s (at s) P m"
  by (rule builds_at, rule builds_weaken) auto

lemma builds_mark: "builds (s\<lparr>advanced := b\<rparr>) l P m \<Longrightarrow> builds s l P m"
  by (rule builds_from [OF _ grows_advanced])

lemma looking_at_tree: "looking_at s 0 c \<Longrightarrow> tree_ok s \<Longrightarrow> tree_ok (s\<lparr>at := Suc (at s)\<rparr>)"
  using sees_lt [of s 0] by (simp add: tree_ok_at Suc_le_eq)

lemma Take_simps:
  "looking_at s 0 c \<Longrightarrow> Take c s = (True, s\<lparr>at := Suc (at s)\<rparr>)"
  "\<not> looking_at s 0 c \<Longrightarrow> Take c s = (False, s)"
  by (simp_all add: Take_def advance_def)

lemma builds_Take:
  assumes "tree_ok s"
    and "looking_at s 0 c \<Longrightarrow> tree_ok (s\<lparr>at := Suc (at s)\<rparr>) \<Longrightarrow>
      builds (s\<lparr>at := Suc (at s)\<rparr>) l P (g True (s\<lparr>at := Suc (at s)\<rparr>))"
    and "\<not> looking_at s 0 c \<Longrightarrow> builds s l P (g False s)"
  shows "builds s l P (case Take c s of (x, y) \<Rightarrow> g x y)"
proof (cases "looking_at s 0 c")
  case True
  show ?thesis
    using assms(2) [OF True looking_at_tree [OF True assms(1)]] True by (auto simp: Take_simps intro: builds_at)
qed (use assms(3) in \<open>simp add: Take_simps\<close>)

lemma class_node_builds:
  assumes t: "tables_ok t" and s: "tree_ok s" and rs: "escape_ok s rs"
  shows "builds s (at s) node_of (bindR (Normalize rs) (\<lambda>rs.
              bindR (CanonicalRanges t (vm_flags s) rs) (\<lambda>rs.
              Add ((blank s KCharacter)\<lparr>node_ranges := (if negative then Complement (vm_flags s) rs else rs)\<rparr>) s)))"
proof (rule builds_safe [OF Normalize_safe [OF rs]])
  fix r assume "separated r \<and> below (last_point (vm_flags s)) r"
  then have "safeR (\<lambda>r. separated r \<and> below (last_point (vm_flags s)) r) (CanonicalRanges t (vm_flags s) r)"
    by (auto intro: CanonicalRanges_safe [OF t])
  then show "builds s (at s) node_of (bindR (CanonicalRanges t (vm_flags s) r) (\<lambda>rs.
              Add ((blank s KCharacter)\<lparr>node_ranges := (if negative then Complement (vm_flags s) rs else rs)\<rparr>) s))"
    by (rule builds_safe) (rule Add_builds [OF s], use Complement_ok in \<open>auto simp: node_ok_def new_node_def\<close>)
qed

lemma Class_builds:
  assumes t: "tables_ok t" and s: "tree_ok s"
  shows "builds s (at s) node_of (Class t s)"
proof -
  let ?k = "\<lambda>negative (rs, s). case Take (ch CHR '']'') s of
            (False, s) \<Rightarrow> Inl (Fail ''unterminated character class'')
          | (True, s) \<Rightarrow>
              bindR (Normalize rs) (\<lambda>rs.
              bindR (CanonicalRanges t (vm_flags s) rs) (\<lambda>rs.
              Add ((blank s KCharacter)\<lparr>node_ranges := (if negative then Complement (vm_flags s) rs else rs)\<rparr>) s))"
  have close: "builds s'' (at s) node_of (?k negative (rs, s''))"
    if "tree_ok s''" "at s \<le> at s''" "escape_ok s'' rs" for s'' rs negative
    unfolding prod.case
  proof (rule builds_Take [OF that(1)], unfold bool.case)
    let ?s = "s''\<lparr>at := Suc (at s'')\<rparr>"
    assume "tree_ok ?s"
    then show "builds ?s (at s) node_of (bindR (Normalize rs) (\<lambda>rs. bindR (CanonicalRanges t (vm_flags ?s) rs) (\<lambda>rs.
        Add ((blank ?s KCharacter)\<lparr>node_ranges := (if negative then Complement (vm_flags ?s) rs else rs)\<rparr>) ?s)))"
      by (rule builds_weaken [OF class_node_builds [OF t]]) (use that in simp_all)
  qed simp
  have body: "builds s' (at s) node_of (bindR (class_loop (steps_left s') t [] s') (?k negative))"
    if s': "tree_ok s'" "at s \<le> at s'" for s' negative
  proof (rule builds_bind [OF reads_builds [OF class_loop_reads [OF t] s'(1)]])
    fix rs s'' assume "tree_ok s''" "grows s' s''" "at s' \<le> at s''" "escape_ok s' rs"
    then show "builds s'' (at s) node_of (?k negative (rs, s''))"
      using growsD(3) [of s' s''] s'(2) by (intro close) simp_all
  qed (use tree_ok_inside [OF s'(1)] in \<open>auto simp: steps_left_def\<close>)
  show ?thesis
    unfolding Class_def by (rule builds_Take [OF s]) (use body s in simp_all)
qed

lemma list_all2_const: "list_all2 (\<lambda>_. P) xs ys \<Longrightarrow> \<forall>y \<in> set ys. P y"
  by (induction xs ys rule: list_all2_induct) auto

text \<open>The captures below a node of the arena, within its fuel.\<close>

lemma CollectCaptures_safe:
  assumes "arena_ok s" "i < length (nodes s)" "i < n"
  shows "safeR (\<lambda>gs. \<forall>g \<in> set gs. g \<le> capture_count s) (CollectCaptures n (nodes s) i)"
  using assms(2,3)
proof (induction n arbitrary: i)
  case (Suc n)
  have ok: "node_ok (capture_count s) (total_captures s) (loop_count s) (Unicode (vm_flags s)) i (nodes s ! i)"
    using assms(1) Suc.prems by (simp add: arena_ok_def)
  have "safeR (list_all2 (\<lambda>_ gs. \<forall>g \<in> set gs. g \<le> capture_count s) (children (nodes s ! i)))
      (mapR (CollectCaptures n (nodes s)) (children (nodes s ! i)))"
  proof (rule wpR_mapR)
    fix c assume "c \<in> set (children (nodes s ! i))"
    then have "c < i" using ok by (simp add: node_ok_def)
    then show "safeR (\<lambda>gs. \<forall>g \<in> set gs. g \<le> capture_count s) (CollectCaptures n (nodes s) c)"
      using Suc by simp
  qed
  then have "safeR (\<lambda>below. \<forall>gs \<in> set below. \<forall>g \<in> set gs. g \<le> capture_count s)
      (mapR (CollectCaptures n (nodes s)) (children (nodes s ! i)))"
    by (rule wpR_mono) (rule list_all2_const)
  then have "safeR (\<lambda>below. \<forall>g \<in> set ((if kind (nodes s ! i) = KCapture then [capture (nodes s ! i)] else []) @ concat below).
        g \<le> capture_count s) (mapR (CollectCaptures n (nodes s)) (children (nodes s ! i)))"
    by (rule wpR_mono) (use ok in \<open>auto simp: node_ok_def\<close>)
  then show ?case using Suc.prems by simp
qed simp

section \<open>The grammar\<close>

lemma close_group_post:
  assumes "tree_ok s0" "\<And>s'. tree_ok s' \<Longrightarrow> grows s0 s' \<Longrightarrow> builds s l P (f s')"
  shows "builds s l P (bindR (close_group message s0) f)"
proof (cases "looking_at s0 0 (ch CHR '')'')")
  case True
  have "builds s l P (f (s0\<lparr>at := Suc (at s0)\<rparr>))"
    by (rule assms(2)) (use looking_at_tree [OF True assms(1)] in \<open>simp_all add: grows_at\<close>)
  then show ?thesis using True by (simp add: close_group_def Take_simps)
qed (simp add: close_group_def Take_simps)

text \<open>Adding a node with children: they are nodes of the arena.\<close>

lemma repeat_node_builds:
  assumes s: "tree_ok s" and atom: "node_of atom s" and b: "low \<le> high" "high \<le> infinity"
  shows "builds s (at s) node_of (bindR (CollectCaptures (length (nodes s)) (nodes s) atom) (\<lambda>captures.
     Add ((blank s KRepeat)\<lparr>children := [atom], minimum := low, maximum := high, greedy := g,
            loop := loop_count s, node_captures := captures\<rparr>) (s\<lparr>loop_count := loop_count s + 1\<rparr>)))"
proof -
  let ?s = "s\<lparr>loop_count := loop_count s + 1\<rparr>"
  have ok: "tree_ok ?s" "arena_ok s"
    using s by (auto simp: tree_ok_def arena_ok_def names_ok_def inside_def units_ok_def intro: node_ok_mono)
  have "builds ?s (at s) node_of (bindR (CollectCaptures (length (nodes s)) (nodes s) atom) (\<lambda>captures.
     Add ((blank s KRepeat)\<lparr>children := [atom], minimum := low, maximum := high, greedy := g,
            loop := loop_count s, node_captures := captures\<rparr>) ?s))"
  proof (rule builds_safe [OF CollectCaptures_safe [OF ok(2) atom atom]])
    fix cs assume cs: "\<forall>g \<in> set cs. g \<le> capture_count s"
    show "builds ?s (at s) node_of (Add ((blank s KRepeat)\<lparr>children := [atom], minimum := low, maximum := high, greedy := g,
            loop := loop_count s, node_captures := cs\<rparr>) ?s)"
      using Add_builds [OF ok(1), of "(blank s KRepeat)\<lparr>children := [atom], minimum := low, maximum := high, greedy := g,
            loop := loop_count s, node_captures := cs\<rparr>"] atom b cs
      by (simp add: node_ok_def new_node_def)
  qed
  then show ?thesis by (rule builds_from) (simp add: grows_def)
qed

lemma add_capture_builds:
  "tree_ok s \<Longrightarrow> node_of body s \<Longrightarrow> g \<le> capture_count s \<Longrightarrow> builds s (at s) node_of (add_capture g body s)"
  unfolding add_capture_def by (rule Add_builds) (auto simp: node_ok_def new_node_def)

lemma assert_node_builds:
  "tree_ok s \<Longrightarrow> node_of body s \<Longrightarrow>
   builds s (at s) node_of (Add ((blank s KAssert)\<lparr>positive := p, behind := b, children := [body]\<rparr>) s)"
  by (rule Add_builds) (auto simp: node_ok_def new_node_def)

lemma list_node_builds:
  "tree_ok s \<Longrightarrow> k = KSequence \<or> (k = KAlternative \<and> cs \<noteq> []) \<Longrightarrow> \<forall>c \<in> set cs. node_of c s \<Longrightarrow>
   builds s (at s) node_of (Add ((blank s k)\<lparr>children := cs\<rparr>) s)"
  by (rule Add_builds) (auto simp: node_ok_def new_node_def)

lemma safe_if: "(c \<Longrightarrow> wpR E P m) \<Longrightarrow> (\<not> c \<Longrightarrow> wpR E P m') \<Longrightarrow> wpR E P (if c then m else m')"
  by simp

lemma Unicode_modifiers [simp]:
  "Unicode (f\<lparr>insensitive := b\<rparr>) = Unicode f" "Unicode (f\<lparr>multiline := b\<rparr>) = Unicode f"
  "Unicode (f\<lparr>dot_all := b\<rparr>) = Unicode f"
  by (simp_all add: Unicode_def)

lemma names_push_ok:
  assumes "names_ok s"
  shows "names_ok (s\<lparr>capture_count := Suc (capture_count s),
     names := names_push name \<lparr>nc_group = Suc (capture_count s), nc_branches = path\<rparr> (names s)\<rparr>)"
proof -
  have push: "\<forall>(n, cs) \<in> set (names_push name c ns). \<forall>c \<in> set cs. nc_group c \<le> k"
    if "\<forall>(n, cs) \<in> set ns. \<forall>c \<in> set cs. nc_group c \<le> k" "nc_group c \<le> k" for c k ns
    using that by (induction name c ns rule: names_push.induct) auto
  have "\<forall>(n, cs) \<in> set (names s). \<forall>c \<in> set cs. nc_group c \<le> Suc (capture_count s)"
    using assms by (fastforce simp: names_ok_def)
  from push [OF this, of "\<lparr>nc_group = Suc (capture_count s), nc_branches = path\<rparr>"]
  show ?thesis by (simp add: names_ok_def)
qed

lemma modifier_loop_safe:
  "safeR (\<lambda>(_, _, _, g). Unicode g = Unicode f) (modifier_loop us r a d f)"
proof (induction us arbitrary: r a d f)
  case (Cons u us)
  have IH: "safeR (\<lambda>(_, _, _, g). Unicode g = Unicode f) (modifier_loop us r' a' d' f')"
    if "Unicode f' = Unicode f" for r' a' d' f'
    using Cons.IH [of f' r' a' d'] that by simp
  show ?case unfolding modifier_loop.simps by (intro safe_if IH) simp_all
qed simp

lemma reference_builds:
  "tree_ok s \<Longrightarrow> n \<le> total_captures s \<Longrightarrow>
   builds s (at s) node_of (Add ((blank s KReference)\<lparr>capture := n\<rparr>) s)"
  "tree_ok s \<Longrightarrow> builds s (at s) node_of (Add ((blank s KReference)\<lparr>reference := name\<rparr>) s)"
  by (rule Add_builds, simp, simp add: node_ok_def new_node_def)+

lemma numbered_safe:
  assumes s: "tree_ok s"
  shows "safeR (\<lambda>r. case r of None \<Rightarrow> True | Some (n, s') \<Rightarrow> tree_ok s' \<and> grows s s' \<and> n \<le> total_captures s')
    (if c then bindR (Number s) (\<lambda>(number, s').
        if number \<le> total_captures s' then Inr (Some (number, s'))
        else if Unicode f then Inl (Fail ''reference exceeds capture count'')
        else Inr None)
     else Inr None)"
proof -
  have "builds s (at s + 1) (\<lambda>n _. n \<le> infinity) (Number s)"
    by (rule reads_builds [OF Number_reads [OF tree_ok_inside [OF s]] s])
  then show ?thesis by (auto simp: builds_def elim!: wpR_mono)
qed

lemma AtomEscape_builds:
  assumes t: "tables_ok t" and s: "tree_ok s"
  shows "builds s (at s) node_of (AtomEscape t s)"
proof -
  have in_s: "inside s" using s by (rule tree_ok_inside)
  let ?f = "vm_flags s"
  have control: "builds s (at s) node_of (Character t [(0x5c, 0x5c)] (mark_advanced s))"
    unfolding mark_advanced_def
    by (rule builds_mark, rule builds_weaken [OF Character_builds [OF t]]) (use s in \<open>simp_all add: last_point_def\<close>)
  have property: "builds s (at s) node_of (bindR (Property t neg (advance 1 (mark_advanced s))) (\<lambda>(set, s). SetNode t set s))"
    if "at s < length (source s)" "Unicode ?f" for neg
  proof -
    let ?s = "s\<lparr>at := Suc (at s), advanced := True\<rparr>"
    have ok: "tree_ok ?s" using s that by (simp add: tree_ok_at)
    have f: "Unicode (vm_flags ?s)" using that by simp
    have "builds ?s (at s) node_of (bindR (Property t neg ?s) (\<lambda>(set, s). SetNode t set s))"
    proof (rule builds_bind [OF reads_builds [OF Property_reads [OF t tree_ok_inside [OF ok] f] ok]], unfold prod.case)
      fix v s' assume "tree_ok s'" "grows ?s s'" "at ?s + 1 \<le> at s'" "cset_ok (vm_flags ?s) v"
      then show "builds s' (at s) node_of (SetNode t v s')"
        using growsD(3) [of ?s s'] by (intro builds_weaken [OF SetNode_builds [OF t]] cset_ok_in) simp_all
    qed
    from builds_from [OF this grows_scan] show ?thesis by (simp add: advance_def mark_advanced_def)
  qed
  have boundary: "builds s (at s) node_of (let s = advance 1 s in Add (blank s k) s)"
    if "looking_at s 0 c" "k \<in> {KBoundary, KNonBoundary}" for c k
    using blank_ok [of k "s\<lparr>at := Suc (at s)\<rparr>"] looking_at_tree [OF that(1) s] that(2)
    by (auto simp: advance_def Let_def intro: builds_step)
  have ref: "builds s (at s) node_of (let s = mark_advanced s' in Add ((blank s KReference)\<lparr>capture := n\<rparr>) s)"
    if "tree_ok s'" "grows s s'" "n \<le> total_captures s'" for s' n
    using reference_builds(1) [of "mark_advanced s'" n] that growsD(2) [OF that(2)]
    by (auto simp: mark_advanced_def Let_def intro: builds_from [OF builds_mark] builds_weaken)
  have named: "builds s (at s) node_of (bindR (Name t (advance 2 (mark_advanced s))) (\<lambda>(name, s).
                    Add ((blank s KReference)\<lparr>reference := name\<rparr>) s))" if "Suc (at s) < length (source s)"
  proof -
    let ?s = "s\<lparr>at := at s + 2, advanced := True\<rparr>"
    have ok: "tree_ok ?s" using s that by (simp add: tree_ok_at)
    have "builds ?s (at s) node_of (bindR (Name t ?s) (\<lambda>(name, s). Add ((blank s KReference)\<lparr>reference := name\<rparr>) s))"
      by (rule builds_bind [OF reads_builds [OF Name_reads [OF t tree_ok_inside [OF ok]] ok]])
        (auto intro: builds_weaken [OF reference_builds(2)])
    from builds_from [OF this grows_scan] show ?thesis by (simp add: advance_def mark_advanced_def)
  qed
  have escape: "builds s (at s) node_of (bindR (Escape t False s) (\<lambda>(rs, s). Character t rs s))"
    by (rule builds_bind [OF reads_builds [OF Escape_reads [OF t in_s] s]])
      (auto intro!: builds_weaken [OF Character_builds [OF t]] dest: growsD)
  show ?thesis
    unfolding AtomEscape_def Let_def
  proof (intro builds_if)
    show "builds s (at s) node_of (bindR (if sees s 0 (\<lambda>u. ch CHR ''1'' \<le> u \<and> u \<le> ch CHR ''9'')
                  then bindR (Number s) (\<lambda>(number, s').
                    if number \<le> total_captures s' then Inr (Some (number, s'))
                    else if Unicode ?f then Inl (Fail ''reference exceeds capture count'')
                    else Inr None)
                  else Inr None) (\<lambda>numbered.
           case numbered of
             Some (number, s) \<Rightarrow> Add ((blank (mark_advanced s) KReference)\<lparr>capture := number\<rparr>) (mark_advanced s)
           | None \<Rightarrow>
               if (Unicode ?f \<or> has_named s) \<and> looking_at s 0 (ch CHR ''k'') \<and> looking_at s 1 (ch CHR ''<'')
               then bindR (Name t (advance 2 (mark_advanced s))) (\<lambda>(name, s).
                    Add ((blank s KReference)\<lparr>reference := name\<rparr>) s)
               else bindR (Escape t False s) (\<lambda>(rs, s). Character t rs s)))"
      by (rule builds_safe [OF numbered_safe [OF s]])
        (use ref named escape in \<open>auto simp: Let_def sees_def split: option.splits\<close>)
  qed (use control property boundary in \<open>auto simp: Let_def dest: sees_lt\<close>)
qed

text \<open>
  The interface the parsers of groups, terms and sequences rely on: a parser of alternatives, called
  at nesting depth \<open>d\<close> inside the pattern, builds a node.
\<close>

locale group_parser =
  fixes t :: unicode_tables and d :: nat and disjunction :: "nat parse"
  assumes disjunction_builds: "tables_ok t \<Longrightarrow> tree_ok s \<Longrightarrow> depth s = d \<Longrightarrow> builds s (at s) node_of (disjunction s)"
begin

lemma body_builds:
  assumes t: "tables_ok t" and s: "tree_ok s" "depth s = d"
    and k: "\<And>body s'. tree_ok s' \<Longrightarrow> grows s s' \<Longrightarrow> node_of body s' \<Longrightarrow> builds s' l P (f body s')"
  shows "builds s l P (bindR (disjunction s) (\<lambda>(body, s). bindR (close_group message s) (f body)))"
proof (rule builds_bind [OF disjunction_builds [OF t s]], unfold prod.case, erule close_group_post)
  fix body s' s'' assume s'': "tree_ok s''" "grows s s'" "grows s' s''" "node_of body s'"
  then have "builds s'' l P (f body s'')" by (intro k) (auto intro: grows_trans dest: growsD(6))
  then show "builds s' l P (f body s'')" by (rule builds_from [OF _ s''(3)])
qed

lemma Assertion_builds:
  assumes t: "tables_ok t" and s: "tree_ok s" "depth s = d"
  shows "builds s (at s) node_of (Assertion disjunction p b s)"
  unfolding Assertion_def
  by (rule body_builds [OF t s]) (auto intro: builds_weaken [OF assert_node_builds] dest: growsD(2))

lemma capture_builds:
  assumes t: "tables_ok t" and s: "tree_ok s" "depth s = d" and g: "g \<le> capture_count s"
  shows "builds s (at s) node_of (bindR (disjunction s) (\<lambda>(body, s).
     bindR (close_group message s) (\<lambda>s. add_capture g body s)))"
  by (rule body_builds [OF t s])
    (use g in \<open>auto intro!: builds_weaken [OF add_capture_builds] simp: grows_def\<close>)

lemma ScopedModifiers_builds:
  assumes t: "tables_ok t" and s: "tree_ok s" "depth s = d"
  shows "builds s (at s) node_of (ScopedModifiers disjunction s)"
proof -
  let ?units = "takeWhile (\<lambda>u. u \<noteq> ch CHR '':'') (drop (at s) (source s))"
  let ?s = "advance (length ?units) s"
  have s1: "tree_ok ?s"
    using s(1) takeWhile_drop_length [of "at s" "source s"] tree_ok_inside [OF s(1)]
    by (simp add: advance_def tree_ok_at inside_def)
  have body: "builds s2 (at s) node_of (bindR (disjunction (s2\<lparr>vm_flags := f\<rparr>)) (\<lambda>(body, s).
                    bindR (close_group ''unterminated scoped modifier'' s) (\<lambda>s.
                    Inr (body, s\<lparr>vm_flags := vm_flags s2\<rparr>))))"
    if s2: "tree_ok s2" "depth s2 = d" "at s \<le> at s2" and f: "Unicode f = Unicode (vm_flags s2)" for s2 f
  proof -
    have ok: "tree_ok (s2\<lparr>vm_flags := f\<rparr>)" "depth (s2\<lparr>vm_flags := f\<rparr>) = d" using s2 f by (simp_all add: tree_ok_flags)
    show ?thesis
    proof (rule builds_post [OF disjunction_builds [OF t ok]], unfold prod.case, erule close_group_post)
      fix body s' s'' assume "tree_ok s''" "grows (s2\<lparr>vm_flags := f\<rparr>) s'" "grows s' s''" "node_of body s'"
      then show "builds s2 (at s) node_of (Inr (body, s''\<lparr>vm_flags := vm_flags s2\<rparr>))"
        using s2 f by (auto simp: grows_def tree_ok_flags)
    qed
  qed
  have colon: "builds s (at s) node_of (case Take (ch CHR '':'') ?s of (colon, s') \<Rightarrow>
               if (added = [] \<and> removed = []) \<or> \<not> colon \<or> (remove \<and> removed = [])
               then Inl (Fail ''invalid scoped modifier group'')
               else bindR (disjunction (s'\<lparr>vm_flags := f\<rparr>)) (\<lambda>(body, s').
                    bindR (close_group ''unterminated scoped modifier'' s') (\<lambda>s'.
                    Inr (body, s'\<lparr>vm_flags := vm_flags s\<rparr>))))"
    if "Unicode f = Unicode (vm_flags s)" for added removed f remove
  proof (rule builds_from [OF builds_Take [OF s1]], goal_cases)
    case 1
    then show ?case using body [of "(advance (length ?units) s)\<lparr>at := Suc (at ?s)\<rparr>" f] that s by (simp add: advance_def)
  next
    case 3
    then show ?case by (simp add: advance_def grows_at)
  qed simp
  show ?thesis
    unfolding ScopedModifiers_def Let_def
    by (rule builds_safe [OF modifier_loop_safe]) (use colon in \<open>auto simp del: One_nat_def\<close>)
qed

lemma NamedGroup_builds:
  assumes t: "tables_ok t" and s: "tree_ok s" "depth s = d"
  shows "builds s (at s) node_of (NamedGroup disjunction t s)"
  unfolding NamedGroup_def
proof (rule builds_bind [OF reads_builds [OF Name_reads [OF t tree_ok_inside [OF s(1)]] s(1)]], unfold prod.case Let_def)
  fix name s1 assume s1: "tree_ok s1" "grows s s1" "at s \<le> at s1"
  define s2 where "s2 = s1\<lparr>capture_count := capture_count s1 + 1,
     names := names_push name \<lparr>nc_group = capture_count s1 + 1, nc_branches = branch_path s1\<rparr> (names s1)\<rparr>"
  have "tree_ok s2" "grows s1 s2"
    using s1(1) unfolding s2_def
    by (auto simp: tree_ok_def arena_ok_def grows_def inside_def units_ok_def intro: node_ok_mono names_push_ok)
  moreover have "depth s2 = d" using s(2) s1(2) by (simp add: s2_def grows_def)
  ultimately have "builds s1 (at s1) node_of (bindR (disjunction s2) (\<lambda>(body, s).
     bindR (close_group ''unterminated capture'' s) (\<lambda>s. add_capture (capture_count s1 + 1) body s)))"
    using capture_builds [OF t, of s2 "capture_count s1 + 1"] by (auto simp: s2_def intro: builds_from)
  then show "builds s1 (at s) node_of (bindR (disjunction (s1\<lparr>capture_count := capture_count s1 + 1,
     names := names_push name \<lparr>nc_group = capture_count s1 + 1, nc_branches = branch_path s1\<rparr> (names s1)\<rparr>)) (\<lambda>(body, s).
     bindR (close_group ''unterminated capture'' s) (\<lambda>s. add_capture (capture_count s1 + 1) body s)))"
    unfolding s2_def by (rule builds_weaken) (use s1(3) in auto)
qed

lemma capture_group_builds:
  assumes t: "tables_ok t" and s: "tree_ok s" "depth s = d"
  shows "builds s (at s) node_of (capture_group disjunction s)"
  unfolding capture_group_def Let_def
proof (rule builds_from)
  let ?s = "s\<lparr>capture_count := capture_count s + 1\<rparr>"
  have "tree_ok ?s"
    using s(1) by (fastforce simp: tree_ok_def arena_ok_def names_ok_def inside_def units_ok_def intro: node_ok_mono)
  then show "builds ?s (at s) node_of (bindR (disjunction ?s) (\<lambda>(body, s').
            bindR (close_group ''unterminated capture'' s') (\<lambda>s'. add_capture (capture_count s + 1) body s')))"
    using capture_builds [OF t, of ?s "capture_count s + 1"] s(2) by simp
  show "grows s ?s" by (simp add: grows_def)
qed

lemma advance_builds:
  assumes "tree_ok s" "depth s = d" "looking_at s 0 c" "\<And>s. tree_ok s \<Longrightarrow> depth s = d \<Longrightarrow> builds s (at s) node_of (p s)"
  shows "builds s (at s) node_of (p (advance 1 s))"
  using assms(4) [of "s\<lparr>at := Suc (at s)\<rparr>"] looking_at_tree [OF assms(3,1)] assms(2)
  by (auto simp: advance_def intro: builds_step)

lemma angle_group_builds:
  assumes t: "tables_ok t" and s: "tree_ok s" "depth s = d"
  shows "builds s (at s) node_of (angle_group disjunction t s)"
  unfolding angle_group_def
  by (intro builds_if advance_builds [OF s] Assertion_builds NamedGroup_builds t s)

lemma special_group_builds:
  assumes t: "tables_ok t" and s: "tree_ok s" "depth s = d"
  shows "builds s (at s) node_of (special_group disjunction t s)"
  unfolding special_group_def
  by (intro builds_if advance_builds [OF s] Assertion_builds ScopedModifiers_builds angle_group_builds t s)

lemma Group_builds:
  assumes t: "tables_ok t" and s: "tree_ok s" "depth s = d"
  shows "builds s (at s) node_of (Group disjunction t s)"
proof -
  have plain: "builds s' (at s) node_of (bindR (disjunction s') (\<lambda>(body, s).
               bindR (close_group ''unterminated group'' s) (\<lambda>s. Inr (body, s))))"
    if "tree_ok s'" "depth s' = d" "at s \<le> at s'" for s'
    by (rule body_builds [OF t that(1,2)]) (use that(3) in \<open>auto dest: growsD(2)\<close>)
  have special: "builds s' (at s) node_of (special_group disjunction t (mark_advanced s'))"
    if "tree_ok s'" "depth s' = d" "at s \<le> at s'" for s'
    using special_group_builds [OF t, of "mark_advanced s'"] that
    by (auto simp: mark_advanced_def intro: builds_mark builds_weaken)
  show ?thesis
    unfolding Group_def
  proof (rule builds_Take [OF s(1)], goal_cases)
    case 1
    show ?case unfolding bool.case
      by (rule builds_Take [OF 1(2)]) (use 1 s plain special in simp_all)
  qed (use capture_group_builds [OF t s] in simp)
qed

lemma Atom_builds:
  assumes t: "tables_ok t" and s: "tree_ok s" "depth s = d" and lt: "at s < length (source s)"
  shows "builds s (at s + 1) node_of (Atom disjunction t s)"
proof -
  let ?s = "s\<lparr>at := Suc (at s)\<rparr>" and ?f = "vm_flags s"
  have s1: "tree_ok ?s" "depth ?s = d" using s lt by (simp_all add: tree_ok_at)
  have from1: "builds s (at s + 1) node_of m" if "builds ?s (at ?s) node_of m" for m
    using builds_at [where s = s and a = "Suc (at s)"] that by simp
  have cls: "builds ?s (at ?s) node_of (bindR (UnicodeClass 65 t ?s) (\<lambda>(set, s). SetNode t set s))" if "unicode_sets ?f"
  proof -
    have "Unicode (vm_flags ?s)" "class_depth ?s \<le> 64" "65 \<le> 65 + class_depth ?s"
      using that s by (simp_all add: Unicode_def tree_ok_def)
    from reads_builds [OF UnicodeClass_reads [OF t tree_ok_inside [OF s1(1)] this] s1(1)] show ?thesis
    proof (rule builds_bind, unfold prod.case)
      fix v s' assume "tree_ok s'" "grows ?s s'" "at ?s \<le> at s'" "cset_ok (vm_flags ?s) v"
      then show "builds s' (at ?s) node_of (SetNode t v s')"
        using growsD(3) [of ?s s'] by (intro builds_weaken [OF SetNode_builds [OF t]] cset_ok_in) simp_all
    qed
  qed
  have dot: "builds ?s (at ?s) node_of (Character t (if dot_all ?f then [(0, last_point ?f)]
               else [(0, 9), (11, 12), (14, 0x2027), (0x202a, last_point ?f)]) ?s)"
    by (rule Character_builds [OF t s1(1)]) (simp add: last_point_def)
  have lit: "builds s (at s + 1) node_of (bindR (Point s0) (\<lambda>(point, s). Character t [(point, point)] s))"
    if s0: "tree_ok s0" "grows s s0" "at s0 = at s" for s0
  proof -
    have "at s0 < length (source s0)" using s0 lt growsD(1) [of s s0] by simp
    from reads_builds [OF Point_reads [OF tree_ok_inside [OF s0(1)] this] s0(1)]
    have "builds s0 (at s + 1) node_of (bindR (Point s0) (\<lambda>(point, s). Character t [(point, point)] s))"
      by (rule builds_bind) (auto intro!: builds_weaken [OF Character_builds [OF t]] simp: s0(3) dest: growsD)
    then show ?thesis by (rule builds_from [OF _ s0(2)])
  qed
  show ?thesis
    unfolding Atom_def Let_def advance_def mark_advanced_def at_end_def
    using lt lit [of s] lit [of "s\<lparr>advanced := True\<rparr>"] s
      from1 [OF Group_builds [OF t s1]] from1 [OF Class_builds [OF t s1(1)]] from1 [OF cls]
      from1 [OF blank_ok [of KBegin, OF _ s1(1)]] from1 [OF blank_ok [of KEnd, OF _ s1(1)]]
      from1 [OF AtomEscape_builds [OF t s1(1)]] from1 [OF dot]
    by (cases "dot_all ?f") simp_all
qed

lemma Term_builds:
  assumes t: "tables_ok t" and s: "tree_ok s" "depth s = d" and lt: "at s < length (source s)"
  shows "builds s (at s + 1) node_of (Term (Atom disjunction t) s)"
  unfolding Term_def
proof (rule builds_bind [OF Atom_builds [OF t s lt]], unfold prod.case, rule builds_if)
  fix atom s1 assume s1: "tree_ok s1" "at s + 1 \<le> at s1" "node_of atom s1"
  show "builds s1 (at s + 1) node_of (Inr (atom, s1))" using s1 by simp
  let ?k = "\<lambda>(quantifier, s).
         case quantifier of
           None \<Rightarrow> Inr (atom, s)
         | Some (low, high) \<Rightarrow>
             bindR (nthR (nodes s) atom) (\<lambda>node.
               if assertion_node (vm_flags s) node then Inl (Fail ''assertion cannot be quantified'')
               else case Take (ch CHR ''?'') s of
                 (lazy, s) \<Rightarrow>
                   (let index = loop_count s; s = s\<lparr>loop_count := loop_count s + 1\<rparr>
                    in bindR (CollectCaptures (length (nodes s)) (nodes s) atom) (\<lambda>captures.
                       Add ((blank s KRepeat)\<lparr>children := [atom], minimum := low, maximum := high,
                              greedy := \<not> lazy, loop := index, node_captures := captures\<rparr>) s)))"
  show "builds s1 (at s + 1) node_of (bindR (Quantifier s1) ?k)"
  proof (rule builds_bind [OF reads_builds [OF Quantifier_reads [OF tree_ok_inside [OF s1(1)]] s1(1)]])
    fix q s2 assume s2: "tree_ok s2" "grows s1 s2" "at s1 \<le> at s2" and q: "bounds_ok q"
    have atom: "node_of atom s2" using s1(3) growsD(6) [OF s2(2)] by simp
    have rep: "builds s3 (at s + 1) node_of (bindR (CollectCaptures (length (nodes s3)) (nodes s3) atom) (\<lambda>captures.
       Add ((blank s3 KRepeat)\<lparr>children := [atom], minimum := low, maximum := high, greedy := g,
            loop := loop_count s3, node_captures := captures\<rparr>) (s3\<lparr>loop_count := loop_count s3 + 1\<rparr>)))"
      if "tree_ok s3" "at s2 \<le> at s3" "node_of atom s3" "q = Some (low, high)" for s3 g low high
      using builds_weaken [OF repeat_node_builds [OF that(1,3)]] that s1(2) s2(3) q by (simp add: bounds_ok_def)
    show "builds s2 (at s + 1) node_of (?k (q, s2))"
    proof (cases q)
      case None
      then show ?thesis using s1(2) s2 atom by simp
    next
      case (Some b)
      obtain low high where b: "b = (low, high)" by (cases b)
      let ?add = "\<lambda>lazy s. bindR (CollectCaptures (length (nodes s)) (nodes s) atom) (\<lambda>captures.
           Add ((blank s KRepeat)\<lparr>children := [atom], minimum := low, maximum := high,
              greedy := \<not> lazy, loop := loop_count s, node_captures := captures\<rparr>) (s\<lparr>loop_count := loop_count s + 1\<rparr>))"
      have "builds s2 (at s + 1) node_of (case Take (ch CHR ''?'') s2 of (lazy, s) \<Rightarrow> ?add lazy s)"
        by (rule builds_Take [OF s2(1)]; rule rep) (use s2(1) atom Some b in simp_all)
      then show ?thesis using Some b atom by (simp add: Let_def nthR_def)
    qed
  qed
qed

lemma sequence_loop_builds:
  assumes t: "tables_ok t" and "tree_ok s" "depth s = d" "length (source s) - at s < n" "\<forall>c \<in> set cs. node_of c s"
  shows "builds s (at s) (\<lambda>cs s'. \<forall>c \<in> set cs. node_of c s') (sequence_loop n (Term (Atom disjunction t)) cs s)"
  using assms(2-)
proof (induction n arbitrary: cs s)
  case (Suc n)
  let ?P = "\<lambda>cs s'. \<forall>c \<in> set cs. node_of c s'" and ?parse = "Term (Atom disjunction t)"
  show ?case
  proof (cases "sees s 0 (\<lambda>u. u \<noteq> ch CHR '')'' \<and> u \<noteq> ch CHR ''|'')")
    case True
    then have lt: "at s < length (source s)" by (simp add: sees_def)
    have "builds s (at s) ?P (bindR (?parse s) (\<lambda>(c, s). sequence_loop n ?parse (cs @ [c]) s))"
    proof (rule builds_bind [OF Term_builds [OF t Suc.prems(1,2) lt]], unfold prod.case)
      fix c s' assume s': "tree_ok s'" "grows s s'" "at s + 1 \<le> at s'" "node_of c s'"
      have "builds s' (at s') ?P (sequence_loop n ?parse (cs @ [c]) s')"
        by (rule Suc.IH) (use Suc.prems s' lt growsD [OF s'(2)] in auto)
      then show "builds s' (at s) ?P (sequence_loop n ?parse (cs @ [c]) s')" by (rule builds_weaken) (use s' in auto)
    qed
    then show ?thesis using True by simp
  qed (use Suc.prems in auto)
qed simp

lemma Sequence_builds:
  assumes t: "tables_ok t" and s: "tree_ok s" "depth s = d"
  shows "builds s (at s) node_of (Sequence (Atom disjunction t) s)"
  unfolding Sequence_def
proof (rule builds_bind [OF sequence_loop_builds [OF t s]], unfold prod.case)
  fix cs s' assume s': "tree_ok s'" "at s \<le> at s'" "\<forall>c \<in> set cs. node_of c s'"
  then show "builds s' (at s) node_of (case cs of
         [] \<Rightarrow> Add (blank s' KEmpty) s'
       | [c] \<Rightarrow> Inr (c, s')
       | _ \<Rightarrow> Add ((blank s' KSequence)\<lparr>children := cs\<rparr>) s')"
    using builds_weaken [OF blank_ok [of KEmpty s']] builds_weaken [OF list_node_builds [of s' KSequence cs]]
    by (auto split: list.splits)
qed (simp_all add: steps_left_def)

lemma alternative_loop_builds:
  assumes t: "tables_ok t" and "tree_ok s" "depth s = d" "length (source s) - at s < n" "cs \<noteq> []" "\<forall>c \<in> set cs. node_of c s"
  shows "builds s (at s) (\<lambda>cs s'. cs \<noteq> [] \<and> (\<forall>c \<in> set cs. node_of c s'))
    (alternative_loop n (Sequence (Atom disjunction t)) cs s)"
  using assms(2-)
proof (induction n arbitrary: cs s)
  case (Suc n)
  let ?P = "\<lambda>cs s'. cs \<noteq> [] \<and> (\<forall>c \<in> set cs. node_of c s')" and ?seq = "Sequence (Atom disjunction t)"
  show ?case
    unfolding alternative_loop.simps
  proof (rule builds_Take [OF Suc.prems(1)], unfold bool.case)
    let ?s = "s\<lparr>at := Suc (at s)\<rparr>"
    assume lt: "looking_at s 0 (ch CHR ''|'')" and ok: "tree_ok ?s"
    have next_ok: "tree_ok (next_branch ?s)" "grows ?s (next_branch ?s)" "depth (next_branch ?s) = d"
      "at (next_branch ?s) = Suc (at s)"
      using ok Suc.prems(2) by (simp_all add: next_branch_def grows_def)
    have "builds (next_branch ?s) (at s) ?P (bindR (?seq (next_branch ?s)) (\<lambda>(c, s). alternative_loop n ?seq (cs @ [c]) s))"
    proof (rule builds_bind [OF Sequence_builds [OF t next_ok(1,3)]], unfold prod.case)
      fix c s' assume s': "tree_ok s'" "grows (next_branch ?s) s'" "at (next_branch ?s) \<le> at s'" "node_of c s'"
      have g: "grows ?s s'" using next_ok(2) s'(2) by (rule grows_trans)
      have "builds s' (at s') ?P (alternative_loop n ?seq (cs @ [c]) s')"
        by (rule Suc.IH) (use Suc.prems s' growsD [OF g] lt next_ok(4) in \<open>auto simp: sees_def\<close>)
      then show "builds s' (at s) ?P (alternative_loop n ?seq (cs @ [c]) s')"
        by (rule builds_weaken) (use s'(3) next_ok(4) in auto)
    qed
    then show "builds ?s (at s) ?P (bindR (?seq (next_branch ?s)) (\<lambda>(c, s). alternative_loop n ?seq (cs @ [c]) s))"
      by (rule builds_from [OF _ next_ok(2)])
  qed (use Suc.prems in simp)
qed simp

end

text \<open>Groups nest at most 64 deep: with what is left of the depth as its argument, the parser of
  alternatives never runs out of it.\<close>

lemma Disjunction_builds:
  assumes t: "tables_ok t" and "tree_ok s" "depth s + n = 65" "depth s \<le> 64"
  shows "builds s (at s) node_of (Disjunction n t s)"
  using assms(2-)
proof (induction n arbitrary: s)
  case 0
  then show ?case by simp
next
  case (Suc n)
  define d s1 where "d = Suc (depth s)"
    and "s1 = s\<lparr>depth := d, branch_path := branch_path s @ [(disjunction_count s, 0)],
                 disjunction_count := disjunction_count s + 1\<rparr>"
  let ?seq = "Sequence (Atom (Disjunction n t) t)"
  let ?finish = "\<lambda>cs s. let s = s\<lparr>branch_path := butlast (branch_path s), depth := depth s - 1\<rparr>
                   in if length cs = 1 then Inr (hd cs, s)
                      else Add ((blank s KAlternative)\<lparr>children := cs\<rparr>) s"
  show ?case
  proof (cases "64 < d")
    case False
    have grp: "group_parser t d (Disjunction n t)"
      by (rule group_parser.intro, rule Suc.IH) (use Suc.prems False in \<open>simp_all add: d_def\<close>)
    note Seq = group_parser.Sequence_builds [OF grp t] and Alt = group_parser.alternative_loop_builds [OF grp t]
    have s1: "tree_ok s1" "depth s1 = d" "at s1 = at s" using Suc.prems(1) by (simp_all add: s1_def)
    have fin: "builds s (at s) node_of (?finish cs s3)"
      if s3: "tree_ok s3" "grows s1 s3" "cs \<noteq> []" "\<forall>c \<in> set cs. node_of c s3" for cs s3
    proof -
      let ?s = "s3\<lparr>branch_path := butlast (branch_path s3), depth := depth s3 - 1\<rparr>"
      have ok: "tree_ok ?s" "grows s ?s" "at s \<le> at ?s"
        using s3(1,2) by (auto simp: grows_def s1_def d_def)
      have "builds s (at s) node_of (Add ((blank ?s KAlternative)\<lparr>children := cs\<rparr>) ?s)"
        by (rule builds_from [OF builds_weaken [OF list_node_builds [OF ok(1)]] ok(2)]) (use s3 ok(3) in auto)
      then show ?thesis using ok s3(3,4) by (auto simp: Let_def)
    qed
    have alt: "builds s (at s) node_of (bindR (alternative_loop (steps_left s2) ?seq [c] s2) (\<lambda>(cs, s). ?finish cs s))"
      if s2: "tree_ok s2" "grows s1 s2" "node_of c s2" for c s2
    proof -
      have "builds s2 (at s2) (\<lambda>cs s'. cs \<noteq> [] \<and> (\<forall>c \<in> set cs. node_of c s')) (alternative_loop (steps_left s2) ?seq [c] s2)"
        by (rule Alt) (use s2 s1(2) growsD(5) [OF s2(2)] in \<open>simp_all add: steps_left_def\<close>)
      then show ?thesis
        by (rule builds_post, unfold prod.case) (rule fin, auto intro: grows_trans [OF s2(2)])
    qed
    have "builds s (at s) node_of (bindR (?seq s1) (\<lambda>(c, s). bindR (alternative_loop (steps_left s) ?seq [c] s) (\<lambda>(cs, s). ?finish cs s)))"
      by (rule builds_post [OF Seq [OF s1(1,2)]], unfold prod.case) (rule alt)
    then show ?thesis using False by (simp add: Let_def s1_def d_def)
  qed (simp add: d_def Let_def)
qed

interpretation grammar: group_parser t 0 "Disjunction 65 t" for t
  by unfold_locales (simp add: Disjunction_builds)

end
