(* ===== verification/GrepCompile.thy ===== *)
theory GrepCompile
  imports GrepTree
begin

text \<open>
  The second half of the constructor of \<open>GrepVM\<close> (\<open>native/runner/grep_vm.h\<close>): resolution of named
  references, the translation of the syntax tree into instructions (\<open>Emit\<close>, \<open>Compile\<close>), the size
  estimate that decides whether the automaton engine may take over, and the constructor itself.
  The arena is walked by index; the walk is bounded by the index, since children precede parents.
\<close>

definition disjoint_branches :: "named_capture \<Rightarrow> named_capture \<Rightarrow> bool" where
  "disjoint_branches a b \<longleftrightarrow>
     (\<exists>l \<in> set (nc_branches a). \<exists>r \<in> set (nc_branches b). fst l = fst r \<and> snd l \<noteq> snd r)"

fun pairwise_disjoint :: "named_capture list \<Rightarrow> bool" where
  "pairwise_disjoint [] = True"
| "pairwise_disjoint (c # cs) \<longleftrightarrow> list_all (disjoint_branches c) cs \<and> pairwise_disjoint cs"

definition resolve_node :: "(nat list \<times> named_capture list) list \<Rightarrow> node \<Rightarrow> node result" where
  "resolve_node ns node =
     (if kind node = KReference \<and> reference node \<noteq> []
      then case map_of ns (reference node) of
             None \<Rightarrow> Inl (Fail ''unknown named reference'')
           | Some groups \<Rightarrow> Inr (node\<lparr>node_captures := node_captures node @ map nc_group groups\<rparr>)
      else Inr node)"

definition ResolveReferences :: "vm \<Rightarrow> vm result" where
  "ResolveReferences s =
     (if capture_count s \<noteq> total_captures s then Inl (Fail ''capture count parser mismatch'')
      else if \<not> list_all (\<lambda>(name, groups). pairwise_disjoint groups) (names s)
      then Inl (Fail ''duplicate capture names can match in the same alternative'')
      else bindR (mapR (resolve_node (names s)) (nodes s)) (\<lambda>ns. Inr (s\<lparr>nodes := ns\<rparr>)))"

definition new_instruction :: "opcode \<Rightarrow> instruction" where
  "new_instruction op = \<lparr>i_op = op, i_next = none, i_other = none, i_node = none, i_group = 0, i_direction = 1\<rparr>"

definition Emit :: "instruction \<Rightarrow> nat parse" where
  "Emit instr s =
     (if 32768 \<le> length (code s) then Inl (Fail ''instruction capacity32768 exceeded'')
      else Inr (length (code s), s\<lparr>code := code s @ [instr]\<rparr>))"

fun sequence_code :: "(nat \<Rightarrow> nat \<Rightarrow> nat parse) \<Rightarrow> nat list \<Rightarrow> nat \<Rightarrow> nat parse" where
  "sequence_code compile [] nxt s = Inr (nxt, s)"
| "sequence_code compile (c # cs) nxt s =
     bindR (compile c nxt s) (\<lambda>(nxt, s). sequence_code compile cs nxt s)"

fun alternative_code :: "(nat \<Rightarrow> nat parse) \<Rightarrow> nat list \<Rightarrow> nat \<Rightarrow> nat parse" where
  "alternative_code compile [] current s = Inr (current, s)"
| "alternative_code compile (c # cs) current s =
     bindR (compile c s) (\<lambda>(first, s).
     bindR (Emit ((new_instruction Split)\<lparr>i_next := first, i_other := current\<rparr>) s) (\<lambda>(current, s).
     alternative_code compile cs current s))"

definition repeat_code :: "(nat \<Rightarrow> nat parse) \<Rightarrow> nat \<Rightarrow> node \<Rightarrow> int \<Rightarrow> nat \<Rightarrow> nat parse" where
  "repeat_code body_code i node direction nxt s =
     bindR (Emit ((new_instruction LoopDecide)\<lparr>i_other := nxt, i_node := i, i_group := loop node,
                    i_direction := direction\<rparr>) s) (\<lambda>(decide, s).
     bindR (Emit ((new_instruction LoopStep)\<lparr>i_next := decide, i_node := i, i_group := loop node,
                    i_direction := direction\<rparr>) s) (\<lambda>(step, s).
     bindR (body_code step s) (\<lambda>(body, s).
     bindR (Emit ((new_instruction Clear)\<lparr>i_next := body, i_node := i\<rparr>) s) (\<lambda>(clear, s).
     bindR (Emit ((new_instruction LoopStart)\<lparr>i_next := clear, i_node := i, i_group := loop node\<rparr>) s) (\<lambda>(entry, s).
     bindR (nthR (code s) decide) (\<lambda>instr.
     Emit ((new_instruction LoopInit)\<lparr>i_next := decide, i_node := i, i_group := loop node\<rparr>)
       (s\<lparr>code := (code s)[decide := instr\<lparr>i_next := entry\<rparr>]\<rparr>)))))))"

primrec Compile :: "nat \<Rightarrow> nat \<Rightarrow> int \<Rightarrow> nat \<Rightarrow> nat parse" where
  "Compile 0 i direction nxt s = Inl Out_of_fuel"
| "Compile (Suc n) i direction nxt s =
     bindR (nthR (nodes s) i) (\<lambda>node.
       case kind node of
         KEmpty \<Rightarrow> Inr (nxt, s)
       | KSequence \<Rightarrow>
           sequence_code (\<lambda>c. Compile n c direction)
             (if 0 < direction then rev (children node) else children node) nxt s
       | KAlternative \<Rightarrow>
           (case rev (children node) of
              [] \<Rightarrow> Inl Undefined_behaviour
            | c # cs \<Rightarrow>
                bindR (Compile n c direction nxt s) (\<lambda>(current, s).
                alternative_code (\<lambda>c. Compile n c direction nxt) cs current s))
       | KCapture \<Rightarrow>
           bindR (Emit ((new_instruction SaveEnd)\<lparr>i_next := nxt, i_node := i, i_group := capture node,
                          i_direction := direction\<rparr>) s) (\<lambda>(end_save, s).
           bindR (nthR (children node) 0) (\<lambda>child.
           bindR (Compile n child direction end_save s) (\<lambda>(body, s).
           Emit ((new_instruction SaveStart)\<lparr>i_next := body, i_node := i, i_group := capture node,
                   i_direction := direction\<rparr>) s)))
       | KAssert \<Rightarrow>
           bindR (nthR (children node) 0) (\<lambda>child.
           bindR (Emit (new_instruction Accept) s) (\<lambda>(accept, s).
           bindR (Compile n child (if behind node then -1 else 1) accept s) (\<lambda>(body, s).
           Emit ((new_instruction OpAssert)\<lparr>i_next := nxt, i_other := body, i_node := i\<rparr>) s)))
       | KRepeat \<Rightarrow>
           repeat_code (\<lambda>step s. bindR (nthR (children node) 0) (\<lambda>child. Compile n child direction step s))
             i node direction nxt s
       | KCharacter \<Rightarrow>
           (let count = vm_range_count s + length (node_ranges node) +
                  sum_list (map (\<lambda>str. length str + 1) (node_strings node))
            in if 262144 < count then Inl (Fail ''range capacity262144 exceeded'')
               else Emit ((new_instruction OpCharacter)\<lparr>i_next := nxt, i_node := i, i_direction := direction\<rparr>)
                      (s\<lparr>vm_range_count := count\<rparr>))
       | KReference \<Rightarrow>
           Emit ((new_instruction OpReference)\<lparr>i_next := nxt, i_node := i, i_group := capture node,
                   i_direction := direction\<rparr>) s
       | KBegin \<Rightarrow> Emit ((new_instruction OpBegin)\<lparr>i_next := nxt, i_node := i\<rparr>) s
       | KEnd \<Rightarrow> Emit ((new_instruction OpEnd)\<lparr>i_next := nxt, i_node := i\<rparr>) s
       | KBoundary \<Rightarrow> Emit ((new_instruction OpBoundary)\<lparr>i_next := nxt, i_node := i\<rparr>) s
       | KNonBoundary \<Rightarrow> Emit ((new_instruction OpNonBoundary)\<lparr>i_next := nxt, i_node := i\<rparr>) s)"

text \<open>The constructor. \<open>Disjunction\<close> starts with the whole nesting depth left.\<close>

definition GrepVM :: "unicode_tables \<Rightarrow> nat list \<Rightarrow> flags \<Rightarrow> vm result" where
  "GrepVM t src f =
     (let s = new_vm src f
      in if 4096 < length src then Inl (Fail ''pattern capacity4096 exceeded'')
         else bindR (CountCaptures s) (\<lambda>(count, s).
              bindR (Disjunction 65 t (s\<lparr>total_captures := count\<rparr>)) (\<lambda>(r, s).
                if at s \<noteq> length (source s) then Inl (Fail ''unexpected closing delimiter'')
                else bindR (ResolveReferences (s\<lparr>root := r\<rparr>)) (\<lambda>s.
                     bindR (Emit (new_instruction Accept) s) (\<lambda>(accept, s).
                     bindR (Compile (length (nodes s)) r 1 accept s) (\<lambda>(entry, s).
                     Inr (s\<lparr>start := entry\<rparr>)))))))"

text \<open>The size estimate: the pair of states and ranges, each saturating at its capacity.\<close>

primrec Estimate :: "nat \<Rightarrow> node list \<Rightarrow> nat \<Rightarrow> (nat \<times> nat) result" where
  "Estimate 0 ns i = Inl Out_of_fuel"
| "Estimate (Suc n) ns i =
     bindR (nthR ns i) (\<lambda>node.
       if kind node = KCharacter then Inr (1, length (node_ranges node))
       else if children node = [] then Inr (1, 0)
       else bindR (mapR (Estimate n ns) (children node)) (\<lambda>sizes.
         let states = foldl (\<lambda>a size. min 2048 (a + fst size)) 0 sizes;
             rs = foldl (\<lambda>a size. min 16384 (a + snd size)) 0 sizes
         in if kind node = KRepeat then
              (let copies = (if maximum node = infinity then min 2048 (minimum node) + 1 else min 2048 (maximum node))
               in Inr (min 2048 ((states + 1) * copies + 2), min 16384 (rs * copies)))
            else if kind node = KAlternative then Inr (min 2048 (states + length (children node)), rs)
            else Inr (states, rs)))"

definition RequiresVM :: "vm \<Rightarrow> bool" where
  "RequiresVM s \<longleftrightarrow> advanced s \<or> Unicode (vm_flags s)"

definition CanUseNFA :: "vm \<Rightarrow> bool result" where
  "CanUseNFA s =
     bindR (Estimate (length (nodes s)) (nodes s) (root s)) (\<lambda>size.
     Inr (\<not> RequiresVM s \<and> fst size < 2048 \<and> snd size < 16384))"

definition StateCount :: "vm \<Rightarrow> nat" where
  "StateCount s = length (code s)"

definition RangeCount :: "vm \<Rightarrow> nat" where
  "RangeCount s = vm_range_count s"

section \<open>Well-formed code\<close>

text \<open>
  An instruction is well formed against an arena, the numbers of captures and loops, and a code
  length: its successors are instructions, its node is a node, and its capture or loop exists.
\<close>

definition instr_ok :: "node list \<Rightarrow> nat \<Rightarrow> nat \<Rightarrow> nat \<Rightarrow> instruction \<Rightarrow> bool" where
  "instr_ok ns caps loops n x \<longleftrightarrow>
     (i_op x \<noteq> Accept \<longrightarrow> i_next x < n) \<and>
     (i_op x \<in> {Split, OpAssert, LoopDecide} \<longrightarrow> i_other x < n) \<and>
     (i_op x \<in> {OpCharacter, Clear, OpAssert, OpReference, OpBegin, OpEnd, OpBoundary, OpNonBoundary, LoopDecide, LoopStep}
        \<longrightarrow> i_node x < length ns) \<and>
     (i_op x \<in> {SaveStart, SaveEnd, OpReference} \<longrightarrow> i_group x \<le> caps) \<and>
     (i_op x \<in> {Clear, OpReference} \<longrightarrow> (\<forall>g \<in> set (node_captures (ns ! i_node x)). g \<le> caps)) \<and>
     (i_op x \<in> {LoopInit, LoopStart, LoopDecide, LoopStep} \<longrightarrow> i_group x < loops)"

definition code_ext :: "node list \<Rightarrow> nat \<Rightarrow> nat \<Rightarrow> instruction list \<Rightarrow> instruction list \<Rightarrow> bool" where
  "code_ext ns caps loops cd cd' \<longleftrightarrow>
     length cd \<le> length cd' \<and> length cd' \<le> 32768 \<and> take (length cd) cd' = cd \<and>
     (\<forall>k. length cd \<le> k \<and> k < length cd' \<longrightarrow> instr_ok ns caps loops (length cd') (cd' ! k))"

definition emits :: "vm \<Rightarrow> (nat \<times> vm) result \<Rightarrow> bool" where
  "emits s m \<longleftrightarrow>
     safeR (\<lambda>(e, s'). s' = s\<lparr>code := code s', vm_range_count := vm_range_count s'\<rparr> \<and> vm_range_count s' \<le> 262144 \<and>
              e < length (code s') \<and> code_ext (nodes s) (total_captures s) (loop_count s) (code s) (code s')) m"

lemma instr_ok_mono: "instr_ok ns c l n x \<Longrightarrow> n \<le> n' \<Longrightarrow> instr_ok ns c l n' x"
  unfolding instr_ok_def by (meson less_le_trans)

lemma code_ext_refl [simp]: "code_ext ns c l cd cd \<longleftrightarrow> length cd \<le> 32768"
  by (auto simp: code_ext_def)

lemma code_ext_nth:
  assumes "code_ext ns c l cd cd'" "k < length cd"
  shows "cd' ! k = cd ! k"
proof -
  have "take (length cd) cd' = cd" using assms(1) by (simp add: code_ext_def)
  then show ?thesis using assms(2) by (metis nth_take)
qed

lemma code_ext_trans:
  assumes "code_ext ns c l cd cd'" "code_ext ns c l cd' cd''"
  shows "code_ext ns c l cd cd''"
proof -
  have len: "length cd \<le> length cd'" "length cd' \<le> length cd''" "length cd'' \<le> 32768"
    using assms by (simp_all add: code_ext_def)
  have "take (length cd) cd'' = take (length cd) (take (length cd') cd'')" using len by (simp add: min_def)
  also have "\<dots> = cd" using assms by (simp add: code_ext_def)
  finally have prefix: "take (length cd) cd'' = cd" .
  have "instr_ok ns c l (length cd'') (cd'' ! k)" if "length cd \<le> k" "k < length cd''" for k
  proof (cases "k < length cd'")
    case True
    then have "instr_ok ns c l (length cd') (cd' ! k)" using assms(1) that by (simp add: code_ext_def)
    then show ?thesis using code_ext_nth [OF assms(2) True] len instr_ok_mono by simp
  next
    case False
    then show ?thesis using assms(2) that by (simp add: code_ext_def)
  qed
  then show ?thesis using len prefix by (simp add: code_ext_def)
qed

lemma code_ext_snoc:
  "length cd < 32768 \<Longrightarrow> instr_ok ns c l (Suc (length cd)) x \<Longrightarrow> code_ext ns c l cd (cd @ [x])"
  by (auto simp: code_ext_def less_Suc_eq nth_append)

lemma emits_Inl [simp]: "emits s (Inl e) \<longleftrightarrow> \<not> fatal e"
  by (simp add: emits_def)

lemma commute_code [simp]: "s\<lparr>vm_range_count := r, code := cd\<rparr> = s\<lparr>code := cd, vm_range_count := r\<rparr>"
  by simp

lemma emits_bind:
  assumes "emits s m"
    and "\<And>e cd rc. e < length cd \<Longrightarrow> rc \<le> 262144 \<Longrightarrow> code_ext (nodes s) (total_captures s) (loop_count s) (code s) cd \<Longrightarrow>
          emits (s\<lparr>code := cd, vm_range_count := rc\<rparr>) (f (e, s\<lparr>code := cd, vm_range_count := rc\<rparr>))"
  shows "emits s (bindR m f)"
proof (cases m)
  case (Inl e)
  then show ?thesis using assms(1) by simp
next
  case (Inr y)
  obtain e s' where y: "y = (e, s')" by (cases y)
  define cd rc where d: "cd = code s'" "rc = vm_range_count s'"
  from assms(1) Inr y have s': "s' = s\<lparr>code := cd, vm_range_count := rc\<rparr>" "rc \<le> 262144" "e < length cd"
    "code_ext (nodes s) (total_captures s) (loop_count s) (code s) cd" by (simp_all add: emits_def d)
  have "emits (s\<lparr>code := cd, vm_range_count := rc\<rparr>) (f (e, s\<lparr>code := cd, vm_range_count := rc\<rparr>))"
    by (rule assms(2) [OF s'(3,2,4)])
  then have "emits s (f (e, s\<lparr>code := cd, vm_range_count := rc\<rparr>))"
    unfolding emits_def by (elim wpR_mono2) (auto intro: code_ext_trans [OF s'(4)])
  then show ?thesis using Inr y s'(1) by simp
qed

lemma emits_count: "emits (s\<lparr>vm_range_count := rc\<rparr>) m \<Longrightarrow> emits s m"
  unfolding emits_def by (elim wpR_mono2) auto

lemma emits_safe: "safeR P m \<Longrightarrow> (\<And>x. m = Inr x \<Longrightarrow> P x \<Longrightarrow> emits s (f x)) \<Longrightarrow> emits s (bindR m f)"
  by (cases m) auto

lemma Emit_emits:
  assumes "instr_ok (nodes s) (total_captures s) (loop_count s) (Suc (length (code s))) x" "vm_range_count s \<le> 262144"
  shows "emits s (Emit x s)"
  using assms code_ext_snoc [of "code s"] by (auto simp: Emit_def emits_def)

text \<open>The translation of a sequence and of the tail of an alternative, given that of their elements.\<close>

lemma sequence_code_emits:
  assumes "\<And>c nxt cd rc. c \<in> set cs \<Longrightarrow> nxt < length cd \<Longrightarrow> length cd \<le> 32768 \<Longrightarrow> rc \<le> 262144 \<Longrightarrow>
      emits (s\<lparr>code := cd, vm_range_count := rc\<rparr>) (compile c nxt (s\<lparr>code := cd, vm_range_count := rc\<rparr>))"
    and "nxt < length (code s)" "length (code s) \<le> 32768" "vm_range_count s \<le> 262144"
  shows "emits s (sequence_code compile cs nxt s)"
  using assms
proof (induction cs arbitrary: nxt s)
  case Nil
  then show ?case by (simp add: emits_def)
next
  case (Cons c cs)
  have "emits s (compile c nxt s)" using Cons.prems(1) [of c nxt "code s" "vm_range_count s"] Cons.prems by simp
  then show ?case
    unfolding sequence_code.simps
  proof (rule emits_bind, unfold prod.case)
    fix e cd and rc :: nat
    assume "e < length cd" "rc \<le> 262144" "code_ext (nodes s) (total_captures s) (loop_count s) (code s) cd"
    then show "emits (s\<lparr>code := cd, vm_range_count := rc\<rparr>) (sequence_code compile cs e (s\<lparr>code := cd, vm_range_count := rc\<rparr>))"
      using Cons.prems(1) by (intro Cons.IH) (auto simp: code_ext_def)
  qed
qed

lemma alternative_code_emits:
  assumes "\<And>c cd rc. c \<in> set cs \<Longrightarrow> length (code s) \<le> length cd \<Longrightarrow> length cd \<le> 32768 \<Longrightarrow> rc \<le> 262144 \<Longrightarrow>
      emits (s\<lparr>code := cd, vm_range_count := rc\<rparr>) (compile c (s\<lparr>code := cd, vm_range_count := rc\<rparr>))"
    and "current < length (code s)" "length (code s) \<le> 32768" "vm_range_count s \<le> 262144"
  shows "emits s (alternative_code compile cs current s)"
  using assms
proof (induction cs arbitrary: current s)
  case Nil
  then show ?case by (simp add: emits_def)
next
  case (Cons c cs)
  have "emits s (compile c s)" using Cons.prems(1) [of c "code s" "vm_range_count s"] Cons.prems by simp
  then show ?case
    unfolding alternative_code.simps
  proof (rule emits_bind, unfold prod.case)
    fix e cd and rc :: nat
    assume 1: "e < length cd" "rc \<le> 262144" "code_ext (nodes s) (total_captures s) (loop_count s) (code s) cd"
    let ?s = "s\<lparr>code := cd, vm_range_count := rc\<rparr>"
    have len: "length (code s) \<le> length cd" using 1 by (simp add: code_ext_def)
    have "emits ?s (Emit ((new_instruction Split)\<lparr>i_next := e, i_other := current\<rparr>) ?s)"
      by (rule Emit_emits) (use 1 Cons.prems(2) len in \<open>simp_all add: instr_ok_def new_instruction_def\<close>)
    then show "emits ?s (bindR (Emit ((new_instruction Split)\<lparr>i_next := e, i_other := current\<rparr>) ?s)
        (\<lambda>(current, s). alternative_code compile cs current s))"
    proof (rule emits_bind, unfold prod.case)
      fix e' cd' and rc' :: nat
      assume "e' < length cd'" "rc' \<le> 262144" "code_ext (nodes ?s) (total_captures ?s) (loop_count ?s) (code ?s) cd'"
      then show "emits (?s\<lparr>code := cd', vm_range_count := rc'\<rparr>)
          (alternative_code compile cs e' (?s\<lparr>code := cd', vm_range_count := rc'\<rparr>))"
        using Cons.prems(1) len by (intro Cons.IH) (auto simp: code_ext_def)
    qed
  qed
qed

text \<open>A loop: its deciding instruction is emitted first and patched when the body is known.\<close>

lemma code_ext_loop:
  fixes cd0 cd3 :: "instruction list" and dec step clear first init :: instruction
  defines "n \<equiv> length cd0" and "cd6 \<equiv> (cd3 @ [clear, first])[length cd0 := dec] @ [init]"
  assumes body: "code_ext ns c l (cd0 @ [dec0, step]) cd3" and len: "length cd6 \<le> 32768"
    and ok: "instr_ok ns c l (length cd6) dec" "instr_ok ns c l (length cd6) step" "instr_ok ns c l (length cd6) clear"
      "instr_ok ns c l (length cd6) first" "instr_ok ns c l (length cd6) init"
  shows "code_ext ns c l cd0 cd6"
proof -
  have l3: "n + 2 \<le> length cd3" and l6: "length cd6 = length cd3 + 3" using body by (simp_all add: code_ext_def n_def cd6_def)
  have pre: "cd3 ! k = (cd0 @ [dec0, step]) ! k" if "k < n + 2" for k
    using code_ext_nth [OF body] that by (simp add: n_def)
  have nth: "cd6 ! k = (if k = n then dec else if k < length cd3 then cd3 ! k else [clear, first, init] ! (k - length cd3))"
    if "k < length cd6" for k
    using that l3 l6 unfolding cd6_def n_def by (auto simp: nth_append nth_list_update less_Suc_eq)
  have "take n cd6 = cd0"
    by (rule nth_equalityI) (use l3 l6 nth pre in \<open>auto simp: n_def nth_append\<close>)
  moreover have "instr_ok ns c l (length cd6) (cd6 ! k)" if k: "n \<le> k" "k < length cd6" for k
  proof -
    consider "k = n" | "k = Suc n" | "n + 2 \<le> k" "k < length cd3" | "length cd3 \<le> k" using k l3 by linarith
    then show ?thesis
    proof cases
      case 2
      then show ?thesis using nth [OF k(2)] pre [of "Suc n"] l3 ok(2) by (simp add: n_def nth_append)
    next
      case 3
      then have "instr_ok ns c l (length cd3) (cd3 ! k)" using body by (simp add: code_ext_def n_def)
      then show ?thesis using nth [OF k(2)] 3 l6 instr_ok_mono by simp
    next
      case 4
      then have "k = length cd3 \<or> k = length cd3 + 1 \<or> k = length cd3 + 2" using k l6 by linarith
      then show ?thesis using nth [OF k(2)] ok l3 by auto
    qed (use nth [OF k(2)] ok(1) in simp)
  qed
  ultimately show ?thesis using l3 l6 len by (auto simp: code_ext_def n_def)
qed

lemma repeat_code_emits:
  assumes node: "i < length (nodes s)" "loop node < loop_count s" "\<forall>g \<in> set (node_captures (nodes s ! i)). g \<le> total_captures s"
    and nxt: "nxt < length (code s)" and len: "length (code s) \<le> 32768" "vm_range_count s \<le> 262144"
    and body: "\<And>step cd rc. step < length cd \<Longrightarrow> length cd \<le> 32768 \<Longrightarrow> rc \<le> 262144 \<Longrightarrow>
      emits (s\<lparr>code := cd, vm_range_count := rc\<rparr>) (body_code step (s\<lparr>code := cd, vm_range_count := rc\<rparr>))"
  shows "emits s (repeat_code body_code i node direction nxt s)"
proof -
  let ?n = "length (code s)" and ?ns = "nodes s" and ?c = "total_captures s" and ?l = "loop_count s"
  let ?dec = "(new_instruction LoopDecide)\<lparr>i_other := nxt, i_node := i, i_group := loop node, i_direction := direction\<rparr>"
  let ?step = "(new_instruction LoopStep)\<lparr>i_next := ?n, i_node := i, i_group := loop node, i_direction := direction\<rparr>"
  let ?clear = "\<lambda>e. (new_instruction Clear)\<lparr>i_next := e, i_node := i\<rparr>"
  let ?entry = "\<lambda>k. (new_instruction LoopStart)\<lparr>i_next := k, i_node := i, i_group := loop node\<rparr>"
  let ?init = "(new_instruction LoopInit)\<lparr>i_next := ?n, i_node := i, i_group := loop node\<rparr>"
  let ?s2 = "s\<lparr>code := code s @ [?dec, ?step]\<rparr>"
  have fin: "emits s (bindR (Emit (?clear e) s3) (\<lambda>(clear, s).
     bindR (Emit (?entry clear) s) (\<lambda>(entry, s).
     bindR (nthR (code s) ?n) (\<lambda>instr.
     Emit ?init (s\<lparr>code := (code s)[?n := instr\<lparr>i_next := entry\<rparr>]\<rparr>)))))"
    if s3: "s3 = s\<lparr>code := cd, vm_range_count := rc\<rparr>" "e < length cd" "rc \<le> 262144" "code_ext ?ns ?c ?l (code s @ [?dec, ?step]) cd"
    for e s3 cd rc
  proof (cases "length cd + 3 \<le> 32768")
    case True
    let ?cd5 = "cd @ [?clear e, ?entry (length cd)]" and ?dec' = "?dec\<lparr>i_next := Suc (length cd)\<rparr>"
    have len3: "?n + 2 \<le> length cd" using s3(4) by (simp add: code_ext_def)
    have "cd ! ?n = ?dec" using code_ext_nth [OF s3(4), of ?n] by simp
    then have dec: "?cd5 ! ?n = ?dec" using len3 by (simp add: nth_append)
    have "code_ext ?ns ?c ?l (code s) (?cd5[?n := ?dec'] @ [?init])"
      by (rule code_ext_loop [OF s3(4)])
        (use True len3 node nxt s3(2) in \<open>simp_all add: instr_ok_def new_instruction_def\<close>)
    then have "emits s (Inr (Suc (Suc (length cd)), s\<lparr>code := ?cd5[?n := ?dec'] @ [?init], vm_range_count := rc\<rparr>))"
      using s3(3) by (simp add: emits_def)
    then show ?thesis using True len3 dec s3(1) by (simp add: Emit_def nthR_def)
  next
    case False
    have "?n + 2 \<le> length cd" "length cd \<le> 32768" using s3(4) by (simp_all add: code_ext_def)
    then show ?thesis using False s3(1) by (auto simp: Emit_def nthR_def)
  qed
  show ?thesis
  proof (cases "?n + 2 \<le> 32768")
    case True
    have e: "Emit ?dec s = Inr (?n, s\<lparr>code := code s @ [?dec]\<rparr>)"
      "Emit ?step (s\<lparr>code := code s @ [?dec]\<rparr>) = Inr (Suc ?n, ?s2)"
      using True by (simp_all add: Emit_def)
    have eq: "repeat_code body_code i node direction nxt s =
        bindR (body_code (Suc ?n) ?s2) (\<lambda>(e, s3). bindR (Emit (?clear e) s3) (\<lambda>(clear, s).
          bindR (Emit (?entry clear) s) (\<lambda>(entry, s).
          bindR (nthR (code s) ?n) (\<lambda>instr.
          Emit ?init (s\<lparr>code := (code s)[?n := instr\<lparr>i_next := entry\<rparr>]\<rparr>)))))"
      unfolding repeat_code_def by (simp only: e bindR_simps prod.case)
    have "emits ?s2 (body_code (Suc ?n) ?s2)"
      using body [of "Suc ?n" "code s @ [?dec, ?step]" "vm_range_count s"] True len(2) by simp
    then show ?thesis
      unfolding eq by (cases "body_code (Suc ?n) ?s2") (auto simp: emits_def [of ?s2] intro!: fin)
  next
    case False
    then show ?thesis using len(1) by (simp add: repeat_code_def Emit_def)
  qed
qed

lemma Compile_emits:
  assumes "arena_ok s" "capture_count s = total_captures s" "i < length (nodes s)" "i < n"
    and "nxt < length (code s)" "length (code s) \<le> 32768" "vm_range_count s \<le> 262144"
  shows "emits s (Compile n i direction nxt s)"
  using assms
proof (induction n arbitrary: i direction nxt s)
  case (Suc n)
  let ?node = "nodes s ! i" and ?at = "\<lambda>cd rc. s\<lparr>code := cd, vm_range_count := rc\<rparr>"
  have ok: "node_ok (total_captures s) (total_captures s) (loop_count s) (Unicode (vm_flags s)) i ?node"
    using Suc.prems(1-3) by (auto simp: arena_ok_def)
  have child: "emits (?at cd rc) (Compile n c dir nxt' (?at cd rc))"
    if "c \<in> set (children ?node)" "nxt' < length cd" "length cd \<le> 32768" "rc \<le> 262144" for c dir nxt' cd rc
  proof -
    have "c < i" using ok that(1) by (simp add: node_ok_def)
    moreover have "arena_ok (?at cd rc)" using Suc.prems(1) by (simp add: arena_ok_def)
    ultimately show ?thesis by (intro Suc.IH) (use that Suc.prems in simp_all)
  qed
  have child_s: "emits s (Compile n c dir nxt s)" if "c \<in> set (children ?node)" for c dir
    using child [OF that, of nxt "code s" "vm_range_count s"] Suc.prems by simp
  have emit: "emits (?at cd rc) (Emit x (?at cd rc))"
    if "instr_ok (nodes s) (total_captures s) (loop_count s) (Suc (length cd)) x" "rc \<le> 262144" for cd rc x
    by (rule Emit_emits) (use that in simp_all)
  note emit_s = emit [of "code s" _ "vm_range_count s", simplified]
  have one: "children ?node ! 0 \<in> set (children ?node)" "children ?node \<noteq> []" if "kind ?node \<in> {KCapture, KAssert, KRepeat}"
    using that ok by (auto simp: node_ok_def length_Suc_conv)
  show ?case
  proof (cases "kind ?node")
    case KCapture
    let ?save = "\<lambda>op nxt. (new_instruction op)\<lparr>i_next := nxt, i_node := i, i_group := capture ?node, i_direction := direction\<rparr>"
    have "emits s (bindR (Emit (?save SaveEnd nxt) s) (\<lambda>(end_save, s).
           bindR (Compile n (children ?node ! 0) direction end_save s) (\<lambda>(body, s). Emit (?save SaveStart body) s)))"
    proof (rule emits_bind [OF emit_s])
      fix e cd and rc :: nat
      assume cd: "e < length cd" "rc \<le> 262144" "code_ext (nodes s) (total_captures s) (loop_count s) (code s) cd"
      have "emits (?at cd rc) (bindR (Compile n (children ?node ! 0) direction e (?at cd rc)) (\<lambda>(body, s). Emit (?save SaveStart body) s))"
        by (rule emits_bind [OF child])
          (use one cd KCapture ok emit in \<open>auto simp: code_ext_def instr_ok_def new_instruction_def node_ok_def\<close>)
      then show "emits (?at cd rc) (case (e, ?at cd rc) of (end_save, s) \<Rightarrow>
           bindR (Compile n (children ?node ! 0) direction end_save s) (\<lambda>(body, s). Emit (?save SaveStart body) s))" by simp
    qed (use Suc.prems KCapture ok in \<open>auto simp: instr_ok_def new_instruction_def node_ok_def\<close>)
    then show ?thesis using KCapture one Suc.prems(3) by (simp add: nthR_def)
  next
    case KAssert
    have "emits s (bindR (Emit (new_instruction Accept) s) (\<lambda>(accept, s).
           bindR (Compile n (children ?node ! 0) (if behind ?node then -1 else 1) accept s) (\<lambda>(body, s).
           Emit ((new_instruction OpAssert)\<lparr>i_next := nxt, i_other := body, i_node := i\<rparr>) s)))"
    proof (rule emits_bind [OF emit_s])
      fix e cd and rc :: nat
      assume cd: "e < length cd" "rc \<le> 262144" "code_ext (nodes s) (total_captures s) (loop_count s) (code s) cd"
      have "emits (?at cd rc) (bindR (Compile n (children ?node ! 0) (if behind ?node then -1 else 1) e (?at cd rc)) (\<lambda>(body, s).
           Emit ((new_instruction OpAssert)\<lparr>i_next := nxt, i_other := body, i_node := i\<rparr>) s))"
        by (rule emits_bind [OF child])
          (use one cd KAssert ok Suc.prems emit in \<open>auto simp: code_ext_def instr_ok_def new_instruction_def node_ok_def\<close>)
      then show "emits (?at cd rc) (case (e, ?at cd rc) of (accept, s) \<Rightarrow>
           bindR (Compile n (children ?node ! 0) (if behind ?node then -1 else 1) accept s) (\<lambda>(body, s).
           Emit ((new_instruction OpAssert)\<lparr>i_next := nxt, i_other := body, i_node := i\<rparr>) s))" by simp
    qed (use Suc.prems in \<open>auto simp: instr_ok_def new_instruction_def\<close>)
    then show ?thesis using KAssert one Suc.prems(3) by (simp add: nthR_def)
  next
    case KRepeat
    have "emits s (repeat_code (\<lambda>step s. bindR (nthR (children ?node) 0) (\<lambda>child. Compile n child direction step s))
             i ?node direction nxt s)"
      by (rule repeat_code_emits) (use Suc.prems KRepeat ok one child in \<open>auto simp: nthR_def node_ok_def\<close>)
    then show ?thesis using KRepeat Suc.prems(3) by (simp add: nthR_def)
  next
    case KSequence
    have "emits s (sequence_code (\<lambda>c. Compile n c direction)
             (if 0 < direction then rev (children ?node) else children ?node) nxt s)"
      by (rule sequence_code_emits) (use child Suc.prems in \<open>auto split: if_splits\<close>)
    then show ?thesis using KSequence Suc.prems(3) by (simp add: nthR_def)
  next
    case KAlternative
    obtain c cs where cs: "rev (children ?node) = c # cs" using KAlternative ok by (cases "rev (children ?node)") (auto simp: node_ok_def)
    then have mem: "set (children ?node) = insert c (set cs)" by (metis list.set(2) set_rev)
    have "emits s (bindR (Compile n c direction nxt s) (\<lambda>(current, s).
                alternative_code (\<lambda>c. Compile n c direction nxt) cs current s))"
    proof (rule emits_bind [OF child_s], unfold prod.case)
      show "c \<in> set (children ?node)" by (simp add: mem)
      fix e cd and rc :: nat
      assume cd: "e < length cd" "rc \<le> 262144" "code_ext (nodes s) (total_captures s) (loop_count s) (code s) cd"
      show "emits (?at cd rc) (alternative_code (\<lambda>c. Compile n c direction nxt) cs e (?at cd rc))"
        by (rule alternative_code_emits) (use child mem cd Suc.prems in \<open>auto simp: code_ext_def\<close>)
    qed
    then show ?thesis using KAlternative cs Suc.prems(3) by (simp add: nthR_def)
  next
    case KCharacter
    let ?rc = "vm_range_count s + length (node_ranges ?node) + sum_list (map (\<lambda>str. length str + 1) (node_strings ?node))"
    have "emits s (Emit ((new_instruction OpCharacter)\<lparr>i_next := nxt, i_node := i, i_direction := direction\<rparr>)
                      (s\<lparr>vm_range_count := ?rc\<rparr>))" if "?rc \<le> 262144"
      by (rule emits_count, rule Emit_emits) (use that Suc.prems in \<open>simp_all add: instr_ok_def new_instruction_def\<close>)
    then show ?thesis using KCharacter Suc.prems(3) by (auto simp: nthR_def Let_def not_less)
  qed (use Suc.prems emit_s ok in \<open>auto simp: nthR_def instr_ok_def new_instruction_def node_ok_def emits_def\<close>)
qed simp

section \<open>The constructor\<close>

text \<open>A well-formed compiled expression.\<close>

definition vm_ok :: "vm \<Rightarrow> bool" where
  "vm_ok s \<longleftrightarrow>
     arena_ok s \<and> capture_count s = total_captures s \<and> total_captures s \<le> 128 \<and> length (nodes s) \<le> 4096 \<and>
     root s < length (nodes s) \<and> start s < length (code s) \<and> length (code s) \<le> 32768 \<and> vm_range_count s \<le> 262144 \<and>
     (\<forall>x \<in> set (code s). instr_ok (nodes s) (total_captures s) (loop_count s) (length (code s)) x)"

lemma count_loop_safe:
  "count \<le> 128 \<Longrightarrow> safeR (\<lambda>(n, _). n \<le> 128) (count_loop usets us count cd esc named)"
  by (induction usets us count cd esc named rule: count_loop.induct) (auto simp: Let_def)

lemma CountCaptures_safe:
  "safeR (\<lambda>(n, s'). n \<le> 128 \<and> (\<exists>b. s' = s\<lparr>has_named := b\<rparr>)) (CountCaptures s)"
  using count_loop_safe [of 0 "unicode_sets (vm_flags s)" "source s" 0 False "has_named s"]
  unfolding CountCaptures_def by (auto elim!: wpR_mono)

lemma resolve_node_safe:
  assumes "\<forall>(name, cs) \<in> set ns. \<forall>c \<in> set cs. nc_group c \<le> k"
  shows "safeR (\<lambda>n'. \<exists>gs. n' = n\<lparr>node_captures := node_captures n @ gs\<rparr> \<and> (\<forall>g \<in> set gs. g \<le> k)) (resolve_node ns n)"
proof (cases "kind n = KReference \<and> reference n \<noteq> []")
  case True
  show ?thesis
  proof (cases "map_of ns (reference n)")
    case (Some gs)
    have "\<forall>g \<in> set (map nc_group gs). g \<le> k" using assms map_of_SomeD [OF Some] by fastforce
    then show ?thesis using True Some by (simp add: resolve_node_def) (intro exI [of _ "map nc_group gs"] conjI; simp)
  qed (use True in \<open>simp add: resolve_node_def\<close>)
next
  case False
  have "n = n\<lparr>node_captures := node_captures n @ []\<rparr>" by simp
  then show ?thesis using False unfolding resolve_node_def
    by (simp only: if_False wpR_simps) (metis empty_iff list.set(1))
qed

lemma ResolveReferences_safe:
  assumes "tree_ok s"
  shows "safeR (\<lambda>s'. capture_count s = total_captures s \<and> arena_ok s' \<and>
           (\<exists>ns. s' = s\<lparr>nodes := ns\<rparr> \<and> length ns = length (nodes s))) (ResolveReferences s)"
proof -
  let ?P = "\<lambda>n n'. \<exists>gs. n' = n\<lparr>node_captures := node_captures n @ gs\<rparr> \<and> (\<forall>g \<in> set gs. g \<le> capture_count s)"
  have "safeR (list_all2 ?P (nodes s)) (mapR (resolve_node (names s)) (nodes s))"
    by (rule wpR_mapR, rule resolve_node_safe) (use assms in \<open>simp add: tree_ok_def names_ok_def\<close>)
  moreover have "arena_ok (s\<lparr>nodes := ns\<rparr>) \<and> length ns = length (nodes s)" if "list_all2 ?P (nodes s) ns" for ns
  proof -
    have "node_ok c t l u i n'" if "node_ok c t l u i n" "n' = n\<lparr>node_captures := node_captures n @ gs\<rparr>" "\<forall>g \<in> set gs. g \<le> c"
      for c t l u i n n' gs
      using that by (auto simp: node_ok_def)
    then show ?thesis
      using assms list_all2_lengthD [OF that] list_all2_nthD [OF that]
      unfolding tree_ok_def arena_ok_def by (fastforce simp del: ex_simps)
  qed
  ultimately show ?thesis
    unfolding ResolveReferences_def by (auto elim!: wpR_mono)
qed

text \<open>The steps of the constructor after the captures have been counted.\<close>

lemma tree_ok_new:
  "\<forall>u \<in> set src. u \<le> 65535 \<Longrightarrow> tree_ok ((new_vm src f)\<lparr>has_named := b, total_captures := n\<rparr>)"
  by (simp add: tree_ok_def inside_def units_ok_def arena_ok_def names_ok_def new_vm_def)

lemma compile_program:
  assumes "arena_ok s" "capture_count s = total_captures s" "total_captures s \<le> 128" "length (nodes s) \<le> 4096"
    "root s = r" "r < length (nodes s)" "code s = []" "vm_range_count s = 0"
  shows "safeR (\<lambda>s'. vm_ok s' \<and> source s' = source s \<and> vm_flags s' = vm_flags s)
    (bindR (Emit (new_instruction Accept) s) (\<lambda>(accept, s).
     bindR (Compile (length (nodes s)) r 1 accept s) (\<lambda>(entry, s). Inr (s\<lparr>start := entry\<rparr>))))"
proof -
  let ?s = "s\<lparr>code := [new_instruction Accept]\<rparr>"
  have e: "Emit (new_instruction Accept) s = Inr (0, ?s)" using assms(7) by (simp add: Emit_def)
  have "emits ?s (Compile (length (nodes ?s)) r 1 0 ?s)"
    by (rule Compile_emits) (use assms in \<open>simp_all add: arena_ok_def\<close>)
  then have "safeR (\<lambda>(entry, s'). vm_ok (s'\<lparr>start := entry\<rparr>) \<and> source s' = source s \<and> vm_flags s' = vm_flags s)
      (Compile (length (nodes ?s)) r 1 0 ?s)"
    unfolding emits_def
  proof (rule wpR_mono, clarify)
    fix entry s'
    assume s': "s' = ?s\<lparr>code := code s', vm_range_count := vm_range_count s'\<rparr>" "vm_range_count s' \<le> 262144"
      "entry < length (code s')" and ext: "code_ext (nodes ?s) (total_captures ?s) (loop_count ?s) (code ?s) (code s')"
    define cd rc where "cd = code s'" and "rc = vm_range_count s'"
    have "instr_ok (nodes s) (total_captures s) (loop_count s) (length cd) (cd ! k)" if "k < length cd" for k
    proof (cases k)
      case 0
      then show ?thesis using code_ext_nth [OF ext, of 0] by (simp add: cd_def instr_ok_def new_instruction_def)
    next
      case (Suc j)
      then show ?thesis using ext that by (simp add: code_ext_def cd_def)
    qed
    then have "\<forall>x \<in> set cd. instr_ok (nodes s) (total_captures s) (loop_count s) (length cd) x"
      by (simp add: all_set_conv_all_nth)
    moreover have eq: "s' = s\<lparr>code := cd, vm_range_count := rc\<rparr>" using s'(1) by (simp add: cd_def rc_def)
    ultimately show "vm_ok (s'\<lparr>start := entry\<rparr>) \<and> source s' = source s \<and> vm_flags s' = vm_flags s"
      using assms s'(2,3) ext by (simp add: vm_ok_def arena_ok_def code_ext_def cd_def [symmetric] rc_def [symmetric])
  qed
  then show ?thesis by (simp add: e case_prod_unfold)
qed

lemma GrepVM_safe:
  assumes t: "tables_ok t" and src: "\<forall>u \<in> set src. u \<le> 65535"
  shows "safeR (\<lambda>s. vm_ok s \<and> source s = src \<and> vm_flags s = f) (GrepVM t src f)"
proof -
  let ?P = "\<lambda>s. vm_ok s \<and> source s = src \<and> vm_flags s = f"
  let ?rest = "\<lambda>(r, s). if at s \<noteq> length (source s) then Inl (Fail ''unexpected closing delimiter'')
                else bindR (ResolveReferences (s\<lparr>root := r\<rparr>)) (\<lambda>s.
                     bindR (Emit (new_instruction Accept) s) (\<lambda>(accept, s).
                     bindR (Compile (length (nodes s)) r 1 accept s) (\<lambda>(entry, s).
                     Inr (s\<lparr>start := entry\<rparr>))))"
  have parsed: "safeR ?P (?rest (r, s))"
    if s: "tree_ok s" "grows ((new_vm src f)\<lparr>has_named := b, total_captures := n\<rparr>) s" "node_of r s" and n: "n \<le> 128" for r s b n
  proof -
    let ?s = "s\<lparr>root := r\<rparr>"
    have ok: "tree_ok ?s" using s(1) by (simp add: tree_ok_def arena_ok_def names_ok_def inside_def units_ok_def)
    have old: "source s = src" "vm_flags s = f" "total_captures s = n" "code s = []" "vm_range_count s = 0"
      using s(2) by (simp_all add: grows_def new_vm_def)
    show ?thesis
      unfolding prod.case
    proof (rule safe_if, simp, rule wpR_bindI [OF ResolveReferences_safe [OF ok]])
      fix s' assume s': "capture_count ?s = total_captures ?s \<and> arena_ok s' \<and> (\<exists>ns. s' = ?s\<lparr>nodes := ns\<rparr> \<and> length ns = length (nodes ?s))"
      then have "safeR (\<lambda>s''. vm_ok s'' \<and> source s'' = source s' \<and> vm_flags s'' = vm_flags s')
         (bindR (Emit (new_instruction Accept) s') (\<lambda>(accept, s).
          bindR (Compile (length (nodes s)) r 1 accept s) (\<lambda>(entry, s). Inr (s\<lparr>start := entry\<rparr>))))"
        by (intro compile_program) (use old s(1,3) n in \<open>auto simp: tree_ok_def\<close>)
      then show "safeR ?P (bindR (Emit (new_instruction Accept) s') (\<lambda>(accept, s).
          bindR (Compile (length (nodes s)) r 1 accept s) (\<lambda>(entry, s). Inr (s\<lparr>start := entry\<rparr>))))"
        by (rule wpR_mono) (use s' old in auto)
    qed
  qed
  have counted: "safeR ?P (bindR (Disjunction 65 t (s\<lparr>total_captures := n\<rparr>)) ?rest)"
    if start: "n \<le> 128 \<and> (\<exists>b. s = (new_vm src f)\<lparr>has_named := b\<rparr>)" for n s
  proof -
    obtain b where s: "s\<lparr>total_captures := n\<rparr> = (new_vm src f)\<lparr>has_named := b, total_captures := n\<rparr>" using start by auto
    have "builds (s\<lparr>total_captures := n\<rparr>) (at (s\<lparr>total_captures := n\<rparr>)) node_of (Disjunction 65 t (s\<lparr>total_captures := n\<rparr>))"
      by (rule Disjunction_builds [OF t]) (use tree_ok_new [OF src] s in \<open>simp_all add: new_vm_def\<close>)
    then have "safeR (\<lambda>(r, s'). tree_ok s' \<and> grows ((new_vm src f)\<lparr>has_named := b, total_captures := n\<rparr>) s' \<and> node_of r s')
        (Disjunction 65 t (s\<lparr>total_captures := n\<rparr>))"
      unfolding builds_def s by (rule wpR_mono) auto
    then show ?thesis by (rule wpR_bindI) (use parsed start in auto)
  qed
  show ?thesis
    unfolding GrepVM_def Let_def
    by (rule safe_if, simp, rule wpR_bindI [OF CountCaptures_safe], clarify, rule counted, blast)
qed

section \<open>The size estimate\<close>

lemma Estimate_total:
  assumes "\<forall>i < length ns. \<forall>c \<in> set (children (ns ! i)). c < i"
  shows "i < n \<Longrightarrow> i < length ns \<Longrightarrow> \<exists>p. Estimate n ns i = Inr p"
proof (induction n arbitrary: i)
  case (Suc n)
  have "\<exists>ys. mapR (Estimate n ns) cs = Inr ys" if "\<forall>c \<in> set cs. c < i" for cs
    using that
  proof (induction cs)
    case (Cons c cs)
    obtain p where "Estimate n ns c = Inr p" using Suc.IH [of c] Suc.prems Cons.prems by force
    then show ?case using Cons by auto
  qed simp
  then obtain ys where "mapR (Estimate n ns) (children (ns ! i)) = Inr ys" using assms Suc.prems(2) by blast
  then show ?case using Suc.prems(2) by (simp add: nthR_def Let_def)
qed simp

lemma vm_ok_children: "vm_ok s \<Longrightarrow> \<forall>i < length (nodes s). \<forall>c \<in> set (children (nodes s ! i)). c < i"
  by (simp add: vm_ok_def arena_ok_def node_ok_def)

lemma CanUseNFA_total: "vm_ok s \<Longrightarrow> \<exists>b. CanUseNFA s = Inr b"
  using Estimate_total [OF vm_ok_children, of s "root s" "length (nodes s)"]
  by (auto simp: CanUseNFA_def vm_ok_def)

section \<open>Evaluation of the constructor\<close>

text \<open>The equations that evaluate the constructor on a concrete expression. The loops whose bound is
  a numeral are unfolded once; the nesting depth is counted down as a numeral.\<close>

lemma Disjunction_numeral:
  "Disjunction (numeral k) t s =
     (let s = s\<lparr>depth := depth s + 1\<rparr>
      in if 64 < depth s then Inl (Fail ''group depth64 exceeded'')
         else let s = s\<lparr>branch_path := branch_path s @ [(disjunction_count s, 0)],
                        disjunction_count := disjunction_count s + 1\<rparr>;
                  sequence = Sequence (Atom (Disjunction (pred_numeral k) t) t)
              in bindR (sequence s) (\<lambda>(c, s).
                 bindR (alternative_loop (steps_left s) sequence [c] s) (\<lambda>(cs, s).
                   let s = s\<lparr>branch_path := butlast (branch_path s), depth := depth s - 1\<rparr>
                   in if length cs = 1 then Inr (hd cs, s)
                      else Add ((blank s KAlternative)\<lparr>children := cs\<rparr>) s)))"
  by (simp add: numeral_eq_Suc)

lemma loops_numeral:
  "sequence_loop (numeral k) = sequence_loop (Suc (pred_numeral k))"
  "alternative_loop (numeral k) = alternative_loop (Suc (pred_numeral k))"
  "Compile (numeral k) = Compile (Suc (pred_numeral k))"
  "Estimate (numeral k) = Estimate (Suc (pred_numeral k))"
  by (simp_all add: numeral_eq_Suc)

lemmas constructor_eval =
  GrepVM_def CountCaptures_def new_vm_def plain_flags_def Let_def Sequence_def Term_def Atom_def sees_def
  at_end_def unitR_def Take_def steps_left_def advance_def Point_def Character_def Normalize_def CanonicalRanges_def
  Add_def new_node_def Unicode_def Quantifier_def next_branch_def is_high_def ResolveReferences_def resolve_node_def
  Emit_def new_instruction_def nthR_def loops_numeral Disjunction_numeral

lemma example_vm: "\<exists>s. GrepVM ascii_tables (units ''a|b'') plain_flags = Inr s"
  by (simp add: constructor_eval)

section \<open>Properties\<close>

text \<open>
  C2: the constructor of the backtracking engine is safe and builds well-formed code. On any source of
  16-bit units and any flags it never reads or writes outside a vector, never underflows, and always
  ends; what it throws is one of its own capacity or syntax errors, and what it builds is well formed:
  every instruction's targets, syntax node, capture and loop are in range, the tree is acyclic, and the
  capacities (4096 nodes, 32768 instructions, 262144 ranges, 128 captures) hold.
\<close>

theorem constructor_well_formed:
  assumes "tables_ok t" "\<forall>u \<in> set src. u \<le> 65535"
  shows "case GrepVM t src f of Inl e \<Rightarrow> \<not> fatal e | Inr s \<Rightarrow> vm_ok s \<and> source s = src \<and> vm_flags s = f"
  using GrepVM_safe [OF assms, of f] by (simp add: wpR_def)

theorem constructor_well_formed_witness:
  "\<exists>s. GrepVM ascii_tables (units ''a|b'') plain_flags = Inr s \<and> vm_ok s"
proof -
  obtain s where s: "GrepVM ascii_tables (units ''a|b'') plain_flags = Inr s" using example_vm by blast
  have "\<forall>u \<in> set (units ''a|b''). u \<le> 65535" by simp
  from constructor_well_formed [OF ascii_tables_ok this, of plain_flags] s show ?thesis by auto
qed

text \<open>
  The choice between the two engines is total. For every expression the constructor accepts, the size
  estimate walks the tree to an answer, so \<open>CanUseNFA\<close> returns; and an expression in Unicode mode
  is never given to the automaton engine.
\<close>

theorem engine_choice_total:
  assumes "tables_ok t" "\<forall>u \<in> set src. u \<le> 65535" "GrepVM t src f = Inr s"
  shows "\<exists>b. CanUseNFA s = Inr b \<and> (b \<longrightarrow> \<not> unicode f \<and> \<not> unicode_sets f \<and> \<not> advanced s)"
proof -
  have ok: "vm_ok s" "vm_flags s = f" using GrepVM_safe [OF assms(1,2), of f] assms(3) by auto
  obtain b where b: "CanUseNFA s = Inr b" using CanUseNFA_total [OF ok(1)] by blast
  then have "b \<longrightarrow> \<not> RequiresVM s" by (auto simp: CanUseNFA_def bindR_eq_Inr)
  then show ?thesis using b ok(2) by (auto simp: RequiresVM_def Unicode_def)
qed

theorem engine_choice_total_witness:
  "\<exists>s b. GrepVM ascii_tables (units ''a|b'') plain_flags = Inr s \<and> CanUseNFA s = Inr b"
proof -
  obtain s where s: "GrepVM ascii_tables (units ''a|b'') plain_flags = Inr s" using example_vm by blast
  have "\<forall>u \<in> set (units ''a|b''). u \<le> 65535" by simp
  from engine_choice_total [OF ascii_tables_ok this s] s show ?thesis by blast
qed

end
