(* ===== verification/GrepRun.thy ===== *)
theory GrepRun
  imports GrepCompile
begin

text \<open>
  The backtracking machine of \<open>native/runner/grep_vm.h\<close>: \<open>Run\<close>, with its stack of alternatives, its
  capture and loop snapshots, its account of retained memory, and atomic subruns for assertions;
  and \<open>Matches\<close>, which tries every origin of a title. Every instruction, comparison and snapshot is
  charged to the budget. The loop takes a number of iterations as an argument; one more than
  the budget's remaining units is always enough, since each iteration charges at least one.
\<close>

record vstate =
  pc :: nat
  position :: nat
  captures :: "(nat \<times> nat) list"
  loops :: "(nat \<times> nat) list"

text \<open>The variables of one activation of \<open>Run\<close>; the alternatives are listed with the back first.\<close>

record machine =
  m_state :: vstate
  m_alternatives :: "vstate list"
  m_retained :: nat
  m_memory :: nat
  m_work :: grep_work

datatype status = Running | Failed | Accepted

record run_context =
  c_vm :: vm
  c_tables :: unicode_tables
  c_input :: "nat list"

definition liftW :: "grep_work \<Rightarrow> 'a result \<Rightarrow> 'a worked" where
  "liftW w m = (case m of Inl e \<Rightarrow> Inl (e, w) | Inr x \<Rightarrow> Inr x)"

text \<open>The bytes of a snapshot: \<open>sizeof(State)\<close>, \<open>sizeof(Capture)\<close> and \<open>sizeof(Loop)\<close> of the LP64 ABI.\<close>

definition snapshot_bytes :: "vstate \<Rightarrow> nat" where
  "snapshot_bytes st = 64 + length (captures st) * 16 + length (loops st) * 16"

definition memory_capacity :: nat where
  "memory_capacity = 32 * 1024 * 1024"

definition memory_error :: error where
  "memory_error = Fail ''retained matcher memory capacity32MiB payload exceeded''"

text \<open>The assignment \<open>v[i]=x\<close> to a vector element.\<close>

definition list_setR :: "'a list \<Rightarrow> nat \<Rightarrow> 'a \<Rightarrow> ('a list) result" where
  "list_setR xs i x = (if i < length xs then Inr (xs[i := x]) else Inl Undefined_behaviour)"

section \<open>Instructions\<close>

definition push :: "nat \<Rightarrow> nat \<Rightarrow> nat \<Rightarrow> machine \<Rightarrow> machine worked" where
  "push snapshot target where_to m =
     bindR (Charge (length (captures (m_state m)) + length (loops (m_state m)) + 1) (m_work m)) (\<lambda>w.
       if usub memory_capacity (m_memory m) < snapshot then Inl (memory_error, w)
       else Inr (m\<lparr>m_work := w, m_memory := m_memory m + snapshot, m_retained := m_retained m + snapshot,
              m_alternatives := (m_state m)\<lparr>pc := target,
                 position := (if where_to \<noteq> none then where_to else position (m_state m))\<rparr> # m_alternatives m\<rparr>))"

definition goto :: "nat \<Rightarrow> machine \<Rightarrow> (status \<times> machine) worked" where
  "goto target m = Inr (Running, m\<lparr>m_state := (m_state m)\<lparr>pc := target\<rparr>\<rparr>)"

fun string_loop :: "run_context \<Rightarrow> flags \<Rightarrow> nat \<Rightarrow> nat list \<Rightarrow> grep_work \<Rightarrow> (bool \<times> grep_work) worked" where
  "string_loop c f origin [] w = Inr (True, w)"
| "string_loop c f origin (x # xs) w =
     bindR (Charge 1 w) (\<lambda>w.
     bindR (liftW w (nthR (c_input c) origin)) (\<lambda>unit.
       if Canonical (c_tables c) f unit \<noteq> x then Inr (False, w)
       else string_loop c f (origin + 1) xs w))"

fun strings_loop :: "run_context \<Rightarrow> flags \<Rightarrow> int \<Rightarrow> nat \<Rightarrow> nat list list \<Rightarrow> nat list \<Rightarrow> grep_work \<Rightarrow>
    (nat list \<times> grep_work) worked" where
  "strings_loop c f direction p [] positions w = Inr (positions, w)"
| "strings_loop c f direction p (string # rest) positions w =
     bindR (Charge 1 w) (\<lambda>w.
       if \<not> (if 0 < direction then length string \<le> usub (length (c_input c)) p else length string \<le> p)
       then strings_loop c f direction p rest positions w
       else bindR (string_loop c f (if 0 < direction then p else p - length string) string w) (\<lambda>(matches, w).
         strings_loop c f direction p rest
           (if matches then positions @ [if 0 < direction then p + length string else p - length string]
            else positions) w))"

definition class_position :: "run_context \<Rightarrow> node \<Rightarrow> int \<Rightarrow> nat \<Rightarrow> grep_work \<Rightarrow> (nat list \<times> grep_work) worked" where
  "class_position c node direction p w =
     (if (if 0 < direction then p < length (c_input c) else 0 < p)
      then bindR (liftW w (nthR (c_input c) (if 0 < direction then p else p - 1))) (\<lambda>unit.
           bindR (Contains (node_ranges node)
                    (if raw_ranges node then unit else Canonical (c_tables c) (node_flags node) unit) w) (\<lambda>(found, w).
           Inr (if found then [if 0 < direction then p + 1 else p - 1] else [], w)))
      else Inr ([], w))"

fun push_all :: "nat \<Rightarrow> nat \<Rightarrow> nat list \<Rightarrow> machine \<Rightarrow> machine worked" where
  "push_all snapshot target [] m = Inr m"
| "push_all snapshot target (p # ps) m = bindR (push snapshot target p m) (push_all snapshot target ps)"

definition exec_character :: "run_context \<Rightarrow> nat \<Rightarrow> instruction \<Rightarrow> node \<Rightarrow> machine \<Rightarrow> (status \<times> machine) worked" where
  "exec_character c snapshot instr node m =
     (let p = position (m_state m)
      in bindR (strings_loop c (node_flags node) (i_direction instr) p (node_strings node) [] (m_work m)) (\<lambda>(found, w).
         bindR (class_position c node (i_direction instr) p w) (\<lambda>(single, w).
           let positions = found @ single; m = m\<lparr>m_work := w\<rparr>
           in if positions = [] then Inr (Failed, m)
              else bindR (push_all snapshot (i_next instr) (rev (tl positions)) m) (\<lambda>m.
                Inr (Running, m\<lparr>m_state := (m_state m)\<lparr>position := hd positions, pc := i_next instr\<rparr>\<rparr>)))))"

definition save :: "bool \<Rightarrow> instruction \<Rightarrow> machine \<Rightarrow> (status \<times> machine) worked" where
  "save first_field instr m =
     bindR (liftW (m_work m) (nthR (captures (m_state m)) (i_group instr))) (\<lambda>(a, b).
     bindR (liftW (m_work m) (list_setR (captures (m_state m)) (i_group instr)
              (if first_field then (position (m_state m), b) else (a, position (m_state m))))) (\<lambda>cs.
     goto (i_next instr) (m\<lparr>m_state := (m_state m)\<lparr>captures := cs\<rparr>\<rparr>)))"

fun clear_loop :: "nat list \<Rightarrow> (nat \<times> nat) list \<Rightarrow> grep_work \<Rightarrow> ((nat \<times> nat) list \<times> grep_work) worked" where
  "clear_loop [] cs w = Inr (cs, w)"
| "clear_loop (g # gs) cs w =
     bindR (Charge 1 w) (\<lambda>w.
     bindR (liftW w (list_setR cs g (none, none))) (\<lambda>cs. clear_loop gs cs w))"

fun reference_loop :: "nat list \<Rightarrow> (nat \<times> nat) list \<Rightarrow> nat \<times> nat \<Rightarrow> grep_work \<Rightarrow> ((nat \<times> nat) \<times> grep_work) worked" where
  "reference_loop [] cs own w = Inr (own, w)"
| "reference_loop (g # gs) cs own w =
     bindR (Charge 1 w) (\<lambda>w.
     bindR (liftW w (nthR cs g)) (\<lambda>(a, b).
       if a \<noteq> none \<and> b \<noteq> none then Inr ((a, b), w) else reference_loop gs cs own w))"

fun compare_loop :: "run_context \<Rightarrow> flags \<Rightarrow> nat \<Rightarrow> nat \<Rightarrow> nat \<Rightarrow> grep_work \<Rightarrow> (bool \<times> grep_work) worked" where
  "compare_loop c f 0 a b w = Inr (True, w)"
| "compare_loop c f (Suc n) a b w =
     bindR (Charge 1 w) (\<lambda>w.
     bindR (liftW w (nthR (c_input c) a)) (\<lambda>x.
     bindR (liftW w (nthR (c_input c) b)) (\<lambda>y.
       if Canonical (c_tables c) f x \<noteq> Canonical (c_tables c) f y then Inr (False, w)
       else compare_loop c f n (a + 1) (b + 1) w)))"

definition exec_reference :: "run_context \<Rightarrow> instruction \<Rightarrow> node \<Rightarrow> machine \<Rightarrow> (status \<times> machine) worked" where
  "exec_reference c instr node m =
     (let st = m_state m; p = position st
      in bindR (liftW (m_work m) (nthR (captures st) (i_group instr))) (\<lambda>own.
         bindR (reference_loop (node_captures node) (captures st) own (m_work m)) (\<lambda>((a, b), w).
           let m = m\<lparr>m_work := w\<rparr>
           in if a = none \<or> b = none then goto (i_next instr) m
              else let len = usub b a
                   in if \<not> (if 0 < i_direction instr then len \<le> usub (length (c_input c)) p else len \<le> p)
                      then Inr (Failed, m)
                      else bindR (compare_loop c (node_flags node) len a
                                    (if 0 < i_direction instr then p else p - len) w) (\<lambda>(same, w).
                           let m = m\<lparr>m_work := w\<rparr>
                           in if same
                              then goto (i_next instr) (m\<lparr>m_state := st\<lparr>position :=
                                     (if 0 < i_direction instr then p + len else p - len)\<rparr>\<rparr>)
                              else Inr (Failed, m)))))"

definition check :: "bool \<Rightarrow> instruction \<Rightarrow> machine \<Rightarrow> (status \<times> machine) worked" where
  "check ok instr m = (if ok then goto (i_next instr) m else Inr (Failed, m))"

definition line_before :: "run_context \<Rightarrow> node \<Rightarrow> nat \<Rightarrow> bool result" where
  "line_before c node p =
     (if p = 0 then Inr True
      else if multiline (node_flags node) then bindR (nthR (c_input c) (p - 1)) (\<lambda>u. Inr (Line u))
      else Inr False)"

definition line_after :: "run_context \<Rightarrow> node \<Rightarrow> nat \<Rightarrow> bool result" where
  "line_after c node p =
     (if p = length (c_input c) then Inr True
      else if multiline (node_flags node) then bindR (nthR (c_input c) p) (\<lambda>u. Inr (Line u))
      else Inr False)"

definition word_boundary :: "run_context \<Rightarrow> node \<Rightarrow> nat \<Rightarrow> bool result" where
  "word_boundary c node p =
     bindR (if 0 < p then bindR (nthR (c_input c) (p - 1)) (\<lambda>u. Inr (Word (c_tables c) (node_flags node) u))
            else Inr False) (\<lambda>word_before.
     bindR (if p < length (c_input c) then bindR (nthR (c_input c) p) (\<lambda>u. Inr (Word (c_tables c) (node_flags node) u))
            else Inr False) (\<lambda>word_after.
     Inr (word_before \<noteq> word_after)))"

definition loop_decide :: "nat \<Rightarrow> instruction \<Rightarrow> node \<Rightarrow> machine \<Rightarrow> (status \<times> machine) worked" where
  "loop_decide snapshot instr node m =
     bindR (liftW (m_work m) (nthR (loops (m_state m)) (i_group instr))) (\<lambda>(count, start_at).
       if count < minimum node then goto (i_next instr) m
       else if maximum node \<le> count then goto (i_other instr) m
       else if greedy node then bindR (push snapshot (i_other instr) none m) (goto (i_next instr))
       else bindR (push snapshot (i_next instr) none m) (goto (i_other instr)))"

definition loop_step :: "instruction \<Rightarrow> node \<Rightarrow> machine \<Rightarrow> (status \<times> machine) worked" where
  "loop_step instr node m =
     bindR (liftW (m_work m) (nthR (loops (m_state m)) (i_group instr))) (\<lambda>(count, start_at).
       if position (m_state m) = start_at \<and> minimum node \<le> count then Inr (Failed, m)
       else bindR (liftW (m_work m) (list_setR (loops (m_state m)) (i_group instr)
                     ((count + 1) mod (u64_max + 1), start_at))) (\<lambda>ls.
            goto (i_next instr) (m\<lparr>m_state := (m_state m)\<lparr>loops := ls\<rparr>\<rparr>)))"

definition set_loop :: "instruction \<Rightarrow> (nat \<times> nat \<Rightarrow> nat \<times> nat) \<Rightarrow> machine \<Rightarrow> (status \<times> machine) worked" where
  "set_loop instr change m =
     bindR (liftW (m_work m) (nthR (loops (m_state m)) (i_group instr))) (\<lambda>old.
     bindR (liftW (m_work m) (list_setR (loops (m_state m)) (i_group instr) (change old))) (\<lambda>ls.
     goto (i_next instr) (m\<lparr>m_state := (m_state m)\<lparr>loops := ls\<rparr>\<rparr>)))"

type_synonym subrun = "vstate \<Rightarrow> nat \<Rightarrow> grep_work \<Rightarrow> (vstate option \<times> nat \<times> grep_work) worked"

definition exec_assert :: "subrun \<Rightarrow> instruction \<Rightarrow> node \<Rightarrow> machine \<Rightarrow> (status \<times> machine) worked" where
  "exec_assert child instr node m =
     bindR (Charge (length (captures (m_state m)) + length (loops (m_state m))) (m_work m)) (\<lambda>w.
     bindR (child ((m_state m)\<lparr>pc := i_other instr\<rparr>) (m_memory m) w) (\<lambda>(found, memory, w).
       let m = m\<lparr>m_work := w, m_memory := memory\<rparr>
       in if (found \<noteq> None) \<noteq> positive node then Inr (Failed, m)
          else goto (i_next instr) (case found of
                 None \<Rightarrow> m
               | Some st \<Rightarrow> m\<lparr>m_state := (m_state m)\<lparr>captures := captures st\<rparr>\<rparr>)))"

definition node_ofR :: "run_context \<Rightarrow> instruction \<Rightarrow> machine \<Rightarrow> node worked" where
  "node_ofR c instr m = liftW (m_work m) (nthR (nodes (c_vm c)) (i_node instr))"

definition exec :: "run_context \<Rightarrow> subrun \<Rightarrow> nat \<Rightarrow> instruction \<Rightarrow> machine \<Rightarrow> (status \<times> machine) worked" where
  "exec c child snapshot instr m =
     (let p = position (m_state m)
      in case i_op instr of
           Accept \<Rightarrow> Inr (Accepted, m)
         | OpCharacter \<Rightarrow> bindR (node_ofR c instr m) (\<lambda>node. exec_character c snapshot instr node m)
         | Split \<Rightarrow> bindR (push snapshot (i_other instr) none m) (goto (i_next instr))
         | SaveStart \<Rightarrow> save (0 < i_direction instr) instr m
         | SaveEnd \<Rightarrow> save (\<not> 0 < i_direction instr) instr m
         | Clear \<Rightarrow>
             bindR (node_ofR c instr m) (\<lambda>node.
             bindR (clear_loop (node_captures node) (captures (m_state m)) (m_work m)) (\<lambda>(cs, w).
             goto (i_next instr) (m\<lparr>m_work := w, m_state := (m_state m)\<lparr>captures := cs\<rparr>\<rparr>)))
         | OpAssert \<Rightarrow> bindR (node_ofR c instr m) (\<lambda>node. exec_assert child instr node m)
         | OpReference \<Rightarrow> bindR (node_ofR c instr m) (\<lambda>node. exec_reference c instr node m)
         | OpBegin \<Rightarrow> bindR (node_ofR c instr m) (\<lambda>node.
             bindR (liftW (m_work m) (line_before c node p)) (\<lambda>ok. check ok instr m))
         | OpEnd \<Rightarrow> bindR (node_ofR c instr m) (\<lambda>node.
             bindR (liftW (m_work m) (line_after c node p)) (\<lambda>ok. check ok instr m))
         | OpBoundary \<Rightarrow> bindR (node_ofR c instr m) (\<lambda>node.
             bindR (liftW (m_work m) (word_boundary c node p)) (\<lambda>boundary. check boundary instr m))
         | OpNonBoundary \<Rightarrow> bindR (node_ofR c instr m) (\<lambda>node.
             bindR (liftW (m_work m) (word_boundary c node p)) (\<lambda>boundary. check (\<not> boundary) instr m))
         | LoopInit \<Rightarrow> set_loop instr (\<lambda>_. (0, 0)) m
         | LoopStart \<Rightarrow> set_loop instr (\<lambda>(count, _). (count, p)) m
         | LoopDecide \<Rightarrow> bindR (node_ofR c instr m) (\<lambda>node. loop_decide snapshot instr node m)
         | LoopStep \<Rightarrow> bindR (node_ofR c instr m) (\<lambda>node. loop_step instr node m))"

section \<open>The loop, its activations, and matching\<close>

text \<open>One activation: the depth check, the charge of the live snapshot against the memory capacity,
  the loop, and the release of everything it retained.\<close>

definition activate :: "(nat \<Rightarrow> machine \<Rightarrow> (vstate option \<times> machine) worked) \<Rightarrow> nat \<Rightarrow> subrun" where
  "activate loop_of nesting st memory w =
     (let snapshot = snapshot_bytes st
      in if 64 < nesting then Inl (Fail ''assertion depth64 exceeded'', w)
         else if usub memory_capacity memory < snapshot then Inl (memory_error, w)
         else bindR (loop_of snapshot \<lparr>m_state = st, m_alternatives = [], m_retained = 0,
                       m_memory = memory + snapshot, m_work = w\<rparr>) (\<lambda>(found, m).
              Inr (found, usub (usub (m_memory m) (m_retained m)) snapshot, m_work m)))"

primrec run_loop :: "nat \<Rightarrow> run_context \<Rightarrow> nat \<Rightarrow> nat \<Rightarrow> machine \<Rightarrow> (vstate option \<times> machine) worked" where
  "run_loop 0 c nesting snapshot m = Inl (Out_of_fuel, m_work m)"
| "run_loop (Suc n) c nesting snapshot m =
     bindR (Charge 1 (m_work m)) (\<lambda>w.
     bindR (liftW w (atR (code (c_vm c)) (pc (m_state m)))) (\<lambda>instr.
     bindR (exec c (activate (run_loop n c (nesting + 1)) (nesting + 1)) snapshot instr (m\<lparr>m_work := w\<rparr>)) (\<lambda>(status, m).
       case status of
         Accepted \<Rightarrow> Inr (Some (m_state m), m)
       | Running \<Rightarrow> run_loop n c nesting snapshot m
       | Failed \<Rightarrow>
           (case m_alternatives m of
              [] \<Rightarrow> Inr (None, m)
            | st # rest \<Rightarrow>
                run_loop n c nesting snapshot
                  (m\<lparr>m_state := st, m_alternatives := rest, m_memory := usub (m_memory m) snapshot,
                     m_retained := usub (m_retained m) snapshot\<rparr>)))))"

definition Run :: "run_context \<Rightarrow> nat \<Rightarrow> vstate \<Rightarrow> nat \<Rightarrow> grep_work \<Rightarrow> (vstate option \<times> nat \<times> grep_work) worked" where
  "Run c nesting st memory w = activate (run_loop (Suc (remaining w)) c nesting) nesting st memory w"

text \<open>The title as code points (units, outside Unicode mode).\<close>

fun decode :: "bool \<Rightarrow> nat list \<Rightarrow> grep_work \<Rightarrow> (nat list \<times> grep_work) worked" where
  "decode uni [] w = Inr ([], w)"
| "decode uni (u # rest) w =
     bindR (Charge 1 w) (\<lambda>w.
       case rest of
         v # rest' \<Rightarrow>
           if uni \<and> is_high u \<and> is_low v
           then bindR (decode uni rest' w) (\<lambda>(ps, w). Inr (pair_point u v # ps, w))
           else bindR (decode uni rest w) (\<lambda>(ps, w). Inr (u # ps, w))
       | [] \<Rightarrow> Inr ([u], w))"

definition initial_state :: "vm \<Rightarrow> nat \<Rightarrow> vstate" where
  "initial_state s origin = \<lparr>pc = start s, position = origin,
     captures = replicate (total_captures s + 1) (none, none), loops = replicate (loop_count s) (0, 0)\<rparr>"

fun origins_loop :: "nat list \<Rightarrow> run_context \<Rightarrow> nat \<Rightarrow> grep_work \<Rightarrow> (bool \<times> grep_work) worked" where
  "origins_loop [] c memory w = Inr (False, w)"
| "origins_loop (origin # rest) c memory w =
     (let st = initial_state (c_vm c) origin
      in bindR (Charge (length (captures st) + length (loops st)) w) (\<lambda>w.
         bindR (Run c 0 st memory w) (\<lambda>(found, memory, w).
           if found \<noteq> None then Inr (True, w)
           else if sticky (vm_flags (c_vm c)) then Inr (False, w)
           else origins_loop rest c memory w)))"

definition Matches :: "unicode_tables \<Rightarrow> vm \<Rightarrow> nat list \<Rightarrow> grep_work \<Rightarrow> (bool \<times> grep_work) worked" where
  "Matches t s title w =
     (if 32768 < length title then Inl (Fail ''title capacity32768 exceeded'', w)
      else bindR (decode (Unicode (vm_flags s)) title w) (\<lambda>(input, w).
           origins_loop [0..<Suc (length input)] \<lparr>c_vm = s, c_tables = t, c_input = input\<rparr> 0 w))"

section \<open>The machine invariant\<close>

definition run_ok :: "run_context \<Rightarrow> bool" where
  "run_ok c \<longleftrightarrow> vm_ok (c_vm c) \<and> length (c_input c) \<le> 32768"

definition mark_ok :: "run_context \<Rightarrow> nat \<Rightarrow> bool" where
  "mark_ok c p \<longleftrightarrow> p = none \<or> p \<le> length (c_input c)"

definition state_ok :: "run_context \<Rightarrow> vstate \<Rightarrow> bool" where
  "state_ok c st \<longleftrightarrow>
     pc st < length (code (c_vm c)) \<and> position st \<le> length (c_input c) \<and>
     length (captures st) = total_captures (c_vm c) + 1 \<and> length (loops st) = loop_count (c_vm c) \<and>
     (\<forall>(a, b) \<in> set (captures st). mark_ok c a \<and> mark_ok c b)"

definition snapshot_size :: "run_context \<Rightarrow> nat" where
  "snapshot_size c = 64 + (total_captures (c_vm c) + 1) * 16 + loop_count (c_vm c) * 16"

definition machine_ok :: "run_context \<Rightarrow> nat \<Rightarrow> machine \<Rightarrow> bool" where
  "machine_ok c base m \<longleftrightarrow>
     state_ok c (m_state m) \<and> (\<forall>st \<in> set (m_alternatives m). state_ok c st) \<and>
     m_retained m = snapshot_size c * length (m_alternatives m) \<and>
     m_memory m = base + snapshot_size c + m_retained m \<and> m_memory m \<le> memory_capacity"

text \<open>\<open>runs R P m\<close>: the computation ends normally in \<open>P\<close>, or throws an exception that is not fatal with at
  most \<open>R\<close> units of work left.\<close>

abbreviation runs :: "nat \<Rightarrow> ('a \<Rightarrow> bool) \<Rightarrow> 'a worked \<Rightarrow> bool" where
  "runs R \<equiv> wpR (\<lambda>(e, w). \<not> fatal e \<and> remaining w \<le> R)"

lemma snapshot_bytes_ok: "state_ok c st \<Longrightarrow> snapshot_bytes st = snapshot_size c"
  by (simp add: state_ok_def snapshot_bytes_def snapshot_size_def)

lemma runs_Charge:
  assumes "remaining w \<le> R" "\<And>w'. remaining w' + a = remaining w \<Longrightarrow> runs R P (f w')"
  shows "runs R P (bindR (Charge a w) f)"
  by (rule Charge_wp) (use assms in auto)

lemma runs_Charge_only: "remaining w \<le> R \<Longrightarrow> runs R (\<lambda>w'. remaining w' + a = remaining w) (Charge a w)"
  by (rule wpR_mono2 [OF Charge_cases]) auto

lemma liftW_wp [simp]: "wpR E P (liftW w m) = wpR (\<lambda>e. E (e, w)) P m"
  by (cases m) (simp_all add: liftW_def)

lemma list_setR_wp [simp]: "wpR E P (list_setR xs i x) = (if i < length xs then P (xs[i := x]) else E Undefined_behaviour)"
  by (simp add: list_setR_def)

lemma memory_error_ok [simp]: "\<not> fatal memory_error"
  by (simp add: memory_error_def)

lemma goto_ok:
  assumes "machine_ok c base m" "target < length (code (c_vm c))" "remaining (m_work m) \<le> R"
  shows "runs R (\<lambda>(st, m'). machine_ok c base m' \<and> remaining (m_work m') \<le> R) (goto target m)"
  using assms by (auto simp: goto_def machine_ok_def state_ok_def)

lemma state_okD:
  assumes "state_ok c st"
  shows "position st \<le> length (c_input c)" "length (captures st) = total_captures (c_vm c) + 1"
    "length (loops st) = loop_count (c_vm c)"
  using assms by (simp_all add: state_ok_def)

lemma push_ok:
  assumes m: "machine_ok c base m" and R: "remaining (m_work m) \<le> R"
    and t: "target < length (code (c_vm c))" and p: "where_to = none \<or> where_to \<le> length (c_input c)"
  shows "runs R (\<lambda>m'. machine_ok c base m' \<and> remaining (m_work m') \<le> remaining (m_work m) \<and> m_state m' = m_state m)
           (push (snapshot_size c) target where_to m)"
  unfolding push_def
proof (rule runs_Charge [OF R])
  fix w :: grep_work assume w: "remaining w + (length (captures (m_state m)) + length (loops (m_state m)) + 1) = remaining (m_work m)"
  have "usub memory_capacity (m_memory m) = memory_capacity - m_memory m" using m by (simp add: machine_ok_def)
  then show "runs R (\<lambda>m'. machine_ok c base m' \<and> remaining (m_work m') \<le> remaining (m_work m) \<and> m_state m' = m_state m)
     (if usub memory_capacity (m_memory m) < snapshot_size c then Inl (memory_error, w)
      else Inr (m\<lparr>m_work := w, m_memory := m_memory m + snapshot_size c, m_retained := m_retained m + snapshot_size c,
              m_alternatives := (m_state m)\<lparr>pc := target,
                 position := (if where_to \<noteq> none then where_to else position (m_state m))\<rparr> # m_alternatives m\<rparr>))"
    using m w R t p by (auto simp: machine_ok_def state_ok_def)
qed

lemma string_loop_ok:
  assumes "origin + length xs \<le> length (c_input c)" "remaining w \<le> R"
  shows "runs R (\<lambda>(_, w'). remaining w' \<le> remaining w) (string_loop c f origin xs w)"
  using assms
proof (induction xs arbitrary: origin w)
  case (Cons x xs)
  show ?case
    unfolding string_loop.simps
  proof (rule runs_Charge [OF Cons.prems(2)])
    fix w' :: grep_work assume w': "remaining w' + 1 = remaining w"
    have "runs R (\<lambda>(_, w''). remaining w'' \<le> remaining w') (string_loop c f (origin + 1) xs w')"
      by (rule Cons.IH) (use Cons.prems w' in auto)
    then have "runs R (\<lambda>(_, w''). remaining w'' \<le> remaining w) (string_loop c f (origin + 1) xs w')"
      by (rule wpR_mono) (use w' in auto)
    then show "runs R (\<lambda>(_, w''). remaining w'' \<le> remaining w) (bindR (liftW w' (nthR (c_input c) origin)) (\<lambda>unit.
       if Canonical (c_tables c) f unit \<noteq> x then Inr (False, w') else string_loop c f (origin + 1) xs w'))"
      using Cons.prems w' by simp
  qed
qed simp

lemma strings_loop_ok:
  assumes p: "p \<le> length (c_input c)" and "remaining w \<le> R" "\<forall>q \<in> set positions. q \<le> length (c_input c)"
  shows "runs R (\<lambda>(ps, w'). remaining w' \<le> remaining w \<and> (\<forall>q \<in> set ps. q \<le> length (c_input c)))
           (strings_loop c f direction p strings positions w)"
  using assms(2-)
proof (induction strings arbitrary: positions w)
  case (Cons string rest)
  let ?Q = "\<lambda>w (ps, w'). remaining w' \<le> remaining w \<and> (\<forall>q \<in> set ps. q \<le> length (c_input c))"
  let ?fits = "if 0 < direction then length string \<le> usub (length (c_input c)) p else length string \<le> p"
  show ?case
    unfolding strings_loop.simps
  proof (rule runs_Charge [OF Cons.prems(1)], rule safe_if)
    fix w' :: grep_work assume w': "remaining w' + 1 = remaining w"
    show "runs R (?Q w) (strings_loop c f direction p rest positions w')"
      by (rule wpR_mono [OF Cons.IH]) (use w' Cons.prems in auto)
    assume "\<not> \<not> ?fits"
    then have fits: "0 < direction \<Longrightarrow> p + length string \<le> length (c_input c)" "\<not> 0 < direction \<Longrightarrow> length string \<le> p"
      using p by (auto split: if_splits)
    have "runs R (\<lambda>(_, w''). remaining w'' \<le> remaining w') (string_loop c f (if 0 < direction then p else p - length string) string w')"
      by (rule string_loop_ok) (use fits p w' Cons.prems in auto)
    then show "runs R (?Q w) (bindR (string_loop c f (if 0 < direction then p else p - length string) string w') (\<lambda>(matches, w).
         strings_loop c f direction p rest
           (if matches then positions @ [if 0 < direction then p + length string else p - length string]
            else positions) w))"
    proof (rule wpR_bindI, clarify)
      fix b and w'' :: grep_work assume "remaining w'' \<le> remaining w'"
      then show "runs R (?Q w) (strings_loop c f direction p rest
           (if b then positions @ [if 0 < direction then p + length string else p - length string] else positions) w'')"
        by (intro wpR_mono [OF Cons.IH]) (use w' fits p Cons.prems in \<open>auto split: if_splits\<close>)
    qed
  qed
qed simp

lemma class_position_ok:
  assumes "p \<le> length (c_input c)" "remaining w \<le> R"
  shows "runs R (\<lambda>(ps, w'). remaining w' \<le> remaining w \<and> (\<forall>q \<in> set ps. q \<le> length (c_input c)))
           (class_position c node direction p w)"
proof -
  have "runs R (\<lambda>(_, w'). remaining w' \<le> remaining w) (Contains rs point w)" for rs point
    using Contains_spends [of w rs point] assms(2) unfolding spends_def by (elim wpR_mono2) auto
  then show ?thesis
    using assms unfolding class_position_def
    by (auto simp: case_prod_unfold elim!: wpR_mono)
qed

lemma push_all_ok:
  assumes "machine_ok c base m" "remaining (m_work m) \<le> R" "target < length (code (c_vm c))"
    and "\<forall>p \<in> set ps. p \<le> length (c_input c)"
  shows "runs R (\<lambda>m'. machine_ok c base m' \<and> remaining (m_work m') \<le> R \<and> m_state m' = m_state m)
           (push_all (snapshot_size c) target ps m)"
  using assms
proof (induction ps arbitrary: m)
  case (Cons p ps)
  have "runs R (\<lambda>m'. machine_ok c base m' \<and> remaining (m_work m') \<le> remaining (m_work m) \<and> m_state m' = m_state m)
     (push (snapshot_size c) target p m)"
    by (rule push_ok) (use Cons.prems in auto)
  then show ?case
    unfolding push_all.simps
  proof (rule wpR_bindI)
    fix m' assume m': "machine_ok c base m' \<and> remaining (m_work m') \<le> remaining (m_work m) \<and> m_state m' = m_state m"
    show "runs R (\<lambda>m'. machine_ok c base m' \<and> remaining (m_work m') \<le> R \<and> m_state m' = m_state m)
       (push_all (snapshot_size c) target ps m')"
      by (rule wpR_mono [OF Cons.IH]) (use m' Cons.prems in auto)
  qed
qed simp

text \<open>What every instruction keeps: the invariant, and a budget of at most \<open>R\<close>.\<close>

abbreviation keeps :: "run_context \<Rightarrow> nat \<Rightarrow> nat \<Rightarrow> (status \<times> machine) worked \<Rightarrow> bool" where
  "keeps c base R \<equiv> runs R (\<lambda>(st, m'). machine_ok c base m' \<and> remaining (m_work m') \<le> R)"

lemma machine_ok_work [simp]: "machine_ok c base (m\<lparr>m_work := w\<rparr>) = machine_ok c base m"
  by (simp add: machine_ok_def)

lemma exec_character_ok:
  assumes m: "machine_ok c base m" and R: "remaining (m_work m) \<le> R" and x: "i_next x < length (code (c_vm c))"
  shows "keeps c base R (exec_character c (snapshot_size c) x node m)"
proof -
  let ?p = "position (m_state m)"
  have p: "?p \<le> length (c_input c)" using m by (simp add: machine_ok_def state_ok_def)
  have move: "keeps c base R (bindR (push_all (snapshot_size c) (i_next x) (rev (tl ps)) (m\<lparr>m_work := w\<rparr>)) (\<lambda>m.
                Inr (Running, m\<lparr>m_state := (m_state m)\<lparr>position := hd ps, pc := i_next x\<rparr>\<rparr>)))"
    if ps: "ps \<noteq> []" "\<forall>q \<in> set ps. q \<le> length (c_input c)" and w: "remaining w \<le> R" for ps w
  proof (rule wpR_bindI [OF push_all_ok])
    show "\<forall>q \<in> set (rev (tl ps)). q \<le> length (c_input c)" using ps by (auto dest: list.set_sel(2))
    fix m' assume "machine_ok c base m' \<and> remaining (m_work m') \<le> R \<and> m_state m' = m_state (m\<lparr>m_work := w\<rparr>)"
    then show "keeps c base R (Inr (Running, m'\<lparr>m_state := (m_state m')\<lparr>position := hd ps, pc := i_next x\<rparr>\<rparr>))"
      using ps x by (auto simp: machine_ok_def state_ok_def)
  qed (use m w x in simp_all)
  show ?thesis
    unfolding exec_character_def Let_def
  proof (rule wpR_bindI [OF strings_loop_ok [OF p R]], simp, clarify)
    fix found and w :: grep_work assume 1: "remaining w \<le> remaining (m_work m)" "\<forall>q \<in> set found. q \<le> length (c_input c)"
    then have w: "remaining w \<le> R" using R by simp
    show "keeps c base R (bindR (class_position c node (i_direction x) ?p w) (\<lambda>(single, w).
           if found @ single = [] then Inr (Failed, m\<lparr>m_work := w\<rparr>)
              else bindR (push_all (snapshot_size c) (i_next x) (rev (tl (found @ single))) (m\<lparr>m_work := w\<rparr>)) (\<lambda>m.
                Inr (Running, m\<lparr>m_state := (m_state m)\<lparr>position := hd (found @ single), pc := i_next x\<rparr>\<rparr>))))"
    proof (rule wpR_bindI [OF class_position_ok [OF p w]], clarify)
      fix single and w' :: grep_work assume "remaining w' \<le> remaining w" "\<forall>q \<in> set single. q \<le> length (c_input c)"
      then show "keeps c base R (if found @ single = [] then Inr (Failed, m\<lparr>m_work := w'\<rparr>)
              else bindR (push_all (snapshot_size c) (i_next x) (rev (tl (found @ single))) (m\<lparr>m_work := w'\<rparr>)) (\<lambda>m.
                Inr (Running, m\<lparr>m_state := (m_state m)\<lparr>position := hd (found @ single), pc := i_next x\<rparr>\<rparr>)))"
        by (intro safe_if move) (use 1 w m in auto)
    qed
  qed
qed

lemma machine_ok_state: "machine_ok c base m \<Longrightarrow> state_ok c st \<Longrightarrow> machine_ok c base (m\<lparr>m_state := st\<rparr>)"
  by (simp add: machine_ok_def)

lemma machine_okD: "machine_ok c base m \<Longrightarrow> state_ok c (m_state m)"
  by (simp add: machine_ok_def)

lemma captures_update_ok:
  assumes "state_ok c st" "mark_ok c a" "mark_ok c b"
  shows "state_ok c (st\<lparr>captures := (captures st)[g := (a, b)]\<rparr>)"
proof -
  have "set ((captures st)[g := (a, b)]) \<subseteq> insert (a, b) (set (captures st))" by (rule set_update_subset_insert)
  then show ?thesis using assms unfolding state_ok_def by auto
qed

lemma capture_marks:
  assumes "state_ok c st" "g \<le> total_captures (c_vm c)"
  shows "mark_ok c (fst (captures st ! g))" "mark_ok c (snd (captures st ! g))"
proof -
  have "captures st ! g \<in> set (captures st)" using assms by (simp add: state_ok_def)
  then show "mark_ok c (fst (captures st ! g))" "mark_ok c (snd (captures st ! g))"
    using assms(1) by (auto simp: state_ok_def case_prod_unfold)
qed

lemma save_ok:
  assumes m: "machine_ok c base m" and R: "remaining (m_work m) \<le> R"
    and x: "i_next x < length (code (c_vm c))" "i_group x \<le> total_captures (c_vm c)"
  shows "keeps c base R (save b x m)"
proof -
  let ?st = "m_state m" and ?g = "i_group x"
  have st: "state_ok c ?st" using m by (rule machine_okD)
  have g: "?g < length (captures ?st)" using st x(2) by (simp add: state_ok_def)
  have "mark_ok c (position ?st)" using st by (simp add: state_ok_def mark_ok_def)
  then have ok: "machine_ok c base (m\<lparr>m_state := ?st\<lparr>captures := (captures ?st)[?g := v]\<rparr>\<rparr>)"
    if "v = (position ?st, snd (captures ?st ! ?g)) \<or> v = (fst (captures ?st ! ?g), position ?st)" for v
    using that captures_update_ok [OF st] capture_marks [OF st x(2)] by (intro machine_ok_state [OF m]) auto
  have "keeps c base R (goto (i_next x) (m\<lparr>m_state := ?st\<lparr>captures := (captures ?st)[?g :=
      (if b then (position ?st, snd (captures ?st ! ?g)) else (fst (captures ?st ! ?g), position ?st))]\<rparr>\<rparr>))"
    by (rule goto_ok [OF ok x(1)]) (use R in auto)
  then show ?thesis using g by (simp add: save_def liftW_def nthR_def list_setR_def case_prod_unfold)
qed

lemma clear_loop_ok:
  assumes "state_ok c (st\<lparr>captures := cs\<rparr>)" "\<forall>g \<in> set gs. g \<le> total_captures (c_vm c)" "remaining w \<le> R"
  shows "runs R (\<lambda>(cs', w'). remaining w' \<le> R \<and> state_ok c (st\<lparr>captures := cs'\<rparr>)) (clear_loop gs cs w)"
  using assms
proof (induction gs arbitrary: cs w)
  case (Cons g gs)
  show ?case
    unfolding clear_loop.simps
  proof (rule runs_Charge [OF Cons.prems(3)])
    fix w' :: grep_work assume w': "remaining w' + 1 = remaining w"
    have g: "g < length cs" using Cons.prems by (simp add: state_ok_def)
    have "state_ok c (st\<lparr>captures := cs[g := (none, none)]\<rparr>)"
      using captures_update_ok [OF Cons.prems(1), of none none g] by (simp add: mark_ok_def)
    then have "runs R (\<lambda>(cs', w'). remaining w' \<le> R \<and> state_ok c (st\<lparr>captures := cs'\<rparr>)) (clear_loop gs (cs[g := (none, none)]) w')"
      by (rule Cons.IH) (use Cons.prems w' in auto)
    then show "runs R (\<lambda>(cs', w'). remaining w' \<le> R \<and> state_ok c (st\<lparr>captures := cs'\<rparr>))
        (bindR (liftW w' (list_setR cs g (none, none))) (\<lambda>cs. clear_loop gs cs w'))" using g by simp
  qed
qed simp

lemma reference_loop_ok:
  assumes "state_ok c st" "\<forall>g \<in> set gs. g \<le> total_captures (c_vm c)" "remaining w \<le> R"
    and "mark_ok c (fst own)" "mark_ok c (snd own)"
  shows "runs R (\<lambda>((a, b), w'). remaining w' \<le> remaining w \<and> mark_ok c a \<and> mark_ok c b) (reference_loop gs (captures st) own w)"
  using assms
proof (induction gs arbitrary: w)
  case Nil
  then show ?case by (simp add: case_prod_unfold)
next
  case (Cons g gs)
  let ?Q = "\<lambda>w ((a, b), w' :: grep_work). remaining w' \<le> remaining w \<and> mark_ok c a \<and> mark_ok c b"
  show ?case
    unfolding reference_loop.simps
  proof (rule runs_Charge [OF Cons.prems(3)])
    fix w' :: grep_work assume w': "remaining w' + 1 = remaining w"
    have g: "g < length (captures st)" using Cons.prems by (simp add: state_ok_def)
    have "runs R (?Q w') (reference_loop gs (captures st) own w')"
      by (rule Cons.IH) (use Cons.prems w' in auto)
    then have "runs R (?Q w) (reference_loop gs (captures st) own w')" by (rule wpR_mono) (use w' in auto)
    then show "runs R (?Q w) (bindR (liftW w' (nthR (captures st) g)) (\<lambda>(a, b).
       if a \<noteq> none \<and> b \<noteq> none then Inr ((a, b), w') else reference_loop gs (captures st) own w'))"
      using g w' capture_marks [OF Cons.prems(1), of g] Cons.prems(2) by (simp add: case_prod_unfold)
  qed
qed

lemma compare_loop_ok:
  assumes "a + n \<le> length (c_input c)" "b + n \<le> length (c_input c)" "remaining w \<le> R"
  shows "runs R (\<lambda>(_, w'). remaining w' \<le> R) (compare_loop c f n a b w)"
  using assms
proof (induction n arbitrary: a b w)
  case (Suc n)
  show ?case
    unfolding compare_loop.simps
  proof (rule runs_Charge [OF Suc.prems(3)])
    fix w' :: grep_work assume w': "remaining w' + 1 = remaining w"
    have "runs R (\<lambda>(_, w'). remaining w' \<le> R) (compare_loop c f n (a + 1) (b + 1) w')"
      by (rule Suc.IH) (use Suc.prems w' in auto)
    then show "runs R (\<lambda>(_, w'). remaining w' \<le> R) (bindR (liftW w' (nthR (c_input c) a)) (\<lambda>x.
       bindR (liftW w' (nthR (c_input c) b)) (\<lambda>y.
       if Canonical (c_tables c) f x \<noteq> Canonical (c_tables c) f y then Inr (False, w')
       else compare_loop c f n (a + 1) (b + 1) w')))"
      using Suc.prems w' by simp
  qed
qed simp

text \<open>A capture whose end precedes its start has, in 64-bit arithmetic, a length no title reaches.\<close>

lemma usub_short:
  assumes "usub b a \<le> 32768" "a \<le> 32768" "b \<le> 32768"
  shows "a \<le> b \<and> usub b a = b - a"
  using assms by (auto simp: usub_def u64_max_def split: if_splits)

lemma exec_reference_ok:
  assumes c: "run_ok c" and m: "machine_ok c base m" and R: "remaining (m_work m) \<le> R"
    and x: "i_next x < length (code (c_vm c))" "i_group x \<le> total_captures (c_vm c)"
      "\<forall>g \<in> set (node_captures node). g \<le> total_captures (c_vm c)"
  shows "keeps c base R (exec_reference c x node m)"
proof -
  let ?st = "m_state m"
  let ?p = "position ?st" and ?own = "captures ?st ! i_group x"
  have st: "state_ok c ?st" using m by (rule machine_okD)
  have p: "?p \<le> length (c_input c)" and n: "length (c_input c) \<le> 32768" and g: "i_group x < length (captures ?st)"
    using st c x(2) by (simp_all add: state_ok_def run_ok_def)
  let ?k = "\<lambda>((a, b), w). let m = m\<lparr>m_work := w\<rparr>
           in if a = none \<or> b = none then goto (i_next x) m
              else let len = usub b a
                   in if \<not> (if 0 < i_direction x then len \<le> usub (length (c_input c)) ?p else len \<le> ?p)
                      then Inr (Failed, m)
                      else bindR (compare_loop c (node_flags node) len a
                                    (if 0 < i_direction x then ?p else ?p - len) w) (\<lambda>(same, w).
                           let m = m\<lparr>m_work := w\<rparr>
                           in if same
                              then goto (i_next x) (m\<lparr>m_state := ?st\<lparr>position :=
                                     (if 0 < i_direction x then ?p + len else ?p - len)\<rparr>\<rparr>)
                              else Inr (Failed, m))"
  have "keeps c base R (?k ((a, b), w))"
    if w: "remaining w \<le> remaining (m_work m)" and ab: "mark_ok c a" "mark_ok c b" for a b w
  proof (cases "a = none \<or> b = none")
    case True
    then show ?thesis using goto_ok [of c base "m\<lparr>m_work := w\<rparr>" "i_next x" R] m x(1) w R by (simp add: Let_def)
  next
    case False
    let ?len = "usub b a" and ?fits = "if 0 < i_direction x then usub b a \<le> usub (length (c_input c)) ?p else usub b a \<le> ?p"
    have ab': "a \<le> length (c_input c)" "b \<le> length (c_input c)" using ab False by (auto simp: mark_ok_def)
    show ?thesis
    proof (cases ?fits)
      case False
      then show ?thesis using \<open>\<not> (a = none \<or> b = none)\<close> m w R by (simp add: Let_def)
    next
      case fits: True
      then have "?len \<le> 32768" using p n by (auto split: if_splits)
      from usub_short [OF this] ab' n have len: "a + ?len \<le> length (c_input c)" by auto
      define q where "q = (if 0 < i_direction x then ?p else ?p - ?len)"
      define q' where "q' = (if 0 < i_direction x then ?p + ?len else ?p - ?len)"
      have q: "q + ?len \<le> length (c_input c)" "q' \<le> length (c_input c)" using fits p by (auto simp: q_def q'_def split: if_splits)
      have "state_ok c (?st\<lparr>position := q'\<rparr>)" using st q(2) by (simp add: state_ok_def)
      then have "machine_ok c base (m\<lparr>m_work := w', m_state := ?st\<lparr>position := q'\<rparr>\<rparr>)" for w'
        using m by (intro machine_ok_state) simp_all
      then have fin: "keeps c base R (if same then goto (i_next x) (m\<lparr>m_work := w', m_state := ?st\<lparr>position := q'\<rparr>\<rparr>)
          else Inr (Failed, m\<lparr>m_work := w'\<rparr>))" if "remaining w' \<le> R" for same w'
        using m x(1) that by (auto intro: goto_ok)
      have "runs R (\<lambda>(_, w'). remaining w' \<le> R) (compare_loop c (node_flags node) ?len a q w)"
        by (rule compare_loop_ok [OF len q(1)]) (use w R in simp)
      then have "keeps c base R (bindR (compare_loop c (node_flags node) ?len a q w) (\<lambda>(same, w).
          if same then goto (i_next x) (m\<lparr>m_work := w, m_state := ?st\<lparr>position := q'\<rparr>\<rparr>) else Inr (Failed, m\<lparr>m_work := w\<rparr>)))"
        by (rule wpR_bindI) (auto intro: fin)
      then show ?thesis using fits \<open>\<not> (a = none \<or> b = none)\<close>
        unfolding q_def q'_def by (cases "0 < i_direction x") (simp_all add: Let_def)
    qed
  qed
  then have "keeps c base R (bindR (reference_loop (node_captures node) (captures ?st) ?own (m_work m)) ?k)"
    by (intro wpR_bindI [OF reference_loop_ok [OF st x(3) R capture_marks [OF st x(2)]]]) auto
  then show ?thesis
    using g by (simp add: exec_reference_def Let_def nthR_def liftW_def)
qed

lemma check_ok:
  assumes "machine_ok c base m" "remaining (m_work m) \<le> R" "i_next x < length (code (c_vm c))"
  shows "keeps c base R (check b x m)"
  using goto_ok [OF assms(1,3,2)] assms by (simp add: check_def)

lemma line_before_safe: "p \<le> length (c_input c) \<Longrightarrow> safeR (\<lambda>_. True) (line_before c node p)"
  by (cases p) (simp_all add: line_before_def)

lemma line_after_safe: "p \<le> length (c_input c) \<Longrightarrow> safeR (\<lambda>_. True) (line_after c node p)"
  by (simp add: line_after_def)

lemma word_boundary_safe: "p \<le> length (c_input c) \<Longrightarrow> safeR (\<lambda>_. True) (word_boundary c node p)"
  by (cases p) (simp_all add: word_boundary_def)

lemma liftW_keeps:
  assumes "safeR (\<lambda>_. True) r" "remaining w \<le> R" "\<And>x. keeps c base R (f x)"
  shows "keeps c base R (bindR (liftW w r) f)"
  using assms by (cases r) (auto simp: liftW_def)

lemma loops_update_ok:
  "machine_ok c base m \<Longrightarrow> machine_ok c base (m\<lparr>m_state := (m_state m)\<lparr>loops := (loops (m_state m))[g := v]\<rparr>\<rparr>)"
  by (rule machine_ok_state) (auto simp: machine_ok_def state_ok_def)

lemma set_loop_ok:
  assumes m: "machine_ok c base m" and R: "remaining (m_work m) \<le> R"
    and x: "i_next x < length (code (c_vm c))" "i_group x < loop_count (c_vm c)"
  shows "keeps c base R (set_loop x change m)"
proof -
  have g: "i_group x < length (loops (m_state m))" using m x(2) by (simp add: machine_ok_def state_ok_def)
  have "keeps c base R (goto (i_next x) (m\<lparr>m_state := (m_state m)\<lparr>loops := (loops (m_state m))[i_group x := v]\<rparr>\<rparr>))" for v
    by (rule goto_ok [OF loops_update_ok [OF m] x(1)]) (use R in simp)
  then show ?thesis using g by (simp add: set_loop_def liftW_def nthR_def list_setR_def)
qed

lemma loop_step_ok:
  assumes m: "machine_ok c base m" and R: "remaining (m_work m) \<le> R"
    and x: "i_next x < length (code (c_vm c))" "i_group x < loop_count (c_vm c)"
  shows "keeps c base R (loop_step x node m)"
proof -
  have g: "i_group x < length (loops (m_state m))" using m x(2) by (simp add: machine_ok_def state_ok_def)
  have "keeps c base R (goto (i_next x) (m\<lparr>m_state := (m_state m)\<lparr>loops := (loops (m_state m))[i_group x := v]\<rparr>\<rparr>))" for v
    by (rule goto_ok [OF loops_update_ok [OF m] x(1)]) (use R in simp)
  then show ?thesis using g m R by (simp add: loop_step_def liftW_def nthR_def list_setR_def case_prod_unfold)
qed

lemma push_goto_ok:
  assumes m: "machine_ok c base m" and R: "remaining (m_work m) \<le> R"
    and t: "t1 < length (code (c_vm c))" "t2 < length (code (c_vm c))"
  shows "keeps c base R (bindR (push (snapshot_size c) t1 none m) (goto t2))"
proof (rule wpR_bindI [OF push_ok [OF m R t(1)]])
  fix m' assume "machine_ok c base m' \<and> remaining (m_work m') \<le> remaining (m_work m) \<and> m_state m' = m_state m"
  then show "keeps c base R (goto t2 m')" using R t(2) by (intro goto_ok) auto
qed simp

lemma loop_decide_ok:
  assumes m: "machine_ok c base m" and R: "remaining (m_work m) \<le> R"
    and x: "i_next x < length (code (c_vm c))" "i_other x < length (code (c_vm c))" "i_group x < loop_count (c_vm c)"
  shows "keeps c base R (loop_decide (snapshot_size c) x node m)"
proof -
  have g: "i_group x < length (loops (m_state m))" using m x(3) by (simp add: machine_ok_def state_ok_def)
  show ?thesis
    unfolding loop_decide_def
    using g goto_ok [OF m x(1) R] goto_ok [OF m x(2) R] push_goto_ok [OF m R x(1,2)] push_goto_ok [OF m R x(2,1)]
    by (simp add: liftW_def nthR_def case_prod_unfold del: wpR_bindR)
qed

section \<open>Assertions and the loop\<close>

text \<open>
  The interface between an instruction and the subrun of an assertion: given a well-formed state, and
  a budget below its bound, the subrun returns the memory it was given, spends work only, and
  a state it finds is well formed.
\<close>

definition subrun_ok :: "run_context \<Rightarrow> nat \<Rightarrow> nat \<Rightarrow> nat \<Rightarrow> (vstate option \<times> nat \<times> grep_work) worked \<Rightarrow> bool" where
  "subrun_ok c memory R l r \<longleftrightarrow>
     runs R (\<lambda>(found, memory', w'). memory' = memory \<and> remaining w' \<le> l \<and> (\<forall>st'. found = Some st' \<longrightarrow> state_ok c st')) r"

locale subroutine =
  fixes c :: run_context and bound :: nat and child :: subrun
  assumes child_ok: "run_ok c \<Longrightarrow> state_ok c st \<Longrightarrow> memory \<le> memory_capacity \<Longrightarrow> remaining w < bound \<Longrightarrow> remaining w \<le> R \<Longrightarrow>
      subrun_ok c memory R (remaining w) (child st memory w)"
begin

lemma exec_assert_ok:
  assumes c: "run_ok c" and m: "machine_ok c base m" and R: "remaining (m_work m) \<le> R" and b: "remaining (m_work m) < bound"
    and x: "i_next x < length (code (c_vm c))" "i_other x < length (code (c_vm c))"
  shows "keeps c base R (exec_assert child x node m)"
  unfolding exec_assert_def
proof (rule runs_Charge [OF R])
  fix w :: grep_work assume w: "remaining w + (length (captures (m_state m)) + length (loops (m_state m))) = remaining (m_work m)"
  have st: "state_ok c ((m_state m)\<lparr>pc := i_other x\<rparr>)" "m_memory m \<le> memory_capacity"
    using m x(2) by (simp_all add: machine_ok_def state_ok_def)
  have "subrun_ok c (m_memory m) R (remaining w) (child ((m_state m)\<lparr>pc := i_other x\<rparr>) (m_memory m) w)"
    by (rule child_ok [OF c st]) (use w b R in simp_all)
  then show "keeps c base R (bindR (child ((m_state m)\<lparr>pc := i_other x\<rparr>) (m_memory m) w) (\<lambda>(found, memory, w).
       let m = m\<lparr>m_work := w, m_memory := memory\<rparr>
       in if (found \<noteq> None) \<noteq> positive node then Inr (Failed, m)
          else goto (i_next x) (case found of
                 None \<Rightarrow> m
               | Some st \<Rightarrow> m\<lparr>m_state := (m_state m)\<lparr>captures := captures st\<rparr>\<rparr>)))"
    unfolding subrun_ok_def
  proof (rule wpR_bindI, clarify)
    fix found and w' :: grep_work
    assume found: "\<forall>st'. found = Some st' \<longrightarrow> state_ok c st'" and w': "remaining w' \<le> remaining w"
    let ?m = "m\<lparr>m_work := w', m_memory := m_memory m\<rparr>"
    have m': "machine_ok c base ?m" using m by simp
    have "machine_ok c base (?m\<lparr>m_state := (m_state m)\<lparr>captures := captures st\<rparr>\<rparr>)" if "state_ok c st" for st
      using m that by (intro machine_ok_state) (simp_all add: machine_ok_def state_ok_def)
    then show "keeps c base R (let m = ?m
       in if (found \<noteq> None) \<noteq> positive node then Inr (Failed, m)
          else goto (i_next x) (case found of None \<Rightarrow> m
               | Some st \<Rightarrow> m\<lparr>m_state := (m_state m)\<lparr>captures := captures st\<rparr>\<rparr>))"
      unfolding Let_def using m' found w w' R x(1) by (auto intro!: goto_ok split: option.splits)
  qed
qed

lemma exec_ok:
  assumes c: "run_ok c" and m: "machine_ok c base m" and R: "remaining (m_work m) \<le> R" and b: "remaining (m_work m) < bound"
    and x: "instr_ok (nodes (c_vm c)) (total_captures (c_vm c)) (loop_count (c_vm c)) (length (code (c_vm c))) x"
  shows "keeps c base R (exec c child (snapshot_size c) x m)"
proof -
  let ?ns = "nodes (c_vm c)" and ?p = "position (m_state m)"
  have p: "?p \<le> length (c_input c)" using m by (simp add: machine_ok_def state_ok_def)
  have node: "keeps c base R (bindR (node_ofR c x m) f)" if "i_node x < length ?ns" "keeps c base R (f (?ns ! i_node x))" for f
    using that by (simp add: node_ofR_def liftW_def nthR_def)
  note facts = node exec_character_ok [OF m R] push_goto_ok [OF m R] save_ok [OF m R] exec_assert_ok [OF c m R b]
    exec_reference_ok [OF c m R] check_ok [OF m R] loop_decide_ok [OF m R] loop_step_ok [OF m R] set_loop_ok [OF m R]
  have lift: "keeps c base R (bindR (liftW (m_work m) r) (\<lambda>ok. check (g ok) x m))"
    if "safeR (\<lambda>_. True) r" "i_next x < length (code (c_vm c))" for r g
    by (rule liftW_keeps [OF that(1) R]) (rule check_ok [OF m R that(2)])
  have clear: "keeps c base R (bindR (clear_loop gs (captures (m_state m)) (m_work m)) (\<lambda>(cs, w).
             goto (i_next x) (m\<lparr>m_work := w, m_state := (m_state m)\<lparr>captures := cs\<rparr>\<rparr>)))"
    if "\<forall>g \<in> set gs. g \<le> total_captures (c_vm c)" "i_next x < length (code (c_vm c))" for gs
  proof (rule wpR_bindI [OF clear_loop_ok [where st = "m_state m", OF _ that(1) R]], simp add: machine_okD [OF m], clarify)
    fix cs and w :: grep_work assume "remaining w \<le> R" "state_ok c ((m_state m)\<lparr>captures := cs\<rparr>)"
    then show "keeps c base R (goto (i_next x) (m\<lparr>m_work := w, m_state := (m_state m)\<lparr>captures := cs\<rparr>\<rparr>))"
      using m that(2) by (intro goto_ok machine_ok_state) simp_all
  qed
  show ?thesis
    unfolding exec_def Let_def
    by (cases "i_op x"; simp only: opcode.case; (intro facts clear lift line_before_safe line_after_safe word_boundary_safe p)?;
        use x R m in \<open>simp add: instr_ok_def\<close>)
qed

end

text \<open>The result of a loop: the invariant of the machine, no work given back, a well-formed state found.\<close>

definition loop_post :: "run_context \<Rightarrow> nat \<Rightarrow> nat \<Rightarrow> vstate option \<times> machine \<Rightarrow> bool" where
  "loop_post c base l r \<longleftrightarrow>
     machine_ok c base (snd r) \<and> remaining (m_work (snd r)) \<le> l \<and> (\<forall>st. fst r = Some st \<longrightarrow> state_ok c st)"

lemma activate_ok:
  assumes "\<And>base m. machine_ok c base m \<Longrightarrow> remaining (m_work m) < n \<Longrightarrow> remaining (m_work m) \<le> R \<Longrightarrow>
      runs R (loop_post c base (remaining (m_work m))) (loop_of (snapshot_size c) m)"
    and st: "state_ok c st" and mem: "memory \<le> memory_capacity" and w: "remaining w < n" "remaining w \<le> R"
  shows "subrun_ok c memory R (remaining w) (activate loop_of nesting st memory w)"
proof -
  let ?m = "\<lparr>m_state = st, m_alternatives = [], m_retained = 0, m_memory = memory + snapshot_size c, m_work = w\<rparr>"
  have "runs R (loop_post c memory (remaining w)) (loop_of (snapshot_size c) ?m)"
    if "snapshot_size c \<le> memory_capacity - memory"
    using assms(1) [of memory ?m] that mem st w by (simp add: machine_ok_def)
  then have "runs R (\<lambda>(found, memory', w'). memory' = memory \<and> remaining w' \<le> remaining w \<and> (\<forall>st'. found = Some st' \<longrightarrow> state_ok c st'))
      (bindR (loop_of (snapshot_size c) ?m) (\<lambda>(found, m). Inr (found, usub (usub (m_memory m) (m_retained m)) (snapshot_size c), m_work m)))"
    if "snapshot_size c \<le> memory_capacity - memory"
    by (rule wpR_bindI [OF _ _]) (use that in \<open>auto simp: loop_post_def machine_ok_def\<close>)
  then show ?thesis
    unfolding subrun_ok_def activate_def snapshot_bytes_ok [OF st] Let_def using mem w(2)
    by (simp del: wpR_bindR)
qed

lemma backtrack_ok:
  "machine_ok c base m \<Longrightarrow> m_alternatives m = st # rest \<Longrightarrow>
   machine_ok c base (m\<lparr>m_state := st, m_alternatives := rest, m_memory := usub (m_memory m) (snapshot_size c),
                     m_retained := usub (m_retained m) (snapshot_size c)\<rparr>)"
  by (auto simp: machine_ok_def)

lemma run_loop_ok:
  assumes c: "run_ok c" and "machine_ok c base m" "remaining (m_work m) < n" "remaining (m_work m) \<le> R"
  shows "runs R (loop_post c base (remaining (m_work m))) (run_loop n c nesting (snapshot_size c) m)"
  using assms(2-)
proof (induction n arbitrary: base m nesting R)
  case (Suc n)
  let ?child = "activate (run_loop n c (nesting + 1)) (nesting + 1)"
  let ?k = "\<lambda>(status, m). case status of
         Accepted \<Rightarrow> Inr (Some (m_state m), m)
       | Running \<Rightarrow> run_loop n c nesting (snapshot_size c) m
       | Failed \<Rightarrow>
           (case m_alternatives m of
              [] \<Rightarrow> Inr (None, m)
            | st # rest \<Rightarrow>
                run_loop n c nesting (snapshot_size c)
                  (m\<lparr>m_state := st, m_alternatives := rest, m_memory := usub (m_memory m) (snapshot_size c),
                     m_retained := usub (m_retained m) (snapshot_size c)\<rparr>))"
  have child: "subroutine c n ?child"
    by (rule subroutine.intro, rule activate_ok) (auto intro: Suc.IH)
  have step: "runs R (loop_post c base (remaining (m_work m))) (?k (status, m'))"
    if m': "machine_ok c base m'" "remaining (m_work m') \<le> l" and l: "l < n" "l \<le> remaining (m_work m)" for status m' l
  proof -
    have again: "runs R (loop_post c base (remaining (m_work m))) (run_loop n c nesting (snapshot_size c) m'')"
      if "machine_ok c base m''" "m_work m'' = m_work m'" for m''
      by (rule wpR_mono [OF Suc.IH [OF that(1)]]) (use that m' l Suc.prems in \<open>auto simp: loop_post_def\<close>)
    show ?thesis
      using m' l again [OF m'(1)] again [OF backtrack_ok [OF m'(1)]] machine_okD [OF m'(1)]
      by (auto simp: loop_post_def split: status.splits list.splits)
  qed
  show ?case
    unfolding run_loop.simps
  proof (rule runs_Charge [OF Suc.prems(3)])
    fix w :: grep_work assume w: "remaining w + 1 = remaining (m_work m)"
    let ?m = "m\<lparr>m_work := w\<rparr>" and ?x = "code (c_vm c) ! pc (m_state m)"
    have pc: "pc (m_state m) < length (code (c_vm c))" using Suc.prems(1) by (simp add: machine_ok_def state_ok_def)
    have x: "instr_ok (nodes (c_vm c)) (total_captures (c_vm c)) (loop_count (c_vm c)) (length (code (c_vm c))) ?x"
      using c pc by (simp add: run_ok_def vm_ok_def)
    have "keeps c base (remaining w) (exec c ?child (snapshot_size c) ?x ?m)"
      by (rule subroutine.exec_ok [OF child c _ _ _ x]) (use Suc.prems w in simp_all)
    then have "runs R (\<lambda>(st, m'). machine_ok c base m' \<and> remaining (m_work m') \<le> remaining w)
        (exec c ?child (snapshot_size c) ?x ?m)"
      by (rule wpR_mono2) (use w Suc.prems in auto)
    then have "runs R (loop_post c base (remaining (m_work m))) (bindR (exec c ?child (snapshot_size c) ?x ?m) ?k)"
      by (rule wpR_bindI, clarify) (rule step [unfolded prod.case], use w Suc.prems in auto)
    then show "runs R (loop_post c base (remaining (m_work m)))
       (bindR (liftW w (atR (code (c_vm c)) (pc (m_state m)))) (\<lambda>instr. bindR (exec c ?child (snapshot_size c) instr ?m) ?k))"
      using pc by (simp add: liftW_def atR_def)
  qed
qed simp

interpretation assertion_run: subroutine c n "activate (run_loop n c nesting) nesting" for c n nesting
  by (rule subroutine.intro, rule activate_ok) (auto intro: run_loop_ok)

lemma Run_ok:
  assumes "run_ok c" "state_ok c st" "memory \<le> memory_capacity" "remaining w \<le> R"
  shows "subrun_ok c memory R (remaining w) (Run c nesting st memory w)"
  unfolding Run_def by (rule assertion_run.child_ok [OF assms(1-3) _ assms(4)]) simp

section \<open>Matching a title\<close>

lemma decode_ok:
  "remaining w \<le> R \<Longrightarrow> runs R (\<lambda>(ps, w'). length ps \<le> length us \<and> remaining w' \<le> remaining w) (decode uni us w)"
proof (induction us arbitrary: w rule: length_induct)
  case (1 us)
  show ?case
  proof (cases us)
    case (Cons u rest)
    let ?P = "\<lambda>w (ps, w'). length ps \<le> length us \<and> remaining w' \<le> remaining w"
    have IH: "runs R (?P w) (bindR (decode uni vs w') (\<lambda>(ps, w). Inr (p # ps, w)))"
      if "length vs < length us" "remaining w' + 1 = remaining w" for vs w' p
    proof (rule wpR_bindI)
      show "runs R (\<lambda>(ps, w''). length ps \<le> length vs \<and> remaining w'' \<le> remaining w') (decode uni vs w')"
        using 1 that by simp
    qed (use that in auto)
    show ?thesis
      unfolding Cons decode.simps
    proof (rule runs_Charge [OF "1.prems"])
      fix w' :: grep_work assume w': "remaining w' + 1 = remaining w"
      show "runs R (\<lambda>(ps, w'). length ps \<le> length (u # rest) \<and> remaining w' \<le> remaining w) (case rest of
         v # rest' \<Rightarrow>
           if uni \<and> is_high u \<and> is_low v
           then bindR (decode uni rest' w') (\<lambda>(ps, w). Inr (pair_point u v # ps, w))
           else bindR (decode uni rest w') (\<lambda>(ps, w). Inr (u # ps, w))
       | [] \<Rightarrow> Inr ([u], w'))"
        using IH [of _ w', OF _ w'] w' Cons by (auto split: list.splits simp del: wpR_bindR decode.simps)
    qed
  qed simp
qed

lemma initial_state_ok: "vm_ok (c_vm c) \<Longrightarrow> origin \<le> length (c_input c) \<Longrightarrow> state_ok c (initial_state (c_vm c) origin)"
  by (auto simp: state_ok_def initial_state_def vm_ok_def mark_ok_def)

lemma origins_loop_ok:
  assumes c: "run_ok c" and "\<forall>o' \<in> set os. o' \<le> length (c_input c)" "remaining w \<le> R"
  shows "runs R (\<lambda>(_, w'). remaining w' \<le> remaining w) (origins_loop os c 0 w)"
  using assms(2-)
proof (induction os arbitrary: w)
  case (Cons origin rest)
  let ?st = "initial_state (c_vm c) origin" and ?P = "\<lambda>(b :: bool, w'). remaining w' \<le> remaining w"
  show ?case
    unfolding origins_loop.simps Let_def
  proof (rule runs_Charge [OF Cons.prems(2)])
    fix w' :: grep_work assume w': "remaining w' + (length (captures ?st) + length (loops ?st)) = remaining w"
    have "subrun_ok c 0 R (remaining w') (Run c 0 ?st 0 w')"
      by (rule Run_ok [OF c]) (use c w' Cons.prems initial_state_ok in \<open>auto simp: run_ok_def\<close>)
    then show "runs R ?P (bindR (Run c 0 ?st 0 w') (\<lambda>(found, memory, w).
           if found \<noteq> None then Inr (True, w)
           else if sticky (vm_flags (c_vm c)) then Inr (False, w)
           else origins_loop rest c memory w))"
      unfolding subrun_ok_def
    proof (rule wpR_bindI, clarify)
      fix found and w'' :: grep_work assume w'': "remaining w'' \<le> remaining w'"
      have "runs R (\<lambda>(_, w'). remaining w' \<le> remaining w'') (origins_loop rest c 0 w'')"
        by (rule Cons.IH) (use w' w'' Cons.prems in auto)
      then have "runs R ?P (origins_loop rest c 0 w'')" by (rule wpR_mono) (use w' w'' in auto)
      then show "runs R ?P (if found \<noteq> None then Inr (True, w'')
           else if sticky (vm_flags (c_vm c)) then Inr (False, w'') else origins_loop rest c 0 w'')"
        using w' w'' by simp
    qed
  qed
qed simp

lemma Matches_ok:
  assumes s: "vm_ok s"
  shows "spends w snd (Matches t s title w)"
proof -
  have "runs (remaining w) (\<lambda>(_, w'). remaining w' \<le> remaining w) (bindR (decode (Unicode (vm_flags s)) title w) (\<lambda>(input, w).
           origins_loop [0..<Suc (length input)] \<lparr>c_vm = s, c_tables = t, c_input = input\<rparr> 0 w))"
    if "length title \<le> 32768"
  proof (rule wpR_bindI [OF decode_ok], simp, clarify)
    fix input :: "nat list" and w' :: grep_work assume i: "length input \<le> length title" "remaining w' \<le> remaining w"
    let ?c = "\<lparr>c_vm = s, c_tables = t, c_input = input\<rparr>"
    have "runs (remaining w) (\<lambda>(_, w''). remaining w'' \<le> remaining w') (origins_loop [0..<Suc (length input)] ?c 0 w')"
      by (rule origins_loop_ok) (use i that s in \<open>auto simp: run_ok_def\<close>)
    then show "runs (remaining w) (\<lambda>(_, w'). remaining w' \<le> remaining w) (origins_loop [0..<Suc (length input)] ?c 0 w')"
      by (rule wpR_mono) (use i in auto)
  qed
  then show ?thesis unfolding Matches_def spends_def by (auto simp: case_prod_unfold simp del: wpR_bindR)
qed

section \<open>Properties\<close>




text \<open>One activation on the instruction that accepts.\<close>

definition accepting_vm :: vm where
  "accepting_vm = (new_vm [] plain_flags)\<lparr>nodes := [new_node plain_flags KEmpty], code := [new_instruction Accept]\<rparr>"

definition accepting_context :: run_context where
  "accepting_context = \<lparr>c_vm = accepting_vm, c_tables = ascii_tables, c_input = units ''x''\<rparr>"


end
