(* ===== verification/GrepPattern.thy ===== *)
theory GrepPattern
  imports GrepRanges
begin

text \<open>
  The automaton engine of \<open>native/runner/grep_pattern.h\<close>: boolean matching of expressions outside
  Unicode mode, over UTF-16 units. The class \<open>GrepPattern\<close> is the record \<open>pattern\<close>; its parser builds
  an arena of binary nodes, \<open>CompileP\<close> turns it into a Thompson automaton whose dangling edges are
  patched as fragments are joined, and \<open>MatchesP\<close> simulates the automaton over a title with one
  set of active states, adding a fresh search origin at every unit.
  Names the expression compiler also uses carry the suffix \<open>P\<close>. The scratch vectors are the
  arguments of the simulation loops; they are cleared when a match starts, so the lease that keeps a
  nested match independent changes no result. \<open>Join\<close> compiles its left operand first (C++ leaves
  the order of the two calls open; it only decides the numbering of states).
\<close>

section \<open>Data\<close>

datatype pkind =
  PEmpty | PCharacter | PBegin | PEnd | PBoundary | PNonBoundary | PConcat | PAlternative | PRepeat |
  PJump | PSplit | PAccept

definition noneP :: nat where
  "noneP = u64_max"

definition unsigned_max :: nat where
  "unsigned_max = 4294967295"

record pnode =
  pn_kind :: pkind
  pn_left :: nat
  pn_right :: nat
  pn_minimum :: nat
  pn_maximum :: nat
  pn_ranges :: ranges

record pstate =
  ps_kind :: pkind
  ps_first :: nat
  ps_second :: nat
  ps_ranges :: ranges

type_synonym edge = "nat \<times> bool"
type_synonym fragment = "nat \<times> edge list"

record options =
  o_insensitive :: bool
  o_multiline :: bool
  o_dot_all :: bool
  o_sticky :: bool

record pattern =
  p_source :: "nat list"
  p_options :: options
  p_position :: nat
  p_depth :: nat
  p_start :: nat
  p_range_count :: nat
  p_nodes :: "pnode list"
  p_states :: "pstate list"

type_synonym 'a pparse = "pattern \<Rightarrow> ('a \<times> pattern) result"

definition new_pnode :: "pkind \<Rightarrow> pnode" where
  "new_pnode k = \<lparr>pn_kind = k, pn_left = noneP, pn_right = noneP, pn_minimum = 0, pn_maximum = 0, pn_ranges = []\<rparr>"

definition new_pstate :: "pkind \<Rightarrow> pstate" where
  "new_pstate k = \<lparr>ps_kind = k, ps_first = noneP, ps_second = noneP, ps_ranges = []\<rparr>"

definition new_pattern :: "nat list \<Rightarrow> options \<Rightarrow> pattern" where
  "new_pattern src options = \<lparr>p_source = src, p_options = options, p_position = 0, p_depth = 0, p_start = 0,
     p_range_count = 0, p_nodes = [], p_states = []\<rparr>"

definition FailP :: "string \<Rightarrow> error" where
  "FailP detail = Invalid_argument (''Native grep: '' @ detail)"

section \<open>Units and ranges\<close>

definition LineP :: "nat \<Rightarrow> bool" where
  "LineP c \<longleftrightarrow> c = 10 \<or> c = 13 \<or> c = 0x2028 \<or> c = 0x2029"

definition WordP :: "nat \<Rightarrow> bool" where
  "WordP c \<longleftrightarrow> (ch CHR ''a'' \<le> c \<and> c \<le> ch CHR ''z'') \<or> (ch CHR ''A'' \<le> c \<and> c \<le> ch CHR ''Z'') \<or>
     (ch CHR ''0'' \<le> c \<and> c \<le> ch CHR ''9'') \<or> c = ch CHR ''_''"

definition Fold :: "unicode_tables \<Rightarrow> nat \<Rightarrow> nat" where
  "Fold t c = Legacy t c"

definition ContainsP :: "ranges \<Rightarrow> nat \<Rightarrow> grep_work \<Rightarrow> (bool \<times> grep_work) worked" where
  "ContainsP rs unit w = contains_loop rs unit 0 (length rs) w"

definition NormalizeP :: "ranges \<Rightarrow> ranges result" where
  "NormalizeP rs =
     (case normalize_loop [] (sort rs) of
        Inl _ \<Rightarrow> Inl (FailP ''reversed character range'')
      | Inr r \<Rightarrow> Inr r)"

definition Invert :: "ranges \<Rightarrow> ranges" where
  "Invert rs = complement_loop 65535 0 rs"

definition FoldRanges :: "unicode_tables \<Rightarrow> bool \<Rightarrow> ranges \<Rightarrow> ranges result" where
  "FoldRanges t insens rs = (if \<not> insens then Inr rs else NormalizeP (project (kLegacyMappings t) rs))"

definition CaseRanges :: "unicode_tables \<Rightarrow> bool \<Rightarrow> ranges \<Rightarrow> ranges result" where
  "CaseRanges t insens rs = bindR (NormalizeP rs) (FoldRanges t insens)"

section \<open>The parser\<close>

definition punit :: "pattern \<Rightarrow> nat \<Rightarrow> nat result" where
  "punit s i = (if i < length (p_source s) then Inr (p_source s ! i)
                else if i = length (p_source s) then Inr 0 else Inl Undefined_behaviour)"

definition psees :: "pattern \<Rightarrow> nat \<Rightarrow> (nat \<Rightarrow> bool) \<Rightarrow> bool" where
  "psees s i p \<longleftrightarrow> p_position s + i < length (p_source s) \<and> p (p_source s ! (p_position s + i))"

definition pskip :: "nat \<Rightarrow> pattern \<Rightarrow> pattern" where
  "pskip n s = s\<lparr>p_position := p_position s + n\<rparr>"

definition p_left_over :: "pattern \<Rightarrow> nat" where
  "p_left_over s = Suc (length (p_source s) - p_position s)"

definition TakeP :: "nat \<Rightarrow> pattern \<Rightarrow> bool \<times> pattern" where
  "TakeP c s = (if psees s 0 (\<lambda>u. u = c) then (True, pskip 1 s) else (False, s))"

definition AddP :: "pnode \<Rightarrow> nat pparse" where
  "AddP n s =
     (if 4096 \<le> length (p_nodes s) then Inl (FailP ''syntax node capacity4096 exceeded'')
      else Inr (length (p_nodes s), s\<lparr>p_nodes := p_nodes s @ [n]\<rparr>))"

definition Binary :: "pkind \<Rightarrow> nat \<Rightarrow> nat \<Rightarrow> nat pparse" where
  "Binary k l r s = AddP ((new_pnode k)\<lparr>pn_left := l, pn_right := r\<rparr>) s"

definition digitP :: "nat \<Rightarrow> bool" where
  "digitP u \<longleftrightarrow> ch CHR ''0'' \<le> u \<and> u \<le> ch CHR ''9''"

fun number_loopP :: "nat \<Rightarrow> nat list \<Rightarrow> nat result" where
  "number_loopP value [] = Inr value"
| "number_loopP value (u # us) =
     (let value = value * 10 + (u - ch CHR ''0'')
      in if 256 < value then Inl (FailP ''repeat capacity256 exceeded'') else number_loopP value us)"

definition NumberP :: "nat pparse" where
  "NumberP s =
     (if \<not> psees s 0 digitP then Inl (FailP ''bounded quantifier requires a number'')
      else let digits = takeWhile digitP (drop (p_position s) (p_source s))
           in bindR (number_loopP 0 digits) (\<lambda>value. Inr (value, pskip (length digits) s)))"

definition hexP :: "nat \<Rightarrow> nat option" where
  "hexP c =
     (if digitP c then Some (c - ch CHR ''0'')
      else if ch CHR ''a'' \<le> c \<and> c \<le> ch CHR ''f'' then Some (c - ch CHR ''a'' + 10)
      else if ch CHR ''A'' \<le> c \<and> c \<le> ch CHR ''F'' then Some (c - ch CHR ''A'' + 10)
      else None)"

fun HexP :: "nat \<Rightarrow> nat \<Rightarrow> nat pparse" where
  "HexP 0 value s = Inr (value mod 65536, s)"
| "HexP (Suc n) value s =
     (if p_position s = length (p_source s) then Inl (FailP ''truncated hexadecimal escape'')
      else bindR (punit s (p_position s)) (\<lambda>c.
        case hexP c of
          None \<Rightarrow> Inl (FailP ''invalid hexadecimal escape'')
        | Some digit \<Rightarrow> HexP n (value * 16 + digit) (pskip 1 s)))"

definition escape_classP :: "nat \<Rightarrow> ranges" where
  "escape_classP c =
     (if c = ch CHR ''d'' \<or> c = ch CHR ''D'' then [(ch CHR ''0'', ch CHR ''9'')]
      else if c = ch CHR ''w'' \<or> c = ch CHR ''W'' then
        [(ch CHR ''0'', ch CHR ''9''), (ch CHR ''A'', ch CHR ''Z''), (ch CHR ''_'', ch CHR ''_''),
         (ch CHR ''a'', ch CHR ''z'')]
      else if c = ch CHR ''s'' \<or> c = ch CHR ''S'' then
        [(9, 13), (32, 32), (160, 160), (0x1680, 0x1680), (0x2000, 0x200a), (0x2028, 0x2029),
         (0x202f, 0x202f), (0x205f, 0x205f), (0x3000, 0x3000), (0xfeff, 0xfeff)]
      else [])"

definition syntax_unitsP :: "nat list" where
  "syntax_unitsP = units ''^$'' @ [0x5c] @ units ''.*+?()[]{}|/-''"

text \<open>The value of an escape that is not a class.\<close>

definition escape_value :: "bool \<Rightarrow> nat \<Rightarrow> nat pparse" where
  "escape_value in_class c s =
     (if c = ch CHR ''x'' then HexP 2 0 s
      else if c = ch CHR ''u'' then HexP 4 0 s
      else if c = ch CHR ''n'' then Inr (10, s)
      else if c = ch CHR ''r'' then Inr (13, s)
      else if c = ch CHR ''t'' then Inr (9, s)
      else if c = ch CHR ''v'' then Inr (11, s)
      else if c = ch CHR ''f'' then Inr (12, s)
      else if c = ch CHR ''b'' \<and> in_class then Inr (8, s)
      else if c = ch CHR ''0'' then
        if psees s 0 digitP then Inl (FailP ''legacy octal escapes are unsupported'') else Inr (0, s)
      else if c \<notin> set syntax_unitsP then Inl (FailP ''unsupported escape or backreference'')
      else Inr (c, s))"

definition EscapeP :: "unicode_tables \<Rightarrow> bool \<Rightarrow> bool \<Rightarrow> ranges pparse" where
  "EscapeP t in_class raw s =
     (if p_position s = length (p_source s) then Inl (FailP ''trailing escape'')
      else bindR (punit s (p_position s)) (\<lambda>c.
        let s = pskip 1 s; rs = escape_classP c
        in if rs \<noteq> [] then
             bindR (NormalizeP rs) (\<lambda>rs.
             Inr (if c = ch CHR ''D'' \<or> c = ch CHR ''W'' \<or> c = ch CHR ''S'' then Invert rs else rs, s))
           else bindR (escape_value in_class c s) (\<lambda>(value, s).
             if raw then Inr ([(value, value)], s)
             else bindR (CaseRanges t (o_insensitive (p_options s)) [(value, value)]) (\<lambda>rs. Inr (rs, s)))))"

definition ClassItemP :: "unicode_tables \<Rightarrow> ranges pparse" where
  "ClassItemP t s =
     (if p_position s = length (p_source s) then Inl (FailP ''unterminated character class'')
      else case TakeP 0x5c s of
        (True, s) \<Rightarrow> EscapeP t True True s
      | (False, s) \<Rightarrow> bindR (punit s (p_position s)) (\<lambda>c. Inr ([(c, c)], pskip 1 s)))"

definition singleP :: "ranges \<Rightarrow> bool" where
  "singleP rs \<longleftrightarrow> (case rs of [(a, b)] \<Rightarrow> a = b | _ \<Rightarrow> False)"

definition class_pairP :: "ranges \<Rightarrow> ranges \<Rightarrow> ranges result" where
  "class_pairP item upper =
     (if \<not> singleP item \<or> \<not> singleP upper then Inl (FailP ''class escape range endpoints are unsupported'')
      else if fst (hd upper) < fst (hd item) then Inl (FailP ''reversed character range'')
      else Inr [(fst (hd item), fst (hd upper))])"

fun class_loopP :: "nat \<Rightarrow> unicode_tables \<Rightarrow> ranges \<Rightarrow> ranges pparse" where
  "class_loopP 0 t rs s = Inl Out_of_fuel"
| "class_loopP (Suc n) t rs s =
     (if psees s 0 (\<lambda>u. u \<noteq> ch CHR '']'')
      then bindR (ClassItemP t s) (\<lambda>(item, s).
           bindR (if psees s 0 (\<lambda>u. u = ch CHR ''-'') \<and> psees s 1 (\<lambda>u. u \<noteq> ch CHR '']'')
                  then bindR (ClassItemP t (pskip 1 s)) (\<lambda>(upper, s).
                       bindR (class_pairP item upper) (\<lambda>item. Inr (item, s)))
                  else Inr (item, s)) (\<lambda>(item, s).
             if 4096 < length (rs @ item) then Inl (FailP ''character class range capacity4096 exceeded'')
             else class_loopP n t (rs @ item) s))
      else Inr (rs, s))"

definition CharacterClass :: "unicode_tables \<Rightarrow> nat pparse" where
  "CharacterClass t s =
     (case TakeP (ch CHR ''^'') s of
        (negative, s) \<Rightarrow>
          bindR (class_loopP (p_left_over s) t [] s) (\<lambda>(rs, s).
          case TakeP (ch CHR '']'') s of
            (False, s) \<Rightarrow> Inl (FailP ''unterminated character class'')
          | (True, s) \<Rightarrow>
              bindR (NormalizeP rs) (\<lambda>rs.
              bindR (FoldRanges t (o_insensitive (p_options s)) rs) (\<lambda>rs.
              AddP ((new_pnode PCharacter)\<lparr>pn_ranges := (if negative then Invert rs else rs)\<rparr>) s))))"

text \<open>A group, with the parser of alternatives as its argument; and an atom.\<close>

definition GroupP :: "nat pparse \<Rightarrow> nat pparse" where
  "GroupP disjunction s =
     (case TakeP (ch CHR ''?'') s of
        (question, s) \<Rightarrow>
          (case if question then TakeP (ch CHR '':'') s else (True, s) of
             (plain, s) \<Rightarrow>
               if \<not> plain then Inl (FailP ''lookaround, named groups and inline flags are unsupported'')
               else bindR (disjunction s) (\<lambda>(result, s).
                 case TakeP (ch CHR '')'') s of
                   (False, s) \<Rightarrow> Inl (FailP ''unterminated group'')
                 | (True, s) \<Rightarrow> Inr (result, s))))"

definition character_node :: "ranges \<Rightarrow> nat pparse" where
  "character_node rs s = AddP ((new_pnode PCharacter)\<lparr>pn_ranges := rs\<rparr>) s"

definition AtomP :: "nat pparse \<Rightarrow> unicode_tables \<Rightarrow> nat pparse" where
  "AtomP disjunction t s =
     bindR (punit s (p_position s)) (\<lambda>c.
       let s = pskip 1 s
       in if c = ch CHR ''('' then GroupP disjunction s
          else if c = ch CHR ''['' then CharacterClass t s
          else if c = ch CHR ''^'' then AddP (new_pnode PBegin) s
          else if c = ch CHR ''$'' then AddP (new_pnode PEnd) s
          else if c \<in> set (units ''*+?{}]'') then Inl (FailP ''unexpected quantifier or delimiter'')
          else if c = 0x5c \<and> psees s 0 (\<lambda>u. u = ch CHR ''b'' \<or> u = ch CHR ''B'')
          then AddP (new_pnode (if p_source s ! p_position s = ch CHR ''b'' then PBoundary else PNonBoundary)) (pskip 1 s)
          else if c = ch CHR ''.'' then
            character_node (if o_dot_all (p_options s) then [(0, 65535)]
                            else [(0, 9), (11, 12), (14, 0x2027), (0x202a, 65535)]) s
          else if c = 0x5c then bindR (EscapeP t False False s) (\<lambda>(rs, s). character_node rs s)
          else bindR (CaseRanges t (o_insensitive (p_options s)) [(c, c)]) (\<lambda>rs. character_node rs s))"

text \<open>A quantifier: \<open>None\<close> when the next unit starts none.\<close>

definition QuantifierP :: "(nat \<times> nat) option pparse" where
  "QuantifierP s =
     bindR (punit s (p_position s)) (\<lambda>c.
       if c = ch CHR ''*'' then Inr (Some (0, unsigned_max), pskip 1 s)
       else if c = ch CHR ''+'' then Inr (Some (1, unsigned_max), pskip 1 s)
       else if c = ch CHR ''?'' then Inr (Some (0, 1), pskip 1 s)
       else if c = ch CHR ''{'' then
         bindR (NumberP (pskip 1 s)) (\<lambda>(low, s).
           case TakeP (ch CHR '','') s of
             (comma, s) \<Rightarrow>
               bindR (if \<not> comma then Inr (low, s)
                      else if psees s 0 (\<lambda>u. u = ch CHR ''}'') then Inr (unsigned_max, s)
                      else NumberP s) (\<lambda>(high, s).
               case TakeP (ch CHR ''}'') s of
                 (closed, s) \<Rightarrow>
                   if \<not> closed \<or> high < low then Inl (FailP ''invalid bounded quantifier'')
                   else Inr (Some (low, high), s)))
       else Inr (None, s))"

definition TermP :: "nat pparse \<Rightarrow> nat pparse" where
  "TermP atom_parser s =
     bindR (atom_parser s) (\<lambda>(atom, s).
       if p_position s = length (p_source s) then Inr (atom, s)
       else bindR (QuantifierP s) (\<lambda>(quantifier, s).
         case quantifier of
           None \<Rightarrow> Inr (atom, s)
         | Some (low, high) \<Rightarrow>
             bindR (nthR (p_nodes s) atom) (\<lambda>node.
               if pn_kind node \<in> {PBegin, PEnd, PBoundary, PNonBoundary}
               then Inl (FailP ''assertion quantification is unsupported'')
               else AddP ((new_pnode PRepeat)\<lparr>pn_left := atom, pn_minimum := low, pn_maximum := high\<rparr>)
                      (snd (TakeP (ch CHR ''?'') s)))))"

fun sequence_loopP :: "nat \<Rightarrow> nat pparse \<Rightarrow> nat option \<Rightarrow> nat option pparse" where
  "sequence_loopP 0 term_parser result s = Inl Out_of_fuel"
| "sequence_loopP (Suc n) term_parser result s =
     (if psees s 0 (\<lambda>u. u \<noteq> ch CHR '')'' \<and> u \<noteq> ch CHR ''|'')
      then bindR (term_parser s) (\<lambda>(atom, s).
           case result of
             None \<Rightarrow> sequence_loopP n term_parser (Some atom) s
           | Some r \<Rightarrow> bindR (Binary PConcat r atom s) (\<lambda>(r, s). sequence_loopP n term_parser (Some r) s))
      else Inr (result, s))"

definition SequenceP :: "nat pparse \<Rightarrow> nat pparse" where
  "SequenceP atom_parser s =
     bindR (sequence_loopP (p_left_over s) (TermP atom_parser) None s) (\<lambda>(result, s).
       case result of None \<Rightarrow> AddP (new_pnode PEmpty) s | Some r \<Rightarrow> Inr (r, s))"

fun alternative_loopP :: "nat \<Rightarrow> nat pparse \<Rightarrow> nat \<Rightarrow> nat pparse" where
  "alternative_loopP 0 sequence result s = Inl Out_of_fuel"
| "alternative_loopP (Suc n) sequence result s =
     (case TakeP (ch CHR ''|'') s of
        (False, s) \<Rightarrow> Inr (result, s)
      | (True, s) \<Rightarrow>
          bindR (sequence s) (\<lambda>(r, s).
          bindR (Binary PAlternative result r s) (\<lambda>(result, s). alternative_loopP n sequence result s)))"

text \<open>Groups nest at most 64 deep: the first argument is what is left of that depth.\<close>

primrec DisjunctionP :: "nat \<Rightarrow> unicode_tables \<Rightarrow> nat pparse" where
  "DisjunctionP 0 t s = Inl Out_of_fuel"
| "DisjunctionP (Suc n) t s =
     (let s = s\<lparr>p_depth := p_depth s + 1\<rparr>
      in if 64 < p_depth s then Inl (FailP ''group nesting capacity64 exceeded'')
         else let sequence = SequenceP (AtomP (DisjunctionP n t) t)
              in bindR (sequence s) (\<lambda>(result, s).
                 bindR (alternative_loopP (p_left_over s) sequence result s) (\<lambda>(result, s).
                 Inr (result, s\<lparr>p_depth := p_depth s - 1\<rparr>))))"

section \<open>The automaton\<close>

definition EmitP :: "pstate \<Rightarrow> nat pparse" where
  "EmitP st s =
     (if 2048 \<le> length (p_states s) then Inl (FailP ''automaton state capacity2048 exceeded'')
      else if usub 16384 (p_range_count s) < length (ps_ranges st)
      then Inl (FailP ''automaton range capacity16384 exceeded'')
      else Inr (length (p_states s),
                s\<lparr>p_range_count := p_range_count s + length (ps_ranges st), p_states := p_states s @ [st]\<rparr>))"

definition patch_edge :: "nat \<Rightarrow> edge \<Rightarrow> pstate list \<Rightarrow> (pstate list) result" where
  "patch_edge target e sts =
     bindR (nthR sts (fst e)) (\<lambda>st.
     Inr (sts[fst e := (if snd e then st\<lparr>ps_second := target\<rparr> else st\<lparr>ps_first := target\<rparr>)]))"

fun patch_edges :: "nat \<Rightarrow> edge list \<Rightarrow> pstate list \<Rightarrow> (pstate list) result" where
  "patch_edges target [] sts = Inr sts"
| "patch_edges target (e # es) sts = bindR (patch_edge target e sts) (patch_edges target es)"

definition Patch :: "edge list \<Rightarrow> nat \<Rightarrow> pattern \<Rightarrow> pattern result" where
  "Patch es target s = bindR (patch_edges target es (p_states s)) (\<lambda>sts. Inr (s\<lparr>p_states := sts\<rparr>))"

definition Join :: "fragment \<Rightarrow> fragment \<Rightarrow> fragment pparse" where
  "Join left right s = bindR (Patch (snd left) (fst right) s) (\<lambda>s. Inr ((fst left, snd right), s))"

definition EmptyP :: "fragment pparse" where
  "EmptyP s = bindR (EmitP (new_pstate PJump) s) (\<lambda>(st, s). Inr ((st, [(st, False)]), s))"

text \<open>The copies of a repeated fragment: the compulsory ones, then an unbounded loop or optional ones.\<close>

fun required_copies :: "nat \<Rightarrow> fragment pparse \<Rightarrow> fragment \<Rightarrow> fragment pparse" where
  "required_copies 0 child result s = Inr (result, s)"
| "required_copies (Suc n) child result s =
     bindR (child s) (\<lambda>(c, s).
     bindR (Join result c s) (\<lambda>(result, s). required_copies n child result s))"

definition star_copy :: "fragment pparse \<Rightarrow> fragment \<Rightarrow> fragment pparse" where
  "star_copy child result s =
     bindR (child s) (\<lambda>(c, s).
     bindR (EmitP ((new_pstate PSplit)\<lparr>ps_first := fst c\<rparr>) s) (\<lambda>(split, s).
     bindR (Patch (snd c) split s) (\<lambda>s.
     Join result (split, [(split, True)]) s)))"

fun optional_copies :: "nat \<Rightarrow> fragment pparse \<Rightarrow> fragment \<Rightarrow> fragment pparse" where
  "optional_copies 0 child result s = Inr (result, s)"
| "optional_copies (Suc n) child result s =
     bindR (child s) (\<lambda>(c, s).
     bindR (EmitP ((new_pstate PSplit)\<lparr>ps_first := fst c\<rparr>) s) (\<lambda>(split, s).
     bindR (Join result (split, snd c @ [(split, True)]) s) (\<lambda>(result, s).
     optional_copies n child result s)))"

text \<open>\<open>Compile\<close>; the arena is walked by index, and children precede their parent.\<close>

primrec CompileP :: "nat \<Rightarrow> nat \<Rightarrow> fragment pparse" where
  "CompileP 0 i s = Inl Out_of_fuel"
| "CompileP (Suc n) i s =
     bindR (nthR (p_nodes s) i) (\<lambda>node.
       case pn_kind node of
         PEmpty \<Rightarrow> EmptyP s
       | PConcat \<Rightarrow>
           bindR (CompileP n (pn_left node) s) (\<lambda>(left, s).
           bindR (CompileP n (pn_right node) s) (\<lambda>(right, s).
           Join left right s))
       | PAlternative \<Rightarrow>
           bindR (CompileP n (pn_left node) s) (\<lambda>(left, s).
           bindR (CompileP n (pn_right node) s) (\<lambda>(right, s).
           bindR (EmitP ((new_pstate PSplit)\<lparr>ps_first := fst left, ps_second := fst right\<rparr>) s) (\<lambda>(split, s).
           Inr ((split, snd left @ snd right), s))))
       | PRepeat \<Rightarrow>
           bindR (EmptyP s) (\<lambda>(result, s).
           bindR (required_copies (pn_minimum node) (CompileP n (pn_left node)) result s) (\<lambda>(result, s).
             if pn_maximum node = unsigned_max then star_copy (CompileP n (pn_left node)) result s
             else optional_copies (pn_maximum node - pn_minimum node) (CompileP n (pn_left node)) result s))
       | k \<Rightarrow>
           bindR (EmitP ((new_pstate k)\<lparr>ps_ranges := pn_ranges node\<rparr>) s) (\<lambda>(emitted, s).
           Inr ((emitted, [(emitted, False)]), s)))"

definition GrepPattern :: "unicode_tables \<Rightarrow> nat list \<Rightarrow> options \<Rightarrow> pattern result" where
  "GrepPattern t src options =
     (if 4096 < length src then Inl (FailP ''pattern capacity4096 exceeded'')
      else bindR (DisjunctionP 65 t (new_pattern src options)) (\<lambda>(root, s).
        if p_position s \<noteq> length (p_source s) then Inl (FailP ''unexpected closing delimiter'')
        else bindR (CompileP (length (p_nodes s)) root s) (\<lambda>(expression, s).
             bindR (EmitP (new_pstate PAccept) s) (\<lambda>(accept, s).
             bindR (Patch (snd expression) accept s) (\<lambda>s.
             Inr (s\<lparr>p_start := fst expression, p_nodes := []\<rparr>))))))"

section \<open>Simulation\<close>

text \<open>Whether the zero-width test of a state holds at a position of the title.\<close>

definition passes :: "options \<Rightarrow> nat list \<Rightarrow> nat \<Rightarrow> pkind \<Rightarrow> bool" where
  "passes options title at k =
     (case k of
        PBegin \<Rightarrow> at = 0 \<or> (o_multiline options \<and> LineP (title ! (at - 1)))
      | PEnd \<Rightarrow> at = length title \<or> (o_multiline options \<and> LineP (title ! at))
      | PBoundary \<Rightarrow> (at \<noteq> 0 \<and> WordP (title ! (at - 1))) \<noteq> (at < length title \<and> WordP (title ! at))
      | PNonBoundary \<Rightarrow> (at \<noteq> 0 \<and> WordP (title ! (at - 1))) = (at < length title \<and> WordP (title ! at))
      | _ \<Rightarrow> True)"

text \<open>The closure loop: the stack with its top first, the generation marks, the output.\<close>

definition unmarked :: "nat \<Rightarrow> nat list \<Rightarrow> nat" where
  "unmarked generation seen = length (filter (\<lambda>g. g \<noteq> generation) seen)"

lemma unmarked_update:
  assumes "i < length seen" "seen ! i \<noteq> generation"
  shows "unmarked generation (seen[i := generation]) < unmarked generation seen"
proof -
  let ?f = "filter (\<lambda>g. g \<noteq> generation)"
  have "?f (seen[i := generation]) = ?f (take i seen) @ ?f (drop (Suc i) seen)"
    using assms(1) by (simp add: upd_conv_take_nth_drop)
  moreover have "?f seen = ?f (take i seen) @ seen ! i # ?f (drop (Suc i) seen)"
    by (subst id_take_nth_drop [OF assms(1)]) (simp add: assms(2))
  ultimately show ?thesis by (simp add: unmarked_def)
qed

function closure_loop :: "pattern \<Rightarrow> nat list \<Rightarrow> nat \<Rightarrow> nat \<Rightarrow> nat list \<Rightarrow> nat list \<Rightarrow> nat list \<Rightarrow> grep_work \<Rightarrow>
    ((nat list \<times> nat list) \<times> grep_work) worked" where
  "closure_loop s title generation at [] seen output w = Inr ((seen, output), w)"
| "closure_loop s title generation at (i # stack) seen output w =
     bindR (Charge 1 w) (\<lambda>w.
       if \<not> (i < length seen \<and> i < length (p_states s)) then Inl (Undefined_behaviour, w)
       else if seen ! i = generation then closure_loop s title generation at stack seen output w
       else let st = p_states s ! i; k = ps_kind st
            in if k = PSplit then
                 closure_loop s title generation at (ps_second st # ps_first st # stack) (seen[i := generation]) output w
               else if k \<in> {PJump, PBegin, PEnd, PBoundary, PNonBoundary} then
                 closure_loop s title generation at (if passes (p_options s) title at k then ps_first st # stack else stack)
                   (seen[i := generation]) output w
               else closure_loop s title generation at stack (seen[i := generation]) (output @ [i]) w)"
  by pat_completeness auto
termination
  by (relation "inv_image (less_than <*lex*> less_than)
    (\<lambda>(s, title, generation, at, stack, seen, output, w). (unmarked generation seen, length stack))")
    (auto simp: unmarked_update)

fun accepts_loop :: "pattern \<Rightarrow> nat list \<Rightarrow> bool result" where
  "accepts_loop s [] = Inr False"
| "accepts_loop s (i # rest) =
     bindR (nthR (p_states s) i) (\<lambda>st. if ps_kind st = PAccept then Inr True else accepts_loop s rest)"

fun advance_loop :: "pattern \<Rightarrow> nat list \<Rightarrow> nat \<Rightarrow> nat \<Rightarrow> nat \<Rightarrow> nat list \<Rightarrow> nat list \<Rightarrow> nat list \<Rightarrow> grep_work \<Rightarrow>
    ((nat list \<times> nat list) \<times> grep_work) worked" where
  "advance_loop s title generation at unit [] seen output w = Inr ((seen, output), w)"
| "advance_loop s title generation at unit (i # rest) seen output w =
     bindR (Charge 1 w) (\<lambda>w.
       if \<not> i < length (p_states s) then Inl (Undefined_behaviour, w)
       else let st = p_states s ! i
            in if ps_kind st \<noteq> PCharacter then advance_loop s title generation at unit rest seen output w
               else bindR (ContainsP (ps_ranges st) unit w) (\<lambda>(found, w).
                 if \<not> found then advance_loop s title generation at unit rest seen output w
                 else bindR (closure_loop s title generation (at + 1) [ps_first st] seen output w) (\<lambda>((seen, output), w).
                   advance_loop s title generation at unit rest seen output w)))"

text \<open>The loop over positions; \<open>rest\<close> is the title from the position on.\<close>

fun match_loop :: "unicode_tables \<Rightarrow> pattern \<Rightarrow> nat list \<Rightarrow> nat list \<Rightarrow> nat \<Rightarrow> nat \<Rightarrow> nat list \<Rightarrow> nat list \<Rightarrow> grep_work \<Rightarrow>
    (bool \<times> grep_work) worked" where
  "match_loop t s title rest at generation current seen w =
     (let generation = (if generation = 0 then 1 else generation)
      in bindR (if \<not> o_sticky (p_options s) \<or> at = 0
                then closure_loop s title generation at [p_start s] seen current w
                else Inr ((seen, current), w)) (\<lambda>((seen, current), w).
         case accepts_loop s current of
           Inl e \<Rightarrow> Inl (e, w)
         | Inr True \<Rightarrow> Inr (True, w)
         | Inr False \<Rightarrow>
             (case rest of
                [] \<Rightarrow> Inr (False, w)
              | u # rest' \<Rightarrow>
                  bindR (advance_loop s title (generation + 1) at (if o_insensitive (p_options s) then Fold t u else u)
                           current seen [] w) (\<lambda>((seen, after), w).
                  match_loop t s title rest' (at + 1) (generation + 1) after seen w))))"

definition MatchesP :: "unicode_tables \<Rightarrow> pattern \<Rightarrow> nat list \<Rightarrow> grep_work \<Rightarrow> (bool \<times> grep_work) worked" where
  "MatchesP t s title w =
     (if 32768 < length title then Inl (FailP ''title capacity32768 UTF16 units exceeded'', w)
      else match_loop t s title title 0 0 [] (replicate (length (p_states s)) 0) w)"

definition StateCountP :: "pattern \<Rightarrow> nat" where
  "StateCountP s = length (p_states s)"

definition RangeCountP :: "pattern \<Rightarrow> nat" where
  "RangeCountP s = p_range_count s"

text \<open>\<open>CompileCLIGrepNFA\<close>: slash delimiters with \<open>g\<close> and \<open>i\<close> suffixes.\<close>

fun cli_flags :: "nat list \<Rightarrow> bool \<Rightarrow> bool \<Rightarrow> bool result" where
  "cli_flags [] global insens = Inr insens"
| "cli_flags (f # fs) global insens =
     (if f = ch CHR ''i'' then
        if insens then Inl (Invalid_argument ''Native grep duplicate i flag'') else cli_flags fs global True
      else if global then Inl (Invalid_argument ''Native grep duplicate g flag'') else cli_flags fs True insens)"

text \<open>\<open>rfind('/')\<close>: the units before the last slash and those after it.\<close>

definition last_slash :: "nat list \<Rightarrow> (nat list \<times> nat list) option" where
  "last_slash us =
     (let after = takeWhile (\<lambda>u. u \<noteq> ch CHR ''/'') (rev us)
      in if length after = length us then None
         else Some (take (length us - length after - 1) us, rev after))"

definition CompileCLIGrepNFA :: "unicode_tables \<Rightarrow> nat list \<Rightarrow> pattern result" where
  "CompileCLIGrepNFA t argument =
     (if 4096 < length argument then Inl (Invalid_argument ''Native grep CLI argument capacity4096 exceeded'')
      else bindR (case last_slash argument of
             Some (delimited, flags) \<Rightarrow>
               if hd argument = ch CHR ''/'' \<and> delimited \<noteq> [] \<and> (\<forall>f \<in> set flags. f = ch CHR ''g'' \<or> f = ch CHR ''i'')
               then bindR (cli_flags flags False False) (\<lambda>insens. Inr (tl delimited, insens))
               else Inr (argument, True)
           | None \<Rightarrow> Inr (argument, True)) (\<lambda>(src, insens).
        GrepPattern t src \<lparr>o_insensitive = insens, o_multiline = False, o_dot_all = False, o_sticky = False\<rparr>))"

end
