(* ===== verification/GrepLanguage.thy ===== *)
theory GrepLanguage
  imports GrepPattern
begin

text \<open>
  The meaning of the expressions the automaton engine of \<open>native/runner/grep_pattern.h\<close> accepts, as
  relations between positions of a title, and the meaning of its automata, as reachability between
  pairs of a state and a position. The rules at the end are the laws of Thompson's construction: how
  the relation of a fragment follows from those of its parts. They do not depend on the order in
  which the code emits states.
\<close>

section \<open>Expressions as relations on positions\<close>

datatype rx =
    REmpty
  | RChar ranges
  | RTest pkind
  | RConcat rx rx
  | RAlt rx rx
  | RRepeat nat "nat option" rx

record matching =
  mt_tables :: unicode_tables
  mt_options :: options
  mt_title :: "nat list"

definition unit_at :: "matching \<Rightarrow> nat \<Rightarrow> nat" where
  "unit_at c a = (if o_insensitive (mt_options c) then Fold (mt_tables c) (mt_title c ! a) else mt_title c ! a)"

fun lang :: "matching \<Rightarrow> rx \<Rightarrow> (nat \<times> nat) set" where
  "lang c REmpty = Id"
| "lang c (RChar rs) = {(a, b). b = Suc a \<and> a < length (mt_title c) \<and> unit_at c a \<in> points rs}"
| "lang c (RTest k) = {(a, b). b = a \<and> passes (mt_options c) (mt_title c) a k}"
| "lang c (RConcat r s) = lang c r O lang c s"
| "lang c (RAlt r s) = lang c r \<union> lang c s"
| "lang c (RRepeat low None r) = (\<Union>n \<in> {low..}. lang c r ^^ n)"
| "lang c (RRepeat low (Some high) r) = (\<Union>n \<in> {low..high}. lang c r ^^ n)"

text \<open>An expression matches a title when it relates some origin to some end; a sticky one starts at 0.\<close>

definition matches :: "matching \<Rightarrow> rx \<Rightarrow> bool" where
  "matches c r \<longleftrightarrow>
     (\<exists>origin end_at. (o_sticky (mt_options c) \<longrightarrow> origin = 0) \<and> origin \<le> length (mt_title c) \<and> (origin, end_at) \<in> lang c r)"

section \<open>Automata as step relations\<close>

abbreviation test_kinds :: "pkind set" where
  "test_kinds \<equiv> {PJump, PBegin, PEnd, PBoundary, PNonBoundary}"

inductive nstep :: "matching \<Rightarrow> pstate list \<Rightarrow> nat \<times> nat \<Rightarrow> nat \<times> nat \<Rightarrow> bool" for c F where
  split_first: "q < length F \<Longrightarrow> ps_kind (F ! q) = PSplit \<Longrightarrow> nstep c F (q, a) (ps_first (F ! q), a)"
| split_second: "q < length F \<Longrightarrow> ps_kind (F ! q) = PSplit \<Longrightarrow> nstep c F (q, a) (ps_second (F ! q), a)"
| test: "q < length F \<Longrightarrow> ps_kind (F ! q) \<in> test_kinds \<Longrightarrow> passes (mt_options c) (mt_title c) a (ps_kind (F ! q)) \<Longrightarrow>
    nstep c F (q, a) (ps_first (F ! q), a)"
| character: "q < length F \<Longrightarrow> ps_kind (F ! q) = PCharacter \<Longrightarrow> a < length (mt_title c) \<Longrightarrow>
    unit_at c a \<in> points (ps_ranges (F ! q)) \<Longrightarrow> nstep c F (q, a) (ps_first (F ! q), Suc a)"

inductive_simps nstep_simps: "nstep c F (q, a) d"
inductive_cases nstepE: "nstep c F x y"

lemma nstep_iff:
  "nstep c F (q, a) (q', b) \<longleftrightarrow> q < length F \<and>
     (if ps_kind (F ! q) = PSplit then b = a \<and> (q' = ps_first (F ! q) \<or> q' = ps_second (F ! q))
      else if ps_kind (F ! q) \<in> test_kinds then b = a \<and> q' = ps_first (F ! q) \<and> passes (mt_options c) (mt_title c) a (ps_kind (F ! q))
      else ps_kind (F ! q) = PCharacter \<and> a < length (mt_title c) \<and> unit_at c a \<in> points (ps_ranges (F ! q)) \<and>
           b = Suc a \<and> q' = ps_first (F ! q))"
  by (auto simp: nstep_simps)

text \<open>Steps from the states of a set; a path that leaves the set by its last step.\<close>

definition istep :: "matching \<Rightarrow> pstate list \<Rightarrow> nat set \<Rightarrow> nat \<times> nat \<Rightarrow> nat \<times> nat \<Rightarrow> bool" where
  "istep c F I x y \<longleftrightarrow> fst x \<in> I \<and> nstep c F x y"

definition exits :: "matching \<Rightarrow> pstate list \<Rightarrow> nat set \<Rightarrow> nat \<times> nat \<Rightarrow> nat \<times> nat \<Rightarrow> bool" where
  "exits c F I x y \<longleftrightarrow> (istep c F I)\<^sup>*\<^sup>* x y \<and> fst y \<notin> I"

text \<open>A fragment on the states \<open>I\<close>: entered at \<open>start\<close>, it is left only to \<open>target\<close>, and relates positions by \<open>R\<close>.\<close>

definition frag :: "matching \<Rightarrow> pstate list \<Rightarrow> nat set \<Rightarrow> nat \<Rightarrow> nat \<Rightarrow> (nat \<times> nat) set \<Rightarrow> bool" where
  "frag c F I start target R \<longleftrightarrow>
     start \<in> I \<and> target \<notin> I \<and>
     (\<forall>a q b. exits c F I (start, a) (q, b) \<longleftrightarrow> q = target \<and> (a, b) \<in> R)"

lemma istep_mono: "I \<subseteq> J \<Longrightarrow> (istep c F I)\<^sup>*\<^sup>* x y \<Longrightarrow> (istep c F J)\<^sup>*\<^sup>* x y"
  by (erule rtranclp_mono [THEN predicate2D, rotated]) (auto simp: istep_def)

lemma exits_outside: "fst x \<notin> I \<Longrightarrow> exits c F I x y \<longleftrightarrow> y = x"
  by (auto simp: exits_def istep_def elim: converse_rtranclpE)

text \<open>A path that leaves a set first leaves every subset it starts in.\<close>

lemma first_exit:
  assumes "(istep c F J ^^ n) x y" "fst y \<notin> I" "I \<subseteq> J"
  shows "\<exists>d k. exits c F I x d \<and> k \<le> n \<and> (istep c F J ^^ k) d y"
  using assms(1)
proof (induction n arbitrary: x)
  case 0
  then show ?case using assms(2) exits_outside [of x I] by auto
next
  case (Suc n)
  then obtain z where z: "istep c F J x z" "(istep c F J ^^ n) z y" by (metis relpowp_Suc_D2)
  then obtain d k where d: "exits c F I z d" "k \<le> n" "(istep c F J ^^ k) d y" using Suc.IH by blast
  show ?case
  proof (cases "fst x \<in> I")
    case True
    then have "istep c F I x z" using z(1) by (simp add: istep_def)
    then have "exits c F I x d" using d(1) by (auto simp: exits_def intro: converse_rtranclp_into_rtranclp)
    then show ?thesis using d(2,3) le_SucI by blast
  next
    case False
    then have "exits c F I x x" by (simp add: exits_outside)
    then show ?thesis using Suc.prems by blast
  qed
qed

lemma exits_first:
  assumes "exits c F J x y" "I \<subseteq> J"
  shows "\<exists>d. exits c F I x d \<and> exits c F J d y"
proof -
  obtain n where n: "(istep c F J ^^ n) x y" using assms(1) by (auto simp: exits_def rtranclp_power)
  have out: "fst y \<notin> J" "fst y \<notin> I" using assms by (auto simp: exits_def)
  from first_exit [OF n out(2) assms(2)] obtain d k where d: "exits c F I x d" "(istep c F J ^^ k) d y" by blast
  have "(istep c F J)\<^sup>*\<^sup>* d y" using relpowp_imp_rtranclp [OF d(2)] .
  then have "exits c F J d y" using out(1) by (simp add: exits_def)
  then show ?thesis using d(1) by blast
qed

lemma exits_trans:
  "exits c F I x d \<Longrightarrow> exits c F J d y \<Longrightarrow> I \<subseteq> J \<Longrightarrow> exits c F J x y"
  by (auto simp: exits_def intro: rtranclp_trans dest: istep_mono)

lemma exits_step: "fst x \<in> I \<Longrightarrow> exits c F I x y \<longleftrightarrow> (\<exists>z. nstep c F x z \<and> exits c F I z y)"
proof
  assume x: "fst x \<in> I"
  {
    assume e: "exits c F I x y"
    then have "(istep c F I)\<^sup>*\<^sup>* x y" "x \<noteq> y" using x by (auto simp: exits_def)
    then obtain z where "istep c F I x z" "(istep c F I)\<^sup>*\<^sup>* z y" by (metis converse_rtranclpE)
    then show "\<exists>z. nstep c F x z \<and> exits c F I z y" using e unfolding exits_def istep_def by blast
  }
  assume "\<exists>z. nstep c F x z \<and> exits c F I z y"
  then obtain z where "istep c F I x z" "(istep c F I)\<^sup>*\<^sup>* z y" "fst y \<notin> I"
    using x unfolding exits_def istep_def by blast
  then show "exits c F I x y" unfolding exits_def by (blast intro: converse_rtranclp_into_rtranclp)
qed

section \<open>The laws of the construction\<close>

lemma frag_seq:
  assumes 1: "frag c F I s1 s2 R1" and 2: "frag c F J s2 t R2" and t: "t \<notin> I"
  shows "frag c F (I \<union> J) s1 t (R1 O R2)"
proof -
  have "exits c F (I \<union> J) (s1, a) (q, b) \<longleftrightarrow> q = t \<and> (a, b) \<in> R1 O R2" for a q b
  proof
    assume e: "exits c F (I \<union> J) (s1, a) (q, b)"
    then obtain d where d: "exits c F I (s1, a) d" "exits c F (I \<union> J) d (q, b)"
      using exits_first [of c F "I \<union> J" _ _ I] by blast
    obtain a' where a': "d = (s2, a')" "(a, a') \<in> R1" using 1 d(1) by (cases d) (auto simp: frag_def)
    then obtain d' where d': "exits c F J (s2, a') d'" "exits c F (I \<union> J) d' (q, b)"
      using d(2) exits_first [of c F "I \<union> J" _ _ J] by blast
    obtain b' where b': "d' = (t, b')" "(a', b') \<in> R2" using 2 d'(1) by (cases d') (auto simp: frag_def)
    have "t \<notin> I \<union> J" using 2 t by (simp add: frag_def)
    then have "(q, b) = d'" using d'(2) b'(1) exits_outside [of d' "I \<union> J" c F "(q, b)"] by simp
    then show "q = t \<and> (a, b) \<in> R1 O R2" using a' b' by auto
  next
    assume "q = t \<and> (a, b) \<in> R1 O R2"
    then obtain a' where a': "(a, a') \<in> R1" "(a', b) \<in> R2" "q = t" by auto
    have "exits c F I (s1, a) (s2, a')" "exits c F J (s2, a') (t, b)" using 1 2 a' by (auto simp: frag_def)
    moreover have "exits c F (I \<union> J) (t, b) (t, b)" using 2 t by (intro exits_outside [THEN iffD2]) (auto simp: frag_def)
    ultimately show "exits c F (I \<union> J) (s1, a) (q, b)" using a'(3) by (blast intro: exits_trans)
  qed
  then show ?thesis using 1 2 t by (auto simp: frag_def)
qed

lemma frag_leaf:
  assumes "q < length F" "ps_kind (F ! q) \<noteq> PSplit" "ps_first (F ! q) = t" "t \<noteq> q"
  shows "frag c F {q} q t {(a, b). nstep c F (q, a) (t, b)}"
proof -
  have "exits c F {q} (q, a) (q', b) \<longleftrightarrow> q' = t \<and> nstep c F (q, a) (t, b)" for a q' b
  proof -
    have "exits c F {q} (q, a) (q', b) \<longleftrightarrow> (\<exists>z. nstep c F (q, a) z \<and> exits c F {q} z (q', b))"
      by (rule exits_step) simp
    also have "\<dots> \<longleftrightarrow> (\<exists>b'. nstep c F (q, a) (t, b') \<and> exits c F {q} (t, b') (q', b))"
      using assms(2,3) by (auto simp: nstep_iff)
    also have "\<dots> \<longleftrightarrow> q' = t \<and> nstep c F (q, a) (t, b)" using assms(4) by (auto simp: exits_outside)
    finally show ?thesis .
  qed
  then show ?thesis using assms(4) by (simp add: frag_def)
qed

text \<open>A split state \<open>p\<close> in front of two ways to its target.\<close>

definition way :: "matching \<Rightarrow> pstate list \<Rightarrow> nat set \<Rightarrow> nat \<Rightarrow> nat \<Rightarrow> (nat \<times> nat) set \<Rightarrow> bool" where
  "way c F I x target R \<longleftrightarrow> frag c F I x target R \<or> (x = target \<and> R = Id)"

lemma way_exits:
  assumes "way c F I x t R" "I \<subseteq> J" "t \<notin> J"
  shows "exits c F J (x, a) (q, b) \<longleftrightarrow> q = t \<and> (a, b) \<in> R"
proof (cases "x = t \<and> R = Id")
  case True
  then show ?thesis using assms(3) exits_outside [of "(t, a)" J c F "(q, b)"] by auto
next
  case False
  then have f: "frag c F I x t R" using assms(1) by (auto simp: way_def)
  show ?thesis
  proof
    assume "exits c F J (x, a) (q, b)"
    then obtain d where d: "exits c F I (x, a) d" "exits c F J d (q, b)" using exits_first assms(2) by blast
    then obtain b' where "d = (t, b')" "(a, b') \<in> R" using f by (cases d) (auto simp: frag_def)
    then show "q = t \<and> (a, b) \<in> R" using d(2) assms(3) exits_outside [of d J c F "(q, b)"] by auto
  next
    assume "q = t \<and> (a, b) \<in> R"
    then have "exits c F I (x, a) (t, b)" "q = t" using f by (auto simp: frag_def)
    then show "exits c F J (x, a) (q, b)" using exits_trans [of c F I _ "(t, b)" J] exits_outside [of "(t, b)" J] assms by auto
  qed
qed

lemma frag_split:
  assumes p: "p < length F" "ps_kind (F ! p) = PSplit" and p': "t \<noteq> p"
    and 1: "way c F I (ps_first (F ! p)) t R1" and 2: "way c F J (ps_second (F ! p)) t R2"
    and t: "t \<notin> I" "t \<notin> J"
  shows "frag c F (insert p (I \<union> J)) p t (R1 \<union> R2)"
proof -
  let ?K = "insert p (I \<union> J)"
  have K: "t \<notin> ?K" "I \<subseteq> ?K" "J \<subseteq> ?K" using t p' by auto
  have "exits c F ?K (p, a) (q, b) \<longleftrightarrow>
      exits c F ?K (ps_first (F ! p), a) (q, b) \<or> exits c F ?K (ps_second (F ! p), a) (q, b)" for a q b
    using exits_step [of "(p, a)" ?K c F "(q, b)"] p by (auto simp: nstep_iff)
  then have "exits c F ?K (p, a) (q, b) \<longleftrightarrow> q = t \<and> (a, b) \<in> R1 \<union> R2" for a q b
    using way_exits [OF 1 K(2,1)] way_exits [OF 2 K(3,1)] by auto
  then show ?thesis using K(1) by (simp add: frag_def)
qed

lemma frag_star:
  assumes p: "p < length F" "ps_kind (F ! p) = PSplit" "ps_second (F ! p) = t" "t \<noteq> p" "t \<notin> I"
    and body: "frag c F I (ps_first (F ! p)) p R"
  shows "frag c F (insert p I) p t (R\<^sup>*)"
proof -
  let ?K = "insert p I"
  have unfold: "exits c F ?K (p, a) y \<longleftrightarrow> exits c F ?K (ps_first (F ! p), a) y \<or> y = (t, a)" for a y
    using exits_step [of "(p, a)" ?K c F y] p exits_outside [of "(t, a)" ?K c F y] by (auto simp: nstep_iff)
  have sound: "q = t \<and> (a, b) \<in> R\<^sup>*" if "exits c F ?K (p, a) (q, b)" for a q b
  proof -
    have path: "(istep c F ?K)\<^sup>*\<^sup>* (p, a) (q, b)" and out: "q \<notin> ?K" using that by (auto simp: exits_def)
    obtain n where "(istep c F ?K ^^ n) (p, a) (q, b)" using path by (auto simp: rtranclp_power)
    then show ?thesis
    proof (induction n arbitrary: a rule: less_induct)
      case (less n)
      have "(p, a) \<noteq> (q, b)" using out by auto
      then obtain m where m: "n = Suc m" using less.prems by (cases n) auto
      then obtain z where z: "istep c F ?K (p, a) z" "(istep c F ?K ^^ m) z (q, b)" using less.prems by (metis relpowp_Suc_D2)
      then have "z = (ps_first (F ! p), a) \<or> z = (t, a)" using p by (cases z) (auto simp: istep_def nstep_iff)
      then show ?case
      proof
        assume "z = (t, a)"
        then have "(istep c F ?K)\<^sup>*\<^sup>* (t, a) (q, b)" using z(2) by (auto simp: rtranclp_power)
        then have "exits c F ?K (t, a) (q, b)" using out by (simp add: exits_def)
        then show ?thesis using p exits_outside [of "(t, a)" ?K] by auto
      next
        assume "z = (ps_first (F ! p), a)"
        then obtain d k where d: "exits c F I (ps_first (F ! p), a) d" "k \<le> m" "(istep c F ?K ^^ k) d (q, b)"
          using first_exit [OF z(2), of I] out by auto
        then obtain a' where a': "d = (p, a')" "(a, a') \<in> R" using body by (cases d) (auto simp: frag_def)
        have "q = t \<and> (a', b) \<in> R\<^sup>*" using less.IH [of k a'] d a' m by simp
        then show ?thesis using a'(2) by (auto intro: converse_rtrancl_into_rtrancl)
      qed
    qed
  qed
  have complete: "exits c F ?K (p, a) (t, b)" if "(a, b) \<in> R\<^sup>*" for a b
    using that
  proof (induction rule: converse_rtrancl_induct)
    case base
    then show ?case by (simp add: unfold)
  next
    case (step a a')
    have "exits c F I (ps_first (F ! p), a) (p, a')" using body step(1) by (auto simp: frag_def)
    then have "exits c F ?K (ps_first (F ! p), a) (t, b)" using step(3) by (blast intro: exits_trans)
    then show ?case by (simp add: unfold)
  qed
  show ?thesis using sound complete p by (auto simp: frag_def)
qed

end
