(* ===== verification/Machines.thy ===== *)
theory Machines
  imports Prelude
begin

text \<open>
  The interface between the runner's planning components and the arguments made about all their
  histories. A component is a step relation labelled by the operation called; a trace is a sequence
  of calls that returned. \<open>machine\<close> is the contract of an invariant kept by every call;
  \<open>ranked_machine\<close> adds a natural number that no call increases and that the productive calls
  decrease, which bounds how many of them a history can hold.
\<close>

inductive trace :: "('s \<Rightarrow> 'o \<Rightarrow> 's \<Rightarrow> bool) \<Rightarrow> 's \<Rightarrow> 'o list \<Rightarrow> 's \<Rightarrow> bool" for step where
  trace_Nil: "trace step s [] s"
| trace_Cons: "step s e s' \<Longrightarrow> trace step s' es s'' \<Longrightarrow> trace step s (e # es) s''"

inductive_simps trace_Nil_iff [simp]: "trace step s [] s'"
inductive_simps trace_Cons_iff: "trace step s (e # es) s'"

lemma trace_append: "trace step s (es @ fs) s' \<longleftrightarrow> (\<exists>m. trace step s es m \<and> trace step m fs s')"
  by (induction es arbitrary: s) (auto simp: trace_Cons_iff)

text \<open>Running a sequence of calls of a machine whose operations are functions.\<close>

fun run_calls :: "('o \<Rightarrow> 's \<Rightarrow> 'e + 's) \<Rightarrow> 'o list \<Rightarrow> 's \<Rightarrow> 'e + 's" where
  "run_calls call [] s = Inr s"
| "run_calls call (e # es) s = bindR (call e s) (run_calls call es)"

lemma trace_run_calls:
  assumes "\<And>s e s'. call e s = Inr s' \<Longrightarrow> step s e s'"
  shows "run_calls call es s = Inr s' \<Longrightarrow> trace step s es s'"
  by (induction es arbitrary: s) (auto simp: bindR_eq_Inr trace_Cons_iff intro: assms)

locale machine =
  fixes step :: "'s \<Rightarrow> 'o \<Rightarrow> 's \<Rightarrow> bool" and inv :: "'s \<Rightarrow> bool"
  assumes step_inv: "inv s \<Longrightarrow> step s e s' \<Longrightarrow> inv s'"
begin

lemma trace_inv: "trace step s es s' \<Longrightarrow> inv s \<Longrightarrow> inv s'"
  by (induction rule: trace.induct) (auto intro: step_inv)

text \<open>A relation between states that is reflexive and transitive and holds across every call holds across a trace.\<close>

lemma trace_relates:
  assumes "trace step s es s'" "inv s" "\<And>a. R a a" "\<And>a b c. R a b \<Longrightarrow> R b c \<Longrightarrow> R a c"
    "\<And>a e b. inv a \<Longrightarrow> step a e b \<Longrightarrow> R a b"
  shows "R s s'"
  using assms(1,2)
proof (induction rule: trace.induct)
  case (trace_Cons s e s' es s'')
  then show ?case using assms(4,5) step_inv by blast
qed (simp add: assms(3))

end

locale ranked_machine = machine +
  fixes rank :: "'s \<Rightarrow> nat" and productive :: "'o \<Rightarrow> 's \<Rightarrow> 's \<Rightarrow> bool"
  assumes step_rank: "inv s \<Longrightarrow> step s e s' \<Longrightarrow> rank s' + (if productive e s s' then 1 else 0) \<le> rank s"
begin

text \<open>\<open>progress s es n s'\<close>: the trace has \<open>n\<close> productive calls.\<close>

inductive progress :: "'s \<Rightarrow> 'o list \<Rightarrow> nat \<Rightarrow> 's \<Rightarrow> bool" where
  progress_Nil: "progress s [] 0 s"
| progress_Cons: "step s e s' \<Longrightarrow> progress s' es n s'' \<Longrightarrow>
    progress s (e # es) (n + (if productive e s s' then 1 else 0)) s''"

lemma progress_rank: "progress s es n s' \<Longrightarrow> inv s \<Longrightarrow> n + rank s' \<le> rank s"
proof (induction rule: progress.induct)
  case (progress_Cons s e s' es n s'')
  then show ?case using step_rank [OF progress_Cons.prems progress_Cons.hyps(1)] step_inv by fastforce
qed simp

lemma all_productive_bound:
  assumes "trace step s es s'" "inv s" "\<And>a e b. e \<in> set es \<Longrightarrow> inv a \<Longrightarrow> step a e b \<Longrightarrow> productive e a b"
  shows "length es + rank s' \<le> rank s"
  using assms
proof (induction rule: trace.induct)
  case (trace_Cons s e s' es s'')
  have "inv s'" using trace_Cons.hyps(1) trace_Cons.prems(1) step_inv by blast
  then have "length es + rank s'' \<le> rank s'" using trace_Cons by simp
  moreover have "rank s' + 1 \<le> rank s"
    using step_rank [OF trace_Cons.prems(1) trace_Cons.hyps(1)] trace_Cons.prems(2) [OF _ trace_Cons.prems(1) trace_Cons.hyps(1)] by simp
  ultimately show ?case by simp
qed simp

end

end
