(* ===== verification/RetryPlan.thy ===== *)
theory RetryPlan
  imports Machines
begin

text \<open>
  The serial retry plan of \<open>native/runner/retry_plan.h\<close>: a queue of attempts, at most one active
  attempt, and the fence after an unexpected outcome, where the failed worker must have exited before
  anything else is admitted. Every operation returns its answer with the next state; the exceptions of
  the code are thrown before any member changes.
\<close>

datatype outcome = OPassed | OFailed | OTimedOut | OInterrupted | OSkipped

record test_case =
  tc_id :: nat
  tc_title :: string
  tc_fixtures :: "string list"
  tc_retries :: nat
  tc_expected_failure :: bool

record attempt =
  at_test :: test_case
  at_retry :: nat
  at_generation :: nat

record attempt_result =
  r_attempt :: attempt
  r_outcome :: outcome
  r_expected :: bool
  r_error :: string

record retry_plan =
  rp_tests :: "test_case list"
  rp_queue :: "attempt list"
  rp_active :: "attempt option"
  rp_retry :: "attempt option"
  rp_results :: "attempt_result list"
  rp_worker :: nat
  rp_retiring_worker :: nat
  rp_generation :: nat
  rp_max_failures :: nat
  rp_unexpected_tests :: nat
  rp_limit_reached :: bool
  rp_runtime_expected_failure :: bool

type_synonym 'a plan_op = "retry_plan \<Rightarrow> ('a \<times> retry_plan) result"

section \<open>Operations\<close>

definition record_bytes :: "test_case \<Rightarrow> nat" where
  "record_bytes t = length (tc_title t) + 8448 + sum_list (map (\<lambda>f. length f + 32) (tc_fixtures t))"

fun budget_loop :: "test_case list \<Rightarrow> nat \<Rightarrow> unit result" where
  "budget_loop [] budget = Inr ()"
| "budget_loop (t # ts) budget =
     (if 4096 < length (tc_title t) \<or> 256 < length (tc_fixtures t) \<or> 1048576 < record_bytes t
      then Inl (Invalid_argument ''Native test metadata limit exceeded'')
      else let budget = budget + record_bytes t * (tc_retries t + 1)
           in if 67108864 < budget then Inl (Invalid_argument ''Native attempt metadata/error budget64MiB exceeded'')
              else budget_loop ts budget)"

fun identity_loop :: "test_case list \<Rightarrow> nat list \<Rightarrow> unit result" where
  "identity_loop [] earlier = Inr ()"
| "identity_loop (t # ts) earlier =
     (if tc_id t = 0 \<or> 100 < tc_retries t then Inl (Invalid_argument ''Invalid native test ID/retry count'')
      else if tc_id t \<in> set earlier then Inl (Invalid_argument ''Duplicate native test ID'')
      else identity_loop ts (earlier @ [tc_id t]))"

definition RetryPlan :: "test_case list \<Rightarrow> nat \<Rightarrow> nat \<Rightarrow> retry_plan result" where
  "RetryPlan tests max_failures generation_seed =
     (if 4096 < max_failures then Inl (Invalid_argument ''Native maximum failure count must be0..4096'')
      else if 4096 < length tests then Inl (Invalid_argument ''Native test capacity4096 exceeded'')
      else bindR (budget_loop tests 0) (\<lambda>_.
           bindR (identity_loop tests []) (\<lambda>_.
           Inr \<lparr>rp_tests = tests,
                rp_queue = map (\<lambda>t. \<lparr>at_test = t, at_retry = 0, at_generation = 0\<rparr>) tests,
                rp_active = None, rp_retry = None, rp_results = [], rp_worker = 0, rp_retiring_worker = 0,
                rp_generation = generation_seed, rp_max_failures = max_failures, rp_unexpected_tests = 0,
                rp_limit_reached = False, rp_runtime_expected_failure = False\<rparr>)))"

definition retry_Next :: "nat \<Rightarrow> nat \<Rightarrow> attempt option plan_op" where
  "retry_Next worker admitted p =
     (case rp_queue p of
        [] \<Rightarrow> Inr (None, p)
      | front # rest \<Rightarrow>
          if rp_active p \<noteq> None \<or> rp_retiring_worker p \<noteq> 0 \<or> worker = 0 then Inr (None, p)
          else if rp_generation p = u64_max then Inl (Overflow_error ''Native attempt generation space exhausted'')
          else if admitted \<noteq> 0 \<and> admitted \<le> rp_generation p
          then Inl (Invalid_argument ''Native shared attempt generation is stale'')
          else let generation = (if admitted \<noteq> 0 then admitted else rp_generation p + 1);
                   a = front\<lparr>at_generation := generation\<rparr>
               in Inr (Some a, p\<lparr>rp_queue := rest, rp_generation := generation, rp_active := Some a,
                                 rp_runtime_expected_failure := False, rp_worker := worker\<rparr>))"

definition retry_owns :: "retry_plan \<Rightarrow> nat \<Rightarrow> nat \<Rightarrow> bool" where
  "retry_owns p worker generation \<longleftrightarrow>
     (case rp_active p of None \<Rightarrow> False | Some a \<Rightarrow> worker = rp_worker p \<and> generation = at_generation a)"

definition retry_ExpectFailure :: "nat \<Rightarrow> nat \<Rightarrow> bool plan_op" where
  "retry_ExpectFailure worker generation p =
     (if \<not> retry_owns p worker generation then Inr (False, p)
      else Inr (True, p\<lparr>rp_runtime_expected_failure := True\<rparr>))"

definition expected_outcome :: "test_case \<Rightarrow> bool \<Rightarrow> outcome \<Rightarrow> bool \<Rightarrow> bool" where
  "expected_outcome t runtime_expected status infrastructure_failure \<longleftrightarrow>
     \<not> infrastructure_failure \<and>
     (status = OSkipped \<or> (if tc_expected_failure t \<or> runtime_expected then status = OFailed else status = OPassed))"

definition retry_Finish :: "nat \<Rightarrow> nat \<Rightarrow> outcome \<Rightarrow> string \<Rightarrow> bool \<Rightarrow> bool plan_op" where
  "retry_Finish worker generation status error infrastructure_failure p =
     (case rp_active p of
        None \<Rightarrow> Inr (False, p)
      | Some a \<Rightarrow>
          if \<not> retry_owns p worker generation then Inr (False, p)
          else let expected = expected_outcome (at_test a) (rp_runtime_expected_failure p) status infrastructure_failure;
                   p = p\<lparr>rp_results := rp_results p @ [\<lparr>r_attempt = a, r_outcome = status, r_expected = expected,
                                                         r_error = take 8192 error\<rparr>],
                         rp_active := None, rp_runtime_expected_failure := False\<rparr>
               in if expected then Inr (True, p)
                  else let p = p\<lparr>rp_retiring_worker := worker\<rparr>
                       in if at_retry a < tc_retries (at_test a) \<and> status \<noteq> OInterrupted
                          then Inr (True, p\<lparr>rp_retry := Some \<lparr>at_test = at_test a, at_retry = at_retry a + 1, at_generation = 0\<rparr>\<rparr>)
                          else if status \<noteq> OInterrupted
                          then let p = p\<lparr>rp_unexpected_tests := rp_unexpected_tests p + 1\<rparr>
                               in if rp_max_failures p \<noteq> 0 \<and> rp_max_failures p \<le> rp_unexpected_tests p
                                  then Inr (True, p\<lparr>rp_limit_reached := True, rp_queue := []\<rparr>)
                                  else Inr (True, p)
                          else Inr (True, p))"

definition retry_WorkerExited :: "nat \<Rightarrow> bool plan_op" where
  "retry_WorkerExited worker p =
     (if worker = 0 \<or> worker \<noteq> rp_retiring_worker p then Inr (False, p)
      else let p = p\<lparr>rp_retiring_worker := 0\<rparr>
           in case rp_retry p of
                None \<Rightarrow> Inr (True, p)
              | Some a \<Rightarrow> Inr (True, p\<lparr>rp_queue := a # rp_queue p, rp_retry := None\<rparr>))"

definition retry_ExcludeQueued :: "nat list \<Rightarrow> unit plan_op" where
  "retry_ExcludeQueued ids p =
     (if rp_active p \<noteq> None then Inl (Runtime_error ''Cannot exclude native declarations during an active attempt'')
      else if \<not> list_all (\<lambda>i. i \<in> tc_id ` set (rp_tests p)) ids
      then Inl (Runtime_error ''Cannot exclude an unknown native declaration ID'')
      else Inr ((), p\<lparr>rp_queue := filter (\<lambda>a. tc_id (at_test a) \<notin> set ids) (rp_queue p),
                      rp_retry := (case rp_retry p of
                         Some a \<Rightarrow> if tc_id (at_test a) \<in> set ids then None else Some a
                       | None \<Rightarrow> None)\<rparr>))"

definition retry_NeedsWorkerRetirement :: "retry_plan \<Rightarrow> bool" where
  "retry_NeedsWorkerRetirement p \<longleftrightarrow> rp_retiring_worker p \<noteq> 0"

definition retry_Done :: "retry_plan \<Rightarrow> bool" where
  "retry_Done p \<longleftrightarrow> rp_active p = None \<and> rp_retiring_worker p = 0 \<and> rp_queue p = []"

section \<open>Histories\<close>

datatype plan_call =
    CallNext nat nat
  | CallExpectFailure nat nat
  | CallFinish nat nat outcome string bool
  | CallWorkerExited nat
  | CallExcludeQueued "nat list"

inductive plan_step :: "retry_plan \<Rightarrow> plan_call \<Rightarrow> retry_plan \<Rightarrow> bool" where
  step_Next: "retry_Next w g p = Inr (r, p') \<Longrightarrow> plan_step p (CallNext w g) p'"
| step_ExpectFailure: "retry_ExpectFailure w g p = Inr (r, p') \<Longrightarrow> plan_step p (CallExpectFailure w g) p'"
| step_Finish: "retry_Finish w g s e i p = Inr (r, p') \<Longrightarrow> plan_step p (CallFinish w g s e i) p'"
| step_WorkerExited: "retry_WorkerExited w p = Inr (r, p') \<Longrightarrow> plan_step p (CallWorkerExited w) p'"
| step_ExcludeQueued: "retry_ExcludeQueued ids p = Inr (r, p') \<Longrightarrow> plan_step p (CallExcludeQueued ids) p'"

inductive_simps plan_step_simps:
  "plan_step p (CallNext w g) p'"
  "plan_step p (CallExpectFailure w g) p'"
  "plan_step p (CallFinish w g s e i) p'"
  "plan_step p (CallWorkerExited w) p'"
  "plan_step p (CallExcludeQueued ids) p'"

text \<open>The calls as a function, for evaluation.\<close>

definition plan_apply :: "plan_call \<Rightarrow> retry_plan \<Rightarrow> retry_plan result" where
  "plan_apply e p =
     (case e of
        CallNext w g \<Rightarrow> bindR (retry_Next w g p) (\<lambda>(r, p). Inr p)
      | CallExpectFailure w g \<Rightarrow> bindR (retry_ExpectFailure w g p) (\<lambda>(r, p). Inr p)
      | CallFinish w g s er i \<Rightarrow> bindR (retry_Finish w g s er i p) (\<lambda>(r, p). Inr p)
      | CallWorkerExited w \<Rightarrow> bindR (retry_WorkerExited w p) (\<lambda>(r, p). Inr p)
      | CallExcludeQueued ids \<Rightarrow> bindR (retry_ExcludeQueued ids p) (\<lambda>(r, p). Inr p))"

lemma plan_trace: "run_calls plan_apply es p = Inr p' \<Longrightarrow> trace plan_step p es p'"
  by (rule trace_run_calls) (auto simp: plan_apply_def plan_step_simps bindR_eq_Inr split: plan_call.splits)

section \<open>Invariant\<close>

abbreviation a_id :: "attempt \<Rightarrow> nat" where
  "a_id a \<equiv> tc_id (at_test a)"

definition opt_list :: "'a option \<Rightarrow> 'a list" where
  "opt_list x = (case x of None \<Rightarrow> [] | Some a \<Rightarrow> [a])"

lemma opt_list_simps [simp]: "opt_list None = []" "opt_list (Some a) = [a]"
  by (simp_all add: opt_list_def)

definition pending :: "retry_plan \<Rightarrow> attempt list" where
  "pending p = opt_list (rp_active p) @ opt_list (rp_retry p) @ rp_queue p"

text \<open>The retry numbers of the finished attempts of a test, in order.\<close>

definition attempts_of :: "nat \<Rightarrow> attempt_result list \<Rightarrow> nat list" where
  "attempts_of i rs = map (\<lambda>r. at_retry (r_attempt r)) (filter (\<lambda>r. a_id (r_attempt r) = i) rs)"

lemma attempts_of_simps [simp]:
  "attempts_of i [] = []"
  "attempts_of i (rs @ [r]) = attempts_of i rs @ (if a_id (r_attempt r) = i then [at_retry (r_attempt r)] else [])"
  by (simp_all add: attempts_of_def)

definition consecutive :: "nat list \<Rightarrow> bool" where
  "consecutive ks \<longleftrightarrow> ks = [0..<length ks]"

lemma consecutive_Nil [simp]: "consecutive []"
  by (simp add: consecutive_def)

lemma consecutive_snoc: "consecutive ks \<Longrightarrow> k = length ks \<Longrightarrow> consecutive (ks @ [k])"
  by (simp add: consecutive_def)

text \<open>Static facts; the attempts that are still to finish; the finished ones; generations; the fence; the limit.\<close>

definition tests_ok :: "test_case list \<Rightarrow> bool" where
  "tests_ok ts \<longleftrightarrow> distinct (map tc_id ts) \<and> (\<forall>t \<in> set ts. tc_id t \<noteq> 0 \<and> tc_retries t \<le> 100)"

definition waits_ok :: "test_case list \<Rightarrow> attempt_result list \<Rightarrow> attempt \<Rightarrow> bool" where
  "waits_ok ts rs a \<longleftrightarrow> at_test a \<in> set ts \<and> at_retry a \<le> tc_retries (at_test a) \<and> at_retry a = length (attempts_of (a_id a) rs)"

definition pending_ok :: "test_case list \<Rightarrow> attempt_result list \<Rightarrow> attempt list \<Rightarrow> bool" where
  "pending_ok ts rs as \<longleftrightarrow> distinct (map a_id as) \<and> (\<forall>a \<in> set as. waits_ok ts rs a)"

definition results_ok :: "test_case list \<Rightarrow> attempt_result list \<Rightarrow> bool" where
  "results_ok ts rs \<longleftrightarrow>
     (\<forall>r \<in> set rs. at_test (r_attempt r) \<in> set ts) \<and>
     (\<forall>i. consecutive (attempts_of i rs)) \<and>
     (\<forall>t \<in> set ts. length (attempts_of (tc_id t) rs) \<le> tc_retries t + 1)"

definition generations_ok :: "attempt_result list \<Rightarrow> attempt option \<Rightarrow> nat \<Rightarrow> bool" where
  "generations_ok rs active generation \<longleftrightarrow>
     (let gs = map (\<lambda>r. at_generation (r_attempt r)) rs @ map at_generation (opt_list active)
      in sorted_wrt (<) gs \<and> (\<forall>g \<in> set gs. g \<le> generation))"

definition fence_ok :: "retry_plan \<Rightarrow> bool" where
  "fence_ok p \<longleftrightarrow>
     (rp_active p \<noteq> None \<longrightarrow> rp_worker p \<noteq> 0 \<and> rp_retiring_worker p = 0) \<and>
     (rp_retry p \<noteq> None \<longrightarrow> rp_retiring_worker p \<noteq> 0)"

definition limit_ok :: "retry_plan \<Rightarrow> bool" where
  "limit_ok p \<longleftrightarrow>
     (if rp_limit_reached p then rp_max_failures p \<noteq> 0 \<and> rp_unexpected_tests p = rp_max_failures p \<and> pending p = []
      else rp_max_failures p \<noteq> 0 \<longrightarrow> rp_unexpected_tests p < rp_max_failures p)"

definition plan_inv :: "retry_plan \<Rightarrow> bool" where
  "plan_inv p \<longleftrightarrow>
     tests_ok (rp_tests p) \<and> pending_ok (rp_tests p) (rp_results p) (pending p) \<and> results_ok (rp_tests p) (rp_results p) \<and>
     generations_ok (rp_results p) (rp_active p) (rp_generation p) \<and> fence_ok p \<and> limit_ok p"

lemma pending_ok_subset:
  "pending_ok ts rs as \<Longrightarrow> distinct (map a_id bs) \<Longrightarrow> set bs \<subseteq> set as \<Longrightarrow> pending_ok ts rs bs"
  by (auto simp: pending_ok_def)

text \<open>An attempt that finishes: its test has one more result, and no other pending attempt is of that test.\<close>

lemma results_ok_finish:
  assumes "results_ok ts rs" "waits_ok ts rs a" "r_attempt r = a"  "tests_ok ts"
  shows "results_ok ts (rs @ [r])"
proof -
  have "t = at_test a" if "t \<in> set ts" "tc_id t = a_id a" for t
    using that assms(2,4) by (auto simp: tests_ok_def waits_ok_def distinct_map inj_on_def)
  then show ?thesis
    using assms by (auto simp: results_ok_def waits_ok_def consecutive_snoc)
qed

lemma pending_ok_finish:
  assumes "pending_ok ts rs (a # as)" "r_attempt r = a"
  shows "pending_ok ts (rs @ [r]) as"
  using assms by (auto simp: pending_ok_def waits_ok_def)

lemma pending_ok_again:
  assumes "pending_ok ts rs (a # as)" "r_attempt r = a" "at_retry a < tc_retries (at_test a)"
  shows "pending_ok ts (rs @ [r]) (\<lparr>at_test = at_test a, at_retry = at_retry a + 1, at_generation = 0\<rparr> # as)"
  using assms by (auto simp: pending_ok_def waits_ok_def)

lemma retry_Next_cases:
  assumes "retry_Next w g p = Inr (r, p')"
  obtains (refused) "p' = p" "r = None"
  | (admitted) a rest h where "rp_queue p = a # rest" "rp_active p = None" "rp_retiring_worker p = 0" "w \<noteq> 0" "rp_generation p < h"
    "r = Some (a\<lparr>at_generation := h\<rparr>)"
    "p' = p\<lparr>rp_queue := rest, rp_generation := h, rp_active := r, rp_runtime_expected_failure := False, rp_worker := w\<rparr>"
proof (cases "rp_queue p = [] \<or> rp_active p \<noteq> None \<or> rp_retiring_worker p \<noteq> 0 \<or> w = 0")
  case True
  then show ?thesis using assms refused by (cases "rp_queue p") (auto simp: retry_Next_def)
next
  case False
  then obtain a rest where q: "rp_queue p = a # rest" by (cases "rp_queue p") auto
  show ?thesis
    by (rule admitted [of a rest "if g \<noteq> 0 then g else rp_generation p + 1"])
      (use False q assms in \<open>auto simp: retry_Next_def Let_def split: if_splits\<close>)
qed

lemma retry_Next_inv:
  assumes "retry_Next w g p = Inr (r, p')" "plan_inv p"
  shows "plan_inv p'"
  using assms(1)
proof (cases rule: retry_Next_cases)
  case (admitted a rest h)
  have "rp_retry p = None" using admitted assms(2) by (auto simp: plan_inv_def fence_ok_def)
  moreover have "generations_ok (rp_results p) r h"
    using assms(2) admitted by (force simp: plan_inv_def generations_ok_def sorted_wrt_append)
  moreover have "limit_ok p" using assms(2) by (simp add: plan_inv_def)
  moreover have "pending_ok (rp_tests p) (rp_results p) (a\<lparr>at_generation := h\<rparr> # rest)"
    using assms(2) admitted calculation(1) by (auto simp: plan_inv_def pending_def pending_ok_def waits_ok_def)
  ultimately show ?thesis
    using assms(2) admitted by (simp add: plan_inv_def pending_def fence_ok_def limit_ok_def split: if_splits)
qed (use assms in simp)

text \<open>The effect of a finish that is accepted, on each branch.\<close>

lemma retry_Finish_cases:
  assumes "retry_Finish w g st e i p = Inr (r, p')"
  obtains (refused) "p' = p" "\<not> r"
  | (accepted) a row q where "r" "rp_active p = Some a" "retry_owns p w g"
      "r_attempt row = a" "r_outcome row = st" "r_expected row = expected_outcome (at_test a) (rp_runtime_expected_failure p) st i"
      "q = p\<lparr>rp_results := rp_results p @ [row], rp_active := None, rp_runtime_expected_failure := False\<rparr>"
      "p' = (if r_expected row then q
             else if st = OInterrupted then q\<lparr>rp_retiring_worker := w\<rparr>
             else if at_retry a < tc_retries (at_test a)
             then q\<lparr>rp_retiring_worker := w, rp_retry := Some \<lparr>at_test = at_test a, at_retry = at_retry a + 1, at_generation = 0\<rparr>\<rparr>
             else if rp_max_failures p \<noteq> 0 \<and> rp_max_failures p \<le> rp_unexpected_tests p + 1
             then q\<lparr>rp_retiring_worker := w, rp_unexpected_tests := rp_unexpected_tests p + 1, rp_limit_reached := True, rp_queue := []\<rparr>
             else q\<lparr>rp_retiring_worker := w, rp_unexpected_tests := rp_unexpected_tests p + 1\<rparr>)"
proof (cases "\<exists>a. rp_active p = Some a \<and> retry_owns p w g")
  case True
  then obtain a where a: "rp_active p = Some a" "retry_owns p w g" by blast
  define row where "row = \<lparr>r_attempt = a, r_outcome = st,
    r_expected = expected_outcome (at_test a) (rp_runtime_expected_failure p) st i, r_error = take 8192 e\<rparr>"
  show ?thesis
    by (rule accepted [of a row]) (use a assms in \<open>auto simp: row_def retry_Finish_def Let_def split: if_splits\<close>)
next
  case False
  then have "retry_Finish w g st e i p = Inr (False, p)" by (cases "rp_active p") (simp_all add: retry_Finish_def)
  then show ?thesis using assms refused by simp
qed

lemma retry_Finish_inv:
  assumes "retry_Finish w g st e i p = Inr (r, p')" "plan_inv p"
  shows "plan_inv p'"
  using assms(1)
proof (cases rule: retry_Finish_cases)
  case (accepted a row q)
  have nr: "rp_retry p = None" "w \<noteq> 0" using assms(2) accepted by (auto simp: plan_inv_def fence_ok_def retry_owns_def)
  have pend: "pending_ok (rp_tests p) (rp_results p) (a # rp_queue p)"
    using assms(2) accepted(2) nr by (simp add: plan_inv_def pending_def)
  have res: "results_ok (rp_tests p) (rp_results p @ [row])"
    using assms(2) pend accepted(4) by (intro results_ok_finish) (auto simp: plan_inv_def pending_ok_def)
  have gen: "generations_ok (rp_results p @ [row]) None (rp_generation p)"
    using assms(2) accepted by (simp add: plan_inv_def generations_ok_def)
  have lim: "\<not> rp_limit_reached p" "rp_max_failures p \<noteq> 0 \<longrightarrow> rp_unexpected_tests p < rp_max_failures p"
    using assms(2) accepted(2) by (auto simp: plan_inv_def limit_ok_def pending_def split: if_splits)
  note rest = pending_ok_finish [OF pend accepted(4)] pending_ok_again [OF pend accepted(4)]
  have none: "pending_ok (rp_tests p) (rp_results p @ [row]) []" by (simp add: pending_ok_def)
  have tests: "tests_ok (rp_tests p)" using assms(2) by (simp add: plan_inv_def)
  show ?thesis
    using accepted(7,8) nr res gen lim rest none tests
    by (simp add: plan_inv_def pending_def fence_ok_def limit_ok_def split: if_splits) linarith
qed (use assms(2) in simp)

lemma retry_WorkerExited_cases:
  assumes "retry_WorkerExited w p = Inr (r, p')"
  obtains "p' = p" "\<not> r"
  | "r" "w \<noteq> 0" "w = rp_retiring_worker p" "p' = p\<lparr>rp_retiring_worker := 0, rp_queue := opt_list (rp_retry p) @ rp_queue p, rp_retry := None\<rparr>"
proof (cases "w = 0 \<or> w \<noteq> rp_retiring_worker p")
  case False
  then have "retry_WorkerExited w p = Inr (True, p\<lparr>rp_retiring_worker := 0, rp_queue := opt_list (rp_retry p) @ rp_queue p, rp_retry := None\<rparr>)"
    by (cases "rp_retry p") (simp_all add: retry_WorkerExited_def)
  then show ?thesis using assms that(2) False by simp
next
  case True
  then have "retry_WorkerExited w p = Inr (False, p)" by (auto simp: retry_WorkerExited_def)
  then show ?thesis using assms that(1) by simp
qed

lemma retry_WorkerExited_inv: "retry_WorkerExited w p = Inr (r, p') \<Longrightarrow> plan_inv p \<Longrightarrow> plan_inv p'"
proof (erule retry_WorkerExited_cases)
  assume inv: "plan_inv p" and w: "w \<noteq> 0" "w = rp_retiring_worker p"
    and p': "p' = p\<lparr>rp_retiring_worker := 0, rp_queue := opt_list (rp_retry p) @ rp_queue p, rp_retry := None\<rparr>"
  have "rp_active p = None" using inv w by (auto simp: plan_inv_def fence_ok_def)
  then show "plan_inv p'" using inv p' by (simp add: plan_inv_def pending_def fence_ok_def limit_ok_def split: if_splits)
qed simp

lemma retry_ExcludeQueued_inv:
  assumes "retry_ExcludeQueued ids p = Inr (r, p')" "plan_inv p"
  shows "plan_inv p'"
proof -
  let ?q = "filter (\<lambda>a. a_id a \<notin> set ids) (rp_queue p)"
    and ?r = "case rp_retry p of Some a \<Rightarrow> if a_id a \<in> set ids then None else Some a | None \<Rightarrow> None"
  have p': "p' = p\<lparr>rp_queue := ?q, rp_retry := ?r\<rparr>" "rp_active p = None"
    using assms(1) by (auto simp: retry_ExcludeQueued_def split: if_splits)
  have "pending_ok (rp_tests p) (rp_results p) (opt_list ?r @ ?q)"
  proof (rule pending_ok_subset [of _ _ "pending p"])
    show "pending_ok (rp_tests p) (rp_results p) (pending p)" using assms(2) by (simp add: plan_inv_def)
    then show "distinct (map a_id (opt_list ?r @ ?q))"
      by (cases "rp_retry p") (auto simp: pending_ok_def pending_def distinct_map_filter)
  qed (auto simp: pending_def split: option.splits if_splits)
  moreover have "pending p' = opt_list ?r @ ?q" using p' by (simp add: pending_def)
  ultimately show ?thesis
    using assms(2) p'
    by (cases "rp_retry p"; simp add: plan_inv_def fence_ok_def limit_ok_def pending_def split: if_splits)
qed

lemma retry_ExpectFailure_cases:
  assumes "retry_ExpectFailure w g p = Inr (r, p')"
  obtains "p' = p" | "p' = p\<lparr>rp_runtime_expected_failure := True\<rparr>"
  using assms by (auto simp: retry_ExpectFailure_def split: if_splits)

lemma retry_ExpectFailure_inv: "retry_ExpectFailure w g p = Inr (r, p') \<Longrightarrow> plan_inv p \<Longrightarrow> plan_inv p'"
  by (elim retry_ExpectFailure_cases) (simp_all add: plan_inv_def pending_def fence_ok_def limit_ok_def split: if_splits)

lemma plan_step_inv: "plan_inv p \<Longrightarrow> plan_step p e p' \<Longrightarrow> plan_inv p'"
  by (cases e) (auto simp: plan_step_simps intro: retry_Next_inv retry_ExpectFailure_inv retry_Finish_inv
      retry_WorkerExited_inv retry_ExcludeQueued_inv)

lemma identity_loop_ok:
  "identity_loop ts earlier = Inr () \<Longrightarrow>
     distinct (map tc_id ts) \<and> set (map tc_id ts) \<inter> set earlier = {} \<and> (\<forall>t \<in> set ts. tc_id t \<noteq> 0 \<and> tc_retries t \<le> 100)"
  by (induction ts earlier rule: identity_loop.induct) (auto split: if_splits)

lemma RetryPlan_inv:
  assumes "RetryPlan ts m seed = Inr p"
  shows "plan_inv p" "rp_tests p = ts" "rp_results p = []" "rp_max_failures p = m" "rp_generation p = seed"
proof -
  have "identity_loop ts [] = Inr ()" using assms by (auto simp: RetryPlan_def bindR_eq_Inr split: if_splits)
  then have ids: "tests_ok ts" using identity_loop_ok [of ts "[]"] by (simp add: tests_ok_def)
  have p: "p = \<lparr>rp_tests = ts, rp_queue = map (\<lambda>t. \<lparr>at_test = t, at_retry = 0, at_generation = 0\<rparr>) ts,
                rp_active = None, rp_retry = None, rp_results = [], rp_worker = 0, rp_retiring_worker = 0,
                rp_generation = seed, rp_max_failures = m, rp_unexpected_tests = 0,
                rp_limit_reached = False, rp_runtime_expected_failure = False\<rparr>"
    using assms by (auto simp: RetryPlan_def bindR_eq_Inr split: if_splits)
  show "plan_inv p" using ids
    by (simp add: p plan_inv_def pending_def pending_ok_def waits_ok_def results_ok_def generations_ok_def fence_ok_def limit_ok_def
        tests_ok_def comp_def)
  show "rp_tests p = ts" "rp_results p = []" "rp_max_failures p = m" "rp_generation p = seed" by (simp_all add: p)
qed

section \<open>Progress\<close>

text \<open>What is left to do: three calls per attempt that can still be made, fewer for the one in progress.\<close>

definition left_of :: "attempt_result list \<Rightarrow> test_case \<Rightarrow> nat" where
  "left_of rs t = tc_retries t + 1 - length (attempts_of (tc_id t) rs)"

definition plan_rank :: "retry_plan \<Rightarrow> nat" where
  "plan_rank p =
     3 * sum_list (map (left_of (rp_results p)) (rp_tests p)) +
     (if rp_retiring_worker p \<noteq> 0 then 1 else 0) - (if rp_active p \<noteq> None then 1 else 0)"

text \<open>A call is productive when it admits an attempt, finishes one, or records the exit of the worker.\<close>

definition plan_productive :: "plan_call \<Rightarrow> retry_plan \<Rightarrow> retry_plan \<Rightarrow> bool" where
  "plan_productive e p p' \<longleftrightarrow>
     (case e of
        CallNext w g \<Rightarrow> rp_active p = None \<and> rp_active p' \<noteq> None
      | CallFinish w g s er i \<Rightarrow> rp_active p \<noteq> None \<and> rp_active p' = None
      | CallWorkerExited w \<Rightarrow> rp_retiring_worker p \<noteq> 0 \<and> rp_retiring_worker p' = 0
      | _ \<Rightarrow> False)"

lemma left_of_finish:
  assumes "tests_ok ts" "waits_ok ts rs a" "r_attempt r = a"
  shows "sum_list (map (left_of (rs @ [r])) ts) + 1 = sum_list (map (left_of rs) ts)"
  using assms
proof -
  obtain us vs where ts: "ts = us @ at_test a # vs" using assms(2) by (auto simp: waits_ok_def in_set_conv_decomp)
  have other: "left_of (rs @ [r]) t = left_of rs t" if "t \<in> set us \<union> set vs" for t
  proof -
    have "distinct (map tc_id (us @ at_test a # vs))" using assms(1) ts by (simp add: tests_ok_def)
    then have "a_id a \<notin> tc_id ` (set us \<union> set vs)" by auto
    then have "tc_id t \<noteq> a_id a" using imageI [OF that, of tc_id] by metis
    then show ?thesis using assms(3) by (simp add: left_of_def)
  qed
  have "left_of (rs @ [r]) (at_test a) + 1 = left_of rs (at_test a)"
    using assms(2,3) by (auto simp: left_of_def waits_ok_def)
  moreover have "sum_list (map (left_of (rs @ [r])) us) = sum_list (map (left_of rs) us)"
    "sum_list (map (left_of (rs @ [r])) vs) = sum_list (map (left_of rs) vs)"
    by (rule arg_cong [of _ _ sum_list], rule map_cong, use other in auto)+
  ultimately show ?thesis by (simp add: ts)
qed

lemma left_of_pending:
  assumes "pending_ok ts rs as" "a \<in> set as"
  shows "1 \<le> sum_list (map (left_of rs) ts)"
proof -
  have "at_test a \<in> set ts" "1 \<le> left_of rs (at_test a)" using assms by (auto simp: pending_ok_def waits_ok_def left_of_def)
  then show ?thesis using member_le_sum_list [of "left_of rs (at_test a)" "map (left_of rs) ts"] by simp
qed

lemma plan_step_rank:
  assumes inv: "plan_inv p" and step: "plan_step p e p'"
  shows "plan_rank p' + (if plan_productive e p p' then 1 else 0) \<le> plan_rank p"
proof (cases e)
  case (CallNext w g)
  then obtain r where n: "retry_Next w g p = Inr (r, p')" using step by (auto simp: plan_step_simps)
  then show ?thesis
  proof (cases rule: retry_Next_cases)
    case (admitted a rest h)
    then have "1 \<le> sum_list (map (left_of (rp_results p)) (rp_tests p))"
      using inv left_of_pending [of _ _ "pending p" a] by (simp add: plan_inv_def pending_def)
    then show ?thesis using admitted CallNext by (simp add: plan_rank_def plan_productive_def)
  qed (use CallNext in \<open>auto simp: plan_productive_def\<close>)
next
  case (CallFinish w g st er i)
  then obtain r where n: "retry_Finish w g st er i p = Inr (r, p')" using step by (auto simp: plan_step_simps)
  then show ?thesis
  proof (cases rule: retry_Finish_cases)
    case (accepted a row q)
    have "waits_ok (rp_tests p) (rp_results p) a" "tests_ok (rp_tests p)"
      using inv accepted(2) by (auto simp: plan_inv_def pending_def pending_ok_def)
    then have s: "sum_list (map (left_of (rp_results p @ [row])) (rp_tests p)) + 1 = sum_list (map (left_of (rp_results p)) (rp_tests p))"
      using left_of_finish accepted(4) by blast
    have "rp_tests p' = rp_tests p" "rp_results p' = rp_results p @ [row]" "rp_active p' = None"
      using accepted(7,8) by (simp_all split: if_splits)
    then show ?thesis unfolding plan_rank_def plan_productive_def using accepted(2) CallFinish by (simp flip: s)
  qed (use CallFinish in \<open>auto simp: plan_productive_def\<close>)
next
  case (CallWorkerExited w)
  then obtain r where n: "retry_WorkerExited w p = Inr (r, p')" using step by (auto simp: plan_step_simps)
  then show ?thesis
  proof (cases rule: retry_WorkerExited_cases)
    case 2
    then have "rp_active p = None" using inv by (auto simp: plan_inv_def fence_ok_def)
    then show ?thesis using 2 CallWorkerExited by (simp add: plan_rank_def plan_productive_def)
  qed (use CallWorkerExited in \<open>auto simp: plan_productive_def\<close>)
next
  case (CallExpectFailure w g)
  then obtain r where "retry_ExpectFailure w g p = Inr (r, p')" using step by (auto simp: plan_step_simps)
  then show ?thesis
    by (cases rule: retry_ExpectFailure_cases) (simp_all add: CallExpectFailure plan_rank_def plan_productive_def)
next
  case (CallExcludeQueued ids)
  then show ?thesis using step
    by (auto simp: plan_step_simps retry_ExcludeQueued_def plan_rank_def plan_productive_def split: if_splits)
qed

interpretation plan: ranked_machine plan_step plan_inv plan_rank plan_productive
  by unfold_locales (auto intro: plan_step_inv dest: plan_step_rank)

text \<open>The number of calls a full history needs: three for every attempt of every test.\<close>

lemma RetryPlan_rank:
  assumes "RetryPlan ts m seed = Inr p"
  shows "plan_rank p \<le> 3 * sum_list (map (\<lambda>t. tc_retries t + 1) ts)"
proof -
  have "left_of [] = (\<lambda>t. tc_retries t + 1)" by (simp add: left_of_def fun_eq_iff)
  moreover have "rp_retiring_worker p = 0" using assms by (auto simp: RetryPlan_def bindR_eq_Inr split: if_splits)
  ultimately show ?thesis using RetryPlan_inv [OF assms] by (simp add: plan_rank_def)
qed

lemma static_step: "plan_step p e p' \<Longrightarrow> rp_tests p' = rp_tests p \<and> rp_max_failures p' = rp_max_failures p"
proof (cases e)
  case (CallFinish w g st er i)
  assume "plan_step p e p'"
  then obtain r where "retry_Finish w g st er i p = Inr (r, p')" using CallFinish by (auto simp: plan_step_simps)
  then show ?thesis by (cases rule: retry_Finish_cases) (simp_all split: if_splits)
qed (auto simp: plan_step_simps retry_ExcludeQueued_def elim!: retry_Next_cases retry_ExpectFailure_cases retry_WorkerExited_cases
    split: if_splits)

lemma trace_static: "trace plan_step p es p' \<Longrightarrow> rp_tests p' = rp_tests p \<and> rp_max_failures p' = rp_max_failures p"
  by (induction rule: trace.induct) (auto dest: static_step)

section \<open>Properties\<close>

text \<open>
  C9: the history of a retry plan is faithful. After any sequence of calls from a constructed plan, the
  finished attempts of every test are numbered 0, 1, 2, \<dots> without gap or repetition and at most one more
  than its retries, they carry strictly increasing generations, and no attempt is active while a failed
  worker has not exited.
\<close>

theorem retry_history:
  assumes "RetryPlan tests max_failures seed = Inr p" "trace plan_step p calls p'"
  shows "(\<forall>t \<in> set tests. \<exists>n \<le> tc_retries t + 1. attempts_of (tc_id t) (rp_results p') = [0..<n]) \<and>
         sorted_wrt (<) (map (\<lambda>r. at_generation (r_attempt r)) (rp_results p')) \<and>
         (rp_retiring_worker p' \<noteq> 0 \<longrightarrow> rp_active p' = None)"
proof -
  have inv: "plan_inv p'" using plan.trace_inv [OF assms(2)] RetryPlan_inv [OF assms(1)] by blast
  have tests: "rp_tests p' = tests" using trace_static [OF assms(2)] RetryPlan_inv(2) [OF assms(1)] by simp
  have "\<exists>n \<le> tc_retries t + 1. attempts_of (tc_id t) (rp_results p') = [0..<n]" if "t \<in> set tests" for t
    using inv that tests unfolding plan_inv_def results_ok_def consecutive_def by blast
  moreover have "sorted_wrt (<) (map (\<lambda>r. at_generation (r_attempt r)) (rp_results p'))"
    using inv by (simp add: plan_inv_def generations_ok_def Let_def sorted_wrt_append)
  ultimately show ?thesis using inv by (auto simp: plan_inv_def fence_ok_def)
qed

definition flaky_test :: test_case where
  "flaky_test = \<lparr>tc_id = 7, tc_title = ''flaky'', tc_fixtures = [''page''], tc_retries = 1, tc_expected_failure = False\<rparr>"

text \<open>The plan of one test that fails, whose worker exits, and that passes when retried.\<close>

definition flaky_calls :: "plan_call list" where
  "flaky_calls = [CallNext 1 0, CallFinish 1 1 OFailed ''boom'' False, CallWorkerExited 1, CallNext 2 0,
                  CallFinish 2 2 OPassed [] False]"

lemma flaky_plan: "\<exists>p. RetryPlan [flaky_test] 0 0 = Inr p"
  by (simp add: RetryPlan_def flaky_test_def record_bytes_def)

lemmas plan_eval = RetryPlan_def flaky_test_def record_bytes_def flaky_calls_def plan_apply_def retry_Next_def
  retry_Finish_def retry_WorkerExited_def retry_owns_def expected_outcome_def u64_max_def Let_def

lemma flaky_trace:
  assumes "RetryPlan [flaky_test] 0 0 = Inr p"
  shows "\<exists>p'. trace plan_step p flaky_calls p' \<and> map r_expected (rp_results p') = [False, True]"
proof -
  have "\<exists>p'. run_calls plan_apply flaky_calls p = Inr p' \<and> map r_expected (rp_results p') = [False, True]"
    using assms by (auto simp: plan_eval)
  then show ?thesis by (elim exE conjE, intro exI conjI) (rule plan_trace)
qed

theorem retry_history_witness:
  "\<exists>p p'. RetryPlan [flaky_test] 0 0 = Inr p \<and> trace plan_step p flaky_calls p' \<and>
     map r_expected (rp_results p') = [False, True] \<and> (\<exists>n \<le> 2. attempts_of 7 (rp_results p') = [0..<n])"
proof -
  obtain p where p: "RetryPlan [flaky_test] 0 0 = Inr p" using flaky_plan by blast
  then obtain p' where p': "trace plan_step p flaky_calls p'" "map r_expected (rp_results p') = [False, True]"
    by (elim exE conjE flaky_trace [THEN exE])
  have f: "tc_id flaky_test = 7" "tc_retries flaky_test + 1 = 2" by (simp_all add: flaky_test_def)
  have "\<exists>n \<le> tc_retries flaky_test + 1. attempts_of (tc_id flaky_test) (rp_results p') = [0..<n]"
    by (rule bspec [OF conjunct1 [OF retry_history [OF p p'(1)]]]) simp
  then obtain n where "n \<le> 2" "attempts_of 7 (rp_results p') = [0..<n]" unfolding f by (elim exE conjE)
  with p p' show ?thesis by (intro exI conjI)
qed





text \<open>
  C12: the failure limit. In every history of a plan with a limit, at most that many tests count as
  unexpected failures, and once the limit is reached nothing is left to run: whatever is called
  afterwards, no attempt is admitted again.
\<close>

theorem failure_limit:
  assumes "RetryPlan tests max_failures seed = Inr p" "max_failures \<noteq> 0" "trace plan_step p calls p'"
  shows "rp_unexpected_tests p' \<le> max_failures \<and> (rp_limit_reached p' = (rp_unexpected_tests p' = max_failures)) \<and>
         (rp_limit_reached p' \<longrightarrow> (\<forall>calls' p'' w g. trace plan_step p' calls' p'' \<longrightarrow>
            rp_results p'' = rp_results p' \<and> retry_Next w g p'' = Inr (None, p'')))"
proof -
  have inv: "plan_inv p'" using plan.trace_inv [OF assms(3)] RetryPlan_inv [OF assms(1)] by blast
  have m: "rp_max_failures p' = max_failures" using trace_static [OF assms(3)] RetryPlan_inv(4) [OF assms(1)] by simp
  have quiet: "rp_queue s = []" "rp_active s = None" "rp_retry s = None" if "plan_inv s" "rp_limit_reached s" for s
    using that by (simp_all add: plan_inv_def limit_ok_def pending_def opt_list_def split: option.splits)
  have after: "rp_limit_reached s'' \<and> rp_results s'' = rp_results s" if "trace plan_step s cs s''" "plan_inv s" "rp_limit_reached s" for s cs s''
    using that
  proof (induction rule: trace.induct)
    case (trace_Cons s e s' es s'')
    have "rp_limit_reached s' \<and> rp_results s' = rp_results s"
      using trace_Cons.hyps(1) trace_Cons.prems(2) quiet [OF trace_Cons.prems]
      by (cases e) (auto simp: plan_step_simps retry_Next_def retry_Finish_def retry_ExcludeQueued_def retry_ExpectFailure_def
          retry_WorkerExited_def retry_owns_def split: if_splits)
    then show ?case using trace_Cons plan_step_inv by metis
  qed simp
  have "rp_results p'' = rp_results p' \<and> retry_Next w g p'' = Inr (None, p'')"
    if "rp_limit_reached p'" "trace plan_step p' calls' p''" for calls' p'' w g
    using after [OF that(2) inv that(1)] quiet(1) [OF plan.trace_inv [OF that(2) inv]] by (simp add: retry_Next_def)
  moreover have "limit_ok p'" using inv by (simp add: plan_inv_def)
  then have "rp_unexpected_tests p' \<le> max_failures \<and> (rp_limit_reached p' = (rp_unexpected_tests p' = max_failures))"
    using m assms(2) by (simp add: limit_ok_def split: if_splits)
  ultimately show ?thesis by blast
qed

theorem failure_limit_witness:
  "\<exists>p p'. RetryPlan [flaky_test\<lparr>tc_retries := 0\<rparr>] 1 0 = Inr p \<and>
     trace plan_step p [CallNext 1 0, CallFinish 1 1 OFailed ''boom'' False] p' \<and> rp_limit_reached p' \<and> rp_unexpected_tests p' \<le> 1"
proof -
  have "\<exists>p. RetryPlan [flaky_test\<lparr>tc_retries := 0\<rparr>] 1 0 = Inr p" by (simp add: RetryPlan_def flaky_test_def record_bytes_def)
  then obtain p where p: "RetryPlan [flaky_test\<lparr>tc_retries := 0\<rparr>] 1 0 = Inr p" by blast
  have "\<exists>p'. run_calls plan_apply [CallNext 1 0, CallFinish 1 1 OFailed ''boom'' False] p = Inr p' \<and> rp_limit_reached p'"
    using p by (auto simp: plan_eval)
  then obtain p' where "trace plan_step p [CallNext 1 0, CallFinish 1 1 OFailed ''boom'' False] p'" "rp_limit_reached p'"
    using plan_trace by blast
  with failure_limit [OF p _ this(1)] p show ?thesis by auto
qed

end
