(* ===== verification/SerialGroup.thy ===== *)
theory SerialGroup
  imports RetryPlan "HOL-Library.Sublist"
begin

text \<open>
  The serial group of \<open>native/runner/serial_group.h\<close>: tests that run one after the other in one worker,
  and that are all replayed, in a new worker, when one of them fails. A wave is one replay. The set
  of excluded declarations is a set of identities, as in the code. \<open>tests_.at(cursor_++)\<close> throws
  \<open>std::out_of_range\<close> past the end; what that exception leaves behind is not tracked.
\<close>

record serial_worker =
  sw_index :: nat
  sw_pid :: int
  sw_generation :: nat

record omission =
  om_test :: nat
  om_retry :: nat
  om_cause_test :: nat
  om_cause_generation :: nat

datatype serial_state = AwaitingWorker | Ready | Active | Retiring | SPassed | SFailed | SStopped

datatype classification = NotRun | CPassed | CSkipped | CFlaky | CFailed | CInterrupted

record serial_group =
  sg_tests :: "test_case list"
  sg_results :: "attempt_result list"
  sg_omissions :: "omission list"
  sg_excluded :: "nat set"
  sg_worker :: "serial_worker option"
  sg_last_worker :: "nat option"
  sg_active :: "attempt option"
  sg_state :: serial_state
  sg_cursor :: nat
  sg_retry :: nat
  sg_max_retries :: nat
  sg_last_generation :: nat
  sg_wave_failed :: bool
  sg_runtime_expected_failure :: bool
  sg_stop :: bool

type_synonym 'a serial_op = "serial_group \<Rightarrow> ('a \<times> serial_group) result"

section \<open>Operations\<close>

fun replay_loop :: "test_case list \<Rightarrow> nat \<Rightarrow> nat \<Rightarrow> unit result" where
  "replay_loop [] max_retries bytes = Inr ()"
| "replay_loop (t # ts) max_retries bytes =
     (let bytes = bytes + record_bytes t * (max_retries + 1)
      in if 67108864 < bytes then Inl (Invalid_argument ''Native serial group replay metadata budget64MiB exceeded'')
         else replay_loop ts max_retries bytes)"

definition SerialGroup :: "test_case list \<Rightarrow> serial_group result" where
  "SerialGroup tests =
     (if tests = [] then Inl (Invalid_argument ''Native serial group must contain selected tests'')
      else bindR (RetryPlan tests 0 0) (\<lambda>validated.
        let max_retries = fold max (map tc_retries tests) 0
        in bindR (replay_loop tests max_retries 0) (\<lambda>_.
             if 8192 < length tests * (max_retries + 1)
             then Inl (Invalid_argument ''Native serial group replay record capacity8192 exceeded'')
             else Inr \<lparr>sg_tests = tests, sg_results = [], sg_omissions = [], sg_excluded = {}, sg_worker = None,
                       sg_last_worker = None, sg_active = None, sg_state = AwaitingWorker, sg_cursor = 0, sg_retry = 0,
                       sg_max_retries = max_retries, sg_last_generation = 0, sg_wave_failed = False,
                       sg_runtime_expected_failure = False, sg_stop = False\<rparr>)))"

definition SkipExcluded :: "serial_group \<Rightarrow> serial_group" where
  "SkipExcluded g = g\<lparr>sg_cursor := sg_cursor g +
     length (takeWhile (\<lambda>t. tc_id t \<in> sg_excluded g) (drop (sg_cursor g) (sg_tests g)))\<rparr>"

definition Owns :: "serial_group \<Rightarrow> serial_worker \<Rightarrow> bool" where
  "Owns g w \<longleftrightarrow> sg_worker g = Some w"

definition serial_Begin :: "serial_worker \<Rightarrow> bool serial_op" where
  "serial_Begin w g =
     (if sg_state g \<noteq> AwaitingWorker \<or> sg_stop g \<or> sw_pid w \<le> 0 \<or> 2147483647 < sw_pid w \<or> sw_generation w = 0 \<or>
         (case sg_last_worker g of None \<Rightarrow> False | Some l \<Rightarrow> sw_index w \<le> l)
      then Inr (False, g)
      else Inr (True, (SkipExcluded (g\<lparr>sg_worker := Some w, sg_last_worker := Some (sw_index w), sg_cursor := 0,
                                       sg_wave_failed := False\<rparr>))\<lparr>sg_state := Ready\<rparr>))"

definition serial_Next :: "serial_worker \<Rightarrow> nat \<Rightarrow> attempt option serial_op" where
  "serial_Next w global_generation g =
     (if sg_state g \<noteq> Ready \<or> \<not> Owns g w \<or> sg_stop g then Inr (None, g)
      else if global_generation = 0 \<or> global_generation \<le> sg_last_generation g
      then Inl (Invalid_argument ''Native serial group shared attempt generation is stale'')
      else if length (sg_tests g) \<le> sg_cursor g then Inl Out_of_range
      else let a = \<lparr>at_test = sg_tests g ! sg_cursor g, at_retry = sg_retry g, at_generation = global_generation\<rparr>
           in Inr (Some a, g\<lparr>sg_last_generation := global_generation, sg_cursor := sg_cursor g + 1, sg_active := Some a,
                             sg_runtime_expected_failure := False, sg_state := Active\<rparr>))"

definition active_owned :: "serial_group \<Rightarrow> serial_worker \<Rightarrow> nat \<Rightarrow> bool" where
  "active_owned g w generation \<longleftrightarrow>
     sg_state g = Active \<and> Owns g w \<and> (case sg_active g of None \<Rightarrow> False | Some a \<Rightarrow> at_generation a = generation)"

definition serial_ExpectFailure :: "serial_worker \<Rightarrow> nat \<Rightarrow> bool serial_op" where
  "serial_ExpectFailure w generation g =
     (if \<not> active_owned g w generation then Inr (False, g)
      else Inr (True, g\<lparr>sg_runtime_expected_failure := True\<rparr>))"

definition omitted :: "serial_group \<Rightarrow> attempt \<Rightarrow> omission list" where
  "omitted g a =
     map (\<lambda>t. \<lparr>om_test = tc_id t, om_retry = sg_retry g, om_cause_test = a_id a, om_cause_generation = at_generation a\<rparr>)
       (filter (\<lambda>t. tc_id t \<notin> sg_excluded g) (drop (sg_cursor g) (sg_tests g)))"

definition serial_Finish :: "serial_worker \<Rightarrow> nat \<Rightarrow> outcome \<Rightarrow> string \<Rightarrow> bool \<Rightarrow> bool serial_op" where
  "serial_Finish w generation status error infrastructure_failure g =
     (case sg_active g of
        None \<Rightarrow> Inr (False, g)
      | Some a \<Rightarrow>
          if \<not> active_owned g w generation then Inr (False, g)
          else let expected = expected_outcome (at_test a) (sg_runtime_expected_failure g) status infrastructure_failure;
                   g = SkipExcluded (g\<lparr>
                     sg_results := sg_results g @ [\<lparr>r_attempt = a, r_outcome = status, r_expected = expected,
                                                    r_error = take 8192 error\<rparr>],
                     sg_wave_failed := sg_wave_failed g \<or> \<not> expected,
                     sg_omissions := sg_omissions g @ (if expected then [] else omitted g a),
                     sg_stop := sg_stop g \<or> status = OInterrupted,
                     sg_active := None, sg_runtime_expected_failure := False\<rparr>)
               in Inr (True, g\<lparr>sg_state :=
                    (if sg_wave_failed g \<or> sg_stop g \<or> sg_cursor g = length (sg_tests g) then Retiring else Ready)\<rparr>))"

definition serial_Retired :: "serial_worker \<Rightarrow> bool serial_op" where
  "serial_Retired w g =
     (if sg_state g \<noteq> Retiring \<or> \<not> Owns g w \<or> sg_active g \<noteq> None then Inr (False, g)
      else let g = g\<lparr>sg_worker := None\<rparr>
           in Inr (True,
                if sg_stop g then g\<lparr>sg_state := SStopped\<rparr>
                else if \<not> sg_wave_failed g then g\<lparr>sg_state := SPassed\<rparr>
                else if sg_retry g < sg_max_retries g then g\<lparr>sg_retry := sg_retry g + 1, sg_state := AwaitingWorker\<rparr>
                else g\<lparr>sg_state := SFailed\<rparr>))"

definition serial_Stop :: "serial_group \<Rightarrow> serial_group" where
  "serial_Stop g =
     (let g = g\<lparr>sg_stop := True\<rparr>
      in if sg_state g = AwaitingWorker then g\<lparr>sg_state := SStopped\<rparr>
         else if sg_state g = Ready then g\<lparr>sg_state := Retiring\<rparr>
         else g)"

definition serial_ExcludeQueued :: "nat set \<Rightarrow> unit serial_op" where
  "serial_ExcludeQueued ids g =
     (if sg_state g = Active then Inl (Runtime_error ''Cannot exclude active native serial-group declarations'')
      else if \<not> ids \<subseteq> tc_id ` set (sg_tests g)
      then Inl (Invalid_argument ''Cannot exclude unknown native serial-group declaration'')
      else let g = SkipExcluded (g\<lparr>sg_excluded := sg_excluded g \<union> ids\<rparr>);
               g = (if sg_state g = Ready \<and> sg_cursor g = length (sg_tests g) then g\<lparr>sg_state := Retiring\<rparr> else g);
               g = (if sg_state g = AwaitingWorker \<and> card (sg_excluded g) = length (sg_tests g)
                    then g\<lparr>sg_state := SPassed\<rparr> else g)
           in Inr ((), g))"

definition LastSelected :: "serial_group \<Rightarrow> nat \<Rightarrow> bool" where
  "LastSelected g i =
     (case filter (\<lambda>t. tc_id t \<notin> sg_excluded g) (rev (sg_tests g)) of [] \<Rightarrow> False | t # _ \<Rightarrow> tc_id t = i)"

definition serial_Done :: "serial_group \<Rightarrow> bool" where
  "serial_Done g \<longleftrightarrow> sg_state g \<in> {SPassed, SFailed, SStopped}"

definition Classify :: "serial_group \<Rightarrow> nat \<Rightarrow> classification result" where
  "Classify g i =
     (if i \<notin> tc_id ` set (sg_tests g) then Inl (Invalid_argument ''Unknown native serial group test ID'')
      else let rs = filter (\<lambda>r. a_id (r_attempt r) = i) (sg_results g);
               expected = list_ex r_expected rs;
               unexpected = list_ex (\<lambda>r. \<not> r_expected r) rs;
               non_skip = list_ex (\<lambda>r. r_outcome r \<noteq> OSkipped) rs;
               interrupted = list_ex (\<lambda>r. r_outcome r = OInterrupted) rs
           in Inr (if rs = [] then NotRun
                   else if interrupted then CInterrupted
                   else if expected \<and> unexpected then CFlaky
                   else if expected then (if non_skip then CPassed else CSkipped)
                   else CFailed))"

definition FinalUnexpectedTests :: "serial_group \<Rightarrow> nat result" where
  "FinalUnexpectedTests g =
     (if \<not> serial_Done g then Inr 0
      else bindR (mapR (\<lambda>t. Classify g (tc_id t)) (sg_tests g)) (\<lambda>cs. Inr (length (filter (\<lambda>c. c = CFailed) cs))))"

section \<open>Histories\<close>

datatype serial_call =
    SBegin serial_worker
  | SNext serial_worker nat
  | SExpectFailure serial_worker nat
  | SFinish serial_worker nat outcome string bool
  | SRetired serial_worker
  | SStop
  | SExcludeQueued "nat set"

definition serial_apply :: "serial_call \<Rightarrow> serial_group \<Rightarrow> serial_group result" where
  "serial_apply e g =
     (case e of
        SBegin w \<Rightarrow> bindR (serial_Begin w g) (\<lambda>(r, g). Inr g)
      | SNext w n \<Rightarrow> bindR (serial_Next w n g) (\<lambda>(r, g). Inr g)
      | SExpectFailure w n \<Rightarrow> bindR (serial_ExpectFailure w n g) (\<lambda>(r, g). Inr g)
      | SFinish w n s er i \<Rightarrow> bindR (serial_Finish w n s er i g) (\<lambda>(r, g). Inr g)
      | SRetired w \<Rightarrow> bindR (serial_Retired w g) (\<lambda>(r, g). Inr g)
      | SStop \<Rightarrow> Inr (serial_Stop g)
      | SExcludeQueued ids \<Rightarrow> bindR (serial_ExcludeQueued ids g) (\<lambda>(r, g). Inr g))"

inductive serial_step :: "serial_group \<Rightarrow> serial_call \<Rightarrow> serial_group \<Rightarrow> bool" where
  call_returns: "serial_apply e g = Inr g' \<Longrightarrow> serial_step g e g'"

inductive_simps serial_step_iff: "serial_step g e g'"

lemma serial_trace: "run_calls serial_apply es g = Inr g' \<Longrightarrow> trace serial_step g es g'"
  by (rule trace_run_calls) (auto simp: serial_step_iff)

section \<open>Invariant\<close>

text \<open>The results of one wave; the tests a wave has gone through, without the one in progress.\<close>

definition wave :: "nat \<Rightarrow> attempt_result list \<Rightarrow> attempt_result list" where
  "wave k rs = filter (\<lambda>r. at_retry (r_attempt r) = k) rs"

lemma wave_simps [simp]:
  "wave k [] = []"
  "wave k (rs @ [r]) = wave k rs @ (if at_retry (r_attempt r) = k then [r] else [])"
  by (simp_all add: wave_def)

definition gone :: "serial_group \<Rightarrow> nat" where
  "gone g = (if sg_active g = None then sg_cursor g else sg_cursor g - 1)"

definition wave_tests :: "nat \<Rightarrow> attempt_result list \<Rightarrow> test_case list" where
  "wave_tests k rs = map (\<lambda>r. at_test (r_attempt r)) (wave k rs)"

lemma wave_tests_simps [simp]:
  "wave_tests k [] = []"
  "wave_tests k (rs @ [r]) = wave_tests k rs @ (if at_retry (r_attempt r) = k then [at_test (r_attempt r)] else [])"
  by (simp_all add: wave_tests_def)

definition shape_ok :: "serial_group \<Rightarrow> bool" where
  "shape_ok g \<longleftrightarrow>
     tests_ok (sg_tests g) \<and> sg_cursor g \<le> length (sg_tests g) \<and> sg_retry g \<le> sg_max_retries g \<and>
     length (sg_tests g) * (sg_max_retries g + 1) \<le> 8192 \<and> sg_excluded g \<subseteq> tc_id ` set (sg_tests g) \<and>
     (if sg_state g \<in> {Ready, Active, Retiring} then sg_worker g \<noteq> None else sg_worker g = None) \<and>
     (sg_state g \<in> {Ready, Active} \<longrightarrow> \<not> sg_wave_failed g) \<and>
     (sg_state g = Retiring \<longrightarrow> sg_wave_failed g \<or> sg_stop g \<or> sg_cursor g = length (sg_tests g)) \<and>
     (case sg_active g of
        None \<Rightarrow> sg_state g \<noteq> Active
      | Some a \<Rightarrow> sg_state g = Active \<and> 0 < sg_cursor g \<and> at_test a = sg_tests g ! (sg_cursor g - 1) \<and>
                   at_retry a = sg_retry g \<and> at_generation a = sg_last_generation g)"

definition waves_ok :: "test_case list \<Rightarrow> attempt_result list \<Rightarrow> bool" where
  "waves_ok ts rs \<longleftrightarrow> (\<forall>k. subseq (wave_tests k rs) ts \<and> (\<forall>r \<in> set (butlast (wave k rs)). r_expected r))"

text \<open>The wave in progress, none while a worker is awaited.\<close>

definition current_ok :: "serial_group \<Rightarrow> bool" where
  "current_ok g \<longleftrightarrow>
     (\<forall>r \<in> set (sg_results g). at_retry (r_attempt r) \<le> sg_retry g) \<and>
     (if sg_state g = AwaitingWorker then wave (sg_retry g) (sg_results g) = []
      else subseq (wave_tests (sg_retry g) (sg_results g)) (take (gone g) (sg_tests g)) \<and>
           (\<not> sg_wave_failed g \<longrightarrow> (\<forall>r \<in> set (wave (sg_retry g) (sg_results g)). r_expected r)))"

definition serial_generations_ok :: "serial_group \<Rightarrow> bool" where
  "serial_generations_ok g \<longleftrightarrow> generations_ok (sg_results g) (sg_active g) (sg_last_generation g)"

lemma takeWhile_le: "length (takeWhile P (drop c xs)) \<le> length xs - c"
  using length_takeWhile_le [of P "drop c xs"] by simp

lemma subseq_take_mono: "subseq xs (take c ys) \<Longrightarrow> c \<le> d \<Longrightarrow> subseq xs (take d ys)"
proof -
  assume "subseq xs (take c ys)" "c \<le> d"
  moreover have "take c ys = take c (take d ys)" using \<open>c \<le> d\<close> by (simp add: min_def)
  moreover have "subseq (take c (take d ys)) (take d ys)" by (rule prefix_imp_subseq) (rule take_is_prefix)
  ultimately show ?thesis by (metis subseq_order.trans)
qed

lemma subseq_take_Suc: "subseq xs (take c ys) \<Longrightarrow> c < length ys \<Longrightarrow> subseq (xs @ [ys ! c]) (take (Suc c) ys)"
  by (simp add: take_Suc_conv_app_nth list_emb_append_mono)

definition serial_inv :: "serial_group \<Rightarrow> bool" where
  "serial_inv g \<longleftrightarrow> shape_ok g \<and> waves_ok (sg_tests g) (sg_results g) \<and> current_ok g \<and> serial_generations_ok g"

lemmas serial_inv_defs = serial_inv_def shape_ok_def current_ok_def serial_generations_ok_def gone_def

lemma SkipExcluded_inv: "serial_inv g \<Longrightarrow> sg_state g \<noteq> Active \<Longrightarrow> serial_inv (SkipExcluded g)"
  using takeWhile_le [of "\<lambda>t. tc_id t \<in> sg_excluded g" "sg_cursor g" "sg_tests g"]
  by (auto simp: SkipExcluded_def serial_inv_defs elim: subseq_take_mono split: option.splits if_splits)

lemma serial_Begin_inv: "serial_inv g \<Longrightarrow> serial_Begin w g = Inr (r, g') \<Longrightarrow> serial_inv g'"
  using takeWhile_le [of "\<lambda>t. tc_id t \<in> sg_excluded g" 0 "sg_tests g"]
  by (auto simp: serial_Begin_def SkipExcluded_def serial_inv_defs wave_tests_def split: option.splits if_splits)

lemma serial_Next_inv: "serial_inv g \<Longrightarrow> serial_Next w n g = Inr (r, g') \<Longrightarrow> serial_inv g'"
proof (cases "sg_state g \<noteq> Ready \<or> \<not> Owns g w \<or> sg_stop g")
  case False
  assume inv: "serial_inv g" and n: "serial_Next w n g = Inr (r, g')"
  let ?a = "\<lparr>at_test = sg_tests g ! sg_cursor g, at_retry = sg_retry g, at_generation = n\<rparr>"
  have ok: "sg_last_generation g < n" "sg_cursor g < length (sg_tests g)"
    and g': "g' = g\<lparr>sg_last_generation := n, sg_cursor := sg_cursor g + 1, sg_active := Some ?a,
                     sg_runtime_expected_failure := False, sg_state := Active\<rparr>"
    using n False by (auto simp: serial_Next_def Let_def split: if_splits)
  have none: "sg_active g = None" using inv False by (auto simp: serial_inv_def shape_ok_def split: option.splits)
  have "generations_ok (sg_results g) (Some ?a) n"
    using inv ok(1) none by (force simp: serial_inv_def serial_generations_ok_def generations_ok_def sorted_wrt_append)
  then show ?thesis using inv False ok none by (simp add: g' serial_inv_defs)
qed (auto simp: serial_Next_def)

lemma serial_Retired_inv: "serial_inv g \<Longrightarrow> serial_Retired w g = Inr (r, g') \<Longrightarrow> serial_inv g'"
proof (cases "sg_state g \<noteq> Retiring \<or> \<not> Owns g w \<or> sg_active g \<noteq> None")
  case False
  assume inv: "serial_inv g" and n: "serial_Retired w g = Inr (r, g')"
  have none: "sg_active g = None" and st: "sg_state g = Retiring" using False by simp_all
  have "wave (Suc (sg_retry g)) (sg_results g) = []"
    using inv by (force simp: serial_inv_def current_ok_def wave_def filter_empty_conv)
  moreover have "\<forall>r \<in> set (sg_results g). at_retry (r_attempt r) \<le> Suc (sg_retry g)"
    using inv by (force simp: serial_inv_def current_ok_def)
  moreover have "g' = (let g = g\<lparr>sg_worker := None\<rparr>
           in if sg_stop g then g\<lparr>sg_state := SStopped\<rparr>
                else if \<not> sg_wave_failed g then g\<lparr>sg_state := SPassed\<rparr>
                else if sg_retry g < sg_max_retries g then g\<lparr>sg_retry := sg_retry g + 1, sg_state := AwaitingWorker\<rparr>
                else g\<lparr>sg_state := SFailed\<rparr>)"
    using n False by (simp add: serial_Retired_def Let_def)
  ultimately show ?thesis using inv none st by (simp add: serial_inv_defs Let_def)
qed (auto simp: serial_Retired_def)

lemma serial_Stop_inv: "serial_inv g \<Longrightarrow> serial_inv (serial_Stop g)"
  by (cases "sg_state g"; cases "sg_active g"; simp add: serial_Stop_def serial_inv_defs wave_tests_def)

lemma serial_ExpectFailure_inv: "serial_inv g \<Longrightarrow> serial_ExpectFailure w n g = Inr (r, g') \<Longrightarrow> serial_inv g'"
proof (cases "active_owned g w n")
  case True
  assume "serial_inv g" "serial_ExpectFailure w n g = Inr (r, g')"
  moreover have "g' = g\<lparr>sg_runtime_expected_failure := True\<rparr>" using calculation(2) True by (simp add: serial_ExpectFailure_def)
  ultimately show ?thesis by (cases "sg_state g"; cases "sg_active g"; simp add: serial_inv_defs)
qed (simp add: serial_ExpectFailure_def)

text \<open>The end of an attempt, before the cursor moves on: the wave has one more result.\<close>

lemma serial_Finish_inv:
  assumes inv: "serial_inv g" and n: "serial_Finish w n st er i g = Inr (r, g')"
  shows "serial_inv g'"
proof (cases "\<exists>a. sg_active g = Some a \<and> active_owned g w n")
  case True
  then obtain a where a: "sg_active g = Some a" "active_owned g w n" by blast
  define x where "x = expected_outcome (at_test a) (sg_runtime_expected_failure g) st i"
  define row where "row = \<lparr>r_attempt = a, r_outcome = st, r_expected = x, r_error = take 8192 er\<rparr>"
  define c where "c = sg_cursor g + length (takeWhile (\<lambda>t. tc_id t \<in> sg_excluded g) (drop (sg_cursor g) (sg_tests g)))"
  have row: "r_attempt row = a" "r_expected row = x" by (simp_all add: row_def)
  define om stop where "om = sg_omissions g @ (if x then [] else omitted g a)" and "stop = (sg_stop g \<or> st = OInterrupted)"
  have g': "g' = g\<lparr>sg_results := sg_results g @ [row], sg_wave_failed := \<not> x, sg_omissions := om, sg_stop := stop,
      sg_active := None, sg_runtime_expected_failure := False, sg_cursor := c,
      sg_state := if \<not> x \<or> stop \<or> c = length (sg_tests g) then Retiring else Ready\<rparr>"
    if "\<not> sg_wave_failed g"
    using n a that unfolding serial_Finish_def
    by (simp add: Let_def x_def [symmetric] row_def [symmetric] om_def [symmetric] stop_def [symmetric] SkipExcluded_def c_def)
  have shape: "sg_state g = Active" "\<not> sg_wave_failed g" "0 < sg_cursor g" "sg_cursor g \<le> length (sg_tests g)"
    "at_test a = sg_tests g ! (sg_cursor g - 1)" "at_retry a = sg_retry g" "at_generation a = sg_last_generation g" "sg_worker g \<noteq> None"
    using inv a by (auto simp: serial_inv_def shape_ok_def)
  have c: "sg_cursor g \<le> c" "c \<le> length (sg_tests g)"
    using shape(4) takeWhile_le [of "\<lambda>t. tc_id t \<in> sg_excluded g" "sg_cursor g" "sg_tests g"] by (simp_all add: c_def)
  have cur: "subseq (wave_tests (sg_retry g) (sg_results g)) (take (sg_cursor g - 1) (sg_tests g))"
    "\<forall>r \<in> set (wave (sg_retry g) (sg_results g)). r_expected r"
    using inv a shape by (auto simp: serial_inv_def current_ok_def gone_def)
  have sub: "subseq (wave_tests (sg_retry g) (sg_results g @ [row])) (take c (sg_tests g))"
    using subseq_take_mono [OF subseq_take_Suc [OF cur(1)], of c] shape c by (simp add: row)
  have waves: "waves_ok (sg_tests g) (sg_results g @ [row])"
    using inv cur(2) subseq_take_mono [OF sub, of "length (sg_tests g)"] c shape
    by (auto simp: serial_inv_def waves_ok_def row butlast_append)
  have gen: "generations_ok (sg_results g @ [row]) None (sg_last_generation g)"
    using inv a by (simp add: serial_inv_def serial_generations_ok_def generations_ok_def row)
  show ?thesis
    unfolding g' [OF shape(2)] using inv shape c cur(2) sub waves gen row a(1)
    by (simp add: serial_inv_defs)
next
  case False
  then have "serial_Finish w n st er i g = Inr (False, g)" by (cases "sg_active g") (simp_all add: serial_Finish_def)
  then show ?thesis using assms by simp
qed

lemma serial_ExcludeQueued_inv:
  assumes inv: "serial_inv g" and n: "serial_ExcludeQueued ids g = Inr (r, g')"
  shows "serial_inv g'"
proof -
  let ?g = "g\<lparr>sg_excluded := sg_excluded g \<union> ids\<rparr>"
  have ids: "sg_state g \<noteq> Active" "ids \<subseteq> tc_id ` set (sg_tests g)"
    using n by (auto simp: serial_ExcludeQueued_def split: if_splits)
  have "serial_inv ?g" using inv ids(2) by (cases "sg_state g"; cases "sg_active g"; simp add: serial_inv_defs)
  then have skipped: "serial_inv (SkipExcluded ?g)" using ids(1) by (intro SkipExcluded_inv) simp_all
  have none: "sg_active g = None" using inv ids(1) by (auto simp: serial_inv_def shape_ok_def split: option.splits)
  have st: "sg_state (SkipExcluded ?g) = sg_state g" "sg_active (SkipExcluded ?g) = None" using none by (simp_all add: SkipExcluded_def)
  have "serial_inv (s\<lparr>sg_state := Retiring\<rparr>)" if "serial_inv s" "sg_state s = Ready" "sg_cursor s = length (sg_tests s)" "sg_active s = None" for s
    using that by (simp add: serial_inv_defs)
  moreover have "serial_inv (s\<lparr>sg_state := SPassed\<rparr>)" if "serial_inv s" "sg_state s = AwaitingWorker" "sg_active s = None" for s
    using that by (simp add: serial_inv_defs wave_tests_def)
  ultimately show ?thesis using n ids skipped st by (auto simp: serial_ExcludeQueued_def Let_def split: if_splits)
qed

lemma serial_step_inv: "serial_inv g \<Longrightarrow> serial_step g e g' \<Longrightarrow> serial_inv g'"
  by (cases e) (auto simp: serial_step_iff serial_apply_def bindR_eq_Inr intro: serial_Begin_inv serial_Next_inv
      serial_ExpectFailure_inv serial_Finish_inv serial_Retired_inv serial_Stop_inv serial_ExcludeQueued_inv)

interpretation serial: machine serial_step serial_inv
  by unfold_locales (rule serial_step_inv)

section \<open>What a wave covers, and how many records it leaves\<close>

definition covers :: "serial_group \<Rightarrow> nat \<Rightarrow> bool" where
  "covers g c \<longleftrightarrow> (\<forall>i < c. i < length (sg_tests g) \<longrightarrow>
     tc_id (sg_tests g ! i) \<in> sg_excluded g \<or> sg_tests g ! i \<in> set (wave_tests (sg_retry g) (sg_results g)))"

definition covered_ok :: "serial_group \<Rightarrow> bool" where
  "covered_ok g \<longleftrightarrow>
     (sg_state g \<in> {Ready, Active, Retiring} \<longrightarrow> covers g (gone g)) \<and>
     (sg_state g = SPassed \<longrightarrow> covers g (length (sg_tests g)) \<and> (sg_wave_failed g \<longrightarrow> tc_id ` set (sg_tests g) \<subseteq> sg_excluded g))"

definition record_bound :: "serial_group \<Rightarrow> nat" where
  "record_bound g = length (sg_tests g) * sg_retry g +
     (if sg_state g \<in> {Ready, Active, Retiring} then (if sg_wave_failed g then length (sg_tests g) else sg_cursor g)
      else if sg_state g = AwaitingWorker then 0 else length (sg_tests g))"

definition counted_ok :: "serial_group \<Rightarrow> bool" where
  "counted_ok g \<longleftrightarrow>
     length (sg_results g) + length (sg_omissions g) + length (opt_list (sg_active g)) \<le> record_bound g"

definition book_ok :: "serial_group \<Rightarrow> bool" where
  "book_ok g \<longleftrightarrow> covered_ok g \<and> counted_ok g"

lemmas book_defs = book_ok_def covered_ok_def counted_ok_def record_bound_def gone_def

text \<open>The cursor moves over excluded declarations only.\<close>

lemma covers_skip:
  assumes "covers g (sg_cursor g)"
  shows "covers (SkipExcluded g) (sg_cursor (SkipExcluded g))"
proof -
  let ?w = "takeWhile (\<lambda>t. tc_id t \<in> sg_excluded g) (drop (sg_cursor g) (sg_tests g))"
  have "tc_id (sg_tests g ! i) \<in> sg_excluded g" if "sg_cursor g \<le> i" "i < sg_cursor g + length ?w" for i
  proof -
    have "?w ! (i - sg_cursor g) = sg_tests g ! i"
      using that length_takeWhile_le [of "\<lambda>t. tc_id t \<in> sg_excluded g" "drop (sg_cursor g) (sg_tests g)"]
      by (simp add: takeWhile_nth)
    moreover have "?w ! (i - sg_cursor g) \<in> set ?w" using that by (intro nth_mem) linarith
    ultimately show ?thesis using set_takeWhileD by metis
  qed
  then show ?thesis using assms unfolding covers_def SkipExcluded_def by simp (meson not_less)
qed

lemma SkipExcluded_simps [simp]:
  "sg_state (SkipExcluded g) = sg_state g" "sg_active (SkipExcluded g) = sg_active g" "sg_results (SkipExcluded g) = sg_results g"
  "sg_tests (SkipExcluded g) = sg_tests g" "sg_omissions (SkipExcluded g) = sg_omissions g" "sg_retry (SkipExcluded g) = sg_retry g"
  "sg_wave_failed (SkipExcluded g) = sg_wave_failed g" "sg_stop (SkipExcluded g) = sg_stop g" "sg_excluded (SkipExcluded g) = sg_excluded g"
  "sg_worker (SkipExcluded g) = sg_worker g"
  by (simp_all add: SkipExcluded_def)

lemma SkipExcluded_cursor: "sg_cursor g \<le> sg_cursor (SkipExcluded g)"
  by (simp add: SkipExcluded_def)

lemma covers_cong:
  "sg_tests g' = sg_tests g \<Longrightarrow> sg_excluded g' = sg_excluded g \<Longrightarrow> sg_retry g' = sg_retry g \<Longrightarrow> sg_results g' = sg_results g \<Longrightarrow>
     covers g' c = covers g c"
  by (simp add: covers_def)

lemma book_Begin: "serial_inv g \<Longrightarrow> book_ok g \<Longrightarrow> serial_Begin w g = Inr (r, g') \<Longrightarrow> book_ok g'"
proof (cases "r")
  case True
  assume inv: "serial_inv g" "book_ok g" and b: "serial_Begin w g = Inr (r, g')"
  let ?g = "g\<lparr>sg_worker := Some w, sg_last_worker := Some (sw_index w), sg_cursor := 0, sg_wave_failed := False\<rparr>"
  have g': "g' = (SkipExcluded ?g)\<lparr>sg_state := Ready\<rparr>" and st: "sg_state g = AwaitingWorker"
    using b True by (auto simp: serial_Begin_def split: if_splits)
  have none: "sg_active g = None" using inv(1) st by (auto simp: serial_inv_def shape_ok_def split: option.splits)
  have "covers (SkipExcluded ?g) (sg_cursor (SkipExcluded ?g))" by (rule covers_skip) (simp add: covers_def)
  then have "covers g' (sg_cursor g')" by (simp add: g' covers_def)
  then show ?thesis using inv(2) none st by (simp add: g' book_defs)
qed (auto simp: serial_Begin_def split: if_splits)

lemma book_Next: "serial_inv g \<Longrightarrow> book_ok g \<Longrightarrow> serial_Next w n g = Inr (r, g') \<Longrightarrow> book_ok g'"
proof (cases "r = None")
  case False
  assume inv: "serial_inv g" "book_ok g" and b: "serial_Next w n g = Inr (r, g')"
  obtain a where g': "g' = g\<lparr>sg_last_generation := n, sg_cursor := sg_cursor g + 1, sg_active := Some a,
                             sg_runtime_expected_failure := False, sg_state := Active\<rparr>" and st: "sg_state g = Ready"
    using b False by (auto simp: serial_Next_def Let_def split: if_splits)
  have none: "sg_active g = None" "\<not> sg_wave_failed g" using inv(1) st by (auto simp: serial_inv_def shape_ok_def split: option.splits)
  have "covers g (sg_cursor g)" using inv(2) none st by (simp add: book_defs)
  then have "covers g' (sg_cursor g)" by (simp add: g' covers_def)
  then show ?thesis using inv(2) none st by (simp add: g' book_defs)
qed (auto simp: serial_Next_def Let_def split: if_splits)

lemma book_Finish: 
  assumes inv: "serial_inv g" "book_ok g" and b: "serial_Finish w n st er i g = Inr (r, g')"
  shows "book_ok g'"
proof (cases "\<exists>a. sg_active g = Some a \<and> active_owned g w n")
  case True
  then obtain a where a: "sg_active g = Some a" "active_owned g w n" by blast
  define x where "x = expected_outcome (at_test a) (sg_runtime_expected_failure g) st i"
  define row where "row = \<lparr>r_attempt = a, r_outcome = st, r_expected = x, r_error = take 8192 er\<rparr>"
  define h where "h = g\<lparr>sg_results := sg_results g @ [row], sg_wave_failed := sg_wave_failed g \<or> \<not> x,
     sg_omissions := sg_omissions g @ (if x then [] else omitted g a), sg_stop := sg_stop g \<or> st = OInterrupted,
     sg_active := None, sg_runtime_expected_failure := False\<rparr>"
  have g': "g' = (SkipExcluded h)\<lparr>sg_state := if sg_wave_failed h \<or> sg_stop h \<or> sg_cursor (SkipExcluded h) = length (sg_tests h) then Retiring else Ready\<rparr>"
  proof -
    have "serial_Finish w n st er i g = Inr (True, (SkipExcluded h)\<lparr>sg_state := if sg_wave_failed h \<or> sg_stop h \<or>
        sg_cursor (SkipExcluded h) = length (sg_tests h) then Retiring else Ready\<rparr>)"
      unfolding serial_Finish_def h_def row_def x_def using a by (simp add: Let_def)
    then show ?thesis using b by simp
  qed
  have shape: "sg_state g = Active" "\<not> sg_wave_failed g" "0 < sg_cursor g" "sg_cursor g \<le> length (sg_tests g)"
    "at_test a = sg_tests g ! (sg_cursor g - 1)" "at_retry a = sg_retry g"
    using inv(1) a by (auto simp: serial_inv_def shape_ok_def)
  have "covers g (sg_cursor g - 1)" using inv(2) a shape(1) by (simp add: book_defs)
  moreover have "i < sg_cursor g - 1 \<or> i = sg_cursor g - 1" if "i < sg_cursor g" for i using that by linarith
  ultimately have "covers h (sg_cursor h)"
    using shape(5,6) by (fastforce simp: covers_def h_def row_def)
  then have cov: "covers g' (sg_cursor g')" using covers_skip [of h] by (simp add: g' covers_def)
  have om: "length (omitted g a) \<le> length (sg_tests g) - sg_cursor g"
    using length_filter_le [of "\<lambda>t. tc_id t \<notin> sg_excluded g" "drop (sg_cursor g) (sg_tests g)"] by (simp add: omitted_def)
  have "length (sg_results g) + length (sg_omissions g) + 1 \<le> length (sg_tests g) * sg_retry g + sg_cursor g"
    using inv(2) a shape by (simp add: book_ok_def counted_ok_def record_bound_def)
  moreover have "sg_cursor g \<le> sg_cursor (SkipExcluded h)" using SkipExcluded_cursor [of h] by (simp add: h_def)
  moreover have "sg_results h = sg_results g @ [row]" "length (sg_omissions h) \<le> length (sg_omissions g) + (if x then 0 else length (omitted g a))"
    "sg_tests h = sg_tests g" "sg_retry h = sg_retry g" "sg_active h = None" "sg_wave_failed h = (\<not> x)"
    using shape(2) by (simp_all add: h_def)
  ultimately have "counted_ok g'" using om shape(4) by (simp add: counted_ok_def record_bound_def g' split: if_splits)
  moreover have "covered_ok g'" using cov by (simp add: covered_ok_def gone_def g' h_def)
  ultimately show ?thesis by (simp add: book_ok_def)
next
  case False
  then have "serial_Finish w n st er i g = Inr (False, g)" by (cases "sg_active g") (simp_all add: serial_Finish_def)
  then show ?thesis using assms by simp
qed

lemma book_Retired: "serial_inv g \<Longrightarrow> book_ok g \<Longrightarrow> serial_Retired w g = Inr (r, g') \<Longrightarrow> book_ok g'"
proof (cases "r")
  case True
  assume inv: "serial_inv g" "book_ok g" and b: "serial_Retired w g = Inr (r, g')"
  have st: "sg_state g = Retiring" "sg_active g = None" using b True by (auto simp: serial_Retired_def split: if_splits)
  have g': "g' = (let g = g\<lparr>sg_worker := None\<rparr>
           in if sg_stop g then g\<lparr>sg_state := SStopped\<rparr>
                else if \<not> sg_wave_failed g then g\<lparr>sg_state := SPassed\<rparr>
                else if sg_retry g < sg_max_retries g then g\<lparr>sg_retry := sg_retry g + 1, sg_state := AwaitingWorker\<rparr>
                else g\<lparr>sg_state := SFailed\<rparr>)"
    using b True by (auto simp: serial_Retired_def Let_def split: if_splits)
  have shape: "sg_cursor g \<le> length (sg_tests g)" "sg_wave_failed g \<or> sg_stop g \<or> sg_cursor g = length (sg_tests g)"
    using inv(1) st by (auto simp: serial_inv_def shape_ok_def)
  have cov: "covers g (sg_cursor g)" using inv(2) st by (simp add: book_defs)
  have cnt: "length (sg_results g) + length (sg_omissions g) \<le> length (sg_tests g) * sg_retry g + length (sg_tests g)"
    using inv(2) st shape by (simp add: book_ok_def counted_ok_def record_bound_def split: if_splits)
  show ?thesis using cov cnt shape st by (auto simp: g' Let_def book_defs covers_def)
qed (auto simp: serial_Retired_def Let_def split: if_splits)

lemma book_Stop: "serial_inv g \<Longrightarrow> book_ok g \<Longrightarrow> book_ok (serial_Stop g)"
  by (cases "sg_state g"; cases "sg_active g"; simp add: serial_Stop_def book_defs covers_def split: if_splits)

lemma book_ExpectFailure: "book_ok g \<Longrightarrow> serial_ExpectFailure w n g = Inr (r, g') \<Longrightarrow> book_ok g'"
proof (cases "active_owned g w n")
  case True
  assume b: "book_ok g" "serial_ExpectFailure w n g = Inr (r, g')"
  then have g': "g' = g\<lparr>sg_runtime_expected_failure := True\<rparr>" using True by (simp add: serial_ExpectFailure_def)
  have "covers g' c = covers g c" for c by (simp add: g' covers_def)
  moreover have "gone g' = gone g" "record_bound g' = record_bound g" by (simp_all add: g' gone_def record_bound_def)
  ultimately show ?thesis using b(1) by (simp add: book_ok_def covered_ok_def counted_ok_def) (simp add: g')
qed (simp add: serial_ExpectFailure_def)

lemma book_ExcludeQueued:
  assumes inv: "serial_inv g" "book_ok g" and n: "serial_ExcludeQueued ids g = Inr (r, g')"
  shows "book_ok g'"
proof -
  let ?g = "g\<lparr>sg_excluded := sg_excluded g \<union> ids\<rparr>"
  have ids: "sg_state g \<noteq> Active" "ids \<subseteq> tc_id ` set (sg_tests g)"
    using n by (auto simp: serial_ExcludeQueued_def split: if_splits)
  have none: "sg_active g = None" using inv(1) ids(1) by (auto simp: serial_inv_def shape_ok_def split: option.splits)
  have all: "covers h (length (sg_tests h)) \<and> tc_id ` set (sg_tests h) \<subseteq> sg_excluded h"
    if "sg_tests h = sg_tests g" "sg_excluded h = sg_excluded g \<union> ids" "card (sg_excluded g \<union> ids) = length (sg_tests g)" for h
  proof -
    have sub: "sg_excluded g \<union> ids \<subseteq> tc_id ` set (sg_tests g)" using inv(1) ids(2) by (simp add: serial_inv_def shape_ok_def)
    have "card (tc_id ` set (sg_tests g)) \<le> length (sg_tests g)"
      using card_image_le [of "set (sg_tests g)" tc_id] card_length [of "sg_tests g"] by simp
    then have "sg_excluded g \<union> ids = tc_id ` set (sg_tests g)" using sub that(3) by (intro card_seteq) auto
    then show ?thesis using that by (auto simp: covers_def)
  qed
  have cov: "covers (SkipExcluded ?g) (sg_cursor (SkipExcluded ?g))" if "sg_state g \<in> {Ready, Retiring}"
    using inv(2) that none by (intro covers_skip) (auto simp: book_defs covers_def)
  have passed: "covers (SkipExcluded ?g) (length (sg_tests g))" "sg_wave_failed g \<Longrightarrow> tc_id ` set (sg_tests g) \<subseteq> sg_excluded g \<union> ids"
    if "sg_state g = SPassed"
    using inv(2) that by (auto simp: book_defs covers_def)
  have "book_ok (SkipExcluded ?g)"
    using inv(2) cov passed none ids(1) SkipExcluded_cursor [of ?g] by (auto simp: book_defs split: if_splits)
  moreover have "book_ok ((SkipExcluded ?g)\<lparr>sg_state := Retiring\<rparr>)" if "sg_state g = Ready"
    using calculation that none by (auto simp: book_defs covers_def)
  moreover have "book_ok ((SkipExcluded ?g)\<lparr>sg_state := SPassed\<rparr>)"
    if "sg_state g = AwaitingWorker" "card (sg_excluded g \<union> ids) = length (sg_tests g)"
    using calculation(1) that none all [of "(SkipExcluded ?g)\<lparr>sg_state := SPassed\<rparr>"] by (auto simp: book_defs)
  ultimately show ?thesis using n by (auto simp: serial_ExcludeQueued_def Let_def split: if_splits)
qed

lemma book_step: "serial_inv g \<and> book_ok g \<Longrightarrow> serial_step g e g' \<Longrightarrow> serial_inv g' \<and> book_ok g'"
  using serial_step_inv [of g e g']
  by (cases e) (auto simp: serial_step_iff serial_apply_def bindR_eq_Inr intro: book_Begin book_Next
      book_ExpectFailure book_Finish book_Retired book_Stop book_ExcludeQueued)

interpretation serial_book: machine serial_step "\<lambda>g. serial_inv g \<and> book_ok g"
  by unfold_locales (rule book_step)

section \<open>Construction\<close>

lemma SerialGroup_inv:
  assumes "SerialGroup ts = Inr g"
  shows "serial_inv g" "book_ok g" "sg_tests g = ts"
proof -
  obtain p where "RetryPlan ts 0 0 = Inr p" using assms by (auto simp: SerialGroup_def bindR_eq_Inr split: if_splits)
  then have ok: "tests_ok ts" using RetryPlan_inv [of ts 0 0 p] by (simp add: plan_inv_def)
  obtain m where m: "length ts * (m + 1) \<le> 8192" and
    g: "g = \<lparr>sg_tests = ts, sg_results = [], sg_omissions = [], sg_excluded = {}, sg_worker = None,
             sg_last_worker = None, sg_active = None, sg_state = AwaitingWorker, sg_cursor = 0, sg_retry = 0,
             sg_max_retries = m, sg_last_generation = 0, sg_wave_failed = False,
             sg_runtime_expected_failure = False, sg_stop = False\<rparr>"
    using assms by (auto simp: SerialGroup_def bindR_eq_Inr Let_def not_less split: if_splits)
  show "serial_inv g" using ok m by (simp add: g serial_inv_defs waves_ok_def generations_ok_def)
  show "book_ok g" "sg_tests g = ts" by (simp_all add: g book_defs)
qed

lemma serial_static: "serial_step g e g' \<Longrightarrow> sg_tests g' = sg_tests g \<and> sg_max_retries g' = sg_max_retries g"
  by (cases e) (auto simp: serial_step_iff serial_apply_def bindR_eq_Inr serial_Begin_def serial_Next_def serial_ExpectFailure_def
      serial_Finish_def serial_Retired_def serial_Stop_def serial_ExcludeQueued_def SkipExcluded_def Let_def
      split: if_splits option.splits)

lemma serial_trace_static: "trace serial_step g es g' \<Longrightarrow> sg_tests g' = sg_tests g \<and> sg_max_retries g' = sg_max_retries g"
  by (induction rule: trace.induct) (auto dest: serial_static)

section \<open>Properties\<close>

text \<open>
  C13: a serial group runs serially. In every history of a constructed group, each wave attempts members
  in their declared order, at most once each, and stops at its first unexpected outcome: only the last
  attempt of a wave can be unexpected. Attempts carry strictly increasing generations, and there are no more
  waves than the largest retry count of a member allows.
\<close>

theorem serial_waves:
  assumes "SerialGroup tests = Inr g" "trace serial_step g calls g'"
  shows "(\<forall>k. subseq (wave_tests k (sg_results g')) tests \<and> (\<forall>r \<in> set (butlast (wave k (sg_results g'))). r_expected r)) \<and>
         sorted_wrt (<) (map (\<lambda>r. at_generation (r_attempt r)) (sg_results g')) \<and>
         (\<forall>r \<in> set (sg_results g'). at_retry (r_attempt r) \<le> sg_max_retries g')"
proof -
  have inv: "serial_inv g'" using serial.trace_inv [OF assms(2)] SerialGroup_inv(1) [OF assms(1)] by blast
  have "sg_tests g' = tests" using serial_trace_static [OF assms(2)] SerialGroup_inv(3) [OF assms(1)] by simp
  then have "\<forall>k. subseq (wave_tests k (sg_results g')) tests \<and> (\<forall>r \<in> set (butlast (wave k (sg_results g'))). r_expected r)"
    using inv by (simp add: serial_inv_def waves_ok_def)
  moreover have "sorted_wrt (<) (map (\<lambda>r. at_generation (r_attempt r)) (sg_results g'))"
    using inv by (simp add: serial_inv_def serial_generations_ok_def generations_ok_def Let_def sorted_wrt_append)
  moreover have "\<forall>r \<in> set (sg_results g'). at_retry (r_attempt r) \<le> sg_max_retries g'"
    using inv by (auto simp: serial_inv_def current_ok_def shape_ok_def intro: le_trans)
  ultimately show ?thesis by blast
qed

definition pair_of_tests :: "test_case list" where
  "pair_of_tests = [flaky_test, flaky_test\<lparr>tc_id := 8, tc_retries := 0\<rparr>]"

definition worker_of :: "nat \<Rightarrow> serial_worker" where
  "worker_of n = \<lparr>sw_index = n, sw_pid = 100, sw_generation = 1\<rparr>"

lemmas serial_eval = SerialGroup_def pair_of_tests_def flaky_test_def RetryPlan_def record_bytes_def worker_of_def
  serial_apply_def serial_Begin_def serial_Next_def serial_Finish_def serial_Retired_def serial_Stop_def serial_ExcludeQueued_def
  active_owned_def Owns_def omitted_def expected_outcome_def SkipExcluded_def Let_def

text \<open>The first member fails once; both are replayed by the next worker.\<close>

definition replay_calls :: "serial_call list" where
  "replay_calls = [SBegin (worker_of 1), SNext (worker_of 1) 1, SFinish (worker_of 1) 1 OFailed ''boom'' False, SRetired (worker_of 1),
     SBegin (worker_of 2), SNext (worker_of 2) 2, SFinish (worker_of 2) 2 OPassed [] False,
     SNext (worker_of 2) 3, SFinish (worker_of 2) 3 OPassed [] False, SRetired (worker_of 2)]"

lemma pair_replay:
  "\<exists>g g'. SerialGroup pair_of_tests = Inr g \<and> run_calls serial_apply replay_calls g = Inr g' \<and> sg_state g' = SPassed \<and>
     length (sg_results g') = 3 \<and> sg_excluded g' = {} \<and> \<not> sg_wave_failed g'"
  by (simp add: serial_eval replay_calls_def)

theorem serial_waves_witness:
  "\<exists>g g'. SerialGroup pair_of_tests = Inr g \<and> trace serial_step g replay_calls g' \<and> length (sg_results g') = 3 \<and>
     subseq (wave_tests 0 (sg_results g')) pair_of_tests"
proof -
  obtain g g' where g: "SerialGroup pair_of_tests = Inr g" and
    g': "run_calls serial_apply replay_calls g = Inr g'" "length (sg_results g') = 3" using pair_replay by blast
  from serial_waves [OF g serial_trace [OF g'(1)]] g g' serial_trace [OF g'(1)] show ?thesis by blast
qed

text \<open>
  C14: a serial group that passed did all its work. When a group has reached the state \<open>Passed\<close>, every
  declared member is excluded or has an expected result in the last wave.
\<close>

theorem serial_passed_complete:
  assumes "SerialGroup tests = Inr g" "trace serial_step g calls g'" "sg_state g' = SPassed" "t \<in> set tests"
    "tc_id t \<notin> sg_excluded g'"
  shows "\<exists>r \<in> set (sg_results g'). at_test (r_attempt r) = t \<and> at_retry (r_attempt r) = sg_retry g' \<and> r_expected r"
proof -
  have inv: "serial_inv g'" "book_ok g'"
    using serial_book.trace_inv [OF assms(2)] SerialGroup_inv [OF assms(1)] by blast+
  have ts: "sg_tests g' = tests" using serial_trace_static [OF assms(2)] SerialGroup_inv(3) [OF assms(1)] by simp
  obtain i where i: "i < length tests" "tests ! i = t" using assms(4) by (auto simp: in_set_conv_nth)
  have "covers g' (length tests)" and ok: "\<not> sg_wave_failed g'" using inv(2) assms(3-5) ts by (auto simp: book_defs)
  then have "t \<in> set (wave_tests (sg_retry g') (sg_results g'))" using i assms(5) ts unfolding covers_def by blast
  then obtain r where r: "r \<in> set (wave (sg_retry g') (sg_results g'))" "at_test (r_attempt r) = t" by (auto simp: wave_tests_def)
  moreover have "r_expected r" using inv(1) assms(3) ok r(1) by (simp add: serial_inv_def current_ok_def)
  ultimately show ?thesis by (auto simp: wave_def)
qed

theorem serial_passed_complete_witness:
  "\<exists>g g' r. SerialGroup pair_of_tests = Inr g \<and> trace serial_step g replay_calls g' \<and> r \<in> set (sg_results g') \<and>
     at_test (r_attempt r) = flaky_test \<and> r_expected r"
proof -
  obtain g g' where g: "SerialGroup pair_of_tests = Inr g" and
    g': "run_calls serial_apply replay_calls g = Inr g'" "sg_state g' = SPassed" "sg_excluded g' = {}" "\<not> sg_wave_failed g'"
    using pair_replay by blast
  have "flaky_test \<in> set pair_of_tests" by (simp add: pair_of_tests_def)
  from serial_passed_complete [OF g serial_trace [OF g'(1)] g'(2) this] g g' serial_trace [OF g'(1)] show ?thesis by auto
qed

text \<open>
  The record capacity the constructor checks is never exceeded. In every history of a constructed
  group the results and the omissions together number at most the members times the waves begun, hence
  at most 8192.
\<close>

theorem serial_records_bounded:
  assumes "SerialGroup tests = Inr g" "trace serial_step g calls g'"
  shows "length (sg_results g') + length (sg_omissions g') \<le> length tests * (sg_retry g' + 1) \<and>
         length (sg_results g') + length (sg_omissions g') \<le> 8192"
proof -
  have inv: "serial_inv g'" "book_ok g'"
    using serial_book.trace_inv [OF assms(2)] SerialGroup_inv [OF assms(1)] by blast+
  have ts: "sg_tests g' = tests" using serial_trace_static [OF assms(2)] SerialGroup_inv(3) [OF assms(1)] by simp
  have shape: "sg_cursor g' \<le> length tests" "sg_retry g' \<le> sg_max_retries g'" "length tests * (sg_max_retries g' + 1) \<le> 8192"
    using inv(1) ts by (simp_all add: serial_inv_def shape_ok_def)
  have "record_bound g' \<le> length tests * (sg_retry g' + 1)" using shape(1) ts by (simp add: record_bound_def)
  moreover have "length tests * (sg_retry g' + 1) \<le> length tests * (sg_max_retries g' + 1)" using shape(2) by (intro mult_le_mono2) simp
  ultimately show ?thesis using inv(2) shape(3) unfolding book_ok_def counted_ok_def by linarith
qed

theorem serial_records_bounded_witness:
  "\<exists>g g'. SerialGroup pair_of_tests = Inr g \<and> trace serial_step g replay_calls g' \<and>
     length (sg_results g') + length (sg_omissions g') \<le> 8192"
proof -
  obtain g g' where g: "SerialGroup pair_of_tests = Inr g" and g': "run_calls serial_apply replay_calls g = Inr g'"
    using pair_replay by blast
  from serial_records_bounded [OF g serial_trace [OF g']] g serial_trace [OF g'] show ?thesis by blast
qed


end
