(* ===== verification/JsonText.thy ===== *)
theory JsonText
  imports Prelude
begin

text \<open>
  The text helpers of \<open>native/runner/json_text.h\<close> (hexadecimal decoding, the check of a serialised JSON
  string) and the two functions of \<open>native/runner/resource_locks.h\<close> that use that encoding: a lock name
  arrives as hexadecimal digits of UTF-16 code units and is reported as a JSON string of \<open>\u\<close> escapes.
  Text is a list of bytes.
\<close>

type_synonym bytes = "nat list"

definition bytes_ok :: "bytes \<Rightarrow> bool" where
  "bytes_ok bs \<longleftrightarrow> (\<forall>b \<in> set bs. b < 256)"

definition HexDigit :: "nat \<Rightarrow> nat option" where
  "HexDigit c =
     (if 48 \<le> c \<and> c \<le> 57 then Some (c - 48)
      else if 97 \<le> c \<and> c \<le> 102 then Some (c - 97 + 10)
      else if 65 \<le> c \<and> c \<le> 70 then Some (c - 65 + 10)
      else None)"

fun hex_pairs :: "bytes \<Rightarrow> bytes result" where
  "hex_pairs (x # y # xs) =
     (case (HexDigit x, HexDigit y) of
        (Some a, Some b) \<Rightarrow> bindR (hex_pairs xs) (\<lambda>ds. Inr ((a * 16 + b) # ds))
      | _ \<Rightarrow> Inl (Invalid_argument ''Invalid native host hex digit''))"
| "hex_pairs xs = Inr []"

definition DecodeHex :: "bytes \<Rightarrow> nat \<Rightarrow> bytes result" where
  "DecodeHex source limit =
     (if source = units ''-'' then Inr []
      else if length source mod 2 \<noteq> 0 \<or> limit < length source div 2 then Inl (Invalid_argument ''Invalid native host hex size'')
      else hex_pairs source)"

text \<open>The number of bytes that continue a UTF-8 sequence, its first bits and the least code it may encode.\<close>

definition lead :: "nat \<Rightarrow> (nat \<times> nat \<times> nat) option" where
  "lead c =
     (if c div 32 = 6 then Some (1, c mod 32, 128)
      else if c div 16 = 14 then Some (2, c mod 16, 2048)
      else if c div 8 = 30 then Some (3, c mod 8, 65536)
      else None)"

fun continuation :: "bytes \<Rightarrow> nat \<Rightarrow> nat option" where
  "continuation [] code = Some code"
| "continuation (t # ts) code = (if t div 64 \<noteq> 2 then None else continuation ts (code * 64 + t mod 64))"

definition scalar :: "nat \<Rightarrow> nat \<Rightarrow> bytes \<Rightarrow> nat option" where
  "scalar code minimum ts =
     (case continuation ts code of
        None \<Rightarrow> None
      | Some code \<Rightarrow> if code < minimum \<or> 1114111 < code \<or> 55296 \<le> code \<and> code \<le> 57343 then None else Some code)"

text \<open>The loop of \<open>JsonString\<close> over the text between the quotes: the number of UTF-16 units so far is \<open>n\<close>.\<close>

function json_units :: "bytes \<Rightarrow> nat \<Rightarrow> nat \<Rightarrow> bool" where
  "json_units [] limit n = True"
| "json_units (c # cs) limit n =
     (if c < 32 \<or> c = 34 then False
      else if c = 92 then
        (case cs of
           [] \<Rightarrow> False
         | e # es \<Rightarrow>
             if e = ch CHR ''u'' then
               (if length es < 4 \<or> (\<exists>h \<in> set (take 4 es). HexDigit h = None) then False
                else if limit < n + 1 then False else json_units (drop 4 es) limit (n + 1))
             else if e \<notin> set (units [CHR 0x22, CHR 0x5c, CHR ''/'', CHR ''b'', CHR ''f'', CHR ''n'', CHR ''r'', CHR ''t'']) then False
             else if limit < n + 1 then False else json_units es limit (n + 1))
      else if c < 128 then (if limit < n + 1 then False else json_units cs limit (n + 1))
      else (case lead c of
              None \<Rightarrow> False
            | Some (k, code, minimum) \<Rightarrow>
                if length cs < k then False
                else (case scalar code minimum (take k cs) of
                        None \<Rightarrow> False
                      | Some code \<Rightarrow>
                          let n = n + (if 65535 < code then 2 else 1)
                          in if limit < n then False else json_units (drop k cs) limit n)))"
  by pat_completeness auto

termination
  by (relation "measure (\<lambda>(cs, limit, n). length cs)") auto

definition JsonString :: "bytes \<Rightarrow> nat \<Rightarrow> bool" where
  "JsonString text limit \<longleftrightarrow>
     2 \<le> length text \<and> hd text = 34 \<and> last text = 34 \<and> json_units (butlast (tl text)) limit 0"

section \<open>Names of resource locks\<close>

definition ResourceLockName :: "bytes \<Rightarrow> bytes result" where
  "ResourceLockName wire =
     (if wire = units ''-'' then Inr []
      else if wire = [] \<or> length wire mod 4 \<noteq> 0 \<or> 4096 < length wire
      then Inl (Invalid_argument ''Invalid native resource-lock UTF16 name size'')
      else DecodeHex wire 2048)"

definition digit :: "nat \<Rightarrow> nat" where
  "digit d = (if d < 10 then 48 + d else 97 + (d - 10))"

fun lock_escapes :: "bytes \<Rightarrow> bytes" where
  "lock_escapes (low # high # bs) =
     [92, ch CHR ''u'', digit (high div 16), digit (high mod 16), digit (low div 16), digit (low mod 16)] @ lock_escapes bs"
| "lock_escapes bs = []"

definition ResourceLockJSON :: "bytes \<Rightarrow> bytes result" where
  "ResourceLockJSON name =
     (if length name mod 2 \<noteq> 0 \<or> 2048 < length name then Inl (Invalid_argument ''Invalid native resource-lock UTF16 name'')
      else Inr ([34] @ lock_escapes name @ [34]))"

section \<open>Hexadecimal text\<close>

fun hex_text :: "bytes \<Rightarrow> bytes" where
  "hex_text [] = []"
| "hex_text (b # bs) = digit (b div 16) # digit (b mod 16) # hex_text bs"

fun lower :: "nat \<Rightarrow> nat" where
  "lower c = (if 65 \<le> c \<and> c \<le> 70 then c + 32 else c)"

lemma HexDigit_digit [simp]: "d < 16 \<Longrightarrow> HexDigit (digit d) = Some d"
  by (auto simp: HexDigit_def digit_def)

lemma HexDigit_Some: "HexDigit c = Some d \<Longrightarrow> d < 16 \<and> digit d = lower c"
  by (auto simp: HexDigit_def digit_def split: if_splits)

lemma hex_pairs_text: "bytes_ok bs \<Longrightarrow> hex_pairs (hex_text bs) = Inr bs"
  by (induction bs) (auto simp: bytes_ok_def)

lemma hex_pairs_decoded:
  "hex_pairs xs = Inr bs \<Longrightarrow> length xs mod 2 = 0 \<Longrightarrow> bytes_ok bs \<and> hex_text bs = map lower xs \<and> length xs = 2 * length bs"
proof (induction xs arbitrary: bs rule: hex_pairs.induct)
  case (1 x y xs)
  then obtain a b ds where d: "HexDigit x = Some a" "HexDigit y = Some b" "hex_pairs xs = Inr ds" "bs = (a * 16 + b) # ds"
    by (auto simp: bindR_eq_Inr split: option.splits)
  then show ?case using 1 HexDigit_Some [of x a] HexDigit_Some [of y b] by (auto simp: bytes_ok_def simp del: lower.simps)
qed (simp_all add: bytes_ok_def)

lemma hex_pairs_safe: "hex_pairs xs = Inl e \<Longrightarrow> \<not> fatal e"
  by (induction xs rule: hex_pairs.induct) (auto simp: bindR_eq_Inl split: option.splits)

lemma hex_text_length [simp]: "length (hex_text bs) = 2 * length bs"
  by (induction bs) auto

lemma hex_text_dash: "hex_text bs \<noteq> [45]"
  by (cases bs) auto

declare json_units.simps(2) [simp del]

lemma json_units_escape:
  assumes "HexDigit a \<noteq> None" "HexDigit b \<noteq> None" "HexDigit c \<noteq> None" "HexDigit d \<noteq> None"
  shows "json_units (92 # ch CHR ''u'' # a # b # c # d # cs) limit n \<longleftrightarrow> n + 1 \<le> limit \<and> json_units cs limit (n + 1)"
  using assms by (subst json_units.simps) auto

lemma lock_escapes_units:
  assumes "even (length bs)" "bytes_ok bs" "n + length bs div 2 \<le> limit"
  shows "json_units (lock_escapes bs) limit n"
  using assms
proof (induction bs arbitrary: n rule: lock_escapes.induct)
  case (1 low high bs)
  have "high div 16 < 16" "low div 16 < 16" using 1(3) by (auto simp: bytes_ok_def less_mult_imp_div_less)
  then have "HexDigit (digit (high div 16)) \<noteq> None" "HexDigit (digit (low div 16)) \<noteq> None" by simp_all
  moreover have "HexDigit (digit (high mod 16)) \<noteq> None" "HexDigit (digit (low mod 16)) \<noteq> None" by simp_all
  moreover have "json_units (lock_escapes bs) limit (n + 1)" by (rule "1.IH") (use "1.prems" in \<open>auto simp: bytes_ok_def\<close>)
  ultimately show ?case using "1.prems"(3) unfolding lock_escapes.simps append_Cons append_Nil by (subst json_units_escape) auto
qed simp_all

section \<open>Properties\<close>

text \<open>
  C26: decoding inverts encoding. The hexadecimal text of any bytes within the limit decodes to those bytes;
  and whatever decodes is, up to the case of its letters, the hexadecimal text of its decoding. A rejected
  text is rejected by an error of the function's own.
\<close>

theorem hex_round_trip:
  assumes "bytes_ok bs" "length bs \<le> limit" "source \<noteq> units ''-''"
  shows "DecodeHex (hex_text bs) limit = Inr bs \<and>
    (DecodeHex source limit = Inr decoded \<longrightarrow> hex_text decoded = map lower source \<and> length decoded \<le> limit) \<and>
    safeR bytes_ok (DecodeHex source limit)"
proof (intro conjI impI)
  show "DecodeHex (hex_text bs) limit = Inr bs"
    using assms(1,2) hex_text_dash [of bs] by (simp add: DecodeHex_def hex_pairs_text)
  show "hex_text decoded = map lower source" "length decoded \<le> limit" if "DecodeHex source limit = Inr decoded"
    using that assms(3) hex_pairs_decoded [of source decoded] by (auto simp: DecodeHex_def split: if_splits simp del: lower.simps)
  show "safeR bytes_ok (DecodeHex source limit)"
    using assms(3) hex_pairs_safe [of source] hex_pairs_decoded [of source]
    by (intro wpRI) (auto simp: DecodeHex_def split: if_splits simp del: lower.simps)
qed

theorem hex_round_trip_witness:
  "DecodeHex (hex_text [202, 254]) 2 = Inr [202, 254] \<and> (\<exists>d. DecodeHex (units ''CAfe'') 2 = Inr d \<and> hex_text d = units ''cafe'')"
proof
  show "DecodeHex (hex_text [202, 254]) 2 = Inr [202, 254]"
    using hex_round_trip [of "[202, 254]" 2 "units ''CAfe''"] by (simp add: bytes_ok_def)
  have "DecodeHex (units ''CAfe'') 2 = Inr [202, 254]" by (simp add: DecodeHex_def HexDigit_def)
  then show "\<exists>d. DecodeHex (units ''CAfe'') 2 = Inr d \<and> hex_text d = units ''cafe''"
    using hex_round_trip [of "[202, 254]" 2 "units ''CAfe''" "[202, 254]"] by (simp add: bytes_ok_def)
qed

text \<open>
  C27: the report of a lock name is a JSON string. Every name that the wire carries is reported, and its
  report is accepted by the runner's own check of JSON strings, as one unit per code unit of the name.
\<close>

theorem lock_name_reported:
  assumes "ResourceLockName wire = Inr name"
  shows "\<exists>json. ResourceLockJSON name = Inr json \<and> JsonString json (length name div 2) \<and> length json = 3 * length name + 2"
proof -
  have name: "even (length name)" "length name \<le> 2048" "bytes_ok name"
  proof -
    consider "name = []" | "length wire mod 4 = 0" "length wire \<le> 4096" "hex_pairs wire = Inr name"
      using assms by (auto simp: ResourceLockName_def DecodeHex_def split: if_splits)
    then have "even (length name) \<and> length name \<le> 2048 \<and> bytes_ok name"
    proof cases
      case 2
      have "length wire mod 2 = 0" using 2(1) by presburger
      with hex_pairs_decoded [OF 2(3)] have "bytes_ok name" "length wire = 2 * length name" by auto
      then show ?thesis using 2(1,2) by presburger
    qed (simp add: bytes_ok_def)
    then show "even (length name)" "length name \<le> 2048" "bytes_ok name" by blast+
  qed
  have len: "length (lock_escapes bs) = 3 * length bs" if "even (length bs)" for bs
    using that by (induction bs rule: lock_escapes.induct) auto
  have "JsonString ([34] @ lock_escapes name @ [34]) (length name div 2)"
    using lock_escapes_units [OF name(1,3), of 0 "length name div 2"] by (simp add: JsonString_def)
  then show ?thesis using name len [OF name(1)] by (simp add: ResourceLockJSON_def even_iff_mod_2_eq_zero)
qed

theorem lock_name_reported_witness:
  "\<exists>json. ResourceLockName (units ''6400'') = Inr [100, 0] \<and> ResourceLockJSON [100, 0] = Inr json \<and> JsonString json 1"
proof -
  have w: "ResourceLockName (units ''6400'') = Inr [100, 0]" by (simp add: ResourceLockName_def DecodeHex_def HexDigit_def)
  then show ?thesis using lock_name_reported [OF w] by auto
qed

end
