(* ===== verification/ProjectPattern.thy ===== *)
theory ProjectPattern
  imports Prelude "HOL-Library.Word"
begin

unbundle bit_operations_syntax

text \<open>
  The project name pattern of \<open>native/runner/project_pattern.h\<close>: a glob with \<open>*\<close> only, matched by a
  bit-parallel automaton over \<open>std::bitset<257>\<close>. The bitsets are words of 257 bits, so that a shift
  drops what it drops in the code. Names and patterns are byte strings.
\<close>

type_synonym bitset = "257 word"

record project_pattern =
  pp_literals :: "nat \<Rightarrow> bitset"
  pp_stars :: bitset
  pp_length :: nat
  pp_wildcard :: bool

definition byte :: "char \<Rightarrow> nat" where
  "byte c = of_char c"

definition fold_byte :: "nat \<Rightarrow> nat" where
  "fold_byte c = (if 65 \<le> c \<and> c \<le> 90 then c + 32 else c)"

definition empty_pattern :: project_pattern where
  "empty_pattern = \<lparr>pp_literals = (\<lambda>_. 0), pp_stars = 0, pp_length = 0, pp_wildcard = False\<rparr>"

fun pattern_loop :: "nat list \<Rightarrow> bool \<Rightarrow> project_pattern \<Rightarrow> project_pattern" where
  "pattern_loop [] previous_star p = p"
| "pattern_loop (c # cs) previous_star p =
     (if c = 42 \<and> previous_star then pattern_loop cs previous_star p
      else if c = 42
      then pattern_loop cs True (p\<lparr>pp_stars := set_bit (pp_length p) (pp_stars p), pp_wildcard := True, pp_length := pp_length p + 1\<rparr>)
      else pattern_loop cs False
        (p\<lparr>pp_literals := (pp_literals p)(fold_byte c := set_bit (pp_length p) (pp_literals p (fold_byte c))),
           pp_length := pp_length p + 1\<rparr>))"

definition ProjectPattern :: "string \<Rightarrow> project_pattern result" where
  "ProjectPattern pattern =
     (if pattern = [] \<or> 256 < length pattern \<or> CHR 0x00 \<in> set pattern
      then Inl (Invalid_argument ''Native project patterns require1..256 bytes'')
      else Inr (pattern_loop (map byte pattern) False empty_pattern))"

definition close_states :: "project_pattern \<Rightarrow> bitset \<Rightarrow> bitset" where
  "close_states p states = states OR push_bit 1 (states AND pp_stars p)"

definition read_byte :: "project_pattern \<Rightarrow> bitset \<Rightarrow> nat \<Rightarrow> bitset" where
  "read_byte p states c =
     close_states p ((states AND pp_stars p) OR push_bit 1 (states AND pp_literals p (fold_byte c)))"

definition pattern_Matches :: "project_pattern \<Rightarrow> string \<Rightarrow> bool" where
  "pattern_Matches p name \<longleftrightarrow>
     length name \<le> 256 \<and>
     bit (foldl (read_byte p) (close_states p (set_bit 0 0)) (map byte name)) (pp_length p)"

section \<open>The reference meaning of a pattern\<close>

text \<open>A star stands for any bytes, any other byte for itself up to the case of ASCII letters.\<close>

fun glob :: "nat list \<Rightarrow> nat list \<Rightarrow> bool" where
  "glob [] us = (us = [])"
| "glob (p # ps) us =
     (if p = 42 then glob ps us \<or> (case us of [] \<Rightarrow> False | u # us' \<Rightarrow> glob (p # ps) us')
      else (case us of [] \<Rightarrow> False | u # us' \<Rightarrow> fold_byte u = fold_byte p \<and> glob ps us'))"

text \<open>The same over the symbols the automaton has a state in front of: \<open>None\<close> is a star.\<close>

fun symbols_match :: "nat option list \<Rightarrow> nat list \<Rightarrow> bool" where
  "symbols_match [] us = (us = [])"
| "symbols_match (None # ts) us = (\<exists>v w. us = v @ w \<and> symbols_match ts w)"
| "symbols_match (Some b # ts) us = (\<exists>u w. us = u # w \<and> fold_byte u = b \<and> symbols_match ts w)"

fun squeeze :: "nat list \<Rightarrow> bool \<Rightarrow> nat option list" where
  "squeeze [] previous_star = []"
| "squeeze (c # cs) previous_star =
     (if c = 42 \<and> previous_star then squeeze cs previous_star
      else if c = 42 then None # squeeze cs True
      else Some (fold_byte c) # squeeze cs False)"

lemma match_star: "symbols_match (None # ts) us \<longleftrightarrow>
    symbols_match ts us \<or> (case us of [] \<Rightarrow> False | u # us' \<Rightarrow> symbols_match (None # ts) us')"
proof
  assume "symbols_match (None # ts) us"
  then obtain v w where us: "us = v @ w" "symbols_match ts w" by auto
  then show "symbols_match ts us \<or> (case us of [] \<Rightarrow> False | u # us' \<Rightarrow> symbols_match (None # ts) us')"
    by (cases v) auto
next
  assume m: "symbols_match ts us \<or> (case us of [] \<Rightarrow> False | u # us' \<Rightarrow> symbols_match (None # ts) us')"
  then show "symbols_match (None # ts) us"
  proof
    assume "symbols_match ts us"
    then show ?thesis by (auto intro: exI [of _ "[]"])
  next
    assume "case us of [] \<Rightarrow> False | u # us' \<Rightarrow> symbols_match (None # ts) us'"
    then obtain u v w where "us = u # v @ w" "symbols_match ts w" by (cases us) auto
    then have "us = (u # v) @ w \<and> symbols_match ts w" by simp
    then show ?thesis by (metis symbols_match.simps(2))
  qed
qed

lemma glob_star: "glob (42 # ps) us \<longleftrightarrow> (\<exists>v w. us = v @ w \<and> glob ps w)"
proof (induction us)
  case (Cons u us)
  have "(\<exists>v w. u # us = v @ w \<and> glob ps w) \<longleftrightarrow> glob ps (u # us) \<or> (\<exists>v w. us = v @ w \<and> glob ps w)"
    by (metis append_Cons append_Nil list.inject list.exhaust)
  then show ?case using Cons.IH by simp
qed simp

lemma squeeze_glob:
  "(if prev then \<exists>v w. us = v @ w \<and> glob cs w else glob cs us) \<longleftrightarrow>
   (if prev then symbols_match (None # squeeze cs True) us else symbols_match (squeeze cs False) us)"
proof (induction cs arbitrary: us prev)
  case (Cons c cs)
  have IHT: "(\<exists>v w. us = v @ w \<and> glob cs w) \<longleftrightarrow> (\<exists>v w. us = v @ w \<and> symbols_match (squeeze cs True) w)" for us
    using Cons.IH [where prev = True and us = us] by simp
  have IHF: "glob cs us \<longleftrightarrow> symbols_match (squeeze cs False) us" for us
    using Cons.IH [where prev = False and us = us] by simp
  have one: "glob (c # cs) us \<longleftrightarrow> symbols_match (squeeze (c # cs) False) us" for us
  proof (cases "c = 42")
    case True
    then show ?thesis using glob_star [of cs us] IHT [of us] by simp
  next
    case False
    then show ?thesis using IHF by (auto split: list.splits)
  qed
  show ?case
  proof (cases prev)
    case True
    have "(\<exists>v w. us = v @ w \<and> glob (c # cs) w) \<longleftrightarrow> (\<exists>v w. us = v @ w \<and> symbols_match (squeeze (c # cs) True) w)"
    proof (cases "c = 42")
      case True
      have "(\<exists>v w. us = v @ w \<and> glob (c # cs) w) \<longleftrightarrow> (\<exists>v w. us = v @ w \<and> glob cs w)"
        unfolding True glob_star by (metis append.assoc append_Nil)
      then show ?thesis using True IHT [of us] by simp
    qed (use one in \<open>simp\<close>)
    then show ?thesis using True by simp
  qed (use one in simp)
qed simp

lemma match_append:
  "symbols_match (ts @ ts') us \<longleftrightarrow> (\<exists>v w. us = v @ w \<and> symbols_match ts v \<and> symbols_match ts' w)"
proof (induction ts us rule: symbols_match.induct)
  case (2 ts us)
  have "symbols_match ((None # ts) @ ts') us \<longleftrightarrow> (\<exists>v w. us = v @ w \<and> (\<exists>x y. w = x @ y \<and> symbols_match ts x \<and> symbols_match ts' y))"
    using 2 by auto
  also have "\<dots> \<longleftrightarrow> (\<exists>v' y. us = v' @ y \<and> (\<exists>v x. v' = v @ x \<and> symbols_match ts x) \<and> symbols_match ts' y)"
    by (metis append.assoc)
  finally show ?case by simp
next
  case (3 b ts us)
  show ?case
  proof
    assume "symbols_match ((Some b # ts) @ ts') us"
    then obtain u w where us: "us = u # w" "fold_byte u = b" "symbols_match (ts @ ts') w" by auto
    then obtain v w' where "w = v @ w'" "symbols_match ts v" "symbols_match ts' w'" using 3 by blast
    then show "\<exists>v w. us = v @ w \<and> symbols_match (Some b # ts) v \<and> symbols_match ts' w" using us
      by (intro exI [of _ "u # v"] exI [of _ w']) simp
  next
    assume "\<exists>v w. us = v @ w \<and> symbols_match (Some b # ts) v \<and> symbols_match ts' w"
    then obtain u w v where us: "us = u # w @ v" "fold_byte u = b" "symbols_match ts w" "symbols_match ts' v" by auto
    then have "symbols_match (ts @ ts') (w @ v)" using 3 by blast
    then show "symbols_match ((Some b # ts) @ ts') us" using us by simp
  qed
qed simp

lemma match_snoc_star: "symbols_match (ts @ [None]) (us @ [u]) \<longleftrightarrow> symbols_match ts (us @ [u]) \<or> symbols_match (ts @ [None]) us"
proof -
  have star: "symbols_match (ts @ [None]) vs \<longleftrightarrow> (\<exists>v w. vs = v @ w \<and> symbols_match ts v)" for vs
    by (simp add: match_append)
  have "(\<exists>v w. us @ [u] = v @ w \<and> symbols_match ts v) \<longleftrightarrow> symbols_match ts (us @ [u]) \<or> (\<exists>v w. us = v @ w \<and> symbols_match ts v)"
    by (metis append.assoc append_Nil2 append_butlast_last_id butlast_append butlast_snoc)
  then show ?thesis unfolding star .
qed

lemma match_snoc_literal: "symbols_match (ts @ [Some b]) us \<longleftrightarrow> (\<exists>v u. us = v @ [u] \<and> fold_byte u = b \<and> symbols_match ts v)"
  by (auto simp: match_append)

section \<open>The automaton\<close>

text \<open>The bits a pattern sets: one star or literal per symbol, in order.\<close>

definition has_symbols :: "project_pattern \<Rightarrow> nat option list \<Rightarrow> bool" where
  "has_symbols p ts \<longleftrightarrow>
     pp_length p = length ts \<and> (\<forall>i < 257. bit (pp_stars p) i = (i < length ts \<and> ts ! i = None)) \<and>
     (\<forall>b. \<forall>i < 257. bit (pp_literals p b) i = (i < length ts \<and> ts ! i = Some b))"

lemma pattern_loop_symbols:
  "has_symbols p ts \<Longrightarrow> length ts + length cs \<le> 256 \<Longrightarrow> has_symbols (pattern_loop cs prev p) (ts @ squeeze cs prev)"
proof (induction cs prev p arbitrary: ts rule: pattern_loop.induct)
  case (2 c cs prev p)
  have nth: "(ts @ [x]) ! i = (if i < length ts then ts ! i else x)" if "i < Suc (length ts)" for x :: "nat option" and i
    using that by (simp add: nth_append)
  consider "c = 42 \<and> prev" | "c = 42" "\<not> prev" | "c \<noteq> 42" by blast
  then show ?case
  proof cases
    case 1
    then show ?thesis using 2 by simp
  next
    case c: 2
    let ?p = "p\<lparr>pp_stars := set_bit (pp_length p) (pp_stars p), pp_wildcard := True, pp_length := pp_length p + 1\<rparr>"
    have "has_symbols ?p (ts @ [None])"
      using "2.prems" by (auto simp: has_symbols_def bit_set_bit_iff nth_append less_Suc_eq)
    then show ?thesis using "2.IH"(2) [of "ts @ [None]"] "2.prems" c by simp
  next
    case c: 3
    let ?p = "p\<lparr>pp_literals := (pp_literals p)(fold_byte c := set_bit (pp_length p) (pp_literals p (fold_byte c))),
           pp_length := pp_length p + 1\<rparr>"
    have "has_symbols ?p (ts @ [Some (fold_byte c)])"
      using "2.prems" by (auto simp: has_symbols_def bit_set_bit_iff nth_append less_Suc_eq)
    then show ?thesis using "2.IH"(3) [of "ts @ [Some (fold_byte c)]"] "2.prems" c by simp
  qed
qed simp

lemma squeeze_length: "length (squeeze cs prev) \<le> length cs"
  by (induction cs prev rule: squeeze.induct) auto

definition no_double_star :: "nat option list \<Rightarrow> bool" where
  "no_double_star ts \<longleftrightarrow> (\<forall>i. Suc i < length ts \<longrightarrow> ts ! i = None \<longrightarrow> ts ! Suc i \<noteq> None)"

lemma squeeze_no_double_star: "no_double_star (squeeze cs prev) \<and> (prev \<longrightarrow> squeeze cs prev = [] \<or> hd (squeeze cs prev) \<noteq> None)"
proof (induction cs prev rule: squeeze.induct)
  case (2 c cs prev)
  have cons: "no_double_star (x # ts)" if "no_double_star ts" "x = None \<longrightarrow> ts = [] \<or> hd ts \<noteq> None" for x ts
    unfolding no_double_star_def
  proof (intro allI impI)
    fix i assume "Suc i < length (x # ts)" "(x # ts) ! i = None"
    then show "(x # ts) ! Suc i \<noteq> None" using that by (cases i; cases ts) (auto simp: no_double_star_def)
  qed
  then show ?case using 2 by auto
qed (simp add: no_double_star_def)

text \<open>
  The states that are on after reading \<open>us\<close>: state \<open>i\<close> stands in front of symbol \<open>i\<close>. In front of a
  star it stays on for whatever the star absorbs.
\<close>

definition alive :: "nat option list \<Rightarrow> nat list \<Rightarrow> nat \<Rightarrow> bool" where
  "alive ts us i \<longleftrightarrow> i \<le> length ts \<and>
     symbols_match (if i < length ts \<and> ts ! i = None then take (Suc i) ts else take i ts) us"

definition states_ok :: "nat option list \<Rightarrow> nat list \<Rightarrow> bitset \<Rightarrow> bool" where
  "states_ok ts us states \<longleftrightarrow> (\<forall>i < 257. bit states i = alive ts us i)"

lemma bit_shift: "i < 257 \<Longrightarrow> bit (push_bit 1 (w :: bitset)) i \<longleftrightarrow> 0 < i \<and> bit w (i - 1)"
  by (simp only: bit_push_bit_iff possible_bit_word) auto

lemma bit_close:
  "has_symbols p ts \<Longrightarrow> i < 257 \<Longrightarrow>
   bit (close_states p states) i \<longleftrightarrow>
     bit states i \<or> (0 < i \<and> i \<le> length ts \<and> ts ! (i - 1) = None \<and> bit states (i - 1))"
  unfolding close_states_def by (simp only: bit_or_iff bit_and_iff bit_shift has_symbols_def) auto

lemma take_symbol: "i < length ts \<Longrightarrow> take (Suc i) ts = take i ts @ [ts ! i]"
  by (rule take_Suc_conv_app_nth)

lemma no_double_star_before: "no_double_star ts \<Longrightarrow> i < length ts \<Longrightarrow> ts ! i = None \<Longrightarrow> 0 < i \<Longrightarrow> ts ! (i - 1) \<noteq> None"
  by (cases i) (auto simp: no_double_star_def)

lemma alive_step:
  assumes nd: "no_double_star ts"
  shows "alive ts (us @ [u]) i \<longleftrightarrow>
     i \<le> length ts \<and>
     ((i < length ts \<and> ts ! i = None \<and> alive ts us i) \<or>
      (0 < i \<and> ts ! (i - 1) = Some (fold_byte u) \<and> alive ts us (i - 1)) \<or>
      (0 < i \<and> ts ! (i - 1) = None \<and> alive ts (us @ [u]) (i - 1)))"
proof (cases "i \<le> length ts")
  case le: True
  have prev: "symbols_match (take i ts) (us @ [u]) \<longleftrightarrow>
      0 < i \<and> ((ts ! (i - 1) = Some (fold_byte u) \<and> alive ts us (i - 1)) \<or> (ts ! (i - 1) = None \<and> alive ts (us @ [u]) (i - 1)))"
  proof (cases i)
    case (Suc j)
    then have j: "j < length ts" using le by simp
    show ?thesis
    proof (cases "ts ! j")
      case None
      then show ?thesis using j by (simp add: Suc alive_def)
    next
      case (Some b)
      then have "alive ts us j \<longleftrightarrow> symbols_match (take j ts) us" using j by (simp add: alive_def)
      then show ?thesis using j Some by (auto simp: Suc take_symbol match_snoc_literal)
    qed
  qed simp
  show ?thesis
  proof (cases "i < length ts \<and> ts ! i = None")
    case True
    have nos: "ts ! (i - 1) \<noteq> None" if "0 < i" using no_double_star_before [OF nd] True that by blast
    have "alive ts (us @ [u]) i \<longleftrightarrow> symbols_match (take i ts) (us @ [u]) \<or> alive ts us i"
      using True by (simp add: alive_def take_symbol match_snoc_star)
    then show ?thesis using True prev nos by auto
  next
    case False
    then show ?thesis using prev le by (auto simp: alive_def [of ts "us @ [u]" i])
  qed
qed (simp add: alive_def)

lemma alive_start:
  assumes nd: "no_double_star ts"
  shows "alive ts [] i \<longleftrightarrow> i = 0 \<or> (i = 1 \<and> 1 \<le> length ts \<and> ts ! 0 = None)"
proof -
  have empty: "symbols_match (take i ts) [] \<longleftrightarrow> (\<forall>j < i. ts ! j = None)" if "i \<le> length ts" for i
    using that
  proof (induction i)
    case (Suc i)
    then show ?case by (cases "ts ! i") (auto simp: take_symbol match_append less_Suc_eq)
  qed simp
  have two: "i \<le> 1" if "\<forall>j < i. ts ! j = None" "i \<le> length ts" for i
    using that nd unfolding no_double_star_def by (metis One_nat_def Suc_lessD less_le_trans not_less_eq_eq lessI zero_less_Suc Suc_leI not_le)
  show ?thesis
  proof (cases "i < length ts \<and> ts ! i = None")
    case True
    then have "alive ts [] i \<longleftrightarrow> (\<forall>j < Suc i. ts ! j = None)" using empty [of "Suc i"] by (simp add: alive_def)
    moreover have "i = 0" if "\<forall>j < Suc i. ts ! j = None" using two [OF that] True by simp
    moreover have "\<not> (i = 1 \<and> ts ! 0 = None)" using True nd by (auto simp: no_double_star_def)
    ultimately show ?thesis using True by auto
  next
    case False
    then have a: "alive ts [] i \<longleftrightarrow> i \<le> length ts \<and> (\<forall>j < i. ts ! j = None)" using empty [of i] by (auto simp: alive_def)
    then show ?thesis using two [of i] by (auto simp: le_Suc_eq)
  qed
qed

lemma states_ok_start: "has_symbols p ts \<Longrightarrow> no_double_star ts \<Longrightarrow> states_ok ts [] (close_states p (set_bit 0 0))"
  by (auto simp: states_ok_def bit_close alive_start bit_set_bit_iff bit_1_iff)

lemma states_ok_step:
  assumes p: "has_symbols p ts" and nd: "no_double_star ts" and len: "length ts \<le> 256" and s: "states_ok ts us states"
  shows "states_ok ts (us @ [u]) (read_byte p states u)"
proof -
  let ?n = "(states AND pp_stars p) OR push_bit 1 (states AND pp_literals p (fold_byte u))"
  have n: "bit ?n i \<longleftrightarrow> (i < length ts \<and> ts ! i = None \<and> alive ts us i) \<or>
      (0 < i \<and> i - 1 < length ts \<and> ts ! (i - 1) = Some (fold_byte u) \<and> alive ts us (i - 1))" if "i < 257" for i
    using p s that by (simp only: bit_or_iff bit_and_iff bit_shift has_symbols_def states_ok_def) auto
  have star: "bit ?n i \<longleftrightarrow> alive ts (us @ [u]) i" if "i < length ts" "ts ! i = None" for i
  proof -
    have "ts ! (i - 1) \<noteq> None" if "0 < i" using no_double_star_before [OF nd] \<open>i < length ts\<close> \<open>ts ! i = None\<close> that by blast
    then show ?thesis using n [of i] alive_step [OF nd, of us u i] that len by auto
  qed
  show ?thesis
    unfolding states_ok_def
  proof (intro allI impI)
    fix i :: nat assume i: "i < 257"
    show "bit (read_byte p states u) i = alive ts (us @ [u]) i"
    proof -
      have "i - 1 < length ts" if "0 < i" "i \<le> length ts" using that by linarith
      moreover have "i \<le> length ts" if "0 < i" "i - 1 < length ts" using that by linarith
      ultimately show ?thesis
        unfolding read_byte_def bit_close [OF p i] n [OF i] alive_step [OF nd, of us u i] using star [of "i - 1"]
        by (metis less_imp_le_nat)
    qed
  qed
qed

lemma states_ok_run:
  assumes "has_symbols p ts" "no_double_star ts" "length ts \<le> 256" "states_ok ts us states"
  shows "states_ok ts (us @ vs) (foldl (read_byte p) states vs)"
  using assms(4)
proof (induction vs arbitrary: us states)
  case (Cons v vs)
  then show ?case using Cons.IH [OF states_ok_step [OF assms(1-3) Cons.prems, of v]] by simp
qed simp

section \<open>Properties\<close>

lemma Matches_glob:
  assumes "ProjectPattern pattern = Inr p"
  shows "pattern_Matches p name \<longleftrightarrow> length name \<le> 256 \<and> glob (map byte pattern) (map byte name)"
proof -
  let ?ts = "squeeze (map byte pattern) False" and ?us = "map byte name"
  have len: "length pattern \<le> 256" and p: "p = pattern_loop (map byte pattern) False empty_pattern"
    using assms by (auto simp: ProjectPattern_def split: if_splits)
  have "has_symbols empty_pattern []" by (simp add: has_symbols_def empty_pattern_def)
  then have syms: "has_symbols p ?ts" using pattern_loop_symbols [of empty_pattern "[]" "map byte pattern" False] len p by simp
  have ts: "no_double_star ?ts" "length ?ts \<le> 256"
    using squeeze_no_double_star squeeze_length [of "map byte pattern" False] len by (auto intro: le_trans)
  have "states_ok ?ts ?us (foldl (read_byte p) (close_states p (set_bit 0 0)) ?us)"
    using states_ok_run [OF syms ts states_ok_start [OF syms ts(1)], of ?us] by simp
  then have "bit (foldl (read_byte p) (close_states p (set_bit 0 0)) ?us) (pp_length p) \<longleftrightarrow> symbols_match ?ts ?us"
    using syms ts(2) by (simp add: states_ok_def has_symbols_def alive_def)
  moreover have "symbols_match ?ts ?us \<longleftrightarrow> glob (map byte pattern) ?us"
    using squeeze_glob [of False ?us "map byte pattern"] by simp
  ultimately show ?thesis by (simp add: pattern_Matches_def)
qed

text \<open>
  C16: the bit-parallel matcher decides the glob. For every admissible pattern and every name, it accepts
  exactly the names of at most 256 bytes that the pattern, read as a glob whose stars absorb any bytes and
  whose letters match in either ASCII case, describes in full.
\<close>

theorem pattern_matches_glob:
  assumes "ProjectPattern pattern = Inr p"
  shows "pattern_Matches p name \<longleftrightarrow> length name \<le> 256 \<and> glob (map byte pattern) (map byte name)"
  using Matches_glob [OF assms] .

theorem pattern_matches_glob_witness:
  "\<exists>p. ProjectPattern ''w*'' = Inr p \<and> pattern_Matches p ''Web'' \<and> \<not> pattern_Matches p ''fox''"
proof -
  obtain p where p: "ProjectPattern ''w*'' = Inr p" by (auto simp: ProjectPattern_def)
  have "glob [42] us" for us using glob_star [of "[]" us] by simp
  moreover have "glob (119 # ps) (u # us) \<longleftrightarrow> fold_byte u = 119 \<and> glob ps us" for ps u us
    by (simp add: fold_byte_def)
  ultimately have "glob (map byte ''w*'') (map byte ''Web'')" "\<not> glob (map byte ''w*'') (map byte ''fox'')"
    by (simp_all add: byte_def fold_byte_def del: glob.simps)
  then have "pattern_Matches p ''Web''" "\<not> pattern_Matches p ''fox''"
    unfolding pattern_matches_glob [OF p] by simp_all
  then show ?thesis using p by blast
qed

end
