(* ===== verification/ProjectGraph.thy ===== *)
theory ProjectGraph
  imports ProjectPattern
begin

text \<open>
  The class \<open>ProjectGraph\<close> of \<open>native/runner/project_plan.h\<close>: the projects a configuration declares, the
  dependencies and teardowns between them, and the selection of projects by name patterns. The
  recursive lambdas \<open>visit\<close> and \<open>include\<close> are loops over an explicit stack of pending calls.
\<close>

record project_declaration =
  pd_name :: string
  pd_dependencies :: "string list"
  pd_teardown :: "string option"
  pd_default_enabled :: bool

record project_graph =
  pg_declarations :: "project_declaration list"
  pg_names :: "string \<rightharpoonup> nat"
  pg_dependencies :: "nat list list"
  pg_teardown :: "nat option list"
  pg_teardowns :: "nat set"

section \<open>Construction\<close>

fun names_loop :: "project_declaration list \<Rightarrow> nat \<Rightarrow> (string \<rightharpoonup> nat) \<Rightarrow> (string \<rightharpoonup> nat) result" where
  "names_loop [] i names = Inr names"
| "names_loop (d # ds) i names =
     (if pd_name d = [] \<or> 256 < length (pd_name d) \<or> CHR 0x00 \<in> set (pd_name d) \<or> names (pd_name d) \<noteq> None
      then Inl (Invalid_argument ''Native project names must be unique nonempty strings up to256 bytes'')
      else names_loop ds (i + 1) (names(pd_name d \<mapsto> i)))"

definition Index :: "(string \<rightharpoonup> nat) \<Rightarrow> string \<Rightarrow> nat result" where
  "Index names name =
     (case names name of None \<Rightarrow> Inl (Invalid_argument (''Unknown native project: '' @ name)) | Some i \<Rightarrow> Inr i)"

fun dependency_loop :: "(string \<rightharpoonup> nat) \<Rightarrow> nat \<Rightarrow> string list \<Rightarrow> nat set \<Rightarrow> nat \<Rightarrow> (nat list \<times> nat) result" where
  "dependency_loop names i [] seen edges = Inr ([], edges)"
| "dependency_loop names i (name # ns) seen edges =
     bindR (Index names name) (\<lambda>target.
       if target = i \<or> target \<in> seen \<or> 4096 < edges + 1
       then Inl (Invalid_argument ''Native project dependency identity/capacity rejected'')
       else bindR (dependency_loop names i ns (insert target seen) (edges + 1)) (\<lambda>(ts, edges). Inr (target # ts, edges)))"

definition teardown_of :: "(string \<rightharpoonup> nat) \<Rightarrow> nat \<Rightarrow> string option \<Rightarrow> nat option result" where
  "teardown_of names i td =
     (case td of
        None \<Rightarrow> Inr None
      | Some name \<Rightarrow> bindR (Index names name) (\<lambda>target.
          if target = i then Inl (Invalid_argument ''Native project cannot tear itself down'') else Inr (Some target)))"

fun edges_loop :: "(string \<rightharpoonup> nat) \<Rightarrow> project_declaration list \<Rightarrow> nat \<Rightarrow> nat \<Rightarrow> (nat list list \<times> nat option list) result" where
  "edges_loop names [] i edges = Inr ([], [])"
| "edges_loop names (d # ds) i edges =
     bindR (dependency_loop names i (pd_dependencies d) {} edges) (\<lambda>(ts, edges).
     bindR (teardown_of names i (pd_teardown d)) (\<lambda>td.
     bindR (edges_loop names ds (i + 1) edges) (\<lambda>(deps, tds). Inr (ts # deps, td # tds))))"

datatype visit_frame = Enter nat | Leave nat

text \<open>The colours are 0 for a project not visited, 1 for one whose visit is under way and 2 for one visited.\<close>

function visit :: "nat list list \<Rightarrow> visit_frame list \<Rightarrow> nat list \<Rightarrow> nat list result" where
  "visit deps [] colors = Inr colors"
| "visit deps (Leave i # st) colors = visit deps st (colors[i := 2])"
| "visit deps (Enter i # st) colors =
     (if \<not> i < length colors \<or> \<not> i < length deps then Inl Undefined_behaviour
      else if colors ! i = 1 then Inl (Invalid_argument ''Native project dependency cycle'')
      else if colors ! i = 2 then visit deps st colors
      else visit deps (map Enter (deps ! i) @ Leave i # st) (colors[i := 1]))"
  by pat_completeness auto

definition unvisited :: "nat list \<Rightarrow> nat set" where
  "unvisited colors = {i. i < length colors \<and> colors ! i \<noteq> 1 \<and> colors ! i \<noteq> 2}"

lemma finite_unvisited [simp]: "finite (unvisited colors)"
  by (simp add: unvisited_def)

lemma unvisited_Leave: "unvisited (colors[i := 2]) \<subseteq> unvisited colors"
  by (cases "i < length colors") (auto simp: unvisited_def nth_list_update split: if_splits)

lemma unvisited_Enter:
  "i < length colors \<Longrightarrow> colors ! i \<noteq> 1 \<Longrightarrow> colors ! i \<noteq> 2 \<Longrightarrow> unvisited (colors[i := 1]) \<subset> unvisited colors"
  by (auto simp: unvisited_def nth_list_update split: if_splits)

termination visit
proof (relation "measures [\<lambda>(deps, st, colors). card (unvisited colors), \<lambda>(deps, st, colors). length st]", goal_cases)
  case (2 deps i st colors)
  then show ?case using card_mono [OF finite_unvisited unvisited_Leave [of colors i]] by (auto simp: le_less)
next
  case (4 deps i st colors)
  then show ?case using psubset_card_mono [OF finite_unvisited unvisited_Enter [of i colors]] by simp
qed auto

definition ProjectGraph :: "project_declaration list \<Rightarrow> project_graph result" where
  "ProjectGraph declarations =
     (if declarations = [] \<or> 128 < length declarations
      then Inl (Invalid_argument ''Native projects require1..128 declarations'')
      else bindR (names_loop declarations 0 Map.empty) (\<lambda>names.
           bindR (edges_loop names declarations 0 0) (\<lambda>(deps, tds).
           let teardowns = {t. Some t \<in> set tds}
           in if \<exists>t \<in> teardowns. deps ! t \<noteq> [] \<or> tds ! t \<noteq> None
              then Inl (Invalid_argument ''Native teardown projects cannot declare dependencies or another teardown in this serial slice'')
              else if \<exists>ts \<in> set deps. \<exists>t \<in> set ts. t \<in> teardowns
              then Inl (Invalid_argument ''Native projects cannot depend on a teardown project'')
              else bindR (visit deps (map Enter [0..<length declarations]) (replicate (length declarations) 0)) (\<lambda>_.
                   Inr \<lparr>pg_declarations = declarations, pg_names = names, pg_dependencies = deps, pg_teardown = tds,
                        pg_teardowns = teardowns\<rparr>))))"

section \<open>Selection\<close>

definition IsTeardown :: "project_graph \<Rightarrow> nat \<Rightarrow> bool" where
  "IsTeardown g i \<longleftrightarrow> i \<in> pg_teardowns g"

definition Teardown :: "project_graph \<Rightarrow> nat \<Rightarrow> nat option result" where
  "Teardown g i = atR (pg_teardown g) i"

definition Dependencies :: "project_graph \<Rightarrow> nat \<Rightarrow> nat list result" where
  "Dependencies g i = atR (pg_dependencies g) i"

fun available_loop :: "string list \<Rightarrow> bool \<Rightarrow> string \<Rightarrow> string" where
  "available_loop [] first message = message"
| "available_loop (name # ns) first message =
     (if 7000 < length message + length name + 4 then message @ ''... (available project list truncated)''
      else available_loop ns False (message @ (if first then [] else '', '') @ [CHR 0x22] @ name @ [CHR 0x22]))"

definition Available :: "project_graph \<Rightarrow> string \<Rightarrow> string" where
  "Available g message = available_loop (map pd_name (pg_declarations g)) True (message @ '' Available projects: '')"

fun roots_loop :: "project_graph \<Rightarrow> string list \<Rightarrow> bool list \<Rightarrow> bool \<Rightarrow> (bool list \<times> bool) result" where
  "roots_loop g [] roots any = Inr (roots, any)"
| "roots_loop g (pattern # ps) roots any =
     bindR (ProjectPattern pattern) (\<lambda>matcher.
       let hits = map (\<lambda>d. pattern_Matches matcher (pd_name d)) (pg_declarations g);
           matched = (True \<in> set hits)
       in if \<not> matched \<and> \<not> pp_wildcard matcher
          then Inl (Invalid_argument (Available g (''Native project selector not found: '' @ pattern @ ''.'')))
          else roots_loop g ps (map2 (\<or>) roots hits) (any \<or> matched))"

definition Roots :: "project_graph \<Rightarrow> string list \<Rightarrow> bool list result" where
  "Roots g patterns =
     (let n = length (pg_declarations g)
      in if 128 < length patterns then Inl (Invalid_argument ''Native project selector capacity128 exceeded'')
         else if patterns = []
         then Inr (map (\<lambda>i. pd_default_enabled (pg_declarations g ! i) \<and> \<not> IsTeardown g i) [0..<n])
         else bindR (roots_loop g patterns (replicate n False) False) (\<lambda>(roots, any).
                if \<not> any then Inl (Invalid_argument (Available g ''No native projects matched.'')) else Inr roots))"

text \<open>\<open>include\<close>: the stack holds the indices whose calls are pending, the next one first.\<close>

function include_loop :: "project_graph \<Rightarrow> bool \<Rightarrow> nat list \<Rightarrow> bool list \<Rightarrow> bool list result" where
  "include_loop g no_dependencies [] selected = Inr selected"
| "include_loop g no_dependencies (i # st) selected =
     (if \<not> i < length selected \<or> \<not> i < length (pg_dependencies g) \<or> \<not> i < length (pg_teardown g)
      then Inl Undefined_behaviour
      else if selected ! i then include_loop g no_dependencies st selected
      else if no_dependencies then include_loop g no_dependencies st (selected[i := True])
      else include_loop g no_dependencies
             (pg_dependencies g ! i @ (case pg_teardown g ! i of None \<Rightarrow> [] | Some t \<Rightarrow> [t]) @ st) (selected[i := True]))"
  by pat_completeness auto

definition unselected :: "bool list \<Rightarrow> nat set" where
  "unselected selected = {i. i < length selected \<and> \<not> selected ! i}"

lemma unselected_update:
  "i < length selected \<Longrightarrow> \<not> selected ! i \<Longrightarrow> card (unselected (selected[i := True])) < card (unselected selected)"
proof (rule psubset_card_mono)
  show "finite (unselected selected)" by (simp add: unselected_def)
qed (auto simp: unselected_def nth_list_update split: if_splits)

termination include_loop
  by (relation "measures [\<lambda>(g, nd, st, selected). card (unselected selected), \<lambda>(g, nd, st, selected). length st]")
    (auto intro: unselected_update)

definition Closure :: "project_graph \<Rightarrow> bool list \<Rightarrow> bool \<Rightarrow> bool list result" where
  "Closure g roots no_dependencies =
     (if length roots \<noteq> length (pg_declarations g)
      then Inl (Invalid_argument ''Native project selection mask shape rejected'')
      else include_loop g no_dependencies (filter (\<lambda>i. roots ! i) [0..<length roots])
             (replicate (length (pg_declarations g)) False))"

definition Select :: "project_graph \<Rightarrow> string list \<Rightarrow> bool \<Rightarrow> bool list result" where
  "Select g patterns no_dependencies = bindR (Roots g patterns) (\<lambda>roots. Closure g roots no_dependencies)"

section \<open>What the loops of the constructor accept\<close>

definition name_ok :: "string \<Rightarrow> bool" where
  "name_ok n \<longleftrightarrow> n \<noteq> [] \<and> length n \<le> 256 \<and> CHR 0x00 \<notin> set n"

lemma names_loop_iff:
  "names_loop ds i names = Inr m \<longleftrightarrow>
     (\<forall>d \<in> set ds. name_ok (pd_name d) \<and> names (pd_name d) = None) \<and> distinct (map pd_name ds) \<and>
     m = names ++ map_of (zip (map pd_name ds) [i..<i + length ds])"
proof (induction ds arbitrary: i names)
  case (Cons d ds)
  have eq: "names(pd_name d \<mapsto> i) ++ map_of (zip (map pd_name ds) ks)
      = names ++ map_of (zip (pd_name d # map pd_name ds) (i # ks))"
    if "distinct (map pd_name (d # ds))" "length ks = length ds" for ks
  proof -
    have "map_of (zip (map pd_name ds) ks) (pd_name d) = None"
      using that by (simp add: map_of_zip_is_None)
    then show ?thesis by (auto simp: map_add_def fun_eq_iff split: option.splits)
  qed
  have upt: "[i..<i + length (d # ds)] = i # [i + 1..<i + 1 + length ds]" by (simp add: upt_rec)
  have "names_loop (d # ds) i names = Inr m \<longleftrightarrow>
      name_ok (pd_name d) \<and> names (pd_name d) = None \<and> names_loop ds (i + 1) (names(pd_name d \<mapsto> i)) = Inr m"
    by (auto simp: name_ok_def)
  moreover define ks where ks: "ks = [i + 1..<i + 1 + length ds]"
  moreover have len: "length ks = length ds" unfolding ks length_upt by simp
  ultimately have "names_loop (d # ds) i names = Inr m \<longleftrightarrow>
      name_ok (pd_name d) \<and> names (pd_name d) = None \<and>
      (\<forall>d' \<in> set ds. name_ok (pd_name d') \<and> (names(pd_name d \<mapsto> i)) (pd_name d') = None) \<and> distinct (map pd_name ds) \<and>
      m = names(pd_name d \<mapsto> i) ++ map_of (zip (map pd_name ds) ks)"
    using Cons [of "i + 1" "names(pd_name d \<mapsto> i)"] unfolding ks [symmetric] by (simp only:)
  also have "\<dots> \<longleftrightarrow> (\<forall>d' \<in> set (d # ds). name_ok (pd_name d') \<and> names (pd_name d') = None) \<and> distinct (map pd_name (d # ds)) \<and>
      m = names(pd_name d \<mapsto> i) ++ map_of (zip (map pd_name ds) ks)"
    by (auto simp: image_iff split: if_splits)
  also have "\<dots> \<longleftrightarrow> (\<forall>d' \<in> set (d # ds). name_ok (pd_name d') \<and> names (pd_name d') = None) \<and> distinct (map pd_name (d # ds)) \<and>
      m = names ++ map_of (zip (map pd_name (d # ds)) (i # ks))"
    using eq [of ks] len by (intro conj_cong refl) simp
  finally show ?case by (simp only: upt ks)
qed auto

text \<open>The index of a declaration by its name.\<close>

definition position :: "project_declaration list \<Rightarrow> string \<rightharpoonup> nat" where
  "position ds = map_of (zip (map pd_name ds) [0..<length ds])"

lemma position_Some:
  "distinct (map pd_name ds) \<Longrightarrow> position ds n = Some i \<longleftrightarrow> i < length ds \<and> pd_name (ds ! i) = n"
  by (force simp: position_def map_of_eq_Some_iff set_zip)

lemma position_None: "position ds n = None \<longleftrightarrow> n \<notin> pd_name ` set ds"
  by (simp add: position_def map_of_zip_is_None)

lemma names_loop_position:
  "names_loop ds 0 Map.empty = Inr m \<longleftrightarrow>
     (\<forall>d \<in> set ds. name_ok (pd_name d)) \<and> distinct (map pd_name ds) \<and> m = position ds"
  by (auto simp: names_loop_iff position_def)

lemma dependency_loop_iff:
  "dependency_loop names i ns seen edges = Inr (ts, e) \<longleftrightarrow>
     map names ns = map Some ts \<and> i \<notin> set ts \<and> distinct ts \<and> set ts \<inter> seen = {} \<and> e = edges + length ns \<and>
     (ns = [] \<or> e \<le> 4096)"
proof (induction ns arbitrary: seen edges ts e)
  case (Cons n ns)
  show ?case
  proof (cases "names n")
    case (Some t)
    show ?thesis
    proof (cases ts)
      case Nil
      then show ?thesis using Some by (auto simp: Index_def bindR_eq_Inr)
    next
      case (Cons t' ts')
      have "dependency_loop names i (n # ns) seen edges = Inr (ts, e) \<longleftrightarrow>
        \<not> (t = i \<or> t \<in> seen \<or> 4096 < edges + 1) \<and> t' = t \<and> dependency_loop names i ns (insert t seen) (edges + 1) = Inr (ts', e)"
        using Some Cons by (auto simp: Index_def bindR_eq_Inr)
      then show ?thesis unfolding Cons.IH using Some Cons by auto
    qed
  qed (auto simp: Index_def)
qed auto

lemma teardown_of_iff:
  "teardown_of names i td = Inr t \<longleftrightarrow>
     (case td of None \<Rightarrow> t = None | Some n \<Rightarrow> \<exists>j. names n = Some j \<and> j \<noteq> i \<and> t = Some j)"
  by (auto simp: teardown_of_def Index_def split: option.splits)

definition declaration_ok :: "(string \<rightharpoonup> nat) \<Rightarrow> nat \<Rightarrow> project_declaration \<Rightarrow> nat list \<Rightarrow> nat option \<Rightarrow> bool" where
  "declaration_ok names i d ts t \<longleftrightarrow>
     map names (pd_dependencies d) = map Some ts \<and> i \<notin> set ts \<and> distinct ts \<and>
     (case pd_teardown d of None \<Rightarrow> t = None | Some n \<Rightarrow> \<exists>j. names n = Some j \<and> j \<noteq> i \<and> t = Some j)"

abbreviation edge_count :: "project_declaration list \<Rightarrow> nat" where
  "edge_count ds \<equiv> sum_list (map (\<lambda>d. length (pd_dependencies d)) ds)"

lemma edges_loop_iff:
  assumes "edges \<le> 4096"
  shows "edges_loop names ds i edges = Inr (deps, tds) \<longleftrightarrow>
     length deps = length ds \<and> length tds = length ds \<and> edges + edge_count ds \<le> 4096 \<and>
     (\<forall>k < length ds. declaration_ok names (i + k) (ds ! k) (deps ! k) (tds ! k))"
  using assms
proof (induction ds arbitrary: i edges deps tds)
  case Nil
  then show ?case by auto
next
  case (Cons d ds)
  show ?case
  proof (cases "deps = [] \<or> tds = []")
    case True
    then show ?thesis by (auto simp: bindR_eq_Inr)
  next
    case False
    then obtain ts deps' t tds' where eq: "deps = ts # deps'" "tds = t # tds'" by (metis list.exhaust)
    have all: "(\<forall>k < length (d # ds). declaration_ok names (i + k) ((d # ds) ! k) ((ts # deps') ! k) ((t # tds') ! k)) \<longleftrightarrow>
        declaration_ok names i d ts t \<and> (\<forall>k < length ds. declaration_ok names (i + 1 + k) (ds ! k) (deps' ! k) (tds' ! k))"
      by (auto simp: less_Suc_eq_0_disj)
    let ?e = "edges + length (pd_dependencies d)"
    have "edges_loop names (d # ds) i edges = Inr (deps, tds) \<longleftrightarrow>
        declaration_ok names i d ts t \<and> ?e \<le> 4096 \<and> edges_loop names ds (i + 1) ?e = Inr (deps', tds')"
      using Cons.prems
      by (auto simp: eq bindR_eq_Inr dependency_loop_iff teardown_of_iff declaration_ok_def)
    then show ?thesis using Cons.IH [of ?e "i + 1" deps' tds'] unfolding eq all by auto
  qed
qed

section \<open>The cycle check\<close>

definition edges_of :: "nat list list \<Rightarrow> nat rel" where
  "edges_of deps = {(i, j). i < length deps \<and> j \<in> set (deps ! i)}"

text \<open>The project whose call is under way and made the call on top of the stack.\<close>

fun caller :: "visit_frame list \<Rightarrow> nat option" where
  "caller [] = None"
| "caller (Leave i # st) = Some i"
| "caller (Enter i # st) = caller st"

fun called :: "visit_frame \<Rightarrow> nat" where
  "called (Enter i) = i"
| "called (Leave i) = i"

fun calls_ok :: "nat list list \<Rightarrow> visit_frame list \<Rightarrow> bool" where
  "calls_ok deps [] \<longleftrightarrow> True"
| "calls_ok deps (f # st) \<longleftrightarrow> calls_ok deps st \<and> (\<forall>p. caller st = Some p \<longrightarrow> (p, called f) \<in> edges_of deps)"

lemma caller_map_Enter [simp]: "caller (map Enter is @ st) = caller st"
  by (induction "is") auto

lemma calls_ok_map_Enter:
  "calls_ok deps (map Enter is @ st) \<longleftrightarrow>
     calls_ok deps st \<and> (\<forall>j \<in> set is. \<forall>p. caller st = Some p \<longrightarrow> (p, j) \<in> edges_of deps)"
  by (induction "is") auto

lemma calls_reach: "calls_ok deps st \<Longrightarrow> Leave i \<in> set st \<Longrightarrow> caller st = Some p \<Longrightarrow> (i, p) \<in> (edges_of deps)\<^sup>*"
proof (induction st arbitrary: p)
  case (Cons f st)
  show ?case
  proof (cases f)
    case (Enter j)
    then show ?thesis using Cons by auto
  next
    case (Leave j)
    show ?thesis
    proof (cases "i = j")
      case False
      then have "Leave i \<in> set st" using Cons.prems Leave by auto
      moreover obtain q where q: "caller st = Some q" using calculation by (induction st rule: caller.induct) auto
      ultimately have "(i, q) \<in> (edges_of deps)\<^sup>*" using Cons by auto
      moreover have "(q, j) \<in> edges_of deps" using Cons.prems q Leave by auto
      ultimately show ?thesis using Cons.prems Leave by (auto intro: rtrancl_into_rtrancl)
    qed (use Cons.prems Leave in auto)
  qed
qed simp

definition black :: "nat list \<Rightarrow> nat set" where
  "black colors = {i. i < length colors \<and> colors ! i = 2}"

definition done_ok :: "nat list list \<Rightarrow> nat set \<Rightarrow> bool" where
  "done_ok deps B \<longleftrightarrow> (\<forall>i \<in> B. edges_of deps `` {i} \<subseteq> B \<and> (i, i) \<notin> (edges_of deps)\<^sup>+)"

text \<open>Every call a project under way has still to see done is above it on the stack.\<close>

fun pending_ok :: "nat list list \<Rightarrow> nat set \<Rightarrow> visit_frame set \<Rightarrow> visit_frame list \<Rightarrow> bool" where
  "pending_ok deps B ahead [] \<longleftrightarrow> True"
| "pending_ok deps B ahead (f # st) \<longleftrightarrow>
     (case f of Enter _ \<Rightarrow> True | Leave i \<Rightarrow> edges_of deps `` {i} \<subseteq> B \<union> called ` ahead) \<and>
     pending_ok deps B (insert f ahead) st"

lemma pending_ok_mono:
  "pending_ok deps B ahead st \<Longrightarrow> B \<subseteq> B' \<Longrightarrow> called ` ahead \<subseteq> B' \<union> called ` ahead' \<Longrightarrow> pending_ok deps B' ahead' st"
proof (induction st arbitrary: ahead ahead')
  case (Cons f st)
  have "pending_ok deps B' (insert f ahead') st" by (rule Cons.IH [of "insert f ahead"]) (use Cons.prems in auto)
  moreover have "edges_of deps `` {i} \<subseteq> B' \<union> called ` ahead'" if "f = Leave i" for i
    using Cons.prems that by fastforce
  ultimately show ?case by (cases f) simp_all
qed simp

lemma pending_ok_map_Enter:
  "pending_ok deps B ahead (map Enter is @ st) \<longleftrightarrow> pending_ok deps B (Enter ` set is \<union> ahead) st"
proof (induction "is" arbitrary: ahead)
  case (Cons i "is")
  have "Enter ` set is \<union> insert (Enter i) ahead = Enter ` set (i # is) \<union> ahead" by auto
  then show ?case using Cons [of "insert (Enter i) ahead"] by simp
qed simp

definition visit_inv :: "nat list list \<Rightarrow> visit_frame list \<Rightarrow> nat list \<Rightarrow> bool" where
  "visit_inv deps st colors \<longleftrightarrow>
     length colors = length deps \<and> (\<forall>ts \<in> set deps. \<forall>t \<in> set ts. t < length deps) \<and>
     (\<forall>f \<in> set st. called f < length deps) \<and> set colors \<subseteq> {0, 1, 2} \<and>
     (\<forall>i < length deps. colors ! i = 1 \<longleftrightarrow> Leave i \<in> set st) \<and> distinct (filter (\<lambda>f. \<exists>i. f = Leave i) st) \<and>
     calls_ok deps st \<and> done_ok deps (black colors) \<and> pending_ok deps (black colors) {} st \<and>
     (\<forall>i < length deps. i \<in> black colors \<union> called ` set st)"

lemma done_ok_insert:
  assumes "done_ok deps B" "edges_of deps `` {i} \<subseteq> B" "i \<notin> B"
  shows "done_ok deps (insert i B)"
proof -
  have "(a, b) \<in> (edges_of deps)\<^sup>* \<Longrightarrow> a \<in> B \<Longrightarrow> b \<in> B" for a b
    by (induction rule: rtrancl_induct) (use assms(1) in \<open>auto simp: done_ok_def\<close>)
  then have "(i, i) \<notin> (edges_of deps)\<^sup>+" using assms(2,3) by (blast dest: tranclD)
  then show ?thesis using assms by (auto simp: done_ok_def)
qed

lemma visit_inv_Leave:
  assumes "visit_inv deps (Leave i # st) colors"
  shows "visit_inv deps st (colors[i := 2])"
proof -
  have i: "i < length deps" "length colors = length deps" "Leave i \<notin> set st" "colors ! i = 1"
    using assms by (auto simp: visit_inv_def)
  then have B: "black (colors[i := 2]) = insert i (black colors)" "i \<notin> black colors"
    by (auto simp: black_def nth_list_update)
  have "set (colors[i := 2]) \<subseteq> {0, 1, 2}"
    using assms set_update_subset_insert [of colors i 2] by (auto simp: visit_inv_def)
  moreover have "done_ok deps (insert i (black colors))"
    by (rule done_ok_insert) (use assms B in \<open>auto simp: visit_inv_def\<close>)
  moreover have "pending_ok deps (insert i (black colors)) {} st"
    by (rule pending_ok_mono [of _ "black colors" "{Leave i}"]) (use assms in \<open>auto simp: visit_inv_def\<close>)
  ultimately show ?thesis using assms i B by (auto simp: visit_inv_def nth_list_update)
qed

lemma visit_inv_black:
  assumes "visit_inv deps (Enter i # st) colors" "colors ! i = 2"
  shows "visit_inv deps st colors"
proof -
  have i: "i \<in> black colors" using assms by (auto simp: visit_inv_def black_def)
  have "pending_ok deps (black colors) {} st"
    by (rule pending_ok_mono [of _ "black colors" "{Enter i}"]) (use assms i in \<open>auto simp: visit_inv_def\<close>)
  then show ?thesis using assms i by (auto simp: visit_inv_def)
qed

lemma visit_inv_white:
  assumes "visit_inv deps (Enter i # st) colors" "colors ! i \<noteq> 1" "colors ! i \<noteq> 2"
  shows "visit_inv deps (map Enter (deps ! i) @ Leave i # st) (colors[i := 1])"
proof -
  have i: "i < length deps" "length colors = length deps" "Leave i \<notin> set st"
    using assms by (auto simp: visit_inv_def)
  then have B: "black (colors[i := 1]) = black colors" using assms(3) by (auto simp: black_def nth_list_update)
  have E: "edges_of deps `` {i} = set (deps ! i)" using i by (auto simp: edges_of_def)
  have "set (colors[i := 1]) \<subseteq> {0, 1, 2}"
    using assms(1) set_update_subset_insert [of colors i 1] by (auto simp: visit_inv_def)
  moreover have "calls_ok deps (map Enter (deps ! i) @ Leave i # st)"
    using assms(1) E by (auto simp: visit_inv_def calls_ok_map_Enter)
  moreover have "pending_ok deps (black colors) (insert (Leave i) (Enter ` set (deps ! i))) st"
    by (rule pending_ok_mono [of _ "black colors" "{Enter i}"]) (use assms in \<open>auto simp: visit_inv_def\<close>)
  then have "pending_ok deps (black colors) {} (map Enter (deps ! i) @ Leave i # st)"
    using E by (auto simp: pending_ok_map_Enter image_image)
  moreover have "filter (\<lambda>f. \<exists>i. f = Leave i) (map Enter ts) = []" for ts by (auto simp: filter_empty_conv)
  moreover have "\<forall>t \<in> set (deps ! i). t < length deps" using assms(1) i by (auto simp: visit_inv_def)
  ultimately show ?thesis using assms(1) i B by (auto simp: visit_inv_def nth_list_update)
qed

lemma gray_is_cycle:
  assumes "visit_inv deps (Enter i # st) colors" "colors ! i = 1"
  shows "\<not> acyclic (edges_of deps)"
proof -
  have "Leave i \<in> set st" using assms by (auto simp: visit_inv_def)
  moreover obtain p where p: "caller st = Some p" using calculation by (induction st rule: caller.induct) auto
  ultimately have "(i, p) \<in> (edges_of deps)\<^sup>*" using assms(1) by (auto simp: visit_inv_def intro: calls_reach)
  moreover have "(p, i) \<in> edges_of deps" using assms(1) p by (auto simp: visit_inv_def)
  ultimately show ?thesis by (auto simp: acyclic_def intro: rtrancl_into_trancl1)
qed

lemma visit_correct:
  "visit_inv deps st colors \<Longrightarrow>
     (case visit deps st colors of
        Inl e \<Rightarrow> e = Invalid_argument ''Native project dependency cycle'' \<and> \<not> acyclic (edges_of deps)
      | Inr _ \<Rightarrow> acyclic (edges_of deps))"
proof (induction deps st colors rule: visit.induct)
  case (1 deps colors)
  then have "(i, i) \<notin> (edges_of deps)\<^sup>+" if "i < length deps" for i
    using that by (auto simp: visit_inv_def done_ok_def)
  moreover have "i < length deps" if "(i, j) \<in> (edges_of deps)\<^sup>+" for i j
    using that by (auto simp: edges_of_def dest: tranclD)
  ultimately show ?case by (auto simp: acyclic_def)
next
  case (2 deps i st colors)
  then show ?case using visit_inv_Leave by simp
next
  case (3 deps i st colors)
  have "i < length colors" "i < length deps" using "3.prems" by (auto simp: visit_inv_def)
  then show ?case
    using 3 gray_is_cycle [of deps i st colors] visit_inv_black [of deps i st colors] visit_inv_white [of deps i st colors]
    by (cases "colors ! i = 1"; cases "colors ! i = 2") simp_all
qed

lemma visit_inv_start:
  assumes "\<forall>ts \<in> set deps. \<forall>t \<in> set ts. t < length deps"
  shows "visit_inv deps (map Enter [0..<length deps]) (replicate (length deps) 0)"
proof -
  have "calls_ok deps (map Enter is)" "pending_ok deps B A (map Enter is)" for "is" B A
    using calls_ok_map_Enter [of deps "is" "[]"] pending_ok_map_Enter [of deps B A "is" "[]"] by simp_all
  then show ?thesis using assms
    by (auto simp: visit_inv_def black_def done_ok_def filter_empty_conv image_image)
qed

lemma visit_accepts_acyclic:
  assumes "\<forall>ts \<in> set deps. \<forall>t \<in> set ts. t < length deps"
  shows "(\<exists>colors. visit deps (map Enter [0..<length deps]) (replicate (length deps) 0) = Inr colors) \<longleftrightarrow> acyclic (edges_of deps)"
  using visit_correct [OF visit_inv_start [OF assms]] by (auto split: sum.splits)

section \<open>Which configurations are accepted\<close>

text \<open>The rules for a configuration, in terms of the names it uses.\<close>

definition is_teardown :: "project_declaration list \<Rightarrow> string \<Rightarrow> bool" where
  "is_teardown ds n \<longleftrightarrow> (\<exists>d \<in> set ds. pd_teardown d = Some n)"

definition name_edges :: "project_declaration list \<Rightarrow> string rel" where
  "name_edges ds = {(pd_name d, n) | d n. d \<in> set ds \<and> n \<in> set (pd_dependencies d)}"

definition references_ok :: "project_declaration list \<Rightarrow> project_declaration \<Rightarrow> bool" where
  "references_ok ds d \<longleftrightarrow>
     set (pd_dependencies d) \<subseteq> pd_name ` set ds - {pd_name d} \<and> distinct (pd_dependencies d) \<and>
     (\<forall>n. pd_teardown d = Some n \<longrightarrow> n \<in> pd_name ` set ds - {pd_name d})"

definition teardowns_ok :: "project_declaration list \<Rightarrow> project_declaration \<Rightarrow> bool" where
  "teardowns_ok ds d \<longleftrightarrow>
     (is_teardown ds (pd_name d) \<longrightarrow> pd_dependencies d = [] \<and> pd_teardown d = None) \<and>
     (\<forall>n \<in> set (pd_dependencies d). \<not> is_teardown ds n)"

definition configuration_ok :: "project_declaration list \<Rightarrow> bool" where
  "configuration_ok ds \<longleftrightarrow>
     ds \<noteq> [] \<and> length ds \<le> 128 \<and> (\<forall>d \<in> set ds. name_ok (pd_name d)) \<and> distinct (map pd_name ds) \<and>
     (\<forall>d \<in> set ds. references_ok ds d) \<and> edge_count ds \<le> 4096 \<and>
     (\<forall>d \<in> set ds. teardowns_ok ds d) \<and> acyclic (name_edges ds)"

text \<open>The graph built from a configuration whose names are known.\<close>

definition indices :: "project_declaration list \<Rightarrow> string list \<Rightarrow> nat list" where
  "indices ds ns = map (\<lambda>n. the (position ds n)) ns"

definition graph_of :: "project_declaration list \<Rightarrow> project_graph" where
  "graph_of ds =
     (let tds = map (\<lambda>d. map_option (\<lambda>n. the (position ds n)) (pd_teardown d)) ds
      in \<lparr>pg_declarations = ds, pg_names = position ds, pg_dependencies = map (\<lambda>d. indices ds (pd_dependencies d)) ds,
          pg_teardown = tds, pg_teardowns = {t. Some t \<in> set tds}\<rparr>)"

lemma position_name: "distinct (map pd_name ds) \<Longrightarrow> i < length ds \<Longrightarrow> position ds (pd_name (ds ! i)) = Some i"
  by (simp add: position_Some)

lemma position_ex: "distinct (map pd_name ds) \<Longrightarrow> n \<in> pd_name ` set ds \<Longrightarrow> \<exists>i < length ds. position ds n = Some i \<and> pd_name (ds ! i) = n"
  by (auto simp: position_Some in_set_conv_nth)

lemma the_position_eq:
  assumes "distinct (map pd_name ds)" "n \<in> pd_name ` set ds"
  shows "the (position ds n) = j \<longleftrightarrow> j < length ds \<and> pd_name (ds ! j) = n"
proof -
  obtain i where i: "i < length ds" "position ds n = Some i" "pd_name (ds ! i) = n" using position_ex [OF assms] by blast
  then have "the (position ds n) = j \<longleftrightarrow> position ds n = Some j" by auto
  then show ?thesis using position_Some [OF assms(1)] by blast
qed

lemma declaration_ok_iff:
  assumes "distinct (map pd_name ds)" "i < length ds"
  shows "declaration_ok (position ds) i (ds ! i) ts t \<longleftrightarrow>
     references_ok ds (ds ! i) \<and> ts = indices ds (pd_dependencies (ds ! i)) \<and>
     t = map_option (\<lambda>n. the (position ds n)) (pd_teardown (ds ! i))"
proof -
  let ?d = "ds ! i" and ?p = "position ds"
  have known: "map ?p ns = map Some ts \<longleftrightarrow> set ns \<subseteq> pd_name ` set ds \<and> ts = indices ds ns" for ns ts
  proof (induction ns arbitrary: ts)
    case (Cons n ns)
    have "?p n = Some x \<longleftrightarrow> n \<in> pd_name ` set ds \<and> x = the (?p n)" for x
      using position_None [of ds n] by (cases "?p n") auto
    then show ?case using Cons by (cases ts) (auto simp: indices_def)
  qed (simp add: indices_def)
  have inj: "inj_on (\<lambda>n. the (?p n)) (pd_name ` set ds)"
    using position_ex [OF assms(1)] by (intro inj_onI) (metis option.sel)
  have dist: "distinct (indices ds ns) \<longleftrightarrow> distinct ns" "i \<in> set (indices ds ns) \<longleftrightarrow> pd_name ?d \<in> set ns"
    if "set ns \<subseteq> pd_name ` set ds" for ns
  proof -
    show "distinct (indices ds ns) \<longleftrightarrow> distinct ns"
      using inj_on_subset [OF inj that] by (simp add: indices_def distinct_map)
    show "i \<in> set (indices ds ns) \<longleftrightarrow> pd_name ?d \<in> set ns"
      using position_ex [OF assms(1)] position_name [OF assms] that unfolding indices_def by (force simp: image_iff)
  qed
  have td: "(case pd_teardown ?d of None \<Rightarrow> t = None | Some n \<Rightarrow> \<exists>j. ?p n = Some j \<and> j \<noteq> i \<and> t = Some j) \<longleftrightarrow>
      (\<forall>n. pd_teardown ?d = Some n \<longrightarrow> n \<in> pd_name ` set ds - {pd_name ?d}) \<and>
      t = map_option (\<lambda>n. the (?p n)) (pd_teardown ?d)"
  proof (cases "pd_teardown ?d")
    case (Some n)
    have "(\<exists>j. ?p n = Some j \<and> j \<noteq> i \<and> t = Some j) \<longleftrightarrow> n \<in> pd_name ` set ds \<and> n \<noteq> pd_name ?d \<and> t = Some (the (?p n))"
    proof (cases "n \<in> pd_name ` set ds")
      case True
      then obtain j where j: "?p n = Some j" "pd_name (ds ! j) = n" using position_ex [OF assms(1)] by blast
      then have "j = i \<longleftrightarrow> n = pd_name ?d" using position_name [OF assms] by (metis option.inject)
      then show ?thesis using j(1) True by auto
    next
      case False
      then have "?p n = None" by (simp add: position_None)
      then show ?thesis using False by simp
    qed
    then show ?thesis using Some by simp
  qed simp
  show ?thesis
    unfolding declaration_ok_def known td references_ok_def using dist [of "pd_dependencies ?d"] by auto
qed

lemma edges_loop_position:
  assumes "distinct (map pd_name ds)"
  shows "edges_loop (position ds) ds 0 0 = Inr (deps, tds) \<longleftrightarrow>
     (\<forall>d \<in> set ds. references_ok ds d) \<and> edge_count ds \<le> 4096 \<and>
     deps = pg_dependencies (graph_of ds) \<and> tds = pg_teardown (graph_of ds)"
proof -
  have "edges_loop (position ds) ds 0 0 = Inr (deps, tds) \<longleftrightarrow>
      length deps = length ds \<and> length tds = length ds \<and> edge_count ds \<le> 4096 \<and>
      (\<forall>k < length ds. references_ok ds (ds ! k) \<and> deps ! k = indices ds (pd_dependencies (ds ! k)) \<and>
         tds ! k = map_option (\<lambda>n. the (position ds n)) (pd_teardown (ds ! k)))"
    using edges_loop_iff [of 0 "position ds" ds 0 deps tds] declaration_ok_iff [OF assms] by auto
  then show ?thesis
    by (auto simp: graph_of_def Let_def list_eq_iff_nth_eq all_set_conv_all_nth)
qed

lemma trancl_image:
  assumes "(a, b) \<in> r\<^sup>+" "\<And>x y. (x, y) \<in> r \<Longrightarrow> (f x, f y) \<in> s"
  shows "(f a, f b) \<in> s\<^sup>+"
  using assms(1) by (induction rule: trancl_induct) (auto intro: assms(2) trancl_into_trancl)

lemma acyclic_names:
  assumes "distinct (map pd_name ds)" "\<forall>d \<in> set ds. references_ok ds d"
  shows "acyclic (edges_of (pg_dependencies (graph_of ds))) \<longleftrightarrow> acyclic (name_edges ds)"
proof -
  let ?E = "edges_of (pg_dependencies (graph_of ds))" and ?p = "\<lambda>n. the (position ds n)"
  have known: "?p n < length ds" "pd_name (ds ! ?p n) = n" if "d \<in> set ds" "n \<in> set (pd_dependencies d)" for d n
    using position_ex [OF assms(1), of n] assms(2) that by (force simp: references_ok_def)+
  have "(pd_name (ds ! i), pd_name (ds ! j)) \<in> name_edges ds" if ij: "(i, j) \<in> ?E" for i j
  proof -
    obtain n where n: "i < length ds" "n \<in> set (pd_dependencies (ds ! i))" "j = ?p n"
      using ij by (auto simp: edges_of_def graph_of_def indices_def Let_def)
    then have "pd_name (ds ! j) = n" using known(2) [of "ds ! i"] by simp
    then show ?thesis using n by (force simp: name_edges_def)
  qed
  moreover have "(?p m, ?p n) \<in> ?E" if mn: "(m, n) \<in> name_edges ds" for m n
  proof -
    obtain i where i: "i < length ds" "m = pd_name (ds ! i)" "n \<in> set (pd_dependencies (ds ! i))"
      using mn by (auto simp: name_edges_def in_set_conv_nth)
    then show ?thesis using position_name [OF assms(1)] by (auto simp: edges_of_def graph_of_def indices_def Let_def)
  qed
  ultimately have "(m, m) \<in> (name_edges ds)\<^sup>+ \<Longrightarrow> (?p m, ?p m) \<in> ?E\<^sup>+"
    "(i, i) \<in> ?E\<^sup>+ \<Longrightarrow> (pd_name (ds ! i), pd_name (ds ! i)) \<in> (name_edges ds)\<^sup>+" for m i
    using trancl_image [of m m "name_edges ds" ?p ?E] trancl_image [of i i ?E "\<lambda>i. pd_name (ds ! i)" "name_edges ds"]
    by simp_all
  then show ?thesis by (auto simp: acyclic_def)
qed

lemma graph_dependency:
  assumes "distinct (map pd_name ds)" "\<forall>d \<in> set ds. references_ok ds d" "i < length ds"
  shows "j \<in> set (pg_dependencies (graph_of ds) ! i) \<longleftrightarrow> j < length ds \<and> pd_name (ds ! j) \<in> set (pd_dependencies (ds ! i))"
proof -
  have known: "n \<in> pd_name ` set ds" if "n \<in> set (pd_dependencies (ds ! i))" for n
    using assms(2,3) that by (fastforce simp: references_ok_def)
  have "j \<in> set (pg_dependencies (graph_of ds) ! i) \<longleftrightarrow> (\<exists>n \<in> set (pd_dependencies (ds ! i)). the (position ds n) = j)"
    using assms(3) by (auto simp: graph_of_def Let_def indices_def)
  also have "\<dots> \<longleftrightarrow> (\<exists>n \<in> set (pd_dependencies (ds ! i)). j < length ds \<and> pd_name (ds ! j) = n)"
    using the_position_eq [OF assms(1) known] by (intro bex_cong) simp_all
  finally show ?thesis by blast
qed

lemma graph_teardown:
  assumes "distinct (map pd_name ds)" "\<forall>d \<in> set ds. references_ok ds d" "i < length ds"
  shows "pg_teardown (graph_of ds) ! i = Some j \<longleftrightarrow> j < length ds \<and> pd_teardown (ds ! i) = Some (pd_name (ds ! j))"
proof -
  have known: "n \<in> pd_name ` set ds" if "pd_teardown (ds ! i) = Some n" for n
    using assms(2,3) that by (fastforce simp: references_ok_def)
  have "pg_teardown (graph_of ds) ! i = Some j \<longleftrightarrow> (\<exists>n. pd_teardown (ds ! i) = Some n \<and> the (position ds n) = j)"
    using assms(3) by (auto simp: graph_of_def Let_def)
  also have "\<dots> \<longleftrightarrow> (\<exists>n. pd_teardown (ds ! i) = Some n \<and> j < length ds \<and> pd_name (ds ! j) = n)"
    using the_position_eq [OF assms(1) known] by blast
  finally show ?thesis by blast
qed

lemma graph_is_teardown:
  assumes "distinct (map pd_name ds)" "\<forall>d \<in> set ds. references_ok ds d"
  shows "i \<in> pg_teardowns (graph_of ds) \<longleftrightarrow> i < length ds \<and> is_teardown ds (pd_name (ds ! i))"
proof -
  let ?tds = "pg_teardown (graph_of ds)"
  have "i \<in> pg_teardowns (graph_of ds) \<longleftrightarrow> (\<exists>k < length ds. ?tds ! k = Some i)"
    by (auto simp: graph_of_def Let_def in_set_conv_nth)
  also have "\<dots> \<longleftrightarrow> (\<exists>k < length ds. i < length ds \<and> pd_teardown (ds ! k) = Some (pd_name (ds ! i)))"
    using graph_teardown [OF assms] by blast
  also have "\<dots> \<longleftrightarrow> i < length ds \<and> (\<exists>k < length ds. pd_teardown (ds ! k) = Some (pd_name (ds ! i)))" by blast
  finally show ?thesis unfolding is_teardown_def by (simp add: in_set_conv_nth Bex_def) blast
qed

lemma graph_lengths [simp]:
  "length (pg_dependencies (graph_of ds)) = length ds" "length (pg_teardown (graph_of ds)) = length ds"
  "pg_declarations (graph_of ds) = ds"
  by (simp_all add: graph_of_def Let_def)

lemma graph_teardowns_iff:
  assumes "distinct (map pd_name ds)" "\<forall>d \<in> set ds. references_ok ds d"
  shows "(\<forall>d \<in> set ds. teardowns_ok ds d) \<longleftrightarrow>
     (\<forall>t \<in> pg_teardowns (graph_of ds). pg_dependencies (graph_of ds) ! t = [] \<and> pg_teardown (graph_of ds) ! t = None) \<and>
     (\<forall>ts \<in> set (pg_dependencies (graph_of ds)). \<forall>t \<in> set ts. t \<notin> pg_teardowns (graph_of ds))"
proof -
  have empty: "pg_dependencies (graph_of ds) ! i = [] \<longleftrightarrow> pd_dependencies (ds ! i) = []"
    "pg_teardown (graph_of ds) ! i = None \<longleftrightarrow> pd_teardown (ds ! i) = None" if "i < length ds" for i
    using that by (auto simp: graph_of_def Let_def indices_def)
  have uses: "(\<forall>t \<in> set (pg_dependencies (graph_of ds) ! i). t \<notin> pg_teardowns (graph_of ds)) \<longleftrightarrow>
      (\<forall>n \<in> set (pd_dependencies (ds ! i)). \<not> is_teardown ds n)" if "i < length ds" for i
  proof -
    have known: "\<exists>j < length ds. pd_name (ds ! j) = n" if "n \<in> set (pd_dependencies (ds ! i))" for n
      using position_ex [OF assms(1), of n] assms(2) that \<open>i < length ds\<close> by (fastforce simp: references_ok_def)
    show ?thesis unfolding Ball_def graph_dependency [OF assms that] graph_is_teardown [OF assms] using known by metis
  qed
  have "(\<forall>t \<in> pg_teardowns (graph_of ds). pg_dependencies (graph_of ds) ! t = [] \<and> pg_teardown (graph_of ds) ! t = None) \<longleftrightarrow>
      (\<forall>i < length ds. is_teardown ds (pd_name (ds ! i)) \<longrightarrow> pd_dependencies (ds ! i) = [] \<and> pd_teardown (ds ! i) = None)"
    unfolding Ball_def graph_is_teardown [OF assms] using empty by blast
  moreover have "(\<forall>ts \<in> set (pg_dependencies (graph_of ds)). \<forall>t \<in> set ts. t \<notin> pg_teardowns (graph_of ds)) \<longleftrightarrow>
      (\<forall>i < length ds. \<forall>n \<in> set (pd_dependencies (ds ! i)). \<not> is_teardown ds n)"
    unfolding all_set_conv_all_nth [of "pg_dependencies (graph_of ds)"] graph_lengths
    by (intro all_cong1 imp_cong refl uses)
  ultimately show ?thesis unfolding teardowns_ok_def all_set_conv_all_nth [of ds] by blast
qed

lemma ProjectGraph_iff: "ProjectGraph ds = Inr g \<longleftrightarrow> configuration_ok ds \<and> g = graph_of ds"
proof (cases "distinct (map pd_name ds) \<and> (\<forall>d \<in> set ds. references_ok ds d)")
  case True
  let ?g = "graph_of ds"
  have range: "\<forall>ts \<in> set (pg_dependencies ?g). \<forall>t \<in> set ts. t < length (pg_dependencies ?g)"
    using graph_dependency [OF conjunct1 [OF True] conjunct2 [OF True]] by (metis graph_lengths(1) in_set_conv_nth)
  have vis: "(\<exists>c. visit (pg_dependencies ?g) (map Enter [0..<length ds]) (replicate (length ds) 0) = Inr c) \<longleftrightarrow> acyclic (name_edges ds)"
    using visit_accepts_acyclic [OF range] acyclic_names True by simp
  have td: "pg_teardowns ?g = {t. Some t \<in> set (pg_teardown ?g)}" by (simp add: graph_of_def Let_def)
  have g: "\<lparr>pg_declarations = ds, pg_names = position ds, pg_dependencies = pg_dependencies ?g, pg_teardown = pg_teardown ?g,
      pg_teardowns = {t. Some t \<in> set (pg_teardown ?g)}\<rparr> = ?g" by (simp add: graph_of_def Let_def)
  have "ProjectGraph ds = Inr g \<longleftrightarrow>
      ds \<noteq> [] \<and> length ds \<le> 128 \<and> (\<forall>d \<in> set ds. name_ok (pd_name d)) \<and> edge_count ds \<le> 4096 \<and>
      (\<forall>d \<in> set ds. teardowns_ok ds d) \<and>
      (\<exists>c. visit (pg_dependencies ?g) (map Enter [0..<length ds]) (replicate (length ds) 0) = Inr c) \<and> g = ?g"
    using True
    unfolding ProjectGraph_def graph_teardowns_iff [OF conjunct1 [OF True] conjunct2 [OF True]]
    by (auto simp: bindR_eq_Inr names_loop_position edges_loop_position Let_def td g split: if_splits)
  then show ?thesis using True vis by (auto simp: configuration_ok_def)
next
  case False
  then show ?thesis
    by (auto simp: ProjectGraph_def bindR_eq_Inr names_loop_position edges_loop_position configuration_ok_def Let_def split: if_splits)
qed

section \<open>Selection\<close>

text \<open>What a project brings with it: its dependencies and its teardown.\<close>

definition brings :: "project_graph \<Rightarrow> nat rel" where
  "brings g = {(i, j). i < length (pg_declarations g) \<and> (j \<in> set (pg_dependencies g ! i) \<or> pg_teardown g ! i = Some j)}"

definition chosen :: "bool list \<Rightarrow> nat set" where
  "chosen selected = {i. i < length selected \<and> selected ! i}"

definition graph_wf :: "project_graph \<Rightarrow> bool" where
  "graph_wf g \<longleftrightarrow>
     length (pg_dependencies g) = length (pg_declarations g) \<and> length (pg_teardown g) = length (pg_declarations g) \<and>
     (\<forall>(i, j) \<in> brings g. j < length (pg_declarations g)) \<and> acyclic (edges_of (pg_dependencies g)) \<and>
     (\<forall>i \<in> pg_teardowns g. i < length (pg_declarations g) \<and> pg_dependencies g ! i = [] \<and> pg_teardown g ! i = None) \<and>
     (\<forall>ts \<in> set (pg_dependencies g). \<forall>t \<in> set ts. t \<notin> pg_teardowns g) \<and>
     pg_teardowns g = {t. Some t \<in> set (pg_teardown g)}"

lemma chosen_update: "i < length selected \<Longrightarrow> chosen (selected[i := True]) = insert i (chosen selected)"
  by (auto simp: chosen_def nth_list_update)

lemma chosen_replicate [simp]: "chosen (replicate n False) = {}"
  by (auto simp: chosen_def)

lemma chosen_eqI: "length xs = length ys \<Longrightarrow> chosen xs = chosen ys \<Longrightarrow> xs = ys"
  by (auto simp: chosen_def list_eq_iff_nth_eq set_eq_iff)

lemma ProjectGraph_wf:
  assumes "ProjectGraph ds = Inr g"
  shows "graph_wf g" "pg_declarations g = ds"
proof -
  have c: "configuration_ok ds" and g: "g = graph_of ds" using assms by (simp_all add: ProjectGraph_iff)
  then have ok: "distinct (map pd_name ds)" "\<forall>d \<in> set ds. references_ok ds d" by (simp_all add: configuration_ok_def)
  have "acyclic (edges_of (pg_dependencies g))" using c acyclic_names [OF ok] g by (simp add: configuration_ok_def)
  moreover have "\<forall>(i, j) \<in> brings g. j < length ds"
    unfolding g brings_def using graph_dependency [OF ok] graph_teardown [OF ok] by auto
  moreover have "(\<forall>t \<in> pg_teardowns g. pg_dependencies g ! t = [] \<and> pg_teardown g ! t = None) \<and>
     (\<forall>ts \<in> set (pg_dependencies g). \<forall>t \<in> set ts. t \<notin> pg_teardowns g)"
    using graph_teardowns_iff [OF ok] c unfolding g configuration_ok_def by blast
  moreover have "pg_teardowns g = {t. Some t \<in> set (pg_teardown g)}" by (simp add: g graph_of_def Let_def)
  moreover have "\<forall>i \<in> pg_teardowns g. i < length ds" using graph_is_teardown [OF ok] g by simp
  ultimately show "graph_wf g" by (simp add: graph_wf_def g)
  show "pg_declarations g = ds" by (simp add: g)
qed

lemma include_all:
  assumes "graph_wf g" "length selected = length (pg_declarations g)" "set st \<subseteq> {..<length (pg_declarations g)}"
    "\<forall>i \<in> chosen selected. brings g `` {i} \<subseteq> chosen selected \<union> set st"
  shows "\<exists>selected'. include_loop g False st selected = Inr selected' \<and> length selected' = length selected \<and>
    chosen selected' = (brings g)\<^sup>* `` (chosen selected \<union> set st)"
  using assms
proof (induction g False st selected rule: include_loop.induct)
  case (1 g selected)
  have "b \<in> chosen selected" if "(a, b) \<in> (brings g)\<^sup>*" "a \<in> chosen selected" for a b
    using that by (induction rule: rtrancl_induct) (use 1 in auto)
  then show ?case by auto
next
  case (2 g i st selected)
  have i: "i < length selected" "i < length (pg_dependencies g)" "i < length (pg_teardown g)"
    using "2.prems" by (auto simp: graph_wf_def)
  show ?case
  proof (cases "selected ! i")
    case True
    have "i \<in> chosen selected" using i True by (simp add: chosen_def)
    then have "chosen selected \<union> set (i # st) = chosen selected \<union> set st" by auto
    then show ?thesis using "2.hyps"(1) "2.prems" i True by simp
  next
    case False
    let ?more = "pg_dependencies g ! i @ (case pg_teardown g ! i of None \<Rightarrow> [] | Some t \<Rightarrow> [t])"
    have more: "set ?more = brings g `` {i}" using i "2.prems"(2) by (auto simp: brings_def split: option.splits)
    have "\<exists>selected'. include_loop g False (?more @ st) (selected[i := True]) = Inr selected' \<and>
        length selected' = length (selected[i := True]) \<and>
        chosen selected' = (brings g)\<^sup>* `` (chosen (selected[i := True]) \<union> set (?more @ st))"
      unfolding append_assoc
    proof (rule "2.hyps"(3))
      show "set (pg_dependencies g ! i @ (case pg_teardown g ! i of None \<Rightarrow> [] | Some t \<Rightarrow> [t]) @ st) \<subseteq> {..<length (pg_declarations g)}"
        using "2.prems"(1,3) more by (auto simp: graph_wf_def split: option.splits)
      show "\<forall>j \<in> chosen (selected[i := True]). brings g `` {j} \<subseteq> chosen (selected[i := True]) \<union>
          set (pg_dependencies g ! i @ (case pg_teardown g ! i of None \<Rightarrow> [] | Some t \<Rightarrow> [t]) @ st)"
        using "2.prems"(4) more unfolding chosen_update [OF i(1)] by auto
    qed (use i False "2.prems" in auto)
    moreover have "(brings g)\<^sup>* `` (chosen (selected[i := True]) \<union> set (?more @ st)) = (brings g)\<^sup>* `` (chosen selected \<union> set (i # st))"
    proof -
      have "set (?more @ st) = brings g `` {i} \<union> set st" using more by (metis set_append)
      then show ?thesis unfolding chosen_update [OF i(1)] by (auto intro: converse_rtrancl_into_rtrancl)
    qed
    ultimately show ?thesis using i False by (simp add: append_assoc)
  qed
qed

lemma include_roots:
  assumes "graph_wf g" "length selected = length (pg_declarations g)" "set st \<subseteq> {..<length (pg_declarations g)}"
  shows "\<exists>selected'. include_loop g True st selected = Inr selected' \<and> length selected' = length selected \<and>
    chosen selected' = chosen selected \<union> set st"
  using assms(2,3)
proof (induction st arbitrary: selected)
  case (Cons i st)
  have i: "i < length selected" "i < length (pg_dependencies g)" "i < length (pg_teardown g)"
    using Cons.prems assms(1) by (auto simp: graph_wf_def)
  show ?case
  proof (cases "selected ! i")
    case True
    then have "insert i (chosen selected) = chosen selected" using i by (auto simp: chosen_def)
    then show ?thesis using Cons.IH [of selected] Cons.prems i True by auto
  next
    case False
    then show ?thesis using Cons.IH [of "selected[i := True]"] Cons.prems i by (auto simp: chosen_update)
  qed
qed simp

lemma Closure_chosen:
  assumes "graph_wf g" "length roots = length (pg_declarations g)"
  shows "\<exists>selected. Closure g roots nd = Inr selected \<and> length selected = length roots \<and>
    chosen selected = (if nd then chosen roots else (brings g)\<^sup>* `` chosen roots)"
proof -
  have roots: "set (filter (\<lambda>i. roots ! i) [0..<length roots]) = chosen roots" by (auto simp: chosen_def)
  then have sub: "set (filter (\<lambda>i. roots ! i) [0..<length roots]) \<subseteq> {..<length (pg_declarations g)}"
    using assms(2) by (auto simp: chosen_def)
  show ?thesis
    using include_all [OF assms(1) _ sub, of "replicate (length (pg_declarations g)) False"]
      include_roots [OF assms(1) _ sub, of "replicate (length (pg_declarations g)) False"] assms(2)
    unfolding roots Closure_def by (cases nd) simp_all
qed

section \<open>Roots\<close>

definition matches_name :: "string \<Rightarrow> string \<Rightarrow> bool" where
  "matches_name pattern name \<longleftrightarrow> glob (map byte pattern) (map byte name)"

lemma roots_loop_chosen:
  assumes "roots_loop g ps roots any = Inr (roots', any')" "length roots = length (pg_declarations g)"
    "\<forall>d \<in> set (pg_declarations g). length (pd_name d) \<le> 256"
  shows "length roots' = length roots \<and>
    (\<forall>i < length roots. roots' ! i \<longleftrightarrow> roots ! i \<or> (\<exists>p \<in> set ps. matches_name p (pd_name (pg_declarations g ! i))))"
  using assms(1,2)
proof (induction ps arbitrary: roots any)
  case (Cons p ps)
  then obtain m where m: "ProjectPattern p = Inr m" by (auto simp: bindR_eq_Inr)
  let ?hits = "map (\<lambda>d. pattern_Matches m (pd_name d)) (pg_declarations g)"
  have "roots_loop g ps (map2 (\<or>) roots ?hits) (any \<or> True \<in> set ?hits) = Inr (roots', any')"
    using Cons.prems m by (simp add: Let_def split: if_splits)
  then have IH: "length roots' = length (map2 (\<or>) roots ?hits) \<and> (\<forall>i < length (map2 (\<or>) roots ?hits).
      roots' ! i \<longleftrightarrow> map2 (\<or>) roots ?hits ! i \<or> (\<exists>p \<in> set ps. matches_name p (pd_name (pg_declarations g ! i))))"
    by (rule Cons.IH) (use Cons.prems in simp)
  have "?hits ! i \<longleftrightarrow> matches_name p (pd_name (pg_declarations g ! i))" if "i < length (pg_declarations g)" for i
    using that assms(3) Matches_glob [OF m] by (simp add: matches_name_def)
  then show ?case using IH Cons.prems(2) by auto
qed simp

text \<open>The projects named on the command line, or those enabled by default.\<close>

definition root_of :: "project_graph \<Rightarrow> string list \<Rightarrow> nat \<Rightarrow> bool" where
  "root_of g patterns i \<longleftrightarrow> i < length (pg_declarations g) \<and>
     (if patterns = [] then pd_default_enabled (pg_declarations g ! i) \<and> \<not> IsTeardown g i
      else \<exists>p \<in> set patterns. matches_name p (pd_name (pg_declarations g ! i)))"

lemma Roots_chosen:
  assumes "Roots g patterns = Inr roots" "\<forall>d \<in> set (pg_declarations g). length (pd_name d) \<le> 256"
  shows "length roots = length (pg_declarations g) \<and> chosen roots = {i. root_of g patterns i}"
proof (cases "patterns = []")
  case True
  then have "roots = map (\<lambda>i. pd_default_enabled (pg_declarations g ! i) \<and> \<not> IsTeardown g i) [0..<length (pg_declarations g)]"
    using assms(1) by (simp add: Roots_def Let_def)
  then show ?thesis using True by (auto simp: chosen_def root_of_def)
next
  case False
  then obtain any where "roots_loop g patterns (replicate (length (pg_declarations g)) False) False = Inr (roots, any)"
    using assms(1) by (auto simp: Roots_def Let_def bindR_eq_Inr split: if_splits)
  then show ?thesis using roots_loop_chosen [OF _ _ assms(2)] False by (auto simp: chosen_def root_of_def)
qed

section \<open>Properties\<close>

text \<open>The example of the witnesses: a project with a dependency and a teardown.\<close>

definition example_projects :: "project_declaration list" where
  "example_projects =
     [\<lparr>pd_name = ''web'', pd_dependencies = [''setup''], pd_teardown = Some ''clean'', pd_default_enabled = True\<rparr>,
      \<lparr>pd_name = ''setup'', pd_dependencies = [], pd_teardown = None, pd_default_enabled = False\<rparr>,
      \<lparr>pd_name = ''clean'', pd_dependencies = [], pd_teardown = None, pd_default_enabled = True\<rparr>]"

definition example_graph :: project_graph where
  "example_graph =
     \<lparr>pg_declarations = example_projects, pg_names = [''web'' \<mapsto> 0, ''setup'' \<mapsto> 1, ''clean'' \<mapsto> 2],
      pg_dependencies = [[1], [], []], pg_teardown = [Some 2, None, None], pg_teardowns = {2}\<rparr>"

lemma example_graph: "ProjectGraph example_projects = Inr example_graph"
  by (simp add: example_projects_def example_graph_def ProjectGraph_def Index_def teardown_of_def Let_def upt_rec
      numeral_2_eq_2 numeral_3_eq_3 fun_eq_iff)

text \<open>
  C7: the constructor accepts a configuration exactly when it obeys the rules stated by name: one to 128
  projects with distinct admissible names, dependencies and teardowns that are other declared projects,
  at most 4096 dependencies, teardowns that nothing depends on and that have neither dependencies nor a
  teardown, and no cycle of dependencies. Whatever it rejects, it rejects by one of its own errors: the
  depth-first search ends and stays within its vectors.
\<close>

theorem configuration_accepted:
  "((\<exists>g. ProjectGraph ds = Inr g) \<longleftrightarrow> configuration_ok ds) \<and> safeR (\<lambda>g. g = graph_of ds) (ProjectGraph ds)"
proof
  show "(\<exists>g. ProjectGraph ds = Inr g) \<longleftrightarrow> configuration_ok ds" by (simp add: ProjectGraph_iff)
  have names: "\<not> fatal e" if "names_loop ds i names = Inl e" for e ds i names
    using that by (induction ds i names rule: names_loop.induct) (auto split: if_splits)
  have dep: "\<not> fatal e" if "dependency_loop names i ns seen edges = Inl e" for e names i ns seen edges
    using that
    by (induction names i ns seen edges rule: dependency_loop.induct)
      (auto simp: bindR_eq_Inl Index_def split: if_splits option.splits)
  have edges: "\<not> fatal e" if "edges_loop names ds i edges = Inl e" for e names ds i edges
    using that
  proof (induction ds arbitrary: i edges)
    case (Cons d ds)
    then show ?case
      by (auto simp: bindR_eq_Inl Index_def teardown_of_def dest: dep split: if_splits option.splits)
  qed simp
  have "\<not> fatal e" if e: "ProjectGraph ds = Inl e" for e
  proof (cases "\<exists>names deps tds. names_loop ds 0 Map.empty = Inr names \<and> edges_loop names ds 0 0 = Inr (deps, tds)")
    case True
    then have ok: "distinct (map pd_name ds)" "\<forall>d \<in> set ds. references_ok ds d"
      and eq: "names_loop ds 0 Map.empty = Inr (position ds)"
      "edges_loop (position ds) ds 0 0 = Inr (pg_dependencies (graph_of ds), pg_teardown (graph_of ds))"
      by (auto simp: names_loop_position edges_loop_position)
    have "\<forall>ts \<in> set (pg_dependencies (graph_of ds)). \<forall>t \<in> set ts. t < length (pg_dependencies (graph_of ds))"
      using graph_dependency [OF ok] by (metis graph_lengths(1) in_set_conv_nth)
    from visit_correct [OF visit_inv_start [OF this]] show ?thesis
      using e eq by (auto simp: ProjectGraph_def Let_def bindR_eq_Inl split: if_splits sum.splits)
  next
    case False
    then show ?thesis using e by (auto simp: ProjectGraph_def bindR_eq_Inl dest: names edges split: if_splits)
  qed
  then show "safeR (\<lambda>g. g = graph_of ds) (ProjectGraph ds)" by (intro wpRI) (auto simp: ProjectGraph_iff)
qed

text \<open>
  C8: what a run selects. From an accepted graph, \<open>Select\<close> returns the projects reachable from the roots
  along dependencies and teardowns, and only those; without dependencies, the roots themselves. The roots
  are the projects whose name some pattern describes, or, without patterns, the enabled ones that are
  no teardown.
\<close>

theorem selection_exact:
  assumes "ProjectGraph ds = Inr g" "Select g patterns nd = Inr selected"
  shows "length selected = length ds \<and>
    {j. j < length ds \<and> selected ! j} = (if nd then Id else (brings g)\<^sup>*) `` {i. root_of g patterns i}"
proof -
  obtain roots where r: "Roots g patterns = Inr roots" "Closure g roots nd = Inr selected"
    using assms(2) by (auto simp: Select_def bindR_eq_Inr)
  have "configuration_ok ds" using assms(1) by (simp add: ProjectGraph_iff)
  then have roots: "length roots = length (pg_declarations g)" "chosen roots = {i. root_of g patterns i}"
    using Roots_chosen [OF r(1)] ProjectGraph_wf(2) [OF assms(1)] by (auto simp: configuration_ok_def name_ok_def)
  have "length selected = length roots" "chosen selected = (if nd then chosen roots else (brings g)\<^sup>* `` chosen roots)"
    using Closure_chosen [OF ProjectGraph_wf(1) [OF assms(1)] roots(1), of nd] unfolding r(2) by simp_all
  moreover have "chosen selected = {j. j < length selected \<and> selected ! j}" by (simp add: chosen_def)
  ultimately show ?thesis using roots ProjectGraph_wf(2) [OF assms(1)] by (cases nd) simp_all
qed

lemma example_fields:
  "length (pg_declarations example_graph) = 3" "pg_dependencies example_graph = [[1], [], []]"
  "pg_teardown example_graph = [Some 2, None, None]"
  by (simp_all add: example_graph_def example_projects_def)

lemma example_select: "Select example_graph [] False = Inr [True, True, True]" "Select example_graph [] True = Inr [True, False, False]"
proof -
  have r: "Roots example_graph [] = Inr [True, False, False]"
    by (simp add: Roots_def example_graph_def example_projects_def IsTeardown_def Let_def)
  have f: "filter (\<lambda>i. [True, False, False] ! i) [0..<3] = [0]" by (simp add: numeral_3_eq_3)
  have "include_loop example_graph False [0] [False, False, False] = Inr [True, True, True]"
    "include_loop example_graph True [0] [False, False, False] = Inr [True, False, False]"
    by (simp_all add: example_fields)
  then have "Closure example_graph [True, False, False] False = Inr [True, True, True]"
    "Closure example_graph [True, False, False] True = Inr [True, False, False]"
    using f by (simp_all add: Closure_def example_fields numeral_3_eq_3 del: include_loop.simps)
  then show "Select example_graph [] False = Inr [True, True, True]" "Select example_graph [] True = Inr [True, False, False]"
    using r by (simp_all add: Select_def)
qed

theorem selection_exact_witness:
  "{j. j < length example_projects \<and> [True, True, True] ! j} = (brings example_graph)\<^sup>* `` {i. root_of example_graph [] i} \<and>
   {j. j < length example_projects \<and> [True, False, False] ! j} = {i. root_of example_graph [] i}"
  using selection_exact [OF example_graph example_select(1)] selection_exact [OF example_graph example_select(2)] by simp

end
