(* ===== verification/ProjectPool.thy ===== *)
theory ProjectPool
  imports ProjectGraph Machines
begin

text \<open>
  The scheduling of projects: the class \<open>SerialProjectPlan\<close> of \<open>native/runner/project_plan.h\<close>, which runs
  one project at a time, and the class \<open>ProjectPool\<close> of \<open>native/runner/project_pool.h\<close>, which runs up to
  eight. The two classes repeat the same search for the next project; it is written once, over the
  test \<open>ready\<close> that the pool's caller passes and that the serial plan does not have. The map \<open>active_\<close>
  is a list of pairs in the order of its keys: a new key is the largest. Generations are checked
  against \<open>uint64_t\<close> by the code; worker numbers and process identifiers are arguments.
\<close>

datatype project_state = PNotSelected | PPending | PRunning | PPassed | PFailed | PBlocked | PInterrupted | PNotRun

datatype project_outcome = XPassed | XFailed | XInterrupted

record project_result =
  pr_state :: project_state
  pr_dependency :: "nat option"
  pr_reason :: string

record admission =
  ad_index :: nat
  ad_generation :: nat
  ad_teardown :: bool

record active_project =
  ap_admission :: admission
  ap_worker :: "int option"
  ap_outcome :: "project_outcome option"
  ap_started :: bool

record serial_plan =
  sp_graph :: project_graph
  sp_results :: "project_result list"
  sp_active :: "active_project option"
  sp_nonce :: nat
  sp_stopped :: bool
  sp_no_dependencies :: bool

record pool_worker =
  pw_index :: nat
  pw_pid :: int

record pool_owner =
  po_admission :: admission
  po_worker :: "pool_worker option"
  po_outcome :: "project_outcome option"
  po_started :: bool

record project_pool =
  pl_retired :: "admission option list"
  pl_canceled :: "admission option list"
  pl_graph :: project_graph
  pl_results :: "project_result list"
  pl_active :: "(nat \<times> pool_owner) list"
  pl_highest_worker :: nat
  pl_pids :: "int set"
  pl_limit :: nat
  pl_nonce :: nat
  pl_no_dependencies :: bool
  pl_stopped :: bool

section \<open>The search for the next project\<close>

definition fresh_result :: project_result where
  "fresh_result = \<lparr>pr_state = PNotSelected, pr_dependency = None, pr_reason = []\<rparr>"

definition plan_teardown :: "project_graph \<Rightarrow> bool \<Rightarrow> nat \<Rightarrow> bool" where
  "plan_teardown g no_dependencies i \<longleftrightarrow> \<not> no_dependencies \<and> IsTeardown g i"

definition unsettled :: "project_result \<Rightarrow> bool" where
  "unsettled r \<longleftrightarrow> pr_state r = PPending \<or> pr_state r = PRunning"

text \<open>Whether a dependency is still waited for, and the first one that did not pass.\<close>

definition dependency_state :: "project_graph \<Rightarrow> bool \<Rightarrow> project_result list \<Rightarrow> nat \<Rightarrow> (bool \<times> nat option) result" where
  "dependency_state g no_dependencies results i =
     (if no_dependencies then Inr (False, None)
      else bindR (Dependencies g i) (\<lambda>deps.
        if list_ex (\<lambda>d. \<not> d < length results) deps then Inl Undefined_behaviour
        else Inr (list_ex (\<lambda>d. unsettled (results ! d)) deps,
                  find (\<lambda>d. \<not> unsettled (results ! d) \<and> pr_state (results ! d) \<noteq> PPassed) deps)))"

fun scan :: "project_graph \<Rightarrow> bool \<Rightarrow> (nat \<Rightarrow> bool) \<Rightarrow> nat list \<Rightarrow> project_result list \<Rightarrow> bool \<Rightarrow>
    (nat option \<times> project_result list \<times> bool) result" where
  "scan g no_dependencies ready [] results blocked = Inr (None, results, blocked)"
| "scan g no_dependencies ready (i # is) results blocked =
     (if pr_state (results ! i) \<noteq> PPending \<or> plan_teardown g no_dependencies i
      then scan g no_dependencies ready is results blocked
      else bindR (dependency_state g no_dependencies results i) (\<lambda>(waiting, failed).
        case failed of
          Some d \<Rightarrow> scan g no_dependencies ready is
            (results[i := \<lparr>pr_state = PBlocked, pr_dependency = failed, pr_reason = ''Native project dependency did not pass''\<rparr>]) True
        | None \<Rightarrow> if \<not> waiting \<and> ready i then Inr (Some i, results, blocked)
                   else scan g no_dependencies ready is results blocked))"

definition pending :: "project_result list \<Rightarrow> nat set" where
  "pending results = {i. i < length results \<and> pr_state (results ! i) = PPending}"

lemma finite_pending [simp]: "finite (pending results)"
  by (simp add: pending_def)

lemma scan_length:
  "scan g nd ready is results blocked = Inr (found, results', blocked') \<Longrightarrow> length results' = length results"
  by (induction "is" arbitrary: results blocked)
    (auto simp: bindR_eq_Inr split: if_splits option.splits)

lemma pending_update: "pr_state r \<noteq> PPending \<Longrightarrow> pending (results[i := r]) = pending results - {i}"
  by (cases "i < length results") (auto simp: pending_def nth_list_update split: if_splits)

lemma scan_pending:
  assumes "scan g nd ready is results blocked = Inr (found, results', blocked')" "set is \<subseteq> {..<length results}"
  shows "pending results' \<subseteq> pending results" "blocked' \<Longrightarrow> blocked \<or> pending results' \<subset> pending results"
proof -
  have "pending results' \<subseteq> pending results \<and> (blocked' \<longrightarrow> blocked \<or> pending results' \<subset> pending results)"
    using assms
  proof (induction "is" arbitrary: results blocked)
    case (Cons i "is")
    show ?case
    proof (cases "pr_state (results ! i) \<noteq> PPending \<or> plan_teardown g nd i")
      case False
      obtain w f where d: "dependency_state g nd results i = Inr (w, f)" using Cons.prems(1) False by (auto simp: bindR_eq_Inr)
      show ?thesis
      proof (cases f)
        case (Some d')
        let ?r = "results[i := \<lparr>pr_state = PBlocked, pr_dependency = f, pr_reason = ''Native project dependency did not pass''\<rparr>]"
        have "scan g nd ready is ?r True = Inr (found, results', blocked')" using Cons.prems(1) False d Some by simp
        then have "pending results' \<subseteq> pending ?r" using Cons.IH [of ?r True] Cons.prems(2) by simp
        moreover have "pending ?r = pending results - {i}" by (simp add: pending_update)
        moreover have "i \<in> pending results" using False Cons.prems(2) by (simp add: pending_def)
        ultimately show ?thesis by auto
      next
        case None
        then show ?thesis using Cons.IH [of results blocked] Cons.prems False d by (auto split: if_splits)
      qed
    qed (use Cons in simp)
  qed simp
  then show "pending results' \<subseteq> pending results" "blocked' \<Longrightarrow> blocked \<or> pending results' \<subset> pending results" by auto
qed

function next_project :: "project_graph \<Rightarrow> bool \<Rightarrow> (nat \<Rightarrow> bool) \<Rightarrow> project_result list \<Rightarrow> (nat option \<times> project_result list) result" where
  "next_project g no_dependencies ready results =
     bindR (scan g no_dependencies ready [0..<length results] results False) (\<lambda>(found, results', blocked).
       if found \<noteq> None then Inr (found, results')
       else if blocked then next_project g no_dependencies ready results'
       else if list_ex (\<lambda>i. \<not> plan_teardown g no_dependencies i \<and> unsettled (results' ! i)) [0..<length results']
       then Inr (None, results')
       else Inr (find (\<lambda>i. plan_teardown g no_dependencies i \<and> pr_state (results' ! i) = PPending \<and> ready i) [0..<length results'], results'))"
  by pat_completeness auto

termination
proof (relation "measure (\<lambda>(g, nd, ready, results). card (pending results))", goal_cases)
  case (2 g nd ready results x found y results' blocked)
  then show ?case using scan_pending(2) [of g nd ready "[0..<length results]" results False found results' blocked]
    by (auto intro: psubset_card_mono simp: atLeast0LessThan)
qed simp

declare next_project.simps [simp del]

section \<open>The serial plan\<close>

type_synonym 'a plan_op = "serial_plan \<Rightarrow> ('a \<times> serial_plan) result"

definition selected_results :: "bool list \<Rightarrow> project_result list" where
  "selected_results selected = map (\<lambda>b. if b then fresh_result\<lparr>pr_state := PPending\<rparr> else fresh_result) selected"

definition Initialize :: "bool list \<Rightarrow> serial_plan \<Rightarrow> serial_plan result" where
  "Initialize selected p =
     (if length selected \<noteq> length (sp_results p) then Inl (Invalid_argument ''Native project plan selection shape rejected'')
      else bindR (if sp_no_dependencies p then Inr selected else Closure (sp_graph p) selected False) (\<lambda>closure.
        if closure \<noteq> selected then Inl (Invalid_argument ''Native project plan selection omits dependency/teardown closure'')
        else Inr (p\<lparr>sp_results := selected_results selected\<rparr>)))"

definition empty_plan :: "project_graph \<Rightarrow> bool \<Rightarrow> serial_plan" where
  "empty_plan g no_dependencies =
     \<lparr>sp_graph = g, sp_results = replicate (length (pg_declarations g)) fresh_result, sp_active = None, sp_nonce = 0,
      sp_stopped = False, sp_no_dependencies = no_dependencies\<rparr>"

definition SerialProjectPlan :: "project_graph \<Rightarrow> string list \<Rightarrow> bool \<Rightarrow> serial_plan result" where
  "SerialProjectPlan g names no_dependencies =
     bindR (Select g names no_dependencies) (\<lambda>selected. Initialize selected (empty_plan g no_dependencies))"

definition SerialProjectPlan_selection :: "project_graph \<Rightarrow> bool list \<Rightarrow> bool \<Rightarrow> serial_plan result" where
  "SerialProjectPlan_selection g selected no_dependencies = Initialize selected (empty_plan g no_dependencies)"

definition plan_Admit :: "nat \<Rightarrow> admission plan_op" where
  "plan_Admit i p =
     (if sp_nonce p = u64_max then Inl (Overflow_error ''Native project generation exhausted'')
      else let a = \<lparr>ad_index = i, ad_generation = sp_nonce p + 1, ad_teardown = plan_teardown (sp_graph p) (sp_no_dependencies p) i\<rparr>
           in Inr (a, p\<lparr>sp_nonce := sp_nonce p + 1,
                        sp_active := Some \<lparr>ap_admission = a, ap_worker = None, ap_outcome = None, ap_started = False\<rparr>,
                        sp_results := (sp_results p)[i := (sp_results p ! i)\<lparr>pr_state := PRunning\<rparr>]\<rparr>))"

definition plan_Next :: "admission option plan_op" where
  "plan_Next p =
     (if sp_active p \<noteq> None \<or> sp_stopped p then Inr (None, p)
      else bindR (next_project (sp_graph p) (sp_no_dependencies p) (\<lambda>_. True) (sp_results p)) (\<lambda>(found, results).
        case found of
          None \<Rightarrow> Inr (None, p\<lparr>sp_results := results\<rparr>)
        | Some i \<Rightarrow> bindR (plan_Admit i (p\<lparr>sp_results := results\<rparr>)) (\<lambda>(a, p). Inr (Some a, p))))"

definition plan_Current :: "serial_plan \<Rightarrow> nat \<Rightarrow> bool" where
  "plan_Current p generation \<longleftrightarrow>
     generation \<noteq> 0 \<and> (case sp_active p of None \<Rightarrow> False | Some a \<Rightarrow> ad_generation (ap_admission a) = generation)"

fun outcome_state :: "project_outcome \<Rightarrow> project_state" where
  "outcome_state XPassed = PPassed"
| "outcome_state XFailed = PFailed"
| "outcome_state XInterrupted = PInterrupted"

definition plan_Retire :: "serial_plan \<Rightarrow> serial_plan" where
  "plan_Retire p =
     (case sp_active p of
        None \<Rightarrow> p
      | Some a \<Rightarrow>
          (case (ap_worker a, ap_outcome a) of
             (None, Some out) \<Rightarrow>
               let i = ad_index (ap_admission a)
               in p\<lparr>sp_results := (sp_results p)[i := (sp_results p ! i)\<lparr>pr_state := outcome_state out\<rparr>], sp_active := None\<rparr>
           | _ \<Rightarrow> p))"

definition plan_WorkerStarted :: "nat \<Rightarrow> int \<Rightarrow> bool plan_op" where
  "plan_WorkerStarted generation pid p =
     (case sp_active p of
        None \<Rightarrow> Inr (False, p)
      | Some a \<Rightarrow>
          if \<not> plan_Current p generation \<or> pid \<le> 0 \<or> ap_worker a \<noteq> None \<or> ap_outcome a \<noteq> None then Inr (False, p)
          else Inr (True, p\<lparr>sp_active := Some (a\<lparr>ap_worker := Some pid, ap_started := True\<rparr>)\<rparr>))"

definition plan_WorkerExited :: "nat \<Rightarrow> int \<Rightarrow> bool plan_op" where
  "plan_WorkerExited generation pid p =
     (case sp_active p of
        None \<Rightarrow> Inr (False, p)
      | Some a \<Rightarrow>
          if \<not> plan_Current p generation \<or> ap_worker a \<noteq> Some pid then Inr (False, p)
          else Inr (True, plan_Retire (p\<lparr>sp_active := Some (a\<lparr>ap_worker := None\<rparr>)\<rparr>)))"

definition plan_Complete :: "nat \<Rightarrow> project_outcome \<Rightarrow> bool plan_op" where
  "plan_Complete generation out p =
     (case sp_active p of
        None \<Rightarrow> Inr (False, p)
      | Some a \<Rightarrow>
          if \<not> plan_Current p generation \<or> ap_outcome a \<noteq> None \<or> \<not> ap_started a then Inr (False, p)
          else Inr (True, plan_Retire (p\<lparr>sp_active := Some (a\<lparr>ap_outcome := Some out\<rparr>)\<rparr>)))"

definition not_run :: "string \<Rightarrow> project_result" where
  "not_run reason = \<lparr>pr_state = PNotRun, pr_dependency = None, pr_reason = reason\<rparr>"

definition stop_pending :: "string \<Rightarrow> project_result list \<Rightarrow> project_result list" where
  "stop_pending reason results = map (\<lambda>r. if pr_state r = PPending then not_run reason else r) results"

definition plan_Stop :: "string \<Rightarrow> serial_plan \<Rightarrow> serial_plan result" where
  "plan_Stop reason p =
     (if 8192 < length reason then Inl (Invalid_argument ''Native project stop reason capacity exceeded'')
      else if sp_stopped p then Inr p
      else let p = p\<lparr>sp_stopped := True\<rparr>;
               p = (case sp_active p of
                      Some a \<Rightarrow> if ap_started a then p
                                 else p\<lparr>sp_results := (sp_results p)[ad_index (ap_admission a) := not_run reason], sp_active := None\<rparr>
                    | None \<Rightarrow> p)
           in Inr (p\<lparr>sp_results := stop_pending reason (sp_results p)\<rparr>))"

definition plan_Done :: "serial_plan \<Rightarrow> bool" where
  "plan_Done p \<longleftrightarrow> sp_active p = None \<and> list_all (\<lambda>r. \<not> unsettled r) (sp_results p)"

definition plan_Physical :: "serial_plan \<Rightarrow> bool" where
  "plan_Physical p \<longleftrightarrow> (case sp_active p of None \<Rightarrow> False | Some a \<Rightarrow> ap_worker a \<noteq> None)"

section \<open>The pool\<close>

type_synonym 'a pool_op = "project_pool \<Rightarrow> ('a \<times> project_pool) result"

definition ProjectPool :: "project_graph \<Rightarrow> bool list \<Rightarrow> bool \<Rightarrow> nat \<Rightarrow> project_pool result" where
  "ProjectPool g selected no_dependencies limit =
     (let n = length (pg_declarations g);
          omits = Invalid_argument ''Native project pool selection omits dependency/teardown closure''
      in if limit = 0 \<or> 8 < limit then Inl (Invalid_argument ''Native parallel project workers require1..8'')
         else if length selected \<noteq> n then Inl omits
         else bindR (if no_dependencies then Inr selected else Closure g selected False) (\<lambda>closure.
           if closure \<noteq> selected then Inl omits
           else Inr \<lparr>pl_retired = replicate n None, pl_canceled = replicate n None, pl_graph = g,
                     pl_results = selected_results selected, pl_active = [], pl_highest_worker = 0, pl_pids = {},
                     pl_limit = limit, pl_nonce = 0, pl_no_dependencies = no_dependencies, pl_stopped = False\<rparr>))"

definition pool_Admit :: "nat \<Rightarrow> admission pool_op" where
  "pool_Admit i p =
     (if pl_nonce p = u64_max then Inl (Overflow_error ''Native project pool generation exhausted'')
      else let a = \<lparr>ad_index = i, ad_generation = pl_nonce p + 1, ad_teardown = plan_teardown (pl_graph p) (pl_no_dependencies p) i\<rparr>
           in Inr (a, p\<lparr>pl_nonce := pl_nonce p + 1,
                        pl_active := pl_active p @
                          [(ad_generation a, \<lparr>po_admission = a, po_worker = None, po_outcome = None, po_started = False\<rparr>)],
                        pl_results := (pl_results p)[i := (pl_results p ! i)\<lparr>pr_state := PRunning\<rparr>]\<rparr>))"

definition pool_Next :: "(nat \<Rightarrow> bool) \<Rightarrow> admission option pool_op" where
  "pool_Next ready p =
     (if pl_stopped p \<or> pl_limit p \<le> length (pl_active p) then Inr (None, p)
      else bindR (next_project (pl_graph p) (pl_no_dependencies p) ready (pl_results p)) (\<lambda>(found, results).
        case found of
          None \<Rightarrow> Inr (None, p\<lparr>pl_results := results\<rparr>)
        | Some i \<Rightarrow> bindR (pool_Admit i (p\<lparr>pl_results := results\<rparr>)) (\<lambda>(a, p). Inr (Some a, p))))"

definition set_owner :: "nat \<Rightarrow> pool_owner \<Rightarrow> (nat \<times> pool_owner) list \<Rightarrow> (nat \<times> pool_owner) list" where
  "set_owner generation o' active = map (\<lambda>(k, x). (k, if k = generation then o' else x)) active"

definition pool_Retire :: "nat \<Rightarrow> project_pool \<Rightarrow> project_pool" where
  "pool_Retire generation p =
     (case map_of (pl_active p) generation of
        None \<Rightarrow> p
      | Some x \<Rightarrow>
          (case (po_worker x, po_outcome x) of
             (None, Some out) \<Rightarrow>
               let i = ad_index (po_admission x)
               in p\<lparr>pl_retired := (pl_retired p)[i := Some (po_admission x)],
                    pl_results := (pl_results p)[i := (pl_results p ! i)\<lparr>pr_state := outcome_state out\<rparr>],
                    pl_active := filter (\<lambda>(k, y). k \<noteq> generation) (pl_active p)\<rparr>
           | _ \<Rightarrow> p))"

definition pool_WorkerStarted :: "nat \<Rightarrow> nat \<Rightarrow> int \<Rightarrow> bool pool_op" where
  "pool_WorkerStarted generation worker pid p =
     (case map_of (pl_active p) generation of
        None \<Rightarrow> Inr (False, p)
      | Some x \<Rightarrow>
          if worker = 0 \<or> pid \<le> 0 \<or> po_worker x \<noteq> None \<or> po_outcome x \<noteq> None \<or> worker \<le> pl_highest_worker p \<or> pid \<in> pl_pids p
          then Inr (False, p)
          else Inr (True, p\<lparr>pl_active := set_owner generation
                              (x\<lparr>po_worker := Some \<lparr>pw_index = worker, pw_pid = pid\<rparr>, po_started := True\<rparr>) (pl_active p),
                            pl_highest_worker := worker, pl_pids := insert pid (pl_pids p)\<rparr>))"

definition pool_WorkerExited :: "nat \<Rightarrow> nat \<Rightarrow> int \<Rightarrow> bool pool_op" where
  "pool_WorkerExited generation worker pid p =
     (case map_of (pl_active p) generation of
        None \<Rightarrow> Inr (False, p)
      | Some x \<Rightarrow>
          if po_worker x \<noteq> Some \<lparr>pw_index = worker, pw_pid = pid\<rparr> then Inr (False, p)
          else Inr (True, pool_Retire generation
                 (p\<lparr>pl_active := set_owner generation (x\<lparr>po_worker := None\<rparr>) (pl_active p), pl_pids := pl_pids p - {pid}\<rparr>)))"

definition pool_Complete :: "nat \<Rightarrow> project_outcome \<Rightarrow> bool pool_op" where
  "pool_Complete generation out p =
     (case map_of (pl_active p) generation of
        None \<Rightarrow> Inr (False, p)
      | Some x \<Rightarrow>
          if \<not> po_started x \<or> po_outcome x \<noteq> None then Inr (False, p)
          else Inr (True, pool_Retire generation
                 (p\<lparr>pl_active := set_owner generation (x\<lparr>po_outcome := Some out\<rparr>) (pl_active p)\<rparr>)))"

definition cancel_unstarted :: "string \<Rightarrow> project_pool \<Rightarrow> project_pool" where
  "cancel_unstarted reason p =
     foldl (\<lambda>p (k, x).
         if po_started x then p
         else let a = po_admission x
              in p\<lparr>pl_results := (pl_results p)[ad_index a := not_run reason],
                   pl_canceled := (pl_canceled p)[ad_index a := Some a],
                   pl_active := filter (\<lambda>(k', y). k' \<noteq> k) (pl_active p)\<rparr>)
       p (pl_active p)"

definition pool_Stop :: "string \<Rightarrow> project_pool \<Rightarrow> project_pool result" where
  "pool_Stop reason p =
     (if 8192 < length reason then Inl (Invalid_argument ''Native project pool stop reason capacity exceeded'')
      else if pl_stopped p then Inr p
      else let p = cancel_unstarted reason (p\<lparr>pl_stopped := True\<rparr>)
           in Inr (p\<lparr>pl_results := stop_pending reason (pl_results p)\<rparr>))"

text \<open>The observers: \<open>Same\<close> compares all the fields of two admissions.\<close>

definition Reserved :: "project_pool \<Rightarrow> admission \<Rightarrow> bool" where
  "Reserved p a \<longleftrightarrow> (case map_of (pl_active p) (ad_generation a) of None \<Rightarrow> False | Some x \<Rightarrow> po_admission x = a)"

definition ReservedBeforeStart :: "project_pool \<Rightarrow> admission \<Rightarrow> bool" where
  "ReservedBeforeStart p a \<longleftrightarrow>
     (case map_of (pl_active p) (ad_generation a) of
        None \<Rightarrow> False
      | Some x \<Rightarrow> po_admission x = a \<and> \<not> po_started x \<and> po_worker x = None \<and> po_outcome x = None)"

definition pool_Retired :: "project_pool \<Rightarrow> admission \<Rightarrow> bool" where
  "pool_Retired p a \<longleftrightarrow> ad_index a < length (pl_retired p) \<and> pl_retired p ! ad_index a = Some a"

definition CanceledBeforeStart :: "project_pool \<Rightarrow> admission \<Rightarrow> bool" where
  "CanceledBeforeStart p a \<longleftrightarrow> ad_index a < length (pl_canceled p) \<and> pl_canceled p ! ad_index a = Some a"

definition StartedWorkerExited :: "project_pool \<Rightarrow> admission \<Rightarrow> bool" where
  "StartedWorkerExited p a \<longleftrightarrow>
     (case map_of (pl_active p) (ad_generation a) of
        None \<Rightarrow> False
      | Some x \<Rightarrow> po_admission x = a \<and> po_started x \<and> po_worker x = None \<and> po_outcome x = None)"

definition pool_Done :: "project_pool \<Rightarrow> bool" where
  "pool_Done p \<longleftrightarrow> pl_active p = [] \<and> list_all (\<lambda>r. \<not> unsettled r) (pl_results p)"

definition pool_Physical :: "project_pool \<Rightarrow> nat" where
  "pool_Physical p = card (pl_pids p)"

section \<open>What the search does\<close>

text \<open>The search only turns pending projects into blocked ones.\<close>

definition blocks :: "project_result list \<Rightarrow> project_result list \<Rightarrow> bool" where
  "blocks results results' \<longleftrightarrow> length results' = length results \<and>
     (\<forall>i < length results. results' ! i = results ! i \<or> pr_state (results ! i) = PPending \<and> pr_state (results' ! i) = PBlocked)"

lemma blocks_refl [simp]: "blocks results results"
  by (simp add: blocks_def)

lemma blocks_trans: "blocks a b \<Longrightarrow> blocks b c \<Longrightarrow> blocks a c"
  unfolding blocks_def by (metis project_state.distinct(27))

lemma blocks_update: "i < length results \<Longrightarrow> pr_state (results ! i) = PPending \<Longrightarrow> pr_state r = PBlocked \<Longrightarrow> blocks results (results[i := r])"
  by (auto simp: blocks_def nth_list_update)

definition settled_dependencies :: "project_graph \<Rightarrow> project_result list \<Rightarrow> nat \<Rightarrow> bool" where
  "settled_dependencies g results i \<longleftrightarrow> (\<forall>d \<in> set (pg_dependencies g ! i). pr_state (results ! d) = PPassed)"

lemma wf_dependency: "graph_wf g \<Longrightarrow> i < length (pg_declarations g) \<Longrightarrow> d \<in> set (pg_dependencies g ! i) \<Longrightarrow> d < length (pg_declarations g)"
  by (auto simp: graph_wf_def brings_def)

lemma dependency_state_eq:
  assumes "graph_wf g" "length results = length (pg_declarations g)" "i < length results"
  shows "dependency_state g nd results i =
    (if nd then Inr (False, None)
     else Inr (\<exists>d \<in> set (pg_dependencies g ! i). unsettled (results ! d),
       find (\<lambda>d. \<not> unsettled (results ! d) \<and> pr_state (results ! d) \<noteq> PPassed) (pg_dependencies g ! i)))"
proof -
  have "length (pg_dependencies g) = length (pg_declarations g)" using assms(1) by (simp add: graph_wf_def)
  then show ?thesis
    using assms wf_dependency [OF assms(1), of i]
    by (auto simp: dependency_state_def Dependencies_def atR_def list_ex_iff)
qed

definition waits :: "project_graph \<Rightarrow> bool \<Rightarrow> project_result list \<Rightarrow> nat \<Rightarrow> bool" where
  "waits g nd results i \<longleftrightarrow> \<not> nd \<and> (\<exists>d \<in> set (pg_dependencies g ! i). unsettled (results ! d))"

definition scan_post :: "project_graph \<Rightarrow> bool \<Rightarrow> (nat \<Rightarrow> bool) \<Rightarrow> nat list \<Rightarrow> nat option \<Rightarrow> project_result list \<Rightarrow> bool \<Rightarrow> bool" where
  "scan_post g nd ready is found results blocked' \<longleftrightarrow>
     (case found of
        Some i \<Rightarrow> i \<in> set is \<and> pr_state (results ! i) = PPending \<and> \<not> plan_teardown g nd i \<and> ready i \<and>
                   (nd \<or> settled_dependencies g results i)
      | None \<Rightarrow> \<not> blocked' \<longrightarrow>
          (\<forall>i \<in> set is. pr_state (results ! i) = PPending \<longrightarrow> \<not> plan_teardown g nd i \<longrightarrow> ready i \<longrightarrow> waits g nd results i))"

lemma blocked_stays: "scan g nd ready is results True = Inr (found, results', blocked) \<Longrightarrow> blocked"
  by (induction "is" arbitrary: results) (auto simp: bindR_eq_Inr split: if_splits option.splits)

lemma scan_unchanged:
  "scan g nd ready is results blocked = Inr (found, results', False) \<Longrightarrow> results' = results"
  by (induction "is" arbitrary: results blocked)
    (auto simp: bindR_eq_Inr dest: blocked_stays split: if_splits option.splits)

lemma scan_correct:
  assumes "graph_wf g" "length results = length (pg_declarations g)" "set is \<subseteq> {..<length results}"
  shows "\<exists>found results' blocked'. scan g nd ready is results blocked = Inr (found, results', blocked') \<and>
    blocks results results' \<and> scan_post g nd ready is found results' blocked'"
  using assms(2-)
proof (induction "is" arbitrary: results blocked)
  case Nil
  then show ?case by (simp add: scan_post_def)
next
  case (Cons i "is")
  have i: "i < length results" and prems: "set is \<subseteq> {..<length results}" using Cons.prems by auto
  have d: "dependency_state g nd results i =
    (if nd then Inr (False, None)
     else Inr (\<exists>d \<in> set (pg_dependencies g ! i). unsettled (results ! d),
       find (\<lambda>d. \<not> unsettled (results ! d) \<and> pr_state (results ! d) \<noteq> PPassed) (pg_dependencies g ! i)))"
    using dependency_state_eq [OF assms(1) Cons.prems(1) i] .
  have more: "\<exists>found results' blocked'. scan g nd ready is results b = Inr (found, results', blocked') \<and>
      blocks results results' \<and> scan_post g nd ready (i # is) found results' blocked'"
    if "\<not> (pr_state (results ! i) = PPending \<and> \<not> plan_teardown g nd i \<and> ready i \<and> \<not> waits g nd results i)" for b
  proof -
    obtain found results' blocked' where s: "scan g nd ready is results b = Inr (found, results', blocked')"
      "blocks results results'" "scan_post g nd ready is found results' blocked'"
      using Cons.IH [OF Cons.prems(1) prems, of b] by blast
    have "scan_post g nd ready (i # is) found results' blocked'"
    proof (cases "found = None \<and> \<not> blocked'")
      case True
      then have "results' = results" using s(1) by (auto intro: scan_unchanged)
      then show ?thesis using s(3) True that by (auto simp: scan_post_def)
    qed (use s(3) in \<open>auto simp: scan_post_def split: option.splits\<close>)
    then show ?thesis using s by blast
  qed
  show ?case
  proof (cases "pr_state (results ! i) \<noteq> PPending \<or> plan_teardown g nd i")
    case True
    then show ?thesis using more [of blocked] by auto
  next
    case pend: False
    show ?thesis
    proof (cases "\<not> nd \<and> (\<exists>d \<in> set (pg_dependencies g ! i). \<not> unsettled (results ! d) \<and> pr_state (results ! d) \<noteq> PPassed)")
      case True
      then obtain e where e: "find (\<lambda>d. \<not> unsettled (results ! d) \<and> pr_state (results ! d) \<noteq> PPassed) (pg_dependencies g ! i) = Some e"
        by (cases "find (\<lambda>d. \<not> unsettled (results ! d) \<and> pr_state (results ! d) \<noteq> PPassed) (pg_dependencies g ! i)")
          (auto simp: find_None_iff)
      let ?r = "results[i := \<lparr>pr_state = PBlocked, pr_dependency = Some e, pr_reason = ''Native project dependency did not pass''\<rparr>]"
      obtain found results' blocked' where s: "scan g nd ready is ?r True = Inr (found, results', blocked')"
        "blocks ?r results'" "scan_post g nd ready is found results' blocked'"
        using Cons.IH [of ?r True] Cons.prems(1) prems by auto
      have "blocks results results'" using blocks_trans [OF blocks_update s(2)] i pend by simp
      moreover have "scan_post g nd ready (i # is) found results' blocked'"
        using s(3) blocked_stays [OF s(1)] by (auto simp: scan_post_def split: option.splits)
      ultimately show ?thesis using s(1) pend True e d by auto
    next
      case False
      then have none: "\<not> nd \<Longrightarrow> find (\<lambda>d. \<not> unsettled (results ! d) \<and> pr_state (results ! d) \<noteq> PPassed) (pg_dependencies g ! i) = None"
        by (auto simp: find_None_iff)
      show ?thesis
      proof (cases "ready i \<and> \<not> waits g nd results i")
        case True
        then have "nd \<or> settled_dependencies g results i" using False by (auto simp: settled_dependencies_def waits_def)
        then show ?thesis using True pend none d by (auto simp: scan_post_def waits_def)
      next
        case wait: False
        have "scan g nd ready (i # is) results blocked = scan g nd ready is results blocked"
          using wait pend none d by (auto simp: waits_def)
        then show ?thesis using more [of blocked] wait by metis
      qed
    qed
  qed
qed

text \<open>A project may start when its dependencies passed; a teardown when nothing else is left to run.\<close>

definition admissible :: "project_graph \<Rightarrow> bool \<Rightarrow> project_result list \<Rightarrow> nat \<Rightarrow> bool" where
  "admissible g nd results i \<longleftrightarrow>
     nd \<or> (if IsTeardown g i then \<forall>j < length results. \<not> IsTeardown g j \<longrightarrow> \<not> unsettled (results ! j)
           else settled_dependencies g results i)"

definition idle :: "project_graph \<Rightarrow> bool \<Rightarrow> (nat \<Rightarrow> bool) \<Rightarrow> project_result list \<Rightarrow> bool" where
  "idle g nd ready results \<longleftrightarrow>
     (\<forall>i \<in> pending results. ready i \<longrightarrow>
        (if plan_teardown g nd i then \<exists>j < length results. \<not> plan_teardown g nd j \<and> unsettled (results ! j)
         else waits g nd results i))"

definition search_post :: "project_graph \<Rightarrow> bool \<Rightarrow> (nat \<Rightarrow> bool) \<Rightarrow> nat option \<Rightarrow> project_result list \<Rightarrow> bool" where
  "search_post g nd ready found results \<longleftrightarrow>
     (case found of
        Some i \<Rightarrow> i \<in> pending results \<and> ready i \<and> admissible g nd results i
      | None \<Rightarrow> idle g nd ready results)"

lemma find_Some_iff_mem: "find P xs = Some x \<Longrightarrow> x \<in> set xs \<and> P x"
  by (auto simp: find_Some_iff)

lemma next_project_correct:
  assumes "graph_wf g" "length results = length (pg_declarations g)"
  shows "\<exists>found results'. next_project g nd ready results = Inr (found, results') \<and> blocks results results' \<and>
    search_post g nd ready found results'"
  using assms(2)
proof (induction "card (pending results)" arbitrary: results rule: less_induct)
  case less
  obtain found results' blocked' where s: "scan g nd ready [0..<length results] results False = Inr (found, results', blocked')"
    "blocks results results'" "scan_post g nd ready [0..<length results] found results' blocked'"
    using scan_correct [OF assms(1) less.prems, of "[0..<length results]" nd ready False] by (auto simp: atLeast0LessThan)
  have len: "length results' = length results" using s(2) by (simp add: blocks_def)
  have next_eq: "next_project g nd ready results =
    (if found \<noteq> None then Inr (found, results')
     else if blocked' then next_project g nd ready results'
     else if list_ex (\<lambda>i. \<not> plan_teardown g nd i \<and> unsettled (results' ! i)) [0..<length results']
     then Inr (None, results')
     else Inr (find (\<lambda>i. plan_teardown g nd i \<and> pr_state (results' ! i) = PPending \<and> ready i) [0..<length results'], results'))"
    by (subst next_project.simps) (simp add: s(1))
  show ?case
  proof (cases found)
    case (Some i)
    then have "search_post g nd ready found results'"
      using s(3) len by (auto simp: scan_post_def search_post_def pending_def admissible_def plan_teardown_def)
    then show ?thesis using next_eq s(2) Some by simp
  next
    case None
    show ?thesis
    proof (cases blocked')
      case True
      then have "card (pending results') < card (pending results)"
        using scan_pending(2) [OF s(1)] by (auto intro!: psubset_card_mono simp: atLeast0LessThan)
      then show ?thesis using less.hyps [of results'] less.prems len next_eq None True blocks_trans [OF s(2)] by auto
    next
      case False
      let ?busy = "list_ex (\<lambda>i. \<not> plan_teardown g nd i \<and> unsettled (results' ! i)) [0..<length results']"
      let ?found = "if ?busy then None
        else find (\<lambda>i. plan_teardown g nd i \<and> pr_state (results' ! i) = PPending \<and> ready i) [0..<length results']"
      have post: "\<forall>i < length results'. pr_state (results' ! i) = PPending \<longrightarrow> \<not> plan_teardown g nd i \<longrightarrow> ready i \<longrightarrow> waits g nd results' i"
        using s(3) None False len by (simp add: scan_post_def)
      have "search_post g nd ready ?found results'"
      proof (cases ?found)
        case none: None
        have "idle g nd ready results'"
          using none post by (auto simp: idle_def pending_def find_None_iff list_ex_iff split: if_splits)
        then show ?thesis using none by (simp add: search_post_def)
      next
        case (Some i)
        then have "\<not> ?busy" by (auto split: if_splits)
        moreover have "i < length results' \<and> plan_teardown g nd i \<and> pr_state (results' ! i) = PPending \<and> ready i"
          using Some find_Some_iff_mem [of _ "[0..<length results']" i] by (auto split: if_splits)
        ultimately show ?thesis unfolding Some
          by (auto simp: search_post_def pending_def admissible_def plan_teardown_def list_ex_iff)
      qed
      then show ?thesis using next_eq s(2) None False by (auto split: if_splits)
    qed
  qed
qed

section \<open>The order of execution\<close>

definition has_run :: "project_result \<Rightarrow> bool" where
  "has_run r \<longleftrightarrow> pr_state r \<in> {PRunning, PPassed, PFailed, PInterrupted}"

definition order_ok :: "project_graph \<Rightarrow> bool \<Rightarrow> project_result list \<Rightarrow> bool" where
  "order_ok g nd results \<longleftrightarrow> length results = length (pg_declarations g) \<and>
     (\<forall>i < length results. has_run (results ! i) \<longrightarrow> admissible g nd results i)"

text \<open>What has passed or settled stays so.\<close>

definition advances :: "project_result list \<Rightarrow> project_result list \<Rightarrow> bool" where
  "advances results results' \<longleftrightarrow> length results' = length results \<and>
     (\<forall>i < length results. (pr_state (results ! i) = PPassed \<longrightarrow> pr_state (results' ! i) = PPassed) \<and>
        (\<not> unsettled (results ! i) \<longrightarrow> \<not> unsettled (results' ! i)))"

lemma advances_update:
  "i < length results \<Longrightarrow> unsettled (results ! i) \<Longrightarrow> advances results (results[i := r])"
  by (auto simp: advances_def nth_list_update unsettled_def)

lemma advances_blocks: "blocks results results' \<Longrightarrow> advances results results'"
  by (auto simp: advances_def blocks_def unsettled_def)

lemma advances_stop: "advances results (stop_pending reason results)"
  by (auto simp: advances_def stop_pending_def unsettled_def not_run_def)

lemma admissible_mono:
  assumes "graph_wf g" "length results = length (pg_declarations g)" "i < length results" "advances results results'" "admissible g nd results i"
  shows "admissible g nd results' i"
  using assms wf_dependency [OF assms(1), of i]
  by (auto simp: admissible_def advances_def settled_dependencies_def)

lemma order_okI:
  assumes "graph_wf g" "order_ok g nd results" "advances results results'"
    "\<And>i. i < length results \<Longrightarrow> has_run (results' ! i) \<Longrightarrow> has_run (results ! i) \<or> admissible g nd results i"
  shows "order_ok g nd results'"
  using assms(2-4) admissible_mono [OF assms(1) _ _ assms(3)] unfolding order_ok_def advances_def by metis

lemma order_ok_blocks: "graph_wf g \<Longrightarrow> order_ok g nd results \<Longrightarrow> blocks results results' \<Longrightarrow> order_ok g nd results'"
  by (rule order_okI [OF _ _ advances_blocks]) (auto simp: blocks_def has_run_def dest: spec)

lemma order_ok_admit:
  "graph_wf g \<Longrightarrow> order_ok g nd results \<Longrightarrow> i \<in> pending results \<Longrightarrow> admissible g nd results i \<Longrightarrow> order_ok g nd (results[i := r])"
  by (rule order_okI [OF _ _ advances_update])
    (auto simp: pending_def unsettled_def nth_list_update split: if_splits)

lemma order_ok_retire:
  "graph_wf g \<Longrightarrow> order_ok g nd results \<Longrightarrow> i < length results \<Longrightarrow> pr_state (results ! i) = PRunning \<Longrightarrow> order_ok g nd (results[i := r])"
  by (rule order_okI [OF _ _ advances_update])
    (auto simp: unsettled_def has_run_def nth_list_update split: if_splits)

lemma order_ok_stop: "graph_wf g \<Longrightarrow> order_ok g nd results \<Longrightarrow> order_ok g nd (stop_pending reason results)"
  by (rule order_okI [OF _ _ advances_stop]) (auto simp: stop_pending_def has_run_def not_run_def split: if_splits)

section \<open>Owners, workers and receipts\<close>

abbreviation owner_index :: "pool_owner \<Rightarrow> nat" where
  "owner_index x \<equiv> ad_index (po_admission x)"

definition owner_ok :: "project_graph \<Rightarrow> bool \<Rightarrow> project_result list \<Rightarrow> nat \<Rightarrow> nat \<Rightarrow> pool_owner \<Rightarrow> bool" where
  "owner_ok g nd results nonce k x \<longleftrightarrow>
     0 < k \<and> k \<le> nonce \<and> ad_generation (po_admission x) = k \<and> owner_index x < length results \<and>
     pr_state (results ! owner_index x) = PRunning \<and> (ad_teardown (po_admission x) \<longleftrightarrow> plan_teardown g nd (owner_index x)) \<and>
     (\<not> po_started x \<longrightarrow> po_worker x = None \<and> po_outcome x = None) \<and> (po_worker x = None \<longrightarrow> po_outcome x = None)"

definition owners_ok :: "project_graph \<Rightarrow> bool \<Rightarrow> project_result list \<Rightarrow> nat \<Rightarrow> (nat \<rightharpoonup> pool_owner) \<Rightarrow> bool" where
  "owners_ok g nd results nonce m \<longleftrightarrow>
     (\<forall>k x. m k = Some x \<longrightarrow> owner_ok g nd results nonce k x) \<and>
     (\<forall>k k' x y. m k = Some x \<longrightarrow> m k' = Some y \<longrightarrow> owner_index x = owner_index y \<longrightarrow> k = k') \<and>
     (\<forall>i < length results. pr_state (results ! i) = PRunning \<longrightarrow> (\<exists>k x. m k = Some x \<and> owner_index x = i))"

text \<open>The workers as an assignment of workers to generations.\<close>

definition works :: "(nat \<rightharpoonup> pool_owner) \<Rightarrow> nat \<rightharpoonup> pool_worker" where
  "works m k = (case m k of None \<Rightarrow> None | Some x \<Rightarrow> po_worker x)"

definition workers_ok :: "(nat \<rightharpoonup> pool_worker) \<Rightarrow> nat \<Rightarrow> int set \<Rightarrow> bool" where
  "workers_ok W highest pids \<longleftrightarrow>
     pids = pw_pid ` ran W \<and> (\<forall>k w. W k = Some w \<longrightarrow> 0 < pw_pid w \<and> pw_index w \<le> highest) \<and>
     (\<forall>k k' w v. W k = Some w \<longrightarrow> W k' = Some v \<longrightarrow> pw_pid w = pw_pid v \<or> pw_index w = pw_index v \<longrightarrow> k = k')"

definition receipt_ok :: "nat \<Rightarrow> project_result \<Rightarrow> admission option \<Rightarrow> admission option \<Rightarrow> bool" where
  "receipt_ok i r retired canceled \<longleftrightarrow>
     (\<forall>a. retired = Some a \<longrightarrow> ad_index a = i \<and> pr_state r \<in> {PPassed, PFailed, PInterrupted}) \<and>
     (\<forall>a. canceled = Some a \<longrightarrow> ad_index a = i \<and> pr_state r = PNotRun)"

definition receipts_ok :: "project_result list \<Rightarrow> admission option list \<Rightarrow> admission option list \<Rightarrow> bool" where
  "receipts_ok results retired canceled \<longleftrightarrow>
     length retired = length results \<and> length canceled = length results \<and>
     (\<forall>i < length results. receipt_ok i (results ! i) (retired ! i) (canceled ! i))"

definition pool_inv :: "project_pool \<Rightarrow> bool" where
  "pool_inv p \<longleftrightarrow>
     graph_wf (pl_graph p) \<and> order_ok (pl_graph p) (pl_no_dependencies p) (pl_results p) \<and>
     owners_ok (pl_graph p) (pl_no_dependencies p) (pl_results p) (pl_nonce p) (map_of (pl_active p)) \<and>
     workers_ok (works (map_of (pl_active p))) (pl_highest_worker p) (pl_pids p) \<and>
     receipts_ok (pl_results p) (pl_retired p) (pl_canceled p) \<and>
     distinct (map fst (pl_active p)) \<and> length (pl_active p) \<le> pl_limit p"

text \<open>The three changes of the map of owners.\<close>

lemma map_of_set_owner:
  "map_of (set_owner k x xs) = (case map_of xs k of None \<Rightarrow> map_of xs | Some _ \<Rightarrow> (map_of xs)(k \<mapsto> x))"
  by (induction xs) (auto simp: set_owner_def fun_eq_iff split: option.splits)

lemma map_of_remove: "map_of (filter (\<lambda>(k', y). k' \<noteq> k) xs) = (map_of xs)(k := None)"
  by (induction xs) (auto simp: fun_eq_iff)

lemma map_of_append_fresh: "k \<notin> fst ` set xs \<Longrightarrow> map_of (xs @ [(k, x)]) = (map_of xs)(k \<mapsto> x)"
  by (induction xs) (auto simp: fun_eq_iff)

lemma set_owner_keys [simp]: "map fst (set_owner k x xs) = map fst xs" "length (set_owner k x xs) = length xs"
  by (auto simp: set_owner_def)

lemma distinct_remove: "distinct (map fst xs) \<Longrightarrow> distinct (map fst (filter P xs))"
  by (rule distinct_map_filter)

lemma owners_ok_admit:
  assumes "owners_ok g nd results nonce m" "i \<in> pending results"
  shows "owners_ok g nd (results[i := (results ! i)\<lparr>pr_state := PRunning\<rparr>]) (nonce + 1)
    (m(nonce + 1 \<mapsto> \<lparr>po_admission = \<lparr>ad_index = i, ad_generation = nonce + 1, ad_teardown = plan_teardown g nd i\<rparr>,
                      po_worker = None, po_outcome = None, po_started = False\<rparr>))"
proof -
  have i: "i < length results" "pr_state (results ! i) = PPending" using assms(2) by (simp_all add: pending_def)
  have x: "owner_ok g nd results nonce k x" "owner_index x \<noteq> i" if "m k = Some x" for k x
    using assms(1) i that by (auto simp: owners_ok_def owner_ok_def)
  show ?thesis
    unfolding owners_ok_def
  proof (intro conjI allI impI, goal_cases)
    case (1 k x)
    then show ?case using i x [of k x] by (auto simp: owner_ok_def nth_list_update split: if_splits)
  next
    case (2 k k' x y)
    have "a = b" if "m a = Some u" "m b = Some v" "owner_index u = owner_index v" for a b u v
      using assms(1) that unfolding owners_ok_def by blast
    then show ?case using 2 x(2) by (simp split: if_splits) (metis pool_owner.select_convs(1) admission.select_convs(1))+
  next
    case (3 j)
    show ?case
    proof (cases "j = i")
      case False
      then obtain k x where k: "m k = Some x" "owner_index x = j" using assms(1) 3 by (auto simp: owners_ok_def)
      moreover have "k \<noteq> nonce + 1" using x(1) [OF k(1)] by (auto simp: owner_ok_def)
      ultimately show ?thesis by (intro exI [of _ k] exI [of _ x]) simp
    qed (intro exI [of _ "nonce + 1"], simp)
  qed
qed

lemma owners_ok_update:
  assumes "owners_ok g nd results nonce m" "m k = Some x" "po_admission y = po_admission x" "owner_ok g nd results nonce k y"
  shows "owners_ok g nd results nonce (m(k \<mapsto> y))"
  unfolding owners_ok_def
proof (intro conjI allI impI, goal_cases)
  case (1 k' z)
  then show ?case using assms by (auto simp: owners_ok_def split: if_splits)
next
  case (2 k' k'' z w)
  then show ?case using assms unfolding owners_ok_def by (metis fun_upd_apply option.inject)
next
  case (3 j)
  then obtain k' z where "m k' = Some z" "owner_index z = j" using assms(1) by (auto simp: owners_ok_def)
  then show ?case using assms(2,3) by (cases "k' = k") auto
qed

lemma owners_ok_remove:
  assumes "owners_ok g nd results nonce m" "m k = Some x" "pr_state r \<noteq> PRunning"
  shows "owners_ok g nd (results[owner_index x := r]) nonce (m(k := None))"
proof -
  have other: "owner_index y \<noteq> owner_index x" if "m k' = Some y" "k' \<noteq> k" for k' y
    using assms(1,2) that unfolding owners_ok_def by blast
  show ?thesis
    unfolding owners_ok_def
  proof (intro conjI allI impI, goal_cases)
    case (1 k' z)
    then have "m k' = Some z" "k' \<noteq> k" by (auto split: if_splits)
    then show ?case using assms(1) other [of k' z] by (auto simp: owners_ok_def owner_ok_def)
  next
    case (2 k' k'' z w)
    then show ?case using assms(1) unfolding owners_ok_def by (metis fun_upd_apply option.distinct(1))
  next
    case (3 j)
    then have j: "j < length results" "j \<noteq> owner_index x" "pr_state (results ! j) = PRunning"
      using assms(3) by (cases "j = owner_index x"; simp)+
    then obtain k' z where "m k' = Some z" "owner_index z = j" using assms(1) by (auto simp: owners_ok_def)
    then show ?case using assms(2) j by (intro exI [of _ k'] exI [of _ z]) auto
  qed
qed

lemma works_upd [simp]: "works (m(k \<mapsto> y)) = (works m)(k := po_worker y)" "works (m(k := None)) = (works m)(k := None)"
  by (auto simp: works_def)

lemma workers_ok_start:
  assumes "workers_ok W highest pids" "W k = None" "highest < pw_index w" "0 < pw_pid w" "pw_pid w \<notin> pids"
  shows "workers_ok (W(k \<mapsto> w)) (pw_index w) (insert (pw_pid w) pids)"
proof -
  have old: "pw_pid v \<in> pids" "0 < pw_pid v" "pw_index v \<le> highest" if "W k' = Some v" for k' v
    using assms(1) that by (auto simp: workers_ok_def ran_def)
  then have new: "pw_pid v \<noteq> pw_pid w \<and> pw_index v \<noteq> pw_index w" if "W k' = Some v" for k' v
    using assms(3,5) that by fastforce
  have "pids = pw_pid ` ran W" using assms(1) by (simp add: workers_ok_def)
  then have "insert (pw_pid w) pids = pw_pid ` ran (W(k \<mapsto> w))" using assms(2) by simp
  moreover have "(W(k \<mapsto> w)) k' = Some v \<Longrightarrow> 0 < pw_pid v \<and> pw_index v \<le> pw_index w" for k' v
    using old [of k' v] assms(3,4) by (auto split: if_splits)
  moreover have "k' = k''" if "(W(k \<mapsto> w)) k' = Some v" "(W(k \<mapsto> w)) k'' = Some u" "pw_pid v = pw_pid u \<or> pw_index v = pw_index u" for k' k'' v u
  proof (cases "k' = k \<or> k'' = k")
    case True
    then show ?thesis using that new by (metis fun_upd_apply option.inject)
  next
    case False
    then have "W k' = Some v" "W k'' = Some u" using that(1,2) by auto
    then show ?thesis using assms(1) that(3) unfolding workers_ok_def by blast
  qed
  ultimately show ?thesis unfolding workers_ok_def by blast
qed

lemma workers_ok_exit:
  assumes "workers_ok W highest pids" "W k = Some w"
  shows "workers_ok (W(k := None)) highest (pids - {pw_pid w})"
proof -
  have inj: "k' = k''" if "W k' = Some v" "W k'' = Some u" "pw_pid v = pw_pid u \<or> pw_index v = pw_index u" for k' k'' v u
    using assms(1) that unfolding workers_ok_def by blast
  have sub: "(W(k := None)) k' = Some v \<Longrightarrow> k' \<noteq> k \<and> W k' = Some v" for k' v by (simp split: if_splits)
  have "pw_pid ` ran (W(k := None)) = pw_pid ` ran W - {pw_pid w}"
  proof (intro set_eqI iffI)
    fix pid assume "pid \<in> pw_pid ` ran (W(k := None))"
    then obtain k' v where "(W(k := None)) k' = Some v" "pid = pw_pid v" by (auto simp: ran_def simp del: fun_upd_apply)
    then have v: "k' \<noteq> k" "W k' = Some v" "pid = pw_pid v" using sub by blast+
    then have "pid \<noteq> pw_pid w" using inj [OF v(2) assms(2)] by auto
    then show "pid \<in> pw_pid ` ran W - {pw_pid w}" using v by (auto simp: ran_def)
  next
    fix pid assume "pid \<in> pw_pid ` ran W - {pw_pid w}"
    then obtain k' v where v: "W k' = Some v" "pid = pw_pid v" "pid \<noteq> pw_pid w" by (auto simp: ran_def)
    then have "k' \<noteq> k" using assms(2) by auto
    then have "(W(k := None)) k' = Some v" using v(1) by simp
    then have "v \<in> ran (W(k := None))" by (rule ranI)
    then show "pid \<in> pw_pid ` ran (W(k := None))" using v(2) by blast
  qed
  then have "pids - {pw_pid w} = pw_pid ` ran (W(k := None))" using assms(1) by (simp add: workers_ok_def)
  then show ?thesis
    unfolding workers_ok_def
  proof (intro conjI allI impI, goal_cases)
    case (2 k' v)
    then show ?case using assms(1) sub unfolding workers_ok_def by blast
  next
    case (3 k' v)
    then show ?case using assms(1) sub unfolding workers_ok_def by blast
  next
    case (4 k' k'' v u)
    then show ?case using inj [of k' v k'' u] sub [of k' v] sub [of k'' u] by blast
  qed
qed

lemma receipt_ok_unsettled: "receipt_ok j r x y \<Longrightarrow> unsettled r \<Longrightarrow> x = None \<and> y = None"
  by (cases x; cases y) (auto simp: receipt_ok_def unsettled_def)

lemma receipts_okI:
  assumes "receipts_ok results retired canceled" "length results' = length results" "length retired' = length retired"
    "length canceled' = length canceled"
    "\<And>j. j < length results \<Longrightarrow> receipt_ok j (results ! j) (retired ! j) (canceled ! j) \<Longrightarrow>
       (unsettled (results ! j) \<Longrightarrow> retired ! j = None \<and> canceled ! j = None) \<Longrightarrow>
       receipt_ok j (results' ! j) (retired' ! j) (canceled' ! j)"
  shows "receipts_ok results' retired' canceled'"
proof -
  have "retired ! j = None \<and> canceled ! j = None" if "j < length results" "unsettled (results ! j)" for j
    using assms(1) that receipt_ok_unsettled [of j "results ! j"] unfolding receipts_ok_def by blast
  moreover have "receipt_ok j (results ! j) (retired ! j) (canceled ! j)" if "j < length results" for j
    using assms(1) that by (simp add: receipts_ok_def)
  moreover have "length retired' = length results'" "length canceled' = length results'"
    using assms(1-4) by (simp_all add: receipts_ok_def)
  ultimately show ?thesis unfolding receipts_ok_def using assms(2,5) by presburger
qed

lemma receipt_ok_None [simp]: "receipt_ok j r None None"
  by (simp add: receipt_ok_def)

lemma receipts_ok_unsettled:
  "receipts_ok results retired canceled \<Longrightarrow> i < length results \<Longrightarrow> unsettled (results ! i) \<Longrightarrow>
   receipts_ok (results[i := r]) retired canceled"
  by (rule receipts_okI [of results retired canceled]) (auto simp: nth_list_update)

lemma receipts_ok_retire:
  "receipts_ok results retired canceled \<Longrightarrow> i < length results \<Longrightarrow> unsettled (results ! i) \<Longrightarrow> receipt_ok i r (Some a) None \<Longrightarrow>
   receipts_ok (results[i := r]) (retired[i := Some a]) canceled"
  by (rule receipts_okI [of results retired canceled]) (auto simp: nth_list_update receipts_ok_def)

lemma receipts_ok_cancel:
  "receipts_ok results retired canceled \<Longrightarrow> i < length results \<Longrightarrow> unsettled (results ! i) \<Longrightarrow> receipt_ok i r None (Some a) \<Longrightarrow>
   receipts_ok (results[i := r]) retired (canceled[i := Some a])"
  by (rule receipts_okI [of results retired canceled]) (auto simp: nth_list_update receipts_ok_def)

lemma receipts_ok_blocks:
  "receipts_ok results retired canceled \<Longrightarrow> blocks results results' \<Longrightarrow> receipts_ok results' retired canceled"
  by (rule receipts_okI [of results retired canceled]) (auto simp: blocks_def unsettled_def)

lemma receipts_ok_stop: "receipts_ok results retired canceled \<Longrightarrow> receipts_ok (stop_pending reason results) retired canceled"
  by (rule receipts_okI [of results retired canceled]) (auto simp: stop_pending_def unsettled_def)

lemma owners_ok_cong:
  assumes "owners_ok g nd results nonce m" "length results' = length results"
    "\<And>i. i < length results \<Longrightarrow> pr_state (results' ! i) = PRunning \<longleftrightarrow> pr_state (results ! i) = PRunning"
  shows "owners_ok g nd results' nonce m"
  using assms unfolding owners_ok_def owner_ok_def by simp

lemma owners_ok_blocks: "owners_ok g nd results nonce m \<Longrightarrow> blocks results results' \<Longrightarrow> owners_ok g nd results' nonce m"
  by (rule owners_ok_cong [of g nd results nonce m]) (auto simp: blocks_def)

lemma owners_ok_stop: "owners_ok g nd results nonce m \<Longrightarrow> owners_ok g nd (stop_pending reason results) nonce m"
  by (rule owners_ok_cong [of g nd results nonce m]) (auto simp: stop_pending_def not_run_def)

section \<open>Every operation keeps the invariant\<close>

lemma pool_inv_results:
  assumes "pool_inv p" "blocks (pl_results p) results"
  shows "pool_inv (p\<lparr>pl_results := results\<rparr>)"
  using assms order_ok_blocks owners_ok_blocks receipts_ok_blocks unfolding pool_inv_def by simp blast

lemma pool_Admit_inv:
  assumes "pool_inv p" "i \<in> pending (pl_results p)" "admissible (pl_graph p) (pl_no_dependencies p) (pl_results p) i"
    "length (pl_active p) < pl_limit p" "pool_Admit i p = Inr (a, p')"
  shows "pool_inv p'"
proof -
  let ?g = "pl_graph p" and ?nd = "pl_no_dependencies p" and ?r = "pl_results p" and ?k = "pl_nonce p + 1"
  let ?a = "\<lparr>ad_index = i, ad_generation = ?k, ad_teardown = plan_teardown ?g ?nd i\<rparr>"
  let ?x = "\<lparr>po_admission = ?a, po_worker = None, po_outcome = None, po_started = False\<rparr>"
  have p': "p' = p\<lparr>pl_nonce := ?k, pl_active := pl_active p @ [(?k, ?x)],
      pl_results := ?r[i := (?r ! i)\<lparr>pr_state := PRunning\<rparr>]\<rparr>"
    using assms(5) by (auto simp: pool_Admit_def Let_def split: if_splits)
  have fresh: "?k \<notin> fst ` set (pl_active p)"
  proof
    assume "?k \<in> fst ` set (pl_active p)"
    then obtain x where "map_of (pl_active p) ?k = Some x" by (metis domD dom_map_of_conv_image_fst)
    then show False using assms(1) by (force simp: pool_inv_def owners_ok_def owner_ok_def)
  qed
  have "works (map_of (pl_active p)) ?k = None" using fresh by (simp add: works_def map_of_eq_None_iff [THEN iffD2])
  then have w: "works ((map_of (pl_active p))(?k \<mapsto> ?x)) = works (map_of (pl_active p))"
    by (simp add: fun_upd_idem)
  have "unsettled (?r ! i)" "i < length ?r" using assms(2) by (simp_all add: pending_def unsettled_def)
  then show ?thesis
    using assms(1-4) fresh order_ok_admit [of ?g ?nd ?r i] owners_ok_admit [of ?g ?nd ?r "pl_nonce p" "map_of (pl_active p)" i]
      receipts_ok_unsettled [of ?r "pl_retired p" "pl_canceled p" i]
    unfolding pool_inv_def p' by (simp add: map_of_append_fresh w [simplified] del: map_of_append)
qed

lemma pool_Next_inv:
  assumes "pool_inv p" "pool_Next ready p = Inr (r, p')"
  shows "pool_inv p'"
proof (cases "pl_stopped p \<or> pl_limit p \<le> length (pl_active p)")
  case True
  then show ?thesis using assms by (auto simp: pool_Next_def)
next
  case False
  have "graph_wf (pl_graph p)" "length (pl_results p) = length (pg_declarations (pl_graph p))"
    using assms(1) by (simp_all add: pool_inv_def order_ok_def)
  from next_project_correct [OF this]
  obtain found results where n: "next_project (pl_graph p) (pl_no_dependencies p) ready (pl_results p) = Inr (found, results)"
    "blocks (pl_results p) results" "search_post (pl_graph p) (pl_no_dependencies p) ready found results" by metis
  have inv: "pool_inv (p\<lparr>pl_results := results\<rparr>)" using pool_inv_results [OF assms(1) n(2)] .
  show ?thesis
  proof (cases found)
    case None
    then show ?thesis using assms(2) False n(1) inv by (auto simp: pool_Next_def)
  next
    case (Some i)
    then obtain a where "pool_Admit i (p\<lparr>pl_results := results\<rparr>) = Inr (a, p')"
      using assms(2) False n(1) by (auto simp: pool_Next_def bindR_eq_Inr)
    then show ?thesis using pool_Admit_inv [OF inv, of i a p'] n(3) Some False by (simp add: search_post_def)
  qed
qed

lemma owner_lookup: "pool_inv p \<Longrightarrow> map_of (pl_active p) k = Some x \<Longrightarrow>
    owner_ok (pl_graph p) (pl_no_dependencies p) (pl_results p) (pl_nonce p) k x"
  by (auto simp: pool_inv_def owners_ok_def)

lemma pool_WorkerStarted_inv:
  assumes "pool_inv p" "pool_WorkerStarted k worker pid p = Inr (r, p')"
  shows "pool_inv p'"
proof (cases "r")
  case False
  then have "p' = p" using assms(2) by (auto simp: pool_WorkerStarted_def split: option.splits if_splits)
  then show ?thesis using assms(1) by simp
next
  case True
  then obtain x where x: "map_of (pl_active p) k = Some x"
    "\<not> (worker = 0 \<or> pid \<le> 0 \<or> po_worker x \<noteq> None \<or> po_outcome x \<noteq> None \<or> worker \<le> pl_highest_worker p \<or> pid \<in> pl_pids p)"
    and p': "p' = p\<lparr>pl_active := set_owner k (x\<lparr>po_worker := Some \<lparr>pw_index = worker, pw_pid = pid\<rparr>, po_started := True\<rparr>) (pl_active p),
                 pl_highest_worker := worker, pl_pids := insert pid (pl_pids p)\<rparr>"
    using assms(2) by (auto simp: pool_WorkerStarted_def split: option.splits if_splits)
  let ?w = "\<lparr>pw_index = worker, pw_pid = pid\<rparr>"
  have "works (map_of (pl_active p)) k = None" using x by (simp add: works_def)
  then have "workers_ok ((works (map_of (pl_active p)))(k \<mapsto> ?w)) worker (insert pid (pl_pids p))"
    using workers_ok_start [of "works (map_of (pl_active p))" "pl_highest_worker p" "pl_pids p" k ?w] assms(1) x
    by (simp add: pool_inv_def)
  moreover have "owner_ok (pl_graph p) (pl_no_dependencies p) (pl_results p) (pl_nonce p) k (x\<lparr>po_worker := Some ?w, po_started := True\<rparr>)"
    using owner_lookup [OF assms(1) x(1)] x by (simp add: owner_ok_def)
  then have "owners_ok (pl_graph p) (pl_no_dependencies p) (pl_results p) (pl_nonce p)
      ((map_of (pl_active p))(k \<mapsto> x\<lparr>po_worker := Some ?w, po_started := True\<rparr>))"
    using owners_ok_update [of _ _ _ _ "map_of (pl_active p)" k x] x(1) assms(1) by (simp add: pool_inv_def)
  ultimately show ?thesis using assms(1) x(1) by (simp add: pool_inv_def p' map_of_set_owner)
qed

text \<open>An owner whose worker and outcome are both in is retired; any other stays.\<close>

lemma pool_Retire_cases:
  assumes "map_of (pl_active p) k = Some x"
  shows "(po_worker x = None \<and> po_outcome x \<noteq> None \<and>
      pool_Retire k p = p\<lparr>pl_retired := (pl_retired p)[owner_index x := Some (po_admission x)],
        pl_results := (pl_results p)[owner_index x := (pl_results p ! owner_index x)\<lparr>pr_state := outcome_state (the (po_outcome x))\<rparr>],
        pl_active := filter (\<lambda>(k', y). k' \<noteq> k) (pl_active p)\<rparr>) \<or>
    (po_worker x \<noteq> None \<or> po_outcome x = None) \<and> pool_Retire k p = p"
  using assms by (cases "po_worker x"; cases "po_outcome x") (simp_all add: pool_Retire_def Let_def)

lemma outcome_state_final: "outcome_state out \<in> {PPassed, PFailed, PInterrupted}" "outcome_state out \<noteq> PRunning"
  by (cases out; simp)+

text \<open>The end of a receipt: the owner \<open>x\<close> of a consistent pool gets the new record \<open>y\<close> and is retired if it can be.\<close>

lemma retire_inv:
  assumes "pool_inv p" "map_of (pl_active p) k = Some x" "po_admission y = po_admission x" "po_started y"
    "works (map_of (pl_active p)) = W" "workers_ok (W(k := po_worker y)) (pl_highest_worker p) pids"
  shows "pool_inv (pool_Retire k (p\<lparr>pl_active := set_owner k y (pl_active p), pl_pids := pids\<rparr>))"
proof -
  let ?q = "p\<lparr>pl_active := set_owner k y (pl_active p), pl_pids := pids\<rparr>"
  let ?m = "map_of (pl_active p)"
  have m: "map_of (pl_active ?q) = ?m(k \<mapsto> y)" using assms(2) by (simp add: map_of_set_owner)
  have ok: "owner_index x < length (pl_results p)" "pr_state (pl_results p ! owner_index x) = PRunning" "0 < k" "k \<le> pl_nonce p"
    "ad_generation (po_admission x) = k" "ad_teardown (po_admission x) \<longleftrightarrow> plan_teardown (pl_graph p) (pl_no_dependencies p) (owner_index x)"
    using owner_lookup [OF assms(1,2)] by (simp_all add: owner_ok_def)
  consider (gone) "po_worker y = None" "po_outcome y \<noteq> None" | (stays) "po_worker y \<noteq> None \<or> po_outcome y = None" by blast
  then show ?thesis
  proof cases
    case gone
    let ?r = "(pl_results p ! owner_index x)\<lparr>pr_state := outcome_state (the (po_outcome y))\<rparr>"
    have q: "pool_Retire k ?q = ?q\<lparr>pl_retired := (pl_retired p)[owner_index x := Some (po_admission x)],
        pl_results := (pl_results p)[owner_index x := ?r], pl_active := filter (\<lambda>(k', y). k' \<noteq> k) (set_owner k y (pl_active p))\<rparr>"
      using pool_Retire_cases [of ?q k y] m gone assms(3) by simp
    have "owners_ok (pl_graph p) (pl_no_dependencies p) ((pl_results p)[owner_index x := ?r]) (pl_nonce p) (?m(k := None))"
      using owners_ok_remove [of _ _ _ _ ?m k x ?r] assms(1,2) outcome_state_final(2) by (simp add: pool_inv_def)
    moreover have "receipts_ok ((pl_results p)[owner_index x := ?r]) ((pl_retired p)[owner_index x := Some (po_admission x)]) (pl_canceled p)"
      using receipts_ok_retire [of "pl_results p" _ _ "owner_index x"] ok assms(1) outcome_state_final(1)
      by (simp add: pool_inv_def unsettled_def receipt_ok_def)
    moreover have "order_ok (pl_graph p) (pl_no_dependencies p) ((pl_results p)[owner_index x := ?r])"
      using order_ok_retire ok assms(1) by (simp add: pool_inv_def)
    moreover have "length (filter (\<lambda>(k', y). k' \<noteq> k) (set_owner k y (pl_active p))) \<le> pl_limit p"
      using assms(1) length_filter_le [of _ "set_owner k y (pl_active p)"] unfolding pool_inv_def set_owner_keys by (meson le_trans)
    moreover have "distinct (map fst (filter (\<lambda>(k', y). k' \<noteq> k) (set_owner k y (pl_active p))))"
      using assms(1) distinct_remove [of "set_owner k y (pl_active p)"] by (simp add: pool_inv_def)
    moreover have "map_of (filter (\<lambda>(k', y). k' \<noteq> k) (set_owner k y (pl_active p))) = ?m(k := None)"
      using m by (simp add: map_of_remove)
    ultimately show ?thesis using assms(1,5,6) gone unfolding q pool_inv_def by simp
  next
    case stays
    then have "pool_Retire k ?q = ?q" using pool_Retire_cases [of ?q k y] m by auto
    moreover have "owners_ok (pl_graph p) (pl_no_dependencies p) (pl_results p) (pl_nonce p) (?m(k \<mapsto> y))"
      using owners_ok_update [of _ _ _ _ ?m k x] assms(1-4) ok stays by (auto simp: pool_inv_def owner_ok_def)
    ultimately show ?thesis using assms(1,5,6) m by (simp add: pool_inv_def)
  qed
qed

lemma pool_WorkerExited_inv:
  assumes "pool_inv p" "pool_WorkerExited k worker pid p = Inr (r, p')"
  shows "pool_inv p'"
proof (cases "\<exists>x. map_of (pl_active p) k = Some x \<and> po_worker x = Some \<lparr>pw_index = worker, pw_pid = pid\<rparr>")
  case True
  then obtain x where x: "map_of (pl_active p) k = Some x" "po_worker x = Some \<lparr>pw_index = worker, pw_pid = pid\<rparr>" by blast
  have "workers_ok ((works (map_of (pl_active p)))(k := None)) (pl_highest_worker p) (pl_pids p - {pid})"
    using workers_ok_exit [of "works (map_of (pl_active p))" _ _ k] assms(1) x by (force simp: pool_inv_def works_def)
  moreover have "po_started x" using owner_lookup [OF assms(1) x(1)] x(2) by (auto simp: owner_ok_def)
  ultimately show ?thesis
    using retire_inv [OF assms(1) x(1), of "x\<lparr>po_worker := None\<rparr>" _ "pl_pids p - {pid}"] assms(2) x
    by (simp add: pool_WorkerExited_def)
next
  case False
  then have "p' = p" using assms(2) by (auto simp: pool_WorkerExited_def split: option.splits if_splits)
  then show ?thesis using assms(1) by simp
qed

lemma pool_Complete_inv:
  assumes "pool_inv p" "pool_Complete k out p = Inr (r, p')"
  shows "pool_inv p'"
proof (cases "\<exists>x. map_of (pl_active p) k = Some x \<and> po_started x \<and> po_outcome x = None")
  case True
  then obtain x where x: "map_of (pl_active p) k = Some x" "po_started x" "po_outcome x = None" by blast
  have "works (map_of (pl_active p)) k = po_worker x" using x by (simp add: works_def)
  then have "workers_ok ((works (map_of (pl_active p)))(k := po_worker x)) (pl_highest_worker p) (pl_pids p)"
    using assms(1) by (simp add: pool_inv_def fun_upd_idem)
  then show ?thesis
    using retire_inv [OF assms(1) x(1), of "x\<lparr>po_outcome := Some out\<rparr>" _ "pl_pids p"] assms(2) x by (simp add: pool_Complete_def)
next
  case False
  then have "p' = p" using assms(2) by (auto simp: pool_Complete_def split: option.splits if_splits)
  then show ?thesis using assms(1) by simp
qed

definition cancel_one :: "string \<Rightarrow> project_pool \<Rightarrow> nat \<times> pool_owner \<Rightarrow> project_pool" where
  "cancel_one reason p kx =
     (if po_started (snd kx) then p
      else p\<lparr>pl_results := (pl_results p)[owner_index (snd kx) := not_run reason],
             pl_canceled := (pl_canceled p)[owner_index (snd kx) := Some (po_admission (snd kx))],
             pl_active := filter (\<lambda>(k', y). k' \<noteq> fst kx) (pl_active p)\<rparr>)"

lemma cancel_unstarted_fold: "cancel_unstarted reason p = foldl (cancel_one reason) p (pl_active p)"
proof -
  have "(\<lambda>p (k, x). if po_started x then p
         else let a = po_admission x
              in p\<lparr>pl_results := (pl_results p)[ad_index a := not_run reason],
                   pl_canceled := (pl_canceled p)[ad_index a := Some a],
                   pl_active := filter (\<lambda>(k', y). k' \<noteq> k) (pl_active p)\<rparr>) = cancel_one reason"
    by (auto simp: fun_eq_iff cancel_one_def Let_def)
  then show ?thesis unfolding cancel_unstarted_def by simp
qed

lemma cancel_one_inv:
  assumes "pool_inv p" "map_of (pl_active p) k = Some x"
  shows "pool_inv (cancel_one reason p (k, x))"
proof (cases "po_started x")
  case False
  let ?m = "map_of (pl_active p)" and ?r = "(pl_results p)[owner_index x := not_run reason]"
  have ok: "owner_index x < length (pl_results p)" "pr_state (pl_results p ! owner_index x) = PRunning" "po_worker x = None"
    using owner_lookup [OF assms] False by (simp_all add: owner_ok_def)
  have "works ?m k = None" using assms(2) ok(3) by (simp add: works_def)
  then have "workers_ok ((works ?m)(k := None)) (pl_highest_worker p) (pl_pids p)"
    using assms(1) by (simp add: pool_inv_def fun_upd_idem)
  moreover have "owners_ok (pl_graph p) (pl_no_dependencies p) ?r (pl_nonce p) (?m(k := None))"
    using owners_ok_remove [of _ _ _ _ ?m k x "not_run reason"] assms by (simp add: pool_inv_def not_run_def)
  moreover have "receipts_ok ?r (pl_retired p) ((pl_canceled p)[owner_index x := Some (po_admission x)])"
    using receipts_ok_cancel [of "pl_results p" _ _ "owner_index x"] ok assms(1)
    by (simp add: pool_inv_def unsettled_def receipt_ok_def not_run_def)
  moreover have "order_ok (pl_graph p) (pl_no_dependencies p) ?r" using order_ok_retire ok assms(1) by (simp add: pool_inv_def)
  moreover have "length (filter (\<lambda>(k', y). k' \<noteq> k) (pl_active p)) \<le> pl_limit p"
    using assms(1) length_filter_le [of _ "pl_active p"] unfolding pool_inv_def by (meson le_trans)
  ultimately show ?thesis
    using assms(1) False distinct_remove [of "pl_active p"] by (simp add: cancel_one_def pool_inv_def map_of_remove)
qed (use assms in \<open>simp add: cancel_one_def\<close>)

lemma cancel_fold_inv:
  assumes "pool_inv p" "distinct (map fst xs)" "\<forall>(k, x) \<in> set xs. map_of (pl_active p) k = Some x"
  shows "pool_inv (foldl (cancel_one reason) p xs)"
  using assms
proof (induction xs arbitrary: p)
  case (Cons kx xs)
  obtain k x where kx: "kx = (k, x)" by fastforce
  have "\<forall>(k', x') \<in> set xs. map_of (pl_active (cancel_one reason p kx)) k' = Some x'"
    using Cons.prems(2,3) kx by (force simp: cancel_one_def map_of_remove)
  then show ?case using Cons.IH [of "cancel_one reason p kx"] cancel_one_inv [of p k x reason] Cons.prems kx by simp
qed simp

lemma cancel_unstarted_inv: "pool_inv p \<Longrightarrow> pool_inv (cancel_unstarted reason p)"
  unfolding cancel_unstarted_fold by (rule cancel_fold_inv) (auto simp: pool_inv_def)

lemma pool_inv_stopped [simp]: "pool_inv (p\<lparr>pl_stopped := b\<rparr>) = pool_inv p"
  by (simp add: pool_inv_def)

lemma pool_Stop_inv:
  assumes "pool_inv p" "pool_Stop reason p = Inr p'"
  shows "pool_inv p'"
proof -
  let ?q = "cancel_unstarted reason (p\<lparr>pl_stopped := True\<rparr>)"
  have "pool_inv ?q" using cancel_unstarted_inv [of "p\<lparr>pl_stopped := True\<rparr>"] assms(1) by simp
  then have "pool_inv (?q\<lparr>pl_results := stop_pending reason (pl_results ?q)\<rparr>)"
    using order_ok_stop owners_ok_stop receipts_ok_stop by (simp add: pool_inv_def)
  then show ?thesis using assms by (auto simp: pool_Stop_def Let_def split: if_splits)
qed

datatype pool_call =
    PoolNext "nat \<Rightarrow> bool"
  | PoolWorkerStarted nat nat int
  | PoolWorkerExited nat nat int
  | PoolComplete nat project_outcome
  | PoolStop string

definition pool_apply :: "pool_call \<Rightarrow> project_pool \<Rightarrow> project_pool result" where
  "pool_apply e p =
     (case e of
        PoolNext ready \<Rightarrow> bindR (pool_Next ready p) (\<lambda>(r, p). Inr p)
      | PoolWorkerStarted k w pid \<Rightarrow> bindR (pool_WorkerStarted k w pid p) (\<lambda>(r, p). Inr p)
      | PoolWorkerExited k w pid \<Rightarrow> bindR (pool_WorkerExited k w pid p) (\<lambda>(r, p). Inr p)
      | PoolComplete k out \<Rightarrow> bindR (pool_Complete k out p) (\<lambda>(r, p). Inr p)
      | PoolStop reason \<Rightarrow> pool_Stop reason p)"

inductive pool_step :: "project_pool \<Rightarrow> pool_call \<Rightarrow> project_pool \<Rightarrow> bool" where
  pool_returns: "pool_apply e p = Inr p' \<Longrightarrow> pool_step p e p'"

inductive_simps pool_step_iff: "pool_step p e p'"

lemma pool_step_inv: "pool_inv p \<Longrightarrow> pool_step p e p' \<Longrightarrow> pool_inv p'"
  by (cases e) (auto simp: pool_step_iff pool_apply_def bindR_eq_Inr intro: pool_Next_inv pool_WorkerStarted_inv
      pool_WorkerExited_inv pool_Complete_inv pool_Stop_inv)

interpretation pool: machine pool_step pool_inv
  by unfold_locales (rule pool_step_inv)

lemma ProjectPool_inv:
  assumes "graph_wf g" "ProjectPool g selected nd limit = Inr p"
  shows "pool_inv p" "pl_graph p = g" "pl_no_dependencies p = nd" "pl_limit p = limit" "limit \<le> 8"
proof -
  have p: "p = \<lparr>pl_retired = replicate (length (pg_declarations g)) None, pl_canceled = replicate (length (pg_declarations g)) None,
      pl_graph = g, pl_results = selected_results selected, pl_active = [], pl_highest_worker = 0, pl_pids = {},
      pl_limit = limit, pl_nonce = 0, pl_no_dependencies = nd, pl_stopped = False\<rparr>"
    and len: "length selected = length (pg_declarations g)" and limit: "limit \<le> 8"
    using assms(2) by (auto simp: ProjectPool_def Let_def bindR_eq_Inr split: if_splits)
  have state: "pr_state (selected_results selected ! i) \<in> {PPending, PNotSelected}" if "i < length selected" for i
    using that by (simp add: selected_results_def fresh_result_def)
  have n: "length (selected_results selected) = length (pg_declarations g)" using len by (simp add: selected_results_def)
  have "\<not> has_run (selected_results selected ! i)" "pr_state (selected_results selected ! i) \<noteq> PRunning"
    if "i < length (pg_declarations g)" for i
    using state [of i] that len by (auto simp: has_run_def)
  moreover have "works (\<lambda>_. None) = Map.empty" by (simp add: works_def fun_eq_iff)
  ultimately show "pool_inv p"
    using assms(1) n by (simp add: p pool_inv_def order_ok_def owners_ok_def workers_ok_def receipts_ok_def)
  show "pl_graph p = g" "pl_no_dependencies p = nd" "pl_limit p = limit" "limit \<le> 8" using limit by (simp_all add: p)
qed

section \<open>Every project is admitted at most once\<close>

definition budget_ok :: "project_pool \<Rightarrow> bool" where
  "budget_ok p \<longleftrightarrow> pl_nonce p + card (pending (pl_results p)) \<le> length (pl_results p)"

lemma pending_blocks: "blocks results results' \<Longrightarrow> pending results' \<subseteq> pending results"
  by (auto simp: pending_def blocks_def)

lemma pending_stop: "pending (stop_pending reason results) = {}"
  by (auto simp: pending_def stop_pending_def not_run_def)

lemma pool_Next_found:
  assumes "pool_inv p" "pool_Next ready p = Inr (r, p')"
  shows "case r of
      None \<Rightarrow> (\<exists>results. blocks (pl_results p) results \<and> p' = p\<lparr>pl_results := results\<rparr> \<and>
        (pl_stopped p \<or> pl_limit p \<le> length (pl_active p) \<or> idle (pl_graph p) (pl_no_dependencies p) ready results))
    | Some a \<Rightarrow> (\<exists>results i. blocks (pl_results p) results \<and> i \<in> pending results \<and> ready i \<and>
        admissible (pl_graph p) (pl_no_dependencies p) results i \<and> \<not> pl_stopped p \<and> length (pl_active p) < pl_limit p \<and>
        pool_Admit i (p\<lparr>pl_results := results\<rparr>) = Inr (a, p'))"
proof (cases "pl_stopped p \<or> pl_limit p \<le> length (pl_active p)")
  case True
  then have "r = None" "p' = p\<lparr>pl_results := pl_results p\<rparr>" using assms(2) by (auto simp: pool_Next_def)
  then show ?thesis using True blocks_refl [of "pl_results p"] by (simp only: option.simps) blast
next
  case False
  have "graph_wf (pl_graph p)" "length (pl_results p) = length (pg_declarations (pl_graph p))"
    using assms(1) by (simp_all add: pool_inv_def order_ok_def)
  from next_project_correct [OF this]
  obtain found results where n: "next_project (pl_graph p) (pl_no_dependencies p) ready (pl_results p) = Inr (found, results)"
    "blocks (pl_results p) results" "search_post (pl_graph p) (pl_no_dependencies p) ready found results" by metis
  show ?thesis
  proof (cases found)
    case None
    then have "r = None" "p' = p\<lparr>pl_results := results\<rparr>" using assms(2) False n(1) by (auto simp: pool_Next_def)
    then show ?thesis using n None by (auto simp: search_post_def)
  next
    case (Some i)
    then obtain a where "r = Some a" "pool_Admit i (p\<lparr>pl_results := results\<rparr>) = Inr (a, p')"
      using assms(2) False n(1) by (auto simp: pool_Next_def bindR_eq_Inr)
    then show ?thesis using n Some False by (auto simp: search_post_def)
  qed
qed

lemma admit_budget:
  assumes "i \<in> pending (pl_results p)" "budget_ok p" "pool_Admit i p = Inr (a, p')"
  shows "budget_ok p'" "card (pending (pl_results p')) < card (pending (pl_results p))" "pl_nonce p' = pl_nonce p + 1"
proof -
  have p': "pl_results p' = (pl_results p)[i := (pl_results p ! i)\<lparr>pr_state := PRunning\<rparr>]" "pl_nonce p' = pl_nonce p + 1"
    using assms(3) by (auto simp: pool_Admit_def Let_def split: if_splits)
  have "pending (pl_results p') = pending (pl_results p) - {i}" unfolding p' by (rule pending_update) simp
  then have c: "card (pending (pl_results p)) = card (pending (pl_results p')) + 1"
    using card.remove [OF finite_pending assms(1)] by simp
  then show "card (pending (pl_results p')) < card (pending (pl_results p))" "pl_nonce p' = pl_nonce p + 1" using p' by simp_all
  show "budget_ok p'" using assms(2) c p' by (simp add: budget_ok_def)
qed

lemma budget_mono:
  "budget_ok p \<Longrightarrow> pl_nonce p' = pl_nonce p \<Longrightarrow> length (pl_results p') = length (pl_results p) \<Longrightarrow>
   pending (pl_results p') \<subseteq> pending (pl_results p) \<Longrightarrow> budget_ok p'"
  using card_mono [of "pending (pl_results p)" "pending (pl_results p')"] by (simp add: budget_ok_def)

definition same_work :: "project_pool \<Rightarrow> project_pool \<Rightarrow> bool" where
  "same_work p p' \<longleftrightarrow> pl_nonce p' = pl_nonce p \<and> length (pl_results p') = length (pl_results p) \<and>
     pending (pl_results p') \<subseteq> pending (pl_results p) \<and> pl_graph p' = pl_graph p \<and> pl_limit p' = pl_limit p \<and>
     pl_no_dependencies p' = pl_no_dependencies p"

lemma pending_subset_update: "pr_state r \<noteq> PPending \<Longrightarrow> pending (results[i := r]) \<subseteq> pending results"
  by (auto simp: pending_update)

lemma Retire_same_work: "same_work p (pool_Retire k p)"
proof (cases "map_of (pl_active p) k")
  case (Some x)
  have "outcome_state out \<noteq> PPending" for out by (cases out) simp_all
  then have "pending ((pl_results p)[i := (pl_results p ! i)\<lparr>pr_state := outcome_state out\<rparr>]) \<subseteq> pending (pl_results p)" for i out
    by (intro pending_subset_update) simp
  then show ?thesis
    using pool_Retire_cases [OF Some] by (elim disjE conjE) (simp_all add: same_work_def)
qed (simp add: pool_Retire_def same_work_def)

lemma cancel_one_same_work: "same_work p (cancel_one reason p kx)"
  using pending_subset_update [of "not_run reason" "pl_results p"] by (auto simp: same_work_def cancel_one_def not_run_def)

lemma same_work_trans: "same_work a b \<Longrightarrow> same_work b c \<Longrightarrow> same_work a c"
  by (auto simp: same_work_def)

lemma cancel_fold_same_work: "same_work p (foldl (cancel_one reason) p xs)"
proof (induction xs arbitrary: p)
  case (Cons kx xs)
  show ?case using same_work_trans [OF cancel_one_same_work Cons [of "cancel_one reason p kx"]] by simp
qed (simp add: same_work_def)

text \<open>Only an admission uses up a pending project; no call makes a new one.\<close>

lemma pool_step_work:
  assumes "pool_inv p" "pool_step p e p'"
  shows "same_work p p' \<or>
    (\<exists>results i a. blocks (pl_results p) results \<and> i \<in> pending results \<and> pool_Admit i (p\<lparr>pl_results := results\<rparr>) = Inr (a, p'))"
proof (cases e)
  case (PoolNext ready)
  then obtain r where r: "pool_Next ready p = Inr (r, p')" using assms(2) by (auto simp: pool_step_iff pool_apply_def bindR_eq_Inr)
  show ?thesis
  proof (cases r)
    case None
    then obtain results where "blocks (pl_results p) results" "p' = p\<lparr>pl_results := results\<rparr>"
      using pool_Next_found [OF assms(1) r] by auto
    then show ?thesis using pending_blocks by (simp add: same_work_def blocks_def)
  next
    case (Some a)
    then show ?thesis using pool_Next_found [OF assms(1) r] by auto
  qed
next
  case (PoolWorkerStarted k w pid)
  then show ?thesis
    using assms(2) by (auto simp: pool_step_iff pool_apply_def bindR_eq_Inr pool_WorkerStarted_def same_work_def split: option.splits if_splits)
next
  case (PoolWorkerExited k w pid)
  have "same_work p (pool_Retire k (p\<lparr>pl_active := xs, pl_pids := pids\<rparr>))" for xs pids
    using Retire_same_work [of "p\<lparr>pl_active := xs, pl_pids := pids\<rparr>" k] by (simp add: same_work_def)
  then show ?thesis using PoolWorkerExited assms(2)
    by (auto simp: pool_step_iff pool_apply_def bindR_eq_Inr pool_WorkerExited_def same_work_def split: option.splits if_splits)
next
  case (PoolComplete k out)
  have "same_work p (pool_Retire k (p\<lparr>pl_active := xs\<rparr>))" for xs
    using Retire_same_work [of "p\<lparr>pl_active := xs\<rparr>" k] by (simp add: same_work_def)
  then show ?thesis using PoolComplete assms(2)
    by (auto simp: pool_step_iff pool_apply_def bindR_eq_Inr pool_Complete_def same_work_def split: option.splits if_splits)
next
  case (PoolStop reason)
  have "same_work p (cancel_unstarted reason (p\<lparr>pl_stopped := True\<rparr>))"
    using cancel_fold_same_work [of "p\<lparr>pl_stopped := True\<rparr>"] unfolding cancel_unstarted_fold by (simp add: same_work_def)
  then show ?thesis using PoolStop assms(2) pending_stop
    by (auto simp: pool_step_iff pool_apply_def pool_Stop_def Let_def same_work_def stop_pending_def split: if_splits)
qed

lemma pool_step_budget: "pool_inv p \<and> budget_ok p \<Longrightarrow> pool_step p e p' \<Longrightarrow> pool_inv p' \<and> budget_ok p'"
proof -
  assume p: "pool_inv p \<and> budget_ok p" and s: "pool_step p e p'"
  from pool_step_work [OF conjunct1 [OF p] s] have "budget_ok p'"
  proof
    assume "same_work p p'"
    then show ?thesis using p budget_mono [of p p'] by (simp add: same_work_def)
  next
    assume "\<exists>results i a. blocks (pl_results p) results \<and> i \<in> pending results \<and> pool_Admit i (p\<lparr>pl_results := results\<rparr>) = Inr (a, p')"
    then obtain results i a where r: "blocks (pl_results p) results" "i \<in> pending results"
      "pool_Admit i (p\<lparr>pl_results := results\<rparr>) = Inr (a, p')" by blast
    have "budget_ok (p\<lparr>pl_results := results\<rparr>)"
      using p budget_mono [of p "p\<lparr>pl_results := results\<rparr>"] pending_blocks [OF r(1)] r(1) by (simp add: blocks_def)
    then show ?thesis using admit_budget(1) [OF _ _ r(3)] r(2) by simp
  qed
  then show ?thesis using p s pool_step_inv by blast
qed

lemma pool_step_rank:
  assumes "pool_inv p \<and> budget_ok p" "pool_step p e p'"
  shows "card (pending (pl_results p')) + (if pl_nonce p' \<noteq> pl_nonce p then 1 else 0) \<le> card (pending (pl_results p))"
  using pool_step_work [OF conjunct1 [OF assms(1)] assms(2)]
proof
  assume "same_work p p'"
  then show ?thesis using card_mono [OF finite_pending] by (simp add: same_work_def)
next
  assume "\<exists>results i a. blocks (pl_results p) results \<and> i \<in> pending results \<and> pool_Admit i (p\<lparr>pl_results := results\<rparr>) = Inr (a, p')"
  then obtain results i a where r: "blocks (pl_results p) results" "i \<in> pending results"
    "pool_Admit i (p\<lparr>pl_results := results\<rparr>) = Inr (a, p')" by blast
  have le: "card (pending results) \<le> card (pending (pl_results p))" using pending_blocks [OF r(1)] by (simp add: card_mono)
  have "budget_ok (p\<lparr>pl_results := results\<rparr>)"
    using assms(1) le r(1) by (simp add: budget_ok_def blocks_def)
  then have "card (pending (pl_results p')) < card (pending results)" using admit_budget(2) [OF _ _ r(3)] r(2) by simp
  then show ?thesis using le by simp
qed

interpretation pool_rank: ranked_machine pool_step "\<lambda>p. pool_inv p \<and> budget_ok p" "\<lambda>p. card (pending (pl_results p))"
  "\<lambda>e p p'. pl_nonce p' \<noteq> pl_nonce p"
  by unfold_locales (use pool_step_budget pool_step_rank in blast)+

lemma pool_step_graph:
  "pool_inv p \<Longrightarrow> pool_step p e p' \<Longrightarrow>
   pl_graph p' = pl_graph p \<and> pl_no_dependencies p' = pl_no_dependencies p \<and> pl_limit p' = pl_limit p"
  using pool_step_work [of p e p'] by (auto simp: same_work_def pool_Admit_def Let_def split: if_splits)

lemma pool_trace_graph:
  assumes "trace pool_step p calls p'" "pool_inv p"
  shows "pl_graph p' = pl_graph p \<and> pl_no_dependencies p' = pl_no_dependencies p \<and> pl_limit p' = pl_limit p"
  using pool.trace_relates [OF assms, of "\<lambda>p p'. pl_graph p' = pl_graph p \<and> pl_no_dependencies p' = pl_no_dependencies p \<and> pl_limit p' = pl_limit p"]
    pool_step_graph by auto

text \<open>What holds of the pools a run can reach.\<close>

lemma reachable_pool:
  assumes "ProjectGraph ds = Inr g" "ProjectPool g selected nd limit = Inr p" "trace pool_step p calls p'"
  shows "pool_inv p'" "budget_ok p'" "pl_graph p' = g" "pl_no_dependencies p' = nd" "pl_limit p' = limit"
    "length (pl_results p') = length ds" "length ds \<le> 128"
proof -
  have wf: "graph_wf g" "pg_declarations g = ds" using ProjectGraph_wf [OF assms(1)] .
  note p = ProjectPool_inv [OF wf(1) assms(2)]
  have "pl_nonce p = 0" using assms(2) by (auto simp: ProjectPool_def Let_def bindR_eq_Inr split: if_splits)
  moreover have "card (pending (pl_results p)) \<le> length (pl_results p)"
    using card_mono [of "{..<length (pl_results p)}" "pending (pl_results p)"] by (auto simp: pending_def)
  ultimately have "pool_inv p \<and> budget_ok p" using p(1) by (simp add: budget_ok_def)
  then show inv: "pool_inv p'" "budget_ok p'" using pool_rank.trace_inv [OF assms(3)] by auto
  show "pl_graph p' = g" "pl_no_dependencies p' = nd" "pl_limit p' = limit"
    using pool_trace_graph [OF assms(3) p(1)] p(2-4) by simp_all
  then show "length (pl_results p') = length ds" using inv(1) wf(2) by (simp add: pool_inv_def order_ok_def)
  show "length ds \<le> 128" using assms(1) by (simp add: ProjectGraph_iff configuration_ok_def)
qed

section \<open>Progress\<close>

text \<open>In an acyclic graph some project among those with work left has nothing to wait for.\<close>

lemma minimal_dependency:
  assumes "graph_wf g" "S \<subseteq> {..<length (pg_declarations g)}" "S \<noteq> {}"
  shows "\<exists>i \<in> S. \<forall>d \<in> set (pg_dependencies g ! i). d \<notin> S"
proof -
  let ?E = "edges_of (pg_dependencies g)"
  have n: "length (pg_dependencies g) = length (pg_declarations g)" using assms(1) by (simp add: graph_wf_def)
  then have "?E \<subseteq> {..<length (pg_declarations g)} \<times> {..<length (pg_declarations g)}"
    using wf_dependency [OF assms(1)] by (auto simp: edges_of_def)
  then have "finite ?E" by (rule finite_subset) simp
  then have "wf (?E\<inverse>)" using assms(1) by (simp add: graph_wf_def finite_acyclic_wf_converse)
  then obtain i where i: "i \<in> S" "\<And>y. (y, i) \<in> ?E\<inverse> \<Longrightarrow> y \<notin> S" using assms(3) by (metis wfE_min ex_in_conv)
  then have "\<forall>d \<in> set (pg_dependencies g ! i). d \<notin> S" using assms(2) n by (auto simp: edges_of_def)
  then show ?thesis using i(1) by blast
qed

lemma wf_not_teardown:
  assumes "graph_wf g" "i < length (pg_declarations g)" "d \<in> set (pg_dependencies g ! i)"
  shows "\<not> IsTeardown g d"
proof -
  have "pg_dependencies g ! i \<in> set (pg_dependencies g)" using assms(1,2) by (simp add: graph_wf_def)
  then show ?thesis using assms(1,3) unfolding graph_wf_def IsTeardown_def by blast
qed

lemma idle_settled:
  assumes "pool_inv p" "pl_active p = []" "blocks (pl_results p) results" "idle (pl_graph p) (pl_no_dependencies p) (\<lambda>_. True) results"
  shows "\<forall>r \<in> set results. \<not> unsettled r"
proof -
  let ?g = "pl_graph p" and ?nd = "pl_no_dependencies p"
  have wf: "graph_wf ?g" and n: "length results = length (pg_declarations ?g)"
    using assms(1,3) by (simp_all add: pool_inv_def order_ok_def blocks_def)
  have "pr_state (pl_results p ! i) \<noteq> PRunning" if "i < length results" for i
    using assms(1,2,3) that by (auto simp: pool_inv_def owners_ok_def blocks_def)
  then have pend: "unsettled (results ! i) \<longleftrightarrow> i \<in> pending results" if "i < length results" for i
    using assms(3) that by (auto simp: unsettled_def pending_def blocks_def)
  have ordinary: "plan_teardown ?g ?nd i" if "i \<in> pending results" for i
  proof (rule ccontr)
    assume "\<not> plan_teardown ?g ?nd i"
    let ?S = "{i \<in> pending results. \<not> plan_teardown ?g ?nd i}"
    have "?S \<subseteq> {..<length (pg_declarations ?g)}" using n by (auto simp: pending_def)
    moreover have "?S \<noteq> {}" using that \<open>\<not> plan_teardown ?g ?nd i\<close> by blast
    ultimately obtain j where j: "j \<in> ?S" "\<forall>d \<in> set (pg_dependencies ?g ! j). d \<notin> ?S"
      using minimal_dependency [OF wf, of ?S] by blast
    then have "waits ?g ?nd results j" using assms(4) by (auto simp: idle_def)
    then obtain d where d: "d \<in> set (pg_dependencies ?g ! j)" "unsettled (results ! d)" by (auto simp: waits_def)
    have "j < length (pg_declarations ?g)" using j(1) n by (auto simp: pending_def)
    then have "d \<in> pending results" "\<not> IsTeardown ?g d"
      using wf_dependency [OF wf _ d(1)] wf_not_teardown [OF wf _ d(1)] pend [of d] d n by auto
    then show False using j(2) d(1) by (simp add: plan_teardown_def)
  qed
  have "pending results = {}"
  proof (rule ccontr)
    assume "pending results \<noteq> {}"
    then obtain i where i: "i \<in> pending results" by blast
    then obtain j where "j < length results" "\<not> plan_teardown ?g ?nd j" "unsettled (results ! j)"
      using assms(4) ordinary by (auto simp: idle_def)
    then show False using ordinary pend by blast
  qed
  then show ?thesis using pend by (auto simp: in_set_conv_nth)
qed

lemma pool_Next_total:
  assumes "pool_inv p" "budget_ok p" "length (pl_results p) \<le> 128"
  shows "\<exists>r p'. pool_Next ready p = Inr (r, p')"
proof -
  have "graph_wf (pl_graph p)" "length (pl_results p) = length (pg_declarations (pl_graph p))"
    using assms(1) by (simp_all add: pool_inv_def order_ok_def)
  from next_project_correct [OF this]
  obtain found results where n: "next_project (pl_graph p) (pl_no_dependencies p) ready (pl_results p) = Inr (found, results)" by metis
  have "pl_nonce p \<noteq> u64_max" using assms(2,3) by (auto simp: budget_ok_def u64_max_def)
  then show ?thesis using n by (cases found) (auto simp: pool_Next_def pool_Admit_def Let_def)
qed

section \<open>Properties of the pool\<close>

lemma card_workers:
  assumes "pool_inv p"
  shows "card (pl_pids p) \<le> length (pl_active p)"
proof -
  let ?m = "map_of (pl_active p)"
  have "ran (works ?m) \<subseteq> (\<lambda>x. the (po_worker x)) ` snd ` set (pl_active p)"
    by (force simp: ran_def works_def split: option.splits dest: map_of_SomeD)
  then have "card (ran (works ?m)) \<le> length (pl_active p)"
    by (meson card_image_le card_length card_mono finite_imageI finite_set le_trans list.set_map)
  moreover have "finite (ran (works ?m))"
    using \<open>ran (works ?m) \<subseteq> _\<close> by (rule finite_subset) simp
  ultimately show ?thesis
    using assms card_image_le [of "ran (works ?m)" pw_pid] by (simp add: pool_inv_def workers_ok_def)
qed


text \<open>
  C18: the pool does not get stuck. \<open>Next\<close> never throws in a history of a pool: the generations cannot run
  out, since every project is admitted at most once. And when nothing is active and the pool is not
  stopped, \<open>Next\<close> without a further test either admits a project or finds that the run is done.
\<close>

theorem pool_not_stuck:
  assumes "ProjectGraph ds = Inr g" "ProjectPool g selected nd limit = Inr p" "trace pool_step p calls p'"
  shows "(\<exists>r p''. pool_Next ready p' = Inr (r, p'')) \<and> pl_nonce p' \<le> length ds \<and>
    (pl_active p' = [] \<longrightarrow> \<not> pl_stopped p' \<longrightarrow>
       (\<exists>r p''. pool_Next (\<lambda>_. True) p' = Inr (r, p'') \<and> (r \<noteq> None \<or> pool_Done p'')))"
proof -
  note r = reachable_pool [OF assms]
  have total: "\<exists>r p''. pool_Next ready p' = Inr (r, p'')" for ready using pool_Next_total [OF r(1,2)] r(6,7) by simp
  have "\<exists>r p''. pool_Next (\<lambda>_. True) p' = Inr (r, p'') \<and> (r \<noteq> None \<or> pool_Done p'')"
    if idle: "pl_active p' = []" "\<not> pl_stopped p'"
  proof -
    obtain x p'' where n: "pool_Next (\<lambda>_. True) p' = Inr (x, p'')" using total by blast
    have "0 < limit" using assms(2) by (auto simp: ProjectPool_def Let_def split: if_splits)
    then have "pool_Done p''" if "x = None"
      using pool_Next_found [OF r(1) n] that idle r(5) idle_settled [OF r(1) idle(1)]
      by (auto simp: pool_Done_def list_all_iff)
    then show ?thesis using n by blast
  qed
  then show ?thesis using total r(2,6) by (auto simp: budget_ok_def)
qed

text \<open>
  C19: a run admits each project at most once. Along any history the admissions made and the projects
  still pending at the end together are no more than the projects pending at the start.
\<close>

theorem admissions_bounded:
  assumes "ProjectGraph ds = Inr g" "ProjectPool g selected nd limit = Inr p" "pool_rank.progress p calls n p'"
  shows "n + card (pending (pl_results p')) \<le> card (pending (pl_results p)) \<and> n \<le> length ds"
proof -
  note r = reachable_pool [OF assms(1,2) trace_Nil]
  have "n + card (pending (pl_results p')) \<le> card (pending (pl_results p))"
    using pool_rank.progress_rank [OF assms(3)] r(1,2) by blast
  moreover have "card (pending (pl_results p)) \<le> length ds"
    using r(2,6) by (simp add: budget_ok_def)
  ultimately show ?thesis by simp
qed

section \<open>The serial plan is a pool of one\<close>

definition active_of :: "(nat \<times> pool_owner) list \<Rightarrow> active_project option" where
  "active_of xs =
     (case xs of
        [] \<Rightarrow> None
      | (k, x) # _ \<Rightarrow> Some \<lparr>ap_admission = po_admission x, ap_worker = map_option pw_pid (po_worker x),
                            ap_outcome = po_outcome x, ap_started = po_started x\<rparr>)"

definition plan_of :: "project_pool \<Rightarrow> serial_plan" where
  "plan_of p = \<lparr>sp_graph = pl_graph p, sp_results = pl_results p, sp_active = active_of (pl_active p), sp_nonce = pl_nonce p,
     sp_stopped = pl_stopped p, sp_no_dependencies = pl_no_dependencies p\<rparr>"

datatype plan_call =
    PlanNext
  | PlanWorkerStarted nat int
  | PlanWorkerExited nat int
  | PlanComplete nat project_outcome
  | PlanStop string

definition plan_apply :: "plan_call \<Rightarrow> serial_plan \<Rightarrow> serial_plan result" where
  "plan_apply e s =
     (case e of
        PlanNext \<Rightarrow> bindR (plan_Next s) (\<lambda>(r, s). Inr s)
      | PlanWorkerStarted k pid \<Rightarrow> bindR (plan_WorkerStarted k pid s) (\<lambda>(r, s). Inr s)
      | PlanWorkerExited k pid \<Rightarrow> bindR (plan_WorkerExited k pid s) (\<lambda>(r, s). Inr s)
      | PlanComplete k out \<Rightarrow> bindR (plan_Complete k out s) (\<lambda>(r, s). Inr s)
      | PlanStop reason \<Rightarrow> plan_Stop reason s)"

inductive plan_step :: "serial_plan \<Rightarrow> plan_call \<Rightarrow> serial_plan \<Rightarrow> bool" where
  plan_returns: "plan_apply e s = Inr s' \<Longrightarrow> plan_step s e s'"

inductive_simps plan_step_iff: "plan_step s e s'"

text \<open>The call of the pool that a call of the plan corresponds to: it numbers the workers itself.\<close>

definition pool_call_of :: "project_pool \<Rightarrow> plan_call \<Rightarrow> pool_call" where
  "pool_call_of p e =
     (case e of
        PlanNext \<Rightarrow> PoolNext (\<lambda>_. True)
      | PlanWorkerStarted k pid \<Rightarrow> PoolWorkerStarted k (pl_highest_worker p + 1) pid
      | PlanWorkerExited k pid \<Rightarrow> PoolWorkerExited k
          (case map_of (pl_active p) k of Some x \<Rightarrow> (case po_worker x of Some w \<Rightarrow> pw_index w | None \<Rightarrow> 0) | None \<Rightarrow> 0) pid
      | PlanComplete k out \<Rightarrow> PoolComplete k out
      | PlanStop reason \<Rightarrow> PoolStop reason)"

lemma pool_of_one:
  assumes "pool_inv p" "pl_limit p = 1"
  obtains "pl_active p = []"
  | k x where "pl_active p = [(k, x)]" "k \<noteq> 0" "ad_generation (po_admission x) = k" "pl_pids p = pw_pid ` set_option (po_worker x)"
    "po_started x \<or> po_worker x = None \<and> po_outcome x = None"
proof (cases "pl_active p")
  case (Cons kx xs)
  obtain k x where kx: "kx = (k, x)" by fastforce
  have "xs = []" using assms Cons by (simp add: pool_inv_def)
  then have a: "pl_active p = [(k, x)]" using Cons kx by simp
  have "ran (works [k \<mapsto> x]) = set_option (po_worker x)" by (cases "po_worker x") (auto simp: ran_def works_def)
  then have "pl_pids p = pw_pid ` set_option (po_worker x)" using assms(1) a by (simp add: pool_inv_def workers_ok_def)
  moreover have "k \<noteq> 0" "ad_generation (po_admission x) = k" "po_started x \<or> po_worker x = None \<and> po_outcome x = None"
    using owner_lookup [OF assms(1), of k x] a by (auto simp: owner_ok_def)
  ultimately show ?thesis using that(2) a by blast
qed (use that in blast)

lemma plan_of_simps [simp]:
  "sp_graph (plan_of p) = pl_graph p" "sp_results (plan_of p) = pl_results p" "sp_active (plan_of p) = active_of (pl_active p)"
  "sp_nonce (plan_of p) = pl_nonce p" "sp_stopped (plan_of p) = pl_stopped p" "sp_no_dependencies (plan_of p) = pl_no_dependencies p"
  "active_of [] = None"
  "active_of ((k, x) # xs) = Some \<lparr>ap_admission = po_admission x, ap_worker = map_option pw_pid (po_worker x),
     ap_outcome = po_outcome x, ap_started = po_started x\<rparr>"
  by (simp_all add: plan_of_def active_of_def)

lemma plan_eqI:
  "sp_graph s = sp_graph t \<Longrightarrow> sp_results s = sp_results t \<Longrightarrow> sp_active s = sp_active t \<Longrightarrow> sp_nonce s = sp_nonce t \<Longrightarrow>
   sp_stopped s = sp_stopped t \<Longrightarrow> sp_no_dependencies s = sp_no_dependencies t \<Longrightarrow> s = (t :: serial_plan)"
  by (cases s; cases t) simp

lemma plan_of_update [simp]:
  "plan_of (p\<lparr>pl_active := xs\<rparr>) = (plan_of p)\<lparr>sp_active := active_of xs\<rparr>" "plan_of (p\<lparr>pl_pids := pids\<rparr>) = plan_of p"
  by (simp_all add: plan_of_def)

lemma simulate_Next:
  assumes "pool_inv p" "pl_limit p = 1" "plan_Next (plan_of p) = Inr (r, s')"
  shows "\<exists>p'. pool_Next (\<lambda>_. True) p = Inr (r, p') \<and> plan_of p' = s'"
proof (cases "pl_active p = [] \<and> \<not> pl_stopped p")
  case True
  from assms(3) True obtain found results where n: "next_project (pl_graph p) (pl_no_dependencies p) (\<lambda>_. True) (pl_results p) = Inr (found, results)"
    by (auto simp: plan_Next_def bindR_eq_Inr)
  show ?thesis
  proof (cases found)
    case None
    then show ?thesis using assms(2,3) True n by (auto simp: plan_Next_def pool_Next_def intro!: plan_eqI)
  next
    case (Some i)
    then show ?thesis using assms(2,3) True n
      by (auto simp: plan_Next_def pool_Next_def plan_Admit_def pool_Admit_def Let_def intro!: plan_eqI split: if_splits)
  qed
next
  case False
  then have "active_of (pl_active p) \<noteq> None \<or> pl_stopped p" by (auto simp: active_of_def split: list.splits)
  then have "s' = plan_of p" "r = None" using assms(3) by (auto simp: plan_Next_def)
  moreover have "pl_stopped p \<or> 1 \<le> length (pl_active p)" using False by (cases "pl_active p") auto
  ultimately show ?thesis using assms(2) by (auto simp: pool_Next_def)
qed

text \<open>Retirement of the only owner.\<close>

lemma simulate_Retire:
  assumes "pl_active p = [(k, x)]"
  shows "plan_of (pool_Retire k p) = plan_Retire (plan_of p)"
  by (rule plan_eqI; cases "po_worker x"; cases "po_outcome x")
    (simp_all add: assms pool_Retire_def plan_Retire_def Let_def)

lemma set_owner_single [simp]: "set_owner k y [(k, x)] = [(k, y)]"
  by (simp add: set_owner_def)

lemma simulate_WorkerStarted:
  assumes "pool_inv p" "pl_limit p = 1" "plan_WorkerStarted k pid (plan_of p) = Inr (r, s')"
  shows "\<exists>p'. pool_WorkerStarted k (pl_highest_worker p + 1) pid p = Inr (r, p') \<and> plan_of p' = s'"
  using assms(1,2)
proof (cases rule: pool_of_one)
  case 1
  then show ?thesis using assms(3) by (auto simp: plan_WorkerStarted_def pool_WorkerStarted_def)
next
  case (2 k' x)
  then show ?thesis using assms(3)
    by (cases "po_worker x") (auto simp: plan_WorkerStarted_def pool_WorkerStarted_def plan_Current_def intro!: plan_eqI split: if_splits)
qed

lemma simulate_WorkerExited:
  assumes "pool_inv p" "pl_limit p = 1" "plan_WorkerExited k pid (plan_of p) = Inr (r, s')"
  shows "\<exists>p'. pool_apply (pool_call_of p (PlanWorkerExited k pid)) p = Inr p' \<and> plan_of p' = s'"
  using assms(1,2)
proof (cases rule: pool_of_one)
  case 1
  then show ?thesis using assms(3) by (auto simp: plan_WorkerExited_def pool_WorkerExited_def pool_call_of_def pool_apply_def)
next
  case (2 k' x)
  show ?thesis
  proof (cases "k = k' \<and> map_option pw_pid (po_worker x) = Some pid")
    case True
    then obtain w where w: "po_worker x = Some w" "pw_pid w = pid" by (cases "po_worker x") auto
    then have "w = \<lparr>pw_index = pw_index w, pw_pid = pid\<rparr>" by simp
    let ?q = "p\<lparr>pl_active := [(k, x\<lparr>po_worker := None\<rparr>)], pl_pids := pl_pids p - {pid}\<rparr>"
    have "pool_WorkerExited k (pw_index w) pid p = Inr (True, pool_Retire k ?q)"
      using 2 w True by (simp add: pool_WorkerExited_def)
    moreover have "s' = plan_of (pool_Retire k ?q)"
      using assms(3) 2 w True simulate_Retire [of ?q k "x\<lparr>po_worker := None\<rparr>"] by (simp add: plan_WorkerExited_def plan_Current_def)
    ultimately show ?thesis using 2 w True by (auto simp: pool_call_of_def pool_apply_def)
  next
    case False
    then have s: "s' = plan_of p" using assms(3) 2 by (auto simp: plan_WorkerExited_def plan_Current_def split: if_splits)
    have "\<exists>r. pool_WorkerExited k w pid p = Inr (r, p)" for w
      using False 2 by (cases "k = k'"; cases "po_worker x") (auto simp: pool_WorkerExited_def)
    then show ?thesis using s by (simp add: pool_call_of_def pool_apply_def bindR_eq_Inr) blast
  qed
qed

lemma simulate_Complete:
  assumes "pool_inv p" "pl_limit p = 1" "plan_Complete k out (plan_of p) = Inr (r, s')"
  shows "\<exists>p'. pool_Complete k out p = Inr (r, p') \<and> plan_of p' = s'"
  using assms(1,2)
proof (cases rule: pool_of_one)
  case 1
  then show ?thesis using assms(3) by (auto simp: plan_Complete_def pool_Complete_def)
next
  case (2 k' x)
  let ?q = "p\<lparr>pl_active := [(k', x\<lparr>po_outcome := Some out\<rparr>)]\<rparr>"
  have "plan_of (pool_Retire k' ?q) = plan_Retire ((plan_of p)\<lparr>sp_active := Some \<lparr>ap_admission = po_admission x,
      ap_worker = map_option pw_pid (po_worker x), ap_outcome = Some out, ap_started = po_started x\<rparr>\<rparr>)"
    using simulate_Retire [of ?q k' "x\<lparr>po_outcome := Some out\<rparr>"] by simp
  then show ?thesis using assms(3) 2
    by (auto simp: plan_Complete_def pool_Complete_def plan_Current_def split: if_splits)
qed

lemma simulate_Stop:
  assumes "pool_inv p" "pl_limit p = 1" "plan_Stop reason (plan_of p) = Inr s'"
  shows "\<exists>p'. pool_Stop reason p = Inr p' \<and> plan_of p' = s'"
  using assms(1,2)
proof (cases rule: pool_of_one)
  case 1
  then show ?thesis using assms(3)
    by (auto simp: plan_Stop_def pool_Stop_def cancel_unstarted_def Let_def intro!: plan_eqI split: if_splits)
next
  case (2 k x)
  then show ?thesis using assms(3)
    by (cases "po_started x") (auto simp: plan_Stop_def pool_Stop_def cancel_unstarted_def Let_def intro!: plan_eqI split: if_splits)
qed

lemma plan_step_simulated:
  assumes "pool_inv p" "pl_limit p = 1" "plan_step (plan_of p) e s'"
  shows "\<exists>p'. pool_step p (pool_call_of p e) p' \<and> plan_of p' = s'"
proof -
  have e: "plan_apply e (plan_of p) = Inr s'" using assms(3) by (simp add: plan_step_iff)
  have "\<exists>p'. pool_apply (pool_call_of p e) p = Inr p' \<and> plan_of p' = s'"
  proof (cases e)
    case PlanNext
    then obtain r where "plan_Next (plan_of p) = Inr (r, s')" using e by (auto simp: plan_apply_def bindR_eq_Inr)
    from simulate_Next [OF assms(1,2) this] show ?thesis using PlanNext by (auto simp: pool_apply_def pool_call_of_def)
  next
    case (PlanWorkerStarted k pid)
    then obtain r where "plan_WorkerStarted k pid (plan_of p) = Inr (r, s')" using e by (auto simp: plan_apply_def bindR_eq_Inr)
    from simulate_WorkerStarted [OF assms(1,2) this] show ?thesis
      using PlanWorkerStarted by (auto simp: pool_apply_def pool_call_of_def)
  next
    case (PlanWorkerExited k pid)
    then obtain r where "plan_WorkerExited k pid (plan_of p) = Inr (r, s')" using e by (auto simp: plan_apply_def bindR_eq_Inr)
    from simulate_WorkerExited [OF assms(1,2) this] show ?thesis using PlanWorkerExited by simp
  next
    case (PlanComplete k out)
    then obtain r where "plan_Complete k out (plan_of p) = Inr (r, s')" using e by (auto simp: plan_apply_def bindR_eq_Inr)
    from simulate_Complete [OF assms(1,2) this] show ?thesis using PlanComplete by (auto simp: pool_apply_def pool_call_of_def)
  next
    case (PlanStop reason)
    then have "plan_Stop reason (plan_of p) = Inr s'" using e by (simp add: plan_apply_def)
    from simulate_Stop [OF assms(1,2) this] show ?thesis using PlanStop by (auto simp: pool_apply_def pool_call_of_def)
  qed
  then show ?thesis by (auto simp: pool_step_iff)
qed

lemma plan_trace_simulated:
  assumes "trace plan_step s calls s'" "s = plan_of p" "pool_inv p" "pl_limit p = 1"
  shows "\<exists>calls' p'. trace pool_step p calls' p' \<and> plan_of p' = s'"
  using assms
proof (induction arbitrary: p rule: trace.induct)
  case (trace_Nil s)
  then show ?case using trace.trace_Nil [of pool_step p] by blast
next
  case (trace_Cons s e t es u)
  obtain q where q: "pool_step p (pool_call_of p e) q" "plan_of q = t"
    using plan_step_simulated [of p e t] trace_Cons by auto
  have "pool_inv q" "pl_limit q = 1" using pool_step_inv [OF _ q(1)] pool_step_graph [OF _ q(1)] trace_Cons.prems by auto
  then obtain calls' p' where "trace pool_step q calls' p'" "plan_of p' = u" using trace_Cons.IH [of q] q(2) by auto
  then show ?case using trace.trace_Cons [of pool_step, OF q(1)] by blast
qed

lemma plan_constructor_simulated:
  assumes "SerialProjectPlan_selection g selected nd = Inr s"
  shows "\<exists>p. ProjectPool g selected nd 1 = Inr p \<and> plan_of p = s"
  using assms
  by (auto simp: SerialProjectPlan_selection_def Initialize_def ProjectPool_def empty_plan_def Let_def bindR_eq_Inr intro!: plan_eqI
      split: if_splits)

text \<open>
  C20: the serial plan refines the pool of one worker. Every history of a serial plan is matched, call by
  call, by a history of the pool with the limit one and the same selection, with the same results,
  active project, generations and stop flag. So the order of execution the pool guarantees holds
  of the serial plan: what has run had its dependencies passed.
\<close>

theorem serial_plan_refines_pool:
  assumes "ProjectGraph ds = Inr g" "SerialProjectPlan_selection g selected nd = Inr s" "trace plan_step s calls s'"
  shows "\<exists>p calls' p'. ProjectPool g selected nd 1 = Inr p \<and> plan_of p = s \<and> trace pool_step p calls' p' \<and> plan_of p' = s' \<and>
    (\<forall>i < length ds. has_run (sp_results s' ! i) \<longrightarrow> admissible g nd (sp_results s') i)"
proof -
  obtain p where p: "ProjectPool g selected nd 1 = Inr p" "plan_of p = s" using plan_constructor_simulated [OF assms(2)] by blast
  note start = reachable_pool [OF assms(1) p(1) trace_Nil]
  obtain calls' p' where t: "trace pool_step p calls' p'" "plan_of p' = s'"
    using plan_trace_simulated [OF assms(3) p(2) [symmetric] start(1,5)] by blast
  note r = reachable_pool [OF assms(1) p(1) t(1)]
  have "sp_results s' = pl_results p'" using t(2) by auto
  then have "\<forall>i < length ds. has_run (sp_results s' ! i) \<longrightarrow> admissible g nd (sp_results s') i"
    using r by (simp add: pool_inv_def order_ok_def)
  then show ?thesis using p t by blast
qed

section \<open>A run of the example\<close>

lemma example_pool:
  "ProjectPool example_graph [True, True, True] False limit =
    (if limit = 0 \<or> 8 < limit then Inl (Invalid_argument ''Native parallel project workers require1..8'')
     else Inr \<lparr>pl_retired = [None, None, None], pl_canceled = [None, None, None], pl_graph = example_graph,
       pl_results = selected_results [True, True, True], pl_active = [], pl_highest_worker = 0, pl_pids = {},
       pl_limit = limit, pl_nonce = 0, pl_no_dependencies = False, pl_stopped = False\<rparr>)"
proof -
  have "filter (\<lambda>i. [True, True, True] ! i) [0..<3] = [0, 1, 2]" by (simp add: numeral_3_eq_3)
  moreover have "include_loop example_graph False [0, 1, 2] [False, False, False] = Inr [True, True, True]"
    by (simp add: example_fields)
  ultimately have "Closure example_graph [True, True, True] False = Inr [True, True, True]"
    by (simp add: Closure_def example_fields numeral_3_eq_3 numeral_2_eq_2 del: include_loop.simps)
  then show ?thesis by (simp add: ProjectPool_def example_fields Let_def numeral_3_eq_3)
qed

text \<open>The dependency runs and passes, then the project that needs it is admitted.\<close>

definition example_run :: "pool_call list" where
  "example_run = [PoolNext (\<lambda>_. True), PoolWorkerStarted 1 1 100, PoolComplete 1 XPassed, PoolWorkerExited 1 1 100, PoolNext (\<lambda>_. True)]"

lemmas pool_eval = pool_apply_def pool_Next_def pool_Admit_def pool_WorkerStarted_def pool_Complete_def pool_WorkerExited_def
  pool_Retire_def set_owner_def next_project.simps [of example_graph] plan_teardown_def IsTeardown_def dependency_state_def Dependencies_def
  atR_def unsettled_def Let_def

lemma example_teardowns: "pg_teardowns example_graph = {2}"
  by (simp add: example_graph_def)

lemma example_run:
  "\<exists>p p'. ProjectPool example_graph [True, True, True] False 2 = Inr p \<and> run_calls pool_apply example_run p = Inr p' \<and>
     map pr_state (pl_results p') = [PRunning, PPassed, PPending] \<and> length (pl_active p') = 1"
  by (simp add: example_pool example_run_def selected_results_def fresh_result_def pool_eval example_fields example_teardowns
      upt_rec u64_max_def)

lemma pool_trace: "run_calls pool_apply es p = Inr p' \<Longrightarrow> trace pool_step p es p'"
  by (rule trace_run_calls) (auto simp: pool_step_iff)

lemma serial_plan_trace: "run_calls plan_apply es p = Inr p' \<Longrightarrow> trace plan_step p es p'"
  by (rule trace_run_calls) (auto simp: plan_step_iff)


theorem pool_not_stuck_witness:
  "\<exists>p r p''. ProjectPool example_graph [True, True, True] False 2 = Inr p \<and> pool_Next (\<lambda>_. True) p = Inr (r, p'') \<and>
     (r \<noteq> None \<or> pool_Done p'')"
proof -
  obtain p where p: "ProjectPool example_graph [True, True, True] False 2 = Inr p" "pl_active p = []" "\<not> pl_stopped p"
    by (simp add: example_pool)
  then show ?thesis using pool_not_stuck [OF example_graph p(1) trace_Nil] by blast
qed

theorem admissions_bounded_witness:
  "\<exists>p p'. ProjectPool example_graph [True, True, True] False 2 = Inr p \<and> pool_step p (PoolNext (\<lambda>_. True)) p' \<and>
     1 + card (pending (pl_results p')) \<le> card (pending (pl_results p))"
proof -
  have "\<exists>p p'. ProjectPool example_graph [True, True, True] False 2 = Inr p \<and> pool_apply (PoolNext (\<lambda>_. True)) p = Inr p' \<and>
      pl_nonce p = 0 \<and> pl_nonce p' = 1"
    by (simp add: example_pool selected_results_def fresh_result_def pool_eval example_fields example_teardowns upt_rec u64_max_def)
  then obtain p p' where p: "ProjectPool example_graph [True, True, True] False 2 = Inr p" "pool_apply (PoolNext (\<lambda>_. True)) p = Inr p'"
    "pl_nonce p = 0" "pl_nonce p' = 1" by (elim exE conjE)
  have s: "pool_step p (PoolNext (\<lambda>_. True)) p'" using p(2) by (simp add: pool_step_iff)
  have "pool_rank.progress p [PoolNext (\<lambda>_. True)] 1 p'"
    using pool_rank.progress_Cons [OF s pool_rank.progress_Nil] p(3,4) by simp
  then show ?thesis using admissions_bounded [OF example_graph p(1)] p(1) s by blast
qed

theorem serial_plan_refines_pool_witness:
  "\<exists>s s' p'. SerialProjectPlan_selection example_graph [True, True, True] False = Inr s \<and> trace plan_step s [PlanNext] s' \<and>
     map pr_state (sp_results s') = [PPending, PRunning, PPending] \<and> plan_of p' = s'"
proof -
  have "\<exists>s s'. SerialProjectPlan_selection example_graph [True, True, True] False = Inr s \<and>
      run_calls plan_apply [PlanNext] s = Inr s' \<and> map pr_state (sp_results s') = [PPending, PRunning, PPending]"
  proof -
    have "Closure example_graph [True, True, True] False = Inr [True, True, True]"
      using example_pool [of 1] by (auto simp: ProjectPool_def example_fields Let_def bindR_eq_Inr split: if_splits)
    then show ?thesis
      by (simp add: SerialProjectPlan_selection_def Initialize_def empty_plan_def example_fields selected_results_def fresh_result_def
          plan_apply_def plan_Next_def plan_Admit_def next_project.simps [of example_graph] plan_teardown_def IsTeardown_def
          dependency_state_def Dependencies_def atR_def unsettled_def Let_def example_teardowns upt_rec u64_max_def)
  qed
  then obtain s s' where s: "SerialProjectPlan_selection example_graph [True, True, True] False = Inr s"
    "run_calls plan_apply [PlanNext] s = Inr s'" "map pr_state (sp_results s') = [PPending, PRunning, PPending]" by (elim exE conjE)
  note t = serial_plan_trace [OF s(2)]
  obtain p' where "plan_of p' = s'" using serial_plan_refines_pool [OF example_graph s(1) t] by blast
  then show ?thesis using s(1,3) t by (intro exI conjI)
qed

end
