(* ===== verification/ResourceLocks.thy ===== *)
theory ResourceLocks
  imports JsonText ProjectPool
begin

text \<open>
  Named resource locks. The class \<open>ResourceLocks\<close> of \<open>native/runner/resource_locks.h\<close> and the class
  \<open>WorkGroupLocks\<close> of \<open>native/runner/work_group_locks.h\<close> are the same code over two pools, with other
  messages; the operations are written here once, over the pool's observers, and instantiated on the
  project pool at the end of this theory. The locale \<open>reservations\<close> is what the locks rely on of a pool:
  a reservation lasts until one of its two receipts, and a receipt is never taken back.
\<close>

datatype receipt = LActive | PhysicalRetired | NeverStarted

record 'o lock_record =
  lr_owner :: 'o
  lr_receipt :: receipt

record 'o locks =
  lk_names :: "bytes list list"
  lk_records :: "'o lock_record option list"
  lk_holders :: "bytes \<rightharpoonup> 'o"
  lk_active :: nat

record lock_messages =
  lm_membership :: string
  lm_references :: string
  lm_name :: string
  lm_namespace :: string
  lm_staging :: string
  lm_lost :: string

section \<open>Operations\<close>

fun lock_name_loop :: "lock_messages \<Rightarrow> bytes list \<Rightarrow> nat \<Rightarrow> bytes set \<Rightarrow> (nat \<times> bytes set) result" where
  "lock_name_loop m [] used unique = Inr (used, unique)"
| "lock_name_loop m (name # ns) used unique =
     (if length name mod 2 \<noteq> 0 \<or> 2048 < length name \<or> 8388608 - used < length name + 32 then Inl (Invalid_argument (lm_name m))
      else if 4096 < card (insert name unique) then Inl (Invalid_argument (lm_namespace m))
      else lock_name_loop m ns (used + length name + 32) (insert name unique))"

fun lock_group_loop :: "lock_messages \<Rightarrow> bytes list list \<Rightarrow> nat \<Rightarrow> nat \<Rightarrow> bytes set \<Rightarrow> bytes list list result" where
  "lock_group_loop m [] references used unique = Inr []"
| "lock_group_loop m (names # gs) references used unique =
     (let names = remdups_adj (sort names)
      in if 4096 < length names \<or> 65536 - references < length names then Inl (Invalid_argument (lm_references m))
         else bindR (lock_name_loop m names used unique) (\<lambda>(used, unique).
              bindR (lock_group_loop m gs (references + length names) used unique) (\<lambda>gs. Inr (names # gs))))"

definition Locks :: "lock_messages \<Rightarrow> nat \<Rightarrow> bytes list list \<Rightarrow> 'o locks result" where
  "Locks m members names =
     (if length names \<noteq> members then Inl (Invalid_argument (lm_membership m))
      else bindR (lock_group_loop m names 0 0 {}) (\<lambda>names.
        Inr \<lparr>lk_names = names, lk_records = replicate members None, lk_holders = Map.empty, lk_active = 0\<rparr>))"

definition CanAcquire :: "'o locks \<Rightarrow> nat \<Rightarrow> bool" where
  "CanAcquire L i \<longleftrightarrow>
     i < length (lk_names L) \<and> lk_records L ! i = None \<and> lk_active L < 8 \<and> (\<forall>name \<in> set (lk_names L ! i). lk_holders L name = None)"

fun stage :: "string \<Rightarrow> bytes list \<Rightarrow> 'o \<Rightarrow> (bytes \<rightharpoonup> 'o) \<Rightarrow> (bytes \<rightharpoonup> 'o) result" where
  "stage m [] owner staged = Inr staged"
| "stage m (name # ns) owner staged =
     (if staged name \<noteq> None then Inl (Runtime_error m) else stage m ns owner (staged(name \<mapsto> owner)))"

definition Acquire :: "lock_messages \<Rightarrow> ('o \<Rightarrow> nat) \<Rightarrow> ('o \<Rightarrow> bool) \<Rightarrow> 'o \<Rightarrow> 'o locks \<Rightarrow> (bool \<times> 'o locks) result" where
  "Acquire m index reserved_before_start owner L =
     (if \<not> reserved_before_start owner \<or> \<not> CanAcquire L (index owner) then Inr (False, L)
      else bindR (stage (lm_staging m) (lk_names L ! index owner) owner (lk_holders L)) (\<lambda>staged.
        Inr (True, L\<lparr>lk_holders := staged,
                     lk_records := (lk_records L)[index owner := Some \<lparr>lr_owner = owner, lr_receipt = LActive\<rparr>],
                     lk_active := lk_active L + 1\<rparr>)))"

fun unstage :: "string \<Rightarrow> bytes list \<Rightarrow> 'o \<Rightarrow> (bytes \<rightharpoonup> 'o) \<Rightarrow> (bytes \<rightharpoonup> 'o) result" where
  "unstage m [] owner staged = Inr staged"
| "unstage m (name # ns) owner staged =
     (if staged name \<noteq> Some owner then Inl (Runtime_error m) else unstage m ns owner (staged(name := None)))"

definition Release :: "lock_messages \<Rightarrow> ('o \<Rightarrow> nat) \<Rightarrow> ('o \<Rightarrow> bool) \<Rightarrow> ('o \<Rightarrow> bool) \<Rightarrow> 'o \<Rightarrow> 'o locks \<Rightarrow> (bool \<times> 'o locks) result" where
  "Release m index retired canceled owner L =
     (if \<not> index owner < length (lk_records L) \<or> lk_records L ! index owner \<noteq> Some \<lparr>lr_owner = owner, lr_receipt = LActive\<rparr>
      then Inr (False, L)
      else if \<not> retired owner \<and> \<not> canceled owner then Inr (False, L)
      else bindR (unstage (lm_lost m) (lk_names L ! index owner) owner (lk_holders L)) (\<lambda>staged.
        Inr (True, L\<lparr>lk_holders := staged,
                     lk_records := (lk_records L)[index owner :=
                       Some \<lparr>lr_owner = owner, lr_receipt = if retired owner then PhysicalRetired else NeverStarted\<rparr>],
                     lk_active := usub (lk_active L) 1\<rparr>)))"

text \<open>A pool and its locks, called in any order.\<close>

datatype ('c, 'o) lock_call = OnPool 'c | OnAcquire 'o | OnRelease 'o

inductive locked :: "('s \<Rightarrow> 'c \<Rightarrow> 's \<Rightarrow> bool) \<Rightarrow> lock_messages \<Rightarrow> ('o \<Rightarrow> nat) \<Rightarrow> ('s \<Rightarrow> 'o \<Rightarrow> bool) \<Rightarrow> ('s \<Rightarrow> 'o \<Rightarrow> bool) \<Rightarrow> ('s \<Rightarrow> 'o \<Rightarrow> bool) \<Rightarrow>
    's \<times> 'o locks \<Rightarrow> ('c, 'o) lock_call \<Rightarrow> 's \<times> 'o locks \<Rightarrow> bool"
  for step m index before retired canceled where
  locked_pool: "step s e s' \<Longrightarrow> locked step m index before retired canceled (s, L) (OnPool e) (s', L)"
| locked_acquire: "Acquire m index (before s) owner L = Inr (r, L') \<Longrightarrow>
    locked step m index before retired canceled (s, L) (OnAcquire owner) (s, L')"
| locked_release: "Release m index (retired s) (canceled s) owner L = Inr (r, L') \<Longrightarrow>
    locked step m index before retired canceled (s, L) (OnRelease owner) (s, L')"


section \<open>What staging does\<close>

lemma stage_all:
  "distinct ns \<Longrightarrow> \<forall>n \<in> set ns. h n = None \<Longrightarrow> stage m ns owner h = Inr (\<lambda>n. if n \<in> set ns then Some owner else h n)"
proof (induction ns arbitrary: h)
  case (Cons a ns)
  have "\<forall>n \<in> set ns. (h(a \<mapsto> owner)) n = None" using Cons.prems by auto
  moreover have "(\<lambda>n. if n \<in> set ns then Some owner else (h(a \<mapsto> owner)) n) = (\<lambda>n. if n \<in> set (a # ns) then Some owner else h n)" by auto
  ultimately show ?case using Cons.IH [of "h(a \<mapsto> owner)"] Cons.prems by (simp del: fun_upd_apply)
qed simp

lemma unstage_all:
  "distinct ns \<Longrightarrow> \<forall>n \<in> set ns. h n = Some owner \<Longrightarrow> unstage m ns owner h = Inr (\<lambda>n. if n \<in> set ns then None else h n)"
proof (induction ns arbitrary: h)
  case (Cons a ns)
  have "\<forall>n \<in> set ns. (h(a := None)) n = Some owner" using Cons.prems by auto
  moreover have "(\<lambda>n. if n \<in> set ns then None else (h(a := None)) n) = (\<lambda>n. if n \<in> set (a # ns) then None else h n)" by auto
  ultimately show ?case using Cons.IH [of "h(a := None)"] Cons.prems by (simp del: fun_upd_apply)
qed simp

lemma sorted_distinct_adj: "sorted ys \<Longrightarrow> distinct_adj ys \<Longrightarrow> distinct (ys :: 'a :: linorder list)"
  by (induction ys rule: induct_list012) (auto simp: less_le)

lemma distinct_remdups_sort: "distinct (remdups_adj (sort (xs :: bytes list)))"
  by (rule sorted_distinct_adj) simp_all

lemma lock_group_loop_names:
  "lock_group_loop m gs references used unique = Inr names \<Longrightarrow>
   length names = length gs \<and> (\<forall>i < length gs. set (names ! i) = set (gs ! i) \<and> distinct (names ! i))"
proof (induction gs arbitrary: references used unique names)
  case (Cons g gs)
  then obtain used' unique' names' where n: "lock_group_loop m gs (references + length (remdups_adj (sort g))) used' unique' = Inr names'"
    "names = remdups_adj (sort g) # names'"
    by (auto simp: Let_def bindR_eq_Inr split: if_splits)
  from Cons.IH [OF n(1)] show ?case using n(2) distinct_remdups_sort by (auto simp: nth_Cons split: nat.splits)
qed simp

section \<open>The interface of a pool\<close>

definition record_ok :: "('o \<Rightarrow> nat) \<Rightarrow> ('o \<Rightarrow> bool) \<Rightarrow> ('o \<Rightarrow> bool) \<Rightarrow> ('o \<Rightarrow> bool) \<Rightarrow> nat \<Rightarrow> 'o lock_record \<Rightarrow> bool" where
  "record_ok index reserved retired canceled i r \<longleftrightarrow>
     index (lr_owner r) = i \<and>
     (case lr_receipt r of
        LActive \<Rightarrow> reserved (lr_owner r) \<or> retired (lr_owner r) \<or> canceled (lr_owner r)
      | PhysicalRetired \<Rightarrow> retired (lr_owner r)
      | NeverStarted \<Rightarrow> canceled (lr_owner r))"

definition holding :: "'o locks \<Rightarrow> nat \<Rightarrow> 'o \<Rightarrow> bool" where
  "holding L i owner \<longleftrightarrow> i < length (lk_records L) \<and> lk_records L ! i = Some \<lparr>lr_owner = owner, lr_receipt = LActive\<rparr>"

definition locks_ok :: "('o \<Rightarrow> nat) \<Rightarrow> 'o locks \<Rightarrow> bool" where
  "locks_ok index L \<longleftrightarrow>
     length (lk_records L) = length (lk_names L) \<and> (\<forall>ns \<in> set (lk_names L). distinct ns) \<and>
     (\<forall>i owner. holding L i owner \<longrightarrow> index owner = i) \<and>
     (\<forall>n owner. lk_holders L n = Some owner \<longleftrightarrow> (\<exists>i. holding L i owner \<and> n \<in> set (lk_names L ! i))) \<and>
     lk_active L = card {i. \<exists>owner. holding L i owner} \<and> lk_active L \<le> 8"

lemma finite_holding [simp]: "finite {i. \<exists>owner. holding L i owner}"
  by (rule finite_subset [of _ "{..<length (lk_records L)}"]) (auto simp: holding_def)

lemma holding_unique: "holding L i a \<Longrightarrow> holding L i b \<Longrightarrow> a = b"
  by (simp add: holding_def)

lemma locks_okI:
  assumes "length (lk_records L) = length (lk_names L)" "\<forall>ns \<in> set (lk_names L). distinct ns"
    "\<And>i owner. holding L i owner \<Longrightarrow> index owner = i"
    "\<And>n owner. lk_holders L n = Some owner \<longleftrightarrow> (\<exists>i. holding L i owner \<and> n \<in> set (lk_names L ! i))"
    "lk_active L = card {i. \<exists>owner. holding L i owner}" "lk_active L \<le> 8"
  shows "locks_ok index L"
  unfolding locks_ok_def using assms by blast

lemma locks_okD:
  assumes "locks_ok index L"
  shows "length (lk_records L) = length (lk_names L)" "\<forall>ns \<in> set (lk_names L). distinct ns"
    "\<And>i owner. holding L i owner \<Longrightarrow> index owner = i"
    "\<And>n owner. lk_holders L n = Some owner \<longleftrightarrow> (\<exists>i. holding L i owner \<and> n \<in> set (lk_names L ! i))"
    "lk_active L = card {i. \<exists>owner. holding L i owner}" "lk_active L \<le> 8"
  using assms unfolding locks_ok_def by blast+

lemma Acquire_ok:
  assumes "locks_ok index L" "before owner" "CanAcquire L (index owner)"
  shows "\<exists>L'. Acquire m index before owner L = Inr (True, L') \<and> locks_ok index L' \<and> lk_names L' = lk_names L \<and>
    lk_records L' = (lk_records L)[index owner := Some \<lparr>lr_owner = owner, lr_receipt = LActive\<rparr>]"
proof -
  let ?i = "index owner" and ?ns = "lk_names L ! index owner"
  note ok = locks_okD [OF assms(1)]
  have i: "?i < length (lk_records L)" "lk_records L ! ?i = None" "lk_active L < 8" "\<forall>n \<in> set ?ns. lk_holders L n = None" "distinct ?ns"
    using ok(1,2) assms(3) by (auto simp: CanAcquire_def)
  define L' where "L' = L\<lparr>lk_holders := (\<lambda>n. if n \<in> set ?ns then Some owner else lk_holders L n),
      lk_records := (lk_records L)[?i := Some \<lparr>lr_owner = owner, lr_receipt = LActive\<rparr>], lk_active := lk_active L + 1\<rparr>"
  have L': "lk_names L' = lk_names L" "lk_records L' = (lk_records L)[?i := Some \<lparr>lr_owner = owner, lr_receipt = LActive\<rparr>]"
    "lk_holders L' n = (if n \<in> set ?ns then Some owner else lk_holders L n)" "lk_active L' = lk_active L + 1" for n
    by (simp_all add: L'_def)
  have acq: "Acquire m index before owner L = Inr (True, L')"
    using assms(2,3) stage_all [OF i(5,4)] by (simp add: Acquire_def L'_def)
  have hold: "holding L' j x \<longleftrightarrow> (if j = ?i then x = owner else holding L j x)" for j x
    using i(1) by (auto simp: holding_def L' nth_list_update)
  have free: "\<not> holding L ?i x" for x using i(2) by (simp add: holding_def)
  have "{j. \<exists>x. holding L' j x} = insert ?i {j. \<exists>x. holding L j x}" using hold by auto
  moreover have "?i \<notin> {j. \<exists>x. holding L j x}" using free by blast
  ultimately have card: "card {j. \<exists>x. holding L' j x} = lk_active L + 1" using ok(5) by simp
  have "locks_ok index L'"
  proof (rule locks_okI)
    show "lk_holders L' n = Some x \<longleftrightarrow> (\<exists>j. holding L' j x \<and> n \<in> set (lk_names L' ! j))" for n x
    proof (cases "n \<in> set ?ns")
      case True
      then have "\<not> (holding L j y \<and> n \<in> set (lk_names L ! j))" for j y using i(4) ok(4) by (metis option.distinct(1))
      then show ?thesis unfolding hold L' using True by (metis option.inject)
    next
      case False
      then show ?thesis unfolding hold L' using ok(4) [of n x] free by metis
    qed
    show "index x = j" if "holding L' j x" for j x using that ok(3) [of j x] unfolding hold by (simp split: if_splits)
  qed (use ok(1,2) i(3) card L' in simp_all)
  then show ?thesis using acq L' by auto
qed

lemma Release_ok:
  assumes "locks_ok index L" "holding L (index owner) owner" "retired owner \<or> canceled owner"
  shows "\<exists>L'. Release m index retired canceled owner L = Inr (True, L') \<and> locks_ok index L' \<and> lk_names L' = lk_names L \<and>
    lk_records L' = (lk_records L)[index owner := Some \<lparr>lr_owner = owner, lr_receipt = if retired owner then PhysicalRetired else NeverStarted\<rparr>] \<and>
    (\<forall>n \<in> set (lk_names L ! index owner). lk_holders L' n = None)"
proof -
  let ?i = "index owner" and ?ns = "lk_names L ! index owner"
  let ?r = "\<lparr>lr_owner = owner, lr_receipt = if retired owner then PhysicalRetired else NeverStarted\<rparr>"
  note ok = locks_okD [OF assms(1)]
  have i: "?i < length (lk_records L)" "\<forall>n \<in> set ?ns. lk_holders L n = Some owner" "distinct ?ns"
    using ok(1,2,4) assms(2) by (auto simp: holding_def)
  have mem: "?i \<in> {j. \<exists>x. holding L j x}" using assms(2) by blast
  then have pos: "0 < lk_active L" unfolding ok(5) by (simp only: card_gt_0_iff finite_holding) blast
  define L' where "L' = L\<lparr>lk_holders := (\<lambda>n. if n \<in> set ?ns then None else lk_holders L n),
      lk_records := (lk_records L)[?i := Some ?r], lk_active := lk_active L - 1\<rparr>"
  have L': "lk_names L' = lk_names L" "lk_records L' = (lk_records L)[?i := Some ?r]"
    "lk_holders L' n = (if n \<in> set ?ns then None else lk_holders L n)" "lk_active L' = lk_active L - 1" for n
    by (simp_all add: L'_def)
  have rel: "Release m index retired canceled owner L = Inr (True, L')"
    using assms(2,3) unstage_all [OF i(3,2)] pos by (simp add: Release_def holding_def L'_def)
  have hold: "holding L' j x \<longleftrightarrow> j \<noteq> ?i \<and> holding L j x" for j x
    using i(1) by (auto simp: holding_def L' nth_list_update)
  have "{j. \<exists>x. holding L' j x} = {j. \<exists>x. holding L j x} - {?i}" using hold by auto
  then have card: "card {j. \<exists>x. holding L' j x} = lk_active L - 1" using ok(5) mem card_Diff_singleton by simp
  have "locks_ok index L'"
  proof (rule locks_okI)
    show "lk_holders L' n = Some x \<longleftrightarrow> (\<exists>j. holding L' j x \<and> n \<in> set (lk_names L' ! j))" for n x
    proof (cases "n \<in> set ?ns")
      case True
      have "j = ?i" if "holding L j y" "n \<in> set (lk_names L ! j)" for j y
      proof -
        have "lk_holders L n = Some y" using that ok(4) by blast
        then show ?thesis using i(2) True ok(3) [OF that(1)] by simp
      qed
      then show ?thesis unfolding hold L' using True by auto
    next
      case False
      then have "(\<exists>j. (j \<noteq> ?i \<and> holding L j x) \<and> n \<in> set (lk_names L ! j)) \<longleftrightarrow> (\<exists>j. holding L j x \<and> n \<in> set (lk_names L ! j))" by metis
      then show ?thesis unfolding hold L' using False ok(4) [of n x] by simp
    qed
    show "index x = j" if "holding L' j x" for j x using that ok(3) [of j x] unfolding hold by blast
  qed (use ok(1,2,6) card L' in simp_all)
  then show ?thesis using rel L' by auto
qed

lemma Acquire_cases:
  assumes "locks_ok index L" "Acquire m index before owner L = Inr (r, L')"
  shows "(\<not> r \<and> L' = L) \<or> (r \<and> before owner \<and> CanAcquire L (index owner) \<and> locks_ok index L' \<and> lk_names L' = lk_names L \<and>
    lk_records L' = (lk_records L)[index owner := Some \<lparr>lr_owner = owner, lr_receipt = LActive\<rparr>])"
proof (cases "before owner \<and> CanAcquire L (index owner)")
  case True
  then show ?thesis using Acquire_ok [OF assms(1), of before owner m] assms(2) by auto
qed (use assms(2) in \<open>auto simp: Acquire_def\<close>)

lemma Release_cases:
  assumes "locks_ok index L" "Release m index retired canceled owner L = Inr (r, L')"
  shows "(\<not> r \<and> L' = L) \<or> (r \<and> holding L (index owner) owner \<and> (retired owner \<or> canceled owner) \<and> locks_ok index L' \<and>
    lk_names L' = lk_names L \<and>
    lk_records L' = (lk_records L)[index owner := Some \<lparr>lr_owner = owner, lr_receipt = if retired owner then PhysicalRetired else NeverStarted\<rparr>])"
proof (cases "holding L (index owner) owner \<and> (retired owner \<or> canceled owner)")
  case True
  then show ?thesis using Release_ok [OF assms(1), of owner retired canceled m] assms(2) by auto
qed (use assms(2) in \<open>auto simp: Release_def holding_def split: if_splits\<close>)

lemma locks_total:
  assumes "locks_ok index L"
  shows "\<exists>r L'. Acquire m index before owner L = Inr (r, L')" "\<exists>r L'. Release m index retired canceled owner L = Inr (r, L')"
proof -
  show "\<exists>r L'. Acquire m index before owner L = Inr (r, L')"
  proof (cases "before owner \<and> CanAcquire L (index owner)")
    case True
    then show ?thesis using Acquire_ok [OF assms, of before owner m] by auto
  qed (auto simp: Acquire_def)
  show "\<exists>r L'. Release m index retired canceled owner L = Inr (r, L')"
  proof (cases "holding L (index owner) owner \<and> (retired owner \<or> canceled owner)")
    case True
    then show ?thesis using Release_ok [OF assms, of owner retired canceled m] by auto
  qed (auto simp: Release_def holding_def)
qed

text \<open>No two holders share a name, and a holder has all of its names.\<close>

lemma holders_disjoint:
  assumes "locks_ok index L" "holding L i a" "holding L j b" "i \<noteq> j"
  shows "set (lk_names L ! i) \<inter> set (lk_names L ! j) = {}"
proof -
  have "lk_holders L n = Some a" "lk_holders L n = Some b" if "n \<in> set (lk_names L ! i)" "n \<in> set (lk_names L ! j)" for n
    using locks_okD(4) [OF assms(1)] assms(2,3) that by blast+
  then have "a = b" if "n \<in> set (lk_names L ! i)" "n \<in> set (lk_names L ! j)" for n using that by fastforce
  then show ?thesis using locks_okD(3) [OF assms(1)] assms(2-4) by blast
qed

locale reservations = machine step inv
  for step :: "'s \<Rightarrow> 'c \<Rightarrow> 's \<Rightarrow> bool" and inv :: "'s \<Rightarrow> bool" +
  fixes index :: "'o \<Rightarrow> nat" and before :: "'s \<Rightarrow> 'o \<Rightarrow> bool" and reserved :: "'s \<Rightarrow> 'o \<Rightarrow> bool"
    and retired :: "'s \<Rightarrow> 'o \<Rightarrow> bool" and canceled :: "'s \<Rightarrow> 'o \<Rightarrow> bool"
  assumes before_reserved: "before s a \<Longrightarrow> reserved s a"
    and reserved_step: "inv s \<Longrightarrow> step s e s' \<Longrightarrow> reserved s a \<Longrightarrow> reserved s' a \<or> retired s' a \<or> canceled s' a"
    and retired_step: "inv s \<Longrightarrow> step s e s' \<Longrightarrow> retired s a \<Longrightarrow> retired s' a"
    and canceled_step: "inv s \<Longrightarrow> step s e s' \<Longrightarrow> canceled s a \<Longrightarrow> canceled s' a"
    and exclusive: "inv s \<Longrightarrow> reserved s a \<Longrightarrow> \<not> retired s a \<and> \<not> canceled s a"
begin

definition covered :: "'s \<Rightarrow> 'o locks \<Rightarrow> bool" where
  "covered s L \<longleftrightarrow> (\<forall>i < length (lk_records L). \<forall>r. lk_records L ! i = Some r \<longrightarrow>
     record_ok index (reserved s) (retired s) (canceled s) i r)"

definition system_ok :: "'s \<times> 'o locks \<Rightarrow> bool" where
  "system_ok sL \<longleftrightarrow> inv (fst sL) \<and> locks_ok index (snd sL) \<and> covered (fst sL) (snd sL)"

lemma record_ok_step:
  "inv s \<Longrightarrow> step s e s' \<Longrightarrow> record_ok index (reserved s) (retired s) (canceled s) i r \<Longrightarrow>
   record_ok index (reserved s') (retired s') (canceled s') i r"
  using reserved_step [of s e s' "lr_owner r"] retired_step [of s e s' "lr_owner r"] canceled_step [of s e s' "lr_owner r"]
  by (auto simp: record_ok_def split: receipt.splits)

lemma covered_update:
  assumes "covered s L" "record_ok index (reserved s) (retired s) (canceled s) k r'" "lk_records L' = (lk_records L)[k := Some r']"
  shows "covered s L'"
  unfolding covered_def
proof (intro allI impI)
  fix i r assume i: "i < length (lk_records L')" "lk_records L' ! i = Some r"
  show "record_ok index (reserved s) (retired s) (canceled s) i r"
    using assms i by (cases "i = k") (auto simp: covered_def)
qed

lemma system_step:
  assumes "system_ok sL" "locked step m index before retired canceled sL e sL'"
  shows "system_ok sL'"
  using assms(2)
proof (cases rule: locked.cases)
  case (locked_pool s e s' L)
  then show ?thesis using assms(1) step_inv record_ok_step by (auto simp: system_ok_def covered_def)
next
  case (locked_acquire s a L r L')
  have ok: "locks_ok index L" using assms(1) locked_acquire by (simp add: system_ok_def)
  show ?thesis using Acquire_cases [OF ok locked_acquire(4)]
  proof
    assume "r \<and> before s a \<and> CanAcquire L (index a) \<and> locks_ok index L' \<and> lk_names L' = lk_names L \<and>
      lk_records L' = (lk_records L)[index a := Some \<lparr>lr_owner = a, lr_receipt = LActive\<rparr>]"
    then show ?thesis
      using assms(1) locked_acquire before_reserved [of s a] covered_update [of s L "index a" "\<lparr>lr_owner = a, lr_receipt = LActive\<rparr>" L']
      by (simp add: system_ok_def record_ok_def)
  qed (use assms(1) locked_acquire in simp)
next
  case (locked_release s a L r L')
  have ok: "locks_ok index L" using assms(1) locked_release by (simp add: system_ok_def)
  show ?thesis using Release_cases [OF ok locked_release(4)]
  proof
    assume "r \<and> holding L (index a) a \<and> (retired s a \<or> canceled s a) \<and> locks_ok index L' \<and> lk_names L' = lk_names L \<and>
      lk_records L' = (lk_records L)[index a := Some \<lparr>lr_owner = a, lr_receipt = if retired s a then PhysicalRetired else NeverStarted\<rparr>]"
    then show ?thesis
      using assms(1) locked_release
        covered_update [of s L "index a" "\<lparr>lr_owner = a, lr_receipt = if retired s a then PhysicalRetired else NeverStarted\<rparr>" L']
      by (auto simp: system_ok_def record_ok_def)
  qed (use assms(1) locked_release in simp)
qed

text \<open>A lock is held as long as its owner is reserved, and its release needs a receipt of the pool.\<close>

lemma not_released_while_reserved:
  assumes "system_ok (s, L)" "reserved s a"
  shows "Release m index (retired s) (canceled s) a L = Inr (False, L)"
  using assms exclusive [of s a] by (auto simp: Release_def system_ok_def)

lemma released_on_receipt:
  assumes "system_ok (s, L)" "holding L (index a) a" "retired s a \<or> canceled s a"
  shows "\<exists>L'. Release m index (retired s) (canceled s) a L = Inr (True, L') \<and> (\<forall>n \<in> set (lk_names L ! index a). lk_holders L' n = None)"
  using Release_ok [of index L a "retired s" "canceled s" m] assms by (auto simp: system_ok_def)

lemma holder_covered:
  "system_ok (s, L) \<Longrightarrow> holding L i a \<Longrightarrow> reserved s a \<or> retired s a \<or> canceled s a"
  by (auto simp: system_ok_def covered_def record_ok_def holding_def)

end

sublocale reservations \<subseteq> system: machine "locked step m index before retired canceled" system_ok for m
  by unfold_locales (rule system_step)

section \<open>The project pool and its locks\<close>

definition tracks :: "project_pool \<Rightarrow> project_pool \<Rightarrow> bool" where
  "tracks p p' \<longleftrightarrow> (\<forall>a. (Reserved p a \<longrightarrow> Reserved p' a \<or> pool_Retired p' a \<or> CanceledBeforeStart p' a) \<and>
     (pool_Retired p a \<longrightarrow> pool_Retired p' a) \<and> (CanceledBeforeStart p a \<longrightarrow> CanceledBeforeStart p' a))"

lemma tracks_refl [simp]: "tracks p p"
  by (simp add: tracks_def)

lemma tracks_trans: "tracks p q \<Longrightarrow> tracks q r \<Longrightarrow> tracks p r"
  unfolding tracks_def by blast

lemma tracksI:
  "(\<And>a. Reserved p a \<Longrightarrow> Reserved p' a) \<Longrightarrow> pl_retired p' = pl_retired p \<Longrightarrow> pl_canceled p' = pl_canceled p \<Longrightarrow> tracks p p'"
  by (simp add: tracks_def pool_Retired_def CanceledBeforeStart_def)

lemma tracks_set_owner:
  assumes "map_of (pl_active p) k = Some x" "po_admission y = po_admission x" "pl_active p' = set_owner k y (pl_active p)"
    "pl_retired p' = pl_retired p" "pl_canceled p' = pl_canceled p"
  shows "tracks p p'"
  by (rule tracksI) (use assms in \<open>auto simp: Reserved_def map_of_set_owner split: option.splits\<close>)

text \<open>An owner leaves the active ones with a receipt of its own, in a slot that was empty.\<close>

lemma tracks_remove:
  assumes "map_of (pl_active p) k = Some x" "ad_generation (po_admission x) = k" "ad_index (po_admission x) < length (pl_results p)"
    "receipts_ok (pl_results p) (pl_retired p) (pl_canceled p)" "pr_state (pl_results p ! ad_index (po_admission x)) = PRunning"
    "pl_active p' = filter (\<lambda>(k', y). k' \<noteq> k) (pl_active p)"
    "pl_retired p' = (pl_retired p)[ad_index (po_admission x) := Some (po_admission x)] \<and> pl_canceled p' = pl_canceled p \<or>
     pl_retired p' = pl_retired p \<and> pl_canceled p' = (pl_canceled p)[ad_index (po_admission x) := Some (po_admission x)]"
  shows "tracks p p'"
proof -
  let ?i = "ad_index (po_admission x)"
  have len: "length (pl_retired p) = length (pl_results p)" "length (pl_canceled p) = length (pl_results p)"
    and "receipt_ok ?i (pl_results p ! ?i) (pl_retired p ! ?i) (pl_canceled p ! ?i)"
    using assms(3,4) by (simp_all add: receipts_ok_def)
  then have empty: "pl_retired p ! ?i = None" "pl_canceled p ! ?i = None"
    using receipt_ok_unsettled assms(5) unfolding unsettled_def by blast+
  have "Reserved p' a \<or> a = po_admission x" if "Reserved p a" for a
  proof (cases "ad_generation a = k")
    case True
    then show ?thesis using that assms(1) by (simp add: Reserved_def)
  next
    case False
    then show ?thesis using that assms(6) by (simp add: Reserved_def map_of_remove)
  qed
  moreover have "pool_Retired p' (po_admission x) \<or> CanceledBeforeStart p' (po_admission x)"
    using assms(3,7) len by (auto simp: pool_Retired_def CanceledBeforeStart_def)
  moreover have "pool_Retired p' a" if "pool_Retired p a" for a
    using that assms(7) empty(1) by (cases "ad_index a = ?i") (auto simp: pool_Retired_def)
  moreover have "CanceledBeforeStart p' a" if "CanceledBeforeStart p a" for a
    using that assms(7) empty(2) by (cases "ad_index a = ?i") (auto simp: CanceledBeforeStart_def)
  ultimately show ?thesis unfolding tracks_def by blast
qed

lemma tracks_Retire:
  assumes "pool_inv p" "map_of (pl_active p) k = Some x" "po_admission y = po_admission x"
    "q = p\<lparr>pl_active := set_owner k y (pl_active p), pl_pids := pids\<rparr>"
  shows "tracks p (pool_Retire k q)"
proof -
  have m: "map_of (pl_active q) k = Some y" using assms(2,4) by (simp add: map_of_set_owner)
  have ok: "owner_index x < length (pl_results p)" "pr_state (pl_results p ! owner_index x) = PRunning" "ad_generation (po_admission x) = k"
    using owner_lookup [OF assms(1,2)] by (simp_all add: owner_ok_def)
  have "tracks p q" by (rule tracks_set_owner [OF assms(2,3)]) (simp_all add: assms(4))
  moreover have "tracks q (pool_Retire k q)"
    using pool_Retire_cases [OF m]
  proof
    assume r: "po_worker y = None \<and> po_outcome y \<noteq> None \<and>
      pool_Retire k q = q\<lparr>pl_retired := (pl_retired q)[owner_index y := Some (po_admission y)],
        pl_results := (pl_results q)[owner_index y := (pl_results q ! owner_index y)\<lparr>pr_state := outcome_state (the (po_outcome y))\<rparr>],
        pl_active := filter (\<lambda>(k', y). k' \<noteq> k) (pl_active q)\<rparr>"
    show ?thesis by (rule tracks_remove [OF m]) (use r ok assms(1,3,4) in \<open>simp_all add: pool_inv_def\<close>)
  qed simp
  ultimately show ?thesis by (rule tracks_trans)
qed

lemma tracks_cancel_one:
  assumes "pool_inv p" "map_of (pl_active p) k = Some x"
  shows "tracks p (cancel_one reason p (k, x))"
proof (cases "po_started x")
  case False
  show ?thesis
    by (rule tracks_remove [OF assms(2)])
      (use owner_lookup [OF assms] assms(1) False in \<open>simp_all add: owner_ok_def pool_inv_def cancel_one_def\<close>)
qed (simp add: cancel_one_def)

lemma tracks_cancel_fold:
  assumes "pool_inv p" "distinct (map fst xs)" "\<forall>(k, x) \<in> set xs. map_of (pl_active p) k = Some x"
  shows "tracks p (foldl (cancel_one reason) p xs)"
  using assms
proof (induction xs arbitrary: p)
  case (Cons kx xs)
  obtain k x where kx: "kx = (k, x)" by fastforce
  have "\<forall>(k', x') \<in> set xs. map_of (pl_active (cancel_one reason p kx)) k' = Some x'"
    using Cons.prems(2,3) kx by (force simp: cancel_one_def map_of_remove)
  then have "tracks (cancel_one reason p kx) (foldl (cancel_one reason) (cancel_one reason p kx) xs)"
    using Cons.IH [of "cancel_one reason p kx"] cancel_one_inv [of p k x reason] Cons.prems kx by simp
  then show ?case using tracks_trans [OF tracks_cancel_one [of p k x reason]] Cons.prems kx by simp
qed simp

lemma pool_step_tracks:
  assumes "pool_inv p" "pool_step p e p'"
  shows "tracks p p'"
proof (cases e)
  case (PoolNext ready)
  then obtain r where r: "pool_Next ready p = Inr (r, p')" using assms(2) by (auto simp: pool_step_iff pool_apply_def bindR_eq_Inr)
  show ?thesis
  proof (cases r)
    case None
    then show ?thesis using pool_Next_found [OF assms(1) r] by (auto intro!: tracksI simp: Reserved_def)
  next
    case (Some a)
    then obtain results i where a: "pool_Admit i (p\<lparr>pl_results := results\<rparr>) = Inr (a, p')"
      using pool_Next_found [OF assms(1) r] by auto
    show ?thesis
    proof (rule tracksI)
      fix b assume "Reserved p b"
      then obtain x where "map_of (pl_active p) (ad_generation b) = Some x" "po_admission x = b"
        by (auto simp: Reserved_def split: option.splits)
      then show "Reserved p' b" using a
        by (auto simp: Reserved_def pool_Admit_def Let_def map_add_def split: if_splits)
    qed (use a in \<open>auto simp: pool_Admit_def Let_def split: if_splits\<close>)
  qed
next
  case (PoolWorkerStarted k w pid)
  have "tracks p (p\<lparr>pl_active := set_owner k (x\<lparr>po_worker := w', po_started := True\<rparr>) (pl_active p), pl_highest_worker := h, pl_pids := ps\<rparr>)"
    if "map_of (pl_active p) k = Some x" for x w' h ps
    by (rule tracks_set_owner [OF that, of "x\<lparr>po_worker := w', po_started := True\<rparr>"]) simp_all
  then show ?thesis using PoolWorkerStarted assms(2)
    by (auto simp: pool_step_iff pool_apply_def bindR_eq_Inr pool_WorkerStarted_def split: option.splits if_splits)
next
  case (PoolWorkerExited k w pid)
  then show ?thesis using assms tracks_Retire [OF assms(1)]
    by (auto simp: pool_step_iff pool_apply_def bindR_eq_Inr pool_WorkerExited_def split: option.splits if_splits)
next
  case (PoolComplete k out)
  have "tracks p (pool_Retire k (p\<lparr>pl_active := set_owner k (x\<lparr>po_outcome := Some out\<rparr>) (pl_active p)\<rparr>))"
    if "map_of (pl_active p) k = Some x" for x
    by (rule tracks_Retire [OF assms(1) that, of "x\<lparr>po_outcome := Some out\<rparr>" _ "pl_pids p"]) simp_all
  then show ?thesis using PoolComplete assms
    by (auto simp: pool_step_iff pool_apply_def bindR_eq_Inr pool_Complete_def split: option.splits if_splits)
next
  case (PoolStop reason)
  let ?q = "p\<lparr>pl_stopped := True\<rparr>"
  have "tracks p ?q" by (rule tracksI) (simp_all add: Reserved_def)
  moreover have "tracks ?q (cancel_unstarted reason ?q)"
    unfolding cancel_unstarted_fold by (rule tracks_cancel_fold) (use assms(1) in \<open>auto simp: pool_inv_def\<close>)
  moreover have "tracks r (r\<lparr>pl_results := rs\<rparr>)" for r rs by (rule tracksI) (simp_all add: Reserved_def)
  ultimately have "tracks p ((cancel_unstarted reason ?q)\<lparr>pl_results := rs\<rparr>)" for rs using tracks_trans by blast
  then show ?thesis using PoolStop assms(2) by (auto simp: pool_step_iff pool_apply_def pool_Stop_def Let_def split: if_splits)
qed

lemma pool_exclusive:
  assumes "pool_inv p" "Reserved p a"
  shows "\<not> pool_Retired p a \<and> \<not> CanceledBeforeStart p a"
proof -
  obtain x where x: "map_of (pl_active p) (ad_generation a) = Some x" "po_admission x = a"
    using assms(2) by (auto simp: Reserved_def split: option.splits)
  have a: "ad_index a < length (pl_results p)" "pr_state (pl_results p ! ad_index a) = PRunning"
    using owner_lookup [OF assms(1) x(1)] x(2) by (simp_all add: owner_ok_def)
  then have "receipt_ok (ad_index a) (pl_results p ! ad_index a) (pl_retired p ! ad_index a) (pl_canceled p ! ad_index a)"
    using assms(1) by (simp add: pool_inv_def receipts_ok_def)
  then show ?thesis using receipt_ok_unsettled a(2) unfolding unsettled_def pool_Retired_def CanceledBeforeStart_def by fastforce
qed

lemma before_start_reserved: "ReservedBeforeStart p a \<Longrightarrow> Reserved p a"
  by (auto simp: ReservedBeforeStart_def Reserved_def split: option.splits)

interpretation project_locks: reservations pool_step pool_inv ad_index ReservedBeforeStart Reserved pool_Retired CanceledBeforeStart
proof unfold_locales
  show "Reserved p' a \<or> pool_Retired p' a \<or> CanceledBeforeStart p' a" if "pool_inv p" "pool_step p e p'" "Reserved p a" for p e p' a
    using pool_step_tracks [OF that(1,2)] that(3) by (auto simp: tracks_def)
  show "pool_Retired p' a" if "pool_inv p" "pool_step p e p'" "pool_Retired p a" for p e p' a
    using pool_step_tracks [OF that(1,2)] that(3) by (auto simp: tracks_def)
  show "CanceledBeforeStart p' a" if "pool_inv p" "pool_step p e p'" "CanceledBeforeStart p a" for p e p' a
    using pool_step_tracks [OF that(1,2)] that(3) by (auto simp: tracks_def)
qed (use before_start_reserved pool_exclusive in auto)

definition project_lock_messages :: lock_messages where
  "project_lock_messages =
     \<lparr>lm_membership = ''Native resource-lock project membership mismatch'',
      lm_references = ''Native resource-lock reference capacity exceeded'',
      lm_name = ''Native resource-lock name/metadata capacity exceeded'',
      lm_namespace = ''Native resource-lock namespace capacity4096 exceeded'',
      lm_staging = ''Native atomic resource-lock admission changed during staging'',
      lm_lost = ''Native resource-lock physical retirement lost exact owner''\<rparr>"

definition ResourceLocks :: "project_pool \<Rightarrow> bytes list list \<Rightarrow> admission locks result" where
  "ResourceLocks p names = Locks project_lock_messages (length (pg_declarations (pl_graph p))) names"

definition resource_Acquire :: "project_pool \<Rightarrow> admission \<Rightarrow> admission locks \<Rightarrow> (bool \<times> admission locks) result" where
  "resource_Acquire p = Acquire project_lock_messages ad_index (ReservedBeforeStart p)"

definition resource_Release :: "project_pool \<Rightarrow> admission \<Rightarrow> admission locks \<Rightarrow> (bool \<times> admission locks) result" where
  "resource_Release p = Release project_lock_messages ad_index (pool_Retired p) (CanceledBeforeStart p)"

abbreviation project_system :: "project_pool \<times> admission locks \<Rightarrow> (pool_call, admission) lock_call \<Rightarrow> project_pool \<times> admission locks \<Rightarrow> bool" where
  "project_system \<equiv> locked pool_step project_lock_messages ad_index ReservedBeforeStart pool_Retired CanceledBeforeStart"

lemma Locks_ok:
  assumes "Locks m members names = Inr L"
  shows "locks_ok index L" "length (lk_names L) = members" "lk_records L = replicate members None"
    "\<And>i. i < members \<Longrightarrow> set (lk_names L ! i) = set (names ! i)"
proof -
  obtain names' where n: "lock_group_loop m names 0 0 {} = Inr names'" "length names = members"
    and L: "L = \<lparr>lk_names = names', lk_records = replicate members None, lk_holders = Map.empty, lk_active = 0\<rparr>"
    using assms by (auto simp: Locks_def bindR_eq_Inr split: if_splits)
  note g = lock_group_loop_names [OF n(1)]
  have none: "\<not> holding L i a" for i a by (auto simp: L holding_def)
  show "locks_ok index L" by (rule locks_okI) (use g n(2) none in \<open>auto simp: L in_set_conv_nth\<close>)
  show "length (lk_names L) = members" "lk_records L = replicate members None"
    "\<And>i. i < members \<Longrightarrow> set (lk_names L ! i) = set (names ! i)"
    using g n(2) by (simp_all add: L)
qed

lemma project_system_ok:
  assumes "ProjectGraph ds = Inr g" "ProjectPool g selected nd limit = Inr p" "ResourceLocks p names = Inr L"
    "trace project_system (p, L) calls (p', L')"
  shows "project_locks.system_ok (p', L')"
proof -
  have "pool_inv p" using reachable_pool(1) [OF assms(1,2) trace_Nil] .
  moreover have "locks_ok ad_index L" "lk_records L = replicate (length (pg_declarations (pl_graph p))) None"
    using Locks_ok [of project_lock_messages _ names L] assms(3) by (simp_all add: ResourceLocks_def)
  ultimately have "project_locks.system_ok (p, L)" by (simp add: project_locks.system_ok_def project_locks.covered_def)
  then show ?thesis using project_locks.system.trace_inv [OF assms(4)] by simp
qed

section \<open>Properties\<close>

text \<open>
  C21: named locks exclude one another and are taken and given back as a whole. In every history of a project
  pool and its locks, two projects that hold their locks at the same time have no name in common, each
  of them holds all of its names, at most eight do, and neither taking nor giving back ever throws.
\<close>

theorem locks_exclusive:
  assumes "ProjectGraph ds = Inr g" "ProjectPool g selected nd limit = Inr p" "ResourceLocks p names = Inr L"
    "trace project_system (p, L) calls (p', L')"
  shows "(\<forall>i j a b. holding L' i a \<longrightarrow> holding L' j b \<longrightarrow> i \<noteq> j \<longrightarrow> set (lk_names L' ! i) \<inter> set (lk_names L' ! j) = {}) \<and>
    (\<forall>i a. holding L' i a \<longrightarrow> (\<forall>n \<in> set (lk_names L' ! i). lk_holders L' n = Some a)) \<and>
    lk_active L' \<le> 8 \<and> lk_active L' = card {i. \<exists>a. holding L' i a} \<and>
    (\<exists>r L''. resource_Acquire p' owner L' = Inr (r, L'')) \<and> (\<exists>r L''. resource_Release p' owner L' = Inr (r, L''))"
proof -
  have ok: "locks_ok ad_index L'" using project_system_ok [OF assms] by (simp add: project_locks.system_ok_def)
  then show ?thesis
    using holders_disjoint [OF ok] locks_okD(4-6) [OF ok] locks_total [OF ok]
    unfolding resource_Acquire_def resource_Release_def by blast
qed

text \<open>
  C22: locks follow the physical worker. In every history, a project that holds its locks is still reserved
  by the pool or has its receipt; while it is reserved, giving its locks back is refused; and once the
  pool has seen its worker go or has canceled it before the start, giving them back succeeds and frees
  every one of its names.
\<close>

theorem locks_follow_worker:
  assumes "ProjectGraph ds = Inr g" "ProjectPool g selected nd limit = Inr p" "ResourceLocks p names = Inr L"
    "trace project_system (p, L) calls (p', L')" "holding L' i a"
  shows "ad_index a = i \<and> (Reserved p' a \<or> pool_Retired p' a \<or> CanceledBeforeStart p' a) \<and>
    (Reserved p' a \<longrightarrow> resource_Release p' a L' = Inr (False, L')) \<and>
    (\<not> Reserved p' a \<longrightarrow> (\<exists>L''. resource_Release p' a L' = Inr (True, L'') \<and> (\<forall>n \<in> set (lk_names L' ! i). lk_holders L'' n = None)))"
proof -
  note ok = project_system_ok [OF assms(1-4)]
  have i: "ad_index a = i" using locks_okD(3) [of ad_index L', OF _ assms(5)] ok by (simp add: project_locks.system_ok_def)
  have cov: "Reserved p' a \<or> pool_Retired p' a \<or> CanceledBeforeStart p' a" using project_locks.holder_covered [OF ok assms(5)] .
  have "resource_Release p' a L' = Inr (False, L')" if "Reserved p' a"
    using project_locks.not_released_while_reserved [OF ok that] unfolding resource_Release_def .
  moreover have "\<exists>L''. resource_Release p' a L' = Inr (True, L'') \<and> (\<forall>n \<in> set (lk_names L' ! i). lk_holders L'' n = None)"
    if "\<not> Reserved p' a"
    using project_locks.released_on_receipt [OF ok, of a project_lock_messages] that cov assms(5) i unfolding resource_Release_def by simp
  ultimately show ?thesis using i cov by blast
qed

text \<open>
  Admission and locks agree. When \<open>Next\<close> is asked to admit only projects whose locks can be taken, the
  project it admits can indeed take them at once.
\<close>

theorem admitted_takes_locks:
  assumes "ProjectGraph ds = Inr g" "ProjectPool g selected nd limit = Inr p" "ResourceLocks p names = Inr L"
    "trace project_system (p, L) calls (p', L')" "pool_Next (CanAcquire L') p' = Inr (Some a, p'')"
  shows "\<exists>L''. resource_Acquire p'' a L' = Inr (True, L'') \<and> holding L'' (ad_index a) a"
proof -
  note ok = project_system_ok [OF assms(1-4)]
  have inv: "pool_inv p'" and l: "locks_ok ad_index L'" using ok by (simp_all add: project_locks.system_ok_def)
  obtain results i where i: "CanAcquire L' i" "pool_Admit i (p'\<lparr>pl_results := results\<rparr>) = Inr (a, p'')"
    using pool_Next_found [OF inv assms(5)] by auto
  have "map_of (pl_active p') (pl_nonce p' + 1) = None"
    using owner_lookup [OF inv, of "pl_nonce p' + 1"] by (cases "map_of (pl_active p') (pl_nonce p' + 1)") (auto simp: owner_ok_def)
  then have "ReservedBeforeStart p'' a" "ad_index a = i"
    using i(2) by (auto simp: pool_Admit_def Let_def ReservedBeforeStart_def map_add_def split: if_splits)
  then obtain L'' where L'': "resource_Acquire p'' a L' = Inr (True, L'')"
    "lk_records L'' = (lk_records L')[i := Some \<lparr>lr_owner = a, lr_receipt = LActive\<rparr>]"
    using Acquire_ok [OF l, of "ReservedBeforeStart p''" a project_lock_messages] i(1) unfolding resource_Acquire_def by auto
  have "i < length (lk_records L')" using i(1) locks_okD(1) [OF l] by (simp add: CanAcquire_def)
  then show ?thesis using L'' \<open>ad_index a = i\<close> by (simp add: holding_def)
qed

text \<open>Two projects of the example share a lock; the one without dependencies is admitted and takes it.\<close>

definition example_names :: "bytes list list" where
  "example_names = [[[97, 0]], [[97, 0]], []]"

definition example_admission :: admission where
  "example_admission = \<lparr>ad_index = 1, ad_generation = 1, ad_teardown = False\<rparr>"

lemma example_locks:
  "\<exists>p L p' L'. ProjectPool example_graph [True, True, True] False 2 = Inr p \<and> ResourceLocks p example_names = Inr L \<and>
     pool_Next (CanAcquire L) p = Inr (Some example_admission, p') \<and>
     resource_Acquire p' example_admission L = Inr (True, L') \<and> lk_names L' = example_names \<and>
     lk_records L' = [None, Some \<lparr>lr_owner = example_admission, lr_receipt = LActive\<rparr>, None]"
  by (simp add: example_pool selected_results_def fresh_result_def pool_eval example_fields example_teardowns upt_rec u64_max_def numeral_3_eq_3
      ResourceLocks_def Locks_def example_names_def project_lock_messages_def CanAcquire_def example_admission_def
      resource_Acquire_def Acquire_def ReservedBeforeStart_def)

lemma example_locked:
  "\<exists>p L p' L'. ProjectPool example_graph [True, True, True] False 2 = Inr p \<and> ResourceLocks p example_names = Inr L \<and>
     pool_Next (CanAcquire L) p = Inr (Some example_admission, p') \<and>
     trace project_system (p, L) [OnPool (PoolNext (CanAcquire L)), OnAcquire example_admission] (p', L') \<and> holding L' 1 example_admission"
proof -
  obtain p L p' L' where e: "ProjectPool example_graph [True, True, True] False 2 = Inr p" "ResourceLocks p example_names = Inr L"
    "pool_Next (CanAcquire L) p = Inr (Some example_admission, p')" "resource_Acquire p' example_admission L = Inr (True, L')"
    "lk_records L' = [None, Some \<lparr>lr_owner = example_admission, lr_receipt = LActive\<rparr>, None]"
    using example_locks by (elim exE conjE)
  have "project_system (p, L) (OnPool (PoolNext (CanAcquire L))) (p', L)"
    by (rule locked_pool) (simp add: pool_step_iff pool_apply_def e(3))
  moreover have "project_system (p', L) (OnAcquire example_admission) (p', L')"
    using e(4) unfolding resource_Acquire_def by (rule locked_acquire)
  ultimately have "trace project_system (p, L) [OnPool (PoolNext (CanAcquire L)), OnAcquire example_admission] (p', L')"
    by (auto simp: trace_Cons_iff)
  moreover have "holding L' 1 example_admission" using e(5) by (simp add: holding_def)
  ultimately show ?thesis using e(1,2,3) by (intro exI conjI)
qed

theorem locks_exclusive_witness:
  "\<exists>p L p' L'. ResourceLocks p example_names = Inr L \<and>
     trace project_system (p, L) [OnPool (PoolNext (CanAcquire L)), OnAcquire example_admission] (p', L') \<and>
     holding L' 1 example_admission \<and> (\<forall>n \<in> set (lk_names L' ! 1). lk_holders L' n = Some example_admission)"
proof -
  obtain p L p' L' where e: "ProjectPool example_graph [True, True, True] False 2 = Inr p" "ResourceLocks p example_names = Inr L"
    "trace project_system (p, L) [OnPool (PoolNext (CanAcquire L)), OnAcquire example_admission] (p', L')" "holding L' 1 example_admission"
    using example_locked by (elim exE conjE)
  have "\<forall>n \<in> set (lk_names L' ! 1). lk_holders L' n = Some example_admission"
    using locks_exclusive [OF example_graph e(1,2,3)] e(4) by blast
  then show ?thesis using e by (intro exI conjI)
qed

theorem locks_follow_worker_witness:
  "\<exists>p L p' L'. ResourceLocks p example_names = Inr L \<and>
     trace project_system (p, L) [OnPool (PoolNext (CanAcquire L)), OnAcquire example_admission] (p', L') \<and>
     (Reserved p' example_admission \<or> pool_Retired p' example_admission \<or> CanceledBeforeStart p' example_admission)"
proof -
  obtain p L p' L' where e: "ProjectPool example_graph [True, True, True] False 2 = Inr p" "ResourceLocks p example_names = Inr L"
    "trace project_system (p, L) [OnPool (PoolNext (CanAcquire L)), OnAcquire example_admission] (p', L')" "holding L' 1 example_admission"
    using example_locked by (elim exE conjE)
  have "Reserved p' example_admission \<or> pool_Retired p' example_admission \<or> CanceledBeforeStart p' example_admission"
    using locks_follow_worker [OF example_graph e] by (elim conjE)
  then show ?thesis using e(2,3) by (intro exI conjI)
qed

theorem admitted_takes_locks_witness:
  "\<exists>p L p' L'. ResourceLocks p example_names = Inr L \<and> pool_Next (CanAcquire L) p = Inr (Some example_admission, p') \<and>
     resource_Acquire p' example_admission L = Inr (True, L')"
proof -
  obtain p L p' L' where e: "ProjectPool example_graph [True, True, True] False 2 = Inr p" "ResourceLocks p example_names = Inr L"
    "pool_Next (CanAcquire L) p = Inr (Some example_admission, p')"
    using example_locked by (elim exE conjE)
  obtain L' where "resource_Acquire p' example_admission L = Inr (True, L')"
    using admitted_takes_locks [OF example_graph e(1,2) trace_Nil e(3)] by (elim exE conjE)
  then show ?thesis using e by (intro exI conjI)
qed

end
