(* ===== verification/FileGroups.thy ===== *)
theory FileGroups
  imports ResourceLocks
begin

text \<open>
  \<open>file_group_pool.h\<close> and \<open>file_group_locks.h\<close>: the pool that admits the work groups of one suite file to
  at most eight workers, and the named locks of those groups. The pool keeps one row per group with its
  state, admission, worker, outcome and receipts. The locks are an optimised form of the named locks of
  \<open>ResourceLocks\<close>: names are numbered once by the constructor and the holders are an array over these
  numbers, so that taking and giving back allocate nothing; the named locks are their specification.
\<close>

section \<open>The pool\<close>

datatype work_group_mode = MDefault | MParallel | MSerial

record selected_group =
  sg_mode :: work_group_mode
  sg_suite :: nat
  sg_tests :: "nat list"

record file_token =
  ft_id :: nat
  ft_device :: nat
  ft_inode :: nat

record file_work_groups =
  fw_file :: file_token
  fw_groups :: "selected_group list"

datatype file_state = FPending | FRunning | FPassed | FFailed | FInterrupted | FNotRun

datatype file_outcome = OPassed | OFailed | OInterrupted

record file_admission =
  fa_file :: file_token
  fa_index :: nat
  fa_generation :: nat

record file_worker =
  fk_index :: nat
  fk_pid :: int

record file_row =
  fr_state :: file_state
  fr_owner :: "file_admission option"
  fr_worker :: "file_worker option"
  fr_outcome :: "file_outcome option"
  fr_started :: bool
  fr_retired :: bool
  fr_canceled :: bool

record file_pool =
  fp_plan :: file_work_groups
  fp_rows :: "file_row list"
  fp_limit :: nat
  fp_active :: nat
  fp_physical :: nat
  fp_nonce :: nat
  fp_highest :: nat
  fp_stopped :: bool

type_synonym 'a file_op = "file_pool \<Rightarrow> ('a \<times> file_pool) result"

definition fresh_row :: file_row where
  "fresh_row = \<lparr>fr_state = FPending, fr_owner = None, fr_worker = None, fr_outcome = None,
     fr_started = False, fr_retired = False, fr_canceled = False\<rparr>"

definition FileGroupPool :: "file_work_groups \<Rightarrow> nat \<Rightarrow> file_pool result" where
  "FileGroupPool groups limit =
     (let rows = replicate (length (fw_groups groups)) fresh_row
      in if limit = 0 \<or> 8 < limit \<or> rows = [] \<or> 8192 < length rows
         then Inl (Invalid_argument ''Native file work-group pool capacity rejected'')
         else Inr \<lparr>fp_plan = groups, fp_rows = rows, fp_limit = limit, fp_active = 0, fp_physical = 0, fp_nonce = 0,
                   fp_highest = 0, fp_stopped = False\<rparr>)"

definition file_Exact :: "file_pool \<Rightarrow> file_admission \<Rightarrow> file_row option" where
  "file_Exact p owner =
     (if length (fp_rows p) \<le> fa_index owner then None
      else let row = fp_rows p ! fa_index owner in if fr_owner row = Some owner then Some row else None)"

definition file_Find :: "file_pool \<Rightarrow> file_admission \<Rightarrow> file_row option" where
  "file_Find p owner =
     (case file_Exact p owner of
        None \<Rightarrow> None
      | Some row \<Rightarrow> if fr_state row = FRunning then Some row else None)"

definition file_Next :: "(nat \<Rightarrow> bool) \<Rightarrow> file_admission option file_op" where
  "file_Next ready p =
     (if fp_stopped p \<or> fp_limit p \<le> fp_active p then Inr (None, p)
      else case List.find (\<lambda>i. fr_state (fp_rows p ! i) = FPending \<and> ready i) [0..<length (fp_rows p)] of
             None \<Rightarrow> Inr (None, p)
           | Some i \<Rightarrow>
               if fp_nonce p = u64_max then Inl (Overflow_error ''Native file work-group generation exhausted'')
               else let owner = \<lparr>fa_file = fw_file (fp_plan p), fa_index = i, fa_generation = fp_nonce p + 1\<rparr>
                    in Inr (Some owner,
                         p\<lparr>fp_rows := (fp_rows p)[i := (fp_rows p ! i)\<lparr>fr_owner := Some owner, fr_state := FRunning\<rparr>],
                           fp_nonce := fp_nonce p + 1, fp_active := fp_active p + 1\<rparr>))"

definition file_WorkerStarted :: "file_admission \<Rightarrow> nat \<Rightarrow> int \<Rightarrow> bool file_op" where
  "file_WorkerStarted owner index pid p =
     (case file_Find p owner of
        None \<Rightarrow> Inr (False, p)
      | Some row \<Rightarrow>
          if fr_worker row \<noteq> None \<or> fr_outcome row \<noteq> None \<or> index = 0 \<or> index \<le> fp_highest p \<or> pid \<le> 0 then Inr (False, p)
          else if list_ex (\<lambda>existing. map_option fk_pid (fr_worker existing) = Some pid) (fp_rows p) then Inr (False, p)
          else Inr (True,
            p\<lparr>fp_rows := (fp_rows p)[fa_index owner := row\<lparr>fr_worker := Some \<lparr>fk_index = index, fk_pid = pid\<rparr>, fr_started := True\<rparr>],
              fp_highest := index, fp_physical := fp_physical p + 1\<rparr>))"

fun file_outcome_state :: "file_outcome \<Rightarrow> file_state" where
  "file_outcome_state OPassed = FPassed"
| "file_outcome_state OFailed = FFailed"
| "file_outcome_state OInterrupted = FInterrupted"

definition file_Retire :: "nat \<Rightarrow> file_pool \<Rightarrow> file_pool" where
  "file_Retire i p =
     (let row = fp_rows p ! i
      in if fr_worker row \<noteq> None then p
         else case fr_outcome row of
                None \<Rightarrow> p
              | Some outcome \<Rightarrow>
                  p\<lparr>fp_rows := (fp_rows p)[i := row\<lparr>fr_state := file_outcome_state outcome, fr_retired := True\<rparr>],
                    fp_active := usub (fp_active p) 1\<rparr>)"

definition file_WorkerExited :: "file_admission \<Rightarrow> nat \<Rightarrow> int \<Rightarrow> bool file_op" where
  "file_WorkerExited owner index pid p =
     (case file_Find p owner of
        None \<Rightarrow> Inr (False, p)
      | Some row \<Rightarrow>
          if fr_worker row \<noteq> Some \<lparr>fk_index = index, fk_pid = pid\<rparr> then Inr (False, p)
          else Inr (True, file_Retire (fa_index owner)
            (p\<lparr>fp_rows := (fp_rows p)[fa_index owner := row\<lparr>fr_worker := None\<rparr>], fp_physical := usub (fp_physical p) 1\<rparr>)))"

definition file_Complete :: "file_admission \<Rightarrow> file_outcome \<Rightarrow> bool file_op" where
  "file_Complete owner outcome p =
     (case file_Find p owner of
        None \<Rightarrow> Inr (False, p)
      | Some row \<Rightarrow>
          if \<not> fr_started row \<or> fr_outcome row \<noteq> None then Inr (False, p)
          else Inr (True, file_Retire (fa_index owner) (p\<lparr>fp_rows := (fp_rows p)[fa_index owner := row\<lparr>fr_outcome := Some outcome\<rparr>]\<rparr>)))"

text \<open>The loop of \<open>Stop\<close>: the rows after it and the number of active groups left.\<close>

fun stop_rows :: "file_row list \<Rightarrow> nat \<Rightarrow> file_row list \<times> nat" where
  "stop_rows [] active = ([], active)"
| "stop_rows (row # rows) active =
     (if fr_state row = FPending then (let (rows', n) = stop_rows rows active in (row\<lparr>fr_state := FNotRun\<rparr> # rows', n))
      else if fr_state row = FRunning \<and> \<not> fr_started row
      then (let (rows', n) = stop_rows rows (usub active 1) in (row\<lparr>fr_state := FNotRun, fr_canceled := True\<rparr> # rows', n))
      else (let (rows', n) = stop_rows rows active in (row # rows', n)))"

definition file_Stop :: "file_pool \<Rightarrow> file_pool" where
  "file_Stop p =
     (if fp_stopped p then p
      else let (rows, active) = stop_rows (fp_rows p) (fp_active p)
           in p\<lparr>fp_stopped := True, fp_rows := rows, fp_active := active\<rparr>)"

definition file_Reserved :: "file_pool \<Rightarrow> file_admission \<Rightarrow> bool" where
  "file_Reserved p owner \<longleftrightarrow> file_Find p owner \<noteq> None"

definition file_ReservedBeforeStart :: "file_pool \<Rightarrow> file_admission \<Rightarrow> bool" where
  "file_ReservedBeforeStart p owner \<longleftrightarrow>
     (case file_Find p owner of
        None \<Rightarrow> False
      | Some row \<Rightarrow> \<not> fr_started row \<and> fr_worker row = None \<and> fr_outcome row = None)"

definition file_StartedWorkerExited :: "file_pool \<Rightarrow> file_admission \<Rightarrow> bool" where
  "file_StartedWorkerExited p owner \<longleftrightarrow>
     (case file_Find p owner of
        None \<Rightarrow> False
      | Some row \<Rightarrow> fr_started row \<and> fr_worker row = None \<and> fr_outcome row = None)"

definition file_Retired :: "file_pool \<Rightarrow> file_admission \<Rightarrow> bool" where
  "file_Retired p owner \<longleftrightarrow> (case file_Exact p owner of None \<Rightarrow> False | Some row \<Rightarrow> fr_retired row)"

definition file_CanceledBeforeStart :: "file_pool \<Rightarrow> file_admission \<Rightarrow> bool" where
  "file_CanceledBeforeStart p owner \<longleftrightarrow> (case file_Exact p owner of None \<Rightarrow> False | Some row \<Rightarrow> fr_canceled row)"

definition file_Done :: "file_pool \<Rightarrow> bool" where
  "file_Done p \<longleftrightarrow> fp_active p = 0 \<and> list_all (\<lambda>row. fr_state row \<noteq> FPending) (fp_rows p)"

datatype file_call =
    FileNext "nat \<Rightarrow> bool"
  | FileStarted file_admission nat int
  | FileExited file_admission nat int
  | FileComplete file_admission file_outcome
  | FileStop

definition file_apply :: "file_call \<Rightarrow> file_pool \<Rightarrow> file_pool result" where
  "file_apply e p =
     (case e of
        FileNext ready \<Rightarrow> bindR (file_Next ready p) (\<lambda>(_, p). Inr p)
      | FileStarted owner index pid \<Rightarrow> bindR (file_WorkerStarted owner index pid p) (\<lambda>(_, p). Inr p)
      | FileExited owner index pid \<Rightarrow> bindR (file_WorkerExited owner index pid p) (\<lambda>(_, p). Inr p)
      | FileComplete owner outcome \<Rightarrow> bindR (file_Complete owner outcome p) (\<lambda>(_, p). Inr p)
      | FileStop \<Rightarrow> Inr (file_Stop p))"

inductive file_step :: "file_pool \<Rightarrow> file_call \<Rightarrow> file_pool \<Rightarrow> bool" where
  file_called: "file_apply e p = Inr p' \<Longrightarrow> file_step p e p'"

inductive_simps file_step_iff: "file_step p e p'"

section \<open>The invariant\<close>

text \<open>How many rows satisfy a predicate, and how an update of one row changes the count.\<close>

definition count_if :: "('a \<Rightarrow> bool) \<Rightarrow> 'a list \<Rightarrow> nat" where
  "count_if P xs = length (filter P xs)"

lemma count_if_update:
  "i < length xs \<Longrightarrow> count_if P (xs[i := y]) + (if P (xs ! i) then 1 else 0) = count_if P xs + (if P y then 1 else 0)"
proof (induction xs arbitrary: i)
  case (Cons x xs)
  then show ?case by (cases i) (auto simp: count_if_def)
qed simp

lemma count_if_pos: "i < length xs \<Longrightarrow> P (xs ! i) \<Longrightarrow> 0 < count_if P xs"
  by (auto simp: count_if_def filter_empty_conv)

lemma count_if_le: "count_if P xs \<le> length xs"
  by (simp add: count_if_def)

lemma count_if_mono: "(\<And>x. x \<in> set xs \<Longrightarrow> P x \<Longrightarrow> Q x) \<Longrightarrow> count_if P xs \<le> count_if Q xs"
  by (induction xs) (auto simp: count_if_def intro: le_SucI)

definition owned_by :: "file_token \<Rightarrow> nat \<Rightarrow> nat \<Rightarrow> file_row \<Rightarrow> bool" where
  "owned_by f nonce i r \<longleftrightarrow>
     (case fr_owner r of
        None \<Rightarrow> False
      | Some a \<Rightarrow> fa_file a = f \<and> fa_index a = i \<and> 0 < fa_generation a \<and> fa_generation a \<le> nonce)"

fun row_ok :: "file_token \<Rightarrow> nat \<Rightarrow> nat \<Rightarrow> file_row \<Rightarrow> file_state \<Rightarrow> bool" where
  "row_ok f nonce i r FPending \<longleftrightarrow> r = fresh_row"
| "row_ok f nonce i r FRunning \<longleftrightarrow>
     owned_by f nonce i r \<and> \<not> fr_retired r \<and> \<not> fr_canceled r \<and>
     (fr_outcome r \<noteq> None \<longrightarrow> fr_worker r \<noteq> None) \<and> (fr_worker r \<noteq> None \<longrightarrow> fr_started r)"
| "row_ok f nonce i r FNotRun \<longleftrightarrow>
     \<not> fr_retired r \<and> \<not> fr_started r \<and> fr_worker r = None \<and> fr_outcome r = None \<and>
     (if fr_canceled r then owned_by f nonce i r else fr_owner r = None)"
| "row_ok f nonce i r s \<longleftrightarrow>
     owned_by f nonce i r \<and> fr_retired r \<and> fr_started r \<and> \<not> fr_canceled r \<and> fr_worker r = None \<and>
     map_option file_outcome_state (fr_outcome r) = Some s"

definition rows_ok :: "file_token \<Rightarrow> nat \<Rightarrow> file_row list \<Rightarrow> bool" where
  "rows_ok f nonce rows \<longleftrightarrow> (\<forall>i < length rows. row_ok f nonce i (rows ! i) (fr_state (rows ! i)))"

definition file_workers_ok :: "nat \<Rightarrow> file_row list \<Rightarrow> bool" where
  "file_workers_ok highest rows \<longleftrightarrow>
     (\<forall>i < length rows. \<forall>w. fr_worker (rows ! i) = Some w \<longrightarrow> 0 < fk_index w \<and> fk_index w \<le> highest \<and> 0 < fk_pid w \<and>
        (\<forall>j < length rows. \<forall>v. fr_worker (rows ! j) = Some v \<longrightarrow> i \<noteq> j \<longrightarrow> fk_index v \<noteq> fk_index w \<and> fk_pid v \<noteq> fk_pid w))"

definition generations_ok :: "file_row list \<Rightarrow> bool" where
  "generations_ok rows \<longleftrightarrow>
     (\<forall>i < length rows. \<forall>j < length rows. \<forall>a b. fr_owner (rows ! i) = Some a \<longrightarrow> fr_owner (rows ! j) = Some b \<longrightarrow> i \<noteq> j \<longrightarrow>
        fa_generation a \<noteq> fa_generation b)"

definition file_inv :: "file_pool \<Rightarrow> bool" where
  "file_inv p \<longleftrightarrow>
     rows_ok (fw_file (fp_plan p)) (fp_nonce p) (fp_rows p) \<and> file_workers_ok (fp_highest p) (fp_rows p) \<and> generations_ok (fp_rows p) \<and>
     length (fp_rows p) = length (fw_groups (fp_plan p)) \<and> length (fp_rows p) \<le> 8192 \<and> 0 < fp_limit p \<and> fp_limit p \<le> 8 \<and>
     fp_active p = count_if (\<lambda>r. fr_state r = FRunning) (fp_rows p) \<and> fp_active p \<le> fp_limit p \<and>
     fp_physical p = count_if (\<lambda>r. fr_worker r \<noteq> None) (fp_rows p) \<and>
     fp_nonce p = count_if (\<lambda>r. fr_owner r \<noteq> None) (fp_rows p) \<and>
     (fp_stopped p \<longrightarrow> (\<forall>r \<in> set (fp_rows p). fr_state r \<noteq> FPending \<and> (fr_state r = FRunning \<longrightarrow> fr_started r)))"

lemma row_ok_mono: "row_ok f n i r s \<Longrightarrow> n \<le> n' \<Longrightarrow> row_ok f n' i r s"
  by (cases s) (auto simp: owned_by_def split: option.splits if_splits)

lemma row_ok_owner: "row_ok f n i r s \<Longrightarrow> fr_owner r = Some a \<Longrightarrow> fa_index a = i \<and> 0 < fa_generation a \<and> fa_generation a \<le> n \<and> fa_file a = f"
  by (cases s) (auto simp: owned_by_def fresh_row_def split: if_splits)

lemma rows_okD: "rows_ok f n rows \<Longrightarrow> i < length rows \<Longrightarrow> row_ok f n i (rows ! i) (fr_state (rows ! i))"
  by (simp add: rows_ok_def)

lemma rows_ok_update:
  "rows_ok f n rows \<Longrightarrow> n \<le> n' \<Longrightarrow> row_ok f n' i r (fr_state r) \<Longrightarrow> rows_ok f n' (rows[i := r])"
  unfolding rows_ok_def
proof (intro allI impI)
  fix j assume a: "\<forall>j < length rows. row_ok f n j (rows ! j) (fr_state (rows ! j))" "n \<le> n'" "row_ok f n' i r (fr_state r)"
    and j: "j < length (rows[i := r])"
  show "row_ok f n' j (rows[i := r] ! j) (fr_state (rows[i := r] ! j))"
    using a j row_ok_mono [of f n j "rows ! j" "fr_state (rows ! j)" n'] by (cases "j = i") simp_all
qed

lemma file_workers_ok_update:
  assumes "file_workers_ok h rows" "h \<le> h'" "i < length rows"
    "\<And>w. fr_worker r = Some w \<Longrightarrow> fr_worker (rows ! i) = Some w \<or>
       h < fk_index w \<and> fk_index w \<le> h' \<and> 0 < fk_pid w \<and> (\<forall>x \<in> set rows. map_option fk_pid (fr_worker x) \<noteq> Some (fk_pid w))"
  shows "file_workers_ok h' (rows[i := r])"
  unfolding file_workers_ok_def
proof (intro allI impI)
  have old: "0 < fk_index w \<and> fk_index w \<le> h \<and> 0 < fk_pid w" if "j < length rows" "fr_worker (rows ! j) = Some w" for j w
    using assms(1) that by (simp add: file_workers_ok_def)
  have distinct: "fk_index v \<noteq> fk_index w \<and> fk_pid v \<noteq> fk_pid w"
    if "j < length rows" "k < length rows" "fr_worker (rows ! j) = Some w" "fr_worker (rows ! k) = Some v" "j \<noteq> k" for j k v w
    using assms(1) that unfolding file_workers_ok_def by blast
  have new: "fk_index v \<noteq> fk_index w \<and> fk_pid v \<noteq> fk_pid w"
    if "fr_worker r = Some w" "k < length rows" "fr_worker (rows ! k) = Some v" "k \<noteq> i" for k v w
  proof -
    have "\<forall>x \<in> set rows. map_option fk_pid (fr_worker x) \<noteq> Some (fk_pid w) \<Longrightarrow> fk_pid v \<noteq> fk_pid w"
      using that(2,3) nth_mem [OF that(2)] by force
    then show ?thesis using assms(4) [OF that(1)] distinct [OF assms(3) that(2) _ that(3)] old [OF that(2,3)] that(4) by auto
  qed
  fix j w assume j: "j < length (rows[i := r])" "fr_worker (rows[i := r] ! j) = Some w"
  show "0 < fk_index w \<and> fk_index w \<le> h' \<and> 0 < fk_pid w \<and> (\<forall>k < length (rows[i := r]). \<forall>v. fr_worker (rows[i := r] ! k) = Some v \<longrightarrow> j \<noteq> k \<longrightarrow>
      fk_index v \<noteq> fk_index w \<and> fk_pid v \<noteq> fk_pid w)"
  proof (cases "j = i")
    case True
    then have r: "fr_worker r = Some w" using j by simp
    have "0 < fk_index w \<and> fk_index w \<le> h' \<and> 0 < fk_pid w" using assms(4) [OF r] old [OF assms(3)] assms(2) by auto
    moreover have "fk_index v \<noteq> fk_index w \<and> fk_pid v \<noteq> fk_pid w"
      if "k < length rows" "fr_worker (rows[i := r] ! k) = Some v" "j \<noteq> k" for k v
      using new [OF r that(1), of v] that True by (simp add: nth_list_update)
    ultimately show ?thesis by simp
  next
    case False
    then have w: "j < length rows" "fr_worker (rows ! j) = Some w" using j by (simp_all add: nth_list_update)
    have "fk_index v \<noteq> fk_index w \<and> fk_pid v \<noteq> fk_pid w"
      if "k < length rows" "fr_worker (rows[i := r] ! k) = Some v" "j \<noteq> k" for k v
    proof (cases "k = i")
      case True
      then show ?thesis using new [OF _ w False, of v] that by (auto simp: nth_list_update)
    next
      case False
      then show ?thesis using distinct [OF w(1) that(1) w(2)] that(2,3) by (simp add: nth_list_update)
    qed
    then show ?thesis using old [OF w] assms(2) by simp
  qed
qed

lemma generations_ok_update:
  assumes "generations_ok rows" "rows_ok f n rows" "i < length rows"
    "fr_owner r = fr_owner (rows ! i) \<or> (\<exists>a. fr_owner r = Some a \<and> n < fa_generation a)"
  shows "generations_ok (rows[i := r])"
  unfolding generations_ok_def
proof (intro allI impI)
  have le: "fa_generation b \<le> n" if "k < length rows" "fr_owner (rows ! k) = Some b" for k b
    using row_ok_owner [OF rows_okD [OF assms(2) that(1)] that(2)] by simp
  have old: "fa_generation a \<noteq> fa_generation b"
    if "j < length rows" "k < length rows" "fr_owner (rows ! j) = Some a" "fr_owner (rows ! k) = Some b" "j \<noteq> k" for j k a b
    using assms(1) that unfolding generations_ok_def by blast
  have new: "fa_generation a \<noteq> fa_generation b" if "fr_owner r = Some a" "k < length rows" "fr_owner (rows ! k) = Some b" "k \<noteq> i" for a b k
    using assms(4) old [OF assms(3) that(2) _ that(3)] le [OF that(2,3)] that by auto
  fix j k a b
  assume j: "j < length (rows[i := r])" "k < length (rows[i := r])" "fr_owner (rows[i := r] ! j) = Some a" "fr_owner (rows[i := r] ! k) = Some b" "j \<noteq> k"
  show "fa_generation a \<noteq> fa_generation b"
  proof (cases "j = i")
    case True
    then show ?thesis using j new [of a k b] by simp
  next
    case False
    then show ?thesis using j new [of b j a] old [of j k a b] by (cases "k = i") auto
  qed
qed

lemma file_invD:
  assumes "file_inv p"
  shows "rows_ok (fw_file (fp_plan p)) (fp_nonce p) (fp_rows p)" "file_workers_ok (fp_highest p) (fp_rows p)" "generations_ok (fp_rows p)"
    "length (fp_rows p) = length (fw_groups (fp_plan p))" "length (fp_rows p) \<le> 8192" "0 < fp_limit p" "fp_limit p \<le> 8"
    "fp_active p = count_if (\<lambda>r. fr_state r = FRunning) (fp_rows p)" "fp_active p \<le> fp_limit p"
    "fp_physical p = count_if (\<lambda>r. fr_worker r \<noteq> None) (fp_rows p)" "fp_nonce p = count_if (\<lambda>r. fr_owner r \<noteq> None) (fp_rows p)"
    "fp_stopped p \<Longrightarrow> \<forall>r \<in> set (fp_rows p). fr_state r \<noteq> FPending \<and> (fr_state r = FRunning \<longrightarrow> fr_started r)"
  using assms unfolding file_inv_def by - (elim conjE, (assumption | blast))+

lemma file_inv_row:
  assumes "file_inv p" "i < length (fp_rows p)"
  shows "row_ok (fw_file (fp_plan p)) (fp_nonce p) i (fp_rows p ! i) (fr_state (fp_rows p ! i))"
  using rows_okD [OF file_invD(1) [OF assms(1)] assms(2)] .

text \<open>Every operation but \<open>Stop\<close> changes one row; this is what its new value must satisfy.\<close>

lemma file_inv_update:
  assumes "file_inv p" "i < length (fp_rows p)" "fp_rows p' = (fp_rows p)[i := r]" "fp_plan p' = fp_plan p" "fp_limit p' = fp_limit p"
    "fp_stopped p' = fp_stopped p" "fp_nonce p \<le> fp_nonce p'" "fp_highest p \<le> fp_highest p'"
    "row_ok (fw_file (fp_plan p)) (fp_nonce p') i r (fr_state r)"
    "fr_owner r = fr_owner (fp_rows p ! i) \<or> (\<exists>a. fr_owner r = Some a \<and> fp_nonce p < fa_generation a)"
    "\<And>w. fr_worker r = Some w \<Longrightarrow> fr_worker (fp_rows p ! i) = Some w \<or>
       fp_highest p < fk_index w \<and> fk_index w \<le> fp_highest p' \<and> 0 < fk_pid w \<and>
       (\<forall>x \<in> set (fp_rows p). map_option fk_pid (fr_worker x) \<noteq> Some (fk_pid w))"
    "fp_active p' + (if fr_state (fp_rows p ! i) = FRunning then 1 else 0) = fp_active p + (if fr_state r = FRunning then 1 else 0)"
    "fp_physical p' + (if fr_worker (fp_rows p ! i) \<noteq> None then 1 else 0) = fp_physical p + (if fr_worker r \<noteq> None then 1 else 0)"
    "fp_nonce p' + (if fr_owner (fp_rows p ! i) \<noteq> None then 1 else 0) = fp_nonce p + (if fr_owner r \<noteq> None then 1 else 0)"
    "fp_active p' \<le> fp_limit p" "fp_stopped p \<longrightarrow> fr_state r \<noteq> FPending \<and> (fr_state r = FRunning \<longrightarrow> fr_started r)"
  shows "file_inv p'"
proof -
  note inv = file_invD [OF assms(1)]
  have "rows_ok (fw_file (fp_plan p)) (fp_nonce p') (fp_rows p')" using rows_ok_update [OF inv(1) assms(7,9)] assms(3) by simp
  moreover have "file_workers_ok (fp_highest p') (fp_rows p')" using file_workers_ok_update [OF inv(2) assms(8,2,11)] assms(3) by simp
  moreover have "generations_ok (fp_rows p')" using generations_ok_update [OF inv(3,1) assms(2,10)] assms(3) by simp
  moreover have "fp_active p' = count_if (\<lambda>r. fr_state r = FRunning) (fp_rows p')"
    using count_if_update [OF assms(2), of "\<lambda>r. fr_state r = FRunning" r] assms(3,12) unfolding inv(8) by simp
  moreover have "fp_physical p' = count_if (\<lambda>r. fr_worker r \<noteq> None) (fp_rows p')"
    using count_if_update [OF assms(2), of "\<lambda>r. fr_worker r \<noteq> None" r] assms(3,13) unfolding inv(10) by simp
  moreover have "fp_nonce p' = count_if (\<lambda>r. fr_owner r \<noteq> None) (fp_rows p')"
    using count_if_update [OF assms(2), of "\<lambda>r. fr_owner r \<noteq> None" r] assms(3,14) inv(11) by (simp del: not_None_eq)
  moreover have "\<forall>x \<in> set (fp_rows p'). fr_state x \<noteq> FPending \<and> (fr_state x = FRunning \<longrightarrow> fr_started x)" if "fp_stopped p'"
  proof
    fix x assume "x \<in> set (fp_rows p')"
    then have "x = r \<or> x \<in> set (fp_rows p)" using set_update_subset_insert [of "fp_rows p" i r] assms(3) by auto
    then show "fr_state x \<noteq> FPending \<and> (fr_state x = FRunning \<longrightarrow> fr_started x)" using inv(12) that assms(6,16) by auto
  qed
  moreover have "length (fp_rows p') = length (fp_rows p)" using assms(3) by simp
  ultimately show ?thesis unfolding file_inv_def assms(4,5) using inv(4-7) assms(15) by (intro conjI impI) simp_all
qed

lemma file_Find_Some:
  "file_Find p a = Some row \<longleftrightarrow> fa_index a < length (fp_rows p) \<and> row = fp_rows p ! fa_index a \<and> fr_owner row = Some a \<and> fr_state row = FRunning"
  by (auto simp: file_Find_def file_Exact_def Let_def)

lemma file_Exact_Some:
  "file_Exact p a = Some row \<longleftrightarrow> fa_index a < length (fp_rows p) \<and> row = fp_rows p ! fa_index a \<and> fr_owner row = Some a"
  by (auto simp: file_Exact_def Let_def)

lemma file_Next_cases:
  assumes "file_inv p" "file_Next ready p = Inr (x, p')"
  shows "(x = None \<and> p' = p) \<or>
    (\<exists>i a. x = Some a \<and> i < length (fp_rows p) \<and> fr_state (fp_rows p ! i) = FPending \<and> ready i \<and> fp_active p < fp_limit p \<and> \<not> fp_stopped p \<and>
       a = \<lparr>fa_file = fw_file (fp_plan p), fa_index = i, fa_generation = fp_nonce p + 1\<rparr> \<and>
       p' = p\<lparr>fp_rows := (fp_rows p)[i := fresh_row\<lparr>fr_owner := Some a, fr_state := FRunning\<rparr>],
              fp_nonce := fp_nonce p + 1, fp_active := fp_active p + 1\<rparr>)"
proof (cases "fp_stopped p \<or> fp_limit p \<le> fp_active p")
  case False
  then show ?thesis
  proof (cases "List.find (\<lambda>i. fr_state (fp_rows p ! i) = FPending \<and> ready i) [0..<length (fp_rows p)]")
    case (Some i)
    then have i: "i < length (fp_rows p)" "fr_state (fp_rows p ! i) = FPending" "ready i" by (auto simp: find_Some_iff)
    moreover have "fp_rows p ! i = fresh_row" using file_inv_row [OF assms(1) i(1)] i(2) by simp
    ultimately show ?thesis using assms(2) False Some by (auto simp: file_Next_def Let_def split: if_splits)
  qed (use assms(2) False in \<open>auto simp: file_Next_def\<close>)
qed (use assms(2) in \<open>auto simp: file_Next_def\<close>)

lemma file_Next_inv:
  assumes "file_inv p" "file_Next ready p = Inr (x, p')"
  shows "file_inv p'"
  using file_Next_cases [OF assms]
proof
  assume "\<exists>i a. x = Some a \<and> i < length (fp_rows p) \<and> fr_state (fp_rows p ! i) = FPending \<and> ready i \<and> fp_active p < fp_limit p \<and> \<not> fp_stopped p \<and>
       a = \<lparr>fa_file = fw_file (fp_plan p), fa_index = i, fa_generation = fp_nonce p + 1\<rparr> \<and>
       p' = p\<lparr>fp_rows := (fp_rows p)[i := fresh_row\<lparr>fr_owner := Some a, fr_state := FRunning\<rparr>],
              fp_nonce := fp_nonce p + 1, fp_active := fp_active p + 1\<rparr>"
  then obtain i a where i: "i < length (fp_rows p)" "fr_state (fp_rows p ! i) = FPending" "fp_active p < fp_limit p" "\<not> fp_stopped p"
    and a: "a = \<lparr>fa_file = fw_file (fp_plan p), fa_index = i, fa_generation = fp_nonce p + 1\<rparr>"
    and p': "p' = p\<lparr>fp_rows := (fp_rows p)[i := fresh_row\<lparr>fr_owner := Some a, fr_state := FRunning\<rparr>],
              fp_nonce := fp_nonce p + 1, fp_active := fp_active p + 1\<rparr>" by (elim exE conjE)
  have old: "fp_rows p ! i = fresh_row" using file_inv_row [OF assms(1) i(1)] i(2) by simp
  show ?thesis
    by (rule file_inv_update [OF assms(1) i(1), where r = "fresh_row\<lparr>fr_owner := Some a, fr_state := FRunning\<rparr>"])
      (use i(3,4) in \<open>simp_all add: p' old a fresh_row_def owned_by_def\<close>)
qed (use assms(1) in simp)

lemma file_WorkerStarted_cases:
  assumes "file_WorkerStarted a index pid p = Inr (x, p')"
  shows "(\<not> x \<and> p' = p) \<or>
    (x \<and> fa_index a < length (fp_rows p) \<and> fr_owner (fp_rows p ! fa_index a) = Some a \<and> fr_state (fp_rows p ! fa_index a) = FRunning \<and>
     fr_worker (fp_rows p ! fa_index a) = None \<and> fr_outcome (fp_rows p ! fa_index a) = None \<and> fp_highest p < index \<and> 0 < pid \<and>
     (\<forall>r \<in> set (fp_rows p). map_option fk_pid (fr_worker r) \<noteq> Some pid) \<and>
     p' = p\<lparr>fp_rows := (fp_rows p)[fa_index a := (fp_rows p ! fa_index a)\<lparr>fr_worker := Some \<lparr>fk_index = index, fk_pid = pid\<rparr>, fr_started := True\<rparr>],
            fp_highest := index, fp_physical := fp_physical p + 1\<rparr>)"
proof (cases "file_Find p a")
  case (Some row)
  then have row: "fa_index a < length (fp_rows p)" "row = fp_rows p ! fa_index a" "fr_owner row = Some a" "fr_state row = FRunning"
    unfolding file_Find_Some by blast+
  show ?thesis
    using assms Some row(1,3,4) unfolding file_WorkerStarted_def row(2)
    by (auto simp: list_ex_iff not_le not_less split: if_splits)
qed (use assms in \<open>auto simp: file_WorkerStarted_def\<close>)

lemma file_WorkerStarted_inv:
  assumes "file_inv p" "file_WorkerStarted a index pid p = Inr (x, p')"
  shows "file_inv p'"
proof (cases x)
  case True
  let ?i = "fa_index a" and ?r = "(fp_rows p ! fa_index a)\<lparr>fr_worker := Some \<lparr>fk_index = index, fk_pid = pid\<rparr>, fr_started := True\<rparr>"
  have i: "?i < length (fp_rows p)" "fr_owner (fp_rows p ! ?i) = Some a" "fr_state (fp_rows p ! ?i) = FRunning"
    "fr_worker (fp_rows p ! ?i) = None" "fr_outcome (fp_rows p ! ?i) = None" "fp_highest p < index" "0 < pid"
    "\<forall>r \<in> set (fp_rows p). map_option fk_pid (fr_worker r) \<noteq> Some pid"
    and p': "p' = p\<lparr>fp_rows := (fp_rows p)[?i := ?r], fp_highest := index, fp_physical := fp_physical p + 1\<rparr>"
    using file_WorkerStarted_cases [OF assms(2)] True by simp_all
  show ?thesis
    by (rule file_inv_update [OF assms(1) i(1), where r = ?r])
      (use i file_inv_row [OF assms(1) i(1)] file_invD(9) [OF assms(1)] in \<open>simp_all add: p' owned_by_def\<close>)
next
  case False
  then show ?thesis using file_WorkerStarted_cases [OF assms(2)] assms(1) by simp
qed

text \<open>Changing a running row and retiring it.\<close>

lemma file_Retire_eq:
  assumes "i < length (fp_rows p)"
  shows "file_Retire i (p\<lparr>fp_rows := (fp_rows p)[i := r], fp_physical := n\<rparr>) =
    (case (fr_worker r, fr_outcome r) of
       (None, Some outcome) \<Rightarrow> p\<lparr>fp_rows := (fp_rows p)[i := r\<lparr>fr_state := file_outcome_state outcome, fr_retired := True\<rparr>],
           fp_physical := n, fp_active := usub (fp_active p) 1\<rparr>
     | _ \<Rightarrow> p\<lparr>fp_rows := (fp_rows p)[i := r], fp_physical := n\<rparr>)"
  using assms by (simp add: file_Retire_def Let_def split: option.splits)

lemma outcome_state_row_ok: "row_ok f n i r (file_outcome_state x) \<longleftrightarrow> owned_by f n i r \<and> fr_retired r \<and> fr_started r \<and> \<not> fr_canceled r \<and>
    fr_worker r = None \<and> map_option file_outcome_state (fr_outcome r) = Some (file_outcome_state x)"
  "file_outcome_state x \<noteq> FRunning" "file_outcome_state x \<noteq> FPending" "file_outcome_state x \<noteq> FNotRun"
  by (cases x; simp)+

lemma file_retire_inv:
  assumes "file_inv p" "i < length (fp_rows p)" "fr_state (fp_rows p ! i) = FRunning" "fr_owner r = fr_owner (fp_rows p ! i)"
    "fr_state r = FRunning" "fr_started r" "\<not> fr_retired r" "\<not> fr_canceled r" "fr_worker r = fr_worker (fp_rows p ! i) \<or> fr_worker r = None"
    "n + (if fr_worker (fp_rows p ! i) \<noteq> None then 1 else 0) = fp_physical p + (if fr_worker r \<noteq> None then 1 else 0)"
  shows "file_inv (file_Retire i (p\<lparr>fp_rows := (fp_rows p)[i := r], fp_physical := n\<rparr>))"
proof -
  note inv = file_invD [OF assms(1)]
  have row: "owned_by (fw_file (fp_plan p)) (fp_nonce p) i r"
    using file_inv_row [OF assms(1,2)] assms(3,4) by (simp add: owned_by_def)
  have pos: "0 < fp_active p" unfolding inv(8) using count_if_pos [OF assms(2), of "\<lambda>r. fr_state r = FRunning"] assms(3) by simp
  show ?thesis
  proof (cases "fr_worker r = None \<and> fr_outcome r \<noteq> None")
    case True
    then obtain outcome where o: "fr_worker r = None" "fr_outcome r = Some outcome" by auto
    define r' where "r' = r\<lparr>fr_state := file_outcome_state outcome, fr_retired := True\<rparr>"
    have r': "fr_state r' = file_outcome_state outcome" "fr_retired r'" "fr_owner r' = fr_owner r" "fr_worker r' = None" "fr_outcome r' = Some outcome"
      "fr_started r'" "\<not> fr_canceled r'" "owned_by (fw_file (fp_plan p)) (fp_nonce p) i r'"
      using o row assms(6,8) by (simp_all add: r'_def owned_by_def)
    define p' where "p' = p\<lparr>fp_rows := (fp_rows p)[i := r'], fp_physical := n, fp_active := fp_active p - 1\<rparr>"
    have "file_inv p'"
      by (rule file_inv_update [OF assms(1,2), where r = r'])
        (use assms(3,4,10) r' o(1) pos inv(9) in \<open>simp_all add: p'_def outcome_state_row_ok\<close>)
    then show ?thesis using file_Retire_eq [OF assms(2)] o pos by (simp add: p'_def r'_def)
  next
    case False
    define p' where "p' = p\<lparr>fp_rows := (fp_rows p)[i := r], fp_physical := n\<rparr>"
    have "file_inv p'"
      by (rule file_inv_update [OF assms(1,2), where r = r])
        (use assms(3-10) row False inv(9) in \<open>auto simp: p'_def\<close>)
    moreover have "file_Retire i p' = p'" using file_Retire_eq [OF assms(2)] False by (auto simp: p'_def split: option.splits)
    ultimately show ?thesis by (simp add: p'_def)
  qed
qed

lemma file_WorkerExited_cases:
  assumes "file_WorkerExited a index pid p = Inr (x, p')"
  shows "(\<not> x \<and> p' = p) \<or>
    (x \<and> fa_index a < length (fp_rows p) \<and> fr_owner (fp_rows p ! fa_index a) = Some a \<and> fr_state (fp_rows p ! fa_index a) = FRunning \<and>
     fr_worker (fp_rows p ! fa_index a) = Some \<lparr>fk_index = index, fk_pid = pid\<rparr> \<and>
     p' = file_Retire (fa_index a) (p\<lparr>fp_rows := (fp_rows p)[fa_index a := (fp_rows p ! fa_index a)\<lparr>fr_worker := None\<rparr>],
            fp_physical := usub (fp_physical p) 1\<rparr>))"
proof (cases "file_Find p a")
  case (Some row)
  then have row: "fa_index a < length (fp_rows p)" "row = fp_rows p ! fa_index a" "fr_owner row = Some a" "fr_state row = FRunning"
    unfolding file_Find_Some by blast+
  show ?thesis using assms Some row(1,3,4) unfolding file_WorkerExited_def row(2) by (auto split: if_splits)
qed (use assms in \<open>auto simp: file_WorkerExited_def\<close>)

lemma file_WorkerExited_inv:
  assumes "file_inv p" "file_WorkerExited a index pid p = Inr (x, p')"
  shows "file_inv p'"
proof (cases x)
  case True
  let ?i = "fa_index a" and ?r = "(fp_rows p ! fa_index a)\<lparr>fr_worker := None\<rparr>"
  have i: "?i < length (fp_rows p)" "fr_state (fp_rows p ! ?i) = FRunning" "fr_worker (fp_rows p ! ?i) = Some \<lparr>fk_index = index, fk_pid = pid\<rparr>"
    and p': "p' = file_Retire ?i (p\<lparr>fp_rows := (fp_rows p)[?i := ?r], fp_physical := usub (fp_physical p) 1\<rparr>)"
    using file_WorkerExited_cases [OF assms(2)] True by simp_all
  have pos: "0 < fp_physical p"
    unfolding file_invD(10) [OF assms(1)] using count_if_pos [OF i(1), of "\<lambda>r. fr_worker r \<noteq> None"] i(3) by simp
  show ?thesis unfolding p'
    by (rule file_retire_inv [OF assms(1) i(1,2)]) (use i file_inv_row [OF assms(1) i(1)] pos in simp_all)
next
  case False
  then show ?thesis using file_WorkerExited_cases [OF assms(2)] assms(1) by simp
qed

lemma file_Complete_cases:
  assumes "file_Complete a outcome p = Inr (x, p')"
  shows "(\<not> x \<and> p' = p) \<or>
    (x \<and> fa_index a < length (fp_rows p) \<and> fr_owner (fp_rows p ! fa_index a) = Some a \<and> fr_state (fp_rows p ! fa_index a) = FRunning \<and>
     fr_started (fp_rows p ! fa_index a) \<and> fr_outcome (fp_rows p ! fa_index a) = None \<and>
     p' = file_Retire (fa_index a) (p\<lparr>fp_rows := (fp_rows p)[fa_index a := (fp_rows p ! fa_index a)\<lparr>fr_outcome := Some outcome\<rparr>],
            fp_physical := fp_physical p\<rparr>))"
proof (cases "file_Find p a")
  case (Some row)
  then have row: "fa_index a < length (fp_rows p)" "row = fp_rows p ! fa_index a" "fr_owner row = Some a" "fr_state row = FRunning"
    unfolding file_Find_Some by blast+
  show ?thesis using assms Some row(1,3,4) unfolding file_Complete_def row(2) by (auto split: if_splits)
qed (use assms in \<open>auto simp: file_Complete_def\<close>)

lemma file_Complete_inv:
  assumes "file_inv p" "file_Complete a outcome p = Inr (x, p')"
  shows "file_inv p'"
proof (cases x)
  case True
  let ?i = "fa_index a" and ?r = "(fp_rows p ! fa_index a)\<lparr>fr_outcome := Some outcome\<rparr>"
  have i: "?i < length (fp_rows p)" "fr_state (fp_rows p ! ?i) = FRunning" "fr_started (fp_rows p ! ?i)"
    and p': "p' = file_Retire ?i (p\<lparr>fp_rows := (fp_rows p)[?i := ?r], fp_physical := fp_physical p\<rparr>)"
    using file_Complete_cases [OF assms(2)] True by blast+
  show ?thesis unfolding p'
    by (rule file_retire_inv [OF assms(1) i(1,2)]) (use i file_inv_row [OF assms(1) i(1)] in simp_all)
next
  case False
  then show ?thesis using file_Complete_cases [OF assms(2)] assms(1) by simp
qed

text \<open>The loop of \<open>Stop\<close> treats each row alone and takes every canceled one off the count.\<close>

definition stop_row :: "file_row \<Rightarrow> file_row" where
  "stop_row r =
     (if fr_state r = FPending then r\<lparr>fr_state := FNotRun\<rparr>
      else if fr_state r = FRunning \<and> \<not> fr_started r then r\<lparr>fr_state := FNotRun, fr_canceled := True\<rparr>
      else r)"

lemma stop_row_simps [simp]:
  "fr_owner (stop_row r) = fr_owner r" "fr_worker (stop_row r) = fr_worker r" "fr_outcome (stop_row r) = fr_outcome r"
  "fr_started (stop_row r) = fr_started r" "fr_retired (stop_row r) = fr_retired r"
  "fr_state (stop_row r) = FRunning \<longleftrightarrow> fr_state r = FRunning \<and> fr_started r" "fr_state (stop_row r) \<noteq> FPending"
  by (auto simp: stop_row_def)

lemma stop_rows_eq:
  "count_if (\<lambda>r. fr_state r = FRunning) rows \<le> active \<Longrightarrow>
   stop_rows rows active = (map stop_row rows, active - count_if (\<lambda>r. fr_state r = FRunning \<and> \<not> fr_started r) rows)"
proof (induction rows arbitrary: active)
  case (Cons r rows)
  then show ?case by (auto simp: count_if_def stop_row_def split: if_splits)
qed (simp add: count_if_def)

lemma count_if_map: "count_if P (map f xs) = count_if (\<lambda>x. P (f x)) xs"
  by (induction xs) (simp_all add: count_if_def)

lemma count_if_split: "count_if (\<lambda>x. P x \<and> Q x) xs + count_if (\<lambda>x. P x \<and> \<not> Q x) xs = count_if P xs"
  by (induction xs) (simp_all add: count_if_def)

lemma stop_row_ok: "row_ok f n i r (fr_state r) \<Longrightarrow> row_ok f n i (stop_row r) (fr_state (stop_row r))"
  by (cases "fr_state r") (auto simp: stop_row_def owned_by_def fresh_row_def)

lemma file_Stop_eq:
  assumes "file_inv p"
  shows "file_Stop p = (if fp_stopped p then p else p\<lparr>fp_stopped := True, fp_rows := map stop_row (fp_rows p),
     fp_active := count_if (\<lambda>r. fr_state r = FRunning \<and> fr_started r) (fp_rows p)\<rparr>)"
  using stop_rows_eq [of "fp_rows p" "fp_active p"] file_invD(8) [OF assms] count_if_split [of "\<lambda>r. fr_state r = FRunning" fr_started "fp_rows p"]
  by (simp add: file_Stop_def)

lemma file_Stop_inv:
  assumes "file_inv p"
  shows "file_inv (file_Stop p)"
proof (cases "fp_stopped p")
  case False
  note inv = file_invD [OF assms]
  have "rows_ok (fw_file (fp_plan p)) (fp_nonce p) (map stop_row (fp_rows p))"
    using inv(1) stop_row_ok by (simp add: rows_ok_def)
  moreover have "file_workers_ok (fp_highest p) (map stop_row (fp_rows p))" using inv(2) by (simp add: file_workers_ok_def)
  moreover have "generations_ok (map stop_row (fp_rows p))" using inv(3) by (simp add: generations_ok_def)
  moreover have "count_if (\<lambda>r. fr_state r = FRunning \<and> fr_started r) (fp_rows p) \<le> fp_limit p"
    using inv(8,9) count_if_mono [of "fp_rows p" "\<lambda>r. fr_state r = FRunning \<and> fr_started r" "\<lambda>r. fr_state r = FRunning"] by simp
  ultimately show ?thesis
    using file_Stop_eq [OF assms] False inv(4-7,10,11) by (simp add: file_inv_def count_if_map)
qed (use file_Stop_eq [OF assms] assms in simp)

lemma file_step_inv: "file_inv p \<Longrightarrow> file_step p e p' \<Longrightarrow> file_inv p'"
  by (auto simp: file_step_iff file_apply_def bindR_eq_Inr intro: file_Next_inv file_WorkerStarted_inv file_WorkerExited_inv
      file_Complete_inv file_Stop_inv split: file_call.splits)

interpretation file_pool: machine file_step file_inv
  by unfold_locales (rule file_step_inv)

lemma FileGroupPool_inv:
  assumes "FileGroupPool groups limit = Inr p"
  shows "file_inv p" "fp_plan p = groups" "fp_limit p = limit"
proof -
  show "file_inv p"
    using assms by (auto simp: FileGroupPool_def Let_def file_inv_def rows_ok_def file_workers_ok_def generations_ok_def fresh_row_def count_if_def
        split: if_splits)
  show "fp_plan p = groups" "fp_limit p = limit" using assms by (auto simp: FileGroupPool_def Let_def split: if_splits)
qed

section \<open>Reservations and receipts\<close>

text \<open>What a call may do to a row: an admission stays with its group, and it ends in a receipt that stays.\<close>

definition row_tracks :: "file_row \<Rightarrow> file_row \<Rightarrow> bool" where
  "row_tracks r r' \<longleftrightarrow>
     (fr_owner r \<noteq> None \<longrightarrow> fr_owner r' = fr_owner r) \<and> (fr_retired r \<longrightarrow> fr_retired r') \<and> (fr_canceled r \<longrightarrow> fr_canceled r') \<and>
     (fr_state r = FRunning \<longrightarrow> fr_state r' = FRunning \<or> fr_retired r' \<or> fr_canceled r')"

definition rows_track :: "file_row list \<Rightarrow> file_row list \<Rightarrow> bool" where
  "rows_track rows rows' \<longleftrightarrow> length rows' = length rows \<and> (\<forall>i < length rows. row_tracks (rows ! i) (rows' ! i))"

lemma rows_track_refl [simp]: "rows_track rows rows"
  by (simp add: rows_track_def row_tracks_def)

lemma rows_track_update: "(i < length rows \<Longrightarrow> row_tracks (rows ! i) r) \<Longrightarrow> rows_track rows (rows[i := r])"
  unfolding rows_track_def
proof (intro conjI allI impI)
  fix j assume "i < length rows \<Longrightarrow> row_tracks (rows ! i) r" "j < length rows"
  then show "row_tracks (rows ! j) (rows[i := r] ! j)" by (cases "j = i") (auto simp: row_tracks_def)
qed simp

lemma rows_track_Retire:
  assumes "row_tracks (fp_rows p ! i) r" "fr_state r = FRunning"
  shows "rows_track (fp_rows p) (fp_rows (file_Retire i (p\<lparr>fp_rows := (fp_rows p)[i := r], fp_physical := n\<rparr>)))"
proof (cases "i < length (fp_rows p)")
  case True
  have "row_tracks (fp_rows p ! i) (r\<lparr>fr_state := s, fr_retired := True\<rparr>)" for s
    using assms by (auto simp: row_tracks_def)
  then show ?thesis using assms(1) unfolding file_Retire_eq [OF True] by (auto split: option.splits intro: rows_track_update)
next
  case False
  then have [simp]: "(fp_rows p)[i := x] = fp_rows p" for x by (simp add: list_update_beyond)
  show ?thesis by (simp add: file_Retire_def Let_def split: option.splits)
qed

lemma file_step_tracks:
  assumes "file_inv p" "file_step p e p'"
  shows "rows_track (fp_rows p) (fp_rows p')"
proof (cases e)
  case (FileNext ready)
  then obtain x where "file_Next ready p = Inr (x, p')" using assms(2) by (auto simp: file_step_iff file_apply_def bindR_eq_Inr)
  from file_Next_cases [OF assms(1) this] show ?thesis
  proof (elim disjE exE conjE)
    fix i a
    assume i: "i < length (fp_rows p)" "fr_state (fp_rows p ! i) = FPending"
      and p': "p' = p\<lparr>fp_rows := (fp_rows p)[i := fresh_row\<lparr>fr_owner := Some a, fr_state := FRunning\<rparr>],
              fp_nonce := fp_nonce p + 1, fp_active := fp_active p + 1\<rparr>"
    have "fp_rows p ! i = fresh_row" using file_inv_row [OF assms(1) i(1)] i(2) by simp
    then show ?thesis unfolding p' by (simp add: rows_track_update row_tracks_def fresh_row_def)
  qed simp
next
  case (FileStarted a index pid)
  then obtain x where "file_WorkerStarted a index pid p = Inr (x, p')" using assms(2) by (auto simp: file_step_iff file_apply_def bindR_eq_Inr)
  from file_WorkerStarted_cases [OF this] show ?thesis
  proof (elim disjE conjE)
    assume p': "p' = p\<lparr>fp_rows := (fp_rows p)[fa_index a := (fp_rows p ! fa_index a)\<lparr>fr_worker := Some \<lparr>fk_index = index, fk_pid = pid\<rparr>, fr_started := True\<rparr>],
            fp_highest := index, fp_physical := fp_physical p + 1\<rparr>"
    show ?thesis unfolding p' by (simp add: rows_track_update row_tracks_def)
  qed simp
next
  case (FileExited a index pid)
  then obtain x where "file_WorkerExited a index pid p = Inr (x, p')" using assms(2) by (auto simp: file_step_iff file_apply_def bindR_eq_Inr)
  from file_WorkerExited_cases [OF this] show ?thesis
  proof (elim disjE conjE)
    assume "fr_state (fp_rows p ! fa_index a) = FRunning"
      and p': "p' = file_Retire (fa_index a) (p\<lparr>fp_rows := (fp_rows p)[fa_index a := (fp_rows p ! fa_index a)\<lparr>fr_worker := None\<rparr>],
            fp_physical := usub (fp_physical p) 1\<rparr>)"
    then show ?thesis unfolding p' by (intro rows_track_Retire) (simp_all add: row_tracks_def)
  qed simp
next
  case (FileComplete a outcome)
  then obtain x where "file_Complete a outcome p = Inr (x, p')" using assms(2) by (auto simp: file_step_iff file_apply_def bindR_eq_Inr)
  from file_Complete_cases [OF this] show ?thesis
  proof (elim disjE conjE)
    assume "fr_state (fp_rows p ! fa_index a) = FRunning"
      and p': "p' = file_Retire (fa_index a) (p\<lparr>fp_rows := (fp_rows p)[fa_index a := (fp_rows p ! fa_index a)\<lparr>fr_outcome := Some outcome\<rparr>],
            fp_physical := fp_physical p\<rparr>)"
    then show ?thesis unfolding p' by (intro rows_track_Retire) (simp_all add: row_tracks_def)
  qed simp
next
  case FileStop
  then have "p' = file_Stop p" using assms(2) by (simp add: file_step_iff file_apply_def)
  then show ?thesis using file_Stop_eq [OF assms(1)] by (simp add: rows_track_def row_tracks_def stop_row_def)
qed

lemma file_Reserved_iff:
  "file_Reserved p a \<longleftrightarrow> fa_index a < length (fp_rows p) \<and> fr_owner (fp_rows p ! fa_index a) = Some a \<and> fr_state (fp_rows p ! fa_index a) = FRunning"
  by (auto simp: file_Reserved_def file_Find_def file_Exact_def Let_def)

lemma file_receipts_iff:
  "file_Retired p a \<longleftrightarrow> fa_index a < length (fp_rows p) \<and> fr_owner (fp_rows p ! fa_index a) = Some a \<and> fr_retired (fp_rows p ! fa_index a)"
  "file_CanceledBeforeStart p a \<longleftrightarrow> fa_index a < length (fp_rows p) \<and> fr_owner (fp_rows p ! fa_index a) = Some a \<and> fr_canceled (fp_rows p ! fa_index a)"
  by (auto simp: file_Retired_def file_CanceledBeforeStart_def file_Exact_def Let_def)

lemma file_step_row:
  assumes "file_inv p" "file_step p e p'" "fa_index a < length (fp_rows p)" "fr_owner (fp_rows p ! fa_index a) = Some a"
  shows "fa_index a < length (fp_rows p')" "fr_owner (fp_rows p' ! fa_index a) = Some a" "row_tracks (fp_rows p ! fa_index a) (fp_rows p' ! fa_index a)"
  using file_step_tracks [OF assms(1,2)] assms(3,4) by (auto simp: rows_track_def row_tracks_def)

interpretation file_reservations: reservations file_step file_inv fa_index file_ReservedBeforeStart file_Reserved file_Retired file_CanceledBeforeStart
proof unfold_locales
  show "file_Reserved p a" if "file_ReservedBeforeStart p a" for p a
    using that by (auto simp: file_ReservedBeforeStart_def file_Reserved_def split: option.splits)
  show "file_Reserved p' a \<or> file_Retired p' a \<or> file_CanceledBeforeStart p' a" if "file_inv p" "file_step p e p'" "file_Reserved p a" for p e p' a
    using file_step_row [OF that(1,2)] that(3) unfolding file_Reserved_iff file_receipts_iff by (auto simp: row_tracks_def)
  show "file_Retired p' a" if "file_inv p" "file_step p e p'" "file_Retired p a" for p e p' a
    using file_step_row [OF that(1,2)] that(3) unfolding file_receipts_iff by (auto simp: row_tracks_def)
  show "file_CanceledBeforeStart p' a" if "file_inv p" "file_step p e p'" "file_CanceledBeforeStart p a" for p e p' a
    using file_step_row [OF that(1,2)] that(3) unfolding file_receipts_iff by (auto simp: row_tracks_def)
  show "\<not> file_Retired p a \<and> \<not> file_CanceledBeforeStart p a" if "file_inv p" "file_Reserved p a" for p a
    using file_inv_row [OF that(1)] that(2) unfolding file_Reserved_iff file_receipts_iff by force
qed

section \<open>The locks\<close>

record file_locks =
  fl_names :: "bytes list list"
  fl_records :: "file_admission lock_record option list"
  fl_indices :: "nat list list"
  fl_holders :: "file_admission option list"
  fl_active :: nat

definition file_lock_messages :: lock_messages where
  "file_lock_messages =
     \<lparr>lm_membership = ''Native file lock plan membership mismatch'',
      lm_references = ''Native file-group lock reference capacity exceeded'',
      lm_name = ''Native file-group lock name/metadata capacity exceeded'',
      lm_namespace = ''Native file lock namespace capacity4096 exceeded'',
      lm_staging = '''', lm_lost = ''''\<rparr>"

text \<open>The constructor numbers the names in the order in which it meets them.\<close>

fun file_name_loop :: "bytes list \<Rightarrow> nat \<Rightarrow> (bytes \<times> nat) list \<Rightarrow> (nat list \<times> nat \<times> (bytes \<times> nat) list) result" where
  "file_name_loop [] used unique = Inr ([], used, unique)"
| "file_name_loop (name # ns) used unique =
     (if length name mod 2 \<noteq> 0 \<or> 2048 < length name \<or> 8388608 - used < length name + 32
      then Inl (Invalid_argument (lm_name file_lock_messages))
      else case map_of unique name of
             Some n \<Rightarrow> bindR (file_name_loop ns (used + length name + 32) unique) (\<lambda>(ids, rest). Inr (n # ids, rest))
           | None \<Rightarrow>
               if 4096 < length unique + 1 then Inl (Invalid_argument (lm_namespace file_lock_messages))
               else bindR (file_name_loop ns (used + length name + 32) (unique @ [(name, length unique)]))
                      (\<lambda>(ids, rest). Inr (length unique # ids, rest)))"

fun file_group_loop :: "bytes list list \<Rightarrow> nat \<Rightarrow> nat \<Rightarrow> (bytes \<times> nat) list \<Rightarrow>
    (bytes list list \<times> nat list list \<times> (bytes \<times> nat) list) result" where
  "file_group_loop [] references used unique = Inr ([], [], unique)"
| "file_group_loop (names # gs) references used unique =
     (let names = remdups_adj (sort names)
      in if 4096 < length names \<or> 65536 - references < length names then Inl (Invalid_argument (lm_references file_lock_messages))
         else bindR (file_name_loop names used unique) (\<lambda>(ids, used, unique).
              bindR (file_group_loop gs (references + length names) used unique) (\<lambda>(gs, indices, unique).
                Inr (names # gs, ids # indices, unique))))"

definition FileGroupLocks :: "file_pool \<Rightarrow> bytes list list \<Rightarrow> file_locks result" where
  "FileGroupLocks p names =
     (if length names \<noteq> length (fw_groups (fp_plan p)) then Inl (Invalid_argument (lm_membership file_lock_messages))
      else bindR (file_group_loop names 0 0 []) (\<lambda>(names', indices, unique).
        Inr \<lparr>fl_names = names', fl_records = replicate (length names) None, fl_indices = indices,
             fl_holders = replicate (length unique) None, fl_active = 0\<rparr>))"

fun ids_free :: "'o option list \<Rightarrow> nat list \<Rightarrow> bool result" where
  "ids_free holders [] = Inr True"
| "ids_free holders (n # ids) = bindR (nthR holders n) (\<lambda>h. if h \<noteq> None then Inr False else ids_free holders ids)"

fun ids_owned :: "'o \<Rightarrow> 'o option list \<Rightarrow> nat list \<Rightarrow> bool result" where
  "ids_owned owner holders [] = Inr True"
| "ids_owned owner holders (n # ids) = bindR (nthR holders n) (\<lambda>h. if h \<noteq> Some owner then Inr False else ids_owned owner holders ids)"

fun set_ids :: "'o option \<Rightarrow> nat list \<Rightarrow> 'o option list \<Rightarrow> 'o option list result" where
  "set_ids h [] holders = Inr holders"
| "set_ids h (n # ids) holders = (if n < length holders then set_ids h ids (holders[n := h]) else Inl Undefined_behaviour)"

definition file_CanAcquire :: "file_locks \<Rightarrow> nat \<Rightarrow> bool result" where
  "file_CanAcquire F i =
     (if length (fl_names F) \<le> i then Inr False
      else bindR (nthR (fl_records F) i) (\<lambda>r.
        if r \<noteq> None \<or> 8 \<le> fl_active F then Inr False
        else bindR (nthR (fl_indices F) i) (ids_free (fl_holders F))))"

definition file_Acquire :: "file_pool \<Rightarrow> file_admission \<Rightarrow> file_locks \<Rightarrow> (bool \<times> file_locks) result" where
  "file_Acquire p owner F =
     (if \<not> file_ReservedBeforeStart p owner then Inr (False, F)
      else bindR (file_CanAcquire F (fa_index owner)) (\<lambda>can.
        if \<not> can then Inr (False, F)
        else bindR (nthR (fl_indices F) (fa_index owner)) (\<lambda>ids.
             bindR (set_ids (Some owner) ids (fl_holders F)) (\<lambda>holders.
               Inr (True, F\<lparr>fl_holders := holders,
                            fl_records := (fl_records F)[fa_index owner := Some \<lparr>lr_owner = owner, lr_receipt = LActive\<rparr>],
                            fl_active := fl_active F + 1\<rparr>)))))"

definition file_Release :: "file_pool \<Rightarrow> file_admission \<Rightarrow> file_locks \<Rightarrow> (bool \<times> file_locks) result" where
  "file_Release p owner F =
     (if \<not> fa_index owner < length (fl_records F) \<or> fl_records F ! fa_index owner \<noteq> Some \<lparr>lr_owner = owner, lr_receipt = LActive\<rparr>
      then Inr (False, F)
      else if \<not> file_Retired p owner \<and> \<not> file_CanceledBeforeStart p owner then Inr (False, F)
      else bindR (nthR (fl_indices F) (fa_index owner)) (\<lambda>ids.
           bindR (ids_owned owner (fl_holders F) ids) (\<lambda>owned.
             if \<not> owned then Inr (False, F)
             else bindR (set_ids None ids (fl_holders F)) (\<lambda>holders.
               Inr (True, F\<lparr>fl_holders := holders,
                            fl_records := (fl_records F)[fa_index owner :=
                              Some \<lparr>lr_owner = owner, lr_receipt = if file_Retired p owner then PhysicalRetired else NeverStarted\<rparr>],
                            fl_active := usub (fl_active F) 1\<rparr>)))))"

inductive file_locked :: "file_pool \<times> file_locks \<Rightarrow> (file_call, file_admission) lock_call \<Rightarrow> file_pool \<times> file_locks \<Rightarrow> bool" where
  file_locked_pool: "file_step p e p' \<Longrightarrow> file_locked (p, F) (OnPool e) (p', F)"
| file_locked_acquire: "file_Acquire p owner F = Inr (r, F') \<Longrightarrow> file_locked (p, F) (OnAcquire owner) (p, F')"
| file_locked_release: "file_Release p owner F = Inr (r, F') \<Longrightarrow> file_locked (p, F) (OnRelease owner) (p, F')"

abbreviation named_system :: "file_pool \<times> file_admission locks \<Rightarrow> (file_call, file_admission) lock_call \<Rightarrow> file_pool \<times> file_admission locks \<Rightarrow> bool" where
  "named_system \<equiv> locked file_step file_lock_messages fa_index file_ReservedBeforeStart file_Retired file_CanceledBeforeStart"

section \<open>The numbered locks refine the named ones\<close>

definition unique_ok :: "(bytes \<times> nat) list \<Rightarrow> bool" where
  "unique_ok u \<longleftrightarrow> distinct (map fst u) \<and> map snd u = [0..<length u] \<and> length u \<le> 4096"

definition numbered :: "(bytes \<times> nat) list \<Rightarrow> bytes list \<Rightarrow> nat list \<Rightarrow> bool" where
  "numbered u ns ids \<longleftrightarrow> map (map_of u) ns = map Some ids"

lemma numbered_mono: "numbered u ns ids \<Longrightarrow> numbered (u @ v) ns ids"
  unfolding numbered_def
proof (induction ns arbitrary: ids)
  case (Cons n ns)
  then obtain i is' where ids: "ids = i # is'" by (cases ids) auto
  with Cons show ?case by (auto simp: map_add_def)
qed simp

lemma unique_ok_snoc:
  assumes "unique_ok u" "map_of u name = None" "length u < 4096"
  shows "unique_ok (u @ [(name, length u)])"
  using assms by (auto simp: unique_ok_def map_of_eq_None_iff)

lemma unique_ok_lookup:
  assumes "unique_ok u"
  shows "map_of u n = Some k \<Longrightarrow> k < length u" "map_of u n = Some k \<Longrightarrow> map_of u m = Some k \<Longrightarrow> n = m"
proof -
  have snd: "map snd u = [0..<length u]" using assms by (simp add: unique_ok_def)
  show "k < length u" if "map_of u n = Some k"
  proof -
    have "k \<in> set (map snd u)" using map_of_SomeD [OF that] by force
    then show ?thesis unfolding snd by simp
  qed
  have "distinct (map snd u)" unfolding snd by simp
  then show "n = m" if "map_of u n = Some k" "map_of u m = Some k"
    using map_of_SomeD [OF that(1)] map_of_SomeD [OF that(2)] by (metis distinct_map inj_on_def prod.inject snd_conv)
qed

lemma file_name_loop_refines:
  assumes "unique_ok u"
  shows "case file_name_loop ns used u of
      Inl e \<Rightarrow> lock_name_loop file_lock_messages ns used (fst ` set u) = Inl e
    | Inr (ids, used', u') \<Rightarrow> lock_name_loop file_lock_messages ns used (fst ` set u) = Inr (used', fst ` set u') \<and>
        unique_ok u' \<and> (\<exists>v. u' = u @ v) \<and> numbered u' ns ids"
  using assms
proof (induction ns arbitrary: used u)
  case (Cons name ns)
  let ?bad = "length name mod 2 \<noteq> 0 \<or> 2048 < length name \<or> 8388608 - used < length name + 32"
  have card: "card (fst ` set u) = length u" "length u \<le> 4096" "distinct (map fst u)"
    using Cons.prems distinct_card [of "map fst u"] by (simp_all add: unique_ok_def)
  show ?case
  proof (cases ?bad)
    case False
    show ?thesis
    proof (cases "map_of u name")
      case None
      then have fresh: "name \<notin> fst ` set u" by (simp add: map_of_eq_None_iff)
      then have c: "card (insert name (fst ` set u)) = length u + 1" using card(1) by simp
      show ?thesis
      proof (cases "4096 < length u + 1")
        case True
        then show ?thesis using False None c by simp
      next
        case small: False
        let ?u = "u @ [(name, length u)]"
        have ok: "unique_ok ?u" using unique_ok_snoc [OF Cons.prems None] small by simp
        have set: "fst ` set ?u = insert name (fst ` set u)" by auto
        note IH = Cons.IH [OF ok, of "used + length name + 32"]
        show ?thesis
        proof (cases "file_name_loop ns (used + length name + 32) ?u")
          case (Inl e)
          then show ?thesis using False None small c IH set by simp
        next
          case (Inr x)
          obtain ids used' u' where x: "x = (ids, used', u')" by (metis prod_cases3)
          then obtain v where u': "unique_ok u'" "u' = ?u @ v" "numbered u' ns ids"
            "lock_name_loop file_lock_messages ns (used + length name + 32) (fst ` set ?u) = Inr (used', fst ` set u')"
            using IH Inr by auto
          have "map_of u' name = Some (length u)"
            using u'(1) unfolding u'(2) unique_ok_def by (intro map_of_is_SomeI) simp_all
          then have "numbered u' (name # ns) (length u # ids)" using u'(3) by (simp add: numbered_def)
          then show ?thesis using False None small c u' set Inr x by simp
        qed
      qed
    next
      case (Some n)
      then have mem: "insert name (fst ` set u) = fst ` set u" using map_of_SomeD [OF Some] by force
      note IH = Cons.IH [OF Cons.prems, of "used + length name + 32"]
      show ?thesis
      proof (cases "file_name_loop ns (used + length name + 32) u")
        case (Inl e)
        then show ?thesis using False Some mem card IH by simp
      next
        case (Inr x)
        obtain ids used' u' where x: "x = (ids, used', u')" by (metis prod_cases3)
        then obtain v where u': "unique_ok u'" "u' = u @ v" "numbered u' ns ids"
          "lock_name_loop file_lock_messages ns (used + length name + 32) (fst ` set u) = Inr (used', fst ` set u')"
          using IH Inr by auto
        have "numbered u [name] [n]" using Some by (simp add: numbered_def)
        then have "numbered u' [name] [n]" using numbered_mono [of u "[name]" "[n]" v] u'(2) by simp
        then have "numbered u' (name # ns) (n # ids)" using u'(3) by (simp add: numbered_def)
        then show ?thesis using False Some mem card u' Inr x by simp
      qed
    qed
  qed (use Cons.prems in simp)
qed (simp add: numbered_def)

lemma file_group_loop_refines:
  assumes "unique_ok u"
  shows "case file_group_loop gs references used u of
      Inl e \<Rightarrow> lock_group_loop file_lock_messages gs references used (fst ` set u) = Inl e
    | Inr (names, ixs, u') \<Rightarrow> lock_group_loop file_lock_messages gs references used (fst ` set u) = Inr names \<and>
        unique_ok u' \<and> (\<exists>v. u' = u @ v) \<and> list_all2 (numbered u') names ixs"
  using assms
proof (induction gs arbitrary: references used u)
  case (Cons g gs)
  define ns where "ns = remdups_adj (sort g)"
  let ?many = "4096 < length ns \<or> 65536 - references < length ns"
  note L = file_name_loop_refines [OF Cons.prems, of ns used]
  have unfold: "file_group_loop (g # gs) references used u =
      (if ?many then Inl (Invalid_argument (lm_references file_lock_messages))
       else bindR (file_name_loop ns used u) (\<lambda>(ids, used, unique).
            bindR (file_group_loop gs (references + length ns) used unique) (\<lambda>(gs, ixs, unique).
              Inr (ns # gs, ids # ixs, unique))))"
    "lock_group_loop file_lock_messages (g # gs) references used U =
      (if ?many then Inl (Invalid_argument (lm_references file_lock_messages))
       else bindR (lock_name_loop file_lock_messages ns used U) (\<lambda>(used, unique).
            bindR (lock_group_loop file_lock_messages gs (references + length ns) used unique) (\<lambda>gs. Inr (ns # gs))))" for U
    by (simp_all add: ns_def Let_def)
  show ?case
  proof (cases ?many)
    case False
    show ?thesis
    proof (cases "file_name_loop ns used u")
      case (Inl e)
      then show ?thesis using L False unfolding unfold by simp
    next
      case (Inr x)
      obtain ids used' u' where x: "x = (ids, used', u')" by (metis prod_cases3)
      then obtain v where n: "lock_name_loop file_lock_messages ns used (fst ` set u) = Inr (used', fst ` set u')" "unique_ok u'" "u' = u @ v"
        "numbered u' ns ids" using L Inr by auto
      note IH = Cons.IH [OF n(2), of "references + length ns" used']
      show ?thesis
      proof (cases "file_group_loop gs (references + length ns) used' u'")
        case (Inl e)
        then show ?thesis using IH Inr x n False unfolding unfold by simp
      next
        case (Inr y)
        obtain names ixs u'' where y: "y = (names, ixs, u'')" by (metis prod_cases3)
        then obtain w where g: "lock_group_loop file_lock_messages gs (references + length ns) used' (fst ` set u') = Inr names" "unique_ok u''"
          "u'' = u' @ w" "list_all2 (numbered u'') names ixs" using IH Inr by auto
        have "numbered u'' ns ids" using numbered_mono [OF n(4), of w] g(3) by simp
        then show ?thesis using \<open>file_name_loop ns used u = Inr x\<close> Inr x y n g False unfolding unfold by simp
      qed
    qed
  qed (use unfold in simp)
qed simp

text \<open>The relation: the same names and receipts, and a name is held as its number is.\<close>

definition lock_refines :: "(bytes \<times> nat) list \<Rightarrow> file_locks \<Rightarrow> file_admission locks \<Rightarrow> bool" where
  "lock_refines u F L \<longleftrightarrow>
     unique_ok u \<and> lk_names L = fl_names F \<and> lk_records L = fl_records F \<and> lk_active L = fl_active F \<and>
     list_all2 (numbered u) (fl_names F) (fl_indices F) \<and> length (fl_holders F) = length u \<and>
     (\<forall>n k. map_of u n = Some k \<longrightarrow> lk_holders L n = fl_holders F ! k)"

lemma FileGroupLocks_refines:
  "case FileGroupLocks p names of
     Inl e \<Rightarrow> Locks file_lock_messages (length (fw_groups (fp_plan p))) names = (Inl e :: file_admission locks result)
   | Inr F \<Rightarrow> \<exists>u L. Locks file_lock_messages (length (fw_groups (fp_plan p))) names = Inr L \<and> lock_refines u F L"
proof -
  note L = file_group_loop_refines [of "[]" names 0 0]
  show ?thesis
  proof (cases "length names = length (fw_groups (fp_plan p))")
    case True
    show ?thesis
    proof (cases "file_group_loop names 0 0 []")
      case (Inl e)
      then show ?thesis using L True by (simp add: FileGroupLocks_def Locks_def unique_ok_def)
    next
      case (Inr x)
      obtain ns ixs u where x: "x = (ns, ixs, u)" by (metis prod_cases3)
      then have g: "lock_group_loop file_lock_messages names 0 0 {} = Inr ns" "unique_ok u" "list_all2 (numbered u) ns ixs"
        using L Inr by (simp_all add: unique_ok_def)
      then show ?thesis using True Inr x unique_ok_lookup(1) [OF g(2)] by (auto simp: FileGroupLocks_def Locks_def lock_refines_def)
    qed
  qed (simp add: FileGroupLocks_def Locks_def)
qed

lemma ids_free_eq: "\<forall>k \<in> set ids. k < length hs \<Longrightarrow> ids_free hs ids = Inr (\<forall>k \<in> set ids. hs ! k = None)"
  by (induction ids) (auto simp: nthR_def)

lemma ids_owned_eq: "\<forall>k \<in> set ids. k < length hs \<Longrightarrow> ids_owned a hs ids = Inr (\<forall>k \<in> set ids. hs ! k = Some a)"
  by (induction ids) (auto simp: nthR_def)

lemma set_ids_eq:
  "\<forall>k \<in> set ids. k < length hs \<Longrightarrow>
   \<exists>hs'. set_ids h ids hs = Inr hs' \<and> length hs' = length hs \<and> (\<forall>k < length hs. hs' ! k = (if k \<in> set ids then h else hs ! k))"
proof (induction ids arbitrary: hs)
  case (Cons n ids)
  then obtain hs' where hs': "set_ids h ids (hs[n := h]) = Inr hs'" "length hs' = length hs"
    "\<forall>k < length hs. hs' ! k = (if k \<in> set ids then h else hs[n := h] ! k)" using Cons.IH [of "hs[n := h]"] by auto
  moreover have "n < length hs" using Cons.prems by simp
  ultimately show ?case by (auto simp: nth_list_update)
qed simp

lemma numbered_ids: "numbered u ns ids \<Longrightarrow> k \<in> set ids \<longleftrightarrow> (\<exists>n \<in> set ns. map_of u n = Some k)"
  unfolding numbered_def
proof (induction ns arbitrary: ids)
  case (Cons n ns)
  then obtain i is' where ids: "ids = i # is'" by (cases ids) auto
  with Cons show ?case by auto
qed simp

lemma numbered_names: "numbered u ns ids \<Longrightarrow> n \<in> set ns \<Longrightarrow> \<exists>k \<in> set ids. map_of u n = Some k"
  unfolding numbered_def
proof (induction ns arbitrary: ids)
  case (Cons n ns)
  then obtain i is' where ids: "ids = i # is'" by (cases ids) auto
  with Cons show ?case by auto
qed simp

text \<open>What the relation says of one group.\<close>

lemma lock_refines_group:
  assumes "lock_refines u F L" "i < length (fl_names F)"
  shows "i < length (fl_indices F)" "\<forall>k \<in> set (fl_indices F ! i). k < length (fl_holders F)"
    "(\<forall>k \<in> set (fl_indices F ! i). fl_holders F ! k = h) \<longleftrightarrow> (\<forall>n \<in> set (fl_names F ! i). lk_holders L n = h)"
    "map_of u n = Some k \<Longrightarrow> k \<in> set (fl_indices F ! i) \<longleftrightarrow> n \<in> set (fl_names F ! i)"
proof -
  have r: "unique_ok u" "list_all2 (numbered u) (fl_names F) (fl_indices F)" "length (fl_holders F) = length u"
    "\<And>n k. map_of u n = Some k \<Longrightarrow> lk_holders L n = fl_holders F ! k"
    using assms(1) unfolding lock_refines_def by blast+
  show "i < length (fl_indices F)" using assms(2) list_all2_lengthD [OF r(2)] by simp
  have num: "numbered u (fl_names F ! i) (fl_indices F ! i)" using list_all2_nthD [OF r(2) assms(2)] .
  show "\<forall>k \<in> set (fl_indices F ! i). k < length (fl_holders F)"
    using numbered_ids [OF num] unique_ok_lookup(1) [OF r(1)] r(3) by auto
  show "(\<forall>k \<in> set (fl_indices F ! i). fl_holders F ! k = h) \<longleftrightarrow> (\<forall>n \<in> set (fl_names F ! i). lk_holders L n = h)"
  proof
    assume all: "\<forall>k \<in> set (fl_indices F ! i). fl_holders F ! k = h"
    show "\<forall>n \<in> set (fl_names F ! i). lk_holders L n = h"
    proof
      fix n assume "n \<in> set (fl_names F ! i)"
      then obtain k where "k \<in> set (fl_indices F ! i)" "map_of u n = Some k" using numbered_names [OF num] by blast
      then show "lk_holders L n = h" using all r(4) [of n k] by simp
    qed
  next
    assume all: "\<forall>n \<in> set (fl_names F ! i). lk_holders L n = h"
    show "\<forall>k \<in> set (fl_indices F ! i). fl_holders F ! k = h"
    proof
      fix k assume "k \<in> set (fl_indices F ! i)"
      then obtain n where "n \<in> set (fl_names F ! i)" "map_of u n = Some k" using numbered_ids [OF num] by blast
      then show "fl_holders F ! k = h" using all r(4) [of n k] by simp
    qed
  qed
  show "k \<in> set (fl_indices F ! i) \<longleftrightarrow> n \<in> set (fl_names F ! i)" if "map_of u n = Some k"
    using numbered_ids [OF num, of k] unique_ok_lookup(2) [OF r(1) that] that by blast
qed

lemma CanAcquire_refines:
  assumes "lock_refines u F L" "length (lk_records L) = length (lk_names L)"
  shows "file_CanAcquire F i = Inr (CanAcquire L i)"
proof (cases "i < length (fl_names F)")
  case True
  note g = lock_refines_group [OF assms(1) True]
  have e: "lk_names L = fl_names F" "lk_records L = fl_records F" "lk_active L = fl_active F" using assms(1) by (simp_all add: lock_refines_def)
  have "ids_free (fl_holders F) (fl_indices F ! i) = Inr (\<forall>n \<in> set (fl_names F ! i). lk_holders L n = None)"
    using ids_free_eq [OF g(2)] g(3) [of None] by simp
  then show ?thesis using True g(1) assms(2) unfolding file_CanAcquire_def CanAcquire_def e by (auto simp: nthR_def)
next
  case False
  then show ?thesis using assms(1) by (simp add: file_CanAcquire_def CanAcquire_def lock_refines_def)
qed

text \<open>Writing one holder into the numbers of a group is writing it under its names.\<close>

lemma set_ids_refines:
  assumes "lock_refines u F L" "i < length (fl_names F)"
  shows "\<exists>hs. set_ids h (fl_indices F ! i) (fl_holders F) = Inr hs \<and>
    (\<forall>F' L'. fl_holders F' = hs \<longrightarrow> fl_names F' = fl_names F \<longrightarrow> fl_indices F' = fl_indices F \<longrightarrow> lk_names L' = fl_names F \<longrightarrow>
       lk_records L' = fl_records F' \<longrightarrow> lk_active L' = fl_active F' \<longrightarrow>
       lk_holders L' = (\<lambda>n. if n \<in> set (fl_names F ! i) then h else lk_holders L n) \<longrightarrow> lock_refines u F' L')"
proof -
  note g = lock_refines_group [OF assms]
  have r: "unique_ok u" "list_all2 (numbered u) (fl_names F) (fl_indices F)" "length (fl_holders F) = length u"
    "\<And>n k. map_of u n = Some k \<Longrightarrow> lk_holders L n = fl_holders F ! k"
    using assms(1) unfolding lock_refines_def by blast+
  obtain hs where hs: "set_ids h (fl_indices F ! i) (fl_holders F) = Inr hs" "length hs = length (fl_holders F)"
    "\<forall>k < length (fl_holders F). hs ! k = (if k \<in> set (fl_indices F ! i) then h else fl_holders F ! k)"
    using set_ids_eq [OF g(2)] by blast
  have "(if n \<in> set (fl_names F ! i) then h else lk_holders L n) = hs ! k" if "map_of u n = Some k" for n k
    using hs(3) g(4) [OF that] r(4) [OF that] unique_ok_lookup(1) [OF r(1) that] r(3) by simp
  then have "lock_refines u F' L'"
    if "fl_holders F' = hs" "fl_names F' = fl_names F" "fl_indices F' = fl_indices F" "lk_names L' = fl_names F"
      "lk_records L' = fl_records F'" "lk_active L' = fl_active F'" "lk_holders L' = (\<lambda>n. if n \<in> set (fl_names F ! i) then h else lk_holders L n)" for F' L'
    using that r(1-3) hs(2) by (simp add: lock_refines_def)
  then show ?thesis using hs(1) by blast
qed

lemma Acquire_refines:
  assumes "lock_refines u F L" "locks_ok fa_index L"
  shows "\<exists>r F' L'. file_Acquire p a F = Inr (r, F') \<and>
    Acquire file_lock_messages fa_index (file_ReservedBeforeStart p) a L = Inr (r, L') \<and> lock_refines u F' L'"
proof (cases "file_ReservedBeforeStart p a \<and> CanAcquire L (fa_index a)")
  case True
  let ?i = "fa_index a"
  note ok = locks_okD [OF assms(2)]
  have can: "file_CanAcquire F ?i = Inr True" using CanAcquire_refines [OF assms(1) ok(1), of ?i] True by simp
  have e: "lk_names L = fl_names F" "lk_records L = fl_records F" "lk_active L = fl_active F" using assms(1) by (simp_all add: lock_refines_def)
  have i: "?i < length (fl_names F)" "\<forall>n \<in> set (fl_names F ! ?i). lk_holders L n = None" "distinct (fl_names F ! ?i)"
    using True ok(2) unfolding CanAcquire_def e by auto
  obtain hs where hs: "set_ids (Some a) (fl_indices F ! ?i) (fl_holders F) = Inr hs"
    "\<forall>F' L'. fl_holders F' = hs \<longrightarrow> fl_names F' = fl_names F \<longrightarrow> fl_indices F' = fl_indices F \<longrightarrow> lk_names L' = fl_names F \<longrightarrow>
       lk_records L' = fl_records F' \<longrightarrow> lk_active L' = fl_active F' \<longrightarrow>
       lk_holders L' = (\<lambda>n. if n \<in> set (fl_names F ! ?i) then Some a else lk_holders L n) \<longrightarrow> lock_refines u F' L'"
    using set_ids_refines [OF assms(1) i(1)] by blast
  define F' where "F' = F\<lparr>fl_holders := hs, fl_records := (fl_records F)[?i := Some \<lparr>lr_owner = a, lr_receipt = LActive\<rparr>], fl_active := fl_active F + 1\<rparr>"
  define L' where "L' = L\<lparr>lk_holders := (\<lambda>n. if n \<in> set (fl_names F ! ?i) then Some a else lk_holders L n),
      lk_records := (lk_records L)[?i := Some \<lparr>lr_owner = a, lr_receipt = LActive\<rparr>], lk_active := lk_active L + 1\<rparr>"
  have "file_Acquire p a F = Inr (True, F')"
    using True can hs(1) lock_refines_group(1) [OF assms(1) i(1)] by (simp add: file_Acquire_def nthR_def F'_def)
  moreover have "Acquire file_lock_messages fa_index (file_ReservedBeforeStart p) a L = Inr (True, L')"
    using True stage_all [OF i(3,2)] e by (simp add: Acquire_def L'_def)
  moreover have "lock_refines u F' L'" by (rule hs(2) [rule_format]) (simp_all add: F'_def L'_def e)
  ultimately show ?thesis by blast
next
  case False
  then have "file_Acquire p a F = Inr (False, F)"
    using CanAcquire_refines [OF assms(1) locks_okD(1) [OF assms(2)], of "fa_index a"] by (auto simp: file_Acquire_def)
  moreover have "Acquire file_lock_messages fa_index (file_ReservedBeforeStart p) a L = Inr (False, L)" using False by (auto simp: Acquire_def)
  ultimately show ?thesis using assms(1) by blast
qed

lemma Release_refines:
  assumes "lock_refines u F L" "locks_ok fa_index L"
  shows "\<exists>r F' L'. file_Release p a F = Inr (r, F') \<and>
    Release file_lock_messages fa_index (file_Retired p) (file_CanceledBeforeStart p) a L = Inr (r, L') \<and> lock_refines u F' L'"
proof (cases "holding L (fa_index a) a \<and> (file_Retired p a \<or> file_CanceledBeforeStart p a)")
  case True
  let ?i = "fa_index a" and ?r = "\<lparr>lr_owner = a, lr_receipt = if file_Retired p a then PhysicalRetired else NeverStarted\<rparr>"
  note ok = locks_okD [OF assms(2)]
  have e: "lk_names L = fl_names F" "lk_records L = fl_records F" "lk_active L = fl_active F" using assms(1) by (simp_all add: lock_refines_def)
  have hold: "holding L ?i a" using True by blast
  then have rec: "?i < length (fl_records F)" "fl_records F ! ?i = Some \<lparr>lr_owner = a, lr_receipt = LActive\<rparr>" by (simp_all add: holding_def e)
  have i: "?i < length (fl_names F)" using rec(1) ok(1) e by simp
  have held: "\<forall>n \<in> set (fl_names F ! ?i). lk_holders L n = Some a" "distinct (fl_names F ! ?i)"
    using hold ok(2) ok(4) i unfolding e by auto
  note g = lock_refines_group [OF assms(1) i]
  have owned: "ids_owned a (fl_holders F) (fl_indices F ! ?i) = Inr True"
    using ids_owned_eq [OF g(2), of a] g(3) [of "Some a"] held(1) by simp
  obtain hs where hs: "set_ids None (fl_indices F ! ?i) (fl_holders F) = Inr hs"
    "\<forall>F' L'. fl_holders F' = hs \<longrightarrow> fl_names F' = fl_names F \<longrightarrow> fl_indices F' = fl_indices F \<longrightarrow> lk_names L' = fl_names F \<longrightarrow>
       lk_records L' = fl_records F' \<longrightarrow> lk_active L' = fl_active F' \<longrightarrow>
       lk_holders L' = (\<lambda>n. if n \<in> set (fl_names F ! ?i) then None else lk_holders L n) \<longrightarrow> lock_refines u F' L'"
    using set_ids_refines [OF assms(1) i] by blast
  define F' where "F' = F\<lparr>fl_holders := hs, fl_records := (fl_records F)[?i := Some ?r], fl_active := usub (fl_active F) 1\<rparr>"
  define L' where "L' = L\<lparr>lk_holders := (\<lambda>n. if n \<in> set (fl_names F ! ?i) then None else lk_holders L n),
      lk_records := (lk_records L)[?i := Some ?r], lk_active := usub (lk_active L) 1\<rparr>"
  have "file_Release p a F = Inr (True, F')"
    using True rec owned hs(1) g(1) by (simp add: file_Release_def nthR_def F'_def)
  moreover have "Release file_lock_messages fa_index (file_Retired p) (file_CanceledBeforeStart p) a L = Inr (True, L')"
    using True rec unstage_all [OF held(2,1)] e by (simp add: Release_def L'_def)
  moreover have "lock_refines u F' L'" by (rule hs(2) [rule_format]) (simp_all add: F'_def L'_def e)
  ultimately show ?thesis by blast
next
  case False
  have "lk_records L = fl_records F" using assms(1) by (simp add: lock_refines_def)
  then have "file_Release p a F = Inr (False, F)"
    "Release file_lock_messages fa_index (file_Retired p) (file_CanceledBeforeStart p) a L = Inr (False, L)"
    using False by (auto simp: file_Release_def Release_def holding_def)
  then show ?thesis using assms(1) by blast
qed

lemma file_locked_simulated:
  assumes "file_locked (p, F) e (p', F')" "lock_refines u F L" "locks_ok fa_index L"
  shows "\<exists>L'. named_system (p, L) e (p', L') \<and> lock_refines u F' L'"
  using assms(1)
proof (cases rule: file_locked.cases)
  case (file_locked_pool e)
  then have "named_system (p, L) (OnPool e) (p', L)" by (intro locked.locked_pool)
  then show ?thesis using file_locked_pool(1,2) assms(2) by auto
next
  case (file_locked_acquire a r)
  then obtain L' where "Acquire file_lock_messages fa_index (file_ReservedBeforeStart p) a L = Inr (r, L')" "lock_refines u F' L'"
    using Acquire_refines [OF assms(2,3), of p a] by auto
  then have "named_system (p, L) (OnAcquire a) (p, L')" by (intro locked.locked_acquire)
  then show ?thesis using file_locked_acquire(1,2) \<open>lock_refines u F' L'\<close> by auto
next
  case (file_locked_release a r)
  then obtain L' where "Release file_lock_messages fa_index (file_Retired p) (file_CanceledBeforeStart p) a L = Inr (r, L')" "lock_refines u F' L'"
    using Release_refines [OF assms(2,3), of p a] by auto
  then have "named_system (p, L) (OnRelease a) (p, L')" by (intro locked.locked_release)
  then show ?thesis using file_locked_release(1,2) \<open>lock_refines u F' L'\<close> by auto
qed

lemma file_trace_simulated:
  assumes "trace file_locked (p, F) calls (p', F')" "lock_refines u F L" "file_reservations.system_ok (p, L)"
  shows "\<exists>L'. trace named_system (p, L) calls (p', L') \<and> lock_refines u F' L' \<and> file_reservations.system_ok (p', L')"
  using assms
proof (induction "(p, F)" calls "(p', F')" arbitrary: p F L rule: trace.induct)
  case (trace_Cons e s es)
  obtain q G where s: "s = (q, G)" by (cases s)
  obtain M where M: "named_system (p, L) e (q, M)" "lock_refines u G M"
    using file_locked_simulated [OF trace_Cons.hyps(1) [unfolded s] trace_Cons.prems(1)] trace_Cons.prems(2)
    by (auto simp: file_reservations.system_ok_def)
  have "file_reservations.system_ok (q, M)" using file_reservations.system.step_inv [OF trace_Cons.prems(2) M(1)] .
  then obtain L' where "trace named_system (q, M) es (p', L')" "lock_refines u F' L'" "file_reservations.system_ok (p', L')"
    using trace_Cons.hyps(3) [OF s M(2)] by blast
  then show ?case using trace.trace_Cons [of named_system, OF M(1)] by (intro exI conjI)
qed auto

lemma file_system_reached:
  assumes "FileGroupPool groups limit = Inr p" "FileGroupLocks p names = Inr F" "trace file_locked (p, F) calls (p', F')"
  shows "\<exists>u L L'. Locks file_lock_messages (length (fw_groups groups)) names = Inr L \<and> trace named_system (p, L) calls (p', L') \<and>
    lock_refines u F' L' \<and> file_reservations.system_ok (p', L')"
proof -
  note pool = FileGroupPool_inv [OF assms(1)]
  obtain u L where L: "Locks file_lock_messages (length (fw_groups groups)) names = Inr L" "lock_refines u F L"
    using FileGroupLocks_refines [of p names] assms(2) pool(2) by auto
  have "locks_ok fa_index L" "lk_records L = replicate (length (fw_groups groups)) None"
    using Locks_ok [OF L(1)] by simp_all
  then have "file_reservations.system_ok (p, L)"
    using pool(1) by (simp add: file_reservations.system_ok_def file_reservations.covered_def)
  then show ?thesis using file_trace_simulated [OF assms(3) L(2)] L(1) by blast
qed

section \<open>Properties\<close>

lemma file_Next_total:
  assumes "file_inv p"
  shows "\<exists>x p'. file_Next ready p = Inr (x, p')"
proof -
  have "fp_nonce p \<le> 8192" using file_invD(5,11) [OF assms] count_if_le [of "\<lambda>r. fr_owner r \<noteq> None" "fp_rows p"] by simp
  then have "fp_nonce p \<noteq> u64_max" by (simp add: u64_max_def)
  then show ?thesis by (auto simp: file_Next_def Let_def split: option.splits)
qed

text \<open>
  C28: every group of a file is admitted at most once and the pool does not get stuck. In every history the
  active groups are within the limit and no fewer than the live workers, \<open>Next\<close> never throws, the
  admissions made are as many as the groups that have one; and when nothing is active and the pool is not
  stopped, \<open>Next\<close> without a further test admits a group or the pool is done.
\<close>

theorem file_pool_not_stuck:
  assumes "FileGroupPool groups limit = Inr p" "trace file_step p calls p'"
  shows "fp_physical p' \<le> fp_active p' \<and> fp_active p' \<le> limit \<and> (\<exists>x p''. file_Next ready p' = Inr (x, p'')) \<and>
    fp_nonce p' = count_if (\<lambda>r. fr_owner r \<noteq> None) (fp_rows p') \<and> fp_nonce p' \<le> length (fw_groups groups) \<and>
    (fp_active p' = 0 \<longrightarrow> \<not> fp_stopped p' \<longrightarrow>
       (\<exists>x p''. file_Next (\<lambda>_. True) p' = Inr (x, p'') \<and> (x \<noteq> None \<or> file_Done p'')))"
proof -
  note start = FileGroupPool_inv [OF assms(1)]
  have inv: "file_inv p'" using file_pool.trace_inv [OF assms(2) start(1)] .
  have "fp_plan q' = fp_plan q \<and> fp_limit q' = fp_limit q" if "file_step q e q'" for q e q'
    using that by (cases e) (auto simp: file_step_iff file_apply_def bindR_eq_Inr file_Next_def file_WorkerStarted_def file_WorkerExited_def
        file_Complete_def file_Retire_def file_Stop_def Let_def split: option.splits if_splits prod.splits)
  then have plan: "fp_plan p' = groups \<and> fp_limit p' = limit"
    using file_pool.trace_relates [OF assms(2) start(1), of "\<lambda>a b. fp_plan b = fp_plan a \<and> fp_limit b = fp_limit a"] start(2,3) by auto
  note d = file_invD [OF inv]
  have "count_if (\<lambda>r. fr_worker r \<noteq> None) (fp_rows p') \<le> count_if (\<lambda>r. fr_state r = FRunning) (fp_rows p')"
  proof (rule count_if_mono)
    fix r assume r: "r \<in> set (fp_rows p')" "fr_worker r \<noteq> None"
    then obtain i where "i < length (fp_rows p')" "r = fp_rows p' ! i" by (auto simp: in_set_conv_nth)
    then have "row_ok (fw_file (fp_plan p')) (fp_nonce p') i r (fr_state r)" using file_inv_row [OF inv] by simp
    then show "fr_state r = FRunning" using r(2) by (cases "fr_state r") (auto simp: fresh_row_def)
  qed
  then have bounds: "fp_physical p' \<le> fp_active p'" "fp_nonce p' \<le> length (fw_groups groups)"
    using d(4,8,10,11) plan count_if_le [of "\<lambda>r. fr_owner r \<noteq> None" "fp_rows p'"] by simp_all
  have "\<exists>x p''. file_Next (\<lambda>_. True) p' = Inr (x, p'') \<and> (x \<noteq> None \<or> file_Done p'')" if "fp_active p' = 0" "\<not> fp_stopped p'"
  proof -
    obtain x p'' where n: "file_Next (\<lambda>_. True) p' = Inr (x, p'')" using file_Next_total [OF inv] by blast
    have "file_Done p''" if none: "x = None"
    proof -
      have "List.find (\<lambda>i. fr_state (fp_rows p' ! i) = FPending \<and> True) [0..<length (fp_rows p')] = None"
        using n none \<open>fp_active p' = 0\<close> \<open>\<not> fp_stopped p'\<close> d(6) by (auto simp: file_Next_def Let_def split: option.splits if_splits)
      then have "fr_state r \<noteq> FPending" if "r \<in> set (fp_rows p')" for r
        using that by (auto simp: find_None_iff in_set_conv_nth)
      moreover have "p'' = p'" using file_Next_cases [OF inv n] none by blast
      ultimately show ?thesis using \<open>fp_active p' = 0\<close> by (simp add: file_Done_def list_all_iff)
    qed
    then show ?thesis using n by blast
  qed
  then show ?thesis using bounds d(9,11) plan file_Next_total [OF inv] by blast
qed

text \<open>
  C29: the numbered locks of a file implement the named locks. The constructor accepts and rejects the same
  names as the specification, with the same errors; every history of a pool and its numbered locks is
  matched call by call by one of the pool and the named locks with the same receipts and the same answers to
  \<open>CanAcquire\<close>; no call accesses the array of holders out of its range; and so two groups
  that hold their locks at the same time have no name in common.
\<close>

theorem file_locks_refine:
  assumes "FileGroupPool groups limit = Inr p" "FileGroupLocks p names = Inr F" "trace file_locked (p, F) calls (p', F')"
  shows "\<exists>L L'. Locks file_lock_messages (length (fw_groups groups)) names = Inr L \<and> trace named_system (p, L) calls (p', L') \<and>
    fl_names F' = lk_names L' \<and> fl_records F' = lk_records L' \<and> fl_active F' = lk_active L' \<and>
    (\<forall>i. file_CanAcquire F' i = Inr (CanAcquire L' i)) \<and>
    (\<forall>e other. FileGroupLocks p other = Inl e \<longrightarrow> Locks file_lock_messages (length (fw_groups groups)) other = (Inl e :: file_admission locks result)) \<and>
    (\<forall>a. \<exists>r F''. file_Acquire p' a F' = Inr (r, F'')) \<and> (\<forall>a. \<exists>r F''. file_Release p' a F' = Inr (r, F'')) \<and>
    (\<forall>i j a b. holding L' i a \<longrightarrow> holding L' j b \<longrightarrow> i \<noteq> j \<longrightarrow> set (fl_names F' ! i) \<inter> set (fl_names F' ! j) = {})"
proof -
  obtain u L L' where s: "Locks file_lock_messages (length (fw_groups groups)) names = Inr L" "trace named_system (p, L) calls (p', L')"
    "lock_refines u F' L'" "file_reservations.system_ok (p', L')" using file_system_reached [OF assms] by blast
  have ok: "locks_ok fa_index L'" using s(4) by (simp add: file_reservations.system_ok_def)
  have e: "fl_names F' = lk_names L'" "fl_records F' = lk_records L'" "fl_active F' = lk_active L'" using s(3) by (simp_all add: lock_refines_def)
  have "file_CanAcquire F' i = Inr (CanAcquire L' i)" for i using CanAcquire_refines [OF s(3) locks_okD(1) [OF ok]] .
  moreover have "Locks file_lock_messages (length (fw_groups groups)) other = (Inl e :: file_admission locks result)"
    if "FileGroupLocks p other = Inl e" for e other
    using FileGroupLocks_refines [of p other] that FileGroupPool_inv(2) [OF assms(1)] by simp
  moreover have "\<exists>r F''. file_Acquire p' a F' = Inr (r, F'')" "\<exists>r F''. file_Release p' a F' = Inr (r, F'')" for a
    using Acquire_refines [OF s(3) ok] Release_refines [OF s(3) ok] by blast+
  moreover have "set (fl_names F' ! i) \<inter> set (fl_names F' ! j) = {}" if "holding L' i a" "holding L' j b" "i \<noteq> j" for i j a b
    using holders_disjoint [OF ok that] e(1) by simp
  ultimately show ?thesis using s(1,2) e by blast
qed

section \<open>An example\<close>

definition example_file :: file_work_groups where
  "example_file = \<lparr>fw_file = \<lparr>ft_id = 1, ft_device = 2, ft_inode = 3\<rparr>,
     fw_groups = [\<lparr>sg_mode = MParallel, sg_suite = 0, sg_tests = [1]\<rparr>, \<lparr>sg_mode = MSerial, sg_suite = 4, sg_tests = [2, 3]\<rparr>]\<rparr>"

definition example_owner :: file_admission where
  "example_owner = \<lparr>fa_file = \<lparr>ft_id = 1, ft_device = 2, ft_inode = 3\<rparr>, fa_index = 0, fa_generation = 1\<rparr>"

lemma example_file_pool:
  "\<exists>p p'. FileGroupPool example_file 2 = Inr p \<and> file_Next (\<lambda>_. True) p = Inr (Some example_owner, p') \<and> file_ReservedBeforeStart p' example_owner \<and>
    fp_rows p = [fresh_row, fresh_row]"
  by (simp add: FileGroupPool_def example_file_def file_Next_def Let_def fresh_row_def upt_rec u64_max_def example_owner_def
      file_ReservedBeforeStart_def file_Find_def file_Exact_def)

lemma example_file_run:
  "\<exists>p p'. FileGroupPool example_file 2 = Inr p \<and>
    trace file_step p [FileNext (\<lambda>_. True), FileStarted example_owner 1 77, FileComplete example_owner OPassed, FileExited example_owner 1 77, FileStop] p' \<and>
    map fr_state (fp_rows p') = [FPassed, FNotRun] \<and> fp_active p' = 0"
  by (simp add: FileGroupPool_def example_file_def file_Next_def Let_def fresh_row_def upt_rec u64_max_def example_owner_def
      file_Find_def file_Exact_def trace_Cons_iff file_step_iff file_apply_def file_WorkerStarted_def file_Complete_def file_WorkerExited_def
      file_Retire_def file_Stop_def)

theorem file_pool_not_stuck_witness:
  "\<exists>p p'. FileGroupPool example_file 2 = Inr p \<and> file_Next (\<lambda>_. True) p = Inr (Some example_owner, p') \<and> fp_active p' \<le> 2 \<and>
    (\<exists>x p''. file_Next (\<lambda>_. True) p' = Inr (x, p''))"
proof -
  obtain p p' where p: "FileGroupPool example_file 2 = Inr p" "file_Next (\<lambda>_. True) p = Inr (Some example_owner, p')"
    using example_file_pool by (elim exE conjE)
  have "trace file_step p [FileNext (\<lambda>_. True)] p'" using p(2) by (simp add: trace_Cons_iff file_step_iff file_apply_def)
  from file_pool_not_stuck [OF p(1) this, of "\<lambda>_. True"] p show ?thesis by blast
qed

theorem file_locks_refine_witness:
  "\<exists>p F. FileGroupPool example_file 2 = Inr p \<and> FileGroupLocks p [[[0, 0]], [[0, 0], [1, 0]]] = Inr F \<and> fl_indices F = [[0], [0, 1]] \<and>
    (\<exists>L :: file_admission locks. Locks file_lock_messages 2 [[[0, 0]], [[0, 0], [1, 0]]] = Inr L \<and> fl_names F = lk_names L)"
proof -
  obtain p where p: "FileGroupPool example_file 2 = Inr p" using example_file_pool by (elim exE conjE)
  have plan: "fp_plan p = example_file" using FileGroupPool_inv(2) [OF p] .
  have "\<exists>F. FileGroupLocks p [[[0, 0]], [[0, 0], [1, 0]]] = Inr F \<and> fl_indices F = [[0], [0, 1]]"
    by (simp add: FileGroupLocks_def plan example_file_def file_lock_messages_def)
  then obtain F where F: "FileGroupLocks p [[[0, 0]], [[0, 0], [1, 0]]] = Inr F" "fl_indices F = [[0], [0, 1]]" by (elim exE conjE)
  have n: "length (fw_groups example_file) = 2" by (simp add: example_file_def)
  obtain L L' where L: "Locks file_lock_messages 2 [[[0, 0]], [[0, 0], [1, 0]]] = Inr L" "trace named_system (p, L) [] (p, L')" "fl_names F = lk_names L'"
    using file_locks_refine [OF p F(1) trace_Nil] unfolding n by blast
  then show ?thesis using p F by auto
qed

end
