(* ===== verification/Doubles.thy ===== *)
theory Doubles
  imports Prelude Complex_Main "HOL-Library.Log_Nat"
begin

text \<open>
  The IEEE binary64 numbers in which the runner keeps its times, in milliseconds. A value is a finite
  number, kept exactly as a rational, an infinity or not a number; addition and subtraction round to
  nearest with ties to even, as the hardware does. The sign of zero is not kept, since the sources only
  compare the results. Comparisons with not-a-number are false, which is why the sources test
  \<open>std::isfinite\<close> before they compare.
\<close>

datatype double = Fin rat | PosInf | NegInf | NaN

fun isfinite :: "double \<Rightarrow> bool" where
  "isfinite (Fin _) = True"
| "isfinite _ = False"

fun dless :: "double \<Rightarrow> double \<Rightarrow> bool" where
  "dless (Fin x) (Fin y) = (x < y)"
| "dless (Fin _) PosInf = True"
| "dless NegInf (Fin _) = True"
| "dless NegInf PosInf = True"
| "dless _ _ = False"

definition dle :: "double \<Rightarrow> double \<Rightarrow> bool" where
  "dle a b \<longleftrightarrow> dless a b \<or> a = b \<and> a \<noteq> NaN"

text \<open>\<open>std::min\<close> and \<open>std::max\<close>.\<close>

definition dmin :: "double \<Rightarrow> double \<Rightarrow> double" where
  "dmin a b = (if dless b a then b else a)"

definition dmax :: "double \<Rightarrow> double \<Rightarrow> double" where
  "dmax a b = (if dless a b then b else a)"

section \<open>Rounding\<close>

text \<open>The exponent of the greatest power of two that is at most the magnitude of a number other than zero.\<close>

definition binade :: "rat \<Rightarrow> int" where
  "binade q =
     (let (n, d) = quotient_of q; m = int (floorlog 2 (nat \<bar>n\<bar>)) - int (floorlog 2 (nat d))
      in if \<bar>q\<bar> < 2 powi m then m - 1 else m)"

definition round_even :: "rat \<Rightarrow> int" where
  "round_even y =
     (let f = \<lfloor>y\<rfloor>; d = y - of_int f
      in if d < 1 / 2 then f else if 1 / 2 < d then f + 1 else if even f then f else f + 1)"

definition rnd :: "rat \<Rightarrow> double" where
  "rnd q =
     (if q = 0 then Fin 0
      else let e = max (binade q - 52) (- 1074); r = of_int (round_even (q / 2 powi e)) * 2 powi e
           in if 2 ^ 1024 \<le> \<bar>r\<bar> then (if q < 0 then NegInf else PosInf) else Fin r)"

fun dneg :: "double \<Rightarrow> double" where
  "dneg (Fin x) = Fin (- x)"
| "dneg PosInf = NegInf"
| "dneg NegInf = PosInf"
| "dneg NaN = NaN"

fun dadd :: "double \<Rightarrow> double \<Rightarrow> double" where
  "dadd (Fin x) (Fin y) = rnd (x + y)"
| "dadd NaN _ = NaN"
| "dadd _ NaN = NaN"
| "dadd PosInf NegInf = NaN"
| "dadd NegInf PosInf = NaN"
| "dadd PosInf _ = PosInf"
| "dadd NegInf _ = NegInf"
| "dadd _ PosInf = PosInf"
| "dadd _ NegInf = NegInf"

definition dsub :: "double \<Rightarrow> double \<Rightarrow> double" where
  "dsub a b = dadd a (dneg b)"

text \<open>The conversion of an unsigned integer.\<close>

definition of_uint :: "nat \<Rightarrow> double" where
  "of_uint n = rnd (of_nat n)"

text \<open>\<open>std::numeric_limits<double>::max()\<close>.\<close>

definition double_max :: double where
  "double_max = Fin ((2 ^ 53 - 1) * 2 ^ 971)"

section \<open>Integers are exact\<close>

lemma round_even_of_int [simp]: "round_even (of_int n) = n"
  by (simp add: round_even_def)

lemma binade_of_int:
  assumes "n \<noteq> 0"
  shows "binade (of_int n) = int (floorlog 2 (nat \<bar>n\<bar>)) - 1"
proof -
  let ?m = "nat \<bar>n\<bar>"
  have b: "2 ^ (floorlog 2 ?m - 1) \<le> ?m" using floorlog_bounds [of ?m 2] assms by simp
  have pos: "0 < floorlog 2 ?m" using assms by (simp add: floorlog_def)
  define k where "k = floorlog 2 ?m - 1"
  have k: "int (floorlog 2 ?m) - 1 = int k" using pos by (simp add: k_def of_nat_diff)
  have "(2::rat) ^ k \<le> of_nat ?m" using b unfolding k_def [symmetric] by (metis of_nat_le_iff of_nat_numeral of_nat_power)
  then have "\<not> \<bar>of_int n :: rat\<bar> < 2 ^ k" by (simp add: of_nat_nat)
  moreover have "floorlog 2 (nat 1) = 1" by (simp add: floorlog_def)
  ultimately show ?thesis by (simp add: binade_def quotient_of_int Let_def k power_int_of_nat)
qed

lemma rnd_of_int:
  assumes "\<bar>n\<bar> < 2 ^ 53"
  shows "rnd (of_int n) = Fin (of_int n)"
proof (cases "n = 0")
  case False
  let ?e = "max (binade (of_int n) - 52) (- 1074)"
  have "floorlog 2 (nat \<bar>n\<bar>) \<le> 53"
    using assms floorlog_le_iff [of 2 "nat \<bar>n\<bar>" 53] by (simp add: nat_less_iff)
  then have e: "?e \<le> 0" using binade_of_int [OF False] by simp
  define k where "k = nat (- ?e)"
  have k: "?e = - int k" using e by (simp add: k_def)
  have q: "of_int n / 2 powi ?e = (of_int (n * 2 ^ k) :: rat)" unfolding k by (simp add: power_int_minus power_int_of_nat field_simps)
  have r: "of_int (n * 2 ^ k) * 2 powi ?e = (of_int n :: rat)" unfolding k by (simp add: power_int_minus power_int_of_nat field_simps)
  have "\<bar>of_int n :: rat\<bar> < 2 ^ 53" using assms by (metis of_int_abs of_int_less_iff of_int_numeral of_int_power)
  then have "\<not> 2 ^ 1024 \<le> \<bar>of_int n :: rat\<bar>" by (simp add: not_le order.strict_trans2)
  then show ?thesis using False unfolding rnd_def Let_def q round_even_of_int r by simp
qed (simp add: rnd_def)

lemma rnd_numeral: "(numeral k :: int) < 2 ^ 53 \<Longrightarrow> rnd (numeral k) = Fin (numeral k)"
  using rnd_of_int [of "numeral k"] by simp

lemma rnd_01 [simp]: "rnd 0 = Fin 0" "rnd 1 = Fin 1"
  using rnd_of_int [of 1] by (simp_all add: rnd_def)

section \<open>Order\<close>

lemma dle_refl [simp]: "isfinite a \<Longrightarrow> dle a a"
  by (cases a) (simp_all add: dle_def)

lemma dless_dle: "dless a b \<Longrightarrow> dle a b"
  by (simp add: dle_def)

lemma dless_trans: "dless a b \<Longrightarrow> dless b c \<Longrightarrow> dless a c"
  by (cases a; cases b; cases c) auto

lemma dle_dless_trans: "dle a b \<Longrightarrow> dless b c \<Longrightarrow> dless a c"
  using dless_trans by (auto simp: dle_def)

lemma dless_dle_trans: "dless a b \<Longrightarrow> dle b c \<Longrightarrow> dless a c"
  using dless_trans by (auto simp: dle_def)

lemma dle_trans: "dle a b \<Longrightarrow> dle b c \<Longrightarrow> dle a c"
  using dless_trans by (auto simp: dle_def)

lemma not_dless: "isfinite a \<Longrightarrow> isfinite b \<Longrightarrow> \<not> dless a b \<longleftrightarrow> dle b a"
  by (cases a; cases b) (auto simp: dle_def)

lemma not_dle: "isfinite a \<Longrightarrow> isfinite b \<Longrightarrow> \<not> dle a b \<longleftrightarrow> dless b a"
  by (cases a; cases b) (auto simp: dle_def)

lemma isfinite_dmin [simp]: "isfinite a \<Longrightarrow> isfinite b \<Longrightarrow> isfinite (dmin a b)"
  by (simp add: dmin_def)

lemma dmin_le: "isfinite a \<Longrightarrow> dle (dmin a b) a" "isfinite b \<Longrightarrow> isfinite a \<Longrightarrow> dle (dmin a b) b"
  using not_dless [of b a] by (auto simp: dmin_def dless_dle)

end
