(* ===== verification/CallbackRetries.thy ===== *)
theory CallbackRetries
  imports Machines Doubles
begin

text \<open>
  \<open>callback_retry_schedule.h\<close>: the schedule of a callback that is retried until it passes or its time is
  up. An invocation is over only when both its raw result and the receipt of its physical work are there; the
  next one starts after a pause counted from that receipt. The operations may throw after they have changed
  the state (each begins by reading the clock), so an operation here returns its result or exception
  together with the state it leaves.
\<close>

section \<open>State\<close>

datatype verdict = VPending | VPassed | VTimedOut | VCanceled | VInfrastructureFailure

datatype sched_phase = SReady | SRunning | SDraining | SBackoff | STerminal

datatype raw = Returned | Threw | RawInfrastructureFailure

datatype fence = Clean | AuthoredFailure | FenceInfrastructureFailure

datatype sched_receipt = RPending | RSettled | RWorkerExited

record step_owner =
  so_test_id :: nat
  so_attempt_generation :: nat
  so_callback_token :: nat
  so_scope :: nat
  so_scope_generation :: nat
  so_worker_index :: nat
  so_pid :: int
  so_callback_kind :: string

record sched_identity =
  si_id :: nat
  si_parent_step :: nat
  si_owner :: step_owner

record invocation =
  in_assertion :: nat
  in_nonce :: nat
  in_step :: nat

record current =
  cu_invocation :: invocation
  cu_started :: double
  cu_raw_received :: "double option"
  cu_physical_received :: "double option"
  cu_raw :: "raw option"
  cu_fence :: "fence option"
  cu_receipt :: sched_receipt

record schedule =
  cs_identity :: sched_identity
  cs_intervals :: "nat list"
  cs_started :: double
  cs_owner_deadline :: double
  cs_next_due :: double
  cs_last_now :: double
  cs_own_deadline :: "double option"
  cs_current :: current
  cs_attempts :: nat
  cs_verdict :: verdict
  cs_phase :: sched_phase
  cs_physical :: bool

text \<open>An operation and the sequencing of two: an exception keeps the state reached.\<close>

type_synonym 'a sched_op = "schedule \<Rightarrow> 'a result \<times> schedule"

definition bindS :: "'a sched_op \<Rightarrow> ('a \<Rightarrow> 'b sched_op) \<Rightarrow> 'b sched_op" where
  "bindS m f s = (case m s of (Inl e, s') \<Rightarrow> (Inl e, s') | (Inr x, s') \<Rightarrow> f x s')"

definition reject :: "string \<Rightarrow> 'a sched_op" where
  "reject message s = (Inl (Invalid_argument message), s)"

section \<open>Operations\<close>

definition fresh_current :: current where
  "fresh_current = \<lparr>cu_invocation = \<lparr>in_assertion = 0, in_nonce = 0, in_step = 0\<rparr>, cu_started = Fin 0, cu_raw_received = None,
     cu_physical_received = None, cu_raw = None, cu_fence = None, cu_receipt = RPending\<rparr>"

definition sched_Valid :: "sched_identity \<Rightarrow> bool" where
  "sched_Valid i \<longleftrightarrow>
     (let o' = si_owner i
      in si_id i \<noteq> 0 \<and> so_test_id o' \<noteq> 0 \<and> so_attempt_generation o' \<noteq> 0 \<and> so_scope o' \<noteq> 0 \<and> so_scope_generation o' \<noteq> 0 \<and>
         so_worker_index o' \<noteq> 0 \<and> 0 < so_pid o' \<and> so_pid o' \<le> 2147483647 \<and>
         (so_callback_kind o' = ''body'' \<or>
          (so_callback_kind o' = ''beforeEach'' \<or> so_callback_kind o' = ''afterEach'') \<and> so_callback_token o' \<noteq> 0))"

definition safe_duration :: nat where
  "safe_duration = 9007199254740991"

definition CallbackRetrySchedule :: "sched_identity \<Rightarrow> nat \<Rightarrow> nat list option \<Rightarrow> double \<Rightarrow> double \<Rightarrow> schedule result" where
  "CallbackRetrySchedule identity timeout intervals owner_deadline now =
     (if \<not> sched_Valid identity \<or> \<not> isfinite now \<or> dless now (Fin 0) \<or> \<not> isfinite owner_deadline \<or> dle owner_deadline now \<or> safe_duration < timeout
      then Inl (Invalid_argument ''Native callback retry admission identity/deadline rejected'')
      else bindR (case intervals of
                    None \<Rightarrow> Inr [100, 250, 500, 1000]
                  | Some xs \<Rightarrow>
                      if xs = [] \<or> 64 < length xs then Inl (Invalid_argument ''Native callback retry interval count rejected'')
                      else if list_ex (\<lambda>x. safe_duration < x) xs then Inl (Invalid_argument ''Native callback retry interval duration rejected'')
                      else Inr xs) (\<lambda>xs.
           bindR (if timeout = 0 then Inr None
                  else let duration = of_uint timeout
                       in if dless (dsub double_max duration) now then Inl (Invalid_argument ''Native callback retry absolute deadline overflow'')
                          else let own = dadd now duration
                               in if \<not> isfinite own \<or> dle own now then Inl (Invalid_argument ''Native callback retry absolute deadline rejected'')
                                  else Inr (Some own)) (\<lambda>own.
           Inr \<lparr>cs_identity = identity, cs_intervals = xs, cs_started = now, cs_owner_deadline = owner_deadline, cs_next_due = now,
                cs_last_now = now, cs_own_deadline = own, cs_current = fresh_current, cs_attempts = 0, cs_verdict = VPending,
                cs_phase = SReady, cs_physical = False\<rparr>)))"

definition sched_Deadline :: "schedule \<Rightarrow> double" where
  "sched_Deadline s = (case cs_own_deadline s of Some own \<Rightarrow> dmin own (cs_owner_deadline s) | None \<Rightarrow> cs_owner_deadline s)"

definition sched_Time :: "double \<Rightarrow> unit sched_op" where
  "sched_Time now s =
     (if \<not> isfinite now \<or> dless now (cs_last_now s) then reject ''Native callback retry observation time rejected'' s
      else (Inr (), s\<lparr>cs_last_now := now\<rparr>))"

definition FinishLogical :: "verdict \<Rightarrow> schedule \<Rightarrow> schedule" where
  "FinishLogical verdict s = s\<lparr>cs_verdict := verdict, cs_phase := (if cs_physical s then cs_phase s else STerminal)\<rparr>"

definition sched_Tick :: "double \<Rightarrow> unit sched_op" where
  "sched_Tick now =
     bindS (sched_Time now) (\<lambda>_ s.
       (Inr (), if cs_verdict s = VPending \<and> dle (sched_Deadline s) now then FinishLogical VTimedOut s else s))"

definition sched_Exact :: "invocation \<Rightarrow> unit sched_op" where
  "sched_Exact iv s =
     (if \<not> cs_physical s \<or> cu_invocation (cs_current s) \<noteq> iv
      then reject ''Native callback retry invocation identity is stale or foreign'' s else (Inr (), s))"

text \<open>\<open>*current_.physical_received\<close> is undefined when there is no receipt.\<close>

definition BackoffDue :: "schedule \<Rightarrow> double result" where
  "BackoffDue s =
     bindR (nthR (cs_intervals s) (min (usub (cs_attempts s) 1) (usub (length (cs_intervals s)) 1))) (\<lambda>interval.
       case cu_physical_received (cs_current s) of
         None \<Rightarrow> Inl Undefined_behaviour
       | Some origin \<Rightarrow>
           let deadline = sched_Deadline s
           in Inr (if dle (dsub deadline origin) (of_uint interval) then deadline else dmin deadline (dadd origin (of_uint interval))))"

definition sched_Start :: "nat \<Rightarrow> double \<Rightarrow> invocation sched_op" where
  "sched_Start native_step now =
     bindS (sched_Tick now) (\<lambda>_ s.
       if cs_verdict s \<noteq> VPending \<or> (cs_phase s \<noteq> SReady \<and> cs_phase s \<noteq> SBackoff) \<or> dless now (cs_next_due s) \<or> native_step = 0 \<or>
          (if cs_attempts s \<noteq> 0 then native_step \<le> in_step (cu_invocation (cs_current s)) else native_step \<noteq> si_id (cs_identity s)) \<or>
          cs_attempts s = u64_max
       then reject ''Native callback retry dispatch is stale, early or exhausted'' s
       else let iv = \<lparr>in_assertion = si_id (cs_identity s), in_nonce = cs_attempts s + 1, in_step = native_step\<rparr>
            in (Inr iv, s\<lparr>cs_current := \<lparr>cu_invocation = iv, cu_started = now, cu_raw_received = None, cu_physical_received = None,
                             cu_raw = None, cu_fence = None, cu_receipt = RPending\<rparr>,
                           cs_attempts := cs_attempts s + 1, cs_phase := SRunning, cs_physical := True\<rparr>))"

definition sched_FailInfrastructure :: "double \<Rightarrow> bool sched_op" where
  "sched_FailInfrastructure now =
     bindS (sched_Tick now) (\<lambda>_ s.
       if \<not> cs_physical s \<and> cs_phase s = STerminal then (Inr False, s) else (Inr True, FinishLogical VInfrastructureFailure s))"

definition sched_RawSettled :: "invocation \<Rightarrow> raw \<Rightarrow> double \<Rightarrow> unit sched_op" where
  "sched_RawSettled iv raw now =
     bindS (sched_Tick now) (\<lambda>_. bindS (sched_Exact iv) (\<lambda>_ s.
       if cs_phase s \<noteq> SRunning \<or> cu_raw_received (cs_current s) \<noteq> None
       then reject ''Native callback retry raw receipt is duplicate or invalid'' s
       else let s = s\<lparr>cs_current := (cs_current s)\<lparr>cu_raw := Some raw, cu_raw_received := Some now\<rparr>, cs_phase := SDraining\<rparr>
            in if raw = RawInfrastructureFailure then bindS (sched_FailInfrastructure now) (\<lambda>_ s. (Inr (), s)) s else (Inr (), s)))"

definition sched_settle :: "double \<Rightarrow> fence \<Rightarrow> unit sched_op" where
  "sched_settle now fence s =
     (let s = s\<lparr>cs_current := (cs_current s)\<lparr>cu_physical_received := Some now, cu_fence := Some fence, cu_receipt := RSettled\<rparr>, cs_physical := False\<rparr>
      in if cs_verdict s \<noteq> VPending then (Inr (), s\<lparr>cs_phase := STerminal\<rparr>)
         else case cu_raw (cs_current s) of
                None \<Rightarrow> (Inl Undefined_behaviour, s)
              | Some raw \<Rightarrow>
                  if raw = Returned \<and> fence = Clean then (Inr (), s\<lparr>cs_verdict := VPassed, cs_phase := STerminal\<rparr>)
                  else (case BackoffDue s of
                          Inl e \<Rightarrow> (Inl e, s)
                        | Inr due \<Rightarrow> (Inr (), s\<lparr>cs_next_due := due, cs_phase := SBackoff\<rparr>)))"

definition sched_PhysicallySettled :: "invocation \<Rightarrow> double \<Rightarrow> fence \<Rightarrow> unit sched_op" where
  "sched_PhysicallySettled iv now fence =
     bindS (sched_Tick now) (\<lambda>_. bindS (sched_Exact iv) (\<lambda>_ s.
       if cs_phase s \<noteq> SDraining \<or> cu_raw_received (cs_current s) = None \<or> cu_physical_received (cs_current s) \<noteq> None
       then reject ''Native callback retry physical receipt lacks actual raw settlement'' s
       else bindS (if fence = FenceInfrastructureFailure then sched_FailInfrastructure now else (\<lambda>s. (Inr True, s)))
              (\<lambda>_. sched_settle now fence) s))"

definition sched_AmendOwner :: "double \<Rightarrow> double \<Rightarrow> bool sched_op" where
  "sched_AmendOwner deadline now =
     bindS (sched_Tick now) (\<lambda>_ s.
       if cs_verdict s \<noteq> VPending \<or> \<not> isfinite deadline \<or> dless deadline (Fin 0) then (Inr False, s)
       else let s = s\<lparr>cs_owner_deadline := deadline\<rparr>
            in case (if cs_phase s = SBackoff then BackoffDue s else Inr (cs_next_due s)) of
                 Inl e \<Rightarrow> (Inl e, s)
               | Inr due \<Rightarrow> bindS (sched_Tick now) (\<lambda>_ s. (Inr True, s)) (s\<lparr>cs_next_due := due\<rparr>))"

definition sched_Cancel :: "double \<Rightarrow> bool sched_op" where
  "sched_Cancel now =
     bindS (sched_Tick now) (\<lambda>_ s.
       if cs_verdict s \<noteq> VPending then (Inr False, s) else (Inr True, FinishLogical VCanceled s))"

definition sched_ConfirmedWorkerExit :: "nat \<Rightarrow> int \<Rightarrow> double \<Rightarrow> bool sched_op" where
  "sched_ConfirmedWorkerExit worker pid now =
     bindS (sched_Time now) (\<lambda>_ s.
       if worker \<noteq> so_worker_index (si_owner (cs_identity s)) \<or> pid \<noteq> so_pid (si_owner (cs_identity s)) then (Inr False, s)
       else if cs_phase s = STerminal \<and> \<not> cs_physical s then (Inr False, s)
       else let s = s\<lparr>cs_verdict := VInfrastructureFailure, cs_phase := STerminal\<rparr>
            in (Inr True,
                if cs_physical s
                then s\<lparr>cs_current := (cs_current s)\<lparr>cu_physical_received := Some now, cu_receipt := RWorkerExited\<rparr>, cs_physical := False\<rparr>
                else s))"

definition sched_Ready :: "double \<Rightarrow> bool sched_op" where
  "sched_Ready now =
     bindS (sched_Tick now) (\<lambda>_ s.
       (Inr (cs_verdict s = VPending \<and> \<not> cs_physical s \<and> (cs_phase s = SReady \<or> cs_phase s = SBackoff) \<and> dle (cs_next_due s) now), s))"

definition sched_NextWake :: "schedule \<Rightarrow> double option" where
  "sched_NextWake s =
     (if cs_verdict s \<noteq> VPending then None
      else Some (if cs_phase s = SReady \<or> cs_phase s = SBackoff then dmin (cs_next_due s) (sched_Deadline s) else sched_Deadline s))"

section \<open>Histories\<close>

datatype sched_call =
    CallStart nat double
  | CallRawSettled invocation raw double
  | CallPhysicallySettled invocation double fence
  | CallAmendOwner double double
  | CallTick double
  | CallCancel double
  | CallFailInfrastructure double
  | CallConfirmedWorkerExit nat int double
  | CallReady double

definition ignore :: "'a sched_op \<Rightarrow> unit sched_op" where
  "ignore m = bindS m (\<lambda>_ s. (Inr (), s))"

definition sched_run :: "sched_call \<Rightarrow> unit sched_op" where
  "sched_run e =
     (case e of
        CallStart step now \<Rightarrow> ignore (sched_Start step now)
      | CallRawSettled iv raw now \<Rightarrow> sched_RawSettled iv raw now
      | CallPhysicallySettled iv now fence \<Rightarrow> sched_PhysicallySettled iv now fence
      | CallAmendOwner deadline now \<Rightarrow> ignore (sched_AmendOwner deadline now)
      | CallTick now \<Rightarrow> sched_Tick now
      | CallCancel now \<Rightarrow> ignore (sched_Cancel now)
      | CallFailInfrastructure now \<Rightarrow> ignore (sched_FailInfrastructure now)
      | CallConfirmedWorkerExit worker pid now \<Rightarrow> ignore (sched_ConfirmedWorkerExit worker pid now)
      | CallReady now \<Rightarrow> ignore (sched_Ready now))"

text \<open>A call that throws is a step too: the schedule goes on from the state it left.\<close>

inductive sched_step :: "schedule \<Rightarrow> sched_call \<Rightarrow> schedule \<Rightarrow> bool" where
  sched_called: "sched_run e s = (r, s') \<Longrightarrow> sched_step s e s'"

inductive_simps sched_step_iff: "sched_step s e s'"

section \<open>The invariant\<close>

definition settled_failure :: "current \<Rightarrow> bool" where
  "settled_failure c \<longleftrightarrow> cu_receipt c = RSettled \<and> cu_raw c \<noteq> None \<and> cu_fence c \<noteq> None \<and> \<not> (cu_raw c = Some Returned \<and> cu_fence c = Some Clean)"

fun phase_ok :: "schedule \<Rightarrow> sched_phase \<Rightarrow> bool" where
  "phase_ok s SReady \<longleftrightarrow> cs_verdict s = VPending \<and> \<not> cs_physical s \<and> cs_attempts s = 0"
| "phase_ok s SRunning \<longleftrightarrow> cs_physical s \<and> 0 < cs_attempts s \<and> cu_raw_received (cs_current s) = None \<and>
     cu_physical_received (cs_current s) = None \<and> cs_verdict s \<noteq> VPassed"
| "phase_ok s SDraining \<longleftrightarrow> cs_physical s \<and> 0 < cs_attempts s \<and> cu_raw_received (cs_current s) \<noteq> None \<and> cu_raw (cs_current s) \<noteq> None \<and>
     cu_physical_received (cs_current s) = None \<and> cs_verdict s \<noteq> VPassed"
| "phase_ok s SBackoff \<longleftrightarrow> cs_verdict s = VPending \<and> \<not> cs_physical s \<and> 0 < cs_attempts s \<and> settled_failure (cs_current s) \<and>
     cu_physical_received (cs_current s) \<noteq> None \<and> BackoffDue s = Inr (cs_next_due s)"
| "phase_ok s STerminal \<longleftrightarrow> cs_verdict s \<noteq> VPending \<and> \<not> cs_physical s"

definition passed_ok :: "schedule \<Rightarrow> bool" where
  "passed_ok s \<longleftrightarrow>
     (cs_verdict s = VPassed \<longrightarrow> cs_phase s = STerminal \<and> cu_raw (cs_current s) = Some Returned \<and> cu_fence (cs_current s) = Some Clean \<and>
        cu_receipt (cs_current s) = RSettled \<and> (\<exists>t. cu_physical_received (cs_current s) = Some t \<and> dless t (sched_Deadline s)))"

definition numbers_ok :: "schedule \<Rightarrow> bool" where
  "numbers_ok s \<longleftrightarrow>
     cs_attempts s \<le> u64_max \<and> cs_intervals s \<noteq> [] \<and> length (cs_intervals s) \<le> 64 \<and>
     (0 < cs_attempts s \<longrightarrow> in_assertion (cu_invocation (cs_current s)) = si_id (cs_identity s) \<and>
        in_nonce (cu_invocation (cs_current s)) = cs_attempts s)"

definition times_ok :: "schedule \<Rightarrow> bool" where
  "times_ok s \<longleftrightarrow>
     isfinite (cs_last_now s) \<and> isfinite (cs_owner_deadline s) \<and> (\<forall>d. cs_own_deadline s = Some d \<longrightarrow> isfinite d) \<and>
     (\<forall>t. cu_physical_received (cs_current s) = Some t \<longrightarrow> isfinite t \<and> dle t (cs_last_now s))"

definition sched_inv :: "schedule \<Rightarrow> bool" where
  "sched_inv s \<longleftrightarrow> phase_ok s (cs_phase s) \<and> passed_ok s \<and> numbers_ok s \<and> times_ok s"

lemma sched_invI [intro]: "phase_ok s (cs_phase s) \<Longrightarrow> passed_ok s \<Longrightarrow> numbers_ok s \<Longrightarrow> times_ok s \<Longrightarrow> sched_inv s"
  by (simp add: sched_inv_def)

lemma sched_invD:
  assumes "sched_inv s"
  shows "phase_ok s (cs_phase s)" "passed_ok s" "numbers_ok s" "times_ok s"
  using assms unfolding sched_inv_def by blast+

lemma Deadline_finite: "times_ok s \<Longrightarrow> isfinite (sched_Deadline s)"
  by (auto simp: times_ok_def sched_Deadline_def split: option.splits)

lemma Deadline_cong:
  "cs_own_deadline s' = cs_own_deadline s \<Longrightarrow> cs_owner_deadline s' = cs_owner_deadline s \<Longrightarrow> sched_Deadline s' = sched_Deadline s"
  by (simp add: sched_Deadline_def split: option.splits)

lemma BackoffDue_cong:
  "cs_own_deadline s' = cs_own_deadline s \<Longrightarrow> cs_owner_deadline s' = cs_owner_deadline s \<Longrightarrow> cs_intervals s' = cs_intervals s \<Longrightarrow>
   cs_attempts s' = cs_attempts s \<Longrightarrow> cs_current s' = cs_current s \<Longrightarrow> BackoffDue s' = BackoffDue s"
  using Deadline_cong [of s' s] by (simp add: BackoffDue_def cong: option.case_cong)

lemma Deadline_update [simp]:
  "sched_Deadline (s\<lparr>cs_last_now := now\<rparr>) = sched_Deadline s" "sched_Deadline (s\<lparr>cs_current := c\<rparr>) = sched_Deadline s"
  "sched_Deadline (s\<lparr>cs_phase := f\<rparr>) = sched_Deadline s" "sched_Deadline (s\<lparr>cs_verdict := v\<rparr>) = sched_Deadline s"
  "sched_Deadline (s\<lparr>cs_physical := b\<rparr>) = sched_Deadline s" "sched_Deadline (s\<lparr>cs_attempts := n\<rparr>) = sched_Deadline s"
  "sched_Deadline (s\<lparr>cs_next_due := d\<rparr>) = sched_Deadline s" "sched_Deadline (FinishLogical v s) = sched_Deadline s"
  by (simp_all add: sched_Deadline_def FinishLogical_def cong: option.case_cong)

text \<open>\<open>BackoffDue\<close> is defined when the invocation has its receipt; its value is finite.\<close>

lemma BackoffDue_total:
  assumes "numbers_ok s" "0 < cs_attempts s" "cu_physical_received (cs_current s) = Some origin"
  shows "BackoffDue s =
    (let interval = cs_intervals s ! min (cs_attempts s - 1) (length (cs_intervals s) - 1); deadline = sched_Deadline s
     in Inr (if dle (dsub deadline origin) (of_uint interval) then deadline else dmin deadline (dadd origin (of_uint interval))))"
proof -
  have "0 < length (cs_intervals s)" using assms(1) by (simp add: numbers_ok_def)
  then show ?thesis using assms(2,3) by (simp add: BackoffDue_def nthR_def Let_def Suc_le_eq min_less_iff_disj)
qed

section \<open>Reading the clock\<close>

lemma sched_Time_cases:
  "(\<exists>m. sched_Time now s = (Inl (Invalid_argument m), s)) \<or>
   (sched_Time now s = (Inr (), s\<lparr>cs_last_now := now\<rparr>) \<and> isfinite now \<and> \<not> dless now (cs_last_now s))"
  by (auto simp: sched_Time_def reject_def)

lemma times_ok_now:
  "times_ok s \<Longrightarrow> isfinite now \<Longrightarrow> \<not> dless now (cs_last_now s) \<Longrightarrow> times_ok (s\<lparr>cs_last_now := now\<rparr>)"
  using not_dless [of now "cs_last_now s"] dle_trans by (auto simp: times_ok_def)

lemma phase_ok_now: "phase_ok s f \<Longrightarrow> phase_ok (s\<lparr>cs_last_now := now\<rparr>) f"
  using BackoffDue_cong [of "s\<lparr>cs_last_now := now\<rparr>" s] by (cases f) simp_all

lemma sched_inv_now:
  assumes "sched_inv s" "isfinite now" "\<not> dless now (cs_last_now s)"
  shows "sched_inv (s\<lparr>cs_last_now := now\<rparr>)"
proof
  note i = sched_invD [OF assms(1)]
  show "phase_ok (s\<lparr>cs_last_now := now\<rparr>) (cs_phase (s\<lparr>cs_last_now := now\<rparr>))" using phase_ok_now [OF i(1)] by simp
  show "passed_ok (s\<lparr>cs_last_now := now\<rparr>)" using i(2) by (simp add: passed_ok_def)
  show "numbers_ok (s\<lparr>cs_last_now := now\<rparr>)" using i(3) by (simp add: numbers_ok_def)
  show "times_ok (s\<lparr>cs_last_now := now\<rparr>)" using times_ok_now [OF i(4) assms(2,3)] .
qed

text \<open>A logical end: the verdict is set, and the phase ends at once unless physical work is left.\<close>

lemma FinishLogical_simps [simp]:
  "cs_verdict (FinishLogical v s) = v" "cs_physical (FinishLogical v s) = cs_physical s" "cs_current (FinishLogical v s) = cs_current s"
  "cs_attempts (FinishLogical v s) = cs_attempts s" "cs_last_now (FinishLogical v s) = cs_last_now s"
  "cs_owner_deadline (FinishLogical v s) = cs_owner_deadline s" "cs_own_deadline (FinishLogical v s) = cs_own_deadline s"
  "cs_intervals (FinishLogical v s) = cs_intervals s" "cs_identity (FinishLogical v s) = cs_identity s"
  "cs_next_due (FinishLogical v s) = cs_next_due s"
  "cs_phase (FinishLogical v s) = (if cs_physical s then cs_phase s else STerminal)"
  by (simp_all add: FinishLogical_def)

lemma FinishLogical_inv:
  assumes "sched_inv s" "v \<noteq> VPending" "v \<noteq> VPassed"
  shows "sched_inv (FinishLogical v s)"
proof
  note i = sched_invD [OF assms(1)]
  show "phase_ok (FinishLogical v s) (cs_phase (FinishLogical v s))" using i(1) assms(2,3) by (cases "cs_phase s") simp_all
  show "passed_ok (FinishLogical v s)" using assms(3) by (simp add: passed_ok_def)
  show "numbers_ok (FinishLogical v s)" using i(3) by (simp add: numbers_ok_def)
  show "times_ok (FinishLogical v s)" using i(4) by (simp add: times_ok_def)
qed

definition ticked :: "double \<Rightarrow> schedule \<Rightarrow> schedule" where
  "ticked now s =
     (let s = s\<lparr>cs_last_now := now\<rparr>
      in if cs_verdict s = VPending \<and> dle (sched_Deadline s) now then FinishLogical VTimedOut s else s)"

lemma sched_Tick_cases:
  "(\<exists>m. sched_Tick now s = (Inl (Invalid_argument m), s)) \<or>
   (sched_Tick now s = (Inr (), ticked now s) \<and> isfinite now \<and> \<not> dless now (cs_last_now s))"
  using sched_Time_cases [of now s] by (auto simp: sched_Tick_def bindS_def ticked_def Let_def)

lemma ticked_inv: "sched_inv s \<Longrightarrow> isfinite now \<Longrightarrow> \<not> dless now (cs_last_now s) \<Longrightarrow> sched_inv (ticked now s)"
  using sched_inv_now [of s now] FinishLogical_inv by (simp add: ticked_def Let_def)

lemma ticked_simps [simp]:
  "cs_last_now (ticked now s) = now" "cs_current (ticked now s) = cs_current s" "cs_attempts (ticked now s) = cs_attempts s"
  "cs_physical (ticked now s) = cs_physical s" "cs_identity (ticked now s) = cs_identity s" "cs_intervals (ticked now s) = cs_intervals s"
  "cs_own_deadline (ticked now s) = cs_own_deadline s" "cs_owner_deadline (ticked now s) = cs_owner_deadline s"
  "cs_next_due (ticked now s) = cs_next_due s" "sched_Deadline (ticked now s) = sched_Deadline s"
  by (simp_all add: ticked_def Let_def)

lemma ticked_pending:
  "cs_verdict (ticked now s) = VPending \<Longrightarrow> cs_verdict s = VPending \<and> \<not> dle (sched_Deadline s) now \<and> cs_phase (ticked now s) = cs_phase s"
  by (auto simp: ticked_def Let_def split: if_splits)

text \<open>An operation that begins with \<open>Tick\<close>, judged on the state \<open>Tick\<close> leaves.\<close>

definition op_ok :: "'a result \<times> schedule \<Rightarrow> bool" where
  "op_ok r \<longleftrightarrow> sched_inv (snd r) \<and> (\<forall>e. fst r = Inl e \<longrightarrow> (\<exists>m. e = Invalid_argument m))"

lemma op_ok_Inr [simp]: "op_ok (Inr x, s') \<longleftrightarrow> sched_inv s'"
  by (simp add: op_ok_def)

lemma op_ok_reject [simp]: "op_ok (reject m s') \<longleftrightarrow> sched_inv s'"
  by (simp add: op_ok_def reject_def)

lemma op_ok_Tick:
  assumes "sched_inv s" "isfinite now \<Longrightarrow> \<not> dless now (cs_last_now s) \<Longrightarrow> op_ok (f () (ticked now s))"
  shows "op_ok (bindS (sched_Tick now) f s)"
  using sched_Tick_cases [of now s] assms by (auto simp: bindS_def op_ok_def)

lemma op_ok_ignore: "op_ok (m s) \<Longrightarrow> op_ok (ignore m s)"
  by (auto simp: ignore_def bindS_def op_ok_def split: prod.splits sum.splits)

lemma op_ok_bindS:
  assumes "op_ok (m s)" "\<And>x s'. m s = (Inr x, s') \<Longrightarrow> sched_inv s' \<Longrightarrow> op_ok (f x s')"
  shows "op_ok (bindS m f s)"
proof (cases "m s")
  case (Pair r s')
  then show ?thesis using assms by (cases r) (auto simp: bindS_def op_ok_def)
qed

lemma op_ok_Exact: "sched_inv s \<Longrightarrow> op_ok (sched_Exact iv s)"
  by (simp add: sched_Exact_def)

lemma Exact_Inr: "sched_Exact iv s = (Inr x, s') \<longleftrightarrow> s' = s \<and> cs_physical s \<and> cu_invocation (cs_current s) = iv"
  by (auto simp: sched_Exact_def reject_def)

section \<open>Every operation keeps the invariant\<close>

lemma sched_Start_ok:
  assumes "sched_inv s"
  shows "op_ok (sched_Start step now s)"
  unfolding sched_Start_def
proof (rule op_ok_Tick [OF assms])
  assume now: "isfinite now" "\<not> dless now (cs_last_now s)"
  define t where "t = ticked now s"
  have inv: "sched_inv t" using ticked_inv [OF assms now] by (simp add: t_def)
  note i = sched_invD [OF inv]
  define iv where "iv = \<lparr>in_assertion = si_id (cs_identity t), in_nonce = cs_attempts t + 1, in_step = step\<rparr>"
  define t' where "t' = t\<lparr>cs_current := \<lparr>cu_invocation = iv, cu_started = now, cu_raw_received = None, cu_physical_received = None,
      cu_raw = None, cu_fence = None, cu_receipt = RPending\<rparr>, cs_attempts := cs_attempts t + 1, cs_phase := SRunning, cs_physical := True\<rparr>"
  have "sched_inv t'" if "cs_verdict t = VPending" "cs_attempts t \<noteq> u64_max"
  proof
    show "phase_ok t' (cs_phase t')" using that by (simp add: t'_def)
    show "passed_ok t'" using that by (simp add: t'_def passed_ok_def)
    show "numbers_ok t'" using i(3) that by (simp add: t'_def numbers_ok_def iv_def)
    show "times_ok t'" using i(4) by (simp add: t'_def times_ok_def)
  qed
  then show "op_ok (if cs_verdict (ticked now s) \<noteq> VPending \<or> (cs_phase (ticked now s) \<noteq> SReady \<and> cs_phase (ticked now s) \<noteq> SBackoff) \<or>
          dless now (cs_next_due (ticked now s)) \<or> step = 0 \<or>
          (if cs_attempts (ticked now s) \<noteq> 0 then step \<le> in_step (cu_invocation (cs_current (ticked now s)))
           else step \<noteq> si_id (cs_identity (ticked now s))) \<or> cs_attempts (ticked now s) = u64_max
       then reject ''Native callback retry dispatch is stale, early or exhausted'' (ticked now s)
       else let iv = \<lparr>in_assertion = si_id (cs_identity (ticked now s)), in_nonce = cs_attempts (ticked now s) + 1, in_step = step\<rparr>
            in (Inr iv, (ticked now s)\<lparr>cs_current := \<lparr>cu_invocation = iv, cu_started = now, cu_raw_received = None, cu_physical_received = None,
                             cu_raw = None, cu_fence = None, cu_receipt = RPending\<rparr>,
                           cs_attempts := cs_attempts (ticked now s) + 1, cs_phase := SRunning, cs_physical := True\<rparr>))"
    unfolding t_def [symmetric] iv_def [symmetric] Let_def t'_def [symmetric] using inv by (simp del: ticked_simps)
qed

lemma sched_FailInfrastructure_ok:
  assumes "sched_inv s"
  shows "op_ok (sched_FailInfrastructure now s)"
  unfolding sched_FailInfrastructure_def
  by (rule op_ok_Tick [OF assms]) (use ticked_inv [OF assms] FinishLogical_inv in auto)

lemma sched_RawSettled_ok:
  assumes "sched_inv s"
  shows "op_ok (sched_RawSettled iv raw now s)"
  unfolding sched_RawSettled_def
proof (rule op_ok_Tick [OF assms], rule op_ok_bindS)
  assume now: "isfinite now" "\<not> dless now (cs_last_now s)"
  define t where "t = ticked now s"
  have inv: "sched_inv t" using ticked_inv [OF assms now] by (simp add: t_def)
  then show "op_ok (sched_Exact iv (ticked now s))" using op_ok_Exact by (simp add: t_def)
  fix x s' assume "sched_Exact iv (ticked now s) = (Inr x, s')"
  then have s': "s' = t" by (simp add: Exact_Inr t_def)
  define t' where "t' = t\<lparr>cs_current := (cs_current t)\<lparr>cu_raw := Some raw, cu_raw_received := Some now\<rparr>, cs_phase := SDraining\<rparr>"
  note i = sched_invD [OF inv]
  have "sched_inv t'" if "cs_phase t = SRunning"
  proof
    show "phase_ok t' (cs_phase t')" using i(1) that by (simp add: t'_def)
    show "passed_ok t'" using i(1) that by (simp add: t'_def passed_ok_def)
    show "numbers_ok t'" using i(3) by (simp add: t'_def numbers_ok_def)
    show "times_ok t'" using i(4) by (simp add: t'_def times_ok_def)
  qed
  then show "op_ok (if cs_phase s' \<noteq> SRunning \<or> cu_raw_received (cs_current s') \<noteq> None
       then reject ''Native callback retry raw receipt is duplicate or invalid'' s'
       else let s = s'\<lparr>cs_current := (cs_current s')\<lparr>cu_raw := Some raw, cu_raw_received := Some now\<rparr>, cs_phase := SDraining\<rparr>
            in if raw = RawInfrastructureFailure then bindS (sched_FailInfrastructure now) (\<lambda>_ s. (Inr (), s)) s else (Inr (), s))"
    unfolding s' Let_def t'_def [symmetric] using inv op_ok_ignore [of "sched_FailInfrastructure now" t'] sched_FailInfrastructure_ok [of t' now]
    by (simp add: ignore_def)
qed

lemma sched_settle_ok:
  assumes "sched_inv t" "cs_phase t = SDraining" "cs_last_now t = now" "isfinite now" "cs_verdict t = VPending \<Longrightarrow> dless now (sched_Deadline t)"
  shows "op_ok (sched_settle now fence t)"
proof -
  note i = sched_invD [OF assms(1)]
  have d: "0 < cs_attempts t" "cu_raw (cs_current t) \<noteq> None" "cs_verdict t \<noteq> VPassed" using i(1) assms(2) by simp_all
  define u where "u = t\<lparr>cs_current := (cs_current t)\<lparr>cu_physical_received := Some now, cu_fence := Some fence, cu_receipt := RSettled\<rparr>, cs_physical := False\<rparr>"
  have u: "cs_verdict u = cs_verdict t" "cu_raw (cs_current u) = cu_raw (cs_current t)" "cu_physical_received (cs_current u) = Some now"
    "cu_fence (cs_current u) = Some fence" "cu_receipt (cs_current u) = RSettled" "cs_attempts u = cs_attempts t" "\<not> cs_physical u"
    "sched_Deadline u = sched_Deadline t" by (simp_all add: u_def)
  have nums: "numbers_ok u" using i(3) by (simp add: u_def numbers_ok_def)
  have times: "times_ok u" using i(4) assms(3,4) by (simp add: u_def times_ok_def)
  have keep: "numbers_ok (u\<lparr>cs_next_due := n, cs_verdict := v, cs_phase := f\<rparr>)" "times_ok (u\<lparr>cs_next_due := n, cs_verdict := v, cs_phase := f\<rparr>)" for n v f
    using nums times by (simp_all add: numbers_ok_def times_ok_def)
  have ended: "sched_inv (u\<lparr>cs_phase := STerminal\<rparr>)" if "cs_verdict t \<noteq> VPending"
  proof
    show "passed_ok (u\<lparr>cs_phase := STerminal\<rparr>)" using d(3) u by (simp add: passed_ok_def)
    show "numbers_ok (u\<lparr>cs_phase := STerminal\<rparr>)" "times_ok (u\<lparr>cs_phase := STerminal\<rparr>)"
      using nums times by (simp_all add: numbers_ok_def times_ok_def)
  qed (use that u in simp)
  have passed: "sched_inv (u\<lparr>cs_verdict := VPassed, cs_phase := STerminal\<rparr>)" if "cs_verdict t = VPending" "cu_raw (cs_current t) = Some Returned" "fence = Clean"
  proof
    show "passed_ok (u\<lparr>cs_verdict := VPassed, cs_phase := STerminal\<rparr>)" using that u assms(5) by (simp add: passed_ok_def)
    show "numbers_ok (u\<lparr>cs_verdict := VPassed, cs_phase := STerminal\<rparr>)" "times_ok (u\<lparr>cs_verdict := VPassed, cs_phase := STerminal\<rparr>)"
      using nums times by (simp_all add: numbers_ok_def times_ok_def)
  qed (use that u in simp)
  obtain due where due: "BackoffDue u = Inr due" using BackoffDue_total [OF nums _ u(3)] d(1) u(6) by (auto simp: Let_def)
  have again: "sched_inv (u\<lparr>cs_next_due := due, cs_phase := SBackoff\<rparr>)"
    if "cs_verdict t = VPending" "\<not> (cu_raw (cs_current t) = Some Returned \<and> fence = Clean)"
  proof
    have "BackoffDue (u\<lparr>cs_next_due := due, cs_phase := SBackoff\<rparr>) = BackoffDue u" by (rule BackoffDue_cong) simp_all
    then show "phase_ok (u\<lparr>cs_next_due := due, cs_phase := SBackoff\<rparr>) (cs_phase (u\<lparr>cs_next_due := due, cs_phase := SBackoff\<rparr>))"
      using that d u due by (auto simp: settled_failure_def)
    show "passed_ok (u\<lparr>cs_next_due := due, cs_phase := SBackoff\<rparr>)" using that u by (simp add: passed_ok_def)
    show "numbers_ok (u\<lparr>cs_next_due := due, cs_phase := SBackoff\<rparr>)" "times_ok (u\<lparr>cs_next_due := due, cs_phase := SBackoff\<rparr>)"
      using nums times by (simp_all add: numbers_ok_def times_ok_def)
  qed
  obtain raw where "cu_raw (cs_current t) = Some raw" using d(2) by blast
  then show ?thesis
    unfolding sched_settle_def u_def [symmetric] Let_def using ended passed again u due by simp
qed

lemma ticked_physical: "cs_physical s \<Longrightarrow> cs_phase (ticked now s) = cs_phase s"
  by (simp add: ticked_def Let_def)

lemma FailInfrastructure_physical:
  assumes "cs_physical s" "sched_FailInfrastructure now s = (Inr x, s')"
  shows "s' = FinishLogical VInfrastructureFailure (ticked now s)"
  using sched_Tick_cases [of now s] assms by (auto simp: sched_FailInfrastructure_def bindS_def)

lemma sched_PhysicallySettled_ok:
  assumes "sched_inv s"
  shows "op_ok (sched_PhysicallySettled iv now fence s)"
  unfolding sched_PhysicallySettled_def
proof (rule op_ok_Tick [OF assms], rule op_ok_bindS)
  assume now: "isfinite now" "\<not> dless now (cs_last_now s)"
  define t where "t = ticked now s"
  have inv: "sched_inv t" using ticked_inv [OF assms now] by (simp add: t_def)
  then show "op_ok (sched_Exact iv (ticked now s))" using op_ok_Exact by (simp add: t_def)
  fix x s' assume "sched_Exact iv (ticked now s) = (Inr x, s')"
  then have s': "s' = t" "cs_physical t" by (simp_all add: Exact_Inr t_def)
  have last: "cs_last_now t = now" by (simp add: t_def)
  have "dless now (sched_Deadline t)" if "cs_verdict t = VPending"
  proof -
    have "\<not> dle (sched_Deadline t) now" using ticked_pending [of now s] that by (simp add: t_def)
    then show ?thesis using not_dle now(1) Deadline_finite [OF sched_invD(4) [OF inv]] by blast
  qed
  then have settle: "op_ok (sched_settle now fence t)" if "cs_phase t = SDraining" using sched_settle_ok [OF inv that last now(1)] by blast
  have failed: "op_ok (bindS (sched_FailInfrastructure now) (\<lambda>_. sched_settle now fence) t)" if "cs_phase t = SDraining"
  proof (rule op_ok_bindS [of "sched_FailInfrastructure now" t "\<lambda>_. sched_settle now fence", OF sched_FailInfrastructure_ok [OF inv]])
    fix y u assume u: "sched_FailInfrastructure now t = (Inr y, u)" "sched_inv u"
    have u': "u = FinishLogical VInfrastructureFailure (ticked now t)" using FailInfrastructure_physical [OF s'(2) u(1)] .
    show "op_ok (sched_settle now fence u)"
      by (rule sched_settle_ok [OF u(2)]) (use u' s'(2) ticked_physical [OF s'(2)] that now(1) in simp_all)
  qed
  have plain: "bindS (\<lambda>s. (Inr True, s)) (\<lambda>_. sched_settle now fence) t = sched_settle now fence t" by (simp add: bindS_def)
  show "op_ok (if cs_phase s' \<noteq> SDraining \<or> cu_raw_received (cs_current s') = None \<or> cu_physical_received (cs_current s') \<noteq> None
       then reject ''Native callback retry physical receipt lacks actual raw settlement'' s'
       else bindS (if fence = FenceInfrastructureFailure then sched_FailInfrastructure now else (\<lambda>s. (Inr True, s)))
              (\<lambda>_. sched_settle now fence) s')"
    unfolding s'(1) using inv settle failed plain by (cases "fence = FenceInfrastructureFailure") auto
qed

lemma sched_AmendOwner_ok:
  assumes "sched_inv s"
  shows "op_ok (sched_AmendOwner deadline now s)"
  unfolding sched_AmendOwner_def
proof (rule op_ok_Tick [OF assms])
  assume now: "isfinite now" "\<not> dless now (cs_last_now s)"
  define t where "t = ticked now s"
  have inv: "sched_inv t" using ticked_inv [OF assms now] by (simp add: t_def)
  note i = sched_invD [OF inv]
  define u where "u = t\<lparr>cs_owner_deadline := deadline\<rparr>"
  have amended: "\<exists>due. (if cs_phase u = SBackoff then BackoffDue u else Inr (cs_next_due u)) = Inr due \<and> sched_inv (u\<lparr>cs_next_due := due\<rparr>)"
    if "cs_verdict t = VPending" "isfinite deadline"
  proof -
    have nums: "numbers_ok u" using i(3) by (simp add: u_def numbers_ok_def)
    have times: "times_ok u" using i(4) that(2) by (simp add: u_def times_ok_def)
    have "\<exists>due. (if cs_phase u = SBackoff then BackoffDue u else Inr (cs_next_due u)) = Inr due"
      using i(1) BackoffDue_total [OF nums] by (cases "cs_phase u = SBackoff") (auto simp: u_def Let_def)
    then obtain due where due: "(if cs_phase u = SBackoff then BackoffDue u else Inr (cs_next_due u)) = Inr due" by blast
    have "sched_inv (u\<lparr>cs_next_due := due\<rparr>)"
    proof
      have "BackoffDue (u\<lparr>cs_next_due := due\<rparr>) = BackoffDue u" by (rule BackoffDue_cong) simp_all
      then show "phase_ok (u\<lparr>cs_next_due := due\<rparr>) (cs_phase (u\<lparr>cs_next_due := due\<rparr>))"
        using i(1) due by (cases "cs_phase t") (simp_all add: u_def)
      show "passed_ok (u\<lparr>cs_next_due := due\<rparr>)" using that(1) by (simp add: u_def passed_ok_def)
      show "numbers_ok (u\<lparr>cs_next_due := due\<rparr>)" "times_ok (u\<lparr>cs_next_due := due\<rparr>)"
        using nums times by (simp_all add: numbers_ok_def times_ok_def)
    qed
    then show ?thesis using due by blast
  qed
  show "op_ok (if cs_verdict (ticked now s) \<noteq> VPending \<or> \<not> isfinite deadline \<or> dless deadline (Fin 0) then (Inr False, ticked now s)
       else let s = (ticked now s)\<lparr>cs_owner_deadline := deadline\<rparr>
            in case (if cs_phase s = SBackoff then BackoffDue s else Inr (cs_next_due s)) of
                 Inl e \<Rightarrow> (Inl e, s)
               | Inr due \<Rightarrow> bindS (sched_Tick now) (\<lambda>_ s. (Inr True, s)) (s\<lparr>cs_next_due := due\<rparr>))"
    unfolding t_def [symmetric] Let_def u_def [symmetric]
  proof (cases "cs_verdict t \<noteq> VPending \<or> \<not> isfinite deadline \<or> dless deadline (Fin 0)")
    case False
    then obtain due where due: "(if cs_phase u = SBackoff then BackoffDue u else Inr (cs_next_due u)) = Inr due"
      "sched_inv (u\<lparr>cs_next_due := due\<rparr>)" using amended by blast
    have "op_ok (bindS (sched_Tick now) (\<lambda>_ s. (Inr True, s)) (u\<lparr>cs_next_due := due\<rparr>))"
      by (rule op_ok_Tick [OF due(2)]) (use ticked_inv [OF due(2)] in auto)
    then show "op_ok (if cs_verdict t \<noteq> VPending \<or> \<not> isfinite deadline \<or> dless deadline (Fin 0) then (Inr False, t)
       else case (if cs_phase u = SBackoff then BackoffDue u else Inr (cs_next_due u)) of
                 Inl e \<Rightarrow> (Inl e, u)
               | Inr due \<Rightarrow> bindS (sched_Tick now) (\<lambda>_ s. (Inr True, s)) (u\<lparr>cs_next_due := due\<rparr>))" using False due(1) by simp
  qed (use inv in simp)
qed

lemma sched_Cancel_ok: "sched_inv s \<Longrightarrow> op_ok (sched_Cancel now s)"
  unfolding sched_Cancel_def by (rule op_ok_Tick) (use ticked_inv FinishLogical_inv in auto)

lemma sched_Ready_ok: "sched_inv s \<Longrightarrow> op_ok (sched_Ready now s)"
  unfolding sched_Ready_def by (rule op_ok_Tick) (use ticked_inv in auto)

lemma sched_Tick_ok: "sched_inv s \<Longrightarrow> op_ok (sched_Tick now s)"
  using sched_Tick_cases [of now s] ticked_inv [of s now] by (auto simp: op_ok_def)

lemma sched_ConfirmedWorkerExit_ok:
  assumes "sched_inv s"
  shows "op_ok (sched_ConfirmedWorkerExit worker pid now s)"
  using sched_Time_cases [of now s]
proof
  assume t: "sched_Time now s = (Inr (), s\<lparr>cs_last_now := now\<rparr>) \<and> isfinite now \<and> \<not> dless now (cs_last_now s)"
  define t where "t = s\<lparr>cs_last_now := now\<rparr>"
  have inv: "sched_inv t" "cs_last_now t = now" using sched_inv_now [OF assms, of now] t by (simp_all add: t_def)
  note i = sched_invD [OF inv(1)]
  define u where "u = t\<lparr>cs_verdict := VInfrastructureFailure, cs_phase := STerminal\<rparr>"
  have "sched_inv (u\<lparr>cs_current := (cs_current u)\<lparr>cu_physical_received := Some now, cu_receipt := RWorkerExited\<rparr>, cs_physical := False\<rparr>)"
    using i(3,4) inv(2) t by (intro sched_invI) (simp_all add: u_def passed_ok_def numbers_ok_def times_ok_def)
  moreover have "sched_inv u" if "\<not> cs_physical t"
    using i(3,4) that by (intro sched_invI) (simp_all add: u_def passed_ok_def numbers_ok_def times_ok_def)
  moreover have "cs_physical u = cs_physical t" by (simp add: u_def)
  ultimately show ?thesis
    using t inv(1) unfolding sched_ConfirmedWorkerExit_def bindS_def t_def [symmetric] Let_def by (auto simp: u_def)
qed (use assms in \<open>auto simp: sched_ConfirmedWorkerExit_def bindS_def op_ok_def\<close>)

lemma sched_run_ok: "sched_inv s \<Longrightarrow> op_ok (sched_run e s)"
  unfolding sched_run_def
  by (cases e) (simp_all add: op_ok_ignore sched_Start_ok sched_RawSettled_ok sched_PhysicallySettled_ok sched_AmendOwner_ok sched_Tick_ok
      sched_Cancel_ok sched_FailInfrastructure_ok sched_ConfirmedWorkerExit_ok sched_Ready_ok)

interpretation sched: machine sched_step sched_inv
proof
  show "sched_inv s'" if "sched_inv s" "sched_step s e s'" for s e s'
    using sched_run_ok [OF that(1), of e] that(2) by (auto simp: sched_step_iff op_ok_def)
qed

lemma CallbackRetrySchedule_inv:
  assumes "CallbackRetrySchedule identity timeout ivals owner_deadline now = Inr s"
  shows "sched_inv s"
proof -
  obtain xs own where s: "s = \<lparr>cs_identity = identity, cs_intervals = xs, cs_started = now, cs_owner_deadline = owner_deadline, cs_next_due = now,
                cs_last_now = now, cs_own_deadline = own, cs_current = fresh_current, cs_attempts = 0, cs_verdict = VPending,
                cs_phase = SReady, cs_physical = False\<rparr>" "isfinite now" "isfinite owner_deadline" "xs \<noteq> []" "length xs \<le> 64" "\<forall>d. own = Some d \<longrightarrow> isfinite d"
    using assms by (auto simp: CallbackRetrySchedule_def bindR_eq_Inr Let_def split: if_splits option.splits)
  then show ?thesis by (intro sched_invI) (simp_all add: passed_ok_def numbers_ok_def times_ok_def fresh_current_def)
qed

section \<open>Properties\<close>

lemma sched_Start_Inr:
  assumes "sched_inv s" "sched_Start step now s = (Inr iv, s')"
  shows "isfinite now" "\<not> dless now (cs_last_now s)" "cs_verdict s = VPending" "\<not> dle (sched_Deadline s) now" "cs_phase s = SReady \<or> cs_phase s = SBackoff"
    "\<not> dless now (cs_next_due s)" "0 < cs_attempts s \<longrightarrow> in_step (cu_invocation (cs_current s)) < step"
    "iv = \<lparr>in_assertion = si_id (cs_identity s), in_nonce = cs_attempts s + 1, in_step = step\<rparr>" "cs_attempts s' = cs_attempts s + 1"
    "cs_physical s'"
proof -
  have t: "sched_Tick now s = (Inr (), ticked now s)" "isfinite now" "\<not> dless now (cs_last_now s)"
    using sched_Tick_cases [of now s] assms(2) by (auto simp: sched_Start_def bindS_def)
  then show "isfinite now" "\<not> dless now (cs_last_now s)" by simp_all
  have v: "cs_verdict (ticked now s) = VPending" "cs_phase (ticked now s) = SReady \<or> cs_phase (ticked now s) = SBackoff"
    using assms(2) t(1) by (auto simp: sched_Start_def bindS_def reject_def Let_def split: if_splits)
  show "cs_verdict s = VPending" "\<not> dle (sched_Deadline s) now" "cs_phase s = SReady \<or> cs_phase s = SBackoff"
    using ticked_pending [OF v(1)] v(2) by auto
  show "\<not> dless now (cs_next_due s)" "0 < cs_attempts s \<longrightarrow> in_step (cu_invocation (cs_current s)) < step"
    "iv = \<lparr>in_assertion = si_id (cs_identity s), in_nonce = cs_attempts s + 1, in_step = step\<rparr>" "cs_attempts s' = cs_attempts s + 1" "cs_physical s'"
    using assms(2) t(1) by (auto simp: sched_Start_def bindS_def reject_def Let_def split: if_splits)
qed

text \<open>
  C31: retries never overlap and keep their pause. Whenever, after any history (calls that threw included), an
  invocation is started, no other one has physical work left, the deadline has not come, the invocations are
  numbered without gaps and their steps increase; and if it is a retry, the one before it has been physically
  settled without passing, and the interval of its turn has fully passed since that receipt.
\<close>

theorem retry_after_fence:
  assumes "CallbackRetrySchedule identity timeout ivals owner_deadline begun = Inr s" "trace sched_step s calls s'"
    "sched_Start step now s' = (Inr iv, s'')"
  shows "\<not> cs_physical s' \<and> cs_physical s'' \<and> dless now (sched_Deadline s') \<and>
    iv = \<lparr>in_assertion = si_id (cs_identity s'), in_nonce = cs_attempts s' + 1, in_step = step\<rparr> \<and>
    (0 < cs_attempts s' \<longrightarrow>
       in_step (cu_invocation (cs_current s')) < step \<and> settled_failure (cs_current s') \<and>
       (\<exists>origin. cu_physical_received (cs_current s') = Some origin \<and>
          dle (dadd origin (of_uint (cs_intervals s' ! min (cs_attempts s' - 1) (length (cs_intervals s') - 1)))) now))"
proof -
  have inv: "sched_inv s'" using sched.trace_inv [OF assms(2) CallbackRetrySchedule_inv [OF assms(1)]] .
  note i = sched_invD [OF inv] and st = sched_Start_Inr [OF inv assms(3)]
  have fin: "isfinite (sched_Deadline s')" using Deadline_finite [OF i(4)] .
  have early: "dless now (sched_Deadline s')" using not_dle [OF fin st(1)] st(4) by blast
  have "\<not> cs_physical s'" using i(1) st(5) by auto
  moreover have "settled_failure (cs_current s') \<and> (\<exists>origin. cu_physical_received (cs_current s') = Some origin \<and>
      dle (dadd origin (of_uint (cs_intervals s' ! min (cs_attempts s' - 1) (length (cs_intervals s') - 1)))) now)" if "0 < cs_attempts s'"
  proof -
    have "cs_phase s' = SBackoff" using i(1) st(5) that by auto
    then obtain origin where o: "cu_physical_received (cs_current s') = Some origin" "BackoffDue s' = Inr (cs_next_due s')" "settled_failure (cs_current s')"
      using i(1) by auto
    define pause where "pause = of_uint (cs_intervals s' ! min (cs_attempts s' - 1) (length (cs_intervals s') - 1))"
    have due: "cs_next_due s' = (if dle (dsub (sched_Deadline s') origin) pause then sched_Deadline s'
        else dmin (sched_Deadline s') (dadd origin pause))"
      using BackoffDue_total [OF i(3) that o(1)] o(2) by (simp add: Let_def pause_def)
    have "cs_next_due s' \<noteq> sched_Deadline s'" using early st(6) by auto
    then have "cs_next_due s' = dadd origin pause" using due by (auto simp: dmin_def split: if_splits)
    moreover have "dless (dadd origin pause) (sched_Deadline s')" using calculation due \<open>cs_next_due s' \<noteq> sched_Deadline s'\<close>
      by (auto simp: dmin_def split: if_splits)
    ultimately have "dle (dadd origin pause) now" using st(1,6) early by (cases "dadd origin pause"; cases now) (auto simp: dle_def)
    then show ?thesis using o by (simp add: pause_def)
  qed
  ultimately show ?thesis using early st by blast
qed

text \<open>
  C32: a schedule passes only in time and with its receipts. After any history, a schedule with the verdict
  passed has an invocation that returned, whose physical work was settled cleanly before the deadline;
  the verdict passed is never taken back; and the only exceptions any call throws are the ones it names.
\<close>

theorem passed_in_time:
  assumes "CallbackRetrySchedule identity timeout ivals owner_deadline begun = Inr s" "trace sched_step s calls s'"
  shows "(cs_verdict s' = VPassed \<longrightarrow> \<not> cs_physical s' \<and> cu_raw (cs_current s') = Some Returned \<and> cu_fence (cs_current s') = Some Clean \<and>
      (\<exists>t. cu_physical_received (cs_current s') = Some t \<and> dless t (sched_Deadline s'))) \<and>
    (sched_run e s' = (r, s'') \<longrightarrow>
       (cs_verdict s' = VPassed \<longrightarrow> cs_verdict s'' = VPassed \<and> cs_current s'' = cs_current s') \<and>
       (\<forall>x. r = Inl x \<longrightarrow> (\<exists>m. x = Invalid_argument m)))"
proof -
  have inv: "sched_inv s'" using sched.trace_inv [OF assms(2) CallbackRetrySchedule_inv [OF assms(1)]] .
  note i = sched_invD [OF inv]
  have kept: "cs_verdict s'' = VPassed \<and> cs_current s'' = cs_current s'" if p: "cs_verdict s' = VPassed" and r: "sched_run e s' = (r, s'')"
  proof -
    have over: "cs_phase s' = STerminal" "\<not> cs_physical s'" using i(1,2) p by (auto simp: passed_ok_def)
    have ticked: "ticked now s' = s'\<lparr>cs_last_now := now\<rparr>" for now using p by (simp add: ticked_def Let_def)
    show ?thesis
      using r p over sched_Tick_cases [of _ s'] sched_Time_cases [of _ s']
      by (cases e) (auto simp: sched_run_def ignore_def bindS_def reject_def ticked sched_Start_def sched_RawSettled_def sched_PhysicallySettled_def
          sched_AmendOwner_def sched_Cancel_def sched_FailInfrastructure_def sched_ConfirmedWorkerExit_def sched_Ready_def sched_Exact_def
          sched_Tick_def sched_Time_def split: if_splits)
  qed
  show ?thesis using i(1,2) kept sched_run_ok [OF inv, of e] by (auto simp: passed_ok_def op_ok_def)
qed

section \<open>A schedule that passes at its second invocation\<close>

definition example_identity :: sched_identity where
  "example_identity = \<lparr>si_id = 7, si_parent_step = 0, si_owner = \<lparr>so_test_id = 1, so_attempt_generation = 1, so_callback_token = 0, so_scope = 1,
     so_scope_generation = 1, so_worker_index = 1, so_pid = 42, so_callback_kind = ''body''\<rparr>\<rparr>"

definition example_schedule :: schedule where
  "example_schedule = \<lparr>cs_identity = example_identity, cs_intervals = [100], cs_started = Fin 0, cs_owner_deadline = Fin 1000, cs_next_due = Fin 0,
     cs_last_now = Fin 0, cs_own_deadline = None, cs_current = fresh_current, cs_attempts = 0, cs_verdict = VPending, cs_phase = SReady,
     cs_physical = False\<rparr>"

lemma example_schedule: "CallbackRetrySchedule example_identity 0 (Some [100]) (Fin 1000) (Fin 0) = Inr example_schedule"
  by (simp add: CallbackRetrySchedule_def sched_Valid_def example_identity_def example_schedule_def safe_duration_def dle_def)

definition example_calls :: "sched_call list" where
  "example_calls = [CallStart 7 (Fin 0), CallRawSettled \<lparr>in_assertion = 7, in_nonce = 1, in_step = 7\<rparr> Threw (Fin 10),
     CallPhysicallySettled \<lparr>in_assertion = 7, in_nonce = 1, in_step = 7\<rparr> (Fin 20) Clean]"

lemmas sched_eval = sched_step_iff sched_run_def ignore_def bindS_def sched_Start_def sched_RawSettled_def sched_PhysicallySettled_def
  sched_Tick_def sched_Time_def sched_Exact_def sched_settle_def BackoffDue_def nthR_def sched_Deadline_def dle_def dmin_def dsub_def of_uint_def
  rnd_numeral u64_max_def Let_def usub_def

lemma example_history:
  "\<exists>s. trace sched_step example_schedule example_calls s \<and> cs_attempts s = 1 \<and> cs_next_due s = Fin 120 \<and>
     (\<exists>s'. sched_Start 9 (Fin 120) s = (Inr \<lparr>in_assertion = 7, in_nonce = 2, in_step = 9\<rparr>, s'))"
  by (simp add: example_calls_def trace_Cons_iff example_schedule_def example_identity_def fresh_current_def sched_eval)

theorem retry_after_fence_witness:
  "\<exists>s s'. trace sched_step example_schedule example_calls s \<and> sched_Start 9 (Fin 120) s = (Inr \<lparr>in_assertion = 7, in_nonce = 2, in_step = 9\<rparr>, s') \<and>
     \<not> cs_physical s \<and> settled_failure (cs_current s)"
proof -
  obtain s s' where s: "trace sched_step example_schedule example_calls s" "cs_attempts s = 1"
    "sched_Start 9 (Fin 120) s = (Inr \<lparr>in_assertion = 7, in_nonce = 2, in_step = 9\<rparr>, s')"
    using example_history by (elim exE conjE)
  show ?thesis using retry_after_fence [OF example_schedule s(1,3)] s by auto
qed

theorem passed_in_time_witness:
  "\<exists>s. trace sched_step example_schedule
      [CallStart 7 (Fin 0), CallRawSettled \<lparr>in_assertion = 7, in_nonce = 1, in_step = 7\<rparr> Returned (Fin 10),
       CallPhysicallySettled \<lparr>in_assertion = 7, in_nonce = 1, in_step = 7\<rparr> (Fin 20) Clean] s \<and>
     cs_verdict s = VPassed \<and> (\<exists>t. cu_physical_received (cs_current s) = Some t \<and> dless t (sched_Deadline s))"
proof -
  have "\<exists>s. trace sched_step example_schedule
      [CallStart 7 (Fin 0), CallRawSettled \<lparr>in_assertion = 7, in_nonce = 1, in_step = 7\<rparr> Returned (Fin 10),
       CallPhysicallySettled \<lparr>in_assertion = 7, in_nonce = 1, in_step = 7\<rparr> (Fin 20) Clean] s \<and> cs_verdict s = VPassed"
    by (simp add: trace_Cons_iff example_schedule_def example_identity_def fresh_current_def sched_eval)
  then obtain s where s: "trace sched_step example_schedule
      [CallStart 7 (Fin 0), CallRawSettled \<lparr>in_assertion = 7, in_nonce = 1, in_step = 7\<rparr> Returned (Fin 10),
       CallPhysicallySettled \<lparr>in_assertion = 7, in_nonce = 1, in_step = 7\<rparr> (Fin 20) Clean] s" "cs_verdict s = VPassed" by (elim exE conjE)
  show ?thesis using passed_in_time [OF example_schedule s(1)] s by blast
qed

end
