(* ===== verification/SuiteTree.thy ===== *)
theory SuiteTree
  imports Machines
begin

text \<open>
  \<open>suite_tree.h\<close>: the declared tree of suites, hooks and tests. The constructor checks the declarations, links
  every suite to its parent and computes the order of the tests; \<open>Plan\<close> routes the selected tests through
  their ancestor suites, with the hooks each test runs and the suites that end after it. The maps of the
  source are association lists in the order of their keys. The recursions over the tree carry the depth
  bound of the constructor (64) as fuel; for an accepted tree it is never used up.
\<close>

section \<open>Declarations\<close>

datatype suite_hook_kind = BeforeAll | BeforeEach | AfterEach | AfterAll

record suite_hook_ref =
  sh_kind :: suite_hook_kind
  sh_callback :: nat

record suite_declaration =
  sd_id :: nat
  sd_parent :: nat
  sd_position :: nat
  sd_hooks :: "suite_hook_ref list"

record suite_test =
  td_id :: nat
  td_suite :: nat
  td_position :: nat

record suite_modifiers =
  sm_only :: bool
  sm_skip :: "string option"

record suite_child =
  ch_suite :: bool
  ch_id :: nat
  ch_position :: nat

record route =
  ro_test :: nat
  ro_ancestors :: "nat list"
  ro_before_each :: "nat list"
  ro_after_each :: "nat list"
  ro_finish_suites :: "nat list"

type_synonym suite_nodes = "(nat \<times> suite_declaration) list"

record suite_tree =
  tr_root :: nat
  tr_nodes :: suite_nodes
  tr_tests :: "(nat \<times> suite_test) list"
  tr_children :: "nat \<Rightarrow> suite_child list"
  tr_order :: "nat list"

definition suite_error :: "string \<Rightarrow> 'a result" where
  "suite_error m = Inl (Runtime_error m)"

section \<open>The constructor\<close>

fun hooks_loop :: "suite_hook_ref list \<Rightarrow> nat set \<Rightarrow> nat set result" where
  "hooks_loop [] callbacks = Inr callbacks"
| "hooks_loop (hook # hooks) callbacks =
     (if sh_callback hook = 0 \<or> sh_callback hook \<in> callbacks \<or> 8192 < card (insert (sh_callback hook) callbacks)
      then suite_error ''Duplicate or excessive native hook declaration''
      else hooks_loop hooks (insert (sh_callback hook) callbacks))"

fun suites_loop :: "suite_declaration list \<Rightarrow> suite_nodes \<Rightarrow> nat set \<Rightarrow> nat \<Rightarrow> (suite_nodes \<times> nat) result" where
  "suites_loop [] nodes callbacks root = Inr (nodes, root)"
| "suites_loop (suite # suites) nodes callbacks root =
     (if sd_id suite = 0 \<or> map_of nodes (sd_id suite) \<noteq> None then suite_error ''Duplicate or zero native suite ID''
      else bindR (hooks_loop (sd_hooks suite) callbacks) (\<lambda>callbacks.
        if sd_parent suite = 0 \<and> (root \<noteq> 0 \<or> sd_position suite \<noteq> 0)
        then suite_error ''Native suite requires one root at position zero''
        else suites_loop suites (insort_key fst (sd_id suite, suite) nodes) callbacks
               (if sd_parent suite = 0 then sd_id suite else root)))"

text \<open>The walk from a suite to the root; every round adds a suite to those seen, and 64 is the limit.\<close>

function ancestor_walk :: "suite_nodes \<Rightarrow> nat list \<Rightarrow> nat \<Rightarrow> unit result" where
  "ancestor_walk nodes seen parent =
     (if parent = 0 then Inr ()
      else case map_of nodes parent of
             None \<Rightarrow> suite_error ''Unknown native suite ancestor''
           | Some node \<Rightarrow>
               if parent \<in> set seen \<or> 64 < length (parent # seen) then suite_error ''Native suite cycle or depth limit exceeded''
               else ancestor_walk nodes (parent # seen) (sd_parent node))"
  by pat_completeness auto
termination
  by (relation "measure (\<lambda>(nodes, seen, parent). 65 - length seen)") auto

declare ancestor_walk.simps [simp del]

fun links_loop :: "suite_nodes \<Rightarrow> suite_nodes \<Rightarrow> unit result" where
  "links_loop nodes [] = Inr ()"
| "links_loop nodes ((n, node) # rest) =
     (if sd_parent node \<noteq> 0 \<and> map_of nodes (sd_parent node) = None then suite_error ''Unknown native suite parent''
      else bindR (ancestor_walk nodes [] n) (\<lambda>_. links_loop nodes rest))"

fun tests_loop :: "suite_nodes \<Rightarrow> suite_test list \<Rightarrow> (nat \<times> suite_test) list \<Rightarrow> (nat \<times> suite_test) list result" where
  "tests_loop nodes [] known = Inr known"
| "tests_loop nodes (test # tests) known =
     (if td_id test = 0 \<or> map_of nodes (td_suite test) = None \<or> map_of known (td_id test) \<noteq> None
      then suite_error ''Invalid native suite test declaration''
      else tests_loop nodes tests (insort_key fst (td_id test, test) known))"

text \<open>The children of a suite: first the suites in the order of their identities, then the tests as declared, sorted by position.\<close>

definition child_list :: "suite_nodes \<Rightarrow> suite_test list \<Rightarrow> nat \<Rightarrow> suite_child list" where
  "child_list nodes tests parent =
     sort_key ch_position
       (map (\<lambda>(n, node). \<lparr>ch_suite = True, ch_id = n, ch_position = sd_position node\<rparr>)
          (filter (\<lambda>(n, node). sd_parent node \<noteq> 0 \<and> sd_parent node = parent) nodes) @
        map (\<lambda>test. \<lparr>ch_suite = False, ch_id = td_id test, ch_position = td_position test\<rparr>) (filter (\<lambda>test. td_suite test = parent) tests))"

fun Append :: "nat \<Rightarrow> (nat \<Rightarrow> suite_child list) \<Rightarrow> nat \<Rightarrow> nat list result" where
  "Append 0 children suite = Inl Out_of_fuel"
| "Append (Suc fuel) children suite =
     bindR (mapR (\<lambda>child. if ch_suite child then Append fuel children (ch_id child) else Inr [ch_id child]) (children suite))
       (\<lambda>parts. Inr (concat parts))"

definition NativeSuiteTree :: "suite_declaration list \<Rightarrow> suite_test list \<Rightarrow> suite_tree result" where
  "NativeSuiteTree suites tests =
     (if suites = [] \<or> 256 < length suites \<or> 8192 < length tests then suite_error ''Native suite declaration capacity exceeded''
      else bindR (suites_loop suites [] {} 0) (\<lambda>(nodes, root).
        if root = 0 then suite_error ''Native suite root is missing''
        else bindR (links_loop nodes nodes) (\<lambda>_.
             bindR (tests_loop nodes tests []) (\<lambda>known.
               let children = child_list nodes tests
               in if \<not> list_all (\<lambda>(n, _). map ch_position (children n) = [0..<length (children n)]) nodes
                  then suite_error ''Native suite declaration positions must be contiguous and unique''
                  else bindR (Append 64 children root) (\<lambda>order.
                    if length order \<noteq> length known then suite_error ''Native suite declarations are disconnected''
                    else Inr \<lparr>tr_root = root, tr_nodes = nodes, tr_tests = known, tr_children = children, tr_order = order\<rparr>)))))"

section \<open>Queries\<close>

text \<open>The loop \<open>while(suite){...; suite=nodes_.at(suite).parent;}\<close> that several operations run: the suites it visits.\<close>

fun path_up :: "nat \<Rightarrow> suite_nodes \<Rightarrow> nat \<Rightarrow> nat list result" where
  "path_up fuel nodes suite =
     (if suite = 0 then Inr []
      else case fuel of
             0 \<Rightarrow> Inl Out_of_fuel
           | Suc fuel \<Rightarrow>
               (case map_of nodes suite of
                  None \<Rightarrow> Inl Out_of_range
                | Some node \<Rightarrow> bindR (path_up fuel nodes (sd_parent node)) (\<lambda>path. Inr (suite # path))))"

declare path_up.simps [simp del]

definition SuiteTests :: "suite_tree \<Rightarrow> nat \<Rightarrow> nat set result" where
  "SuiteTests tree suite =
     (if map_of (tr_nodes tree) suite = None then suite_error ''Unknown native suite ID''
      else bindR (mapR (\<lambda>(n, test). bindR (path_up 64 (tr_nodes tree) (td_suite test)) (\<lambda>path. Inr (if suite \<in> set path then [n] else [])))
                    (tr_tests tree)) (\<lambda>parts. Inr (set (concat parts))))"

definition suite_Hooks :: "suite_tree \<Rightarrow> nat \<Rightarrow> suite_hook_kind \<Rightarrow> nat list result" where
  "suite_Hooks tree suite kind =
     (case map_of (tr_nodes tree) suite of
        None \<Rightarrow> Inl Out_of_range
      | Some node \<Rightarrow> Inr (map sh_callback (filter (\<lambda>hook. sh_kind hook = kind) (sd_hooks node))))"

definition charge_route :: "nat \<Rightarrow> nat \<Rightarrow> nat result" where
  "charge_route references count =
     (if 1048576 - references < count then suite_error ''Native suite route reference budget exceeded'' else Inr (references + count))"

text \<open>The hooks of one kind along a list of suites, each charged.\<close>

fun hook_loop :: "suite_tree \<Rightarrow> suite_hook_kind \<Rightarrow> nat list \<Rightarrow> nat \<Rightarrow> (nat list \<times> nat) result" where
  "hook_loop tree kind [] references = Inr ([], references)"
| "hook_loop tree kind (owner # owners) references =
     bindR (suite_Hooks tree owner kind) (\<lambda>hooks.
     bindR (charge_route references (length hooks)) (\<lambda>references.
     bindR (hook_loop tree kind owners references) (\<lambda>(rest, references). Inr (hooks @ rest, references))))"

text \<open>The first loop of \<open>Plan\<close>: the routes of the selected tests in order, and where each suite occurs last.\<close>

fun plan_loop :: "suite_tree \<Rightarrow> nat set \<Rightarrow> nat list \<Rightarrow> route list \<Rightarrow> (nat \<rightharpoonup> nat) \<Rightarrow> nat \<Rightarrow> (route list \<times> (nat \<rightharpoonup> nat) \<times> nat) result" where
  "plan_loop tree selected [] routes latest references = Inr (routes, latest, references)"
| "plan_loop tree selected (n # order) routes latest references =
     (if n \<notin> selected then plan_loop tree selected order routes latest references
      else case map_of (tr_tests tree) n of
             None \<Rightarrow> Inl Out_of_range
           | Some test \<Rightarrow>
               bindR (path_up 64 (tr_nodes tree) (td_suite test)) (\<lambda>path.
               bindR (charge_route references (length path + 1)) (\<lambda>references.
               let ancestors = rev path in
               bindR (hook_loop tree BeforeEach ancestors references) (\<lambda>(before_each, references).
               bindR (hook_loop tree AfterEach (rev ancestors) references) (\<lambda>(after_each, references).
                 plan_loop tree selected order
                   (routes @ [\<lparr>ro_test = n, ro_ancestors = ancestors, ro_before_each = before_each, ro_after_each = after_each, ro_finish_suites = []\<rparr>])
                   (\<lambda>suite. if suite \<in> set ancestors then Some (length routes) else latest suite) references)))))"

fun finish_list :: "(nat \<rightharpoonup> nat) \<Rightarrow> nat \<Rightarrow> nat list \<Rightarrow> nat \<Rightarrow> (nat list \<times> nat) result" where
  "finish_list latest index [] references = Inr ([], references)"
| "finish_list latest index (suite # suites) references =
     (case latest suite of
        None \<Rightarrow> Inl Out_of_range
      | Some at \<Rightarrow>
          if at = index
          then bindR (charge_route references 1) (\<lambda>references.
               bindR (finish_list latest index suites references) (\<lambda>(rest, references). Inr (suite # rest, references)))
          else finish_list latest index suites references)"

fun finish_loop :: "(nat \<rightharpoonup> nat) \<Rightarrow> nat \<Rightarrow> route list \<Rightarrow> nat \<Rightarrow> route list result" where
  "finish_loop latest index [] references = Inr []"
| "finish_loop latest index (route # routes) references =
     bindR (finish_list latest index (rev (ro_ancestors route)) references) (\<lambda>(finish, references).
     bindR (finish_loop latest (index + 1) routes references) (\<lambda>routes. Inr (route\<lparr>ro_finish_suites := finish\<rparr> # routes)))"

definition Plan :: "suite_tree \<Rightarrow> nat set \<Rightarrow> route list result" where
  "Plan tree selected =
     (if 8192 < card selected then suite_error ''Native suite selection capacity exceeded''
      else if \<not> selected \<subseteq> fst ` set (tr_tests tree) then suite_error ''Unknown selected native suite test ID''
      else bindR (plan_loop tree selected (tr_order tree) [] Map.empty 0) (\<lambda>(routes, latest, references).
        finish_loop latest 0 routes references))"

section \<open>Paths to the root\<close>

lemma path_up_simps:
  "path_up fuel nodes 0 = Inr []"
  "s \<noteq> 0 \<Longrightarrow> path_up 0 nodes s = Inl Out_of_fuel"
  "s \<noteq> 0 \<Longrightarrow> path_up (Suc fuel) nodes s =
     (case map_of nodes s of None \<Rightarrow> Inl Out_of_range | Some node \<Rightarrow> bindR (path_up fuel nodes (sd_parent node)) (\<lambda>path. Inr (s # path)))"
  by (subst path_up.simps, simp)+

lemma path_up_cases:
  assumes "path_up fuel nodes s = Inr p"
  obtains "s = 0" "p = []"
  | k node q where "s \<noteq> 0" "fuel = Suc k" "map_of nodes s = Some node" "path_up k nodes (sd_parent node) = Inr q" "p = s # q"
proof (cases "s = 0")
  case True
  then show ?thesis using assms that(1) by (simp add: path_up_simps(1))
next
  case False
  show ?thesis
  proof (cases fuel)
    case 0
    then show ?thesis using assms False path_up_simps(2) [OF False, of nodes] by simp
  next
    case (Suc k)
    note e = assms [unfolded Suc path_up_simps(3) [OF False]]
    show ?thesis
    proof (cases "map_of nodes s")
      case (Some node)
      then obtain q where "path_up k nodes (sd_parent node) = Inr q" "p = s # q" using e by (auto simp: bindR_eq_Inr)
      then show ?thesis using that(2) [OF False Suc Some] by blast
    qed (use e in simp)
  qed
qed

lemma path_up_length: "path_up fuel nodes s = Inr p \<Longrightarrow> length p \<le> fuel"
proof (induction fuel arbitrary: s p)
  case 0
  then show ?case by (cases rule: path_up_cases) simp_all
next
  case (Suc fuel)
  from Suc.prems show ?case by (cases rule: path_up_cases) (use Suc.IH in auto)
qed

lemma path_up_nonempty: "path_up fuel nodes s = Inr p \<Longrightarrow> p \<noteq> [] \<Longrightarrow> \<exists>node. map_of nodes s = Some node"
  by (erule path_up_cases) simp_all

lemma path_up_fuel:
  "path_up fuel nodes s = Inr p \<Longrightarrow> length p \<le> fuel' \<Longrightarrow> path_up fuel' nodes s = Inr p"
proof (induction fuel arbitrary: s p fuel')
  case 0
  then show ?case by (cases rule: path_up_cases) (simp_all add: path_up_simps(1))
next
  case (Suc fuel)
  from Suc.prems(1) show ?case
  proof (cases rule: path_up_cases)
    case (2 k' node q)
    then have q: "s \<noteq> 0" "map_of nodes s = Some node" "path_up fuel nodes (sd_parent node) = Inr q" "p = s # q" by simp_all
    then obtain k where k: "fuel' = Suc k" "length q \<le> k" using Suc.prems(2) by (cases fuel') auto
    show ?thesis unfolding k(1) path_up_simps(3) [OF q(1)] using q Suc.IH [OF q(3) k(2)] by simp
  qed (simp add: path_up_simps(1))
qed

lemma ancestor_walk_path:
  "ancestor_walk nodes seen s = Inr () \<Longrightarrow> length seen \<le> 64 \<Longrightarrow> \<exists>p. path_up (64 - length seen) nodes s = Inr p"
proof (induction nodes seen s rule: ancestor_walk.induct)
  case (1 nodes seen s)
  show ?case
  proof (cases "s = 0")
    case False
    then obtain node where n: "map_of nodes s = Some node" "\<not> (s \<in> set seen \<or> 64 < length (s # seen))" "ancestor_walk nodes (s # seen) (sd_parent node) = Inr ()"
      using "1.prems"(1) by (subst (asm) ancestor_walk.simps) (auto simp: suite_error_def split: option.splits if_splits)
    then obtain p where p: "path_up (64 - length (s # seen)) nodes (sd_parent node) = Inr p" using "1.IH" [OF False n(1,2)] by auto
    have "64 - length seen = Suc (64 - length (s # seen))" using n(2) by (simp add: Suc_diff_le numeral_eq_Suc)
    then show ?thesis using p n(1) path_up_simps(3) [OF False, of "64 - length (s # seen)" nodes] by (intro exI [of _ "s # p"]) simp
  qed (simp add: path_up_simps(1))
qed

text \<open>The suites from a suite up to the root.\<close>

definition up :: "suite_nodes \<Rightarrow> nat \<Rightarrow> nat list" where
  "up nodes s = (case path_up 64 nodes s of Inl _ \<Rightarrow> [] | Inr p \<Rightarrow> p)"

definition rooted :: "suite_nodes \<Rightarrow> bool" where
  "rooted nodes \<longleftrightarrow> (\<forall>s. map_of nodes s \<noteq> None \<longrightarrow> s \<noteq> 0 \<and> (\<exists>p. path_up 64 nodes s = Inr p))"

lemma rooted_path: "rooted nodes \<Longrightarrow> map_of nodes s = Some node \<Longrightarrow> path_up 64 nodes s = Inr (up nodes s) \<and> s \<noteq> 0"
  by (fastforce simp: rooted_def up_def)

lemma up_0 [simp]: "up nodes 0 = []"
  by (simp add: up_def path_up_simps(1))

lemma up_Cons:
  assumes "rooted nodes" "map_of nodes s = Some node"
  shows "up nodes s = s # up nodes (sd_parent node)"
proof -
  have "path_up 64 nodes s = Inr (up nodes s)" "s \<noteq> 0" using rooted_path [OF assms] by simp_all
  then obtain k q where q: "64 = Suc k" "path_up k nodes (sd_parent node) = Inr q" "up nodes s = s # q"
    using assms(2) by (auto elim: path_up_cases)
  have "path_up 64 nodes (sd_parent node) = Inr q" using path_up_fuel [OF q(2), of 64] path_up_length [OF q(2)] q(1) by simp
  then show ?thesis using q(3) by (simp add: up_def)
qed

lemma up_bound: "rooted nodes \<Longrightarrow> map_of nodes s = Some node \<Longrightarrow> length (up nodes s) \<le> 64 \<and> up nodes s \<noteq> []"
  using rooted_path [of nodes s node] path_up_length [of 64 nodes s] up_Cons [of nodes s node] by auto

lemma up_induct [consumes 2, case_names step]:
  assumes "rooted nodes" "map_of nodes s = Some node"
    and step: "\<And>s node. map_of nodes s = Some node \<Longrightarrow> (\<And>n'. map_of nodes (sd_parent node) = Some n' \<Longrightarrow> P (sd_parent node)) \<Longrightarrow> P s"
  shows "P s"
  using assms(2)
proof (induction "length (up nodes s)" arbitrary: s node rule: less_induct)
  case less
  show ?case
  proof (rule step [OF less.prems])
    show "P (sd_parent node)" if "map_of nodes (sd_parent node) = Some n'" for n'
      using less.hyps [OF _ that] up_Cons [OF assms(1) less.prems] by simp
  qed
qed

lemma up_start: "c \<in> set (up nodes s) \<Longrightarrow> \<exists>node. map_of nodes s = Some node"
proof (cases "path_up 64 nodes s")
  case (Inr p)
  moreover assume "c \<in> set (up nodes s)"
  ultimately have "p \<noteq> []" by (auto simp: up_def)
  then show ?thesis using path_up_nonempty [OF Inr] by simp
qed (simp add: up_def)

text \<open>Every suite on a path has its own path as the rest.\<close>

lemma up_suffix:
  assumes "rooted nodes" "map_of nodes x = Some node" "c \<in> set (up nodes x)"
  shows "\<exists>q. up nodes x = q @ up nodes c"
  using assms(1,2,3)
proof (induction rule: up_induct)
  case (step x node)
  show ?case
  proof (cases "c = x")
    case False
    then have c: "c \<in> set (up nodes (sd_parent node))" using step.prems up_Cons [OF assms(1) step.hyps] by simp
    then have "map_of nodes (sd_parent node) \<noteq> None" using up_start by simp
    then obtain q where "up nodes (sd_parent node) = q @ up nodes c" using step.IH c by blast
    then show ?thesis using up_Cons [OF assms(1) step.hyps] by (intro exI [of _ "x # q"]) simp
  qed auto
qed

lemma up_known:
  assumes "rooted nodes" "map_of nodes x = Some node" "c \<in> set (up nodes x)"
  shows "\<exists>n. map_of nodes c = Some n"
  using assms(1,2,3)
proof (induction rule: up_induct)
  case (step x node)
  show ?case
  proof (cases "c = x")
    case False
    then have c: "c \<in> set (up nodes (sd_parent node))" using step up_Cons [OF assms(1)] by simp
    then have "map_of nodes (sd_parent node) \<noteq> None" using up_start by simp
    then show ?thesis using step.IH c by blast
  qed (use step in auto)
qed

section \<open>Accepted trees\<close>

definition parent_of :: "suite_nodes \<Rightarrow> nat \<Rightarrow> nat" where
  "parent_of nodes s = (case map_of nodes s of None \<Rightarrow> 0 | Some node \<Rightarrow> sd_parent node)"

definition suite_of :: "suite_tree \<Rightarrow> nat \<Rightarrow> nat" where
  "suite_of T n = (case map_of (tr_tests T) n of None \<Rightarrow> 0 | Some test \<Rightarrow> td_suite test)"

text \<open>The children the source links, as a relation.\<close>

definition children_ok :: "suite_tree \<Rightarrow> bool" where
  "children_ok T \<longleftrightarrow>
     (\<forall>p. p \<noteq> 0 \<longrightarrow>
        (\<forall>c. c \<in> set (tr_children T p) \<longrightarrow>
           (if ch_suite c then map_of (tr_nodes T) (ch_id c) \<noteq> None \<and> parent_of (tr_nodes T) (ch_id c) = p
            else map_of (tr_tests T) (ch_id c) \<noteq> None \<and> suite_of T (ch_id c) = p)) \<and>
        (\<forall>s. map_of (tr_nodes T) s \<noteq> None \<longrightarrow> parent_of (tr_nodes T) s = p \<longrightarrow> (\<exists>c \<in> set (tr_children T p). ch_suite c \<and> ch_id c = s)) \<and>
        (\<forall>n. map_of (tr_tests T) n \<noteq> None \<longrightarrow> suite_of T n = p \<longrightarrow> (\<exists>c \<in> set (tr_children T p). \<not> ch_suite c \<and> ch_id c = n)) \<and>
        distinct (map (\<lambda>c. (ch_suite c, ch_id c)) (tr_children T p)))"

definition tree_ok :: "suite_tree \<Rightarrow> bool" where
  "tree_ok T \<longleftrightarrow>
     rooted (tr_nodes T) \<and> map_of (tr_nodes T) (tr_root T) \<noteq> None \<and> parent_of (tr_nodes T) (tr_root T) = 0 \<and>
     (\<forall>s. map_of (tr_nodes T) s \<noteq> None \<longrightarrow> tr_root T \<in> set (up (tr_nodes T) s)) \<and>
     (\<forall>n. map_of (tr_tests T) n \<noteq> None \<longrightarrow> map_of (tr_nodes T) (suite_of T n) \<noteq> None) \<and>
     children_ok T"

definition below :: "suite_tree \<Rightarrow> nat \<Rightarrow> nat \<Rightarrow> bool" where
  "below T s n \<longleftrightarrow> map_of (tr_tests T) n \<noteq> None \<and> s \<in> set (up (tr_nodes T) (suite_of T n))"

lemma tree_okD:
  assumes "tree_ok T"
  shows "rooted (tr_nodes T)" "map_of (tr_nodes T) (tr_root T) \<noteq> None" "parent_of (tr_nodes T) (tr_root T) = 0"
    "\<And>s. map_of (tr_nodes T) s \<noteq> None \<Longrightarrow> tr_root T \<in> set (up (tr_nodes T) s)"
    "\<And>n. map_of (tr_tests T) n \<noteq> None \<Longrightarrow> map_of (tr_nodes T) (suite_of T n) \<noteq> None" "children_ok T"
  using assms unfolding tree_ok_def by blast+

lemma up_parent: "rooted nodes \<Longrightarrow> map_of nodes s \<noteq> None \<Longrightarrow> up nodes s = s # up nodes (parent_of nodes s)"
  using up_Cons by (auto simp: parent_of_def)

text \<open>The test is in the suite itself or below one of its child suites, and not in two of these places.\<close>

lemma child_on_path:
  assumes "rooted nodes" "map_of nodes x = Some node" "s \<in> set (up nodes x)" "s \<noteq> x"
  shows "\<exists>c. map_of nodes c \<noteq> None \<and> parent_of nodes c = s \<and> c \<in> set (up nodes x)"
  using assms(1,2,3,4)
proof (induction rule: up_induct)
  case (step x node)
  have x: "up nodes x = x # up nodes (sd_parent node)" using up_Cons [OF assms(1) step.hyps] .
  show ?case
  proof (cases "s = sd_parent node")
    case True
    then show ?thesis using step.hyps x by (intro exI [of _ x]) (simp add: parent_of_def)
  next
    case False
    have s: "s \<in> set (up nodes (sd_parent node))" using step.prems x by simp
    then obtain n' where "map_of nodes (sd_parent node) = Some n'" using up_start by blast
    then show ?thesis using step.IH s False x by auto
  qed
qed

lemma up_mem_trans:
  assumes "rooted nodes" "map_of nodes x \<noteq> None" "c \<in> set (up nodes x)" "s \<in> set (up nodes c)"
  shows "s \<in> set (up nodes x)"
  using up_suffix [OF assms(1), of x] assms(2-4) by fastforce

lemma same_child:
  assumes "rooted nodes" "map_of nodes x \<noteq> None" "c \<in> set (up nodes x)" "d \<in> set (up nodes x)" "parent_of nodes c = parent_of nodes d"
  shows "c = d"
proof -
  obtain node where x: "map_of nodes x = Some node" using assms(2) by blast
  obtain q r where q: "up nodes x = q @ up nodes c" "up nodes x = r @ up nodes d"
    using up_suffix [OF assms(1) x] assms(3,4) by blast
  have "map_of nodes c \<noteq> None" "map_of nodes d \<noteq> None" using up_known [OF assms(1) x] assms(3,4) by force+
  then have "up nodes c = c # up nodes (parent_of nodes c)" "up nodes d = d # up nodes (parent_of nodes c)"
    using up_parent [OF assms(1)] assms(5) by simp_all
  then show ?thesis using q by simp
qed

lemma not_own_ancestor:
  assumes "rooted nodes" "map_of nodes s \<noteq> None"
  shows "s \<notin> set (up nodes (parent_of nodes s))"
proof
  assume s: "s \<in> set (up nodes (parent_of nodes s))"
  then obtain node where "map_of nodes (parent_of nodes s) = Some node" using up_start by blast
  then obtain q where "up nodes (parent_of nodes s) = q @ up nodes s" using up_suffix [OF assms(1)] s by blast
  moreover have "up nodes s = s # up nodes (parent_of nodes s)" using up_parent [OF assms] .
  ultimately have "length (up nodes s) = Suc (length q + length (up nodes s))" by (metis length_Cons length_append)
  then show False by simp
qed

lemma path_comparable:
  assumes "rooted nodes" "map_of nodes x \<noteq> None" "c \<in> set (up nodes x)" "u \<in> set (up nodes x)"
  shows "c \<in> set (up nodes u) \<or> u \<in> set (up nodes c)"
proof -
  obtain node where x: "map_of nodes x = Some node" using assms(2) by blast
  have known: "map_of nodes c \<noteq> None" "map_of nodes u \<noteq> None" using up_known [OF assms(1) x] assms(3,4) by force+
  obtain q r where q: "up nodes x = q @ up nodes c" "up nodes x = r @ up nodes u" using up_suffix [OF assms(1) x] assms(3,4) by blast
  have "(\<exists>t. up nodes c = t @ up nodes u) \<or> (\<exists>t. up nodes u = t @ up nodes c)"
    using q by (metis append_eq_append_conv2)
  moreover have "c \<in> set (up nodes c)" "u \<in> set (up nodes u)" using up_parent [OF assms(1) known(1)] up_parent [OF assms(1) known(2)] by simp_all
  ultimately show ?thesis by auto
qed

section \<open>The order of the tests\<close>

text \<open>The elements with a property stand together.\<close>

definition block :: "('a \<Rightarrow> bool) \<Rightarrow> 'a list \<Rightarrow> bool" where
  "block P xs \<longleftrightarrow> (\<exists>a b c. xs = a @ b @ c \<and> (\<forall>x \<in> set b. P x) \<and> (\<forall>x \<in> set a \<union> set c. \<not> P x))"

lemma blockI: "xs = a @ b @ c \<Longrightarrow> \<forall>x \<in> set b. P x \<Longrightarrow> \<forall>x \<in> set a \<union> set c. \<not> P x \<Longrightarrow> block P xs"
  unfolding block_def by blast

lemma block_all: "\<forall>x \<in> set xs. P x \<Longrightarrow> block P xs"
  by (rule blockI [of xs "[]" xs "[]"]) simp_all

lemma block_none: "\<forall>x \<in> set xs. \<not> P x \<Longrightarrow> block P xs"
  by (rule blockI [of xs xs "[]" "[]"]) simp_all

lemma block_concat:
  assumes "\<forall>p \<in> set ps. block P p" "sorted_wrt (\<lambda>p q. \<not> ((\<exists>x \<in> set p. P x) \<and> (\<exists>x \<in> set q. P x))) ps"
  shows "block P (concat ps)"
  using assms
proof (induction ps)
  case (Cons p ps)
  show ?case
  proof (cases "\<exists>x \<in> set p. P x")
    case True
    obtain a b c where p: "p = a @ b @ c" "\<forall>x \<in> set b. P x" "\<forall>x \<in> set a \<union> set c. \<not> P x" using Cons.prems(1) by (auto simp: block_def)
    have "\<forall>x \<in> set (concat ps). \<not> P x" using Cons.prems(2) True by auto
    then show ?thesis using p by (intro blockI [of _ a b "c @ concat ps"]) auto
  next
    case False
    obtain a b c where p: "concat ps = a @ b @ c" "\<forall>x \<in> set b. P x" "\<forall>x \<in> set a \<union> set c. \<not> P x"
      using Cons.IH Cons.prems by (auto simp: block_def)
    then show ?thesis using False by (intro blockI [of _ "p @ a" b c]) auto
  qed
qed (simp add: block_none)

lemma block_filter:
  assumes "block P xs"
  shows "block P (filter Q xs)"
proof -
  obtain a b c where "xs = a @ b @ c" "\<forall>x \<in> set b. P x" "\<forall>x \<in> set a \<union> set c. \<not> P x" using assms by (auto simp: block_def)
  then show ?thesis by (intro blockI [of _ "filter Q a" "filter Q b" "filter Q c"]) auto
qed

lemma mapR_Inr: "mapR f xs = Inr ys \<longleftrightarrow> list_all2 (\<lambda>x y. f x = Inr y) xs ys"
  by (induction xs arbitrary: ys) (auto simp: bindR_eq_Inr list_all2_Cons1)

lemma mapR_total: "(\<And>x. x \<in> set xs \<Longrightarrow> \<exists>y. f x = Inr y) \<Longrightarrow> \<exists>ys. mapR f xs = Inr ys"
proof (induction xs)
  case (Cons x xs)
  then obtain y ys where "f x = Inr y" "mapR f xs = Inr ys" by (metis list.set_intros)
  then show ?case by simp
qed simp

definition append_ok :: "suite_tree \<Rightarrow> nat \<Rightarrow> nat list \<Rightarrow> bool" where
  "append_ok T s xs \<longleftrightarrow> set xs = {n. below T s n} \<and> distinct xs \<and> (\<forall>u. block (below T u) xs)"

text \<open>What one child contributes.\<close>

definition part_ok :: "suite_tree \<Rightarrow> suite_child \<Rightarrow> nat list \<Rightarrow> bool" where
  "part_ok T c xs \<longleftrightarrow> (if ch_suite c then append_ok T (ch_id c) xs else xs = [ch_id c])"

lemma childrenD:
  assumes "tree_ok T" "p \<noteq> 0" "c \<in> set (tr_children T p)"
  shows "ch_suite c \<Longrightarrow> map_of (tr_nodes T) (ch_id c) \<noteq> None \<and> parent_of (tr_nodes T) (ch_id c) = p"
    "\<not> ch_suite c \<Longrightarrow> map_of (tr_tests T) (ch_id c) \<noteq> None \<and> suite_of T (ch_id c) = p"
  using tree_okD(6) [OF assms(1)] assms(2,3) unfolding children_ok_def by presburger+

lemma below_iff:
  assumes "tree_ok T" "map_of (tr_nodes T) s \<noteq> None"
  shows "below T s n \<longleftrightarrow> (\<exists>c \<in> set (tr_children T s). if ch_suite c then below T (ch_id c) n else ch_id c = n)"
proof -
  note t = tree_okD [OF assms(1)]
  have s0: "s \<noteq> 0" using t(1) assms(2) by (auto simp: rooted_def)
  have ch: "\<And>x. map_of (tr_nodes T) x \<noteq> None \<Longrightarrow> parent_of (tr_nodes T) x = s \<Longrightarrow> \<exists>c \<in> set (tr_children T s). ch_suite c \<and> ch_id c = x"
    "\<And>x. map_of (tr_tests T) x \<noteq> None \<Longrightarrow> suite_of T x = s \<Longrightarrow> \<exists>c \<in> set (tr_children T s). \<not> ch_suite c \<and> ch_id c = x"
    using t(6) s0 unfolding children_ok_def by blast+
  show ?thesis
  proof
    assume b: "below T s n"
    then have n: "map_of (tr_tests T) n \<noteq> None" "s \<in> set (up (tr_nodes T) (suite_of T n))" by (simp_all add: below_def)
    obtain node where x: "map_of (tr_nodes T) (suite_of T n) = Some node" using t(5) [OF n(1)] by blast
    show "\<exists>c \<in> set (tr_children T s). if ch_suite c then below T (ch_id c) n else ch_id c = n"
    proof (cases "s = suite_of T n")
      case True
      then obtain c where "c \<in> set (tr_children T s)" "\<not> ch_suite c" "ch_id c = n" using ch(2) [OF n(1)] by blast
      then show ?thesis by (intro bexI [of _ c]) simp_all
    next
      case False
      obtain d where d: "map_of (tr_nodes T) d \<noteq> None" "parent_of (tr_nodes T) d = s" "d \<in> set (up (tr_nodes T) (suite_of T n))"
        using child_on_path [OF t(1) x n(2) False] by blast
      then obtain c where "c \<in> set (tr_children T s)" "ch_suite c" "ch_id c = d" using ch(1) by blast
      then show ?thesis using n(1) d(3) by (intro bexI [of _ c]) (simp_all add: below_def)
    qed
  next
    assume "\<exists>c \<in> set (tr_children T s). if ch_suite c then below T (ch_id c) n else ch_id c = n"
    then obtain c where c: "c \<in> set (tr_children T s)" "if ch_suite c then below T (ch_id c) n else ch_id c = n" by blast
    note d = childrenD [OF assms(1) s0 c(1)]
    show "below T s n"
    proof (cases "ch_suite c")
      case True
      then have b: "below T (ch_id c) n" and k: "map_of (tr_nodes T) (ch_id c) \<noteq> None" "parent_of (tr_nodes T) (ch_id c) = s" using c(2) d(1) by simp_all
      have "s \<in> set (up (tr_nodes T) (ch_id c))" using up_parent [OF t(1) k(1)] k(2) up_parent [OF t(1) assms(2)] by simp
      then show ?thesis using b up_mem_trans [OF t(1) t(5), of n "ch_id c" s] by (simp add: below_def)
    next
      case False
      then have "map_of (tr_tests T) n \<noteq> None" "suite_of T n = s" using c(2) d(2) by simp_all
      then show ?thesis using up_parent [OF t(1) assms(2)] by (simp add: below_def)
    qed
  qed
qed

text \<open>Of two children of a suite only one can contribute tests below a suite that is not an ancestor.\<close>

lemma parts_apart:
  assumes "tree_ok T" "map_of (tr_nodes T) s \<noteq> None" "u \<notin> set (up (tr_nodes T) s)"
    "c \<in> set (tr_children T s)" "part_ok T c xs" "x \<in> set xs" "below T u x"
  shows "ch_suite c \<and> ch_id c \<in> set (up (tr_nodes T) u)"
proof -
  note t = tree_okD [OF assms(1)]
  have s0: "s \<noteq> 0" using t(1) assms(2) by (auto simp: rooted_def)
  note d = childrenD [OF assms(1) s0 assms(4)]
  have x: "map_of (tr_tests T) x \<noteq> None" "u \<in> set (up (tr_nodes T) (suite_of T x))" using assms(7) by (simp_all add: below_def)
  show ?thesis
  proof (cases "ch_suite c")
    case True
    then have k: "map_of (tr_nodes T) (ch_id c) \<noteq> None" "parent_of (tr_nodes T) (ch_id c) = s" using d(1) by simp_all
    have "below T (ch_id c) x" using assms(5,6) True by (auto simp: part_ok_def append_ok_def)
    then have "ch_id c \<in> set (up (tr_nodes T) u) \<or> u \<in> set (up (tr_nodes T) (ch_id c))"
      using path_comparable [OF t(1) t(5) [OF x(1)]] x(2) by (simp add: below_def)
    moreover have "u = ch_id c" if "u \<in> set (up (tr_nodes T) (ch_id c))" using that up_parent [OF t(1) k(1)] k(2) assms(3) by simp
    moreover have "ch_id c \<in> set (up (tr_nodes T) (ch_id c))" using up_parent [OF t(1) k(1)] by simp
    ultimately show ?thesis using True by auto
  next
    case False
    then have "x = ch_id c" using assms(5,6) by (simp add: part_ok_def)
    then show ?thesis using d(2) [OF False] x(2) assms(3) by simp
  qed
qed

lemma distinct_concat_nth:
  assumes "\<And>i. i < length ps \<Longrightarrow> distinct (ps ! i)" "\<And>i j x. i < length ps \<Longrightarrow> j < length ps \<Longrightarrow> x \<in> set (ps ! i) \<Longrightarrow> x \<in> set (ps ! j) \<Longrightarrow> i = j"
  shows "distinct (concat ps)"
  using assms
proof (induction ps)
  case (Cons p ps)
  have "distinct p" using Cons.prems(1) [of 0] by simp
  moreover have "distinct (concat ps)"
  proof (rule Cons.IH)
    show "distinct (ps ! i)" if "i < length ps" for i using Cons.prems(1) [of "Suc i"] that by simp
    show "i = j" if "i < length ps" "j < length ps" "x \<in> set (ps ! i)" "x \<in> set (ps ! j)" for i j x
      using Cons.prems(2) [of "Suc i" "Suc j" x] that by simp
  qed
  moreover have "x \<notin> set (ps ! j)" if "j < length ps" "x \<in> set p" for x j using Cons.prems(2) [of 0 "Suc j" x] that by auto
  then have "set p \<inter> set (concat ps) = {}" by (auto simp: in_set_conv_nth [of _ ps])
  ultimately show ?case by simp
qed simp

lemma parts_disjoint:
  assumes "tree_ok T" "map_of (tr_nodes T) s \<noteq> None" "distinct (map (\<lambda>c. (ch_suite c, ch_id c)) (tr_children T s))"
    "i < length (tr_children T s)" "j < length (tr_children T s)" "part_ok T (tr_children T s ! i) xs" "part_ok T (tr_children T s ! j) ys"
    "x \<in> set xs" "x \<in> set ys"
  shows "i = j"
proof -
  note t = tree_okD [OF assms(1)]
  have s0: "s \<noteq> 0" using t(1) assms(2) by (auto simp: rooted_def)
  let ?c = "tr_children T s ! i" and ?d = "tr_children T s ! j"
  note c = childrenD [OF assms(1) s0 nth_mem [OF assms(4)]] and d = childrenD [OF assms(1) s0 nth_mem [OF assms(5)]]
  have x: "if ch_suite ?c then below T (ch_id ?c) x else ch_id ?c = x" "if ch_suite ?d then below T (ch_id ?d) x else ch_id ?d = x"
    using assms(6-9) by (auto simp: part_ok_def append_ok_def)
  have at: "map_of (tr_tests T) x \<noteq> None" using x(1) c(2) by (auto simp: below_def split: if_splits)
  have clash: False if "ch_suite e" "map_of (tr_nodes T) (ch_id e) \<noteq> None \<and> parent_of (tr_nodes T) (ch_id e) = s" "below T (ch_id e) x" "suite_of T x = s" for e
    using not_own_ancestor [OF t(1), of "ch_id e"] that by (simp add: below_def)
  have "(ch_suite ?c, ch_id ?c) = (ch_suite ?d, ch_id ?d)"
  proof (cases "ch_suite ?c"; cases "ch_suite ?d")
    assume s: "ch_suite ?c" "ch_suite ?d"
    then show ?thesis using same_child [OF t(1) t(5) [OF at], of "ch_id ?c" "ch_id ?d"] x c(1) d(1) by (simp add: below_def)
  next
    assume s: "ch_suite ?c" "\<not> ch_suite ?d"
    then show ?thesis using clash [of ?c] c(1) d(2) x by auto
  next
    assume s: "\<not> ch_suite ?c" "ch_suite ?d"
    then show ?thesis using clash [of ?d] c(2) d(1) x by auto
  qed (use x in simp)
  then have "map (\<lambda>c. (ch_suite c, ch_id c)) (tr_children T s) ! i = map (\<lambda>c. (ch_suite c, ch_id c)) (tr_children T s) ! j"
    using assms(4,5) by simp
  then show ?thesis using nth_eq_iff_index_eq [OF assms(3)] assms(4,5) by simp
qed

lemma parts_append_ok:
  assumes "tree_ok T" "map_of (tr_nodes T) s \<noteq> None" "list_all2 (part_ok T) (tr_children T s) parts"
  shows "append_ok T s (concat parts)"
proof -
  note t = tree_okD [OF assms(1)]
  have s0: "s \<noteq> 0" using t(1) assms(2) by (auto simp: rooted_def)
  note d = childrenD [OF assms(1) s0]
  let ?cs = "tr_children T s"
  have len: "length parts = length ?cs" using list_all2_lengthD [OF assms(3)] by simp
  have part: "part_ok T (?cs ! i) (parts ! i)" if "i < length parts" for i using list_all2_nthD2 [OF assms(3) that] .
  have dist: "distinct (map (\<lambda>c. (ch_suite c, ch_id c)) ?cs)" using t(6) s0 unfolding children_ok_def by blast
  have mem: "n \<in> set (parts ! i) \<longleftrightarrow> (if ch_suite (?cs ! i) then below T (ch_id (?cs ! i)) n else ch_id (?cs ! i) = n)" if "i < length parts" for i n
    using part [OF that] by (auto simp: part_ok_def append_ok_def)
  have set: "set (concat parts) = {n. below T s n}"
  proof -
    have "n \<in> set (concat parts) \<longleftrightarrow> (\<exists>i < length parts. n \<in> set (parts ! i))" for n
      by (metis (no_types, lifting) UN_iff in_set_conv_nth set_concat)
    moreover have "(\<exists>i < length parts. n \<in> set (parts ! i)) \<longleftrightarrow> (\<exists>i < length ?cs. if ch_suite (?cs ! i) then below T (ch_id (?cs ! i)) n else ch_id (?cs ! i) = n)" for n
      using mem len by (metis (no_types, lifting))
    moreover have "(\<exists>i < length ?cs. if ch_suite (?cs ! i) then below T (ch_id (?cs ! i)) n else ch_id (?cs ! i) = n) \<longleftrightarrow> below T s n" for n
      unfolding below_iff [OF assms(1,2)] by (metis in_set_conv_nth)
    ultimately have "n \<in> set (concat parts) \<longleftrightarrow> below T s n" for n by presburger
    then show ?thesis by blast
  qed
  have apart: "i = j" if "i < length parts" "j < length parts" "x \<in> set (parts ! i)" "x \<in> set (parts ! j)" for i j x
    using parts_disjoint [OF assms(1,2) dist _ _ part [OF that(1)] part [OF that(2)] that(3,4)] that(1,2) len by simp
  have pd: "distinct (parts ! i)" if "i < length parts" for i
    using part [OF that] by (auto simp: part_ok_def append_ok_def split: if_splits)
  have "distinct (concat parts)" by (rule distinct_concat_nth) (use pd apart in blast)+
  have "block (below T u) (concat parts)" for u
  proof (cases "u \<in> set (up (tr_nodes T) s)")
    case True
    have "below T u n" if "below T s n" for n
      using that True up_mem_trans [OF t(1) t(5), of n s u] by (simp add: below_def)
    then show ?thesis using set by (intro block_all) auto
  next
    case False
    have "block (below T u) p" if p: "p \<in> set parts" for p
    proof -
      obtain i where i: "i < length parts" "p = parts ! i" using p by (metis in_set_conv_nth)
      show ?thesis
      proof (cases "ch_suite (?cs ! i)")
        case True
        then show ?thesis using part [OF i(1)] i(2) by (simp add: part_ok_def append_ok_def)
      next
        case no: False
        then show ?thesis using part [OF i(1)] i(2) block_all [of p] block_none [of p] by (auto simp: part_ok_def)
      qed
    qed
    moreover have "sorted_wrt (\<lambda>p q. \<not> ((\<exists>x \<in> set p. below T u x) \<and> (\<exists>x \<in> set q. below T u x))) parts"
      unfolding sorted_wrt_iff_nth_less
    proof (intro allI impI notI)
      fix i j assume ij: "i < j" "j < length parts" "(\<exists>x \<in> set (parts ! i). below T u x) \<and> (\<exists>x \<in> set (parts ! j). below T u x)"
      then have i: "i < length parts" by simp
      have ci: "?cs ! i \<in> set ?cs" "?cs ! j \<in> set ?cs" using ij i len by simp_all
      have "ch_suite (?cs ! i) \<and> ch_id (?cs ! i) \<in> set (up (tr_nodes T) u)" "ch_suite (?cs ! j) \<and> ch_id (?cs ! j) \<in> set (up (tr_nodes T) u)"
        using parts_apart [OF assms(1,2) False ci(1) part [OF i]] parts_apart [OF assms(1,2) False ci(2) part [OF ij(2)]] ij(3) by blast+
      then have b: "ch_suite (?cs ! i)" "ch_suite (?cs ! j)" "ch_id (?cs ! i) \<in> set (up (tr_nodes T) u)" "ch_id (?cs ! j) \<in> set (up (tr_nodes T) u)" by blast+
      have "map_of (tr_nodes T) u \<noteq> None" using b(3) up_start by force
      then have "ch_id (?cs ! i) = ch_id (?cs ! j)" using same_child [OF t(1) _ b(3,4)] d(1) [OF ci(1) b(1)] d(1) [OF ci(2) b(2)] by simp
      then have "map (\<lambda>c. (ch_suite c, ch_id c)) ?cs ! i = map (\<lambda>c. (ch_suite c, ch_id c)) ?cs ! j" using b(1,2) ij i len by simp
      then show False using nth_eq_iff_index_eq [OF dist] ij i len by simp
    qed
    ultimately show ?thesis by (intro block_concat) blast+
  qed
  then show ?thesis using set \<open>distinct (concat parts)\<close> by (simp add: append_ok_def)
qed

lemma Append_ok:
  assumes "tree_ok T" "map_of (tr_nodes T) s \<noteq> None" "length (up (tr_nodes T) s) + k = 65"
  shows "\<exists>xs. Append k (tr_children T) s = Inr xs \<and> append_ok T s xs"
  using assms(2,3)
proof (induction k arbitrary: s)
  case 0
  then show ?case using up_bound [OF tree_okD(1) [OF assms(1)], of s] by auto
next
  case (Suc k)
  note t = tree_okD [OF assms(1)]
  have s0: "s \<noteq> 0" using t(1) Suc.prems(1) by (auto simp: rooted_def)
  let ?f = "\<lambda>c. if ch_suite c then Append k (tr_children T) (ch_id c) else Inr [ch_id c]"
  have part: "\<exists>xs. ?f c = Inr xs \<and> part_ok T c xs" if "c \<in> set (tr_children T s)" for c
  proof (cases "ch_suite c")
    case True
    then have c: "map_of (tr_nodes T) (ch_id c) \<noteq> None" "parent_of (tr_nodes T) (ch_id c) = s" using childrenD(1) [OF assms(1) s0 that] by simp_all
    have "length (up (tr_nodes T) (ch_id c)) + k = 65" using up_parent [OF t(1) c(1)] c(2) Suc.prems(2) by simp
    then show ?thesis using Suc.IH [OF c(1)] True by (simp add: part_ok_def)
  qed (simp add: part_ok_def)
  then obtain parts where m: "mapR ?f (tr_children T s) = Inr parts" using mapR_total [of "tr_children T s" ?f] by blast
  then have all: "list_all2 (\<lambda>c xs. ?f c = Inr xs) (tr_children T s) parts" by (simp only: mapR_Inr)
  have "list_all2 (part_ok T) (tr_children T s) parts"
    using all part by (auto simp: list_all2_conv_all_nth) (metis nth_mem sum.inject(2))
  then show ?case using parts_append_ok [OF assms(1) Suc.prems(1)] m by simp
qed

section \<open>The constructor accepts only such trees\<close>

lemma set_insort_key: "set (insort_key f x xs) = insert x (set xs)"
  by (simp add: set_insort_key)

lemma distinct_fst_insort: "k \<notin> fst ` set xs \<Longrightarrow> distinct (map fst xs) \<Longrightarrow> distinct (map fst (insort_key fst (k, v) xs))"
  by (induction xs) (auto simp: set_insort_key)

definition nodes_ok :: "suite_nodes \<Rightarrow> nat \<Rightarrow> bool" where
  "nodes_ok nodes root \<longleftrightarrow>
     distinct (map fst nodes) \<and> (\<forall>s d. (s, d) \<in> set nodes \<longrightarrow> s \<noteq> 0 \<and> (sd_parent d = 0 \<longleftrightarrow> s = root)) \<and> (root \<noteq> 0 \<longrightarrow> root \<in> fst ` set nodes)"

lemma suites_loop_ok:
  "nodes_ok nodes root \<Longrightarrow> suites_loop suites nodes callbacks root = Inr (nodes', root') \<Longrightarrow> nodes_ok nodes' root'"
proof (induction suites arbitrary: nodes callbacks root)
  case (Cons suite suites)
  have fresh: "sd_id suite \<noteq> 0" "sd_id suite \<notin> fst ` set nodes"
    using Cons.prems(2) by (auto simp: suite_error_def map_of_eq_None_iff split: if_splits)
  let ?root = "if sd_parent suite = 0 then sd_id suite else root"
  obtain callbacks' where r: "\<not> (sd_parent suite = 0 \<and> root \<noteq> 0)" "suites_loop suites (insort_key fst (sd_id suite, suite) nodes) callbacks' ?root = Inr (nodes', root')"
    using Cons.prems(2) by (auto simp: suite_error_def bindR_eq_Inr split: if_splits)
  have "nodes_ok (insort_key fst (sd_id suite, suite) nodes) ?root"
  proof -
    have old: "sd_parent d \<noteq> 0 \<or> s = root" "s \<noteq> 0" "s = root \<longrightarrow> sd_parent d = 0" "s \<noteq> sd_id suite" if "(s, d) \<in> set nodes" for s d
    proof -
      show "sd_parent d \<noteq> 0 \<or> s = root" "s \<noteq> 0" "s = root \<longrightarrow> sd_parent d = 0" using Cons.prems(1) that unfolding nodes_ok_def by blast+
      show "s \<noteq> sd_id suite" using that fresh(2) by force
    qed
    have "root \<in> fst ` set nodes" if "root \<noteq> 0" using Cons.prems(1) that by (simp add: nodes_ok_def)
    then show ?thesis
      using Cons.prems(1) fresh r(1) old distinct_fst_insort [OF fresh(2)] unfolding nodes_ok_def set_insort_key
      by (auto split: if_splits)
  qed
  then show ?case using Cons.IH r(2) by blast
qed simp

lemma links_loop_ok:
  "links_loop nodes rest = Inr () \<Longrightarrow> (s, node) \<in> set rest \<Longrightarrow>
     (\<exists>p. path_up 64 nodes s = Inr p) \<and> (sd_parent node \<noteq> 0 \<longrightarrow> map_of nodes (sd_parent node) \<noteq> None)"
  using ancestor_walk_path [of nodes "[]"]
  by (induction nodes rest rule: links_loop.induct) (auto simp: suite_error_def bindR_eq_Inr split: if_splits)

lemma nodes_rooted:
  assumes "nodes_ok nodes root" "root \<noteq> 0" "links_loop nodes nodes = Inr ()"
  shows "rooted nodes" "map_of nodes root \<noteq> None" "parent_of nodes root = 0" "map_of nodes s \<noteq> None \<Longrightarrow> root \<in> set (up nodes s)"
proof -
  have mem: "(s, d) \<in> set nodes" if "map_of nodes s = Some d" for s d using map_of_SomeD [OF that] .
  have facts: "s \<noteq> 0 \<and> (sd_parent d = 0 \<longleftrightarrow> s = root)" if "map_of nodes s = Some d" for s d
    using assms(1) mem [OF that] unfolding nodes_ok_def by blast
  show r: "rooted nodes"
    unfolding rooted_def
  proof (intro allI impI)
    fix s assume "map_of nodes s \<noteq> None"
    then obtain d where "map_of nodes s = Some d" by blast
    then show "s \<noteq> 0 \<and> (\<exists>p. path_up 64 nodes s = Inr p)" using facts links_loop_ok [OF assms(3) mem] by blast
  qed
  have "root \<in> fst ` set nodes" using assms(1,2) by (simp add: nodes_ok_def)
  then show known: "map_of nodes root \<noteq> None" by (simp add: map_of_eq_None_iff)
  then show "parent_of nodes root = 0" using facts by (auto simp: parent_of_def)
  show "root \<in> set (up nodes s)" if s: "map_of nodes s \<noteq> None"
  proof -
    obtain node where "map_of nodes s = Some node" using s by blast
    with r show ?thesis
    proof (induction rule: up_induct)
      case (step s node)
      have s: "up nodes s = s # up nodes (sd_parent node)" using up_Cons [OF r step.hyps] .
      show ?case
      proof (cases "sd_parent node = 0")
        case True
        then show ?thesis using facts [OF step.hyps] s by simp
      next
        case False
        then have "map_of nodes (sd_parent node) \<noteq> None" using links_loop_ok [OF assms(3) mem [OF step.hyps]] by blast
        then show ?thesis using step.IH s by auto
      qed
    qed
  qed
qed

lemma tests_loop_ok:
  assumes "tests_loop nodes tests known = Inr known'" "distinct (map fst known)" "\<forall>(n, test) \<in> set known. td_id test = n \<and> map_of nodes (td_suite test) \<noteq> None"
  shows "distinct (map fst known') \<and> (\<forall>(n, test) \<in> set known'. td_id test = n \<and> map_of nodes (td_suite test) \<noteq> None) \<and>
    distinct (map td_id tests) \<and> td_id ` set tests \<inter> fst ` set known = {} \<and>
    set known' = set known \<union> (\<lambda>test. (td_id test, test)) ` set tests \<and> length known' = length known + length tests"
  using assms
proof (induction tests arbitrary: known)
  case (Cons test tests)
  let ?k = "insort_key fst (td_id test, test) known"
  have t: "map_of nodes (td_suite test) \<noteq> None" "td_id test \<notin> fst ` set known" "tests_loop nodes tests ?k = Inr known'"
    using Cons.prems(1) by (auto simp: suite_error_def map_of_eq_None_iff split: if_splits)
  have IH: "distinct (map fst known') \<and> (\<forall>(n, test) \<in> set known'. td_id test = n \<and> map_of nodes (td_suite test) \<noteq> None) \<and>
    distinct (map td_id tests) \<and> td_id ` set tests \<inter> fst ` set ?k = {} \<and>
    set known' = set ?k \<union> (\<lambda>test. (td_id test, test)) ` set tests \<and> length known' = length ?k + length tests"
    by (rule Cons.IH [OF t(3) distinct_fst_insort [OF t(2) Cons.prems(2)]]) (use Cons.prems(3) t(1) in \<open>auto simp: set_insort_key\<close>)
  then show ?case using t(2) unfolding set_insort_key by auto
qed auto

lemma distinct_map_sort_key: "distinct (map f (sort_key g xs)) \<longleftrightarrow> distinct (map f xs)"
  by (metis distinct_map distinct_sort set_sort)

lemma child_list_ok:
  assumes "distinct (map fst nodes)" "distinct (map td_id tests)" "\<And>n test. map_of known n = Some test \<longleftrightarrow> test \<in> set tests \<and> td_id test = n"
    "tr_nodes T = nodes" "tr_tests T = known" "tr_children T = child_list nodes tests"
  shows "children_ok T"
  unfolding children_ok_def
proof (intro allI impI conjI)
  fix p :: nat assume p: "p \<noteq> 0"
  let ?suites = "filter (\<lambda>(n, node). sd_parent node \<noteq> 0 \<and> sd_parent node = p) nodes" and ?tests = "filter (\<lambda>test. td_suite test = p) tests"
  have node: "map_of nodes n = Some node \<longleftrightarrow> (n, node) \<in> set nodes" for n node using map_of_eq_Some_iff [OF assms(1)] .
  have set: "c \<in> set (tr_children T p) \<longleftrightarrow>
      (\<exists>n node. (n, node) \<in> set nodes \<and> sd_parent node = p \<and> c = \<lparr>ch_suite = True, ch_id = n, ch_position = sd_position node\<rparr>) \<or>
      (\<exists>test \<in> set tests. td_suite test = p \<and> c = \<lparr>ch_suite = False, ch_id = td_id test, ch_position = td_position test\<rparr>)" for c
    using p by (auto simp: assms(6) child_list_def)
  show "if ch_suite c then map_of (tr_nodes T) (ch_id c) \<noteq> None \<and> parent_of (tr_nodes T) (ch_id c) = p
        else map_of (tr_tests T) (ch_id c) \<noteq> None \<and> suite_of T (ch_id c) = p" if c: "c \<in> set (tr_children T p)" for c
    using c unfolding set
  proof (elim disjE exE bexE conjE)
    fix n node assume n: "(n, node) \<in> set nodes" "sd_parent node = p" "c = \<lparr>ch_suite = True, ch_id = n, ch_position = sd_position node\<rparr>"
    then have "map_of nodes n = Some node" using node by blast
    then show ?thesis using n by (simp add: parent_of_def assms(4))
  next
    fix test assume t: "test \<in> set tests" "td_suite test = p" "c = \<lparr>ch_suite = False, ch_id = td_id test, ch_position = td_position test\<rparr>"
    then have "map_of known (td_id test) = Some test" using assms(3) by blast
    then show ?thesis using t by (simp add: suite_of_def assms(5))
  qed
  show "\<exists>c \<in> set (tr_children T p). ch_suite c \<and> ch_id c = s" if s: "map_of (tr_nodes T) s \<noteq> None" "parent_of (tr_nodes T) s = p" for s
  proof -
    obtain d where "map_of nodes s = Some d" "sd_parent d = p" using s by (auto simp: assms(4) parent_of_def)
    then show ?thesis using node set by (intro bexI [of _ "\<lparr>ch_suite = True, ch_id = s, ch_position = sd_position d\<rparr>"]) auto
  qed
  show "\<exists>c \<in> set (tr_children T p). \<not> ch_suite c \<and> ch_id c = n" if n: "map_of (tr_tests T) n \<noteq> None" "suite_of T n = p" for n
  proof -
    obtain d where "map_of known n = Some d" "td_suite d = p" using n by (auto simp: assms(5) suite_of_def)
    then show ?thesis using assms(3) set by (intro bexI [of _ "\<lparr>ch_suite = False, ch_id = n, ch_position = td_position d\<rparr>"]) auto
  qed
  have "distinct (map (\<lambda>c. (ch_suite c, ch_id c)) (map (\<lambda>(n, node). \<lparr>ch_suite = True, ch_id = n, ch_position = sd_position node\<rparr>) ?suites))"
    using distinct_map_filter [OF assms(1), of "\<lambda>(n, node). sd_parent node \<noteq> 0 \<and> sd_parent node = p"]
    by (auto simp: distinct_map inj_on_def)
  moreover have "distinct (map (\<lambda>c. (ch_suite c, ch_id c)) (map (\<lambda>test. \<lparr>ch_suite = False, ch_id = td_id test, ch_position = td_position test\<rparr>) ?tests))"
    using distinct_map_filter [OF assms(2), of "\<lambda>test. td_suite test = p"] by (auto simp: distinct_map inj_on_def)
  ultimately show "distinct (map (\<lambda>c. (ch_suite c, ch_id c)) (tr_children T p))"
    unfolding assms(6) child_list_def distinct_map_sort_key by auto
qed

lemma NativeSuiteTree_ok:
  assumes "NativeSuiteTree suites tests = Inr T"
  shows "tree_ok T" "append_ok T (tr_root T) (tr_order T)" "distinct (map td_id tests)" "\<And>n test. map_of (tr_tests T) n = Some test \<longleftrightarrow> test \<in> set tests \<and> td_id test = n"
    "length (tr_tests T) = length tests" "distinct (map fst (tr_tests T))"
proof -
  obtain nodes root known where c: "suites_loop suites [] {} 0 = Inr (nodes, root)" "root \<noteq> 0" "links_loop nodes nodes = Inr ()" "tests_loop nodes tests [] = Inr known"
    "Append 64 (child_list nodes tests) root = Inr (tr_order T)"
    "tr_root T = root" "tr_nodes T = nodes" "tr_tests T = known" "tr_children T = child_list nodes tests"
    using assms by (auto simp: NativeSuiteTree_def suite_error_def bindR_eq_Inr Let_def split: if_splits)
  have n: "nodes_ok nodes root" using suites_loop_ok [OF _ c(1)] by (simp add: nodes_ok_def)
  note r = nodes_rooted [OF n c(2,3)]
  have k: "distinct (map fst known)" "\<forall>(n, test) \<in> set known. td_id test = n \<and> map_of nodes (td_suite test) \<noteq> None" "distinct (map td_id tests)"
    "set known = (\<lambda>test. (td_id test, test)) ` set tests" "length known = length tests"
    using tests_loop_ok [OF c(4)] by simp_all
  have look: "map_of known n = Some test \<longleftrightarrow> test \<in> set tests \<and> td_id test = n" for n test
    unfolding map_of_eq_Some_iff [OF k(1)] k(4) by auto
  have "children_ok T" by (rule child_list_ok [OF _ k(3) look c(7,8,9)]) (use n in \<open>simp add: nodes_ok_def\<close>)
  moreover have "map_of nodes (suite_of T n) \<noteq> None" if "map_of known n \<noteq> None" for n
    using that k(2) map_of_SomeD [of known n] by (fastforce simp: suite_of_def c(8))
  ultimately show ok: "tree_ok T" using r by (simp add: tree_ok_def c(6,7,8))
  have "up nodes root = [root]" using up_parent [OF r(1,2)] r(3) by simp
  then show "append_ok T (tr_root T) (tr_order T)"
    using Append_ok [OF ok, of root 64] r(2) c(5) by (simp add: c(6,7,9))
  show "distinct (map td_id tests)" "\<And>n test. map_of (tr_tests T) n = Some test \<longleftrightarrow> test \<in> set tests \<and> td_id test = n"
    "length (tr_tests T) = length tests" "distinct (map fst (tr_tests T))" using k look c(8) by simp_all
qed

text \<open>The order of the tests is what the recursion over the children returns.\<close>

lemma NativeSuiteTree_order: "NativeSuiteTree suites tests = Inr T \<Longrightarrow> Append 64 (tr_children T) (tr_root T) = Inr (tr_order T)"
  by (auto simp: NativeSuiteTree_def suite_error_def bindR_eq_Inr Let_def split: if_splits)

section \<open>Routes\<close>

definition hooks_of :: "suite_tree \<Rightarrow> suite_hook_kind \<Rightarrow> nat \<Rightarrow> nat list" where
  "hooks_of T kind s = (case map_of (tr_nodes T) s of None \<Rightarrow> [] | Some node \<Rightarrow> map sh_callback (filter (\<lambda>hook. sh_kind hook = kind) (sd_hooks node)))"

lemma suite_Hooks_known: "map_of (tr_nodes T) s \<noteq> None \<Longrightarrow> suite_Hooks T s kind = Inr (hooks_of T kind s)"
  by (auto simp: suite_Hooks_def hooks_of_def)

lemma charge_route_safe: "safeR (\<lambda>r. True) (charge_route references count)"
  by (simp add: charge_route_def suite_error_def)

lemma hook_loop_ok:
  assumes "\<forall>s \<in> set owners. map_of (tr_nodes T) s \<noteq> None"
  shows "safeR (\<lambda>(hooks, _). hooks = concat (map (hooks_of T kind) owners)) (hook_loop T kind owners references)"
  using assms
proof (induction owners arbitrary: references)
  case (Cons s owners)
  have s: "map_of (tr_nodes T) s \<noteq> None" using Cons.prems by simp
  have IH: "safeR (\<lambda>(hooks, _). hooks = concat (map (hooks_of T kind) owners)) (hook_loop T kind owners r)" for r using Cons by simp
  show ?case
    unfolding hook_loop.simps suite_Hooks_known [OF s] bindR_simps(1)
    by (rule wpR_bindI [OF charge_route_safe], rule wpR_bindI [OF IH]) (auto split: prod.splits)
qed simp

definition path_of :: "suite_tree \<Rightarrow> nat \<Rightarrow> nat list" where
  "path_of T n = rev (up (tr_nodes T) (suite_of T n))"

text \<open>What the first loop puts into a route.\<close>

definition route_of :: "suite_tree \<Rightarrow> nat \<Rightarrow> route" where
  "route_of T n = \<lparr>ro_test = n, ro_ancestors = path_of T n, ro_before_each = concat (map (hooks_of T BeforeEach) (path_of T n)),
     ro_after_each = concat (map (hooks_of T AfterEach) (rev (path_of T n))), ro_finish_suites = []\<rparr>"

definition latest_ok :: "route list \<Rightarrow> (nat \<rightharpoonup> nat) \<Rightarrow> bool" where
  "latest_ok routes latest \<longleftrightarrow>
     (\<forall>s i. latest s = Some i \<longleftrightarrow> i < length routes \<and> s \<in> set (ro_ancestors (routes ! i)) \<and>
        (\<forall>j. i < j \<longrightarrow> j < length routes \<longrightarrow> s \<notin> set (ro_ancestors (routes ! j))))"

lemma latest_ok_snoc:
  assumes "latest_ok routes latest"
  shows "latest_ok (routes @ [r]) (\<lambda>s. if s \<in> set (ro_ancestors r) then Some (length routes) else latest s)"
  using assms unfolding latest_ok_def
  by (auto simp: nth_append less_Suc_eq split: if_splits)

lemma path_known:
  assumes "tree_ok T" "map_of (tr_tests T) n \<noteq> None"
  shows "\<forall>s \<in> set (path_of T n). map_of (tr_nodes T) s \<noteq> None" "path_up 64 (tr_nodes T) (suite_of T n) = Inr (rev (path_of T n))" "path_of T n \<noteq> []"
proof -
  obtain node where n: "map_of (tr_nodes T) (suite_of T n) = Some node" using tree_okD(5) [OF assms] by blast
  show "\<forall>s \<in> set (path_of T n). map_of (tr_nodes T) s \<noteq> None" using up_known [OF tree_okD(1) [OF assms(1)] n] by (auto simp: path_of_def)
  show "path_up 64 (tr_nodes T) (suite_of T n) = Inr (rev (path_of T n))" using rooted_path [OF tree_okD(1) [OF assms(1)] n] by (simp add: path_of_def)
  show "path_of T n \<noteq> []" using up_bound [OF tree_okD(1) [OF assms(1)] n] by (simp add: path_of_def)
qed

lemma plan_loop_ok:
  assumes "tree_ok T" "\<forall>n \<in> set order. map_of (tr_tests T) n \<noteq> None" "latest_ok routes latest"
  shows "safeR (\<lambda>(routes', latest', _). routes' = routes @ map (route_of T) (filter (\<lambda>n. n \<in> selected) order) \<and> latest_ok routes' latest')
    (plan_loop T selected order routes latest references)"
  using assms(2,3)
proof (induction order arbitrary: routes latest references)
  case (Cons n order)
  show ?case
  proof (cases "n \<in> selected")
    case True
    have known: "map_of (tr_tests T) n \<noteq> None" using Cons.prems(1) by simp
    then obtain test where t: "map_of (tr_tests T) n = Some test" by blast
    then have s: "td_suite test = suite_of T n" by (simp add: suite_of_def)
    note p = path_known [OF assms(1) known]
    have before: "safeR (\<lambda>(hooks, _). hooks = concat (map (hooks_of T BeforeEach) (path_of T n))) (hook_loop T BeforeEach (path_of T n) r)" for r
      using hook_loop_ok [OF p(1)] .
    have after: "safeR (\<lambda>(hooks, _). hooks = concat (map (hooks_of T AfterEach) (rev (path_of T n)))) (hook_loop T AfterEach (rev (path_of T n)) r)" for r
      using hook_loop_ok [of "rev (path_of T n)" T] p(1) by simp
    let ?latest = "\<lambda>suite. if suite \<in> set (path_of T n) then Some (length routes) else latest suite"
    have "latest_ok (routes @ [route_of T n]) ?latest" using latest_ok_snoc [OF Cons.prems(2), of "route_of T n"] by (simp add: route_of_def)
    from Cons.IH [OF _ this] have rest: "safeR (\<lambda>(routes', latest', _). routes' = (routes @ [route_of T n]) @ map (route_of T) (filter (\<lambda>n. n \<in> selected) order) \<and> latest_ok routes' latest')
        (plan_loop T selected order (routes @ [route_of T n]) ?latest r)" for r using Cons.prems(1) by simp
    have route: "\<lparr>ro_test = n, ro_ancestors = path_of T n, ro_before_each = b, ro_after_each = a, ro_finish_suites = []\<rparr> = route_of T n"
      if "b = concat (map (hooks_of T BeforeEach) (path_of T n))" "a = concat (map (hooks_of T AfterEach) (rev (path_of T n)))" for a b
      using that by (simp add: route_of_def)
    have "safeR (\<lambda>(routes', latest', _). routes' = routes @ map (route_of T) (filter (\<lambda>n. n \<in> selected) (n # order)) \<and> latest_ok routes' latest')
        (bindR (path_up 64 (tr_nodes T) (suite_of T n)) (\<lambda>path.
               bindR (charge_route references (length path + 1)) (\<lambda>references.
               let ancestors = rev path in
               bindR (hook_loop T BeforeEach ancestors references) (\<lambda>(before_each, references).
               bindR (hook_loop T AfterEach (rev ancestors) references) (\<lambda>(after_each, references).
                 plan_loop T selected order
                   (routes @ [\<lparr>ro_test = n, ro_ancestors = ancestors, ro_before_each = before_each, ro_after_each = after_each, ro_finish_suites = []\<rparr>])
                   (\<lambda>suite. if suite \<in> set ancestors then Some (length routes) else latest suite) references)))))"
      unfolding p(2) bindR_simps(1) Let_def rev_rev_ident
    proof (rule wpR_bindI [OF charge_route_safe], rule wpR_bindI [OF before], clarify, rule wpR_bindI [OF after], clarify)
      fix r'
      show "safeR (\<lambda>(routes', latest', _). routes' = routes @ map (route_of T) (filter (\<lambda>n. n \<in> selected) (n # order)) \<and> latest_ok routes' latest')
        (plan_loop T selected order (routes @ [\<lparr>ro_test = n, ro_ancestors = path_of T n, ro_before_each = concat (map (hooks_of T BeforeEach) (path_of T n)),
           ro_after_each = concat (map (hooks_of T AfterEach) (rev (path_of T n))), ro_finish_suites = []\<rparr>]) ?latest r')"
        using rest [of r'] True by (simp add: route)
    qed
    then show ?thesis using True t by (simp add: s)
  qed (use Cons in simp)
qed simp

lemma finish_list_ok:
  assumes "\<forall>s \<in> set suites. latest s \<noteq> None"
  shows "safeR (\<lambda>(finish, _). finish = filter (\<lambda>s. latest s = Some i) suites) (finish_list latest i suites references)"
  using assms
proof (induction suites arbitrary: references)
  case (Cons s suites)
  have IH: "safeR (\<lambda>(finish, _). finish = filter (\<lambda>s. latest s = Some i) suites) (finish_list latest i suites r)" for r using Cons by simp
  obtain at where at: "latest s = Some at" using Cons.prems by auto
  show ?case
  proof (cases "at = i")
    case True
    then show ?thesis
      unfolding finish_list.simps at option.case if_P [OF True]
      by (intro wpR_bindI [OF charge_route_safe] wpR_bindI [OF IH]) (auto simp: at split: prod.splits)
  qed (use IH at in simp)
qed simp

definition finished :: "(nat \<rightharpoonup> nat) \<Rightarrow> nat \<Rightarrow> route \<Rightarrow> route" where
  "finished latest i r = r\<lparr>ro_finish_suites := filter (\<lambda>s. latest s = Some i) (rev (ro_ancestors r))\<rparr>"

lemma finish_loop_ok:
  assumes "\<forall>r \<in> set routes. \<forall>s \<in> set (ro_ancestors r). latest s \<noteq> None"
  shows "safeR (\<lambda>routes'. routes' = map (\<lambda>(i, r). finished latest i r) (zip [i..<i + length routes] routes)) (finish_loop latest i routes references)"
  using assms
proof (induction routes arbitrary: i references)
  case (Cons r routes)
  have fin: "safeR (\<lambda>(finish, _). finish = filter (\<lambda>s. latest s = Some i) (rev (ro_ancestors r))) (finish_list latest i (rev (ro_ancestors r)) x)" for x
    using Cons.prems by (intro finish_list_ok) simp
  have rest: "safeR (\<lambda>routes'. routes' = map (\<lambda>(i, r). finished latest i r) (zip [i + 1..<i + 1 + length routes] routes)) (finish_loop latest (i + 1) routes x)" for x
    using Cons.prems by (intro Cons.IH) simp
  have upt: "[i..<i + length (r # routes)] = i # [i + 1..<i + 1 + length routes]" by (subst upt_conv_Cons) simp_all
  show ?case
    unfolding finish_loop.simps upt
  proof (rule wpR_bindI [OF fin], clarify)
    fix x show "safeR (\<lambda>routes'. routes' = map (\<lambda>(i, r). finished latest i r) (zip (i # [i + 1..<i + 1 + length routes]) (r # routes)))
        (bindR (finish_loop latest (i + 1) routes x) (\<lambda>routes. Inr (r\<lparr>ro_finish_suites := filter (\<lambda>s. latest s = Some i) (rev (ro_ancestors r))\<rparr> # routes)))"
      by (rule wpR_bindI [OF rest]) (simp only: wpR_simps finished_def zip_Cons_Cons list.map prod.case)
  qed
qed simp

lemma latest_known:
  assumes "latest_ok routes latest" "r \<in> set routes" "s \<in> set (ro_ancestors r)"
  shows "latest s \<noteq> None"
proof -
  let ?P = "\<lambda>j. j < length routes \<and> s \<in> set (ro_ancestors (routes ! j))"
  obtain k where "?P k" using assms(2,3) by (auto simp: in_set_conv_nth)
  then have g: "?P (Greatest ?P)" by (rule GreatestI_nat [of ?P k "length routes"]) simp
  have "m \<le> Greatest ?P" if "?P m" for m using that by (rule Greatest_le_nat [of ?P _ "length routes"]) simp
  then have "\<forall>j. Greatest ?P < j \<longrightarrow> j < length routes \<longrightarrow> s \<notin> set (ro_ancestors (routes ! j))" by (meson leD)
  then have "latest s = Some (Greatest ?P)" using assms(1) g unfolding latest_ok_def by blast
  then show ?thesis by simp
qed

lemma Plan_ok:
  assumes "NativeSuiteTree suites tests = Inr T"
  shows "safeR (\<lambda>routes. \<exists>latest. selected \<subseteq> set (tr_order T) \<and> latest_ok (map (route_of T) (filter (\<lambda>n. n \<in> selected) (tr_order T))) latest \<and>
    routes = map (\<lambda>(i, n). finished latest i (route_of T n))
      (zip [0..<length (filter (\<lambda>n. n \<in> selected) (tr_order T))] (filter (\<lambda>n. n \<in> selected) (tr_order T)))) (Plan T selected)"
proof -
  note t = NativeSuiteTree_ok [OF assms]
  let ?xs = "filter (\<lambda>n. n \<in> selected) (tr_order T)"
  have set: "set (tr_order T) = {n. map_of (tr_tests T) n \<noteq> None}"
    using t(2) tree_okD(4,5) [OF t(1)] by (auto simp: append_ok_def below_def)
  have loop: "safeR (\<lambda>(routes', latest', _). routes' = map (route_of T) ?xs \<and> latest_ok routes' latest') (plan_loop T selected (tr_order T) [] Map.empty 0)"
    using plan_loop_ok [OF t(1), of "tr_order T" "[]" Map.empty selected 0] set by (simp add: latest_ok_def)
  have fin: "safeR (\<lambda>routes. routes = map (\<lambda>(i, n). finished latest i (route_of T n)) (zip [0..<length ?xs] ?xs)) (finish_loop latest 0 (map (route_of T) ?xs) r)"
    if l: "latest_ok (map (route_of T) ?xs) latest" for latest r
  proof -
    have "\<forall>x \<in> set (map (route_of T) ?xs). \<forall>s \<in> set (ro_ancestors x). latest s \<noteq> None" using latest_known [OF l] by blast
    then have "safeR (\<lambda>routes'. routes' = map (\<lambda>(i, r). finished latest i r) (zip [0..<0 + length (map (route_of T) ?xs)] (map (route_of T) ?xs)))
        (finish_loop latest 0 (map (route_of T) ?xs) r)" by (rule finish_loop_ok)
    then show ?thesis by (auto simp: zip_map2 elim!: wpR_mono)
  qed
  show ?thesis
  proof (cases "8192 < card selected \<or> \<not> selected \<subseteq> fst ` set (tr_tests T)")
    case False
    have sub: "selected \<subseteq> set (tr_order T)" using False unfolding set by (auto simp: map_of_eq_None_iff)
    have "safeR (\<lambda>routes. \<exists>latest. selected \<subseteq> set (tr_order T) \<and> latest_ok (map (route_of T) ?xs) latest \<and>
        routes = map (\<lambda>(i, n). finished latest i (route_of T n)) (zip [0..<length ?xs] ?xs))
        (bindR (plan_loop T selected (tr_order T) [] Map.empty 0) (\<lambda>(routes, latest, references). finish_loop latest 0 routes references))"
    proof (rule wpR_bindI [OF loop], clarify)
      fix latest r assume l: "latest_ok (map (route_of T) ?xs) latest"
      show "safeR (\<lambda>routes. \<exists>latest. selected \<subseteq> set (tr_order T) \<and> latest_ok (map (route_of T) ?xs) latest \<and>
        routes = map (\<lambda>(i, n). finished latest i (route_of T n)) (zip [0..<length ?xs] ?xs)) (finish_loop latest 0 (map (route_of T) ?xs) r)"
        by (rule wpR_mono [OF fin [OF l]], rule exI [of _ latest]) (simp add: l sub)
    qed
    then show ?thesis using False by (simp add: Plan_def)
  qed (auto simp: Plan_def suite_error_def)
qed

section \<open>Routes share the suites they have in common\<close>

text \<open>A path is a list of suites from the root to a suite; two of them agree up to where they part.\<close>

definition path :: "suite_tree \<Rightarrow> nat list \<Rightarrow> bool" where
  "path T p \<longleftrightarrow> (\<exists>s. map_of (tr_nodes T) s \<noteq> None \<and> p = rev (up (tr_nodes T) s))"

lemma path_distinct:
  assumes "tree_ok T" "map_of (tr_nodes T) s \<noteq> None"
  shows "distinct (up (tr_nodes T) s)"
proof -
  note r = tree_okD(1) [OF assms(1)]
  obtain node where "map_of (tr_nodes T) s = Some node" using assms(2) by blast
  with r show ?thesis
  proof (induction rule: up_induct)
    case (step s node)
    have "distinct (up (tr_nodes T) (sd_parent node))"
      using step.IH up_start [of _ "tr_nodes T" "sd_parent node"] by (cases "up (tr_nodes T) (sd_parent node)") auto
    then show ?case using up_Cons [OF r step.hyps] not_own_ancestor [OF r, of s] step.hyps by (simp add: parent_of_def)
  qed
qed

lemma distinct_prefix_eq: "distinct (u @ s # v) \<Longrightarrow> u @ s # v = u' @ s # v' \<Longrightarrow> v = v'"
  by (metis append_Cons_eq_iff distinct_append not_distinct_conv_prefix append_eq_append_conv2 distinct.simps(2) Un_iff set_append in_set_conv_decomp)

lemma path_nonempty: "tree_ok T \<Longrightarrow> path T p \<Longrightarrow> p \<noteq> []"
  using up_parent [OF tree_okD(1)] by (auto simp: path_def)

lemma path_nodes: "tree_ok T \<Longrightarrow> path T p \<Longrightarrow> s \<in> set p \<Longrightarrow> map_of (tr_nodes T) s \<noteq> None"
  using up_known [OF tree_okD(1)] by (fastforce simp: path_def)

lemma path_of_path: "tree_ok T \<Longrightarrow> map_of (tr_tests T) n \<noteq> None \<Longrightarrow> path T (path_of T n)"
  unfolding path_def path_of_def using tree_okD(5) by blast

lemma path_prefix:
  assumes "tree_ok T" "path T (p @ [s] @ q)"
  shows "path T (p @ [s])"
proof -
  obtain x node where x: "map_of (tr_nodes T) x = Some node" "p @ [s] @ q = rev (up (tr_nodes T) x)" using assms(2) by (auto simp: path_def)
  have known: "map_of (tr_nodes T) s \<noteq> None" using path_nodes [OF assms, of s] by simp
  have up: "up (tr_nodes T) x = rev q @ s # rev p" using x(2) by (metis append.assoc append_Cons append_Nil rev.simps rev_append rev_rev_ident)
  then obtain r where r: "up (tr_nodes T) x = r @ up (tr_nodes T) s" using up_suffix [OF tree_okD(1) [OF assms(1)] x(1)] by (metis in_set_conv_decomp)
  have s: "up (tr_nodes T) s = s # up (tr_nodes T) (parent_of (tr_nodes T) s)" using up_parent [OF tree_okD(1) [OF assms(1)] known] .
  have "distinct (up (tr_nodes T) x)" using path_distinct [OF assms(1), of x] x(1) by simp
  then have "rev p = up (tr_nodes T) (parent_of (tr_nodes T) s)" using up r s by (metis distinct_prefix_eq)
  then show ?thesis using known s unfolding path_def by (intro exI [of _ s]) (metis rev.simps(2) rev_rev_ident)
qed

lemma path_part:
  assumes "tree_ok T" "path T p" "path T q"
  shows "\<exists>c u v. p = c @ u \<and> q = c @ v \<and> set u \<inter> set q = {} \<and> set v \<inter> set p = {}"
proof -
  note r = tree_okD(1) [OF assms(1)]
  obtain a nodea b where a: "map_of (tr_nodes T) a = Some nodea" "p = rev (up (tr_nodes T) a)" and b: "map_of (tr_nodes T) b \<noteq> None" "q = rev (up (tr_nodes T) b)"
    using assms(2,3) by (auto simp: path_def)
  have "\<exists>c u v. rev (up (tr_nodes T) a) = c @ u \<and> q = c @ v \<and> set u \<inter> set q = {} \<and> set v \<inter> set (rev (up (tr_nodes T) a)) = {}"
    using r a(1)
  proof (induction rule: up_induct)
    case (step a node)
    have up: "up (tr_nodes T) a = a # up (tr_nodes T) (sd_parent node)" using up_Cons [OF r step.hyps] .
    show ?case
    proof (cases "a \<in> set q")
      case True
      then obtain w where w: "up (tr_nodes T) b = w @ up (tr_nodes T) a" using up_suffix [OF r, of b] b by auto
      moreover have "distinct (up (tr_nodes T) b)" using path_distinct [OF assms(1) b(1)] .
      ultimately show ?thesis using b(2) by (intro exI [of _ "rev (up (tr_nodes T) a)"] exI [of _ "[]"] exI [of _ "rev w"]) auto
    next
      case False
      have "\<exists>c u v. rev (up (tr_nodes T) (sd_parent node)) = c @ u \<and> q = c @ v \<and> set u \<inter> set q = {} \<and> set v \<inter> set (rev (up (tr_nodes T) (sd_parent node))) = {}"
      proof (cases "map_of (tr_nodes T) (sd_parent node)")
        case None
        then have "up (tr_nodes T) (sd_parent node) = []" using up_start by (metis last_in_set option.distinct(1))
        then show ?thesis by simp
      qed (use step.IH in blast)
      then obtain c u v where "rev (up (tr_nodes T) (sd_parent node)) = c @ u" "q = c @ v" "set u \<inter> set q = {}" "set v \<inter> set (rev (up (tr_nodes T) (sd_parent node))) = {}" by blast
      then show ?thesis using False up by (intro exI [of _ c] exI [of _ "u @ [a]"] exI [of _ v]) auto
    qed
  qed
  then show ?thesis using a(2) by simp
qed

text \<open>
  What the routes of a plan promise to the one that walks them: the suites of a route form a path, the routes
  below a suite stand together, and a route ends, inner suites first, those of its suites that the next one
  does not share.
\<close>

fun ends_ok :: "route list \<Rightarrow> bool" where
  "ends_ok [] = True"
| "ends_ok (r # rs) =
     (ro_finish_suites r = filter (\<lambda>s. rs = [] \<or> s \<notin> set (ro_ancestors (hd rs))) (rev (ro_ancestors r)) \<and> ends_ok rs)"

definition routes_ok :: "suite_tree \<Rightarrow> route list \<Rightarrow> bool" where
  "routes_ok T rs \<longleftrightarrow> (\<forall>r \<in> set rs. path T (ro_ancestors r)) \<and> (\<forall>s. block (\<lambda>r. s \<in> set (ro_ancestors r)) rs) \<and> ends_ok rs"

lemma block_nth:
  assumes "block P xs" "i < k" "k < j" "j < length xs" "P (xs ! i)" "P (xs ! j)"
  shows "P (xs ! k)"
proof -
  obtain a b c where x: "xs = a @ b @ c" "\<forall>x \<in> set b. P x" "\<forall>x \<in> set a \<union> set c. \<not> P x" using assms(1) by (auto simp: block_def)
  have "length a \<le> i" using assms(2-5) x by (metis UnI1 linorder_not_less nth_append nth_mem)
  moreover have "j < length a + length b"
  proof (rule ccontr)
    assume n: "\<not> j < length a + length b"
    then have "xs ! j = c ! (j - length a - length b)" "j - length a - length b < length c" using x(1) assms(4) by (auto simp: nth_append)
    then show False using assms(6) x(3) by auto
  qed
  ultimately have "k - length a < length b" "xs ! k = b ! (k - length a)" using assms(2,3) x(1) by (auto simp: nth_append)
  then show ?thesis using x(2) by simp
qed

lemma block_tl: "block P (x # xs) \<Longrightarrow> block P xs"
proof -
  assume "block P (x # xs)"
  then obtain a b c where x: "x # xs = a @ b @ c" "\<forall>x \<in> set b. P x" "\<forall>x \<in> set a \<union> set c. \<not> P x" by (auto simp: block_def)
  show ?thesis
  proof (cases a)
    case Nil
    show ?thesis
    proof (cases b)
      case b: Nil
      then have "c = x # xs" using x(1) Nil by simp
      then show ?thesis using x(3) by (intro block_none) auto
    qed (use x Nil in \<open>auto intro!: blockI [of _ "[]" _ c]\<close>)
  qed (use x in \<open>auto intro!: blockI [of _ _ b c]\<close>)
qed

lemma block_map: "block P (map f xs) \<longleftrightarrow> block (\<lambda>x. P (f x)) xs"
proof
  assume "block (\<lambda>x. P (f x)) xs"
  then obtain a b c where "xs = a @ b @ c" "\<forall>x \<in> set b. P (f x)" "\<forall>x \<in> set a \<union> set c. \<not> P (f x)" by (auto simp: block_def)
  then show "block P (map f xs)" by (intro blockI [of _ "map f a" "map f b" "map f c"]) auto
next
  assume "block P (map f xs)"
  then obtain a b c where x: "map f xs = a @ b @ c" "\<forall>x \<in> set b. P x" "\<forall>x \<in> set a \<union> set c. \<not> P x" by (auto simp: block_def)
  then obtain a' b' c' where "xs = a' @ b' @ c'" "a = map f a'" "b = map f b'" "c = map f c'" by (auto simp: map_eq_append_conv append_eq_map_conv)
  then show "block (\<lambda>x. P (f x)) xs" using x(2,3) by (intro blockI [of _ a' b' c']) auto
qed

lemma ends_ok_nth:
  "(\<And>i. i < length rs \<Longrightarrow> ro_finish_suites (rs ! i) = filter (\<lambda>s. Suc i < length rs \<longrightarrow> s \<notin> set (ro_ancestors (rs ! Suc i))) (rev (ro_ancestors (rs ! i)))) \<Longrightarrow> ends_ok rs"
proof (induction rs)
  case (Cons r rs)
  have "ends_ok rs"
  proof (rule Cons.IH)
    fix i assume "i < length rs"
    then show "ro_finish_suites (rs ! i) = filter (\<lambda>s. Suc i < length rs \<longrightarrow> s \<notin> set (ro_ancestors (rs ! Suc i))) (rev (ro_ancestors (rs ! i)))"
      using Cons.prems [of "Suc i"] by simp
  qed
  moreover have "(rs = [] \<or> s \<notin> set (ro_ancestors (hd rs))) \<longleftrightarrow> (0 < length rs \<longrightarrow> s \<notin> set (ro_ancestors (rs ! 0)))" for s
    by (cases rs) auto
  ultimately show ?case using Cons.prems [of 0] by simp
qed simp

lemma order_tests:
  assumes "NativeSuiteTree suites tests = Inr T"
  shows "set (tr_order T) = {n. map_of (tr_tests T) n \<noteq> None}" "set (tr_order T) = td_id ` set tests" "distinct (tr_order T)"
    "block (below T s) (tr_order T)"
proof -
  note t = NativeSuiteTree_ok [OF assms]
  show set: "set (tr_order T) = {n. map_of (tr_tests T) n \<noteq> None}"
    using t(2) tree_okD(4,5) [OF t(1)] by (auto simp: append_ok_def below_def)
  have "map_of (tr_tests T) n \<noteq> None \<longleftrightarrow> n \<in> td_id ` set tests" for n
    using t(4) [of n "the (map_of (tr_tests T) n)"] t(4) [of n] by (cases "map_of (tr_tests T) n") auto
  then show "set (tr_order T) = td_id ` set tests" unfolding set by blast
  show "distinct (tr_order T)" "block (below T s) (tr_order T)" using t(2) by (simp_all add: append_ok_def)
qed

lemma block_congI: "block P xs \<Longrightarrow> (\<And>x. x \<in> set xs \<Longrightarrow> P x \<longleftrightarrow> Q x) \<Longrightarrow> block Q xs"
proof -
  assume "block P xs" and q: "\<And>x. x \<in> set xs \<Longrightarrow> P x \<longleftrightarrow> Q x"
  then obtain a b c where "xs = a @ b @ c" "\<forall>x \<in> set b. P x" "\<forall>x \<in> set a \<union> set c. \<not> P x" by (auto simp: block_def)
  then show ?thesis using q by (intro blockI [of _ a b c]) auto
qed

lemma Plan_nth:
  assumes tree: "NativeSuiteTree suites tests = Inr T" and plan: "Plan T selected = Inr routes"
  defines "xs \<equiv> filter (\<lambda>n. n \<in> selected) (tr_order T)"
  shows "length routes = length xs" "selected \<subseteq> set (tr_order T)"
    "\<And>i. i < length xs \<Longrightarrow> routes ! i = (route_of T (xs ! i))\<lparr>ro_finish_suites :=
       filter (\<lambda>s. \<forall>j. i < j \<longrightarrow> j < length xs \<longrightarrow> s \<notin> set (path_of T (xs ! j))) (rev (path_of T (xs ! i)))\<rparr>"
proof -
  obtain latest where l: "selected \<subseteq> set (tr_order T)" "latest_ok (map (route_of T) xs) latest"
    "routes = map (\<lambda>(i, n). finished latest i (route_of T n)) (zip [0..<length xs] xs)"
    using wpR_InrD [OF Plan_ok [OF tree] plan] unfolding xs_def by blast
  show "length routes = length xs" "selected \<subseteq> set (tr_order T)" using l by simp_all
  fix i assume i: "i < length xs"
  have "latest s = Some i \<longleftrightarrow> (\<forall>j. i < j \<longrightarrow> j < length xs \<longrightarrow> s \<notin> set (path_of T (xs ! j)))" if "s \<in> set (path_of T (xs ! i))" for s
  proof -
    have "latest s = Some i \<longleftrightarrow> i < length (map (route_of T) xs) \<and> s \<in> set (ro_ancestors (map (route_of T) xs ! i)) \<and>
        (\<forall>j. i < j \<longrightarrow> j < length (map (route_of T) xs) \<longrightarrow> s \<notin> set (ro_ancestors (map (route_of T) xs ! j)))"
      using l(2) unfolding latest_ok_def by blast
    also have "\<dots> \<longleftrightarrow> (\<forall>j. i < j \<longrightarrow> j < length xs \<longrightarrow> s \<notin> set (path_of T (xs ! j)))" using i that by (auto simp: route_of_def)
    finally show ?thesis .
  qed
  then have "filter (\<lambda>s. latest s = Some i) (rev (path_of T (xs ! i))) =
      filter (\<lambda>s. \<forall>j. i < j \<longrightarrow> j < length xs \<longrightarrow> s \<notin> set (path_of T (xs ! j))) (rev (path_of T (xs ! i)))"
    by (intro filter_cong) auto
  then show "routes ! i = (route_of T (xs ! i))\<lparr>ro_finish_suites :=
       filter (\<lambda>s. \<forall>j. i < j \<longrightarrow> j < length xs \<longrightarrow> s \<notin> set (path_of T (xs ! j))) (rev (path_of T (xs ! i)))\<rparr>"
    using i l(3) by (simp add: finished_def route_of_def)
qed

lemma Plan_routes_ok:
  assumes tree: "NativeSuiteTree suites tests = Inr T" and plan: "Plan T selected = Inr routes"
  shows "routes_ok T routes"
proof -
  define xs where "xs = filter (\<lambda>n. n \<in> selected) (tr_order T)"
  note n = Plan_nth [OF tree plan, folded xs_def] and o = order_tests [OF tree]
  have anc: "ro_ancestors (routes ! i) = path_of T (xs ! i)" if "i < length xs" for i using n(3) [OF that] by (simp add: route_of_def)
  have known: "map_of (tr_tests T) n \<noteq> None" if "n \<in> set xs" for n using that o(1) by (auto simp: xs_def)
  have "path T (ro_ancestors r)" if "r \<in> set routes" for r
    using that path_of_path [OF NativeSuiteTree_ok(1) [OF tree] known] anc n(1) by (metis in_set_conv_nth nth_mem)
  moreover have block: "block (\<lambda>r. s \<in> set (ro_ancestors r)) routes" for s
  proof -
    have "block (below T s) xs" unfolding xs_def by (rule block_filter [OF o(4)])
    then have "block (\<lambda>n. s \<in> set (path_of T n)) xs" by (rule block_congI) (use known in \<open>simp add: below_def path_of_def\<close>)
    then have "block (\<lambda>p. s \<in> set p) (map (path_of T) xs)" by (simp only: block_map)
    moreover have "map (path_of T) xs = map ro_ancestors routes" using anc n(1) by (intro nth_equalityI) simp_all
    ultimately show ?thesis using block_map [of "\<lambda>p. s \<in> set p" ro_ancestors routes] by simp
  qed
  moreover have "ends_ok routes"
  proof (rule ends_ok_nth)
    fix i assume i: "i < length routes"
    have "(\<forall>j. i < j \<longrightarrow> j < length xs \<longrightarrow> s \<notin> set (path_of T (xs ! j))) \<longleftrightarrow> (Suc i < length routes \<longrightarrow> s \<notin> set (ro_ancestors (routes ! Suc i)))"
      if s: "s \<in> set (path_of T (xs ! i))" for s
    proof (intro iffI allI impI)
      fix j assume a: "Suc i < length routes \<longrightarrow> s \<notin> set (ro_ancestors (routes ! Suc i))" and j: "i < j" "j < length xs"
      show "s \<notin> set (path_of T (xs ! j))"
        using block_nth [OF block [of s], of i "Suc i" j] a s anc j n(1) i by (cases "j = Suc i") auto
    qed (use anc n(1) in auto)
    then have "filter (\<lambda>s. \<forall>j. i < j \<longrightarrow> j < length xs \<longrightarrow> s \<notin> set (path_of T (xs ! j))) (rev (path_of T (xs ! i))) =
        filter (\<lambda>s. Suc i < length routes \<longrightarrow> s \<notin> set (ro_ancestors (routes ! Suc i))) (rev (path_of T (xs ! i)))"
      by (intro filter_cong) auto
    then show "ro_finish_suites (routes ! i) = filter (\<lambda>s. Suc i < length routes \<longrightarrow> s \<notin> set (ro_ancestors (routes ! Suc i))) (rev (ro_ancestors (routes ! i)))"
      using n(1) n(3) [of i] i by (simp add: route_of_def)
  qed
  ultimately show ?thesis by (simp add: routes_ok_def)
qed

section \<open>The plan of a selection\<close>

text \<open>
  C33: An accepted declaration orders every declared test exactly once. A plan for a selection of them fails
  only with the errors of the source; otherwise it has one route per selected test, in declaration order. A
  route holds the suites from the root to the one of its test, the before-each hooks of these suites from the
  outermost to the innermost and the after-each hooks the other way, each suite's in declaration order. The
  tests of a suite are never interrupted by others, and a suite ends exactly after its last selected test,
  inner suites before outer ones.
\<close>

theorem suite_routes:
  assumes "NativeSuiteTree suites tests = Inr T"
  shows "set (tr_order T) = td_id ` set tests \<and> distinct (tr_order T) \<and>
    safeR (\<lambda>routes.
      map ro_test routes = filter (\<lambda>n. n \<in> selected) (tr_order T) \<and> set (map ro_test routes) = selected \<and>
      (\<forall>i < length routes. \<exists>test \<in> set tests.
         td_id test = ro_test (routes ! i) \<and>
         path_up 64 (tr_nodes T) (td_suite test) = Inr (rev (ro_ancestors (routes ! i))) \<and>
         ro_before_each (routes ! i) = concat (map (hooks_of T BeforeEach) (ro_ancestors (routes ! i))) \<and>
         ro_after_each (routes ! i) = concat (map (hooks_of T AfterEach) (rev (ro_ancestors (routes ! i)))) \<and>
         ro_finish_suites (routes ! i) =
           filter (\<lambda>s. \<forall>j. i < j \<longrightarrow> j < length routes \<longrightarrow> s \<notin> set (ro_ancestors (routes ! j))) (rev (ro_ancestors (routes ! i)))) \<and>
      (\<forall>s i k j. i < k \<longrightarrow> k < j \<longrightarrow> j < length routes \<longrightarrow>
         s \<in> set (ro_ancestors (routes ! i)) \<longrightarrow> s \<in> set (ro_ancestors (routes ! j)) \<longrightarrow> s \<in> set (ro_ancestors (routes ! k))))
    (Plan T selected)"
proof (intro conjI order_tests(2,3) [OF assms] wpRI)
  show "\<not> fatal e" if "Plan T selected = Inl e" for e using wpR_InlD [OF Plan_ok [OF assms] that] .
  fix routes assume plan: "Plan T selected = Inr routes"
  define xs where "xs = filter (\<lambda>n. n \<in> selected) (tr_order T)"
  note n = Plan_nth [OF assms plan, folded xs_def] and o = order_tests [OF assms] and t = NativeSuiteTree_ok [OF assms]
  have at: "ro_ancestors (routes ! i) = path_of T (xs ! i)" "ro_test (routes ! i) = xs ! i" if "i < length xs" for i
    using n(3) [OF that] by (simp_all add: route_of_def)
  show ids: "map ro_test routes = filter (\<lambda>n. n \<in> selected) (tr_order T)" unfolding xs_def [symmetric] using at(2) n(1) by (intro nth_equalityI) simp_all
  show "set (map ro_test routes) = selected" unfolding ids using n(2) by auto
  show "\<forall>s i k j. i < k \<longrightarrow> k < j \<longrightarrow> j < length routes \<longrightarrow>
      s \<in> set (ro_ancestors (routes ! i)) \<longrightarrow> s \<in> set (ro_ancestors (routes ! j)) \<longrightarrow> s \<in> set (ro_ancestors (routes ! k))"
    using Plan_routes_ok [OF assms plan] block_nth unfolding routes_ok_def by fast
  show "\<forall>i < length routes. \<exists>test \<in> set tests.
         td_id test = ro_test (routes ! i) \<and>
         path_up 64 (tr_nodes T) (td_suite test) = Inr (rev (ro_ancestors (routes ! i))) \<and>
         ro_before_each (routes ! i) = concat (map (hooks_of T BeforeEach) (ro_ancestors (routes ! i))) \<and>
         ro_after_each (routes ! i) = concat (map (hooks_of T AfterEach) (rev (ro_ancestors (routes ! i)))) \<and>
         ro_finish_suites (routes ! i) =
           filter (\<lambda>s. \<forall>j. i < j \<longrightarrow> j < length routes \<longrightarrow> s \<notin> set (ro_ancestors (routes ! j))) (rev (ro_ancestors (routes ! i)))"
  proof (intro allI impI)
    fix i assume i: "i < length routes"
    then have x: "xs ! i \<in> set xs" using n(1) by simp
    then have "map_of (tr_tests T) (xs ! i) \<noteq> None" using o(1) by (auto simp: xs_def)
    then obtain test where test: "map_of (tr_tests T) (xs ! i) = Some test" by blast
    have fin: "filter (\<lambda>s. \<forall>j. i < j \<longrightarrow> j < length routes \<longrightarrow> s \<notin> set (ro_ancestors (routes ! j))) (rev (path_of T (xs ! i))) = ro_finish_suites (routes ! i)"
      using n(1) n(3) [of i] at(1) i by (simp cong: imp_cong filter_cong)
    have "path_up 64 (tr_nodes T) (td_suite test) = Inr (rev (path_of T (xs ! i)))"
      using path_known(2) [OF t(1), of "xs ! i"] test by (simp add: suite_of_def)
    then show "\<exists>test \<in> set tests.
         td_id test = ro_test (routes ! i) \<and>
         path_up 64 (tr_nodes T) (td_suite test) = Inr (rev (ro_ancestors (routes ! i))) \<and>
         ro_before_each (routes ! i) = concat (map (hooks_of T BeforeEach) (ro_ancestors (routes ! i))) \<and>
         ro_after_each (routes ! i) = concat (map (hooks_of T AfterEach) (rev (ro_ancestors (routes ! i)))) \<and>
         ro_finish_suites (routes ! i) =
           filter (\<lambda>s. \<forall>j. i < j \<longrightarrow> j < length routes \<longrightarrow> s \<notin> set (ro_ancestors (routes ! j))) (rev (ro_ancestors (routes ! i)))"
      using t(4) [of "xs ! i" test] test at [of i] i n(1) n(3) [of i] fin by (intro bexI [of _ test]) (simp_all add: route_of_def)
  qed
qed

definition example_suites :: "suite_declaration list" where
  "example_suites = [\<lparr>sd_id = 1, sd_parent = 0, sd_position = 0, sd_hooks = [\<lparr>sh_kind = BeforeEach, sh_callback = 7\<rparr>]\<rparr>,
     \<lparr>sd_id = 2, sd_parent = 1, sd_position = 1, sd_hooks = [\<lparr>sh_kind = BeforeEach, sh_callback = 8\<rparr>, \<lparr>sh_kind = AfterEach, sh_callback = 9\<rparr>]\<rparr>]"

definition example_tests :: "suite_test list" where
  "example_tests = [\<lparr>td_id = 10, td_suite = 1, td_position = 0\<rparr>, \<lparr>td_id = 20, td_suite = 2, td_position = 0\<rparr>, \<lparr>td_id = 30, td_suite = 1, td_position = 2\<rparr>]"

definition example_nodes :: suite_nodes where
  "example_nodes = map (\<lambda>d. (sd_id d, d)) example_suites"

definition example_tree :: suite_tree where
  "example_tree = \<lparr>tr_root = 1, tr_nodes = example_nodes, tr_tests = map (\<lambda>d. (td_id d, d)) example_tests,
     tr_children = child_list example_nodes example_tests, tr_order = [10, 20, 30]\<rparr>"

lemma example_tree: "NativeSuiteTree example_suites example_tests = Inr example_tree"
proof -
  have c: "suites_loop example_suites [] {} 0 = Inr (example_nodes, 1)" "links_loop example_nodes example_nodes = Inr ()"
    "tests_loop example_nodes example_tests [] = Inr (map (\<lambda>d. (td_id d, d)) example_tests)"
    "list_all (\<lambda>(n, _). map ch_position (child_list example_nodes example_tests n) = [0..<length (child_list example_nodes example_tests n)]) example_nodes"
    "Append 64 (child_list example_nodes example_tests) 1 = Inr [10, 20, 30]"
    by code_simp+
  have "example_suites \<noteq> []" "\<not> 256 < length example_suites" "length example_tests = 3" by (simp_all add: example_suites_def example_tests_def)
  then show ?thesis
    unfolding NativeSuiteTree_def c bindR_simps prod.case Let_def example_tree_def using c(4) by (simp add: c(5))
qed

lemma example_plan:
  "Plan example_tree {20, 10} = Inr
     [\<lparr>ro_test = 10, ro_ancestors = [1], ro_before_each = [7], ro_after_each = [], ro_finish_suites = []\<rparr>,
      \<lparr>ro_test = 20, ro_ancestors = [1, 2], ro_before_each = [7, 8], ro_after_each = [9], ro_finish_suites = [2, 1]\<rparr>]"
proof -
  have paths: "path_up 64 (tr_nodes example_tree) 1 = Inr [1]" "path_up 64 (tr_nodes example_tree) 2 = Inr [2, 1]" by code_simp+
  have nodes: "tr_nodes example_tree = example_nodes" and order: "tr_order example_tree = [10, 20, 30]"
    and tests: "tr_tests example_tree = map (\<lambda>d. (td_id d, d)) example_tests" by (simp_all add: example_tree_def)
  show ?thesis
    using paths by (simp add: Plan_def order tests nodes example_tests_def example_nodes_def example_suites_def suite_Hooks_def charge_route_def Let_def)
qed

theorem suite_routes_witness:
  "\<exists>routes. NativeSuiteTree example_suites example_tests = Inr example_tree \<and> Plan example_tree {20, 10} = Inr routes \<and>
    map ro_test routes = filter (\<lambda>n. n \<in> {20, 10}) [10, 20, 30] \<and> ro_before_each (routes ! 1) = [7, 8] \<and> ro_finish_suites (routes ! 1) = [2, 1]"
proof -
  obtain routes where routes: "Plan example_tree {20, 10} = Inr routes" "ro_before_each (routes ! 1) = [7, 8]" "ro_finish_suites (routes ! 1) = [2, 1]"
    using example_plan by simp
  have "tr_order example_tree = [10, 20, 30]" by (simp add: example_tree_def)
  then have "map ro_test routes = filter (\<lambda>n. n \<in> {20, 10}) [10, 20, 30]"
    using suite_routes [OF example_tree, of "{20, 10}"] routes(1) by simp
  then show ?thesis using example_tree routes by blast
qed

end
