(* ===== verification/SuiteWorker.thy ===== *)
theory SuiteWorker
  imports SuiteTree
begin

text \<open>
  \<open>suite_worker_plan.h\<close>: the operations one worker performs for a selection of tests: the before-all hooks
  of the suites it enters, the tests, the after-all hooks of the suites it leaves. Every operation is
  answered before the next is handed out; a failure closes all suites that were entered. The exceptions
  that can occur are thrown before the plan is changed, so an operation returns the new plan only with its
  result. What \<open>WorkerClosed\<close> asks the process of the worker is an argument.
\<close>

section \<open>State\<close>

datatype op_kind = OpBeforeAll | OpTest | OpAfterAll | OpSkippedTest

record operation =
  op_kind :: op_kind
  op_epoch :: nat
  op_token :: nat
  op_suite :: nat
  op_test :: nat
  op_callbacks :: "nat list"
  op_before_each :: "nat list"
  op_after_each :: "nat list"
  op_skip_cause :: nat
  op_skipped_tests :: "nat list"

record worker_plan =
  wp_tree :: suite_tree
  wp_routes :: "route list"
  wp_epoch :: nat
  wp_nonce :: nat
  wp_skip_cause :: nat
  wp_skipped_tests :: "nat list"
  wp_worker :: int
  wp_index :: nat
  wp_exit_remaining :: nat
  wp_active :: "nat list"
  wp_pending :: "operation option"
  wp_failures :: "operation list"
  wp_closing :: bool
  wp_retire :: bool
  wp_closed :: bool

section \<open>Operations\<close>

definition NativeSuiteWorkerPlan :: "suite_tree \<Rightarrow> nat set \<Rightarrow> nat \<Rightarrow> int \<Rightarrow> worker_plan result" where
  "NativeSuiteWorkerPlan tree selected epoch worker =
     bindR (Plan tree selected) (\<lambda>routes.
       if epoch = 0 \<or> worker \<le> 0 then suite_error ''Invalid native suite worker identity''
       else Inr \<lparr>wp_tree = tree, wp_routes = routes, wp_epoch = epoch, wp_nonce = 0, wp_skip_cause = 0, wp_skipped_tests = [],
                 wp_worker = worker, wp_index = 0, wp_exit_remaining = 0, wp_active = [], wp_pending = None, wp_failures = [],
                 wp_closing = False, wp_retire = False, wp_closed = False\<rparr>)"

definition Admit :: "op_kind \<Rightarrow> nat \<Rightarrow> nat \<Rightarrow> nat list \<Rightarrow> nat list \<Rightarrow> nat list \<Rightarrow> worker_plan \<Rightarrow> (operation \<times> worker_plan) result" where
  "Admit kind suite test callbacks before_each after_each s =
     (if wp_nonce s = u64_max then suite_error ''Native suite operation identity exhausted''
      else let operation = \<lparr>op_kind = kind, op_epoch = wp_epoch s, op_token = wp_nonce s + 1, op_suite = suite, op_test = test,
                 op_callbacks = callbacks, op_before_each = before_each, op_after_each = after_each, op_skip_cause = 0, op_skipped_tests = []\<rparr>
           in Inr (operation, s\<lparr>wp_nonce := wp_nonce s + 1, wp_pending := Some operation\<rparr>))"

text \<open>\<open>active_.back()\<close> is undefined on an empty vector.\<close>

definition backR :: "'a list \<Rightarrow> 'a result" where
  "backR xs = (if xs = [] then Inl Undefined_behaviour else Inr (last xs))"

definition some_op :: "operation \<times> worker_plan \<Rightarrow> operation option \<times> worker_plan" where
  "some_op = (\<lambda>(operation, s). (Some operation, s))"

definition next_route :: "worker_plan \<Rightarrow> (operation option \<times> worker_plan) result" where
  "next_route s =
     bindR (atR (wp_routes s) (wp_index s)) (\<lambda>route.
       if length (ro_ancestors route) < length (wp_active s) \<or> take (length (wp_active s)) (ro_ancestors route) \<noteq> wp_active s
       then suite_error ''Native suite active branch is inconsistent''
       else if wp_skip_cause s \<noteq> 0 then
         bindR (backR (wp_active s)) (\<lambda>suite.
         bindR (Admit OpSkippedTest suite (ro_test route) [] [] [] s) (\<lambda>(operation, s).
           let operation = operation\<lparr>op_skip_cause := wp_skip_cause s, op_skipped_tests := wp_skipped_tests s\<rparr>
           in Inr (Some operation, s\<lparr>wp_pending := Some operation\<rparr>)))
       else if length (wp_active s) < length (ro_ancestors route) then
         if wp_nonce s = u64_max then suite_error ''Native suite operation identity exhausted''
         else let suite = ro_ancestors route ! length (wp_active s); s = s\<lparr>wp_active := wp_active s @ [suite]\<rparr>
              in bindR (suite_Hooks (wp_tree s) suite BeforeAll) (\<lambda>hooks.
                 bindR (Admit OpBeforeAll suite (ro_test route) hooks [] [] s) (\<lambda>r. Inr (some_op r)))
       else bindR (backR (ro_ancestors route)) (\<lambda>suite.
            bindR (Admit OpTest suite (ro_test route) [] (ro_before_each route) (ro_after_each route) s) (\<lambda>r. Inr (some_op r))))"

definition worker_Next :: "worker_plan \<Rightarrow> (operation option \<times> worker_plan) result" where
  "worker_Next s =
     (if wp_pending s \<noteq> None then suite_error ''Native suite operation still awaiting its actual result''
      else if wp_closed s then Inr (None, s)
      else if wp_closing s then
        if wp_active s = [] then suite_error ''Native suite close route has no owner''
        else bindR (atR (wp_routes s) (wp_index s)) (\<lambda>route.
             bindR (suite_Hooks (wp_tree s) (last (wp_active s)) AfterAll) (\<lambda>hooks.
             bindR (Admit OpAfterAll (last (wp_active s)) (ro_test route) hooks [] [] s) (\<lambda>r. Inr (some_op r))))
      else if wp_retire s \<or> length (wp_routes s) \<le> wp_index s then Inr (None, s)
      else next_route s)"

text \<open>What an answered operation does to the plan; \<open>operation\<close> is the answer, \<open>pending\<close> the operation that was handed out.\<close>

definition complete_kind :: "operation \<Rightarrow> op_kind \<Rightarrow> bool \<Rightarrow> worker_plan \<Rightarrow> worker_plan result" where
  "complete_kind operation kind ok s =
     (case kind of
        OpBeforeAll \<Rightarrow> Inr (if ok then s else s\<lparr>wp_closing := True, wp_exit_remaining := length (wp_active s)\<rparr>)
      | OpAfterAll \<Rightarrow>
          if wp_active s = [] \<or> last (wp_active s) \<noteq> op_suite operation \<or> wp_exit_remaining s = 0
          then suite_error ''Native suite close acknowledgment has no owner''
          else let active = butlast (wp_active s); remaining = (if wp_retire s then length active else wp_exit_remaining s - 1)
               in Inr (s\<lparr>wp_active := active, wp_exit_remaining := remaining, wp_closing := (wp_closing s \<and> remaining \<noteq> 0),
                         wp_index := (if remaining = 0 \<and> \<not> wp_retire s then wp_index s + 1 else wp_index s)\<rparr>)
      | _ \<Rightarrow>
          let s = (if kind = OpSkippedTest then s\<lparr>wp_skip_cause := 0, wp_skipped_tests := []\<rparr> else s)
          in bindR (if wp_retire s then Inr (length (wp_active s))
                    else bindR (atR (wp_routes s) (wp_index s)) (\<lambda>route. Inr (length (ro_finish_suites route)))) (\<lambda>remaining.
             Inr (s\<lparr>wp_exit_remaining := remaining, wp_closing := (remaining \<noteq> 0),
                    wp_index := (if remaining = 0 then wp_index s + 1 else wp_index s)\<rparr>)))"

definition worker_Complete :: "operation \<Rightarrow> bool \<Rightarrow> worker_plan \<Rightarrow> (bool \<times> worker_plan) result" where
  "worker_Complete operation ok s =
     (case wp_pending s of
        None \<Rightarrow> Inr (False, s)
      | Some pending \<Rightarrow>
          if op_epoch operation \<noteq> wp_epoch s \<or> op_token operation \<noteq> op_token pending \<or> op_kind operation \<noteq> op_kind pending \<or>
             op_suite operation \<noteq> op_suite pending \<or> op_test operation \<noteq> op_test pending \<or>
             op_skip_cause operation \<noteq> op_skip_cause pending \<or> op_skipped_tests operation \<noteq> op_skipped_tests pending
          then Inr (False, s)
          else if \<not> ok \<and> 8192 \<le> length (wp_failures s) then suite_error ''Native suite failure capacity exceeded''
          else bindR (complete_kind operation (op_kind pending) ok
                 (s\<lparr>wp_failures := wp_failures s @ (if ok then [] else [pending]), wp_retire := (wp_retire s \<or> \<not> ok), wp_pending := None\<rparr>))
                 (\<lambda>s. Inr (True, s)))"

fun shared_prefix :: "nat list \<Rightarrow> nat list \<Rightarrow> nat" where
  "shared_prefix (x # xs) (y # ys) = (if x = y then 1 + shared_prefix xs ys else 0)"
| "shared_prefix _ _ = 0"

text \<open>
  The routes without those below the suite whose before-all hook asked to be skipped, and the tests of
  the routes left out. The source removes from \<open>index_ + 1\<close> on; past the end this is undefined.
\<close>

definition skip_routes :: "nat \<Rightarrow> worker_plan \<Rightarrow> (route list \<times> nat list) result" where
  "skip_routes suite s =
     (if length (wp_routes s) \<le> wp_index s then Inl Undefined_behaviour
      else let done = take (wp_index s + 1) (wp_routes s); rest = drop (wp_index s + 1) (wp_routes s);
               omitted = map ro_test (filter (\<lambda>route. suite \<in> set (ro_ancestors route)) rest);
               routes = done @ filter (\<lambda>route. suite \<notin> set (ro_ancestors route)) rest;
               shared = (if wp_index s + 1 < length routes then shared_prefix (wp_active s) (ro_ancestors (routes ! (wp_index s + 1))) else 0);
               current = (routes ! wp_index s)\<lparr>ro_ancestors := wp_active s, ro_before_each := [], ro_after_each := [],
                            ro_finish_suites := rev (drop shared (wp_active s))\<rparr>
           in Inr (routes[wp_index s := current], omitted))"

definition worker_SkipBeforeAll :: "operation \<Rightarrow> nat \<Rightarrow> worker_plan \<Rightarrow> (bool \<times> worker_plan) result" where
  "worker_SkipBeforeAll operation cause s =
     (case wp_pending s of
        None \<Rightarrow> Inr (False, s)
      | Some pending \<Rightarrow>
          if cause = 0 \<or> op_kind pending \<noteq> OpBeforeAll \<or> op_kind operation \<noteq> OpBeforeAll \<or> op_epoch operation \<noteq> wp_epoch s \<or>
             op_token operation \<noteq> op_token pending \<or> op_suite operation \<noteq> op_suite pending \<or> op_test operation \<noteq> op_test pending \<or>
             op_skip_cause operation \<noteq> 0 \<or> op_skipped_tests operation \<noteq> [] \<or> wp_active s = [] \<or> last (wp_active s) \<noteq> op_suite operation \<or>
             wp_retire s \<or> wp_closed s \<or> wp_closing s \<or> wp_skip_cause s \<noteq> 0
          then Inr (False, s)
          else bindR (skip_routes (op_suite operation) s) (\<lambda>(routes, omitted).
               bindR (worker_Complete operation True s) (\<lambda>(completed, s).
                 if \<not> completed then Inr (False, s)
                 else Inr (True, s\<lparr>wp_routes := routes, wp_skip_cause := cause, wp_skipped_tests := omitted\<rparr>))))"

definition worker_WorkerClosed :: "int \<Rightarrow> bool \<Rightarrow> worker_plan \<Rightarrow> bool \<times> worker_plan" where
  "worker_WorkerClosed pid exited s =
     (if pid \<noteq> wp_worker s \<or> \<not> exited then (False, s)
      else (True, s\<lparr>wp_pending := None, wp_active := [], wp_closed := True, wp_closing := False\<rparr>))"

definition RetireAfterCurrentTest :: "worker_plan \<Rightarrow> worker_plan result" where
  "RetireAfterCurrentTest s =
     (if wp_pending s \<noteq> None then suite_error ''Cannot retire a native suite with an outstanding operation''
      else Inr (s\<lparr>wp_retire := True, wp_exit_remaining := length (wp_active s), wp_closing := (wp_active s \<noteq> [])\<rparr>))"

definition worker_HasClosures :: "worker_plan \<Rightarrow> bool" where
  "worker_HasClosures s = wp_closing s"

definition worker_NeedsRetirement :: "worker_plan \<Rightarrow> bool" where
  "worker_NeedsRetirement s = wp_retire s"

definition worker_AwaitingResult :: "worker_plan \<Rightarrow> bool" where
  "worker_AwaitingResult s = (wp_pending s \<noteq> None)"

section \<open>Routes to come\<close>

lemma block_Cons_iff:
  "block P (x # xs) \<longleftrightarrow> (if P x then \<exists>b c. xs = b @ c \<and> (\<forall>y \<in> set b. P y) \<and> (\<forall>y \<in> set c. \<not> P y) else block P xs)"
proof (cases "P x")
  case True
  have "\<exists>b c. xs = b @ c \<and> (\<forall>y \<in> set b. P y) \<and> (\<forall>y \<in> set c. \<not> P y)" if bl: "block P (x # xs)"
  proof -
    obtain a b c where x: "x # xs = a @ b @ c" "\<forall>x \<in> set b. P x" "\<forall>x \<in> set a \<union> set c. \<not> P x" using bl by (auto simp: block_def)
    then have "a = []" using True by (cases a) auto
    moreover have "b \<noteq> []" using x True calculation by auto
    ultimately obtain b' where "b = x # b'" using x(1) by (cases b) auto
    then show ?thesis using x \<open>a = []\<close> by (intro exI [of _ b'] exI [of _ c]) auto
  qed
  moreover have "block P (x # xs)" if "xs = b @ c" "\<forall>y \<in> set b. P y" "\<forall>y \<in> set c. \<not> P y" for b c
    using True that by (intro blockI [of _ "[]" "x # b" c]) auto
  ultimately have "block P (x # xs) \<longleftrightarrow> (\<exists>b c. xs = b @ c \<and> (\<forall>y \<in> set b. P y) \<and> (\<forall>y \<in> set c. \<not> P y))" by (intro iffI) (assumption | blast)+
  then show ?thesis using True by simp
next
  case False
  have "block P (x # xs)" if bl: "block P xs"
  proof -
    obtain a b c where "xs = a @ b @ c" "\<forall>x \<in> set b. P x" "\<forall>x \<in> set a \<union> set c. \<not> P x" using bl by (auto simp: block_def)
    then show ?thesis using False by (intro blockI [of _ "x # a" b c]) auto
  qed
  then show ?thesis using False block_tl [of P x xs] by auto
qed

lemma routes_ok_Nil [simp]: "routes_ok T []"
  by (simp add: routes_ok_def block_none)

lemma routes_ok_tl: "routes_ok T (r # rs) \<Longrightarrow> routes_ok T rs"
  by (auto simp: routes_ok_def intro: block_tl)

lemma ends_ok_suffix: "ends_ok (b @ c) \<Longrightarrow> ends_ok c"
  by (induction b) auto

text \<open>A route ends a tail of its suites; what is left the next route begins with.\<close>

lemma ends_step:
  assumes "tree_ok T" "routes_ok T (r # rs)"
  shows "\<exists>c. ro_ancestors r = c @ rev (ro_finish_suites r) \<and> (if rs = [] then c = [] else \<exists>v. ro_ancestors (hd rs) = c @ v)"
proof (cases rs)
  case (Cons r' rs')
  have "path T (ro_ancestors r)" "path T (ro_ancestors r')" using assms(2) Cons by (simp_all add: routes_ok_def)
  from path_part [OF assms(1) this] obtain c u v
    where p: "ro_ancestors r = c @ u" "ro_ancestors r' = c @ v" "set u \<inter> set (ro_ancestors r') = {}" by blast
  have "ro_finish_suites r = rev u" using assms(2) Cons p by (auto simp: routes_ok_def filter_empty_conv intro!: filter_True)
  then show ?thesis using p Cons by auto
qed (use assms(2) in \<open>auto simp: routes_ok_def\<close>)

lemma shared_prefix_part: "set u \<inter> set (c @ v) = {} \<Longrightarrow> shared_prefix (c @ u) (c @ v) = length c"
proof (induction c)
  case Nil
  then show ?case by (cases u; cases v) auto
qed auto

lemma skip_ok:
  assumes "tree_ok T" "routes_ok T (r # rs)" "ro_ancestors r = p @ q" "p \<noteq> []"
  defines "rs' \<equiv> filter (\<lambda>r. last p \<notin> set (ro_ancestors r)) rs"
  assumes r': "ro_ancestors r' = p" "ro_finish_suites r' = rev (drop (if rs' = [] then 0 else shared_prefix p (ro_ancestors (hd rs'))) p)"
  shows "routes_ok T (r' # rs')" "rs = filter (\<lambda>r. last p \<in> set (ro_ancestors r)) rs @ rs'"
proof -
  let ?s = "last p"
  have s: "?s \<in> set (ro_ancestors r)" using assms(3,4) by simp
  have "block (\<lambda>r. ?s \<in> set (ro_ancestors r)) (r # rs)" using assms(2) by (simp add: routes_ok_def)
  then obtain b c where bc: "rs = b @ c" "\<forall>y \<in> set b. ?s \<in> set (ro_ancestors y)" "\<forall>y \<in> set c. ?s \<notin> set (ro_ancestors y)"
    unfolding block_Cons_iff using s by auto
  have rs': "rs' = c" "filter (\<lambda>r. ?s \<in> set (ro_ancestors r)) rs = b" using bc by (simp_all add: rs'_def filter_empty_conv)
  then show "rs = filter (\<lambda>r. last p \<in> set (ro_ancestors r)) rs @ rs'" using bc(1) by simp
  have "p @ q = butlast p @ [?s] @ q" using append_butlast_last_id [OF assms(4)] by (metis append.assoc)
  moreover have "path T (p @ q)" using assms(2,3) by (simp add: routes_ok_def)
  ultimately have "path T (butlast p @ [?s] @ q)" by metis
  then have path: "path T p" using path_prefix [OF assms(1)] append_butlast_last_id [OF assms(4)] by metis
  have paths: "\<forall>x \<in> set rs'. path T (ro_ancestors x)" using assms(2) by (auto simp: routes_ok_def rs'_def)
  have block: "block (\<lambda>r. u \<in> set (ro_ancestors r)) (r' # rs')" for u
  proof -
    have old: "block (\<lambda>r. u \<in> set (ro_ancestors r)) (r # rs)" using assms(2) by (simp add: routes_ok_def)
    show ?thesis
    proof (cases "u \<in> set p")
      case True
      then obtain d e where "rs = d @ e" "\<forall>y \<in> set d. u \<in> set (ro_ancestors y)" "\<forall>y \<in> set e. u \<notin> set (ro_ancestors y)"
        using old assms(3) unfolding block_Cons_iff by auto
      then have "\<exists>d e. rs' = d @ e \<and> (\<forall>y \<in> set d. u \<in> set (ro_ancestors y)) \<and> (\<forall>y \<in> set e. u \<notin> set (ro_ancestors y))"
        by - (rule exI [of _ "filter (\<lambda>r. ?s \<notin> set (ro_ancestors r)) d"], rule exI [of _ "filter (\<lambda>r. ?s \<notin> set (ro_ancestors r)) e"], simp add: rs'_def)
      then show ?thesis unfolding block_Cons_iff using True r'(1) by simp
    next
      case False
      then show ?thesis
        unfolding block_Cons_iff using r'(1) block_filter [OF block_tl [OF old]] rs'_def by simp
    qed
  qed
  have "ro_finish_suites r' = filter (\<lambda>s. rs' = [] \<or> s \<notin> set (ro_ancestors (hd rs'))) (rev p)"
  proof (cases rs')
    case (Cons r2 rs2)
    have "path T (ro_ancestors r2)" using paths Cons by simp
    from path_part [OF assms(1) path this] obtain c u v
      where p: "p = c @ u" "ro_ancestors r2 = c @ v" "set u \<inter> set (ro_ancestors r2) = {}" by blast
    have "shared_prefix p (ro_ancestors r2) = length c" using shared_prefix_part [of u c v] p by simp
    moreover have "filter (\<lambda>s. s \<notin> set (ro_ancestors r2)) (rev p) = rev u" using p by (auto simp: filter_empty_conv intro!: filter_True)
    ultimately show ?thesis using r'(2) p(1) Cons by simp
  qed (use r' in simp)
  moreover have "ends_ok rs'" using assms(2) ends_ok_suffix [of b c] bc(1) rs'(1) by (simp add: routes_ok_def)
  ultimately show "routes_ok T (r' # rs')" using path paths block r'(1) by (simp add: routes_ok_def)
qed

section \<open>The invariant\<close>

text \<open>The routes from the current one on, and the current one.\<close>

abbreviation ahead :: "worker_plan \<Rightarrow> route list" where
  "ahead s \<equiv> drop (wp_index s) (wp_routes s)"

abbreviation now_route :: "worker_plan \<Rightarrow> route" where
  "now_route s \<equiv> wp_routes s ! wp_index s"

text \<open>While suites are left: all of them after a failure, else those the current route ends.\<close>

definition closing_ok :: "worker_plan \<Rightarrow> bool" where
  "closing_ok s \<longleftrightarrow>
     wp_index s < length (wp_routes s) \<and> wp_active s \<noteq> [] \<and> 0 < wp_exit_remaining s \<and>
     (if wp_retire s then wp_exit_remaining s = length (wp_active s)
      else wp_skip_cause s = 0 \<and> length (wp_active s) + length (ro_finish_suites (now_route s)) = length (ro_ancestors (now_route s)) + wp_exit_remaining s)"

definition pending_ok :: "worker_plan \<Rightarrow> operation \<Rightarrow> bool" where
  "pending_ok s operation \<longleftrightarrow>
     op_epoch operation = wp_epoch s \<and> wp_index s < length (wp_routes s) \<and> wp_active s \<noteq> [] \<and> op_suite operation = last (wp_active s) \<and>
     op_test operation = ro_test (now_route s) \<and>
     (wp_closing s \<longleftrightarrow> op_kind operation = OpAfterAll) \<and> (op_kind operation \<noteq> OpAfterAll \<longrightarrow> \<not> wp_retire s) \<and>
     (op_kind operation = OpTest \<or> op_kind operation = OpSkippedTest \<longrightarrow> wp_active s = ro_ancestors (now_route s)) \<and>
     (op_kind operation = OpSkippedTest \<longrightarrow> wp_skip_cause s \<noteq> 0 \<and> op_skip_cause operation = wp_skip_cause s \<and> op_skipped_tests operation = wp_skipped_tests s) \<and>
     (op_kind operation = OpTest \<or> op_kind operation = OpBeforeAll \<longrightarrow> wp_skip_cause s = 0) \<and>
     (op_kind operation \<noteq> OpSkippedTest \<longrightarrow> op_skip_cause operation = 0 \<and> op_skipped_tests operation = [])"

definition worker_ok :: "worker_plan \<Rightarrow> bool" where
  "worker_ok s \<longleftrightarrow>
     tree_ok (wp_tree s) \<and> wp_index s \<le> length (wp_routes s) \<and> routes_ok (wp_tree s) (ahead s) \<and>
     (if wp_index s < length (wp_routes s) then \<exists>q. ro_ancestors (now_route s) = wp_active s @ q else wp_active s = []) \<and>
     (wp_closing s \<longrightarrow> closing_ok s) \<and>
     (wp_closed s \<longrightarrow> wp_active s = [] \<and> wp_pending s = None) \<and>
     (wp_retire s \<longrightarrow> \<not> wp_closing s \<longrightarrow> wp_active s = [] \<and> wp_pending s = None) \<and>
     (\<forall>operation. wp_pending s = Some operation \<longrightarrow> pending_ok s operation) \<and>
     (wp_skip_cause s \<noteq> 0 \<longrightarrow> wp_retire s \<or> wp_closed s \<or> wp_index s < length (wp_routes s) \<and> wp_active s = ro_ancestors (now_route s)) \<and>
     (wp_skip_cause s = 0 \<longrightarrow> wp_skipped_tests s = [])"

lemma worker_okD:
  assumes "worker_ok s"
  shows "tree_ok (wp_tree s)" "wp_index s \<le> length (wp_routes s)" "routes_ok (wp_tree s) (ahead s)"
    "wp_index s < length (wp_routes s) \<Longrightarrow> \<exists>q. ro_ancestors (now_route s) = wp_active s @ q"
    "\<not> wp_index s < length (wp_routes s) \<Longrightarrow> wp_active s = []"
    "wp_closing s \<Longrightarrow> closing_ok s" "wp_closed s \<Longrightarrow> wp_active s = [] \<and> wp_pending s = None"
    "wp_retire s \<Longrightarrow> \<not> wp_closing s \<Longrightarrow> wp_active s = [] \<and> wp_pending s = None"
    "\<And>operation. wp_pending s = Some operation \<Longrightarrow> pending_ok s operation"
    "wp_skip_cause s \<noteq> 0 \<Longrightarrow> wp_retire s \<or> wp_closed s \<or> wp_index s < length (wp_routes s) \<and> wp_active s = ro_ancestors (now_route s)"
    "wp_skip_cause s = 0 \<Longrightarrow> wp_skipped_tests s = []"
  using assms unfolding worker_ok_def by - (elim conjE, (assumption | simp))+

lemma ahead_Cons: "wp_index s < length (wp_routes s) \<Longrightarrow> ahead s = now_route s # drop (Suc (wp_index s)) (wp_routes s)"
  by (simp add: Cons_nth_drop_Suc)

lemma active_nodes:
  assumes "worker_ok s" "a \<in> set (wp_active s)"
  shows "map_of (tr_nodes (wp_tree s)) a \<noteq> None"
proof -
  note w = worker_okD [OF assms(1)]
  have i: "wp_index s < length (wp_routes s)" by (rule ccontr) (use w(5) assms(2) in auto)
  have "path (wp_tree s) (ro_ancestors (now_route s))" using w(3) unfolding ahead_Cons [OF i] by (simp add: routes_ok_def)
  moreover have "a \<in> set (ro_ancestors (now_route s))" using w(4) [OF i] assms(2) by auto
  ultimately show ?thesis using path_nodes [OF w(1)] by blast
qed

lemma route_nodes:
  assumes "worker_ok s" "wp_index s < length (wp_routes s)"
  shows "\<And>a. a \<in> set (ro_ancestors (now_route s)) \<Longrightarrow> map_of (tr_nodes (wp_tree s)) a \<noteq> None" "ro_ancestors (now_route s) \<noteq> []"
proof -
  note w = worker_okD [OF assms(1)]
  have p: "path (wp_tree s) (ro_ancestors (now_route s))" using w(3) unfolding ahead_Cons [OF assms(2)] by (simp add: routes_ok_def)
  show "\<And>a. a \<in> set (ro_ancestors (now_route s)) \<Longrightarrow> map_of (tr_nodes (wp_tree s)) a \<noteq> None" using path_nodes [OF w(1) p] by blast
  show "ro_ancestors (now_route s) \<noteq> []" using path_nonempty [OF w(1) p] .
qed

text \<open>When all suites the current route ends are left, the next route becomes current.\<close>

lemma advance_ok:
  assumes "worker_ok s" "wp_index s < length (wp_routes s)" "ro_ancestors (now_route s) = a @ rev (ro_finish_suites (now_route s))"
  shows "Suc (wp_index s) \<le> length (wp_routes s)" "routes_ok (wp_tree s) (drop (Suc (wp_index s)) (wp_routes s))"
    "if Suc (wp_index s) < length (wp_routes s) then \<exists>q. ro_ancestors (wp_routes s ! Suc (wp_index s)) = a @ q else a = []"
proof -
  note w = worker_okD [OF assms(1)]
  have r: "routes_ok (wp_tree s) (now_route s # drop (Suc (wp_index s)) (wp_routes s))" using w(3) unfolding ahead_Cons [OF assms(2)] .
  show "Suc (wp_index s) \<le> length (wp_routes s)" using assms(2) by simp
  show "routes_ok (wp_tree s) (drop (Suc (wp_index s)) (wp_routes s))" using routes_ok_tl [OF r] .
  obtain c where c: "ro_ancestors (now_route s) = c @ rev (ro_finish_suites (now_route s))"
    "if drop (Suc (wp_index s)) (wp_routes s) = [] then c = [] else \<exists>v. ro_ancestors (hd (drop (Suc (wp_index s)) (wp_routes s))) = c @ v"
    using ends_step [OF w(1) r] by blast
  have "c = a" using c(1) assms(3) by simp
  then show "if Suc (wp_index s) < length (wp_routes s) then \<exists>q. ro_ancestors (wp_routes s ! Suc (wp_index s)) = a @ q else a = []"
    using c(2) by (auto simp: hd_drop_conv_nth split: if_splits)
qed

section \<open>Handing out an operation\<close>

definition issued :: "worker_plan \<Rightarrow> operation \<Rightarrow> worker_plan" where
  "issued s operation = s\<lparr>wp_nonce := wp_nonce s + 1, wp_pending := Some operation,
     wp_active := (if op_kind operation = OpBeforeAll then wp_active s @ [op_suite operation] else wp_active s)\<rparr>"

lemma issued_other: "op_kind operation \<noteq> OpBeforeAll \<Longrightarrow> issued s operation = s\<lparr>wp_nonce := wp_nonce s + 1, wp_pending := Some operation\<rparr>"
  by (simp add: issued_def)

lemma issued_ok:
  assumes "worker_ok s" "wp_pending s = None" "\<not> wp_closed s" "pending_ok (issued s operation) operation"
    "op_kind operation = OpBeforeAll \<Longrightarrow> \<exists>q. ro_ancestors (now_route s) = wp_active s @ [op_suite operation] @ q"
    "wp_closing s \<or> \<not> wp_retire s"
  shows "worker_ok (issued s operation)"
proof -
  note w = worker_okD [OF assms(1)]
  have i: "wp_index s < length (wp_routes s)" using assms(4) by (simp add: pending_ok_def issued_def)
  have k: "wp_closing s \<longleftrightarrow> op_kind operation = OpAfterAll" "op_kind operation \<noteq> OpAfterAll \<longrightarrow> \<not> wp_retire s"
    "op_kind operation = OpBeforeAll \<longrightarrow> wp_skip_cause s = 0" using assms(4) by (simp_all add: pending_ok_def issued_def)
  have "\<exists>q. ro_ancestors (now_route s) = wp_active (issued s operation) @ q"
    using w(4) [OF i] assms(5) by (auto simp: issued_def)
  moreover have "closing_ok (issued s operation)" if "wp_closing s"
    using w(6) [OF that] k(1) that by (simp add: closing_ok_def issued_def)
  moreover have "wp_skip_cause s \<noteq> 0 \<Longrightarrow> wp_retire s \<or> wp_active (issued s operation) = ro_ancestors (now_route s)"
    using w(10) assms(3) k(3) by (auto simp: issued_def)
  ultimately show ?thesis
    using w(1,2,3,11) i assms(3,4,6) k unfolding worker_ok_def by (simp add: issued_def) blast
qed

text \<open>The errors of the operations that a history can reach.\<close>

definition awaiting :: error where
  "awaiting = Runtime_error ''Native suite operation still awaiting its actual result''"

definition exhausted :: error where
  "exhausted = Runtime_error ''Native suite operation identity exhausted''"

text \<open>An operation as \<open>Admit\<close> builds it.\<close>

definition fresh_op :: "worker_plan \<Rightarrow> op_kind \<Rightarrow> nat \<Rightarrow> nat \<Rightarrow> nat list \<Rightarrow> nat list \<Rightarrow> nat list \<Rightarrow> operation" where
  "fresh_op s kind suite test callbacks before_each after_each =
     \<lparr>op_kind = kind, op_epoch = wp_epoch s, op_token = wp_nonce s + 1, op_suite = suite, op_test = test, op_callbacks = callbacks,
      op_before_each = before_each, op_after_each = after_each, op_skip_cause = 0, op_skipped_tests = []\<rparr>"

lemma Admit_eq:
  "Admit kind suite test callbacks before_each after_each s =
     (if wp_nonce s = u64_max then Inl exhausted
      else Inr (fresh_op s kind suite test callbacks before_each after_each,
                s\<lparr>wp_nonce := wp_nonce s + 1, wp_pending := Some (fresh_op s kind suite test callbacks before_each after_each)\<rparr>))"
  by (simp add: Admit_def Let_def suite_error_def exhausted_def fresh_op_def)

lemma fresh_op_simps [simp]:
  "op_kind (fresh_op s kind suite test cs bs as) = kind" "op_epoch (fresh_op s kind suite test cs bs as) = wp_epoch s"
  "op_suite (fresh_op s kind suite test cs bs as) = suite" "op_test (fresh_op s kind suite test cs bs as) = test"
  "op_callbacks (fresh_op s kind suite test cs bs as) = cs" "op_before_each (fresh_op s kind suite test cs bs as) = bs"
  "op_after_each (fresh_op s kind suite test cs bs as) = as" "op_skip_cause (fresh_op s kind suite test cs bs as) = 0"
  "op_skipped_tests (fresh_op s kind suite test cs bs as) = []" "fresh_op (s\<lparr>wp_active := a\<rparr>) kind suite test cs bs as = fresh_op s kind suite test cs bs as"
  by (simp_all add: fresh_op_def)

text \<open>The callbacks an operation carries, and the branch it belongs to.\<close>

definition carries :: "worker_plan \<Rightarrow> operation \<Rightarrow> bool" where
  "carries s operation \<longleftrightarrow>
     op_callbacks operation =
       (case op_kind operation of
          OpBeforeAll \<Rightarrow> hooks_of (wp_tree s) BeforeAll (op_suite operation)
        | OpAfterAll \<Rightarrow> hooks_of (wp_tree s) AfterAll (op_suite operation)
        | _ \<Rightarrow> []) \<and>
     (op_kind operation = OpTest \<longrightarrow> op_before_each operation = ro_before_each (now_route s) \<and> op_after_each operation = ro_after_each (now_route s))"

definition next_post :: "worker_plan \<Rightarrow> operation option \<Rightarrow> worker_plan \<Rightarrow> bool" where
  "next_post s result s' \<longleftrightarrow>
     wp_pending s = None \<and>
     (case result of
        None \<Rightarrow> s' = s \<and> (wp_closed s \<or> \<not> wp_closing s \<and> (wp_retire s \<or> length (wp_routes s) \<le> wp_index s))
      | Some operation \<Rightarrow> \<not> wp_closed s \<and> s' = issued s operation \<and> worker_ok s' \<and> carries s operation)"

lemma next_route_ok:
  assumes "worker_ok s" "wp_pending s = None" "\<not> wp_closed s" "\<not> wp_closing s" "\<not> wp_retire s" "wp_index s < length (wp_routes s)"
  shows "wpR (\<lambda>e. e = exhausted \<and> wp_nonce s = u64_max) (\<lambda>(result, s'). next_post s result s') (next_route s)"
proof -
  note w = worker_okD [OF assms(1)] and rn = route_nodes [OF assms(1,6)]
  obtain q where q: "ro_ancestors (now_route s) = wp_active s @ q" using w(4) [OF assms(6)] by blast
  have skip: "wp_skip_cause s \<noteq> 0 \<Longrightarrow> wp_active s = ro_ancestors (now_route s)" using w(10) assms(3,5) by blast
  have post: "next_post s (Some operation) (issued s operation)"
    if "pending_ok (issued s operation) operation" "carries s operation"
      "op_kind operation = OpBeforeAll \<Longrightarrow> \<exists>q. ro_ancestors (now_route s) = wp_active s @ [op_suite operation] @ q" for operation
    using issued_ok [OF assms(1,2,3) that(1,3)] that(2) assms by (simp add: next_post_def)
  show ?thesis
  proof (cases "wp_nonce s = u64_max")
    case True
    have "wp_active s = [] \<Longrightarrow> wp_skip_cause s = 0" using skip rn(2) by auto
    then show ?thesis using True assms(6) q rn(2) by (auto simp: next_route_def backR_def Admit_eq suite_error_def exhausted_def)
  next
    case nonce: False
    consider "wp_skip_cause s \<noteq> 0" | "wp_skip_cause s = 0" "q = []" | suite q' where "wp_skip_cause s = 0" "q = suite # q'" by (cases q) auto
    then show ?thesis
    proof cases
      case 1
      then have a: "ro_ancestors (now_route s) = wp_active s" "wp_active s \<noteq> []" using skip rn(2) by simp_all
      let ?op = "(fresh_op s OpSkippedTest (last (wp_active s)) (ro_test (now_route s)) [] [] [])\<lparr>op_skip_cause := wp_skip_cause s, op_skipped_tests := wp_skipped_tests s\<rparr>"
      have "next_route s = Inr (Some ?op, issued s ?op)"
        using assms(6) a 1 nonce by (simp add: next_route_def atR_def backR_def Admit_eq issued_other Let_def)
      moreover have "pending_ok (issued s ?op) ?op" using assms a 1 by (simp add: pending_ok_def issued_def)
      moreover have "carries s ?op" by (simp add: carries_def)
      ultimately show ?thesis using post [of ?op] by simp
    next
      case 2
      then have a: "ro_ancestors (now_route s) = wp_active s" "wp_active s \<noteq> []" using q rn(2) by simp_all
      let ?op = "fresh_op s OpTest (last (wp_active s)) (ro_test (now_route s)) [] (ro_before_each (now_route s)) (ro_after_each (now_route s))"
      have "next_route s = Inr (Some ?op, issued s ?op)"
        using assms(6) a 2 nonce by (simp add: next_route_def atR_def backR_def Admit_eq issued_other some_op_def)
      moreover have "pending_ok (issued s ?op) ?op" using assms a 2 by (simp add: pending_ok_def issued_def)
      moreover have "carries s ?op" by (simp add: carries_def)
      ultimately show ?thesis using post [of ?op] by simp
    next
      case (3 suite q')
      have known: "suite_Hooks (wp_tree s) suite BeforeAll = Inr (hooks_of (wp_tree s) BeforeAll suite)"
        using rn(1) [of suite] q 3(2) by (intro suite_Hooks_known) simp
      let ?op = "fresh_op s OpBeforeAll suite (ro_test (now_route s)) (hooks_of (wp_tree s) BeforeAll suite) [] []"
      have "next_route s = Inr (Some ?op, issued s ?op)"
        using assms(6) q 3 nonce known by (simp add: next_route_def atR_def Admit_eq issued_def some_op_def Let_def)
      moreover have "pending_ok (issued s ?op) ?op" using assms q 3 by (simp add: pending_ok_def issued_def)
      moreover have "carries s ?op" by (simp add: carries_def)
      ultimately show ?thesis using post [of ?op] q 3 by simp
    qed
  qed
qed

lemma worker_Next_ok:
  assumes "worker_ok s"
  shows "wpR (\<lambda>e. e = awaiting \<and> wp_pending s \<noteq> None \<or> e = exhausted \<and> wp_nonce s = u64_max) (\<lambda>(result, s'). next_post s result s') (worker_Next s)"
proof -
  note w = worker_okD [OF assms]
  consider "wp_pending s \<noteq> None" | "wp_pending s = None" "wp_closed s" | "wp_pending s = None" "\<not> wp_closed s" "wp_closing s"
    | "wp_pending s = None" "\<not> wp_closed s" "\<not> wp_closing s" "wp_retire s \<or> length (wp_routes s) \<le> wp_index s"
    | "wp_pending s = None" "\<not> wp_closed s" "\<not> wp_closing s" "\<not> wp_retire s" "wp_index s < length (wp_routes s)" by linarith
  then show ?thesis
  proof cases
    case 3
    have c: "wp_index s < length (wp_routes s)" "wp_active s \<noteq> []" using w(6) [OF 3(3)] by (simp_all add: closing_ok_def)
    let ?a = "last (wp_active s)"
    have known: "suite_Hooks (wp_tree s) ?a AfterAll = Inr (hooks_of (wp_tree s) AfterAll ?a)"
      using active_nodes [OF assms, of ?a] c(2) by (intro suite_Hooks_known) simp
    let ?op = "fresh_op s OpAfterAll ?a (ro_test (now_route s)) (hooks_of (wp_tree s) AfterAll ?a) [] []"
    have e: "worker_Next s = (if wp_nonce s = u64_max then Inl exhausted else Inr (Some ?op, issued s ?op))"
      using 3 c known by (simp add: worker_Next_def atR_def Admit_eq issued_other some_op_def)
    have "pending_ok (issued s ?op) ?op" using 3 c by (simp add: pending_ok_def issued_def)
    then have "worker_ok (issued s ?op)" using 3 by (intro issued_ok [OF assms]) simp_all
    then have "next_post s (Some ?op) (issued s ?op)" using 3 by (simp add: next_post_def carries_def)
    then show ?thesis unfolding e by simp
  next
    case 5
    then have "worker_Next s = next_route s" by (simp add: worker_Next_def)
    then show ?thesis using next_route_ok [OF assms 5(1,2,3,4,5)] by (auto elim: wpR_mono2)
  qed (simp_all add: worker_Next_def suite_error_def awaiting_def next_post_def)
qed

section \<open>Answering an operation\<close>

definition failure_capacity :: error where
  "failure_capacity = Runtime_error ''Native suite failure capacity exceeded''"

text \<open>The tests an answered operation accounts for, and those that are still to come.\<close>

definition reported :: "operation \<Rightarrow> nat list" where
  "reported operation = (case op_kind operation of OpTest \<Rightarrow> [op_test operation] | OpSkippedTest \<Rightarrow> op_test operation # op_skipped_tests operation | _ \<Rightarrow> [])"

definition todo :: "worker_plan \<Rightarrow> nat list" where
  "todo s =
     (if wp_closing s then map ro_test (drop (Suc (wp_index s)) (wp_routes s))
      else if wp_index s < length (wp_routes s) then ro_test (now_route s) # wp_skipped_tests s @ map ro_test (drop (Suc (wp_index s)) (wp_routes s))
      else [])"

text \<open>The plan when the answer has been noted, before it has its effect.\<close>

definition noted :: "worker_plan \<Rightarrow> operation \<Rightarrow> bool \<Rightarrow> worker_plan" where
  "noted s pending ok = s\<lparr>wp_failures := wp_failures s @ (if ok then [] else [pending]), wp_retire := (wp_retire s \<or> \<not> ok), wp_pending := None\<rparr>"

lemma noted_simps:
  "wp_active (noted s pending ok) = wp_active s" "wp_exit_remaining (noted s pending ok) = wp_exit_remaining s" "wp_closing (noted s pending ok) = wp_closing s"
  "wp_index (noted s pending ok) = wp_index s" "wp_retire (noted s pending ok) = (wp_retire s \<or> \<not> ok)"
  by (simp_all add: noted_def)

definition complete_post :: "worker_plan \<Rightarrow> operation \<Rightarrow> bool \<Rightarrow> worker_plan \<Rightarrow> bool" where
  "complete_post s pending ok s' \<longleftrightarrow>
     worker_ok s' \<and> wp_pending s' = None \<and> wp_tree s' = wp_tree s \<and> wp_routes s' = wp_routes s \<and> wp_closed s' = wp_closed s \<and>
     wp_retire s' = (wp_retire s \<or> \<not> ok) \<and>
     wp_active s' = (if op_kind pending = OpAfterAll then butlast (wp_active s) else wp_active s) \<and>
     (wp_retire s' \<or> wp_index s' = Suc (wp_index s) \<or>
      wp_index s' = wp_index s \<and> (wp_closing s' \<or> \<not> wp_closing s \<and> wp_skip_cause s' = wp_skip_cause s)) \<and>
     (if wp_retire s then reported pending = []
      else \<exists>later. todo s = reported pending @ later \<and> (ok \<longrightarrow> later = todo s'))"

text \<open>After a failure every suite that was entered is left.\<close>

lemma retiring_ok:
  assumes "worker_ok s" "wp_index s < length (wp_routes s)" "\<not> wp_closed s" "wp_retire s'" "wp_pending s' = None" "wp_tree s' = wp_tree s" "wp_routes s' = wp_routes s" "wp_index s' = wp_index s"
    "\<exists>q. ro_ancestors (now_route s) = wp_active s' @ q" "wp_closing s' \<longleftrightarrow> wp_active s' \<noteq> []" "wp_exit_remaining s' = length (wp_active s')"
    "wp_closed s' = wp_closed s" "wp_skip_cause s' = 0 \<Longrightarrow> wp_skipped_tests s' = []"
  shows "worker_ok s'"
  using worker_okD(1,2,3) [OF assms(1)] assms(2-13) unfolding worker_ok_def closing_ok_def by simp

lemma complete_before_all:
  assumes "worker_ok s" "wp_pending s = Some pending" "op_kind pending = OpBeforeAll"
  shows "wpR (\<lambda>_. False) (complete_post s pending ok) (complete_kind operation OpBeforeAll ok (noted s pending ok))"
proof -
  note w = worker_okD [OF assms(1)]
  have p: "wp_index s < length (wp_routes s)" "wp_active s \<noteq> []" "\<not> wp_closing s" "\<not> wp_retire s" "wp_skip_cause s = 0" "\<not> wp_closed s"
    using w(9) [OF assms(2)] w(7) assms(2,3) by (auto simp: pending_ok_def)
  show ?thesis
  proof (cases ok)
    case True
    have "worker_ok (noted s pending ok)" using w(1,2,3,4,11) p True unfolding worker_ok_def noted_def by simp
    then show ?thesis
      using True p by (simp add: complete_kind_def complete_post_def) (simp add: noted_def reported_def assms(3) todo_def)
  next
    case False
    let ?s = "(noted s pending ok)\<lparr>wp_closing := True, wp_exit_remaining := length (wp_active (noted s pending ok))\<rparr>"
    have "worker_ok ?s"
      by (rule retiring_ok [OF assms(1) p(1,6)]) (use False p w(4,11) in \<open>simp_all add: noted_def\<close>)
    then show ?thesis
      using False p by (simp add: complete_kind_def complete_post_def) (simp add: noted_def reported_def assms(3))
  qed
qed

lemma todo_advance:
  "wp_index s < length (wp_routes s) \<Longrightarrow> wp_routes s' = wp_routes s \<Longrightarrow> wp_skipped_tests s' = [] \<Longrightarrow>
     wp_closing s' \<and> wp_index s' = wp_index s \<or> \<not> wp_closing s' \<and> wp_index s' = Suc (wp_index s) \<Longrightarrow>
     todo s' = map ro_test (drop (Suc (wp_index s)) (wp_routes s))"
  by (cases "Suc (wp_index s) < length (wp_routes s)") (auto simp: todo_def Cons_nth_drop_Suc [symmetric])

lemma complete_test:
  assumes "worker_ok s" "wp_pending s = Some pending" "op_kind pending = kind" "kind = OpTest \<or> kind = OpSkippedTest"
  shows "wpR (\<lambda>_. False) (complete_post s pending ok) (complete_kind operation kind ok (noted s pending ok))"
proof -
  note w = worker_okD [OF assms(1)]
  have p: "wp_index s < length (wp_routes s)" "wp_active s \<noteq> []" "\<not> wp_closing s" "\<not> wp_retire s" "\<not> wp_closed s" "wp_active s = ro_ancestors (now_route s)"
    "op_test pending = ro_test (now_route s)" "kind = OpTest \<Longrightarrow> wp_skip_cause s = 0" "kind = OpSkippedTest \<Longrightarrow> op_skipped_tests pending = wp_skipped_tests s"
    using w(9) [OF assms(2)] w(7) assms(2,3,4) by (auto simp: pending_ok_def)
  have rep: "reported pending = ro_test (now_route s) # wp_skipped_tests s"
    using assms(3,4) p w(11) by (auto simp: reported_def)
  define remaining where "remaining = (if ok then length (ro_finish_suites (now_route s)) else length (wp_active s))"
  define s' where "s' = (noted s pending ok)\<lparr>wp_skip_cause := 0, wp_skipped_tests := [], wp_exit_remaining := remaining, wp_closing := (remaining \<noteq> 0),
    wp_index := (if remaining = 0 then wp_index s + 1 else wp_index s)\<rparr>"
  have c: "complete_kind operation kind ok (noted s pending ok) = Inr s'"
    using assms(4) p w(11) by (auto simp: complete_kind_def noted_def s'_def remaining_def atR_def)
  have f: "wp_pending s' = None" "wp_tree s' = wp_tree s" "wp_routes s' = wp_routes s" "wp_closed s' = wp_closed s" "wp_retire s' = (\<not> ok)" "wp_active s' = wp_active s"
    "wp_skip_cause s' = 0" "wp_skipped_tests s' = []" "wp_exit_remaining s' = remaining" "wp_closing s' = (remaining \<noteq> 0)" "wp_index s' = (if remaining = 0 then wp_index s + 1 else wp_index s)"
    using p(4) by (simp_all add: s'_def noted_def)
  have ok': "worker_ok s'"
  proof (cases ok)
    case False
    then show ?thesis by (intro retiring_ok [OF assms(1) p(1,5)]) (use f p in \<open>simp_all add: remaining_def\<close>)
  next
    case True
    show ?thesis
    proof (cases "remaining = 0")
      case zero: True
      then have "ro_ancestors (now_route s) = wp_active s @ rev (ro_finish_suites (now_route s))" using True p(6) by (simp add: remaining_def)
      note adv = advance_ok [OF assms(1) p(1) this]
      then have "Suc (wp_index s) < length (wp_routes s)" "\<exists>q. ro_ancestors (wp_routes s ! Suc (wp_index s)) = wp_active s @ q" using p(2) by (auto split: if_splits)
      then show ?thesis using adv(2) w(1) f p(4,5) zero True unfolding worker_ok_def by simp
    next
      case False
      then have "closing_ok s'" using f p True by (simp add: closing_ok_def remaining_def)
      then show ?thesis using w(1,2,3,4) f p False True unfolding worker_ok_def by simp
    qed
  qed
  have "todo s = reported pending @ map ro_test (drop (Suc (wp_index s)) (wp_routes s))" using rep p by (simp add: todo_def)
  moreover have "todo s' = map ro_test (drop (Suc (wp_index s)) (wp_routes s))" by (rule todo_advance [OF p(1) f(3,8)]) (simp add: f)
  moreover have "op_kind pending \<noteq> OpAfterAll" using assms(3,4) by auto
  ultimately have "complete_post s pending ok s'" using ok' f p(4) by (simp add: complete_post_def)
  then show ?thesis unfolding c by simp
qed

lemma complete_after_all:
  assumes "worker_ok s" "wp_pending s = Some pending" "op_kind pending = OpAfterAll" "op_suite operation = op_suite pending"
  shows "wpR (\<lambda>_. False) (complete_post s pending ok) (complete_kind operation OpAfterAll ok (noted s pending ok))"
proof -
  note w = worker_okD [OF assms(1)]
  have p: "wp_index s < length (wp_routes s)" "wp_active s \<noteq> []" "wp_closing s" "\<not> wp_closed s" "op_suite pending = last (wp_active s)"
    using w(9) [OF assms(2)] w(7) assms(2,3) by (auto simp: pending_ok_def)
  have cl: "0 < wp_exit_remaining s" "if wp_retire s then wp_exit_remaining s = length (wp_active s)
      else wp_skip_cause s = 0 \<and> length (wp_active s) + length (ro_finish_suites (now_route s)) = length (ro_ancestors (now_route s)) + wp_exit_remaining s"
    using w(6) [OF p(3)] by (simp_all add: closing_ok_def)
  obtain q where q: "ro_ancestors (now_route s) = wp_active s @ q" using w(4) [OF p(1)] by blast
  obtain a where a: "ro_ancestors (now_route s) = a @ rev (ro_finish_suites (now_route s))"
    using ends_step [OF w(1)] w(3) unfolding ahead_Cons [OF p(1)] by blast
  have split: "wp_active s = butlast (wp_active s) @ [last (wp_active s)]" using p(2) by simp
  have q': "ro_ancestors (now_route s) = butlast (wp_active s) @ last (wp_active s) # q" using q split by (metis append.assoc append_Cons append_Nil)
  define retire where "retire = (wp_retire s \<or> \<not> ok)"
  define remaining where "remaining = (if retire then length (butlast (wp_active s)) else wp_exit_remaining s - 1)"
  define s' where "s' = (noted s pending ok)\<lparr>wp_active := butlast (wp_active s), wp_exit_remaining := remaining, wp_closing := (remaining \<noteq> 0),
    wp_index := (if remaining = 0 \<and> \<not> retire then wp_index s + 1 else wp_index s)\<rparr>"
  have c: "complete_kind operation OpAfterAll ok (noted s pending ok) = Inr s'"
    using p assms(4) cl(1) unfolding complete_kind_def op_kind.case noted_simps retire_def [symmetric] Let_def remaining_def [symmetric] s'_def by simp
  have f: "wp_pending s' = None" "wp_tree s' = wp_tree s" "wp_routes s' = wp_routes s" "wp_closed s' = wp_closed s" "wp_retire s' = retire" "wp_active s' = butlast (wp_active s)"
    "wp_skip_cause s' = wp_skip_cause s" "wp_skipped_tests s' = wp_skipped_tests s" "wp_exit_remaining s' = remaining" "wp_closing s' = (remaining \<noteq> 0)"
    "wp_index s' = (if remaining = 0 \<and> \<not> retire then wp_index s + 1 else wp_index s)"
    by (simp_all add: s'_def noted_def retire_def)
  have ok': "worker_ok s'"
  proof (cases retire)
    case True
    have "wp_active s' \<noteq> [] \<longleftrightarrow> remaining \<noteq> 0" using True f(6) p(2) by (cases "wp_active s") (auto simp: remaining_def)
    then show ?thesis by (intro retiring_ok [OF assms(1) p(1,4)]) (use f p q' True w(11) in \<open>simp_all add: remaining_def\<close>)
  next
    case False
    then have len: "wp_skip_cause s = 0" "Suc (length (butlast (wp_active s))) + length (ro_finish_suites (now_route s)) = length (ro_ancestors (now_route s)) + wp_exit_remaining s"
      using cl(2) p(2) by (simp_all add: retire_def)
    show ?thesis
    proof (cases "remaining = 0")
      case True
      then have one: "length (butlast (wp_active s)) + length (ro_finish_suites (now_route s)) = length (ro_ancestors (now_route s))" using len False cl(1) by (simp add: remaining_def)
      have "length a = length (butlast (wp_active s))" using one a by simp
      then have "a = butlast (wp_active s)" using a q' by (metis append_eq_append_conv)
      then have "ro_ancestors (now_route s) = butlast (wp_active s) @ rev (ro_finish_suites (now_route s))" using a by simp
      from advance_ok [OF assms(1) p(1) this] show ?thesis
        using w(1,11) f p True False len(1) unfolding worker_ok_def by simp
    next
      case more: False
      have "butlast (wp_active s) \<noteq> []"
      proof
        assume "butlast (wp_active s) = []"
        moreover have "length (ro_finish_suites (now_route s)) \<le> length (ro_ancestors (now_route s))" using a by simp
        ultimately show False using len more False by (simp add: remaining_def)
      qed
      moreover have "length (butlast (wp_active s)) + length (ro_finish_suites (now_route s)) = length (ro_ancestors (now_route s)) + remaining"
        using len(2) more False by (simp add: remaining_def del: length_butlast)
      ultimately have "closing_ok s'" using f p(1) more False len(1) by (simp add: closing_ok_def del: length_butlast)
      then show ?thesis using w(1,2,3,11) f p q' more False len(1) unfolding worker_ok_def by simp
    qed
  qed
  have "reported pending = []" using assms(3) by (simp add: reported_def)
  moreover have "todo s = todo s'" if "\<not> wp_retire s" ok
  proof -
    have "wp_skipped_tests s' = []" using cl(2) that w(11) f(8) by simp
    then have "todo s' = map ro_test (drop (Suc (wp_index s)) (wp_routes s))"
      by (rule todo_advance [OF p(1) f(3)]) (use f that in \<open>simp add: retire_def\<close>)
    then show ?thesis using p(3) by (simp add: todo_def)
  qed
  ultimately have "complete_post s pending ok s'" using ok' f assms(3) by (simp add: complete_post_def retire_def)
  then show ?thesis unfolding c by simp
qed

definition answers :: "worker_plan \<Rightarrow> operation \<Rightarrow> operation \<Rightarrow> bool" where
  "answers s operation pending \<longleftrightarrow>
     wp_pending s = Some pending \<and> op_epoch operation = wp_epoch s \<and> op_token operation = op_token pending \<and> op_kind operation = op_kind pending \<and>
     op_suite operation = op_suite pending \<and> op_test operation = op_test pending \<and> op_skip_cause operation = op_skip_cause pending \<and>
     op_skipped_tests operation = op_skipped_tests pending"

lemma worker_Complete_ok:
  assumes "worker_ok s"
  shows "wpR (\<lambda>e. e = failure_capacity \<and> \<not> ok \<and> 8192 \<le> length (wp_failures s))
    (\<lambda>(accepted, s'). if accepted then \<exists>pending. answers s operation pending \<and> complete_post s pending ok s' else s' = s)
    (worker_Complete operation ok s)"
proof (cases "\<exists>pending. answers s operation pending")
  case False
  then have "worker_Complete operation ok s = Inr (False, s)" by (auto simp: worker_Complete_def answers_def split: option.splits)
  then show ?thesis by simp
next
  case True
  then obtain pending where a: "answers s operation pending" by blast
  then have p: "wp_pending s = Some pending" "op_suite operation = op_suite pending" by (simp_all add: answers_def)
  show ?thesis
  proof (cases "\<not> ok \<and> 8192 \<le> length (wp_failures s)")
    case True
    then have "worker_Complete operation ok s = Inl failure_capacity" using a by (simp add: worker_Complete_def answers_def suite_error_def failure_capacity_def)
    then show ?thesis using True by simp
  next
    case False
    then have e: "worker_Complete operation ok s = bindR (complete_kind operation (op_kind pending) ok (noted s pending ok)) (\<lambda>s. Inr (True, s))"
      using a by (auto simp: worker_Complete_def answers_def noted_def)
    have "wpR (\<lambda>_. False) (complete_post s pending ok) (complete_kind operation (op_kind pending) ok (noted s pending ok))"
      using complete_before_all [OF assms p(1)] complete_test [OF assms p(1) refl] complete_after_all [OF assms p(1) _ p(2)] by (cases "op_kind pending") simp_all
    then obtain s' where "complete_kind operation (op_kind pending) ok (noted s pending ok) = Inr s'" "complete_post s pending ok s'"
      by (cases "complete_kind operation (op_kind pending) ok (noted s pending ok)") simp_all
    then show ?thesis unfolding e using a by auto
  qed
qed

section \<open>Skipping, retiring, closing\<close>

lemma skip_routes_ok:
  assumes "worker_ok s" "wp_index s < length (wp_routes s)" "wp_active s \<noteq> []" "suite = last (wp_active s)"
  shows "\<exists>routes omitted. skip_routes suite s = Inr (routes, omitted) \<and> wp_index s < length routes \<and> ro_ancestors (routes ! wp_index s) = wp_active s \<and>
    ro_test (routes ! wp_index s) = ro_test (now_route s) \<and> routes_ok (wp_tree s) (drop (wp_index s) routes) \<and>
    omitted @ map ro_test (drop (Suc (wp_index s)) routes) = map ro_test (drop (Suc (wp_index s)) (wp_routes s)) \<and>
    set (drop (Suc (wp_index s)) routes) \<subseteq> set (drop (Suc (wp_index s)) (wp_routes s))"
proof -
  note w = worker_okD [OF assms(1)]
  let ?i = "wp_index s"
  define rest where "rest = drop (Suc ?i) (wp_routes s)"
  define kept where "kept = filter (\<lambda>r. suite \<notin> set (ro_ancestors r)) rest"
  define omitted where "omitted = map ro_test (filter (\<lambda>r. suite \<in> set (ro_ancestors r)) rest)"
  define shared where "shared = (if kept = [] then 0 else shared_prefix (wp_active s) (ro_ancestors (hd kept)))"
  define current where "current = (now_route s)\<lparr>ro_ancestors := wp_active s, ro_before_each := [], ro_after_each := [], ro_finish_suites := rev (drop shared (wp_active s))\<rparr>"
  have take: "take (?i + 1) (wp_routes s) = take ?i (wp_routes s) @ [now_route s]" using assms(2) by (simp add: take_Suc_conv_app_nth)
  have len: "length (take ?i (wp_routes s)) = ?i" using assms(2) by simp
  have nxt: "(take (?i + 1) (wp_routes s) @ kept) ! (?i + 1) = hd kept" "?i + 1 < length (take (?i + 1) (wp_routes s) @ kept)" if "kept \<noteq> []"
    using that assms(2) by (simp_all add: nth_append hd_conv_nth)
  have now: "(take (?i + 1) (wp_routes s) @ kept) ! ?i = now_route s" "(take (?i + 1) (wp_routes s) @ kept)[?i := current] = take ?i (wp_routes s) @ current # kept"
    unfolding take using len by (simp_all add: nth_append list_update_append)
  have e: "skip_routes suite s = Inr (take ?i (wp_routes s) @ current # kept, omitted)"
    using assms(2) nxt now unfolding skip_routes_def Let_def
    by (cases "kept = []") (simp_all add: rest_def [symmetric] kept_def [symmetric] omitted_def [symmetric] shared_def current_def)
  obtain q where q: "ro_ancestors (now_route s) = wp_active s @ q" using w(4) [OF assms(2)] by blast
  have r: "routes_ok (wp_tree s) (now_route s # rest)" using w(3) unfolding ahead_Cons [OF assms(2)] rest_def .
  have "ro_finish_suites current = rev (drop (if kept = [] then 0 else shared_prefix (wp_active s) (ro_ancestors (hd kept))) (wp_active s))"
    by (simp add: current_def shared_def)
  from skip_ok [OF w(1) r q assms(3), of current, folded assms(4), folded kept_def, OF _ this]
  have "routes_ok (wp_tree s) (current # kept)" "rest = filter (\<lambda>r. suite \<in> set (ro_ancestors r)) rest @ kept" by (simp_all add: current_def)
  then have "routes_ok (wp_tree s) (current # kept)" "omitted @ map ro_test kept = map ro_test rest"
    unfolding omitted_def by (simp, metis map_append)
  moreover have "set kept \<subseteq> set rest" by (auto simp: kept_def)
  ultimately show ?thesis using e len assms(2) by (simp add: nth_append current_def rest_def)
qed

definition skip_post :: "worker_plan \<Rightarrow> worker_plan \<Rightarrow> bool" where
  "skip_post s s' \<longleftrightarrow>
     worker_ok s' \<and> wp_active s' = wp_active s \<and> \<not> wp_retire s \<and> \<not> wp_retire s' \<and> wp_closed s' = wp_closed s \<and> wp_tree s' = wp_tree s \<and> wp_index s' = wp_index s \<and>
     wp_skip_cause s' \<noteq> 0 \<and> todo s' = todo s \<and> set (drop (Suc (wp_index s)) (wp_routes s')) \<subseteq> set (drop (Suc (wp_index s)) (wp_routes s))"

lemma worker_SkipBeforeAll_ok:
  assumes "worker_ok s"
  shows "wpR (\<lambda>_. False)
    (\<lambda>(accepted, s'). if accepted then \<exists>pending. answers s operation pending \<and> op_kind pending = OpBeforeAll \<and> skip_post s s' else s' = s)
    (worker_SkipBeforeAll operation cause s)"
proof -
  note w = worker_okD [OF assms]
  show ?thesis
  proof (cases "\<exists>pending. wp_pending s = Some pending \<and> \<not> (cause = 0 \<or> op_kind pending \<noteq> OpBeforeAll \<or> op_kind operation \<noteq> OpBeforeAll \<or> op_epoch operation \<noteq> wp_epoch s \<or>
             op_token operation \<noteq> op_token pending \<or> op_suite operation \<noteq> op_suite pending \<or> op_test operation \<noteq> op_test pending \<or>
             op_skip_cause operation \<noteq> 0 \<or> op_skipped_tests operation \<noteq> [] \<or> wp_active s = [] \<or> last (wp_active s) \<noteq> op_suite operation \<or>
             wp_retire s \<or> wp_closed s \<or> wp_closing s \<or> wp_skip_cause s \<noteq> 0)")
    case False
    then have "worker_SkipBeforeAll operation cause s = Inr (False, s)" by (auto simp: worker_SkipBeforeAll_def split: option.splits)
    then show ?thesis by simp
  next
    case True
    then obtain pending where g: "wp_pending s = Some pending" "cause \<noteq> 0" "op_kind pending = OpBeforeAll" "op_kind operation = OpBeforeAll" "op_epoch operation = wp_epoch s"
      "op_token operation = op_token pending" "op_suite operation = op_suite pending" "op_test operation = op_test pending" "op_skip_cause operation = 0" "op_skipped_tests operation = []"
      "wp_active s \<noteq> []" "op_suite operation = last (wp_active s)" "\<not> wp_retire s" "\<not> wp_closed s" "\<not> wp_closing s" "wp_skip_cause s = 0" by auto
    have p: "wp_index s < length (wp_routes s)" "op_skip_cause pending = 0" "op_skipped_tests pending = []"
      using w(9) [OF g(1)] g(3) by (simp_all add: pending_ok_def)
    obtain routes omitted where r: "skip_routes (op_suite operation) s = Inr (routes, omitted)" "wp_index s < length routes" "ro_ancestors (routes ! wp_index s) = wp_active s"
      "ro_test (routes ! wp_index s) = ro_test (now_route s)" "routes_ok (wp_tree s) (drop (wp_index s) routes)"
      "omitted @ map ro_test (drop (Suc (wp_index s)) routes) = map ro_test (drop (Suc (wp_index s)) (wp_routes s))"
      "set (drop (Suc (wp_index s)) routes) \<subseteq> set (drop (Suc (wp_index s)) (wp_routes s))"
      using skip_routes_ok [OF assms p(1) g(11,12)] by (elim exE conjE)
    define s' where "s' = (noted s pending True)\<lparr>wp_routes := routes, wp_skip_cause := cause, wp_skipped_tests := omitted\<rparr>"
    have "worker_Complete operation True s = Inr (True, noted s pending True)"
      using g p by (simp add: worker_Complete_def complete_kind_def noted_def)
    then have e: "worker_SkipBeforeAll operation cause s = Inr (True, s')" using g r(1) by (simp add: worker_SkipBeforeAll_def s'_def)
    have f: "wp_pending s' = None" "wp_tree s' = wp_tree s" "wp_routes s' = routes" "wp_closed s' = wp_closed s" "\<not> wp_retire s'" "wp_active s' = wp_active s"
      "wp_skip_cause s' = cause" "wp_skipped_tests s' = omitted" "wp_closing s' = wp_closing s" "wp_index s' = wp_index s"
      using g(13) by (simp_all add: s'_def noted_def)
    have "worker_ok s'" using f r w(1) g unfolding worker_ok_def by simp
    moreover have "todo s' = todo s" using f r(2,4,6) p(1) g(15,16) w(11) by (simp add: todo_def)
    ultimately have "skip_post s s'" using f g r(7) by (simp add: skip_post_def)
    moreover have "answers s operation pending" using g p by (simp add: answers_def)
    ultimately show ?thesis unfolding e using g(3) by auto
  qed
qed

lemma RetireAfterCurrentTest_ok:
  assumes "worker_ok s"
  shows "wpR (\<lambda>e. wp_pending s \<noteq> None) (\<lambda>s'. worker_ok s' \<and> wp_active s' = wp_active s \<and> wp_retire s') (RetireAfterCurrentTest s)"
proof (cases "wp_pending s = None")
  case True
  note w = worker_okD [OF assms]
  define s' where "s' = s\<lparr>wp_retire := True, wp_exit_remaining := length (wp_active s), wp_closing := (wp_active s \<noteq> [])\<rparr>"
  have e: "RetireAfterCurrentTest s = Inr s'" using True by (simp add: RetireAfterCurrentTest_def s'_def)
  have "worker_ok s'"
    using w(1,2,3,4,5,7,11) True unfolding worker_ok_def closing_ok_def s'_def by auto
  then show ?thesis unfolding e by (simp add: s'_def)
qed (simp add: RetireAfterCurrentTest_def suite_error_def)

lemma WorkerClosed_ok:
  assumes "worker_ok s" "worker_WorkerClosed pid exited s = (True, s')"
  shows "worker_ok s'" "wp_active s' = []" "wp_closed s'" "wp_retire s' = wp_retire s"
proof -
  note w = worker_okD [OF assms(1)]
  have s': "s' = s\<lparr>wp_pending := None, wp_active := [], wp_closed := True, wp_closing := False\<rparr>"
    using assms(2) by (simp add: worker_WorkerClosed_def split: if_splits)
  show "worker_ok s'" using w(1,2,3,11) unfolding worker_ok_def s' by simp
  show "wp_active s' = []" "wp_closed s'" "wp_retire s' = wp_retire s" by (simp_all add: s')
qed

section \<open>Histories\<close>

text \<open>An event is a call that took effect; refused calls leave the plan as it is.\<close>

datatype worker_event = Issued operation | Completed operation bool | SkippedAll operation nat | RetireCalled | ClosedBy int

inductive worker_step :: "worker_plan \<Rightarrow> worker_event \<Rightarrow> worker_plan \<Rightarrow> bool" where
  step_issued: "worker_Next s = Inr (Some operation, s') \<Longrightarrow> worker_step s (Issued operation) s'"
| step_completed: "worker_Complete operation ok s = Inr (True, s') \<Longrightarrow> worker_step s (Completed operation ok) s'"
| step_skipped: "worker_SkipBeforeAll operation cause s = Inr (True, s') \<Longrightarrow> worker_step s (SkippedAll operation cause) s'"
| step_retire: "RetireAfterCurrentTest s = Inr s' \<Longrightarrow> worker_step s RetireCalled s'"
| step_closed: "worker_WorkerClosed pid True s = (True, s') \<Longrightarrow> worker_step s (ClosedBy pid) s'"

text \<open>
  The effect of an event on the stack of entered suites: a suite is entered when its before-all operation is
  handed out and left when its after-all operation is answered; every operation concerns the top. The end
  of the process empties the stack.
\<close>

fun enter :: "nat list \<Rightarrow> worker_event \<Rightarrow> nat list option" where
  "enter stack (Issued operation) =
     (if op_kind operation = OpBeforeAll then Some (stack @ [op_suite operation])
      else if stack \<noteq> [] \<and> last stack = op_suite operation then Some stack else None)"
| "enter stack (Completed operation ok) =
     (if stack = [] \<or> last stack \<noteq> op_suite operation then None
      else Some (if op_kind operation = OpAfterAll then butlast stack else stack))"
| "enter stack (SkippedAll operation cause) = (if stack = [] \<or> last stack \<noteq> op_suite operation then None else Some stack)"
| "enter stack RetireCalled = Some stack"
| "enter stack (ClosedBy pid) = Some []"

fun replay :: "nat list \<Rightarrow> worker_event list \<Rightarrow> nat list option" where
  "replay stack [] = Some stack"
| "replay stack (e # es) = (case enter stack e of None \<Rightarrow> None | Some stack \<Rightarrow> replay stack es)"

text \<open>The tests a history accounts for.\<close>

definition accounted :: "worker_event list \<Rightarrow> nat list" where
  "accounted es = concat (map (\<lambda>e. case e of Completed operation _ \<Rightarrow> reported operation | _ \<Rightarrow> []) es)"

text \<open>The routes from the next one on are those of the plan; so is the current one until it is skipped or being left.\<close>

definition planned :: "suite_tree \<Rightarrow> route \<Rightarrow> bool" where
  "planned T r \<longleftrightarrow> r\<lparr>ro_finish_suites := []\<rparr> = route_of T (ro_test r)"

definition routed :: "worker_plan \<Rightarrow> bool" where
  "routed s \<longleftrightarrow> wp_retire s \<or> wp_closed s \<or>
     (\<forall>r \<in> set (drop (Suc (wp_index s)) (wp_routes s)). planned (wp_tree s) r) \<and>
     (\<not> wp_closing s \<longrightarrow> wp_skip_cause s = 0 \<longrightarrow> wp_index s < length (wp_routes s) \<longrightarrow> planned (wp_tree s) (now_route s))"

lemma routed_advance:
  assumes "\<forall>r \<in> set (drop (Suc i) rs). P r" "Suc i < length rs"
  shows "P (rs ! Suc i)" "\<forall>r \<in> set (drop (Suc (Suc i)) rs). P r"
  using assms Cons_nth_drop_Suc [OF assms(2)] by (metis list.set_intros)+

definition worker_inv :: "worker_plan \<Rightarrow> bool" where
  "worker_inv s \<longleftrightarrow> worker_ok s \<and> routed s"

lemma worker_step_inv:
  assumes "worker_inv s" "worker_step s e s'"
  shows "worker_inv s'"
proof -
  have w: "worker_ok s" and r: "routed s" using assms(1) by (simp_all add: worker_inv_def)
  from assms(2) show ?thesis
  proof cases
    case (step_issued operation)
    then show ?thesis using worker_Next_ok [OF w] r by (auto simp: worker_inv_def next_post_def routed_def issued_def)
  next
    case (step_completed operation ok)
    then obtain pending where c: "complete_post s pending ok s'" using worker_Complete_ok [OF w, of ok operation] by auto
    have "routed s'"
    proof (cases "wp_retire s' \<or> wp_closed s'")
      case False
      have f: "wp_tree s' = wp_tree s" "wp_routes s' = wp_routes s" "\<not> wp_retire s" "\<not> wp_closed s"
        "wp_index s' = Suc (wp_index s) \<or> wp_index s' = wp_index s \<and> (wp_closing s' \<or> \<not> wp_closing s \<and> wp_skip_cause s' = wp_skip_cause s)"
        using c False by (auto simp: complete_post_def)
      have p: "\<forall>r \<in> set (drop (Suc (wp_index s)) (wp_routes s)). planned (wp_tree s) r" using r f(3,4) by (simp add: routed_def)
      from f(5) show ?thesis
      proof
        assume i: "wp_index s' = Suc (wp_index s)"
        show ?thesis
        proof (cases "Suc (wp_index s) < length (wp_routes s)")
          case True
          then show ?thesis using routed_advance [OF p] f i by (simp add: routed_def)
        qed (use f i in \<open>simp add: routed_def\<close>)
      qed (use r f p in \<open>auto simp: routed_def\<close>)
    qed (auto simp: routed_def)
    then show ?thesis using c by (simp add: worker_inv_def complete_post_def)
  next
    case (step_skipped operation cause)
    then have "skip_post s s'" using worker_SkipBeforeAll_ok [OF w, of operation cause] by auto
    then show ?thesis using r by (auto simp: worker_inv_def skip_post_def routed_def)
  next
    case step_retire
    then show ?thesis using RetireAfterCurrentTest_ok [OF w] by (simp add: worker_inv_def routed_def)
  next
    case (step_closed pid)
    then show ?thesis using WorkerClosed_ok [OF w step_closed(2)] by (simp add: worker_inv_def routed_def)
  qed
qed

interpretation suite_worker: machine worker_step worker_inv
  by unfold_locales (rule worker_step_inv)

lemma NativeSuiteWorkerPlan_inv:
  assumes "NativeSuiteTree suites tests = Inr T" "NativeSuiteWorkerPlan T selected epoch worker = Inr s"
  shows "worker_inv s" "wp_active s = []" "wp_tree s = T" "todo s = filter (\<lambda>n. n \<in> selected) (tr_order T)" "\<not> wp_retire s" "\<not> wp_closed s"
proof -
  obtain routes where p: "Plan T selected = Inr routes" "wp_routes s = routes" and f: "wp_tree s = T" "wp_active s = []" "wp_index s = 0" "wp_pending s = None" "\<not> wp_closing s" "\<not> wp_retire s"
    "\<not> wp_closed s" "wp_skip_cause s = 0" "wp_skipped_tests s = []"
    using assms(2) by (auto simp: NativeSuiteWorkerPlan_def bindR_eq_Inr suite_error_def split: if_splits)
  have ok: "routes_ok T routes" "tree_ok T" using Plan_routes_ok [OF assms(1) p(1)] NativeSuiteTree_ok(1) [OF assms(1)] by simp_all
  define xs where "xs = filter (\<lambda>n. n \<in> selected) (tr_order T)"
  note n = Plan_nth [OF assms(1) p(1), folded xs_def]
  have "planned T (routes ! i)" if "i < length routes" for i using n(1) n(3) [of i] that by (simp add: planned_def route_of_def)
  then have pl: "\<forall>r \<in> set routes. planned T r" by (metis in_set_conv_nth)
  have "routed s" unfolding routed_def using f p pl set_drop_subset [of "Suc (wp_index s)" routes] by (auto simp: f)
  moreover have "worker_ok s" unfolding worker_ok_def using f p ok by simp
  ultimately show "worker_inv s" by (simp add: worker_inv_def)
  have "map ro_test routes = xs" using n(1,3) by (intro nth_equalityI) (simp_all add: route_of_def)
  moreover have "todo s = map ro_test routes" using f p by (cases routes) (simp_all add: todo_def)
  ultimately show "todo s = filter (\<lambda>n. n \<in> selected) (tr_order T)" by (simp add: xs_def)
  show "wp_active s = []" "wp_tree s = T" "\<not> wp_retire s" "\<not> wp_closed s" using f by simp_all
qed

text \<open>What one event does to the stack and to the tests to come.\<close>

lemma worker_step_enter:
  assumes "worker_inv s" "worker_step s e s'"
  shows "enter (wp_active s) e = Some (wp_active s')"
proof -
  have w: "worker_ok s" using assms(1) by (simp add: worker_inv_def)
  note p = worker_okD(9) [OF w]
  from assms(2) show ?thesis
  proof cases
    case (step_issued operation)
    then have n: "s' = issued s operation" "worker_ok s'" using worker_Next_ok [OF w] by (auto simp: next_post_def)
    then have "pending_ok s' operation" using worker_okD(9) [OF n(2)] by (simp add: issued_def)
    then have "wp_active s' \<noteq> [] \<and> op_suite operation = last (wp_active s')" by (simp add: pending_ok_def)
    moreover have "wp_active s' = (if op_kind operation = OpBeforeAll then wp_active s @ [op_suite operation] else wp_active s)" using n(1) by (simp add: issued_def)
    ultimately show ?thesis using step_issued(1) by (simp split: if_splits)
  next
    case (step_completed operation ok)
    then obtain pending where a: "answers s operation pending" "complete_post s pending ok s'" using worker_Complete_ok [OF w, of ok operation] by auto
    then have "pending_ok s pending" using p by (simp add: answers_def)
    then have "wp_active s \<noteq> [] \<and> op_suite pending = last (wp_active s)" by (simp add: pending_ok_def)
    moreover have "op_kind operation = op_kind pending \<and> op_suite operation = op_suite pending" using a(1) by (simp add: answers_def)
    moreover have "wp_active s' = (if op_kind pending = OpAfterAll then butlast (wp_active s) else wp_active s)" using a(2) by (simp add: complete_post_def)
    ultimately show ?thesis using step_completed(1) by simp
  next
    case (step_skipped operation cause)
    then obtain pending where a: "answers s operation pending" "skip_post s s'" using worker_SkipBeforeAll_ok [OF w, of operation cause] by auto
    then have "pending_ok s pending" using p by (simp add: answers_def)
    then show ?thesis using a step_skipped(1) by (auto simp: pending_ok_def answers_def skip_post_def)
  next
    case step_retire
    then show ?thesis using RetireAfterCurrentTest_ok [OF w] by simp
  next
    case (step_closed pid)
    then show ?thesis using WorkerClosed_ok [OF w step_closed(2)] by simp
  qed
qed

lemma trace_replay: "trace worker_step s es s' \<Longrightarrow> worker_inv s \<Longrightarrow> replay (wp_active s) es = Some (wp_active s')"
proof (induction rule: trace.induct)
  case (trace_Cons s e s' es s'')
  then show ?case using worker_step_enter [OF trace_Cons.prems trace_Cons.hyps(1)] worker_step_inv [OF trace_Cons.prems trace_Cons.hyps(1)] by simp
qed simp

text \<open>A plan that is retiring or closed remains so and accounts for no further test.\<close>

definition over :: "worker_plan \<Rightarrow> bool" where
  "over s \<longleftrightarrow> wp_retire s \<or> wp_closed s"

lemma worker_step_todo:
  assumes "worker_inv s" "worker_step s e s'"
  shows "over s \<Longrightarrow> over s' \<and> accounted [e] = []"
    "\<not> over s \<Longrightarrow> \<exists>later. todo s = accounted [e] @ later \<and> (\<not> over s' \<longrightarrow> later = todo s')"
proof -
  have w: "worker_ok s" using assms(1) by (simp add: worker_inv_def)
  have closed: "wp_pending s = None" if "wp_closed s" using worker_okD(7) [OF w that] by blast
  have step: "(over s \<longrightarrow> over s' \<and> accounted [e] = []) \<and> (\<not> over s \<longrightarrow> (\<exists>later. todo s = accounted [e] @ later \<and> (\<not> over s' \<longrightarrow> later = todo s')))"
    using assms(2)
  proof cases
    case (step_issued operation)
    then have "s' = issued s operation" using worker_Next_ok [OF w] by (auto simp: next_post_def)
    then show ?thesis using step_issued(1) by (auto simp: accounted_def issued_def over_def todo_def)
  next
    case (step_completed operation ok)
    then obtain pending where a: "answers s operation pending" "complete_post s pending ok s'" using worker_Complete_ok [OF w, of ok operation] by auto
    have "reported operation = reported pending" using a(1) by (cases "op_kind pending") (simp_all add: answers_def reported_def)
    moreover have "\<not> wp_closed s" using a(1) closed by (auto simp: answers_def)
    ultimately show ?thesis using a step_completed(1) by (auto simp: accounted_def over_def complete_post_def)
  next
    case (step_skipped operation cause)
    then have "skip_post s s'" using worker_SkipBeforeAll_ok [OF w, of operation cause] by auto
    then show ?thesis using step_skipped(1) by (simp add: accounted_def over_def skip_post_def)
  next
    case step_retire
    then show ?thesis using RetireAfterCurrentTest_ok [OF w] by (simp add: accounted_def over_def)
  next
    case (step_closed pid)
    then show ?thesis using WorkerClosed_ok [OF w step_closed(2)] by (simp add: accounted_def over_def)
  qed
  show "over s \<Longrightarrow> over s' \<and> accounted [e] = []" "\<not> over s \<Longrightarrow> \<exists>later. todo s = accounted [e] @ later \<and> (\<not> over s' \<longrightarrow> later = todo s')"
    using step by blast+
qed

lemma accounted_Cons: "accounted (e # es) = accounted [e] @ accounted es"
  by (simp add: accounted_def)

lemma trace_todo:
  "trace worker_step s es s' \<Longrightarrow> worker_inv s \<Longrightarrow>
     (over s \<longrightarrow> over s' \<and> accounted es = []) \<and> (\<not> over s \<longrightarrow> (\<exists>later. todo s = accounted es @ later \<and> (\<not> over s' \<longrightarrow> later = todo s')))"
proof (induction rule: trace.induct)
  case (trace_Nil s)
  then show ?case by (simp add: accounted_def)
next
  case (trace_Cons s e s' es s'')
  note st = worker_step_todo [OF trace_Cons.prems trace_Cons.hyps(1)]
  note IH = trace_Cons.IH [OF worker_step_inv [OF trace_Cons.prems trace_Cons.hyps(1)]]
  show ?case
  proof (cases "over s")
    case True
    then show ?thesis using st(1) IH accounted_Cons [of e es] by simp
  next
    case False
    then obtain later where l: "todo s = accounted [e] @ later" "\<not> over s' \<longrightarrow> later = todo s'" using st(2) by blast
    show ?thesis
    proof (cases "over s'")
      case True
      then show ?thesis using False l IH accounted_Cons [of e es] by simp
    next
      case no: False
      then obtain later' where "todo s' = accounted es @ later'" "\<not> over s'' \<longrightarrow> later' = todo s''" using IH by blast
      then show ?thesis using False no l accounted_Cons [of e es] by auto
    qed
  qed
qed

lemma selected_known:
  assumes "NativeSuiteTree suites tests = Inr T" "NativeSuiteWorkerPlan T selected epoch worker = Inr s"
  shows "selected \<subseteq> set (tr_order T)"
proof -
  obtain routes where "Plan T selected = Inr routes" using assms(2) by (auto simp: NativeSuiteWorkerPlan_def bindR_eq_Inr)
  then show ?thesis using Plan_nth(2) [OF assms(1)] by blast
qed

lemma trace_tree: "trace worker_step s es s' \<Longrightarrow> worker_inv s \<Longrightarrow> wp_tree s' = wp_tree s"
proof (induction rule: trace.induct)
  case (trace_Cons s e s' es s'')
  have w: "worker_ok s" using trace_Cons.prems by (simp add: worker_inv_def)
  from trace_Cons.hyps(1) have "wp_tree s' = wp_tree s"
  proof cases
    case (step_issued operation)
    then show ?thesis using worker_Next_ok [OF w] by (auto simp: next_post_def issued_def)
  next
    case (step_completed operation ok)
    then show ?thesis using worker_Complete_ok [OF w, of ok operation] by (auto simp: complete_post_def)
  next
    case (step_skipped operation cause)
    then show ?thesis using worker_SkipBeforeAll_ok [OF w, of operation cause] by (auto simp: skip_post_def)
  qed (auto simp: RetireAfterCurrentTest_def suite_error_def worker_WorkerClosed_def split: if_splits)
  then show ?case using trace_Cons.IH worker_step_inv [OF trace_Cons.prems trace_Cons.hyps(1)] by simp
qed simp

section \<open>Properties\<close>

text \<open>
  C35: However a worker plan is driven, its internal consistency checks never fail: handing out an operation
  throws only when the previous one is unanswered or the identities are used up, answering one throws only
  when there is no room for another failure, skipping never throws, retiring only while an operation is
  outstanding. A refused answer leaves the plan unchanged.
\<close>

theorem worker_plan_consistent:
  assumes "NativeSuiteTree suites tests = Inr T" "NativeSuiteWorkerPlan T selected epoch worker = Inr s0" "trace worker_step s0 es s"
  shows "wpR (\<lambda>e. e = awaiting \<and> wp_pending s \<noteq> None \<or> e = exhausted \<and> wp_nonce s = u64_max) (\<lambda>_. True) (worker_Next s) \<and>
    wpR (\<lambda>e. e = failure_capacity \<and> \<not> ok \<and> 8192 \<le> length (wp_failures s)) (\<lambda>(accepted, s'). accepted \<or> s' = s) (worker_Complete operation ok s) \<and>
    wpR (\<lambda>e. False) (\<lambda>(accepted, s'). accepted \<or> s' = s) (worker_SkipBeforeAll operation cause s) \<and>
    wpR (\<lambda>e. wp_pending s \<noteq> None) (\<lambda>_. True) (RetireAfterCurrentTest s)"
proof -
  have "worker_ok s" using suite_worker.trace_inv [OF assms(3) NativeSuiteWorkerPlan_inv(1) [OF assms(1,2)]] by (simp add: worker_inv_def)
  note ok = worker_Next_ok [OF this] worker_Complete_ok [OF this, of ok operation] worker_SkipBeforeAll_ok [OF this, of operation cause] RetireAfterCurrentTest_ok [OF this]
  show ?thesis
    by (intro conjI wpR_mono [OF ok(1)] wpR_mono [OF ok(2)] wpR_mono [OF ok(3)] wpR_mono [OF ok(4)]) (auto split: if_splits)
qed

text \<open>
  C36: In every history the suites are entered and left as a stack: a suite is entered by its before-all
  operation and left by its after-all operation, which always concerns the innermost entered suite, also
  after a failure, a skip or a retirement. A test is handed out exactly when the suites on the way to it are
  entered, with the hooks of all of them; and when the plan has no operation left every suite that was
  entered has been left.
\<close>

theorem hooks_nested:
  assumes "NativeSuiteTree suites tests = Inr T" "NativeSuiteWorkerPlan T selected epoch worker = Inr s0" "trace worker_step s0 es s"
  shows "replay [] es = Some (wp_active s) \<and>
    (\<forall>s'. worker_Next s = Inr (None, s') \<longrightarrow> wp_active s = []) \<and>
    (\<forall>operation s'. worker_Next s = Inr (Some operation, s') \<longrightarrow> op_kind operation = OpTest \<longrightarrow>
       wp_active s = path_of T (op_test operation) \<and>
       op_before_each operation = concat (map (hooks_of T BeforeEach) (wp_active s)) \<and>
       op_after_each operation = concat (map (hooks_of T AfterEach) (rev (wp_active s))))"
proof (intro conjI allI impI)
  note i = NativeSuiteWorkerPlan_inv [OF assms(1,2)]
  show "replay [] es = Some (wp_active s)" using trace_replay [OF assms(3) i(1)] i(2) by simp
  have inv: "worker_ok s" "routed s" using suite_worker.trace_inv [OF assms(3) i(1)] by (simp_all add: worker_inv_def)
  note w = worker_okD [OF inv(1)]
  show "wp_active s = []" if "worker_Next s = Inr (None, s')" for s'
    using worker_Next_ok [OF inv(1)] that w(5,7,8) by (auto simp: next_post_def)
  fix operation s' assume n: "worker_Next s = Inr (Some operation, s')" "op_kind operation = OpTest"
  have p: "s' = issued s operation" "worker_ok s'" "carries s operation" "\<not> wp_closed s" using worker_Next_ok [OF inv(1)] n(1) by (auto simp: next_post_def)
  have po: "pending_ok (issued s operation) operation" using worker_okD(9) [OF p(2)] p(1) by (simp add: issued_def)
  have a: "wp_index s < length (wp_routes s)" "op_test operation = ro_test (now_route s)" "\<not> wp_closing s" "\<not> wp_retire s" "wp_skip_cause s = 0" "wp_active s = ro_ancestors (now_route s)"
    using po n(2) by (simp_all add: pending_ok_def issued_def)
  have T: "wp_tree s = T" using trace_tree [OF assms(3) i(1)] i(3) by simp
  have "planned T (now_route s)" using inv(2) a p(4) T by (simp add: routed_def)
  then have r: "(now_route s)\<lparr>ro_finish_suites := []\<rparr> = route_of T (op_test operation)" using a(2) by (simp add: planned_def)
  have c: "op_before_each operation = ro_before_each (now_route s)" "op_after_each operation = ro_after_each (now_route s)" using p(3) n(2) by (simp_all add: carries_def)
  show "wp_active s = path_of T (op_test operation)" "op_before_each operation = concat (map (hooks_of T BeforeEach) (wp_active s))"
    "op_after_each operation = concat (map (hooks_of T AfterEach) (rev (wp_active s)))"
    using arg_cong [OF r, of ro_ancestors] arg_cong [OF r, of ro_before_each] arg_cong [OF r, of ro_after_each] a(6) c by (simp_all add: route_of_def)
qed

text \<open>
  C37: A worker accounts for the selected tests in declaration order, each as run or as skipped and none
  twice, whatever fails or is skipped; a plan that ends without failure, retirement or the end of its process
  has accounted for all of them.
\<close>

theorem tests_accounted:
  assumes "NativeSuiteTree suites tests = Inr T" "NativeSuiteWorkerPlan T selected epoch worker = Inr s0" "trace worker_step s0 es s"
  shows "(\<exists>later. filter (\<lambda>n. n \<in> selected) (tr_order T) = accounted es @ later) \<and> distinct (accounted es) \<and>
    (\<not> wp_retire s \<longrightarrow> \<not> wp_closed s \<longrightarrow> worker_Next s = Inr (None, s) \<longrightarrow> set (accounted es) = selected)"
proof -
  note i = NativeSuiteWorkerPlan_inv [OF assms(1,2)] and o = order_tests [OF assms(1)]
  have "\<not> over s0" using i(5,6) by (simp add: over_def)
  then obtain later where l: "filter (\<lambda>n. n \<in> selected) (tr_order T) = accounted es @ later" "\<not> over s \<longrightarrow> later = todo s"
    using trace_todo [OF assms(3) i(1)] i(4) by auto
  have "distinct (filter (\<lambda>n. n \<in> selected) (tr_order T))" using o(3) by simp
  then have "distinct (accounted es)" unfolding l(1) by simp
  moreover have "set (accounted es) = selected" if n: "\<not> wp_retire s" "\<not> wp_closed s" "worker_Next s = Inr (None, s)"
  proof -
    have inv: "worker_ok s" using suite_worker.trace_inv [OF assms(3) i(1)] by (simp add: worker_inv_def)
    have "\<not> wp_closing s" "length (wp_routes s) \<le> wp_index s" using worker_Next_ok [OF inv] n by (simp_all add: next_post_def)
    then have "later = []" using l(2) n by (simp add: over_def todo_def)
    moreover have "selected \<subseteq> set (tr_order T)" using selected_known [OF assms(1,2)] .
    ultimately show ?thesis using arg_cong [OF l(1), of set] by auto
  qed
  ultimately show ?thesis using l(1) by blast
qed

section \<open>Example\<close>

text \<open>The tests 10 and 20 of the example tree on one worker; the before-all hook of suite 2 skips it.\<close>

definition example_start :: worker_plan where
  "example_start = \<lparr>wp_tree = example_tree,
     wp_routes = [\<lparr>ro_test = 10, ro_ancestors = [1], ro_before_each = [7], ro_after_each = [], ro_finish_suites = []\<rparr>,
       \<lparr>ro_test = 20, ro_ancestors = [1, 2], ro_before_each = [7, 8], ro_after_each = [9], ro_finish_suites = [2, 1]\<rparr>],
     wp_epoch = 3, wp_nonce = 0, wp_skip_cause = 0, wp_skipped_tests = [], wp_worker = 500, wp_index = 0, wp_exit_remaining = 0, wp_active = [],
     wp_pending = None, wp_failures = [], wp_closing = False, wp_retire = False, wp_closed = False\<rparr>"

definition example_op :: "op_kind \<Rightarrow> nat \<Rightarrow> nat \<Rightarrow> nat \<Rightarrow> nat list \<Rightarrow> nat \<Rightarrow> operation" where
  "example_op kind token suite test before skip = \<lparr>op_kind = kind, op_epoch = 3, op_token = token, op_suite = suite, op_test = test, op_callbacks = [],
     op_before_each = before, op_after_each = [], op_skip_cause = skip, op_skipped_tests = []\<rparr>"

definition example_events :: "worker_event list" where
  "example_events =
     [Issued (example_op OpBeforeAll 1 1 10 [] 0), Completed (example_op OpBeforeAll 1 1 10 [] 0) True,
      Issued (example_op OpTest 2 1 10 [7] 0), Completed (example_op OpTest 2 1 10 [7] 0) True,
      Issued (example_op OpBeforeAll 3 2 20 [] 0), SkippedAll (example_op OpBeforeAll 3 2 20 [] 0) 77,
      Issued (example_op OpSkippedTest 4 2 20 [] 77), Completed (example_op OpSkippedTest 4 2 20 [] 77) True,
      Issued (example_op OpAfterAll 5 2 20 [] 0), Completed (example_op OpAfterAll 5 2 20 [] 0) True,
      Issued (example_op OpAfterAll 6 1 20 [] 0), Completed (example_op OpAfterAll 6 1 20 [] 0) True]"

lemma example_start: "NativeSuiteWorkerPlan example_tree {20, 10} 3 500 = Inr example_start"
  by (simp add: NativeSuiteWorkerPlan_def example_plan example_start_def)

fun worker_call :: "worker_event \<Rightarrow> worker_plan \<Rightarrow> worker_plan result" where
  "worker_call (Issued operation) s = bindR (worker_Next s) (\<lambda>(r, s'). if r = Some operation then Inr s' else Inl Out_of_range)"
| "worker_call (Completed operation ok) s = bindR (worker_Complete operation ok s) (\<lambda>(r, s'). if r then Inr s' else Inl Out_of_range)"
| "worker_call (SkippedAll operation cause) s = bindR (worker_SkipBeforeAll operation cause s) (\<lambda>(r, s'). if r then Inr s' else Inl Out_of_range)"
| "worker_call RetireCalled s = RetireAfterCurrentTest s"
| "worker_call (ClosedBy pid) s = (let (r, s') = worker_WorkerClosed pid True s in if r then Inr s' else Inl Out_of_range)"

lemma worker_call_step: "worker_call e s = Inr s' \<Longrightarrow> worker_step s e s'"
  by (cases e) (auto simp: bindR_eq_Inr split: if_splits prod.splits intro: worker_step.intros)

lemmas example_eval = worker_Next_def next_route_def worker_Complete_def complete_kind_def worker_SkipBeforeAll_def skip_routes_def Admit_def
  backR_def some_op_def atR_def suite_Hooks_def u64_max_def Let_def example_op_def

lemma worker_history:
  "\<exists>s. run_calls worker_call example_events example_start = Inr s \<and> worker_Next s = Inr (None, s) \<and> \<not> wp_retire s \<and> \<not> wp_closed s \<and> wp_active s = []"
proof -
  have nodes: "tr_nodes example_tree = example_nodes" by (simp add: example_tree_def)
  show ?thesis by (simp add: example_events_def example_start_def example_eval nodes example_nodes_def example_suites_def)
qed

lemma example_trace:
  obtains s where "trace worker_step example_start example_events s" "worker_Next s = Inr (None, s)" "\<not> wp_retire s" "\<not> wp_closed s" "wp_active s = []"
  using worker_history trace_run_calls [where call = worker_call and step = worker_step, OF worker_call_step] by blast

theorem worker_plan_consistent_witness:
  "\<exists>s. trace worker_step example_start example_events s \<and> wpR (\<lambda>e. False) (\<lambda>(accepted, s'). accepted \<or> s' = s) (worker_SkipBeforeAll (example_op OpAfterAll 6 1 20 [] 0) 5 s)"
proof -
  obtain s where s: "trace worker_step example_start example_events s" by (rule example_trace)
  show ?thesis
    using worker_plan_consistent [OF example_tree example_start s, where operation = "example_op OpAfterAll 6 1 20 [] 0" and cause = 5] s by blast
qed

theorem hooks_nested_witness: "replay [] example_events = Some []"
proof -
  obtain s where s: "trace worker_step example_start example_events s" "wp_active s = []" by (rule example_trace)
  show ?thesis using hooks_nested [OF example_tree example_start s(1)] s(2) by simp
qed

theorem tests_accounted_witness: "set (accounted example_events) = {20, 10}"
proof -
  obtain s where s: "trace worker_step example_start example_events s" "worker_Next s = Inr (None, s)" "\<not> wp_retire s" "\<not> wp_closed s" by (rule example_trace)
  show ?thesis using tests_accounted [OF example_tree example_start s(1)] s(2-4) by simp
qed

end
