(* ===== verification/WorkerReuse.thy ===== *)
theory WorkerReuse
  imports FileGroups Doubles
begin

text \<open>
  \<open>worker_reuse_pool.h\<close>: the pool that lends worker processes (hosts) to the work groups of one suite file
  and lends a host again only after its group has passed, the host has acknowledged that it is idle and an
  inventory of all hosts has confirmed it. None of its operations throws. The arrays with a count of the
  source (fixtures, the hosts of a probe) are the lists of their first \<open>count\<close> entries; a count beyond the
  array is rejected by the source as a longer list is here. Pointers into the array of live hosts are
  positions in it.
\<close>

section \<open>State\<close>

datatype reuse_outcome = RPassed | RFailed | RInterrupted

record completion =
  cp_all_done :: bool
  cp_global_stopped :: bool
  cp_native_failure :: bool
  cp_actual_interrupted :: bool
  cp_unexpected_failure :: bool
  cp_all_expected :: bool

definition CompletionOutcome :: "completion \<Rightarrow> reuse_outcome" where
  "CompletionOutcome evidence =
     (if cp_unexpected_failure evidence \<or> cp_native_failure evidence then RFailed
      else if cp_actual_interrupted evidence \<or> (\<not> cp_all_done evidence \<and> cp_global_stopped evidence) then RInterrupted
      else if cp_all_done evidence \<and> cp_all_expected evidence then RPassed else RFailed)"

datatype reuse_receipt = RActive | IdleTransferred | PhysicalRetired

datatype reuse_state = Busy | AwaitingACK | AwaitingInventory | HostIdle | Retiring

record reuse_key =
  rk_file :: file_token
  rk_catalog :: nat

record host =
  ho_lease :: nat
  ho_worker :: nat
  ho_pid :: int

record borrow =
  bo_host :: host
  bo_group :: file_admission
  bo_generation :: nat

record fixture =
  fx_token :: nat
  fx_test :: nat
  fx_generation :: nat

type_synonym fixtures = "fixture list"

record group_fence =
  gf_raw_callbacks :: nat
  gf_steps :: nat
  gf_step_callbacks :: nat
  gf_file_jobs :: nat
  gf_file_callbacks :: nat
  gf_file_step_fences :: nat
  gf_output_jobs :: nat
  gf_output_handshakes :: nat
  gf_test_fixtures :: nat
  gf_mutations :: nat
  gf_soft_pending :: nat
  gf_soft_contexts :: nat
  gf_clean_outcomes :: bool
  gf_control_open :: bool
  gf_fixtures_ready :: bool
  gf_retained :: fixtures

record idle_request =
  ir_borrow :: borrow
  ir_request :: nat
  ir_requested :: double
  ir_deadline :: double
  ir_fixtures :: nat

record idle_ack =
  ia_borrow :: borrow
  ia_request :: nat
  ia_fixtures :: nat

record probe =
  pr_version :: nat
  pr_hosts :: "host list"

record inventory =
  iv_probe :: probe
  iv_observed :: double
  iv_complete :: bool
  iv_children_clear :: bool

record cohort_fence =
  cf_borrow :: borrow
  cf_fence :: group_fence

record retirement_fence =
  rf_raw_callbacks :: nat
  rf_steps :: nat
  rf_step_callbacks :: nat
  rf_file_jobs :: nat
  rf_file_callbacks :: nat
  rf_file_step_fences :: nat
  rf_output_jobs :: nat
  rf_output_handshakes :: nat
  rf_worker_fixtures :: nat
  rf_test_fixtures :: nat
  rf_soft_pending :: nat
  rf_soft_contexts :: nat
  rf_descendants_retired :: bool

record exit_status =
  ex_code :: int
  ex_signaled :: bool

record host_record =
  hr_host :: host
  hr_exit :: "exit_status option"
  hr_physical_retired :: bool
  hr_last_observed :: double
  hr_exited :: double
  hr_retired :: double

record borrow_record =
  br_borrow :: borrow
  br_outcome :: "reuse_outcome option"
  br_receipt :: reuse_receipt
  br_idle_request :: nat
  br_canceled_idle_request :: nat
  br_acknowledged :: double
  br_transferred :: double
  br_canceled_acknowledged :: double

record live =
  lv_record :: "nat option"
  lv_borrow :: "nat option"
  lv_state :: reuse_state
  lv_fixtures :: fixtures
  lv_idle :: "idle_request option"

record reuse_pool =
  rp_key :: reuse_key
  rp_limit :: nat
  rp_host_count :: nat
  rp_borrow_count :: nat
  rp_physical :: nat
  rp_highest :: nat
  rp_version :: nat
  rp_request :: nat
  rp_draining :: bool
  rp_stopped :: bool
  rp_live :: "live list"
  rp_hosts :: "host_record list"
  rp_borrows :: "borrow_record list"
  rp_groups :: "nat option list"
  rp_global_deadline :: "double option"

definition zero_host :: host where
  "zero_host = \<lparr>ho_lease = 0, ho_worker = 0, ho_pid = 0\<rparr>"

definition fresh_live :: live where
  "fresh_live = \<lparr>lv_record = None, lv_borrow = None, lv_state = Busy, lv_fixtures = [], lv_idle = None\<rparr>"

definition fresh_host :: host_record where
  "fresh_host = \<lparr>hr_host = zero_host, hr_exit = None, hr_physical_retired = False, hr_last_observed = Fin 0, hr_exited = Fin 0, hr_retired = Fin 0\<rparr>"

definition fresh_borrow :: borrow_record where
  "fresh_borrow = \<lparr>br_borrow = \<lparr>bo_host = zero_host, bo_group = \<lparr>fa_file = \<lparr>ft_id = 0, ft_device = 0, ft_inode = 0\<rparr>, fa_index = 0, fa_generation = 0\<rparr>, bo_generation = 0\<rparr>,
     br_outcome = None, br_receipt = RActive, br_idle_request = 0, br_canceled_idle_request = 0, br_acknowledged = Fin 0, br_transferred = Fin 0, br_canceled_acknowledged = Fin 0\<rparr>"

definition WorkerReusePool :: "reuse_key \<Rightarrow> nat \<Rightarrow> nat \<Rightarrow> double option \<Rightarrow> reuse_pool result" where
  "WorkerReusePool key limit group_capacity original_global_deadline =
     (if ft_id (rk_file key) = 0 \<or> rk_catalog key = 0 \<or> limit = 0 \<or> 8 < limit \<or> group_capacity = 0 \<or> 8192 < group_capacity
      then Inl (Invalid_argument ''Native reusable worker key/capacity rejected'')
      else if (case original_global_deadline of None \<Rightarrow> False | Some d \<Rightarrow> \<not> isfinite d \<or> dle d (Fin 0))
      then Inl (Invalid_argument ''Native reusable worker original deadline rejected'')
      else Inr \<lparr>rp_key = key, rp_limit = limit, rp_host_count = 0, rp_borrow_count = 0, rp_physical = 0, rp_highest = 0, rp_version = 1, rp_request = 0,
                rp_draining = False, rp_stopped = False, rp_live = replicate 8 fresh_live, rp_hosts = replicate group_capacity fresh_host,
                rp_borrows = replicate group_capacity fresh_borrow, rp_groups = replicate group_capacity None, rp_global_deadline = original_global_deadline\<rparr>)"

section \<open>Conditions\<close>

definition reuse_Clean :: "group_fence \<Rightarrow> bool" where
  "reuse_Clean f \<longleftrightarrow>
     gf_raw_callbacks f = 0 \<and> gf_steps f = 0 \<and> gf_step_callbacks f = 0 \<and> gf_file_jobs f = 0 \<and>
     gf_file_callbacks f = 0 \<and> gf_file_step_fences f = 0 \<and> gf_output_jobs f = 0 \<and> gf_output_handshakes f = 0 \<and>
     gf_test_fixtures f = 0 \<and> gf_mutations f = 0 \<and> gf_soft_pending f = 0 \<and> gf_soft_contexts f = 0 \<and> gf_clean_outcomes f \<and> gf_control_open f \<and> gf_fixtures_ready f"

definition RetirementReady :: "retirement_fence \<Rightarrow> bool" where
  "RetirementReady f \<longleftrightarrow>
     rf_raw_callbacks f = 0 \<and> rf_steps f = 0 \<and> rf_step_callbacks f = 0 \<and> rf_file_jobs f = 0 \<and>
     rf_file_callbacks f = 0 \<and> rf_file_step_fences f = 0 \<and> rf_output_jobs f = 0 \<and> rf_output_handshakes f = 0 \<and>
     rf_worker_fixtures f = 0 \<and> rf_test_fixtures f = 0 \<and> rf_soft_pending f = 0 \<and> rf_soft_contexts f = 0 \<and> rf_descendants_retired f"

fun valid_from :: "nat \<Rightarrow> fixtures \<Rightarrow> bool" where
  "valid_from previous [] = True"
| "valid_from previous (f # fs) \<longleftrightarrow> fx_token f \<noteq> 0 \<and> fx_test f \<noteq> 0 \<and> fx_generation f \<noteq> 0 \<and> previous < fx_token f \<and> valid_from (fx_token f) fs"

definition reuse_Valid :: "fixtures \<Rightarrow> bool" where
  "reuse_Valid fs \<longleftrightarrow> length fs \<le> 64 \<and> valid_from 0 fs"

definition reuse_Extends :: "fixtures \<Rightarrow> fixtures \<Rightarrow> bool" where
  "reuse_Extends previous next_fixtures \<longleftrightarrow> reuse_Valid next_fixtures \<and> list_all (\<lambda>f. list_ex (\<lambda>g. f = g) next_fixtures) previous"

definition SameFixtures :: "fixtures \<Rightarrow> fixtures \<Rightarrow> bool" where
  "SameFixtures a b \<longleftrightarrow> length a = length b \<and> reuse_Valid b \<and> list_all2 (=) a b"

definition NewGroup :: "reuse_pool \<Rightarrow> file_admission \<Rightarrow> bool" where
  "NewGroup p group' \<longleftrightarrow> fa_file group' = rk_file (rp_key p) \<and> fa_generation group' \<noteq> 0 \<and> fa_index group' < length (rp_groups p) \<and>
     rp_groups p ! fa_index group' = None \<and> rp_borrow_count p < length (rp_borrows p)"

definition CanChange :: "reuse_pool \<Rightarrow> bool" where
  "CanChange p \<longleftrightarrow> rp_version p < u64_max"

definition Changed :: "reuse_pool \<Rightarrow> reuse_pool" where
  "Changed p = (if rp_version p < u64_max then p\<lparr>rp_version := rp_version p + 1\<rparr> else p)"

text \<open>The host of a live row, and the record of a borrow.\<close>

definition live_host :: "reuse_pool \<Rightarrow> live \<Rightarrow> host option" where
  "live_host p l = map_option (\<lambda>r. hr_host (rp_hosts p ! r)) (lv_record l)"

definition reuse_Find :: "reuse_pool \<Rightarrow> host \<Rightarrow> nat option" where
  "reuse_Find p host' = List.find (\<lambda>i. live_host p (rp_live p ! i) = Some host') [0..<length (rp_live p)]"

definition borrow_Find :: "reuse_pool \<Rightarrow> borrow \<Rightarrow> nat option" where
  "borrow_Find p b =
     (if bo_generation b \<noteq> 0 \<and> bo_generation b \<le> rp_borrow_count p \<and> br_borrow (rp_borrows p ! (bo_generation b - 1)) = b
      then Some (bo_generation b - 1) else None)"

definition reuse_Current :: "reuse_pool \<Rightarrow> live \<Rightarrow> borrow \<Rightarrow> bool" where
  "reuse_Current p l b \<longleftrightarrow> (case lv_borrow l of None \<Rightarrow> False | Some k \<Rightarrow> br_borrow (rp_borrows p ! k) = b)"

text \<open>The host record of the live row at a position.\<close>

definition host_at :: "reuse_pool \<Rightarrow> nat \<Rightarrow> host_record" where
  "host_at p i = rp_hosts p ! the (lv_record (rp_live p ! i))"

definition set_live :: "nat \<Rightarrow> (live \<Rightarrow> live) \<Rightarrow> reuse_pool \<Rightarrow> reuse_pool" where
  "set_live i f p = p\<lparr>rp_live := (rp_live p)[i := f (rp_live p ! i)]\<rparr>"

definition set_host :: "nat \<Rightarrow> (host_record \<Rightarrow> host_record) \<Rightarrow> reuse_pool \<Rightarrow> reuse_pool" where
  "set_host i f p = (let r = the (lv_record (rp_live p ! i)) in p\<lparr>rp_hosts := (rp_hosts p)[r := f (rp_hosts p ! r)]\<rparr>)"

definition set_borrow :: "nat \<Rightarrow> (borrow_record \<Rightarrow> borrow_record) \<Rightarrow> reuse_pool \<Rightarrow> reuse_pool" where
  "set_borrow k f p = p\<lparr>rp_borrows := (rp_borrows p)[k := f (rp_borrows p ! k)]\<rparr>"

section \<open>Operations\<close>

definition Drain :: "reuse_pool \<Rightarrow> reuse_pool" where
  "Drain p = Changed (p\<lparr>rp_draining := (rp_physical p \<noteq> 0),
     rp_live := map (\<lambda>l. if lv_record l \<noteq> None then l\<lparr>lv_state := Retiring\<rparr> else l) (rp_live p)\<rparr>)"

definition reuse_Stop :: "reuse_pool \<Rightarrow> reuse_pool" where
  "reuse_Stop p = Drain (p\<lparr>rp_stopped := True\<rparr>)"

definition NewBorrow :: "nat \<Rightarrow> host \<Rightarrow> file_admission \<Rightarrow> reuse_pool \<Rightarrow> borrow \<times> reuse_pool" where
  "NewBorrow i host' group' p =
     (let k = rp_borrow_count p; b = \<lparr>bo_host = host', bo_group = group', bo_generation = k + 1\<rparr>
      in (b, set_borrow k (br_borrow_update (\<lambda>_. b))
               ((set_live i (\<lambda>l. l\<lparr>lv_borrow := Some k, lv_idle := None\<rparr>) p)\<lparr>rp_groups := (rp_groups p)[fa_index group' := Some k], rp_borrow_count := k + 1\<rparr>)))"

definition Started :: "reuse_key \<Rightarrow> file_admission \<Rightarrow> nat \<Rightarrow> int \<Rightarrow> reuse_pool \<Rightarrow> borrow option \<times> reuse_pool" where
  "Started key group' worker pid p =
     (if rp_stopped p \<or> rp_draining p \<or> key \<noteq> rp_key p \<or> \<not> NewGroup p group' \<or> rp_limit p \<le> rp_physical p \<or> length (rp_hosts p) \<le> rp_host_count p \<or>
         worker = 0 \<or> worker \<le> rp_highest p \<or> pid \<le> 0 \<or> 2147483647 < pid \<or> \<not> CanChange p then (None, p)
      else if list_ex (\<lambda>l. map_option ho_pid (live_host p l) = Some pid) (rp_live p) then (None, p)
      else case List.find (\<lambda>i. lv_record (rp_live p ! i) = None) [0..<length (rp_live p)] of
             None \<Rightarrow> (None, p)
           | Some i \<Rightarrow>
               let r = rp_host_count p; host' = \<lparr>ho_lease = r + 1, ho_worker = worker, ho_pid = pid\<rparr>;
                   p = p\<lparr>rp_hosts := (rp_hosts p)[r := (rp_hosts p ! r)\<lparr>hr_host := host'\<rparr>], rp_host_count := r + 1,
                         rp_physical := rp_physical p + 1, rp_highest := worker\<rparr>;
                   (b, p) = NewBorrow i host' group' (set_live i (\<lambda>l. l\<lparr>lv_record := Some r, lv_state := Busy\<rparr>) p)
               in (Some b, Changed p))"

definition Reuse :: "host \<Rightarrow> reuse_key \<Rightarrow> file_admission \<Rightarrow> reuse_pool \<Rightarrow> borrow option \<times> reuse_pool" where
  "Reuse host' key group' p =
     (case reuse_Find p host' of
        None \<Rightarrow> (None, p)
      | Some i \<Rightarrow>
          if rp_stopped p \<or> rp_draining p \<or> key \<noteq> rp_key p \<or> lv_state (rp_live p ! i) \<noteq> HostIdle \<or> hr_exit (host_at p i) \<noteq> None \<or>
             \<not> NewGroup p group' \<or> \<not> CanChange p then (None, p)
          else let (b, p) = NewBorrow i host' group' (set_live i (\<lambda>l. l\<lparr>lv_state := Busy\<rparr>) p) in (Some b, Changed p))"

definition reuse_Complete :: "borrow \<Rightarrow> reuse_outcome \<Rightarrow> reuse_pool \<Rightarrow> bool \<times> reuse_pool" where
  "reuse_Complete b outcome p =
     (case (reuse_Find p (bo_host b), borrow_Find p b) of
        (Some i, Some k) \<Rightarrow>
          if \<not> reuse_Current p (rp_live p ! i) b \<or> br_receipt (rp_borrows p ! k) \<noteq> RActive \<or> hr_physical_retired (host_at p i) \<or>
             br_outcome (rp_borrows p ! k) \<noteq> None \<or> \<not> CanChange p then (False, p)
          else let p = Changed (set_borrow k (\<lambda>r. r\<lparr>br_outcome := Some outcome\<rparr>) p)
               in (True, if outcome \<noteq> RPassed then Drain p else p)
      | _ \<Rightarrow> (False, p))"

definition RequestIdle :: "borrow \<Rightarrow> group_fence \<Rightarrow> double \<Rightarrow> double \<Rightarrow> reuse_pool \<Rightarrow> idle_request option \<times> reuse_pool" where
  "RequestIdle b fence now deadline p =
     (case (reuse_Find p (bo_host b), borrow_Find p b) of
        (Some i, Some k) \<Rightarrow>
          if rp_stopped p \<or> rp_draining p \<or> lv_state (rp_live p ! i) \<noteq> Busy \<or> \<not> reuse_Current p (rp_live p ! i) b \<or>
             br_outcome (rp_borrows p ! k) \<noteq> Some RPassed \<or> \<not> reuse_Clean fence \<or> \<not> reuse_Extends (lv_fixtures (rp_live p ! i)) (gf_retained fence) \<or>
             \<not> isfinite now \<or> \<not> isfinite deadline \<or> dless now (hr_last_observed (host_at p i)) \<or> dle deadline now \<or> dless (dadd now (Fin 1000)) deadline \<or>
             (case rp_global_deadline p of None \<Rightarrow> False | Some d \<Rightarrow> dless d deadline) \<or> rp_request p = u64_max \<or> \<not> CanChange p
          then (None, p)
          else let request = \<lparr>ir_borrow = b, ir_request = rp_request p + 1, ir_requested = now, ir_deadline = deadline, ir_fixtures = length (gf_retained fence)\<rparr>;
                   p = set_host i (\<lambda>h. h\<lparr>hr_last_observed := now\<rparr>) p;
                   p = set_live i (\<lambda>l. l\<lparr>lv_fixtures := gf_retained fence, lv_idle := Some request, lv_state := AwaitingACK\<rparr>) p
               in (Some request, Changed (p\<lparr>rp_request := rp_request p + 1\<rparr>))
      | _ \<Rightarrow> (None, p))"

text \<open>\<open>live->idle\<close> is the request that the acknowledgement answers.\<close>

definition acknowledges :: "idle_request option \<Rightarrow> idle_ack \<Rightarrow> bool" where
  "acknowledges asked ack \<longleftrightarrow>
     (case asked of
        None \<Rightarrow> False
      | Some q \<Rightarrow> ir_borrow q = ia_borrow ack \<and> ir_request q = ia_request ack \<and> ir_fixtures q = ia_fixtures ack)"

definition Acknowledge :: "idle_ack \<Rightarrow> double \<Rightarrow> reuse_pool \<Rightarrow> bool \<times> reuse_pool" where
  "Acknowledge ack now p =
     (case reuse_Find p (bo_host (ia_borrow ack)) of
        None \<Rightarrow> (False, p)
      | Some i \<Rightarrow>
          let l = rp_live p ! i
          in if rp_stopped p \<or> rp_draining p \<or> lv_state l \<noteq> AwaitingACK \<or> \<not> acknowledges (lv_idle l) ack \<or> \<not> isfinite now \<or>
                dless now (ir_requested (the (lv_idle l))) \<or> dle (ir_deadline (the (lv_idle l))) now \<or> \<not> CanChange p then (False, p)
             else let p = set_borrow (the (lv_borrow l)) (\<lambda>r. r\<lparr>br_idle_request := ia_request ack, br_acknowledged := now\<rparr>) p;
                      p = set_host i (\<lambda>h. h\<lparr>hr_last_observed := now\<rparr>) p
                  in (True, Changed (set_live i (\<lambda>l. l\<lparr>lv_state := AwaitingInventory\<rparr>) p)))"

definition ObserveCanceledIdleACK :: "idle_ack \<Rightarrow> double \<Rightarrow> reuse_pool \<Rightarrow> bool \<times> reuse_pool" where
  "ObserveCanceledIdleACK ack now p =
     (case (reuse_Find p (bo_host (ia_borrow ack)), borrow_Find p (ia_borrow ack)) of
        (Some i, Some k) \<Rightarrow>
          let l = rp_live p ! i; r = rp_borrows p ! k
          in if \<not> rp_stopped p \<and> \<not> rp_draining p \<or> lv_state l \<noteq> Retiring \<or> \<not> reuse_Current p l (ia_borrow ack) \<or> lv_idle l = None \<or>
                br_receipt r \<noteq> RActive \<or> br_idle_request r \<noteq> 0 \<or> br_canceled_idle_request r \<noteq> 0 \<or> hr_exit (host_at p i) \<noteq> None \<or>
                \<not> acknowledges (lv_idle l) ack \<or> \<not> isfinite now \<or> dless now (ir_requested (the (lv_idle l))) \<or>
                dless now (hr_last_observed (host_at p i)) \<or> \<not> CanChange p then (False, p)
             else (True, Changed (set_host i (\<lambda>h. h\<lparr>hr_last_observed := now\<rparr>)
                    (set_borrow k (\<lambda>r. r\<lparr>br_canceled_idle_request := ia_request ack, br_canceled_acknowledged := now\<rparr>) p)))
      | _ \<Rightarrow> (False, p))"

definition InventoryProbe :: "reuse_pool \<Rightarrow> probe option" where
  "InventoryProbe p =
     (if rp_stopped p \<or> rp_draining p \<or> rp_physical p = 0 then None
      else let used = filter (\<lambda>l. lv_record l \<noteq> None) (rp_live p)
           in if list_ex (\<lambda>l. lv_state l \<noteq> AwaitingInventory \<and> lv_state l \<noteq> HostIdle) used then None
              else if list_ex (\<lambda>l. lv_state l = AwaitingInventory) used
              then Some \<lparr>pr_version = rp_version p, pr_hosts = map (\<lambda>l. the (live_host p l)) used\<rparr> else None)"

definition cohort_ok :: "reuse_pool \<Rightarrow> host \<Rightarrow> cohort_fence \<Rightarrow> bool" where
  "cohort_ok p host' fence \<longleftrightarrow>
     bo_host (cf_borrow fence) = host' \<and>
     (case reuse_Find p host' of
        None \<Rightarrow> False
      | Some i \<Rightarrow> reuse_Current p (rp_live p ! i) (cf_borrow fence) \<and> reuse_Clean (cf_fence fence) \<and>
          SameFixtures (lv_fixtures (rp_live p ! i)) (gf_retained (cf_fence fence)))"

definition inventory_timely :: "inventory \<Rightarrow> double \<Rightarrow> reuse_pool \<Rightarrow> live \<Rightarrow> bool" where
  "inventory_timely inventory now p l \<longleftrightarrow>
     (lv_record l \<noteq> None \<and> lv_state l = AwaitingInventory \<longrightarrow>
        \<not> dless (iv_observed inventory) (br_acknowledged (rp_borrows p ! the (lv_borrow l))) \<and>
        (case lv_idle l of None \<Rightarrow> False | Some q \<Rightarrow> \<not> dle (ir_deadline q) now))"

definition transfer :: "double \<Rightarrow> nat \<Rightarrow> reuse_pool \<Rightarrow> reuse_pool" where
  "transfer now i p =
     (let l = rp_live p ! i
      in if lv_record l \<noteq> None \<and> lv_state l = AwaitingInventory
         then set_live i (\<lambda>l. l\<lparr>lv_state := HostIdle, lv_idle := None\<rparr>)
                (set_host i (\<lambda>h. h\<lparr>hr_last_observed := now\<rparr>)
                   (set_borrow (the (lv_borrow l)) (\<lambda>r. r\<lparr>br_receipt := IdleTransferred, br_transferred := now\<rparr>) p))
         else p)"

definition ConfirmInventory :: "inventory \<Rightarrow> cohort_fence list \<Rightarrow> double \<Rightarrow> reuse_pool \<Rightarrow> bool \<times> reuse_pool" where
  "ConfirmInventory inventory fences now p =
     (case InventoryProbe p of
        None \<Rightarrow> (False, p)
      | Some expected \<Rightarrow>
          if \<not> iv_complete inventory \<or> \<not> iv_children_clear inventory \<or> pr_version (iv_probe inventory) \<noteq> pr_version expected \<or>
             length (pr_hosts (iv_probe inventory)) \<noteq> length (pr_hosts expected) \<or> length fences \<noteq> length (pr_hosts expected) \<or> \<not> isfinite now \<or>
             \<not> isfinite (iv_observed inventory) \<or> dless (iv_observed inventory) (Fin 0) \<or> dless now (iv_observed inventory) \<or> \<not> CanChange p
          then (False, p)
          else if pr_hosts (iv_probe inventory) \<noteq> pr_hosts expected \<or> \<not> list_all2 (cohort_ok p) (pr_hosts expected) fences then (False, p)
          else if \<not> list_all (inventory_timely inventory now p) (rp_live p) then (False, p)
          else (True, Changed (fold (transfer now) [0..<length (rp_live p)] p)))"

definition PrimaryExited :: "host \<Rightarrow> exit_status \<Rightarrow> double \<Rightarrow> reuse_pool \<Rightarrow> bool \<times> reuse_pool" where
  "PrimaryExited host' status now p =
     (case reuse_Find p host' of
        None \<Rightarrow> (False, p)
      | Some i \<Rightarrow>
          if hr_exit (host_at p i) \<noteq> None \<or> ex_code status < 0 \<or> 255 < ex_code status \<or> (ex_signaled status \<and> ex_code status = 0) \<or> \<not> isfinite now \<or>
             dless now (hr_last_observed (host_at p i)) \<or> \<not> CanChange p then (False, p)
          else (True, Drain (Changed (set_host i (\<lambda>h. h\<lparr>hr_exit := Some status, hr_exited := now, hr_last_observed := now\<rparr>) p))))"

definition reuse_Retired :: "host \<Rightarrow> retirement_fence \<Rightarrow> double \<Rightarrow> reuse_pool \<Rightarrow> bool \<times> reuse_pool" where
  "reuse_Retired host' fence now p =
     (case reuse_Find p host' of
        None \<Rightarrow> (False, p)
      | Some i \<Rightarrow>
          if hr_exit (host_at p i) = None \<or> \<not> RetirementReady fence \<or> \<not> isfinite now \<or> dless now (hr_last_observed (host_at p i)) \<or> \<not> CanChange p then (False, p)
          else let l = rp_live p ! i;
                   p = set_host i (\<lambda>h. h\<lparr>hr_physical_retired := True, hr_retired := now\<rparr>) p;
                   p = (case lv_borrow l of
                          None \<Rightarrow> p
                        | Some k \<Rightarrow> set_borrow k (\<lambda>r. if br_receipt r = RActive then r\<lparr>br_receipt := PhysicalRetired\<rparr> else r) p);
                   p = (set_live i (\<lambda>_. fresh_live) p)\<lparr>rp_physical := usub (rp_physical p) 1\<rparr>
               in (True, Changed (if rp_physical p = 0 then p\<lparr>rp_draining := False\<rparr> else p)))"

text \<open>A live row whose idle request is still open and is due.\<close>

definition idle_open :: "live \<Rightarrow> bool" where
  "idle_open l \<longleftrightarrow> lv_record l \<noteq> None \<and> lv_idle l \<noteq> None \<and> (lv_state l = AwaitingACK \<or> lv_state l = AwaitingInventory)"

definition ExpireIdle :: "double \<Rightarrow> reuse_pool \<Rightarrow> bool \<times> reuse_pool" where
  "ExpireIdle now p =
     (if \<not> isfinite now then (False, p)
      else if list_ex (\<lambda>l. idle_open l \<and> dle (ir_deadline (the (lv_idle l))) now) (rp_live p) then (True, Drain p)
      else (False, p))"

definition NextIdleDeadline :: "reuse_pool \<Rightarrow> double option" where
  "NextIdleDeadline p =
     fold (\<lambda>l earliest. if idle_open l \<and> (case earliest of None \<Rightarrow> True | Some d \<Rightarrow> dless (ir_deadline (the (lv_idle l))) d)
                        then Some (ir_deadline (the (lv_idle l))) else earliest) (rp_live p) None"

definition reuse_Idle :: "host \<Rightarrow> reuse_pool \<Rightarrow> bool" where
  "reuse_Idle host' p \<longleftrightarrow> (case reuse_Find p host' of None \<Rightarrow> False | Some i \<Rightarrow> lv_state (rp_live p ! i) = HostIdle \<and> \<not> rp_stopped p \<and> \<not> rp_draining p)"

definition reuse_NeedsRetirement :: "host \<Rightarrow> reuse_pool \<Rightarrow> bool" where
  "reuse_NeedsRetirement host' p \<longleftrightarrow> (case reuse_Find p host' of None \<Rightarrow> False | Some i \<Rightarrow> lv_state (rp_live p ! i) = Retiring)"

definition reuse_Transferred :: "borrow \<Rightarrow> reuse_pool \<Rightarrow> bool" where
  "reuse_Transferred b p \<longleftrightarrow> (case borrow_Find p b of None \<Rightarrow> False | Some k \<Rightarrow> br_receipt (rp_borrows p ! k) = IdleTransferred)"

definition PhysicallyRetired :: "host \<Rightarrow> reuse_pool \<Rightarrow> bool" where
  "PhysicallyRetired host' p \<longleftrightarrow>
     ho_lease host' \<noteq> 0 \<and> ho_lease host' \<le> rp_host_count p \<and> hr_host (rp_hosts p ! (ho_lease host' - 1)) = host' \<and>
     hr_physical_retired (rp_hosts p ! (ho_lease host' - 1))"

definition RetainedFixtures :: "reuse_pool \<Rightarrow> nat" where
  "RetainedFixtures p = sum_list (map (\<lambda>l. if lv_record l \<noteq> None then length (lv_fixtures l) else 0) (rp_live p))"

section \<open>The invariant\<close>

text \<open>
  A live row refers to a host record that is not retired and to the borrow that has the host. A borrow is
  recorded once for its group; one that is still active is that of a live row; a transferred one has
  passed and was acknowledged.
\<close>

definition live_row_ok :: "reuse_pool \<Rightarrow> live \<Rightarrow> bool" where
  "live_row_ok p l \<longleftrightarrow>
     (case lv_record l of
        None \<Rightarrow> l = fresh_live
      | Some r \<Rightarrow> r < rp_host_count p \<and> \<not> hr_physical_retired (rp_hosts p ! r) \<and> length (lv_fixtures l) \<le> 64 \<and>
          (\<exists>k. lv_borrow l = Some k \<and> k < rp_borrow_count p \<and> bo_host (br_borrow (rp_borrows p ! k)) = hr_host (rp_hosts p ! r)))"

definition live_distinct :: "reuse_pool \<Rightarrow> bool" where
  "live_distinct p \<longleftrightarrow>
     (\<forall>i < length (rp_live p). \<forall>j < length (rp_live p). \<forall>r r'. lv_record (rp_live p ! i) = Some r \<longrightarrow> lv_record (rp_live p ! j) = Some r' \<longrightarrow> i \<noteq> j \<longrightarrow>
        r \<noteq> r' \<and> ho_pid (hr_host (rp_hosts p ! r)) \<noteq> ho_pid (hr_host (rp_hosts p ! r')))"

definition borrow_row_ok :: "reuse_pool \<Rightarrow> nat \<Rightarrow> bool" where
  "borrow_row_ok p k \<longleftrightarrow>
     (let b = rp_borrows p ! k; g = fa_index (bo_group (br_borrow b))
      in bo_generation (br_borrow b) = k + 1 \<and> g < length (rp_groups p) \<and> rp_groups p ! g = Some k \<and>
         (br_receipt b = RActive \<longrightarrow> (\<exists>l \<in> set (rp_live p). lv_record l \<noteq> None \<and> lv_borrow l = Some k)) \<and>
         (br_receipt b = IdleTransferred \<longrightarrow> br_outcome b = Some RPassed \<and> br_idle_request b \<noteq> 0))"

definition host_row_ok :: "reuse_pool \<Rightarrow> nat \<Rightarrow> bool" where
  "host_row_ok p r \<longleftrightarrow>
     (if r < rp_host_count p
      then ho_lease (hr_host (rp_hosts p ! r)) = r + 1 \<and> (\<not> hr_physical_retired (rp_hosts p ! r) \<longrightarrow> (\<exists>l \<in> set (rp_live p). lv_record l = Some r))
      else rp_hosts p ! r = fresh_host)"

definition reuse_core :: "reuse_pool \<Rightarrow> bool" where
  "reuse_core p \<longleftrightarrow>
     length (rp_live p) = 8 \<and> 0 < rp_limit p \<and> rp_limit p \<le> 8 \<and> rp_host_count p \<le> length (rp_hosts p) \<and> rp_borrow_count p \<le> length (rp_borrows p) \<and>
     (\<forall>i < 8. live_row_ok p (rp_live p ! i)) \<and> live_distinct p \<and> (\<forall>k < rp_borrow_count p. borrow_row_ok p k) \<and>
     (\<forall>k < length (rp_borrows p). rp_borrow_count p \<le> k \<longrightarrow> rp_borrows p ! k = fresh_borrow) \<and>
     (\<forall>r < length (rp_hosts p). host_row_ok p r) \<and>
     rp_physical p = count_if (\<lambda>l. lv_record l \<noteq> None) (rp_live p) \<and> rp_physical p \<le> rp_limit p"

text \<open>The state of a live row says how far its borrow has come; the hosts retire together.\<close>

definition row_state_ok :: "live \<Rightarrow> host_record \<Rightarrow> borrow_record \<Rightarrow> bool" where
  "row_state_ok l h b \<longleftrightarrow>
     (case lv_state l of
        Busy \<Rightarrow> br_receipt b = RActive
      | AwaitingACK \<Rightarrow> br_receipt b = RActive \<and> br_outcome b = Some RPassed \<and> (\<exists>q. lv_idle l = Some q \<and> ir_request q \<noteq> 0)
      | AwaitingInventory \<Rightarrow> br_receipt b = RActive \<and> br_outcome b = Some RPassed \<and> br_idle_request b \<noteq> 0
      | HostIdle \<Rightarrow> br_receipt b = IdleTransferred
      | Retiring \<Rightarrow> True) \<and>
     (lv_state l \<noteq> Retiring \<longrightarrow> hr_exit h = None)"

definition reuse_states :: "reuse_pool \<Rightarrow> bool" where
  "reuse_states p \<longleftrightarrow>
     (\<forall>i < 8. \<forall>r k. lv_record (rp_live p ! i) = Some r \<longrightarrow> lv_borrow (rp_live p ! i) = Some k \<longrightarrow>
        row_state_ok (rp_live p ! i) (rp_hosts p ! r) (rp_borrows p ! k) \<and> (lv_state (rp_live p ! i) = Retiring \<longleftrightarrow> rp_draining p)) \<and>
     (rp_stopped p \<longrightarrow> rp_draining p \<or> rp_physical p = 0) \<and> (rp_draining p \<longrightarrow> rp_physical p \<noteq> 0)"

definition reuse_inv :: "reuse_pool \<Rightarrow> bool" where
  "reuse_inv p \<longleftrightarrow> reuse_core p \<and> reuse_states p"

lemma reuse_coreD:
  assumes "reuse_core p"
  shows "length (rp_live p) = 8" "0 < rp_limit p \<and> rp_limit p \<le> 8" "rp_host_count p \<le> length (rp_hosts p)" "rp_borrow_count p \<le> length (rp_borrows p)"
    "\<And>i. i < 8 \<Longrightarrow> live_row_ok p (rp_live p ! i)" "live_distinct p" "\<And>k. k < rp_borrow_count p \<Longrightarrow> borrow_row_ok p k"
    "\<And>k. k < length (rp_borrows p) \<Longrightarrow> rp_borrow_count p \<le> k \<Longrightarrow> rp_borrows p ! k = fresh_borrow" "\<And>r. r < length (rp_hosts p) \<Longrightarrow> host_row_ok p r"
    "rp_physical p = count_if (\<lambda>l. lv_record l \<noteq> None) (rp_live p)" "rp_physical p \<le> rp_limit p"
  using assms unfolding reuse_core_def by - (elim conjE, (assumption | blast))+

lemma live_distinctD:
  "live_distinct p \<Longrightarrow> i < length (rp_live p) \<Longrightarrow> j < length (rp_live p) \<Longrightarrow> lv_record (rp_live p ! i) = Some r \<Longrightarrow> lv_record (rp_live p ! j) = Some r' \<Longrightarrow> i \<noteq> j \<Longrightarrow>
     r \<noteq> r' \<and> ho_pid (hr_host (rp_hosts p ! r)) \<noteq> ho_pid (hr_host (rp_hosts p ! r'))"
  unfolding live_distinct_def by blast

text \<open>An occupied row.\<close>

definition occupied :: "reuse_pool \<Rightarrow> nat \<Rightarrow> nat \<Rightarrow> nat \<Rightarrow> bool" where
  "occupied p i r k \<longleftrightarrow> i < 8 \<and> lv_record (rp_live p ! i) = Some r \<and> lv_borrow (rp_live p ! i) = Some k"

lemma occupiedD:
  assumes "reuse_core p" "occupied p i r k"
  shows "i < 8" "lv_record (rp_live p ! i) = Some r" "lv_borrow (rp_live p ! i) = Some k" "r < rp_host_count p" "r < length (rp_hosts p)"
    "k < rp_borrow_count p" "k < length (rp_borrows p)" "\<not> hr_physical_retired (rp_hosts p ! r)" "bo_host (br_borrow (rp_borrows p ! k)) = hr_host (rp_hosts p ! r)"
    "ho_lease (hr_host (rp_hosts p ! r)) = r + 1" "length (lv_fixtures (rp_live p ! i)) \<le> 64"
proof -
  note c = reuse_coreD [OF assms(1)]
  show o: "i < 8" "lv_record (rp_live p ! i) = Some r" "lv_borrow (rp_live p ! i) = Some k" using assms(2) by (simp_all add: occupied_def)
  have l: "live_row_ok p (rp_live p ! i)" using c(5) [OF o(1)] .
  show "r < rp_host_count p" "k < rp_borrow_count p" "\<not> hr_physical_retired (rp_hosts p ! r)" "bo_host (br_borrow (rp_borrows p ! k)) = hr_host (rp_hosts p ! r)"
    "length (lv_fixtures (rp_live p ! i)) \<le> 64"
    using l o by (auto simp: live_row_ok_def)
  then show r: "r < length (rp_hosts p)" "k < length (rp_borrows p)" using c(3,4) by simp_all
  show "ho_lease (hr_host (rp_hosts p ! r)) = r + 1" using c(9) [OF r(1)] \<open>r < rp_host_count p\<close> by (simp add: host_row_ok_def)
qed

lemma occupied_cases:
  assumes "reuse_core p" "i < 8"
  obtains "lv_record (rp_live p ! i) = None" "rp_live p ! i = fresh_live" | r k where "occupied p i r k"
  using reuse_coreD(5) [OF assms] assms(2) by (cases "lv_record (rp_live p ! i)") (auto simp: live_row_ok_def occupied_def)

lemma occupied_apart:
  assumes "reuse_core p" "occupied p i r k" "occupied p j r' k'" "i \<noteq> j"
  shows "r \<noteq> r'" "k \<noteq> k'" "ho_pid (hr_host (rp_hosts p ! r)) \<noteq> ho_pid (hr_host (rp_hosts p ! r'))"
proof -
  note c = reuse_coreD [OF assms(1)] and o = occupiedD [OF assms(1,2)] and o' = occupiedD [OF assms(1,3)]
  show r: "r \<noteq> r'" and "ho_pid (hr_host (rp_hosts p ! r)) \<noteq> ho_pid (hr_host (rp_hosts p ! r'))"
    using c(6) o(1,2) o'(1,2) assms(4) c(1) unfolding live_distinct_def by metis+
  show "k \<noteq> k'" using o(9,10) o'(9,10) r by auto
qed

lemma reuse_Find_occupied:
  assumes "reuse_core p" "reuse_Find p h = Some i"
  obtains r k where "occupied p i r k" "hr_host (rp_hosts p ! r) = h"
proof -
  have i: "i < 8" "live_host p (rp_live p ! i) = Some h"
    using assms(2) reuse_coreD(1) [OF assms(1)] by (auto simp: reuse_Find_def find_Some_iff)
  from assms(1) i(1) show ?thesis
  proof (cases rule: occupied_cases)
    case 2
    then show ?thesis using that i(2) by (auto simp: live_host_def occupied_def)
  qed (use i(2) in \<open>simp add: live_host_def\<close>)
qed

section \<open>Updates that keep the invariant\<close>

text \<open>Counters that the core does not mention.\<close>

lemma reuse_core_frame:
  assumes "reuse_core p" "rp_live p' = rp_live p" "rp_hosts p' = rp_hosts p" "rp_borrows p' = rp_borrows p" "rp_groups p' = rp_groups p"
    "rp_limit p' = rp_limit p" "rp_host_count p' = rp_host_count p" "rp_borrow_count p' = rp_borrow_count p" "rp_physical p' = rp_physical p"
  shows "reuse_core p'"
  using assms(1) unfolding reuse_core_def live_row_ok_def live_distinct_def borrow_row_ok_def host_row_ok_def assms(2-9) .

lemma bex_update: "\<exists>x \<in> set xs. P x \<Longrightarrow> i < length xs \<Longrightarrow> (P (xs ! i) \<Longrightarrow> P y) \<Longrightarrow> \<exists>x \<in> set (xs[i := y]). P x"
  by (metis in_set_conv_nth length_list_update nth_list_update)

text \<open>A change of an occupied row, its host record and its borrow that keeps their identities.\<close>

definition row_update :: "reuse_pool \<Rightarrow> nat \<Rightarrow> nat \<Rightarrow> nat \<Rightarrow> live \<Rightarrow> host_record \<Rightarrow> borrow_record \<Rightarrow> reuse_pool" where
  "row_update p i r k l h b = p\<lparr>rp_live := (rp_live p)[i := l], rp_hosts := (rp_hosts p)[r := h], rp_borrows := (rp_borrows p)[k := b]\<rparr>"

definition same_identity :: "reuse_pool \<Rightarrow> nat \<Rightarrow> nat \<Rightarrow> live \<Rightarrow> host_record \<Rightarrow> borrow_record \<Rightarrow> bool" where
  "same_identity p r k l h b \<longleftrightarrow>
     lv_record l = Some r \<and> lv_borrow l = Some k \<and> length (lv_fixtures l) \<le> 64 \<and> hr_host h = hr_host (rp_hosts p ! r) \<and> \<not> hr_physical_retired h \<and>
     br_borrow b = br_borrow (rp_borrows p ! k) \<and> (br_receipt b = IdleTransferred \<longrightarrow> br_outcome b = Some RPassed \<and> br_idle_request b \<noteq> 0)"

lemma row_update_core:
  assumes "reuse_core p" "occupied p i r k" "same_identity p r k l h b"
  shows "reuse_core (row_update p i r k l h b)"
proof -
  note c = reuse_coreD [OF assms(1)] and o = occupiedD [OF assms(1,2)]
  note s = assms(3) [unfolded same_identity_def]
  let ?p = "row_update p i r k l h b"
  have f: "rp_live ?p = (rp_live p)[i := l]" "rp_hosts ?p = (rp_hosts p)[r := h]" "rp_borrows ?p = (rp_borrows p)[k := b]" "rp_groups ?p = rp_groups p"
    "rp_limit ?p = rp_limit p" "rp_host_count ?p = rp_host_count p" "rp_borrow_count ?p = rp_borrow_count p" "rp_physical ?p = rp_physical p"
    by (simp_all add: row_update_def)
  have host: "hr_host (rp_hosts ?p ! r') = hr_host (rp_hosts p ! r')" "hr_physical_retired (rp_hosts ?p ! r') \<longleftrightarrow> r' \<noteq> r \<and> hr_physical_retired (rp_hosts p ! r')" if "r' < length (rp_hosts p)" for r'
    using s that o(8) by (cases "r' = r"; simp add: f)+
  have bor: "br_borrow (rp_borrows ?p ! k') = br_borrow (rp_borrows p ! k')" if "k' < length (rp_borrows p)" for k'
    using s that by (cases "k' = k") (simp_all add: f)
  have rec: "lv_record (rp_live ?p ! j) = lv_record (rp_live p ! j)" "lv_borrow (rp_live ?p ! j) = lv_borrow (rp_live p ! j)" if "j < 8" for j
    using s o(2,3) that c(1) by (cases "j = i"; simp add: f)+
  have bex: "\<exists>l \<in> set (rp_live ?p). P (lv_record l) (lv_borrow l)" if "\<exists>l \<in> set (rp_live p). P (lv_record l) (lv_borrow l)" for P
    using bex_update [OF that, of i l] o(1,2,3) c(1) s unfolding f by simp
  have "live_row_ok ?p (rp_live ?p ! j)" if j: "j < 8" for j
    using assms(1) j
  proof (cases rule: occupied_cases)
    case 1
    then have "j \<noteq> i" using o(2) by auto
    then show ?thesis using 1 by (simp add: f live_row_ok_def fresh_live_def)
  next
    case (2 r' k')
    note o' = occupiedD [OF assms(1) 2]
    have "length (lv_fixtures (rp_live ?p ! j)) \<le> 64" using o'(11) s j c(1) by (cases "j = i") (simp_all add: f)
    moreover have "\<not> hr_physical_retired (rp_hosts ?p ! r')" "bo_host (br_borrow (rp_borrows ?p ! k')) = hr_host (rp_hosts ?p ! r')"
      using host [OF o'(5)] bor [OF o'(7)] o'(8,9) by simp_all
    ultimately show ?thesis using rec [OF j] o'(2,3,4,6) by (simp add: live_row_ok_def f(6,7))
  qed
  moreover have "live_distinct ?p"
    unfolding live_distinct_def
  proof (intro allI impI)
    fix a a' x x' assume a: "a < length (rp_live ?p)" "a' < length (rp_live ?p)" "lv_record (rp_live ?p ! a) = Some x" "lv_record (rp_live ?p ! a') = Some x'" "a \<noteq> a'"
    then have a8: "a < 8" "a' < 8" using c(1) by (simp_all add: f)
    have l: "lv_record (rp_live p ! a) = Some x" "lv_record (rp_live p ! a') = Some x'" using a(3,4) rec a8 by simp_all
    then have "x < length (rp_hosts p)" "x' < length (rp_hosts p)" using c(5) [OF a8(1)] c(5) [OF a8(2)] c(3) by (auto simp: live_row_ok_def)
    then show "x \<noteq> x' \<and> ho_pid (hr_host (rp_hosts ?p ! x)) \<noteq> ho_pid (hr_host (rp_hosts ?p ! x'))"
      using c(6) l a8 a(5) c(1) host(1) unfolding live_distinct_def by metis
  qed
  moreover have "borrow_row_ok ?p k'" if k': "k' < rp_borrow_count p" for k'
  proof -
    have old: "borrow_row_ok p k'" using c(7) [OF k'] .
    have kl: "k' < length (rp_borrows p)" using k' c(4) by simp
    have act: "\<exists>l \<in> set (rp_live ?p). lv_record l \<noteq> None \<and> lv_borrow l = Some k'" if "br_receipt (rp_borrows ?p ! k') = RActive"
    proof (cases "k' = k")
      case True
      have "l \<in> set (rp_live ?p)" using o(1) c(1) by (simp add: f set_update_memI)
      then show ?thesis using s True by auto
    next
      case False
      then have "\<exists>l \<in> set (rp_live p). lv_record l \<noteq> None \<and> lv_borrow l = Some k'" using that old by (simp add: f borrow_row_ok_def Let_def)
      then show ?thesis using bex [of "\<lambda>a b. a \<noteq> None \<and> b = Some k'"] by simp
    qed
    have "br_receipt (rp_borrows ?p ! k') = IdleTransferred \<longrightarrow> br_outcome (rp_borrows ?p ! k') = Some RPassed \<and> br_idle_request (rp_borrows ?p ! k') \<noteq> 0"
      using old s kl by (cases "k' = k") (simp_all add: f borrow_row_ok_def Let_def)
    then show ?thesis using old act bor [OF kl] by (simp add: borrow_row_ok_def Let_def f(4))
  qed
  moreover have "rp_borrows ?p ! k' = fresh_borrow" if "k' < length (rp_borrows p)" "rp_borrow_count p \<le> k'" for k'
    using c(8) [OF that] that(2) o(6) by (cases "k' = k") (simp_all add: f)
  moreover have "host_row_ok ?p r'" if "r' < length (rp_hosts p)" for r'
  proof (cases "r' < rp_host_count p")
    case True
    then have old: "ho_lease (hr_host (rp_hosts p ! r')) = r' + 1" "\<not> hr_physical_retired (rp_hosts p ! r') \<longrightarrow> (\<exists>l \<in> set (rp_live p). lv_record l = Some r')"
      using c(9) [OF that] by (simp_all add: host_row_ok_def)
    have "\<exists>l \<in> set (rp_live ?p). lv_record l = Some r'" if n: "\<not> hr_physical_retired (rp_hosts ?p ! r')"
    proof -
      have "\<not> hr_physical_retired (rp_hosts p ! r')" using n host(2) [OF \<open>r' < length (rp_hosts p)\<close>] o(8) by auto
      then show ?thesis using old(2) bex [of "\<lambda>a b. a = Some r'"] by simp
    qed
    then show ?thesis using True old(1) host(1) [OF that] by (simp add: host_row_ok_def f(6))
  next
    case False
    then show ?thesis using c(9) [OF that] o(4) by (cases "r' = r") (simp_all add: host_row_ok_def f)
  qed
  moreover have "count_if (\<lambda>l. lv_record l \<noteq> None) (rp_live ?p) = rp_physical p"
    using count_if_update [of i "rp_live p" "\<lambda>l. lv_record l \<noteq> None" l] o(1,2) c(1,10) s by (simp add: f)
  ultimately show ?thesis
    unfolding reuse_core_def using c(1-4,11) f by simp
qed

lemma reuse_statesD:
  assumes "reuse_states p" "occupied p i r k"
  shows "row_state_ok (rp_live p ! i) (rp_hosts p ! r) (rp_borrows p ! k)" "lv_state (rp_live p ! i) = Retiring \<longleftrightarrow> rp_draining p"
  using assms by (simp_all add: reuse_states_def occupied_def)

lemma row_update_inv:
  assumes "reuse_inv p" "occupied p i r k" "same_identity p r k l h b" "row_state_ok l h b" "lv_state l = Retiring \<longleftrightarrow> rp_draining p"
  shows "reuse_inv (row_update p i r k l h b)"
proof -
  let ?p = "row_update p i r k l h b"
  have c: "reuse_core p" and st: "reuse_states p" using assms(1) by (simp_all add: reuse_inv_def)
  note o = occupiedD [OF c assms(2)]
  have "row_state_ok (rp_live ?p ! j) (rp_hosts ?p ! r') (rp_borrows ?p ! k') \<and> (lv_state (rp_live ?p ! j) = Retiring \<longleftrightarrow> rp_draining ?p)"
    if j: "j < 8" "lv_record (rp_live ?p ! j) = Some r'" "lv_borrow (rp_live ?p ! j) = Some k'" for j r' k'
  proof (cases "j = i")
    case True
    then have "r' = r" "k' = k" using j assms(3) o(1) reuse_coreD(1) [OF c] by (simp_all add: row_update_def same_identity_def)
    then show ?thesis using True assms(4,5) o reuse_coreD(1) [OF c] by (simp add: row_update_def)
  next
    case False
    then have oc: "occupied p j r' k'" using j by (simp add: row_update_def occupied_def)
    have "r' \<noteq> r" "k' \<noteq> k" using occupied_apart [OF c oc assms(2) False] by simp_all
    then show ?thesis using False reuse_statesD [OF st oc] by (simp add: row_update_def)
  qed
  then have "reuse_states ?p" using st unfolding reuse_states_def by (simp add: row_update_def)
  then show ?thesis using row_update_core [OF c assms(2,3)] by (simp add: reuse_inv_def)
qed

lemma reuse_inv_frame:
  assumes "reuse_inv p" "rp_live p' = rp_live p" "rp_hosts p' = rp_hosts p" "rp_borrows p' = rp_borrows p" "rp_groups p' = rp_groups p"
    "rp_limit p' = rp_limit p" "rp_host_count p' = rp_host_count p" "rp_borrow_count p' = rp_borrow_count p" "rp_physical p' = rp_physical p"
    "rp_draining p' = rp_draining p" "rp_stopped p' = rp_stopped p"
  shows "reuse_inv p'"
proof -
  have "reuse_core p'" using assms(1) by (intro reuse_core_frame [OF _ assms(2-9)]) (simp add: reuse_inv_def)
  moreover have "reuse_states p'" using assms(1) unfolding reuse_inv_def reuse_states_def assms(2-11) by (rule conjunct2)
  ultimately show ?thesis by (simp add: reuse_inv_def)
qed

lemma Changed_fields [simp]:
  "rp_live (Changed p) = rp_live p" "rp_hosts (Changed p) = rp_hosts p" "rp_borrows (Changed p) = rp_borrows p" "rp_groups (Changed p) = rp_groups p"
  "rp_limit (Changed p) = rp_limit p" "rp_host_count (Changed p) = rp_host_count p" "rp_borrow_count (Changed p) = rp_borrow_count p"
  "rp_physical (Changed p) = rp_physical p" "rp_draining (Changed p) = rp_draining p" "rp_stopped (Changed p) = rp_stopped p" "rp_key (Changed p) = rp_key p"
  by (simp_all add: Changed_def)

lemma Changed_core [simp]: "reuse_core p \<Longrightarrow> reuse_core (Changed p)"
  by (erule reuse_core_frame) simp_all

lemma Changed_inv [simp]: "reuse_inv p \<Longrightarrow> reuse_inv (Changed p)"
  by (erule reuse_inv_frame) simp_all

text \<open>Draining makes every live row retire; it needs the core only.\<close>

lemma Drain_inv:
  assumes "reuse_core p"
  shows "reuse_inv (Drain p)"
proof -
  let ?f = "\<lambda>l :: live. if lv_record l \<noteq> None then l\<lparr>lv_state := Retiring\<rparr> else l"
  let ?p = "p\<lparr>rp_draining := (rp_physical p \<noteq> 0), rp_live := map ?f (rp_live p)\<rparr>"
  note c = reuse_coreD [OF assms]
  have at: "rp_live ?p ! j = ?f (rp_live p ! j)" if "j < 8" for j using that c(1) by simp
  have bex: "(\<exists>l \<in> set (rp_live ?p). P (lv_record l) (lv_borrow l)) \<longleftrightarrow> (\<exists>l \<in> set (rp_live p). P (lv_record l) (lv_borrow l))" for P
  proof -
    have "lv_record (?f l) = lv_record l" "lv_borrow (?f l) = lv_borrow l" for l :: live by simp_all
    moreover have "rp_live ?p = map ?f (rp_live p)" by simp
    ultimately show ?thesis by (simp only: set_map bex_simps)
  qed
  have row: "live_row_ok ?p (rp_live ?p ! j)" if "j < 8" for j
    using c(5) [OF that] unfolding at [OF that] live_row_ok_def by (auto split: option.splits)
  have rec: "lv_record (rp_live ?p ! j) = lv_record (rp_live p ! j)" if "j < 8" for j unfolding at [OF that] by simp
  have dist: "live_distinct ?p"
    unfolding live_distinct_def
  proof (intro allI impI)
    fix a a' x x' assume a: "a < length (rp_live ?p)" "a' < length (rp_live ?p)" "lv_record (rp_live ?p ! a) = Some x" "lv_record (rp_live ?p ! a') = Some x'" "a \<noteq> a'"
    then have "lv_record (rp_live p ! a) = Some x" "lv_record (rp_live p ! a') = Some x'" using c(1) rec by simp_all
    from live_distinctD [OF c(6) _ _ this a(5)] show "x \<noteq> x' \<and> ho_pid (hr_host (rp_hosts ?p ! x)) \<noteq> ho_pid (hr_host (rp_hosts ?p ! x'))"
      using a(1,2) by simp
  qed
  have bor: "borrow_row_ok ?p k" if "k < rp_borrow_count p" for k
    using c(7) [OF that] bex [of "\<lambda>a b. a \<noteq> None \<and> b = Some k"] by (simp add: borrow_row_ok_def Let_def)
  have hos: "host_row_ok ?p r" if "r < length (rp_hosts p)" for r
    using c(9) [OF that] bex [of "\<lambda>a b. a = Some r"] by (simp add: host_row_ok_def)
  have cnt: "count_if (\<lambda>l. lv_record l \<noteq> None) (rp_live ?p) = count_if (\<lambda>l. lv_record l \<noteq> None) (rp_live p)"
    by (simp add: count_if_def filter_map o_def)
  have core: "reuse_core ?p" unfolding reuse_core_def using c(1-4,8,10,11) row dist bor hos cnt by simp
  have "reuse_states ?p"
    unfolding reuse_states_def
  proof (intro conjI allI impI)
    fix i r k assume i: "i < 8" "lv_record (rp_live ?p ! i) = Some r" "lv_borrow (rp_live ?p ! i) = Some k"
    have s: "lv_record (rp_live p ! i) \<noteq> None" "lv_state (rp_live ?p ! i) = Retiring" using i(2) unfolding at [OF i(1)] by (auto split: if_splits)
    have "rp_physical p \<noteq> 0" using c(10) count_if_pos [of i "rp_live p" "\<lambda>l. lv_record l \<noteq> None"] i(1) c(1) s(1) by simp
    then show "row_state_ok (rp_live ?p ! i) (rp_hosts ?p ! r) (rp_borrows ?p ! k)" "lv_state (rp_live ?p ! i) = Retiring \<longleftrightarrow> rp_draining ?p"
      using s(2) by (simp_all add: row_state_ok_def)
  qed auto
  then have "reuse_inv ?p" using core by (simp add: reuse_inv_def)
  then show ?thesis unfolding Drain_def by simp
qed

text \<open>
  A host is lent to a new group: the row at a position takes the next borrow. The host is that of the row or,
  for a row that was free, a new one; if the row had a borrow, it is no longer active.
\<close>

lemma lend_core:
  assumes "reuse_core p" "i < 8" "rp_borrow_count p < length (rp_borrows p)" "NewGroup p g"
    and live: "rp_live p' = (rp_live p)[i := l]" "lv_record l = Some r" "lv_borrow l = Some (rp_borrow_count p)" "length (lv_fixtures l) \<le> 64"
    and bor: "rp_borrows p' = (rp_borrows p)[rp_borrow_count p := fresh_borrow\<lparr>br_borrow := \<lparr>bo_host = h, bo_group = g, bo_generation = rp_borrow_count p + 1\<rparr>\<rparr>]"
      "rp_borrow_count p' = rp_borrow_count p + 1" "rp_groups p' = (rp_groups p)[fa_index g := Some (rp_borrow_count p)]"
    and host: "length (rp_hosts p') = length (rp_hosts p)" "r < rp_host_count p'" "rp_host_count p' \<le> length (rp_hosts p)" "hr_host (rp_hosts p' ! r) = h"
      "\<not> hr_physical_retired (rp_hosts p' ! r)" "ho_lease h = r + 1" "\<And>r'. r' \<noteq> r \<Longrightarrow> rp_hosts p' ! r' = rp_hosts p ! r'"
      "\<And>r'. r' \<noteq> r \<Longrightarrow> r' < rp_host_count p' \<longleftrightarrow> r' < rp_host_count p"
    and old: "lv_record (rp_live p ! i) = None \<or> lv_record (rp_live p ! i) = Some r"
      "\<And>k. lv_record (rp_live p ! i) \<noteq> None \<Longrightarrow> lv_borrow (rp_live p ! i) = Some k \<Longrightarrow> br_receipt (rp_borrows p ! k) \<noteq> RActive"
    and other: "\<And>j r' k'. occupied p j r' k' \<Longrightarrow> j \<noteq> i \<Longrightarrow> r' \<noteq> r \<and> ho_pid (hr_host (rp_hosts p ! r')) \<noteq> ho_pid h"
    and count: "rp_limit p' = rp_limit p" "rp_physical p' = count_if (\<lambda>l. lv_record l \<noteq> None) (rp_live p')" "rp_physical p' \<le> rp_limit p"
  shows "reuse_core p'"
proof -
  note c = reuse_coreD [OF assms(1)]
  let ?k = "rp_borrow_count p"
  have len: "length (rp_live p') = 8" using live(1) c(1) by simp
  have g: "fa_index g < length (rp_groups p)" "rp_groups p ! fa_index g = None" using assms(4) by (simp_all add: NewGroup_def)
  have new: "rp_live p' ! i = l" "rp_borrows p' ! ?k = fresh_borrow\<lparr>br_borrow := \<lparr>bo_host = h, bo_group = g, bo_generation = ?k + 1\<rparr>\<rparr>"
    using live(1) bor(1) assms(2,3) c(1) by simp_all
  have same: "rp_live p' ! j = rp_live p ! j" if "j \<noteq> i" for j using that live(1) by simp
  have bsame: "rp_borrows p' ! k' = rp_borrows p ! k'" if "k' \<noteq> ?k" for k' using that bor(1) by simp
  have mem: "l \<in> set (rp_live p')" using live(1) assms(2) c(1) by (simp add: set_update_memI)
  have row: "live_row_ok p' (rp_live p' ! j)" if j: "j < 8" for j
  proof (cases "j = i")
    case True
    then show ?thesis using new live(2,3,4) host bor(2) by (simp add: live_row_ok_def)
  next
    case False
    from assms(1) j show ?thesis
    proof (cases rule: occupied_cases)
      case 1
      then show ?thesis using same [OF False] by (simp add: live_row_ok_def fresh_live_def)
    next
      case (2 r' k')
      note o = occupiedD [OF assms(1) 2]
      have "r' \<noteq> r" "k' \<noteq> ?k" using other [OF 2 False] o(6) by simp_all
      then show ?thesis using o host(7,8) bsame bor(2) same [OF False] by (simp add: live_row_ok_def)
    qed
  qed
  have dist: "live_distinct p'"
    unfolding live_distinct_def
  proof (intro allI impI)
    fix a a' x x' assume a: "a < length (rp_live p')" "a' < length (rp_live p')" "lv_record (rp_live p' ! a) = Some x" "lv_record (rp_live p' ! a') = Some x'" "a \<noteq> a'"
    have old_row: "\<exists>k. occupied p j y k" if "j < 8" "j \<noteq> i" "lv_record (rp_live p' ! j) = Some y" for j y
    proof -
      have "lv_record (rp_live p ! j) = Some y" using that same by simp
      with assms(1) that(1) show ?thesis by (cases rule: occupied_cases) (auto simp: occupied_def)
    qed
    show "x \<noteq> x' \<and> ho_pid (hr_host (rp_hosts p' ! x)) \<noteq> ho_pid (hr_host (rp_hosts p' ! x'))"
    proof (cases "a = i \<or> a' = i")
      case True
      then obtain b y where b: "b \<noteq> i" "b < 8" "lv_record (rp_live p' ! b) = Some y" "(x = r \<and> x' = y) \<or> (x = y \<and> x' = r)"
        using a len new(1) live(2) by (metis option.inject)
      then obtain k where "occupied p b y k" using old_row by blast
      then have "y \<noteq> r \<and> ho_pid (hr_host (rp_hosts p ! y)) \<noteq> ho_pid h" using other b(1) by blast
      then show ?thesis using b(4) host(4) host(7) [of y] by auto
    next
      case False
      then obtain k k' where oc: "occupied p a x k" "occupied p a' x' k'" using old_row a len by metis
      have "x \<noteq> r" "x' \<noteq> r" using other oc False by blast+
      then show ?thesis using occupied_apart [OF assms(1) oc a(5)] host(7) by simp
    qed
  qed
  have bex: "\<exists>x \<in> set (rp_live p'). P x" if "\<exists>x \<in> set (rp_live p). P x" "P (rp_live p ! i) \<Longrightarrow> P l" for P
    using bex_update [OF that(1), of i l] that(2) assms(2) c(1) unfolding live(1) by simp
  have borrow: "borrow_row_ok p' k'" if k': "k' < ?k + 1" for k'
  proof (cases "k' = ?k")
    case True
    have "\<exists>x \<in> set (rp_live p'). lv_record x \<noteq> None \<and> lv_borrow x = Some k'" using mem live(2,3) True by auto
    then show ?thesis using True new(2) g(1) bor(3) by (simp add: borrow_row_ok_def fresh_borrow_def)
  next
    case False
    then have ok: "borrow_row_ok p k'" using c(7) k' by simp
    then have ng: "fa_index (bo_group (br_borrow (rp_borrows p ! k'))) \<noteq> fa_index g" using g(2) by (auto simp: borrow_row_ok_def Let_def)
    have "\<exists>x \<in> set (rp_live p'). lv_record x \<noteq> None \<and> lv_borrow x = Some k'" if act: "br_receipt (rp_borrows p ! k') = RActive"
      by (rule bex) (use ok act old(2) in \<open>auto simp: borrow_row_ok_def Let_def\<close>)
    then show ?thesis using ok ng bsame [OF False] bor(3) by (simp add: borrow_row_ok_def Let_def)
  qed
  have hosts: "host_row_ok p' r'" if r': "r' < length (rp_hosts p)" for r'
  proof (cases "r' = r")
    case True
    then show ?thesis using host mem live(2) by (auto simp: host_row_ok_def)
  next
    case False
    have "\<exists>x \<in> set (rp_live p'). lv_record x = Some r'" if "\<exists>x \<in> set (rp_live p). lv_record x = Some r'"
      by (rule bex [OF that]) (use old(1) False in auto)
    then show ?thesis using c(9) [OF r'] host(7,8) [OF False] by (simp add: host_row_ok_def)
  qed
  have rest: "rp_borrows p' ! k' = fresh_borrow" if "k' < length (rp_borrows p)" "?k + 1 \<le> k'" for k'
    using c(8) [OF that(1)] bsame [of k'] that(2) by simp
  show ?thesis
    unfolding reuse_core_def using len c(2) host(1,3) assms(3) bor(1,2) row dist borrow rest hosts count by simp
qed

text \<open>A row is freed when its host has retired; its borrow is then no longer active.\<close>

lemma free_core:
  assumes "reuse_core p" "occupied p i r k"
    and p': "rp_live p' = (rp_live p)[i := fresh_live]" "rp_hosts p' = (rp_hosts p)[r := h]" "rp_borrows p' = (rp_borrows p)[k := b]" "rp_groups p' = rp_groups p"
      "rp_limit p' = rp_limit p" "rp_host_count p' = rp_host_count p" "rp_borrow_count p' = rp_borrow_count p" "rp_physical p' = rp_physical p - 1"
    and h: "hr_host h = hr_host (rp_hosts p ! r)" "hr_physical_retired h"
    and b: "br_borrow b = br_borrow (rp_borrows p ! k)" "br_receipt b \<noteq> RActive" "br_receipt b = IdleTransferred \<Longrightarrow> b = rp_borrows p ! k"
  shows "reuse_core p'"
proof -
  note c = reuse_coreD [OF assms(1)] and o = occupiedD [OF assms(1,2)]
  have same: "rp_live p' ! j = rp_live p ! j" if "j \<noteq> i" for j using that p'(1) by simp
  have row: "live_row_ok p' (rp_live p' ! j)" if j: "j < 8" for j
  proof (cases "j = i")
    case True
    then show ?thesis using p'(1) o(1) c(1) by (simp add: live_row_ok_def fresh_live_def)
  next
    case False
    from assms(1) j show ?thesis
    proof (cases rule: occupied_cases)
      case 1
      then show ?thesis using same [OF False] by (simp add: live_row_ok_def fresh_live_def)
    next
      case (2 r' k')
      note o' = occupiedD [OF assms(1) 2] and apart = occupied_apart [OF assms(1) 2 assms(2) False]
      show ?thesis using o' apart same [OF False] p'(2,3,6,7) by (simp add: live_row_ok_def)
    qed
  qed
  have rec: "lv_record (rp_live p ! j) = Some x \<and> j \<noteq> i" if "lv_record (rp_live p' ! j) = Some x" "j < 8" for j x
    using that p'(1) c(1) o(1) by (cases "j = i") (simp_all add: fresh_live_def)
  have dist: "live_distinct p'"
    unfolding live_distinct_def
  proof (intro allI impI)
    fix a a' x x' assume a: "a < length (rp_live p')" "a' < length (rp_live p')" "lv_record (rp_live p' ! a) = Some x" "lv_record (rp_live p' ! a') = Some x'" "a \<noteq> a'"
    then have a8: "a < length (rp_live p)" "a' < length (rp_live p)" "a < 8" "a' < 8" using p'(1) c(1) by simp_all
    then have r: "lv_record (rp_live p ! a) = Some x" "a \<noteq> i" "lv_record (rp_live p ! a') = Some x'" "a' \<noteq> i" using rec a(3,4) by simp_all
    have "x \<noteq> r" "x' \<noteq> r" using live_distinctD [OF c(6) _ _ _ o(2)] r a8 o(1) c(1) by auto
    then show "x \<noteq> x' \<and> ho_pid (hr_host (rp_hosts p' ! x)) \<noteq> ho_pid (hr_host (rp_hosts p' ! x'))"
      using live_distinctD [OF c(6) a8(1,2) r(1,3) a(5)] p'(2) by simp
  qed
  have bex: "\<exists>x \<in> set (rp_live p'). P x" if "\<exists>x \<in> set (rp_live p). P x" "\<not> P (rp_live p ! i)" for P
    using bex_update [OF that(1), of i fresh_live] that(2) o(1) c(1) unfolding p'(1) by simp
  have borrow: "borrow_row_ok p' k'" if k': "k' < rp_borrow_count p" for k'
  proof (cases "k' = k")
    case True
    then show ?thesis using c(7) [OF k'] b p'(3,4) o(7) by (auto simp: borrow_row_ok_def Let_def)
  next
    case False
    have "\<exists>x \<in> set (rp_live p'). lv_record x \<noteq> None \<and> lv_borrow x = Some k'" if "\<exists>x \<in> set (rp_live p). lv_record x \<noteq> None \<and> lv_borrow x = Some k'"
      by (rule bex [OF that]) (use o(3) False in simp)
    then show ?thesis using c(7) [OF k'] False p'(3,4) by (simp add: borrow_row_ok_def Let_def)
  qed
  have hosts: "host_row_ok p' r'" if r': "r' < length (rp_hosts p)" for r'
  proof (cases "r' = r")
    case True
    then show ?thesis using c(9) [OF r'] h p'(2,6) o(4,5) by (simp add: host_row_ok_def)
  next
    case False
    have "\<exists>x \<in> set (rp_live p'). lv_record x = Some r'" if "\<exists>x \<in> set (rp_live p). lv_record x = Some r'"
      by (rule bex [OF that]) (use o(2) False in simp)
    then show ?thesis using c(9) [OF r'] False p'(2,6) by (simp add: host_row_ok_def)
  qed
  have "count_if (\<lambda>l. lv_record l \<noteq> None) (rp_live p') + 1 = count_if (\<lambda>l. lv_record l \<noteq> None) (rp_live p)"
    using count_if_update [of i "rp_live p" "\<lambda>l. lv_record l \<noteq> None" fresh_live] o(1,2) c(1) by (simp add: p'(1) fresh_live_def)
  then have "rp_physical p' = count_if (\<lambda>l. lv_record l \<noteq> None) (rp_live p')" "rp_physical p' \<le> rp_limit p" using c(10,11) p'(8) by linarith+
  moreover have "rp_borrows p' ! k' = fresh_borrow" if "k' < length (rp_borrows p)" "rp_borrow_count p \<le> k'" for k'
    using c(8) [OF that] that(2) o(6) p'(3) by simp
  ultimately show ?thesis
    unfolding reuse_core_def using c(1-4) row dist borrow hosts p'(1-7) by simp
qed

section \<open>Every operation keeps the invariant\<close>

lemma reuse_invD: "reuse_inv p \<Longrightarrow> reuse_core p" "reuse_inv p \<Longrightarrow> reuse_states p"
  by (simp_all add: reuse_inv_def)

lemma borrow_Find_current:
  assumes "reuse_core p" "occupied p i r k" "reuse_Current p (rp_live p ! i) b" "borrow_Find p b = Some k'"
  shows "k' = k" "br_borrow (rp_borrows p ! k) = b"
proof -
  note o = occupiedD [OF assms(1,2)]
  show b: "br_borrow (rp_borrows p ! k) = b" using assms(3) o(3) by (simp add: reuse_Current_def)
  have "bo_generation b = k + 1" using reuse_coreD(7) [OF assms(1) o(6)] b by (simp add: borrow_row_ok_def Let_def)
  then show "k' = k" using assms(4) by (simp add: borrow_Find_def split: if_splits)
qed

lemma reuse_Complete_inv:
  assumes "reuse_inv p" "reuse_Complete b outcome p = (a, p')"
  shows "reuse_inv p'"
proof (cases a)
  case False
  then have "p' = p" using assms(2) by (auto simp: reuse_Complete_def Let_def split: option.splits if_splits)
  then show ?thesis using assms(1) by simp
next
  case True
  note c = reuse_invD [OF assms(1)]
  obtain i k where f: "reuse_Find p (bo_host b) = Some i" "borrow_Find p b = Some k" "reuse_Current p (rp_live p ! i) b" "br_receipt (rp_borrows p ! k) = RActive" "br_outcome (rp_borrows p ! k) = None"
    and p': "p' = (if outcome \<noteq> RPassed then Drain (Changed (set_borrow k (\<lambda>r. r\<lparr>br_outcome := Some outcome\<rparr>) p)) else Changed (set_borrow k (\<lambda>r. r\<lparr>br_outcome := Some outcome\<rparr>) p))"
    using assms(2) True by (auto simp: reuse_Complete_def Let_def split: option.splits if_splits)
  obtain r k0 where o: "occupied p i r k0" using reuse_Find_occupied [OF c(1) f(1)] by blast
  have k: "k0 = k" using borrow_Find_current(1) [OF c(1) o f(3,2)] by simp
  note o = o [unfolded k]
  let ?b = "(rp_borrows p ! k)\<lparr>br_outcome := Some outcome\<rparr>"
  have e: "set_borrow k (\<lambda>r. r\<lparr>br_outcome := Some outcome\<rparr>) p = row_update p i r k (rp_live p ! i) (rp_hosts p ! r) ?b"
    by (simp add: set_borrow_def row_update_def)
  have same: "same_identity p r k (rp_live p ! i) (rp_hosts p ! r) ?b" using occupiedD [OF c(1) o] f(4) by (simp add: same_identity_def)
  have st: "row_state_ok (rp_live p ! i) (rp_hosts p ! r) ?b"
    using reuse_statesD(1) [OF c(2) o] f(5) by (auto simp: row_state_ok_def split: reuse_state.splits)
  have "reuse_inv (set_borrow k (\<lambda>r. r\<lparr>br_outcome := Some outcome\<rparr>) p)"
    unfolding e by (rule row_update_inv [OF assms(1) o same st reuse_statesD(2) [OF c(2) o]])
  then show ?thesis unfolding p' using Drain_inv reuse_invD(1) by (cases "outcome = RPassed") simp_all
qed

lemma RequestIdle_inv:
  assumes "reuse_inv p" "RequestIdle b fence now deadline p = (a, p')"
  shows "reuse_inv p'"
proof (cases a)
  case None
  then have "p' = p" using assms(2) by (auto simp: RequestIdle_def Let_def split: option.splits if_splits)
  then show ?thesis using assms(1) by simp
next
  case (Some request)
  note c = reuse_invD [OF assms(1)]
  define l where "l = (\<lambda>x :: live. x\<lparr>lv_fixtures := gf_retained fence, lv_idle := Some request, lv_state := AwaitingACK\<rparr>)"
  obtain i k where f: "reuse_Find p (bo_host b) = Some i" "borrow_Find p b = Some k" "reuse_Current p (rp_live p ! i) b" "lv_state (rp_live p ! i) = Busy" "br_outcome (rp_borrows p ! k) = Some RPassed"
      "reuse_Extends (lv_fixtures (rp_live p ! i)) (gf_retained fence)" "\<not> rp_draining p" "ir_request request \<noteq> 0"
    and p': "p' = Changed ((set_live i l (set_host i (\<lambda>h. h\<lparr>hr_last_observed := now\<rparr>) p))\<lparr>rp_request := rp_request p + 1\<rparr>)"
    using assms(2) Some by (auto simp: RequestIdle_def Let_def l_def set_live_def set_host_def split: option.splits if_splits)
  obtain r k0 where o: "occupied p i r k0" using reuse_Find_occupied [OF c(1) f(1)] by blast
  have k: "k0 = k" using borrow_Find_current(1) [OF c(1) o f(3,2)] by simp
  note o = o [unfolded k]
  note d = occupiedD [OF c(1) o]
  let ?h = "(rp_hosts p ! r)\<lparr>hr_last_observed := now\<rparr>"
  have e: "set_live i l (set_host i (\<lambda>h. h\<lparr>hr_last_observed := now\<rparr>) p) = row_update p i r k (l (rp_live p ! i)) ?h (rp_borrows p ! k)"
    using d(2) by (simp add: set_live_def set_host_def row_update_def)
  have st: "row_state_ok (rp_live p ! i) (rp_hosts p ! r) (rp_borrows p ! k)" using reuse_statesD(1) [OF c(2) o] .
  have "same_identity p r k (l (rp_live p ! i)) ?h (rp_borrows p ! k)"
    using d st f(4,6) by (simp add: same_identity_def l_def row_state_ok_def reuse_Extends_def reuse_Valid_def)
  moreover have "row_state_ok (l (rp_live p ! i)) ?h (rp_borrows p ! k)" using st f(4,5,8) by (simp add: row_state_ok_def l_def)
  moreover have "lv_state (l (rp_live p ! i)) = Retiring \<longleftrightarrow> rp_draining p" using f(7) by (simp add: l_def)
  ultimately have "reuse_inv (set_live i l (set_host i (\<lambda>h. h\<lparr>hr_last_observed := now\<rparr>) p))" unfolding e by (rule row_update_inv [OF assms(1) o])
  then show ?thesis unfolding p' by (intro Changed_inv) (erule reuse_inv_frame, simp_all)
qed

lemma Acknowledge_inv:
  assumes "reuse_inv p" "Acknowledge ack now p = (a, p')"
  shows "reuse_inv p'"
proof (cases a)
  case False
  then have "p' = p" using assms(2) by (auto simp: Acknowledge_def Let_def split: option.splits if_splits)
  then show ?thesis using assms(1) by simp
next
  case True
  note c = reuse_invD [OF assms(1)]
  define l where "l = (\<lambda>x :: live. x\<lparr>lv_state := AwaitingInventory\<rparr>)"
  define b where "b = (\<lambda>x :: borrow_record. x\<lparr>br_idle_request := ia_request ack, br_acknowledged := now\<rparr>)"
  obtain i where f: "reuse_Find p (bo_host (ia_borrow ack)) = Some i" "lv_state (rp_live p ! i) = AwaitingACK" "acknowledges (lv_idle (rp_live p ! i)) ack" "\<not> rp_draining p"
    and p': "p' = Changed (set_live i l (set_host i (\<lambda>h. h\<lparr>hr_last_observed := now\<rparr>) (set_borrow (the (lv_borrow (rp_live p ! i))) b p)))"
    using assms(2) True by (auto simp: Acknowledge_def Let_def l_def b_def split: option.splits if_splits)
  obtain r k where o: "occupied p i r k" using reuse_Find_occupied [OF c(1) f(1)] by blast
  note d = occupiedD [OF c(1) o]
  let ?h = "(rp_hosts p ! r)\<lparr>hr_last_observed := now\<rparr>"
  have e: "set_live i l (set_host i (\<lambda>h. h\<lparr>hr_last_observed := now\<rparr>) (set_borrow (the (lv_borrow (rp_live p ! i))) b p)) =
      row_update p i r k (l (rp_live p ! i)) ?h (b (rp_borrows p ! k))"
    using d(2,3) by (simp add: set_live_def set_host_def set_borrow_def row_update_def)
  have st: "row_state_ok (rp_live p ! i) (rp_hosts p ! r) (rp_borrows p ! k)" using reuse_statesD(1) [OF c(2) o] .
  have "same_identity p r k (l (rp_live p ! i)) ?h (b (rp_borrows p ! k))" using d st f(2) by (simp add: same_identity_def l_def b_def row_state_ok_def)
  moreover have "row_state_ok (l (rp_live p ! i)) ?h (b (rp_borrows p ! k))"
    using st f(2,3) by (auto simp: row_state_ok_def l_def b_def acknowledges_def)
  moreover have "lv_state (l (rp_live p ! i)) = Retiring \<longleftrightarrow> rp_draining p" using f(4) by (simp add: l_def)
  ultimately show ?thesis unfolding p' e by (intro Changed_inv row_update_inv [OF assms(1) o])
qed

lemma ObserveCanceledIdleACK_inv:
  assumes "reuse_inv p" "ObserveCanceledIdleACK ack now p = (a, p')"
  shows "reuse_inv p'"
proof (cases a)
  case False
  then have "p' = p" using assms(2) by (auto simp: ObserveCanceledIdleACK_def Let_def split: option.splits if_splits)
  then show ?thesis using assms(1) by simp
next
  case True
  note c = reuse_invD [OF assms(1)]
  define b where "b = (\<lambda>x :: borrow_record. x\<lparr>br_canceled_idle_request := ia_request ack, br_canceled_acknowledged := now\<rparr>)"
  obtain i k where f: "reuse_Find p (bo_host (ia_borrow ack)) = Some i" "borrow_Find p (ia_borrow ack) = Some k" "reuse_Current p (rp_live p ! i) (ia_borrow ack)"
      "br_receipt (rp_borrows p ! k) = RActive" "lv_state (rp_live p ! i) = Retiring"
    and p': "p' = Changed (set_host i (\<lambda>h. h\<lparr>hr_last_observed := now\<rparr>) (set_borrow k b p))"
    using assms(2) True by (auto simp: ObserveCanceledIdleACK_def Let_def b_def split: option.splits if_splits)
  obtain r k0 where o: "occupied p i r k0" using reuse_Find_occupied [OF c(1) f(1)] by blast
  have k: "k0 = k" using borrow_Find_current(1) [OF c(1) o f(3,2)] by simp
  note o = o [unfolded k]
  note d = occupiedD [OF c(1) o]
  let ?h = "(rp_hosts p ! r)\<lparr>hr_last_observed := now\<rparr>"
  have e: "set_host i (\<lambda>h. h\<lparr>hr_last_observed := now\<rparr>) (set_borrow k b p) = row_update p i r k (rp_live p ! i) ?h (b (rp_borrows p ! k))"
    using d(2) by (simp add: set_host_def set_borrow_def row_update_def)
  have "same_identity p r k (rp_live p ! i) ?h (b (rp_borrows p ! k))" using d f(4) by (simp add: same_identity_def b_def)
  moreover have "row_state_ok (rp_live p ! i) ?h (b (rp_borrows p ! k))" using f(5) by (simp add: row_state_ok_def)
  ultimately show ?thesis unfolding p' e by (intro Changed_inv row_update_inv [OF assms(1) o]) (assumption | rule reuse_statesD(2) [OF c(2) o])+
qed

lemma transfer_inv:
  assumes "reuse_inv p" "i < 8" "\<not> rp_draining p"
  shows "reuse_inv (transfer now i p) \<and> \<not> rp_draining (transfer now i p)"
proof (cases "lv_record (rp_live p ! i) \<noteq> None \<and> lv_state (rp_live p ! i) = AwaitingInventory")
  case True
  note c = reuse_invD [OF assms(1)]
  obtain r k where o: "occupied p i r k" using occupied_cases [OF c(1) assms(2)] True by metis
  note d = occupiedD [OF c(1) o] and st = reuse_statesD(1) [OF c(2) o]
  let ?l = "(rp_live p ! i)\<lparr>lv_state := HostIdle, lv_idle := None\<rparr>" and ?h = "(rp_hosts p ! r)\<lparr>hr_last_observed := now\<rparr>"
    and ?b = "(rp_borrows p ! k)\<lparr>br_receipt := IdleTransferred, br_transferred := now\<rparr>"
  have e: "transfer now i p = row_update p i r k ?l ?h ?b"
    using True d(2,3) by (simp add: transfer_def set_live_def set_host_def set_borrow_def row_update_def Let_def)
  have "same_identity p r k ?l ?h ?b" using d st True by (simp add: same_identity_def row_state_ok_def)
  moreover have "row_state_ok ?l ?h ?b" using st True by (simp add: row_state_ok_def)
  ultimately have "reuse_inv (transfer now i p)" unfolding e by (rule row_update_inv [OF assms(1) o]) (use assms(3) in simp)
  then show ?thesis using assms(3) by (simp add: e row_update_def)
qed (use assms in \<open>auto simp: transfer_def Let_def\<close>)

lemma transfers_inv:
  "\<forall>i \<in> set is. i < 8 \<Longrightarrow> reuse_inv p \<Longrightarrow> \<not> rp_draining p \<Longrightarrow> reuse_inv (fold (transfer now) is p)"
proof (induction "is" arbitrary: p)
  case (Cons i "is")
  have "reuse_inv (transfer now i p) \<and> \<not> rp_draining (transfer now i p)" using Cons.prems by (intro transfer_inv) simp_all
  then show ?case using Cons.IH Cons.prems(1) by simp
qed simp

lemma ConfirmInventory_inv:
  assumes "reuse_inv p" "ConfirmInventory inventory fences now p = (a, p')"
  shows "reuse_inv p'"
proof (cases a)
  case False
  then have "p' = p" using assms(2) by (auto simp: ConfirmInventory_def split: option.splits if_splits)
  then show ?thesis using assms(1) by simp
next
  case True
  then obtain expected where f: "InventoryProbe p = Some expected" and p': "p' = Changed (fold (transfer now) [0..<length (rp_live p)] p)"
    using assms(2) by (auto simp: ConfirmInventory_def split: option.splits if_splits)
  have "\<not> rp_draining p" using f by (auto simp: InventoryProbe_def split: if_splits)
  then have "reuse_inv (fold (transfer now) [0..<length (rp_live p)] p)"
    using reuse_coreD(1) [OF reuse_invD(1) [OF assms(1)]] by (intro transfers_inv [OF _ assms(1)]) simp_all
  then show ?thesis unfolding p' by simp
qed

lemma PrimaryExited_inv:
  assumes "reuse_inv p" "PrimaryExited h status now p = (a, p')"
  shows "reuse_inv p'"
proof (cases a)
  case False
  then have "p' = p" using assms(2) by (auto simp: PrimaryExited_def split: option.splits if_splits)
  then show ?thesis using assms(1) by simp
next
  case True
  note c = reuse_invD [OF assms(1)]
  define g where "g = (\<lambda>x :: host_record. x\<lparr>hr_exit := Some status, hr_exited := now, hr_last_observed := now\<rparr>)"
  obtain i where f: "reuse_Find p h = Some i" and p': "p' = Drain (Changed (set_host i g p))"
    using assms(2) True by (auto simp: PrimaryExited_def g_def split: option.splits if_splits)
  obtain r k where o: "occupied p i r k" using reuse_Find_occupied [OF c(1) f] by blast
  note d = occupiedD [OF c(1) o]
  have e: "set_host i g p = row_update p i r k (rp_live p ! i) (g (rp_hosts p ! r)) (rp_borrows p ! k)"
    using d(2) by (simp add: set_host_def row_update_def)
  have "same_identity p r k (rp_live p ! i) (g (rp_hosts p ! r)) (rp_borrows p ! k)"
    using d reuse_coreD(7) [OF c(1) d(6)] by (simp add: same_identity_def g_def borrow_row_ok_def Let_def)
  then have "reuse_core (set_host i g p)" unfolding e by (rule row_update_core [OF c(1) o])
  then show ?thesis unfolding p' by (intro Drain_inv) simp
qed

lemma ExpireIdle_inv: "reuse_inv p \<Longrightarrow> ExpireIdle now p = (a, p') \<Longrightarrow> reuse_inv p'"
  using Drain_inv reuse_invD(1) by (auto simp: ExpireIdle_def split: if_splits)

lemma reuse_Stop_inv: "reuse_inv p \<Longrightarrow> reuse_inv (reuse_Stop p)"
  unfolding reuse_Stop_def by (intro Drain_inv, erule reuse_core_frame [OF reuse_invD(1)]) simp_all

lemma lend_states:
  assumes "reuse_core p" "reuse_states p" "i < 8" "\<not> rp_draining p" "\<not> rp_draining p'" "\<not> rp_stopped p'"
    and live: "rp_live p' = (rp_live p)[i := l]" "lv_record l = Some r" "lv_borrow l = Some k" "lv_state l = Busy" "hr_exit (rp_hosts p' ! r) = None" "br_receipt (rp_borrows p' ! k) = RActive"
    and other: "\<And>r'. r' \<noteq> r \<Longrightarrow> rp_hosts p' ! r' = rp_hosts p ! r'" "\<And>k'. k' < rp_borrow_count p \<Longrightarrow> rp_borrows p' ! k' = rp_borrows p ! k'"
      "\<And>j r' k'. occupied p j r' k' \<Longrightarrow> j \<noteq> i \<Longrightarrow> r' \<noteq> r"
  shows "reuse_states p'"
proof -
  have "row_state_ok (rp_live p' ! j) (rp_hosts p' ! r') (rp_borrows p' ! k') \<and> (lv_state (rp_live p' ! j) = Retiring \<longleftrightarrow> rp_draining p')"
    if j: "j < 8" "lv_record (rp_live p' ! j) = Some r'" "lv_borrow (rp_live p' ! j) = Some k'" for j r' k'
  proof (cases "j = i")
    case True
    then have "rp_live p' ! j = l" using live(1) assms(3) reuse_coreD(1) [OF assms(1)] by simp
    then show ?thesis using j live assms(5) by (simp add: row_state_ok_def)
  next
    case False
    then have oc: "occupied p j r' k'" using j live(1) by (simp add: occupied_def)
    then show ?thesis using False other reuse_statesD [OF assms(2) oc] occupiedD(6) [OF assms(1) oc] live(1) assms(4,5) by simp
  qed
  then show ?thesis using assms(5,6) by (simp add: reuse_states_def)
qed

lemma NewGroup_bounds: "NewGroup p g \<Longrightarrow> rp_borrow_count p < length (rp_borrows p)"
  by (simp add: NewGroup_def)

text \<open>The pool after \<open>NewBorrow\<close> on a row.\<close>

definition lent :: "reuse_pool \<Rightarrow> nat \<Rightarrow> live \<Rightarrow> borrow \<Rightarrow> reuse_pool" where
  "lent p i l b = p\<lparr>rp_live := (rp_live p)[i := l\<lparr>lv_borrow := Some (rp_borrow_count p), lv_idle := None\<rparr>],
     rp_borrows := (rp_borrows p)[rp_borrow_count p := (rp_borrows p ! rp_borrow_count p)\<lparr>br_borrow := b\<rparr>],
     rp_groups := (rp_groups p)[fa_index (bo_group b) := Some (rp_borrow_count p)], rp_borrow_count := rp_borrow_count p + 1\<rparr>"

definition next_borrow :: "reuse_pool \<Rightarrow> host \<Rightarrow> file_admission \<Rightarrow> borrow" where
  "next_borrow p h g = \<lparr>bo_host = h, bo_group = g, bo_generation = rp_borrow_count p + 1\<rparr>"

lemma NewBorrow_lent:
  assumes "i < length (rp_live p)"
  shows "NewBorrow i h g (set_live i f p) = (next_borrow p h g, lent p i (f (rp_live p ! i)) (next_borrow p h g))"
  using assms by (simp add: NewBorrow_def set_live_def set_borrow_def lent_def next_borrow_def Let_def)

lemma Reuse_Some:
  assumes "reuse_core p" "Reuse h key g p = (Some b, p')"
  shows "\<exists>i r k. occupied p i r k \<and> hr_host (rp_hosts p ! r) = h \<and> lv_state (rp_live p ! i) = HostIdle \<and> \<not> rp_stopped p \<and> \<not> rp_draining p \<and>
    hr_exit (rp_hosts p ! r) = None \<and> NewGroup p g \<and> b = next_borrow p h g \<and> p' = Changed (lent p i ((rp_live p ! i)\<lparr>lv_state := Busy\<rparr>) b)"
proof -
  obtain i where f: "reuse_Find p h = Some i" "\<not> rp_stopped p" "\<not> rp_draining p" "lv_state (rp_live p ! i) = HostIdle" "hr_exit (host_at p i) = None" "NewGroup p g"
    and nb: "(Some b, p') = (case NewBorrow i h g (set_live i (\<lambda>l. l\<lparr>lv_state := Busy\<rparr>) p) of (b, p) \<Rightarrow> (Some b, Changed p))"
    using assms(2) by (auto simp: Reuse_def split: option.splits if_splits)
  obtain r k where o: "occupied p i r k" "hr_host (rp_hosts p ! r) = h" using reuse_Find_occupied [OF assms(1) f(1)] by blast
  have i: "i < length (rp_live p)" using occupiedD(1) [OF assms(1) o(1)] reuse_coreD(1) [OF assms(1)] by simp
  have "hr_exit (rp_hosts p ! r) = None" using f(5) o(1) by (simp add: host_at_def occupied_def)
  moreover have "b = next_borrow p h g" "p' = Changed (lent p i ((rp_live p ! i)\<lparr>lv_state := Busy\<rparr>) b)"
    using nb unfolding NewBorrow_lent [OF i] by simp_all
  ultimately show ?thesis using o f(2,3,4,6) by blast
qed

lemma Reuse_inv:
  assumes "reuse_inv p" "Reuse h key g p = (a, p')"
  shows "reuse_inv p'"
proof (cases a)
  case None
  then have "p' = p" using assms(2) by (auto simp: Reuse_def split: option.splits if_splits prod.splits)
  then show ?thesis using assms(1) by simp
next
  case (Some b)
  note c = reuse_invD [OF assms(1)] and cd = reuse_coreD [OF reuse_invD(1) [OF assms(1)]]
  obtain i r k where f: "occupied p i r k" "hr_host (rp_hosts p ! r) = h" "lv_state (rp_live p ! i) = HostIdle" "\<not> rp_stopped p" "\<not> rp_draining p"
    "hr_exit (rp_hosts p ! r) = None" "NewGroup p g" "b = next_borrow p h g" and p': "p' = Changed (lent p i ((rp_live p ! i)\<lparr>lv_state := Busy\<rparr>) b)"
    using Reuse_Some [OF c(1)] assms(2) Some by blast
  note d = occupiedD [OF c(1) f(1)]
  let ?l = "(rp_live p ! i)\<lparr>lv_state := Busy, lv_borrow := Some (rp_borrow_count p), lv_idle := None\<rparr>"
  let ?p = "lent p i ((rp_live p ! i)\<lparr>lv_state := Busy\<rparr>) b"
  have bc: "rp_borrow_count p < length (rp_borrows p)" using NewGroup_bounds [OF f(7)] .
  have fresh: "rp_borrows p ! rp_borrow_count p = fresh_borrow" using cd(8) [OF bc] by simp
  have idle: "br_receipt (rp_borrows p ! k) \<noteq> RActive" using reuse_statesD(1) [OF c(2) f(1)] f(3) by (simp add: row_state_ok_def)
  have other: "r' \<noteq> r \<and> ho_pid (hr_host (rp_hosts p ! r')) \<noteq> ho_pid h" if "occupied p j r' k'" "j \<noteq> i" for j r' k'
    using occupied_apart [OF c(1) that(1) f(1) that(2)] f(2) by simp
  have fields: "rp_live ?p = (rp_live p)[i := ?l]" "rp_hosts ?p = rp_hosts p" "rp_borrow_count ?p = rp_borrow_count p + 1" "rp_host_count ?p = rp_host_count p"
    "rp_groups ?p = (rp_groups p)[fa_index g := Some (rp_borrow_count p)]" "rp_limit ?p = rp_limit p" "rp_physical ?p = rp_physical p" "rp_draining ?p = rp_draining p" "rp_stopped ?p = rp_stopped p"
    "rp_borrows ?p = (rp_borrows p)[rp_borrow_count p := fresh_borrow\<lparr>br_borrow := \<lparr>bo_host = h, bo_group = g, bo_generation = rp_borrow_count p + 1\<rparr>\<rparr>]"
    by (simp_all add: lent_def fresh f(8) next_borrow_def)
  have cnt: "rp_physical ?p = count_if (\<lambda>l. lv_record l \<noteq> None) (rp_live ?p)"
    using count_if_update [of i "rp_live p" "\<lambda>l. lv_record l \<noteq> None" ?l] d(1,2) cd(1,10) by (simp add: fields)
  have "reuse_core ?p"
    by (rule lend_core [OF c(1) d(1) bc f(7) fields(1) _ _ _ fields(10,3,5), of r])
      (use d cd(3,11) f(2) idle other cnt in \<open>simp_all add: fields(2,4,6,7)\<close>)
  moreover have "reuse_states ?p"
    by (rule lend_states [OF c(1,2) d(1) f(5) _ _ fields(1), of r "rp_borrow_count p"])
      (use d f(4,5,6) bc other in \<open>simp_all add: fields(2,8,9,10) fresh_borrow_def\<close>)
  ultimately show ?thesis unfolding p' by (intro Changed_inv) (simp add: reuse_inv_def)
qed

lemma Started_Some:
  assumes "reuse_core p" "Started key g worker pid p = (Some b, p')"
  shows "\<exists>i h. i < 8 \<and> lv_record (rp_live p ! i) = None \<and> h = \<lparr>ho_lease = rp_host_count p + 1, ho_worker = worker, ho_pid = pid\<rparr> \<and> \<not> rp_stopped p \<and> \<not> rp_draining p \<and>
    NewGroup p g \<and> rp_physical p < rp_limit p \<and> rp_host_count p < length (rp_hosts p) \<and> rp_highest p < worker \<and> 0 < pid \<and>
    (\<forall>l \<in> set (rp_live p). map_option ho_pid (live_host p l) \<noteq> Some pid) \<and> b = next_borrow p h g \<and>
    p' = Changed (lent (p\<lparr>rp_hosts := (rp_hosts p)[rp_host_count p := (rp_hosts p ! rp_host_count p)\<lparr>hr_host := h\<rparr>], rp_host_count := rp_host_count p + 1,
      rp_physical := rp_physical p + 1, rp_highest := worker\<rparr>) i ((rp_live p ! i)\<lparr>lv_record := Some (rp_host_count p), lv_state := Busy\<rparr>) b)"
proof -
  let ?h = "\<lparr>ho_lease = rp_host_count p + 1, ho_worker = worker, ho_pid = pid\<rparr>"
  let ?q = "p\<lparr>rp_hosts := (rp_hosts p)[rp_host_count p := (rp_hosts p ! rp_host_count p)\<lparr>hr_host := ?h\<rparr>], rp_host_count := rp_host_count p + 1,
      rp_physical := rp_physical p + 1, rp_highest := worker\<rparr>"
  obtain i where f: "List.find (\<lambda>i. lv_record (rp_live p ! i) = None) [0..<length (rp_live p)] = Some i" "\<not> rp_stopped p" "\<not> rp_draining p" "NewGroup p g" "rp_physical p < rp_limit p"
      "rp_host_count p < length (rp_hosts p)" "rp_highest p < worker" "0 < pid" "\<not> list_ex (\<lambda>l. map_option ho_pid (live_host p l) = Some pid) (rp_live p)"
    and nb: "(Some b, p') = (case NewBorrow i ?h g (set_live i (\<lambda>l. l\<lparr>lv_record := Some (rp_host_count p), lv_state := Busy\<rparr>) ?q) of (b, p) \<Rightarrow> (Some b, Changed p))"
    using assms(2) by (auto simp: Started_def Let_def split: option.splits if_splits)
  have i: "i < 8" "lv_record (rp_live p ! i) = None" using f(1) reuse_coreD(1) [OF assms(1)] by (auto simp: find_Some_iff)
  have iq: "i < length (rp_live ?q)" using i(1) reuse_coreD(1) [OF assms(1)] by simp
  have "b = next_borrow p ?h g" "p' = Changed (lent ?q i ((rp_live p ! i)\<lparr>lv_record := Some (rp_host_count p), lv_state := Busy\<rparr>) b)"
    using nb unfolding NewBorrow_lent [OF iq] by (simp_all add: next_borrow_def)
  moreover have "\<forall>l \<in> set (rp_live p). map_option ho_pid (live_host p l) \<noteq> Some pid" using f(9) by (simp add: list_ex_iff)
  ultimately show ?thesis using i f(2-8) by (intro exI [of _ i] exI [of _ ?h]) simp
qed

lemma Started_inv:
  assumes "reuse_inv p" "Started key g worker pid p = (a, p')"
  shows "reuse_inv p'"
proof (cases a)
  case None
  then have "p' = p" using assms(2) by (auto simp: Started_def Let_def split: option.splits if_splits prod.splits)
  then show ?thesis using assms(1) by simp
next
  case (Some b)
  note c = reuse_invD [OF assms(1)] and cd = reuse_coreD [OF reuse_invD(1) [OF assms(1)]]
  have st: "Started key g worker pid p = (Some b, p')" using assms(2) Some by simp
  let ?r = "rp_host_count p"
  obtain i h where f: "i < 8" "lv_record (rp_live p ! i) = None" "h = \<lparr>ho_lease = ?r + 1, ho_worker = worker, ho_pid = pid\<rparr>" "\<not> rp_stopped p" "\<not> rp_draining p"
      "NewGroup p g" "rp_physical p < rp_limit p" "?r < length (rp_hosts p)" "\<forall>l \<in> set (rp_live p). map_option ho_pid (live_host p l) \<noteq> Some pid" "b = next_borrow p h g"
    and p': "p' = Changed (lent (p\<lparr>rp_hosts := (rp_hosts p)[?r := (rp_hosts p ! ?r)\<lparr>hr_host := h\<rparr>], rp_host_count := ?r + 1,
      rp_physical := rp_physical p + 1, rp_highest := worker\<rparr>) i ((rp_live p ! i)\<lparr>lv_record := Some ?r, lv_state := Busy\<rparr>) b)"
    using Started_Some [OF c(1) st] by (elim exE conjE)
  define q where "q = lent (p\<lparr>rp_hosts := (rp_hosts p)[?r := (rp_hosts p ! ?r)\<lparr>hr_host := h\<rparr>], rp_host_count := ?r + 1,
      rp_physical := rp_physical p + 1, rp_highest := worker\<rparr>) i ((rp_live p ! i)\<lparr>lv_record := Some ?r, lv_state := Busy\<rparr>) b"
  let ?l = "fresh_live\<lparr>lv_record := Some ?r, lv_state := Busy, lv_borrow := Some (rp_borrow_count p)\<rparr>"
  have free: "rp_live p ! i = fresh_live" using cd(5) [OF f(1)] f(2) by (simp add: live_row_ok_def)
  have bc: "rp_borrow_count p < length (rp_borrows p)" using NewGroup_bounds [OF f(6)] .
  have fresh: "rp_borrows p ! rp_borrow_count p = fresh_borrow" "rp_hosts p ! ?r = fresh_host" using cd(8) [OF bc] cd(9) [OF f(8)] by (simp_all add: host_row_ok_def)
  have other: "r' \<noteq> ?r \<and> ho_pid (hr_host (rp_hosts p ! r')) \<noteq> ho_pid h" if oc: "occupied p j r' k'" for j r' k'
  proof -
    note d = occupiedD [OF c(1) oc]
    have "rp_live p ! j \<in> set (rp_live p)" using d(1) cd(1) by simp
    then have "map_option ho_pid (live_host p (rp_live p ! j)) \<noteq> Some pid" using f(9) by blast
    then show ?thesis using d(2,4) f(3) by (simp add: live_host_def)
  qed
  have fields: "rp_live q = (rp_live p)[i := ?l]" "rp_hosts q = (rp_hosts p)[?r := fresh_host\<lparr>hr_host := h\<rparr>]" "rp_borrow_count q = rp_borrow_count p + 1" "rp_host_count q = ?r + 1"
    "rp_groups q = (rp_groups p)[fa_index g := Some (rp_borrow_count p)]" "rp_limit q = rp_limit p" "rp_physical q = rp_physical p + 1" "rp_draining q = rp_draining p" "rp_stopped q = rp_stopped p"
    "rp_borrows q = (rp_borrows p)[rp_borrow_count p := fresh_borrow\<lparr>br_borrow := \<lparr>bo_host = h, bo_group = g, bo_generation = rp_borrow_count p + 1\<rparr>\<rparr>]"
    by (simp_all add: q_def lent_def fresh f(10) next_borrow_def free fresh_live_def)
  have cnt: "rp_physical q = count_if (\<lambda>l. lv_record l \<noteq> None) (rp_live q)"
    using count_if_update [of i "rp_live p" "\<lambda>l. lv_record l \<noteq> None" ?l] f(1,2) cd(1,10) by (simp add: fields)
  have "reuse_core q"
    by (rule lend_core [OF c(1) f(1) bc f(6) fields(1) _ _ _ fields(10,3,5), of ?r])
      (use f(2,3,7,8) other cnt in \<open>simp_all add: fields(2,4,6,7) fresh_live_def fresh_host_def less_Suc_eq\<close>)
  moreover have "reuse_states q"
    by (rule lend_states [OF c(1,2) f(1,5) _ _ fields(1), of ?r "rp_borrow_count p"])
      (use f(4,5,8) bc other in \<open>simp_all add: fields(2,8,9,10) fresh_borrow_def fresh_host_def\<close>)
  ultimately show ?thesis unfolding p' q_def [symmetric] by (intro Changed_inv) (simp add: reuse_inv_def)
qed

lemma reuse_Retired_inv:
  assumes "reuse_inv p" "reuse_Retired h fence now p = (a, p')"
  shows "reuse_inv p'"
proof (cases a)
  case False
  then have "p' = p" using assms(2) by (auto simp: reuse_Retired_def Let_def split: option.splits if_splits)
  then show ?thesis using assms(1) by simp
next
  case True
  note c = reuse_invD [OF assms(1)] and cd = reuse_coreD [OF reuse_invD(1) [OF assms(1)]]
  obtain i where f: "reuse_Find p h = Some i" "hr_exit (host_at p i) \<noteq> None" using assms(2) True by (auto simp: reuse_Retired_def split: option.splits if_splits)
  obtain r k where o: "occupied p i r k" using reuse_Find_occupied [OF c(1) f(1)] by blast
  note d = occupiedD [OF c(1) o]
  have pos: "0 < rp_physical p" using cd(10) count_if_pos [of i "rp_live p" "\<lambda>l. lv_record l \<noteq> None"] d(1,2) cd(1) by simp
  let ?h = "(rp_hosts p ! r)\<lparr>hr_physical_retired := True, hr_retired := now\<rparr>"
  let ?b = "if br_receipt (rp_borrows p ! k) = RActive then (rp_borrows p ! k)\<lparr>br_receipt := PhysicalRetired\<rparr> else rp_borrows p ! k"
  define q where "q = p\<lparr>rp_hosts := (rp_hosts p)[r := ?h], rp_borrows := (rp_borrows p)[k := ?b], rp_live := (rp_live p)[i := fresh_live], rp_physical := rp_physical p - 1\<rparr>"
  have p': "p' = Changed (if rp_physical q = 0 then q\<lparr>rp_draining := False\<rparr> else q)"
    using assms(2) True f d(2,3) pos by (simp add: reuse_Retired_def set_host_def set_borrow_def set_live_def q_def Let_def split: if_splits)
  have core: "reuse_core q" by (rule free_core [OF c(1) o, where h = ?h and b = ?b]) (simp_all add: q_def split: if_splits)
  have ret: "rp_draining p"
    using reuse_statesD [OF c(2) o] f(2) d(2) by (auto simp: row_state_ok_def host_at_def)
  show ?thesis
  proof (cases "rp_physical q = 0")
    case True
    let ?q = "q\<lparr>rp_draining := False\<rparr>"
    have core': "reuse_core ?q" by (rule reuse_core_frame [OF core]) simp_all
    have "lv_record (rp_live ?q ! j) = None" if "j < 8" for j
      using reuse_coreD(1,10) [OF core] True count_if_pos [of j "rp_live q" "\<lambda>l. lv_record l \<noteq> None"] that
      by (cases "lv_record (rp_live q ! j)") auto
    then have "reuse_states ?q" using True by (simp add: reuse_states_def)
    then have "reuse_inv ?q" using core' by (simp add: reuse_inv_def)
    then show ?thesis unfolding p' using True by simp
  next
    case False
    have "row_state_ok (rp_live q ! j) (rp_hosts q ! r') (rp_borrows q ! k') \<and> (lv_state (rp_live q ! j) = Retiring \<longleftrightarrow> rp_draining q)"
      if j: "j < 8" "lv_record (rp_live q ! j) = Some r'" "lv_borrow (rp_live q ! j) = Some k'" for j r' k'
    proof -
      have "j \<noteq> i" using j d(1) cd(1) by (auto simp: q_def fresh_live_def)
      then have oc: "occupied p j r' k'" using j by (simp add: q_def occupied_def)
      then have "r' \<noteq> r" "k' \<noteq> k" using occupied_apart [OF c(1) oc o \<open>j \<noteq> i\<close>] by simp_all
      then show ?thesis using reuse_statesD [OF c(2) oc] \<open>j \<noteq> i\<close> by (simp add: q_def)
    qed
    then have "reuse_states q" using False ret unfolding reuse_states_def by (simp add: q_def)
    then have "reuse_inv q" using core by (simp add: reuse_inv_def)
    then show ?thesis unfolding p' using False by simp
  qed
qed

section \<open>Histories\<close>

datatype reuse_call =
    CallStarted reuse_key file_admission nat int
  | CallReuse host reuse_key file_admission
  | CallComplete borrow reuse_outcome
  | CallRequestIdle borrow group_fence double double
  | CallAcknowledge idle_ack double
  | CallObserveCanceled idle_ack double
  | CallConfirm inventory "cohort_fence list" double
  | CallPrimaryExited host exit_status double
  | CallRetired host retirement_fence double
  | CallDrain
  | CallStop
  | CallExpire double

fun reuse_apply :: "reuse_call \<Rightarrow> reuse_pool \<Rightarrow> reuse_pool" where
  "reuse_apply (CallStarted key g worker pid) p = snd (Started key g worker pid p)"
| "reuse_apply (CallReuse h key g) p = snd (Reuse h key g p)"
| "reuse_apply (CallComplete b outcome) p = snd (reuse_Complete b outcome p)"
| "reuse_apply (CallRequestIdle b fence now deadline) p = snd (RequestIdle b fence now deadline p)"
| "reuse_apply (CallAcknowledge ack now) p = snd (Acknowledge ack now p)"
| "reuse_apply (CallObserveCanceled ack now) p = snd (ObserveCanceledIdleACK ack now p)"
| "reuse_apply (CallConfirm inventory fences now) p = snd (ConfirmInventory inventory fences now p)"
| "reuse_apply (CallPrimaryExited h status now) p = snd (PrimaryExited h status now p)"
| "reuse_apply (CallRetired h fence now) p = snd (reuse_Retired h fence now p)"
| "reuse_apply CallDrain p = Drain p"
| "reuse_apply CallStop p = reuse_Stop p"
| "reuse_apply (CallExpire now) p = snd (ExpireIdle now p)"

inductive reuse_step :: "reuse_pool \<Rightarrow> reuse_call \<Rightarrow> reuse_pool \<Rightarrow> bool" where
  reuse_called: "reuse_step p e (reuse_apply e p)"

inductive_simps reuse_step_iff: "reuse_step p e p'"

lemma reuse_apply_inv:
  assumes "reuse_inv p"
  shows "reuse_inv (reuse_apply e p)"
proof (cases e)
  case (CallStarted key g worker pid)
  then show ?thesis using Started_inv [OF assms, of key g worker pid] by (cases "Started key g worker pid p") simp
next
  case (CallReuse h key g)
  then show ?thesis using Reuse_inv [OF assms, of h key g] by (cases "Reuse h key g p") simp
next
  case (CallComplete b outcome)
  then show ?thesis using reuse_Complete_inv [OF assms, of b outcome] by (cases "reuse_Complete b outcome p") simp
next
  case (CallRequestIdle b fence now deadline)
  then show ?thesis using RequestIdle_inv [OF assms, of b fence now deadline] by (cases "RequestIdle b fence now deadline p") simp
next
  case (CallAcknowledge ack now)
  then show ?thesis using Acknowledge_inv [OF assms, of ack now] by (cases "Acknowledge ack now p") simp
next
  case (CallObserveCanceled ack now)
  then show ?thesis using ObserveCanceledIdleACK_inv [OF assms, of ack now] by (cases "ObserveCanceledIdleACK ack now p") simp
next
  case (CallConfirm inventory fences now)
  then show ?thesis using ConfirmInventory_inv [OF assms, of inventory fences now] by (cases "ConfirmInventory inventory fences now p") simp
next
  case (CallPrimaryExited h status now)
  then show ?thesis using PrimaryExited_inv [OF assms, of h status now] by (cases "PrimaryExited h status now p") simp
next
  case (CallRetired h fence now)
  then show ?thesis using reuse_Retired_inv [OF assms, of h fence now] by (cases "reuse_Retired h fence now p") simp
next
  case (CallExpire now)
  then show ?thesis using ExpireIdle_inv [OF assms, of now] by (cases "ExpireIdle now p") simp
qed (use assms Drain_inv reuse_invD(1) reuse_Stop_inv in simp_all)

interpretation worker_reuse: machine reuse_step reuse_inv
  by unfold_locales (auto simp: reuse_step_iff reuse_apply_inv)

lemma WorkerReusePool_inv:
  assumes "WorkerReusePool key limit capacity deadline = Inr p"
  shows "reuse_inv p"
proof -
  have f: "rp_live p = replicate 8 fresh_live" "rp_host_count p = 0" "rp_borrow_count p = 0" "rp_physical p = 0" "0 < rp_limit p" "rp_limit p \<le> 8"
    "rp_hosts p = replicate capacity fresh_host" "rp_borrows p = replicate capacity fresh_borrow" "\<not> rp_draining p" "\<not> rp_stopped p"
    using assms by (auto simp: WorkerReusePool_def split: if_splits)
  have row: "rp_live p ! i = fresh_live" if "i < 8" for i using f(1) that by simp
  have none: "lv_record fresh_live = None" by (simp add: fresh_live_def)
  have "count_if (\<lambda>l. lv_record l \<noteq> None) (rp_live p) = 0" unfolding f(1) count_if_def by (simp add: none)
  then have "reuse_core p"
    unfolding reuse_core_def using f row none by (simp add: live_row_ok_def live_distinct_def host_row_ok_def)
  moreover have "reuse_states p" unfolding reuse_states_def using f(9,10) row none by simp
  ultimately show ?thesis by (simp add: reuse_inv_def)
qed

text \<open>A borrow that is still active is the one of the live row of its host.\<close>

lemma active_borrow_row:
  assumes "reuse_core p" "k < rp_borrow_count p" "br_receipt (rp_borrows p ! k) = RActive"
  obtains i r where "occupied p i r k" "hr_host (rp_hosts p ! r) = bo_host (br_borrow (rp_borrows p ! k))"
proof -
  have "\<exists>l \<in> set (rp_live p). lv_record l \<noteq> None \<and> lv_borrow l = Some k"
    using reuse_coreD(7) [OF assms(1,2)] assms(3) by (simp add: borrow_row_ok_def Let_def)
  then obtain l r where l: "l \<in> set (rp_live p)" "lv_record l = Some r" "lv_borrow l = Some k" by blast
  then obtain i where "i < 8" "rp_live p ! i = l" using reuse_coreD(1) [OF assms(1)] by (metis in_set_conv_nth)
  then have "i < 8" "lv_record (rp_live p ! i) = Some r" "lv_borrow (rp_live p ! i) = Some k" using l by simp_all
  then have o: "occupied p i r k" by (simp add: occupied_def)
  show thesis using that [OF o] occupiedD(9) [OF assms(1) o] by simp
qed

lemma same_host_row:
  assumes "reuse_core p" "occupied p i r k" "occupied p j r' k'" "hr_host (rp_hosts p ! r) = hr_host (rp_hosts p ! r')"
  shows "i = j \<and> r = r' \<and> k = k'"
proof -
  have "ho_lease (hr_host (rp_hosts p ! r)) = ho_lease (hr_host (rp_hosts p ! r'))" using assms(4) by (rule arg_cong)
  then have "r = r'" using occupiedD(10) [OF assms(1,2)] occupiedD(10) [OF assms(1,3)] by linarith
  moreover from this have "i = j" using occupied_apart(1) [OF assms(1,2,3)] by blast
  ultimately show ?thesis using assms(2,3) by (simp add: occupied_def)
qed

section \<open>Properties\<close>

text \<open>
  C38: However the pool of reusable workers is driven, the number of physical hosts it counts is that of the
  live rows and at most its limit of at most eight; two live hosts never share a process; a host that was
  started is either live or physically retired; no group is ever lent a host twice; and of the borrows of a
  host at most one is active.
\<close>

theorem reuse_hosts_sound:
  assumes "WorkerReusePool key limit capacity deadline = Inr p0" "trace reuse_step p0 es p"
  shows "rp_physical p = length (filter (\<lambda>l. lv_record l \<noteq> None) (rp_live p)) \<and> rp_physical p \<le> rp_limit p \<and> rp_limit p \<le> 8 \<and>
    (\<forall>i j. i < 8 \<longrightarrow> j < 8 \<longrightarrow> i \<noteq> j \<longrightarrow> live_host p (rp_live p ! i) \<noteq> None \<longrightarrow>
       map_option ho_pid (live_host p (rp_live p ! i)) \<noteq> map_option ho_pid (live_host p (rp_live p ! j))) \<and>
    (\<forall>r < rp_host_count p. hr_physical_retired (rp_hosts p ! r) \<longleftrightarrow> \<not> (\<exists>l \<in> set (rp_live p). lv_record l = Some r)) \<and>
    (\<forall>k k'. k < rp_borrow_count p \<longrightarrow> k' < rp_borrow_count p \<longrightarrow> k \<noteq> k' \<longrightarrow>
       fa_index (bo_group (br_borrow (rp_borrows p ! k))) \<noteq> fa_index (bo_group (br_borrow (rp_borrows p ! k'))) \<and>
       (br_receipt (rp_borrows p ! k) = RActive \<longrightarrow> br_receipt (rp_borrows p ! k') = RActive \<longrightarrow>
          bo_host (br_borrow (rp_borrows p ! k)) \<noteq> bo_host (br_borrow (rp_borrows p ! k'))))"
proof -
  have inv: "reuse_inv p" using worker_reuse.trace_inv [OF assms(2) WorkerReusePool_inv [OF assms(1)]] .
  note c = reuse_invD(1) [OF inv] and cd = reuse_coreD [OF reuse_invD(1) [OF inv]]
  have pids: "map_option ho_pid (live_host p (rp_live p ! i)) \<noteq> map_option ho_pid (live_host p (rp_live p ! j))"
    if "i < 8" "j < 8" "i \<noteq> j" "live_host p (rp_live p ! i) \<noteq> None" for i j
    using live_distinctD [OF cd(6), of i j] that cd(1) by (cases "lv_record (rp_live p ! j)") (auto simp: live_host_def)
  have retired: "hr_physical_retired (rp_hosts p ! r) \<longleftrightarrow> \<not> (\<exists>l \<in> set (rp_live p). lv_record l = Some r)" if r: "r < rp_host_count p" for r
  proof -
    have "\<not> hr_physical_retired (rp_hosts p ! r)" if l: "l \<in> set (rp_live p)" "lv_record l = Some r" for l
    proof -
      have "live_row_ok p l" using l(1) cd(1,5) by (metis in_set_conv_nth)
      then show ?thesis using l(2) by (simp add: live_row_ok_def)
    qed
    moreover have "\<exists>l \<in> set (rp_live p). lv_record l = Some r" if "\<not> hr_physical_retired (rp_hosts p ! r)"
      using cd(9) [of r] cd(3) r that by (simp add: host_row_ok_def)
    ultimately show ?thesis by blast
  qed
  have groups: "fa_index (bo_group (br_borrow (rp_borrows p ! k))) \<noteq> fa_index (bo_group (br_borrow (rp_borrows p ! k')))"
    if "k < rp_borrow_count p" "k' < rp_borrow_count p" "k \<noteq> k'" for k k'
    using cd(7) [OF that(1)] cd(7) [OF that(2)] that(3) by (auto simp: borrow_row_ok_def Let_def)
  have hosts: "bo_host (br_borrow (rp_borrows p ! k)) \<noteq> bo_host (br_borrow (rp_borrows p ! k'))"
    if k: "k < rp_borrow_count p" "k' < rp_borrow_count p" "k \<noteq> k'" "br_receipt (rp_borrows p ! k) = RActive" "br_receipt (rp_borrows p ! k') = RActive" for k k'
  proof -
    obtain i r where o: "occupied p i r k" "hr_host (rp_hosts p ! r) = bo_host (br_borrow (rp_borrows p ! k))" by (rule active_borrow_row [OF c k(1,4)])
    obtain j r' where o': "occupied p j r' k'" "hr_host (rp_hosts p ! r') = bo_host (br_borrow (rp_borrows p ! k'))" by (rule active_borrow_row [OF c k(2,5)])
    show ?thesis using same_host_row [OF c o(1) o'(1)] o(2) o'(2) k(3) by auto
  qed
  show ?thesis using cd(2,10,11) pids retired groups hosts unfolding count_if_def by simp
qed


section \<open>Example\<close>

text \<open>A host is started for group 0, completes it, becomes idle and is lent to group 1.\<close>

definition example_key :: reuse_key where
  "example_key = \<lparr>rk_file = \<lparr>ft_id = 1, ft_device = 2, ft_inode = 3\<rparr>, rk_catalog = 4\<rparr>"

definition example_group :: "nat \<Rightarrow> file_admission" where
  "example_group n = \<lparr>fa_file = \<lparr>ft_id = 1, ft_device = 2, ft_inode = 3\<rparr>, fa_index = n, fa_generation = n + 1\<rparr>"

definition example_host :: host where
  "example_host = \<lparr>ho_lease = 1, ho_worker = 1, ho_pid = 100\<rparr>"

definition example_borrow :: borrow where
  "example_borrow = \<lparr>bo_host = example_host, bo_group = example_group 0, bo_generation = 1\<rparr>"

definition clean_fence :: group_fence where
  "clean_fence = \<lparr>gf_raw_callbacks = 0, gf_steps = 0, gf_step_callbacks = 0, gf_file_jobs = 0, gf_file_callbacks = 0, gf_file_step_fences = 0,
     gf_output_jobs = 0, gf_output_handshakes = 0, gf_test_fixtures = 0, gf_mutations = 0, gf_soft_pending = 0, gf_soft_contexts = 0,
     gf_clean_outcomes = True, gf_control_open = True, gf_fixtures_ready = True, gf_retained = []\<rparr>"

definition example_reuse_calls :: "reuse_call list" where
  "example_reuse_calls =
     [CallStarted example_key (example_group 0) 1 100, CallComplete example_borrow RPassed, CallRequestIdle example_borrow clean_fence (Fin 10) (Fin 500),
      CallAcknowledge \<lparr>ia_borrow = example_borrow, ia_request = 1, ia_fixtures = 0\<rparr> (Fin 20),
      CallConfirm \<lparr>iv_probe = \<lparr>pr_version = 5, pr_hosts = [example_host]\<rparr>, iv_observed = Fin 30, iv_complete = True, iv_children_clear = True\<rparr>
        [\<lparr>cf_borrow = example_borrow, cf_fence = clean_fence\<rparr>] (Fin 40)]"

definition example_reuse_pool :: reuse_pool where
  "example_reuse_pool = \<lparr>rp_key = example_key, rp_limit = 2, rp_host_count = 0, rp_borrow_count = 0, rp_physical = 0, rp_highest = 0, rp_version = 1, rp_request = 0,
     rp_draining = False, rp_stopped = False, rp_live = replicate 8 fresh_live, rp_hosts = replicate 2 fresh_host,
     rp_borrows = replicate 2 fresh_borrow, rp_groups = replicate 2 None, rp_global_deadline = None\<rparr>"

lemma example_reuse_pool: "WorkerReusePool example_key 2 2 None = Inr example_reuse_pool"
  by (simp add: WorkerReusePool_def example_reuse_pool_def example_key_def)

lemma trace_fold: "trace reuse_step p es (fold reuse_apply es p)"
  by (induction es arbitrary: p) (auto simp: trace_Cons_iff reuse_step_iff)

lemmas reuse_eval = example_key_def example_group_def example_host_def example_borrow_def clean_fence_def Started_def reuse_Complete_def RequestIdle_def
  Acknowledge_def ConfirmInventory_def InventoryProbe_def cohort_ok_def inventory_timely_def transfer_def reuse_Find_def borrow_Find_def reuse_Current_def
  host_at_def set_live_def set_host_def set_borrow_def NewBorrow_def NewGroup_def CanChange_def Changed_def live_host_def reuse_Clean_def reuse_Extends_def
  reuse_Valid_def SameFixtures_def acknowledges_def fresh_live_def fresh_host_def fresh_borrow_def zero_host_def u64_max_def rnd_numeral dle_def Let_def

lemma eight: "replicate 8 x = [x, x, x, x, x, x, x, x]" "replicate 2 x = [x, x]" "[0..<8] = [0, 1, 2, 3, 4, 5, 6, 7::nat]"
  by (simp_all add: numeral_eq_Suc upt_rec)

lemma example_reuse:
  "fst (Reuse example_host example_key (example_group 1) (fold reuse_apply example_reuse_calls example_reuse_pool)) =
     Some \<lparr>bo_host = example_host, bo_group = example_group 1, bo_generation = 2\<rparr>"
  "rp_physical (fold reuse_apply example_reuse_calls example_reuse_pool) = 1"
  by (simp_all add: example_reuse_pool_def example_reuse_calls_def eight Reuse_def reuse_eval)

theorem reuse_hosts_sound_witness:
  "length (filter (\<lambda>l. lv_record l \<noteq> None) (rp_live (fold reuse_apply example_reuse_calls example_reuse_pool))) = 1"
  using reuse_hosts_sound [OF example_reuse_pool trace_fold, of example_reuse_calls] example_reuse(2) by simp


end
