(* ===== verification/TestGroups.thy ===== *)
theory TestGroups
  imports FileGroups SuiteTree
begin

text \<open>
  \<open>test_group_tree.h\<close>, \<open>test_work_groups.h\<close> and the constructor of \<open>file_work_groups.h\<close>: how the selected
  tests are divided into work groups. The mode of a test is read off the modes declared on its ancestor
  suites, from the root: a parallel suite puts each of its tests alone, a serial suite keeps all of its
  selected tests together, and the outermost serial suite decides. The map of modes is an association list
  in the order of its keys; the other maps are partial functions, since only their entries are looked up.
\<close>

section \<open>The group tree\<close>

type_synonym suite_modes = "(nat \<times> work_group_mode) list"

record group_tree =
  gt_order :: "nat list"
  gt_tests :: "nat set"
  gt_modes :: suite_modes
  gt_ancestors :: "nat \<rightharpoonup> nat list"

definition group_error :: "string \<Rightarrow> 'a result" where
  "group_error m = Inl (Invalid_argument m)"

fun identity_loop :: "nat list \<Rightarrow> nat set \<Rightarrow> nat set result" where
  "identity_loop [] known = Inr known"
| "identity_loop (n # ns) known =
     (if n = 0 \<or> n \<in> known then group_error ''Native work-group test identity rejected'' else identity_loop ns (insert n known))"

text \<open>The walk from a parallel suite to the root; an accepted tree is at most 64 suites deep.\<close>

fun parallel_walk :: "nat \<Rightarrow> (nat \<rightharpoonup> nat) \<Rightarrow> (nat \<rightharpoonup> work_group_mode) \<Rightarrow> nat \<Rightarrow> unit result" where
  "parallel_walk 0 parents modes parent = (if parent = 0 then Inr () else Inl Out_of_fuel)"
| "parallel_walk (Suc fuel) parents modes parent =
     (if parent = 0 then Inr ()
      else if modes parent = Some MSerial then group_error ''Native parallel suite cannot be nested inside a serial suite''
      else case parents parent of None \<Rightarrow> Inl Out_of_range | Some parent \<Rightarrow> parallel_walk fuel parents modes parent)"

fun modes_loop :: "(nat \<rightharpoonup> nat) \<Rightarrow> (nat \<rightharpoonup> work_group_mode) \<Rightarrow> suite_modes \<Rightarrow> unit result" where
  "modes_loop parents modes [] = Inr ()"
| "modes_loop parents modes ((suite, mode) # rest) =
     (case parents suite of
        None \<Rightarrow> group_error ''Native work-group mode or suite owner rejected''
      | Some parent \<Rightarrow>
          bindR (if mode = MParallel then parallel_walk 64 parents modes parent else Inr ()) (\<lambda>_. modes_loop parents modes rest))"

definition NativeTestGroupTree :: "nat list \<Rightarrow> suite_declaration list \<Rightarrow> suite_test list \<Rightarrow> suite_modes \<Rightarrow> group_tree result" where
  "NativeTestGroupTree tests suites members modes =
     (if 4096 < length tests then group_error ''Native work-group test capacity4096 exceeded''
      else bindR (identity_loop tests {}) (\<lambda>ids.
        if suites = []
        then if members \<noteq> [] \<or> modes \<noteq> [] then group_error ''Native work-group suite mode has no actual tree''
             else Inr \<lparr>gt_order = tests, gt_tests = ids, gt_modes = modes, gt_ancestors = Map.empty\<rparr>
        else bindR (NativeSuiteTree suites members) (\<lambda>tree.
             if set (tr_order tree) \<noteq> ids then group_error ''Native work-group suite membership disagrees with declared tests''
             else bindR (modes_loop (map_of (map (\<lambda>suite. (sd_id suite, sd_parent suite)) suites)) (map_of modes) modes) (\<lambda>_.
                  bindR (Plan tree ids) (\<lambda>routes.
                    Inr \<lparr>gt_order = tr_order tree, gt_tests = ids, gt_modes = modes,
                         gt_ancestors = map_of (map (\<lambda>route. (ro_test route, ro_ancestors route)) routes)\<rparr>)))))"

section \<open>The groups of a selection\<close>

fun selection_loop :: "nat set \<Rightarrow> nat list \<Rightarrow> nat set \<Rightarrow> nat set result" where
  "selection_loop tests [] selected = Inr selected"
| "selection_loop tests (n # ns) selected =
     (if n \<notin> tests \<or> n \<in> selected then group_error ''Native work-group selection has unknown or duplicate test identity''
      else selection_loop tests ns (insert n selected))"

text \<open>The loop over the ancestors of a test, which computes its mode and the suite that set it.\<close>

fun boundary_loop :: "(nat \<rightharpoonup> work_group_mode) \<Rightarrow> nat list \<Rightarrow> work_group_mode \<Rightarrow> nat \<Rightarrow> work_group_mode \<times> nat" where
  "boundary_loop modes [] mode boundary = (mode, boundary)"
| "boundary_loop modes (suite # suites) mode boundary =
     (case modes suite of
        None \<Rightarrow> boundary_loop modes suites mode boundary
      | Some MSerial \<Rightarrow> if mode = MParallel then (MSerial, suite) else (mode, boundary)
      | Some MParallel \<Rightarrow> boundary_loop modes suites MParallel suite
      | Some MDefault \<Rightarrow> boundary_loop modes suites MDefault (if mode = MParallel then suite else boundary))"

definition test_mode :: "group_tree \<Rightarrow> bool \<Rightarrow> nat \<Rightarrow> work_group_mode \<times> nat" where
  "test_mode tree fully_parallel n =
     (let mode = (if fully_parallel then MParallel else MDefault)
      in case gt_ancestors tree n of
           None \<Rightarrow> (mode, 0)
         | Some suites \<Rightarrow> boundary_loop (map_of (gt_modes tree)) suites mode 0)"

definition group_key :: "group_tree \<Rightarrow> bool \<Rightarrow> nat \<Rightarrow> work_group_mode \<times> nat" where
  "group_key tree fully_parallel n = (let (mode, boundary) = test_mode tree fully_parallel n in (mode, if mode = MParallel then n else boundary))"

fun resolve_loop :: "group_tree \<Rightarrow> bool \<Rightarrow> nat set \<Rightarrow> nat list \<Rightarrow> (work_group_mode \<times> nat \<rightharpoonup> nat) \<Rightarrow> selected_group list \<Rightarrow> selected_group list result" where
  "resolve_loop tree parallel selected [] groups result = Inr result"
| "resolve_loop tree parallel selected (n # order) groups result =
     (if n \<notin> selected then resolve_loop tree parallel selected order groups result
      else let (mode, boundary) = test_mode tree parallel n; key = group_key tree parallel n
           in case groups key of
                None \<Rightarrow>
                  if 8192 \<le> length result then group_error ''Native work-group capacity8192 exceeded''
                  else resolve_loop tree parallel selected order (groups(key \<mapsto> length result)) (result @ [\<lparr>sg_mode = mode, sg_suite = boundary, sg_tests = [n]\<rparr>])
              | Some place \<Rightarrow>
                  resolve_loop tree parallel selected order groups (result[place := (result ! place)\<lparr>sg_tests := sg_tests (result ! place) @ [n]\<rparr>]))"

definition tree_Resolve :: "group_tree \<Rightarrow> nat list \<Rightarrow> bool \<Rightarrow> selected_group list result" where
  "tree_Resolve tree ids fully_parallel =
     bindR (selection_loop (gt_tests tree) ids {}) (\<lambda>selected.
     bindR (resolve_loop tree fully_parallel selected (gt_order tree) Map.empty []) (\<lambda>result.
       Inr (if result = [] then [\<lparr>sg_mode = MDefault, sg_suite = 0, sg_tests = []\<rparr>] else result)))"

definition FileWorkGroups :: "file_token \<Rightarrow> group_tree \<Rightarrow> nat list \<Rightarrow> bool \<Rightarrow> file_work_groups result" where
  "FileWorkGroups file tree selected fully_parallel =
     bindR (tree_Resolve tree selected fully_parallel) (\<lambda>groups.
       if ft_id file = 0 then group_error ''Native file work-group owner rejected'' else Inr \<lparr>fw_file = file, fw_groups = groups\<rparr>)"

section \<open>The groups of all projects\<close>

record group_test =
  wt_id :: nat
  wt_project :: nat

record test_group =
  tg_project :: nat
  tg_mode :: work_group_mode
  tg_suite :: nat
  tg_tests :: "nat list"

record test_groups =
  tw_groups :: "test_group list"
  tw_by_project :: "nat list list"

fun owners_loop :: "nat \<Rightarrow> group_test list \<Rightarrow> (nat \<rightharpoonup> nat) \<Rightarrow> (nat \<rightharpoonup> nat) result" where
  "owners_loop count [] owners = Inr owners"
| "owners_loop count (test # tests) owners =
     (if wt_id test = 0 \<or> count \<le> wt_project test \<or> owners (wt_id test) \<noteq> None
      then group_error ''Native test work-group test/project identity rejected''
      else owners_loop count tests (owners(wt_id test \<mapsto> wt_project test)))"

fun project_selection :: "bool \<Rightarrow> (nat \<rightharpoonup> nat) \<Rightarrow> nat \<Rightarrow> nat list \<Rightarrow> nat set \<Rightarrow> nat set \<Rightarrow> nat set result" where
  "project_selection is_selected owners project [] selected all_selected = Inr all_selected"
| "project_selection is_selected owners project (n # ns) selected all_selected =
     (if \<not> is_selected \<or> owners n \<noteq> Some project \<or> n \<in> selected \<or> n \<in> all_selected
      then group_error ''Native work-group selection has unknown, duplicate or foreign test identity''
      else project_selection is_selected owners project ns (insert n selected) (insert n all_selected))"

fun add_groups :: "nat \<Rightarrow> selected_group list \<Rightarrow> test_groups \<Rightarrow> test_groups result" where
  "add_groups project [] W = Inr W"
| "add_groups project (g # gs) W =
     (if 8192 \<le> length (tw_groups W) then group_error ''Native work-group capacity8192 exceeded''
      else add_groups project gs
        (W\<lparr>tw_by_project := (tw_by_project W)[project := tw_by_project W ! project @ [length (tw_groups W)]],
           tw_groups := tw_groups W @ [\<lparr>tg_project = project, tg_mode = sg_mode g, tg_suite = sg_suite g, tg_tests = sg_tests g\<rparr>]\<rparr>))"

fun projects_loop :: "group_tree \<Rightarrow> (nat \<rightharpoonup> nat) \<Rightarrow> bool list \<Rightarrow> nat list list \<Rightarrow> bool list \<Rightarrow> nat list \<Rightarrow> nat set \<Rightarrow> test_groups \<Rightarrow> test_groups result" where
  "projects_loop tree owners selected_projects selected_tests fully_parallel [] all_selected W = Inr W"
| "projects_loop tree owners selected_projects selected_tests fully_parallel (project # projects) all_selected W =
     bindR (project_selection (selected_projects ! project) owners project (selected_tests ! project) {} all_selected) (\<lambda>all_selected.
       if \<not> selected_projects ! project
       then projects_loop tree owners selected_projects selected_tests fully_parallel projects all_selected W
       else bindR (tree_Resolve tree (selected_tests ! project) (fully_parallel ! project)) (\<lambda>groups.
            bindR (add_groups project groups W) (\<lambda>W.
              projects_loop tree owners selected_projects selected_tests fully_parallel projects all_selected W)))"

definition TestWorkGroups :: "group_test list \<Rightarrow> suite_declaration list \<Rightarrow> suite_test list \<Rightarrow> suite_modes \<Rightarrow> bool list \<Rightarrow> nat list list \<Rightarrow> bool list \<Rightarrow> test_groups result" where
  "TestWorkGroups tests suites members modes selected_projects selected_tests fully_parallel =
     (let count = length selected_projects
      in if count = 0 \<or> 128 < count \<or> length selected_tests \<noteq> count \<or> length fully_parallel \<noteq> count \<or> 4096 < length tests
         then group_error ''Native test work-group project/test capacity or shape rejected''
         else bindR (owners_loop count tests Map.empty) (\<lambda>owners.
              bindR (NativeTestGroupTree (map wt_id tests) suites members modes) (\<lambda>tree.
                projects_loop tree owners selected_projects selected_tests fully_parallel [0..<count] {}
                  \<lparr>tw_groups = [], tw_by_project = replicate count []\<rparr>)))"

section \<open>The modes of a test\<close>

lemma group_key_mode: "fst (group_key tree par n) = fst (test_mode tree par n)"
  by (simp add: group_key_def split: prod.splits)

lemma group_key_parallel: "group_key tree par n = (MParallel, k) \<Longrightarrow> k = n"
  by (auto simp: group_key_def split: prod.splits if_splits)

text \<open>A serial suite ends the loop: what lies below it has no influence, and the test is not parallel.\<close>

lemma boundary_serial:
  "modes s = Some MSerial \<Longrightarrow> boundary_loop modes (xs @ s # r) mode b = boundary_loop modes (xs @ [s]) mode b \<and> fst (boundary_loop modes (xs @ [s]) mode b) \<noteq> MParallel"
  by (induction xs arbitrary: mode b) (auto split: option.splits work_group_mode.splits)

lemma tree_ancestors:
  assumes "NativeTestGroupTree tests suites members modes = Inr tree"
  shows "gt_tests tree = set tests" "set (gt_order tree) = set tests" "distinct (gt_order tree)" "gt_modes tree = modes"
    "NativeSuiteTree suites members = Inr T \<Longrightarrow> n \<in> set tests \<Longrightarrow> map_of (tr_tests T) n \<noteq> None \<and> gt_ancestors tree n = Some (path_of T n)"
    "NativeSuiteTree suites members = Inr T \<Longrightarrow> gt_order tree = tr_order T"
proof -
  have ids: "identity_loop ns known = Inr ids \<Longrightarrow> ids = known \<union> set ns \<and> distinct ns \<and> known \<inter> set ns = {}" for ns known ids
    by (induction ns arbitrary: known) (fastforce simp: group_error_def split: if_splits)+
  obtain ids where i: "identity_loop tests {} = Inr ids" using assms by (auto simp: NativeTestGroupTree_def group_error_def bindR_eq_Inr split: if_splits)
  have t: "ids = set tests" "distinct tests" using ids [OF i] by simp_all
  have "gt_tests tree = set tests \<and> set (gt_order tree) = set tests \<and> distinct (gt_order tree) \<and> gt_modes tree = modes \<and>
    (NativeSuiteTree suites members = Inr T \<longrightarrow> n \<in> set tests \<longrightarrow> map_of (tr_tests T) n \<noteq> None \<and> gt_ancestors tree n = Some (path_of T n)) \<and>
    (NativeSuiteTree suites members = Inr T \<longrightarrow> gt_order tree = tr_order T)" for T n
  proof (cases "suites = []")
    case True
    then show ?thesis using assms i t by (auto simp: NativeTestGroupTree_def NativeSuiteTree_def group_error_def suite_error_def split: if_splits)
  next
    case False
    then obtain U routes where u: "NativeSuiteTree suites members = Inr U" "set (tr_order U) = ids" "Plan U ids = Inr routes"
      "tree = \<lparr>gt_order = tr_order U, gt_tests = ids, gt_modes = modes, gt_ancestors = map_of (map (\<lambda>route. (ro_test route, ro_ancestors route)) routes)\<rparr>"
      using assms i by (auto simp: NativeTestGroupTree_def group_error_def bindR_eq_Inr split: if_splits)
    note o = order_tests [OF u(1)] and p = Plan_nth [OF u(1,3)]
    have all: "filter (\<lambda>n. n \<in> ids) (tr_order U) = tr_order U" using u(2) by simp
    have "map (\<lambda>route. (ro_test route, ro_ancestors route)) routes = map (\<lambda>n. (n, path_of U n)) (tr_order U)"
      using p(1,3) unfolding all by (intro nth_equalityI) (simp_all add: route_of_def)
    then have "gt_ancestors tree = (\<lambda>n. if n \<in> set (tr_order U) then Some (path_of U n) else None)"
      using u(4) by (auto simp: map_of_map_restrict restrict_map_def fun_eq_iff)
    then show ?thesis using u t o by auto
  qed
  then show "gt_tests tree = set tests" "set (gt_order tree) = set tests" "distinct (gt_order tree)" "gt_modes tree = modes"
    "NativeSuiteTree suites members = Inr T \<Longrightarrow> n \<in> set tests \<Longrightarrow> map_of (tr_tests T) n \<noteq> None \<and> gt_ancestors tree n = Some (path_of T n)"
    "NativeSuiteTree suites members = Inr T \<Longrightarrow> gt_order tree = tr_order T" by blast+
qed

text \<open>The outermost serial suite, and with it every serial suite, keeps its tests under one key.\<close>

lemma serial_key:
  assumes "NativeTestGroupTree tests suites members modes = Inr tree" "NativeSuiteTree suites members = Inr T" "n \<in> set tests" "m \<in> set tests"
    "map_of modes s = Some MSerial" "s \<in> set (path_of T n)" "s \<in> set (path_of T m)"
  shows "group_key tree par n = group_key tree par m"
proof -
  have key: "\<exists>r. path_of T k = rev (up (tr_nodes T) (parent_of (tr_nodes T) s)) @ s # r" if "k \<in> set tests" "s \<in> set (path_of T k)" for k
  proof -
    have k: "map_of (tr_tests T) k \<noteq> None" using tree_ancestors(5) [OF assms(1,2) that(1)] by blast
    note ok = NativeSuiteTree_ok(1) [OF assms(2)]
    obtain node where x: "map_of (tr_nodes T) (suite_of T k) = Some node" using tree_okD(5) [OF ok k] by blast
    have s: "s \<in> set (up (tr_nodes T) (suite_of T k))" using that(2) by (simp add: path_of_def)
    obtain q where q: "up (tr_nodes T) (suite_of T k) = q @ up (tr_nodes T) s" using up_suffix [OF tree_okD(1) [OF ok] x s] by blast
    have "map_of (tr_nodes T) s \<noteq> None" using up_known [OF tree_okD(1) [OF ok] x s] by auto
    then have "up (tr_nodes T) s = s # up (tr_nodes T) (parent_of (tr_nodes T) s)" by (rule up_parent [OF tree_okD(1) [OF ok]])
    then show ?thesis using q by (simp add: path_of_def)
  qed
  let ?p = "rev (up (tr_nodes T) (parent_of (tr_nodes T) s))"
  have mode: "test_mode tree par k = boundary_loop (map_of modes) (?p @ [s]) (if par then MParallel else MDefault) 0 \<and> fst (test_mode tree par k) \<noteq> MParallel"
    if k: "k \<in> set tests" "s \<in> set (path_of T k)" for k
  proof -
    obtain r where "path_of T k = ?p @ s # r" using key [OF k] by blast
    then show ?thesis
      using boundary_serial [where modes = "map_of modes" and xs = ?p and r = r, OF assms(5)] tree_ancestors(4,5) [OF assms(1)] assms(2) k(1) by (simp add: test_mode_def)
  qed
  have "test_mode tree par n = test_mode tree par m" "fst (test_mode tree par m) \<noteq> MParallel" using mode [OF assms(3,6)] mode [OF assms(4,7)] by metis+
  then show ?thesis by (cases "test_mode tree par m") (simp add: group_key_def)
qed

section \<open>The groups that Resolve returns\<close>

text \<open>The partition of a list by a key, as the loop builds it; \<open>groups\<close> maps a key to the place of its group.\<close>

definition grouped :: "(nat \<Rightarrow> 'k) \<Rightarrow> ('k \<Rightarrow> work_group_mode) \<Rightarrow> nat list \<Rightarrow> ('k \<rightharpoonup> nat) \<Rightarrow> selected_group list \<Rightarrow> bool" where
  "grouped key mode xs groups result \<longleftrightarrow>
     (\<forall>i < length result. \<exists>k. groups k = Some i) \<and> (\<forall>n \<in> set xs. groups (key n) \<noteq> None) \<and>
     (\<forall>k i. groups k = Some i \<longrightarrow> i < length result \<and> sg_mode (result ! i) = mode k \<and> sg_tests (result ! i) \<noteq> [] \<and>
        sg_tests (result ! i) = filter (\<lambda>n. key n = k) xs)"

lemma groupedD:
  assumes "grouped key mode xs groups result"
  shows "\<And>i. i < length result \<Longrightarrow> \<exists>k. groups k = Some i" "\<And>n. n \<in> set xs \<Longrightarrow> groups (key n) \<noteq> None"
    "\<And>k i. groups k = Some i \<Longrightarrow> i < length result" "\<And>k i. groups k = Some i \<Longrightarrow> sg_mode (result ! i) = mode k"
    "\<And>k i. groups k = Some i \<Longrightarrow> sg_tests (result ! i) \<noteq> []" "\<And>k i. groups k = Some i \<Longrightarrow> sg_tests (result ! i) = filter (\<lambda>n. key n = k) xs"
  using assms unfolding grouped_def by blast+

lemma grouped_inj:
  assumes "grouped key mode xs groups result" "groups k = Some i" "groups l = Some i"
  shows "k = l"
proof -
  obtain m where "m \<in> set (sg_tests (result ! i))" using groupedD(5) [OF assms(1,2)] by (metis last_in_set)
  then have "m \<in> set (filter (\<lambda>n. key n = k) xs)" "m \<in> set (filter (\<lambda>n. key n = l) xs)"
    using groupedD(6) [OF assms(1,2)] groupedD(6) [OF assms(1,3)] by metis+
  then show ?thesis by simp
qed

lemma grouped_new:
  assumes "grouped key mode xs groups result" "groups (key n) = None"
  shows "grouped key mode (xs @ [n]) (groups(key n \<mapsto> length result)) (result @ [\<lparr>sg_mode = mode (key n), sg_suite = b, sg_tests = [n]\<rparr>])"
proof -
  note inv = groupedD [OF assms(1)]
  let ?g = "\<lparr>sg_mode = mode (key n), sg_suite = b, sg_tests = [n]\<rparr>"
  have "key m \<noteq> key n" if "m \<in> set xs" for m using inv(2) [OF that] assms(2) by auto
  then have none: "filter (\<lambda>m. key m = key n) xs = []" by (simp add: filter_empty_conv)
  show ?thesis
    unfolding grouped_def
  proof (intro conjI allI impI ballI)
    show "\<exists>k. (groups(key n \<mapsto> length result)) k = Some i" if i: "i < length (result @ [?g])" for i
    proof (cases "i = length result")
      case False
      then obtain k where "groups k = Some i" using inv(1) [of i] i by auto
      then show ?thesis using assms(2) by (intro exI [of _ k]) auto
    qed auto
    show "(groups(key n \<mapsto> length result)) (key m) \<noteq> None" if "m \<in> set (xs @ [n])" for m using inv(2) [of m] that by auto
  next
    fix k i assume k: "(groups(key n \<mapsto> length result)) k = Some i"
    show "i < length (result @ [?g])" "sg_mode ((result @ [?g]) ! i) = mode k" "sg_tests ((result @ [?g]) ! i) \<noteq> []"
      "sg_tests ((result @ [?g]) ! i) = filter (\<lambda>n. key n = k) (xs @ [n])"
      using k none inv(3-6) [of k i] by (auto simp: nth_append split: if_splits)
  qed
qed

lemma grouped_old:
  assumes "grouped key mode xs groups result" "groups (key n) = Some i"
  shows "grouped key mode (xs @ [n]) groups (result[i := (result ! i)\<lparr>sg_tests := sg_tests (result ! i) @ [n]\<rparr>])" (is "grouped _ _ _ _ ?r")
proof -
  note inv = groupedD [OF assms(1)]
  show ?thesis
    unfolding grouped_def
  proof (intro conjI allI impI ballI)
    show "\<exists>k. groups k = Some j" if "j < length ?r" for j using inv(1) that by simp
    show "groups (key m) \<noteq> None" if "m \<in> set (xs @ [n])" for m using inv(2) [of m] assms(2) that by auto
  next
    fix k j assume k: "groups k = Some j"
    show "j < length ?r" "sg_mode (?r ! j) = mode k" "sg_tests (?r ! j) \<noteq> []" "sg_tests (?r ! j) = filter (\<lambda>n. key n = k) (xs @ [n])"
      using inv(3-6) [OF k] assms(2) k grouped_inj [OF assms(1,2), of k] by (cases "j = i"; auto)+
  qed
qed

lemma resolve_loop_ok:
  assumes "resolve_loop tree par selected order groups result = Inr result'" "grouped (group_key tree par) fst xs groups result"
  shows "\<exists>groups'. grouped (group_key tree par) fst (xs @ filter (\<lambda>n. n \<in> selected) order) groups' result'"
  using assms
proof (induction order arbitrary: xs groups result)
  case (Cons n order)
  show ?case
  proof (cases "n \<in> selected")
    case True
    obtain mode b where m: "test_mode tree par n = (mode, b)" by fastforce
    then have mode: "mode = fst (group_key tree par n)" by (simp add: group_key_mode)
    show ?thesis
    proof (cases "groups (group_key tree par n)")
      case None
      then have "resolve_loop tree par selected order (groups(group_key tree par n \<mapsto> length result)) (result @ [\<lparr>sg_mode = mode, sg_suite = b, sg_tests = [n]\<rparr>]) = Inr result'"
        using Cons.prems(1) True m by (simp add: group_error_def split: if_splits)
      then show ?thesis using Cons.IH [OF _ grouped_new [OF Cons.prems(2) None, of b]] True unfolding mode by (simp del: fun_upd_apply)
    next
      case (Some i)
      then have "resolve_loop tree par selected order groups (result[i := (result ! i)\<lparr>sg_tests := sg_tests (result ! i) @ [n]\<rparr>]) = Inr result'"
        using Cons.prems(1) True m by simp
      then show ?thesis using Cons.IH [OF _ grouped_old [OF Cons.prems(2) Some]] True by simp
    qed
  qed (use Cons in simp)
qed auto

lemma selection_loop_ok:
  "selection_loop tests ns selected = Inr s \<Longrightarrow> s = selected \<union> set ns \<and> set ns \<subseteq> tests \<and> distinct ns \<and> selected \<inter> set ns = {}"
  by (induction tests ns selected rule: selection_loop.induct) (auto simp: group_error_def split: if_splits)

text \<open>The groups of an accepted selection.\<close>

definition groups_of :: "group_tree \<Rightarrow> bool \<Rightarrow> nat list \<Rightarrow> selected_group list \<Rightarrow> bool" where
  "groups_of tree par ids gs \<longleftrightarrow>
     gs \<noteq> [] \<and> distinct ids \<and> set ids \<subseteq> gt_tests tree \<and> set (concat (map sg_tests gs)) = set ids \<and> distinct (concat (map sg_tests gs)) \<and>
     (\<forall>g \<in> set gs. sg_mode g = MParallel \<longrightarrow> (\<exists>n. sg_tests g = [n])) \<and>
     (\<forall>g \<in> set gs. sg_tests g = filter (\<lambda>n. n \<in> set (sg_tests g)) (gt_order tree)) \<and>
     (\<forall>n \<in> set ids. \<forall>m \<in> set ids. group_key tree par n = group_key tree par m \<longrightarrow> (\<exists>g \<in> set gs. n \<in> set (sg_tests g) \<and> m \<in> set (sg_tests g)))"

lemma grouped_partition:
  assumes "grouped (group_key tree par) fst (filter (\<lambda>n. n \<in> set ids) (gt_order tree)) groups gs"
    "distinct (gt_order tree)" "set (gt_order tree) = gt_tests tree" "distinct ids" "set ids \<subseteq> gt_tests tree" "gs \<noteq> []"
  shows "groups_of tree par ids gs"
proof -
  let ?xs = "filter (\<lambda>n. n \<in> set ids) (gt_order tree)"
  note inv = groupedD [OF assms(1)]
  have xs: "set ?xs = set ids" using assms(3,5) by auto
  have at: "\<exists>k. groups k = Some i \<and> sg_tests (gs ! i) = filter (\<lambda>n. group_key tree par n = k) ?xs \<and> sg_mode (gs ! i) = fst k \<and> sg_tests (gs ! i) \<noteq> []"
    if "i < length gs" for i
    using inv(1) [OF that] inv(4-6) by blast
  have member: "\<exists>g \<in> set gs. sg_tests g = filter (\<lambda>m. group_key tree par m = group_key tree par n) ?xs" if "n \<in> set ids" for n
  proof -
    have "n \<in> set ?xs" using that xs by simp
    then obtain i where i: "groups (group_key tree par n) = Some i" using inv(2) by (metis option.exhaust)
    show ?thesis using nth_mem [OF inv(3) [OF i]] inv(6) [OF i] by blast
  qed
  have sub: "set (sg_tests g) \<subseteq> set ids" if g: "g \<in> set gs" for g
  proof -
    obtain i where i: "i < length gs" "gs ! i = g" using g unfolding in_set_conv_nth by blast
    obtain k where "sg_tests (gs ! i) = filter (\<lambda>n. group_key tree par n = k) ?xs" using at [OF i(1)] by (elim exE conjE) rule
    then have "sg_tests g = filter (\<lambda>n. group_key tree par n = k) ?xs" using i(2) by simp
    then have "set (sg_tests g) \<subseteq> set ?xs" by (metis filter_is_subset)
    then show ?thesis by auto
  qed
  have all: "set (concat (map sg_tests gs)) = set ids"
  proof
    show "set ids \<subseteq> set (concat (map sg_tests gs))"
    proof
      fix n assume n: "n \<in> set ids"
      then obtain g where g: "g \<in> set gs" "sg_tests g = filter (\<lambda>m. group_key tree par m = group_key tree par n) ?xs" using member by blast
      then have "n \<in> set (sg_tests g)" using n xs by auto
      then show "n \<in> set (concat (map sg_tests gs))" using g(1) by auto
    qed
  qed (use sub in auto)
  have disj: "i = j" if ij: "i < length gs" "j < length gs" "x \<in> set (sg_tests (gs ! i))" "x \<in> set (sg_tests (gs ! j))" for i j x
  proof -
    obtain k where k: "groups k = Some i" "sg_tests (gs ! i) = filter (\<lambda>n. group_key tree par n = k) ?xs" using at [OF ij(1)] by (elim exE conjE) rule
    obtain l where l: "groups l = Some j" "sg_tests (gs ! j) = filter (\<lambda>n. group_key tree par n = l) ?xs" using at [OF ij(2)] by (elim exE conjE) rule
    have "k = l" using ij(3,4) k(2) l(2) by simp
    then show ?thesis using k(1) l(1) by simp
  qed
  have dist: "distinct (sg_tests (gs ! i))" if i: "i < length gs" for i
  proof -
    obtain k where "sg_tests (gs ! i) = filter (\<lambda>n. group_key tree par n = k) ?xs" using at [OF i] by blast
    then show ?thesis using assms(2) by simp
  qed
  have "distinct (concat (map sg_tests gs))" by (rule distinct_concat_nth) (use dist disj in simp_all)
  moreover have "\<exists>n. sg_tests g = [n]" if g: "g \<in> set gs" "sg_mode g = MParallel" for g
  proof -
    obtain i where i: "i < length gs" "gs ! i = g" using g(1) unfolding in_set_conv_nth by blast
    obtain k where k: "sg_tests g = filter (\<lambda>n. group_key tree par n = (MParallel, k)) ?xs" "sg_tests g \<noteq> []"
      using at [OF i(1)] g(2) i(2) by (metis prod.collapse)
    then have "set (sg_tests g) \<subseteq> {k}" using group_key_parallel [of tree par] by auto
    moreover have "distinct (sg_tests g)" using dist [OF i(1)] i(2) by simp
    ultimately have "length (sg_tests g) \<le> 1" by (metis card.empty card_insert_if card_mono distinct_card finite.emptyI finite_insert insert_absorb insert_not_empty One_nat_def)
    then show ?thesis using k(2) by (cases "sg_tests g") auto
  qed
  moreover have "sg_tests g = filter (\<lambda>n. n \<in> set (sg_tests g)) (gt_order tree)" if g: "g \<in> set gs" for g
  proof -
    obtain i where i: "i < length gs" "gs ! i = g" using g unfolding in_set_conv_nth by blast
    obtain k where "sg_tests g = filter (\<lambda>n. group_key tree par n = k) ?xs" using at [OF i(1)] i(2) by blast
    then show ?thesis by (auto intro!: filter_cong)
  qed
  moreover have "\<exists>g \<in> set gs. n \<in> set (sg_tests g) \<and> m \<in> set (sg_tests g)"
    if nm: "n \<in> set ids" "m \<in> set ids" "group_key tree par n = group_key tree par m" for n m
  proof -
    obtain g where g: "g \<in> set gs" "sg_tests g = filter (\<lambda>x. group_key tree par x = group_key tree par n) ?xs" using member [OF nm(1)] by blast
    have "n \<in> set (sg_tests g)" "m \<in> set (sg_tests g)" using g(2) nm xs by auto
    then show ?thesis using g(1) by blast
  qed
  ultimately show ?thesis using all assms(4-6) unfolding groups_of_def by blast
qed

lemma tree_Resolve_ok:
  assumes "NativeTestGroupTree tests suites members modes = Inr tree" "tree_Resolve tree ids par = Inr gs"
  shows "groups_of tree par ids gs"
proof -
  note t = tree_ancestors [OF assms(1)]
  obtain selected result where s: "selection_loop (gt_tests tree) ids {} = Inr selected" "resolve_loop tree par selected (gt_order tree) Map.empty [] = Inr result"
    "gs = (if result = [] then [\<lparr>sg_mode = MDefault, sg_suite = 0, sg_tests = []\<rparr>] else result)"
    using assms(2) by (auto simp: tree_Resolve_def bindR_eq_Inr)
  have sel: "selected = set ids" "distinct ids" "set ids \<subseteq> gt_tests tree" using selection_loop_ok [OF s(1)] by simp_all
  have empty: "grouped (group_key tree par) fst [] Map.empty []" by (simp add: grouped_def)
  obtain groups where g: "grouped (group_key tree par) fst (filter (\<lambda>n. n \<in> set ids) (gt_order tree)) groups result"
    using resolve_loop_ok [OF s(2) empty] sel(1) by auto
  show ?thesis
  proof (cases "result = []")
    case True
    have "set (filter (\<lambda>n. n \<in> set ids) (gt_order tree)) = {}"
    proof (rule ccontr)
      assume "set (filter (\<lambda>n. n \<in> set ids) (gt_order tree)) \<noteq> {}"
      then obtain n where "n \<in> set (filter (\<lambda>n. n \<in> set ids) (gt_order tree))" by (metis ex_in_conv)
      then obtain i where "groups (group_key tree par n) = Some i" using groupedD(2) [OF g] by blast
      then show False using groupedD(3) [OF g] True by fastforce
    qed
    moreover have "set (filter (\<lambda>n. n \<in> set ids) (gt_order tree)) = set ids" using sel(3) t(1,2) by auto
    ultimately have "ids = []" by (metis set_empty)
    then show ?thesis using s(3) True by (simp add: groups_of_def)
  next
    case False
    show ?thesis using grouped_partition [OF g] t(1-3) sel False s(3) by simp
  qed
qed

section \<open>The groups of the projects\<close>

lemma owners_loop_ok:
  "owners_loop count tests owners = Inr owners' \<Longrightarrow>
     \<forall>n p. owners' n = Some p \<longrightarrow> owners n = Some p \<or> (\<exists>test \<in> set tests. wt_id test = n \<and> wt_project test = p \<and> p < count)"
  by (induction count tests owners rule: owners_loop.induct) (fastforce simp: group_error_def split: if_splits)+

lemma project_selection_ok:
  "project_selection is_selected owners project ns selected all_selected = Inr all' \<Longrightarrow>
     (\<forall>n \<in> set ns. owners n = Some project) \<and> (\<not> is_selected \<longrightarrow> ns = [])"
  by (induction is_selected owners project ns selected all_selected rule: project_selection.induct) (auto simp: group_error_def split: if_splits)

definition in_project :: "nat \<Rightarrow> selected_group \<Rightarrow> test_group" where
  "in_project p g = \<lparr>tg_project = p, tg_mode = sg_mode g, tg_suite = sg_suite g, tg_tests = sg_tests g\<rparr>"

lemma add_groups_ok:
  assumes "add_groups p gs W = Inr W'" "p < length (tw_by_project W)"
  shows "tw_groups W' = tw_groups W @ map (in_project p) gs \<and>
    tw_by_project W' = (tw_by_project W)[p := tw_by_project W ! p @ [length (tw_groups W)..<length (tw_groups W) + length gs]]"
  using assms
proof (induction gs arbitrary: W)
  case (Cons g gs)
  let ?W = "W\<lparr>tw_by_project := (tw_by_project W)[p := tw_by_project W ! p @ [length (tw_groups W)]],
           tw_groups := tw_groups W @ [in_project p g]\<rparr>"
  have "add_groups p gs ?W = Inr W'" using Cons.prems(1) by (simp add: group_error_def in_project_def split: if_splits)
  from Cons.IH [OF this] Cons.prems(2) show ?case
    using upt_conv_Cons [of "length (tw_groups W)" "length (tw_groups W) + length (g # gs)"] by simp
qed simp

text \<open>The groups of one project, read through the indices.\<close>

definition project_ok :: "group_tree \<Rightarrow> (nat \<rightharpoonup> nat) \<Rightarrow> bool list \<Rightarrow> nat list list \<Rightarrow> bool list \<Rightarrow> test_groups \<Rightarrow> nat \<Rightarrow> bool" where
  "project_ok tree owners selected_projects selected_tests fully_parallel W p \<longleftrightarrow>
     (\<forall>n \<in> set (selected_tests ! p). owners n = Some p) \<and>
     (if selected_projects ! p
      then \<exists>gs. groups_of tree (fully_parallel ! p) (selected_tests ! p) gs \<and> map (\<lambda>i. tw_groups W ! i) (tw_by_project W ! p) = map (in_project p) gs
      else tw_by_project W ! p = [] \<and> selected_tests ! p = [])"

definition groups_inv :: "group_tree \<Rightarrow> (nat \<rightharpoonup> nat) \<Rightarrow> bool list \<Rightarrow> nat list list \<Rightarrow> bool list \<Rightarrow> nat \<Rightarrow> test_groups \<Rightarrow> bool" where
  "groups_inv tree owners selected_projects selected_tests fully_parallel k W \<longleftrightarrow>
     length (tw_by_project W) = length selected_projects \<and> concat (tw_by_project W) = [0..<length (tw_groups W)] \<and>
     (\<forall>p. k \<le> p \<longrightarrow> p < length selected_projects \<longrightarrow> tw_by_project W ! p = []) \<and>
     (\<forall>p < k. project_ok tree owners selected_projects selected_tests fully_parallel W p)"

lemma concat_update_last:
  assumes "p < length xss" "\<forall>q. p \<le> q \<longrightarrow> q < length xss \<longrightarrow> xss ! q = []"
  shows "concat (xss[p := ys]) = concat xss @ ys"
proof -
  have rest: "concat (drop (Suc p) xss) = []" using assms(2) by (auto simp: in_set_conv_nth)
  have "concat (take p xss @ xss ! p # drop (Suc p) xss) = concat xss" using id_take_nth_drop [OF assms(1)] by simp
  then show ?thesis using assms rest by (simp add: upd_conv_take_nth_drop)
qed

lemma project_ok_append:
  assumes "project_ok tree owners sp st fp W p" "tw_by_project W' ! p = tw_by_project W ! p" "tw_groups W' = tw_groups W @ gs" "set (tw_by_project W ! p) \<subseteq> {..<length (tw_groups W)}"
  shows "project_ok tree owners sp st fp W' p"
proof -
  have "map (\<lambda>i. tw_groups W' ! i) (tw_by_project W' ! p) = map (\<lambda>i. tw_groups W ! i) (tw_by_project W ! p)"
    using assms(2-4) by (auto simp: nth_append)
  then show ?thesis using assms(1) unfolding project_ok_def assms(2) by presburger
qed

lemma groups_inv_range:
  assumes "groups_inv tree owners sp st fp k W" "p < length sp"
  shows "set (tw_by_project W ! p) \<subseteq> {..<length (tw_groups W)}"
proof -
  have len: "length (tw_by_project W) = length sp" and cat: "concat (tw_by_project W) = [0..<length (tw_groups W)]"
    using assms(1) unfolding groups_inv_def by blast+
  have "tw_by_project W ! p \<in> set (tw_by_project W)" using assms(2) len by simp
  then have "set (tw_by_project W ! p) \<subseteq> set (concat (tw_by_project W))" by auto
  then show ?thesis unfolding cat by (simp add: atLeast0LessThan)
qed

lemma groups_inv_step:
  assumes inv: "groups_inv tree owners sp st fp k W" and k: "k < length sp" "sp ! k" "\<forall>n \<in> set (st ! k). owners n = Some k"
    and gs: "groups_of tree (fp ! k) (st ! k) gs" and add: "add_groups k gs W = Inr W'"
  shows "groups_inv tree owners sp st fp (Suc k) W'"
proof -
  have len: "length (tw_by_project W) = length sp" and cat: "concat (tw_by_project W) = [0..<length (tw_groups W)]"
    and rest: "\<forall>p. k \<le> p \<longrightarrow> p < length sp \<longrightarrow> tw_by_project W ! p = []" and prev: "\<forall>p < k. project_ok tree owners sp st fp W p"
    using inv unfolding groups_inv_def by blast+
  have a: "tw_groups W' = tw_groups W @ map (in_project k) gs"
    "tw_by_project W' = (tw_by_project W)[k := [length (tw_groups W)..<length (tw_groups W) + length gs]]"
    using add_groups_ok [OF add] k(1) len rest by simp_all
  have "concat (tw_by_project W') = [0..<length (tw_groups W')]"
    unfolding a(2) using concat_update_last [of k "tw_by_project W"] rest len k(1) cat by (simp add: a(1) upt_add_eq_append [of 0, simplified])
  moreover have "project_ok tree owners sp st fp W' p" if "p < Suc k" for p
  proof (cases "p = k")
    case True
    have "map (\<lambda>i. tw_groups W' ! i) (tw_by_project W' ! k) = map (in_project k) gs"
      unfolding a using k(1) len by (intro nth_equalityI) (simp_all add: nth_append)
    then show ?thesis using True k gs by (auto simp: project_ok_def)
  next
    case False
    then have p: "p < k" "p < length sp" using that k(1) by simp_all
    show ?thesis using project_ok_append [OF prev [rule_format, OF p(1)] _ a(1) groups_inv_range [OF inv p(2)]] a(2) p(1) by simp
  qed
  ultimately show ?thesis unfolding groups_inv_def using a(2) len rest by simp
qed

lemma projects_loop_ok:
  assumes tree: "NativeTestGroupTree tests suites members modes = Inr tree"
    and "projects_loop tree owners sp st fp [k..<length sp] all W = Inr W'" "groups_inv tree owners sp st fp k W" "k \<le> length sp"
  shows "groups_inv tree owners sp st fp (length sp) W'"
  using assms(2-4)
proof (induction "length sp - k" arbitrary: k all W)
  case 0
  then show ?case by simp
next
  case (Suc d)
  then have k: "k < length sp" "d = length sp - Suc k" "Suc k \<le> length sp" "[k..<length sp] = k # [Suc k..<length sp]" by (simp_all add: upt_conv_Cons)
  obtain all' where s: "project_selection (sp ! k) owners k (st ! k) {} all = Inr all'"
    using Suc.prems(1) unfolding k(4) by (auto simp: bindR_eq_Inr)
  note sel = project_selection_ok [OF s]
  show ?case
  proof (cases "sp ! k")
    case True
    obtain gs V where g: "tree_Resolve tree (st ! k) (fp ! k) = Inr gs" "add_groups k gs W = Inr V" "projects_loop tree owners sp st fp [Suc k..<length sp] all' V = Inr W'"
      using Suc.prems(1) s True unfolding k(4) by (auto simp: bindR_eq_Inr)
    show ?thesis
      using Suc.hyps(1) [OF k(2) g(3) groups_inv_step [OF Suc.prems(2) k(1) True _ tree_Resolve_ok [OF tree g(1)] g(2)] k(3)] sel by blast
  next
    case False
    then have "projects_loop tree owners sp st fp [Suc k..<length sp] all' W = Inr W'" using Suc.prems(1) s unfolding k(4) by simp
    moreover have "groups_inv tree owners sp st fp (Suc k) W"
      using Suc.prems(2) False sel k(1) unfolding groups_inv_def by (auto simp: project_ok_def less_Suc_eq)
    ultimately show ?thesis using Suc.hyps(1) [OF k(2) _ _ k(3)] by blast
  qed
qed

lemma project_facts:
  assumes "groups_inv tree owners sp st fp (length sp) W" "p < length sp"
  shows "tw_by_project W ! p \<noteq> [] \<longleftrightarrow> sp ! p" "\<And>n. n \<in> set (st ! p) \<Longrightarrow> owners n = Some p \<and> n \<in> gt_tests tree"
    "\<And>i. i \<in> set (tw_by_project W ! p) \<Longrightarrow> tg_project (tw_groups W ! i) = p"
    "set (concat (map (\<lambda>i. tg_tests (tw_groups W ! i)) (tw_by_project W ! p))) = set (st ! p)"
    "distinct (concat (map (\<lambda>i. tg_tests (tw_groups W ! i)) (tw_by_project W ! p)))"
    "\<And>i. i \<in> set (tw_by_project W ! p) \<Longrightarrow> tg_mode (tw_groups W ! i) = MParallel \<Longrightarrow> \<exists>n. tg_tests (tw_groups W ! i) = [n]"
    "\<And>i. i \<in> set (tw_by_project W ! p) \<Longrightarrow> tg_tests (tw_groups W ! i) = filter (\<lambda>n. n \<in> set (tg_tests (tw_groups W ! i))) (gt_order tree)"
    "\<And>n m. n \<in> set (st ! p) \<Longrightarrow> m \<in> set (st ! p) \<Longrightarrow> group_key tree (fp ! p) n = group_key tree (fp ! p) m \<Longrightarrow>
       \<exists>i \<in> set (tw_by_project W ! p). n \<in> set (tg_tests (tw_groups W ! i)) \<and> m \<in> set (tg_tests (tw_groups W ! i))"
proof -
  have ok: "project_ok tree owners sp st fp W p" using assms unfolding groups_inv_def by blast
  let ?at = "\<lambda>i. tw_groups W ! i"
  have "\<exists>gs. (tw_by_project W ! p \<noteq> [] \<longleftrightarrow> sp ! p) \<and> map ?at (tw_by_project W ! p) = map (in_project p) gs \<and>
      set (concat (map sg_tests gs)) = set (st ! p) \<and> distinct (concat (map sg_tests gs)) \<and> set (st ! p) \<subseteq> gt_tests tree \<and>
      (\<forall>g \<in> set gs. (sg_mode g = MParallel \<longrightarrow> (\<exists>n. sg_tests g = [n])) \<and> sg_tests g = filter (\<lambda>n. n \<in> set (sg_tests g)) (gt_order tree)) \<and>
      (\<forall>n \<in> set (st ! p). \<forall>m \<in> set (st ! p). group_key tree (fp ! p) n = group_key tree (fp ! p) m \<longrightarrow> (\<exists>g \<in> set gs. n \<in> set (sg_tests g) \<and> m \<in> set (sg_tests g)))"
  proof (cases "sp ! p")
    case True
    then obtain gs where g: "groups_of tree (fp ! p) (st ! p) gs" "map ?at (tw_by_project W ! p) = map (in_project p) gs" using ok unfolding project_ok_def by auto
    then have "tw_by_project W ! p \<noteq> []" by (auto simp: groups_of_def)
    then show ?thesis using True g unfolding groups_of_def by (intro exI [of _ gs]) blast
  next
    case False
    then show ?thesis using ok by (intro exI [of _ "[]"]) (simp add: project_ok_def)
  qed
  then obtain gs where gs: "tw_by_project W ! p \<noteq> [] \<longleftrightarrow> sp ! p" "map ?at (tw_by_project W ! p) = map (in_project p) gs"
      "set (concat (map sg_tests gs)) = set (st ! p)" "distinct (concat (map sg_tests gs))" "set (st ! p) \<subseteq> gt_tests tree"
      "\<forall>g \<in> set gs. (sg_mode g = MParallel \<longrightarrow> (\<exists>n. sg_tests g = [n])) \<and> sg_tests g = filter (\<lambda>n. n \<in> set (sg_tests g)) (gt_order tree)"
      "\<forall>n \<in> set (st ! p). \<forall>m \<in> set (st ! p). group_key tree (fp ! p) n = group_key tree (fp ! p) m \<longrightarrow> (\<exists>g \<in> set gs. n \<in> set (sg_tests g) \<and> m \<in> set (sg_tests g))"
    by (elim exE conjE) rule
  have tests: "map (\<lambda>i. tg_tests (?at i)) (tw_by_project W ! p) = map sg_tests gs"
    using arg_cong [OF gs(2), of "map tg_tests"] by (simp add: comp_def in_project_def)
  have sets: "?at ` set (tw_by_project W ! p) = in_project p ` set gs" using arg_cong [OF gs(2), of set] by simp
  show "tw_by_project W ! p \<noteq> [] \<longleftrightarrow> sp ! p" by (fact gs(1))
  show "owners n = Some p \<and> n \<in> gt_tests tree" if n: "n \<in> set (st ! p)" for n using ok gs(5) n unfolding project_ok_def by blast
  show "set (concat (map (\<lambda>i. tg_tests (?at i)) (tw_by_project W ! p))) = set (st ! p)" unfolding tests by (fact gs(3))
  show "distinct (concat (map (\<lambda>i. tg_tests (?at i)) (tw_by_project W ! p)))" unfolding tests by (fact gs(4))
  show "\<exists>i \<in> set (tw_by_project W ! p). n \<in> set (tg_tests (?at i)) \<and> m \<in> set (tg_tests (?at i))"
    if nm: "n \<in> set (st ! p)" "m \<in> set (st ! p)" "group_key tree (fp ! p) n = group_key tree (fp ! p) m" for n m
  proof -
    obtain g where g: "g \<in> set gs" "n \<in> set (sg_tests g)" "m \<in> set (sg_tests g)" using gs(7) nm by blast
    then have "in_project p g \<in> ?at ` set (tw_by_project W ! p)" unfolding sets by simp
    then obtain i where "i \<in> set (tw_by_project W ! p)" "?at i = in_project p g" by force
    then show ?thesis using g(2,3) by (intro bexI [of _ i]) (simp_all add: in_project_def)
  qed
  fix i assume "i \<in> set (tw_by_project W ! p)"
  then have "?at i \<in> in_project p ` set gs" using sets by blast
  then obtain g where g: "g \<in> set gs" "?at i = in_project p g" by blast
  show "tg_project (?at i) = p" using g(2) by (simp add: in_project_def)
  show "\<exists>n. tg_tests (?at i) = [n]" if m: "tg_mode (?at i) = MParallel" using m gs(6) g by (auto simp: in_project_def)
  have "sg_tests g = filter (\<lambda>n. n \<in> set (sg_tests g)) (gt_order tree)" using gs(6) g(1) by blast
  then show "tg_tests (?at i) = filter (\<lambda>n. n \<in> set (tg_tests (?at i))) (gt_order tree)" using g(2) by (simp add: in_project_def)
qed

lemma concat_map_concat: "concat (map f (concat xss)) = concat (map (\<lambda>xs. concat (map f xs)) xss)"
  by (induction xss) simp_all

text \<open>No test is in two groups: the groups of a project are disjoint, and every test has one owner.\<close>

lemma groups_disjoint:
  assumes "groups_inv tree owners sp st fp (length sp) W"
  shows "distinct (concat (map tg_tests (tw_groups W)))"
proof -
  let ?part = "\<lambda>js. concat (map (\<lambda>i. tg_tests (tw_groups W ! i)) js)"
  have len: "length (tw_by_project W) = length sp" and cat: "concat (tw_by_project W) = [0..<length (tw_groups W)]" using assms unfolding groups_inv_def by blast+
  note f = project_facts [OF assms]
  have "map tg_tests (tw_groups W) = map (\<lambda>i. tg_tests (tw_groups W ! i)) (concat (tw_by_project W))" unfolding cat by (intro nth_equalityI) simp_all
  then have "concat (map tg_tests (tw_groups W)) = concat (map ?part (tw_by_project W))" by (simp only: concat_map_concat)
  moreover have "distinct (concat (map ?part (tw_by_project W)))"
  proof (rule distinct_concat_nth)
    show "distinct (map ?part (tw_by_project W) ! p)" if p: "p < length (map ?part (tw_by_project W))" for p using f(5) [of p] p len by simp
    show "p = q" if pq: "p < length (map ?part (tw_by_project W))" "q < length (map ?part (tw_by_project W))"
      "x \<in> set (map ?part (tw_by_project W) ! p)" "x \<in> set (map ?part (tw_by_project W) ! q)" for p q x
    proof -
      have p: "p < length sp" "q < length sp" using pq(1,2) len by simp_all
      have "x \<in> set (st ! p)" "x \<in> set (st ! q)" unfolding f(4) [OF p(1), symmetric] f(4) [OF p(2), symmetric] using pq by (simp_all del: set_concat)
      then have "owners x = Some p" "owners x = Some q" using f(2) p by blast+
      then show ?thesis by simp
    qed
  qed
  ultimately show ?thesis by simp
qed

lemma projects_loop_capacity:
  "projects_loop tree owners sp st fp ps all W = Inr W' \<Longrightarrow> length (tw_groups W) \<le> 8192 \<Longrightarrow> length (tw_groups W') \<le> 8192"
proof (induction ps arbitrary: all W)
  case (Cons p ps)
  have add: "add_groups p gs V = Inr V' \<Longrightarrow> length (tw_groups V) \<le> 8192 \<Longrightarrow> length (tw_groups V') \<le> 8192" for gs V V'
    by (induction gs arbitrary: V) (auto simp: group_error_def split: if_splits)
  obtain all' where s: "project_selection (sp ! p) owners p (st ! p) {} all = Inr all'" using Cons.prems(1) by (auto simp: bindR_eq_Inr)
  show ?case
  proof (cases "sp ! p")
    case True
    then obtain gs V where "add_groups p gs W = Inr V" "projects_loop tree owners sp st fp ps all' V = Inr W'"
      using Cons.prems(1) s by (auto simp: bindR_eq_Inr)
    then show ?thesis using Cons.IH add Cons.prems(2) by blast
  next
    case False
    then have "projects_loop tree owners sp st fp ps all' W = Inr W'" using Cons.prems(1) s by simp
    then show ?thesis using Cons.IH Cons.prems(2) by blast
  qed
qed simp

lemma TestWorkGroups_inv:
  assumes "TestWorkGroups tests suites members modes selected_projects selected_tests fully_parallel = Inr W"
  shows "\<exists>owners tree. NativeTestGroupTree (map wt_id tests) suites members modes = Inr tree \<and>
    groups_inv tree owners selected_projects selected_tests fully_parallel (length selected_projects) W \<and> length (tw_groups W) \<le> 8192"
proof -
  obtain owners tree where t: "NativeTestGroupTree (map wt_id tests) suites members modes = Inr tree"
    "projects_loop tree owners selected_projects selected_tests fully_parallel [0..<length selected_projects] {}
       \<lparr>tw_groups = [], tw_by_project = replicate (length selected_projects) []\<rparr> = Inr W"
    using assms by (auto simp: TestWorkGroups_def group_error_def bindR_eq_Inr Let_def split: if_splits)
  have "groups_inv tree owners selected_projects selected_tests fully_parallel 0 \<lparr>tw_groups = [], tw_by_project = replicate (length selected_projects) []\<rparr>"
    by (simp add: groups_inv_def)
  then have inv: "groups_inv tree owners selected_projects selected_tests fully_parallel (length selected_projects) W"
    using projects_loop_ok [OF t] by simp
  then show ?thesis using t projects_loop_capacity [OF t(2)] by auto
qed

text \<open>
  C40: When the work groups of the projects are accepted, the groups are numbered project by project without a
  gap, and each belongs to the project that lists it. A selected project has at least one group and its groups
  hold exactly its selected tests; a project that is not selected has none. No test is in two groups, a
  parallel group holds exactly one test, and a group keeps its tests in the order of the declaration tree. The
  selected tests of a project that lie in the same serial suite are always in the same group.
\<close>

theorem work_groups_partition:
  assumes "TestWorkGroups tests suites members modes selected_projects selected_tests fully_parallel = Inr W"
  shows "length (tw_by_project W) = length selected_projects \<and> concat (tw_by_project W) = [0..<length (tw_groups W)] \<and>
    (\<forall>p < length selected_projects.
       (tw_by_project W ! p \<noteq> [] \<longleftrightarrow> selected_projects ! p) \<and> (\<forall>i \<in> set (tw_by_project W ! p). tg_project (tw_groups W ! i) = p) \<and>
       set (concat (map (\<lambda>i. tg_tests (tw_groups W ! i)) (tw_by_project W ! p))) = set (selected_tests ! p)) \<and>
    distinct (concat (map tg_tests (tw_groups W))) \<and>
    (\<forall>G \<in> set (tw_groups W). tg_mode G = MParallel \<longrightarrow> (\<exists>n. tg_tests G = [n])) \<and>
    (\<forall>T. NativeSuiteTree suites members = Inr T \<longrightarrow>
       (\<forall>G \<in> set (tw_groups W). tg_tests G = filter (\<lambda>n. n \<in> set (tg_tests G)) (tr_order T)) \<and>
       (\<forall>s p n m. map_of modes s = Some MSerial \<longrightarrow> p < length selected_projects \<longrightarrow> n \<in> set (selected_tests ! p) \<longrightarrow> m \<in> set (selected_tests ! p) \<longrightarrow>
          s \<in> set (path_of T n) \<longrightarrow> s \<in> set (path_of T m) \<longrightarrow>
          (\<exists>i \<in> set (tw_by_project W ! p). n \<in> set (tg_tests (tw_groups W ! i)) \<and> m \<in> set (tg_tests (tw_groups W ! i)))))"
proof -
  obtain owners tree where t: "NativeTestGroupTree (map wt_id tests) suites members modes = Inr tree"
    and inv: "groups_inv tree owners selected_projects selected_tests fully_parallel (length selected_projects) W"
    using TestWorkGroups_inv [OF assms] by blast
  note f = project_facts [OF inv] and a = tree_ancestors [OF t]
  have len: "length (tw_by_project W) = length selected_projects" and cat: "concat (tw_by_project W) = [0..<length (tw_groups W)]" using inv unfolding groups_inv_def by blast+
  have at: "\<exists>p i. p < length selected_projects \<and> i \<in> set (tw_by_project W ! p) \<and> tw_groups W ! i = G" if G: "G \<in> set (tw_groups W)" for G
  proof -
    obtain i where i: "i < length (tw_groups W)" "tw_groups W ! i = G" using G unfolding in_set_conv_nth by blast
    then have "i \<in> set (concat (tw_by_project W))" unfolding cat by simp
    then obtain js where "js \<in> set (tw_by_project W)" "i \<in> set js" by auto
    then show ?thesis using i(2) len by (metis in_set_conv_nth)
  qed
  have "\<exists>n. tg_tests G = [n]" if G: "G \<in> set (tw_groups W)" "tg_mode G = MParallel" for G using at [OF G(1)] f(6) G(2) by blast
  moreover have "tg_tests G = filter (\<lambda>n. n \<in> set (tg_tests G)) (tr_order T)" if G: "G \<in> set (tw_groups W)" "NativeSuiteTree suites members = Inr T" for G T
  proof -
    obtain p i where p: "p < length selected_projects" "i \<in> set (tw_by_project W ! p)" "tw_groups W ! i = G" using at [OF G(1)] by blast
    show ?thesis using f(7) [OF p(1,2)] a(6) [OF G(2)] p(3) by simp
  qed
  moreover have "\<exists>i \<in> set (tw_by_project W ! p). n \<in> set (tg_tests (tw_groups W ! i)) \<and> m \<in> set (tg_tests (tw_groups W ! i))"
    if s: "NativeSuiteTree suites members = Inr T" "map_of modes s = Some MSerial" "p < length selected_projects" "n \<in> set (selected_tests ! p)" "m \<in> set (selected_tests ! p)"
      "s \<in> set (path_of T n)" "s \<in> set (path_of T m)" for T s p n m
  proof -
    have "n \<in> set (map wt_id tests)" "m \<in> set (map wt_id tests)" using f(2) [OF s(3)] s(4,5) a(1) by blast+
    then have "group_key tree (fully_parallel ! p) n = group_key tree (fully_parallel ! p) m" using serial_key [OF t s(1) _ _ s(2,6,7)] by blast
    then show ?thesis using f(8) [OF s(3,4,5)] by blast
  qed
  ultimately show ?thesis using len cat f(1,3,4) groups_disjoint [OF inv] by blast
qed

text \<open>Two projects, the second not selected; a parallel root suite with a serial suite below it.\<close>

definition example_members :: "group_test list" where
  "example_members = map (\<lambda>n. \<lparr>wt_id = n, wt_project = 0\<rparr>) [30, 10, 20]"

definition example_groups :: test_groups where
  "example_groups = \<lparr>tw_groups = [\<lparr>tg_project = 0, tg_mode = MParallel, tg_suite = 1, tg_tests = [10]\<rparr>,
     \<lparr>tg_project = 0, tg_mode = MSerial, tg_suite = 2, tg_tests = [20]\<rparr>, \<lparr>tg_project = 0, tg_mode = MParallel, tg_suite = 1, tg_tests = [30]\<rparr>],
     tw_by_project = [[0, 1, 2], []]\<rparr>"

lemma example_full_plan:
  "\<exists>routes. Plan example_tree {30, 10, 20} = Inr routes \<and> map (\<lambda>route. (ro_test route, ro_ancestors route)) routes = [(10, [1]), (20, [1, 2]), (30, [1])]"
proof -
  have paths: "path_up 64 (tr_nodes example_tree) 1 = Inr [1]" "path_up 64 (tr_nodes example_tree) 2 = Inr [2, 1]" by code_simp+
  have nodes: "tr_nodes example_tree = example_nodes" and order: "tr_order example_tree = [10, 20, 30]"
    and tests: "tr_tests example_tree = map (\<lambda>d. (td_id d, d)) example_tests" by (simp_all add: example_tree_def)
  show ?thesis
    using paths by (simp add: Plan_def order tests nodes example_tests_def example_nodes_def example_suites_def suite_Hooks_def charge_route_def Let_def)
qed

lemma example_group_tree:
  "NativeTestGroupTree [30, 10, 20] example_suites example_tests [(1, MParallel), (2, MSerial)] = Inr
     \<lparr>gt_order = [10, 20, 30], gt_tests = {20, 10, 30}, gt_modes = [(1, MParallel), (2, MSerial)], gt_ancestors = map_of [(10, [1]), (20, [1, 2]), (30, [1])]\<rparr>"
proof -
  obtain routes where r: "Plan example_tree {20, 10, 30} = Inr routes" "map (\<lambda>route. (ro_test route, ro_ancestors route)) routes = [(10, [1]), (20, [1, 2]), (30, [1])]"
    using example_full_plan by (auto simp: insert_commute)
  have suites: "example_suites \<noteq> []" "map (\<lambda>suite. (sd_id suite, sd_parent suite)) example_suites = [(1, 0), (2, 1)]" by (simp_all add: example_suites_def)
  have ids: "identity_loop [30, 10, 20] {} = Inr {20, 10, 30}" by simp
  have modes: "modes_loop (map_of [(1, 0), (2, 1)]) (map_of [(1, MParallel), (2, MSerial)]) [(1, MParallel), (2, MSerial)] = Inr ()"
    by code_simp
  have order: "tr_order example_tree = [10, 20, 30]" "set [10, 20, 30] = {20, 10, 30 :: nat}" by (auto simp: example_tree_def)
  show ?thesis unfolding NativeTestGroupTree_def ids bindR_simps example_tree suites(2) modes order r by (simp add: suites(1) r)
qed

lemma example_work_groups:
  "TestWorkGroups example_members example_suites example_tests [(1, MParallel), (2, MSerial)] [True, False] [[20, 10, 30], []] [False, False] = Inr example_groups"
proof -
  have ids: "map wt_id example_members = [30, 10, 20]" by (simp add: example_members_def)
  have "[0..<2] = [0, 1 :: nat]" by (simp add: numeral_2_eq_2)
  then show ?thesis
    unfolding TestWorkGroups_def ids example_group_tree
    by (simp add: example_members_def tree_Resolve_def group_key_def test_mode_def example_groups_def Let_def)
qed

theorem work_groups_partition_witness:
  "TestWorkGroups example_members example_suites example_tests [(1, MParallel), (2, MSerial)] [True, False] [[20, 10, 30], []] [False, False] = Inr example_groups \<and>
    concat (tw_by_project example_groups) = [0, 1, 2] \<and> distinct (concat (map tg_tests (tw_groups example_groups)))"
proof -
  have "concat (tw_by_project example_groups) = [0..<length (tw_groups example_groups)] \<and> distinct (concat (map tg_tests (tw_groups example_groups)))"
    using work_groups_partition [OF example_work_groups] by blast
  then show ?thesis using example_work_groups by (simp add: example_groups_def)
qed

end
