(* ===== verification/WorkPool.thy ===== *)
theory WorkPool
  imports ProjectPool TestGroups
begin

text \<open>
  \<open>work_group_pool.h\<close>: the pool that runs the work groups of all projects. It searches the projects as the
  project pool does, but admits one group at a time, and the state of a project is recomputed from those of
  its groups. The map of active owners is a list of pairs in the order of its keys: a new key is the largest.
  The groups are those \<open>TestWorkGroups\<close> returns; the physical receipts of workers are arguments.
\<close>

section \<open>State\<close>

record work_admission =
  wa_index :: nat
  wa_project :: nat
  wa_generation :: nat
  wa_teardown :: bool

record work_owner =
  wo_admission :: work_admission
  wo_worker :: "pool_worker option"
  wo_outcome :: "project_outcome option"
  wo_started :: bool

record work_pool =
  wp_graph :: project_graph
  wp_groups :: test_groups
  wp_projects :: "project_result list"
  wp_states :: "project_state list"
  wp_begun :: "bool list"
  wp_retired :: "work_admission option list"
  wp_canceled :: "work_admission option list"
  wp_active :: "(nat \<times> work_owner) list"
  wp_pids :: "int set"
  wp_highest_worker :: nat
  wp_limit :: nat
  wp_nonce :: nat
  wp_no_dependencies :: bool
  wp_stopped :: bool

type_synonym 'a work_op = "work_pool \<Rightarrow> ('a \<times> work_pool) result"

definition WorkGroupPool :: "project_graph \<Rightarrow> bool list \<Rightarrow> bool \<Rightarrow> test_groups \<Rightarrow> nat \<Rightarrow> work_pool result" where
  "WorkGroupPool g selected no_dependencies W limit =
     (let n = length (pg_declarations g); groups = length (tw_groups W);
          rejected = Invalid_argument ''Native work-group pool capacity or project selection rejected''
      in if limit = 0 \<or> 8 < limit \<or> length selected \<noteq> n \<or> length (tw_by_project W) \<noteq> n then Inl rejected
         else bindR (if no_dependencies then Inr selected else Closure g selected False) (\<lambda>closure.
           if closure \<noteq> selected then Inl rejected
           else if map (\<lambda>is. is \<noteq> []) (tw_by_project W) \<noteq> selected
           then Inl (Invalid_argument ''Native work-group plan disagrees with selected projects'')
           else Inr \<lparr>wp_graph = g, wp_groups = W, wp_projects = selected_results selected, wp_states = replicate groups PPending,
                     wp_begun = replicate n False, wp_retired = replicate groups None, wp_canceled = replicate groups None,
                     wp_active = [], wp_pids = {}, wp_highest_worker = 0, wp_limit = limit, wp_nonce = 0,
                     wp_no_dependencies = no_dependencies, wp_stopped = False\<rparr>))"

section \<open>The search for the next group\<close>

fun block_groups :: "nat list \<Rightarrow> project_state list \<Rightarrow> project_state list result" where
  "block_groups [] states = Inr states"
| "block_groups (i # is) states =
     bindR (nthR states i) (\<lambda>s.
       if s \<noteq> PPending then Inl (Runtime_error ''Native dependent group was admitted before dependency retirement'')
       else block_groups is (states[i := PBlocked]))"

fun work_scan :: "project_graph \<Rightarrow> bool \<Rightarrow> nat list list \<Rightarrow> (nat \<Rightarrow> bool) \<Rightarrow> nat list \<Rightarrow> project_result list \<Rightarrow> project_state list \<Rightarrow> bool \<Rightarrow>
    (nat option \<times> project_result list \<times> project_state list \<times> bool) result" where
  "work_scan g no_dependencies by_project ready [] projects states blocked = Inr (None, projects, states, blocked)"
| "work_scan g no_dependencies by_project ready (q # qs) projects states blocked =
     (if plan_teardown g no_dependencies q \<or> \<not> unsettled (projects ! q)
      then work_scan g no_dependencies by_project ready qs projects states blocked
      else bindR (dependency_state g no_dependencies projects q) (\<lambda>(waiting, failed).
        case failed of
          Some d \<Rightarrow> bindR (block_groups (by_project ! q) states) (\<lambda>states.
            work_scan g no_dependencies by_project ready qs
              (projects[q := \<lparr>pr_state = PBlocked, pr_dependency = failed, pr_reason = ''Native project dependency did not pass''\<rparr>]) states True)
        | None \<Rightarrow>
            (case if waiting then None else find (\<lambda>i. states ! i = PPending \<and> ready i) (by_project ! q) of
               Some i \<Rightarrow> Inr (Some i, projects, states, blocked)
             | None \<Rightarrow> work_scan g no_dependencies by_project ready qs projects states blocked)))"

definition live_projects :: "project_result list \<Rightarrow> nat set" where
  "live_projects projects = {q. q < length projects \<and> unsettled (projects ! q)}"

lemma finite_live [simp]: "finite (live_projects projects)"
  by (simp add: live_projects_def)

lemma live_update: "\<not> unsettled r \<Longrightarrow> live_projects (projects[q := r]) = live_projects projects - {q}"
  by (cases "q < length projects") (auto simp: live_projects_def nth_list_update split: if_splits)

lemma work_scan_live:
  assumes "work_scan g nd by ready qs projects states blocked = Inr (found, projects', states', blocked')" "set qs \<subseteq> {..<length projects}"
  shows "live_projects projects' \<subseteq> live_projects projects" "blocked' \<Longrightarrow> blocked \<or> live_projects projects' \<subset> live_projects projects"
proof -
  have "live_projects projects' \<subseteq> live_projects projects \<and> (blocked' \<longrightarrow> blocked \<or> live_projects projects' \<subset> live_projects projects)"
    using assms
  proof (induction qs arbitrary: projects states blocked)
    case (Cons q qs)
    show ?case
    proof (cases "plan_teardown g nd q \<or> \<not> unsettled (projects ! q)")
      case False
      obtain w f where d: "dependency_state g nd projects q = Inr (w, f)" using Cons.prems(1) False by (auto simp: bindR_eq_Inr)
      show ?thesis
      proof (cases f)
        case (Some d')
        let ?r = "projects[q := \<lparr>pr_state = PBlocked, pr_dependency = f, pr_reason = ''Native project dependency did not pass''\<rparr>]"
        obtain s where "work_scan g nd by ready qs ?r s True = Inr (found, projects', states', blocked')"
          using Cons.prems(1) False d Some by (auto simp: bindR_eq_Inr)
        then have "live_projects projects' \<subseteq> live_projects ?r" using Cons.IH [of ?r s True] Cons.prems(2) by simp
        moreover have "live_projects ?r = live_projects projects - {q}" by (simp add: live_update unsettled_def)
        moreover have "q \<in> live_projects projects" using False Cons.prems(2) by (simp add: live_projects_def)
        ultimately show ?thesis by auto
      next
        case None
        show ?thesis
        proof (cases "if w then None else find (\<lambda>i. states ! i = PPending \<and> ready i) (by ! q)")
          case none: None
          then have s: "work_scan g nd by ready qs projects states blocked = Inr (found, projects', states', blocked')"
            using Cons.prems(1) False d None by simp
          show ?thesis using Cons.IH [OF s] Cons.prems(2) by simp
        next
          case (Some i)
          then show ?thesis using Cons.prems(1) False d None by simp
        qed
      qed
    next
      case True
      then have s: "work_scan g nd by ready qs projects states blocked = Inr (found, projects', states', blocked')" using Cons.prems(1) by simp
      show ?thesis using Cons.IH [OF s] Cons.prems(2) by simp
    qed
  qed simp
  then show "live_projects projects' \<subseteq> live_projects projects" "blocked' \<Longrightarrow> blocked \<or> live_projects projects' \<subset> live_projects projects" by auto
qed

function work_search :: "project_graph \<Rightarrow> bool \<Rightarrow> nat list list \<Rightarrow> (nat \<Rightarrow> bool) \<Rightarrow> project_result list \<Rightarrow> project_state list \<Rightarrow>
    (nat option \<times> project_result list \<times> project_state list) result" where
  "work_search g no_dependencies by_project ready projects states =
     bindR (work_scan g no_dependencies by_project ready [0..<length projects] projects states False) (\<lambda>(found, projects', states', blocked).
       if found \<noteq> None then Inr (found, projects', states')
       else if blocked then work_search g no_dependencies by_project ready projects' states'
       else if list_ex (\<lambda>q. \<not> plan_teardown g no_dependencies q \<and> unsettled (projects' ! q)) [0..<length projects']
       then Inr (None, projects', states')
       else Inr (find (\<lambda>i. states' ! i = PPending \<and> ready i)
                   (concat (map (\<lambda>q. by_project ! q) (filter (plan_teardown g no_dependencies) [0..<length projects']))), projects', states'))"
  by pat_completeness auto
termination
proof (relation "measure (\<lambda>(g, nd, by, ready, projects, states). card (live_projects projects))", goal_cases)
  case (2 g nd gs ready projects states x found y projects' z states' blocked)
  then show ?case using work_scan_live(2) [of g nd gs ready "[0..<length projects]" projects states False found projects' states' blocked]
    by (auto intro: psubset_card_mono simp: atLeast0LessThan)
qed simp

declare work_search.simps [simp del]

definition work_Admit :: "nat \<Rightarrow> work_admission work_op" where
  "work_Admit i p =
     (if wp_nonce p = u64_max then Inl (Overflow_error ''Native work-group generation exhausted'')
      else bindR (atR (tw_groups (wp_groups p)) i) (\<lambda>work_group.
        let q = tg_project work_group;
            a = \<lparr>wa_index = i, wa_project = q, wa_generation = wp_nonce p + 1, wa_teardown = plan_teardown (wp_graph p) (wp_no_dependencies p) q\<rparr>
        in Inr (a, p\<lparr>wp_active := wp_active p @ [(wa_generation a, \<lparr>wo_admission = a, wo_worker = None, wo_outcome = None, wo_started = False\<rparr>)],
                     wp_nonce := wp_nonce p + 1, wp_states := (wp_states p)[i := PRunning],
                     wp_projects := (wp_projects p)[q := (wp_projects p ! q)\<lparr>pr_state := PRunning\<rparr>]\<rparr>)))"

definition work_Next :: "(nat \<Rightarrow> bool) \<Rightarrow> work_admission option work_op" where
  "work_Next ready p =
     (if wp_stopped p \<or> wp_limit p \<le> length (wp_active p) then Inr (None, p)
      else bindR (work_search (wp_graph p) (wp_no_dependencies p) (tw_by_project (wp_groups p)) ready (wp_projects p) (wp_states p))
             (\<lambda>(found, projects, states).
        let p = p\<lparr>wp_projects := projects, wp_states := states\<rparr>
        in case found of
             None \<Rightarrow> Inr (None, p)
           | Some i \<Rightarrow> bindR (work_Admit i p) (\<lambda>(a, p). Inr (Some a, p))))"

section \<open>Receipts\<close>

definition work_Find :: "work_pool \<Rightarrow> work_admission \<Rightarrow> work_owner option" where
  "work_Find p a =
     (case map_of (wp_active p) (wa_generation a) of
        None \<Rightarrow> None
      | Some x \<Rightarrow> if wo_admission x = a then Some x else None)"

definition update_owner :: "nat \<Rightarrow> work_owner \<Rightarrow> (nat \<times> work_owner) list \<Rightarrow> (nat \<times> work_owner) list" where
  "update_owner generation x active = map (\<lambda>(k, y). (k, if k = generation then x else y)) active"

text \<open>\<open>UpdateProject\<close>: the state of a project, from those of its groups and whether one of them was started.\<close>

definition groups_state :: "project_state list \<Rightarrow> bool \<Rightarrow> nat list \<Rightarrow> project_state" where
  "groups_state states begun is =
     (let has = (\<lambda>s. list_ex (\<lambda>i. states ! i = s) is)
      in if has PRunning then PRunning
         else if has PPending then (if begun then PRunning else PPending)
         else if has PFailed then PFailed
         else if has PInterrupted then PInterrupted
         else if has PNotRun then (if begun then PInterrupted else PNotRun)
         else PPassed)"

definition UpdateProject :: "nat \<Rightarrow> work_pool \<Rightarrow> work_pool" where
  "UpdateProject q p =
     p\<lparr>wp_projects := (wp_projects p)[q := (wp_projects p ! q)
          \<lparr>pr_state := groups_state (wp_states p) (wp_begun p ! q) (tw_by_project (wp_groups p) ! q)\<rparr>]\<rparr>"

definition work_Retire :: "nat \<Rightarrow> work_pool \<Rightarrow> work_pool" where
  "work_Retire generation p =
     (case map_of (wp_active p) generation of
        None \<Rightarrow> p
      | Some x \<Rightarrow>
          (case (wo_worker x, wo_outcome x) of
             (None, Some out) \<Rightarrow>
               let a = wo_admission x
               in UpdateProject (wa_project a)
                    (p\<lparr>wp_retired := (wp_retired p)[wa_index a := Some a],
                       wp_states := (wp_states p)[wa_index a := outcome_state out],
                       wp_active := filter (\<lambda>(k, y). k \<noteq> generation) (wp_active p)\<rparr>)
           | _ \<Rightarrow> p))"

definition work_WorkerStarted :: "work_admission \<Rightarrow> nat \<Rightarrow> int \<Rightarrow> bool work_op" where
  "work_WorkerStarted a worker pid p =
     (case work_Find p a of
        None \<Rightarrow> Inr (False, p)
      | Some x \<Rightarrow>
          if worker = 0 \<or> pid \<le> 0 \<or> wo_worker x \<noteq> None \<or> wo_outcome x \<noteq> None \<or> worker \<le> wp_highest_worker p \<or> pid \<in> wp_pids p
          then Inr (False, p)
          else Inr (True, p\<lparr>wp_active := update_owner (wa_generation a)
                              (x\<lparr>wo_worker := Some \<lparr>pw_index = worker, pw_pid = pid\<rparr>, wo_started := True\<rparr>) (wp_active p),
                            wp_begun := (wp_begun p)[wa_project a := True],
                            wp_highest_worker := worker, wp_pids := insert pid (wp_pids p)\<rparr>))"

definition work_WorkerExited :: "work_admission \<Rightarrow> nat \<Rightarrow> int \<Rightarrow> bool work_op" where
  "work_WorkerExited a worker pid p =
     (case work_Find p a of
        None \<Rightarrow> Inr (False, p)
      | Some x \<Rightarrow>
          if wo_worker x \<noteq> Some \<lparr>pw_index = worker, pw_pid = pid\<rparr> then Inr (False, p)
          else Inr (True, work_Retire (wa_generation a)
                 (p\<lparr>wp_active := update_owner (wa_generation a) (x\<lparr>wo_worker := None\<rparr>) (wp_active p), wp_pids := wp_pids p - {pid}\<rparr>)))"

definition work_Complete :: "work_admission \<Rightarrow> project_outcome \<Rightarrow> bool work_op" where
  "work_Complete a out p =
     (case work_Find p a of
        None \<Rightarrow> Inr (False, p)
      | Some x \<Rightarrow>
          if \<not> wo_started x \<or> wo_outcome x \<noteq> None then Inr (False, p)
          else Inr (True, work_Retire (wa_generation a)
                 (p\<lparr>wp_active := update_owner (wa_generation a) (x\<lparr>wo_outcome := Some out\<rparr>) (wp_active p)\<rparr>)))"

section \<open>Stop\<close>

definition cancel_owner :: "work_pool \<Rightarrow> nat \<times> work_owner \<Rightarrow> work_pool" where
  "cancel_owner p entry =
     (case entry of (k, x) \<Rightarrow>
        if wo_started x then p
        else let a = wo_admission x
             in p\<lparr>wp_states := (wp_states p)[wa_index a := PNotRun], wp_canceled := (wp_canceled p)[wa_index a := Some a],
                  wp_active := filter (\<lambda>(k', y). k' \<noteq> k) (wp_active p)\<rparr>)"

definition stop_project :: "string \<Rightarrow> work_pool \<Rightarrow> nat \<Rightarrow> work_pool" where
  "stop_project reason p q =
     (if unsettled (wp_projects p ! q)
      then let p = UpdateProject q p in p\<lparr>wp_projects := (wp_projects p)[q := (wp_projects p ! q)\<lparr>pr_reason := reason\<rparr>]\<rparr>
      else p)"

definition work_Stop :: "string \<Rightarrow> work_pool \<Rightarrow> work_pool result" where
  "work_Stop reason p =
     (if 8192 < length reason then Inl (Invalid_argument ''Native work-group stop reason capacity exceeded'')
      else if wp_stopped p then Inr p
      else let p = foldl cancel_owner (p\<lparr>wp_stopped := True\<rparr>) (wp_active p);
               p = p\<lparr>wp_states := map (\<lambda>s. if s = PPending then PNotRun else s) (wp_states p)\<rparr>
           in Inr (foldl (stop_project reason) p [0..<length (wp_projects p)]))"

section \<open>Observers\<close>

definition work_Reserved :: "work_pool \<Rightarrow> work_admission \<Rightarrow> bool" where
  "work_Reserved p a \<longleftrightarrow> work_Find p a \<noteq> None"

definition work_ReservedBeforeStart :: "work_pool \<Rightarrow> work_admission \<Rightarrow> bool" where
  "work_ReservedBeforeStart p a \<longleftrightarrow>
     (case work_Find p a of None \<Rightarrow> False | Some x \<Rightarrow> \<not> wo_started x \<and> wo_worker x = None \<and> wo_outcome x = None)"

definition work_StartedWorkerExited :: "work_pool \<Rightarrow> work_admission \<Rightarrow> bool" where
  "work_StartedWorkerExited p a \<longleftrightarrow>
     (case work_Find p a of None \<Rightarrow> False | Some x \<Rightarrow> wo_started x \<and> wo_worker x = None \<and> wo_outcome x = None)"

definition work_Retired :: "work_pool \<Rightarrow> work_admission \<Rightarrow> bool" where
  "work_Retired p a \<longleftrightarrow> wa_index a < length (wp_retired p) \<and> wp_retired p ! wa_index a = Some a"

definition work_CanceledBeforeStart :: "work_pool \<Rightarrow> work_admission \<Rightarrow> bool" where
  "work_CanceledBeforeStart p a \<longleftrightarrow> wa_index a < length (wp_canceled p) \<and> wp_canceled p ! wa_index a = Some a"

definition work_Done :: "work_pool \<Rightarrow> bool" where
  "work_Done p \<longleftrightarrow> wp_active p = [] \<and> list_all (\<lambda>s. s \<noteq> PPending \<and> s \<noteq> PRunning) (wp_states p)"

definition work_Physical :: "work_pool \<Rightarrow> nat" where
  "work_Physical p = card (wp_pids p)"

section \<open>Groups and their projects\<close>

definition plan_ok :: "test_groups \<Rightarrow> nat \<Rightarrow> bool" where
  "plan_ok W n \<longleftrightarrow>
     length (tw_by_project W) = n \<and> concat (tw_by_project W) = [0..<length (tw_groups W)] \<and> length (tw_groups W) \<le> 8192 \<and>
     (\<forall>q < n. \<forall>i \<in> set (tw_by_project W ! q). tg_project (tw_groups W ! i) = q)"

abbreviation project_of :: "test_groups \<Rightarrow> nat \<Rightarrow> nat" where
  "project_of W i \<equiv> tg_project (tw_groups W ! i)"

lemma plan_member:
  assumes "plan_ok W n"
  shows "i < length (tw_groups W) \<Longrightarrow> project_of W i < n \<and> i \<in> set (tw_by_project W ! project_of W i)"
    "q < n \<Longrightarrow> i \<in> set (tw_by_project W ! q) \<Longrightarrow> i < length (tw_groups W) \<and> project_of W i = q"
    "q < n \<Longrightarrow> distinct (tw_by_project W ! q)"
proof -
  have len: "length (tw_by_project W) = n" and cat: "concat (tw_by_project W) = [0..<length (tw_groups W)]"
    and proj: "\<And>q i. q < n \<Longrightarrow> i \<in> set (tw_by_project W ! q) \<Longrightarrow> project_of W i = q" using assms unfolding plan_ok_def by blast+
  show "project_of W i < n \<and> i \<in> set (tw_by_project W ! project_of W i)" if i: "i < length (tw_groups W)"
  proof -
    have "i \<in> set (concat (tw_by_project W))" unfolding cat using i by simp
    then obtain js where js: "js \<in> set (tw_by_project W)" "i \<in> set js" by auto
    then obtain q where "q < n" "tw_by_project W ! q = js" using len unfolding in_set_conv_nth by blast
    then show ?thesis using proj [of q i] js(2) by simp
  qed
  show "i < length (tw_groups W) \<and> project_of W i = q" if q: "q < n" "i \<in> set (tw_by_project W ! q)"
  proof -
    have "tw_by_project W ! q \<in> set (tw_by_project W)" using q(1) len by simp
    then have "i \<in> set (concat (tw_by_project W))" using q(2) by auto
    then show ?thesis using proj [OF q] unfolding cat by simp
  qed
  show "distinct (tw_by_project W ! q)" if "q < n"
  proof -
    have "distinct (concat (tw_by_project W))" unfolding cat by simp
    then show ?thesis using that len by (simp add: distinct_concat_iff)
  qed
qed

definition work_project_ok :: "test_groups \<Rightarrow> project_state list \<Rightarrow> bool list \<Rightarrow> project_result list \<Rightarrow> nat \<Rightarrow> bool" where
  "work_project_ok W states begun projects q \<longleftrightarrow>
     (if tw_by_project W ! q = [] then pr_state (projects ! q) = PNotSelected
      else pr_state (projects ! q) = PBlocked \<and> (\<forall>i \<in> set (tw_by_project W ! q). states ! i = PBlocked) \<or>
           (\<forall>i \<in> set (tw_by_project W ! q). states ! i \<noteq> PBlocked) \<and> pr_state (projects ! q) = groups_state states (begun ! q) (tw_by_project W ! q))"

definition state_ran :: "project_state \<Rightarrow> bool" where
  "state_ran s \<longleftrightarrow> s \<in> {PRunning, PPassed, PFailed, PInterrupted}"

definition work_core :: "project_graph \<Rightarrow> bool \<Rightarrow> test_groups \<Rightarrow> project_result list \<Rightarrow> project_state list \<Rightarrow> bool list \<Rightarrow> bool" where
  "work_core g nd W projects states begun \<longleftrightarrow>
     graph_wf g \<and> plan_ok W (length (pg_declarations g)) \<and> length projects = length (pg_declarations g) \<and>
     length begun = length (pg_declarations g) \<and> length states = length (tw_groups W) \<and>
     (\<forall>q < length projects. work_project_ok W states begun projects q) \<and> PNotSelected \<notin> set states \<and>
     (\<forall>i < length states. state_ran (states ! i) \<longrightarrow> admissible g nd projects (project_of W i))"

lemma work_coreD:
  assumes "work_core g nd W projects states begun"
  shows "graph_wf g" "plan_ok W (length (pg_declarations g))" "length projects = length (pg_declarations g)" "length begun = length projects"
    "length states = length (tw_groups W)" "\<And>q. q < length projects \<Longrightarrow> work_project_ok W states begun projects q" "PNotSelected \<notin> set states"
    "\<And>i. i < length states \<Longrightarrow> state_ran (states ! i) \<Longrightarrow> admissible g nd projects (project_of W i)" "plan_ok W (length projects)"
  using assms unfolding work_core_def by simp_all

lemma groups_state_unsettled: "groups_state states b is \<in> {PPending, PRunning} \<longleftrightarrow> (\<exists>i \<in> set is. states ! i \<in> {PPending, PRunning})"
  by (auto simp: groups_state_def Let_def list_ex_iff)

lemma groups_state_cong: "(\<And>i. i \<in> set is \<Longrightarrow> states' ! i = states ! i) \<Longrightarrow> groups_state states' b is = groups_state states b is"
proof -
  assume "\<And>i. i \<in> set is \<Longrightarrow> states' ! i = states ! i"
  then have "list_ex (\<lambda>i. states' ! i = s) is = list_ex (\<lambda>i. states ! i = s) is" for s by (auto simp: list_ex_iff)
  then show ?thesis by (simp add: groups_state_def)
qed

lemma groups_state_running: "i \<in> set is \<Longrightarrow> states ! i = PRunning \<Longrightarrow> groups_state states b is = PRunning"
  by (auto simp: groups_state_def Let_def list_ex_iff)

lemma groups_state_passed:
  "groups_state states b is = PPassed \<Longrightarrow> i \<in> set is \<Longrightarrow> states ! i \<noteq> PBlocked \<Longrightarrow> states ! i \<noteq> PNotSelected \<Longrightarrow> states ! i = PPassed"
  by (cases "states ! i") (auto simp: groups_state_def Let_def list_ex_iff split: if_splits)

lemma unsettled_iff: "unsettled r \<longleftrightarrow> pr_state r \<in> {PPending, PRunning}"
  by (auto simp: unsettled_def)

text \<open>A project has work left exactly if one of its groups has.\<close>

lemma work_unsettled:
  assumes "work_core g nd W projects states begun" "q < length projects"
  shows "unsettled (projects ! q) \<longleftrightarrow> (\<exists>i \<in> set (tw_by_project W ! q). states ! i \<in> {PPending, PRunning})"
    "unsettled (projects ! q) \<Longrightarrow> tw_by_project W ! q \<noteq> [] \<and> (\<forall>i \<in> set (tw_by_project W ! q). states ! i \<noteq> PBlocked)"
proof -
  have ok: "work_project_ok W states begun projects q" using work_coreD(6) [OF assms] .
  show "unsettled (projects ! q) \<longleftrightarrow> (\<exists>i \<in> set (tw_by_project W ! q). states ! i \<in> {PPending, PRunning})"
  proof (cases "tw_by_project W ! q = []")
    case False
    then consider "pr_state (projects ! q) = PBlocked" "\<forall>i \<in> set (tw_by_project W ! q). states ! i = PBlocked"
      | "pr_state (projects ! q) = groups_state states (begun ! q) (tw_by_project W ! q)" using ok unfolding work_project_ok_def by auto
    then show ?thesis
    proof cases
      case 2
      then show ?thesis by (simp only: unsettled_iff groups_state_unsettled)
    qed (auto simp: unsettled_iff)
  qed (use ok in \<open>auto simp: work_project_ok_def unsettled_iff\<close>)
  show "tw_by_project W ! q \<noteq> [] \<and> (\<forall>i \<in> set (tw_by_project W ! q). states ! i \<noteq> PBlocked)" if "unsettled (projects ! q)"
    using ok that by (auto simp: work_project_ok_def unsettled_iff split: if_splits)
qed

text \<open>The proof rule for a change: a project is left as it is, or it had work left and its state is recomputed.\<close>

lemma work_core_change:
  assumes core: "work_core g nd W projects states begun"
    and len: "length projects' = length projects" "length states' = length states" "length begun' = length begun"
    and change: "\<And>q. q < length projects \<Longrightarrow>
      pr_state (projects' ! q) = pr_state (projects ! q) \<and> begun' ! q = begun ! q \<and> (\<forall>i \<in> set (tw_by_project W ! q). states' ! i = states ! i) \<or>
      unsettled (projects ! q) \<and> work_project_ok W states' begun' projects' q"
    and ran: "\<And>i. i < length states \<Longrightarrow> state_ran (states' ! i) \<Longrightarrow> state_ran (states ! i) \<or> admissible g nd projects (project_of W i)"
    and sel: "PNotSelected \<notin> set states'"
  shows "work_core g nd W projects' states' begun' \<and> advances projects projects'"
proof -
  note c = work_coreD [OF core]
  have adv: "advances projects projects'"
    unfolding advances_def
  proof (intro conjI allI impI)
    fix q assume q: "q < length projects"
    show "pr_state (projects' ! q) = PPassed" if "pr_state (projects ! q) = PPassed" using change [OF q] that by (auto simp: unsettled_iff)
    show "\<not> unsettled (projects' ! q)" if "\<not> unsettled (projects ! q)" using change [OF q] that by (auto simp: unsettled_iff)
  qed (fact len(1))
  have "work_project_ok W states' begun' projects' q" if q: "q < length projects" for q
  proof -
    consider "pr_state (projects' ! q) = pr_state (projects ! q)" "begun' ! q = begun ! q" "\<forall>i \<in> set (tw_by_project W ! q). states' ! i = states ! i"
      | "work_project_ok W states' begun' projects' q" using change [OF q] by blast
    then show ?thesis
    proof cases
      case 1
      have "groups_state states' (begun' ! q) (tw_by_project W ! q) = groups_state states (begun ! q) (tw_by_project W ! q)"
        unfolding 1(2) by (rule groups_state_cong) (use 1(3) in blast)
      then show ?thesis using c(6) [OF q] 1 by (simp add: work_project_ok_def)
    qed
  qed
  moreover have "admissible g nd projects' (project_of W i)" if i: "i < length states" "state_ran (states' ! i)" for i
  proof -
    have "admissible g nd projects (project_of W i)" using ran [OF i] c(8) [OF i(1)] by blast
    moreover have "project_of W i < length projects" using plan_member(1) [OF c(2)] i(1) c(3,5) by simp
    ultimately show ?thesis using admissible_mono [OF c(1,3) _ adv] by blast
  qed
  ultimately have "work_core g nd W projects' states' begun'" using c len sel unfolding work_core_def by simp
  then show ?thesis using adv by blast
qed

section \<open>What the search does\<close>

definition keeps :: "project_state list \<Rightarrow> project_state list \<Rightarrow> bool" where
  "keeps states states' \<longleftrightarrow> length states' = length states \<and>
     (\<forall>i < length states. states' ! i = states ! i \<or> states ! i = PPending \<and> states' ! i = PBlocked)"

lemma keeps_refl [simp]: "keeps states states"
  by (simp add: keeps_def)

lemma keeps_trans: "keeps a b \<Longrightarrow> keeps b c \<Longrightarrow> keeps a c"
  unfolding keeps_def by (metis project_state.distinct(27))

lemma advances_refl [simp]: "advances results results"
  by (simp add: advances_def)

lemma advances_trans: "advances a b \<Longrightarrow> advances b c \<Longrightarrow> advances a c"
  unfolding advances_def by simp

lemma block_groups_ok:
  "\<forall>i \<in> set is. i < length states \<and> states ! i = PPending \<Longrightarrow> distinct is \<Longrightarrow>
     \<exists>states'. block_groups is states = Inr states' \<and> length states' = length states \<and>
       (\<forall>j < length states. states' ! j = (if j \<in> set is then PBlocked else states ! j))"
proof (induction "is" arbitrary: states)
  case (Cons i "is")
  have "\<forall>j \<in> set is. j < length (states[i := PBlocked]) \<and> states[i := PBlocked] ! j = PPending" using Cons.prems by (auto simp: nth_list_update)
  then obtain states' where "block_groups is (states[i := PBlocked]) = Inr states'" "length states' = length states"
    "\<forall>j < length states. states' ! j = (if j \<in> set is then PBlocked else states[i := PBlocked] ! j)"
    using Cons.IH [of "states[i := PBlocked]"] Cons.prems(2) by auto
  then show ?case using Cons.prems by (intro exI [of _ states']) (auto simp: nthR_def nth_list_update)
qed simp

definition blocked_result :: "nat option \<Rightarrow> project_result" where
  "blocked_result d = \<lparr>pr_state = PBlocked, pr_dependency = d, pr_reason = ''Native project dependency did not pass''\<rparr>"

text \<open>A project whose dependency failed has only pending groups, and blocking it keeps everything in order.\<close>

lemma block_project:
  assumes core: "work_core g nd W projects states begun" and "PNotRun \<notin> set states" "q < length projects" "unsettled (projects ! q)"
    "\<not> plan_teardown g nd q" "\<not> nd" "d \<in> set (pg_dependencies g ! q)" "pr_state (projects ! d) \<noteq> PPassed"
  shows "\<exists>states'. block_groups (tw_by_project W ! q) states = Inr states' \<and> keeps states states' \<and> PNotRun \<notin> set states' \<and>
    work_core g nd W (projects[q := blocked_result f]) states' begun \<and> advances projects (projects[q := blocked_result f])"
proof -
  note c = work_coreD [OF core]
  let ?is = "tw_by_project W ! q"
  note u = work_unsettled [OF core assms(3)]
  have "states ! i = PPending" if i: "i \<in> set ?is" for i
  proof -
    have m: "i < length states" "project_of W i = q" using plan_member(2) [OF c(9) assms(3) i] c(5) by simp_all
    have "\<not> admissible g nd projects q" using assms(5-8) by (auto simp: admissible_def plan_teardown_def settled_dependencies_def)
    then have "\<not> state_ran (states ! i)" using c(8) [OF m(1)] m(2) by auto
    moreover have "states ! i \<noteq> PBlocked" using u(2) [OF assms(4)] i by blast
    moreover have "states ! i \<noteq> PNotRun" "states ! i \<noteq> PNotSelected" using nth_mem [OF m(1)] assms(2) c(7) by auto
    ultimately show ?thesis by (cases "states ! i") (auto simp: state_ran_def)
  qed
  moreover have "i < length states" if "i \<in> set ?is" for i using plan_member(2) [OF c(9) assms(3) that] c(5) by simp
  ultimately obtain states' where s: "block_groups ?is states = Inr states'" "length states' = length states"
    "\<forall>j < length states. states' ! j = (if j \<in> set ?is then PBlocked else states ! j)" and pend: "\<forall>i \<in> set ?is. i < length states \<and> states ! i = PPending"
    using block_groups_ok [of ?is states] plan_member(3) [OF c(9) assms(3)] by blast
  have keep: "keeps states states'" using s pend by (auto simp: keeps_def)
  have free: "s \<notin> set states'" if "s \<notin> set states" "s \<noteq> PBlocked" for s
    using that s(2,3) by (auto simp: in_set_conv_nth split: if_splits)
  have "work_core g nd W (projects[q := blocked_result f]) states' begun \<and> advances projects (projects[q := blocked_result f])"
  proof (rule work_core_change [OF core])
    fix p assume p: "p < length projects"
    show "pr_state (projects[q := blocked_result f] ! p) = pr_state (projects ! p) \<and> begun ! p = begun ! p \<and> (\<forall>i \<in> set (tw_by_project W ! p). states' ! i = states ! i) \<or>
      unsettled (projects ! p) \<and> work_project_ok W states' begun (projects[q := blocked_result f]) p"
    proof (cases "p = q")
      case True
      have "tw_by_project W ! q \<noteq> []" using u(2) [OF assms(4)] by blast
      then show ?thesis using True assms(3,4) pend s(3) by (simp add: work_project_ok_def blocked_result_def)
    next
      case False
      have "i \<notin> set ?is \<and> i < length states" if "i \<in> set (tw_by_project W ! p)" for i
        using plan_member(2) [OF c(9) p that] plan_member(2) [OF c(9) assms(3)] False c(5) by auto
      then show ?thesis using False s(3) by simp
    qed
  next
    show "state_ran (states ! i) \<or> admissible g nd projects (project_of W i)" if "i < length states" "state_ran (states' ! i)" for i
      using that s(3) by (auto simp: state_ran_def split: if_splits)
  qed (use s(2) free [OF c(7)] in simp_all)
  then show ?thesis using s(1) keep free [OF assms(2)] by blast
qed

definition work_scan_post :: "project_graph \<Rightarrow> bool \<Rightarrow> test_groups \<Rightarrow> (nat \<Rightarrow> bool) \<Rightarrow> nat list \<Rightarrow> nat option \<Rightarrow> project_result list \<Rightarrow> project_state list \<Rightarrow> bool \<Rightarrow> bool" where
  "work_scan_post g nd W ready qs found projects states blocked' \<longleftrightarrow>
     (case found of
        Some i \<Rightarrow> i < length states \<and> states ! i = PPending \<and> ready i \<and> \<not> plan_teardown g nd (project_of W i) \<and> (nd \<or> settled_dependencies g projects (project_of W i))
      | None \<Rightarrow> \<not> blocked' \<longrightarrow> (\<forall>q \<in> set qs. \<not> plan_teardown g nd q \<longrightarrow> unsettled (projects ! q) \<longrightarrow>
          waits g nd projects q \<or> (\<forall>i \<in> set (tw_by_project W ! q). states ! i = PPending \<longrightarrow> \<not> ready i)))"

lemma work_blocked_stays: "work_scan g nd gs ready qs projects states True = Inr (found, projects', states', blocked) \<Longrightarrow> blocked"
  by (induction qs arbitrary: projects states) (auto simp: bindR_eq_Inr split: if_splits option.splits)

lemma work_scan_unchanged:
  "work_scan g nd gs ready qs projects states blocked = Inr (found, projects', states', False) \<Longrightarrow> projects' = projects \<and> states' = states"
  by (induction qs arbitrary: projects states blocked)
    (auto simp: bindR_eq_Inr dest: work_blocked_stays split: if_splits option.splits)

lemma work_scan_ok:
  assumes "work_core g nd W projects states begun" "PNotRun \<notin> set states" "set qs \<subseteq> {..<length projects}"
  shows "\<exists>found projects' states' blocked'. work_scan g nd (tw_by_project W) ready qs projects states blocked = Inr (found, projects', states', blocked') \<and>
    work_core g nd W projects' states' begun \<and> PNotRun \<notin> set states' \<and> keeps states states' \<and> advances projects projects' \<and>
    work_scan_post g nd W ready qs found projects' states' blocked'"
  using assms
proof (induction qs arbitrary: projects states blocked)
  case Nil
  then show ?case by (simp add: work_scan_post_def)
next
  case (Cons q qs)
  note c = work_coreD [OF Cons.prems(1)]
  have q: "q < length projects" and rest: "set qs \<subseteq> {..<length projects}" using Cons.prems(3) by auto
  let ?scan = "work_scan g nd (tw_by_project W) ready"
  have more: ?case
    if skip: "plan_teardown g nd q \<or> \<not> unsettled (projects ! q) \<or> waits g nd projects q \<or> (\<forall>i \<in> set (tw_by_project W ! q). states ! i = PPending \<longrightarrow> \<not> ready i)"
      and step: "?scan (q # qs) projects states blocked = ?scan qs projects states b" for b
  proof -
    obtain found projects' states' blocked' where s: "?scan qs projects states b = Inr (found, projects', states', blocked')"
      "work_core g nd W projects' states' begun" "PNotRun \<notin> set states'" "keeps states states'" "advances projects projects'"
      "work_scan_post g nd W ready qs found projects' states' blocked'"
      using Cons.IH [OF Cons.prems(1,2) rest, of b] by blast
    have "work_scan_post g nd W ready (q # qs) found projects' states' blocked'"
    proof (cases "found = None \<and> \<not> blocked'")
      case True
      then have "projects' = projects \<and> states' = states" using s(1) work_scan_unchanged [of g nd "tw_by_project W" ready qs projects states b found projects' states'] by simp
      then show ?thesis using s(6) True skip by (auto simp: work_scan_post_def)
    qed (use s(6) in \<open>auto simp: work_scan_post_def split: option.splits\<close>)
    then show ?thesis unfolding step using s by blast
  qed
  show ?case
  proof (cases "plan_teardown g nd q \<or> \<not> unsettled (projects ! q)")
    case True
    then have "?scan (q # qs) projects states blocked = ?scan qs projects states blocked" by simp
    then show ?thesis using more True by blast
  next
    case live: False
    let ?failed = "\<lambda>d. \<not> unsettled (projects ! d) \<and> pr_state (projects ! d) \<noteq> PPassed"
    have d: "dependency_state g nd projects q = (if nd then Inr (False, None)
        else Inr (\<exists>d \<in> set (pg_dependencies g ! q). unsettled (projects ! d), find ?failed (pg_dependencies g ! q)))"
      using dependency_state_eq [OF c(1,3) q] .
    show ?thesis
    proof (cases "if nd then None else find ?failed (pg_dependencies g ! q)")
      case (Some e)
      then have nd: "\<not> nd" "e \<in> set (pg_dependencies g ! q)" "pr_state (projects ! e) \<noteq> PPassed"
        using find_Some_iff_mem [of ?failed "pg_dependencies g ! q" e] by (auto split: if_splits)
      obtain st where b: "block_groups (tw_by_project W ! q) states = Inr st" "keeps states st" "PNotRun \<notin> set st"
        "work_core g nd W (projects[q := blocked_result (Some e)]) st begun" "advances projects (projects[q := blocked_result (Some e)])"
        using block_project [OF Cons.prems(1,2) q _ _ nd, of "Some e"] live by blast
      obtain found projects' states' blocked' where s: "?scan qs (projects[q := blocked_result (Some e)]) st True = Inr (found, projects', states', blocked')"
        "work_core g nd W projects' states' begun" "PNotRun \<notin> set states'" "keeps st states'" "advances (projects[q := blocked_result (Some e)]) projects'"
        "work_scan_post g nd W ready qs found projects' states' blocked'"
        using Cons.IH [OF b(4,3), of True] rest by auto
      have "?scan (q # qs) projects states blocked = ?scan qs (projects[q := blocked_result (Some e)]) st True"
        using live d Some nd(1) b(1) by (simp add: blocked_result_def)
      moreover have "work_scan_post g nd W ready (q # qs) found projects' states' blocked'"
        using s(6) work_blocked_stays [OF s(1)] by (auto simp: work_scan_post_def split: option.splits)
      ultimately show ?thesis using s keeps_trans [OF b(2) s(4)] advances_trans [OF b(5) s(5)] by auto
    next
      case None
      let ?next = "if \<not> nd \<and> (\<exists>d \<in> set (pg_dependencies g ! q). unsettled (projects ! d)) then None else find (\<lambda>i. states ! i = PPending \<and> ready i) (tw_by_project W ! q)"
      have step: "?scan (q # qs) projects states blocked = (case ?next of Some i \<Rightarrow> Inr (Some i, projects, states, blocked) | None \<Rightarrow> ?scan qs projects states blocked)"
        using live d None by (simp split: if_splits)
      show ?thesis
      proof (cases ?next)
        case none: None
        then have "waits g nd projects q \<or> (\<forall>i \<in> set (tw_by_project W ! q). states ! i = PPending \<longrightarrow> \<not> ready i)"
          by (auto simp: waits_def find_None_iff split: if_splits)
        moreover have "?scan (q # qs) projects states blocked = ?scan qs projects states blocked" using step none by simp
        ultimately show ?thesis using more by blast
      next
        case (Some i)
        then have i: "i \<in> set (tw_by_project W ! q)" "states ! i = PPending" "ready i" "\<not> waits g nd projects q"
          using find_Some_iff_mem [of _ "tw_by_project W ! q" i] by (auto simp: waits_def split: if_splits)
        have "nd \<or> settled_dependencies g projects q"
          using None i(4) by (auto simp: settled_dependencies_def waits_def find_None_iff split: if_splits)
        then have "work_scan_post g nd W ready (q # qs) (Some i) projects states blocked"
          using i live plan_member(2) [OF c(9) q i(1)] c(5) by (simp add: work_scan_post_def)
        then show ?thesis using step Some Cons.prems(1,2) by simp
      qed
    qed
  qed
qed

definition work_search_post :: "project_graph \<Rightarrow> bool \<Rightarrow> test_groups \<Rightarrow> (nat \<Rightarrow> bool) \<Rightarrow> nat option \<Rightarrow> project_result list \<Rightarrow> project_state list \<Rightarrow> bool" where
  "work_search_post g nd W ready found projects states \<longleftrightarrow>
     (case found of
        Some i \<Rightarrow> i < length states \<and> states ! i = PPending \<and> ready i \<and> admissible g nd projects (project_of W i)
      | None \<Rightarrow> \<forall>i < length states. states ! i = PPending \<longrightarrow> ready i \<longrightarrow>
          (if plan_teardown g nd (project_of W i) then \<exists>q < length projects. \<not> plan_teardown g nd q \<and> unsettled (projects ! q)
           else waits g nd projects (project_of W i)))"

lemma pending_unsettled:
  assumes "work_core g nd W projects states begun" "i < length states" "states ! i \<in> {PPending, PRunning}"
  shows "unsettled (projects ! project_of W i)" "project_of W i < length projects" "i \<in> set (tw_by_project W ! project_of W i)"
proof -
  note c = work_coreD [OF assms(1)]
  have i: "i < length (tw_groups W)" using assms(2) c(5) by simp
  show q: "project_of W i < length projects" and m: "i \<in> set (tw_by_project W ! project_of W i)" using plan_member(1) [OF c(9) i] by blast+
  show "unsettled (projects ! project_of W i)" unfolding work_unsettled(1) [OF assms(1) q] using m assms(3) by blast
qed

lemma work_search_ok:
  assumes "work_core g nd W projects states begun" "PNotRun \<notin> set states"
  shows "\<exists>found projects' states'. work_search g nd (tw_by_project W) ready projects states = Inr (found, projects', states') \<and>
    work_core g nd W projects' states' begun \<and> PNotRun \<notin> set states' \<and> keeps states states' \<and> advances projects projects' \<and>
    work_search_post g nd W ready found projects' states'"
  using assms
proof (induction "card (live_projects projects)" arbitrary: projects states rule: less_induct)
  case less
  note c = work_coreD [OF less.prems(1)]
  obtain found projects' states' blocked' where s: "work_scan g nd (tw_by_project W) ready [0..<length projects] projects states False = Inr (found, projects', states', blocked')"
    "work_core g nd W projects' states' begun" "PNotRun \<notin> set states'" "keeps states states'" "advances projects projects'"
    "work_scan_post g nd W ready [0..<length projects] found projects' states' blocked'"
    using work_scan_ok [OF less.prems, of "[0..<length projects]" ready False] by (auto simp: atLeast0LessThan)
  note c' = work_coreD [OF s(2)]
  have len: "length projects' = length projects" using s(5) by (simp add: advances_def)
  let ?tear = "filter (plan_teardown g nd) [0..<length projects']"
  let ?last = "find (\<lambda>i. states' ! i = PPending \<and> ready i) (concat (map (\<lambda>q. tw_by_project W ! q) ?tear))"
  have eq: "work_search g nd (tw_by_project W) ready projects states =
    (if found \<noteq> None then Inr (found, projects', states') else if blocked' then work_search g nd (tw_by_project W) ready projects' states'
     else if list_ex (\<lambda>q. \<not> plan_teardown g nd q \<and> unsettled (projects' ! q)) [0..<length projects'] then Inr (None, projects', states')
     else Inr (?last, projects', states'))"
    by (subst work_search.simps) (simp add: s(1))
  consider (found) i where "found = Some i" | (again) "found = None" blocked'
    | (left) "found = None" "\<not> blocked'" "list_ex (\<lambda>q. \<not> plan_teardown g nd q \<and> unsettled (projects' ! q)) [0..<length projects']"
    | (teardown) "found = None" "\<not> blocked'" "\<not> list_ex (\<lambda>q. \<not> plan_teardown g nd q \<and> unsettled (projects' ! q)) [0..<length projects']"
    by (cases found) auto
  then show ?case
  proof cases
    case found
    then have "work_search_post g nd W ready found projects' states'"
      using s(6) by (auto simp: work_scan_post_def work_search_post_def admissible_def plan_teardown_def)
    then show ?thesis using eq found s by auto
  next
    case again
    then have "card (live_projects projects') < card (live_projects projects)"
      using work_scan_live(2) [OF s(1)] by (auto intro!: psubset_card_mono simp: atLeast0LessThan)
    from less.hyps [OF this s(2,3)] obtain f p st where r: "work_search g nd (tw_by_project W) ready projects' states' = Inr (f, p, st)"
      "work_core g nd W p st begun" "PNotRun \<notin> set st" "keeps states' st" "advances projects' p" "work_search_post g nd W ready f p st" by blast
    then show ?thesis using eq again keeps_trans [OF s(4) r(4)] advances_trans [OF s(5) r(5)] by auto
  next
    case left
    have wait: "waits g nd projects' (project_of W i)" if i: "i < length states'" "states' ! i = PPending" "ready i" "\<not> plan_teardown g nd (project_of W i)" for i
    proof -
      note p = pending_unsettled [OF s(2) i(1)] 
      have "unsettled (projects' ! project_of W i)" "project_of W i < length projects'" "i \<in> set (tw_by_project W ! project_of W i)" using p i(2) by simp_all
      then show ?thesis using s(6) left(1,2) i len by (auto simp: work_scan_post_def)
    qed
    have "work_search_post g nd W ready None projects' states'" using wait left(3) by (auto simp: work_search_post_def list_ex_iff)
    then show ?thesis using eq left s by auto
  next
    case teardown
    have settled: "\<not> unsettled (projects' ! q)" if "q < length projects'" "\<not> plan_teardown g nd q" for q using teardown(3) that by (auto simp: list_ex_iff)
    have "work_search_post g nd W ready ?last projects' states'"
    proof (cases ?last)
      case (Some i)
      then have i: "i \<in> set (concat (map (\<lambda>q. tw_by_project W ! q) ?tear))" "states' ! i = PPending" "ready i" using find_Some_iff_mem by fastforce+
      then obtain q where q: "q < length projects'" "plan_teardown g nd q" "i \<in> set (tw_by_project W ! q)" by auto
      have m: "i < length states'" "project_of W i = q" using plan_member(2) [OF c'(9) q(1,3)] c'(5) by simp_all
      have "admissible g nd projects' q" using q(2) settled by (auto simp: admissible_def plan_teardown_def)
      then show ?thesis unfolding Some using m i by (simp add: work_search_post_def)
    next
      case None
      have False if i: "i < length states'" "states' ! i = PPending" "ready i" for i
      proof -
        note p = pending_unsettled [OF s(2) i(1)]
        have p: "unsettled (projects' ! project_of W i)" "project_of W i < length projects'" "i \<in> set (tw_by_project W ! project_of W i)" using p i(2) by simp_all
        then have "plan_teardown g nd (project_of W i)" using settled by blast
        then have "i \<in> set (concat (map (\<lambda>q. tw_by_project W ! q) ?tear))" using p by auto
        then show False using None i(2,3) unfolding find_None_iff by blast
      qed
      then show ?thesis unfolding None by (auto simp: work_search_post_def)
    qed
    then show ?thesis using eq teardown s by auto
  qed
qed

section \<open>Owners, receipts and the budget of admissions\<close>

definition work_owner_ok :: "project_graph \<Rightarrow> bool \<Rightarrow> test_groups \<Rightarrow> project_state list \<Rightarrow> nat \<Rightarrow> nat \<Rightarrow> work_owner \<Rightarrow> bool" where
  "work_owner_ok g nd W states nonce k x \<longleftrightarrow>
     (let a = wo_admission x in
        0 < k \<and> k \<le> nonce \<and> wa_generation a = k \<and> wa_index a < length states \<and> states ! wa_index a = PRunning \<and>
        wa_project a = project_of W (wa_index a) \<and> (wa_teardown a \<longleftrightarrow> plan_teardown g nd (wa_project a)) \<and>
        (\<not> wo_started x \<longrightarrow> wo_worker x = None \<and> wo_outcome x = None) \<and> (wo_worker x = None \<longrightarrow> wo_outcome x = None))"

definition work_owners :: "project_graph \<Rightarrow> bool \<Rightarrow> test_groups \<Rightarrow> project_state list \<Rightarrow> nat \<Rightarrow> (nat \<rightharpoonup> work_owner) \<Rightarrow> bool" where
  "work_owners g nd W states nonce m \<longleftrightarrow>
     (\<forall>k x. m k = Some x \<longrightarrow> work_owner_ok g nd W states nonce k x) \<and>
     (\<forall>k l x y. m k = Some x \<longrightarrow> m l = Some y \<longrightarrow> wa_index (wo_admission x) = wa_index (wo_admission y) \<longrightarrow> k = l) \<and>
     (\<forall>i < length states. states ! i = PRunning \<longrightarrow> (\<exists>k x. m k = Some x \<and> wa_index (wo_admission x) = i))"

lemma work_ownersD:
  assumes "work_owners g nd W states nonce m"
  shows "\<And>k x. m k = Some x \<Longrightarrow> work_owner_ok g nd W states nonce k x"
    "\<And>k l x y. m k = Some x \<Longrightarrow> m l = Some y \<Longrightarrow> wa_index (wo_admission x) = wa_index (wo_admission y) \<Longrightarrow> k = l"
    "\<And>i. i < length states \<Longrightarrow> states ! i = PRunning \<Longrightarrow> \<exists>k x. m k = Some x \<and> wa_index (wo_admission x) = i"
  using assms unfolding work_owners_def by blast+

definition work_receipt_ok :: "nat \<Rightarrow> project_state \<Rightarrow> work_admission option \<Rightarrow> work_admission option \<Rightarrow> bool" where
  "work_receipt_ok i s retired canceled \<longleftrightarrow>
     (\<forall>a. retired = Some a \<longrightarrow> wa_index a = i \<and> s \<in> {PPassed, PFailed, PInterrupted}) \<and> (\<forall>a. canceled = Some a \<longrightarrow> wa_index a = i \<and> s = PNotRun)"

definition work_works :: "(nat \<rightharpoonup> work_owner) \<Rightarrow> nat \<rightharpoonup> pool_worker" where
  "work_works m k = (case m k of None \<Rightarrow> None | Some x \<Rightarrow> wo_worker x)"

definition pending_groups :: "project_state list \<Rightarrow> nat set" where
  "pending_groups states = {i. i < length states \<and> states ! i = PPending}"

definition work_rest :: "work_pool \<Rightarrow> bool" where
  "work_rest p \<longleftrightarrow>
     work_owners (wp_graph p) (wp_no_dependencies p) (wp_groups p) (wp_states p) (wp_nonce p) (map_of (wp_active p)) \<and>
     workers_ok (work_works (map_of (wp_active p))) (wp_highest_worker p) (wp_pids p) \<and>
     length (wp_retired p) = length (wp_states p) \<and> length (wp_canceled p) = length (wp_states p) \<and>
     (\<forall>i < length (wp_states p). work_receipt_ok i (wp_states p ! i) (wp_retired p ! i) (wp_canceled p ! i)) \<and>
     distinct (map fst (wp_active p)) \<and> length (wp_active p) \<le> wp_limit p"

lemma work_restD:
  assumes "work_rest p"
  shows "work_owners (wp_graph p) (wp_no_dependencies p) (wp_groups p) (wp_states p) (wp_nonce p) (map_of (wp_active p))"
    "workers_ok (work_works (map_of (wp_active p))) (wp_highest_worker p) (wp_pids p)"
    "length (wp_retired p) = length (wp_states p)" "length (wp_canceled p) = length (wp_states p)"
    "\<And>i. i < length (wp_states p) \<Longrightarrow> work_receipt_ok i (wp_states p ! i) (wp_retired p ! i) (wp_canceled p ! i)"
    "distinct (map fst (wp_active p))" "length (wp_active p) \<le> wp_limit p"
  using assms unfolding work_rest_def by simp_all

definition work_inv :: "work_pool \<Rightarrow> bool" where
  "work_inv p \<longleftrightarrow>
     work_core (wp_graph p) (wp_no_dependencies p) (wp_groups p) (wp_projects p) (wp_states p) (wp_begun p) \<and>
     (\<not> wp_stopped p \<longrightarrow> PNotRun \<notin> set (wp_states p)) \<and> work_rest p \<and>
     wp_nonce p + card (pending_groups (wp_states p)) \<le> length (wp_states p)"

lemma work_invD:
  assumes "work_inv p"
  shows "work_core (wp_graph p) (wp_no_dependencies p) (wp_groups p) (wp_projects p) (wp_states p) (wp_begun p)"
    "\<not> wp_stopped p \<Longrightarrow> PNotRun \<notin> set (wp_states p)" "work_rest p"
    "wp_nonce p + card (pending_groups (wp_states p)) \<le> length (wp_states p)"
  using assms unfolding work_inv_def by simp_all

lemma finite_pending_groups [simp]: "finite (pending_groups states)"
  by (simp add: pending_groups_def)

lemma pending_groups_mono: "length states' = length states \<Longrightarrow> (\<And>i. i < length states \<Longrightarrow> states' ! i = PPending \<Longrightarrow> states ! i = PPending) \<Longrightarrow>
    card (pending_groups states') \<le> card (pending_groups states)"
  by (rule card_mono) (auto simp: pending_groups_def)

text \<open>The changes of the owners.\<close>

lemma map_of_update_owner:
  "map_of (update_owner k x xs) = (case map_of xs k of None \<Rightarrow> map_of xs | Some _ \<Rightarrow> (map_of xs)(k \<mapsto> x))"
  by (induction xs) (auto simp: update_owner_def fun_eq_iff split: option.splits)

lemma update_owner_keys [simp]: "map fst (update_owner k x xs) = map fst xs" "length (update_owner k x xs) = length xs"
  by (auto simp: update_owner_def)

lemma filter_update_owner [simp]: "filter (\<lambda>(l, y). l \<noteq> k) (update_owner k x xs) = filter (\<lambda>(l, y). l \<noteq> k) xs"
  by (induction xs) (auto simp: update_owner_def)

lemma work_works_upd [simp]: "work_works (m(k \<mapsto> y)) = (work_works m)(k := wo_worker y)" "work_works (m(k := None)) = (work_works m)(k := None)"
  by (auto simp: work_works_def)

lemma work_owners_states:
  assumes "work_owners g nd W states nonce m" "length states' = length states" "\<And>i. i < length states \<Longrightarrow> states' ! i = PRunning \<longleftrightarrow> states ! i = PRunning"
  shows "work_owners g nd W states' nonce m"
  using assms unfolding work_owners_def work_owner_ok_def Let_def by simp

lemma work_owners_admit:
  assumes "work_owners g nd W states nonce m" "i < length states" "states ! i = PPending" "wo_admission y = \<lparr>wa_index = i, wa_project = project_of W i,
      wa_generation = nonce + 1, wa_teardown = plan_teardown g nd (project_of W i)\<rparr>" "wo_worker y = None" "wo_outcome y = None"
  shows "work_owners g nd W (states[i := PRunning]) (nonce + 1) (m(nonce + 1 \<mapsto> y))"
proof -
  note o = work_ownersD [OF assms(1)]
  have other: "wa_index (wo_admission x) \<noteq> i" "k \<noteq> nonce + 1" if "m k = Some x" for k x
    using o(1) [OF that] assms(3) by (auto simp: work_owner_ok_def Let_def)
  show ?thesis
    unfolding work_owners_def
  proof (intro conjI allI impI)
    fix k x assume x: "(m(nonce + 1 \<mapsto> y)) k = Some x"
    show "work_owner_ok g nd W (states[i := PRunning]) (nonce + 1) k x"
    proof (cases "k = nonce + 1")
      case True
      then have "x = y" using x by simp
      then show ?thesis using True assms(2-6) by (simp add: work_owner_ok_def Let_def)
    next
      case False
      then have k: "m k = Some x" using x by simp
      show ?thesis using o(1) [OF k] other(1) [OF k] by (simp add: work_owner_ok_def Let_def)
    qed
  next
    fix k l x z assume "(m(nonce + 1 \<mapsto> y)) k = Some x" "(m(nonce + 1 \<mapsto> y)) l = Some z" "wa_index (wo_admission x) = wa_index (wo_admission z)"
    then show "k = l" using o(2) [of k x l z] other(1) [of k x] other(1) [of l z] assms(4) by (auto split: if_splits)
  next
    fix j assume j: "j < length (states[i := PRunning])" "states[i := PRunning] ! j = PRunning"
    show "\<exists>k x. (m(nonce + 1 \<mapsto> y)) k = Some x \<and> wa_index (wo_admission x) = j"
    proof (cases "j = i")
      case True
      then show ?thesis using assms(4) by (intro exI [of _ "nonce + 1"] exI [of _ y]) simp
    next
      case False
      then obtain k x where k: "m k = Some x" "wa_index (wo_admission x) = j" using o(3) [of j] j by auto
      then show ?thesis using other(2) [OF k(1)] by (intro exI [of _ k] exI [of _ x]) simp
    qed
  qed
qed

lemma work_owners_update:
  assumes "work_owners g nd W states nonce m" "m k = Some x" "wo_admission y = wo_admission x" "work_owner_ok g nd W states nonce k y"
  shows "work_owners g nd W states nonce (m(k \<mapsto> y))"
proof -
  note o = work_ownersD [OF assms(1)]
  have old: "\<exists>z. m l = Some z \<and> wo_admission z = wo_admission w" if "(m(k \<mapsto> y)) l = Some w" for l w
    using that assms(2,3) by (cases "l = k") auto
  show ?thesis
    unfolding work_owners_def
  proof (intro conjI allI impI)
    show "work_owner_ok g nd W states nonce l z" if "(m(k \<mapsto> y)) l = Some z" for l z using that assms(4) o(1) by (auto split: if_splits)
    show "l = l'" if "(m(k \<mapsto> y)) l = Some z" "(m(k \<mapsto> y)) l' = Some w" "wa_index (wo_admission z) = wa_index (wo_admission w)" for l l' z w
      using old [OF that(1)] old [OF that(2)] that(3) o(2) by metis
    show "\<exists>l z. (m(k \<mapsto> y)) l = Some z \<and> wa_index (wo_admission z) = i" if i: "i < length states" "states ! i = PRunning" for i
    proof -
      obtain l z where "m l = Some z" "wa_index (wo_admission z) = i" using o(3) [OF i] by blast
      then show ?thesis using assms(2,3) by (cases "l = k") auto
    qed
  qed
qed

lemma work_owners_remove:
  assumes "work_owners g nd W states nonce m" "m k = Some x" "s \<noteq> PRunning"
  shows "work_owners g nd W (states[wa_index (wo_admission x) := s]) nonce (m(k := None))"
proof -
  note o = work_ownersD [OF assms(1)]
  let ?i = "wa_index (wo_admission x)"
  have other: "wa_index (wo_admission y) \<noteq> ?i" if "m l = Some y" "l \<noteq> k" for l y using o(2) [OF that(1) assms(2)] that(2) by blast
  have sub: "m l = Some y \<and> l \<noteq> k" if "(m(k := None)) l = Some y" for l y using that by (auto split: if_splits)
  show ?thesis
    unfolding work_owners_def
  proof (intro conjI allI impI)
    show "work_owner_ok g nd W (states[?i := s]) nonce l y" if "(m(k := None)) l = Some y" for l y
      using o(1) [of l y] other [of l y] sub [OF that] by (auto simp: work_owner_ok_def Let_def)
    show "l = l'" if "(m(k := None)) l = Some y" "(m(k := None)) l' = Some z" "wa_index (wo_admission y) = wa_index (wo_admission z)" for l l' y z
      using o(2) sub [OF that(1)] sub [OF that(2)] that(3) by blast
    show "\<exists>l y. (m(k := None)) l = Some y \<and> wa_index (wo_admission y) = j" if j: "j < length (states[?i := s])" "states[?i := s] ! j = PRunning" for j
    proof -
      have "j \<noteq> ?i" using j assms(3) by auto
      then obtain l y where l: "m l = Some y" "wa_index (wo_admission y) = j" using o(3) [of j] j by auto
      then have "l \<noteq> k" using assms(2) \<open>j \<noteq> ?i\<close> by auto
      then show ?thesis using l by (intro exI [of _ l] exI [of _ y]) simp
    qed
  qed
qed

lemma receipt_unsettled: "work_receipt_ok i s x y \<Longrightarrow> s \<in> {PPending, PRunning} \<Longrightarrow> x = None \<and> y = None"
  by (cases x; cases y) (auto simp: work_receipt_ok_def)

lemma receipt_live: "work_receipt_ok i s x y \<Longrightarrow> s \<in> {PPending, PRunning} \<Longrightarrow> work_receipt_ok i s' x y"
  using receipt_unsettled [of i s x y] by (simp add: work_receipt_ok_def)

section \<open>The invariant\<close>

text \<open>A change of the state of one group, with its project recomputed.\<close>

lemma work_core_group:
  assumes core: "work_core g nd W projects states begun" and i: "i < length states" "states ! i \<in> {PPending, PRunning}"
    and s: "s \<notin> {PBlocked, PNotSelected}" and r: "pr_state r = groups_state (states[i := s]) (begun ! project_of W i) (tw_by_project W ! project_of W i)"
    and ran: "state_ran s \<Longrightarrow> state_ran (states ! i) \<or> admissible g nd projects (project_of W i)"
  shows "work_core g nd W (projects[project_of W i := r]) (states[i := s]) begun \<and> advances projects (projects[project_of W i := r])"
proof (rule work_core_change [OF core])
  note c = work_coreD [OF core] and u = pending_unsettled [OF core i]
  note live = work_unsettled(2) [OF core u(2,1)]
  let ?q = "project_of W i"
  fix q assume q: "q < length projects"
  show "pr_state (projects[?q := r] ! q) = pr_state (projects ! q) \<and> begun ! q = begun ! q \<and> (\<forall>j \<in> set (tw_by_project W ! q). states[i := s] ! j = states ! j) \<or>
      unsettled (projects ! q) \<and> work_project_ok W (states[i := s]) begun (projects[?q := r]) q"
  proof (cases "q = ?q")
    case True
    have "states[i := s] ! j \<noteq> PBlocked" if "j \<in> set (tw_by_project W ! ?q)" for j
      using live that s i(1) by (cases "j = i") auto
    then show ?thesis using True u r live by (simp add: work_project_ok_def)
  next
    case False
    have "states[i := s] ! j = states ! j" if "j \<in> set (tw_by_project W ! q)" for j
      using plan_member(2) [OF c(9) q that] False by (metis nth_list_update_neq)
    then show ?thesis using False by simp
  qed
next
  show "state_ran (states ! j) \<or> admissible g nd projects (project_of W j)" if "j < length states" "state_ran (states[i := s] ! j)" for j
    using that ran by (cases "j = i") auto
  show "PNotSelected \<notin> set (states[i := s])" using work_coreD(7) [OF core] s set_update_subset_insert [of states i s] by auto
qed simp_all

lemma work_Admit_inv:
  assumes inv: "work_inv p" and i: "i < length (wp_states p)" "wp_states p ! i = PPending"
    and adm: "admissible (wp_graph p) (wp_no_dependencies p) (wp_projects p) (project_of (wp_groups p) i)"
    and limit: "length (wp_active p) < wp_limit p" and admit: "work_Admit i p = Inr (a, p')"
  shows "work_inv p'"
proof -
  let ?q = "project_of (wp_groups p) i" and ?states = "(wp_states p)[i := PRunning]"
  let ?a = "\<lparr>wa_index = i, wa_project = ?q, wa_generation = wp_nonce p + 1, wa_teardown = plan_teardown (wp_graph p) (wp_no_dependencies p) ?q\<rparr>"
  let ?x = "\<lparr>wo_admission = ?a, wo_worker = None, wo_outcome = None, wo_started = False\<rparr>"
  note w = work_invD [OF inv] and r = work_restD [OF work_invD(3) [OF inv]]
  have p': "p' = p\<lparr>wp_active := wp_active p @ [(wp_nonce p + 1, ?x)], wp_nonce := wp_nonce p + 1, wp_states := ?states,
      wp_projects := (wp_projects p)[?q := (wp_projects p ! ?q)\<lparr>pr_state := PRunning\<rparr>]\<rparr>"
    using admit by (auto simp: work_Admit_def Let_def bindR_eq_Inr atR_def split: if_splits)
  have m: "i \<in> set (tw_by_project (wp_groups p) ! ?q)" using pending_unsettled(3) [OF w(1) i(1)] i(2) by simp
  have "groups_state ?states (wp_begun p ! ?q) (tw_by_project (wp_groups p) ! ?q) = PRunning" by (rule groups_state_running [OF m]) (use i in simp)
  then have core: "work_core (wp_graph p) (wp_no_dependencies p) (wp_groups p) ((wp_projects p)[?q := (wp_projects p ! ?q)\<lparr>pr_state := PRunning\<rparr>]) ?states (wp_begun p)"
    using work_core_group [OF w(1) i(1), of PRunning "(wp_projects p ! ?q)\<lparr>pr_state := PRunning\<rparr>"] i(2) adm by simp
  have fresh: "wp_nonce p + 1 \<notin> fst ` set (wp_active p)"
  proof
    assume "wp_nonce p + 1 \<in> fst ` set (wp_active p)"
    then obtain x where "map_of (wp_active p) (wp_nonce p + 1) = Some x" by (metis map_of_eq_None_iff not_Some_eq)
    then show False using work_ownersD(1) [OF r(1)] by (fastforce simp: work_owner_ok_def Let_def)
  qed
  have map: "map_of (wp_active p') = (map_of (wp_active p))(wp_nonce p + 1 \<mapsto> ?x)" using map_of_append_fresh [OF fresh] by (simp add: p')
  have none: "map_of (wp_active p) (wp_nonce p + 1) = None" using fresh by (simp add: map_of_eq_None_iff)
  have "work_owners (wp_graph p) (wp_no_dependencies p) (wp_groups p) ?states (wp_nonce p + 1) (map_of (wp_active p'))"
    unfolding map by (rule work_owners_admit [OF r(1) i]) simp_all
  moreover have "workers_ok (work_works (map_of (wp_active p'))) (wp_highest_worker p) (wp_pids p)"
  proof -
    have "work_works (map_of (wp_active p')) = work_works (map_of (wp_active p))" unfolding map using none by (auto simp: work_works_def fun_eq_iff)
    then show ?thesis using r(2) by simp
  qed
  moreover have "work_receipt_ok j (?states ! j) (wp_retired p ! j) (wp_canceled p ! j)" if j: "j < length (wp_states p)" for j
  proof (cases "j = i")
    case True
    then show ?thesis using receipt_live [OF r(5) [OF j]] i by simp
  qed (use r(5) [OF j] in simp)
  ultimately have "work_rest p'" using r(3,4,6) fresh limit unfolding work_rest_def by (simp add: p')
  moreover have "PNotRun \<notin> set ?states" if "\<not> wp_stopped p" using w(2) [OF that] set_update_subset_insert [of "wp_states p" i PRunning] by auto
  moreover have "wp_nonce p + 1 + card (pending_groups ?states) \<le> length (wp_states p)"
  proof -
    have "i \<in> pending_groups (wp_states p)" using i by (simp add: pending_groups_def)
    moreover have "pending_groups ?states = pending_groups (wp_states p) - {i}" using i by (auto simp: pending_groups_def nth_list_update split: if_splits)
    ultimately have "card (pending_groups ?states) + 1 = card (pending_groups (wp_states p))" by (metis Suc_eq_plus1 card_Suc_Diff1 finite_pending_groups)
    then show ?thesis using w(4) by simp
  qed
  ultimately show ?thesis using core unfolding work_inv_def by (simp add: p')
qed

lemma work_Next_ok:
  assumes inv: "work_inv p"
  shows "\<exists>found p'. work_Next ready p = Inr (found, p') \<and> work_inv p' \<and>
    (if wp_stopped p \<or> wp_limit p \<le> length (wp_active p) then p' = p \<and> found = None
     else \<exists>i projects states. keeps (wp_states p) states \<and>
       work_core (wp_graph p) (wp_no_dependencies p) (wp_groups p) projects states (wp_begun p) \<and>
       work_search_post (wp_graph p) (wp_no_dependencies p) (wp_groups p) ready i projects states \<and>
       (case i of None \<Rightarrow> found = None \<and> p' = p\<lparr>wp_projects := projects, wp_states := states\<rparr>
        | Some i \<Rightarrow> \<exists>a. found = Some a \<and> work_Admit i (p\<lparr>wp_projects := projects, wp_states := states\<rparr>) = Inr (a, p')))"
proof (cases "wp_stopped p \<or> wp_limit p \<le> length (wp_active p)")
  case True
  then show ?thesis using inv by (auto simp: work_Next_def)
next
  case False
  note w = work_invD [OF inv] and r = work_restD [OF work_invD(3) [OF inv]]
  obtain i projects states where s: "work_search (wp_graph p) (wp_no_dependencies p) (tw_by_project (wp_groups p)) ready (wp_projects p) (wp_states p) = Inr (i, projects, states)"
    "work_core (wp_graph p) (wp_no_dependencies p) (wp_groups p) projects states (wp_begun p)" "PNotRun \<notin> set states" "keeps (wp_states p) states"
    "work_search_post (wp_graph p) (wp_no_dependencies p) (wp_groups p) ready i projects states"
    using work_search_ok [OF w(1) w(2), of ready] False by blast
  let ?p = "p\<lparr>wp_projects := projects, wp_states := states\<rparr>"
  have k: "length states = length (wp_states p)" "\<And>j. j < length (wp_states p) \<Longrightarrow> states ! j = wp_states p ! j \<or> wp_states p ! j = PPending \<and> states ! j = PBlocked"
    using s(4) by (simp_all add: keeps_def)
  have "work_owners (wp_graph p) (wp_no_dependencies p) (wp_groups p) states (wp_nonce p) (map_of (wp_active p))"
    by (rule work_owners_states [OF r(1) k(1)]) (use k(2) in fastforce)
  moreover have "work_receipt_ok j (states ! j) (wp_retired p ! j) (wp_canceled p ! j)" if j: "j < length (wp_states p)" for j
    using k(2) [OF j] receipt_live [OF r(5) [OF j]] r(5) [OF j] by (elim disjE) simp_all
  ultimately have rest: "work_rest ?p" using r k(1) unfolding work_rest_def by simp
  have "card (pending_groups states) \<le> card (pending_groups (wp_states p))" by (rule pending_groups_mono [OF k(1)]) (use k(2) in fastforce)
  then have inv': "work_inv ?p" using s(2,3) rest w(4) k(1) unfolding work_inv_def by simp
  show ?thesis
  proof (cases i)
    case None
    then have n: "work_Next ready p = Inr (None, ?p)" using False s(1) by (simp add: work_Next_def Let_def)
    show ?thesis
      unfolding if_not_P [OF False]
      by (rule exI [of _ None], rule exI [of _ ?p], intro conjI, rule n, rule inv', rule exI [of _ None], rule exI [of _ projects], rule exI [of _ states])
        (use s None in simp)
  next
    case (Some j)
    then have j: "j < length states" "states ! j = PPending" "admissible (wp_graph p) (wp_no_dependencies p) projects (project_of (wp_groups p) j)"
      using s(5) by (simp_all add: work_search_post_def)
    have small: "length (tw_groups (wp_groups p)) \<le> 8192" "length states = length (tw_groups (wp_groups p))"
      using work_coreD(2,5) [OF s(2)] by (simp_all add: plan_ok_def)
    have "wp_nonce p \<noteq> u64_max" using w(4) small k(1) by (auto simp: u64_max_def)
    then obtain a p' where a: "work_Admit j ?p = Inr (a, p')" using j(1) small(2) by (simp add: work_Admit_def Let_def atR_def)
    have inv'': "work_inv p'" by (rule work_Admit_inv [OF inv' _ _ _ _ a]) (use j False in simp_all)
    have n: "work_Next ready p = Inr (Some a, p')" using False s(1) a Some by (simp add: work_Next_def Let_def)
    show ?thesis
      unfolding if_not_P [OF False]
      by (rule exI [of _ "Some a"], rule exI [of _ p'], intro conjI, rule n, rule inv'', rule exI [of _ "Some j"], rule exI [of _ projects], rule exI [of _ states])
        (use s Some a in simp)
  qed
qed

lemma work_Find_Some: "work_Find p a = Some x \<longleftrightarrow> map_of (wp_active p) (wa_generation a) = Some x \<and> wo_admission x = a"
  by (auto simp: work_Find_def split: option.splits)

lemma work_owner_lookup:
  assumes "work_inv p" "map_of (wp_active p) k = Some x"
  shows "wa_index (wo_admission x) < length (wp_states p)" "wp_states p ! wa_index (wo_admission x) = PRunning"
    "wa_project (wo_admission x) = project_of (wp_groups p) (wa_index (wo_admission x))" "wa_generation (wo_admission x) = k"
    "work_owner_ok (wp_graph p) (wp_no_dependencies p) (wp_groups p) (wp_states p) (wp_nonce p) k x"
  using work_ownersD(1) [OF work_restD(1) [OF work_invD(3) [OF assms(1)]] assms(2)] by (simp_all add: work_owner_ok_def Let_def)

text \<open>A live worker of an owner comes and goes; everything else stays.\<close>

lemma work_owner_inv:
  assumes inv: "work_inv p" and x: "map_of (wp_active p) k = Some x"
    and y: "wo_admission y = wo_admission x" "work_owner_ok (wp_graph p) (wp_no_dependencies p) (wp_groups p) (wp_states p) (wp_nonce p) k y"
    and workers: "workers_ok ((work_works (map_of (wp_active p)))(k := wo_worker y)) highest pids"
    and core: "work_core (wp_graph p) (wp_no_dependencies p) (wp_groups p) (wp_projects p) (wp_states p) begun"
  shows "work_inv (p\<lparr>wp_active := update_owner k y (wp_active p), wp_begun := begun, wp_highest_worker := highest, wp_pids := pids\<rparr>)"
proof -
  note w = work_invD [OF inv] and r = work_restD [OF work_invD(3) [OF inv]]
  have map: "map_of (update_owner k y (wp_active p)) = (map_of (wp_active p))(k \<mapsto> y)" using x by (simp add: map_of_update_owner)
  have "work_owners (wp_graph p) (wp_no_dependencies p) (wp_groups p) (wp_states p) (wp_nonce p) ((map_of (wp_active p))(k \<mapsto> y))"
    by (rule work_owners_update [OF r(1) x y])
  then show ?thesis using w r workers core unfolding work_inv_def work_rest_def by (simp add: map)
qed

lemma work_WorkerStarted_inv:
  assumes inv: "work_inv p" and start: "work_WorkerStarted a worker pid p = Inr (b, p')"
  shows "work_inv p'"
proof (cases "p' = p")
  case False
  then obtain x where x: "map_of (wp_active p) (wa_generation a) = Some x" "wo_admission x = a"
    and ok: "worker \<noteq> 0" "0 < pid" "wo_worker x = None" "wo_outcome x = None" "wp_highest_worker p < worker" "pid \<notin> wp_pids p"
    and p': "p' = p\<lparr>wp_active := update_owner (wa_generation a) (x\<lparr>wo_worker := Some \<lparr>pw_index = worker, pw_pid = pid\<rparr>, wo_started := True\<rparr>) (wp_active p),
      wp_begun := (wp_begun p)[wa_project a := True], wp_highest_worker := worker, wp_pids := insert pid (wp_pids p)\<rparr>"
    using start by (auto simp: work_WorkerStarted_def work_Find_Some split: option.splits if_splits)
  note w = work_invD [OF inv] and r = work_restD [OF work_invD(3) [OF inv]] and o = work_owner_lookup [OF inv x(1)]
  let ?y = "x\<lparr>wo_worker := Some \<lparr>pw_index = worker, pw_pid = pid\<rparr>, wo_started := True\<rparr>" and ?q = "wa_project a" and ?i = "wa_index a"
  have i: "?i < length (wp_states p)" "wp_states p ! ?i = PRunning" "?q = project_of (wp_groups p) ?i" using o(1-3) x(2) by simp_all
  note u = pending_unsettled [OF w(1) i(1)]
  have q: "unsettled (wp_projects p ! ?q)" "?i \<in> set (tw_by_project (wp_groups p) ! ?q)" "?q < length (wp_projects p)" using u i(2,3) by simp_all
  have none: "work_works (map_of (wp_active p)) (wa_generation a) = None" using x(1) ok(3) by (simp add: work_works_def)
  have workers: "workers_ok ((work_works (map_of (wp_active p)))(wa_generation a := wo_worker ?y)) worker (insert pid (wp_pids p))"
    using workers_ok_start [OF r(2) none, of "\<lparr>pw_index = worker, pw_pid = pid\<rparr>"] ok by simp
  have core: "work_core (wp_graph p) (wp_no_dependencies p) (wp_groups p) (wp_projects p) (wp_states p) ((wp_begun p)[?q := True])"
  proof (rule conjunct1, rule work_core_change [OF w(1)])
    fix q assume "q < length (wp_projects p)"
    show "pr_state (wp_projects p ! q) = pr_state (wp_projects p ! q) \<and> (wp_begun p)[?q := True] ! q = wp_begun p ! q \<and>
        (\<forall>i \<in> set (tw_by_project (wp_groups p) ! q). wp_states p ! i = wp_states p ! i) \<or>
        unsettled (wp_projects p ! q) \<and> work_project_ok (wp_groups p) (wp_states p) ((wp_begun p)[?q := True]) (wp_projects p) q"
    proof (cases "q = ?q")
      case True
      have "work_project_ok (wp_groups p) (wp_states p) ((wp_begun p)[?q := True]) (wp_projects p) ?q"
        using work_coreD(6) [OF w(1) q(3)] groups_state_running [OF q(2) i(2)] q(2) i(2) by (auto simp: work_project_ok_def split: if_splits)
      then show ?thesis using True q(1) by simp
    qed simp
  qed (use work_coreD(7) [OF w(1)] in simp_all)
  have y: "work_owner_ok (wp_graph p) (wp_no_dependencies p) (wp_groups p) (wp_states p) (wp_nonce p) (wa_generation a) ?y"
    using o(5) x(2) ok(4) by (simp add: work_owner_ok_def Let_def)
  show ?thesis unfolding p' by (rule work_owner_inv [OF inv x(1) _ y workers core]) simp
qed (use inv in simp)

text \<open>What \<open>Retire\<close> does to an owner that has been changed just before.\<close>

definition retired_pool :: "nat \<Rightarrow> work_owner \<Rightarrow> project_outcome \<Rightarrow> int set \<Rightarrow> work_pool \<Rightarrow> work_pool" where
  "retired_pool k x out pids p =
     UpdateProject (wa_project (wo_admission x))
       (p\<lparr>wp_pids := pids, wp_retired := (wp_retired p)[wa_index (wo_admission x) := Some (wo_admission x)],
          wp_states := (wp_states p)[wa_index (wo_admission x) := outcome_state out], wp_active := filter (\<lambda>(l, y). l \<noteq> k) (wp_active p)\<rparr>)"

lemma work_Retire_eq:
  assumes "map_of (wp_active p) k = Some x" "wo_admission y = wo_admission x"
  shows "work_Retire k (p\<lparr>wp_active := update_owner k y (wp_active p), wp_pids := pids\<rparr>) =
    (case (wo_worker y, wo_outcome y) of (None, Some out) \<Rightarrow> retired_pool k x out pids p
     | _ \<Rightarrow> p\<lparr>wp_active := update_owner k y (wp_active p), wp_pids := pids\<rparr>)"
  using assms by (auto simp: work_Retire_def map_of_update_owner retired_pool_def Let_def split: option.splits)

lemma retired_pool_inv:
  assumes inv: "work_inv p" and x: "map_of (wp_active p) k = Some x"
    and workers: "workers_ok ((work_works (map_of (wp_active p)))(k := None)) (wp_highest_worker p) pids"
  shows "work_inv (retired_pool k x out pids p)"
proof -
  let ?a = "wo_admission x" and ?s = "outcome_state out"
  let ?states = "(wp_states p)[wa_index ?a := ?s]" and ?q = "wa_project ?a"
  let ?r = "(wp_projects p ! ?q)\<lparr>pr_state := groups_state ?states (wp_begun p ! ?q) (tw_by_project (wp_groups p) ! ?q)\<rparr>"
  note w = work_invD [OF inv] and r = work_restD [OF work_invD(3) [OF inv]] and o = work_owner_lookup [OF inv x]
  have p': "retired_pool k x out pids p = p\<lparr>wp_pids := pids, wp_retired := (wp_retired p)[wa_index ?a := Some ?a], wp_states := ?states,
      wp_active := filter (\<lambda>(l, y). l \<noteq> k) (wp_active p), wp_projects := (wp_projects p)[?q := ?r]\<rparr>"
    by (simp add: retired_pool_def UpdateProject_def)
  have s: "?s \<in> {PPassed, PFailed, PInterrupted}" using outcome_state_final(1) .
  then have s': "?s \<notin> {PBlocked, PNotSelected}" "?s \<noteq> PRunning" "?s \<noteq> PPending" "?s \<noteq> PNotRun" by auto
  have core: "work_core (wp_graph p) (wp_no_dependencies p) (wp_groups p) ((wp_projects p)[?q := ?r]) ?states (wp_begun p)"
    using work_core_group [OF w(1) o(1) _ s'(1), of ?r] o(2,3) by (simp add: state_ran_def)
  have map: "map_of (filter (\<lambda>(l, y). l \<noteq> k) (wp_active p)) = (map_of (wp_active p))(k := None)" by (rule map_of_remove)
  have rec: "work_receipt_ok (wa_index ?a) ?s (Some ?a) (wp_canceled p ! wa_index ?a)"
    using receipt_unsettled [OF r(5) [OF o(1)]] o(2) s by (simp add: work_receipt_ok_def)
  have "work_receipt_ok j (?states ! j) ((wp_retired p)[wa_index ?a := Some ?a] ! j) (wp_canceled p ! j)" if j: "j < length (wp_states p)" for j
    using rec r(5) [OF j] r(3) j by (cases "j = wa_index ?a") simp_all
  moreover have "length (filter (\<lambda>(l, y). l \<noteq> k) (wp_active p)) \<le> wp_limit p" using r(7) length_filter_le [of "\<lambda>(l, y). l \<noteq> k" "wp_active p"] by linarith
  ultimately have "work_rest (retired_pool k x out pids p)"
    using work_owners_remove [OF r(1) x s'(2)] workers r(3,4) distinct_remove [OF r(6)] unfolding work_rest_def by (simp add: p' map)
  moreover have "PNotRun \<notin> set ?states" if "\<not> wp_stopped p" using w(2) [OF that] s'(4) set_update_subset_insert [of "wp_states p" "wa_index ?a" ?s] by auto
  moreover have "card (pending_groups ?states) \<le> card (pending_groups (wp_states p))"
  proof (rule pending_groups_mono)
    show "wp_states p ! i = PPending" if "i < length (wp_states p)" "?states ! i = PPending" for i
      using that s'(3) by (cases "i = wa_index ?a") simp_all
  qed simp
  ultimately show ?thesis using core w(4) unfolding work_inv_def by (simp add: p')
qed

lemma work_WorkerExited_inv:
  assumes inv: "work_inv p" and exited: "work_WorkerExited a worker pid p = Inr (b, p')"
  shows "work_inv p'"
proof (cases "p' = p")
  case False
  let ?y = "\<lambda>x. x\<lparr>wo_worker := None\<rparr>"
  obtain x where x: "map_of (wp_active p) (wa_generation a) = Some x" "wo_admission x = a" "wo_worker x = Some \<lparr>pw_index = worker, pw_pid = pid\<rparr>"
    and p': "p' = work_Retire (wa_generation a) (p\<lparr>wp_active := update_owner (wa_generation a) (?y x) (wp_active p), wp_pids := wp_pids p - {pid}\<rparr>)"
    using exited False by (auto simp: work_WorkerExited_def work_Find_Some split: option.splits if_splits)
  note w = work_invD [OF inv] and r = work_restD [OF work_invD(3) [OF inv]] and o = work_owner_lookup [OF inv x(1)]
  have "work_works (map_of (wp_active p)) (wa_generation a) = Some \<lparr>pw_index = worker, pw_pid = pid\<rparr>" using x(1,3) by (simp add: work_works_def)
  then have workers: "workers_ok ((work_works (map_of (wp_active p)))(wa_generation a := None)) (wp_highest_worker p) (wp_pids p - {pid})"
    using workers_ok_exit [OF r(2)] by fastforce
  have eq: "p' = (case wo_outcome x of Some out \<Rightarrow> retired_pool (wa_generation a) x out (wp_pids p - {pid}) p
      | None \<Rightarrow> p\<lparr>wp_active := update_owner (wa_generation a) (?y x) (wp_active p), wp_pids := wp_pids p - {pid}\<rparr>)"
    unfolding p' by (subst work_Retire_eq [OF x(1)]) (simp_all split: option.splits)
  show ?thesis
  proof (cases "wo_outcome x")
    case None
    have "work_owner_ok (wp_graph p) (wp_no_dependencies p) (wp_groups p) (wp_states p) (wp_nonce p) (wa_generation a) (?y x)"
      using o(5) None x(3) by (simp add: work_owner_ok_def Let_def)
    from work_owner_inv [OF inv x(1) _ this, of "wp_highest_worker p" "wp_pids p - {pid}" "wp_begun p"] workers w(1)
    show ?thesis using eq None by simp
  next
    case (Some out)
    then show ?thesis using eq retired_pool_inv [OF inv x(1) workers] by simp
  qed
qed (use inv in simp)

lemma work_Complete_inv:
  assumes inv: "work_inv p" and complete: "work_Complete a out p = Inr (b, p')"
  shows "work_inv p'"
proof (cases "p' = p")
  case False
  let ?y = "\<lambda>x. x\<lparr>wo_outcome := Some out\<rparr>"
  obtain x where x: "map_of (wp_active p) (wa_generation a) = Some x" "wo_admission x = a" "wo_started x"
    and p': "p' = work_Retire (wa_generation a) (p\<lparr>wp_active := update_owner (wa_generation a) (?y x) (wp_active p)\<rparr>)"
    using complete False by (auto simp: work_Complete_def work_Find_Some split: option.splits if_splits)
  note w = work_invD [OF inv] and r = work_restD [OF work_invD(3) [OF inv]] and o = work_owner_lookup [OF inv x(1)]
  have eq: "p' = (case wo_worker x of None \<Rightarrow> retired_pool (wa_generation a) x out (wp_pids p) p
      | Some _ \<Rightarrow> p\<lparr>wp_active := update_owner (wa_generation a) (?y x) (wp_active p)\<rparr>)"
    using work_Retire_eq [OF x(1), of "?y x" "wp_pids p"] unfolding p' by (simp split: option.splits)
  show ?thesis
  proof (cases "wo_worker x")
    case None
    then have "(work_works (map_of (wp_active p)))(wa_generation a := None) = work_works (map_of (wp_active p))" using x(1) by (auto simp: work_works_def fun_eq_iff)
    then show ?thesis using eq None retired_pool_inv [OF inv x(1), of "wp_pids p"] r(2) by simp
  next
    case (Some v)
    have y: "work_owner_ok (wp_graph p) (wp_no_dependencies p) (wp_groups p) (wp_states p) (wp_nonce p) (wa_generation a) (?y x)"
      using o(5) Some x(3) by (simp add: work_owner_ok_def Let_def)
    have "(work_works (map_of (wp_active p)))(wa_generation a := wo_worker (?y x)) = work_works (map_of (wp_active p))" using x(1) by (auto simp: work_works_def fun_eq_iff)
    from work_owner_inv [OF inv x(1) _ y, of "wp_highest_worker p" "wp_pids p" "wp_begun p"] this r(2) w(1)
    show ?thesis using eq Some by simp
  qed
qed (use inv in simp)

text \<open>The first loop of \<open>Stop\<close>: an owner that was not started gives its group up.\<close>

definition given_up :: "project_state list \<Rightarrow> project_state list \<Rightarrow> bool" where
  "given_up states states' \<longleftrightarrow> length states' = length states \<and>
     (\<forall>i < length states. states' ! i = states ! i \<or> states ! i = PRunning \<and> states' ! i = PNotRun)"

lemma given_up_trans: "given_up a b \<Longrightarrow> given_up b c \<Longrightarrow> given_up a c"
  unfolding given_up_def by (metis project_state.distinct(35))

definition same_plan :: "work_pool \<Rightarrow> work_pool \<Rightarrow> bool" where
  "same_plan p p' \<longleftrightarrow> wp_graph p' = wp_graph p \<and> wp_groups p' = wp_groups p \<and> wp_no_dependencies p' = wp_no_dependencies p \<and>
     wp_limit p' = wp_limit p"

lemma cancel_owner_rest:
  assumes rest: "work_rest p" and x: "map_of (wp_active p) k = Some x"
  shows "work_rest (cancel_owner p (k, x)) \<and> given_up (wp_states p) (wp_states (cancel_owner p (k, x))) \<and> same_plan p (cancel_owner p (k, x)) \<and>
    wp_projects (cancel_owner p (k, x)) = wp_projects p \<and> wp_begun (cancel_owner p (k, x)) = wp_begun p \<and>
    wp_nonce (cancel_owner p (k, x)) = wp_nonce p \<and> wp_stopped (cancel_owner p (k, x)) = wp_stopped p \<and>
    (\<forall>l. l \<noteq> k \<longrightarrow> map_of (wp_active (cancel_owner p (k, x))) l = map_of (wp_active p) l)"
proof (cases "wo_started x")
  case True
  then show ?thesis using rest by (simp add: cancel_owner_def given_up_def same_plan_def)
next
  case False
  note r = work_restD [OF rest]
  let ?a = "wo_admission x"
  have o: "wa_index ?a < length (wp_states p)" "wp_states p ! wa_index ?a = PRunning" "wo_worker x = None"
    using work_ownersD(1) [OF r(1) x] False by (simp_all add: work_owner_ok_def Let_def)
  have map: "map_of (filter (\<lambda>(l, y). l \<noteq> k) (wp_active p)) = (map_of (wp_active p))(k := None)" by (rule map_of_remove)
  have workers: "(work_works (map_of (wp_active p)))(k := None) = work_works (map_of (wp_active p))" using x o(3) by (auto simp: work_works_def fun_eq_iff)
  have rec: "work_receipt_ok (wa_index ?a) PNotRun (wp_retired p ! wa_index ?a) (Some ?a)"
    using receipt_unsettled [OF r(5) [OF o(1)]] o(2) by (simp add: work_receipt_ok_def)
  have "work_receipt_ok j ((wp_states p)[wa_index ?a := PNotRun] ! j) (wp_retired p ! j) ((wp_canceled p)[wa_index ?a := Some ?a] ! j)" if j: "j < length (wp_states p)" for j
    using rec r(5) [OF j] r(4) j by (cases "j = wa_index ?a") simp_all
  moreover have "length (filter (\<lambda>(l, y). l \<noteq> k) (wp_active p)) \<le> wp_limit p" using r(7) length_filter_le [of "\<lambda>(l, y). l \<noteq> k" "wp_active p"] by linarith
  ultimately have "work_rest (cancel_owner p (k, x))"
    using work_owners_remove [OF r(1) x, of PNotRun] r(2,3,4) distinct_remove [OF r(6)] False unfolding work_rest_def
    by (simp add: cancel_owner_def Let_def map workers)
  moreover have "given_up (wp_states p) (wp_states (cancel_owner p (k, x)))" using False o by (auto simp: cancel_owner_def Let_def given_up_def nth_list_update)
  ultimately show ?thesis using False by (simp add: cancel_owner_def Let_def same_plan_def map)
qed

lemma cancel_owners_rest:
  assumes "work_rest p" "distinct (map fst xs)" "\<forall>(k, x) \<in> set xs. map_of (wp_active p) k = Some x"
  shows "work_rest (foldl cancel_owner p xs) \<and> given_up (wp_states p) (wp_states (foldl cancel_owner p xs)) \<and> same_plan p (foldl cancel_owner p xs) \<and>
    wp_projects (foldl cancel_owner p xs) = wp_projects p \<and> wp_begun (foldl cancel_owner p xs) = wp_begun p \<and>
    wp_nonce (foldl cancel_owner p xs) = wp_nonce p \<and> wp_stopped (foldl cancel_owner p xs) = wp_stopped p"
  using assms
proof (induction xs arbitrary: p)
  case Nil
  then show ?case by (simp add: given_up_def same_plan_def)
next
  case (Cons e xs)
  obtain k x where e: "e = (k, x)" by fastforce
  let ?p = "cancel_owner p (k, x)"
  have c: "work_rest ?p" "given_up (wp_states p) (wp_states ?p)" "same_plan p ?p" "wp_projects ?p = wp_projects p" "wp_begun ?p = wp_begun p"
    "wp_nonce ?p = wp_nonce p" "wp_stopped ?p = wp_stopped p" "\<forall>l. l \<noteq> k \<longrightarrow> map_of (wp_active ?p) l = map_of (wp_active p) l"
    using cancel_owner_rest [OF Cons.prems(1), of k x] Cons.prems(3) by (auto simp: e)
  have "\<forall>(l, y) \<in> set xs. map_of (wp_active ?p) l = Some y"
  proof (intro ballI, clarify)
    fix l y assume y: "(l, y) \<in> set xs"
    then have "l \<noteq> k" using Cons.prems(2) by (force simp: e)
    then show "map_of (wp_active ?p) l = Some y" using c(8) Cons.prems(3) y by auto
  qed
  then have IH: "work_rest (foldl cancel_owner ?p xs) \<and> given_up (wp_states ?p) (wp_states (foldl cancel_owner ?p xs)) \<and> same_plan ?p (foldl cancel_owner ?p xs) \<and>
    wp_projects (foldl cancel_owner ?p xs) = wp_projects ?p \<and> wp_begun (foldl cancel_owner ?p xs) = wp_begun ?p \<and>
    wp_nonce (foldl cancel_owner ?p xs) = wp_nonce ?p \<and> wp_stopped (foldl cancel_owner ?p xs) = wp_stopped ?p"
    using Cons.IH [OF c(1)] Cons.prems(2) by simp
  then show ?case using c given_up_trans [OF c(2)] by (simp add: e same_plan_def)
qed

text \<open>The last loop of \<open>Stop\<close> recomputes every project that has work left.\<close>

lemma stop_projects:
  assumes "distinct qs" "set qs \<subseteq> {..<length (wp_projects p)}"
  shows "\<exists>projects. foldl (stop_project reason) p qs = p\<lparr>wp_projects := projects\<rparr> \<and> length projects = length (wp_projects p) \<and>
    (\<forall>q < length projects. if q \<in> set qs \<and> unsettled (wp_projects p ! q)
       then pr_state (projects ! q) = groups_state (wp_states p) (wp_begun p ! q) (tw_by_project (wp_groups p) ! q)
       else projects ! q = wp_projects p ! q)"
  using assms
proof (induction qs arbitrary: p)
  case Nil
  show ?case by (intro exI [of _ "wp_projects p"]) simp
next
  case (Cons q qs)
  obtain projects1 where one: "stop_project reason p q = p\<lparr>wp_projects := projects1\<rparr>" "length projects1 = length (wp_projects p)"
    "\<And>j. j \<noteq> q \<Longrightarrow> projects1 ! j = wp_projects p ! j"
    "if unsettled (wp_projects p ! q) then pr_state (projects1 ! q) = groups_state (wp_states p) (wp_begun p ! q) (tw_by_project (wp_groups p) ! q)
     else projects1 ! q = wp_projects p ! q"
  proof (cases "unsettled (wp_projects p ! q)")
    case True
    let ?s = "groups_state (wp_states p) (wp_begun p ! q) (tw_by_project (wp_groups p) ! q)"
    show ?thesis
      by (rule that [of "(wp_projects p)[q := (wp_projects p ! q)\<lparr>pr_state := ?s, pr_reason := reason\<rparr>]"])
        (use True Cons.prems(2) in \<open>simp_all add: stop_project_def UpdateProject_def Let_def\<close>)
  next
    case False
    show ?thesis by (rule that [of "wp_projects p"]) (use False in \<open>simp_all add: stop_project_def\<close>)
  qed
  let ?p = "p\<lparr>wp_projects := projects1\<rparr>"
  obtain projects where rest: "foldl (stop_project reason) ?p qs = ?p\<lparr>wp_projects := projects\<rparr>" "length projects = length projects1"
    "\<forall>j < length projects. if j \<in> set qs \<and> unsettled (projects1 ! j)
       then pr_state (projects ! j) = groups_state (wp_states p) (wp_begun p ! j) (tw_by_project (wp_groups p) ! j) else projects ! j = projects1 ! j"
    using Cons.IH [of ?p] Cons.prems one(2) by auto
  have "if j \<in> set (q # qs) \<and> unsettled (wp_projects p ! j)
       then pr_state (projects ! j) = groups_state (wp_states p) (wp_begun p ! j) (tw_by_project (wp_groups p) ! j) else projects ! j = wp_projects p ! j"
    if j: "j < length projects" for j
  proof (cases "j = q")
    case True
    then have "projects ! j = projects1 ! q" using rest(3) j Cons.prems(1) by simp
    then show ?thesis using True one(4) by simp
  next
    case False
    then show ?thesis using rest(3) [rule_format, OF j] one(3) [OF False] by simp
  qed
  then show ?case using one(1,2) rest(1,2) by (intro exI [of _ projects]) simp
qed

lemma work_Stop_inv:
  assumes inv: "work_inv p" and stop: "work_Stop reason p = Inr p'"
  shows "work_inv p'"
proof (cases "wp_stopped p")
  case True
  then show ?thesis using assms by (auto simp: work_Stop_def split: if_splits)
next
  case False
  note w = work_invD [OF inv] and r = work_restD [OF work_invD(3) [OF inv]]
  let ?p = "p\<lparr>wp_stopped := True\<rparr>"
  define c where "c = foldl cancel_owner ?p (wp_active p)"
  have "work_rest ?p" using w(3) by (simp add: work_rest_def)
  moreover have "\<forall>(k, x) \<in> set (wp_active p). map_of (wp_active ?p) k = Some x" using r(6) by auto
  ultimately have c: "work_rest c" "given_up (wp_states p) (wp_states c)" "same_plan p c" "wp_projects c = wp_projects p" "wp_begun c = wp_begun p"
    "wp_nonce c = wp_nonce p" "wp_stopped c"
    using cancel_owners_rest [of ?p "wp_active p"] r(6) unfolding c_def by (simp_all add: same_plan_def)
  define states where "states = map (\<lambda>s. if s = PPending then PNotRun else s) (wp_states c)"
  have len: "length states = length (wp_states p)" "length (wp_states c) = length (wp_states p)" using c(2) by (simp_all add: states_def given_up_def)
  have at: "states ! i = wp_states p ! i \<or> wp_states p ! i \<in> {PPending, PRunning} \<and> states ! i = PNotRun" if i: "i < length (wp_states p)" for i
    using c(2) i len(2) by (auto simp: states_def given_up_def)
  have no: "states ! i \<noteq> PPending" if "i < length states" for i using that by (simp add: states_def)
  obtain projects where p: "foldl (stop_project reason) (c\<lparr>wp_states := states\<rparr>) [0..<length (wp_projects c)] = c\<lparr>wp_states := states, wp_projects := projects\<rparr>"
    "length projects = length (wp_projects p)"
    "\<forall>q < length projects. if unsettled (wp_projects p ! q) then pr_state (projects ! q) = groups_state states (wp_begun p ! q) (tw_by_project (wp_groups p) ! q)
       else projects ! q = wp_projects p ! q"
  proof -
    have "set [0..<length (wp_projects c)] \<subseteq> {..<length (wp_projects (c\<lparr>wp_states := states\<rparr>))}" by auto
    from stop_projects [OF distinct_upt this, of reason] obtain projects where
      f: "foldl (stop_project reason) (c\<lparr>wp_states := states\<rparr>) [0..<length (wp_projects c)] = c\<lparr>wp_states := states, wp_projects := projects\<rparr>"
      "length projects = length (wp_projects (c\<lparr>wp_states := states\<rparr>))"
      "\<forall>q < length projects. if q \<in> set [0..<length (wp_projects c)] \<and> unsettled (wp_projects (c\<lparr>wp_states := states\<rparr>) ! q)
       then pr_state (projects ! q) = groups_state (wp_states (c\<lparr>wp_states := states\<rparr>)) (wp_begun (c\<lparr>wp_states := states\<rparr>) ! q)
         (tw_by_project (wp_groups (c\<lparr>wp_states := states\<rparr>)) ! q)
       else projects ! q = wp_projects (c\<lparr>wp_states := states\<rparr>) ! q" by (elim exE conjE) rule
    show ?thesis by (rule that [OF f(1)]) (use f(2,3) c(3-5) in \<open>simp_all add: same_plan_def\<close>)
  qed
  have p': "p' = c\<lparr>wp_states := states, wp_projects := projects\<rparr>"
    using stop False p(1) by (simp add: work_Stop_def Let_def c_def [symmetric] states_def [symmetric] split: if_splits)
  have core: "work_core (wp_graph p) (wp_no_dependencies p) (wp_groups p) projects states (wp_begun p)"
  proof (rule conjunct1, rule work_core_change [OF w(1)])
    fix q assume q: "q < length (wp_projects p)"
    show "pr_state (projects ! q) = pr_state (wp_projects p ! q) \<and> wp_begun p ! q = wp_begun p ! q \<and>
        (\<forall>i \<in> set (tw_by_project (wp_groups p) ! q). states ! i = wp_states p ! i) \<or>
        unsettled (wp_projects p ! q) \<and> work_project_ok (wp_groups p) states (wp_begun p) projects q"
    proof (cases "unsettled (wp_projects p ! q)")
      case True
      note u = work_unsettled(2) [OF w(1) q True]
      have "states ! i \<noteq> PBlocked" if i: "i \<in> set (tw_by_project (wp_groups p) ! q)" for i
      proof -
        have "i < length (wp_states p)" using plan_member(2) [OF work_coreD(9) [OF w(1)] q i] work_coreD(5) [OF w(1)] by simp
        then show ?thesis using at u i by fastforce
      qed
      then show ?thesis using p(2,3) q True u by (simp add: work_project_ok_def)
    next
      case False
      have "states ! i = wp_states p ! i" if i: "i \<in> set (tw_by_project (wp_groups p) ! q)" for i
      proof -
        have "i < length (wp_states p)" using plan_member(2) [OF work_coreD(9) [OF w(1)] q i] work_coreD(5) [OF w(1)] by simp
        moreover have "wp_states p ! i \<notin> {PPending, PRunning}" using False i unfolding work_unsettled(1) [OF w(1) q] by blast
        ultimately show ?thesis using at by blast
      qed
      then show ?thesis using p(2,3) q False by simp
    qed
  next
    show "state_ran (wp_states p ! i) \<or> admissible (wp_graph p) (wp_no_dependencies p) (wp_projects p) (project_of (wp_groups p) i)"
      if "i < length (wp_states p)" "state_ran (states ! i)" for i using at [OF that(1)] that(2) by (auto simp: state_ran_def)
    show "PNotSelected \<notin> set states"
    proof
      assume "PNotSelected \<in> set states"
      then obtain i where i: "i < length states" "states ! i = PNotSelected" unfolding in_set_conv_nth by blast
      then have "wp_states p ! i = PNotSelected" using at [of i] len(1) by auto
      moreover have "wp_states p ! i \<in> set (wp_states p)" using i(1) len(1) by simp
      ultimately have "PNotSelected \<in> set (wp_states p)" by simp
      then show False using work_coreD(7) [OF w(1)] by blast
    qed
  qed (use p(2) len in simp_all)
  note rc = work_restD [OF c(1)]
  have "work_owners (wp_graph c) (wp_no_dependencies c) (wp_groups c) states (wp_nonce c) (map_of (wp_active c))"
    by (rule work_owners_states [OF rc(1)]) (auto simp: states_def)
  moreover have "work_receipt_ok i (states ! i) (wp_retired c ! i) (wp_canceled c ! i)" if i: "i < length (wp_states c)" for i
    using rc(5) [OF i] receipt_live [OF rc(5) [OF i]] i by (cases "wp_states c ! i = PPending") (simp_all add: states_def)
  ultimately have "work_rest p'" using rc len unfolding work_rest_def by (simp add: p')
  moreover have "card (pending_groups states) \<le> card (pending_groups (wp_states p))" by (rule pending_groups_mono) (use no len in auto)
  ultimately show ?thesis using core w(4) c len unfolding work_inv_def by (simp add: p' same_plan_def)
qed

section \<open>Histories\<close>

datatype work_call =
    WorkNext "nat \<Rightarrow> bool"
  | WorkStarted work_admission nat int
  | WorkExited work_admission nat int
  | WorkCompleted work_admission project_outcome
  | WorkStop string

definition work_apply :: "work_call \<Rightarrow> work_pool \<Rightarrow> work_pool result" where
  "work_apply e p =
     (case e of
        WorkNext ready \<Rightarrow> bindR (work_Next ready p) (\<lambda>(r, p). Inr p)
      | WorkStarted a w pid \<Rightarrow> bindR (work_WorkerStarted a w pid p) (\<lambda>(r, p). Inr p)
      | WorkExited a w pid \<Rightarrow> bindR (work_WorkerExited a w pid p) (\<lambda>(r, p). Inr p)
      | WorkCompleted a out \<Rightarrow> bindR (work_Complete a out p) (\<lambda>(r, p). Inr p)
      | WorkStop reason \<Rightarrow> work_Stop reason p)"

inductive work_step :: "work_pool \<Rightarrow> work_call \<Rightarrow> work_pool \<Rightarrow> bool" where
  work_returns: "work_apply e p = Inr p' \<Longrightarrow> work_step p e p'"

inductive_simps work_step_iff: "work_step p e p'"

lemma work_Next_inv: "work_inv p \<Longrightarrow> work_Next ready p = Inr (r, p') \<Longrightarrow> work_inv p'"
  using work_Next_ok [of p ready] by auto

lemma work_step_inv: "work_inv p \<Longrightarrow> work_step p e p' \<Longrightarrow> work_inv p'"
  by (cases e) (auto simp: work_step_iff work_apply_def bindR_eq_Inr intro: work_Next_inv work_WorkerStarted_inv
      work_WorkerExited_inv work_Complete_inv work_Stop_inv)

interpretation work: machine work_step work_inv
  by unfold_locales (rule work_step_inv)

text \<open>What no call changes.\<close>

lemma cancel_owner_plan: "same_plan p (cancel_owner p e)"
  by (cases e) (simp add: cancel_owner_def same_plan_def Let_def)

lemma fold_plan: "(\<And>p e. same_plan p (f p e)) \<Longrightarrow> same_plan p (foldl f p xs)"
proof (induction xs arbitrary: p)
  case (Cons e xs)
  have "same_plan p (f p e)" "same_plan (f p e) (foldl f (f p e) xs)" using Cons by blast+
  then show ?case by (simp add: same_plan_def)
qed (simp add: same_plan_def)

lemma stop_project_plan: "same_plan p (stop_project reason p q)"
  by (simp add: stop_project_def UpdateProject_def same_plan_def Let_def)

lemma work_Retire_plan: "same_plan p (work_Retire k p)"
  by (auto simp: work_Retire_def UpdateProject_def same_plan_def Let_def split: option.splits)

lemma work_Next_found:
  assumes "work_inv p" "work_Next ready p = Inr (r, p')" "\<not> (wp_stopped p \<or> wp_limit p \<le> length (wp_active p))"
  shows "\<exists>i projects states. keeps (wp_states p) states \<and>
       work_core (wp_graph p) (wp_no_dependencies p) (wp_groups p) projects states (wp_begun p) \<and>
       work_search_post (wp_graph p) (wp_no_dependencies p) (wp_groups p) ready i projects states \<and>
       (case i of None \<Rightarrow> r = None \<and> p' = p\<lparr>wp_projects := projects, wp_states := states\<rparr>
        | Some i \<Rightarrow> \<exists>a. r = Some a \<and> work_Admit i (p\<lparr>wp_projects := projects, wp_states := states\<rparr>) = Inr (a, p'))"
  using work_Next_ok [OF assms(1), of ready] unfolding if_not_P [OF assms(3)] assms(2) sum.inject prod.inject
  by simp

lemma work_Admit_plan: "work_Admit i p = Inr (a, p') \<Longrightarrow> same_plan p p'"
  by (auto simp: work_Admit_def same_plan_def Let_def bindR_eq_Inr split: if_splits)

lemma work_step_plan:
  assumes "work_inv p" "work_step p e p'"
  shows "same_plan p p'"
proof (cases e)
  case (WorkNext ready)
  obtain r where n: "work_Next ready p = Inr (r, p')" using assms(2) WorkNext by (auto simp: work_step_iff work_apply_def bindR_eq_Inr)
  show ?thesis
  proof (cases "wp_stopped p \<or> wp_limit p \<le> length (wp_active p)")
    case False
    obtain i projects states where "case i of None \<Rightarrow> r = None \<and> p' = p\<lparr>wp_projects := projects, wp_states := states\<rparr>
        | Some i \<Rightarrow> \<exists>a. r = Some a \<and> work_Admit i (p\<lparr>wp_projects := projects, wp_states := states\<rparr>) = Inr (a, p')"
      using work_Next_found [OF assms(1) n False] by (elim exE conjE) rule
    then show ?thesis using work_Admit_plan by (cases i) (fastforce simp: same_plan_def)+
  next
    case True
    then show ?thesis using n by (auto simp: work_Next_def same_plan_def)
  qed
next
  case (WorkStarted a w pid)
  then show ?thesis using assms(2)
    by (auto simp: work_step_iff work_apply_def bindR_eq_Inr work_WorkerStarted_def same_plan_def split: option.splits if_splits)
next
  case (WorkExited a w pid)
  then have "p' = p \<or> (\<exists>k active pids. p' = work_Retire k (p\<lparr>wp_active := active, wp_pids := pids\<rparr>))"
    using assms(2) by (auto simp: work_step_iff work_apply_def bindR_eq_Inr work_WorkerExited_def split: option.splits if_splits)
  then show ?thesis using work_Retire_plan by (fastforce simp: same_plan_def)
next
  case (WorkCompleted a out)
  then have "p' = p \<or> (\<exists>k active. p' = work_Retire k (p\<lparr>wp_active := active\<rparr>))"
    using assms(2) by (auto simp: work_step_iff work_apply_def bindR_eq_Inr work_Complete_def split: option.splits if_splits)
  then show ?thesis using work_Retire_plan by (fastforce simp: same_plan_def)
next
  case (WorkStop reason)
  have c: "same_plan (p\<lparr>wp_stopped := True\<rparr>) (foldl cancel_owner (p\<lparr>wp_stopped := True\<rparr>) (wp_active p))" by (rule fold_plan [OF cancel_owner_plan])
  have s: "same_plan q (foldl (stop_project reason) q qs)" for q qs by (rule fold_plan [OF stop_project_plan])
  show ?thesis using assms(2) WorkStop c
      s [of "foldl cancel_owner (p\<lparr>wp_stopped := True\<rparr>) (wp_active p)\<lparr>wp_states := map (\<lambda>s. if s = PPending then PNotRun else s) (wp_states (foldl cancel_owner (p\<lparr>wp_stopped := True\<rparr>) (wp_active p)))\<rparr>"
        "[0..<length (wp_projects (foldl cancel_owner (p\<lparr>wp_stopped := True\<rparr>) (wp_active p)))]"]
    by (auto simp: work_step_iff work_apply_def work_Stop_def same_plan_def Let_def split: if_splits)
qed

lemma TestWorkGroups_plan:
  assumes "TestWorkGroups tests suites members modes selected_projects selected_tests fully_parallel = Inr W"
  shows "plan_ok W (length selected_projects)"
proof -
  obtain owners tree where inv: "groups_inv tree owners selected_projects selected_tests fully_parallel (length selected_projects) W" and len: "length (tw_groups W) \<le> 8192"
    using TestWorkGroups_inv [OF assms] by blast
  then show ?thesis using project_facts(3) [OF inv] unfolding groups_inv_def plan_ok_def by blast
qed

lemma WorkGroupPool_inv:
  assumes wf: "graph_wf g" and plan: "plan_ok W (length (pg_declarations g))" and pool: "WorkGroupPool g selected nd W limit = Inr p"
  shows "work_inv p" "wp_graph p = g" "wp_groups p = W" "wp_no_dependencies p = nd" "wp_limit p = limit" "0 < limit \<and> limit \<le> 8"
proof -
  let ?n = "length (pg_declarations g)" and ?k = "length (tw_groups W)"
  have p: "p = \<lparr>wp_graph = g, wp_groups = W, wp_projects = selected_results selected, wp_states = replicate ?k PPending,
       wp_begun = replicate ?n False, wp_retired = replicate ?k None, wp_canceled = replicate ?k None,
       wp_active = [], wp_pids = {}, wp_highest_worker = 0, wp_limit = limit, wp_nonce = 0, wp_no_dependencies = nd, wp_stopped = False\<rparr>"
    and len: "length selected = ?n" and sel: "map (\<lambda>is. is \<noteq> []) (tw_by_project W) = selected" and limit: "0 < limit \<and> limit \<le> 8"
    using pool by (auto simp: WorkGroupPool_def Let_def bindR_eq_Inr split: if_splits)
  show "wp_graph p = g" "wp_groups p = W" "wp_no_dependencies p = nd" "wp_limit p = limit" "0 < limit \<and> limit \<le> 8" using limit by (simp_all add: p)
  have "work_project_ok W (replicate ?k PPending) (replicate ?n False) (selected_results selected) q" if q: "q < ?n" for q
  proof -
    have "length (tw_by_project W) = ?n" using plan by (simp add: plan_ok_def)
    then have s: "selected ! q \<longleftrightarrow> tw_by_project W ! q \<noteq> []" using q unfolding sel [symmetric] by simp
    have m: "replicate ?k PPending ! i = PPending" if "i \<in> set (tw_by_project W ! q)" for i
      using plan_member(2) [OF plan q that] by simp
    have "groups_state (replicate ?k PPending) False (tw_by_project W ! q) = PPending" if some: "tw_by_project W ! q \<noteq> []"
    proof -
      obtain i where i: "i \<in> set (tw_by_project W ! q)" using some by (metis last_in_set)
      have "list_ex (\<lambda>i. replicate ?k PPending ! i = s) (tw_by_project W ! q) \<longleftrightarrow> s = PPending" for s
        using m i unfolding list_ex_iff by metis
      then show ?thesis by (simp add: groups_state_def)
    qed
    then show ?thesis using s q len m by (simp add: work_project_ok_def selected_results_def fresh_result_def)
  qed
  then have "work_core g nd W (selected_results selected) (replicate ?k PPending) (replicate ?n False)"
    using wf plan len unfolding work_core_def by (simp add: selected_results_def state_ran_def)
  moreover have "card (pending_groups (replicate ?k PPending)) \<le> ?k"
    using card_mono [of "{..<?k}" "pending_groups (replicate ?k PPending)"] by (auto simp: pending_groups_def)
  moreover have "work_rest p"
    by (simp add: work_rest_def p work_owners_def workers_ok_def work_works_def work_receipt_ok_def ran_def)
  ultimately show "work_inv p" unfolding work_inv_def by (simp add: p)
qed

lemma reachable_work:
  assumes "ProjectGraph ds = Inr g" "TestWorkGroups tests suites members modes selected selected_tests fully_parallel = Inr W"
    "WorkGroupPool g selected nd W limit = Inr p" "trace work_step p calls p'"
  shows "work_inv p'" "wp_graph p' = g" "wp_groups p' = W" "wp_no_dependencies p' = nd" "wp_limit p' = limit" "limit \<le> 8"
    "0 < limit" "length (wp_projects p') = length ds" "length (wp_states p') = length (tw_groups W)" "length selected = length ds" "length (tw_groups W) \<le> 8192"
proof -
  have wf: "graph_wf g" "pg_declarations g = ds" using ProjectGraph_wf [OF assms(1)] .
  have len: "length selected = length ds" using assms(3) wf(2) by (auto simp: WorkGroupPool_def Let_def split: if_splits)
  then show "length selected = length ds" .
  have plan: "plan_ok W (length (pg_declarations g))" using TestWorkGroups_plan [OF assms(2)] len wf(2) by simp
  then show "length (tw_groups W) \<le> 8192" by (simp add: plan_ok_def)
  note p = WorkGroupPool_inv [OF wf(1) plan assms(3)]
  show inv: "work_inv p'" using work.trace_inv [OF assms(4) p(1)] .
  have "same_plan p p'" by (rule work.trace_relates [OF assms(4) p(1)]) (auto simp: same_plan_def dest: work_step_plan [unfolded same_plan_def])
  then show eq: "wp_graph p' = g" "wp_groups p' = W" "wp_no_dependencies p' = nd" "wp_limit p' = limit" using p by (simp_all add: same_plan_def)
  show "limit \<le> 8" "0 < limit" using p(6) by simp_all
  show "length (wp_projects p') = length ds" "length (wp_states p') = length (tw_groups W)"
    using work_coreD(3,5) [OF work_invD(1) [OF inv]] eq wf(2) by simp_all
qed

end
