(* ===== verification/LockNames.thy ===== *)
theory LockNames
  imports ResourceLocks TestGroups
begin

text \<open>
  \<open>resource_lock_declarations.h\<close> and the functions \<open>FileGroupLockNames\<close> and \<open>WorkGroupLockNames\<close> of
  \<open>file_group_locks.h\<close> and \<open>work_group_locks.h\<close>: the lock names declared for the file, for tests and for
  suites, and the names a group of tests inherits. The maps by owner are association lists in the order of
  their keys, a set of names that is returned is its sorted list. The checks of one declared name and of the
  namespace are those of the locks themselves, with other messages.
\<close>

section \<open>Declarations\<close>

type_synonym names_by_owner = "(nat \<times> bytes list) list"

record lock_declarations =
  ld_tests :: "nat set"
  ld_tree :: "suite_tree option"
  ld_test_names :: names_by_owner
  ld_suite_names :: names_by_owner
  ld_file_names :: "bytes list"

definition lock_error :: "string \<Rightarrow> 'a result" where
  "lock_error m = Inl (Invalid_argument m)"

definition declaration_messages :: lock_messages where
  "declaration_messages = \<lparr>lm_membership = '''', lm_references = ''Native resource-lock declaration/reference capacity exceeded'',
     lm_name = ''Native resource-lock declaration name/metadata capacity exceeded'',
     lm_namespace = ''Native resource-lock namespace capacity exceeded'', lm_staging = '''', lm_lost = ''''\<rparr>"

fun suite_ids_loop :: "suite_declaration list \<Rightarrow> nat set \<Rightarrow> nat set result" where
  "suite_ids_loop [] ids = Inr ids"
| "suite_ids_loop (suite # suites) ids =
     (if sd_id suite = 0 \<or> sd_id suite \<in> ids then lock_error ''Invalid native resource-lock suite identities''
      else suite_ids_loop suites (insert (sd_id suite) ids))"

text \<open>What \<open>check\<close> accumulates: references, bytes and distinct names.\<close>

type_synonym declared_tally = "nat \<times> nat \<times> bytes set"

definition check_names :: "bytes list \<Rightarrow> declared_tally \<Rightarrow> declared_tally result" where
  "check_names declared tally = (case tally of (references, used, names) \<Rightarrow>
     if 64 < length declared \<or> 65536 - references < length declared then lock_error (lm_references declaration_messages)
     else bindR (lock_name_loop declaration_messages declared used names) (\<lambda>(used, names). Inr (references + length declared, used, names)))"

fun check_owners :: "string \<Rightarrow> nat set \<Rightarrow> names_by_owner \<Rightarrow> declared_tally \<Rightarrow> declared_tally result" where
  "check_owners m known [] tally = Inr tally"
| "check_owners m known ((n, declared) # rest) tally =
     (if n \<notin> known then lock_error m else bindR (check_names declared tally) (check_owners m known rest))"

definition declaration_tree :: "nat list \<Rightarrow> suite_declaration list \<Rightarrow> suite_test list \<Rightarrow> names_by_owner \<Rightarrow> suite_tree option result" where
  "declaration_tree tests suites memberships suite_names =
     (if suites = []
      then if memberships \<noteq> [] \<or> suite_names \<noteq> [] then lock_error ''Native resource-lock suite declaration has no actual tree'' else Inr None
      else bindR (NativeSuiteTree suites memberships) (\<lambda>tree.
        if set (tr_order tree) \<noteq> set tests then lock_error ''Native resource-lock tree disagrees with actual test declarations'' else Inr (Some tree)))"

definition ResourceLockDeclarations :: "nat list \<Rightarrow> suite_declaration list \<Rightarrow> suite_test list \<Rightarrow> names_by_owner \<Rightarrow> names_by_owner \<Rightarrow> bytes list \<Rightarrow> lock_declarations result" where
  "ResourceLockDeclarations tests suites memberships test_names suite_names file_names =
     (if 4096 < length tests \<or> card (set tests) \<noteq> length tests \<or> 0 \<in> set tests then lock_error ''Invalid native resource-lock test identities''
      else bindR (suite_ids_loop suites {}) (\<lambda>suite_ids.
           bindR (declaration_tree tests suites memberships suite_names) (\<lambda>tree.
           bindR (check_names file_names (0, 0, {})) (\<lambda>tally.
           bindR (check_owners ''Unknown native resource-lock test owner'' (set tests) test_names tally) (\<lambda>tally.
           bindR (check_owners ''Unknown native resource-lock suite owner'' suite_ids suite_names tally) (\<lambda>tally.
             Inr \<lparr>ld_tests = set tests, ld_tree = tree, ld_test_names = test_names, ld_suite_names = suite_names, ld_file_names = file_names\<rparr>))))))"

definition names_of :: "names_by_owner \<Rightarrow> nat set \<Rightarrow> bytes list" where
  "names_of names owners = concat (map snd (filter (\<lambda>(n, _). n \<in> owners) names))"

definition lock_Resolve :: "lock_declarations \<Rightarrow> nat set \<Rightarrow> bytes list result" where
  "lock_Resolve D selected =
     (if \<not> selected \<subseteq> ld_tests D then lock_error ''Unknown native resource-lock selected test''
      else if selected = {} then Inr []
      else let names = ld_file_names D @ names_of (ld_test_names D) selected
           in case ld_tree D of
                None \<Rightarrow> Inr (remdups_adj (sort names))
              | Some tree \<Rightarrow> bindR (Plan tree selected) (\<lambda>routes.
                  Inr (remdups_adj (sort (names @ names_of (ld_suite_names D) (set (concat (map ro_ancestors routes))))))))"

section \<open>The names of the groups\<close>

fun metadata_loop :: "string \<Rightarrow> bytes list \<Rightarrow> nat \<Rightarrow> nat result" where
  "metadata_loop m [] used = Inr used"
| "metadata_loop m (name # names) used =
     (if 8388608 - used < length name + 32 then lock_error m else metadata_loop m names (used + (length name + 32)))"

fun group_names_loop :: "lock_messages \<Rightarrow> lock_declarations \<Rightarrow> nat list list \<Rightarrow> nat \<Rightarrow> nat \<Rightarrow> bytes list list result" where
  "group_names_loop m D [] references used = Inr []"
| "group_names_loop m D (tests # groups) references used =
     bindR (lock_Resolve D (set tests)) (\<lambda>resolved.
       if 65536 - references < length resolved then lock_error (lm_references m)
       else bindR (metadata_loop (lm_name m) resolved used) (\<lambda>used.
            bindR (group_names_loop m D groups (references + length resolved) used) (\<lambda>names. Inr (resolved # names))))"

definition inherited_messages :: "string \<Rightarrow> lock_messages" where
  "inherited_messages kind = \<lparr>lm_membership = '''', lm_references = ''Native inherited '' @ kind @ '' reference capacity exceeded'',
     lm_name = ''Native inherited '' @ kind @ '' metadata capacity exceeded'', lm_namespace = '''', lm_staging = '''', lm_lost = ''''\<rparr>"

definition FileGroupLockNames :: "file_work_groups \<Rightarrow> lock_declarations \<Rightarrow> bytes list list result" where
  "FileGroupLockNames groups D = group_names_loop (inherited_messages ''file-group lock'') D (map sg_tests (fw_groups groups)) 0 0"

definition WorkGroupLockNames :: "test_groups \<Rightarrow> lock_declarations \<Rightarrow> bytes list list result" where
  "WorkGroupLockNames groups D = group_names_loop (inherited_messages ''group-lock'') D (map tg_tests (tw_groups groups)) 0 0"

section \<open>What the declarations admit\<close>

definition declared_names :: "lock_declarations \<Rightarrow> bytes set" where
  "declared_names D = set (ld_file_names D) \<union> set (concat (map snd (ld_test_names D))) \<union> set (concat (map snd (ld_suite_names D)))"

definition name_ok :: "bytes \<Rightarrow> bool" where
  "name_ok name \<longleftrightarrow> length name mod 2 = 0 \<and> length name \<le> 2048"

lemma lock_name_loop_ok:
  "lock_name_loop m ns used unique = Inr (used', unique') \<Longrightarrow>
     (\<forall>n \<in> set ns. name_ok n) \<and> unique' = unique \<union> set ns \<and> (card unique \<le> 4096 \<longrightarrow> card unique' \<le> 4096)"
proof (induction ns arbitrary: used unique)
  case (Cons n ns)
  have c: "name_ok n" "card (insert n unique) \<le> 4096" "lock_name_loop m ns (used + length n + 32) (insert n unique) = Inr (used', unique')"
    using Cons.prems by (auto simp: name_ok_def split: if_splits)
  then show ?case using Cons.IH [OF c(3)] by auto
qed simp

definition tally_ok :: "declared_tally \<Rightarrow> bool" where
  "tally_ok tally \<longleftrightarrow> (case tally of (_, _, names) \<Rightarrow> card names \<le> 4096 \<and> (\<forall>n \<in> names. name_ok n))"

abbreviation tally_names :: "declared_tally \<Rightarrow> bytes set" where
  "tally_names tally \<equiv> snd (snd tally)"

lemma check_names_ok:
  assumes "check_names declared tally = Inr tally'" "tally_ok tally"
  shows "tally_ok tally' \<and> tally_names tally' = tally_names tally \<union> set declared"
proof -
  obtain references used names where t: "tally = (references, used, names)" by (cases tally)
  obtain used' names' where l: "lock_name_loop declaration_messages declared used names = Inr (used', names')" "tally' = (references + length declared, used', names')"
    using assms(1) by (auto simp: check_names_def t lock_error_def bindR_eq_Inr split: if_splits)
  show ?thesis using lock_name_loop_ok [OF l(1)] assms(2) by (auto simp: tally_ok_def t l(2))
qed

lemma check_owners_ok:
  "check_owners m known names tally = Inr tally' \<Longrightarrow> tally_ok tally \<Longrightarrow>
     tally_ok tally' \<and> tally_names tally' = tally_names tally \<union> set (concat (map snd names))"
proof (induction names arbitrary: tally)
  case (Cons entry names)
  obtain n declared where e: "entry = (n, declared)" by fastforce
  obtain mid where c: "check_names declared tally = Inr mid" "check_owners m known names mid = Inr tally'"
    using Cons.prems(1) by (auto simp: e lock_error_def bindR_eq_Inr split: if_splits)
  show ?case using check_names_ok [OF c(1) Cons.prems(2)] Cons.IH [OF c(2)] by (auto simp: e)
qed simp

lemma declarations_ok:
  assumes "ResourceLockDeclarations tests suites memberships test_names suite_names file_names = Inr D"
  shows "card (declared_names D) \<le> 4096" "\<forall>n \<in> declared_names D. name_ok n" "ld_tests D = set tests"
    "ld_tree D = (if suites = [] then None else Some (projr (NativeSuiteTree suites memberships)))"
    "suites \<noteq> [] \<Longrightarrow> NativeSuiteTree suites memberships = Inr (projr (NativeSuiteTree suites memberships))"
    "ld_test_names D = test_names" "ld_suite_names D = suite_names" "ld_file_names D = file_names"
proof -
  obtain ids tree t1 t2 t3 where c: "declaration_tree tests suites memberships suite_names = Inr tree" "check_names file_names (0, 0, {}) = Inr t1"
    "check_owners ''Unknown native resource-lock test owner'' (set tests) test_names t1 = Inr t2" "check_owners ''Unknown native resource-lock suite owner'' ids suite_names t2 = Inr t3"
    "D = \<lparr>ld_tests = set tests, ld_tree = tree, ld_test_names = test_names, ld_suite_names = suite_names, ld_file_names = file_names\<rparr>"
    using assms unfolding ResourceLockDeclarations_def by (auto simp: lock_error_def bindR_eq_Inr split: if_splits)
  have "tally_ok (0, 0, {})" by (simp add: tally_ok_def)
  then have 1: "tally_ok t1" "tally_names t1 = set file_names" using check_names_ok [OF c(2)] by simp_all
  have 2: "tally_ok t2" "tally_names t2 = set file_names \<union> set (concat (map snd test_names))" using check_owners_ok [OF c(3) 1(1)] 1(2) by simp_all
  have 3: "tally_ok t3" "tally_names t3 = declared_names D" using check_owners_ok [OF c(4) 2(1)] 2(2) by (simp_all add: declared_names_def c(5))
  show "card (declared_names D) \<le> 4096" "\<forall>n \<in> declared_names D. name_ok n" using 3 unfolding tally_ok_def by (cases t3; simp)+
  show "ld_tree D = (if suites = [] then None else Some (projr (NativeSuiteTree suites memberships)))"
    "suites \<noteq> [] \<Longrightarrow> NativeSuiteTree suites memberships = Inr (projr (NativeSuiteTree suites memberships))"
    using c(1) by (auto simp: declaration_tree_def lock_error_def c(5) bindR_eq_Inr split: if_splits)
qed (use assms in \<open>auto simp: ResourceLockDeclarations_def lock_error_def bindR_eq_Inr split: if_splits\<close>)

section \<open>What a selection inherits\<close>

text \<open>The names of the file, of the selected tests and of every suite around one of them; nothing for an empty selection.\<close>

definition inherited_names :: "lock_declarations \<Rightarrow> nat set \<Rightarrow> bytes set" where
  "inherited_names D selected =
     {name. selected \<noteq> {} \<and>
        (name \<in> set (ld_file_names D) \<or>
         (\<exists>test names. (test, names) \<in> set (ld_test_names D) \<and> test \<in> selected \<and> name \<in> set names) \<or>
         (\<exists>T suite names test. ld_tree D = Some T \<and> (suite, names) \<in> set (ld_suite_names D) \<and> test \<in> selected \<and> suite \<in> set (path_of T test) \<and> name \<in> set names))}"

lemma inherited_declared: "inherited_names D selected \<subseteq> declared_names D"
  unfolding inherited_names_def declared_names_def by force

lemma set_names_of: "set (names_of names owners) = {name. \<exists>n ns. (n, ns) \<in> set names \<and> n \<in> owners \<and> name \<in> set ns}"
  unfolding names_of_def by force

lemma plan_suites:
  assumes "NativeSuiteTree suites tests = Inr T" "Plan T selected = Inr routes"
  shows "set (concat (map ro_ancestors routes)) = (\<Union>n \<in> selected. set (path_of T n))"
proof -
  let ?xs = "filter (\<lambda>n. n \<in> selected) (tr_order T)"
  note n = Plan_nth [OF assms]
  have "map ro_ancestors routes = map (path_of T) ?xs" using n(1,3) by (intro nth_equalityI) (simp_all add: route_of_def)
  moreover have "set ?xs = selected" using n(2) by auto
  ultimately show ?thesis by (metis image_image set_concat set_map)
qed

lemma remdups_sort: "sorted (remdups_adj (sort xs)) \<and> distinct (remdups_adj (sort xs)) \<and> set (remdups_adj (sort xs)) = set (xs :: bytes list)"
  using distinct_remdups_sort [of xs] by simp

lemma lock_Resolve_ok:
  assumes D: "ResourceLockDeclarations tests suites memberships test_names suite_names file_names = Inr D"
  shows "safeR (\<lambda>names. sorted names \<and> distinct names \<and> set names = inherited_names D selected) (lock_Resolve D selected)"
proof -
  note d = declarations_ok [OF D]
  consider (bad) "\<not> selected \<subseteq> ld_tests D" | (none) "selected \<subseteq> ld_tests D" "selected = {}"
    | (flat) "selected \<subseteq> ld_tests D" "selected \<noteq> {}" "ld_tree D = None"
    | (tree) T where "selected \<subseteq> ld_tests D" "selected \<noteq> {}" "ld_tree D = Some T" by (cases "ld_tree D") auto
  then show ?thesis
  proof cases
    case flat
    have "set (ld_file_names D @ names_of (ld_test_names D) selected) = inherited_names D selected"
      using flat by (auto simp: set_names_of inherited_names_def)
    then show ?thesis using flat remdups_sort [of "ld_file_names D @ names_of (ld_test_names D) selected"] by (simp add: lock_Resolve_def Let_def)
  next
    case tree
    then have T: "NativeSuiteTree suites memberships = Inr T" using d(4,5) by (auto split: if_splits)
    have "safeR (\<lambda>names. sorted names \<and> distinct names \<and> set names = inherited_names D selected)
        (bindR (Plan T selected) (\<lambda>routes. Inr (remdups_adj (sort ((ld_file_names D @ names_of (ld_test_names D) selected) @
           names_of (ld_suite_names D) (set (concat (map ro_ancestors routes))))))))"
    proof (rule wpR_bindI [OF Plan_ok [OF T]])
      fix routes assume plan: "Plan T selected = Inr routes"
      let ?names = "(ld_file_names D @ names_of (ld_test_names D) selected) @ names_of (ld_suite_names D) (set (concat (map ro_ancestors routes)))"
      have "set ?names = inherited_names D selected"
        unfolding set_append set_names_of plan_suites [OF T plan] inherited_names_def tree(3) using tree(2) by (auto; blast)
      then show "safeR (\<lambda>names. sorted names \<and> distinct names \<and> set names = inherited_names D selected) (Inr (remdups_adj (sort ?names)))"
        using remdups_sort [of ?names] by (simp del: set_append)
    qed
    then show ?thesis using tree by (simp add: lock_Resolve_def Let_def)
  qed (simp_all add: lock_Resolve_def lock_error_def inherited_names_def)
qed

section \<open>The locks accept the inherited names\<close>

lemma metadata_loop_locks:
  assumes "metadata_loop m names used = Inr used'" "\<forall>n \<in> set names. name_ok n" "unique \<union> set names \<subseteq> U" "finite U" "card U \<le> 4096"
  shows "lock_name_loop m' names used unique = Inr (used', unique \<union> set names)"
  using assms(1-3)
proof (induction names arbitrary: used unique)
  case (Cons n names)
  have c: "\<not> 8388608 - used < length n + 32" "metadata_loop m names (used + (length n + 32)) = Inr used'" using Cons.prems(1) by (auto simp: lock_error_def split: if_splits)
  have "card (insert n unique) \<le> card U" using Cons.prems(3) assms(4) by (intro card_mono) auto
  then have "\<not> 4096 < card (insert n unique)" using assms(5) by simp
  moreover have "lock_name_loop m' names (used + length n + 32) (insert n unique) = Inr (used', insert n unique \<union> set names)"
    using Cons.IH [of "used + (length n + 32)" "insert n unique"] c(2) Cons.prems(2,3) by (simp add: add.assoc)
  ultimately show ?case using c(1) Cons.prems(2) by (simp add: name_ok_def)
qed simp

lemma group_names_ok:
  assumes D: "ResourceLockDeclarations tests suites memberships test_names suite_names file_names = Inr D"
    and "group_names_loop m D groups references used = Inr names" "unique \<subseteq> declared_names D"
  shows "list_all2 (\<lambda>tests names. sorted names \<and> distinct names \<and> set names = inherited_names D (set tests)) groups names \<and>
    lock_group_loop m' names references used unique = Inr names"
  using assms(2,3)
proof (induction groups arbitrary: references used names unique)
  case (Cons group_tests groups)
  note d = declarations_ok [OF D]
  let ?U = "declared_names D"
  have fin: "finite ?U" by (simp add: declared_names_def)
  obtain r used' rest where r: "lock_Resolve D (set group_tests) = Inr r" "\<not> 65536 - references < length r" "metadata_loop (lm_name m) r used = Inr used'"
    "group_names_loop m D groups (references + length r) used' = Inr rest" "names = r # rest"
    using Cons.prems(1) by (auto simp: lock_error_def bindR_eq_Inr split: if_splits)
  have s: "sorted r" "distinct r" "set r = inherited_names D (set group_tests)" using wpR_InrD [OF lock_Resolve_ok [OF D] r(1)] by blast+
  have sub: "set r \<subseteq> ?U" using s(3) inherited_declared by simp
  have "card (set r) \<le> card ?U" using fin sub by (rule card_mono)
  then have len: "\<not> 4096 < length r" using d(1) distinct_card [OF s(2)] by simp
  have adj: "remdups_adj (sort r) = r" using s(1,2) by (simp add: sorted_sort_id remdups_adj_distinct)
  have loop: "lock_name_loop m' r used unique = Inr (used', unique \<union> set r)"
    using metadata_loop_locks [OF r(3) _ _ fin d(1)] sub d(2) Cons.prems(2) by blast
  have "unique \<union> set r \<subseteq> ?U" using sub Cons.prems(2) by blast
  from Cons.IH [OF r(4) this] show ?case using s r(2,5) len loop by (simp add: adj Let_def)
qed simp

text \<open>
  C30: The names computed for the work groups are, for each group in order and without duplicates, the names
  of the file, of its tests and of every suite around them, and none for an empty group. The locks of the
  work groups accept any names so computed: none of their checks of capacities and names can fail any more.
\<close>

theorem lock_names_inherited:
  assumes "ResourceLockDeclarations tests suites memberships test_names suite_names file_names = Inr D"
    and "WorkGroupLockNames groups D = Inr names"
  shows "length names = length (tw_groups groups) \<and>
    (\<forall>i < length names. sorted (names ! i) \<and> distinct (names ! i) \<and> set (names ! i) = inherited_names D (set (tg_tests (tw_groups groups ! i)))) \<and>
    Locks m (length (tw_groups groups)) names =
      Inr \<lparr>lk_names = names, lk_records = replicate (length (tw_groups groups)) None, lk_holders = Map.empty, lk_active = 0\<rparr>"
proof -
  have n: "list_all2 (\<lambda>tests names. sorted names \<and> distinct names \<and> set names = inherited_names D (set tests)) (map tg_tests (tw_groups groups)) names"
    "lock_group_loop m names 0 0 {} = Inr names"
    using group_names_ok [OF assms(1) assms(2) [unfolded WorkGroupLockNames_def], of "{}" m] by simp_all
  then show ?thesis by (auto simp: list_all2_conv_all_nth Locks_def)
qed

text \<open>A name of the file, one of a test and one of the inner suite of the example.\<close>

definition example_declarations :: lock_declarations where
  "example_declarations = \<lparr>ld_tests = {10, 20, 30}, ld_tree = Some example_tree, ld_test_names = [(10, [[1, 2]])],
     ld_suite_names = [(2, [[3, 4], [1, 2]])], ld_file_names = [[5, 6]]\<rparr>"

lemma example_single_plan:
  "\<exists>routes. Plan example_tree {10} = Inr routes \<and> map ro_ancestors routes = [[1]]"
  "\<exists>routes. Plan example_tree {20} = Inr routes \<and> map ro_ancestors routes = [[1, 2]]"
  "\<exists>routes. Plan example_tree {30} = Inr routes \<and> map ro_ancestors routes = [[1]]"
proof -
  have paths: "path_up 64 (tr_nodes example_tree) 1 = Inr [1]" "path_up 64 (tr_nodes example_tree) 2 = Inr [2, 1]" by code_simp+
  have nodes: "tr_nodes example_tree = example_nodes" and order: "tr_order example_tree = [10, 20, 30]"
    and tests: "tr_tests example_tree = map (\<lambda>d. (td_id d, d)) example_tests" by (simp_all add: example_tree_def)
  note defs = Plan_def order tests nodes example_tests_def example_nodes_def example_suites_def suite_Hooks_def charge_route_def Let_def
  show "\<exists>routes. Plan example_tree {10} = Inr routes \<and> map ro_ancestors routes = [[1]]" using paths by (simp add: defs)
  show "\<exists>routes. Plan example_tree {20} = Inr routes \<and> map ro_ancestors routes = [[1, 2]]" using paths by (simp add: defs)
  show "\<exists>routes. Plan example_tree {30} = Inr routes \<and> map ro_ancestors routes = [[1]]" using paths by (simp add: defs)
qed

lemma example_declarations_accepted:
  "ResourceLockDeclarations [30, 10, 20] example_suites example_tests [(10, [[1, 2]])] [(2, [[3, 4], [1, 2]])] [[5, 6]] = Inr example_declarations"
proof -
  have order: "tr_order example_tree = [10, 20, 30]" by (simp add: example_tree_def)
  have suites: "example_suites \<noteq> []" "suite_ids_loop example_suites {} = Inr {2, 1}" by (simp_all add: example_suites_def)
  have "declaration_tree [30, 10, 20] example_suites example_tests [(2, [[3, 4], [1, 2]])] = Inr (Some example_tree)"
    using suites(1) by (auto simp: declaration_tree_def example_tree order)
  then show ?thesis
    by (auto simp: ResourceLockDeclarations_def suites(2) check_names_def example_declarations_def card_insert_if)
qed

lemma example_group_names: "WorkGroupLockNames example_groups example_declarations = Inr [[[1, 2], [5, 6]], [[1, 2], [3, 4], [5, 6]], [[5, 6]]]"
proof -
  obtain r1 r2 r3 where r: "Plan example_tree {10} = Inr r1" "map ro_ancestors r1 = [[1]]" "Plan example_tree {20} = Inr r2" "map ro_ancestors r2 = [[1, 2]]"
    "Plan example_tree {30} = Inr r3" "map ro_ancestors r3 = [[1]]" using example_single_plan by (elim exE conjE) rule
  have "lock_Resolve example_declarations {10} = Inr [[1, 2], [5, 6]]"
    using r(1) by (simp add: lock_Resolve_def example_declarations_def names_of_def Let_def r(2) del: set_concat)
  moreover have "lock_Resolve example_declarations {20} = Inr [[1, 2], [3, 4], [5, 6]]"
    using r(3) by (simp add: lock_Resolve_def example_declarations_def names_of_def Let_def r(4) del: set_concat)
  moreover have "lock_Resolve example_declarations {30} = Inr [[5, 6]]"
    using r(5) by (simp add: lock_Resolve_def example_declarations_def names_of_def Let_def r(6) del: set_concat)
  ultimately show ?thesis by (simp add: WorkGroupLockNames_def example_groups_def)
qed

theorem lock_names_inherited_witness:
  "WorkGroupLockNames example_groups example_declarations = Inr [[[1, 2], [5, 6]], [[1, 2], [3, 4], [5, 6]], [[5, 6]]] \<and>
    inherited_names example_declarations {20} = {[1, 2], [3, 4], [5, 6]}"
proof -
  let ?names = "[[[1, 2], [5, 6]], [[1, 2], [3, 4], [5, 6]], [[5, 6]]] :: bytes list list"
  have "\<forall>i < length ?names. set (?names ! i) = inherited_names example_declarations (set (tg_tests (tw_groups example_groups ! i)))"
    using lock_names_inherited [OF example_declarations_accepted example_group_names] by blast
  then have "set (?names ! 1) = inherited_names example_declarations (set (tg_tests (tw_groups example_groups ! 1)))" by (elim allE [of _ 1]) simp
  then show ?thesis using example_group_names by (simp add: example_groups_def)
qed

end
