(* ===== verification/WorkLocks.thy ===== *)
theory WorkLocks
  imports WorkPool LockNames
begin

text \<open>
  \<open>work_group_locks.h\<close> and the composition of the work groups: the pool of \<open>work_group_pool.h\<close> is a provider of
  reservations, so the locks of the library theory serve it, with the names that the declarations give to each
  group. The properties of the pool and of its locks are stated over whole histories of both.
\<close>

section \<open>Reservations and receipts\<close>

definition work_tracks :: "work_pool \<Rightarrow> work_pool \<Rightarrow> bool" where
  "work_tracks p p' \<longleftrightarrow> (\<forall>a. (work_Reserved p a \<longrightarrow> work_Reserved p' a \<or> work_Retired p' a \<or> work_CanceledBeforeStart p' a) \<and>
     (work_Retired p a \<longrightarrow> work_Retired p' a) \<and> (work_CanceledBeforeStart p a \<longrightarrow> work_CanceledBeforeStart p' a))"

lemma work_Reserved_iff: "work_Reserved p a \<longleftrightarrow> (\<exists>x. map_of (wp_active p) (wa_generation a) = Some x \<and> wo_admission x = a)"
  by (auto simp: work_Reserved_def work_Find_Some)

lemma work_tracks_refl [simp]: "work_tracks p p"
  by (simp add: work_tracks_def)

lemma work_tracks_trans: "work_tracks p q \<Longrightarrow> work_tracks q r \<Longrightarrow> work_tracks p r"
  unfolding work_tracks_def by blast

lemma work_tracksI:
  "(\<And>a. work_Reserved p a \<Longrightarrow> work_Reserved p' a) \<Longrightarrow> wp_retired p' = wp_retired p \<Longrightarrow> wp_canceled p' = wp_canceled p \<Longrightarrow> work_tracks p p'"
  by (simp add: work_tracks_def work_Retired_def work_CanceledBeforeStart_def)

lemma work_tracks_same: "wp_active p' = wp_active p \<Longrightarrow> wp_retired p' = wp_retired p \<Longrightarrow> wp_canceled p' = wp_canceled p \<Longrightarrow> work_tracks p p'"
  by (rule work_tracksI) (simp_all add: work_Reserved_iff)

lemma work_tracks_update:
  assumes "map_of (wp_active p) k = Some x" "wo_admission y = wo_admission x" "wp_active p' = update_owner k y (wp_active p)"
    "wp_retired p' = wp_retired p" "wp_canceled p' = wp_canceled p"
  shows "work_tracks p p'"
  by (rule work_tracksI) (use assms in \<open>auto simp: work_Reserved_iff map_of_update_owner\<close>)

text \<open>An owner that leaves the pool leaves its receipt.\<close>

lemma work_tracks_remove:
  assumes inv: "work_rest p" and x: "map_of (wp_active p) k = Some x"
    and active: "map_of (wp_active p') = (map_of (wp_active p))(k := None)"
    and receipts: "wp_retired p' = (wp_retired p)[wa_index (wo_admission x) := Some (wo_admission x)] \<and> wp_canceled p' = wp_canceled p \<or>
      wp_retired p' = wp_retired p \<and> wp_canceled p' = (wp_canceled p)[wa_index (wo_admission x) := Some (wo_admission x)]"
  shows "work_tracks p p'"
proof -
  let ?a = "wo_admission x"
  note r = work_restD [OF inv]
  have o: "wa_index ?a < length (wp_states p)" "wp_states p ! wa_index ?a = PRunning" "wa_generation ?a = k"
    using work_ownersD(1) [OF r(1) x] by (simp_all add: work_owner_ok_def Let_def)
  have none: "wp_retired p ! wa_index ?a = None" "wp_canceled p ! wa_index ?a = None" using receipt_unsettled [OF r(5) [OF o(1)]] o(2) by simp_all
  have "work_Retired p' ?a \<or> work_CanceledBeforeStart p' ?a" using receipts o(1) r(3,4) by (auto simp: work_Retired_def work_CanceledBeforeStart_def)
  moreover have "a = ?a \<or> work_Reserved p' a" if "work_Reserved p a" for a
    using that x o(3) unfolding work_Reserved_iff active by (cases "wa_generation a = k") auto
  moreover have "work_Retired p' a" if "work_Retired p a" for a
    using that receipts none(1) by (cases "wa_index a = wa_index ?a") (auto simp: work_Retired_def)
  moreover have "work_CanceledBeforeStart p' a" if "work_CanceledBeforeStart p a" for a
    using that receipts none(2) by (cases "wa_index a = wa_index ?a") (auto simp: work_CanceledBeforeStart_def)
  ultimately show ?thesis unfolding work_tracks_def by blast
qed

lemma retired_pool_tracks:
  assumes "work_inv p" "map_of (wp_active p) k = Some x"
  shows "work_tracks p (retired_pool k x out pids p)"
  by (rule work_tracks_remove [OF work_invD(3) [OF assms(1)] assms(2)]) (simp_all add: retired_pool_def UpdateProject_def map_of_remove)

lemma cancel_owners_track:
  assumes "work_rest p" "distinct (map fst xs)" "\<forall>(k, x) \<in> set xs. map_of (wp_active p) k = Some x"
  shows "work_tracks p (foldl cancel_owner p xs)"
  using assms
proof (induction xs arbitrary: p)
  case (Cons e xs)
  obtain k x where e: "e = (k, x)" by fastforce
  let ?p = "cancel_owner p (k, x)"
  have x: "map_of (wp_active p) k = Some x" using Cons.prems(3) by (auto simp: e)
  note c = cancel_owner_rest [OF Cons.prems(1) x]
  have "work_tracks p ?p"
  proof (cases "wo_started x")
    case False
    then show ?thesis by (intro work_tracks_remove [OF Cons.prems(1) x]) (simp_all add: cancel_owner_def Let_def map_of_remove)
  qed (simp add: cancel_owner_def)
  moreover have "work_tracks ?p (foldl cancel_owner ?p xs)"
  proof (rule Cons.IH)
    show "\<forall>(l, y) \<in> set xs. map_of (wp_active ?p) l = Some y"
    proof (intro ballI, clarify)
      fix l y assume y: "(l, y) \<in> set xs"
      then have "l \<noteq> k" using Cons.prems(2) by (force simp: e)
      then show "map_of (wp_active ?p) l = Some y" using c Cons.prems(3) y by auto
    qed
  qed (use c Cons.prems(2) in simp_all)
  ultimately show ?case using work_tracks_trans [of p ?p] by (simp add: e)
qed simp

lemma stop_projects_same:
  "wp_active (foldl (stop_project reason) p qs) = wp_active p \<and> wp_retired (foldl (stop_project reason) p qs) = wp_retired p \<and>
   wp_canceled (foldl (stop_project reason) p qs) = wp_canceled p"
  by (induction qs arbitrary: p) (simp_all add: stop_project_def UpdateProject_def Let_def)

lemma work_Admit_tracks:
  assumes "work_owners g nd W states (wp_nonce p) (map_of (wp_active p))" "work_Admit i p = Inr (a, p')"
  shows "work_tracks p p'"
proof (rule work_tracksI)
  have none: "map_of (wp_active p) (wp_nonce p + 1) = None"
    using work_ownersD(1) [OF assms(1), of "wp_nonce p + 1"] by (cases "map_of (wp_active p) (wp_nonce p + 1)") (auto simp: work_owner_ok_def Let_def)
  then have fresh: "wp_nonce p + 1 \<notin> fst ` set (wp_active p)" by (simp add: map_of_eq_None_iff)
  show "work_Reserved p' b" if "work_Reserved p b" for b
    using that assms(2) none unfolding work_Reserved_iff
    by (auto simp: work_Admit_def Let_def bindR_eq_Inr map_of_append_fresh [OF fresh, simplified] split: if_splits)
qed (use assms(2) in \<open>auto simp: work_Admit_def Let_def bindR_eq_Inr split: if_splits\<close>)

lemma work_step_tracks:
  assumes inv: "work_inv p" and step: "work_step p e p'"
  shows "work_tracks p p'"
proof (cases e)
  case (WorkNext ready)
  obtain r where n: "work_Next ready p = Inr (r, p')" using step WorkNext by (auto simp: work_step_iff work_apply_def bindR_eq_Inr)
  show ?thesis
  proof (cases "wp_stopped p \<or> wp_limit p \<le> length (wp_active p)")
    case False
    obtain i projects states where c: "case i of None \<Rightarrow> r = None \<and> p' = p\<lparr>wp_projects := projects, wp_states := states\<rparr>
        | Some i \<Rightarrow> \<exists>a. r = Some a \<and> work_Admit i (p\<lparr>wp_projects := projects, wp_states := states\<rparr>) = Inr (a, p')"
      using work_Next_found [OF inv n False] by (elim exE conjE) rule
    let ?p = "p\<lparr>wp_projects := projects, wp_states := states\<rparr>"
    have same: "work_tracks p ?p" by (rule work_tracks_same) simp_all
    show ?thesis
    proof (cases i)
      case (Some j)
      then obtain a where "work_Admit j ?p = Inr (a, p')" using c by auto
      then have "work_tracks ?p p'" using work_Admit_tracks [of _ _ _ _ ?p] work_restD(1) [OF work_invD(3) [OF inv]] by simp
      then show ?thesis by (rule work_tracks_trans [OF same])
    qed (use c same in simp)
  next
    case True
    then show ?thesis using n by (auto simp: work_Next_def)
  qed
next
  case (WorkStarted a w pid)
  then obtain b where b: "work_WorkerStarted a w pid p = Inr (b, p')" using step by (auto simp: work_step_iff work_apply_def bindR_eq_Inr)
  show ?thesis
  proof (cases "p' = p")
    case False
    then obtain x where x: "map_of (wp_active p) (wa_generation a) = Some x"
      and p': "p' = p\<lparr>wp_active := update_owner (wa_generation a) (x\<lparr>wo_worker := Some \<lparr>pw_index = w, pw_pid = pid\<rparr>, wo_started := True\<rparr>) (wp_active p),
        wp_begun := (wp_begun p)[wa_project a := True], wp_highest_worker := w, wp_pids := insert pid (wp_pids p)\<rparr>"
      using b by (auto simp: work_WorkerStarted_def work_Find_Some split: option.splits if_splits)
    show ?thesis by (rule work_tracks_update [OF x]) (simp_all add: p')
  qed simp
next
  case (WorkExited a w pid)
  then obtain b where b: "work_WorkerExited a w pid p = Inr (b, p')" using step by (auto simp: work_step_iff work_apply_def bindR_eq_Inr)
  show ?thesis
  proof (cases "p' = p")
    case False
    then obtain x where x: "map_of (wp_active p) (wa_generation a) = Some x"
      and p': "p' = work_Retire (wa_generation a) (p\<lparr>wp_active := update_owner (wa_generation a) (x\<lparr>wo_worker := None\<rparr>) (wp_active p), wp_pids := wp_pids p - {pid}\<rparr>)"
      using b by (auto simp: work_WorkerExited_def work_Find_Some split: option.splits if_splits)
    have "p' = (case wo_outcome x of Some out \<Rightarrow> retired_pool (wa_generation a) x out (wp_pids p - {pid}) p
      | None \<Rightarrow> p\<lparr>wp_active := update_owner (wa_generation a) (x\<lparr>wo_worker := None\<rparr>) (wp_active p), wp_pids := wp_pids p - {pid}\<rparr>)"
      unfolding p' by (subst work_Retire_eq [OF x]) (simp_all split: option.splits)
    then show ?thesis using retired_pool_tracks [OF inv x] work_tracks_update [OF x, of "x\<lparr>wo_worker := None\<rparr>" p'] by (cases "wo_outcome x") simp_all
  qed simp
next
  case (WorkCompleted a out)
  then obtain b where b: "work_Complete a out p = Inr (b, p')" using step by (auto simp: work_step_iff work_apply_def bindR_eq_Inr)
  show ?thesis
  proof (cases "p' = p")
    case False
    then obtain x where x: "map_of (wp_active p) (wa_generation a) = Some x"
      and p': "p' = work_Retire (wa_generation a) (p\<lparr>wp_active := update_owner (wa_generation a) (x\<lparr>wo_outcome := Some out\<rparr>) (wp_active p)\<rparr>)"
      using b by (auto simp: work_Complete_def work_Find_Some split: option.splits if_splits)
    have "p' = (case wo_worker x of None \<Rightarrow> retired_pool (wa_generation a) x out (wp_pids p) p
      | Some _ \<Rightarrow> p\<lparr>wp_active := update_owner (wa_generation a) (x\<lparr>wo_outcome := Some out\<rparr>) (wp_active p)\<rparr>)"
      using work_Retire_eq [OF x, of "x\<lparr>wo_outcome := Some out\<rparr>" "wp_pids p"] unfolding p' by (simp split: option.splits)
    then show ?thesis using retired_pool_tracks [OF inv x] work_tracks_update [OF x, of "x\<lparr>wo_outcome := Some out\<rparr>" p'] by (cases "wo_worker x") simp_all
  qed simp
next
  case (WorkStop reason)
  show ?thesis
  proof (cases "wp_stopped p")
    case False
    let ?p = "p\<lparr>wp_stopped := True\<rparr>"
    let ?c = "foldl cancel_owner ?p (wp_active p)"
    have "work_rest ?p" using work_invD(3) [OF inv] by (simp add: work_rest_def)
    moreover have "\<forall>(k, x) \<in> set (wp_active p). map_of (wp_active ?p) k = Some x" using work_restD(6) [OF work_invD(3) [OF inv]] by auto
    ultimately have "work_tracks ?p ?c" using cancel_owners_track work_restD(6) [OF work_invD(3) [OF inv]] by blast
    moreover have "work_tracks p ?p" by (rule work_tracks_same) simp_all
    moreover have "work_tracks ?c p'"
      using step WorkStop False stop_projects_same by (intro work_tracks_same) (auto simp: work_step_iff work_apply_def work_Stop_def Let_def split: if_splits)
    ultimately show ?thesis using work_tracks_trans by blast
  next
    case True
    then show ?thesis using step WorkStop by (auto simp: work_step_iff work_apply_def work_Stop_def split: if_splits)
  qed
qed

lemma work_exclusive: "work_inv p \<Longrightarrow> work_Reserved p a \<Longrightarrow> \<not> work_Retired p a \<and> \<not> work_CanceledBeforeStart p a"
proof -
  assume inv: "work_inv p" and "work_Reserved p a"
  then obtain x where x: "map_of (wp_active p) (wa_generation a) = Some x" "wo_admission x = a" by (auto simp: work_Reserved_iff)
  note o = work_owner_lookup [OF inv x(1)]
  show ?thesis
    using receipt_unsettled [OF work_restD(5) [OF work_invD(3) [OF inv] o(1)]] o(2) x(2) by (simp add: work_Retired_def work_CanceledBeforeStart_def)
qed

lemma work_before_start: "work_ReservedBeforeStart p a \<Longrightarrow> work_Reserved p a"
  by (auto simp: work_ReservedBeforeStart_def work_Reserved_def split: option.splits)

interpretation work_locks: reservations work_step work_inv wa_index work_ReservedBeforeStart work_Reserved work_Retired work_CanceledBeforeStart
proof unfold_locales
  show "work_Reserved p' a \<or> work_Retired p' a \<or> work_CanceledBeforeStart p' a" if "work_inv p" "work_step p e p'" "work_Reserved p a" for p e p' a
    using work_step_tracks [OF that(1,2)] that(3) by (auto simp: work_tracks_def)
  show "work_Retired p' a" if "work_inv p" "work_step p e p'" "work_Retired p a" for p e p' a
    using work_step_tracks [OF that(1,2)] that(3) by (auto simp: work_tracks_def)
  show "work_CanceledBeforeStart p' a" if "work_inv p" "work_step p e p'" "work_CanceledBeforeStart p a" for p e p' a
    using work_step_tracks [OF that(1,2)] that(3) by (auto simp: work_tracks_def)
qed (use work_before_start work_exclusive in auto)

definition work_lock_messages :: lock_messages where
  "work_lock_messages =
     \<lparr>lm_membership = ''Native group-lock plan membership mismatch'',
      lm_references = ''Native group-lock reference capacity exceeded'',
      lm_name = ''Native group-lock name/metadata capacity exceeded'',
      lm_namespace = ''Native group-lock namespace capacity4096 exceeded'',
      lm_staging = ''Native atomic group-lock admission changed during staging'',
      lm_lost = ''Native group-lock retirement lost exact group/project owner''\<rparr>"

definition WorkGroupLocks :: "work_pool \<Rightarrow> bytes list list \<Rightarrow> work_admission locks result" where
  "WorkGroupLocks p names = Locks work_lock_messages (length (tw_groups (wp_groups p))) names"

definition work_CanAcquire :: "work_admission locks \<Rightarrow> nat \<Rightarrow> bool" where
  "work_CanAcquire = CanAcquire"

definition work_Acquire :: "work_pool \<Rightarrow> work_admission \<Rightarrow> work_admission locks \<Rightarrow> (bool \<times> work_admission locks) result" where
  "work_Acquire p = Acquire work_lock_messages wa_index (work_ReservedBeforeStart p)"

definition work_Release :: "work_pool \<Rightarrow> work_admission \<Rightarrow> work_admission locks \<Rightarrow> (bool \<times> work_admission locks) result" where
  "work_Release p = Release work_lock_messages wa_index (work_Retired p) (work_CanceledBeforeStart p)"

abbreviation work_system :: "work_pool \<times> work_admission locks \<Rightarrow> (work_call, work_admission) lock_call \<Rightarrow> work_pool \<times> work_admission locks \<Rightarrow> bool" where
  "work_system \<equiv> locked work_step work_lock_messages wa_index work_ReservedBeforeStart work_Retired work_CanceledBeforeStart"

text \<open>No call of a history changes the names.\<close>

lemma system_names:
  assumes "trace (locked step m index before retired canceled) (s, L) calls (s', L')"
  shows "lk_names L' = lk_names L"
proof -
  have step: "lk_names (snd y) = lk_names (snd x)" if "locked step m index before retired canceled x e y" for x e y
    using that
  proof (cases rule: locked.cases)
    case (locked_acquire s a L r L')
    then show ?thesis by (auto simp: Acquire_def bindR_eq_Inr split: if_splits)
  next
    case (locked_release s a L r L')
    then show ?thesis by (auto simp: Release_def bindR_eq_Inr split: if_splits)
  qed simp
  have "trace (locked step m index before retired canceled) x calls y \<Longrightarrow> lk_names (snd y) = lk_names (snd x)" for x y
    by (induction rule: trace.induct) (simp_all add: step)
  from this [OF assms] show ?thesis by simp
qed

lemma work_system_ok:
  assumes "work_inv p" "WorkGroupLocks p names = Inr L" "trace work_system (p, L) calls (p', L')"
  shows "work_locks.system_ok (p', L')"
proof -
  have "locks_ok wa_index L" "lk_records L = replicate (length (tw_groups (wp_groups p))) None"
    using Locks_ok [of work_lock_messages _ names L] assms(2) by (simp_all add: WorkGroupLocks_def)
  then have "work_locks.system_ok (p, L)" using assms(1) by (simp add: work_locks.system_ok_def work_locks.covered_def)
  then show ?thesis using work_locks.system.trace_inv [OF assms(3)] by simp
qed

section \<open>Progress\<close>

text \<open>When nothing is running and no group can be admitted, no group is pending.\<close>

lemma work_idle_settled:
  assumes core: "work_core g nd W projects states begun" and post: "work_search_post g nd W (\<lambda>_. True) None projects states" and idle: "PRunning \<notin> set states"
  shows "PPending \<notin> set states"
proof -
  note c = work_coreD [OF core]
  have running: "states ! i \<noteq> PRunning" if "i < length states" for i using that idle nth_mem by fastforce
  have waiting: "if plan_teardown g nd (project_of W i) then \<exists>q < length projects. \<not> plan_teardown g nd q \<and> unsettled (projects ! q)
      else waits g nd projects (project_of W i)" if "i < length states" "states ! i = PPending" for i
    using post that by (simp add: work_search_post_def)
  let ?S = "{q. q < length projects \<and> \<not> plan_teardown g nd q \<and> unsettled (projects ! q)}"
  have none: "?S = {}"
  proof (rule ccontr)
    assume "?S \<noteq> {}"
    moreover have "?S \<subseteq> {..<length (pg_declarations g)}" using c(3) by auto
    ultimately obtain q where q: "q < length projects" "\<not> plan_teardown g nd q" "unsettled (projects ! q)" "\<forall>d \<in> set (pg_dependencies g ! q). d \<notin> ?S"
      using minimal_dependency [OF c(1), of ?S] by blast
    obtain i where i: "i \<in> set (tw_by_project W ! q)" "states ! i \<in> {PPending, PRunning}" using q(3) unfolding work_unsettled(1) [OF core q(1)] by blast
    have m: "i < length states" "project_of W i = q" using plan_member(2) [OF c(9) q(1) i(1)] c(5) by simp_all
    then have "waits g nd projects q" using waiting [OF m(1)] running [OF m(1)] i(2) q(2) by simp
    then obtain d where d: "d \<in> set (pg_dependencies g ! q)" "unsettled (projects ! d)" by (auto simp: waits_def)
    have "d < length projects" "\<not> IsTeardown g d" using wf_dependency [OF c(1) _ d(1)] wf_not_teardown [OF c(1) _ d(1)] q(1) c(3) by simp_all
    then show False using q(4) d by (auto simp: plan_teardown_def)
  qed
  show ?thesis
  proof
    assume "PPending \<in> set states"
    then obtain i where i: "i < length states" "states ! i = PPending" unfolding in_set_conv_nth by blast
    have u: "unsettled (projects ! project_of W i)" "project_of W i < length projects" using pending_unsettled [OF core i(1)] i(2) by simp_all
    show False
    proof (cases "plan_teardown g nd (project_of W i)")
      case True
      then show False using waiting [OF i] none by auto
    next
      case False
      then have "project_of W i \<in> ?S" using u by simp
      then show False unfolding none by simp
    qed
  qed
qed

lemma work_passed:
  assumes "work_core g nd W projects states begun" "q < length projects" "pr_state (projects ! q) = PPassed" "i \<in> set (tw_by_project W ! q)"
  shows "states ! i = PPassed"
proof -
  note c = work_coreD [OF assms(1)]
  have i: "i < length states" using plan_member(2) [OF c(9) assms(2,4)] c(5) by simp
  have "states ! i \<noteq> PNotSelected" using nth_mem [OF i] c(7) by auto
  moreover have "states ! i \<noteq> PBlocked \<and> groups_state states (begun ! q) (tw_by_project W ! q) = PPassed"
    using c(6) [OF assms(2)] assms(3,4) by (auto simp: work_project_ok_def split: if_splits)
  ultimately show ?thesis using groups_state_passed assms(4) by blast
qed

lemma work_card_workers:
  assumes "work_rest p"
  shows "card (wp_pids p) \<le> length (wp_active p)"
proof -
  let ?m = "map_of (wp_active p)"
  have sub: "ran (work_works ?m) \<subseteq> (\<lambda>x. the (wo_worker x)) ` snd ` set (wp_active p)"
    by (force simp: ran_def work_works_def split: option.splits dest: map_of_SomeD)
  then have fin: "finite (ran (work_works ?m))" by (rule finite_subset) simp
  have "card (ran (work_works ?m)) \<le> length (wp_active p)"
    using sub by (meson card_image_le card_length card_mono finite_imageI finite_set le_trans list.set_map)
  then show ?thesis using work_restD(2) [OF assms] card_image_le [OF fin, of pw_pid] by (simp add: workers_ok_def)
qed

section \<open>Properties\<close>


text \<open>
  C24: the pool of work groups does not get stuck. \<open>Next\<close> never throws in a history: its own consistency check
  cannot fail and the generations cannot run out. When nothing is active and the pool is not stopped,
  \<open>Next\<close> without a further test admits a group or finds that the run is done.
\<close>

theorem work_pool_not_stuck:
  assumes "ProjectGraph ds = Inr g" "TestWorkGroups tests suites members modes selected selected_tests fully_parallel = Inr W"
    "WorkGroupPool g selected nd W limit = Inr p" "trace work_step p calls p'"
  shows "(\<exists>r p''. work_Next ready p' = Inr (r, p'')) \<and>
    (wp_active p' = [] \<longrightarrow> \<not> wp_stopped p' \<longrightarrow> (\<exists>r p''. work_Next (\<lambda>_. True) p' = Inr (r, p'') \<and> (r \<noteq> None \<or> work_Done p'')))"
proof (intro conjI impI)
  note r = reachable_work [OF assms]
  show "\<exists>r p''. work_Next ready p' = Inr (r, p'')" using work_Next_ok [OF r(1), of ready] by blast
  assume idle: "wp_active p' = []" "\<not> wp_stopped p'"
  obtain x p'' where n: "work_Next (\<lambda>_. True) p' = Inr (x, p'')" "work_inv p''" using work_Next_ok [OF r(1), of "\<lambda>_. True"] by blast
  have "\<not> (wp_stopped p' \<or> wp_limit p' \<le> length (wp_active p'))" using idle r(5,7) by simp
  from work_Next_found [OF r(1) n(1) this] obtain i projects states where s: "keeps (wp_states p') states"
    "work_core (wp_graph p') (wp_no_dependencies p') (wp_groups p') projects states (wp_begun p')"
    "work_search_post (wp_graph p') (wp_no_dependencies p') (wp_groups p') (\<lambda>_. True) i projects states"
    "case i of None \<Rightarrow> x = None \<and> p'' = p'\<lparr>wp_projects := projects, wp_states := states\<rparr>
     | Some i \<Rightarrow> \<exists>a. x = Some a \<and> work_Admit i (p'\<lparr>wp_projects := projects, wp_states := states\<rparr>) = Inr (a, p'')" by (elim exE conjE) rule
  show "\<exists>r p''. work_Next (\<lambda>_. True) p' = Inr (r, p'') \<and> (r \<noteq> None \<or> work_Done p'')"
  proof (cases i)
    case (Some j)
    then show ?thesis using n(1) s(4) by auto
  next
    case None
    have "wp_states p' ! j \<noteq> PRunning" if "j < length (wp_states p')" for j
      using work_ownersD(3) [OF work_restD(1) [OF work_invD(3) [OF r(1)]] that] idle(1) by auto
    then have running: "PRunning \<notin> set states" using s(1) by (auto simp: keeps_def in_set_conv_nth)
    then have "PPending \<notin> set states" using work_idle_settled [OF s(2)] s(3) None by simp
    then have "work_Done p''" using s(4) None idle(1) running by (auto simp: work_Done_def list_all_iff)
    then show ?thesis using n(1) by blast
  qed
qed

text \<open>
  C25: the locks of work groups are those the declarations ask for. Names computed from accepted declarations
  are always accepted by the locks. In every history of the pool and its locks, two groups that hold locks at
  the same time inherit no common name, at most eight hold locks, and taking or giving back never throws. A
  group keeps its locks while it is reserved, and they can be given back as soon as its worker has
  retired or it was canceled before the start.
\<close>

theorem work_locks_exclusive:
  assumes "ProjectGraph ds = Inr g" "TestWorkGroups tests suites members modes selected selected_tests fully_parallel = Inr W"
    "WorkGroupPool g selected nd W limit = Inr p"
    "ResourceLockDeclarations lock_tests lock_suites memberships test_names suite_names file_names = Inr D" "WorkGroupLockNames W D = Inr names"
  shows "\<exists>L. WorkGroupLocks p names = Inr L \<and> (\<forall>calls p' L'. trace work_system (p, L) calls (p', L') \<longrightarrow>
    (\<forall>i j a b. holding L' i a \<longrightarrow> holding L' j b \<longrightarrow> i \<noteq> j \<longrightarrow>
       inherited_names D (set (tg_tests (tw_groups W ! i))) \<inter> inherited_names D (set (tg_tests (tw_groups W ! j))) = {}) \<and>
    lk_active L' = card {i. \<exists>a. holding L' i a} \<and> lk_active L' \<le> 8 \<and>
    (\<forall>a. \<exists>r L''. work_Acquire p' a L' = Inr (r, L'')) \<and> (\<forall>a. \<exists>r L''. work_Release p' a L' = Inr (r, L'')) \<and>
    (\<forall>i a. holding L' i a \<longrightarrow> (work_Reserved p' a \<longrightarrow> work_Release p' a L' = Inr (False, L')) \<and>
       (\<not> work_Reserved p' a \<longrightarrow> (\<exists>L''. work_Release p' a L' = Inr (True, L'') \<and> (\<forall>n \<in> set (lk_names L' ! i). lk_holders L'' n = None)))))"
proof -
  note r = reachable_work [OF assms(1-3) trace_Nil]
  have n: "list_all2 (\<lambda>tests names. sorted names \<and> distinct names \<and> set names = inherited_names D (set tests)) (map tg_tests (tw_groups W)) names"
    "lock_group_loop work_lock_messages names 0 0 {} = Inr names"
    using group_names_ok [OF assms(4) assms(5) [unfolded WorkGroupLockNames_def], of "{}"] by simp_all
  have len: "length names = length (tw_groups W)" using list_all2_lengthD [OF n(1)] by simp
  have inh: "set (names ! i) = inherited_names D (set (tg_tests (tw_groups W ! i)))" if "i < length names" for i
    using list_all2_nthD2 [OF n(1) that] that len by simp
  obtain L where L: "WorkGroupLocks p names = Inr L" "lk_names L = names" using n(2) len r(3) by (simp add: WorkGroupLocks_def Locks_def)
  show ?thesis
  proof (rule exI [of _ L], intro conjI allI impI L(1))
    fix calls p' L' assume t: "trace work_system (p, L) calls (p', L')"
    have sys: "work_locks.system_ok (p', L')" by (rule work_system_ok [OF r(1) L(1) t])
    then have ok: "locks_ok wa_index L'" by (simp add: work_locks.system_ok_def)
    note lk = locks_okD [OF ok]
    have names: "lk_names L' = names" using system_names [OF t] L(2) by simp
    show "lk_active L' = card {i. \<exists>a. holding L' i a}" "lk_active L' \<le> 8" using lk(5,6) by blast+
    show "\<exists>r L''. work_Acquire p' a L' = Inr (r, L'')" "\<exists>r L''. work_Release p' a L' = Inr (r, L'')" for a
      using locks_total [OF ok] unfolding work_Acquire_def work_Release_def by blast+
    have at: "i < length names" if "holding L' i a" for i a using that lk(1) names by (simp add: holding_def)
    show "inherited_names D (set (tg_tests (tw_groups W ! i))) \<inter> inherited_names D (set (tg_tests (tw_groups W ! j))) = {}"
      if "holding L' i a" "holding L' j b" "i \<noteq> j" for i j a b
      using holders_disjoint [OF ok that] inh [OF at [OF that(1)]] inh [OF at [OF that(2)]] names by simp
    fix i a assume h: "holding L' i a"
    show "work_Release p' a L' = Inr (False, L')" if "work_Reserved p' a"
      using work_locks.not_released_while_reserved [OF sys that] unfolding work_Release_def .
    show "\<exists>L''. work_Release p' a L' = Inr (True, L'') \<and> (\<forall>n \<in> set (lk_names L' ! i). lk_holders L'' n = None)" if "\<not> work_Reserved p' a"
      using work_locks.released_on_receipt [OF sys, of a work_lock_messages] work_locks.holder_covered [OF sys h] lk(3) [OF h] that h unfolding work_Release_def by simp
  qed
qed

section \<open>A run of the example\<close>

text \<open>One test for each project of the example graph; the tests of the first two need the same lock.\<close>

definition example_work_tests :: "group_test list" where
  "example_work_tests = [\<lparr>wt_id = 10, wt_project = 0\<rparr>, \<lparr>wt_id = 20, wt_project = 1\<rparr>, \<lparr>wt_id = 30, wt_project = 2\<rparr>]"

definition example_work_groups :: test_groups where
  "example_work_groups = \<lparr>tw_groups = [\<lparr>tg_project = 0, tg_mode = MDefault, tg_suite = 0, tg_tests = [10]\<rparr>,
     \<lparr>tg_project = 1, tg_mode = MDefault, tg_suite = 0, tg_tests = [20]\<rparr>, \<lparr>tg_project = 2, tg_mode = MDefault, tg_suite = 0, tg_tests = [30]\<rparr>],
     tw_by_project = [[0], [1], [2]]\<rparr>"

definition example_work_pool :: work_pool where
  "example_work_pool = \<lparr>wp_graph = example_graph, wp_groups = example_work_groups, wp_projects = selected_results [True, True, True],
     wp_states = [PPending, PPending, PPending], wp_begun = [False, False, False], wp_retired = [None, None, None], wp_canceled = [None, None, None],
     wp_active = [], wp_pids = {}, wp_highest_worker = 0, wp_limit = 2, wp_nonce = 0, wp_no_dependencies = False, wp_stopped = False\<rparr>"

lemma example_work_accepted:
  "TestWorkGroups example_work_tests [] [] [] [True, True, True] [[10], [20], [30]] [False, False, False] = Inr example_work_groups"
proof -
  have "[0..<3] = [0, 1, 2 :: nat]" by (simp add: numeral_3_eq_3)
  then show ?thesis
    by (simp add: TestWorkGroups_def NativeTestGroupTree_def example_work_tests_def tree_Resolve_def group_key_def test_mode_def example_work_groups_def Let_def)
qed

lemma example_work_start: "WorkGroupPool example_graph [True, True, True] False example_work_groups 2 = Inr example_work_pool"
proof -
  have "Closure example_graph [True, True, True] False = Inr [True, True, True]"
    using example_pool [of 1] by (auto simp: ProjectPool_def example_fields Let_def bindR_eq_Inr split: if_splits)
  then show ?thesis by (simp add: WorkGroupPool_def example_fields example_work_groups_def example_work_pool_def numeral_3_eq_3 Let_def)
qed

definition example_work_owner :: work_admission where
  "example_work_owner = \<lparr>wa_index = 1, wa_project = 1, wa_generation = 1, wa_teardown = False\<rparr>"

definition example_work_run :: "work_call list" where
  "example_work_run = [WorkNext (\<lambda>_. True), WorkStarted example_work_owner 1 100, WorkCompleted example_work_owner XPassed,
     WorkExited example_work_owner 1 100, WorkNext (\<lambda>_. True)]"

lemmas work_eval = work_apply_def work_Next_def work_Admit_def work_WorkerStarted_def work_Complete_def work_WorkerExited_def work_Find_def
  work_Retire_def update_owner_def UpdateProject_def groups_state_def work_search.simps [of example_graph] plan_teardown_def IsTeardown_def
  dependency_state_def Dependencies_def atR_def unsettled_def Let_def

lemma example_work_history:
  "\<exists>p. run_calls work_apply example_work_run example_work_pool = Inr p \<and> wp_states p = [PRunning, PPassed, PPending]"
  by (simp add: example_work_run_def example_work_pool_def example_work_groups_def example_work_owner_def selected_results_def fresh_result_def work_eval
      example_fields example_teardowns upt_rec u64_max_def)

lemma work_trace: "run_calls work_apply es p = Inr p' \<Longrightarrow> trace work_step p es p'"
  by (rule trace_run_calls) (auto simp: work_step_iff)


theorem work_pool_not_stuck_witness:
  "\<exists>r p. work_Next (\<lambda>_. True) example_work_pool = Inr (r, p) \<and> (r \<noteq> None \<or> work_Done p)"
proof -
  have "wp_active example_work_pool = []" "\<not> wp_stopped example_work_pool" by (simp_all add: example_work_pool_def)
  then show ?thesis using work_pool_not_stuck [OF example_graph example_work_accepted example_work_start trace_Nil] by blast
qed

definition example_work_locks :: lock_declarations where
  "example_work_locks = \<lparr>ld_tests = {10, 20, 30}, ld_tree = None, ld_test_names = [(10, [[97, 0]]), (20, [[97, 0]])],
     ld_suite_names = [], ld_file_names = []\<rparr>"

lemma example_work_names:
  "ResourceLockDeclarations [10, 20, 30] [] [] [(10, [[97, 0]]), (20, [[97, 0]])] [] [] = Inr example_work_locks"
  "WorkGroupLockNames example_work_groups example_work_locks = Inr [[[97, 0]], [[97, 0]], []]"
  by (simp_all add: ResourceLockDeclarations_def declaration_tree_def check_names_def example_work_locks_def
      WorkGroupLockNames_def example_work_groups_def lock_Resolve_def names_of_def Let_def)

theorem work_locks_exclusive_witness:
  "\<exists>L. WorkGroupLocks example_work_pool [[[97, 0]], [[97, 0]], []] = Inr L \<and>
    (\<forall>a. \<exists>r L'. work_Acquire example_work_pool a L = Inr (r, L')) \<and>
    (\<forall>calls p' L'. trace work_system (example_work_pool, L) calls (p', L') \<longrightarrow> (\<forall>a b. \<not> (holding L' 0 a \<and> holding L' 1 b)))"
proof -
  let ?i = "\<lambda>i. inherited_names example_work_locks (set (tg_tests (tw_groups example_work_groups ! i)))"
  have shared: "[97, 0] \<in> ?i 0 \<inter> ?i 1" by (simp add: inherited_names_def example_work_locks_def example_work_groups_def)
  show ?thesis
    using work_locks_exclusive [OF example_graph example_work_accepted example_work_start example_work_names]
  proof (elim exE conjE, intro exI conjI)
    fix L assume L: "WorkGroupLocks example_work_pool [[[97, 0]], [[97, 0]], []] = Inr L"
      and every: "\<forall>calls p' L'. trace work_system (example_work_pool, L) calls (p', L') \<longrightarrow>
        (\<forall>i j a b. holding L' i a \<longrightarrow> holding L' j b \<longrightarrow> i \<noteq> j \<longrightarrow> ?i i \<inter> ?i j = {}) \<and>
        lk_active L' = card {i. \<exists>a. holding L' i a} \<and> lk_active L' \<le> 8 \<and>
        (\<forall>a. \<exists>r L''. work_Acquire p' a L' = Inr (r, L'')) \<and> (\<forall>a. \<exists>r L''. work_Release p' a L' = Inr (r, L'')) \<and>
        (\<forall>i a. holding L' i a \<longrightarrow> (work_Reserved p' a \<longrightarrow> work_Release p' a L' = Inr (False, L')) \<and>
          (\<not> work_Reserved p' a \<longrightarrow> (\<exists>L''. work_Release p' a L' = Inr (True, L'') \<and> (\<forall>n \<in> set (lk_names L' ! i). lk_holders L'' n = None))))"
    show "WorkGroupLocks example_work_pool [[[97, 0]], [[97, 0]], []] = Inr L" by (rule L)
    show "\<forall>a. \<exists>r L'. work_Acquire example_work_pool a L = Inr (r, L')"
      by (rule every [rule_format, OF trace_Nil, THEN conjunct2, THEN conjunct2, THEN conjunct2, THEN conjunct1])
    show "\<forall>calls p' L'. trace work_system (example_work_pool, L) calls (p', L') \<longrightarrow> (\<forall>a b. \<not> (holding L' 0 a \<and> holding L' 1 b))"
    proof (intro allI impI notI, elim conjE)
      fix calls p' L' a b assume t: "trace work_system (example_work_pool, L) calls (p', L')" "holding L' 0 a" "holding L' 1 b"
      have "?i 0 \<inter> ?i 1 = {}" using every [rule_format, OF t(1), THEN conjunct1, rule_format, OF t(2,3)] by simp
      with shared show False by (simp only: empty_iff)
    qed
  qed
qed

end
