(* ===== verification/SuiteModifiers.thy ===== *)
theory SuiteModifiers
  imports SuiteTree
begin

text \<open>
  \<open>NativeSuiteTree::ResolveModifiers\<close> of \<open>suite_tree.h\<close>: which tests a focus selects and why tests are skipped,
  from the modifiers of suites and tests. The recursions over the tree carry the depth bound of the
  constructor (64) as fuel; for an accepted tree it is never used up. The reference definition \<open>kept\<close> says
  what the two passes compute.
\<close>

section \<open>The two passes\<close>

record selection_modifiers =
  se_has_focus :: bool
  se_focused :: "nat list"
  se_skipped :: "(nat \<times> string) list"

type_synonym modifier_map = "(nat \<times> suite_modifiers) list"

fun foldR :: "('a \<Rightarrow> 's \<Rightarrow> 'e + 's) \<Rightarrow> 'a list \<Rightarrow> 's \<Rightarrow> 'e + 's" where
  "foldR f [] s = Inr s"
| "foldR f (x # xs) s = bindR (f x s) (foldR f xs)"

definition modifier_skip :: "modifier_map \<Rightarrow> nat \<Rightarrow> string option" where
  "modifier_skip modifiers suite = (case map_of modifiers suite of None \<Rightarrow> None | Some m \<Rightarrow> sm_skip m)"

text \<open>The walk from the suite of a test to the nearest suite that gives a reason.\<close>

fun skip_walk :: "nat \<Rightarrow> suite_nodes \<Rightarrow> modifier_map \<Rightarrow> nat \<Rightarrow> string option result" where
  "skip_walk fuel nodes modifiers suite =
     (if suite = 0 then Inr None
      else case fuel of
             0 \<Rightarrow> Inl Out_of_fuel
           | Suc fuel \<Rightarrow>
               (case modifier_skip modifiers suite of
                  Some reason \<Rightarrow> Inr (Some reason)
                | None \<Rightarrow> (case map_of nodes suite of None \<Rightarrow> Inl Out_of_range | Some node \<Rightarrow> skip_walk fuel nodes modifiers (sd_parent node))))"

declare skip_walk.simps [simp del]

definition skip_test :: "suite_nodes \<Rightarrow> modifier_map \<Rightarrow> nat \<times> suite_test \<Rightarrow> (nat \<times> string) list \<Rightarrow> (nat \<times> string) list result" where
  "skip_test nodes modifiers entry skipped =
     (if map_of skipped (fst entry) \<noteq> None then Inr skipped
      else bindR (skip_walk 64 nodes modifiers (td_suite (snd entry))) (\<lambda>reason.
        Inr (case reason of None \<Rightarrow> skipped | Some reason \<Rightarrow> insort_key fst (fst entry, reason) skipped)))"

definition only_suite :: "modifier_map \<Rightarrow> nat \<Rightarrow> bool" where
  "only_suite modifiers suite = (case map_of modifiers suite of None \<Rightarrow> False | Some m \<Rightarrow> sm_only m)"

fun inspect :: "nat \<Rightarrow> (nat \<Rightarrow> suite_child list) \<Rightarrow> (nat \<Rightarrow> bool) \<Rightarrow> nat set \<Rightarrow> nat \<Rightarrow> (nat \<rightharpoonup> bool) \<Rightarrow> (bool \<times> (nat \<rightharpoonup> bool)) result" where
  "inspect 0 children only focused suite contains_focus = Inl Out_of_fuel"
| "inspect (Suc fuel) children only focused suite contains_focus =
     bindR (foldR (\<lambda>child (found, contains_focus).
         if ch_suite child
         then bindR (inspect fuel children only focused (ch_id child) contains_focus) (\<lambda>(nested, contains_focus). Inr (found \<or> nested, contains_focus))
         else Inr (found \<or> ch_id child \<in> focused, contains_focus))
       (children suite) (only suite, contains_focus))
     (\<lambda>(found, contains_focus). Inr (found, if contains_focus suite = None then contains_focus(suite \<mapsto> found) else contains_focus))"

definition child_focus :: "(nat \<rightharpoonup> bool) \<Rightarrow> nat set \<Rightarrow> suite_child \<Rightarrow> bool result" where
  "child_focus contains_focus focused child =
     (if ch_suite child then (case contains_focus (ch_id child) of None \<Rightarrow> Inl Out_of_range | Some b \<Rightarrow> Inr b) else Inr (ch_id child \<in> focused))"

fun collect :: "nat \<Rightarrow> (nat \<Rightarrow> suite_child list) \<Rightarrow> (nat \<Rightarrow> bool) \<Rightarrow> nat set \<Rightarrow> (nat \<rightharpoonup> bool) \<Rightarrow> nat \<Rightarrow> bool \<Rightarrow> nat list result" where
  "collect 0 children only focused contains_focus suite inherited = Inl Out_of_fuel"
| "collect (Suc fuel) children only focused contains_focus suite inherited =
     bindR (mapR (child_focus contains_focus focused) (children suite)) (\<lambda>flags.
     let descendant_focus = True \<in> set flags
     in bindR (mapR (\<lambda>(child, flag).
          if \<not> (if descendant_focus then flag else inherited \<or> only suite) then Inr []
          else if ch_suite child then collect fuel children only focused contains_focus (ch_id child) (inherited \<or> only suite)
          else Inr [ch_id child]) (zip (children suite) flags)) (\<lambda>parts. Inr (concat parts)))"

definition ResolveModifiers :: "suite_tree \<Rightarrow> modifier_map \<Rightarrow> nat set \<Rightarrow> (nat \<times> string) list \<Rightarrow> selection_modifiers result" where
  "ResolveModifiers tree modifiers focused skipped =
     (if list_ex (\<lambda>(n, _). map_of (tr_nodes tree) n = None) modifiers then suite_error ''Unknown native suite modifier owner''
      else if \<not> focused \<subseteq> fst ` set (tr_tests tree) then suite_error ''Unknown focused native suite test''
      else if list_ex (\<lambda>(n, _). map_of (tr_tests tree) n = None) skipped then suite_error ''Unknown skipped native suite test''
      else bindR (foldR (skip_test (tr_nodes tree) modifiers) (tr_tests tree) skipped) (\<lambda>skipped.
        let only = only_suite modifiers
        in bindR (inspect 64 (tr_children tree) only focused (tr_root tree) Map.empty) (\<lambda>(has_focus, contains_focus).
             if \<not> has_focus then Inr \<lparr>se_has_focus = False, se_focused = [], se_skipped = skipped\<rparr>
             else bindR (collect 64 (tr_children tree) only focused contains_focus (tr_root tree) False) (\<lambda>tests.
               Inr \<lparr>se_has_focus = True, se_focused = tests, se_skipped = skipped\<rparr>))))"

section \<open>What a focus means\<close>

text \<open>A focus strictly below a suite, and one at or below it.\<close>

definition inner_focus :: "suite_tree \<Rightarrow> (nat \<Rightarrow> bool) \<Rightarrow> nat set \<Rightarrow> nat \<Rightarrow> bool" where
  "inner_focus T only focused s \<longleftrightarrow>
     (\<exists>m \<in> focused. below T s m) \<or> (\<exists>b. only b \<and> map_of (tr_nodes T) b \<noteq> None \<and> b \<noteq> s \<and> s \<in> set (up (tr_nodes T) b))"

definition has_focus :: "suite_tree \<Rightarrow> (nat \<Rightarrow> bool) \<Rightarrow> nat set \<Rightarrow> nat \<Rightarrow> bool" where
  "has_focus T only focused s \<longleftrightarrow>
     (\<exists>m \<in> focused. below T s m) \<or> (\<exists>b. only b \<and> map_of (tr_nodes T) b \<noteq> None \<and> s \<in> set (up (tr_nodes T) b))"

text \<open>The tests a focus keeps: the focused ones, and those of a focused suite without a focus inside.\<close>

definition kept :: "suite_tree \<Rightarrow> (nat \<Rightarrow> bool) \<Rightarrow> nat set \<Rightarrow> nat \<Rightarrow> bool" where
  "kept T only focused n \<longleftrightarrow> n \<in> focused \<or> (\<exists>a. below T a n \<and> only a \<and> \<not> inner_focus T only focused a)"

definition child_has :: "suite_tree \<Rightarrow> (nat \<Rightarrow> bool) \<Rightarrow> nat set \<Rightarrow> suite_child \<Rightarrow> bool" where
  "child_has T only focused c \<longleftrightarrow> (if ch_suite c then has_focus T only focused (ch_id c) else ch_id c \<in> focused)"

lemma has_focus_iff:
  assumes "tree_ok T" "map_of (tr_nodes T) s \<noteq> None"
  shows "has_focus T only focused s \<longleftrightarrow> only s \<or> inner_focus T only focused s"
proof -
  have "s \<in> set (up (tr_nodes T) s)" using up_parent [OF tree_okD(1) [OF assms(1)] assms(2)] by simp
  then show ?thesis using assms(2) unfolding has_focus_def inner_focus_def by blast
qed

lemma inner_focus_iff:
  assumes "tree_ok T" "map_of (tr_nodes T) s \<noteq> None" "\<forall>m \<in> focused. map_of (tr_tests T) m \<noteq> None"
  shows "inner_focus T only focused s \<longleftrightarrow> (\<exists>c \<in> set (tr_children T s). child_has T only focused c)"
proof -
  note t = tree_okD [OF assms(1)]
  have s0: "s \<noteq> 0" using t(1) assms(2) by (auto simp: rooted_def)
  note d = childrenD [OF assms(1) s0]
  have child: "\<exists>c \<in> set (tr_children T s). ch_suite c \<and> ch_id c = x" if "map_of (tr_nodes T) x \<noteq> None" "parent_of (tr_nodes T) x = s" for x
    using t(6) s0 that unfolding children_ok_def by blast
  have above_: "s \<in> set (up (tr_nodes T) b) \<and> b \<noteq> s" if c: "c \<in> set (tr_children T s)" "ch_suite c" "ch_id c \<in> set (up (tr_nodes T) b)" "map_of (tr_nodes T) b \<noteq> None" for c b
  proof -
    have k: "map_of (tr_nodes T) (ch_id c) \<noteq> None" "parent_of (tr_nodes T) (ch_id c) = s" using d(1) [OF c(1,2)] by simp_all
    have "s \<in> set (up (tr_nodes T) (ch_id c))" using up_parent [OF t(1) k(1)] k(2) up_parent [OF t(1) assms(2)] by simp
    then have "s \<in> set (up (tr_nodes T) b)" using up_mem_trans [OF t(1) c(4,3)] by blast
    moreover have "b \<noteq> s"
    proof
      assume "b = s"
      then have "length (up (tr_nodes T) (ch_id c)) \<le> length (up (tr_nodes T) s)" using up_suffix [OF t(1), of s _ "ch_id c"] assms(2) c(3) by fastforce
      then show False using up_parent [OF t(1) k(1)] k(2) by simp
    qed
    ultimately show ?thesis by blast
  qed
  show ?thesis
  proof
    assume "inner_focus T only focused s"
    then consider m where "m \<in> focused" "below T s m" | b where "only b" "map_of (tr_nodes T) b \<noteq> None" "b \<noteq> s" "s \<in> set (up (tr_nodes T) b)"
      unfolding inner_focus_def by blast
    then show "\<exists>c \<in> set (tr_children T s). child_has T only focused c"
    proof cases
      case 1
      then obtain c where "c \<in> set (tr_children T s)" "if ch_suite c then below T (ch_id c) m else ch_id c = m" using below_iff [OF assms(1,2)] by blast
      then show ?thesis using 1(1) by (intro bexI [of _ c]) (auto simp: child_has_def has_focus_def split: if_splits)
    next
      case 2
      obtain node where "map_of (tr_nodes T) b = Some node" using 2(2) by blast
      then obtain x where x: "map_of (tr_nodes T) x \<noteq> None" "parent_of (tr_nodes T) x = s" "x \<in> set (up (tr_nodes T) b)"
        using child_on_path [OF t(1) _ 2(4)] 2(3) by blast
      obtain c where "c \<in> set (tr_children T s)" "ch_suite c" "ch_id c = x" using child [OF x(1,2)] by blast
      then show ?thesis using 2(1,2) x(3) by (intro bexI [of _ c]) (auto simp: child_has_def has_focus_def)
    qed
  next
    assume "\<exists>c \<in> set (tr_children T s). child_has T only focused c"
    then obtain c where c: "c \<in> set (tr_children T s)" "child_has T only focused c" by blast
    show "inner_focus T only focused s"
    proof (cases "ch_suite c")
      case True
      then consider m where "m \<in> focused" "below T (ch_id c) m" | b where "only b" "map_of (tr_nodes T) b \<noteq> None" "ch_id c \<in> set (up (tr_nodes T) b)"
        using c(2) unfolding child_has_def has_focus_def by auto
      then show ?thesis
      proof cases
        case 1
        then have "below T s m" using below_iff [OF assms(1,2)] c(1) True by auto
        then show ?thesis using 1(1) unfolding inner_focus_def by blast
      next
        case 2
        then show ?thesis using above_ [OF c(1) True 2(3,2)] unfolding inner_focus_def by blast
      qed
    next
      case False
      then have "ch_id c \<in> focused" "below T s (ch_id c)" using c below_iff [OF assms(1,2)] by (auto simp: child_has_def)
      then show ?thesis unfolding inner_focus_def by blast
    qed
  qed
qed

section \<open>The first pass\<close>

definition focus_known :: "suite_tree \<Rightarrow> (nat \<Rightarrow> bool) \<Rightarrow> nat set \<Rightarrow> (nat \<rightharpoonup> bool) \<Rightarrow> bool" where
  "focus_known T only focused cf \<longleftrightarrow> (\<forall>x b. cf x = Some b \<longrightarrow> b = has_focus T only focused x)"

lemma foldR_inv:
  assumes "P [] s" "\<And>ys x zs s. xs = ys @ x # zs \<Longrightarrow> P ys s \<Longrightarrow> \<exists>s'. f x s = Inr s' \<and> P (ys @ [x]) s'"
  shows "\<exists>s'. foldR f xs s = Inr s' \<and> P xs s'"
proof -
  have rest: "xs = ys @ zs \<Longrightarrow> P ys s \<Longrightarrow> \<exists>s'. foldR f zs s = Inr s' \<and> P xs s'" for ys zs s
  proof (induction zs arbitrary: ys s)
    case (Cons x zs)
    obtain s' where s: "f x s = Inr s'" "P (ys @ [x]) s'" using assms(2) [OF Cons.prems] by blast
    then show ?case using Cons.IH [of "ys @ [x]" s'] Cons.prems(1) by simp
  qed simp
  show ?thesis using rest [of "[]" xs s] assms(1) by simp
qed

lemma inspect_ok:
  assumes "tree_ok T" "\<forall>m \<in> focused. map_of (tr_tests T) m \<noteq> None"
    "map_of (tr_nodes T) s \<noteq> None" "length (up (tr_nodes T) s) + k = 65" "focus_known T only focused cf"
  shows "\<exists>cf'. inspect k (tr_children T) only focused s cf = Inr (has_focus T only focused s, cf') \<and> focus_known T only focused cf' \<and>
    (\<forall>x. map_of (tr_nodes T) x \<noteq> None \<longrightarrow> s \<in> set (up (tr_nodes T) x) \<longrightarrow> cf' x \<noteq> None) \<and> dom cf \<subseteq> dom cf'"
  using assms(3-5)
proof (induction k arbitrary: s cf)
  case 0
  then show ?case using up_bound [OF tree_okD(1) [OF assms(1)], of s] by auto
next
  case (Suc k)
  note t = tree_okD [OF assms(1)]
  have s0: "s \<noteq> 0" using t(1) Suc.prems(1) by (auto simp: rooted_def)
  let ?kids = "tr_children T s"
  let ?f = "\<lambda>child (found, contains_focus).
         if ch_suite child
         then bindR (inspect k (tr_children T) only focused (ch_id child) contains_focus) (\<lambda>(nested, contains_focus). Inr (found \<or> nested, contains_focus))
         else Inr (found \<or> ch_id child \<in> focused, contains_focus)"
  let ?P = "\<lambda>kids (found, cf'). (found \<longleftrightarrow> only s \<or> (\<exists>c \<in> set kids. child_has T only focused c)) \<and> focus_known T only focused cf' \<and>
     (\<forall>c x. c \<in> set kids \<longrightarrow> ch_suite c \<longrightarrow> map_of (tr_nodes T) x \<noteq> None \<longrightarrow> ch_id c \<in> set (up (tr_nodes T) x) \<longrightarrow> cf' x \<noteq> None) \<and> dom cf \<subseteq> dom cf'"
  have "\<exists>st. foldR ?f ?kids (only s, cf) = Inr st \<and> ?P ?kids st"
  proof (rule foldR_inv)
    show "?P [] (only s, cf)" using Suc.prems(3) by simp
    fix ys c zs st assume c: "?kids = ys @ c # zs" and st: "?P ys st"
    then have mem: "c \<in> set ?kids" by simp
    obtain found cf1 where st1: "st = (found, cf1)" by fastforce
    have inv: "found \<longleftrightarrow> only s \<or> (\<exists>c \<in> set ys. child_has T only focused c)" "focus_known T only focused cf1"
      "\<And>c x. c \<in> set ys \<Longrightarrow> ch_suite c \<Longrightarrow> map_of (tr_nodes T) x \<noteq> None \<Longrightarrow> ch_id c \<in> set (up (tr_nodes T) x) \<Longrightarrow> cf1 x \<noteq> None" "dom cf \<subseteq> dom cf1"
      using st unfolding st1 prod.case by blast+
    show "\<exists>st'. ?f c st = Inr st' \<and> ?P (ys @ [c]) st'"
    proof (cases "ch_suite c")
      case True
      have k: "map_of (tr_nodes T) (ch_id c) \<noteq> None" "parent_of (tr_nodes T) (ch_id c) = s" using childrenD(1) [OF assms(1) s0 mem True] by simp_all
      have "length (up (tr_nodes T) (ch_id c)) + k = 65" using up_parent [OF t(1) k(1)] k(2) Suc.prems(2) by simp
      then obtain cf2 where i: "inspect k (tr_children T) only focused (ch_id c) cf1 = Inr (has_focus T only focused (ch_id c), cf2)" "focus_known T only focused cf2"
        "\<forall>x. map_of (tr_nodes T) x \<noteq> None \<longrightarrow> ch_id c \<in> set (up (tr_nodes T) x) \<longrightarrow> cf2 x \<noteq> None" "dom cf1 \<subseteq> dom cf2"
        using Suc.IH [OF k(1) _ inv(2)] by blast
      have keep: "cf2 x \<noteq> None" if "cf1 x \<noteq> None" for x using i(4) that by (simp add: domIff subset_iff)
      have "?P (ys @ [c]) (found \<or> has_focus T only focused (ch_id c), cf2)"
        unfolding prod.case
      proof (intro conjI allI impI)
        show "(found \<or> has_focus T only focused (ch_id c)) \<longleftrightarrow> only s \<or> (\<exists>c \<in> set (ys @ [c]). child_has T only focused c)"
          using inv(1) True by (auto simp: child_has_def)
        show "cf2 x \<noteq> None" if "d \<in> set (ys @ [c])" "ch_suite d" "map_of (tr_nodes T) x \<noteq> None" "ch_id d \<in> set (up (tr_nodes T) x)" for d x
          using that inv(3) keep i(3) by (cases "d = c") auto
      qed (use i inv in auto)
      then show ?thesis using True i(1) by (simp add: st1 del: set_append)
    next
      case False
      then show ?thesis using inv by (auto simp: st1 child_has_def)
    qed
  qed
  then obtain found cf1 where f: "foldR ?f ?kids (only s, cf) = Inr (found, cf1)" and p: "?P ?kids (found, cf1)" by fastforce
  have inv: "found \<longleftrightarrow> only s \<or> (\<exists>c \<in> set ?kids. child_has T only focused c)" "focus_known T only focused cf1"
    "\<And>c x. c \<in> set ?kids \<Longrightarrow> ch_suite c \<Longrightarrow> map_of (tr_nodes T) x \<noteq> None \<Longrightarrow> ch_id c \<in> set (up (tr_nodes T) x) \<Longrightarrow> cf1 x \<noteq> None" "dom cf \<subseteq> dom cf1"
    using p unfolding prod.case by blast+
  have found: "found = has_focus T only focused s"
    using inv(1) has_focus_iff [OF assms(1) Suc.prems(1)] inner_focus_iff [OF assms(1) Suc.prems(1) assms(2)] by simp
  let ?cf = "if cf1 s = None then cf1(s \<mapsto> found) else cf1"
  have "?cf x \<noteq> None" if x: "map_of (tr_nodes T) x \<noteq> None" "s \<in> set (up (tr_nodes T) x)" for x
  proof (cases "x = s")
    case False
    obtain node where "map_of (tr_nodes T) x = Some node" using x(1) by blast
    then obtain y where y: "map_of (tr_nodes T) y \<noteq> None" "parent_of (tr_nodes T) y = s" "y \<in> set (up (tr_nodes T) x)"
      using child_on_path [OF t(1) _ x(2)] False by blast
    obtain c where "c \<in> set ?kids" "ch_suite c" "ch_id c = y" using t(6) s0 y(1,2) unfolding children_ok_def by blast
    then have "cf1 x \<noteq> None" using inv(3) x(1) y(3) by blast
    then show ?thesis by simp
  qed simp
  moreover have "focus_known T only focused ?cf" using inv(2) found by (auto simp: focus_known_def)
  moreover have "dom cf \<subseteq> dom ?cf" using inv(4) by auto
  ultimately show ?case using f found by (intro exI [of _ ?cf]) simp
qed

section \<open>The second pass\<close>

lemma inner_focus_up:
  assumes "tree_ok T" "map_of (tr_nodes T) s \<noteq> None" "a \<in> set (up (tr_nodes T) s)" "has_focus T only focused s" "a \<noteq> s"
  shows "inner_focus T only focused a"
proof -
  note t = tree_okD [OF assms(1)]
  consider m where "m \<in> focused" "below T s m" | b where "only b" "map_of (tr_nodes T) b \<noteq> None" "s \<in> set (up (tr_nodes T) b)"
    using assms(4) unfolding has_focus_def by blast
  then show ?thesis
  proof cases
    case 1
    then have "below T a m" using up_mem_trans [OF t(1) t(5), of m s a] assms(3) by (simp add: below_def)
    then show ?thesis using 1(1) unfolding inner_focus_def by blast
  next
    case 2
    have "a \<in> set (up (tr_nodes T) b)" using up_mem_trans [OF t(1) 2(2,3) assms(3)] .
    moreover have "b \<noteq> a"
    proof
      assume "b = a"
      then obtain q r where "up (tr_nodes T) a = q @ up (tr_nodes T) s" "up (tr_nodes T) s = r @ up (tr_nodes T) a"
        using up_suffix [OF t(1)] 2(2,3) assms(2,3) by blast
      then have "up (tr_nodes T) a = up (tr_nodes T) s" by (metis append_eq_append_conv append_self_conv2 length_append le_add2 le_antisym)
      moreover have "map_of (tr_nodes T) a \<noteq> None" using \<open>b = a\<close> 2(2) by simp
      ultimately show False using up_parent [OF t(1)] assms(2,5) by (metis list.inject)
    qed
    ultimately show ?thesis using 2(1,2) unfolding inner_focus_def by blast
  qed
qed

text \<open>Below a child without a focus of a suite with one inside, nothing is kept.\<close>

lemma nothing_kept:
  assumes "tree_ok T" "map_of (tr_nodes T) s \<noteq> None" "inner_focus T only focused s"
    "c \<in> set (tr_children T s)" "\<not> child_has T only focused c" "part_ok T c xs" "n \<in> set xs"
  shows "\<not> kept T only focused n"
proof
  note t = tree_okD [OF assms(1)]
  have s0: "s \<noteq> 0" using t(1) assms(2) by (auto simp: rooted_def)
  note d = childrenD [OF assms(1) s0 assms(4)]
  have up_s: False if "a \<in> set (up (tr_nodes T) s)" "\<not> inner_focus T only focused a" for a
  proof (cases "a = s")
    case False
    then show False using inner_focus_up [OF assms(1,2) that(1)] has_focus_iff [OF assms(1,2)] assms(3) that(2) by blast
  qed (use assms(3) that in simp)
  assume k: "kept T only focused n"
  show False
  proof (cases "ch_suite c")
    case True
    then have c: "map_of (tr_nodes T) (ch_id c) \<noteq> None" "parent_of (tr_nodes T) (ch_id c) = s" "\<not> has_focus T only focused (ch_id c)" "below T (ch_id c) n"
      using d(1) assms(5-7) by (auto simp: child_has_def part_ok_def append_ok_def)
    then have "n \<notin> focused" unfolding has_focus_def by blast
    then obtain a where a: "below T a n" "only a" "\<not> inner_focus T only focused a" using k unfolding kept_def by blast
    have n: "map_of (tr_nodes T) (suite_of T n) \<noteq> None" using t(5) c(4) by (simp add: below_def)
    have a_known: "map_of (tr_nodes T) a \<noteq> None" using up_known [OF t(1)] n a(1) by (fastforce simp: below_def)
    have "ch_id c \<in> set (up (tr_nodes T) a) \<or> a \<in> set (up (tr_nodes T) (ch_id c))"
      using path_comparable [OF t(1) n] a(1) c(4) by (simp add: below_def)
    then show False
    proof
      assume "ch_id c \<in> set (up (tr_nodes T) a)"
      then show False using c(3) a(2) a_known unfolding has_focus_def by blast
    next
      assume "a \<in> set (up (tr_nodes T) (ch_id c))"
      then have "a = ch_id c \<or> a \<in> set (up (tr_nodes T) s)" using up_parent [OF t(1) c(1)] c(2) by simp
      then show False using has_focus_iff [OF assms(1) c(1)] c(3) a(2,3) up_s by blast
    qed
  next
    case False
    then have "n = ch_id c" "suite_of T n = s" "n \<notin> focused" using d(2) assms(5-7) by (auto simp: child_has_def part_ok_def)
    then show False using k up_s unfolding kept_def below_def by blast
  qed
qed

lemma child_focus_ok:
  assumes "tree_ok T" "map_of (tr_nodes T) s \<noteq> None" "focus_known T only focused cf" "\<forall>x. map_of (tr_nodes T) x \<noteq> None \<longrightarrow> cf x \<noteq> None" "c \<in> set (tr_children T s)"
  shows "child_focus cf focused c = Inr (child_has T only focused c)"
proof -
  have s0: "s \<noteq> 0" using tree_okD(1) [OF assms(1)] assms(2) by (auto simp: rooted_def)
  show ?thesis
  proof (cases "ch_suite c")
    case True
    then obtain b where "cf (ch_id c) = Some b" using assms(4) childrenD(1) [OF assms(1) s0 assms(5)] by blast
    then show ?thesis using True assms(3) by (simp add: child_focus_def child_has_def focus_known_def)
  qed (simp add: child_focus_def child_has_def)
qed

lemma mapR_value: "(\<And>x. x \<in> set xs \<Longrightarrow> f x = Inr (g x)) \<Longrightarrow> mapR f xs = Inr (map g xs)"
  by (induction xs) simp_all

lemma collect_ok:
  assumes "tree_ok T" "\<forall>m \<in> focused. map_of (tr_tests T) m \<noteq> None" "focus_known T only focused cf" "\<forall>x. map_of (tr_nodes T) x \<noteq> None \<longrightarrow> cf x \<noteq> None"
    "map_of (tr_nodes T) s \<noteq> None" "length (up (tr_nodes T) s) + k = 65"
    "has_focus T only focused s \<or> inherited \<and> (\<exists>a \<in> set (up (tr_nodes T) s). only a \<and> \<not> inner_focus T only focused a)"
    "Append k (tr_children T) s = Inr xs"
  shows "collect k (tr_children T) only focused cf s inherited = Inr (filter (kept T only focused) xs)"
  using assms(5-8)
proof (induction k arbitrary: s inherited xs)
  case 0
  then show ?case by simp
next
  case (Suc k)
  note t = tree_okD [OF assms(1)]
  have s0: "s \<noteq> 0" using t(1) Suc.prems(1) by (auto simp: rooted_def)
  let ?kids = "tr_children T s" and ?K = "kept T only focused" and ?inner = "inner_focus T only focused s"
  let ?part = "\<lambda>c. if ch_suite c then Append k (tr_children T) (ch_id c) else Inr [ch_id c]"
  have flags: "mapR (child_focus cf focused) ?kids = Inr (map (child_has T only focused) ?kids)"
    by (rule mapR_value) (rule child_focus_ok [OF assms(1) Suc.prems(1) assms(3,4)])
  have desc: "True \<in> set (map (child_has T only focused) ?kids) \<longleftrightarrow> ?inner"
    using inner_focus_iff [OF assms(1) Suc.prems(1) assms(2)] by auto
  obtain parts where parts: "list_all2 (\<lambda>c p. ?part c = Inr p) ?kids parts" "xs = concat parts"
    using Suc.prems(4) by (auto simp: bindR_eq_Inr mapR_Inr)
  let ?g = "\<lambda>(child, flag). if \<not> (if ?inner then flag else inherited \<or> only s) then Inr []
          else if ch_suite child then collect k (tr_children T) only focused cf (ch_id child) (inherited \<or> only s)
          else Inr [ch_id child]"
  have top_: "\<exists>a \<in> set (up (tr_nodes T) s). only a \<and> \<not> inner_focus T only focused a" "inherited \<or> only s" if "\<not> ?inner"
  proof -
    have "s \<in> set (up (tr_nodes T) s)" using up_parent [OF t(1) Suc.prems(1)] by simp
    then show "\<exists>a \<in> set (up (tr_nodes T) s). only a \<and> \<not> inner_focus T only focused a" "inherited \<or> only s"
      using Suc.prems(3) has_focus_iff [OF assms(1) Suc.prems(1)] that by blast+
  qed
  have one: "?g (c, child_has T only focused c) = Inr (filter ?K p)" if c: "c \<in> set ?kids" "?part c = Inr p" for c p
  proof -
    have len: "length (up (tr_nodes T) (ch_id c)) + k = 65" "map_of (tr_nodes T) (ch_id c) \<noteq> None" "up (tr_nodes T) (ch_id c) = ch_id c # up (tr_nodes T) s" if "ch_suite c"
    proof -
      have k: "map_of (tr_nodes T) (ch_id c) \<noteq> None" "parent_of (tr_nodes T) (ch_id c) = s" using childrenD(1) [OF assms(1) s0 c(1) that] by simp_all
      show "length (up (tr_nodes T) (ch_id c)) + k = 65" "map_of (tr_nodes T) (ch_id c) \<noteq> None" "up (tr_nodes T) (ch_id c) = ch_id c # up (tr_nodes T) s"
        using up_parent [OF t(1) k(1)] k Suc.prems(2) by simp_all
    qed
    have part: "part_ok T c p"
    proof (cases "ch_suite c")
      case True
      then show ?thesis using Append_ok [OF assms(1) len(2,1)] c(2) by (auto simp: part_ok_def)
    qed (use c in \<open>simp add: part_ok_def\<close>)
    show ?thesis
    proof (cases "if ?inner then child_has T only focused c else inherited \<or> only s")
      case sel: True
      show ?thesis
      proof (cases "ch_suite c")
        case True
        have "has_focus T only focused (ch_id c) \<or> (inherited \<or> only s) \<and> (\<exists>a \<in> set (up (tr_nodes T) (ch_id c)). only a \<and> \<not> inner_focus T only focused a)"
          using sel top_ len(3) [OF True] True by (cases ?inner) (auto simp: child_has_def)
        then have "collect k (tr_children T) only focused cf (ch_id c) (inherited \<or> only s) = Inr (filter ?K p)"
          using Suc.IH [OF len(2,1) _ ] True c(2) by simp
        then show ?thesis using True sel by simp
      next
        case False
        then have n: "p = [ch_id c]" "map_of (tr_tests T) (ch_id c) \<noteq> None" "suite_of T (ch_id c) = s" using c childrenD(2) [OF assms(1) s0 c(1)] by simp_all
        have "?K (ch_id c)" using sel top_(1) n False by (cases ?inner) (auto simp: kept_def below_def child_has_def)
        then show ?thesis using False sel n(1) by simp
      qed
    next
      case False
      then have "?inner" "\<not> child_has T only focused c" using top_(2) by (auto split: if_splits)
      then have "filter ?K p = []" using nothing_kept [OF assms(1) Suc.prems(1) _ c(1) _ part] by (auto simp: filter_empty_conv)
      then show ?thesis using False by simp
    qed
  qed
  have "mapR ?g (zip ?kids (map (child_has T only focused) ?kids)) = Inr (map (filter ?K) parts)"
    unfolding mapR_Inr list_all2_conv_all_nth
  proof (intro conjI allI impI)
    show "length (zip ?kids (map (child_has T only focused) ?kids)) = length (map (filter ?K) parts)" using list_all2_lengthD [OF parts(1)] by simp
    fix i assume "i < length (zip ?kids (map (child_has T only focused) ?kids))"
    then have i: "i < length ?kids" by simp
    then have "?g (?kids ! i, child_has T only focused (?kids ! i)) = Inr (filter ?K (parts ! i))"
      by (intro one nth_mem list_all2_nthD [OF parts(1)])
    then show "?g (zip ?kids (map (child_has T only focused) ?kids) ! i) = Inr (map (filter ?K) parts ! i)"
      using i list_all2_lengthD [OF parts(1)] by simp
  qed
  then show ?case unfolding collect.simps flags bindR_simps Let_def desc parts(2) by (simp add: filter_concat)
qed

section \<open>The reasons for skipping\<close>

text \<open>The reason of the nearest suite on a path that gives one.\<close>

fun nearest_skip :: "modifier_map \<Rightarrow> nat list \<Rightarrow> string option" where
  "nearest_skip modifiers [] = None"
| "nearest_skip modifiers (s # rest) = (case modifier_skip modifiers s of Some reason \<Rightarrow> Some reason | None \<Rightarrow> nearest_skip modifiers rest)"

lemma skip_walk_path: "path_up k nodes s = Inr p \<Longrightarrow> skip_walk k nodes modifiers s = Inr (nearest_skip modifiers p)"
proof (induction k arbitrary: s p)
  case 0
  then show ?case by (cases rule: path_up_cases) (simp_all add: skip_walk.simps [of 0])
next
  case (Suc k)
  from Suc.prems show ?case
  proof (cases rule: path_up_cases)
    case (2 k' node q)
    then show ?thesis using Suc.IH [of "sd_parent node" q] by (simp add: skip_walk.simps [of "Suc k'"] split: option.splits)
  qed (simp add: skip_walk.simps [of "Suc k"])
qed

lemma map_of_insort: "k \<notin> fst ` set xs \<Longrightarrow> map_of (insort_key fst (k, v) xs) = (map_of xs)(k \<mapsto> v)"
  by (induction xs) (auto simp: fun_eq_iff)

definition skip_reason :: "suite_tree \<Rightarrow> modifier_map \<Rightarrow> (nat \<times> string) list \<Rightarrow> nat \<Rightarrow> string option" where
  "skip_reason T modifiers skipped n =
     (case map_of skipped n of
        Some reason \<Rightarrow> Some reason
      | None \<Rightarrow> if map_of (tr_tests T) n = None then None else nearest_skip modifiers (rev (path_of T n)))"

lemma skip_loop_ok:
  assumes "tree_ok T" "distinct (map fst (tr_tests T))"
  shows "\<exists>sk. foldR (skip_test (tr_nodes T) modifiers) (tr_tests T) skipped = Inr sk \<and> (\<forall>n. map_of sk n = skip_reason T modifiers skipped n)"
proof -
  let ?reason = "\<lambda>n. nearest_skip modifiers (rev (path_of T n))"
  let ?P = "\<lambda>ys sk. \<forall>n. map_of sk n = (case map_of skipped n of Some r \<Rightarrow> Some r | None \<Rightarrow> if n \<in> fst ` set ys then ?reason n else None)"
  have "\<exists>sk. foldR (skip_test (tr_nodes T) modifiers) (tr_tests T) skipped = Inr sk \<and> ?P (tr_tests T) sk"
  proof (rule foldR_inv)
    show "?P [] skipped" by (simp split: option.splits)
    fix ys entry zs sk assume e: "tr_tests T = ys @ entry # zs" and sk: "?P ys sk"
    obtain n test where nt: "entry = (n, test)" by fastforce
    have fresh: "n \<notin> fst ` set ys" using assms(2) by (auto simp: e nt)
    have look: "map_of (tr_tests T) n = Some test" using map_of_eq_Some_iff [OF assms(2)] by (simp add: e nt)
    then have "suite_of T n = td_suite test" by (simp add: suite_of_def)
    then have walk: "skip_walk 64 (tr_nodes T) modifiers (td_suite test) = Inr (?reason n)"
      using skip_walk_path path_known(2) [OF assms(1), of n] look by fastforce
    show "\<exists>sk'. skip_test (tr_nodes T) modifiers entry sk = Inr sk' \<and> ?P (ys @ [entry]) sk'"
    proof (cases "map_of sk n")
      case None
      have none: "map_of skipped n = None" using sk [THEN spec, of n] None by (cases "map_of skipped n") simp_all
      have "n \<notin> fst ` set sk" using None by (simp add: map_of_eq_None_iff)
      with none have free: "map_of skipped n = None" "n \<notin> fst ` set sk" by blast+
      show ?thesis
      proof (cases "?reason n")
        case n: None
        have "?P (ys @ [entry]) sk" using sk n by (auto simp: nt split: option.splits)
        then show ?thesis using None walk n by (simp add: skip_test_def nt)
      next
        case (Some r)
        have "?P (ys @ [entry]) (insort_key fst (n, r) sk)" unfolding map_of_insort [OF free(2)] using sk Some free(1) by (auto simp: nt)
        then show ?thesis using None walk Some by (simp add: skip_test_def nt)
      qed
    next
      case (Some r)
      have "?P (ys @ [entry]) sk" using sk Some fresh by (auto simp: nt split: option.splits)
      then show ?thesis using Some by (simp add: skip_test_def nt)
    qed
  qed
  then obtain sk where sk: "foldR (skip_test (tr_nodes T) modifiers) (tr_tests T) skipped = Inr sk" "?P (tr_tests T) sk" by blast
  have "map_of (tr_tests T) n = None \<longleftrightarrow> n \<notin> fst ` set (tr_tests T)" for n by (simp add: map_of_eq_None_iff)
  then show ?thesis using sk by (auto simp: skip_reason_def split: option.splits)
qed

section \<open>The selection of the modifiers\<close>

text \<open>
  C34: In an accepted tree the modifiers are resolved unless one names an unknown owner, which is an error of
  the source's own. There is a focus if a test or a suite is focused. The tests it keeps are, in declaration
  order, the focused tests and the tests of focused suites inside which nothing is focused. A test is skipped
  for its own reason or else for that of the nearest enclosing suite that gives one, and for no other.
\<close>

theorem modifiers_resolved:
  assumes "NativeSuiteTree suites tests = Inr T"
  shows "if fst ` set modifiers \<subseteq> fst ` set (tr_nodes T) \<and> focused \<subseteq> td_id ` set tests \<and> fst ` set skipped \<subseteq> td_id ` set tests
    then \<exists>result. ResolveModifiers T modifiers focused skipped = Inr result \<and>
      (se_has_focus result \<longleftrightarrow> focused \<noteq> {} \<or> (\<exists>s. only_suite modifiers s)) \<and>
      se_focused result = (if se_has_focus result then filter (kept T (only_suite modifiers) focused) (tr_order T) else []) \<and>
      (\<forall>n. map_of (se_skipped result) n = skip_reason T modifiers skipped n)
    else \<exists>m. ResolveModifiers T modifiers focused skipped = Inl (Runtime_error m)"
proof -
  note t = NativeSuiteTree_ok [OF assms] and o = order_tests [OF assms] and k = tree_okD [OF NativeSuiteTree_ok(1) [OF assms]]
  let ?only = "only_suite modifiers"
  have ids: "fst ` set (tr_tests T) = td_id ` set tests" using o(1,2) by (metis (no_types, lifting) Collect_cong dom_def dom_map_of_conv_image_fst)
  have unknown: "list_ex (\<lambda>(n, _). map_of m n = None) xs \<longleftrightarrow> \<not> fst ` set xs \<subseteq> fst ` set m" for m :: "(nat \<times> 'c) list" and xs :: "(nat \<times> 'd) list"
    by (auto simp: list_ex_iff map_of_eq_None_iff subset_iff image_iff) force+
  show ?thesis
  proof (cases "fst ` set modifiers \<subseteq> fst ` set (tr_nodes T) \<and> focused \<subseteq> td_id ` set tests \<and> fst ` set skipped \<subseteq> td_id ` set tests")
    case ok: True
    have "focused \<subseteq> {n. map_of (tr_tests T) n \<noteq> None}" using ok unfolding o(1) [symmetric] o(2) by simp
    then have foc: "\<forall>m \<in> focused. map_of (tr_tests T) m \<noteq> None" by blast
    have only: "map_of (tr_nodes T) s \<noteq> None" if "?only s" for s
    proof -
      have "s \<in> fst ` set modifiers" using that by (metis map_of_eq_None_iff only_suite_def option.simps(4))
      then show ?thesis using ok by (auto simp: map_of_eq_None_iff)
    qed
    obtain sk where sk: "foldR (skip_test (tr_nodes T) modifiers) (tr_tests T) skipped = Inr sk" "\<forall>n. map_of sk n = skip_reason T modifiers skipped n"
      using skip_loop_ok [OF t(1,6)] by blast
    have "up (tr_nodes T) (tr_root T) = [tr_root T]" using up_parent [OF k(1,2)] k(3) by simp
    then have len: "length (up (tr_nodes T) (tr_root T)) + 64 = 65" by simp
    have "focus_known T ?only focused Map.empty" by (simp add: focus_known_def)
    then obtain cf where cf: "inspect 64 (tr_children T) ?only focused (tr_root T) Map.empty = Inr (has_focus T ?only focused (tr_root T), cf)"
      "focus_known T ?only focused cf" "\<forall>x. map_of (tr_nodes T) x \<noteq> None \<longrightarrow> tr_root T \<in> set (up (tr_nodes T) x) \<longrightarrow> cf x \<noteq> None"
      using inspect_ok [OF t(1) foc k(2) len] by blast
    then have all: "\<forall>x. map_of (tr_nodes T) x \<noteq> None \<longrightarrow> cf x \<noteq> None" using k(4) by blast
    have root: "has_focus T ?only focused (tr_root T) \<longleftrightarrow> focused \<noteq> {} \<or> (\<exists>s. ?only s)"
      using foc only k(4,5) unfolding has_focus_def below_def by blast
    have rest: "collect 64 (tr_children T) ?only focused cf (tr_root T) False = Inr (filter (kept T ?only focused) (tr_order T))" if "has_focus T ?only focused (tr_root T)"
      using collect_ok [OF t(1) foc cf(2) all k(2) len _ NativeSuiteTree_order [OF assms]] that by blast
    have "ResolveModifiers T modifiers focused skipped = Inr \<lparr>se_has_focus = has_focus T ?only focused (tr_root T),
        se_focused = (if has_focus T ?only focused (tr_root T) then filter (kept T ?only focused) (tr_order T) else []), se_skipped = sk\<rparr>"
      using ok rest by (simp add: ResolveModifiers_def unknown ids sk(1) cf(1) Let_def)
    then show ?thesis using ok root sk(2) by simp
  next
    case False
    then have "\<exists>m. ResolveModifiers T modifiers focused skipped = Inl (Runtime_error m)"
      by (auto simp: ResolveModifiers_def unknown ids suite_error_def)
    then show ?thesis unfolding if_not_P [OF False] .
  qed
qed

text \<open>The inner suite of the example is focused and skipped, and one test has a reason of its own.\<close>

theorem modifiers_resolved_witness:
  "\<exists>result. ResolveModifiers example_tree [(2, \<lparr>sm_only = True, sm_skip = Some ''slow''\<rparr>)] {} [(10, ''broken'')] = Inr result \<and>
    se_has_focus result \<and> se_focused result = [20] \<and> map_of (se_skipped result) 20 = Some ''slow'' \<and> map_of (se_skipped result) 10 = Some ''broken'' \<and>
    map_of (se_skipped result) 30 = None"
proof -
  let ?m = "[(2, \<lparr>sm_only = True, sm_skip = Some ''slow''\<rparr>)] :: modifier_map" and ?s = "[(10, ''broken'')] :: (nat \<times> string) list"
  have root: "path_up 64 example_nodes 1 = Inr [1]" and suite: "path_up 64 example_nodes 2 = Inr [2, 1]" by code_simp+
  have ups: "up example_nodes 1 = [1]" "up example_nodes 2 = [2, 1]" unfolding up_def root suite by simp_all
  have nodes: "tr_nodes example_tree = example_nodes" and order: "tr_order example_tree = [10, 20, 30]"
    and tests: "tr_tests example_tree = map (\<lambda>d. (td_id d, d)) example_tests" by (simp_all add: example_tree_def)
  have known: "fst ` set ?m \<subseteq> fst ` set (tr_nodes example_tree) \<and> {} \<subseteq> td_id ` set example_tests \<and> fst ` set ?s \<subseteq> td_id ` set example_tests"
    by (simp add: nodes example_nodes_def example_suites_def example_tests_def)
  have only: "only_suite ?m = (\<lambda>s. s = 2)" by (simp add: fun_eq_iff only_suite_def)
  have inner: "\<not> inner_focus example_tree (\<lambda>s. s = 2) {} 2" by (simp add: inner_focus_def)
  have paths: "path_of example_tree 10 = [1]" "path_of example_tree 20 = [1, 2]" "path_of example_tree 30 = [1]"
    by (simp_all add: path_of_def suite_of_def tests nodes example_tests_def ups del: One_nat_def)
  have below: "below example_tree 2 n \<longleftrightarrow> n = 20" if "n \<in> {10, 20, 30}" for n
    using that by (auto simp: below_def suite_of_def tests nodes example_tests_def ups ups [unfolded One_nat_def])
  have kept: "filter (kept example_tree (\<lambda>s. s = 2) {}) [10, 20, 30] = [20]" using inner by (simp add: kept_def below)
  obtain result where r: "ResolveModifiers example_tree ?m {} ?s = Inr result" "se_has_focus result"
    "se_focused result = [20]" "\<forall>n. map_of (se_skipped result) n = skip_reason example_tree ?m ?s n"
    using modifiers_resolved [OF example_tree, of ?m "{}" ?s, unfolded if_P [OF known]] only kept by (auto simp: order)
  have "skip_reason example_tree ?m ?s 20 = Some ''slow''" "skip_reason example_tree ?m ?s 10 = Some ''broken''" "skip_reason example_tree ?m ?s 30 = None"
    by (simp_all add: skip_reason_def paths modifier_skip_def tests example_tests_def)
  then show ?thesis using r by metis
qed

end
