(* ===== verification/Spec2Isabelle.thy ===== *)
theory Spec2Isabelle
  imports GrepRun GrepLanguage SerialGroup FileGroups CallbackRetries SuiteWorker WorkerReuse WorkLocks SuiteModifiers
begin

text \<open>
  The planning core of SuiteCut's native test runner (\<open>native/runner/\<close>, header-only C++): what decides which
  tests run, in which order, in which worker, how often, and under which locks. The runner's event loop feeds
  these classes with receipts (a worker started, a process exited, a result arrived) and carries out what they
  answer; they never touch a process or a file themselves. They are modelled operation by operation.

  The way a run goes through the parts:
  the command line's title expression is compiled and matched by one of two engines (\<open>grep_vm.h\<close>,
  \<open>grep_pattern.h\<close>); the project configuration becomes a graph and patterns select from it (\<open>project_plan.h\<close>,
  \<open>project_pattern.h\<close>); a declaration of suites becomes a tree with an order of tests, hooks and a focus
  (\<open>suite_tree.h\<close>); the selected tests are divided into work groups (\<open>test_group_tree.h\<close>,
  \<open>test_work_groups.h\<close>, \<open>file_work_groups.h\<close>); a pool admits projects or groups as dependencies and capacity
  allow (\<open>project_pool.h\<close>, \<open>work_group_pool.h\<close>, \<open>file_group_pool.h\<close>), asking the locks of the declared
  resources (\<open>resource_locks.h\<close>, \<open>work_group_locks.h\<close>, \<open>file_group_locks.h\<close>,
  \<open>resource_lock_declarations.h\<close>); a worker process runs the routes of its tests through the suites
  (\<open>suite_worker_plan.h\<close>) and may be lent again (\<open>worker_reuse_pool.h\<close>); unexpected outcomes are retried per
  test, per serial group or per callback (\<open>retry_plan.h\<close>, \<open>serial_group.h\<close>, \<open>callback_retry_schedule.h\<close>).

  \<^bold>\<open>Conventions.\<close> A class is a record with the source's members, a member function a definition on it that
  returns its value and the new record. \<open>Prelude\<close>: a C++ exception is a value of \<open>error\<close>, a result is
  \<open>error + 'a\<close> chained by \<open>bindR\<close>; an access out of range of \<open>operator[]\<close> is \<open>Undefined_behaviour\<close>,
  of \<open>at\<close> is \<open>Out_of_range\<close>, and \<open>fatal\<close> are the ends the sources must never meet. Where a throwing operation
  leaves changes behind (the callback schedule, the matching engines with their budget) the state is returned
  with the exception. Unsigned integers are natural numbers with the sources' own capacity checks written out;
  where they wrap, the modulus is written out; bitsets are machine words; times are IEEE doubles (\<open>Doubles\<close>).
  Maps are association lists in the order of their keys where that order matters, else partial functions.
  Parameters of the model: the Unicode tables generated from the Unicode database (\<open>tables_ok\<close> says what
  the code relies on), the stop callback, clocks, process numbers, and the answers of a worker's process.

  \<^bold>\<open>The title expression.\<close> \<open>GrepWork\<close> (\<open>grep_work.h\<close>: budget), \<open>GrepUnicode\<close> (table lookups), \<open>GrepRanges\<close>
  (set arithmetic of character classes), \<open>GrepSyntax\<close> (parser), \<open>GrepScan\<close> and \<open>GrepTree\<close> (its safety and the
  arena invariant), \<open>GrepCompile\<close> (code generation, size estimate, constructor), \<open>GrepRun\<close> (the backtracking
  machine), \<open>GrepPattern\<close> (the automaton engine) and \<open>GrepLanguage\<close> (the relations that automata mean). Shown:
  class operations compute the set operations; the constructor ends, throws its own errors only and builds a
  well-formed program; every run on a well-formed program stays in range, within its budget and its memory
  account, which it balances. The locales \<open>interval_sets\<close>, \<open>group_parser\<close> and \<open>subroutine\<close> state what sets of
  ranges, recursive parsers and nested runs promise; they are interpreted on the engine's own functions.
  Parser loops carry the units left to read as fuel and the machine one more than the budget's units; both
  are shown never to be used up, since a step reads or charges at least one.

  \<^bold>\<open>Projects.\<close> \<open>ProjectPattern\<close> (the bit-parallel matcher decides the glob), \<open>ProjectGraph\<close> (exactly the
  configurations that obey the rules by name are accepted; selections are closures), \<open>ProjectPool\<close> (the serial
  plan and the pool of up to eight workers: order, progress, bounds, and the serial plan simulated by the pool).

  \<^bold>\<open>Locks.\<close> \<open>JsonText\<close> (names on the wire), \<open>ResourceLocks\<close> (the locks, generic in the owner; the locale
  \<open>reservations\<close> states what a pool promises to its locks: a reservation lasts until a receipt, and a receipt is
  never taken back; its sublocale is the machine of pool and locks together; interpreted on the project pool
  here, on the pool of a file's groups in \<open>FileGroups\<close> and on the pool of work groups in \<open>WorkLocks\<close>),
  \<open>LockNames\<close> (declarations, and the names a group inherits from file, suites and tests).

  \<^bold>\<open>Groups.\<close> \<open>TestGroups\<close> (work groups are a partition of the selected tests that respects serial and parallel
  suites), \<open>FileGroups\<close> (the pool of one file, and its numbered locks as a refinement of the named ones),
  \<open>WorkPool\<close> and \<open>WorkLocks\<close> (the pool of all projects' groups and the whole composition: accepted
  declarations give names that the locks accept, and holders never share an inherited name).

  \<^bold>\<open>Suites.\<close> \<open>SuiteTree\<close> (construction, order, hooks, routes), \<open>SuiteModifiers\<close> (focus and skips against a
  reference by name), \<open>SuiteWorker\<close> (the operations of one worker: consistency, nesting of hooks, accounting
  of tests). The recursions over the tree carry 64 as fuel, the depth bound the constructor enforces; for an
  accepted tree it is never used up.

  \<^bold>\<open>Retries and reuse.\<close> \<open>RetryPlan\<close>, \<open>SerialGroup\<close>, \<open>CallbackRetries\<close>, \<open>WorkerReuse\<close>: fences between
  attempts, numbering, failure limits, bounds and termination over all histories, and the conditions under
  which a worker process is lent again. \<open>Machines\<close> holds what these arguments share: a component is a step
  relation labelled by its calls, \<open>trace\<close> its histories, the locale \<open>machine\<close> an invariant of all calls and
  \<open>ranked_machine\<close> a rank that bounds the productive ones; every component with state interprets it.

  \<^bold>\<open>Not modelled.\<close> The browser engine (\<open>native/browser\<close>), the client SDK (\<open>native/client\<close>), scripts, packages
  and site; in the runner the parts whose effect is that of the operating system: processes, sockets, files,
  attachments, output directories, the reports written at the end, and the event loop of \<open>native_runner.cc\<close>.
  Fixtures, hook phases and the ledger of test steps are not modelled.
\<close>

end
